(* ===== verification/Prelude.thy ===== *)
theory Prelude
  imports Main "HOL-Library.Word"
begin

text \<open>
  Shared vocabulary of the development: the fixed-width integer types of the C
  code, the status codes of \<^verbatim>\<open>inc/Def.h\<close>, the byte-list operations that stand
  for buffers, and the generic lemmas on lists and words that every component
  uses. The loop combinator \<open>absorb\<close> is the recurring
  \<^verbatim>\<open>while (length >= n) { f(data); data += n; length -= n; }\<close> of the library.
\<close>

unbundle bit_operations_syntax

section \<open>Machine integers and status codes\<close>

type_synonym byte = "8 word"
type_synonym u16 = "16 word"
type_synonym u32 = "32 word"
type_synonym u64 = "64 word"
type_synonym alg_id = int

datatype status =
    SUCCESS
  | INVALID_ARGUMENT
  | INVALID_ALG_ID
  | UNSUPPORTED_ALGORITHM
  | BUFFER_TOO_SMALL
  | ALLOCATION_FAILED
  | RANDOM_FAILED
  | INVALID_KEY
  | MESSAGE_TOO_LARGE
  | PRIME_GENERATION_FAILED
  | ARITHMETIC
  | INTERNAL
  | AUTHENTICATION_FAILED
  | RESEED_REQUIRED
  | SIGNATURE_INVALID

named_theorems word_nat \<open>reading word operations as natural numbers\<close>
named_theorems lengths \<open>lengths of the buffers the operations return\<close>

section \<open>Byte buffers\<close>

abbreviation xor_bytes :: "'a::semiring_bit_operations list \<Rightarrow> 'a list \<Rightarrow> 'a list" where
  "xor_bytes \<equiv> map2 (XOR)"

abbreviation zeroes :: "nat \<Rightarrow> byte list" where
  "zeroes n \<equiv> replicate n 0"

lemma xor_bytes_cancel:
  fixes xs :: "'a::len word list"
  shows "length xs \<le> length ks \<Longrightarrow> xor_bytes (xor_bytes xs ks) ks = xs"
  by (induction xs ks rule: list_induct2') (auto simp: xor.assoc)

lemma xor_bytes_commute:
  fixes xs :: "'a::len word list"
  shows "xor_bytes xs ys = xor_bytes ys xs"
  by (induction xs ys rule: list_induct2') (auto simp: xor.commute)

lemma xor_bytes_take [simp]:
  "take n (xor_bytes xs ys) = xor_bytes (take n xs) (take n ys)"
  by (simp add: take_map take_zip)

lemma xor_bytes_append:
  "length xs = length ks \<Longrightarrow> xor_bytes (xs @ ys) (ks @ ls) = xor_bytes xs ks @ xor_bytes ys ls"
  by simp

fun nat_of_le :: "byte list \<Rightarrow> nat" where
  "nat_of_le [] = 0"
| "nat_of_le (b # bs) = unat b + 256 * nat_of_le bs"

fun le_of_nat :: "nat \<Rightarrow> nat \<Rightarrow> byte list" where
  "le_of_nat 0 v = []"
| "le_of_nat (Suc k) v = of_nat v # le_of_nat k (v div 256)"

lemma length_le_of_nat [simp, lengths]: "length (le_of_nat k v) = k"
  by (induction k arbitrary: v) auto

lemma unat_of_nat_byte [simp]: "unat (of_nat v :: byte) = v mod 256"
  by (simp add: unat_of_nat)

lemma nat_of_le_of_nat [simp]: "nat_of_le (le_of_nat k v) = v mod 256 ^ k"
  by (induction k arbitrary: v) (auto simp: mod_mult2_eq)

lemma unat_byte_less: "unat (b :: byte) < 256"
  by (rule order_less_le_trans [OF unsigned_less]) simp

lemma le_of_nat_of_le [simp]: "length bs = k \<Longrightarrow> le_of_nat k (nat_of_le bs) = bs"
proof (induction bs arbitrary: k)
  case (Cons b bs)
  have "unat b < 256" by (rule unat_byte_less)
  then have "(unat b + 256 * nat_of_le bs) div 256 = nat_of_le bs" by simp
  moreover have "(256 :: byte) = 0" by simp
  then have "256 * v = (0 :: byte)" for v by (simp only: mult_zero_left)
  ultimately show ?case using Cons by (cases k) (auto simp: of_nat_add)
qed simp

lemma nat_of_le_bound: "nat_of_le bs < 256 ^ length bs"
proof (induction bs)
  case (Cons b bs)
  have "unat b < 256" by (rule unat_byte_less)
  then have "unat b + 256 * nat_of_le bs < 256 * Suc (nat_of_le bs)" by simp
  also have "\<dots> \<le> 256 * 256 ^ length bs" using Cons by simp
  finally show ?case by simp
qed simp

lemma nat_of_le_append: "nat_of_le (xs @ ys) = nat_of_le xs + 256 ^ length xs * nat_of_le ys"
  by (induction xs) (auto simp: algebra_simps)

text \<open>The same values, most significant byte first.\<close>

definition nat_of_be :: "byte list \<Rightarrow> nat" where
  "nat_of_be bs = nat_of_le (rev bs)"

definition be_of_nat :: "nat \<Rightarrow> nat \<Rightarrow> byte list" where
  "be_of_nat k v = rev (le_of_nat k v)"

lemma length_be_of_nat [simp, lengths]: "length (be_of_nat k v) = k"
  by (simp add: be_of_nat_def)

lemma nat_of_be_of_nat [simp]: "nat_of_be (be_of_nat k v) = v mod 256 ^ k"
  by (simp add: nat_of_be_def be_of_nat_def)

lemma be_of_nat_of_be [simp]: "length bs = k \<Longrightarrow> be_of_nat k (nat_of_be bs) = bs"
  by (simp add: nat_of_be_def be_of_nat_def)

lemma nth_le_of_nat: "i < k \<Longrightarrow> le_of_nat k v ! i = of_nat (v div 256 ^ i)"
  by (induction k arbitrary: i v) (auto simp: nth_Cons' div_mult2_eq [symmetric] gr0_conv_Suc)

lemma be_of_nat_eq: "be_of_nat k v = map (\<lambda>i. of_nat (v div 256 ^ (k - 1 - i))) [0..<k]"
  by (rule nth_equalityI) (simp_all add: be_of_nat_def rev_nth nth_le_of_nat)

section \<open>Word operations as natural numbers\<close>

lemma unat_push_bit [word_nat]:
  "unat (push_bit k (w :: 'a::len word)) = (unat w * 2 ^ k) mod 2 ^ LENGTH('a)"
  by (simp only: unsigned_push_bit_eq take_bit_eq_mod) (simp add: push_bit_eq_mult)

lemma unat_drop_bit [word_nat]:
  "unat (drop_bit k (w :: 'a::len word)) = unat w div 2 ^ k"
  by (simp only: unsigned_drop_bit_eq take_bit_eq_mod) (simp add: drop_bit_eq_div)

lemma uint_drop_bit_div:
  "uint (drop_bit k (w :: 'a::len word)) = uint w div 2 ^ k"
  by (simp only: unsigned_drop_bit_eq take_bit_eq_mod) (simp add: drop_bit_eq_div)

lemma unat_and_mask [word_nat]:
  "unat (w AND mask k) = unat (w :: 'a::len word) mod 2 ^ k"
  by (simp only: unsigned_take_bit_eq take_bit_eq_mask [symmetric])
    (simp add: take_bit_eq_mod)

lemma or_eq_add_nat: "a < 2 ^ k \<Longrightarrow> 2 ^ k dvd b \<Longrightarrow> a OR b = a + (b :: nat)"
proof -
  assume a: "a < 2 ^ k" and b: "2 ^ k dvd b"
  have "a AND b = 0"
  proof (rule bit_eqI)
    fix i
    have "\<not> bit a i" if "k \<le> i"
      using a that by (metis bit_take_bit_iff leD take_bit_nat_eq_self)
    moreover have "\<not> bit b i" if "i < k"
      using b that by (auto elim!: dvdE simp: bit_push_bit_iff_nat simp flip: push_bit_eq_mult mult.commute)
    moreover have "k \<le> i \<or> i < k" by linarith
    ultimately show "bit (a AND b) i \<longleftrightarrow> bit (0 :: nat) i"
      by (auto simp: bit_and_iff)
  qed
  then show ?thesis by (simp add: disjunctive_add_eq_or)
qed

text \<open>An \<open>OR\<close> of a low part with a shifted high part is a sum.\<close>

lemma unat_or_push_bit:
  fixes a b :: "'a::len word"
  assumes "unat a < 2 ^ k" and "k \<le> LENGTH('a)"
  shows "unat (a OR push_bit k b) = unat a + (unat b * 2 ^ k) mod 2 ^ LENGTH('a)"
proof -
  have "2 ^ k dvd (unat b * 2 ^ k) mod 2 ^ LENGTH('a)"
    using assms(2) by (simp add: dvd_mod le_imp_power_dvd)
  then show ?thesis
    using assms(1) by (simp add: unsigned_or_eq unat_push_bit or_eq_add_nat)
qed

lemma unat_join:
  fixes a b :: "'a::len word"
  assumes "unat a < 2 ^ k" and "unat b * 2 ^ k < 2 ^ LENGTH('a)" and "k \<le> LENGTH('a)"
  shows "unat (a OR push_bit k b) = unat a + unat b * 2 ^ k"
  using assms by (simp add: unat_or_push_bit)

lemma unat_ucast [word_nat]:
  "unat (ucast (w :: 'a::len word) :: 'b::len word) = unat w mod 2 ^ LENGTH('b)"
  by (simp only: unsigned_ucast_eq take_bit_eq_mod)

lemma unat_add_small:
  "unat a + unat b < 2 ^ LENGTH('a) \<Longrightarrow> unat (a + b) = unat a + unat (b :: 'a::len word)"
  by (simp add: unat_word_ariths)

lemma unat_mult_small:
  "unat a * unat b < 2 ^ LENGTH('a) \<Longrightarrow> unat (a * b) = unat a * unat (b :: 'a::len word)"
  by (simp add: unat_word_ariths)

lemma unat_u32_less: "unat (w :: u32) < 4294967296"
  by (rule order_less_le_trans [OF unsigned_less]) simp

lemma unat_u64_less: "unat (w :: u64) < 18446744073709551616"
  by (rule order_less_le_trans [OF unsigned_less]) simp

section \<open>Consuming a buffer in fixed-size blocks\<close>

function absorb :: "nat \<Rightarrow> ('s \<Rightarrow> 'a list \<Rightarrow> 's) \<Rightarrow> 's \<Rightarrow> 'a list \<Rightarrow> 's" where
  "absorb n f s xs =
     (if 0 < n \<and> n \<le> length xs then absorb n f (f s (take n xs)) (drop n xs) else s)"
  by pat_completeness auto
termination
  by (relation "measure (\<lambda>(n, f, s, xs). length xs)") auto

declare absorb.simps [simp del]

definition leftover :: "nat \<Rightarrow> 'a list \<Rightarrow> 'a list" where
  "leftover n xs = drop (n * (length xs div n)) xs"

lemma absorb_short [simp]: "length xs < n \<Longrightarrow> absorb n f s xs = s"
  by (subst absorb.simps) simp

lemma absorb_step:
  "0 < n \<Longrightarrow> length xs = n \<Longrightarrow> absorb n f s (xs @ ys) = absorb n f (f s xs) ys"
  by (subst absorb.simps) simp

lemma absorb_one: "0 < n \<Longrightarrow> length xs = n \<Longrightarrow> absorb n f s xs = f s xs"
  using absorb_step [of n xs f s "[]"] by simp

lemma leftover_short [simp]: "length xs < n \<Longrightarrow> leftover n xs = xs"
  by (simp add: leftover_def)

lemma leftover_step:
  assumes "0 < n" and "length xs = n"
  shows "leftover n (xs @ ys) = leftover n ys"
proof -
  have "(n + length ys) div n = Suc (length ys div n)"
    using assms(1) by (simp add: div_add_self1)
  then show ?thesis using assms by (simp add: leftover_def)
qed

lemma length_leftover: "length (leftover n xs) = length xs mod n"
  by (simp add: leftover_def minus_mult_div_eq_mod)

lemma length_leftover_less: "0 < n \<Longrightarrow> length (leftover n xs) < n"
  by (simp add: length_leftover)

lemma absorb_append:
  assumes "0 < n"
  shows "absorb n f s (xs @ ys) = absorb n f (absorb n f s xs) (leftover n xs @ ys)"
proof (induction n f s xs rule: absorb.induct)
  case (1 n f s xs)
  show ?case
  proof (cases "0 < n \<and> n \<le> length xs")
    case True
    then have split: "xs = take n xs @ drop n xs" and len: "length (take n xs) = n" by simp_all
    have "absorb n f s (xs @ ys) = absorb n f (f s (take n xs)) (drop n xs @ ys)"
      by (subst split) (use True len in \<open>simp only: append_assoc absorb_step\<close>)
    also have "\<dots> = absorb n f (absorb n f (f s (take n xs)) (drop n xs)) (leftover n (drop n xs) @ ys)"
      using 1 True by simp
    also have "absorb n f (f s (take n xs)) (drop n xs) = absorb n f s xs"
      using True by (simp add: absorb.simps [of n f s xs])
    also have "leftover n (drop n xs) = leftover n xs"
      using leftover_step [OF _ len, of "drop n xs"] True by simp
    finally show ?thesis .
  next
    case False
    then consider "n = 0" | "length xs < n" by linarith
    then show ?thesis
    proof cases
      case 1
      then show ?thesis by (simp add: absorb.simps)
    qed simp
  qed
qed

lemma leftover_append:
  assumes "0 < n"
  shows "leftover n (xs @ ys) = leftover n (leftover n xs @ ys)"
  using assms
proof (induction xs rule: length_induct)
  case (1 xs)
  show ?case
  proof (cases "length xs < n")
    case False
    then have split: "xs = take n xs @ drop n xs" and len: "length (take n xs) = n"
      by simp_all
    have "leftover n (xs @ ys) = leftover n (drop n xs @ ys)"
      by (subst split) (use 1 len in \<open>simp only: append_assoc leftover_step\<close>)
    also have "\<dots> = leftover n (leftover n (drop n xs) @ ys)"
      using 1 False by (simp del: length_drop add: length_drop)
    also have "leftover n (drop n xs) = leftover n xs"
      using leftover_step [OF _ len, of "drop n xs"] 1 by simp
    finally show ?thesis .
  qed simp
qed

lemma absorb_invariant:
  assumes "\<And>s b. P s \<Longrightarrow> length b = n \<Longrightarrow> P (f s b)" and "P s"
  shows "P (absorb n f s xs)"
  using assms
proof (induction n f s xs rule: absorb.induct)
  case (1 n f s xs)
  show ?case
  proof (cases "0 < n \<and> n \<le> length xs")
    case True
    with "1.prems" have "P (f s (take n xs))" by simp
    with True 1 have "P (absorb n f (f s (take n xs)) (drop n xs))" by blast
    with True show ?thesis by (simp add: absorb.simps [of n f s xs])
  next
    case False
    then have "absorb n f s xs = s" by (subst absorb.simps) auto
    with "1.prems" show ?thesis by simp
  qed
qed

text \<open>The two ways a partly filled block continues: it stays partial, or it is completed first.\<close>

lemma absorb_fill:
  assumes "length p < n" and "n \<le> length p + length xs"
  shows "absorb n f s (p @ xs) =
    absorb n f (f s (p @ take (n - length p) xs)) (drop (n - length p) xs)"
  using assms absorb_step [of n "p @ take (n - length p) xs" f s "drop (n - length p) xs"]
  by simp

lemma leftover_fill:
  assumes "length p < n" and "n \<le> length p + length xs"
  shows "leftover n (p @ xs) = leftover n (drop (n - length p) xs)"
  using assms leftover_step [of n "p @ take (n - length p) xs" "drop (n - length p) xs"]
  by simp

lemma length_complete: "length (take (length xs - length xs mod n) xs) mod n = 0"
  by (simp add: minus_mod_eq_mult_div)

lemma leftover_complete: "leftover n (take (length xs - length xs mod n) xs) = []"
  using length_leftover [of n "take (length xs - length xs mod n) xs"]
  by (simp only: length_complete) simp

lemma leftover_eq_drop: "leftover n xs = drop (length xs - length xs mod n) xs"
  by (simp add: leftover_def minus_mod_eq_mult_div)

lemma absorb_complete:
  assumes "0 < n"
  shows "absorb n f s (take (length xs - length xs mod n) xs) = absorb n f s xs"
proof -
  let ?k = "length xs - length xs mod n"
  have "absorb n f s xs = absorb n f s (take ?k xs @ drop ?k xs)" by simp
  also have "\<dots> = absorb n f (absorb n f s (take ?k xs)) (leftover n (take ?k xs) @ drop ?k xs)"
    using assms by (rule absorb_append)
  also have "\<dots> = absorb n f s (take ?k xs)"
    unfolding leftover_complete using assms by (simp add: length_leftover flip: leftover_eq_drop)
  finally show ?thesis ..
qed

text \<open>Two absorbers that stay related on every block stay related on every input.\<close>

lemma absorb_relation:
  assumes "\<And>s t b. P s t \<Longrightarrow> length b = n \<Longrightarrow> P (f s b) (g t b)" and "P s t"
  shows "P (absorb n f s xs) (absorb n g t xs)"
  using assms(2)
proof (induction xs arbitrary: s t rule: length_induct)
  case (1 xs)
  show ?case
  proof (cases "0 < n \<and> n \<le> length xs")
    case True
    then have "P (f s (take n xs)) (g t (take n xs))" using 1 assms(1) by simp
    then have "P (absorb n f (f s (take n xs)) (drop n xs)) (absorb n g (g t (take n xs)) (drop n xs))"
      using 1(1) True by (metis diff_less length_drop less_le_trans)
    with True show ?thesis by (simp add: absorb.simps [of n _ _ xs])
  next
    case False
    with 1 show ?thesis by (subst (1 2) absorb.simps) auto
  qed
qed

section \<open>Copying into a buffer\<close>

text \<open>\<^verbatim>\<open>memcpy(buffer + offset, data, length)\<close>.\<close>

definition copy_at :: "'a list \<Rightarrow> nat \<Rightarrow> 'a list \<Rightarrow> 'a list" where
  "copy_at buffer offset data = take offset buffer @ data @ drop (offset + length data) buffer"

lemma length_copy_at [simp, lengths]:
  "offset + length data \<le> length buffer \<Longrightarrow> length (copy_at buffer offset data) = length buffer"
  by (simp add: copy_at_def)

lemma take_copy_at:
  "k = offset + length data \<Longrightarrow> k \<le> length buffer \<Longrightarrow>
    take k (copy_at buffer offset data) = take offset buffer @ data"
  by (simp add: copy_at_def)

lemma copy_at_fill:
  "offset + length data = length buffer \<Longrightarrow> copy_at buffer offset data = take offset buffer @ data"
  by (simp add: copy_at_def)

section \<open>Interface of a block-buffered absorber\<close>

text \<open>
  Contract of every incremental absorber of the library (hashes and MACs): \<open>core\<close> is the
  chaining value, \<open>pend\<close> the bytes of the incomplete block, and an update behaves as if the
  pending bytes were followed by the new ones and complete blocks were absorbed in order.
\<close>

locale block_buffer =
  fixes n :: nat
    and step :: "'s \<Rightarrow> 'c \<Rightarrow> byte list \<Rightarrow> 'c"
    and core :: "'s \<Rightarrow> 'c"
    and pend :: "'s \<Rightarrow> byte list"
    and inv :: "'s \<Rightarrow> bool"
    and upd :: "'s \<Rightarrow> byte list \<Rightarrow> 's"
  assumes n_pos: "0 < n"
    and pend_less: "inv s \<Longrightarrow> length (pend s) < n"
    and inv_upd: "inv s \<Longrightarrow> inv (upd s xs)"
    and step_upd: "inv s \<Longrightarrow> step (upd s xs) = step s"
    and core_upd: "inv s \<Longrightarrow> core (upd s xs) = absorb n (step s) (core s) (pend s @ xs)"
    and pend_upd: "inv s \<Longrightarrow> pend (upd s xs) = leftover n (pend s @ xs)"
begin

lemma inv_updates: "inv s \<Longrightarrow> inv (foldl upd s xss)"
  by (induction xss arbitrary: s) (auto intro: inv_upd)

lemma step_updates: "inv s \<Longrightarrow> step (foldl upd s xss) = step s"
  by (induction xss arbitrary: s) (simp_all add: step_upd inv_upd)

lemma core_updates:
  "inv s \<Longrightarrow> core (foldl upd s xss) = absorb n (step s) (core s) (pend s @ concat xss)"
proof (induction xss arbitrary: s)
  case Nil
  then show ?case by (simp add: pend_less)
next
  case (Cons xs xss)
  then show ?case
    using absorb_append [OF n_pos, of "step s" "core s" "pend s @ xs" "concat xss"]
    by (simp add: core_upd pend_upd step_upd inv_upd)
qed

lemma pend_updates: "inv s \<Longrightarrow> pend (foldl upd s xss) = leftover n (pend s @ concat xss)"
proof (induction xss arbitrary: s)
  case Nil
  then show ?case by (simp add: pend_less)
next
  case (Cons xs xss)
  then show ?case
    using leftover_append [OF n_pos, of "pend s @ xs" "concat xss"]
    by (simp add: pend_upd inv_upd)
qed

text \<open>How the data is cut into updates does not matter.\<close>

lemma core_split: "inv s \<Longrightarrow> core (foldl upd s xss) = core (upd s (concat xss))"
  by (simp add: core_updates core_upd)

lemma pend_split: "inv s \<Longrightarrow> pend (foldl upd s xss) = pend (upd s (concat xss))"
  by (simp add: pend_updates pend_upd)

end

end
