(* ===== verification/Util_Core.thy ===== *)
theory Util_Core
  imports Prelude
begin

text \<open>
  The leaf utilities under \<^verbatim>\<open>src/Util\<close>: byte-order loads and stores
  (\<^verbatim>\<open>Endian/endian.c\<close>), rotations and floor division by powers of two
  (\<^verbatim>\<open>Bit/bit_internal.h\<close>), the overlap test and the constant-time comparison
  (\<^verbatim>\<open>Core/memory.c\<close>). Buffers are byte lists; a load reads the first bytes of
  its list, a store returns the bytes it writes.
\<close>

section \<open>Byte order\<close>

definition crypto_load16_le :: "byte list \<Rightarrow> u16" where
  "crypto_load16_le p = ucast (p ! 0) OR push_bit 8 (ucast (p ! 1))"

definition crypto_load24_le :: "byte list \<Rightarrow> u32" where
  "crypto_load24_le p =
     ucast (p ! 0) OR push_bit 8 (ucast (p ! 1)) OR push_bit 16 (ucast (p ! 2))"

definition crypto_load32_le :: "byte list \<Rightarrow> u32" where
  "crypto_load32_le p =
     ucast (p ! 0) OR push_bit 8 (ucast (p ! 1)) OR
     push_bit 16 (ucast (p ! 2)) OR push_bit 24 (ucast (p ! 3))"

definition crypto_load64_le :: "byte list \<Rightarrow> u64" where
  "crypto_load64_le p =
     ucast (crypto_load32_le p) OR push_bit 32 (ucast (crypto_load32_le (drop 4 p)))"

definition crypto_load16_be :: "byte list \<Rightarrow> u16" where
  "crypto_load16_be p = push_bit 8 (ucast (p ! 0)) OR ucast (p ! 1)"

definition crypto_load32_be :: "byte list \<Rightarrow> u32" where
  "crypto_load32_be p =
     push_bit 24 (ucast (p ! 0)) OR push_bit 16 (ucast (p ! 1)) OR
     push_bit 8 (ucast (p ! 2)) OR ucast (p ! 3)"

definition crypto_load64_be :: "byte list \<Rightarrow> u64" where
  "crypto_load64_be p =
     push_bit 32 (ucast (crypto_load32_be p)) OR ucast (crypto_load32_be (drop 4 p))"

definition crypto_store16_le :: "u16 \<Rightarrow> byte list" where
  "crypto_store16_le v = [ucast v, ucast (drop_bit 8 v)]"

definition crypto_store32_le :: "u32 \<Rightarrow> byte list" where
  "crypto_store32_le v =
     [ucast v, ucast (drop_bit 8 v), ucast (drop_bit 16 v), ucast (drop_bit 24 v)]"

definition crypto_store64_le :: "u64 \<Rightarrow> byte list" where
  "crypto_store64_le v =
     crypto_store32_le (ucast v) @ crypto_store32_le (ucast (drop_bit 32 v))"

definition crypto_store16_be :: "u16 \<Rightarrow> byte list" where
  "crypto_store16_be v = [ucast (drop_bit 8 v), ucast v]"

definition crypto_store32_be :: "u32 \<Rightarrow> byte list" where
  "crypto_store32_be v =
     [ucast (drop_bit 24 v), ucast (drop_bit 16 v), ucast (drop_bit 8 v), ucast v]"

definition crypto_store64_be :: "u64 \<Rightarrow> byte list" where
  "crypto_store64_be v =
     crypto_store32_be (ucast (drop_bit 32 v)) @ crypto_store32_be (ucast v)"

lemmas endian_defs =
  crypto_load16_le_def crypto_load24_le_def crypto_load32_le_def crypto_load64_le_def
  crypto_load16_be_def crypto_load32_be_def crypto_load64_be_def
  crypto_store16_le_def crypto_store32_le_def crypto_store64_le_def
  crypto_store16_be_def crypto_store32_be_def crypto_store64_be_def

lemma length_store [simp, lengths]:
  "length (crypto_store16_le a) = 2" "length (crypto_store16_be a) = 2"
  "length (crypto_store32_le b) = 4" "length (crypto_store32_be b) = 4"
  "length (crypto_store64_le c) = 8" "length (crypto_store64_be c) = 8"
  by (simp_all add: endian_defs)

text \<open>A store followed by a load of the same width and order is the identity.\<close>

lemma byte_of_word32:
  fixes v :: u32
  assumes "n < 32"
  shows "bit v n \<longleftrightarrow>
     n < 8 \<and> bit v n \<or>
     8 \<le> n \<and> n - 8 < 8 \<and> bit v (8 + (n - 8)) \<or>
     16 \<le> n \<and> n - 16 < 8 \<and> bit v (16 + (n - 16)) \<or>
     24 \<le> n \<and> n - 24 < 8 \<and> bit v (24 + (n - 24))"
  using assms by (cases "n < 8"; cases "n < 16"; cases "n < 24") auto

lemma load_store32_le [simp]: "crypto_load32_le (crypto_store32_le v @ r) = v"
  by (rule bit_word_eqI, subst (2) byte_of_word32) (auto simp: endian_defs bit_simps)

lemma load_store32_be [simp]: "crypto_load32_be (crypto_store32_be v @ r) = v"
  by (rule bit_word_eqI, subst (2) byte_of_word32) (auto simp: endian_defs bit_simps)

lemma load_store16_le [simp]: "crypto_load16_le (crypto_store16_le v @ r) = v"
  by (rule bit_word_eqI) (auto simp: endian_defs bit_simps)

lemma load_store16_be [simp]: "crypto_load16_be (crypto_store16_be v @ r) = v"
  by (rule bit_word_eqI) (auto simp: endian_defs bit_simps)

lemma join_halves64:
  fixes v :: u64
  shows "ucast (ucast v :: u32) OR push_bit 32 (ucast (ucast (drop_bit 32 v) :: u32)) = v"
  by (rule bit_word_eqI) (auto simp: bit_simps)

lemma load_store64_le [simp]: "crypto_load64_le (crypto_store64_le v @ r) = v"
  by (simp add: crypto_load64_le_def crypto_store64_le_def join_halves64)

lemma load_store64_be [simp]: "crypto_load64_be (crypto_store64_be v @ r) = v"
  by (simp add: crypto_load64_be_def crypto_store64_be_def or.commute join_halves64)

text \<open>A load is the little-endian (or reversed) value of its bytes.\<close>

lemma unat_ucast_byte [simp]:
  "unat (ucast (b :: byte) :: u32) = unat b" "unat (ucast (b :: byte) :: u16) = unat b"
proof -
  have "unat b mod 2 ^ 32 = unat b" "unat b mod 2 ^ 16 = unat b"
    by (rule mod_less, rule order_less_trans [OF unat_byte_less], simp)+
  then show "unat (ucast b :: u32) = unat b" "unat (ucast b :: u16) = unat b"
    by (simp_all add: unat_ucast)
qed

lemma unat_crypto_load32_le [word_nat]:
  assumes "4 \<le> length p"
  shows "unat (crypto_load32_le p) = nat_of_le (take 4 p)"
proof -
  obtain b0 b1 b2 b3 r where p: "p = b0 # b1 # b2 # b3 # r"
    using assms by (auto simp: Suc_le_length_iff eval_nat_numeral)
  define w :: "byte \<Rightarrow> u32" where "w = ucast"
  have w: "unat (w b) = unat b" for b by (simp add: w_def)
  have bounds: "unat b0 < 256" "unat b1 < 256" "unat b2 < 256" "unat b3 < 256"
    by (rule unat_byte_less)+
  have 1: "unat (w b0 OR push_bit 8 (w b1)) = unat b0 + unat b1 * 2 ^ 8"
    by (subst unat_join) (use bounds in \<open>simp_all only: w, simp_all\<close>)
  have 2: "unat ((w b0 OR push_bit 8 (w b1)) OR push_bit 16 (w b2)) =
      unat b0 + unat b1 * 2 ^ 8 + unat b2 * 2 ^ 16"
    by (subst unat_join) (use bounds in \<open>simp_all only: w 1, simp_all\<close>)
  have "unat (((w b0 OR push_bit 8 (w b1)) OR push_bit 16 (w b2)) OR push_bit 24 (w b3)) =
      unat b0 + unat b1 * 2 ^ 8 + unat b2 * 2 ^ 16 + unat b3 * 2 ^ 24"
    by (subst unat_join) (use bounds in \<open>simp_all only: w 2, simp_all\<close>)
  then show ?thesis
    by (simp add: p crypto_load32_le_def w_def or.assoc)
qed

section \<open>Rotations\<close>

definition crypto_rotl32 :: "u32 \<Rightarrow> nat \<Rightarrow> u32" where
  "crypto_rotl32 value count =
     (let c = count mod 32 in push_bit c value OR drop_bit ((32 - c) mod 32) value)"

definition crypto_rotl64 :: "u64 \<Rightarrow> nat \<Rightarrow> u64" where
  "crypto_rotl64 value count =
     (let c = count mod 64 in push_bit c value OR drop_bit ((64 - c) mod 64) value)"

definition crypto_rotr32 :: "u32 \<Rightarrow> nat \<Rightarrow> u32" where
  "crypto_rotr32 value count =
     (let c = count mod 32 in drop_bit c value OR push_bit ((32 - c) mod 32) value)"

definition crypto_rotr64 :: "u64 \<Rightarrow> nat \<Rightarrow> u64" where
  "crypto_rotr64 value count =
     (let c = count mod 64 in drop_bit c value OR push_bit ((64 - c) mod 64) value)"

lemma rotl_of_shifts:
  fixes v :: "'a::len word"
  assumes "0 < c" and "c < LENGTH('a)"
  shows "push_bit c v OR drop_bit (LENGTH('a) - c) v = word_rotl c v"
proof (rule bit_word_eqI)
  fix k assume k: "k < LENGTH('a)"
  show "bit (push_bit c v OR drop_bit (LENGTH('a) - c) v) k \<longleftrightarrow> bit (word_rotl c v) k"
  proof (cases "c \<le> k")
    case True
    then have "k + (LENGTH('a) - c) = LENGTH('a) + (k - c)" using assms by linarith
    moreover have "(LENGTH('a) + (k - c)) mod LENGTH('a) = k - c" using k by simp
    ultimately have "(k + (LENGTH('a) - c)) mod LENGTH('a) = k - c" by simp
    moreover have "\<not> bit v (LENGTH('a) - c + k)" using True assms by (auto dest: bit_imp_le_length)
    ultimately show ?thesis using True k assms by (simp add: bit_simps)
  next
    case False
    then show ?thesis using k assms by (simp add: bit_simps add.commute)
  qed
qed

lemma rotr_of_shifts:
  fixes v :: "'a::len word"
  assumes "0 < c" and "c < LENGTH('a)"
  shows "drop_bit c v OR push_bit (LENGTH('a) - c) v = word_rotr c v"
proof -
  have "push_bit (LENGTH('a) - c) v OR drop_bit (LENGTH('a) - (LENGTH('a) - c)) v =
      word_rotl (LENGTH('a) - c) v"
    using assms by (intro rotl_of_shifts) auto
  then show ?thesis
    using assms by (simp add: or.commute word_rotl_eq_word_rotr)
qed

lemma word_rotr_mod: "word_rotr (n mod LENGTH('a)) v = word_rotr n (v :: 'a::len word)"
  by (rule bit_word_eqI) (simp add: bit_word_rotr_iff mod_add_right_eq)

lemma word_rotl_mod: "word_rotl (n mod LENGTH('a)) v = word_rotl n (v :: 'a::len word)"
  by (simp add: word_rotl_eq_word_rotr)

lemma word_rot_zero [simp]: "word_rotr 0 v = v" "word_rotl 0 v = v"
  by (rule bit_word_eqI, simp add: bit_simps)+

lemma crypto_rot_correct:
  "crypto_rotl32 v n = word_rotl n v" "crypto_rotr32 v n = word_rotr n v"
  "crypto_rotl64 w n = word_rotl n w" "crypto_rotr64 w n = word_rotr n w"
proof -
  show "crypto_rotl32 v n = word_rotl n v"
    using rotl_of_shifts [of "n mod 32" v] word_rotl_mod [of n v]
    by (cases "n mod 32 = 0") (simp_all add: crypto_rotl32_def)
  show "crypto_rotr32 v n = word_rotr n v"
    using rotr_of_shifts [of "n mod 32" v] word_rotr_mod [of n v]
    by (cases "n mod 32 = 0") (simp_all add: crypto_rotr32_def)
  show "crypto_rotl64 w n = word_rotl n w"
    using rotl_of_shifts [of "n mod 64" w] word_rotl_mod [of n w]
    by (cases "n mod 64 = 0") (simp_all add: crypto_rotl64_def)
  show "crypto_rotr64 w n = word_rotr n w"
    using rotr_of_shifts [of "n mod 64" w] word_rotr_mod [of n w]
    by (cases "n mod 64 = 0") (simp_all add: crypto_rotr64_def)
qed

section \<open>Floor division by powers of two\<close>

text \<open>
  Signed C values are words read with \<open>sint\<close>. The last step of the C code is a signed
  multiplication by \<open>1\<close> or \<open>-1\<close>; \<open>None\<close> is the overflow that C leaves undefined. Shift
  counts are below the width, as C requires.
\<close>

definition crypto_floor_div_pow2_i32 :: "u32 \<Rightarrow> nat \<Rightarrow> u32 option" where
  "crypto_floor_div_pow2_i32 value count =
     (let negative = (if sint value < 0 then 1 else 0 :: u32);
          negative_mask = 0 - negative;
          remainder_mask = push_bit count 1 - 1;
          magnitude = (value XOR negative_mask) + negative;
          quotient = drop_bit count (magnitude + (remainder_mask AND negative_mask));
          result = sint quotient * (1 - 2 * sint negative)
      in if - (2 ^ 31) \<le> result \<and> result < 2 ^ 31 then Some (word_of_int result) else None)"

definition crypto_floor_div_pow2_i64 :: "u64 \<Rightarrow> nat \<Rightarrow> u64 option" where
  "crypto_floor_div_pow2_i64 value count =
     (let negative = (if sint value < 0 then 1 else 0 :: u64);
          negative_mask = 0 - negative;
          remainder_mask = push_bit count 1 - 1;
          magnitude = (value XOR negative_mask) + negative;
          quotient = drop_bit count (magnitude + (remainder_mask AND negative_mask))
      in if count = 0 then Some value
         else let result = sint quotient * (1 - 2 * sint negative)
           in if - (2 ^ 63) \<le> result \<and> result < 2 ^ 63 then Some (word_of_int result) else None)"

lemma xor_minus_one: "v XOR (- 1) = NOT (v :: 'a::len word)"
  by (rule bit_word_eqI) (auto simp: bit_simps)

lemma uint_negated:
  fixes v :: "'a::len word"
  assumes "sint v < 0"
  shows "uint (- v) = - sint v"
proof -
  have "uint (- v) = (- sint v) mod 2 ^ LENGTH('a)"
  proof -
    have "- v = word_of_int (- sint v)" by simp
    then show ?thesis by (simp only: uint_word_of_int)
  qed
  moreover have "- sint v \<le> 2 ^ (LENGTH('a) - 1)" using sint_ge [of v] by simp
  moreover have "(2 :: int) ^ (LENGTH('a) - 1) < 2 ^ LENGTH('a)" by simp
  ultimately show ?thesis using assms by simp
qed

text \<open>Rounding the magnitude up before shifting is flooring the negative quotient.\<close>

lemma ceil_neg_floor:
  fixes m :: int
  shows "- ((m + 2 ^ c - 1) div 2 ^ c) = (- m) div 2 ^ c"
proof -
  define d q r :: int where "d = 2 ^ c" and "q = (m + d - 1) div d" and "r = (m + d - 1) mod d"
  then have d: "0 < d" and qr: "m + d - 1 = d * q + r" and r: "0 \<le> r" "r < d"
    by simp_all
  have "- m = d * (- q) + (d - 1 - r)" using qr by (simp add: algebra_simps)
  then have "(- m) div d = - q" by (rule int_div_pos_eq) (use r in auto)
  then show ?thesis by (simp add: d_def q_def)
qed

text \<open>The remainder mask has its low \<open>count\<close> bits set.\<close>

lemma remainder_mask: "push_bit c 1 - 1 = (mask c :: 'a::len word)"
  by (simp add: mask_eq_exp_minus_1 push_bit_eq_mult)

lemma uint_mask_small: "c < LENGTH('a) \<Longrightarrow> uint (mask c :: 'a::len word) = 2 ^ c - 1"
proof -
  assume c: "c < LENGTH('a)"
  have "uint (take_bit c (- 1 :: 'a word)) = take_bit c (mask LENGTH('a))"
    by (simp only: unsigned_take_bit_eq unsigned_minus_1_eq_mask)
  with c show ?thesis
    by (simp only: take_bit_minus_one_eq_mask take_bit_of_mask)
      (simp add: mask_eq_exp_minus_1 min_def)
qed

text \<open>The quotient of the C code for a negative value, as an integer.\<close>

lemma uint_ceil_quotient:
  fixes v :: "'a::len word"
  assumes neg: "sint v < 0" and c: "c < LENGTH('a)"
  shows "uint (drop_bit c (- v + mask c)) = - (sint v div 2 ^ c)"
proof -
  have "- sint v \<le> 2 ^ (LENGTH('a) - 1)" using sint_ge [of v] by simp
  moreover have "(2 :: int) ^ c \<le> 2 ^ (LENGTH('a) - 1)" using c by simp
  moreover have "(2 :: int) ^ LENGTH('a) = 2 ^ (LENGTH('a) - 1) + 2 ^ (LENGTH('a) - 1)"
    by (simp flip: power_Suc mult_2)
  ultimately have small: "- sint v + (2 ^ c - 1) < 2 ^ LENGTH('a)" by linarith
  have "uint (- v + mask c) = (- sint v + (2 ^ c - 1)) mod 2 ^ LENGTH('a)"
    using c by (simp only: uint_word_ariths(1) uint_negated [OF neg] uint_mask_small)
  also have "\<dots> = - sint v + (2 ^ c - 1)"
  proof -
    have "(1 :: int) \<le> 2 ^ c" by simp
    then have "0 \<le> - sint v + (2 ^ c - 1)" using neg by linarith
    then show ?thesis using small by (rule mod_pos_pos_trivial)
  qed
  finally have "uint (- v + mask c) = - sint v + 2 ^ c - 1" by simp
  then show ?thesis
    using ceil_neg_floor [of "- sint v" c] by (simp add: uint_drop_bit_div)
qed

lemma sint_drop_bit:
  fixes w :: "'a::len word"
  assumes "0 < c"
  shows "sint (drop_bit c w) = uint (drop_bit c w)"
proof -
  have "uint (drop_bit c w) * 2 ^ c \<le> uint w"
  proof -
    have "0 \<le> uint w mod 2 ^ c" by simp
    then show ?thesis
      using div_mult_mod_eq [of "uint w" "2 ^ c"] unfolding uint_drop_bit_div by linarith
  qed
  moreover have "uint w < 2 * 2 ^ (LENGTH('a) - Suc 0)"
    using unsigned_less [of w, where 'a = int] by (simp flip: power_Suc)
  moreover have "uint (drop_bit c w) * 2 \<le> uint (drop_bit c w) * 2 ^ c"
    using assms by (intro mult_left_mono) (auto simp: Suc_le_eq intro: self_le_power)
  ultimately have "uint (drop_bit c w) < 2 ^ (LENGTH('a) - Suc 0)" by linarith
  then show ?thesis
    by (subst sint_uint, subst signed_take_bit_int_eq_self) (auto intro: order_trans [OF _ uint_ge_0])
qed

text \<open>The signed quotient of the C code, on both signs.\<close>

lemma signed_quotient:
  fixes v :: "'a::len word"
  assumes "0 < c" and "c < LENGTH('a)"
  shows "sint v < 0 \<Longrightarrow> sint (drop_bit c (- v + mask c)) = - (sint v div 2 ^ c)"
    and "0 \<le> sint v \<Longrightarrow> sint (drop_bit c v) = sint v div 2 ^ c"
proof -
  show "sint v < 0 \<Longrightarrow> sint (drop_bit c (- v + mask c)) = - (sint v div 2 ^ c)"
    using assms by (simp only: sint_drop_bit uint_ceil_quotient)
  assume "0 \<le> sint v"
  then have "uint v = sint v"
    using sint_lt [of v] by (simp add: uint_sint take_bit_int_eq_self_iff)
      (metis diff_le_self less_le_trans one_le_numeral power_increasing)
  then show "sint (drop_bit c v) = sint v div 2 ^ c"
    using assms by (simp add: sint_drop_bit uint_drop_bit_div)
qed

lemma negative_quotient:
  fixes v :: "'a::len word"
  assumes "0 < c" and "c < LENGTH('a)" and "sint v < 0"
  shows "sint (drop_bit c (2 ^ c - 1 - v)) = - (sint v div 2 ^ c)"
    and "- drop_bit c (2 ^ c - 1 - v) = word_of_int (sint v div 2 ^ c)"
proof -
  show q: "sint (drop_bit c (2 ^ c - 1 - v)) = - (sint v div 2 ^ c)"
    using signed_quotient(1) [OF assms] by (simp add: mask_eq_exp_minus_1)
  have "- drop_bit c (2 ^ c - 1 - v) = - word_of_int (sint (drop_bit c (2 ^ c - 1 - v)))" by simp
  then show "- drop_bit c (2 ^ c - 1 - v) = word_of_int (sint v div 2 ^ c)"
    unfolding q by simp
qed

text \<open>Range of the floor quotient.\<close>

lemma sint_div_range:
  fixes v :: "'a::len word"
  shows "- (2 ^ (LENGTH('a) - 1)) \<le> sint v div 2 ^ c"
    and "sint v div 2 ^ c < 2 ^ (LENGTH('a) - 1)"
proof -
  define H x :: int where "H = 2 ^ (LENGTH('a) - 1)" and "x = sint v"
  have v: "- H \<le> x" "x < H" "0 < H"
    using sint_ge [of v] sint_lt [of v] by (simp_all add: H_def x_def)
  have one: "(1 :: int) \<le> 2 ^ c" by simp
  have "- H \<le> x div 2 ^ c \<and> x div 2 ^ c < H"
  proof (cases "0 \<le> x")
    case True
    then have "0 \<le> x div 2 ^ c" and "x div 2 ^ c \<le> x"
      using zdiv_mono2 [OF True _ one] by (simp_all add: pos_imp_zdiv_nonneg_iff)
    then show ?thesis using v by linarith
  next
    case False
    then have "x div 2 ^ c < 0" and "x \<le> x div 2 ^ c"
      using zdiv_mono2_neg [OF _ _ one, of x] by (simp_all add: pos_imp_zdiv_neg_iff)
    then show ?thesis using v by linarith
  qed
  then show "- (2 ^ (LENGTH('a) - 1)) \<le> sint v div 2 ^ c"
    and "sint v div 2 ^ c < 2 ^ (LENGTH('a) - 1)" by (simp_all add: H_def x_def)
qed

text \<open>
  For every signed 32-bit value and every shift count from 1 to 31 the branch-free code
  returns the floor of the value divided by \<open>2 ^ count\<close>, without a signed overflow.
\<close>

theorem crypto_floor_div_pow2_i32_floor:
  assumes "0 < count" and "count < 32"
  shows "crypto_floor_div_pow2_i32 value count = Some (word_of_int (sint value div 2 ^ count))"
proof (cases "sint value < 0")
  case True
  then show ?thesis
    using negative_quotient [of count "value"] sint_div_range [of "value" count] assms
    by (simp add: crypto_floor_div_pow2_i32_def Let_def remainder_mask xor_minus_one
        minus_eq_not_plus_1 [symmetric])
next
  case False
  then show ?thesis
    using signed_quotient(2) [of count "value"] sint_div_range [of "value" count] assms
    by (simp add: crypto_floor_div_pow2_i32_def Let_def)
qed

theorem crypto_floor_div_pow2_i32_floor_witness:
  "crypto_floor_div_pow2_i32 0xFFFFFFF9 2 = Some 0xFFFFFFFE"
proof -
  have "sint (0xFFFFFFF9 :: u32) = - 7" by (simp add: sint_uint signed_take_bit_int_eq_self_iff)
  then show ?thesis using crypto_floor_div_pow2_i32_floor [of 2 "0xFFFFFFF9"] by simp
qed

text \<open>The 64-bit version guards the count zero, so it holds there too.\<close>

lemma crypto_floor_div_pow2_i64_floor:
  assumes "count < 64"
  shows "crypto_floor_div_pow2_i64 value count = Some (word_of_int (sint value div 2 ^ count))"
proof -
  consider "count = 0" | "0 < count" "sint value < 0" | "0 < count" "0 \<le> sint value" by linarith
  then show ?thesis
  proof cases
    case 2
    then show ?thesis
      using negative_quotient [of count "value"] sint_div_range [of "value" count] assms
      by (simp add: crypto_floor_div_pow2_i64_def Let_def remainder_mask xor_minus_one
          minus_eq_not_plus_1 [symmetric])
  next
    case 3
    then show ?thesis
      using signed_quotient(2) [of count "value"] sint_div_range [of "value" count] assms
      by (simp add: crypto_floor_div_pow2_i64_def Let_def)
  qed (simp add: crypto_floor_div_pow2_i64_def)
qed

section \<open>Constant-time comparison\<close>

definition crypto_constant_time_equal :: "byte list \<Rightarrow> byte list \<Rightarrow> nat \<Rightarrow> bool" where
  "crypto_constant_time_equal left right len =
     (fold (\<lambda>i difference. difference OR ucast (left ! i XOR right ! i)) [0..<len] (0 :: u32) = 0)"

lemma xor_eq_zero_iff: "a XOR b = 0 \<longleftrightarrow> a = (b :: 'a::len word)"
  by (metis xor.assoc xor.left_neutral xor.right_neutral xor_self_eq)

lemma or_eq_zero: "a OR b = 0 \<longleftrightarrow> a = 0 \<and> b = (0 :: 'a::len word)"
  by (metis or.right_neutral or_eq_not_not_and word_bw_comms(2) word_oa_dist word_log_esimps(3)
      word_bw_same(2) or.assoc or.left_neutral)

lemma fold_or_eq_zero:
  "fold (\<lambda>i d. d OR f i) is (d :: 'a::len word) = 0 \<longleftrightarrow> d = 0 \<and> (\<forall>i \<in> set is. f i = 0)"
  by (induction "is" arbitrary: d) (auto simp: or_eq_zero)

lemma ucast_byte_eq_zero: "(ucast (b :: byte) :: u32) = 0 \<longleftrightarrow> b = 0"
  by (metis unat_eq_zero unat_ucast_byte(1))

lemma crypto_constant_time_equal_iff:
  assumes "n \<le> length l" and "n \<le> length r"
  shows "crypto_constant_time_equal l r n \<longleftrightarrow> take n l = take n r"
proof -
  have "crypto_constant_time_equal l r n \<longleftrightarrow> (\<forall>i < n. l ! i XOR r ! i = 0)"
    by (auto simp: crypto_constant_time_equal_def fold_or_eq_zero ucast_byte_eq_zero)
  also have "\<dots> \<longleftrightarrow> (\<forall>i < n. l ! i = r ! i)" by (simp add: xor_eq_zero_iff)
  also have "\<dots> \<longleftrightarrow> take n l = take n r"
    using assms by (auto simp: list_eq_iff_nth_eq)
  finally show ?thesis .
qed

section \<open>Memory\<close>

text \<open>
  Operations that take pointers work on an explicit byte-addressed store, so that aliasing
  between their buffers is part of the model. An address is the natural number that C's
  \<open>uintptr_t\<close> holds; address \<open>0\<close> is the null pointer.
\<close>

type_synonym addr = nat
type_synonym mem = "addr \<Rightarrow> byte"

definition load :: "mem \<Rightarrow> addr \<Rightarrow> nat \<Rightarrow> byte list" where
  "load m p n = map (\<lambda>i. m (p + i)) [0..<n]"

fun store :: "mem \<Rightarrow> addr \<Rightarrow> byte list \<Rightarrow> mem" where
  "store m p [] = m"
| "store m p (b # bs) = store (m(p := b)) (p + 1) bs"

definition disjoint :: "addr \<Rightarrow> nat \<Rightarrow> addr \<Rightarrow> nat \<Rightarrow> bool" where
  "disjoint p n q k \<longleftrightarrow> p + n \<le> q \<or> q + k \<le> p \<or> n = 0 \<or> k = 0"

definition crypto_ranges_overlap :: "addr \<Rightarrow> nat \<Rightarrow> addr \<Rightarrow> nat \<Rightarrow> bool" where
  "crypto_ranges_overlap first first_length second second_length =
     (if first_length = 0 \<or> second_length = 0 then False
      else if first \<le> second then second - first < first_length
      else first - second < second_length)"

definition crypto_zeroize :: "mem \<Rightarrow> addr \<Rightarrow> nat \<Rightarrow> mem" where
  "crypto_zeroize m target n = (if target = 0 then m else store m target (zeroes n))"

text \<open>What a callee sees through a pointer argument: nothing, or the bytes it points to.\<close>

definition ptr :: "mem \<Rightarrow> addr \<Rightarrow> nat \<Rightarrow> byte list option" where
  "ptr m p n = (if p = 0 then None else Some (load m p n))"

lemma length_load [simp, lengths]: "length (load m p n) = n"
  by (simp add: load_def)

lemma load_nth [simp]: "i < n \<Longrightarrow> load m p n ! i = m (p + i)"
  by (simp add: load_def)

lemma load_0 [simp]: "load m p 0 = []"
  by (simp add: load_def)

lemma load_add: "load m p (n + k) = load m p n @ load m (p + n) k"
  by (rule nth_equalityI) (auto simp: nth_append)

lemma take_load [simp]: "take k (load m p n) = load m p (min k n)"
  by (rule nth_equalityI) auto

lemma drop_load [simp]: "drop k (load m p n) = load m (p + k) (n - k)"
  by (rule nth_equalityI) (auto simp: add.assoc)

lemma store_apply:
  "store m p bs a = (if p \<le> a \<and> a < p + length bs then bs ! (a - p) else m a)"
  by (induction bs arbitrary: m p) (auto simp: nth_Cons' not_less_eq_eq)

lemma load_store_same [simp]: "load (store m p bs) p (length bs) = bs"
  by (rule nth_equalityI) (auto simp: store_apply)

lemma load_store_disjoint:
  "disjoint p (length bs) q n \<Longrightarrow> load (store m p bs) q n = load m q n"
  by (rule nth_equalityI) (auto simp: store_apply disjoint_def)

lemma store_append: "store m p (xs @ ys) = store (store m p xs) (p + length xs) ys"
  by (induction xs arbitrary: m p) (auto simp: add.assoc)

lemma crypto_ranges_overlap_iff: "crypto_ranges_overlap p n q k \<longleftrightarrow> \<not> disjoint p n q k"
  by (auto simp: crypto_ranges_overlap_def disjoint_def)

lemma disjoint_sets: "disjoint p n q k \<longleftrightarrow> {p..<p + n} \<inter> {q..<q + k} = {}"
proof -
  have "p + n \<le> q \<or> q + k \<le> p \<or> n = 0 \<or> k = 0" if "{p..<p + n} \<inter> {q..<q + k} = {}"
  proof (rule ccontr)
    assume *: "\<not> ?thesis"
    then have "max p q \<in> {p..<p + n} \<inter> {q..<q + k}" by auto
    with that show False by blast
  qed
  then show ?thesis by (auto simp: disjoint_def)
qed

text \<open>
  The overlap test answers exactly whether the two address ranges share a byte.
\<close>

theorem crypto_ranges_overlap_sound:
  "crypto_ranges_overlap p n q k \<longleftrightarrow> {p..<p + n} \<inter> {q..<q + k} \<noteq> {}"
  by (simp add: crypto_ranges_overlap_iff disjoint_sets)

end
