(* ===== verification/Block_Modes.thy ===== *)
theory Block_Modes
  imports Util_Core
begin

text \<open>
  The loops that the modes of operation of \<^verbatim>\<open>src/BlockCipher\<close> share. A block loop reads a
  block of the input, transforms it in local buffers and writes it to the output; a stream
  loop combines the input byte by byte with generated blocks. Both stop at the first error.
  The lemmas show that on buffers that coincide or do not overlap a loop is one store of a
  function of the input bytes, and that decryption inverts encryption for every mode over
  any block cipher, stated as the interface \<open>block_cipher\<close>.
\<close>

section \<open>The loops on the memory\<close>

function block_loop ::
    "nat \<Rightarrow> ('s \<Rightarrow> byte list \<Rightarrow> status \<times> 's \<times> byte list) \<Rightarrow> addr \<Rightarrow> addr \<Rightarrow> nat \<Rightarrow>
     mem \<Rightarrow> 's \<Rightarrow> nat \<Rightarrow> status \<times> mem" where
  "block_loop n step out inp len m s offset =
     (if offset < len \<and> 0 < n then
        (case step s (load m (inp + offset) n) of (err, s', block) \<Rightarrow>
           if err \<noteq> SUCCESS then (err, m)
           else block_loop n step out inp len (store m (out + offset) block) s' (offset + n))
      else (SUCCESS, m))"
  by pat_completeness auto
termination
  by (relation "measure (\<lambda>(n, step, out, inp, len, m, s, offset). len - offset)") auto

declare block_loop.simps [simp del]

fun xor_into :: "mem \<Rightarrow> addr \<Rightarrow> addr \<Rightarrow> byte list \<Rightarrow> mem" where
  "xor_into m out inp [] = m"
| "xor_into m out inp (k # ks) = xor_into (m(out := m inp XOR k)) (out + 1) (inp + 1) ks"

function stream_loop ::
    "nat \<Rightarrow> ('s \<Rightarrow> status \<times> 's \<times> byte list) \<Rightarrow> addr \<Rightarrow> addr \<Rightarrow> nat \<Rightarrow>
     mem \<Rightarrow> 's \<Rightarrow> nat \<Rightarrow> status \<times> mem" where
  "stream_loop n gen out inp len m s offset =
     (if offset < len \<and> 0 < n then
        (case gen s of (err, s', stream) \<Rightarrow>
           if err \<noteq> SUCCESS then (err, m)
           else let chunk = min (len - offset) n
             in stream_loop n gen out inp len
                  (xor_into m (out + offset) (inp + offset) (take chunk stream)) s' (offset + chunk))
      else (SUCCESS, m))"
  by pat_completeness auto
termination
  by (relation "measure (\<lambda>(n, gen, out, inp, len, m, s, offset). len - offset)") auto

declare stream_loop.simps [simp del]

section \<open>The loops as functions of the input\<close>

function transduce :: "nat \<Rightarrow> ('s \<Rightarrow> byte list \<Rightarrow> 's \<times> byte list) \<Rightarrow> 's \<Rightarrow> byte list \<Rightarrow> byte list" where
  "transduce n f s xs =
     (if xs = [] \<or> n = 0 then []
      else snd (f s (take n xs)) @ transduce n f (fst (f s (take n xs))) (drop n xs))"
  by pat_completeness auto
termination
  by (relation "measure (\<lambda>(n, f, s, xs). length xs)") auto

declare transduce.simps [simp del]

function stream_bytes :: "nat \<Rightarrow> ('s \<Rightarrow> 's \<times> byte list) \<Rightarrow> 's \<Rightarrow> nat \<Rightarrow> byte list" where
  "stream_bytes n g s len =
     (if len = 0 \<or> n = 0 then []
      else take (min len n) (snd (g s)) @ stream_bytes n g (fst (g s)) (len - min len n))"
  by pat_completeness auto
termination
  by (relation "measure (\<lambda>(n, g, s, len). len)") auto

declare stream_bytes.simps [simp del]

lemma transduce_Nil [simp]: "transduce n f s [] = []"
  by (subst transduce.simps) simp

lemma transduce_step:
  "0 < n \<Longrightarrow> xs \<noteq> [] \<Longrightarrow> transduce n f s xs =
     snd (f s (take n xs)) @ transduce n f (fst (f s (take n xs))) (drop n xs)"
  by (subst transduce.simps) simp

lemma stream_bytes_0 [simp]: "stream_bytes n g s 0 = []"
  by (subst stream_bytes.simps) simp

lemma stream_bytes_step:
  "0 < n \<Longrightarrow> 0 < len \<Longrightarrow> stream_bytes n g s len =
     take (min len n) (snd (g s)) @ stream_bytes n g (fst (g s)) (len - min len n)"
  by (subst stream_bytes.simps) simp

lemma length_transduce:
  assumes "0 < n" and "n dvd length xs" and "\<And>s b. P s \<Longrightarrow> length b = n \<Longrightarrow> length (snd (f s b)) = n \<and> P (fst (f s b))"
    and "P s"
  shows "length (transduce n f s xs) = length xs"
  using assms(2,4)
proof (induction xs arbitrary: s rule: length_induct)
  case (1 xs)
  show ?case
  proof (cases "xs = []")
    case False
    then have n: "n \<le> length xs" using 1(2) by (simp add: dvd_imp_le)
    note f = assms(3) [OF 1(3), of "take n xs"]
    have "length (transduce n f (fst (f s (take n xs))) (drop n xs)) = length (drop n xs)"
      using 1(1) [rule_format, of "drop n xs" "fst (f s (take n xs))"] 1(2) f n False assms(1)
      by (simp add: dvd_diff_nat)
    then show ?thesis
      using False n assms(1) f by (simp add: transduce_step)
  qed simp
qed

lemma length_stream_bytes:
  assumes "0 < n" and "\<And>s. P s \<Longrightarrow> length (snd (g s)) = n \<and> P (fst (g s))" and "P s"
  shows "length (stream_bytes n g s len) = len"
  using assms(3)
proof (induction len arbitrary: s rule: less_induct)
  case (less len)
  show ?case
  proof (cases "len = 0")
    case False
    have "length (stream_bytes n g (fst (g s)) (len - min len n)) = len - min len n"
      using less.IH [of "len - min len n" "fst (g s)"] assms(2) [OF less.prems] False assms(1) by simp
    then show ?thesis
      using False assms(1) assms(2) [OF less.prems] by (simp add: stream_bytes_step)
  qed simp
qed

section \<open>A loop is a single store\<close>

lemma xor_into_eq_store:
  assumes "out = inp \<or> disjoint out (length ks) inp (length ks)"
  shows "xor_into m out inp ks = store m out (xor_bytes (load m inp (length ks)) ks)"
  using assms
proof (induction ks arbitrary: m out inp)
  case (Cons k ks)
  define m' where "m' = m(out := m inp XOR k)"
  have "load m' (inp + 1) (length ks) = load m (inp + 1) (length ks)"
    using Cons.prems by (intro nth_equalityI) (auto simp: disjoint_def m'_def)
  moreover have "load m inp (Suc (length ks)) = m inp # load m (inp + 1) (length ks)"
    using load_add [of m inp 1 "length ks"] by (simp add: load_def)
  moreover have "xor_into m' (out + 1) (inp + 1) ks =
      store m' (out + 1) (xor_bytes (load m' (inp + 1) (length ks)) ks)"
    using Cons.prems by (intro Cons.IH) (auto simp: disjoint_def)
  ultimately show ?case by (simp flip: m'_def)
qed simp

lemma block_loop_done: "len \<le> offset \<Longrightarrow> block_loop n step out inp len m s offset = (SUCCESS, m)"
  by (subst block_loop.simps) simp

lemma block_loop_step:
  "offset < len \<Longrightarrow> 0 < n \<Longrightarrow> step s (load m (inp + offset) n) = (SUCCESS, s', b) \<Longrightarrow>
     block_loop n step out inp len m s offset =
     block_loop n step out inp len (store m (out + offset) b) s' (offset + n)"
  by (subst block_loop.simps) simp

lemma block_loop_correct:
  assumes overlap: "out = inp \<or> disjoint out len inp len" and n: "0 < n"
    and ok: "\<And>s b. P s \<Longrightarrow> length b = n \<Longrightarrow>
      step s b = (SUCCESS, f s b) \<and> length (snd (f s b)) = n \<and> P (fst (f s b))"
    and "P s" "n dvd len" "n dvd offset" "offset \<le> len"
  shows "block_loop n step out inp len m s offset =
    (SUCCESS, store m (out + offset) (transduce n f s (load m (inp + offset) (len - offset))))"
  using assms(4-)
proof (induction "len - offset" arbitrary: m s offset rule: less_induct)
  case less
  show ?case
  proof (cases "offset < len")
    case False
    then show ?thesis using less.prems by (simp add: block_loop_done)
  next
    case True
    have "n dvd len - offset" using less.prems by (simp add: dvd_diff_nat)
    then have fits: "n \<le> len - offset" using True by (simp add: dvd_imp_le)
    define b where "b = load m (inp + offset) n"
    have b: "length b = n" by (simp add: b_def)
    obtain s' c where f: "f s b = (s', c)" by (cases "f s b")
    have step: "step s b = (SUCCESS, s', c)" and c: "length c = n" and P: "P s'"
      using ok [OF less.prems(1) b] by (simp_all add: f)
    define m' where "m' = store m (out + offset) c"
    define rest where "rest = len - (offset + n)"
    have len: "len - offset = n + rest" using fits by (simp add: rest_def)
    have same: "load m' (inp + (offset + n)) rest = load m (inp + (offset + n)) rest"
      using overlap fits len c unfolding m'_def
      by (intro load_store_disjoint) (auto simp: disjoint_def)
    have "block_loop n step out inp len m s offset = block_loop n step out inp len m' s' (offset + n)"
      unfolding m'_def using True n step by (intro block_loop_step) (simp_all add: b_def)
    also have "\<dots> = (SUCCESS, store m' (out + (offset + n))
        (transduce n f s' (load m' (inp + (offset + n)) (len - (offset + n)))))"
      using less.prems P fits n by (intro less.hyps) auto
    also have "\<dots> = (SUCCESS, store m' (out + (offset + n)) (transduce n f s' (load m (inp + (offset + n)) rest)))"
      unfolding rest_def [symmetric] same ..
    also have "\<dots> = (SUCCESS, store m (out + offset)
        (c @ transduce n f s' (load m (inp + (offset + n)) rest)))"
      using c by (simp add: m'_def store_append add.assoc)
    also have "c @ transduce n f s' (load m (inp + (offset + n)) rest) =
        transduce n f s (load m (inp + offset) (len - offset))"
    proof -
      have split: "load m (inp + offset) (len - offset) = b @ load m (inp + (offset + n)) rest"
        unfolding len load_add b_def by (simp add: add.assoc)
      have "b \<noteq> []" using n by (simp add: b_def flip: length_0_conv)
      then show ?thesis unfolding split using n
        by (subst transduce_step) (simp_all add: f, simp_all add: b_def f [unfolded b_def])
    qed
    finally show ?thesis .
  qed
qed

lemma stream_loop_done: "len \<le> offset \<Longrightarrow> stream_loop n gen out inp len m s offset = (SUCCESS, m)"
  by (subst stream_loop.simps) simp

lemma stream_loop_step:
  "offset < len \<Longrightarrow> 0 < n \<Longrightarrow> gen s = (SUCCESS, s', b) \<Longrightarrow> chunk = min (len - offset) n \<Longrightarrow>
     stream_loop n gen out inp len m s offset =
     stream_loop n gen out inp len (xor_into m (out + offset) (inp + offset) (take chunk b)) s'
       (offset + chunk)"
  by (subst stream_loop.simps) (simp add: Let_def)

lemma stream_loop_correct:
  assumes overlap: "out = inp \<or> disjoint out len inp len" and n: "0 < n"
    and ok: "\<And>s. P s \<Longrightarrow> gen s = (SUCCESS, g s) \<and> length (snd (g s)) = n \<and> P (fst (g s))"
    and "P s" "offset \<le> len"
  shows "stream_loop n gen out inp len m s offset =
    (SUCCESS, store m (out + offset)
       (xor_bytes (load m (inp + offset) (len - offset)) (stream_bytes n g s (len - offset))))"
  using assms(4-)
proof (induction "len - offset" arbitrary: m s offset rule: less_induct)
  case less
  show ?case
  proof (cases "offset < len")
    case False
    then show ?thesis using less.prems by (simp add: stream_loop_done)
  next
    case True
    define chunk rest where "chunk = min (len - offset) n" and "rest = len - (offset + chunk)"
    obtain s' b where g: "g s = (s', b)" by (cases "g s")
    have gen: "gen s = (SUCCESS, s', b)" and b: "length b = n" and P: "P s'"
      using ok [OF less.prems(1)] by (simp_all add: g)
    define ks where "ks = take chunk b"
    define m' where "m' = xor_into m (out + offset) (inp + offset) ks"
    have ks: "length ks = chunk" using b by (simp add: ks_def chunk_def)
    have len: "len - offset = chunk + rest" "0 < chunk" "offset + chunk \<le> len"
      using True n by (auto simp: chunk_def rest_def)
    have m': "m' = store m (out + offset) (xor_bytes (load m (inp + offset) chunk) ks)"
      unfolding m'_def using overlap len ks by (subst xor_into_eq_store) (auto simp: disjoint_def)
    have same: "load m' (inp + (offset + chunk)) rest = load m (inp + (offset + chunk)) rest"
      using overlap ks len unfolding m' by (intro load_store_disjoint) (auto simp: disjoint_def)
    have stream: "stream_bytes n g s (len - offset) = ks @ stream_bytes n g s' rest"
      using True n by (subst stream_bytes_step) (simp_all add: g ks_def chunk_def rest_def)
    have "stream_loop n gen out inp len m s offset = stream_loop n gen out inp len m' s' (offset + chunk)"
      unfolding m'_def ks_def by (rule stream_loop_step [where gen = gen and s = s, OF True n gen chunk_def])
    also have "\<dots> = (SUCCESS, store m' (out + (offset + chunk))
        (xor_bytes (load m' (inp + (offset + chunk)) rest) (stream_bytes n g s' rest)))"
      unfolding rest_def using len P by (intro less.hyps) auto
    also have "\<dots> = (SUCCESS, store m (out + offset)
        (xor_bytes (load m (inp + offset) (len - offset)) (stream_bytes n g s (len - offset))))"
      unfolding same stream unfolding len(1) m' by (simp add: load_add ks store_append add.assoc)
    finally show ?thesis .
  qed
qed

section \<open>Modes of operation\<close>

definition ecb_step :: "(byte list \<Rightarrow> byte list) \<Rightarrow> unit \<Rightarrow> byte list \<Rightarrow> unit \<times> byte list" where
  "ecb_step f s b = (s, f b)"

definition cbc_enc_step ::
    "(byte list \<Rightarrow> byte list) \<Rightarrow> byte list \<Rightarrow> byte list \<Rightarrow> byte list \<times> byte list" where
  "cbc_enc_step e chain b = (let c = e (xor_bytes b chain) in (c, c))"

definition cbc_dec_step ::
    "(byte list \<Rightarrow> byte list) \<Rightarrow> byte list \<Rightarrow> byte list \<Rightarrow> byte list \<times> byte list" where
  "cbc_dec_step d chain c = (c, xor_bytes (d c) chain)"

text \<open>
  A reversible chain: the decrypting step undoes the encrypting one and follows the same
  states, so decryption of a whole message undoes encryption.
\<close>

lemma transduce_inverse:
  assumes n: "0 < n" and len: "n dvd length xs" and s: "P s"
    and step: "\<And>s b. P s \<Longrightarrow> length b = n \<Longrightarrow>
      length (snd (e s b)) = n \<and> P (fst (e s b)) \<and> d s (snd (e s b)) = (fst (e s b), b)"
  shows "transduce n d s (transduce n e s xs) = xs"
  using len s
proof (induction xs arbitrary: s rule: length_induct)
  case (1 xs)
  show ?case
  proof (cases "xs = []")
    case False
    then have fits: "n \<le> length xs" using 1(2) by (simp add: dvd_imp_le)
    define b c s' where "b = take n xs" and "c = snd (e s b)" and "s' = fst (e s b)"
    have b: "length b = n" using fits by (simp add: b_def)
    have e: "length c = n" "P s'" "d s c = (s', b)"
      using step [OF 1(3) b] by (simp_all add: c_def s'_def)
    have eq: "transduce n e s xs = c @ transduce n e s' (drop n xs)"
      using n False by (simp add: transduce_step c_def s'_def b_def)
    have "c \<noteq> []" using e(1) n by auto
    then have "transduce n d s (transduce n e s xs) =
        b @ transduce n d s' (transduce n e s' (drop n xs))"
      unfolding eq using n e by (subst transduce_step) simp_all
    also have "transduce n d s' (transduce n e s' (drop n xs)) = drop n xs"
      using 1(1) [rule_format, of "drop n xs" s'] 1(2) e(2) n fits False by (simp add: dvd_diff_nat)
    finally show ?thesis by (simp add: b_def)
  qed simp
qed

text \<open>Loops whose states stay related produce the same bytes.\<close>

lemma transduce_simulation:
  assumes n: "0 < n" and len: "n dvd length xs" and rel: "R s t"
    and step: "\<And>s t b. R s t \<Longrightarrow> length b = n \<Longrightarrow>
      snd (f s b) = snd (g t b) \<and> R (fst (f s b)) (fst (g t b))"
  shows "transduce n f s xs = transduce n g t xs"
  using len rel
proof (induction xs arbitrary: s t rule: length_induct)
  case (1 xs)
  show ?case
  proof (cases "xs = []")
    case False
    then have fits: "n \<le> length xs" using 1(2) by (simp add: dvd_imp_le)
    then have b: "length (take n xs) = n" by simp
    have "transduce n f (fst (f s (take n xs))) (drop n xs) = transduce n g (fst (g t (take n xs))) (drop n xs)"
      using 1(1) [rule_format, of "drop n xs"] 1(2) step [OF 1(3) b] n fits False by (simp add: dvd_diff_nat)
    then show ?thesis
      using step [OF 1(3) b] n False by (simp add: transduce_step)
  qed simp
qed

text \<open>The interface of a block cipher under a set of valid keys.\<close>

locale block_cipher =
  fixes n :: nat
    and valid :: "'k \<Rightarrow> bool"
    and enc :: "'k \<Rightarrow> byte list \<Rightarrow> byte list"
    and dec :: "'k \<Rightarrow> byte list \<Rightarrow> byte list"
  assumes n_pos: "0 < n"
    and length_enc: "valid k \<Longrightarrow> length b = n \<Longrightarrow> length (enc k b) = n"
    and length_dec: "valid k \<Longrightarrow> length b = n \<Longrightarrow> length (dec k b) = n"
    and dec_enc: "valid k \<Longrightarrow> length b = n \<Longrightarrow> dec k (enc k b) = b"
begin

lemma ecb_inverse:
  assumes "valid k" and "n dvd length xs"
  shows "transduce n (ecb_step (dec k)) () (transduce n (ecb_step (enc k)) () xs) = xs"
  using n_pos assms(2)
  by (rule transduce_inverse [where P = "\<lambda>_. True"])
    (simp_all add: ecb_step_def length_enc dec_enc assms(1))

lemma cbc_inverse:
  assumes "valid k" and "n dvd length xs" and "length iv = n"
  shows "transduce n (cbc_dec_step (dec k)) iv (transduce n (cbc_enc_step (enc k)) iv xs) = xs"
  using n_pos assms(2,3)
proof (rule transduce_inverse [where P = "\<lambda>s. length s = n"])
  fix s b :: "byte list"
  assume s: "length s = n" and b: "length b = n"
  then have "length (xor_bytes b s) = n" by simp
  then show "length (snd (cbc_enc_step (enc k) s b)) = n \<and> length (fst (cbc_enc_step (enc k) s b)) = n \<and>
      cbc_dec_step (dec k) s (snd (cbc_enc_step (enc k) s b)) = (fst (cbc_enc_step (enc k) s b), b)"
    using s b by (simp add: cbc_enc_step_def cbc_dec_step_def Let_def length_enc dec_enc assms(1)
        xor_bytes_cancel)
qed

lemma length_ecb:
  assumes "valid k" and "n dvd length xs"
  shows "length (transduce n (ecb_step (enc k)) () xs) = length xs"
  using n_pos assms(2)
  by (rule length_transduce [where P = "\<lambda>_. True"]) (simp_all add: ecb_step_def length_enc assms(1))

lemma length_cbc:
  assumes "valid k" and "n dvd length xs" and "length iv = n"
  shows "length (transduce n (cbc_enc_step (enc k)) iv xs) = length xs"
  using n_pos assms(2) _ assms(3)
  by (rule length_transduce [where P = "\<lambda>s. length s = n"])
    (simp_all add: cbc_enc_step_def Let_def length_enc assms(1))

end

section \<open>Big-endian counters\<close>

text \<open>
  The loop \<^verbatim>\<open>for (i = last; i >= first; --i) { c[i]++; if (c[i] != 0) break; }\<close> over
  \<open>k\<close> bytes from index \<open>i\<close> downwards.
\<close>

fun increment_be :: "nat \<Rightarrow> nat \<Rightarrow> byte list \<Rightarrow> byte list" where
  "increment_be 0 i counter = counter"
| "increment_be (Suc k) i counter =
     (let counter = counter[i := counter ! i + 1]
      in if counter ! i \<noteq> 0 then counter else increment_be k (i - 1) counter)"

lemma length_increment_be [simp, lengths]: "length (increment_be k i c) = length c"
  by (induction k i c rule: increment_be.induct) (simp_all add: Let_def)

lemma byte_plus_one:
  "unat (b + 1 :: byte) = (if unat b = 255 then 0 else unat b + 1)"
  "(b + 1 = 0) \<longleftrightarrow> unat (b :: byte) = 255"
proof -
  show 1: "unat (b + 1) = (if unat b = 255 then 0 else unat b + 1)"
    using unat_byte_less [of b] by (auto simp: unat_word_ariths)
  show "(b + 1 = 0) \<longleftrightarrow> unat b = 255"
    using 1 by (metis Suc_eq_plus1 nat.distinct(1) unat_0 unat_eq_zero)
qed

text \<open>The loop adds one to the value of its bytes, modulo the size of the counter.\<close>

lemma increment_be_correct:
  assumes "length suffix = k"
  shows "increment_be k (length prefix + k - 1) (prefix @ suffix) =
    prefix @ be_of_nat k (nat_of_be suffix + 1)"
  using assms
proof (induction k arbitrary: suffix)
  case (Suc k)
  obtain xs b where xs: "suffix = xs @ [b]" "length xs = k"
    using Suc.prems by (metis append_butlast_last_id length_0_conv length_butlast diff_Suc_1 nat.distinct(1))
  have upd: "(prefix @ suffix)[length prefix + k := b + 1] = prefix @ xs @ [b + 1]"
    using xs by (simp add: list_update_append)
  have nth: "suffix ! k = b" "(xs @ [b + 1]) ! k = b + 1"
    using xs by (simp_all add: nth_append)
  have val: "nat_of_be suffix = unat b + 256 * nat_of_be xs"
    using xs by (simp add: nat_of_be_def)
  have snoc: "be_of_nat (Suc k) v = be_of_nat k (v div 256) @ [of_nat v]" for v
    by (simp add: be_of_nat_def)
  show ?case
  proof (cases "b + 1 = 0")
    case False
    then have ub: "unat b < 255" using unat_byte_less [of b] byte_plus_one(2) [of b] by linarith
    have "be_of_nat (Suc k) (nat_of_be suffix + 1) = xs @ [b + 1]"
    proof -
      have "(unat b + 256 * nat_of_be xs + 1) div 256 = nat_of_be xs" using ub by simp
      moreover have "(of_nat (unat b + 256 * nat_of_be xs + 1) :: byte) = b + 1"
      proof -
        have "(256 :: byte) = 0" by simp
        then have "256 * v = (0 :: byte)" for v by (simp only: mult_zero_left)
        then show ?thesis by (simp add: of_nat_add)
      qed
      ultimately show ?thesis unfolding snoc val using be_of_nat_of_be [OF xs(2)] by (simp only:)
    qed
    then show ?thesis
      using False by (simp add: upd nth)
  next
    case True
    then have ub: "unat b = 255" using byte_plus_one(2) by blast
    have "increment_be k (length prefix + k - 1) (prefix @ (xs @ [b + 1])) =
        increment_be k (length prefix + k - 1) ((prefix @ xs) @ [0])" using True by simp
    also have "\<dots> = increment_be k (length prefix + k - 1) (prefix @ xs) @ [0]"
    proof -
      have ext: "increment_be j i (c @ d) = increment_be j i c @ d" if "i < length c" "j \<le> i + 1"
        for j i and c d :: "byte list"
        using that
      proof (induction j i c rule: increment_be.induct)
        case (2 j i c)
        then show ?case
          by (cases j) (auto simp: Let_def nth_append list_update_append)
      qed simp
      show ?thesis
      proof (cases "k = 0")
        case False
        then show ?thesis using xs ext [of "length prefix + k - 1" "prefix @ xs" k "[0]"] by simp
      qed simp
    qed
    also have "\<dots> = prefix @ be_of_nat k (nat_of_be xs + 1) @ [0]"
      using Suc.IH [OF xs(2)] by simp
    also have "be_of_nat k (nat_of_be xs + 1) @ [0] = be_of_nat (Suc k) (nat_of_be suffix + 1)"
    proof -
      have eq: "unat b + 256 * nat_of_be xs + 1 = 256 * (nat_of_be xs + 1)" using ub by simp
      have "(256 :: byte) = 0" by simp
      then have "(of_nat (256 * (nat_of_be xs + 1)) :: byte) = 0"
        by (simp only: of_nat_mult of_nat_numeral mult_zero_left)
      then show ?thesis unfolding snoc val eq by simp
    qed
    finally show ?thesis using True upd nth by (simp add: Let_def)
  qed
qed (simp add: be_of_nat_def)

end
