(* ===== verification/Alg_Ids.thy ===== *)
theory Alg_Ids
  imports Prelude
begin

text \<open>
  The algorithm identifiers of \<^verbatim>\<open>inc/Def.h\<close> that the modelled dispatchers accept. An
  identifier is an integer (\<^verbatim>\<open>int32_t\<close> in the code), so a dispatcher can be asked about
  any other value too.
\<close>

abbreviation "LIBERAC_ALG_NONE \<equiv> (0 :: alg_id)"
abbreviation "LIBERAC_ALG_HASH_SHA1 \<equiv> (0x0001 :: alg_id)"
abbreviation "LIBERAC_ALG_HASH_SHA3_224 \<equiv> (0x0100 :: alg_id)"
abbreviation "LIBERAC_ALG_HASH_SHA3_256 \<equiv> (0x0101 :: alg_id)"
abbreviation "LIBERAC_ALG_HASH_SHA3_512 \<equiv> (0x0102 :: alg_id)"
abbreviation "LIBERAC_ALG_HASH_SHA3_384 \<equiv> (0x0103 :: alg_id)"
abbreviation "LIBERAC_ALG_HASH_SHAKE128 \<equiv> (0x0111 :: alg_id)"
abbreviation "LIBERAC_ALG_HASH_SHAKE256 \<equiv> (0x0112 :: alg_id)"
abbreviation "LIBERAC_ALG_HASH_SHA2_224 \<equiv> (0x0201 :: alg_id)"
abbreviation "LIBERAC_ALG_HASH_SHA2_256 \<equiv> (0x0202 :: alg_id)"
abbreviation "LIBERAC_ALG_HASH_SHA2_384 \<equiv> (0x0203 :: alg_id)"
abbreviation "LIBERAC_ALG_HASH_SHA2_512 \<equiv> (0x0204 :: alg_id)"
abbreviation "LIBERAC_ALG_HASH_SHA2_512_224 \<equiv> (0x0205 :: alg_id)"
abbreviation "LIBERAC_ALG_HASH_SHA2_512_256 \<equiv> (0x0206 :: alg_id)"
abbreviation "LIBERAC_ALG_HASH_LSH_256_224 \<equiv> (0x0301 :: alg_id)"
abbreviation "LIBERAC_ALG_HASH_LSH_256_256 \<equiv> (0x0302 :: alg_id)"
abbreviation "LIBERAC_ALG_HASH_LSH_512_224 \<equiv> (0x0311 :: alg_id)"
abbreviation "LIBERAC_ALG_HASH_LSH_512_256 \<equiv> (0x0312 :: alg_id)"
abbreviation "LIBERAC_ALG_HASH_LSH_512_384 \<equiv> (0x0313 :: alg_id)"
abbreviation "LIBERAC_ALG_HASH_LSH_512_512 \<equiv> (0x0314 :: alg_id)"
abbreviation "LIBERAC_ALG_ML_KEM_512 \<equiv> (0x1001 :: alg_id)"
abbreviation "LIBERAC_ALG_ML_KEM_768 \<equiv> (0x1002 :: alg_id)"
abbreviation "LIBERAC_ALG_ML_KEM_1024 \<equiv> (0x1003 :: alg_id)"
abbreviation "LIBERAC_ALG_ECDH_P256 \<equiv> (0x4001 :: alg_id)"
abbreviation "LIBERAC_ALG_ECDH_P384 \<equiv> (0x4002 :: alg_id)"
abbreviation "LIBERAC_ALG_ECDH_P521 \<equiv> (0x4003 :: alg_id)"
abbreviation "LIBERAC_ALG_X25519 \<equiv> (0x4011 :: alg_id)"
abbreviation "LIBERAC_ALG_AES_128_ECB \<equiv> (0x00500110 :: alg_id)"
abbreviation "LIBERAC_ALG_AES_192_ECB \<equiv> (0x00500118 :: alg_id)"
abbreviation "LIBERAC_ALG_AES_256_ECB \<equiv> (0x00500120 :: alg_id)"
abbreviation "LIBERAC_ALG_AES_128_CBC \<equiv> (0x00500210 :: alg_id)"
abbreviation "LIBERAC_ALG_AES_192_CBC \<equiv> (0x00500218 :: alg_id)"
abbreviation "LIBERAC_ALG_AES_256_CBC \<equiv> (0x00500220 :: alg_id)"
abbreviation "LIBERAC_ALG_AES_128_CTR \<equiv> (0x00500610 :: alg_id)"
abbreviation "LIBERAC_ALG_AES_192_CTR \<equiv> (0x00500618 :: alg_id)"
abbreviation "LIBERAC_ALG_AES_256_CTR \<equiv> (0x00500620 :: alg_id)"
abbreviation "LIBERAC_ALG_AES_128_CCM \<equiv> (0x00580110 :: alg_id)"
abbreviation "LIBERAC_ALG_AES_192_CCM \<equiv> (0x00580118 :: alg_id)"
abbreviation "LIBERAC_ALG_AES_256_CCM \<equiv> (0x00580120 :: alg_id)"
abbreviation "LIBERAC_ALG_AES_128_GCM \<equiv> (0x00580210 :: alg_id)"
abbreviation "LIBERAC_ALG_AES_192_GCM \<equiv> (0x00580218 :: alg_id)"
abbreviation "LIBERAC_ALG_AES_256_GCM \<equiv> (0x00580220 :: alg_id)"
abbreviation "LIBERAC_ALG_TDES_EDE3_ECB \<equiv> (0x00400118 :: alg_id)"
abbreviation "LIBERAC_ALG_TDES_EDE3_CBC \<equiv> (0x00400218 :: alg_id)"
abbreviation "LIBERAC_ALG_CHACHA20 \<equiv> (0x5101 :: alg_id)"
abbreviation "LIBERAC_ALG_POLY1305 \<equiv> (0x5201 :: alg_id)"
abbreviation "LIBERAC_ALG_CHACHA20_POLY1305 \<equiv> (0x5301 :: alg_id)"
abbreviation "LIBERAC_ALG_CTR_DRBG_AES_128_DF \<equiv> (0x6001 :: alg_id)"
abbreviation "LIBERAC_ALG_CTR_DRBG_AES_192_DF \<equiv> (0x6002 :: alg_id)"
abbreviation "LIBERAC_ALG_CTR_DRBG_AES_256_DF \<equiv> (0x6003 :: alg_id)"
abbreviation "LIBERAC_ALG_CTR_DRBG_TDEA_DF \<equiv> (0x6004 :: alg_id)"
abbreviation "LIBERAC_ALG_CTR_DRBG_AES_128_NO_DF \<equiv> (0x6011 :: alg_id)"
abbreviation "LIBERAC_ALG_CTR_DRBG_AES_192_NO_DF \<equiv> (0x6012 :: alg_id)"
abbreviation "LIBERAC_ALG_CTR_DRBG_AES_256_NO_DF \<equiv> (0x6013 :: alg_id)"
abbreviation "LIBERAC_ALG_CTR_DRBG_TDEA_NO_DF \<equiv> (0x6014 :: alg_id)"

end
