(* ===== verification/ChaCha20.thy ===== *)
theory ChaCha20
  imports Block_Modes Alg_Ids
begin

text \<open>
  The ChaCha20 stream cipher: the block function and the XOR loop of
  \<^verbatim>\<open>src/StreamCipher/ChaCha20/chacha20.c\<close> and the public dispatcher
  \<^verbatim>\<open>src/StreamCipher.c\<close>. The state is the list of its sixteen words. The XOR loop and
  the dispatcher work on the memory, byte by byte, as the C code does; the lemmas show
  that under the overlap guards of the dispatcher they write exactly the input combined
  with the RFC 8439 key stream.
\<close>

section \<open>The block function\<close>

definition rotate_left32 :: "u32 \<Rightarrow> nat \<Rightarrow> u32" where
  "rotate_left32 v shift = push_bit shift v OR drop_bit (32 - shift) v"

definition CHACHA_QUARTER_ROUND ::
    "u32 \<Rightarrow> u32 \<Rightarrow> u32 \<Rightarrow> u32 \<Rightarrow> u32 \<times> u32 \<times> u32 \<times> u32" where
  "CHACHA_QUARTER_ROUND a b c d =
     (let a = a + b; d = d XOR a; d = rotate_left32 d 16;
          c = c + d; b = b XOR c; b = rotate_left32 b 12;
          a = a + b; d = d XOR a; d = rotate_left32 d 8;
          c = c + d; b = b XOR c; b = rotate_left32 b 7
      in (a, b, c, d))"

definition quarter_round_at :: "nat \<Rightarrow> nat \<Rightarrow> nat \<Rightarrow> nat \<Rightarrow> u32 list \<Rightarrow> u32 list" where
  "quarter_round_at i j k l x =
     (case CHACHA_QUARTER_ROUND (x ! i) (x ! j) (x ! k) (x ! l) of
        (a, b, c, d) \<Rightarrow> x[i := a, j := b, k := c, l := d])"

definition double_round :: "u32 list \<Rightarrow> u32 list" where
  "double_round x =
     (let x = quarter_round_at 0 4 8 12 x; x = quarter_round_at 1 5 9 13 x;
          x = quarter_round_at 2 6 10 14 x; x = quarter_round_at 3 7 11 15 x;
          x = quarter_round_at 0 5 10 15 x; x = quarter_round_at 1 6 11 12 x;
          x = quarter_round_at 2 7 8 13 x
      in quarter_round_at 3 4 9 14 x)"

definition chacha20_initial_state :: "byte list \<Rightarrow> byte list \<Rightarrow> u32 list" where
  "chacha20_initial_state key nonce =
     [0x61707865, 0x3320646e, 0x79622d32, 0x6b206574] @
     map (\<lambda>i. crypto_load32_le (drop (4 * i) key)) [0..<8] @
     [0, crypto_load32_le nonce, crypto_load32_le (drop 4 nonce), crypto_load32_le (drop 8 nonce)]"

definition chacha20_block_from_state :: "u32 list \<Rightarrow> u32 \<Rightarrow> byte list" where
  "chacha20_block_from_state initial counter =
     (let x = (double_round ^^ 10) (initial[12 := counter])
      in concat (map (\<lambda>i. crypto_store32_le
           (x ! i + (if i = 12 then counter else initial ! i))) [0..<16]))"

definition crypto_chacha20_block_internal :: "byte list \<Rightarrow> byte list \<Rightarrow> u32 \<Rightarrow> byte list" where
  "crypto_chacha20_block_internal key nonce counter =
     chacha20_block_from_state (chacha20_initial_state key nonce) counter"

lemma length_concat_const: "(\<And>x. x \<in> set xs \<Longrightarrow> length (f x) = n) \<Longrightarrow>
    length (concat (map f xs)) = n * length xs"
  by (induction xs) auto

lemma length_chacha20_block [simp, lengths]: "length (chacha20_block_from_state s c) = 64"
  by (simp add: chacha20_block_from_state_def Let_def length_concat_const [where n = 4])

section \<open>The length check and the XOR loop\<close>

definition crypto_chacha20_validate_length :: "nat \<Rightarrow> u32 \<Rightarrow> status" where
  "crypto_chacha20_validate_length input_length initial_counter =
     (let blocks = input_length div 64;
          available_blocks = 4294967295 - unat initial_counter + 1;
          blocks = (if input_length mod 64 \<noteq> 0 then blocks + 1 else blocks)
      in if available_blocks < blocks then MESSAGE_TOO_LARGE else SUCCESS)"

function chacha20_xor_loop ::
    "mem \<Rightarrow> addr \<Rightarrow> addr \<Rightarrow> nat \<Rightarrow> u32 list \<Rightarrow> u32 \<Rightarrow> nat \<Rightarrow> mem" where
  "chacha20_xor_loop m out inp len initial counter offset =
     (if offset < len then
        let chunk = min (len - offset) 64;
            stream = chacha20_block_from_state initial counter;
            m' = xor_into m (out + offset) (inp + offset) (take chunk stream);
            offset' = offset + chunk
        in chacha20_xor_loop m' out inp len initial
             (if offset' < len then counter + 1 else counter) offset'
      else m)"
  by pat_completeness auto
termination
  by (relation "measure (\<lambda>(m, out, inp, len, initial, counter, offset). len - offset)") auto

declare chacha20_xor_loop.simps [simp del]

definition crypto_chacha20_xor_internal ::
    "mem \<Rightarrow> addr \<Rightarrow> addr \<Rightarrow> nat \<Rightarrow> addr \<Rightarrow> addr \<Rightarrow> u32 \<Rightarrow> status \<times> mem" where
  "crypto_chacha20_xor_internal m output input input_length key nonce initial_counter =
     (let err = crypto_chacha20_validate_length input_length initial_counter
      in if err \<noteq> SUCCESS then (err, m)
         else let initial = chacha20_initial_state (load m key 32) (load m nonce 12)
           in (SUCCESS, chacha20_xor_loop m output input input_length initial initial_counter 0))"

section \<open>The public dispatcher\<close>

definition stream_cipher_algorithm_valid :: "alg_id \<Rightarrow> bool" where
  "stream_cipher_algorithm_valid alg \<longleftrightarrow> alg = LIBERAC_ALG_CHACHA20"

definition LIBERAC_STREAM_CIPHER_KEY_SIZE :: "alg_id \<Rightarrow> nat" where
  "LIBERAC_STREAM_CIPHER_KEY_SIZE alg = (if stream_cipher_algorithm_valid alg then 32 else 0)"

definition LIBERAC_STREAM_CIPHER_NONCE_SIZE :: "alg_id \<Rightarrow> nat" where
  "LIBERAC_STREAM_CIPHER_NONCE_SIZE alg = (if stream_cipher_algorithm_valid alg then 12 else 0)"

definition LIBERAC_STREAM_CIPHER_XOR ::
    "mem \<Rightarrow> addr \<Rightarrow> nat \<Rightarrow> addr \<Rightarrow> nat \<Rightarrow> addr \<Rightarrow> nat \<Rightarrow> addr \<Rightarrow> nat \<Rightarrow> u32 \<Rightarrow> alg_id \<Rightarrow>
     status \<times> mem" where
  "LIBERAC_STREAM_CIPHER_XOR m output output_capacity input input_length
       key key_length nonce nonce_length initial_counter alg =
     (if \<not> stream_cipher_algorithm_valid alg then (INVALID_ALG_ID, m)
      else if key = 0 \<or> nonce = 0 \<or> (input = 0 \<and> input_length \<noteq> 0) \<or>
              (output = 0 \<and> input_length \<noteq> 0) then (INVALID_ARGUMENT, m)
      else if key_length \<noteq> 32 then (INVALID_KEY, m)
      else if nonce_length \<noteq> 12 then (INVALID_ARGUMENT, m)
      else if output_capacity < input_length then (BUFFER_TOO_SMALL, m)
      else if output \<noteq> input \<and>
              crypto_ranges_overlap output input_length input input_length
        then (INVALID_ARGUMENT, m)
      else if crypto_ranges_overlap output input_length key 32 \<or>
              crypto_ranges_overlap output input_length nonce 12 then (INVALID_ARGUMENT, m)
      else let err = crypto_chacha20_validate_length input_length initial_counter
        in if err \<noteq> SUCCESS then (err, m)
           else crypto_chacha20_xor_internal m output input input_length key nonce
                  initial_counter)"

section \<open>The key stream\<close>

text \<open>
  Specification: byte \<open>i\<close> of the stream is byte \<open>i mod 64\<close> of the block with counter
  \<open>c + i div 64\<close>.
\<close>

definition keystream :: "u32 list \<Rightarrow> u32 \<Rightarrow> nat \<Rightarrow> byte list" where
  "keystream initial c n =
     map (\<lambda>i. chacha20_block_from_state initial (c + of_nat (i div 64)) ! (i mod 64)) [0..<n]"

definition chacha20_keystream :: "byte list \<Rightarrow> byte list \<Rightarrow> u32 \<Rightarrow> nat \<Rightarrow> byte list" where
  "chacha20_keystream key nonce = keystream (chacha20_initial_state key nonce)"

lemma length_keystream [simp, lengths]: "length (keystream s c n) = n"
  by (simp add: keystream_def)

lemma length_chacha20_keystream [simp, lengths]: "length (chacha20_keystream k r c n) = n"
  by (simp add: chacha20_keystream_def)

lemma keystream_0 [simp]: "keystream s c 0 = []"
  by (simp add: keystream_def)

lemma keystream_short: "n \<le> 64 \<Longrightarrow> keystream s c n = take n (chacha20_block_from_state s c)"
  by (rule nth_equalityI) (auto simp: keystream_def)

lemma keystream_block:
  "keystream s c (64 + n) = chacha20_block_from_state s c @ keystream s (c + 1) n"
  by (rule nth_equalityI)
    (auto simp: keystream_def nth_append less_diff_conv2 not_less le_div_geq le_mod_geq add.assoc)

lemma keystream_append:
  "keystream s c (64 * k + n) = keystream s c (64 * k) @ keystream s (c + of_nat k) n"
  by (induction k arbitrary: c) (auto simp: keystream_block add.assoc)

lemma keystream_take: "k \<le> n \<Longrightarrow> take k (keystream s c n) = keystream s c k"
  by (rule nth_equalityI) (auto simp: keystream_def)

section \<open>Correctness of the loop\<close>

lemma chacha20_xor_loop_done: "len \<le> offset \<Longrightarrow> chacha20_xor_loop m out inp len s c offset = m"
  by (subst chacha20_xor_loop.simps) simp

lemma chacha20_xor_loop_step:
  "offset < len \<Longrightarrow> chunk = min (len - offset) 64 \<Longrightarrow>
     chacha20_xor_loop m out inp len s c offset =
     chacha20_xor_loop
       (xor_into m (out + offset) (inp + offset) (take chunk (chacha20_block_from_state s c)))
       out inp len s (if offset + chunk < len then c + 1 else c) (offset + chunk)"
  by (subst chacha20_xor_loop.simps) (simp only: if_True Let_def)

lemma keystream_chunk:
  assumes "0 < n"
  shows "keystream s c n =
    take (min n 64) (chacha20_block_from_state s c) @ keystream s (c + 1) (n - min n 64)"
proof (cases "n \<le> 64")
  case False
  then have "n = 64 + (n - 64)" by simp
  then show ?thesis using False keystream_block [of s c "n - 64"] by simp
qed (simp add: keystream_short)

lemma chacha20_xor_loop_correct:
  assumes "out = inp \<or> disjoint out len inp len" and "offset \<le> len"
  shows "chacha20_xor_loop m out inp len s c offset =
     store m (out + offset)
       (xor_bytes (load m (inp + offset) (len - offset)) (keystream s c (len - offset)))"
  using assms(2)
proof (induction "len - offset" arbitrary: m c offset rule: less_induct)
  case less
  show ?case
  proof (cases "offset < len")
    case False
    with less.prems show ?thesis by (simp add: chacha20_xor_loop_done)
  next
    case True
    define chunk rest where "chunk = min (len - offset) 64" and "rest = len - (offset + chunk)"
    define ks where "ks = take chunk (chacha20_block_from_state s c)"
    define m' where "m' = xor_into m (out + offset) (inp + offset) ks"
    have ks: "length ks = chunk" by (simp add: ks_def chunk_def)
    have len: "len - offset = chunk + rest" "0 < chunk" "offset + chunk \<le> len"
      using True by (auto simp: chunk_def rest_def)
    have m': "m' = store m (out + offset) (xor_bytes (load m (inp + offset) chunk) ks)"
      unfolding m'_def using assms(1) len ks
      by (subst xor_into_eq_store) (auto simp: disjoint_def)
    have same: "load m' (inp + (offset + chunk)) rest = load m (inp + (offset + chunk)) rest"
      using assms(1) ks len unfolding m'
      by (intro load_store_disjoint) (auto simp: disjoint_def)
    have stream: "keystream s c (chunk + rest) = ks @ keystream s (c + 1) rest"
      using keystream_chunk [of "len - offset" s c] True
      by (simp add: ks_def chunk_def rest_def flip: len(1))
    have "chacha20_xor_loop m out inp len s c offset =
        chacha20_xor_loop m' out inp len s (if offset + chunk < len then c + 1 else c) (offset + chunk)"
      unfolding m'_def ks_def by (rule chacha20_xor_loop_step [OF True chunk_def])
    also have "\<dots> = store m' (out + (offset + chunk))
        (xor_bytes (load m' (inp + (offset + chunk)) rest)
          (keystream s (if offset + chunk < len then c + 1 else c) rest))"
      unfolding rest_def using len by (intro less.hyps) auto
    also have "\<dots> = store m' (out + (offset + chunk))
        (xor_bytes (load m (inp + (offset + chunk)) rest) (keystream s (c + 1) rest))"
      unfolding same by (cases "rest = 0") (auto simp: rest_def)
    also have "\<dots> = store m (out + offset)
        (xor_bytes (load m (inp + offset) (len - offset)) (keystream s c (len - offset)))"
      unfolding len(1) stream m' by (simp add: load_add ks store_append add.assoc)
    finally show ?thesis .
  qed
qed

lemma ceil_div: "(if n mod k \<noteq> 0 then n div k + 1 else n div k) = (n + (k - 1)) div (k :: nat)"
  if "0 < k"
proof (cases "n mod k = 0")
  case True
  then obtain q where "n = k * q" by (auto elim!: dvdE simp: mod_eq_0_iff_dvd)
  moreover have "((k - 1) + k * q) div k = q"
    using that by (simp only: div_mult_self2) simp
  ultimately show ?thesis using that True by (simp only: add.commute) simp
next
  case False
  have "n + (k - 1) = (n mod k - 1) + k * (n div k + 1)"
    using False that div_mult_mod_eq [of n k] unfolding distrib_left
    by (simp add: mult.commute)
  moreover have "(n mod k - 1) div k = 0"
    using that by (simp add: less_imp_diff_less)
  ultimately have "(n + (k - 1)) div k = n div k + 1"
    using that by (simp only: div_mult_self2)
  with False show ?thesis by simp
qed

lemma crypto_chacha20_validate_length_SUCCESS:
  "crypto_chacha20_validate_length n c = SUCCESS \<longleftrightarrow> unat c + (n + 63) div 64 \<le> 2 ^ 32"
proof -
  have blocks: "(if n mod 64 \<noteq> 0 then n div 64 + 1 else n div 64) = (n + 63) div 64"
    using ceil_div [of 64 n] by simp
  define b where "b = (n + 63) div 64"
  show ?thesis
    unfolding crypto_chacha20_validate_length_def Let_def blocks b_def [symmetric]
    using unat_u32_less [of c] by auto
qed

lemma crypto_chacha20_validate_length_cases:
  "crypto_chacha20_validate_length n c \<in> {SUCCESS, MESSAGE_TOO_LARGE}"
  by (simp add: crypto_chacha20_validate_length_def Let_def)

text \<open>The length check keeps the 32-bit block counter from wrapping inside a message.\<close>

lemma chacha20_counter_no_wrap:
  assumes "crypto_chacha20_validate_length n c = SUCCESS" and "i < n"
  shows "unat (c + of_nat (i div 64)) = unat c + i div 64"
proof -
  have "i div 64 < (n + 63) div 64" using assms(2) by linarith
  then have "unat c + i div 64 < 2 ^ 32"
    using assms(1) by (simp add: crypto_chacha20_validate_length_SUCCESS)
  then show ?thesis by (simp add: unat_word_ariths unat_of_nat)
qed

lemma crypto_chacha20_xor_internal_correct:
  assumes "out = inp \<or> disjoint out n inp n"
    and "crypto_chacha20_validate_length n c = SUCCESS"
  shows "crypto_chacha20_xor_internal m out inp n key nonce c =
     (SUCCESS, store m out (xor_bytes (load m inp n)
        (chacha20_keystream (load m key 32) (load m nonce 12) c n)))"
  using assms chacha20_xor_loop_correct [of out inp n 0]
  by (simp add: crypto_chacha20_xor_internal_def chacha20_keystream_def)


section \<open>The dispatcher\<close>

text \<open>The guards of the dispatcher, as one predicate on the arguments.\<close>

lemma stream_cipher_xor_SUCCESS:
  "fst (LIBERAC_STREAM_CIPHER_XOR m out cap inp n key kl nonce nl c alg) = SUCCESS \<longleftrightarrow>
     alg = LIBERAC_ALG_CHACHA20 \<and> key \<noteq> 0 \<and> nonce \<noteq> 0 \<and> (n \<noteq> 0 \<longrightarrow> inp \<noteq> 0 \<and> out \<noteq> 0) \<and>
     kl = 32 \<and> nl = 12 \<and> n \<le> cap \<and> (out = inp \<or> disjoint out n inp n) \<and>
     disjoint out n key 32 \<and> disjoint out n nonce 12 \<and> unat c + (n + 63) div 64 \<le> 2 ^ 32"
proof -
  have SUC: "fst (crypto_chacha20_xor_internal m out inp n key nonce c) = SUCCESS"
    if "crypto_chacha20_validate_length n c = SUCCESS"
    using that by (simp add: crypto_chacha20_xor_internal_def)
  show ?thesis
    unfolding LIBERAC_STREAM_CIPHER_XOR_def stream_cipher_algorithm_valid_def
      crypto_ranges_overlap_iff Let_def crypto_chacha20_validate_length_SUCCESS [symmetric]
    using SUC by (simp split: if_split) auto
qed

lemma stream_cipher_xor_memory:
  assumes "fst (LIBERAC_STREAM_CIPHER_XOR m out cap inp n key kl nonce nl c alg) = SUCCESS"
  shows "snd (LIBERAC_STREAM_CIPHER_XOR m out cap inp n key kl nonce nl c alg) =
     store m out (xor_bytes (load m inp n)
       (chacha20_keystream (load m key 32) (load m nonce 12) c n))"
proof -
  have g: "out = inp \<or> disjoint out n inp n" "crypto_chacha20_validate_length n c = SUCCESS"
    and f: "alg = LIBERAC_ALG_CHACHA20" "key \<noteq> 0" "nonce \<noteq> 0" "\<not> (inp = 0 \<and> n \<noteq> 0)"
      "\<not> (out = 0 \<and> n \<noteq> 0)" "kl = 32" "nl = 12" "\<not> cap < n"
      "\<not> (out \<noteq> inp \<and> \<not> disjoint out n inp n)" "disjoint out n key 32" "disjoint out n nonce 12"
    using assms unfolding stream_cipher_xor_SUCCESS crypto_chacha20_validate_length_SUCCESS by auto
  show ?thesis
    unfolding LIBERAC_STREAM_CIPHER_XOR_def stream_cipher_algorithm_valid_def
      crypto_ranges_overlap_iff g(2) crypto_chacha20_xor_internal_correct [OF g]
    using f by auto
qed

lemma stream_cipher_xor_error:
  assumes "fst (LIBERAC_STREAM_CIPHER_XOR m out cap inp n key kl nonce nl c alg) \<noteq> SUCCESS"
  shows "snd (LIBERAC_STREAM_CIPHER_XOR m out cap inp n key kl nonce nl c alg) = m"
  using assms
  by (auto simp: LIBERAC_STREAM_CIPHER_XOR_def crypto_chacha20_xor_internal_def Let_def
      split: if_splits)

section \<open>Properties\<close>

text \<open>
  C1. The dispatcher succeeds exactly under its documented argument checks (valid id, non-null
  pointers, sizes, no partial overlap, no counter overflow); it then writes the input
  combined with the RFC 8439 key stream to the output range and changes no other byte,
  in-place operation included; after every error the memory is unchanged.
\<close>

theorem stream_cipher_xor_correct:
  "let (st, m') = LIBERAC_STREAM_CIPHER_XOR m out cap inp n key kl nonce nl c alg
   in (st = SUCCESS \<longleftrightarrow>
         alg = LIBERAC_ALG_CHACHA20 \<and> key \<noteq> 0 \<and> nonce \<noteq> 0 \<and>
         \<not> (n \<noteq> 0 \<and> (inp = 0 \<or> out = 0)) \<and> kl = 32 \<and> nl = 12 \<and> n \<le> cap \<and>
         (out = inp \<or> disjoint out n inp n) \<and> disjoint out n key 32 \<and>
         disjoint out n nonce 12 \<and> unat c + (n + 63) div 64 \<le> 2 ^ 32) \<and>
      m' = (if st = SUCCESS
            then store m out (xor_bytes (load m inp n)
                   (chacha20_keystream (load m key 32) (load m nonce 12) c n))
            else m)"
  using stream_cipher_xor_SUCCESS [of m out cap inp n key kl nonce nl c alg]
    stream_cipher_xor_memory [of m out cap inp n key kl nonce nl c alg]
    stream_cipher_xor_error [of m out cap inp n key kl nonce nl c alg]
  by (cases "LIBERAC_STREAM_CIPHER_XOR m out cap inp n key kl nonce nl c alg") auto

text \<open>
  Running the cipher a second time on its output, in place and with the same key, nonce
  and counter, restores the message. The overlap guards that make the first call succeed
  are what protects the key and the nonce from the first call's writes.
\<close>

theorem stream_cipher_xor_involution:
  assumes "fst (LIBERAC_STREAM_CIPHER_XOR m out cap inp n key kl nonce nl c alg) = SUCCESS"
    and "m' = snd (LIBERAC_STREAM_CIPHER_XOR m out cap inp n key kl nonce nl c alg)"
  shows "fst (LIBERAC_STREAM_CIPHER_XOR m' out cap out n key kl nonce nl c alg) = SUCCESS \<and>
    load (snd (LIBERAC_STREAM_CIPHER_XOR m' out cap out n key kl nonce nl c alg)) out n =
      load m inp n"
proof -
  have ok: "fst (LIBERAC_STREAM_CIPHER_XOR m' out cap out n key kl nonce nl c alg) = SUCCESS"
    using assms(1) unfolding stream_cipher_xor_SUCCESS by auto
  define ks where "ks = chacha20_keystream (load m key 32) (load m nonce 12) c n"
  define ct where "ct = xor_bytes (load m inp n) ks"
  have len: "length ks = n" "length ct = n" by (simp_all add: ct_def ks_def)
  have m': "m' = store m out ct"
    using stream_cipher_xor_memory [OF assms(1)] by (simp add: assms(2) ct_def ks_def)
  have "load m' key 32 = load m key 32" "load m' nonce 12 = load m nonce 12"
    using assms(1) len unfolding stream_cipher_xor_SUCCESS m'
    by (simp_all add: load_store_disjoint)
  moreover have "load m' out n = ct"
    using load_store_same [of m out ct] by (simp add: m' len)
  ultimately have "snd (LIBERAC_STREAM_CIPHER_XOR m' out cap out n key kl nonce nl c alg) =
      store m' out (xor_bytes ct ks)"
    using stream_cipher_xor_memory [OF ok] by (simp add: ks_def)
  moreover have "xor_bytes ct ks = load m inp n"
    unfolding ct_def by (rule xor_bytes_cancel) (simp add: len)
  ultimately show ?thesis
    using ok load_store_same [of m' out "load m inp n"] by simp
qed

theorem stream_cipher_xor_involution_witness:
  "let m = (\<lambda>a. of_nat a);
       m' = snd (LIBERAC_STREAM_CIPHER_XOR m 1000 100 400 100 64 32 128 12 0xFFFFFFFE 0x5101)
   in load (snd (LIBERAC_STREAM_CIPHER_XOR m' 1000 100 1000 100 64 32 128 12 0xFFFFFFFE 0x5101))
        1000 100 = load m 400 100"
  unfolding Let_def
  by (rule stream_cipher_xor_involution [OF _ refl, THEN conjunct2])
    (simp add: stream_cipher_xor_SUCCESS disjoint_def)

text \<open>
  A length the check accepts never drives the 32-bit block counter past its end: every
  byte of the message is combined with the block numbered \<open>initial counter + offset / 64\<close>
  without wrap-around.
\<close>

theorem chacha20_counter_never_wraps:
  assumes "crypto_chacha20_validate_length n c = SUCCESS" and "i < n"
  shows "unat (c + of_nat (i div 64)) = unat c + i div 64"
  using assms by (rule chacha20_counter_no_wrap)

theorem chacha20_counter_never_wraps_witness:
  "unat (0xFFFFFFFE + of_nat (127 div 64) :: u32) = 0xFFFFFFFF"
  using chacha20_counter_never_wraps [of 128 "0xFFFFFFFE" 127]
  by (simp add: crypto_chacha20_validate_length_def)

end
