(* ===== verification/Poly1305.thy ===== *)
theory Poly1305
  imports Util_Core
begin

text \<open>
  Poly1305 as written in \<^verbatim>\<open>src/MessageAuthentication/Poly1305/poly1305.c\<close>: five 26-bit limbs
  in 32-bit words, 64-bit products, delayed carries, a branch-free final subtraction, and a
  sixteen-byte buffer for incremental input. The limb arithmetic is kept at its width; the
  lemmas show that no addition or product wraps and that the tag is the value of the
  polynomial of RFC 8439 modulo \<open>2 ^ 130 - 5\<close>.
\<close>

section \<open>The context and its operations\<close>

type_synonym limbs = "u32 \<times> u32 \<times> u32 \<times> u32 \<times> u32"

record CryptoPoly1305Context =
  poly_R :: limbs
  poly_H :: limbs
  poly_PAD :: "u32 \<times> u32 \<times> u32 \<times> u32"
  poly_BUFFER :: "byte list"
  poly_LEFTOVER :: nat

abbreviation "POLY1305_LIMB_MASK \<equiv> (0x03ffffff :: u32)"
abbreviation "POLY1305_FULL_BLOCK_BIT \<equiv> (0x01000000 :: u32)"

definition crypto_poly1305_init_internal :: "byte list \<Rightarrow> CryptoPoly1305Context" where
  "crypto_poly1305_init_internal key =
     (let t0 = crypto_load32_le key;
          t1 = crypto_load32_le (drop 4 key);
          t2 = crypto_load32_le (drop 8 key);
          t3 = crypto_load32_le (drop 12 key)
      in \<lparr>poly_R = (t0 AND 0x03ffffff,
                   (drop_bit 26 t0 OR push_bit 6 t1) AND 0x03ffff03,
                   (drop_bit 20 t1 OR push_bit 12 t2) AND 0x03ffc0ff,
                   (drop_bit 14 t2 OR push_bit 18 t3) AND 0x03f03fff,
                   drop_bit 8 t3 AND 0x000fffff),
          poly_H = (0, 0, 0, 0, 0),
          poly_PAD = (crypto_load32_le (drop 16 key), crypto_load32_le (drop 20 key),
                      crypto_load32_le (drop 24 key), crypto_load32_le (drop 28 key)),
          poly_BUFFER = zeroes 16,
          poly_LEFTOVER = 0\<rparr>)"

text \<open>One turn of the loop of \<^verbatim>\<open>poly1305_blocks\<close>, in its four stages.\<close>

definition poly1305_add_block :: "u32 \<Rightarrow> limbs \<Rightarrow> byte list \<Rightarrow> limbs" where
  "poly1305_add_block high_bit h message =
     (case h of (h0, h1, h2, h3, h4) \<Rightarrow>
        let t0 = crypto_load32_le message;
            t1 = crypto_load32_le (drop 4 message);
            t2 = crypto_load32_le (drop 8 message);
            t3 = crypto_load32_le (drop 12 message)
        in (h0 + (t0 AND POLY1305_LIMB_MASK),
            h1 + ((drop_bit 26 t0 OR push_bit 6 t1) AND POLY1305_LIMB_MASK),
            h2 + ((drop_bit 20 t1 OR push_bit 12 t2) AND POLY1305_LIMB_MASK),
            h3 + ((drop_bit 14 t2 OR push_bit 18 t3) AND POLY1305_LIMB_MASK),
            h4 + (drop_bit 8 t3 OR high_bit)))"

definition poly1305_row :: "limbs \<Rightarrow> limbs \<Rightarrow> u64" where
  "poly1305_row h r =
     (case h of (h0, h1, h2, h3, h4) \<Rightarrow> case r of (r0, r1, r2, r3, r4) \<Rightarrow>
        ucast h0 * ucast r0 + ucast h1 * ucast r1 + ucast h2 * ucast r2 +
        ucast h3 * ucast r3 + ucast h4 * ucast r4)"

definition poly1305_products :: "limbs \<Rightarrow> limbs \<Rightarrow> u64 \<times> u64 \<times> u64 \<times> u64 \<times> u64" where
  "poly1305_products r h =
     (case r of (r0, r1, r2, r3, r4) \<Rightarrow>
        let s1 = r1 * 5; s2 = r2 * 5; s3 = r3 * 5; s4 = r4 * 5
        in (poly1305_row h (r0, s4, s3, s2, s1),
            poly1305_row h (r1, r0, s4, s3, s2),
            poly1305_row h (r2, r1, r0, s4, s3),
            poly1305_row h (r3, r2, r1, r0, s4),
            poly1305_row h (r4, r3, r2, r1, r0)))"

definition poly1305_carry :: "u64 \<times> u64 \<times> u64 \<times> u64 \<times> u64 \<Rightarrow> limbs" where
  "poly1305_carry d =
     (case d of (d0, d1, d2, d3, d4) \<Rightarrow>
        let carry = ucast (drop_bit 26 d0) :: u32;
            h0 = ucast d0 AND POLY1305_LIMB_MASK;
            d1 = d1 + ucast carry;
            carry = ucast (drop_bit 26 d1) :: u32;
            h1 = ucast d1 AND POLY1305_LIMB_MASK;
            d2 = d2 + ucast carry;
            carry = ucast (drop_bit 26 d2) :: u32;
            h2 = ucast d2 AND POLY1305_LIMB_MASK;
            d3 = d3 + ucast carry;
            carry = ucast (drop_bit 26 d3) :: u32;
            h3 = ucast d3 AND POLY1305_LIMB_MASK;
            d4 = d4 + ucast carry;
            carry = ucast (drop_bit 26 d4) :: u32;
            h4 = ucast d4 AND POLY1305_LIMB_MASK;
            h0 = h0 + carry * 5;
            carry = drop_bit 26 h0;
            h0 = h0 AND POLY1305_LIMB_MASK;
            h1 = h1 + carry
        in (h0, h1, h2, h3, h4))"

definition poly1305_block :: "limbs \<Rightarrow> u32 \<Rightarrow> limbs \<Rightarrow> byte list \<Rightarrow> limbs" where
  "poly1305_block r high_bit h message =
     poly1305_carry (poly1305_products r (poly1305_add_block high_bit h message))"

definition poly1305_blocks ::
    "CryptoPoly1305Context \<Rightarrow> byte list \<Rightarrow> u32 \<Rightarrow> CryptoPoly1305Context" where
  "poly1305_blocks context message high_bit =
     context\<lparr>poly_H := absorb 16 (poly1305_block (poly_R context) high_bit) (poly_H context) message\<rparr>"

text \<open>The second half of an update: the complete blocks of the input and the remainder.\<close>

definition poly1305_update_rest ::
    "CryptoPoly1305Context \<Rightarrow> byte list \<Rightarrow> CryptoPoly1305Context" where
  "poly1305_update_rest context message =
     (let complete = length message - length message mod 16;
          context = (if 16 \<le> length message
            then poly1305_blocks context (take complete message) POLY1305_FULL_BLOCK_BIT
            else context);
          message = (if 16 \<le> length message then drop complete message else message)
      in if length message \<noteq> 0
         then context\<lparr>poly_BUFFER := copy_at (poly_BUFFER context) 0 message,
                      poly_LEFTOVER := length message\<rparr>
         else context)"

definition crypto_poly1305_update_internal ::
    "CryptoPoly1305Context \<Rightarrow> byte list \<Rightarrow> CryptoPoly1305Context" where
  "crypto_poly1305_update_internal context message =
     (if poly_LEFTOVER context \<noteq> 0 then
        let wanted = min (16 - poly_LEFTOVER context) (length message);
            context = context\<lparr>
              poly_BUFFER := copy_at (poly_BUFFER context) (poly_LEFTOVER context)
                (take wanted message),
              poly_LEFTOVER := poly_LEFTOVER context + wanted\<rparr>;
            message = drop wanted message
        in if poly_LEFTOVER context < 16 then context
           else let context = poly1305_blocks context (poly_BUFFER context)
                                POLY1305_FULL_BLOCK_BIT;
                    context = context\<lparr>poly_LEFTOVER := 0\<rparr>
             in poly1305_update_rest context message
      else poly1305_update_rest context message)"

text \<open>The final carry propagation, the selection of \<open>h\<close> or \<open>h - p\<close>, and the output words.\<close>

definition poly1305_full_carry :: "limbs \<Rightarrow> limbs" where
  "poly1305_full_carry h =
     (case h of (h0, h1, h2, h3, h4) \<Rightarrow>
        let carry = drop_bit 26 h1; h1 = h1 AND POLY1305_LIMB_MASK;
            h2 = h2 + carry;
            carry = drop_bit 26 h2; h2 = h2 AND POLY1305_LIMB_MASK;
            h3 = h3 + carry;
            carry = drop_bit 26 h3; h3 = h3 AND POLY1305_LIMB_MASK;
            h4 = h4 + carry;
            carry = drop_bit 26 h4; h4 = h4 AND POLY1305_LIMB_MASK;
            h0 = h0 + carry * 5;
            carry = drop_bit 26 h0; h0 = h0 AND POLY1305_LIMB_MASK;
            h1 = h1 + carry
        in (h0, h1, h2, h3, h4))"

definition poly1305_minus_p :: "limbs \<Rightarrow> limbs" where
  "poly1305_minus_p h =
     (case h of (h0, h1, h2, h3, h4) \<Rightarrow>
        let g0 = h0 + 5; carry = drop_bit 26 g0; g0 = g0 AND POLY1305_LIMB_MASK;
            g1 = h1 + carry; carry = drop_bit 26 g1; g1 = g1 AND POLY1305_LIMB_MASK;
            g2 = h2 + carry; carry = drop_bit 26 g2; g2 = g2 AND POLY1305_LIMB_MASK;
            g3 = h3 + carry; carry = drop_bit 26 g3; g3 = g3 AND POLY1305_LIMB_MASK;
            g4 = h4 + carry - push_bit 26 1
        in (g0, g1, g2, g3, g4))"

definition poly1305_select :: "limbs \<Rightarrow> limbs \<Rightarrow> limbs" where
  "poly1305_select h g =
     (case h of (h0, h1, h2, h3, h4) \<Rightarrow> case g of (g0, g1, g2, g3, g4) \<Rightarrow>
        let mask = drop_bit 31 g4 - 1;
            g0 = g0 AND mask; g1 = g1 AND mask; g2 = g2 AND mask; g3 = g3 AND mask;
            g4 = g4 AND mask;
            mask = NOT mask
        in ((h0 AND mask) OR g0, (h1 AND mask) OR g1, (h2 AND mask) OR g2,
            (h3 AND mask) OR g3, (h4 AND mask) OR g4))"

definition poly1305_words :: "limbs \<Rightarrow> u32 \<times> u32 \<times> u32 \<times> u32" where
  "poly1305_words h =
     (case h of (h0, h1, h2, h3, h4) \<Rightarrow>
        (h0 OR push_bit 26 h1,
         drop_bit 6 h1 OR push_bit 20 h2,
         drop_bit 12 h2 OR push_bit 14 h3,
         drop_bit 18 h3 OR push_bit 8 h4))"

definition poly1305_add_pad :: "u32 \<times> u32 \<times> u32 \<times> u32 \<Rightarrow> u32 \<times> u32 \<times> u32 \<times> u32 \<Rightarrow> byte list" where
  "poly1305_add_pad words pad =
     (case words of (word0, word1, word2, word3) \<Rightarrow> case pad of (pad0, pad1, pad2, pad3) \<Rightarrow>
        let sum0 = ucast word0 + ucast pad0 :: u64;
            sum1 = ucast word1 + ucast pad1 + drop_bit 32 sum0;
            sum2 = ucast word2 + ucast pad2 + drop_bit 32 sum1;
            sum3 = ucast word3 + ucast pad3 + drop_bit 32 sum2
        in crypto_store32_le (ucast sum0) @ crypto_store32_le (ucast sum1) @
           crypto_store32_le (ucast sum2) @ crypto_store32_le (ucast sum3))"

definition crypto_poly1305_final_internal :: "CryptoPoly1305Context \<Rightarrow> byte list" where
  "crypto_poly1305_final_internal context =
     (let context = (if poly_LEFTOVER context \<noteq> 0
            then let buffer = (poly_BUFFER context)[poly_LEFTOVER context := 1];
                     buffer = copy_at buffer (poly_LEFTOVER context + 1)
                                (zeroes (15 - poly_LEFTOVER context))
                 in poly1305_blocks (context\<lparr>poly_BUFFER := buffer\<rparr>) buffer 0
            else context);
          h = poly1305_full_carry (poly_H context);
          g = poly1305_minus_p h
      in poly1305_add_pad (poly1305_words (poly1305_select h g)) (poly_PAD context))"

definition crypto_poly1305_internal :: "byte list \<Rightarrow> byte list \<Rightarrow> byte list" where
  "crypto_poly1305_internal message key =
     crypto_poly1305_final_internal
       (crypto_poly1305_update_internal (crypto_poly1305_init_internal key) message)"

section \<open>The value of five limbs\<close>

definition limbs_val :: "limbs \<Rightarrow> nat" where
  "limbs_val h = (case h of (h0, h1, h2, h3, h4) \<Rightarrow>
     unat h0 + 2 ^ 26 * unat h1 + 2 ^ 52 * unat h2 + 2 ^ 78 * unat h3 + 2 ^ 104 * unat h4)"

definition p1305 :: nat where "p1305 = 2 ^ 130 - 5"

lemma limb_mask: "POLY1305_LIMB_MASK = mask 26"
  by (simp add: mask_eq_exp_minus_1)

lemma unat_limb [simp]: "unat (w AND POLY1305_LIMB_MASK) = unat w mod 2 ^ 26"
  unfolding limb_mask by (rule unat_and_mask)

text \<open>The low 26 bits of two adjacent words spliced at bit \<open>k\<close>.\<close>

lemma unat_splice:
  fixes a b :: u32
  assumes "6 \<le> k" "k \<le> 32"
  shows "unat ((drop_bit k a OR push_bit (32 - k) b) AND POLY1305_LIMB_MASK) =
    unat a div 2 ^ k + 2 ^ (32 - k) * (unat b mod 2 ^ (k - 6))"
proof -
  define x y j where "x = unat a div 2 ^ k" and "y = unat b" and "j = 32 - k"
  have j: "j \<le> 26" "26 - j = k - 6" using assms by (auto simp: j_def)
  have x: "x < 2 ^ j"
  proof -
    have "unat a < 2 ^ (k + j)" using assms unat_u32_less [of a] by (simp add: j_def)
    then show ?thesis unfolding x_def by (simp add: less_mult_imp_div_less power_add mult.commute)
  qed
  have "unat (drop_bit k a OR push_bit (32 - k) b) = x + (y * 2 ^ j) mod 2 ^ 32"
    using unat_or_push_bit [of "drop_bit k a" j b] x assms
    by (simp add: unat_drop_bit x_def y_def j_def)
  then have "unat ((drop_bit k a OR push_bit (32 - k) b) AND POLY1305_LIMB_MASK) =
      (x + (y * 2 ^ j) mod 2 ^ 32) mod 2 ^ 26"
    by (simp only: unat_limb)
  also have "\<dots> = (x + (y * 2 ^ j) mod 2 ^ 26) mod 2 ^ 26"
  proof -
    have "((y * 2 ^ j) mod 2 ^ 32) mod 2 ^ 26 = (y * 2 ^ j) mod 2 ^ 26"
      by (rule mod_mod_cancel) (simp add: le_imp_power_dvd)
    then show ?thesis by (metis mod_add_right_eq)
  qed
  also have "(y * 2 ^ j) mod 2 ^ 26 = 2 ^ j * (y mod 2 ^ (26 - j))"
  proof -
    have "(2 :: nat) ^ 26 = 2 ^ j * 2 ^ (26 - j)"
      by (metis j(1) le_add_diff_inverse power_add)
    then show ?thesis by (simp only: mult.commute [of y] mult_mod_right)
  qed
  also have "(x + 2 ^ j * (y mod 2 ^ (26 - j))) mod 2 ^ 26 = x + 2 ^ j * (y mod 2 ^ (26 - j))"
  proof (rule mod_less)
    have "x + 2 ^ j * (y mod 2 ^ (26 - j)) < 2 ^ j * Suc (y mod 2 ^ (26 - j))" using x by simp
    also have "\<dots> \<le> 2 ^ j * 2 ^ (26 - j)" by (intro mult_le_mono2) (simp add: Suc_leI)
    also have "\<dots> = 2 ^ 26" by (metis j(1) le_add_diff_inverse power_add)
    finally show "x + 2 ^ j * (y mod 2 ^ (26 - j)) < 2 ^ 26" .
  qed
  finally show ?thesis by (simp add: x_def y_def j(2)) (simp add: j_def)
qed

text \<open>The five limbs of four words hold the same 128-bit value.\<close>

lemma limbs_of_words:
  fixes t0 t1 t2 t3 :: u32
  shows "unat (t0 AND POLY1305_LIMB_MASK) +
     2 ^ 26 * unat ((drop_bit 26 t0 OR push_bit 6 t1) AND POLY1305_LIMB_MASK) +
     2 ^ 52 * unat ((drop_bit 20 t1 OR push_bit 12 t2) AND POLY1305_LIMB_MASK) +
     2 ^ 78 * unat ((drop_bit 14 t2 OR push_bit 18 t3) AND POLY1305_LIMB_MASK) +
     2 ^ 104 * unat (drop_bit 8 t3) =
     unat t0 + 2 ^ 32 * unat t1 + 2 ^ 64 * unat t2 + 2 ^ 96 * unat t3"
proof -
  have "unat ((drop_bit 26 t0 OR push_bit 6 t1) AND POLY1305_LIMB_MASK) =
      unat t0 div 2 ^ 26 + 2 ^ 6 * (unat t1 mod 2 ^ 20)"
    using unat_splice [of 26 t0 t1] by simp
  moreover have "unat ((drop_bit 20 t1 OR push_bit 12 t2) AND POLY1305_LIMB_MASK) =
      unat t1 div 2 ^ 20 + 2 ^ 12 * (unat t2 mod 2 ^ 14)"
    using unat_splice [of 20 t1 t2] by simp
  moreover have "unat ((drop_bit 14 t2 OR push_bit 18 t3) AND POLY1305_LIMB_MASK) =
      unat t2 div 2 ^ 14 + 2 ^ 18 * (unat t3 mod 2 ^ 8)"
    using unat_splice [of 14 t2 t3] by simp
  moreover have arith: "(m0 :: nat) + 2 ^ 26 * (q0 + 2 ^ 6 * m1) + 2 ^ 52 * (q1 + 2 ^ 12 * m2) +
      2 ^ 78 * (q2 + 2 ^ 18 * m3) + 2 ^ 104 * q3 =
      (q0 * 2 ^ 26 + m0) + 2 ^ 32 * (q1 * 2 ^ 20 + m1) + 2 ^ 64 * (q2 * 2 ^ 14 + m2) +
      2 ^ 96 * (q3 * 2 ^ 8 + m3)" for m0 q0 m1 q1 m2 q2 m3 q3
    by (simp add: algebra_simps)
  ultimately show ?thesis
    using unat_limb [of t0] unat_drop_bit [of 8 t3] by (simp only: arith div_mult_mod_eq)
qed

lemma nat_of_le_words:
  assumes "16 \<le> length p"
  shows "nat_of_le (take 16 p) = unat (crypto_load32_le p) + 2 ^ 32 * unat (crypto_load32_le (drop 4 p)) +
     2 ^ 64 * unat (crypto_load32_le (drop 8 p)) + 2 ^ 96 * unat (crypto_load32_le (drop 12 p))"
proof -
  have "take 16 p = take 4 p @ take 4 (drop 4 p) @ take 4 (drop 8 p) @ take 4 (drop 12 p)"
    using take_add [of 4 12 p] take_add [of 4 8 "drop 4 p"] take_add [of 4 4 "drop 8 p"] by simp
  then show ?thesis
    using assms by (simp add: nat_of_le_append unat_crypto_load32_le)
qed

section \<open>One block\<close>

text \<open>The bounds on the accumulator between blocks, and after a block has been added.\<close>

definition limbs_reduced :: "limbs \<Rightarrow> bool" where
  "limbs_reduced h \<longleftrightarrow> (case h of (h0, h1, h2, h3, h4) \<Rightarrow>
     unat h0 < 2 ^ 26 \<and> unat h1 < 2 ^ 26 + 64 \<and> unat h2 < 2 ^ 26 \<and> unat h3 < 2 ^ 26 \<and>
     unat h4 < 2 ^ 26)"

definition limbs_loose :: "limbs \<Rightarrow> bool" where
  "limbs_loose h \<longleftrightarrow> (case h of (h0, h1, h2, h3, h4) \<Rightarrow>
     unat h0 \<le> 2 ^ 27 + 64 \<and> unat h1 \<le> 2 ^ 27 + 64 \<and> unat h2 \<le> 2 ^ 27 + 64 \<and>
     unat h3 \<le> 2 ^ 27 + 64 \<and> unat h4 \<le> 2 ^ 27 + 64)"

definition limbs_clamped :: "limbs \<Rightarrow> bool" where
  "limbs_clamped r \<longleftrightarrow> (case r of (r0, r1, r2, r3, r4) \<Rightarrow>
     unat r0 \<le> 2 ^ 26 \<and> unat r1 \<le> 2 ^ 26 \<and> unat r2 \<le> 2 ^ 26 \<and> unat r3 \<le> 2 ^ 26 \<and>
     unat r4 \<le> 2 ^ 26)"

lemma unat_high_limb:
  assumes "hb = 0 \<or> hb = POLY1305_FULL_BLOCK_BIT"
  shows "unat (drop_bit 8 t OR hb) = unat (t :: u32) div 2 ^ 8 + unat hb"
proof -
  have t: "unat (drop_bit 8 t) = unat t div 2 ^ 8" by (simp only: unat_drop_bit)
  have "unat t div 2 ^ 8 < 2 ^ 24" using unat_u32_less [of t] by simp
  moreover have "(2 :: nat) ^ 24 dvd unat hb" using assms by auto
  ultimately show ?thesis unfolding unsigned_or_eq t by (rule or_eq_add_nat)
qed

lemma poly1305_add_block_val:
  assumes "limbs_reduced h" and "hb = 0 \<or> hb = POLY1305_FULL_BLOCK_BIT" and "16 \<le> length message"
  shows "limbs_loose (poly1305_add_block hb h message)"
    and "limbs_val (poly1305_add_block hb h message) =
      limbs_val h + nat_of_le (take 16 message) + 2 ^ 104 * unat hb"
proof -
  obtain h0 h1 h2 h3 h4 where h: "h = (h0, h1, h2, h3, h4)" by (cases h)
  define t0 t1 t2 t3 where "t0 = crypto_load32_le message" and "t1 = crypto_load32_le (drop 4 message)"
    and "t2 = crypto_load32_le (drop 8 message)" and "t3 = crypto_load32_le (drop 12 message)"
  define m0 m1 m2 m3 m4 where "m0 = t0 AND POLY1305_LIMB_MASK"
    and "m1 = (drop_bit 26 t0 OR push_bit 6 t1) AND POLY1305_LIMB_MASK"
    and "m2 = (drop_bit 20 t1 OR push_bit 12 t2) AND POLY1305_LIMB_MASK"
    and "m3 = (drop_bit 14 t2 OR push_bit 18 t3) AND POLY1305_LIMB_MASK"
    and "m4 = drop_bit 8 t3 OR hb"
  have eq: "poly1305_add_block hb h message = (h0 + m0, h1 + m1, h2 + m2, h3 + m3, h4 + m4)"
    by (simp add: poly1305_add_block_def h Let_def t0_def t1_def t2_def t3_def m0_def m1_def m2_def
        m3_def m4_def)
  have hb: "unat hb \<le> 2 ^ 24" using assms(2) by auto
  have t3: "unat t3 div 2 ^ 8 < 2 ^ 24" using unat_u32_less [of t3] by simp
  have m4: "unat m4 = unat t3 div 2 ^ 8 + unat hb"
    unfolding m4_def using assms(2) by (rule unat_high_limb)
  have m: "unat m0 < 2 ^ 26" "unat m1 < 2 ^ 26" "unat m2 < 2 ^ 26" "unat m3 < 2 ^ 26"
    unfolding m0_def m1_def m2_def m3_def unat_limb by simp_all
  have hs: "unat h0 < 2 ^ 26" "unat h1 < 2 ^ 26 + 64" "unat h2 < 2 ^ 26" "unat h3 < 2 ^ 26"
    "unat h4 < 2 ^ 26" using assms(1) by (simp_all add: limbs_reduced_def h)
  have sums: "unat (h0 + m0) = unat h0 + unat m0" "unat (h1 + m1) = unat h1 + unat m1"
    "unat (h2 + m2) = unat h2 + unat m2" "unat (h3 + m3) = unat h3 + unat m3"
    "unat (h4 + m4) = unat h4 + unat m4"
    using hs m t3 hb by (simp_all add: unat_add_small m4)
  show "limbs_loose (poly1305_add_block hb h message)"
    unfolding eq limbs_loose_def using hs m t3 hb by (simp add: sums m4)
  have "unat m0 + 2 ^ 26 * unat m1 + 2 ^ 52 * unat m2 + 2 ^ 78 * unat m3 + 2 ^ 104 * (unat t3 div 2 ^ 8) =
      nat_of_le (take 16 message)"
    using limbs_of_words [of t0 t1 t2 t3] nat_of_le_words [OF assms(3)]
    unfolding m0_def m1_def m2_def m3_def unat_drop_bit
    by (simp only: t0_def t1_def t2_def t3_def)
  then show "limbs_val (poly1305_add_block hb h message) =
      limbs_val h + nat_of_le (take 16 message) + 2 ^ 104 * unat hb"
    unfolding eq unfolding h limbs_val_def by (simp add: sums m4 algebra_simps)
qed

text \<open>The products: each of the five rows stays below \<open>2 ^ 58\<close>, so no 64-bit sum wraps.\<close>

lemma unat_ucast_limb [simp]: "unat (ucast (a :: u32) :: u64) = unat a"
  using unat_u32_less [of a] by (simp add: unat_ucast)

lemma poly1305_row_val:
  assumes h: "unat h0 \<le> A" "unat h1 \<le> A" "unat h2 \<le> A" "unat h3 \<le> A" "unat h4 \<le> A"
    and r: "unat r0 \<le> B" "unat r1 \<le> B" "unat r2 \<le> B" "unat r3 \<le> B" "unat r4 \<le> B"
    and AB: "5 * (A * B) < 2 ^ 58"
  shows "unat (poly1305_row (h0, h1, h2, h3, h4) (r0, r1, r2, r3, r4)) =
      unat h0 * unat r0 + unat h1 * unat r1 + unat h2 * unat r2 + unat h3 * unat r3 + unat h4 * unat r4"
    and "unat (poly1305_row (h0, h1, h2, h3, h4) (r0, r1, r2, r3, r4)) \<le> 5 * (A * B)"
proof -
  note le = mult_le_mono [OF h(1) r(1)] mult_le_mono [OF h(2) r(2)] mult_le_mono [OF h(3) r(3)]
    mult_le_mono [OF h(4) r(4)] mult_le_mono [OF h(5) r(5)]
  have p: "unat (ucast a * ucast b :: u64) = unat a * unat b" if "unat a * unat b \<le> A * B"
    for a b :: u32
    using that AB by (subst unat_mult_small) simp_all
  show 1: "unat (poly1305_row (h0, h1, h2, h3, h4) (r0, r1, r2, r3, r4)) =
      unat h0 * unat r0 + unat h1 * unat r1 + unat h2 * unat r2 + unat h3 * unat r3 + unat h4 * unat r4"
    using le AB by (simp add: poly1305_row_def unat_add_small p)
  show "unat (poly1305_row (h0, h1, h2, h3, h4) (r0, r1, r2, r3, r4)) \<le> 5 * (A * B)"
    unfolding 1 using le by linarith
qed

text \<open>
  \<open>rows_val\<close> is the value of the five row sums; it differs from the product by a multiple of
  \<open>2 ^ 130 - 5\<close>, because the wrapped products carry the factor 5.
\<close>

definition rows_val :: "u64 \<times> u64 \<times> u64 \<times> u64 \<times> u64 \<Rightarrow> nat" where
  "rows_val d = (case d of (d0, d1, d2, d3, d4) \<Rightarrow>
     unat d0 + 2 ^ 26 * unat d1 + 2 ^ 52 * unat d2 + 2 ^ 78 * unat d3 + 2 ^ 104 * unat d4)"

definition rows_bounded :: "u64 \<times> u64 \<times> u64 \<times> u64 \<times> u64 \<Rightarrow> bool" where
  "rows_bounded d = (case d of (d0, d1, d2, d3, d4) \<Rightarrow>
     unat d0 \<le> 2 ^ 58 - 2 ^ 33 \<and> unat d1 \<le> 2 ^ 58 - 2 ^ 33 \<and> unat d2 \<le> 2 ^ 58 - 2 ^ 33 \<and>
     unat d3 \<le> 2 ^ 58 - 2 ^ 33 \<and> unat d4 \<le> 5 * (2 ^ 53 + 2 ^ 32))"

lemma schoolbook_wrap:
  fixes h0 h1 h2 h3 h4 r0 r1 r2 r3 r4 x :: int
  shows "(h0 + x * h1 + x ^ 2 * h2 + x ^ 3 * h3 + x ^ 4 * h4) *
      (r0 + x * r1 + x ^ 2 * r2 + x ^ 3 * r3 + x ^ 4 * r4) =
    (h0 * r0 + h1 * (r4 * 5) + h2 * (r3 * 5) + h3 * (r2 * 5) + h4 * (r1 * 5)) +
    x * (h0 * r1 + h1 * r0 + h2 * (r4 * 5) + h3 * (r3 * 5) + h4 * (r2 * 5)) +
    x ^ 2 * (h0 * r2 + h1 * r1 + h2 * r0 + h3 * (r4 * 5) + h4 * (r3 * 5)) +
    x ^ 3 * (h0 * r3 + h1 * r2 + h2 * r1 + h3 * r0 + h4 * (r4 * 5)) +
    x ^ 4 * (h0 * r4 + h1 * r3 + h2 * r2 + h3 * r1 + h4 * r0) +
    (x ^ 5 - 5) * (h1 * r4 + h2 * r3 + h3 * r2 + h4 * r1 +
      x * (h2 * r4 + h3 * r3 + h4 * r2) + x ^ 2 * (h3 * r4 + h4 * r3) + x ^ 3 * (h4 * r4))"
  by algebra

lemma poly1305_products_val:
  assumes "limbs_loose h" and "limbs_clamped r"
  shows "rows_bounded (poly1305_products r h)"
    and "rows_val (poly1305_products r h) mod p1305 = limbs_val h * limbs_val r mod p1305"
proof -
  obtain h0 h1 h2 h3 h4 where h: "h = (h0, h1, h2, h3, h4)" by (cases h)
  obtain r0 r1 r2 r3 r4 where r: "r = (r0, r1, r2, r3, r4)" by (cases r)
  have hb: "unat h0 \<le> 2 ^ 27 + 64" "unat h1 \<le> 2 ^ 27 + 64" "unat h2 \<le> 2 ^ 27 + 64"
    "unat h3 \<le> 2 ^ 27 + 64" "unat h4 \<le> 2 ^ 27 + 64"
    using assms(1) by (simp_all add: limbs_loose_def h)
  have rb: "unat r0 \<le> 2 ^ 26" "unat r1 \<le> 2 ^ 26" "unat r2 \<le> 2 ^ 26" "unat r3 \<le> 2 ^ 26"
    "unat r4 \<le> 2 ^ 26"
    using assms(2) by (simp_all add: limbs_clamped_def r)
  have five: "unat (a * 5) = unat a * 5" if "unat a \<le> 2 ^ 26" for a :: u32
    using that by (simp add: unat_mult_small)
  have s: "unat (r1 * 5) = unat r1 * 5" "unat (r2 * 5) = unat r2 * 5" "unat (r3 * 5) = unat r3 * 5"
    "unat (r4 * 5) = unat r4 * 5"
    using rb by (simp_all only: five)
  define B where "B = (5 * 2 ^ 26 :: nat)"
  have wide: "unat r0 \<le> B" "unat r1 \<le> B" "unat r2 \<le> B" "unat r3 \<le> B"
    "unat (r1 * 5) \<le> B" "unat (r2 * 5) \<le> B" "unat (r3 * 5) \<le> B" "unat (r4 * 5) \<le> B"
    using rb unfolding s by (simp_all add: B_def)
  have AB: "5 * ((2 ^ 27 + 64) * B) < 2 ^ 58" "5 * ((2 ^ 27 + 64) * 2 ^ 26) < (2 ^ 58 :: nat)"
    by (simp_all add: B_def)
  note row = poly1305_row_val [OF hb _ _ _ _ _ AB(1)]
  note rows = row [OF wide(1,8,7,6,5)] row [OF wide(2,1,8,7,6)] row [OF wide(3,2,1,8,7)]
    row [OF wide(4,3,2,1,8)] poly1305_row_val [OF hb rb(5,4,3,2,1) AB(2)]
  have eq: "poly1305_products r h =
      (poly1305_row h (r0, r4 * 5, r3 * 5, r2 * 5, r1 * 5),
       poly1305_row h (r1, r0, r4 * 5, r3 * 5, r2 * 5),
       poly1305_row h (r2, r1, r0, r4 * 5, r3 * 5),
       poly1305_row h (r3, r2, r1, r0, r4 * 5),
       poly1305_row h (r4, r3, r2, r1, r0))"
    by (simp add: poly1305_products_def r Let_def)
  show "rows_bounded (poly1305_products r h)"
    unfolding eq unfolding h rows_bounded_def
    using rows(2,4,6,8,10) by (simp add: B_def)
  define K where "K h1' h2' h3' h4' r1' r2' r3' r4' = h1' * r4' + h2' * r3' + h3' * r2' + h4' * r1' +
      2 ^ 26 * (h2' * r4' + h3' * r3' + h4' * r2') + (2 ^ 26) ^ 2 * (h3' * r4' + h4' * r3') +
      (2 ^ 26) ^ 3 * (h4' * r4')"
    for h1' h2' h3' h4' r1' r2' r3' r4' :: int
  have "int (limbs_val h * limbs_val r) = int (rows_val (poly1305_products r h)) +
      int p1305 * K (int (unat h1)) (int (unat h2)) (int (unat h3)) (int (unat h4))
        (int (unat r1)) (int (unat r2)) (int (unat r3)) (int (unat r4))"
    unfolding eq unfolding h r rows_val_def limbs_val_def prod.case rows(1,3,5,7,9) s
      of_nat_mult of_nat_add K_def
    using schoolbook_wrap [of "int (unat h0)" "2 ^ 26" "int (unat h1)" "int (unat h2)" "int (unat h3)"
        "int (unat h4)" "int (unat r0)" "int (unat r1)" "int (unat r2)" "int (unat r3)" "int (unat r4)"]
    by (simp add: p1305_def)
  then have "int (limbs_val h * limbs_val r) mod int p1305 =
      int (rows_val (poly1305_products r h)) mod int p1305"
    by simp
  then show "rows_val (poly1305_products r h) mod p1305 = limbs_val h * limbs_val r mod p1305"
    by (simp only: of_nat_mod [symmetric] of_nat_eq_iff)
qed

text \<open>The carry chain.\<close>

lemma unat_carry64:
  assumes "unat d < 2 ^ 58"
  shows "unat (ucast (drop_bit 26 d) :: u32) = unat (d :: u64) div 2 ^ 26"
proof -
  have "unat d div 2 ^ 26 < 2 ^ 32" using assms by simp
  then show ?thesis by (simp add: unat_ucast unat_drop_bit)
qed

lemma unat_low_limb64: "unat (ucast (d :: u64) AND POLY1305_LIMB_MASK) = unat d mod 2 ^ 26"
proof -
  have "(unat d mod 2 ^ 32) mod 2 ^ 26 = unat d mod 2 ^ 26"
    by (rule mod_mod_cancel) (simp add: le_imp_power_dvd)
  then show ?thesis by (simp add: unat_ucast)
qed

lemma unat_add_carry64:
  assumes "unat c < 2 ^ 32" and "unat d \<le> 2 ^ 58 - 2 ^ 33"
  shows "unat (d + ucast (c :: u32)) = unat (d :: u64) + unat c"
    and "unat (d + ucast (c :: u32)) < 2 ^ 58"
proof -
  show 1: "unat (d + ucast c) = unat d + unat c" using assms by (simp add: unat_add_small)
  show "unat (d + ucast c) < 2 ^ 58" unfolding 1 using assms by simp
qed

text \<open>The same chain on natural numbers, and what it does to the value.\<close>

lemma carry_chain_linear:
  fixes d0 d1 d2 d3 d4 :: nat
  assumes "d0 = q0 * 67108864 + m0" "d1 + q0 = q1 * 67108864 + m1" "d2 + q1 = q2 * 67108864 + m2"
      "d3 + q2 = q3 * 67108864 + m3" "d4 + q3 = q4 * 67108864 + m4" "m0 + q4 * 5 = q5 * 67108864 + m5"
  shows "(m5 + 2 ^ 26 * (m1 + q5) + 2 ^ 52 * m2 + 2 ^ 78 * m3 + 2 ^ 104 * m4) + p1305 * q4 =
    d0 + 2 ^ 26 * d1 + 2 ^ 52 * d2 + 2 ^ 78 * d3 + 2 ^ 104 * d4"
  using assms unfolding p1305_def by simp

lemma split_limb: "(x :: nat) = x div 2 ^ 26 * 67108864 + x mod 2 ^ 26"
  using div_mult_mod_eq [of x "2 ^ 26"] by simp

lemma carry_chain_val:
  fixes d0 d1 d2 d3 d4 e1 e2 e3 e4 f0 :: nat
  assumes e: "e1 = d1 + d0 div 2 ^ 26" "e2 = d2 + e1 div 2 ^ 26" "e3 = d3 + e2 div 2 ^ 26"
      "e4 = d4 + e3 div 2 ^ 26" "f0 = d0 mod 2 ^ 26 + e4 div 2 ^ 26 * 5"
  shows "(f0 mod 2 ^ 26 + 2 ^ 26 * (e1 mod 2 ^ 26 + f0 div 2 ^ 26) + 2 ^ 52 * (e2 mod 2 ^ 26) +
      2 ^ 78 * (e3 mod 2 ^ 26) + 2 ^ 104 * (e4 mod 2 ^ 26)) + p1305 * (e4 div 2 ^ 26) =
    d0 + 2 ^ 26 * d1 + 2 ^ 52 * d2 + 2 ^ 78 * d3 + 2 ^ 104 * d4"
  unfolding e
  by (rule carry_chain_linear [OF split_limb split_limb split_limb split_limb split_limb split_limb])

lemma poly1305_carry_val:
  assumes "rows_bounded d"
  shows "limbs_reduced (poly1305_carry d)"
    and "limbs_val (poly1305_carry d) mod p1305 = rows_val d mod p1305"
proof -
  obtain d0 d1 d2 d3 d4 where d: "d = (d0, d1, d2, d3, d4)" by (cases d)
  have b: "unat d0 \<le> 2 ^ 58 - 2 ^ 33" "unat d1 \<le> 2 ^ 58 - 2 ^ 33" "unat d2 \<le> 2 ^ 58 - 2 ^ 33"
    "unat d3 \<le> 2 ^ 58 - 2 ^ 33" "unat d4 \<le> 5 * (2 ^ 53 + 2 ^ 32)"
    using assms by (simp_all add: rows_bounded_def d)
  define c0 where "c0 = (ucast (drop_bit 26 d0) :: u32)"
  define e1 where "e1 = d1 + ucast c0"
  define c1 where "c1 = (ucast (drop_bit 26 e1) :: u32)"
  define e2 where "e2 = d2 + ucast c1"
  define c2 where "c2 = (ucast (drop_bit 26 e2) :: u32)"
  define e3 where "e3 = d3 + ucast c2"
  define c3 where "c3 = (ucast (drop_bit 26 e3) :: u32)"
  define e4 where "e4 = d4 + ucast c3"
  define c4 where "c4 = (ucast (drop_bit 26 e4) :: u32)"
  define f0 where "f0 = (ucast d0 AND POLY1305_LIMB_MASK) + c4 * 5"
  have c_bound: "unat c < 2 ^ 32" for c :: u32 using unat_u32_less [of c] by simp
  have c0: "unat c0 = unat d0 div 2 ^ 26" unfolding c0_def using b(1) by (intro unat_carry64) simp
  have e1: "unat e1 = unat d1 + unat c0" "unat e1 < 2 ^ 58"
    unfolding e1_def by (rule unat_add_carry64 [OF c_bound b(2)])+
  have c1: "unat c1 = unat e1 div 2 ^ 26" unfolding c1_def using e1(2) by (rule unat_carry64)
  have e2: "unat e2 = unat d2 + unat c1" "unat e2 < 2 ^ 58"
    unfolding e2_def by (rule unat_add_carry64 [OF c_bound b(3)])+
  have c2: "unat c2 = unat e2 div 2 ^ 26" unfolding c2_def using e2(2) by (rule unat_carry64)
  have e3: "unat e3 = unat d3 + unat c2" "unat e3 < 2 ^ 58"
    unfolding e3_def by (rule unat_add_carry64 [OF c_bound b(4)])+
  have c3: "unat c3 = unat e3 div 2 ^ 26" unfolding c3_def using e3(2) by (rule unat_carry64)
  have d4: "unat d4 \<le> 2 ^ 58 - 2 ^ 33" using b(5) by simp
  have e4: "unat e4 = unat d4 + unat c3" "unat e4 < 2 ^ 58"
    unfolding e4_def by (rule unat_add_carry64 [OF c_bound d4])+
  have c4: "unat c4 = unat e4 div 2 ^ 26" unfolding c4_def using e4(2) by (rule unat_carry64)
  have c4_bound: "unat c4 \<le> 5 * 2 ^ 27 + 384"
    unfolding c4 e4(1) using b(5) unat_u32_less [of c3] by simp
  have c45: "unat (c4 * 5) = unat c4 * 5" using c4_bound by (simp add: unat_mult_small)
  have low: "unat (ucast d0 AND POLY1305_LIMB_MASK) = unat d0 mod 2 ^ 26" by (rule unat_low_limb64)
  have f0: "unat f0 = unat d0 mod 2 ^ 26 + unat c4 * 5"
  proof -
    have "unat (ucast d0 AND POLY1305_LIMB_MASK) + unat (c4 * 5) < 2 ^ LENGTH(32)"
      unfolding low c45 using c4_bound by (simp add: add_less_le_mono less_le_trans [OF add_less_le_mono])
    then show ?thesis unfolding f0_def by (simp only: unat_add_small low c45)
  qed
  have f0_bound: "unat f0 div 2 ^ 26 < 64"
  proof -
    have "unat d0 mod 2 ^ 26 < 2 ^ 26" by simp
    then show ?thesis unfolding f0 using c4_bound by simp
  qed
  have h1: "unat ((ucast e1 AND POLY1305_LIMB_MASK) + drop_bit 26 f0) =
      unat e1 mod 2 ^ 26 + unat f0 div 2 ^ 26"
    using f0_bound by (subst unat_add_small) (simp_all add: unat_drop_bit unat_low_limb64 del: unat_limb)
  have eq: "poly1305_carry d =
     (f0 AND POLY1305_LIMB_MASK, (ucast e1 AND POLY1305_LIMB_MASK) + drop_bit 26 f0,
      ucast e2 AND POLY1305_LIMB_MASK, ucast e3 AND POLY1305_LIMB_MASK,
      ucast e4 AND POLY1305_LIMB_MASK)"
    by (simp add: poly1305_carry_def d Let_def f0_def c4_def e4_def c3_def e3_def c2_def e2_def
        c1_def e1_def c0_def)
  show "limbs_reduced (poly1305_carry d)"
    unfolding eq limbs_reduced_def prod.case h1 using f0_bound by (simp add: add_less_le_mono)
  have "limbs_val (poly1305_carry d) + p1305 * (unat e4 div 2 ^ 26) = rows_val d"
    unfolding eq unfolding limbs_val_def rows_val_def d prod.case h1 unat_low_limb64
      unfolding unat_limb
    by (rule carry_chain_val) (simp_all only: e1 e2 e3 e4 c0 c1 c2 c3 c4 f0)
  then show "limbs_val (poly1305_carry d) mod p1305 = rows_val d mod p1305"
    by (metis mod_mult_self2)
qed

lemma poly1305_block_val:
  assumes "limbs_reduced h" and "limbs_clamped r" and "hb = 0 \<or> hb = POLY1305_FULL_BLOCK_BIT"
    and "16 \<le> length message"
  shows "limbs_reduced (poly1305_block r hb h message)"
    and "limbs_val (poly1305_block r hb h message) mod p1305 =
      (limbs_val h + nat_of_le (take 16 message) + 2 ^ 104 * unat hb) * limbs_val r mod p1305"
proof -
  note add = poly1305_add_block_val [OF assms(1,3,4)]
  note prod = poly1305_products_val [OF add(1) assms(2)]
  show "limbs_reduced (poly1305_block r hb h message)"
    unfolding poly1305_block_def using prod(1) by (rule poly1305_carry_val)
  show "limbs_val (poly1305_block r hb h message) mod p1305 =
      (limbs_val h + nat_of_le (take 16 message) + 2 ^ 104 * unat hb) * limbs_val r mod p1305"
    unfolding poly1305_block_def poly1305_carry_val(2) [OF prod(1)] prod(2) add(2) ..
qed

section \<open>The final reduction\<close>

text \<open>The tag words are those of \<open>(h mod p + s) mod 2 ^ 128\<close>.\<close>

lemma full_carry_chain_val:
  fixes h0 h1 h2 h3 h4 e2 e3 e4 f0 :: nat
  assumes e: "e2 = h2 + h1 div 2 ^ 26" "e3 = h3 + e2 div 2 ^ 26" "e4 = h4 + e3 div 2 ^ 26"
    "f0 = h0 + e4 div 2 ^ 26 * 5"
  shows "(f0 mod 2 ^ 26 + 2 ^ 26 * (h1 mod 2 ^ 26 + f0 div 2 ^ 26) + 2 ^ 52 * (e2 mod 2 ^ 26) +
      2 ^ 78 * (e3 mod 2 ^ 26) + 2 ^ 104 * (e4 mod 2 ^ 26)) + p1305 * (e4 div 2 ^ 26) =
    h0 + 2 ^ 26 * h1 + 2 ^ 52 * h2 + 2 ^ 78 * h3 + 2 ^ 104 * h4"
proof -
  have "h0 = 0 * 67108864 + h0" by simp
  from carry_chain_linear [OF this split_limb split_limb split_limb split_limb split_limb]
  show ?thesis unfolding e add_0_right .
qed

text \<open>A carry out of the top limb can only come from a second limb that was above \<open>2 ^ 26\<close>.\<close>

lemma full_carry_ripple:
  fixes h0 h1 h2 h3 h4 e2 e3 e4 f0 :: nat
  assumes e: "e2 = h2 + h1 div 2 ^ 26" "e3 = h3 + e2 div 2 ^ 26" "e4 = h4 + e3 div 2 ^ 26"
      "f0 = h0 + e4 div 2 ^ 26 * 5"
    and b: "h0 < 2 ^ 26" "h1 < 2 ^ 26 + 64" "h2 < 2 ^ 26" "h3 < 2 ^ 26" "h4 < 2 ^ 26"
  shows "f0 < 2 ^ 27" "h1 mod 2 ^ 26 + f0 div 2 ^ 26 < 2 ^ 26" "e2 \<le> 2 ^ 26" "e3 \<le> 2 ^ 26" "e4 \<le> 2 ^ 26"
proof -
  have le: "x div 2 ^ 26 \<le> 1" if "x < 2 ^ 27" for x :: nat
    using that div_le_mono [of x "2 ^ 27 - 1" "2 ^ 26"] by simp
  have c1: "h1 div 2 ^ 26 \<le> 1" using b(2) by (intro le) simp
  show e2: "e2 \<le> 2 ^ 26" using e(1) b(3) c1 by simp
  have c2: "e2 div 2 ^ 26 \<le> 1" using e2 by (intro le) simp
  show e3: "e3 \<le> 2 ^ 26" using e(2) b(4) c2 by simp
  have c3: "e3 div 2 ^ 26 \<le> 1" using e3 by (intro le) simp
  show e4: "e4 \<le> 2 ^ 26" using e(3) b(5) c3 by simp
  have c4: "e4 div 2 ^ 26 \<le> 1" using e4 by (intro le) simp
  show f0: "f0 < 2 ^ 27" using e(4) b(1) c4 by simp
  show "h1 mod 2 ^ 26 + f0 div 2 ^ 26 < 2 ^ 26"
  proof (cases "h1 < 2 ^ 26")
    case True
    then have "e2 < 2 ^ 26" using e(1) b(3) by simp
    then have "e3 < 2 ^ 26" using e(2) b(4) by simp
    then have "e4 < 2 ^ 26" using e(3) b(5) by simp
    then have "f0 < 2 ^ 26" using e(4) b(1) by simp
    then show ?thesis by simp
  next
    case False
    then have "h1 mod 2 ^ 26 < 64" using b(2) by (simp add: le_mod_geq)
    then show ?thesis using le [OF f0] by simp
  qed
qed

definition limbs_tight :: "limbs \<Rightarrow> bool" where
  "limbs_tight h \<longleftrightarrow> (case h of (h0, h1, h2, h3, h4) \<Rightarrow>
     unat h0 < 2 ^ 26 \<and> unat h1 < 2 ^ 26 \<and> unat h2 < 2 ^ 26 \<and> unat h3 < 2 ^ 26 \<and>
     unat h4 < 2 ^ 26)"

lemma poly1305_full_carry_val:
  assumes "limbs_reduced h"
  shows "limbs_tight (poly1305_full_carry h)"
    and "limbs_val (poly1305_full_carry h) mod p1305 = limbs_val h mod p1305"
proof -
  obtain h0 h1 h2 h3 h4 where h: "h = (h0, h1, h2, h3, h4)" by (cases h)
  have b: "unat h0 < 2 ^ 26" "unat h1 < 2 ^ 26 + 64" "unat h2 < 2 ^ 26" "unat h3 < 2 ^ 26"
    "unat h4 < 2 ^ 26" using assms by (simp_all add: limbs_reduced_def h)
  define e2 where "e2 = h2 + drop_bit 26 h1"
  define e3 where "e3 = h3 + drop_bit 26 e2"
  define e4 where "e4 = h4 + drop_bit 26 e3"
  define f0 where "f0 = h0 + drop_bit 26 e4 * 5"
  have small: "unat x div 2 ^ 26 < 2 ^ 6" for x :: u32 using unat_u32_less [of x] by simp
  have e2: "unat e2 = unat h2 + unat h1 div 2 ^ 26" unfolding e2_def
    using b small [of h1] by (subst unat_add_small) (simp_all add: unat_drop_bit)
  have e3: "unat e3 = unat h3 + unat e2 div 2 ^ 26" unfolding e3_def
    using b small [of e2] by (subst unat_add_small) (simp_all add: unat_drop_bit)
  have e4: "unat e4 = unat h4 + unat e3 div 2 ^ 26" unfolding e4_def
    using b small [of e3] by (subst unat_add_small) (simp_all add: unat_drop_bit)
  have "unat (drop_bit 26 e4 * 5) = unat e4 div 2 ^ 26 * 5"
    using small [of e4] by (subst unat_mult_small) (simp_all add: unat_drop_bit)
  then have f0: "unat f0 = unat h0 + unat e4 div 2 ^ 26 * 5" unfolding f0_def
    using b small [of e4] by (subst unat_add_small) simp_all
  note ripple = full_carry_ripple [OF e2 e3 e4 f0 b]
  have h1: "unat ((h1 AND POLY1305_LIMB_MASK) + drop_bit 26 f0) = unat h1 mod 2 ^ 26 + unat f0 div 2 ^ 26"
    using ripple(2) by (subst unat_add_small) (simp_all add: unat_drop_bit)
  have eq: "poly1305_full_carry h =
      (f0 AND POLY1305_LIMB_MASK, (h1 AND POLY1305_LIMB_MASK) + drop_bit 26 f0,
       e2 AND POLY1305_LIMB_MASK, e3 AND POLY1305_LIMB_MASK, e4 AND POLY1305_LIMB_MASK)"
    by (simp add: poly1305_full_carry_def h Let_def e2_def e3_def e4_def f0_def)
  show "limbs_tight (poly1305_full_carry h)"
    unfolding eq limbs_tight_def prod.case h1 using ripple(2) by simp
  have "limbs_val (poly1305_full_carry h) + p1305 * (unat e4 div 2 ^ 26) = limbs_val h"
    unfolding eq unfolding limbs_val_def h prod.case h1 unat_limb
    using e2 e3 e4 f0 by (rule full_carry_chain_val)
  then show "limbs_val (poly1305_full_carry h) mod p1305 = limbs_val h mod p1305"
    by (metis mod_mult_self2)
qed

text \<open>Adding 5 and looking at bit 130 decides whether the value is at least \<open>p\<close>.\<close>

lemma plus_five_linear:
  fixes h0 h1 h2 h3 h4 :: nat
  assumes "h0 + 5 = q0 * 67108864 + m0" "h1 + q0 = q1 * 67108864 + m1" "h2 + q1 = q2 * 67108864 + m2"
      "h3 + q2 = q3 * 67108864 + m3"
  shows "m0 + 2 ^ 26 * m1 + 2 ^ 52 * m2 + 2 ^ 78 * m3 + 2 ^ 104 * (h4 + q3) =
    h0 + 2 ^ 26 * h1 + 2 ^ 52 * h2 + 2 ^ 78 * h3 + 2 ^ 104 * h4 + 5"
  using assms by simp

lemma limbs_val_tight_less: "limbs_tight h \<Longrightarrow> limbs_val h < 2 ^ 130"
  by (auto simp: limbs_tight_def limbs_val_def split: prod.splits)

lemma poly1305_select_val:
  assumes "limbs_tight h"
  shows "limbs_tight (poly1305_select h (poly1305_minus_p h))"
    and "limbs_val (poly1305_select h (poly1305_minus_p h)) = limbs_val h mod p1305"
proof -
  obtain h0 h1 h2 h3 h4 where h: "h = (h0, h1, h2, h3, h4)" by (cases h)
  have b: "unat h0 < 2 ^ 26" "unat h1 < 2 ^ 26" "unat h2 < 2 ^ 26" "unat h3 < 2 ^ 26"
    "unat h4 < 2 ^ 26" using assms by (simp_all add: limbs_tight_def h)
  define e0 where "e0 = h0 + 5"
  define e1 where "e1 = h1 + drop_bit 26 e0"
  define e2 where "e2 = h2 + drop_bit 26 e1"
  define e3 where "e3 = h3 + drop_bit 26 e2"
  define e4 where "e4 = h4 + drop_bit 26 e3"
  have small: "unat x div 2 ^ 26 < 2 ^ 6" for x :: u32 using unat_u32_less [of x] by simp
  have e0: "unat e0 = unat h0 + 5" unfolding e0_def using b by (simp add: unat_add_small)
  have e1: "unat e1 = unat h1 + unat e0 div 2 ^ 26" unfolding e1_def
    using b small [of e0] by (subst unat_add_small) (simp_all add: unat_drop_bit)
  have e2: "unat e2 = unat h2 + unat e1 div 2 ^ 26" unfolding e2_def
    using b small [of e1] by (subst unat_add_small) (simp_all add: unat_drop_bit)
  have e3: "unat e3 = unat h3 + unat e2 div 2 ^ 26" unfolding e3_def
    using b small [of e2] by (subst unat_add_small) (simp_all add: unat_drop_bit)
  have e4: "unat e4 = unat h4 + unat e3 div 2 ^ 26" unfolding e4_def
    using b small [of e3] by (subst unat_add_small) (simp_all add: unat_drop_bit)
  have step: "x div 2 ^ 26 \<le> 1" if "x < 2 ^ 27" for x :: nat
    using that div_le_mono [of x "2 ^ 27 - 1" "2 ^ 26"] by simp
  have c0: "unat e0 div 2 ^ 26 \<le> 1" unfolding e0 using b(1) by (intro step) simp
  have c1: "unat e1 div 2 ^ 26 \<le> 1" using e1 c0 b(2) by (intro step) simp
  have c2: "unat e2 div 2 ^ 26 \<le> 1" using e2 c1 b(3) by (intro step) simp
  have c3: "unat e3 div 2 ^ 26 \<le> 1" using e3 c2 b(4) by (intro step) simp
  have top: "unat e4 \<le> 2 ^ 26" using e4 c3 b(5) by simp
  define M where "M = unat e0 mod 2 ^ 26 + 2 ^ 26 * (unat e1 mod 2 ^ 26) + 2 ^ 52 * (unat e2 mod 2 ^ 26) +
      2 ^ 78 * (unat e3 mod 2 ^ 26)"
  have "unat e0 mod 2 ^ 26 < 2 ^ 26" "unat e1 mod 2 ^ 26 < 2 ^ 26" "unat e2 mod 2 ^ 26 < 2 ^ 26"
    "unat e3 mod 2 ^ 26 < 2 ^ 26" by simp_all
  then have M: "M < 2 ^ 104" unfolding M_def by simp
  have plus5: "M + 2 ^ 104 * unat e4 = limbs_val h + 5"
    using plus_five_linear [OF split_limb split_limb split_limb split_limb,
        of "unat h0" "unat h1" "unat h2" "unat h3" "unat h4"]
    by (simp only: M_def limbs_val_def h prod.case e0 e1 e2 e3 e4)
  have g: "poly1305_minus_p h = (e0 AND POLY1305_LIMB_MASK, e1 AND POLY1305_LIMB_MASK,
      e2 AND POLY1305_LIMB_MASK, e3 AND POLY1305_LIMB_MASK, e4 - push_bit 26 1)"
    by (simp add: poly1305_minus_p_def h Let_def e0_def e1_def e2_def e3_def e4_def)
  have "limbs_tight (poly1305_select h (poly1305_minus_p h)) \<and>
      limbs_val (poly1305_select h (poly1305_minus_p h)) = limbs_val h mod p1305"
  proof (cases "unat e4 = 2 ^ 26")
    case True
    then have "e4 = push_bit 26 1" by (simp add: word_unat_eq_iff)
    then have sel: "poly1305_select h (poly1305_minus_p h) =
        (e0 AND POLY1305_LIMB_MASK, e1 AND POLY1305_LIMB_MASK, e2 AND POLY1305_LIMB_MASK,
         e3 AND POLY1305_LIMB_MASK, 0)"
      unfolding g by (simp add: poly1305_select_def h Let_def)
    have "limbs_val (poly1305_select h (poly1305_minus_p h)) = M"
      unfolding sel unfolding limbs_val_def prod.case unat_limb by (simp add: M_def)
    moreover have "limbs_val h = M + p1305" using plus5 True by (simp add: p1305_def)
    moreover have "M < p1305" using M by (simp add: p1305_def)
    moreover have "limbs_tight (poly1305_select h (poly1305_minus_p h))"
      unfolding sel unfolding limbs_tight_def prod.case unat_limb by simp
    ultimately show ?thesis by simp
  next
    case False
    then have e4_less: "unat e4 < 2 ^ 26" using top by simp
    then have "unat (e4 - push_bit 26 1) = unat e4 + 2 ^ 32 - 2 ^ 26"
      by (subst unat_sub_if') simp
    then have "unat (drop_bit 31 (e4 - push_bit 26 1)) = 1"
      unfolding unat_drop_bit using e4_less by simp
    then have "drop_bit 31 (e4 - push_bit 26 1) = 1" by (simp add: word_unat_eq_iff)
    then have sel: "poly1305_select h (poly1305_minus_p h) = h"
      unfolding g by (simp add: poly1305_select_def h Let_def)
    have "limbs_val h < p1305" using plus5 M e4_less by (simp add: p1305_def)
    then show ?thesis using assms by (simp add: sel)
  qed
  then show "limbs_tight (poly1305_select h (poly1305_minus_p h))"
    and "limbs_val (poly1305_select h (poly1305_minus_p h)) = limbs_val h mod p1305" by simp_all
qed

text \<open>Four words from five tight limbs, and the final addition of the pad.\<close>

definition words_val :: "u32 \<times> u32 \<times> u32 \<times> u32 \<Rightarrow> nat" where
  "words_val w = (case w of (w0, w1, w2, w3) \<Rightarrow>
     unat w0 + 2 ^ 32 * unat w1 + 2 ^ 64 * unat w2 + 2 ^ 96 * unat w3)"

lemma unat_join_limbs:
  fixes a b :: u32
  assumes "unat a < 2 ^ 26" and "k \<le> 26" and "j = 26 - k"
  shows "unat (drop_bit k a OR push_bit j b) =
    unat a div 2 ^ k + 2 ^ j * (unat b mod 2 ^ (32 - j))"
proof -
  have "unat a < 2 ^ (j + k)" using assms by simp
  then have "unat (drop_bit k a) < 2 ^ j"
    by (simp add: unat_drop_bit less_mult_imp_div_less power_add)
  then have "unat (drop_bit k a OR push_bit j b) = unat a div 2 ^ k + unat b * 2 ^ j mod 2 ^ 32"
    using unat_or_push_bit [of "drop_bit k a" j b] assms by (simp add: unat_drop_bit)
  also have "unat b * 2 ^ j mod 2 ^ 32 = 2 ^ j * (unat b mod 2 ^ (32 - j))"
  proof -
    have "(2 :: nat) ^ 32 = 2 ^ j * 2 ^ (32 - j)"
      using assms by (simp only: flip: power_add) simp
    then show ?thesis by (simp only: mult.commute [of "unat b"] mult_mod_right)
  qed
  finally show ?thesis .
qed

lemma words_linear:
  fixes h0 :: nat
  shows "(h0 + 2 ^ 26 * m1) + 2 ^ 32 * (q1 + 2 ^ 20 * m2) + 2 ^ 64 * (q2 + 2 ^ 14 * m3) +
      2 ^ 96 * (q3 + 2 ^ 8 * m4) + 2 ^ 128 * q4 =
    h0 + 2 ^ 26 * (q1 * 2 ^ 6 + m1) + 2 ^ 52 * (q2 * 2 ^ 12 + m2) + 2 ^ 78 * (q3 * 2 ^ 18 + m3) +
      2 ^ 104 * (q4 * 2 ^ 24 + m4)"
  by simp

lemma words_val_less: "words_val w < 2 ^ 128"
proof -
  obtain w0 w1 w2 w3 where w: "w = (w0, w1, w2, w3)" by (cases w)
  show ?thesis
    unfolding w words_val_def prod.case
    using unat_u32_less [of w0] unat_u32_less [of w1] unat_u32_less [of w2] unat_u32_less [of w3]
    by simp
qed

lemma poly1305_words_val:
  assumes "limbs_tight h"
  shows "words_val (poly1305_words h) = limbs_val h mod 2 ^ 128"
proof -
  obtain h0 h1 h2 h3 h4 where h: "h = (h0, h1, h2, h3, h4)" by (cases h)
  have b: "unat h0 < 2 ^ 26" "unat h1 < 2 ^ 26" "unat h2 < 2 ^ 26" "unat h3 < 2 ^ 26"
    using assms by (simp_all add: limbs_tight_def h)
  have "words_val (poly1305_words h) + 2 ^ 128 * (unat h4 div 2 ^ 24) = limbs_val h"
    unfolding h words_val_def poly1305_words_def limbs_val_def prod.case
    using unat_join_limbs [OF b(1), of 0 26 h1] unat_join_limbs [OF b(2), of 6 20 h2]
      unat_join_limbs [OF b(3), of 12 14 h3] unat_join_limbs [OF b(4), of 18 8 h4]
      words_linear [of "unat h0" "unat h1 mod 2 ^ 6" "unat h1 div 2 ^ 6" "unat h2 mod 2 ^ 12"
        "unat h2 div 2 ^ 12" "unat h3 mod 2 ^ 18" "unat h3 div 2 ^ 18" "unat h4 mod 2 ^ 24" "unat h4 div 2 ^ 24"]
    unfolding div_mult_mod_eq by simp
  then have "limbs_val h mod 2 ^ 128 = words_val (poly1305_words h) mod 2 ^ 128"
    by (metis mod_mult_self2)
  then show ?thesis using words_val_less by simp
qed

lemma nat_of_le_store32:
  "nat_of_le (crypto_store32_le w) = unat w"
  using unat_crypto_load32_le [of "crypto_store32_le w"] load_store32_le [of w "[]"] by simp

lemma add_words_linear:
  fixes a0 a1 a2 a3 b0 b1 b2 b3 :: nat
  assumes "a0 + b0 = q0 * 4294967296 + m0" "a1 + b1 + q0 = q1 * 4294967296 + m1"
    "a2 + b2 + q1 = q2 * 4294967296 + m2" "a3 + b3 + q2 = q3 * 4294967296 + m3"
  shows "(m0 + 2 ^ 32 * m1 + 2 ^ 64 * m2 + 2 ^ 96 * m3) + 2 ^ 128 * q3 =
    (a0 + 2 ^ 32 * a1 + 2 ^ 64 * a2 + 2 ^ 96 * a3) + (b0 + 2 ^ 32 * b1 + 2 ^ 64 * b2 + 2 ^ 96 * b3)"
  using assms by simp

lemma poly1305_add_pad_val:
  "poly1305_add_pad w pad = le_of_nat 16 ((words_val w + words_val pad) mod 2 ^ 128)"
proof -
  obtain w0 w1 w2 w3 where w: "w = (w0, w1, w2, w3)" by (cases w)
  obtain p0 p1 p2 p3 where p: "pad = (p0, p1, p2, p3)" by (cases pad)
  define s0 where "s0 = (ucast w0 + ucast p0 :: u64)"
  define s1 where "s1 = ucast w1 + ucast p1 + drop_bit 32 s0"
  define s2 where "s2 = ucast w2 + ucast p2 + drop_bit 32 s1"
  define s3 where "s3 = ucast w3 + ucast p3 + drop_bit 32 s2"
  have add: "unat (ucast a + ucast b + drop_bit 32 s) = unat a + unat b + unat s div 4294967296"
    for a b :: u32 and s :: u64
  proof -
    have c: "unat (drop_bit 32 s) = unat s div 4294967296" by (simp add: unat_drop_bit)
    have "unat s div 4294967296 < 4294967296" using unat_u64_less [of s] by simp
    then show ?thesis
      using unat_u32_less [of a] unat_u32_less [of b] by (simp add: unat_add_small c)
  qed
  have s0: "unat s0 = unat w0 + unat p0" unfolding s0_def
    using unat_u32_less [of w0] unat_u32_less [of p0] by (simp add: unat_add_small)
  have s: "unat s1 = unat w1 + unat p1 + unat s0 div 4294967296"
    "unat s2 = unat w2 + unat p2 + unat s1 div 4294967296"
    "unat s3 = unat w3 + unat p3 + unat s2 div 4294967296"
    unfolding s1_def s2_def s3_def by (rule add)+
  have low: "unat (ucast s :: u32) = unat s mod 4294967296" for s :: u64 by (simp add: unat_ucast)
  have split: "x = x div 4294967296 * 4294967296 + x mod 4294967296" for x :: nat by simp
  have eq: "poly1305_add_pad w pad = crypto_store32_le (ucast s0) @ crypto_store32_le (ucast s1) @
      crypto_store32_le (ucast s2) @ crypto_store32_le (ucast s3)"
    by (simp add: poly1305_add_pad_def w p Let_def s0_def s1_def s2_def s3_def)
  have "nat_of_le (poly1305_add_pad w pad) + 2 ^ 128 * (unat s3 div 4294967296) =
      words_val w + words_val pad"
    using add_words_linear [OF split split split split, of "unat w0" "unat p0" "unat w1" "unat p1"
        "unat w2" "unat p2" "unat w3" "unat p3"]
    unfolding eq unfolding w p words_val_def prod.case
    by (simp add: nat_of_le_append nat_of_le_store32 low s0 s del: div_mult_mod_eq)
  then have "(words_val w + words_val pad) mod 2 ^ 128 = nat_of_le (poly1305_add_pad w pad) mod 2 ^ 128"
    by (metis mod_mult_self2)
  also have "\<dots> = nat_of_le (poly1305_add_pad w pad)"
    using nat_of_le_bound [of "poly1305_add_pad w pad"] by (simp add: eq)
  finally show ?thesis by (simp add: eq)
qed

section \<open>Incremental input\<close>

definition poly1305_pending :: "CryptoPoly1305Context \<Rightarrow> byte list" where
  "poly1305_pending context = take (poly_LEFTOVER context) (poly_BUFFER context)"

definition poly1305_inv :: "CryptoPoly1305Context \<Rightarrow> bool" where
  "poly1305_inv context \<longleftrightarrow> length (poly_BUFFER context) = 16 \<and> poly_LEFTOVER context < 16 \<and>
     limbs_reduced (poly_H context) \<and> limbs_clamped (poly_R context)"

definition poly1305_step :: "CryptoPoly1305Context \<Rightarrow> limbs \<Rightarrow> byte list \<Rightarrow> limbs" where
  "poly1305_step context = poly1305_block (poly_R context) POLY1305_FULL_BLOCK_BIT"

lemma poly1305_blocks_simps [simp]:
  "poly_H (poly1305_blocks c msg hb) = absorb 16 (poly1305_block (poly_R c) hb) (poly_H c) msg"
  "poly_R (poly1305_blocks c msg hb) = poly_R c"
  "poly_PAD (poly1305_blocks c msg hb) = poly_PAD c"
  "poly_BUFFER (poly1305_blocks c msg hb) = poly_BUFFER c"
  "poly_LEFTOVER (poly1305_blocks c msg hb) = poly_LEFTOVER c"
  by (simp_all add: poly1305_blocks_def)

lemma absorb_reduced:
  assumes "limbs_clamped r" and "limbs_reduced h" and "hb = 0 \<or> hb = POLY1305_FULL_BLOCK_BIT"
  shows "limbs_reduced (absorb 16 (poly1305_block r hb) h msg)"
proof (rule absorb_invariant [where P = limbs_reduced])
  fix s b assume "limbs_reduced s" and "length (b :: byte list) = 16"
  then show "limbs_reduced (poly1305_block r hb s b)"
    using assms(1,3) by (intro poly1305_block_val(1)) simp_all
qed (rule assms(2))

lemma poly1305_rest:
  assumes d: "length (poly_BUFFER d) = 16" "poly_LEFTOVER d = 0"
  shows "poly_H (poly1305_update_rest d ys) = absorb 16 (poly1305_step d) (poly_H d) ys"
    and "poly1305_pending (poly1305_update_rest d ys) = leftover 16 ys"
    and "length (poly_BUFFER (poly1305_update_rest d ys)) = 16"
    and "poly_LEFTOVER (poly1305_update_rest d ys) < 16"
    and "poly_R (poly1305_update_rest d ys) = poly_R d"
    and "poly_PAD (poly1305_update_rest d ys) = poly_PAD d"
proof -
  define e where "e = (if 16 \<le> length ys then poly1305_blocks d
      (take (length ys - length ys mod 16) ys) POLY1305_FULL_BLOCK_BIT else d)"
  have H: "poly_H e = absorb 16 (poly1305_step d) (poly_H d) ys"
    using absorb_complete [of 16 "poly1305_step d" "poly_H d" ys]
    by (simp add: e_def poly1305_step_def)
  have e: "poly_R e = poly_R d" "poly_PAD e = poly_PAD d" "poly_BUFFER e = poly_BUFFER d"
    "poly_LEFTOVER e = 0" using d by (simp_all add: e_def)
  have rest: "(if 16 \<le> length ys then drop (length ys - length ys mod 16) ys else ys) = leftover 16 ys"
    by (simp add: leftover_eq_drop)
  have eq: "poly1305_update_rest d ys = (if length (leftover 16 ys) \<noteq> 0
      then e\<lparr>poly_BUFFER := copy_at (poly_BUFFER e) 0 (leftover 16 ys),
             poly_LEFTOVER := length (leftover 16 ys)\<rparr> else e)"
    unfolding poly1305_update_rest_def Let_def e_def [symmetric] rest ..
  have short: "length (leftover 16 ys) < 16" by (rule length_leftover_less) simp
  show "poly_H (poly1305_update_rest d ys) = absorb 16 (poly1305_step d) (poly_H d) ys"
    by (simp add: eq H)
  show "poly1305_pending (poly1305_update_rest d ys) = leftover 16 ys"
    unfolding eq poly1305_pending_def using d e short by (simp add: copy_at_def)
  show "length (poly_BUFFER (poly1305_update_rest d ys)) = 16"
    "poly_LEFTOVER (poly1305_update_rest d ys) < 16"
    "poly_R (poly1305_update_rest d ys) = poly_R d" "poly_PAD (poly1305_update_rest d ys) = poly_PAD d"
    unfolding eq using d e short by simp_all
qed

text \<open>What an update does to a context, whichever branch it takes.\<close>

definition poly1305_absorbed ::
    "CryptoPoly1305Context \<Rightarrow> byte list \<Rightarrow> CryptoPoly1305Context \<Rightarrow> bool" where
  "poly1305_absorbed c xs d \<longleftrightarrow>
     poly_H d = absorb 16 (poly1305_step c) (poly_H c) (poly1305_pending c @ xs) \<and>
     poly1305_pending d = leftover 16 (poly1305_pending c @ xs) \<and>
     length (poly_BUFFER d) = 16 \<and> poly_LEFTOVER d < 16 \<and> poly_R d = poly_R c \<and>
     poly_PAD d = poly_PAD c"

lemma poly1305_update_absorbed:
  assumes "poly1305_inv c"
  shows "poly1305_absorbed c xs (crypto_poly1305_update_internal c xs)"
proof -
  have c: "length (poly_BUFFER c) = 16" "poly_LEFTOVER c < 16"
    using assms by (simp_all add: poly1305_inv_def)
  have p: "length (poly1305_pending c) = poly_LEFTOVER c" using c by (simp add: poly1305_pending_def)
  consider (empty) "poly_LEFTOVER c = 0"
    | (short) "poly_LEFTOVER c \<noteq> 0" "poly_LEFTOVER c + length xs < 16"
    | (fill) "poly_LEFTOVER c \<noteq> 0" "16 \<le> poly_LEFTOVER c + length xs" by linarith
  then show ?thesis
  proof cases
    case empty
    then have "crypto_poly1305_update_internal c xs = poly1305_update_rest c xs"
      by (simp add: crypto_poly1305_update_internal_def)
    with empty poly1305_rest [OF c(1) empty, of xs] show ?thesis
      by (simp add: poly1305_absorbed_def poly1305_pending_def)
  next
    case short
    then have "crypto_poly1305_update_internal c xs =
        c\<lparr>poly_BUFFER := copy_at (poly_BUFFER c) (poly_LEFTOVER c) xs,
          poly_LEFTOVER := poly_LEFTOVER c + length xs\<rparr>"
      by (simp add: crypto_poly1305_update_internal_def Let_def min_def)
    with short p c show ?thesis
      by (simp add: poly1305_absorbed_def poly1305_pending_def take_copy_at)
  next
    case fill
    define w where "w = 16 - poly_LEFTOVER c"
    have w: "min (16 - poly_LEFTOVER c) (length xs) = w" "poly_LEFTOVER c + w = 16"
      using fill c by (auto simp: w_def)
    have buf: "copy_at (poly_BUFFER c) (poly_LEFTOVER c) (take w xs) = poly1305_pending c @ take w xs"
      using fill c by (simp add: poly1305_pending_def copy_at_fill w_def)
    have len: "length (poly1305_pending c @ take w xs) = 16" using fill p c by (simp add: w_def)
    define d where "d = c\<lparr>poly_BUFFER := poly1305_pending c @ take w xs, poly_LEFTOVER := 16\<rparr>"
    define e where "e = (poly1305_blocks d (poly_BUFFER d) POLY1305_FULL_BLOCK_BIT)\<lparr>poly_LEFTOVER := 0\<rparr>"
    have eq: "crypto_poly1305_update_internal c xs = poly1305_update_rest e (drop w xs)"
      unfolding crypto_poly1305_update_internal_def w(1) Let_def buf using fill(1)
      by (simp add: w(2) e_def d_def)
    have e: "poly_H e = poly1305_step c (poly_H c) (poly1305_pending c @ take w xs)"
      "poly1305_step e = poly1305_step c" "length (poly_BUFFER e) = 16" "poly_LEFTOVER e = 0"
      "poly_R e = poly_R c" "poly_PAD e = poly_PAD c"
      using len by (simp_all add: e_def d_def poly1305_step_def absorb_one)
    have "poly_LEFTOVER c < 16" "16 \<le> length (poly1305_pending c) + length xs" using c fill p by simp_all
    then show ?thesis
      unfolding poly1305_absorbed_def eq
      using poly1305_rest [OF e(3,4), of "drop w xs"] e
        absorb_fill [of "poly1305_pending c" 16 xs "poly1305_step c" "poly_H c"]
        leftover_fill [of "poly1305_pending c" 16 xs] p by (simp add: w_def)
  qed
qed

interpretation poly1305: block_buffer 16 poly1305_step poly_H poly1305_pending poly1305_inv
  crypto_poly1305_update_internal
proof
  fix c :: CryptoPoly1305Context and xs
  assume c: "poly1305_inv c"
  note upd = poly1305_update_absorbed [OF c, of xs, unfolded poly1305_absorbed_def]
  show "length (poly1305_pending c) < 16"
    using c by (simp add: poly1305_inv_def poly1305_pending_def)
  show "poly1305_step (crypto_poly1305_update_internal c xs) = poly1305_step c"
    using upd by (simp add: poly1305_step_def)
  show "poly_H (crypto_poly1305_update_internal c xs) =
      absorb 16 (poly1305_step c) (poly_H c) (poly1305_pending c @ xs)"
    and "poly1305_pending (crypto_poly1305_update_internal c xs) = leftover 16 (poly1305_pending c @ xs)"
    using upd by simp_all
  have "limbs_reduced (absorb 16 (poly1305_step c) (poly_H c) (poly1305_pending c @ xs))"
    unfolding poly1305_step_def using c by (intro absorb_reduced) (simp_all add: poly1305_inv_def)
  then show "poly1305_inv (crypto_poly1305_update_internal c xs)"
    using c upd by (simp add: poly1305_inv_def)
qed simp

section \<open>The authenticator of RFC 8439\<close>

definition poly1305_r :: "byte list \<Rightarrow> nat" where
  "poly1305_r key = nat_of_le (take 16 key) AND 0x0ffffffc0ffffffc0ffffffc0fffffff"

definition poly1305_s :: "byte list \<Rightarrow> nat" where
  "poly1305_s key = nat_of_le (take 16 (drop 16 key))"

definition poly1305_acc :: "nat \<Rightarrow> nat \<Rightarrow> byte list \<Rightarrow> nat" where
  "poly1305_acc r a block = (a + nat_of_le (block @ [1])) * r mod p1305"

definition poly1305_mac :: "byte list \<Rightarrow> byte list \<Rightarrow> byte list" where
  "poly1305_mac message key =
     (let r = poly1305_r key;
          a = absorb 16 (poly1305_acc r) 0 message;
          final = leftover 16 message;
          a = (if final = [] then a else poly1305_acc r a final)
      in le_of_nat 16 ((a + poly1305_s key) mod 2 ^ 128))"

text \<open>Clamping the limbs is clamping the key half.\<close>

lemma and_split_nat:
  fixes a b m n :: nat
  assumes "a < 2 ^ k" "m < 2 ^ k"
  shows "(a + 2 ^ k * b) AND (m + 2 ^ k * n) = (a AND m) + 2 ^ k * (b AND n)"
proof -
  have ab: "a + 2 ^ k * b = a OR push_bit k b"
    using or_eq_add_nat [OF assms(1), of "2 ^ k * b"] by (simp add: push_bit_eq_mult mult.commute)
  have mn: "m + 2 ^ k * n = m OR push_bit k n"
    using or_eq_add_nat [OF assms(2), of "2 ^ k * n"] by (simp add: push_bit_eq_mult mult.commute)
  have "a AND m < 2 ^ k"
    using assms by (metis take_bit_and take_bit_nat_eq_self take_bit_nat_less_exp)
  then have "(a AND m) + 2 ^ k * (b AND n) = (a AND m) OR push_bit k (b AND n)"
    using or_eq_add_nat [of "a AND m" k "2 ^ k * (b AND n)"]
    by (simp add: push_bit_eq_mult mult.commute)
  moreover have "bit a i \<longrightarrow> i < k" "bit m i \<longrightarrow> i < k" for i
    using assms by (metis bit_take_bit_iff take_bit_nat_eq_self)+
  then have "bit ((a OR push_bit k b) AND (m OR push_bit k n)) i \<longleftrightarrow>
      bit ((a AND m) OR push_bit k (b AND n)) i" for i
    unfolding bit_and_iff bit_or_iff bit_push_bit_iff_nat by (meson not_less)
  then have "(a OR push_bit k b) AND (m OR push_bit k n) = (a AND m) OR push_bit k (b AND n)"
    by (intro bit_eqI)
  ultimately show ?thesis unfolding ab mn by simp
qed

lemma and_split4_nat:
  fixes a0 a1 a2 a3 m0 m1 m2 m3 :: nat
  assumes "a0 < 2 ^ 32" "a1 < 2 ^ 32" "a2 < 2 ^ 32" "m0 < 2 ^ 32" "m1 < 2 ^ 32" "m2 < 2 ^ 32"
  shows "(a0 + 2 ^ 32 * a1 + 2 ^ 64 * a2 + 2 ^ 96 * a3) AND (m0 + 2 ^ 32 * m1 + 2 ^ 64 * m2 + 2 ^ 96 * m3) =
    (a0 AND m0) + 2 ^ 32 * (a1 AND m1) + 2 ^ 64 * (a2 AND m2) + 2 ^ 96 * (a3 AND m3)"
proof -
  have nest: "x0 + 2 ^ 32 * x1 + 2 ^ 64 * x2 + 2 ^ 96 * x3 = x0 + 2 ^ 32 * (x1 + 2 ^ 32 * (x2 + 2 ^ 32 * x3))"
    for x0 x1 x2 x3 :: nat by simp
  show ?thesis
    unfolding nest
    by (simp only: and_split_nat [OF assms(1,4)] and_split_nat [OF assms(2,5)] and_split_nat [OF assms(3,6)])
qed

lemma clamp_nat:
  fixes t0 t1 t2 t3 :: u32
  shows "(unat t0 + 2 ^ 32 * unat t1 + 2 ^ 64 * unat t2 + 2 ^ 96 * unat t3) AND
      0x0ffffffc0ffffffc0ffffffc0fffffff =
    unat (t0 AND 0x0fffffff) + 2 ^ 32 * unat (t1 AND 0x0ffffffc) + 2 ^ 64 * unat (t2 AND 0x0ffffffc) +
    2 ^ 96 * unat (t3 AND 0x0ffffffc)"
proof -
  have b: "unat t < 2 ^ 32" for t :: u32 using unat_u32_less [of t] by simp
  have "(0x0ffffffc0ffffffc0ffffffc0fffffff :: nat) =
      unat (0x0fffffff :: u32) + 2 ^ 32 * unat (0x0ffffffc :: u32) + 2 ^ 64 * unat (0x0ffffffc :: u32) +
      2 ^ 96 * unat (0x0ffffffc :: u32)" by simp
  then show ?thesis by (simp only: and_split4_nat [OF b b b b b b] unsigned_and_eq)
qed

lemma splice_clamped:
  fixes a b :: u32
  assumes "drop_bit i (- 1) AND C = drop_bit i M AND L"
    and "push_bit j (- 1) AND C = push_bit j N AND L"
  shows "(drop_bit i a OR push_bit j b) AND C = (drop_bit i (a AND M) OR push_bit j (b AND N)) AND L"
proof -
  have "drop_bit i a AND C = drop_bit i (a AND - 1) AND C" by simp
  also have "\<dots> = drop_bit i (a AND M) AND L"
    unfolding drop_bit_and and.assoc assms(1) ..
  moreover have "push_bit j b AND C = push_bit j (b AND - 1) AND C" by simp
  moreover have "\<dots> = push_bit j (b AND N) AND L"
    unfolding push_bit_and and.assoc assms(2) ..
  ultimately show ?thesis by (simp only: bit.conj_disj_distrib2)
qed

lemma clamped_limbs:
  fixes t0 t1 t2 t3 :: u32
  shows "t0 AND 0x03ffffff = (t0 AND 0x0fffffff) AND POLY1305_LIMB_MASK"
    and "(drop_bit 26 t0 OR push_bit 6 t1) AND 0x03ffff03 =
      (drop_bit 26 (t0 AND 0x0fffffff) OR push_bit 6 (t1 AND 0x0ffffffc)) AND POLY1305_LIMB_MASK"
    and "(drop_bit 20 t1 OR push_bit 12 t2) AND 0x03ffc0ff =
      (drop_bit 20 (t1 AND 0x0ffffffc) OR push_bit 12 (t2 AND 0x0ffffffc)) AND POLY1305_LIMB_MASK"
    and "(drop_bit 14 t2 OR push_bit 18 t3) AND 0x03f03fff =
      (drop_bit 14 (t2 AND 0x0ffffffc) OR push_bit 18 (t3 AND 0x0ffffffc)) AND POLY1305_LIMB_MASK"
    and "drop_bit 8 t3 AND 0x000fffff = drop_bit 8 (t3 AND 0x0ffffffc)"
proof -
  show "t0 AND 0x03ffffff = (t0 AND 0x0fffffff) AND POLY1305_LIMB_MASK"
    by (simp add: and.assoc)
  show "drop_bit 8 t3 AND 0x000fffff = drop_bit 8 (t3 AND 0x0ffffffc)"
    unfolding drop_bit_and by simp
qed (rule splice_clamped; simp add: mask_eq_exp_minus_1)+

lemma poly1305_init:
  assumes "32 \<le> length key"
  shows "poly1305_inv (crypto_poly1305_init_internal key)"
    and "limbs_val (poly_R (crypto_poly1305_init_internal key)) = poly1305_r key"
    and "words_val (poly_PAD (crypto_poly1305_init_internal key)) = poly1305_s key"
    and "poly1305_pending (crypto_poly1305_init_internal key) = []"
    and "limbs_val (poly_H (crypto_poly1305_init_internal key)) = 0"
proof -
  define t0 t1 t2 t3 where "t0 = crypto_load32_le key AND 0x0fffffff"
    and "t1 = crypto_load32_le (drop 4 key) AND 0x0ffffffc"
    and "t2 = crypto_load32_le (drop 8 key) AND 0x0ffffffc"
    and "t3 = crypto_load32_le (drop 12 key) AND 0x0ffffffc"
  have R: "poly_R (crypto_poly1305_init_internal key) =
      (t0 AND POLY1305_LIMB_MASK, (drop_bit 26 t0 OR push_bit 6 t1) AND POLY1305_LIMB_MASK,
       (drop_bit 20 t1 OR push_bit 12 t2) AND POLY1305_LIMB_MASK,
       (drop_bit 14 t2 OR push_bit 18 t3) AND POLY1305_LIMB_MASK, drop_bit 8 t3)"
    unfolding t0_def t1_def t2_def t3_def clamped_limbs [symmetric]
    by (simp add: crypto_poly1305_init_internal_def Let_def)
  have "unat (drop_bit 8 t3) \<le> 2 ^ 26"
    using unat_u32_less [of t3] by (simp add: unat_drop_bit)
  then have "limbs_clamped (poly_R (crypto_poly1305_init_internal key))"
    unfolding R limbs_clamped_def prod.case unat_limb by (simp add: less_imp_le)
  then show "poly1305_inv (crypto_poly1305_init_internal key)"
    by (simp add: poly1305_inv_def limbs_reduced_def) (simp add: crypto_poly1305_init_internal_def Let_def)
  show "limbs_val (poly_R (crypto_poly1305_init_internal key)) = poly1305_r key"
    unfolding R limbs_val_def prod.case limbs_of_words unfolding t0_def t1_def t2_def t3_def
    using assms by (simp only: clamp_nat [symmetric] poly1305_r_def nat_of_le_words)
  show "words_val (poly_PAD (crypto_poly1305_init_internal key)) = poly1305_s key"
    using assms nat_of_le_words [of "drop 16 key"]
    by (simp add: poly1305_s_def words_val_def crypto_poly1305_init_internal_def Let_def)
  show "poly1305_pending (crypto_poly1305_init_internal key) = []"
    and "limbs_val (poly_H (crypto_poly1305_init_internal key)) = 0"
    by (simp_all add: poly1305_pending_def limbs_val_def crypto_poly1305_init_internal_def Let_def)
qed

section \<open>Correctness of the tag\<close>

lemma nat_of_le_append_one: "length b = 16 \<Longrightarrow> nat_of_le (b @ [1]) = nat_of_le b + 2 ^ 128"
  by (simp add: nat_of_le_append)

lemma nat_of_le_zeroes [simp]: "nat_of_le (zeroes k) = 0"
  by (induction k) simp_all

lemma poly1305_acc_mod: "poly1305_acc r a b mod p1305 = poly1305_acc r a b"
  by (simp add: poly1305_acc_def)

lemma absorb_blocks_val:
  assumes "limbs_reduced h" and "limbs_clamped r" and "limbs_val h mod p1305 = a"
  shows "limbs_val (absorb 16 (poly1305_block r POLY1305_FULL_BLOCK_BIT) h msg) mod p1305 =
    absorb 16 (poly1305_acc (limbs_val r)) a msg"
proof -
  define P where "P h a \<longleftrightarrow> limbs_reduced h \<and> limbs_val h mod p1305 = a" for h a
  have "P (absorb 16 (poly1305_block r POLY1305_FULL_BLOCK_BIT) h msg)
      (absorb 16 (poly1305_acc (limbs_val r)) a msg)"
  proof (rule absorb_relation [where P = P])
    fix s t and b :: "byte list"
    assume P: "P s t" and b: "length b = 16"
    have full: "POLY1305_FULL_BLOCK_BIT = 0 \<or> POLY1305_FULL_BLOCK_BIT = POLY1305_FULL_BLOCK_BIT" by simp
    have s: "limbs_reduced s" using P by (simp add: P_def)
    note block = poly1305_block_val [OF s assms(2) full, of b]
    have "limbs_val (poly1305_block r POLY1305_FULL_BLOCK_BIT s b) mod p1305 =
        (limbs_val s + nat_of_le (b @ [1])) * limbs_val r mod p1305"
      using block(2) b by (simp add: nat_of_le_append_one add.assoc)
    also have "\<dots> = (limbs_val s mod p1305 + nat_of_le (b @ [1])) * limbs_val r mod p1305"
      by (metis mod_add_left_eq mod_mult_left_eq)
    finally show "P (poly1305_block r POLY1305_FULL_BLOCK_BIT s b) (poly1305_acc (limbs_val r) t b)"
      using P b block(1) by (simp add: P_def poly1305_acc_def)
  qed (simp add: P_def assms)
  then show ?thesis by (simp add: P_def)
qed

lemma poly1305_final_val:
  assumes c: "poly1305_inv c" and a: "limbs_val (poly_H c) mod p1305 = a"
  shows "crypto_poly1305_final_internal c =
     le_of_nat 16 (((if poly1305_pending c = [] then a
        else poly1305_acc (limbs_val (poly_R c)) a (poly1305_pending c)) + words_val (poly_PAD c)) mod 2 ^ 128)"
proof -
  define r where "r = poly_R c"
  have inv: "length (poly_BUFFER c) = 16" "poly_LEFTOVER c < 16" "limbs_reduced (poly_H c)" "limbs_clamped r"
    using c by (simp_all add: poly1305_inv_def r_def)
  define p where "p = poly1305_pending c"
  have len: "length p = poly_LEFTOVER c" using inv by (simp add: p_def poly1305_pending_def)
  define b where "b = p @ [1] @ zeroes (15 - poly_LEFTOVER c)"
  define h where "h = (if p = [] then poly_H c else poly1305_block r 0 (poly_H c) b)"
  have b16: "length b = 16" using len inv by (simp add: b_def)
  have buffer: "copy_at ((poly_BUFFER c)[poly_LEFTOVER c := 1]) (poly_LEFTOVER c + 1)
      (zeroes (15 - poly_LEFTOVER c)) = b"
    using inv by (simp add: b_def p_def poly1305_pending_def copy_at_def
        take_Suc_conv_app_nth)
  have final: "crypto_poly1305_final_internal c = poly1305_add_pad (poly1305_words
      (poly1305_select (poly1305_full_carry h) (poly1305_minus_p (poly1305_full_carry h)))) (poly_PAD c)"
    unfolding crypto_poly1305_final_internal_def Let_def buffer
    using len b16 by (cases "p = []") (auto simp: h_def absorb_one r_def)
  have "limbs_reduced h \<and> limbs_val h mod p1305 = (if p = [] then a else poly1305_acc (limbs_val r) a p)"
  proof (cases "p = []")
    case False
    have "nat_of_le (take 16 b) = nat_of_le (p @ [1])" using b16
      by (simp add: b_def nat_of_le_append)
    then have "limbs_val (poly1305_block r 0 (poly_H c) b) mod p1305 =
        (limbs_val (poly_H c) + nat_of_le (p @ [1])) * limbs_val r mod p1305"
      using poly1305_block_val(2) [OF inv(3,4), of 0 b] b16 by simp
    also have "\<dots> = (limbs_val (poly_H c) mod p1305 + nat_of_le (p @ [1])) * limbs_val r mod p1305"
      by (metis mod_add_left_eq mod_mult_left_eq)
    finally show ?thesis
      using False poly1305_block_val(1) [OF inv(3,4), of 0 b] b16 a by (simp add: h_def poly1305_acc_def)
  qed (use inv a in \<open>simp add: h_def\<close>)
  then have h: "limbs_reduced h"
    "limbs_val h mod p1305 = (if p = [] then a else poly1305_acc (limbs_val r) a p)" by simp_all
  note tight = poly1305_full_carry_val [OF h(1)]
  note sel = poly1305_select_val [OF tight(1)]
  show ?thesis
    unfolding final poly1305_add_pad_val poly1305_words_val [OF sel(1)] sel(2) tight(2) h(2)
    by (simp only: mod_add_left_eq r_def p_def)
qed

text \<open>Any sequence of updates gives the tag of the concatenation.\<close>

lemma poly1305_tag_of_updates:
  assumes "32 \<le> length key"
  shows "crypto_poly1305_final_internal
      (foldl crypto_poly1305_update_internal (crypto_poly1305_init_internal key) chunks) =
    poly1305_mac (concat chunks) key"
proof -
  define c where "c = foldl crypto_poly1305_update_internal (crypto_poly1305_init_internal key) chunks"
  note init = poly1305_init [OF assms]
  have inv: "poly1305_inv c" unfolding c_def by (rule poly1305.inv_updates [OF init(1)])
  have R: "poly_R c = poly_R (crypto_poly1305_init_internal key) \<and>
      poly_PAD c = poly_PAD (crypto_poly1305_init_internal key)"
    unfolding c_def using init(1)
  proof (induction chunks arbitrary: key rule: rev_induct)
    case (snoc x xs)
    then show ?case
      using poly1305_update_absorbed [OF poly1305.inv_updates [OF snoc.prems], of xs x]
      by (simp add: poly1305_absorbed_def)
  qed simp
  have H0: "poly_H (crypto_poly1305_init_internal key) = (0, 0, 0, 0, 0)"
    by (simp add: crypto_poly1305_init_internal_def Let_def)
  have "poly_H c = absorb 16 (poly1305_block (poly_R c) POLY1305_FULL_BLOCK_BIT) (0, 0, 0, 0, 0) (concat chunks)"
    using poly1305.core_updates [OF init(1), of chunks] R
    by (simp add: init(4) poly1305_step_def H0 flip: c_def)
  moreover have "limbs_reduced (0, 0, 0, 0, 0)" "limbs_clamped (poly_R c)"
    "limbs_val (0, 0, 0, 0, 0) mod p1305 = 0"
    using inv by (simp_all add: limbs_reduced_def poly1305_inv_def limbs_val_def)
  ultimately have a: "limbs_val (poly_H c) mod p1305 = absorb 16 (poly1305_acc (limbs_val (poly_R c))) 0 (concat chunks)"
    by (simp only: absorb_blocks_val)
  have "poly1305_pending c = leftover 16 (concat chunks)"
    using poly1305.pend_updates [OF init(1), of chunks] by (simp add: init(4) flip: c_def)
  then show ?thesis
    using poly1305_final_val [OF inv a] R init(2,3) by (simp add: poly1305_mac_def Let_def flip: c_def)
qed

lemma crypto_poly1305_internal_mac:
  assumes "32 \<le> length key"
  shows "crypto_poly1305_internal message key = poly1305_mac message key"
  using poly1305_tag_of_updates [OF assms, of "[message]"] by (simp add: crypto_poly1305_internal_def)

lemma length_poly1305_mac [simp, lengths]: "length (poly1305_mac message key) = 16"
  by (simp add: poly1305_mac_def Let_def)

section \<open>Properties\<close>

text \<open>
  C2. For every key (of 32 bytes; longer buffers are read at their first 32) and however the message is cut into updates, the word-level
  code with its limbs, delayed carries and branch-free selection returns the RFC 8439 tag:
  the clamped polynomial modulo \<open>2 ^ 130 - 5\<close>, plus the pad, modulo \<open>2 ^ 128\<close>.
\<close>

theorem poly1305_tag_correct:
  assumes "32 \<le> length key"
  shows "crypto_poly1305_final_internal
      (foldl crypto_poly1305_update_internal (crypto_poly1305_init_internal key) chunks) =
    poly1305_mac (concat chunks) key"
  using assms by (rule poly1305_tag_of_updates)

theorem poly1305_tag_correct_witness:
  "crypto_poly1305_final_internal (foldl crypto_poly1305_update_internal
      (crypto_poly1305_init_internal (replicate 32 7)) [[1, 2, 3], [], replicate 20 9]) =
    poly1305_mac ([1, 2, 3] @ replicate 20 9) (replicate 32 7)"
  using poly1305_tag_correct [of "replicate 32 7" "[[1, 2, 3], [], replicate 20 9]"] by simp

text \<open>
  The loop invariant of \<^verbatim>\<open>poly1305_blocks\<close>: one block keeps the accumulator limbs within
  their bounds (so no 32-bit or 64-bit operation of the next block wraps) and computes
  \<open>(h + block) * r\<close> modulo \<open>2 ^ 130 - 5\<close>, with and without the high bit.
\<close>

theorem poly1305_block_correct:
  assumes "limbs_reduced h" and "limbs_clamped r" and "hb \<in> {0, POLY1305_FULL_BLOCK_BIT}"
    and "length block = 16"
  shows "limbs_reduced (poly1305_block r hb h block) \<and>
    limbs_val (poly1305_block r hb h block) mod p1305 =
      (limbs_val h + nat_of_le block + 2 ^ 104 * unat hb) * limbs_val r mod p1305"
  using poly1305_block_val [OF assms(1,2), of hb block] assms(3,4) by auto

theorem poly1305_block_correct_witness:
  "limbs_reduced (poly1305_block (1, 2, 3, 4, 5) POLY1305_FULL_BLOCK_BIT
      (0x3ffffff, 0x4000010, 0x3ffffff, 0x3ffffff, 0x3ffffff) (replicate 16 255))"
  using poly1305_block_correct [of "(0x3ffffff, 0x4000010, 0x3ffffff, 0x3ffffff, 0x3ffffff)"
      "(1, 2, 3, 4, 5)" POLY1305_FULL_BLOCK_BIT "replicate 16 255"]
  by (simp add: limbs_reduced_def limbs_clamped_def)

end
