(* ===== verification/ChaCha20_Poly1305.thy ===== *)
theory ChaCha20_Poly1305
  imports ChaCha20 Poly1305
begin

text \<open>
  ChaCha20-Poly1305 of
  \<^verbatim>\<open>src/AuthenticatedEncryption/ChaCha20Poly1305/chacha20_poly1305.c\<close>, on the memory: the
  tag over associated data, ciphertext and lengths, encryption, and decryption that clears
  its output when the tag does not verify.
\<close>

section \<open>Operations\<close>

definition crypto_chacha20_poly1305_validate_lengths :: "nat \<Rightarrow> nat \<Rightarrow> status" where
  "crypto_chacha20_poly1305_validate_lengths message_length aad_length =
     (if 2 ^ 64 - 1 < message_length \<or> 2 ^ 64 - 1 < aad_length then MESSAGE_TOO_LARGE
      else crypto_chacha20_validate_length message_length 1)"

definition poly1305_pad16 :: "CryptoPoly1305Context \<Rightarrow> nat \<Rightarrow> CryptoPoly1305Context" where
  "poly1305_pad16 context unpadded_length =
     (let remainder = unpadded_length mod 16
      in if remainder \<noteq> 0 then crypto_poly1305_update_internal context (zeroes (16 - remainder))
         else context)"

definition chacha20_poly1305_tag ::
    "byte list \<Rightarrow> byte list \<Rightarrow> byte list \<Rightarrow> byte list \<Rightarrow> byte list" where
  "chacha20_poly1305_tag key nonce aad ciphertext =
     (let block_zero = crypto_chacha20_block_internal key nonce 0;
          context = crypto_poly1305_init_internal block_zero;
          context = crypto_poly1305_update_internal context aad;
          context = poly1305_pad16 context (length aad);
          context = crypto_poly1305_update_internal context ciphertext;
          context = poly1305_pad16 context (length ciphertext);
          lengths = crypto_store64_le (of_nat (length aad)) @
                    crypto_store64_le (of_nat (length ciphertext));
          context = crypto_poly1305_update_internal context lengths
      in crypto_poly1305_final_internal context)"

definition crypto_chacha20_poly1305_encrypt_internal ::
    "mem \<Rightarrow> addr \<Rightarrow> addr \<Rightarrow> addr \<Rightarrow> nat \<Rightarrow> addr \<Rightarrow> addr \<Rightarrow> addr \<Rightarrow> nat \<Rightarrow> status \<times> mem" where
  "crypto_chacha20_poly1305_encrypt_internal m output tag input input_length key nonce aad aad_length =
     (let err = crypto_chacha20_poly1305_validate_lengths input_length aad_length
      in if err \<noteq> SUCCESS then (err, m)
         else let (err, m) = crypto_chacha20_xor_internal m output input input_length key nonce 1;
                  m = (if err = SUCCESS
                       then store m tag (chacha20_poly1305_tag (load m key 32) (load m nonce 12)
                              (load m aad aad_length) (load m output input_length))
                       else m);
                  m = (if err \<noteq> SUCCESS \<and> output \<noteq> 0 \<and> input_length \<noteq> 0
                       then crypto_zeroize m output input_length else m)
           in (err, m))"

definition crypto_chacha20_poly1305_decrypt_internal ::
    "mem \<Rightarrow> addr \<Rightarrow> addr \<Rightarrow> addr \<Rightarrow> nat \<Rightarrow> addr \<Rightarrow> addr \<Rightarrow> addr \<Rightarrow> nat \<Rightarrow> status \<times> mem" where
  "crypto_chacha20_poly1305_decrypt_internal m output tag input input_length key nonce aad aad_length =
     (let err = crypto_chacha20_poly1305_validate_lengths input_length aad_length
      in if err \<noteq> SUCCESS then (err, m)
         else let expected = chacha20_poly1305_tag (load m key 32) (load m nonce 12)
                               (load m aad aad_length) (load m input input_length);
                  (err, m) = (if \<not> crypto_constant_time_equal expected (load m tag 16) 16
                              then (AUTHENTICATION_FAILED, m)
                              else crypto_chacha20_xor_internal m output input input_length key nonce 1);
                  m = (if err \<noteq> SUCCESS \<and> output \<noteq> 0 \<and> input_length \<noteq> 0
                       then crypto_zeroize m output input_length else m)
           in (err, m))"

section \<open>The tag\<close>

text \<open>RFC 8439: the data authenticated and the one-time key.\<close>

definition pad16 :: "byte list \<Rightarrow> byte list" where
  "pad16 xs = zeroes ((16 - length xs mod 16) mod 16)"

definition aead_mac_data :: "byte list \<Rightarrow> byte list \<Rightarrow> byte list" where
  "aead_mac_data aad ct = aad @ pad16 aad @ ct @ pad16 ct @
     crypto_store64_le (of_nat (length aad)) @ crypto_store64_le (of_nat (length ct))"

definition chacha20_poly1305_mac ::
    "byte list \<Rightarrow> byte list \<Rightarrow> byte list \<Rightarrow> byte list \<Rightarrow> byte list" where
  "chacha20_poly1305_mac key nonce aad ct =
     poly1305_mac (aead_mac_data aad ct) (crypto_chacha20_block_internal key nonce 0)"

lemma length_chacha20_block_internal [simp, lengths]:
  "length (crypto_chacha20_block_internal k n c) = 64"
  by (simp add: crypto_chacha20_block_internal_def)

lemma poly1305_pad16_foldl:
  "poly1305_pad16 c (length xs) =
     foldl crypto_poly1305_update_internal c (if length xs mod 16 \<noteq> 0 then [pad16 xs] else [])"
  by (simp add: poly1305_pad16_def Let_def pad16_def)

lemma concat_pad16 [simp]: "concat (if length xs mod 16 \<noteq> 0 then [pad16 xs] else []) = pad16 xs"
  by (simp add: pad16_def)

lemma chacha20_poly1305_tag_mac:
  "chacha20_poly1305_tag key nonce aad ct = chacha20_poly1305_mac key nonce aad ct"
proof -
  define chunks where "chunks = [aad] @ (if length aad mod 16 \<noteq> 0 then [pad16 aad] else []) @ [ct] @
      (if length ct mod 16 \<noteq> 0 then [pad16 ct] else []) @
      [crypto_store64_le (of_nat (length aad)) @ crypto_store64_le (of_nat (length ct))]"
  have "chacha20_poly1305_tag key nonce aad ct = crypto_poly1305_final_internal
      (foldl crypto_poly1305_update_internal
        (crypto_poly1305_init_internal (crypto_chacha20_block_internal key nonce 0)) chunks)"
    by (simp only: chacha20_poly1305_tag_def Let_def poly1305_pad16_foldl chunks_def foldl_append
        foldl_Cons foldl_Nil)
  also have "\<dots> = poly1305_mac (concat chunks) (crypto_chacha20_block_internal key nonce 0)"
    by (rule poly1305_tag_of_updates) simp
  also have "concat chunks = aead_mac_data aad ct"
    unfolding chunks_def aead_mac_data_def concat_append concat_pad16 by simp
  finally show ?thesis by (simp add: chacha20_poly1305_mac_def)
qed

lemma length_chacha20_poly1305_mac [simp, lengths]: "length (chacha20_poly1305_mac k n a c) = 16"
  by (simp add: chacha20_poly1305_mac_def)

section \<open>Encryption and decryption on the memory\<close>

lemma validate_lengths_xor:
  "crypto_chacha20_poly1305_validate_lengths n a = SUCCESS \<Longrightarrow> crypto_chacha20_validate_length n 1 = SUCCESS"
  by (simp add: crypto_chacha20_poly1305_validate_lengths_def split: if_splits)

definition chacha20_poly1305_ct :: "mem \<Rightarrow> addr \<Rightarrow> nat \<Rightarrow> addr \<Rightarrow> addr \<Rightarrow> byte list" where
  "chacha20_poly1305_ct m inp n key nonce =
     xor_bytes (load m inp n) (chacha20_keystream (load m key 32) (load m nonce 12) 1 n)"

lemma length_chacha20_poly1305_ct [simp, lengths]: "length (chacha20_poly1305_ct m inp n key nonce) = n"
  by (simp add: chacha20_poly1305_ct_def)

text \<open>
  The overlap conditions the dispatcher establishes before it calls these functions.
\<close>

definition aead_ranges_ok :: "addr \<Rightarrow> addr \<Rightarrow> nat \<Rightarrow> addr \<Rightarrow> nat \<Rightarrow> addr \<Rightarrow> nat \<Rightarrow> addr \<Rightarrow> nat \<Rightarrow>
    addr \<Rightarrow> nat \<Rightarrow> bool" where
  "aead_ranges_ok out inp n tag tlen key kl nonce nl aad al \<longleftrightarrow>
     (out = inp \<or> disjoint out n inp n) \<and> disjoint out n key kl \<and> disjoint out n nonce nl \<and>
     disjoint out n aad al \<and> disjoint out n tag tlen \<and> disjoint tag tlen inp n \<and>
     disjoint tag tlen key kl \<and> disjoint tag tlen nonce nl \<and> disjoint tag tlen aad al"

lemma encrypt_internal_eq:
  assumes "crypto_chacha20_poly1305_validate_lengths n al = SUCCESS"
    and "aead_ranges_ok out inp n tag 16 key 32 nonce 12 aad al"
  shows "crypto_chacha20_poly1305_encrypt_internal m out tag inp n key nonce aad al =
    (SUCCESS, store (store m out (chacha20_poly1305_ct m inp n key nonce)) tag
       (chacha20_poly1305_mac (load m key 32) (load m nonce 12) (load m aad al)
         (chacha20_poly1305_ct m inp n key nonce)))"
proof -
  define ct where "ct = chacha20_poly1305_ct m inp n key nonce"
  have xor: "crypto_chacha20_xor_internal m out inp n key nonce 1 = (SUCCESS, store m out ct)"
    using assms validate_lengths_xor [OF assms(1)]
    by (simp add: crypto_chacha20_xor_internal_correct ct_def chacha20_poly1305_ct_def aead_ranges_ok_def)
  have "load (store m out ct) key 32 = load m key 32" "load (store m out ct) nonce 12 = load m nonce 12"
    "load (store m out ct) aad al = load m aad al"
    using assms(2) by (simp_all add: aead_ranges_ok_def load_store_disjoint ct_def)
  moreover have "load (store m out ct) out n = ct"
    using load_store_same [of m out ct] by (simp add: ct_def)
  ultimately show ?thesis
    unfolding crypto_chacha20_poly1305_encrypt_internal_def
    by (simp add: assms(1) xor chacha20_poly1305_tag_mac flip: ct_def)
qed

lemma decrypt_internal_eq:
  assumes "crypto_chacha20_poly1305_validate_lengths n al = SUCCESS"
    and "out = inp \<or> disjoint out n inp n" and "n \<noteq> 0 \<longrightarrow> out \<noteq> 0"
  shows "crypto_chacha20_poly1305_decrypt_internal m out tag inp n key nonce aad al =
    (if load m tag 16 = chacha20_poly1305_mac (load m key 32) (load m nonce 12) (load m aad al) (load m inp n)
     then (SUCCESS, store m out (chacha20_poly1305_ct m inp n key nonce))
     else (AUTHENTICATION_FAILED, store m out (zeroes n)))"
proof -
  have xor: "crypto_chacha20_xor_internal m out inp n key nonce 1 =
      (SUCCESS, store m out (chacha20_poly1305_ct m inp n key nonce))"
    using assms(2) validate_lengths_xor [OF assms(1)]
    by (simp add: crypto_chacha20_xor_internal_correct chacha20_poly1305_ct_def)
  have zero: "(if out \<noteq> 0 \<and> n \<noteq> 0 then crypto_zeroize m out n else m) = store m out (zeroes n)"
    using assms(3) by (cases "n = 0") (simp_all add: crypto_zeroize_def)
  show ?thesis
    unfolding crypto_chacha20_poly1305_decrypt_internal_def Let_def assms(1) xor
      chacha20_poly1305_tag_mac
    using zero by (auto simp: crypto_constant_time_equal_iff)
qed

end
