(* ===== verification/AES.thy ===== *)
theory AES
  imports Block_Modes
begin

text \<open>
  AES as written in \<^verbatim>\<open>src/BlockCipher/AES/aes.c\<close>: the table-free S-box (inversion in the
  field by a chain of multiplications), the round functions on the sixteen-byte state, the
  key expansion, the raw block operations on a context, and the ECB, CBC and CTR entry
  points on the memory. The lemmas establish the field structure of \<open>aes_gmul\<close>, from it that
  the inverse S-box and the inverse column mixing undo the forward ones, hence that
  decryption inverts encryption for every context, and the recurrence of FIPS 197 for the
  expanded key.
\<close>

section \<open>Field arithmetic and the S-box\<close>

definition aes_xtime :: "byte \<Rightarrow> byte" where
  "aes_xtime x = (let hi = drop_bit 7 x in push_bit 1 x XOR (0x1b AND (0 - hi)))"

primrec aes_gmul_loop :: "nat \<Rightarrow> byte \<Rightarrow> byte \<Rightarrow> byte \<Rightarrow> byte" where
  "aes_gmul_loop 0 a b result = result"
| "aes_gmul_loop (Suc i) a b result =
     (let mask = 0 - (b AND 1)
      in aes_gmul_loop i (aes_xtime a) (drop_bit 1 b) (result XOR (a AND mask)))"

definition aes_gmul :: "byte \<Rightarrow> byte \<Rightarrow> byte" where
  "aes_gmul a b = aes_gmul_loop 8 a b 0"

definition aes_rotl8 :: "byte \<Rightarrow> nat \<Rightarrow> byte" where
  "aes_rotl8 x n = ucast (push_bit n (ucast x :: u16) OR drop_bit (8 - n) (ucast x :: u16))"

definition aes_gf_inv :: "byte \<Rightarrow> byte" where
  "aes_gf_inv x =
     (let x2 = aes_gmul x x;
          x4 = aes_gmul x2 x2;
          x8 = aes_gmul x4 x4;
          x16 = aes_gmul x8 x8;
          x32 = aes_gmul x16 x16;
          x64 = aes_gmul x32 x32;
          x128 = aes_gmul x64 x64;
          result = aes_gmul x2 x4;
          result = aes_gmul result x8;
          result = aes_gmul result x16;
          result = aes_gmul result x32;
          result = aes_gmul result x64
      in aes_gmul result x128)"

definition aes_sbox :: "byte \<Rightarrow> byte" where
  "aes_sbox x =
     (let y = aes_gf_inv x
      in y XOR aes_rotl8 y 1 XOR aes_rotl8 y 2 XOR aes_rotl8 y 3 XOR aes_rotl8 y 4 XOR 0x63)"

definition aes_inv_sbox :: "byte \<Rightarrow> byte" where
  "aes_inv_sbox x =
     (let y = aes_rotl8 x 1 XOR aes_rotl8 x 3 XOR aes_rotl8 x 6 XOR 0x05 in aes_gf_inv y)"

section \<open>The round functions\<close>

definition add_round_key :: "byte list \<Rightarrow> byte list \<Rightarrow> byte list" where
  "add_round_key state round_key = map (\<lambda>i. state ! i XOR round_key ! i) [0..<16]"

definition sub_bytes :: "byte list \<Rightarrow> byte list" where
  "sub_bytes state = map (\<lambda>i. aes_sbox (state ! i)) [0..<16]"

definition inv_sub_bytes :: "byte list \<Rightarrow> byte list" where
  "inv_sub_bytes state = map (\<lambda>i. aes_inv_sbox (state ! i)) [0..<16]"

definition shift_rows :: "byte list \<Rightarrow> byte list" where
  "shift_rows state =
     [state ! 0, state ! 5, state ! 10, state ! 15,
      state ! 4, state ! 9, state ! 14, state ! 3,
      state ! 8, state ! 13, state ! 2, state ! 7,
      state ! 12, state ! 1, state ! 6, state ! 11]"

definition inv_shift_rows :: "byte list \<Rightarrow> byte list" where
  "inv_shift_rows state =
     [state ! 0, state ! 13, state ! 10, state ! 7,
      state ! 4, state ! 1, state ! 14, state ! 11,
      state ! 8, state ! 5, state ! 2, state ! 15,
      state ! 12, state ! 9, state ! 6, state ! 3]"

definition mix_columns :: "byte list \<Rightarrow> byte list" where
  "mix_columns state =
     concat (map (\<lambda>column.
       let i = column * 4;
           a0 = state ! i; a1 = state ! (i + 1); a2 = state ! (i + 2); a3 = state ! (i + 3);
           x0 = aes_xtime a0; x1 = aes_xtime a1; x2 = aes_xtime a2; x3 = aes_xtime a3
       in [x0 XOR (x1 XOR a1) XOR a2 XOR a3,
           a0 XOR x1 XOR (x2 XOR a2) XOR a3,
           a0 XOR a1 XOR x2 XOR (x3 XOR a3),
           (x0 XOR a0) XOR a1 XOR a2 XOR x3]) [0..<4])"

definition inv_mix_columns :: "byte list \<Rightarrow> byte list" where
  "inv_mix_columns state =
     concat (map (\<lambda>column.
       let i = column * 4;
           a0 = state ! i; a1 = state ! (i + 1); a2 = state ! (i + 2); a3 = state ! (i + 3)
       in [aes_gmul a0 14 XOR aes_gmul a1 11 XOR aes_gmul a2 13 XOR aes_gmul a3 9,
           aes_gmul a0 9 XOR aes_gmul a1 14 XOR aes_gmul a2 11 XOR aes_gmul a3 13,
           aes_gmul a0 13 XOR aes_gmul a1 9 XOR aes_gmul a2 14 XOR aes_gmul a3 11,
           aes_gmul a0 11 XOR aes_gmul a1 13 XOR aes_gmul a2 9 XOR aes_gmul a3 14]) [0..<4])"

section \<open>The context and the key expansion\<close>

record AES_CONTEXT =
  aes_ROUND_KEYS :: "byte list"
  aes_ROUNDS :: nat
  aes_KEY_WORDS :: nat

definition aes_cleared :: AES_CONTEXT where
  "aes_cleared = \<lparr>aes_ROUND_KEYS = zeroes 240, aes_ROUNDS = 0, aes_KEY_WORDS = 0\<rparr>"

definition aes_key_parameters :: "nat \<Rightarrow> (nat \<times> nat) option" where
  "aes_key_parameters key_length =
     (if key_length = 16 then Some (4, 10)
      else if key_length = 24 then Some (6, 12)
      else if key_length = 32 then Some (8, 14)
      else None)"

text \<open>The word that is combined with the one a key length back, and the next round constant.\<close>

definition aes_schedule_temp :: "nat \<Rightarrow> nat \<Rightarrow> byte \<Rightarrow> byte list \<Rightarrow> byte list \<times> byte" where
  "aes_schedule_temp key_length bytes_generated rcon temp =
     (if bytes_generated mod key_length = 0 then
        ([aes_sbox (temp ! 1) XOR rcon, aes_sbox (temp ! 2), aes_sbox (temp ! 3), aes_sbox (temp ! 0)],
         aes_xtime rcon)
      else if key_length = 32 \<and> bytes_generated mod key_length = 16 then
        (map (\<lambda>i. aes_sbox (temp ! i)) [0..<4], rcon)
      else (temp, rcon))"

function aes_expand :: "nat \<Rightarrow> nat \<Rightarrow> byte list \<Rightarrow> nat \<Rightarrow> byte \<Rightarrow> byte list" where
  "aes_expand key_length total_bytes keys bytes_generated rcon =
     (if bytes_generated < total_bytes then
        let temp = map (\<lambda>i. keys ! (bytes_generated - 4 + i)) [0..<4];
            (temp, rcon) = aes_schedule_temp key_length bytes_generated rcon temp;
            count = min 4 (total_bytes - bytes_generated);
            keys = fold (\<lambda>i keys. keys[bytes_generated + i :=
                     keys ! (bytes_generated + i - key_length) XOR temp ! i]) [0..<count] keys
        in aes_expand key_length total_bytes keys (bytes_generated + count) rcon
      else keys)"
  by pat_completeness auto
termination
  by (relation "measure (\<lambda>(kl, total, keys, bytes, rcon). total - bytes)") auto

declare aes_expand.simps [simp del]

definition crypto_aes_context_init :: "byte list option \<Rightarrow> nat \<Rightarrow> status \<times> AES_CONTEXT" where
  "crypto_aes_context_init KEY KEY_LENGTH =
     (case KEY of
        None \<Rightarrow> (INVALID_ARGUMENT, aes_cleared)
      | Some key \<Rightarrow>
          (case aes_key_parameters KEY_LENGTH of
             None \<Rightarrow> (INVALID_KEY, aes_cleared)
           | Some (key_words, rounds) \<Rightarrow>
               let keys = copy_at (aes_ROUND_KEYS aes_cleared) 0 (take KEY_LENGTH key);
                   total_bytes = 16 * (rounds + 1)
               in (SUCCESS,
                   \<lparr>aes_ROUND_KEYS = aes_expand KEY_LENGTH total_bytes keys KEY_LENGTH 1,
                    aes_ROUNDS = rounds, aes_KEY_WORDS = key_words\<rparr>)))"

definition aes_context_valid :: "AES_CONTEXT \<Rightarrow> bool" where
  "aes_context_valid context \<longleftrightarrow>
     (aes_ROUNDS context = 10 \<and> aes_KEY_WORDS context = 4) \<or>
     (aes_ROUNDS context = 12 \<and> aes_KEY_WORDS context = 6) \<or>
     (aes_ROUNDS context = 14 \<and> aes_KEY_WORDS context = 8)"

section \<open>The raw block operations\<close>

text \<open>
  Every caller passes addresses of arrays, so the null checks on the block pointers never
  fire; the context check is kept.
\<close>

definition aes_round_key :: "AES_CONTEXT \<Rightarrow> nat \<Rightarrow> byte list" where
  "aes_round_key context round = drop (16 * round) (aes_ROUND_KEYS context)"

definition crypto_aes_encrypt_block :: "AES_CONTEXT \<Rightarrow> byte list \<Rightarrow> status \<times> byte list" where
  "crypto_aes_encrypt_block context input =
     (if \<not> aes_context_valid context then (INVALID_ARGUMENT, [])
      else let state = add_round_key input (aes_round_key context 0);
               state = fold (\<lambda>round state.
                   add_round_key (mix_columns (shift_rows (sub_bytes state)))
                     (aes_round_key context round)) [1..<aes_ROUNDS context] state;
               state = add_round_key (shift_rows (sub_bytes state))
                         (aes_round_key context (aes_ROUNDS context))
        in (SUCCESS, state))"

definition crypto_aes_decrypt_block :: "AES_CONTEXT \<Rightarrow> byte list \<Rightarrow> status \<times> byte list" where
  "crypto_aes_decrypt_block context input =
     (if \<not> aes_context_valid context then (INVALID_ARGUMENT, [])
      else let state = add_round_key input (aes_round_key context (aes_ROUNDS context));
               state = fold (\<lambda>round state.
                   inv_mix_columns (add_round_key (inv_sub_bytes (inv_shift_rows state))
                     (aes_round_key context (round - 1)))) (rev [2..<aes_ROUNDS context + 1]) state;
               state = add_round_key (inv_sub_bytes (inv_shift_rows state)) (aes_round_key context 0)
        in (SUCCESS, state))"

section \<open>The field\<close>

text \<open>
  \<open>aes_xtime\<close> and \<open>aes_gmul\<close> are additive, so an identity that is additive in an argument
  holds for all bytes once it holds for the eight single bits.
\<close>

lemma low_bit_mask: "0 - (b AND 1) = (if bit b 0 then - 1 else 0 :: byte)"
  by (simp add: and_one_eq bit_0 mod_2_eq_odd)

lemma high_bit_mask: "0 - drop_bit 7 x = (if bit x 7 then - 1 else 0 :: byte)"
proof -
  have "bit (drop_bit 7 x) n \<longleftrightarrow> n = 0 \<and> bit x 7" for n
    using bit_imp_le_length [of x "7 + n"] by (cases "n = 0") (auto simp: bit_simps)
  then have "drop_bit 7 x = (if bit x 7 then 1 else 0)"
    by (intro bit_word_eqI) (auto simp: bit_1_iff)
  then show ?thesis by (simp only:) simp
qed

lemma aes_xtime_if: "aes_xtime x = push_bit 1 x XOR (if bit x 7 then 0x1b else 0)"
  unfolding aes_xtime_def Let_def high_bit_mask by simp

lemma aes_xtime_add: "aes_xtime (a XOR b) = aes_xtime a XOR aes_xtime b"
  by (auto simp: aes_xtime_if push_bit_xor bit_xor_iff xor.assoc xor.left_commute)

lemma aes_xtime_0 [simp]: "aes_xtime 0 = 0"
  by (simp add: aes_xtime_if)

lemma aes_gmul_loop_Suc:
  "aes_gmul_loop (Suc i) a b r =
     aes_gmul_loop i (aes_xtime a) (drop_bit 1 b) (r XOR (if bit b 0 then a else 0))"
  unfolding aes_gmul_loop.simps Let_def low_bit_mask by simp

lemma aes_gmul_loop_acc: "aes_gmul_loop i a b (r XOR s) = r XOR aes_gmul_loop i a b s"
  by (induction i arbitrary: a b s) (simp_all add: aes_gmul_loop_Suc xor.assoc del: aes_gmul_loop.simps(2))

lemma aes_gmul_loop_add_left:
  "aes_gmul_loop i (a XOR a') b (r XOR s) = aes_gmul_loop i a b r XOR aes_gmul_loop i a' b s"
proof (induction i arbitrary: a a' b r s)
  case (Suc i)
  have "(r XOR s) XOR (if bit b 0 then a XOR a' else 0) =
      (r XOR (if bit b 0 then a else 0)) XOR (s XOR (if bit b 0 then a' else 0))"
    by (simp add: xor.assoc xor.left_commute)
  then show ?case by (simp only: aes_gmul_loop_Suc aes_xtime_add Suc)
qed simp

lemma aes_gmul_loop_add_right:
  "aes_gmul_loop i a (b XOR b') (r XOR s) = aes_gmul_loop i a b r XOR aes_gmul_loop i a b' s"
proof (induction i arbitrary: a b b' r s)
  case (Suc i)
  have "(r XOR s) XOR (if bit (b XOR b') 0 then a else 0) =
      (r XOR (if bit b 0 then a else 0)) XOR (s XOR (if bit b' 0 then a else 0))"
    by (simp add: bit_xor_iff xor.assoc xor.left_commute)
  then show ?case by (simp only: aes_gmul_loop_Suc drop_bit_xor Suc)
qed simp

lemma aes_gmul_add_left: "aes_gmul (a XOR a') b = aes_gmul a b XOR aes_gmul a' b"
  using aes_gmul_loop_add_left [of 8 a a' b 0 0] by (simp add: aes_gmul_def)

lemma aes_gmul_add_right: "aes_gmul a (b XOR b') = aes_gmul a b XOR aes_gmul a b'"
  using aes_gmul_loop_add_right [of 8 a b b' 0 0] by (simp add: aes_gmul_def)

definition additive :: "(byte \<Rightarrow> byte) \<Rightarrow> bool" where
  "additive f \<longleftrightarrow> (\<forall>a b. f (a XOR b) = f a XOR f b)"

lemma additiveI [intro]: "(\<And>a b. f (a XOR b) = f a XOR f b) \<Longrightarrow> additive f"
  by (simp add: additive_def)

lemma additive_zero: "additive f \<Longrightarrow> f 0 = 0"
  unfolding additive_def by (metis xor_self_eq)

definition byte_bits :: "byte \<Rightarrow> byte list" where
  "byte_bits x = map (\<lambda>i. if bit x i then push_bit i 1 else 0) [0..<8]"

lemma bit_single_bit:
  "n < 8 \<Longrightarrow> bit (if bit x i then push_bit i 1 else 0 :: byte) n \<longleftrightarrow> bit x i \<and> i = n"
  by (auto simp: bit_simps)

lemma byte_of_bits: "foldr (XOR) (byte_bits x) 0 = x"
proof (rule bit_word_eqI)
  have "[0..<8] = [0, 1, 2, 3, 4, 5, 6, 7]" by code_simp
  then have list: "byte_bits x = map (\<lambda>i. if bit x i then push_bit i 1 else 0) [0, 1, 2, 3, 4, 5, 6, 7]"
    by (simp add: byte_bits_def)
  fix n assume "n < LENGTH(8)"
  then have n: "n < 8" and cases: "n = 0 \<or> n = 1 \<or> n = 2 \<or> n = 3 \<or> n = 4 \<or> n = 5 \<or> n = 6 \<or> n = 7"
    by auto
  show "bit (foldr (XOR) (byte_bits x) 0) n \<longleftrightarrow> bit x n"
    unfolding list list.map foldr.simps o_apply bit_xor_iff bit_single_bit [OF n] id_apply bit_0_eq
    using cases by (elim disjE) simp_all
qed

lemma additive_sum: "additive f \<Longrightarrow> f (foldr (XOR) xs 0) = foldr (XOR) (map f xs) 0"
  by (induction xs) (simp_all add: additive_zero, simp add: additive_def)

lemma additive_eqI:
  assumes f: "additive f" and g: "additive g"
    and bits: "\<And>i. i < 8 \<Longrightarrow> f (push_bit i 1) = g (push_bit i 1)"
  shows "f x = g x"
proof -
  have "map f (byte_bits x) = map g (byte_bits x)"
    using bits additive_zero [OF f] additive_zero [OF g] by (auto simp: byte_bits_def)
  then show ?thesis
    using additive_sum [OF f, of "byte_bits x"] additive_sum [OF g, of "byte_bits x"]
    by (simp only: byte_of_bits)
qed

lemma additive_gmul [intro]: "additive (aes_gmul a)" "additive (\<lambda>a. aes_gmul a b)"
  by (auto simp: aes_gmul_add_left aes_gmul_add_right)

lemma additive_xtime [intro]: "additive aes_xtime"
  by (auto simp: aes_xtime_add)

lemma additive_comp [intro]: "additive f \<Longrightarrow> additive g \<Longrightarrow> additive (\<lambda>x. f (g x))"
  by (simp add: additive_def)

text \<open>Multiplication by a single bit is repeated doubling.\<close>

lemma aes_gmul_loop_single:
  assumes "j < 8"
  shows "aes_gmul_loop i a (push_bit j 1) r = r XOR (if j < i then (aes_xtime ^^ j) a else 0)"
  using assms
proof (induction i arbitrary: a j r)
  case (Suc i)
  show ?case
  proof (cases j)
    case 0
    have "aes_gmul_loop i a 0 r = r" for a r
      by (induction i arbitrary: a) (simp_all add: aes_gmul_loop_Suc del: aes_gmul_loop.simps(2))
    then show ?thesis by (simp add: 0 aes_gmul_loop_Suc del: aes_gmul_loop.simps(2))
  next
    case (Suc k)
    have "drop_bit 1 (push_bit (Suc k) 1) = (push_bit k 1 :: byte)"
      by (rule bit_word_eqI) (use Suc.prems Suc in \<open>auto simp: bit_simps\<close>)
    moreover have "\<not> bit (push_bit (Suc k) 1 :: byte) 0" by (simp add: bit_simps)
    ultimately show ?thesis
      using Suc.prems Suc
      by (simp add: aes_gmul_loop_Suc Suc.IH funpow_swap1 del: aes_gmul_loop.simps(2) push_bit_of_1)
  qed
qed simp

lemma aes_gmul_single: "j < 8 \<Longrightarrow> aes_gmul a (push_bit j 1) = (aes_xtime ^^ j) a"
  using aes_gmul_loop_single [of j 8 a 0] by (simp add: aes_gmul_def)

lemma xtime_power_one: "j < 8 \<Longrightarrow> (aes_xtime ^^ j) 1 = push_bit j 1"
proof (induction j)
  case (Suc j)
  have "aes_xtime (push_bit j 1) = push_bit (Suc j) 1"
    using Suc.prems by (auto simp: aes_xtime_if bit_simps simp del: push_bit_of_1)
  with Suc show ?case by simp
qed simp

lemma additive_xtime_power [intro]: "additive (aes_xtime ^^ k)"
  by (induction k) (auto simp: additive_def aes_xtime_add)

lemma aes_gmul_xtime_right: "aes_gmul (aes_xtime a) b = aes_xtime (aes_gmul a b)"
proof (rule additive_eqI [of "aes_gmul (aes_xtime a)" "\<lambda>b. aes_xtime (aes_gmul a b)"])
  fix j :: nat assume "j < 8"
  then show "aes_gmul (aes_xtime a) (push_bit j 1) = aes_xtime (aes_gmul a (push_bit j 1))"
    by (simp add: aes_gmul_single funpow_swap1 del: push_bit_of_1)
qed (auto simp: additive_def aes_gmul_add_right aes_xtime_add)

lemma aes_gmul_commute: "aes_gmul a b = aes_gmul b a"
proof (rule additive_eqI [of "aes_gmul a" "\<lambda>b. aes_gmul b a"])
  fix j :: nat assume j: "j < 8"
  have "aes_gmul (push_bit j 1) a = (aes_xtime ^^ j) a"
  proof (rule additive_eqI [of "aes_gmul (push_bit j 1)" "aes_xtime ^^ j"])
    fix i :: nat assume i: "i < 8"
    have "(aes_xtime ^^ i) ((aes_xtime ^^ j) 1) = (aes_xtime ^^ j) ((aes_xtime ^^ i) 1)"
      by (metis add.commute comp_apply funpow_add)
    then show "aes_gmul (push_bit j 1) (push_bit i 1) = (aes_xtime ^^ j) (push_bit i 1)"
      using i j by (simp add: aes_gmul_single xtime_power_one del: push_bit_of_1)
  qed auto
  then show "aes_gmul a (push_bit j 1) = aes_gmul (push_bit j 1) a"
    using j by (simp add: aes_gmul_single del: push_bit_of_1)
qed auto

lemma aes_gmul_xtime_left: "aes_gmul a (aes_xtime b) = aes_xtime (aes_gmul a b)"
  by (metis aes_gmul_commute aes_gmul_xtime_right)

lemma aes_gmul_xtime_power: "aes_gmul a ((aes_xtime ^^ k) b) = (aes_xtime ^^ k) (aes_gmul a b)"
  by (induction k) (simp_all add: aes_gmul_xtime_left)

lemma aes_gmul_one [simp]: "aes_gmul a 1 = a"
  using aes_gmul_single [of 0 a] by simp

lemma aes_gmul_assoc: "aes_gmul (aes_gmul a b) c = aes_gmul a (aes_gmul b c)"
proof (rule additive_eqI [of "aes_gmul (aes_gmul a b)" "\<lambda>c. aes_gmul a (aes_gmul b c)"])
  fix j :: nat assume "j < 8"
  then show "aes_gmul (aes_gmul a b) (push_bit j 1) = aes_gmul a (aes_gmul b (push_bit j 1))"
    by (simp add: aes_gmul_single aes_gmul_xtime_power del: push_bit_of_1)
qed (auto simp: additive_def aes_gmul_add_right)

interpretation gf: comm_monoid aes_gmul 1
  by unfold_locales (auto simp: aes_gmul_assoc aes_gmul_commute [of _ 1] intro: aes_gmul_commute)

lemma aes_gmul_zero [simp]: "aes_gmul a 0 = 0" "aes_gmul 0 a = 0"
  using additive_zero [OF additive_gmul(1), of a] by (simp_all add: aes_gmul_commute [of 0])

text \<open>Squaring is additive and its eighth power is the identity (\<open>x ^ 256 = x\<close>).\<close>

abbreviation gf_square :: "byte \<Rightarrow> byte" where
  "gf_square x \<equiv> aes_gmul x x"

lemma additive_square: "additive gf_square"
proof (rule additiveI)
  fix a b
  show "gf_square (a XOR b) = gf_square a XOR gf_square b"
    by (simp add: aes_gmul_add_left aes_gmul_add_right aes_gmul_commute [of b a] xor.assoc)
qed

lemma square_xtime_power: "gf_square ((aes_xtime ^^ k) 1) = (aes_xtime ^^ (2 * k)) 1"
proof -
  have "gf_square ((aes_xtime ^^ k) 1) = (aes_xtime ^^ k) ((aes_xtime ^^ k) 1)"
    by (simp add: aes_gmul_xtime_power)
  then show ?thesis by (simp add: mult_2 funpow_add)
qed

lemma funpow_fold: "(f ^^ length xs) x = fold (\<lambda>_. f) xs x"
  by (induction xs arbitrary: x) (simp_all add: funpow_Suc_right del: funpow.simps(2))

lemma xtime_order: "(aes_xtime ^^ 51) 1 = 1"
proof -
  have "(aes_xtime ^^ length [0 :: nat..<51]) 1 = 1"
    unfolding funpow_fold by (simp add: upt_rec aes_xtime_if)
  then show ?thesis by simp
qed

lemma xtime_order_mult: "(aes_xtime ^^ (51 * k)) 1 = 1"
  by (induction k) (simp_all add: funpow_add xtime_order)

lemma square_power_xtime: "(gf_square ^^ n) ((aes_xtime ^^ k) 1) = (aes_xtime ^^ (2 ^ n * k)) 1"
  by (induction n) (simp_all add: square_xtime_power mult.assoc)

lemma square_power_8: "(gf_square ^^ 8) x = x"
proof (rule additive_eqI [of "gf_square ^^ 8" "\<lambda>x. x"])
  have "additive (gf_square ^^ n)" for n
    using additive_square by (induction n) (auto simp: additive_def)
  then show "additive (gf_square ^^ 8)" .
  fix i :: nat assume i: "i < 8"
  have "(gf_square ^^ 8) ((aes_xtime ^^ i) 1) = (aes_xtime ^^ (51 * (5 * i) + i)) 1"
    unfolding square_power_xtime by simp
  also have "\<dots> = (aes_xtime ^^ i) 1"
    using xtime_order_mult [of "5 * i"] by (simp only: add.commute [of _ i] funpow_add o_apply)
  finally show "(gf_square ^^ 8) (push_bit i 1) = push_bit i 1"
    using i by (simp only: xtime_power_one)
qed auto

text \<open>The chain of \<open>aes_gf_inv\<close> is the power 254, the inverse of every non-zero byte.\<close>

lemma square_absorb: "aes_gmul a (aes_gmul a b) = aes_gmul (gf_square a) b"
  by (simp add: aes_gmul_assoc)

lemma aes_gf_inv_chain: "aes_gmul x (aes_gmul x (aes_gf_inv x)) = x"
proof -
  define s where "s k = (gf_square ^^ k) x" for k
  have s: "gf_square (s k) = s (Suc k)" for k by (simp add: s_def)
  have s0: "s 0 = x" and s8: "s 8 = x" using square_power_8 [of x] by (simp_all add: s_def)
  have s1: "gf_square x = s (Suc 0)" using s [of 0] s0 by simp
  have "aes_gf_inv x = aes_gmul (s (Suc 0)) (aes_gmul (s (Suc (Suc 0)))
      (aes_gmul (s (Suc (Suc (Suc 0)))) (aes_gmul (s (Suc (Suc (Suc (Suc 0)))))
        (aes_gmul (s (Suc (Suc (Suc (Suc (Suc 0)))))) (aes_gmul (s (Suc (Suc (Suc (Suc (Suc (Suc 0)))))))
          (s (Suc (Suc (Suc (Suc (Suc (Suc (Suc 0)))))))))))))"
    unfolding aes_gf_inv_def Let_def s1 s by (simp only: aes_gmul_assoc)
  then have "aes_gmul x (aes_gmul x (aes_gf_inv x)) = s (Suc (Suc (Suc (Suc (Suc (Suc (Suc (Suc 0))))))))"
    by (simp only: square_absorb s s1)
  then show ?thesis using s8 by (simp add: eval_nat_numeral)
qed

lemma gf_square_bits:
  "gf_square n = foldr (XOR) (map (\<lambda>(i, c). if bit n i then c else 0)
     [(0, 1), (1, 4), (2, 16), (3, 64), (4, 0x1b), (5, 0x6c), (6, 0xab), (7, 0x9a)]) 0"
proof -
  have sq: "gf_square (push_bit i 1) = (aes_xtime ^^ i) (push_bit i 1)" if "i < 8" for i
    using that by (rule aes_gmul_single)
  have "[0..<8] = [0, 1, 2, 3, 4, 5, 6, 7]" by code_simp
  then have "map gf_square (byte_bits n) = map (\<lambda>i. if bit n i then gf_square (push_bit i 1) else 0) [0, 1, 2, 3, 4, 5, 6, 7]"
    by (simp add: byte_bits_def)
  also have "\<dots> = map (\<lambda>(i, c). if bit n i then c else 0)
     [(0, 1), (1, 4), (2, 16), (3, 64), (4, 0x1b), (5, 0x6c), (6, 0xab), (7, 0x9a)]"
  proof -
    have x: "aes_xtime 1 = 2" "aes_xtime 2 = 4" "aes_xtime 4 = 8" "aes_xtime 8 = 16" "aes_xtime 16 = 32"
      "aes_xtime 32 = 64" "aes_xtime 64 = 128" "aes_xtime 128 = 0x1b" "aes_xtime 0x1b = 0x36"
      "aes_xtime 0x36 = 0x6c" "aes_xtime 0x6c = 0xd8" "aes_xtime 0xd8 = 0xab" "aes_xtime 0xab = 0x4d"
      "aes_xtime 0x4d = 0x9a" by (simp_all add: aes_xtime_if)
    have "(aes_xtime ^^ 2) 4 = 16" "(aes_xtime ^^ 3) 8 = 64" "(aes_xtime ^^ 4) 16 = 0x1b"
      "(aes_xtime ^^ 5) 32 = 0x6c" "(aes_xtime ^^ 6) 64 = 0xab" "(aes_xtime ^^ 7) 128 = 0x9a"
      by (simp_all add: numeral_eq_Suc x)
    then show ?thesis using sq [of 0] sq [of 1] sq [of 2] sq [of 3] sq [of 4] sq [of 5] sq [of 6] sq [of 7] x
      by simp
  qed
  finally show ?thesis
    using additive_sum [OF additive_square, of "byte_bits n"] by (simp only: byte_of_bits)
qed

lemma gf_idempotent:
  assumes "gf_square n = n"
  shows "n = 0 \<or> n = 1"
proof -
  note bits = arg_cong [where f = "\<lambda>w. bit w k" for k, OF trans [OF assms [symmetric] gf_square_bits]]
  have bit_if: "bit (if P then c else 0 :: byte) k \<longleftrightarrow> P \<and> bit c k" for P c k by simp
  have eqs: "bit n 0 \<longleftrightarrow> (bit n 0 \<noteq> (bit n 4 \<noteq> bit n 6))" "bit n 1 \<longleftrightarrow> (bit n 4 \<noteq> (bit n 6 \<noteq> bit n 7))"
    "bit n 2 \<longleftrightarrow> (bit n 1 \<noteq> bit n 5)" "bit n 3 \<longleftrightarrow> (bit n 4 \<noteq> (bit n 5 \<noteq> (bit n 6 \<noteq> bit n 7)))"
    "bit n 4 \<longleftrightarrow> (bit n 2 \<noteq> (bit n 4 \<noteq> bit n 7))" "bit n 5 \<longleftrightarrow> (bit n 5 \<noteq> bit n 6)"
    "bit n 6 \<longleftrightarrow> (bit n 3 \<noteq> bit n 5)" "bit n 7 \<longleftrightarrow> (bit n 6 \<noteq> bit n 7)"
    by (rule trans [OF bits], simp add: bit_xor_iff bit_if)+
  have z6: "\<not> bit n 6" using eqs(6) by blast
  have z4: "\<not> bit n 4" using eqs(1) z6 by blast
  have "bit n 3 \<longleftrightarrow> bit n 5" using eqs(7) z6 by blast
  then have z7: "\<not> bit n 7" using eqs(4) z4 z6 by blast
  have z1: "\<not> bit n 1" using eqs(2) z4 z6 z7 by blast
  have z2: "\<not> bit n 2" using eqs(5) z4 z7 by blast
  have z5: "\<not> bit n 5" using eqs(3) z1 z2 by blast
  have z3: "\<not> bit n 3" using eqs(7) z6 z5 by blast
  note zero = z1 z2 z3 z4 z5 z6 z7
  have high: "\<not> bit n k" if "k < 8" "k \<noteq> 0" for k
  proof -
    have "k = 1 \<or> k = 2 \<or> k = 3 \<or> k = 4 \<or> k = 5 \<or> k = 6 \<or> k = 7" using that by auto
    then show ?thesis using zero by (elim disjE) simp_all
  qed
  have "n = (if bit n 0 then 1 else 0)"
  proof (rule bit_word_eqI)
    fix k assume "k < LENGTH(8)"
    then show "bit n k \<longleftrightarrow> bit (if bit n 0 then 1 else 0 :: byte) k"
      using high [of k] by (cases "k = 0") (simp_all add: bit_1_iff)
  qed
  then show ?thesis by metis
qed

lemma aes_gf_inv_zero [simp]: "aes_gf_inv 0 = 0"
  by (simp add: aes_gf_inv_def)

lemma aes_gf_inv_correct:
  assumes "x \<noteq> 0"
  shows "aes_gmul x (aes_gf_inv x) = 1"
proof -
  define n where "n = aes_gmul x (aes_gf_inv x)"
  have x: "aes_gmul x n = x" unfolding n_def by (rule aes_gf_inv_chain)
  have "gf_square n = aes_gmul (aes_gmul x n) (aes_gf_inv x)"
    by (simp only: n_def aes_gmul_assoc aes_gmul_commute gf.left_commute)
  then have "gf_square n = n" unfolding x by (simp add: n_def)
  then show ?thesis using gf_idempotent [of n] x assms by (auto simp flip: n_def)
qed

lemma aes_gf_inv_inv [simp]: "aes_gf_inv (aes_gf_inv x) = x"
proof (cases "x = 0")
  case False
  note x = aes_gf_inv_correct [OF False]
  then have "aes_gf_inv x \<noteq> 0" by (metis aes_gmul_zero(1) zero_neq_one)
  then have "aes_gmul (aes_gf_inv x) (aes_gf_inv (aes_gf_inv x)) = 1" by (rule aes_gf_inv_correct)
  then have "aes_gf_inv (aes_gf_inv x) = aes_gmul (aes_gmul x (aes_gf_inv x)) (aes_gf_inv (aes_gf_inv x))"
    by (simp add: x aes_gmul_commute [of 1])
  also have "\<dots> = x"
    using \<open>aes_gmul (aes_gf_inv x) (aes_gf_inv (aes_gf_inv x)) = 1\<close> by (simp add: aes_gmul_assoc)
  finally show ?thesis .
qed simp

section \<open>The S-boxes\<close>

lemma bit_aes_rotl8:
  assumes "n < 8" and "k < 8"
  shows "bit (aes_rotl8 x n) k \<longleftrightarrow> (if n \<le> k then bit x (k - n) else bit x (8 - n + k))"
proof -
  have "\<not> bit x (8 - n + k)" if "n \<le> k"
    using that assms bit_imp_le_length [of x "8 - n + k"] by auto
  then show ?thesis using assms by (auto simp: aes_rotl8_def bit_simps)
qed

lemma additive_rotl8: "n < 8 \<Longrightarrow> aes_rotl8 (a XOR b) n = aes_rotl8 a n XOR aes_rotl8 b n"
  by (rule bit_word_eqI) (auto simp: bit_aes_rotl8 bit_xor_iff)

definition aes_affine :: "byte \<Rightarrow> byte" where
  "aes_affine y = y XOR aes_rotl8 y 1 XOR aes_rotl8 y 2 XOR aes_rotl8 y 3 XOR aes_rotl8 y 4"

definition aes_inv_affine :: "byte \<Rightarrow> byte" where
  "aes_inv_affine x = aes_rotl8 x 1 XOR aes_rotl8 x 3 XOR aes_rotl8 x 6"

lemma additive_affine: "additive aes_affine" "additive aes_inv_affine"
  by (auto simp: aes_affine_def aes_inv_affine_def additive_rotl8 xor.assoc xor.left_commute)

lemma inv_affine_affine: "aes_inv_affine (aes_affine y) = y"
proof (rule additive_eqI [of "\<lambda>y. aes_inv_affine (aes_affine y)" "\<lambda>y. y"])
  show "additive (\<lambda>y. aes_inv_affine (aes_affine y))"
    using additive_affine by (auto simp: additive_def)
  fix i :: nat assume "i < 8"
  then have "i = 0 \<or> i = 1 \<or> i = 2 \<or> i = 3 \<or> i = 4 \<or> i = 5 \<or> i = 6 \<or> i = 7" by auto
  then show "aes_inv_affine (aes_affine (push_bit i 1)) = push_bit i 1"
    by (elim disjE) (simp_all add: aes_inv_affine_def aes_affine_def aes_rotl8_def)
qed auto

theorem aes_inv_sbox_sbox: "aes_inv_sbox (aes_sbox x) = x"
proof -
  have inv: "aes_inv_sbox z = aes_gf_inv (aes_inv_affine z XOR 0x05)" for z
    by (simp add: aes_inv_sbox_def aes_inv_affine_def xor.assoc)
  have fwd: "aes_sbox x = aes_affine (aes_gf_inv x) XOR 0x63"
    by (simp add: aes_sbox_def aes_affine_def Let_def xor.assoc)
  have "aes_inv_affine 0x63 = 0x05"
    by (simp add: aes_inv_affine_def aes_rotl8_def)
  then have "aes_inv_affine (aes_sbox x) = aes_gf_inv x XOR 0x05"
    using additive_affine(2) by (simp add: fwd additive_def inv_affine_affine)
  then show ?thesis by (simp add: inv xor.assoc)
qed

section \<open>The round functions are inverted\<close>

lemma upt16: "[0..<16] = [0, 1, 2, 3, 4, 5, 6, 7, 8, 9, 10, 11, 12, 13, 14, 15 :: nat]"
  by code_simp

lemma upt4: "[0..<4] = [0, 1, 2, 3 :: nat]"
  by code_simp

lemma state16: "length s = 16 \<Longrightarrow>
    s = [s ! 0, s ! 1, s ! 2, s ! 3, s ! 4, s ! 5, s ! 6, s ! 7, s ! 8, s ! 9, s ! 10, s ! 11, s ! 12,
         s ! 13, s ! 14, s ! 15]"
  using map_nth [of s] by (simp add: upt16)

lemma length_rounds [simp, lengths]:
  "length (add_round_key s k) = 16" "length (sub_bytes s) = 16" "length (inv_sub_bytes s) = 16"
  "length (shift_rows s) = 16" "length (inv_shift_rows s) = 16" "length (mix_columns s) = 16"
  "length (inv_mix_columns s) = 16"
  by (simp_all add: add_round_key_def sub_bytes_def inv_sub_bytes_def shift_rows_def
      inv_shift_rows_def mix_columns_def inv_mix_columns_def upt4 Let_def)

lemma add_round_key_twice: "length s = 16 \<Longrightarrow> add_round_key (add_round_key s k) k = s"
  by (rule nth_equalityI) (simp_all add: add_round_key_def xor.assoc)

lemma inv_sub_bytes_sub_bytes: "length s = 16 \<Longrightarrow> inv_sub_bytes (sub_bytes s) = s"
  by (rule nth_equalityI) (simp_all add: sub_bytes_def inv_sub_bytes_def aes_inv_sbox_sbox)

lemma inv_shift_rows_shift_rows: "length s = 16 \<Longrightarrow> inv_shift_rows (shift_rows s) = s"
  by (subst (2) state16) (simp_all add: shift_rows_def inv_shift_rows_def)

lemma aes_gmul_const:
  "aes_gmul a 9 = aes_xtime (aes_xtime (aes_xtime a)) XOR a"
  "aes_gmul a 11 = aes_xtime (aes_xtime (aes_xtime a)) XOR aes_xtime a XOR a"
  "aes_gmul a 13 = aes_xtime (aes_xtime (aes_xtime a)) XOR aes_xtime (aes_xtime a) XOR a"
  "aes_gmul a 14 = aes_xtime (aes_xtime (aes_xtime a)) XOR aes_xtime (aes_xtime a) XOR aes_xtime a"
proof -
  have p: "aes_gmul a 8 = aes_xtime (aes_xtime (aes_xtime a))" "aes_gmul a 4 = aes_xtime (aes_xtime a)"
    "aes_gmul a 2 = aes_xtime a"
    using aes_gmul_single [of 3 a] aes_gmul_single [of 2 a] aes_gmul_single [of 1 a]
    by (simp_all add: numeral_eq_Suc)
  have n: "(9 :: byte) = 8 XOR 1" "(11 :: byte) = 8 XOR (2 XOR 1)" "(13 :: byte) = 8 XOR (4 XOR 1)"
    "(14 :: byte) = 8 XOR (4 XOR 2)" by simp_all
  show "aes_gmul a 9 = aes_xtime (aes_xtime (aes_xtime a)) XOR a"
    "aes_gmul a 11 = aes_xtime (aes_xtime (aes_xtime a)) XOR aes_xtime a XOR a"
    "aes_gmul a 13 = aes_xtime (aes_xtime (aes_xtime a)) XOR aes_xtime (aes_xtime a) XOR a"
    "aes_gmul a 14 = aes_xtime (aes_xtime (aes_xtime a)) XOR aes_xtime (aes_xtime a) XOR aes_xtime a"
    unfolding n aes_gmul_add_right p by (simp_all add: xor.assoc)
qed

lemma xor_cancel_left: "a XOR (a XOR b) = (b :: 'a::len word)"
  by (simp flip: xor.assoc)

lemma inv_mix_column:
  fixes a0 a1 a2 a3 :: byte
  defines "b0 \<equiv> aes_xtime a0 XOR (aes_xtime a1 XOR a1) XOR a2 XOR a3"
    and "b1 \<equiv> a0 XOR aes_xtime a1 XOR (aes_xtime a2 XOR a2) XOR a3"
    and "b2 \<equiv> a0 XOR a1 XOR aes_xtime a2 XOR (aes_xtime a3 XOR a3)"
    and "b3 \<equiv> (aes_xtime a0 XOR a0) XOR a1 XOR a2 XOR aes_xtime a3"
  shows "aes_gmul b0 14 XOR aes_gmul b1 11 XOR aes_gmul b2 13 XOR aes_gmul b3 9 = a0"
    and "aes_gmul b0 9 XOR aes_gmul b1 14 XOR aes_gmul b2 11 XOR aes_gmul b3 13 = a1"
    and "aes_gmul b0 13 XOR aes_gmul b1 9 XOR aes_gmul b2 14 XOR aes_gmul b3 11 = a2"
    and "aes_gmul b0 11 XOR aes_gmul b1 13 XOR aes_gmul b2 9 XOR aes_gmul b3 14 = a3"
  unfolding b0_def b1_def b2_def b3_def aes_gmul_const aes_xtime_add
  by (simp_all only: xor.assoc xor.commute xor.left_commute xor_cancel_left xor_self_eq
      xor.left_neutral xor.right_neutral)

lemma inv_mix_columns_mix_columns: "length s = 16 \<Longrightarrow> inv_mix_columns (mix_columns s) = s"
  by (rule trans [OF _ state16 [symmetric]])
    (simp_all add: mix_columns_def inv_mix_columns_def upt4 Let_def inv_mix_column numeral_2_eq_2)

section \<open>Decryption inverts encryption\<close>

definition aes_round :: "AES_CONTEXT \<Rightarrow> nat \<Rightarrow> byte list \<Rightarrow> byte list" where
  "aes_round c r s = add_round_key (mix_columns (shift_rows (sub_bytes s))) (aes_round_key c r)"

definition aes_inv_round :: "AES_CONTEXT \<Rightarrow> nat \<Rightarrow> byte list \<Rightarrow> byte list" where
  "aes_inv_round c r s =
     inv_mix_columns (add_round_key (inv_sub_bytes (inv_shift_rows s)) (aes_round_key c (r - 1)))"

lemma aes_inv_round_round:
  "aes_inv_round c (Suc r) (shift_rows (sub_bytes (aes_round c r s))) = shift_rows (sub_bytes s)"
  by (simp add: aes_inv_round_def aes_round_def inv_shift_rows_shift_rows inv_sub_bytes_sub_bytes
      add_round_key_twice inv_mix_columns_mix_columns)

lemma aes_rounds_inverse:
  "fold (aes_inv_round c) (rev [2..<n + 2]) (shift_rows (sub_bytes (fold (aes_round c) [1..<n + 1] s))) =
    shift_rows (sub_bytes s)"
proof (induction n)
  case (Suc n)
  have "[1..<Suc n + 1] = [1..<n + 1] @ [n + 1]" "rev [2..<Suc n + 2] = (n + 2) # rev [2..<n + 2]"
    by simp_all
  with Suc show ?case
    using aes_inv_round_round [of c "n + 1" "fold (aes_round c) [1..<n + 1] s"] by simp
qed simp

lemma length_fold_round: "length s = 16 \<Longrightarrow> length (fold (aes_round c) rs s) = 16"
  by (induction rs arbitrary: s) (simp_all add: aes_round_def)

definition aes_encrypt_bytes :: "AES_CONTEXT \<Rightarrow> byte list \<Rightarrow> byte list" where
  "aes_encrypt_bytes c b = snd (crypto_aes_encrypt_block c b)"

definition aes_decrypt_bytes :: "AES_CONTEXT \<Rightarrow> byte list \<Rightarrow> byte list" where
  "aes_decrypt_bytes c b = snd (crypto_aes_decrypt_block c b)"

lemma aes_encrypt_block_valid:
  "aes_context_valid c \<Longrightarrow> crypto_aes_encrypt_block c b = (SUCCESS, aes_encrypt_bytes c b)"
  by (simp add: aes_encrypt_bytes_def crypto_aes_encrypt_block_def Let_def)

lemma aes_decrypt_block_valid:
  "aes_context_valid c \<Longrightarrow> crypto_aes_decrypt_block c b = (SUCCESS, aes_decrypt_bytes c b)"
  by (simp add: aes_decrypt_bytes_def crypto_aes_decrypt_block_def Let_def)

lemma aes_decrypt_encrypt:
  assumes "aes_context_valid c" and "length b = 16"
  shows "aes_decrypt_bytes c (aes_encrypt_bytes c b) = b"
proof -
  obtain n where n: "aes_ROUNDS c = n + 1" and "0 < n"
    using assms(1) that [of "aes_ROUNDS c - 1"] by (auto simp: aes_context_valid_def)
  define s0 where "s0 = add_round_key b (aes_round_key c 0)"
  define s where "s = fold (aes_round c) [1..<n + 1] s0"
  have enc: "aes_encrypt_bytes c b = add_round_key (shift_rows (sub_bytes s)) (aes_round_key c (n + 1))"
    using assms by (simp add: aes_encrypt_bytes_def crypto_aes_encrypt_block_def n s_def s0_def
        aes_round_def [abs_def])
  have "aes_decrypt_bytes c (aes_encrypt_bytes c b) =
      add_round_key (inv_sub_bytes (inv_shift_rows
        (fold (aes_inv_round c) (rev [2..<n + 2]) (shift_rows (sub_bytes s))))) (aes_round_key c 0)"
    using assms unfolding enc
    by (simp add: aes_decrypt_bytes_def crypto_aes_decrypt_block_def n add_round_key_twice
        aes_inv_round_def [abs_def])
  also have "\<dots> = b"
    unfolding s_def aes_rounds_inverse using assms(2)
    by (simp add: inv_shift_rows_shift_rows inv_sub_bytes_sub_bytes s0_def add_round_key_twice)
  finally show ?thesis .
qed

lemma length_aes_encrypt_bytes: "aes_context_valid c \<Longrightarrow> length (aes_encrypt_bytes c b) = 16"
  by (simp add: aes_encrypt_bytes_def crypto_aes_encrypt_block_def Let_def)

lemma length_aes_decrypt_bytes: "aes_context_valid c \<Longrightarrow> length (aes_decrypt_bytes c b) = 16"
  by (simp add: aes_decrypt_bytes_def crypto_aes_decrypt_block_def Let_def)

interpretation aes: block_cipher 16 aes_context_valid aes_encrypt_bytes aes_decrypt_bytes
  by unfold_locales
    (simp_all add: length_aes_encrypt_bytes length_aes_decrypt_bytes aes_decrypt_encrypt)

section \<open>The key schedule of FIPS 197\<close>

definition aes_sub_word :: "byte list \<Rightarrow> byte list" where
  "aes_sub_word w = map aes_sbox w"

definition aes_rot_word :: "byte list \<Rightarrow> byte list" where
  "aes_rot_word w = [w ! 1, w ! 2, w ! 3, w ! 0]"

definition aes_rcon :: "nat \<Rightarrow> byte list" where
  "aes_rcon k = [(aes_xtime ^^ (k - 1)) 1, 0, 0, 0]"

function aes_word :: "nat \<Rightarrow> byte list \<Rightarrow> nat \<Rightarrow> byte list" where
  "aes_word nk key i =
     (if i < nk \<or> nk = 0 then map (\<lambda>j. key ! (4 * i + j)) [0..<4]
      else let temp = aes_word nk key (i - 1);
               temp = (if i mod nk = 0 then xor_bytes (aes_sub_word (aes_rot_word temp)) (aes_rcon (i div nk))
                       else if nk > 6 \<and> i mod nk = 4 then aes_sub_word temp
                       else temp)
        in xor_bytes (aes_word nk key (i - nk)) temp)"
  by pat_completeness auto
termination
  by (relation "measure (\<lambda>(nk, key, i). i)") auto

declare aes_word.simps [simp del]

definition rk_word :: "byte list \<Rightarrow> nat \<Rightarrow> byte list" where
  "rk_word keys i = map (\<lambda>j. keys ! (4 * i + j)) [0..<4]"

lemma length_rk_word [simp]: "length (rk_word keys i) = 4"
  by (simp add: rk_word_def)

lemma fold_key_update:
  assumes "n \<le> kl" "kl \<le> b" "b + n \<le> length ks"
  shows "length (fold (\<lambda>i ks. ks[b + i := ks ! (b + i - kl) XOR t ! i]) [0..<n] ks) = length ks \<and>
    (\<forall>p < length ks. fold (\<lambda>i ks. ks[b + i := ks ! (b + i - kl) XOR t ! i]) [0..<n] ks ! p =
       (if b \<le> p \<and> p < b + n then ks ! (p - kl) XOR t ! (p - b) else ks ! p))"
  using assms
proof (induction n)
  case (Suc n)
  define ks' where "ks' = fold (\<lambda>i ks. ks[b + i := ks ! (b + i - kl) XOR t ! i]) [0..<n] ks"
  have IH: "length ks' = length ks"
    "\<And>p. p < length ks \<Longrightarrow> ks' ! p = (if b \<le> p \<and> p < b + n then ks ! (p - kl) XOR t ! (p - b) else ks ! p)"
    using Suc by (simp_all add: ks'_def)
  have "ks' ! (b + n - kl) = ks ! (b + n - kl)" using Suc.prems by (subst IH(2)) auto
  then show ?case using Suc.prems IH
    by (auto simp: nth_list_update simp flip: ks'_def)
qed auto

text \<open>One step of the loop computes the next word of the standard.\<close>

lemma schedule_temp_word:
  assumes nk: "nk \<in> {4, 6, 8}" and i: "nk \<le> i" and len: "length w = 4"
  shows "aes_schedule_temp (4 * nk) (4 * i) ((aes_xtime ^^ ((i - 1) div nk)) 1) w =
    (if i mod nk = 0 then xor_bytes (aes_sub_word (aes_rot_word w)) (aes_rcon (i div nk))
     else if nk > 6 \<and> i mod nk = 4 then aes_sub_word w else w,
     (aes_xtime ^^ (i div nk)) 1)"
proof -
  have mod4: "(4 * i) mod (4 * nk) = 4 * (i mod nk)" by simp
  have pos: "0 < nk" using nk by auto
  have sub: "map (\<lambda>j. aes_sbox (w ! j)) [0..<4] = aes_sub_word w"
    using len by (simp add: aes_sub_word_def list_eq_iff_nth_eq)
  show ?thesis
  proof (cases "i mod nk = 0")
    case True
    then obtain q where q: "i = nk * q" by (metis mult.commute mod_0_imp_dvd dvdE)
    then have "0 < q" using i pos by (cases q) auto
    then have "(i - 1) div nk = q - 1"
    proof -
      have "i - 1 = (nk - 1) + nk * (q - 1)"
        using pos \<open>0 < q\<close> unfolding q by (cases q) simp_all
      then show ?thesis using pos by (simp only: div_mult_self2) simp
    qed
    moreover have "i div nk = q" using pos by (simp add: q)
    moreover have "(aes_xtime ^^ q) 1 = aes_xtime ((aes_xtime ^^ (q - 1)) 1)"
      using \<open>0 < q\<close> by (cases q) simp_all
    ultimately show ?thesis
      using True len mod4
      by (simp add: aes_schedule_temp_def aes_sub_word_def aes_rot_word_def aes_rcon_def)
  next
    case False
    then have "(i - 1) div nk = i div nk"
      using pos by (metis Suc_pred' div_Suc gr0I mod_0)
    then show ?thesis
      using False nk sub by (auto simp: aes_schedule_temp_def mod4)
  qed
qed

lemma aes_expand_word:
  assumes nk: "nk \<in> {4, 6, 8}" and "nk \<le> i" "i \<le> tot" "4 * tot \<le> length ks"
    and "\<forall>j < i. rk_word ks j = aes_word nk key j"
  shows "\<forall>j < tot. rk_word (aes_expand (4 * nk) (4 * tot) ks (4 * i)
      ((aes_xtime ^^ ((i - 1) div nk)) 1)) j = aes_word nk key j"
  using assms(2-)
proof (induction "tot - i" arbitrary: i ks)
  case 0
  then show ?case by (subst aes_expand.simps) simp
next
  case (Suc d)
  then have less: "i < tot" by simp
  define w where "w = rk_word ks (i - 1)"
  define t where "t = (if i mod nk = 0 then xor_bytes (aes_sub_word (aes_rot_word w)) (aes_rcon (i div nk))
     else if nk > 6 \<and> i mod nk = 4 then aes_sub_word w else w)"
  define ks' where "ks' = fold (\<lambda>j ks. ks[4 * i + j := ks ! (4 * i + j - 4 * nk) XOR t ! j]) [0..<4] ks"
  have i: "0 < i" "4 \<le> 4 * nk" using Suc.prems nk by auto
  have temp: "map (\<lambda>j. ks ! (4 * i - 4 + j)) [0..<4] = w"
    using i by (simp add: w_def rk_word_def diff_mult_distrib2)
  have count: "min 4 (4 * tot - 4 * i) = 4" using less by simp
  have sched: "aes_schedule_temp (4 * nk) (4 * i) ((aes_xtime ^^ ((i - 1) div nk)) 1) w =
      (t, (aes_xtime ^^ (i div nk)) 1)"
    unfolding t_def using Suc.prems by (intro schedule_temp_word [OF nk]) (simp_all add: w_def)
  have step: "aes_expand (4 * nk) (4 * tot) ks (4 * i) ((aes_xtime ^^ ((i - 1) div nk)) 1) =
      aes_expand (4 * nk) (4 * tot) ks' (4 * Suc i) ((aes_xtime ^^ ((Suc i - 1) div nk)) 1)"
    using less by (subst aes_expand.simps) (simp only: temp sched Let_def prod.case count, simp add: ks'_def add.commute)
  have upd: "length ks' = length ks" "\<And>p. p < length ks \<Longrightarrow> ks' ! p =
      (if 4 * i \<le> p \<and> p < 4 * i + 4 then ks ! (p - 4 * nk) XOR t ! (p - 4 * i) else ks ! p)"
    using fold_key_update [of 4 "4 * nk" "4 * i" ks t] i Suc.prems less by (simp_all add: ks'_def)
  have words: "rk_word ks' j = aes_word nk key j" if "j < Suc i" for j
  proof (cases "j = i")
    case False
    then have "rk_word ks' j = rk_word ks j"
      using that less Suc.prems(1-3) by (auto simp: rk_word_def upd)
    then show ?thesis using False that Suc.prems by simp
  next
    case True
    have t_len: "length t = 4"
      by (simp add: t_def w_def aes_sub_word_def aes_rot_word_def aes_rcon_def)
    have "rk_word ks' i = xor_bytes (rk_word ks (i - nk)) t"
      using less Suc.prems t_len
      by (auto simp: rk_word_def upd list_eq_iff_nth_eq diff_mult_distrib2)
    moreover have "rk_word ks (i - nk) = aes_word nk key (i - nk)" and w: "w = aes_word nk key (i - 1)"
      using Suc.prems i nk by (auto simp: w_def)
    ultimately show ?thesis
      using True Suc.prems(1) nk by (subst aes_word.simps) (auto simp: Let_def t_def w)
  qed
  show ?case
    unfolding step using Suc words upd(1) less by (intro Suc.hyps) auto
qed

text \<open>What initialisation returns, on each argument.\<close>

lemma aes_key_parameters_Some:
  "aes_key_parameters n = Some (nk, nr) \<longleftrightarrow> n \<in> {16, 24, 32} \<and> nk = n div 4 \<and> nr = nk + 6"
  by (auto simp: aes_key_parameters_def)

lemma aes_key_parameters_None: "aes_key_parameters n = None \<longleftrightarrow> n \<notin> {16, 24, 32}"
  by (auto simp: aes_key_parameters_def)

lemma aes_context_init_SUCCESS:
  "fst (crypto_aes_context_init k n) = SUCCESS \<longleftrightarrow> k \<noteq> None \<and> n \<in> {16, 24, 32}"
  by (auto simp: crypto_aes_context_init_def aes_key_parameters_def Let_def split: option.splits)

lemma aes_context_init_valid:
  assumes "n \<in> {16, 24, 32}"
  shows "aes_context_valid (snd (crypto_aes_context_init (Some key) n))"
  using assms
  by (auto simp: crypto_aes_context_init_def aes_key_parameters_def aes_context_valid_def Let_def)

lemma rk_word_key:
  assumes "n \<in> {16, 24, 32}" "length key = n" "j < n div 4"
  shows "rk_word (copy_at (zeroes 240) 0 key) j = aes_word (n div 4) key j"
  using assms by (subst aes_word.simps) (auto simp: rk_word_def copy_at_def nth_append)

lemma aes_context_init_words:
  assumes "n \<in> {16, 24, 32}" "length key = n"
  shows "\<forall>j < 4 * (n div 4 + 7).
    rk_word (aes_ROUND_KEYS (snd (crypto_aes_context_init (Some key) n))) j = aes_word (n div 4) key j"
proof -
  define nk where "nk = n div 4"
  have nk: "nk \<in> {4, 6, 8}" "n = 4 * nk" using assms by (auto simp: nk_def)
  have keys: "aes_ROUND_KEYS (snd (crypto_aes_context_init (Some key) n)) =
      aes_expand (4 * nk) (4 * (4 * (nk + 7))) (copy_at (zeroes 240) 0 key) (4 * nk) 1"
    using assms by (auto simp: crypto_aes_context_init_def aes_key_parameters_def Let_def
        aes_cleared_def nk_def)
  have "\<forall>j < 4 * (nk + 7). rk_word (aes_expand (4 * nk) (4 * (4 * (nk + 7))) (copy_at (zeroes 240) 0 key) (4 * nk)
      ((aes_xtime ^^ ((nk - 1) div nk)) 1)) j = aes_word nk key j"
  proof (rule aes_expand_word [OF nk(1)])
    show "4 * (4 * (nk + 7)) \<le> length (copy_at (zeroes 240) 0 key)"
      using nk assms(2) by auto
    show "\<forall>j < nk. rk_word (copy_at (zeroes 240) 0 key) j = aes_word nk key j"
      using rk_word_key [OF assms] by (simp add: nk_def)
  qed (use nk in auto)
  moreover have "(nk - 1) div nk = 0" using nk by auto
  ultimately show ?thesis unfolding keys nk_def by simp
qed

end
