(* ===== verification/AES_Modes.thy ===== *)
theory AES_Modes
  imports AES Alg_Ids
begin

text \<open>
  The ECB, CBC and CTR entry points of \<^verbatim>\<open>src/BlockCipher/AES/aes.c\<close> on the memory: argument
  validation, context set-up and the mode loops. The properties give the bytes each mode
  writes and that decryption restores the message.
\<close>

section \<open>The mode loops\<close>

datatype CryptoAesMode = CRYPTO_AES_MODE_ECB | CRYPTO_AES_MODE_CBC | CRYPTO_AES_MODE_CTR

definition aes_ecb_encrypt :: "AES_CONTEXT \<Rightarrow> mem \<Rightarrow> addr \<Rightarrow> addr \<Rightarrow> nat \<Rightarrow> status \<times> mem" where
  "aes_ecb_encrypt context m output input input_length =
     block_loop 16 (\<lambda>s block. case crypto_aes_encrypt_block context block of (err, c) \<Rightarrow> (err, s, c))
       output input input_length m () 0"

definition aes_ecb_decrypt :: "AES_CONTEXT \<Rightarrow> mem \<Rightarrow> addr \<Rightarrow> addr \<Rightarrow> nat \<Rightarrow> status \<times> mem" where
  "aes_ecb_decrypt context m output input input_length =
     block_loop 16 (\<lambda>s block. case crypto_aes_decrypt_block context block of (err, c) \<Rightarrow> (err, s, c))
       output input input_length m () 0"

definition aes_cbc_encrypt ::
    "AES_CONTEXT \<Rightarrow> mem \<Rightarrow> addr \<Rightarrow> addr \<Rightarrow> nat \<Rightarrow> byte list \<Rightarrow> status \<times> mem" where
  "aes_cbc_encrypt context m output input input_length iv =
     block_loop 16 (\<lambda>chain input.
         case crypto_aes_encrypt_block context (xor_bytes input chain) of (err, c) \<Rightarrow> (err, c, c))
       output input input_length m iv 0"

definition aes_cbc_decrypt ::
    "AES_CONTEXT \<Rightarrow> mem \<Rightarrow> addr \<Rightarrow> addr \<Rightarrow> nat \<Rightarrow> byte list \<Rightarrow> status \<times> mem" where
  "aes_cbc_decrypt context m output input input_length iv =
     block_loop 16 (\<lambda>chain cipher_block.
         case crypto_aes_decrypt_block context cipher_block of
           (err, block) \<Rightarrow> (err, cipher_block, xor_bytes block chain))
       output input input_length m iv 0"

definition increment_counter128 :: "byte list \<Rightarrow> byte list" where
  "increment_counter128 counter = increment_be 16 15 counter"

definition aes_ctr_crypt ::
    "AES_CONTEXT \<Rightarrow> mem \<Rightarrow> addr \<Rightarrow> addr \<Rightarrow> nat \<Rightarrow> byte list \<Rightarrow> status \<times> mem" where
  "aes_ctr_crypt context m output input input_length initial_counter =
     stream_loop 16 (\<lambda>counter.
         case crypto_aes_encrypt_block context counter of
           (err, stream) \<Rightarrow> (err, increment_counter128 counter, stream))
       output input input_length m initial_counter 0"

section \<open>The entry points\<close>

definition aes_validate_request ::
    "addr \<Rightarrow> nat \<Rightarrow> addr \<Rightarrow> nat \<Rightarrow> addr \<Rightarrow> nat \<Rightarrow> addr \<Rightarrow> nat \<Rightarrow> nat \<Rightarrow> CryptoAesMode \<Rightarrow> status" where
  "aes_validate_request output output_capacity input input_length key key_length iv iv_length
       expected_key_length mode =
     (if key = 0 \<or> (input = 0 \<and> input_length \<noteq> 0) \<or> (output = 0 \<and> input_length \<noteq> 0)
      then INVALID_ARGUMENT
      else if key_length \<noteq> expected_key_length then INVALID_KEY
      else if expected_key_length \<noteq> 16 \<and> expected_key_length \<noteq> 24 \<and> expected_key_length \<noteq> 32
      then INVALID_KEY
      else if (case mode of
                 CRYPTO_AES_MODE_ECB \<Rightarrow> iv_length \<noteq> 0 \<or> input_length mod 16 \<noteq> 0
               | CRYPTO_AES_MODE_CBC \<Rightarrow> iv = 0 \<or> iv_length \<noteq> 16 \<or> input_length mod 16 \<noteq> 0
               | CRYPTO_AES_MODE_CTR \<Rightarrow> iv = 0 \<or> iv_length \<noteq> 16)
      then INVALID_ARGUMENT
      else if output_capacity < input_length then BUFFER_TOO_SMALL
      else SUCCESS)"

definition crypto_aes_encrypt ::
    "mem \<Rightarrow> addr \<Rightarrow> nat \<Rightarrow> addr \<Rightarrow> nat \<Rightarrow> addr \<Rightarrow> nat \<Rightarrow> addr \<Rightarrow> nat \<Rightarrow> nat \<Rightarrow> CryptoAesMode \<Rightarrow>
     status \<times> mem" where
  "crypto_aes_encrypt m output output_capacity input input_length key key_length iv iv_length
       expected_key_length mode =
     (let err = aes_validate_request output output_capacity input input_length key key_length
                  iv iv_length expected_key_length mode
      in if err \<noteq> SUCCESS then (err, m)
         else let (err, context) = crypto_aes_context_init (ptr m key key_length) key_length
           in if err \<noteq> SUCCESS then (err, m)
              else case mode of
                CRYPTO_AES_MODE_ECB \<Rightarrow> aes_ecb_encrypt context m output input input_length
              | CRYPTO_AES_MODE_CBC \<Rightarrow> aes_cbc_encrypt context m output input input_length (load m iv 16)
              | CRYPTO_AES_MODE_CTR \<Rightarrow> aes_ctr_crypt context m output input input_length (load m iv 16))"

definition crypto_aes_decrypt ::
    "mem \<Rightarrow> addr \<Rightarrow> nat \<Rightarrow> addr \<Rightarrow> nat \<Rightarrow> addr \<Rightarrow> nat \<Rightarrow> addr \<Rightarrow> nat \<Rightarrow> nat \<Rightarrow> CryptoAesMode \<Rightarrow>
     status \<times> mem" where
  "crypto_aes_decrypt m output output_capacity input input_length key key_length iv iv_length
       expected_key_length mode =
     (let err = aes_validate_request output output_capacity input input_length key key_length
                  iv iv_length expected_key_length mode
      in if err \<noteq> SUCCESS then (err, m)
         else let (err, context) = crypto_aes_context_init (ptr m key key_length) key_length
           in if err \<noteq> SUCCESS then (err, m)
              else case mode of
                CRYPTO_AES_MODE_ECB \<Rightarrow> aes_ecb_decrypt context m output input input_length
              | CRYPTO_AES_MODE_CBC \<Rightarrow> aes_cbc_decrypt context m output input input_length (load m iv 16)
              | CRYPTO_AES_MODE_CTR \<Rightarrow> aes_ctr_crypt context m output input input_length (load m iv 16))"

section \<open>What the loops compute\<close>

definition aes_key_context :: "mem \<Rightarrow> addr \<Rightarrow> nat \<Rightarrow> AES_CONTEXT" where
  "aes_key_context m key key_length = snd (crypto_aes_context_init (Some (load m key key_length)) key_length)"

definition aes_ctr_stream :: "AES_CONTEXT \<Rightarrow> byte list \<Rightarrow> nat \<Rightarrow> byte list" where
  "aes_ctr_stream c = stream_bytes 16 (\<lambda>counter. (increment_counter128 counter, aes_encrypt_bytes c counter))"

definition aes_mode_encrypt :: "CryptoAesMode \<Rightarrow> AES_CONTEXT \<Rightarrow> byte list \<Rightarrow> byte list \<Rightarrow> byte list" where
  "aes_mode_encrypt mode c iv xs =
     (case mode of
        CRYPTO_AES_MODE_ECB \<Rightarrow> transduce 16 (ecb_step (aes_encrypt_bytes c)) () xs
      | CRYPTO_AES_MODE_CBC \<Rightarrow> transduce 16 (cbc_enc_step (aes_encrypt_bytes c)) iv xs
      | CRYPTO_AES_MODE_CTR \<Rightarrow> xor_bytes xs (aes_ctr_stream c iv (length xs)))"

definition aes_mode_decrypt :: "CryptoAesMode \<Rightarrow> AES_CONTEXT \<Rightarrow> byte list \<Rightarrow> byte list \<Rightarrow> byte list" where
  "aes_mode_decrypt mode c iv xs =
     (case mode of
        CRYPTO_AES_MODE_ECB \<Rightarrow> transduce 16 (ecb_step (aes_decrypt_bytes c)) () xs
      | CRYPTO_AES_MODE_CBC \<Rightarrow> transduce 16 (cbc_dec_step (aes_decrypt_bytes c)) iv xs
      | CRYPTO_AES_MODE_CTR \<Rightarrow> xor_bytes xs (aes_ctr_stream c iv (length xs)))"

definition aes_mode_length_ok :: "CryptoAesMode \<Rightarrow> nat \<Rightarrow> bool" where
  "aes_mode_length_ok mode n \<longleftrightarrow> (case mode of CRYPTO_AES_MODE_CTR \<Rightarrow> True | _ \<Rightarrow> n mod 16 = 0)"

lemma length_aes_ctr_stream [simp]: "aes_context_valid c \<Longrightarrow> length (aes_ctr_stream c iv n) = n"
  unfolding aes_ctr_stream_def
  by (rule length_stream_bytes [where P = "\<lambda>_. True"]) (simp_all add: length_aes_encrypt_bytes)

lemma aes_mode_inverse:
  assumes "aes_context_valid c" "aes_mode_length_ok mode (length xs)" "length iv = 16"
  shows "aes_mode_decrypt mode c iv (aes_mode_encrypt mode c iv xs) = xs"
  using assms
  by (cases mode) (simp_all add: aes_mode_decrypt_def aes_mode_encrypt_def aes_mode_length_ok_def
      aes.ecb_inverse aes.cbc_inverse xor_bytes_cancel mod_0_imp_dvd)

lemma length_aes_mode_encrypt:
  assumes "aes_context_valid c" "aes_mode_length_ok mode (length xs)" "length iv = 16"
  shows "length (aes_mode_encrypt mode c iv xs) = length xs"
  using assms
  by (cases mode) (simp_all add: aes_mode_encrypt_def aes_mode_length_ok_def
      aes.length_ecb aes.length_cbc mod_0_imp_dvd)

lemma aes_ecb_loop:
  assumes "aes_context_valid c" "out = inp \<or> disjoint out n inp n" "16 dvd n"
  shows "aes_ecb_encrypt c m out inp n =
      (SUCCESS, store m out (transduce 16 (ecb_step (aes_encrypt_bytes c)) () (load m inp n)))"
    and "aes_ecb_decrypt c m out inp n =
      (SUCCESS, store m out (transduce 16 (ecb_step (aes_decrypt_bytes c)) () (load m inp n)))"
  unfolding aes_ecb_encrypt_def aes_ecb_decrypt_def using assms
  by (subst block_loop_correct [where P = "\<lambda>_. True"];
      force simp: ecb_step_def aes_encrypt_block_valid aes_decrypt_block_valid
        length_aes_encrypt_bytes length_aes_decrypt_bytes)+

lemma aes_cbc_loop:
  assumes "aes_context_valid c" "out = inp \<or> disjoint out n inp n" "16 dvd n" "length iv = 16"
  shows "aes_cbc_encrypt c m out inp n iv =
      (SUCCESS, store m out (transduce 16 (cbc_enc_step (aes_encrypt_bytes c)) iv (load m inp n)))"
    and "aes_cbc_decrypt c m out inp n iv =
      (SUCCESS, store m out (transduce 16 (cbc_dec_step (aes_decrypt_bytes c)) iv (load m inp n)))"
  unfolding aes_cbc_encrypt_def aes_cbc_decrypt_def using assms
  by (subst block_loop_correct [where P = "\<lambda>s. length s = 16"];
      force simp: cbc_enc_step_def cbc_dec_step_def Let_def aes_encrypt_block_valid
        aes_decrypt_block_valid length_aes_encrypt_bytes length_aes_decrypt_bytes)+

lemma aes_ctr_loop:
  assumes "aes_context_valid c" "out = inp \<or> disjoint out n inp n"
  shows "aes_ctr_crypt c m out inp n iv =
      (SUCCESS, store m out (xor_bytes (load m inp n) (aes_ctr_stream c iv n)))"
  unfolding aes_ctr_crypt_def aes_ctr_stream_def using assms
  by (subst stream_loop_correct [where P = "\<lambda>_. True"])
    (auto simp: aes_encrypt_block_valid length_aes_encrypt_bytes)

section \<open>Properties\<close>

lemma aes_validate_SUCCESS:
  "aes_validate_request out cap inp n key kl iv ivl ekl mode = SUCCESS \<longleftrightarrow>
     key \<noteq> 0 \<and> \<not> (n \<noteq> 0 \<and> (inp = 0 \<or> out = 0)) \<and> kl = ekl \<and> ekl \<in> {16, 24, 32} \<and>
     aes_mode_length_ok mode n \<and>
     (if mode = CRYPTO_AES_MODE_ECB then ivl = 0 else iv \<noteq> 0 \<and> ivl = 16) \<and> n \<le> cap"
  by (cases mode) (auto simp: aes_validate_request_def aes_mode_length_ok_def)

lemma aes_validate_context:
  assumes "aes_validate_request out cap inp n key kl iv ivl ekl mode = SUCCESS"
  shows "crypto_aes_context_init (ptr m key kl) kl = (SUCCESS, aes_key_context m key kl)"
    and "aes_context_valid (aes_key_context m key kl)"
proof -
  have k: "key \<noteq> 0" "kl \<in> {16, 24, 32}" using assms unfolding aes_validate_SUCCESS by auto
  then show "crypto_aes_context_init (ptr m key kl) kl = (SUCCESS, aes_key_context m key kl)"
    using aes_context_init_SUCCESS [of "ptr m key kl" kl]
    by (simp add: ptr_def aes_key_context_def prod_eq_iff)
  show "aes_context_valid (aes_key_context m key kl)"
    unfolding aes_key_context_def using k(2) by (rule aes_context_init_valid)
qed

lemma crypto_aes_encrypt_eq:
  assumes "out = inp \<or> disjoint out n inp n"
    and ok: "aes_validate_request out cap inp n key kl iv ivl ekl mode = SUCCESS"
  shows "crypto_aes_encrypt m out cap inp n key kl iv ivl ekl mode =
    (SUCCESS, store m out (aes_mode_encrypt mode (aes_key_context m key kl) (load m iv 16) (load m inp n)))"
  using assms aes_validate_context [OF ok, of m] ok [unfolded aes_validate_SUCCESS]
  by (cases mode) (simp_all add: crypto_aes_encrypt_def aes_mode_encrypt_def aes_ecb_loop aes_cbc_loop
      aes_ctr_loop aes_mode_length_ok_def mod_0_imp_dvd)

lemma crypto_aes_decrypt_eq:
  assumes "out = inp \<or> disjoint out n inp n"
    and ok: "aes_validate_request out cap inp n key kl iv ivl ekl mode = SUCCESS"
  shows "crypto_aes_decrypt m out cap inp n key kl iv ivl ekl mode =
    (SUCCESS, store m out (aes_mode_decrypt mode (aes_key_context m key kl) (load m iv 16) (load m inp n)))"
  using assms aes_validate_context [OF ok, of m] ok [unfolded aes_validate_SUCCESS]
  by (cases mode) (simp_all add: crypto_aes_decrypt_def aes_mode_decrypt_def aes_ecb_loop aes_cbc_loop
      aes_ctr_loop aes_mode_length_ok_def mod_0_imp_dvd)

lemma crypto_aes_error:
  assumes "aes_validate_request out cap inp n key kl iv ivl ekl mode = err" and "err \<noteq> SUCCESS"
  shows "crypto_aes_encrypt m out cap inp n key kl iv ivl ekl mode = (err, m)"
    and "crypto_aes_decrypt m out cap inp n key kl iv ivl ekl mode = (err, m)"
  using assms by (simp_all add: crypto_aes_encrypt_def crypto_aes_decrypt_def)

lemma crypto_aes_encrypt_status:
  assumes "out = inp \<or> disjoint out n inp n"
  shows "fst (crypto_aes_encrypt m out cap inp n key kl iv ivl ekl mode) =
    aes_validate_request out cap inp n key kl iv ivl ekl mode"
  using crypto_aes_encrypt_eq [OF assms] crypto_aes_error(1)
  by (cases "aes_validate_request out cap inp n key kl iv ivl ekl mode = SUCCESS") auto

text \<open>Decrypting, in place, what an encryption wrote.\<close>

lemma aes_decrypt_after_encrypt:
  assumes io: "out = inp \<or> disjoint out n inp n"
    and ok: "fst (crypto_aes_encrypt m out cap inp n key kl iv ivl ekl mode) = SUCCESS"
    and key: "disjoint out n key kl" and iv: "disjoint out n iv ivl"
    and m': "m' = snd (crypto_aes_encrypt m out cap inp n key kl iv ivl ekl mode)"
  shows "fst (crypto_aes_decrypt m' out cap out n key kl iv ivl ekl mode) = SUCCESS \<and>
    load (snd (crypto_aes_decrypt m' out cap out n key kl iv ivl ekl mode)) out n = load m inp n"
proof -
  have valid: "aes_validate_request out cap inp n key kl iv ivl ekl mode = SUCCESS"
    using ok by (simp add: crypto_aes_encrypt_status [OF io])
  have valid': "aes_validate_request out cap out n key kl iv ivl ekl mode = SUCCESS"
    using valid unfolding aes_validate_SUCCESS by auto
  define c x where "c = aes_key_context m key kl" and
    "x = aes_mode_encrypt mode c (load m iv 16) (load m inp n)"
  have c: "aes_context_valid c" unfolding c_def by (rule aes_validate_context [OF valid])
  have mode: "aes_mode_length_ok mode n" using valid unfolding aes_validate_SUCCESS by simp
  have len: "length x = n" unfolding x_def using c mode by (simp add: length_aes_mode_encrypt)
  have m'_eq: "m' = store m out x"
    by (simp add: m' crypto_aes_encrypt_eq [OF io valid] x_def c_def)
  have "aes_key_context m' key kl = c"
    using key len by (simp add: m'_eq aes_key_context_def c_def load_store_disjoint)
  moreover have "load m' out n = x" using load_store_same [of m out x] by (simp add: m'_eq len)
  moreover have "load m' iv 16 = load m iv 16" if "mode \<noteq> CRYPTO_AES_MODE_ECB"
    using that valid iv len unfolding aes_validate_SUCCESS by (simp add: m'_eq load_store_disjoint)
  moreover have "aes_mode_decrypt mode c (load m' iv 16) x = load m inp n"
  proof (cases "mode = CRYPTO_AES_MODE_ECB")
    case True
    then show ?thesis
      using aes_mode_inverse [OF c, of mode "load m inp n" "load m iv 16"] mode
      by (simp add: x_def aes_mode_decrypt_def)
  next
    case False
    then show ?thesis
      using calculation(3) aes_mode_inverse [OF c, of mode "load m inp n" "load m iv 16"] mode
      by (simp add: x_def)
  qed
  ultimately show ?thesis
    using crypto_aes_decrypt_eq [OF _ valid', of m'] load_store_same [of m' out "load m inp n"] by simp
qed

text \<open>
  On one block, decryption with a context inverts encryption with it, for every context
  the initialiser can produce: the table-free S-boxes are inverse to each other, and so are
  the row shifts, the column mixes and the key additions.
\<close>

theorem aes_block_roundtrip:
  assumes "fst (crypto_aes_context_init k n) = SUCCESS" and "c = snd (crypto_aes_context_init k n)"
    and "length block = 16"
  shows "crypto_aes_decrypt_block c (snd (crypto_aes_encrypt_block c block)) = (SUCCESS, block)"
proof -
  obtain key where "k = Some key" "n \<in> {16, 24, 32}"
    using assms(1) unfolding aes_context_init_SUCCESS by auto
  then have "aes_context_valid c" unfolding assms(2) by (simp only: aes_context_init_valid)
  then show ?thesis
    using aes_decrypt_encrypt [OF _ assms(3)]
    by (simp add: aes_encrypt_block_valid aes_decrypt_block_valid)
qed

theorem aes_block_roundtrip_witness:
  "let c = snd (crypto_aes_context_init (Some (zeroes 24)) 24)
   in crypto_aes_decrypt_block c (snd (crypto_aes_encrypt_block c (zeroes 16))) = (SUCCESS, zeroes 16)"
  unfolding Let_def
  by (rule aes_block_roundtrip [of "Some (zeroes 24)" 24]) (simp_all add: aes_context_init_SUCCESS)

text \<open>
  C5. For keys of 16, 24 and 32 bytes the in-place byte-wise expansion loop leaves in the
  context exactly the words of the key schedule of FIPS 197 (Nk words of key, then the
  recurrence with RotWord, SubWord and Rcon), for all rounds.
\<close>

theorem aes_key_schedule_correct:
  assumes "n \<in> {16, 24, 32}" and "length key = n" and "c = snd (crypto_aes_context_init (Some key) n)"
    and "i < 4 * (aes_ROUNDS c + 1)"
  shows "rk_word (aes_ROUND_KEYS c) i = aes_word (n div 4) key i"
proof -
  have "aes_ROUNDS c + 1 = n div 4 + 7"
    using assms(1,3) by (auto simp: crypto_aes_context_init_def aes_key_parameters_def Let_def)
  then show ?thesis using aes_context_init_words [OF assms(1,2)] assms(3,4) by auto
qed

theorem aes_key_schedule_correct_witness:
  "rk_word (aes_ROUND_KEYS (snd (crypto_aes_context_init (Some (zeroes 32)) 32))) 59 =
     aes_word 8 (zeroes 32) 59"
  using aes_key_schedule_correct [of 32 "zeroes 32" _ 59]
  by (simp add: crypto_aes_context_init_def aes_key_parameters_def Let_def)

text \<open>
  After a successful AES encryption in any mode, separate or in place, decrypting the
  output in place with the same key and IV succeeds and restores the message, provided the
  output range did not cover the key or the IV (the functions do not check that).
\<close>

theorem aes_modes_roundtrip:
  assumes "out = inp \<or> disjoint out n inp n"
    and "fst (crypto_aes_encrypt m out cap inp n key kl iv ivl ekl mode) = SUCCESS"
    and "disjoint out n key kl" and "disjoint out n iv ivl"
    and "m' = snd (crypto_aes_encrypt m out cap inp n key kl iv ivl ekl mode)"
  shows "fst (crypto_aes_decrypt m' out cap out n key kl iv ivl ekl mode) = SUCCESS \<and>
    load (snd (crypto_aes_decrypt m' out cap out n key kl iv ivl ekl mode)) out n = load m inp n"
  using assms by (rule aes_decrypt_after_encrypt)

theorem aes_modes_roundtrip_witness:
  "let m = (\<lambda>a. of_nat a);
       m' = snd (crypto_aes_encrypt m 1000 32 400 32 64 16 128 16 16 CRYPTO_AES_MODE_CBC)
   in load (snd (crypto_aes_decrypt m' 1000 32 1000 32 64 16 128 16 16 CRYPTO_AES_MODE_CBC)) 1000 32 =
      load m 400 32"
  unfolding Let_def
  by (rule aes_modes_roundtrip [OF _ _ _ _ refl, THEN conjunct2])
    (simp_all add: disjoint_def crypto_aes_encrypt_status aes_validate_SUCCESS aes_mode_length_ok_def)



end
