(* ===== verification/AES_AEAD.thy ===== *)
theory AES_AEAD
  imports AES_Modes
begin

text \<open>
  AES-GCM and AES-CCM of \<^verbatim>\<open>src/BlockCipher/AES/aes_aead.c\<close>. Blocks, hash states and tags are
  byte lists, message buffers are ranges of the memory. The functions are private: the AEAD
  dispatcher calls them with non-null pointers where a length is positive and with an output
  range that meets neither key, nonce, associated data nor tag; the nonce is therefore read
  once. The lemmas show that the bit-serial byte-array multiplication is the 128-bit
  multiplication of SP 800-38D, what encryption writes, and when decryption accepts.
\<close>

section \<open>GHASH\<close>

definition xor_block :: "byte list \<Rightarrow> byte list \<Rightarrow> byte list" where
  "xor_block a b = map (\<lambda>i. a ! i XOR b ! i) [0..<16]"

definition gcm_shift_right_one :: "byte list \<Rightarrow> byte list" where
  "gcm_shift_right_one v =
     map (\<lambda>i. drop_bit 1 (v ! i) OR push_bit 7 (if i = 0 then 0 else v ! (i - 1) AND 1)) [0..<16]"

definition gcm_multiply_step ::
    "byte list \<Rightarrow> nat \<Rightarrow> byte list \<times> byte list \<Rightarrow> byte list \<times> byte list" where
  "gcm_multiply_step x i zv =
     (case zv of (z, v) \<Rightarrow>
        let mask = 0 - (drop_bit (7 - i mod 8) (x ! (i div 8)) AND 1);
            lsb = v ! 15 AND 1;
            z = map (\<lambda>i. z ! i XOR (v ! i AND mask)) [0..<16];
            v = gcm_shift_right_one v;
            v = v[0 := v ! 0 XOR (0xe1 AND (0 - lsb))]
        in (z, v))"

definition gcm_multiply :: "byte list \<Rightarrow> byte list \<Rightarrow> byte list" where
  "gcm_multiply x h = fst (fold (gcm_multiply_step x) [0..<128] (zeroes 16, h))"

definition ghash_block :: "byte list \<Rightarrow> byte list \<Rightarrow> byte list \<Rightarrow> byte list" where
  "ghash_block h y block = gcm_multiply (xor_block y block) h"

definition ghash_bytes :: "byte list \<Rightarrow> byte list \<Rightarrow> byte list \<Rightarrow> byte list" where
  "ghash_bytes h y data =
     (let y = absorb 16 (ghash_block h) y data;
          rest = leftover 16 data
      in if length rest \<noteq> 0 then ghash_block h y (copy_at (zeroes 16) 0 rest) else y)"

section \<open>GCM\<close>

definition gcm_inc32 :: "byte list \<Rightarrow> byte list" where
  "gcm_inc32 counter = increment_be 4 15 counter"

definition gcm_make_j0 :: "byte list \<Rightarrow> byte list \<Rightarrow> status \<times> byte list" where
  "gcm_make_j0 h iv =
     (if length iv = 12 then (SUCCESS, iv @ [0, 0, 0, 1])
      else if (2 ^ 64 - 1) div 8 < length iv then (MESSAGE_TOO_LARGE, zeroes 16)
      else let j0 = ghash_bytes h (zeroes 16) iv;
               lengths = zeroes 8 @ crypto_store64_be (of_nat (length iv) * 8)
        in (SUCCESS, ghash_block h j0 lengths))"

definition gcm_tag ::
    "AES_CONTEXT \<Rightarrow> byte list \<Rightarrow> byte list \<Rightarrow> byte list \<Rightarrow> byte list \<Rightarrow> status \<times> byte list" where
  "gcm_tag ctx h j0 aad ciphertext =
     (if (2 ^ 64 - 1) div 8 < length aad \<or> (2 ^ 64 - 1) div 8 < length ciphertext
      then (MESSAGE_TOO_LARGE, zeroes 16)
      else let y = ghash_bytes h (zeroes 16) aad;
               y = ghash_bytes h y ciphertext;
               lengths = crypto_store64_be (of_nat (length aad) * 8) @
                         crypto_store64_be (of_nat (length ciphertext) * 8);
               y = ghash_block h y lengths
        in case crypto_aes_encrypt_block ctx j0 of (err, s) \<Rightarrow>
             if err = SUCCESS then (SUCCESS, xor_block s y) else (INTERNAL, zeroes 16))"

definition gcm_ctr ::
    "AES_CONTEXT \<Rightarrow> mem \<Rightarrow> byte list \<Rightarrow> addr \<Rightarrow> nat \<Rightarrow> addr \<Rightarrow> status \<times> mem" where
  "gcm_ctr ctx m j0 input len output =
     stream_loop 16 (\<lambda>counter.
         let counter = gcm_inc32 counter
         in case crypto_aes_encrypt_block ctx counter of
              (err, stream) \<Rightarrow> (if err \<noteq> SUCCESS then INTERNAL else SUCCESS, counter, stream))
       output input len m j0 0"

definition gcm_tag_length_valid :: "nat \<Rightarrow> bool" where
  "gcm_tag_length_valid tag_length \<longleftrightarrow> tag_length \<in> {4, 8, 12, 13, 14, 15, 16}"

definition gcm_validate_lengths :: "nat \<Rightarrow> nat \<Rightarrow> nat \<Rightarrow> nat \<Rightarrow> status" where
  "gcm_validate_lengths iv_length aad_length message_length tag_length =
     (let max_bit_string_bytes = (2 ^ 64 - 1) div 8;
          max_gctr_bytes = 0xfffffffe * 16
      in if \<not> gcm_tag_length_valid tag_length then INVALID_ARGUMENT
         else if max_bit_string_bytes < iv_length \<or> max_bit_string_bytes < aad_length \<or>
                 max_bit_string_bytes < message_length \<or> max_gctr_bytes < message_length
         then MESSAGE_TOO_LARGE else SUCCESS)"

definition gcm_arguments ::
    "addr \<Rightarrow> addr \<Rightarrow> nat \<Rightarrow> addr \<Rightarrow> nat \<Rightarrow> addr \<Rightarrow> nat \<Rightarrow> addr \<Rightarrow> nat \<Rightarrow> status" where
  "gcm_arguments output tag tag_length input input_length iv iv_length aad aad_length =
     (if iv = 0 \<or> tag = 0 \<or> (aad = 0 \<and> aad_length \<noteq> 0) \<or> (input = 0 \<and> input_length \<noteq> 0) \<or>
         (output = 0 \<and> input_length \<noteq> 0) then INVALID_ARGUMENT
      else if iv_length = 0 then INVALID_ARGUMENT
      else gcm_validate_lengths iv_length aad_length input_length tag_length)"

definition crypto_aes_gcm_encrypt ::
    "AES_CONTEXT \<Rightarrow> mem \<Rightarrow> addr \<Rightarrow> addr \<Rightarrow> nat \<Rightarrow> addr \<Rightarrow> nat \<Rightarrow> addr \<Rightarrow> nat \<Rightarrow> addr \<Rightarrow> nat \<Rightarrow>
     status \<times> mem" where
  "crypto_aes_gcm_encrypt context m output tag tag_length input input_length iv iv_length aad aad_length =
     (let err = gcm_arguments output tag tag_length input input_length iv iv_length aad aad_length
      in if err \<noteq> SUCCESS then (err, m)
         else let (err, h) = crypto_aes_encrypt_block context (zeroes 16);
                  (err, j0) = (if err = SUCCESS then gcm_make_j0 h (load m iv iv_length)
                               else (err, zeroes 16));
                  (err, m) = (if err = SUCCESS then gcm_ctr context m j0 input input_length output
                              else (err, m));
                  (err, full_tag) = (if err = SUCCESS
                     then gcm_tag context h j0 (load m aad aad_length) (load m output input_length)
                     else (err, zeroes 16));
                  m = (if err = SUCCESS then store m tag (take tag_length full_tag) else m)
           in (err, m))"

definition crypto_aes_gcm_decrypt ::
    "AES_CONTEXT \<Rightarrow> mem \<Rightarrow> addr \<Rightarrow> addr \<Rightarrow> nat \<Rightarrow> addr \<Rightarrow> nat \<Rightarrow> addr \<Rightarrow> nat \<Rightarrow> addr \<Rightarrow> nat \<Rightarrow>
     status \<times> mem" where
  "crypto_aes_gcm_decrypt context m output tag tag_length input input_length iv iv_length aad aad_length =
     (let err = gcm_arguments output tag tag_length input input_length iv iv_length aad aad_length
      in if err \<noteq> SUCCESS then (err, m)
         else let (err, h) = crypto_aes_encrypt_block context (zeroes 16);
                  (err, j0) = (if err = SUCCESS then gcm_make_j0 h (load m iv iv_length)
                               else (err, zeroes 16));
                  (err, full_tag) = (if err = SUCCESS
                     then gcm_tag context h j0 (load m aad aad_length) (load m input input_length)
                     else (err, zeroes 16));
                  err = (if err = SUCCESS \<and>
                            \<not> crypto_constant_time_equal full_tag (load m tag tag_length) tag_length
                         then AUTHENTICATION_FAILED else err);
                  (err, m) = (if err = SUCCESS then gcm_ctr context m j0 input input_length output
                              else (err, m));
                  m = (if err \<noteq> SUCCESS \<and> output \<noteq> 0 \<and> input_length \<noteq> 0
                       then crypto_zeroize m output input_length else m)
           in (err, m))"

section \<open>CCM\<close>

definition ccm_encode_length :: "nat \<Rightarrow> nat \<Rightarrow> byte list" where
  "ccm_encode_length q v = rev (le_of_nat q v)"

definition ccm_length_fits :: "nat \<Rightarrow> nat \<Rightarrow> bool" where
  "ccm_length_fits q len = (if 8 \<le> q then True else len \<le> 2 ^ (8 * q) - 1)"

definition ccm_mac_block :: "AES_CONTEXT \<Rightarrow> byte list \<Rightarrow> byte list \<Rightarrow> status \<times> byte list" where
  "ccm_mac_block ctx state block =
     (case crypto_aes_encrypt_block ctx (xor_block state block) of
        (err, out) \<Rightarrow> if err \<noteq> SUCCESS then (INTERNAL, state) else (SUCCESS, out))"

function ccm_mac_bytes :: "AES_CONTEXT \<Rightarrow> byte list \<Rightarrow> byte list \<Rightarrow> status \<times> byte list" where
  "ccm_mac_bytes ctx state data =
     (if 16 \<le> length data then
        (case ccm_mac_block ctx state (take 16 data) of
           (err, state) \<Rightarrow> if err \<noteq> SUCCESS then (err, state)
                           else ccm_mac_bytes ctx state (drop 16 data))
      else if length data \<noteq> 0 then ccm_mac_block ctx state (copy_at (zeroes 16) 0 data)
      else (SUCCESS, state))"
  by pat_completeness auto
termination
  by (relation "measure (\<lambda>(ctx, state, data). length data)") auto

declare ccm_mac_bytes.simps [simp del]

definition ccm_aad_prefix :: "nat \<Rightarrow> byte list" where
  "ccm_aad_prefix aad_length =
     (if aad_length < 0xff00 then crypto_store16_be (of_nat aad_length)
      else if aad_length \<le> 2 ^ 32 - 1 then [0xff, 0xfe] @ crypto_store32_be (of_nat aad_length)
      else [0xff, 0xff] @ crypto_store64_be (of_nat aad_length))"

definition ccm_mac_aad :: "AES_CONTEXT \<Rightarrow> byte list \<Rightarrow> byte list \<Rightarrow> status \<times> byte list" where
  "ccm_mac_aad ctx state aad =
     (if length aad = 0 then (SUCCESS, state)
      else let prefix = ccm_aad_prefix (length aad);
               chunk = min (16 - length prefix) (length aad);
               block = copy_at (copy_at (zeroes 16) 0 prefix) (length prefix) (take chunk aad)
        in case ccm_mac_block ctx state block of
             (err, state) \<Rightarrow> if err \<noteq> SUCCESS then (err, state)
                             else ccm_mac_bytes ctx state (drop chunk aad))"

definition ccm_compute_mac ::
    "AES_CONTEXT \<Rightarrow> byte list \<Rightarrow> byte list \<Rightarrow> byte list \<Rightarrow> nat \<Rightarrow> status \<times> byte list" where
  "ccm_compute_mac ctx nonce aad plaintext tag_length =
     (let q = 15 - length nonce;
          flags = (if length aad \<noteq> 0 then 0x40 else 0 :: byte) OR
                  push_bit 3 (of_nat ((tag_length - 2) div 2)) OR of_nat (q - 1);
          b0 = [flags] @ nonce @ ccm_encode_length q (length plaintext);
          (err, mac) = ccm_mac_block ctx (zeroes 16) b0;
          (err, mac) = (if err = SUCCESS then ccm_mac_aad ctx mac aad else (err, mac))
      in if err = SUCCESS then ccm_mac_bytes ctx mac plaintext else (err, mac))"

definition ccm_counter_block :: "byte list \<Rightarrow> nat \<Rightarrow> byte list" where
  "ccm_counter_block nonce v =
     (let q = 15 - length nonce in [of_nat (q - 1)] @ nonce @ ccm_encode_length q v)"

definition ccm_ctr ::
    "AES_CONTEXT \<Rightarrow> mem \<Rightarrow> byte list \<Rightarrow> addr \<Rightarrow> nat \<Rightarrow> addr \<Rightarrow> status \<times> mem" where
  "ccm_ctr ctx m nonce input len output =
     stream_loop 16 (\<lambda>block_index.
         case crypto_aes_encrypt_block ctx (ccm_counter_block nonce block_index) of
           (err, stream) \<Rightarrow> (if err \<noteq> SUCCESS then INTERNAL else SUCCESS, block_index + 1, stream))
       output input len m 1 0"

definition ccm_validate :: "addr \<Rightarrow> nat \<Rightarrow> nat \<Rightarrow> nat \<Rightarrow> status" where
  "ccm_validate nonce nonce_length message_length tag_length =
     (if nonce = 0 \<or> nonce_length < 7 \<or> 13 < nonce_length then INVALID_ARGUMENT
      else if tag_length < 4 \<or> 16 < tag_length \<or> odd tag_length then INVALID_ARGUMENT
      else if \<not> ccm_length_fits (15 - nonce_length) message_length then MESSAGE_TOO_LARGE
      else SUCCESS)"

definition ccm_arguments ::
    "addr \<Rightarrow> addr \<Rightarrow> nat \<Rightarrow> addr \<Rightarrow> nat \<Rightarrow> addr \<Rightarrow> nat \<Rightarrow> addr \<Rightarrow> nat \<Rightarrow> status" where
  "ccm_arguments output tag tag_length input input_length nonce nonce_length aad aad_length =
     (if (aad = 0 \<and> aad_length \<noteq> 0) \<or> (input = 0 \<and> input_length \<noteq> 0) \<or>
         (output = 0 \<and> input_length \<noteq> 0) \<or> tag = 0 then INVALID_ARGUMENT
      else ccm_validate nonce nonce_length input_length tag_length)"

definition crypto_aes_ccm_encrypt ::
    "AES_CONTEXT \<Rightarrow> mem \<Rightarrow> addr \<Rightarrow> addr \<Rightarrow> nat \<Rightarrow> addr \<Rightarrow> nat \<Rightarrow> addr \<Rightarrow> nat \<Rightarrow> addr \<Rightarrow> nat \<Rightarrow>
     status \<times> mem" where
  "crypto_aes_ccm_encrypt context m output tag tag_length input input_length nonce nonce_length aad aad_length =
     (let err = ccm_arguments output tag tag_length input input_length nonce nonce_length aad aad_length
      in if err \<noteq> SUCCESS then (err, m)
         else let n = load m nonce nonce_length;
                  (err, mac) = ccm_compute_mac context n (load m aad aad_length)
                                 (load m input input_length) tag_length;
                  (err, m) = (if err = SUCCESS then ccm_ctr context m n input input_length output
                              else (err, m));
                  ctr0 = ccm_counter_block n 0;
                  (err, s0) = (if err = SUCCESS then crypto_aes_encrypt_block context ctr0 else (err, []));
                  m = (if err = SUCCESS then store m tag (take tag_length (xor_block mac s0)) else m)
           in (err, m))"

definition crypto_aes_ccm_decrypt ::
    "AES_CONTEXT \<Rightarrow> mem \<Rightarrow> addr \<Rightarrow> addr \<Rightarrow> nat \<Rightarrow> addr \<Rightarrow> nat \<Rightarrow> addr \<Rightarrow> nat \<Rightarrow> addr \<Rightarrow> nat \<Rightarrow>
     status \<times> mem" where
  "crypto_aes_ccm_decrypt context m output tag tag_length input input_length nonce nonce_length aad aad_length =
     (let err = ccm_arguments output tag tag_length input input_length nonce nonce_length aad aad_length
      in if err \<noteq> SUCCESS then (err, m)
         else let n = load m nonce nonce_length;
                  (err, m) = ccm_ctr context m n input input_length output;
                  (err, mac) = (if err = SUCCESS
                     then ccm_compute_mac context n (load m aad aad_length)
                            (load m output input_length) tag_length
                     else (err, []));
                  ctr0 = ccm_counter_block n 0;
                  (err, s0) = (if err = SUCCESS then crypto_aes_encrypt_block context ctr0 else (err, []));
                  expected = take tag_length (xor_block mac s0);
                  err = (if err = SUCCESS \<and>
                            \<not> crypto_constant_time_equal expected (load m tag tag_length) tag_length
                         then AUTHENTICATION_FAILED else err);
                  m = (if err \<noteq> SUCCESS \<and> output \<noteq> 0 \<and> input_length \<noteq> 0
                       then crypto_zeroize m output input_length else m)
           in (err, m))"

section \<open>Authenticated encryption as an interface\<close>

text \<open>
  What the dispatcher relies on: sealing keeps the length, and a ciphertext with its tag opens
  exactly to the message whose sealing produced them.
\<close>

locale aead_scheme =
  fixes valid :: "'k \<Rightarrow> nat \<Rightarrow> bool"
    and seal :: "'k \<Rightarrow> byte list \<Rightarrow> byte list \<Rightarrow> nat \<Rightarrow> byte list \<Rightarrow> byte list \<times> byte list"
    and unseal :: "'k \<Rightarrow> byte list \<Rightarrow> byte list \<Rightarrow> nat \<Rightarrow> byte list \<Rightarrow> byte list \<Rightarrow> byte list option"
  assumes length_seal: "valid k t \<Longrightarrow> length (fst (seal k n a t p)) = length p"
    and length_tag: "valid k t \<Longrightarrow> length (snd (seal k n a t p)) = t"
    and unseal_iff: "valid k t \<Longrightarrow> length T = t \<Longrightarrow>
      unseal k n a t c T = Some p \<longleftrightarrow> seal k n a t p = (c, T)"
begin

lemma unseal_seal:
  "valid k t \<Longrightarrow> unseal k n a t (fst (seal k n a t p)) (snd (seal k n a t p)) = Some p"
  by (simp add: unseal_iff length_tag)

lemma seal_inject:
  assumes "valid k t" and "fst (seal k n a t p) = fst (seal k n a t q)"
    and "snd (seal k n a t p) = snd (seal k n a t q)"
  shows "p = q"
  using unseal_seal [OF assms(1), of n a p] unseal_seal [OF assms(1), of n a q] assms(2,3)
  by (metis option.inject)

lemma length_unseal:
  "valid k t \<Longrightarrow> length T = t \<Longrightarrow> unseal k n a t c T = Some p \<Longrightarrow> length p = length c"
  using length_seal [of k t n a p] by (simp add: unseal_iff)

lemma tag_unique:
  assumes "valid k t" "length T = t" "length U = t" "unseal k n a t c T = Some p" "unseal k n a t c U = Some p"
  shows "T = U"
  using assms by (simp add: unseal_iff)

end

section \<open>GCM seals and opens\<close>

definition gcm_h :: "AES_CONTEXT \<Rightarrow> byte list" where
  "gcm_h c = aes_encrypt_bytes c (zeroes 16)"

definition gcm_j0 :: "AES_CONTEXT \<Rightarrow> byte list \<Rightarrow> byte list" where
  "gcm_j0 c iv = snd (gcm_make_j0 (gcm_h c) iv)"

definition gcm_stream :: "AES_CONTEXT \<Rightarrow> byte list \<Rightarrow> nat \<Rightarrow> byte list" where
  "gcm_stream c = stream_bytes 16 (\<lambda>counter. (gcm_inc32 counter, aes_encrypt_bytes c (gcm_inc32 counter)))"

definition gcm_full_tag :: "AES_CONTEXT \<Rightarrow> byte list \<Rightarrow> byte list \<Rightarrow> byte list \<Rightarrow> byte list" where
  "gcm_full_tag c iv aad ct =
     xor_block (aes_encrypt_bytes c (gcm_j0 c iv))
       (ghash_block (gcm_h c) (ghash_bytes (gcm_h c) (ghash_bytes (gcm_h c) (zeroes 16) aad) ct)
         (crypto_store64_be (of_nat (length aad) * 8) @ crypto_store64_be (of_nat (length ct) * 8)))"

definition gcm_seal ::
    "AES_CONTEXT \<Rightarrow> byte list \<Rightarrow> byte list \<Rightarrow> nat \<Rightarrow> byte list \<Rightarrow> byte list \<times> byte list" where
  "gcm_seal c iv aad t p =
     (let ct = xor_bytes p (gcm_stream c (gcm_j0 c iv) (length p))
      in (ct, take t (gcm_full_tag c iv aad ct)))"

definition gcm_unseal ::
    "AES_CONTEXT \<Rightarrow> byte list \<Rightarrow> byte list \<Rightarrow> nat \<Rightarrow> byte list \<Rightarrow> byte list \<Rightarrow> byte list option" where
  "gcm_unseal c iv aad t ct T =
     (if T = take t (gcm_full_tag c iv aad ct)
      then Some (xor_bytes ct (gcm_stream c (gcm_j0 c iv) (length ct))) else None)"

lemma length_xor_block [simp, lengths]: "length (xor_block a b) = 16"
  by (simp add: xor_block_def)

lemma length_gcm_stream [simp]: "aes_context_valid c \<Longrightarrow> length (gcm_stream c j n) = n"
  unfolding gcm_stream_def
  by (rule length_stream_bytes [where P = "\<lambda>_. True"]) (simp_all add: length_aes_encrypt_bytes)

lemma length_gcm_full_tag [simp]: "length (gcm_full_tag c iv aad ct) = 16"
  by (simp add: gcm_full_tag_def)

lemma stream_seal_iff:
  fixes ks :: "nat \<Rightarrow> byte list"
  assumes "\<And>n. length (ks n) = n"
  shows "(ct = xor_bytes p (ks (length p))) \<longleftrightarrow> (p = xor_bytes ct (ks (length ct)))"
proof
  assume "ct = xor_bytes p (ks (length p))"
  moreover have "length (xor_bytes p (ks (length p))) = length p" by (simp add: assms)
  ultimately show "p = xor_bytes ct (ks (length ct))" by (simp add: xor_bytes_cancel assms)
next
  assume "p = xor_bytes ct (ks (length ct))"
  moreover have "length (xor_bytes ct (ks (length ct))) = length ct" by (simp add: assms)
  ultimately show "ct = xor_bytes p (ks (length p))" by (simp add: xor_bytes_cancel assms)
qed

interpretation gcm: aead_scheme "\<lambda>c t. aes_context_valid c \<and> t \<le> 16" gcm_seal gcm_unseal
proof
  fix c :: AES_CONTEXT and t :: nat and n a p ct T :: "byte list"
  assume ok: "aes_context_valid c \<and> t \<le> 16"
  then show "length (fst (gcm_seal c n a t p)) = length p" "length (snd (gcm_seal c n a t p)) = t"
    by (simp_all add: gcm_seal_def Let_def)
  have "(ct = xor_bytes p (gcm_stream c (gcm_j0 c n) (length p))) \<longleftrightarrow>
      (p = xor_bytes ct (gcm_stream c (gcm_j0 c n) (length ct)))"
    using ok by (intro stream_seal_iff) simp
  then show "gcm_unseal c n a t ct T = Some p \<longleftrightarrow> gcm_seal c n a t p = (ct, T)"
    by (auto simp: gcm_unseal_def gcm_seal_def Let_def)
qed

text \<open>The code computes these functions.\<close>

lemma gcm_ctr_eq:
  assumes "aes_context_valid c" "out = inp \<or> disjoint out n inp n"
  shows "gcm_ctr c m j0 inp n out = (SUCCESS, store m out (xor_bytes (load m inp n) (gcm_stream c j0 n)))"
  unfolding gcm_ctr_def gcm_stream_def using assms
  by (subst stream_loop_correct [where P = "\<lambda>_. True"])
    (auto simp: aes_encrypt_block_valid length_aes_encrypt_bytes Let_def)

lemma gcm_arguments_SUCCESS:
  "gcm_arguments out tag t inp n iv ivl aad al = SUCCESS \<longleftrightarrow>
     iv \<noteq> 0 \<and> tag \<noteq> 0 \<and> \<not> (aad = 0 \<and> al \<noteq> 0) \<and> \<not> (n \<noteq> 0 \<and> (inp = 0 \<or> out = 0)) \<and> ivl \<noteq> 0 \<and>
     t \<in> {4, 8, 12, 13, 14, 15, 16} \<and> ivl \<le> (2 ^ 64 - 1) div 8 \<and> al \<le> (2 ^ 64 - 1) div 8 \<and>
     n \<le> 0xfffffffe * 16"
  by (auto simp: gcm_arguments_def gcm_validate_lengths_def gcm_tag_length_valid_def Let_def)

lemma gcm_make_j0_eq: "length iv \<le> (2 ^ 64 - 1) div 8 \<Longrightarrow> gcm_make_j0 (gcm_h c) iv = (SUCCESS, gcm_j0 c iv)"
  by (simp add: gcm_j0_def gcm_make_j0_def Let_def)

lemma gcm_tag_eq:
  assumes "aes_context_valid c" "length aad \<le> (2 ^ 64 - 1) div 8" "length ct \<le> (2 ^ 64 - 1) div 8"
  shows "gcm_tag c (gcm_h c) (gcm_j0 c iv) aad ct = (SUCCESS, gcm_full_tag c iv aad ct)"
  using assms by (simp add: gcm_tag_def gcm_full_tag_def Let_def aes_encrypt_block_valid)

lemma gcm_encrypt_eq:
  assumes c: "aes_context_valid c" and args: "gcm_arguments out tag t inp n iv ivl aad al = SUCCESS"
    and io: "out = inp \<or> disjoint out n inp n" and aad: "disjoint out n aad al"
  shows "crypto_aes_gcm_encrypt c m out tag t inp n iv ivl aad al =
    (SUCCESS, store (store m out (fst (gcm_seal c (load m iv ivl) (load m aad al) t (load m inp n)))) tag
       (snd (gcm_seal c (load m iv ivl) (load m aad al) t (load m inp n))))"
proof -
  define ct where "ct = xor_bytes (load m inp n) (gcm_stream c (gcm_j0 c (load m iv ivl)) n)"
  have len: "length ct = n" using c by (simp add: ct_def)
  have h: "crypto_aes_encrypt_block c (zeroes 16) = (SUCCESS, gcm_h c)"
    by (simp add: gcm_h_def aes_encrypt_block_valid c)
  have a: "ivl \<le> (2 ^ 64 - 1) div 8" "al \<le> (2 ^ 64 - 1) div 8" "n \<le> (2 ^ 64 - 1) div 8"
    using args unfolding gcm_arguments_SUCCESS by auto
  have out: "load (store m out ct) out n = ct" using load_store_same [of m out ct] by (simp add: len)
  have ad: "load (store m out ct) aad al = load m aad al" using aad len by (simp add: load_store_disjoint)
  have tag: "gcm_tag c (gcm_h c) (gcm_j0 c (load m iv ivl)) (load m aad al) ct =
      (SUCCESS, gcm_full_tag c (load m iv ivl) (load m aad al) ct)"
    using a len by (intro gcm_tag_eq [OF c]) simp_all
  show ?thesis
    unfolding crypto_aes_gcm_encrypt_def args Let_def h
    using a by (simp add: gcm_make_j0_eq gcm_ctr_eq [OF c io] out ad tag gcm_seal_def Let_def flip: ct_def)
qed

lemma gcm_decrypt_eq:
  assumes c: "aes_context_valid c" and args: "gcm_arguments out tag t inp n iv ivl aad al = SUCCESS"
    and io: "out = inp \<or> disjoint out n inp n"
  shows "crypto_aes_gcm_decrypt c m out tag t inp n iv ivl aad al =
    (case gcm_unseal c (load m iv ivl) (load m aad al) t (load m inp n) (load m tag t) of
       None \<Rightarrow> (AUTHENTICATION_FAILED, store m out (zeroes n))
     | Some p \<Rightarrow> (SUCCESS, store m out p))"
proof -
  have h: "crypto_aes_encrypt_block c (zeroes 16) = (SUCCESS, gcm_h c)"
    by (simp add: gcm_h_def aes_encrypt_block_valid c)
  have a: "ivl \<le> (2 ^ 64 - 1) div 8" "al \<le> (2 ^ 64 - 1) div 8" "n \<le> (2 ^ 64 - 1) div 8" "t \<le> 16"
    "n \<noteq> 0 \<longrightarrow> out \<noteq> 0"
    using args unfolding gcm_arguments_SUCCESS by auto
  have tag: "gcm_tag c (gcm_h c) (gcm_j0 c (load m iv ivl)) (load m aad al) (load m inp n) =
      (SUCCESS, gcm_full_tag c (load m iv ivl) (load m aad al) (load m inp n))"
    using a by (intro gcm_tag_eq [OF c]) simp_all
  have zero: "(if out \<noteq> 0 \<and> n \<noteq> 0 then crypto_zeroize m out n else m) = store m out (zeroes n)"
    using a(5) by (cases "n = 0") (simp_all add: crypto_zeroize_def)
  have eq: "crypto_constant_time_equal (gcm_full_tag c v w x) (load m tag t) t \<longleftrightarrow>
      load m tag t = take t (gcm_full_tag c v w x)" for v w x
    using a(4) by (subst crypto_constant_time_equal_iff) auto
  show ?thesis
    unfolding crypto_aes_gcm_decrypt_def args Let_def h
    using a zero by (auto simp: gcm_make_j0_eq gcm_ctr_eq [OF c io] tag eq gcm_unseal_def)
qed

section \<open>CCM seals and opens\<close>

definition ccm_stream :: "AES_CONTEXT \<Rightarrow> byte list \<Rightarrow> nat \<Rightarrow> byte list" where
  "ccm_stream c nonce = stream_bytes 16 (\<lambda>i. (i + 1, aes_encrypt_bytes c (ccm_counter_block nonce i))) 1"

definition ccm_full_tag :: "AES_CONTEXT \<Rightarrow> byte list \<Rightarrow> byte list \<Rightarrow> nat \<Rightarrow> byte list \<Rightarrow> byte list" where
  "ccm_full_tag c nonce aad t p =
     xor_block (snd (ccm_compute_mac c nonce aad p t)) (aes_encrypt_bytes c (ccm_counter_block nonce 0))"

definition ccm_seal ::
    "AES_CONTEXT \<Rightarrow> byte list \<Rightarrow> byte list \<Rightarrow> nat \<Rightarrow> byte list \<Rightarrow> byte list \<times> byte list" where
  "ccm_seal c nonce aad t p =
     (xor_bytes p (ccm_stream c nonce (length p)), take t (ccm_full_tag c nonce aad t p))"

definition ccm_unseal ::
    "AES_CONTEXT \<Rightarrow> byte list \<Rightarrow> byte list \<Rightarrow> nat \<Rightarrow> byte list \<Rightarrow> byte list \<Rightarrow> byte list option" where
  "ccm_unseal c nonce aad t ct T =
     (let p = xor_bytes ct (ccm_stream c nonce (length ct))
      in if T = take t (ccm_full_tag c nonce aad t p) then Some p else None)"

lemma length_ccm_stream [simp]: "aes_context_valid c \<Longrightarrow> length (ccm_stream c nonce n) = n"
  unfolding ccm_stream_def
  by (rule length_stream_bytes [where P = "\<lambda>_. True"]) (simp_all add: length_aes_encrypt_bytes)

interpretation ccm: aead_scheme "\<lambda>c t. aes_context_valid c \<and> t \<le> 16" ccm_seal ccm_unseal
proof
  fix c :: AES_CONTEXT and t :: nat and n a p ct T :: "byte list"
  assume ok: "aes_context_valid c \<and> t \<le> 16"
  then show "length (fst (ccm_seal c n a t p)) = length p" "length (snd (ccm_seal c n a t p)) = t"
    by (simp_all add: ccm_seal_def ccm_full_tag_def)
  have "(ct = xor_bytes p (ccm_stream c n (length p))) \<longleftrightarrow> (p = xor_bytes ct (ccm_stream c n (length ct)))"
    using ok by (intro stream_seal_iff) simp
  moreover have "ccm_unseal c n a t ct T = Some p \<longleftrightarrow>
      p = xor_bytes ct (ccm_stream c n (length ct)) \<and> T = take t (ccm_full_tag c n a t p)"
    by (auto simp: ccm_unseal_def Let_def)
  moreover have "ccm_seal c n a t p = (ct, T) \<longleftrightarrow>
      ct = xor_bytes p (ccm_stream c n (length p)) \<and> T = take t (ccm_full_tag c n a t p)"
    by (auto simp: ccm_seal_def)
  ultimately show "ccm_unseal c n a t ct T = Some p \<longleftrightarrow> ccm_seal c n a t p = (ct, T)" by blast
qed

lemma ccm_mac_block_eq:
  "aes_context_valid c \<Longrightarrow> ccm_mac_block c s b = (SUCCESS, aes_encrypt_bytes c (xor_block s b))"
  by (simp add: ccm_mac_block_def aes_encrypt_block_valid)

lemma ccm_mac_bytes_SUCCESS: "aes_context_valid c \<Longrightarrow> fst (ccm_mac_bytes c s xs) = SUCCESS"
proof (induction c s xs rule: ccm_mac_bytes.induct)
  case (1 c s xs)
  then show ?case
    by (subst ccm_mac_bytes.simps) (simp add: ccm_mac_block_eq)
qed

lemma ccm_compute_mac_SUCCESS:
  assumes "aes_context_valid c"
  shows "ccm_compute_mac c nonce aad p t = (SUCCESS, snd (ccm_compute_mac c nonce aad p t))"
proof -
  have "fst (ccm_compute_mac c nonce aad p t) = SUCCESS"
    using assms by (simp add: ccm_compute_mac_def ccm_mac_aad_def Let_def ccm_mac_block_eq
        ccm_mac_bytes_SUCCESS split: prod.split)
      (metis ccm_mac_bytes_SUCCESS fst_conv)
  then show ?thesis by (simp add: prod_eq_iff)
qed

lemma ccm_ctr_eq:
  assumes "aes_context_valid c" "out = inp \<or> disjoint out n inp n"
  shows "ccm_ctr c m nonce inp n out = (SUCCESS, store m out (xor_bytes (load m inp n) (ccm_stream c nonce n)))"
  unfolding ccm_ctr_def ccm_stream_def using assms
  by (subst stream_loop_correct [where P = "\<lambda>_. True"])
    (auto simp: aes_encrypt_block_valid length_aes_encrypt_bytes)

lemma ccm_encrypt_eq:
  assumes c: "aes_context_valid c" and args: "ccm_arguments out tag t inp n nonce nl aad al = SUCCESS"
    and io: "out = inp \<or> disjoint out n inp n"
  shows "crypto_aes_ccm_encrypt c m out tag t inp n nonce nl aad al =
    (SUCCESS, store (store m out (fst (ccm_seal c (load m nonce nl) (load m aad al) t (load m inp n)))) tag
       (snd (ccm_seal c (load m nonce nl) (load m aad al) t (load m inp n))))"
  unfolding crypto_aes_ccm_encrypt_def args Let_def
  using c by (subst ccm_compute_mac_SUCCESS)
    (simp_all add: ccm_ctr_eq [OF c io] aes_encrypt_block_valid ccm_seal_def ccm_full_tag_def)

lemma ccm_decrypt_eq:
  assumes c: "aes_context_valid c" and args: "ccm_arguments out tag t inp n nonce nl aad al = SUCCESS"
    and io: "out = inp \<or> disjoint out n inp n" and aad: "disjoint out n aad al"
    and tag: "disjoint out n tag t"
  shows "crypto_aes_ccm_decrypt c m out tag t inp n nonce nl aad al =
    (case ccm_unseal c (load m nonce nl) (load m aad al) t (load m inp n) (load m tag t) of
       None \<Rightarrow> (AUTHENTICATION_FAILED, store m out (zeroes n))
     | Some p \<Rightarrow> (SUCCESS, store m out p))"
proof -
  define p where "p = xor_bytes (load m inp n) (ccm_stream c (load m nonce nl) n)"
  have len: "length p = n" using c by (simp add: p_def)
  have out: "load (store m out p) out n = p" using load_store_same [of m out p] by (simp add: len)
  have same: "load (store m out p) aad al = load m aad al" "load (store m out p) tag t = load m tag t"
    using aad tag len by (simp_all add: load_store_disjoint)
  have t: "t \<le> 16" "n \<noteq> 0 \<longrightarrow> out \<noteq> 0"
    using args by (auto simp: ccm_arguments_def ccm_validate_def split: if_splits)
  have zero: "(if out \<noteq> 0 \<and> n \<noteq> 0 then crypto_zeroize (store m out p) out n else store m out p) =
      store m out (zeroes n)"
    using t(2) len by (cases "n = 0") (auto simp: crypto_zeroize_def store_apply fun_eq_iff)
  have eq: "crypto_constant_time_equal (take t (xor_block x y)) (load m tag t) t \<longleftrightarrow>
      load m tag t = take t (xor_block x y)" for x y
    using t(1) by (subst crypto_constant_time_equal_iff) auto
  obtain mac where mac: "ccm_compute_mac c (load m nonce nl) (load m aad al) p t = (SUCCESS, mac)"
    using ccm_compute_mac_SUCCESS [OF c] by blast
  show ?thesis
    unfolding crypto_aes_ccm_decrypt_def args Let_def ccm_ctr_eq [OF c io] p_def [symmetric]
    using zero by (simp add: out same mac aes_encrypt_block_valid [OF c] eq
        ccm_unseal_def ccm_full_tag_def Let_def flip: p_def)
qed

section \<open>The byte-array multiplication is the multiplication of SP 800-38D\<close>

definition block_word :: "byte list \<Rightarrow> 128 word" where
  "block_word bs = fold (\<lambda>b w. push_bit 8 w OR ucast b) bs 0"

definition gf128_step :: "128 word \<Rightarrow> nat \<Rightarrow> 128 word \<times> 128 word \<Rightarrow> 128 word \<times> 128 word" where
  "gf128_step x i zv =
     (case zv of (z, v) \<Rightarrow>
        (if bit x (127 - i) then z XOR v else z,
         if bit v 0 then drop_bit 1 v XOR push_bit 120 0xe1 else drop_bit 1 v))"

definition gf128_mul :: "128 word \<Rightarrow> 128 word \<Rightarrow> 128 word" where
  "gf128_mul x h = fst (fold (gf128_step x) [0..<128] (0, h))"

lemma bit_block_word_gen:
  assumes "length bs \<le> 16" "k < 128"
  shows "bit (block_word bs) k \<longleftrightarrow> k < 8 * length bs \<and> bit (bs ! (length bs - 1 - k div 8)) (k mod 8)"
  using assms
proof (induction bs arbitrary: k rule: rev_induct)
  case Nil
  then show ?case by (simp add: block_word_def)
next
  case (snoc b bs)
  have "block_word (bs @ [b]) = push_bit 8 (block_word bs) OR ucast b" by (simp add: block_word_def)
  then have eq: "bit (block_word (bs @ [b])) k \<longleftrightarrow> 8 \<le> k \<and> bit (block_word bs) (k - 8) \<or> k < 8 \<and> bit b k"
    using snoc.prems bit_imp_le_length [of b k] by (auto simp: bit_simps)
  show ?case
  proof (cases "k < 8")
    case True
    then show ?thesis by (simp add: eq nth_append)
  next
    case False
    then obtain j where j: "k = 8 + j" by (metis le_Suc_ex not_less)
    have "(bs @ [b]) ! (length (bs @ [b]) - 1 - k div 8) = bs ! (length bs - 1 - j div 8)" if "j < 8 * length bs"
    proof -
      have "j div 8 < length bs" using that by auto
      moreover have "(8 + j) div 8 = Suc (j div 8)" by presburger
      ultimately show ?thesis by (auto simp: j nth_append)
    qed
    then show ?thesis unfolding eq using snoc by (auto simp: j)
  qed
qed

lemma bit_block_word:
  "length bs = 16 \<Longrightarrow> k < 128 \<Longrightarrow> bit (block_word bs) k \<longleftrightarrow> bit (bs ! (15 - k div 8)) (k mod 8)"
  by (simp add: bit_block_word_gen)

lemma block_word_eqI:
  assumes "\<And>k. k < 128 \<Longrightarrow> bit (block_word bs) k \<longleftrightarrow> bit w k"
  shows "block_word bs = w"
  by (rule bit_word_eqI) (simp add: assms)

lemma block_word_xor:
  assumes "length a = 16" "length b = 16"
  shows "block_word (map (\<lambda>i. a ! i XOR b ! i) [0..<16]) = block_word a XOR block_word b"
proof (rule block_word_eqI)
  fix k :: nat assume k: "k < 128"
  have "15 - k div 8 < 16" by simp
  then show "bit (block_word (map (\<lambda>i. a ! i XOR b ! i) [0..<16])) k \<longleftrightarrow> bit (block_word a XOR block_word b) k"
    using k assms by (simp add: bit_block_word bit_xor_iff)
qed

lemma block_word_zeroes: "block_word (zeroes 16) = 0"
proof (rule block_word_eqI)
  fix k :: nat assume k: "k < 128"
  have "15 - k div 8 < 16" by simp
  then show "bit (block_word (zeroes 16)) k \<longleftrightarrow> bit 0 k" using k by (simp add: bit_block_word)
qed

lemma length_gcm_shift [simp]: "length (gcm_shift_right_one v) = 16"
  by (simp add: gcm_shift_right_one_def)

lemma block_word_shift:
  assumes "length v = 16"
  shows "block_word (gcm_shift_right_one v) = drop_bit 1 (block_word v)"
proof (rule block_word_eqI)
  fix k :: nat assume k: "k < 128"
  define i r where "i = 15 - k div 8" and "r = k mod 8"
  have i: "i < 16" "k = 8 * (15 - i) + r" "r < 8" "i = 0 \<longleftrightarrow> k div 8 = 15"
    using k by (auto simp: i_def r_def)
  have "bit (block_word (gcm_shift_right_one v)) k \<longleftrightarrow>
      bit (drop_bit 1 (v ! i) OR push_bit 7 (if i = 0 then 0 else v ! (i - 1) AND 1)) r"
    using k i assms by (simp add: bit_block_word gcm_shift_right_one_def flip: i_def r_def)
  also have "\<dots> \<longleftrightarrow> (if r = 7 then i \<noteq> 0 \<and> bit (v ! (i - 1)) 0 else bit (v ! i) (Suc r))"
  proof (cases "r = 7")
    case True
    have "\<not> bit (v ! i) 8" using bit_imp_le_length [of "v ! i" 8] by auto
    then show ?thesis using True by (simp add: bit_simps)
  next
    case False
    then show ?thesis using i(3) by (auto simp: bit_simps)
  qed
  also have "\<dots> \<longleftrightarrow> bit (drop_bit 1 (block_word v)) k"
  proof (cases "r = 7")
    case True
    show ?thesis
    proof (cases "i = 0")
      case True
      then have "Suc k = 128" using \<open>r = 7\<close> i by simp
      then have "\<not> bit (block_word v) (Suc k)" using bit_imp_le_length [of "block_word v" 128] by auto
      then show ?thesis using True \<open>r = 7\<close> by (simp add: bit_drop_bit_eq)
    next
      case False
      then have "Suc k < 128" "Suc k div 8 = 16 - i" "Suc k mod 8 = 0"
        using True i by simp_all
      moreover have "15 - (16 - i) = i - 1" using False i by simp
      ultimately show ?thesis using True False assms by (simp add: bit_drop_bit_eq bit_block_word)
    qed
  next
    case False
    then have "Suc r < 8" using i(3) by simp
    then have "Suc k < 128" "Suc k div 8 = 15 - i" "Suc k mod 8 = Suc r"
      using i k by simp_all
    then show ?thesis using False assms i(1) by (simp add: bit_drop_bit_eq bit_block_word)
  qed
  finally show "bit (block_word (gcm_shift_right_one v)) k \<longleftrightarrow> bit (drop_bit 1 (block_word v)) k" .
qed

lemma block_word_first:
  assumes "length v = 16"
  shows "block_word (v[0 := v ! 0 XOR c]) = block_word v XOR push_bit 120 (ucast c)"
proof (rule block_word_eqI)
  fix k :: nat assume k: "k < 128"
  show "bit (block_word (v[0 := v ! 0 XOR c])) k \<longleftrightarrow> bit (block_word v XOR push_bit 120 (ucast c)) k"
  proof (cases "k < 120")
    case True
    then have "15 - k div 8 \<noteq> 0" by auto
    then show ?thesis using True k assms by (simp add: bit_block_word bit_simps)
  next
    case False
    then obtain j where j: "k = 120 + j" by (metis le_Suc_ex not_less)
    then have "(120 + j) mod 8 = j" using k by presburger
    then show ?thesis using k assms j by (simp add: bit_block_word bit_simps)
  qed
qed

lemma gcm_multiply_step_word:
  assumes "length x = 16" "length z = 16" "length v = 16" "i < 128"
  shows "case gcm_multiply_step x i (z, v) of (z', v') \<Rightarrow>
    length z' = 16 \<and> length v' = 16 \<and>
    gf128_step (block_word x) i (block_word z, block_word v) = (block_word z', block_word v')"
proof -
  define mask where "mask = 0 - (drop_bit (7 - i mod 8) (x ! (i div 8)) AND 1)"
  define z' where "z' = map (\<lambda>i. z ! i XOR (v ! i AND mask)) [0..<16]"
  define v' where "v' = (let v1 = gcm_shift_right_one v in v1[0 := v1 ! 0 XOR (0xe1 AND (0 - (v ! 15 AND 1)))])"
  have eq: "gcm_multiply_step x i (z, v) = (z', v')"
    by (simp add: gcm_multiply_step_def Let_def z'_def v'_def mask_def)
  have "15 - (127 - i) div 8 = i div 8" "(127 - i) mod 8 = 7 - i mod 8"
  proof -
    define q r where "q = i div 8" and "r = i mod 8"
    then have qr: "i = 8 * q + r" "r < 8" "q < 16" using assms(4) by auto
    have e: "127 - i = (7 - r) + 8 * (15 - q)" using qr by auto
    show "15 - (127 - i) div 8 = i div 8" unfolding e using qr by simp
    show "(127 - i) mod 8 = 7 - i mod 8" unfolding e mod_mult_self2 using qr by simp
  qed
  then have bit: "bit (block_word x) (127 - i) \<longleftrightarrow> bit (x ! (i div 8)) (7 - i mod 8)"
    using assms by (simp add: bit_block_word)
  have mask: "mask = (if bit (block_word x) (127 - i) then - 1 else 0)"
    unfolding mask_def low_bit_mask bit by (simp add: bit_drop_bit_eq)
  have z: "block_word z' = (if bit (block_word x) (127 - i) then block_word z XOR block_word v else block_word z)"
  proof (cases "bit (block_word x) (127 - i)")
    case True
    then show ?thesis using block_word_xor [OF assms(2,3)] by (simp add: z'_def mask)
  next
    case False
    have "map (\<lambda>i. z ! i) [0..<16] = z" using assms(2) by (metis map_nth)
    then show ?thesis using False by (simp add: z'_def mask)
  qed
  have "bit (block_word v) 0 \<longleftrightarrow> bit (v ! 15) 0" using assms by (simp add: bit_block_word)
  then have v: "block_word v' = (if bit (block_word v) 0 then drop_bit 1 (block_word v) XOR push_bit 120 0xe1
      else drop_bit 1 (block_word v))"
    unfolding v'_def Let_def low_bit_mask block_word_first [OF length_gcm_shift] block_word_shift [OF assms(3)]
    by simp
  have "length z' = 16" "length v' = 16" by (simp_all add: z'_def v'_def Let_def)
  then show ?thesis
    unfolding eq prod.case gf128_step_def z v by simp
qed

lemma fold_gcm_multiply:
  assumes "length x = 16" "length z = 16" "length v = 16" "n \<le> 128"
  shows "case fold (gcm_multiply_step x) [0..<n] (z, v) of (z', v') \<Rightarrow>
    length z' = 16 \<and> length v' = 16 \<and>
    fold (gf128_step (block_word x)) [0..<n] (block_word z, block_word v) = (block_word z', block_word v')"
  using assms(4)
proof (induction n)
  case (Suc n)
  obtain z' v' where f: "fold (gcm_multiply_step x) [0..<n] (z, v) = (z', v')"
    by (cases "fold (gcm_multiply_step x) [0..<n] (z, v)")
  have IH: "length z' = 16" "length v' = 16"
    "fold (gf128_step (block_word x)) [0..<n] (block_word z, block_word v) = (block_word z', block_word v')"
    using Suc by (simp_all add: f)
  show ?case
    using gcm_multiply_step_word [OF assms(1) IH(1,2), of n] Suc.prems f IH(3)
    by (simp split: prod.splits)
qed (simp add: assms)

lemma gcm_multiply_word:
  assumes "length x = 16" "length h = 16"
  shows "length (gcm_multiply x h) = 16"
    and "block_word (gcm_multiply x h) = gf128_mul (block_word x) (block_word h)"
  using fold_gcm_multiply [OF assms(1) _ assms(2), of "zeroes 16" 128]
  by (auto simp: gcm_multiply_def gf128_mul_def block_word_zeroes split: prod.splits)

end
