(* ===== verification/Authenticated_Encryption.thy ===== *)
theory Authenticated_Encryption
  imports ChaCha20_Poly1305 AES_AEAD
begin

text \<open>
  The public AEAD dispatcher \<^verbatim>\<open>src/AuthenticatedEncryption.c\<close> over AES-GCM, AES-CCM and
  ChaCha20-Poly1305. All three are instances of the interface \<open>aead_scheme\<close>; the dispatcher's
  argument checks establish the overlap conditions their lemmas need.
\<close>

section \<open>Parameters\<close>

datatype AeadFamily =
  AEAD_FAMILY_AES_GCM | AEAD_FAMILY_AES_CCM | AEAD_FAMILY_CHACHA20_POLY1305

record AeadParameters =
  aead_KEY_LENGTH :: nat
  aead_FAMILY :: AeadFamily

definition aead_parameters :: "alg_id \<Rightarrow> status + AeadParameters" where
  "aead_parameters alg =
     (if alg = LIBERAC_ALG_AES_128_GCM then Inr \<lparr>aead_KEY_LENGTH = 16, aead_FAMILY = AEAD_FAMILY_AES_GCM\<rparr>
      else if alg = LIBERAC_ALG_AES_192_GCM then Inr \<lparr>aead_KEY_LENGTH = 24, aead_FAMILY = AEAD_FAMILY_AES_GCM\<rparr>
      else if alg = LIBERAC_ALG_AES_256_GCM then Inr \<lparr>aead_KEY_LENGTH = 32, aead_FAMILY = AEAD_FAMILY_AES_GCM\<rparr>
      else if alg = LIBERAC_ALG_AES_128_CCM then Inr \<lparr>aead_KEY_LENGTH = 16, aead_FAMILY = AEAD_FAMILY_AES_CCM\<rparr>
      else if alg = LIBERAC_ALG_AES_192_CCM then Inr \<lparr>aead_KEY_LENGTH = 24, aead_FAMILY = AEAD_FAMILY_AES_CCM\<rparr>
      else if alg = LIBERAC_ALG_AES_256_CCM then Inr \<lparr>aead_KEY_LENGTH = 32, aead_FAMILY = AEAD_FAMILY_AES_CCM\<rparr>
      else if alg = LIBERAC_ALG_CHACHA20_POLY1305
      then Inr \<lparr>aead_KEY_LENGTH = 32, aead_FAMILY = AEAD_FAMILY_CHACHA20_POLY1305\<rparr>
      else Inl INVALID_ALG_ID)"

definition LIBERAC_AEAD_KEY_SIZE :: "alg_id \<Rightarrow> nat" where
  "LIBERAC_AEAD_KEY_SIZE alg =
     (case aead_parameters alg of Inl _ \<Rightarrow> 0 | Inr parameters \<Rightarrow> aead_KEY_LENGTH parameters)"

definition LIBERAC_AEAD_NONCE_LENGTH_VALID :: "alg_id \<Rightarrow> nat \<Rightarrow> bool" where
  "LIBERAC_AEAD_NONCE_LENGTH_VALID alg nonce_length =
     (case aead_parameters alg of
        Inl _ \<Rightarrow> False
      | Inr parameters \<Rightarrow>
          (case aead_FAMILY parameters of
             AEAD_FAMILY_AES_GCM \<Rightarrow> nonce_length \<noteq> 0
           | AEAD_FAMILY_AES_CCM \<Rightarrow> 7 \<le> nonce_length \<and> nonce_length \<le> 13
           | AEAD_FAMILY_CHACHA20_POLY1305 \<Rightarrow> nonce_length = 12))"

definition LIBERAC_AEAD_TAG_LENGTH_VALID :: "alg_id \<Rightarrow> nat \<Rightarrow> bool" where
  "LIBERAC_AEAD_TAG_LENGTH_VALID alg tag_length =
     (case aead_parameters alg of
        Inl _ \<Rightarrow> False
      | Inr parameters \<Rightarrow>
          (case aead_FAMILY parameters of
             AEAD_FAMILY_AES_GCM \<Rightarrow>
               tag_length = 4 \<or> tag_length = 8 \<or> (12 \<le> tag_length \<and> tag_length \<le> 16)
           | AEAD_FAMILY_AES_CCM \<Rightarrow> 4 \<le> tag_length \<and> tag_length \<le> 16 \<and> even tag_length
           | AEAD_FAMILY_CHACHA20_POLY1305 \<Rightarrow> tag_length = 16))"

section \<open>Validation and dispatch\<close>

definition aead_validate_request ::
    "addr \<Rightarrow> nat \<Rightarrow> addr \<Rightarrow> nat \<Rightarrow> addr \<Rightarrow> nat \<Rightarrow> addr \<Rightarrow> nat \<Rightarrow> addr \<Rightarrow> nat \<Rightarrow> addr \<Rightarrow> nat \<Rightarrow>
     alg_id \<Rightarrow> AeadParameters \<Rightarrow> status" where
  "aead_validate_request output output_capacity tag tag_length input input_length key key_length
       nonce nonce_length aad aad_length alg parameters =
     (if tag = 0 \<or> key = 0 \<or> nonce = 0 \<or> (input = 0 \<and> input_length \<noteq> 0) \<or>
         (output = 0 \<and> input_length \<noteq> 0) \<or> (aad = 0 \<and> aad_length \<noteq> 0) then INVALID_ARGUMENT
      else if key_length \<noteq> aead_KEY_LENGTH parameters then INVALID_KEY
      else if \<not> LIBERAC_AEAD_NONCE_LENGTH_VALID alg nonce_length \<or>
              \<not> LIBERAC_AEAD_TAG_LENGTH_VALID alg tag_length then INVALID_ARGUMENT
      else if output_capacity < input_length then BUFFER_TOO_SMALL
      else let err = (if aead_FAMILY parameters = AEAD_FAMILY_CHACHA20_POLY1305
                      then crypto_chacha20_poly1305_validate_lengths input_length aad_length
                      else SUCCESS)
        in if err \<noteq> SUCCESS then err
           else if output \<noteq> input \<and> crypto_ranges_overlap output input_length input input_length
           then INVALID_ARGUMENT
           else if crypto_ranges_overlap output input_length key key_length \<or>
                   crypto_ranges_overlap output input_length nonce nonce_length \<or>
                   crypto_ranges_overlap output input_length aad aad_length \<or>
                   crypto_ranges_overlap output input_length tag tag_length \<or>
                   crypto_ranges_overlap tag tag_length input input_length \<or>
                   crypto_ranges_overlap tag tag_length key key_length \<or>
                   crypto_ranges_overlap tag tag_length nonce nonce_length \<or>
                   crypto_ranges_overlap tag tag_length aad aad_length
           then INVALID_ARGUMENT
           else SUCCESS)"

definition aead_aes_encrypt ::
    "AeadFamily \<Rightarrow> mem \<Rightarrow> addr \<Rightarrow> addr \<Rightarrow> nat \<Rightarrow> addr \<Rightarrow> nat \<Rightarrow> addr \<Rightarrow> nat \<Rightarrow> addr \<Rightarrow> nat \<Rightarrow>
     addr \<Rightarrow> nat \<Rightarrow> status \<times> mem" where
  "aead_aes_encrypt family m output tag tag_length input input_length key key_length
       nonce nonce_length aad aad_length =
     (let (err, context) = crypto_aes_context_init (ptr m key key_length) key_length
      in if err \<noteq> SUCCESS then (err, m)
         else if family = AEAD_FAMILY_AES_GCM
         then crypto_aes_gcm_encrypt context m output tag tag_length input input_length
                nonce nonce_length aad aad_length
         else crypto_aes_ccm_encrypt context m output tag tag_length input input_length
                nonce nonce_length aad aad_length)"

definition aead_aes_decrypt ::
    "AeadFamily \<Rightarrow> mem \<Rightarrow> addr \<Rightarrow> addr \<Rightarrow> nat \<Rightarrow> addr \<Rightarrow> nat \<Rightarrow> addr \<Rightarrow> nat \<Rightarrow> addr \<Rightarrow> nat \<Rightarrow>
     addr \<Rightarrow> nat \<Rightarrow> status \<times> mem" where
  "aead_aes_decrypt family m output tag tag_length input input_length key key_length
       nonce nonce_length aad aad_length =
     (let (err, context) = crypto_aes_context_init (ptr m key key_length) key_length
      in if err \<noteq> SUCCESS then (err, m)
         else if family = AEAD_FAMILY_AES_GCM
         then crypto_aes_gcm_decrypt context m output tag tag_length input input_length
                nonce nonce_length aad aad_length
         else crypto_aes_ccm_decrypt context m output tag tag_length input input_length
                nonce nonce_length aad aad_length)"

definition LIBERAC_AEAD_ENCRYPT ::
    "mem \<Rightarrow> addr \<Rightarrow> nat \<Rightarrow> addr \<Rightarrow> nat \<Rightarrow> nat \<Rightarrow> addr \<Rightarrow> nat \<Rightarrow> addr \<Rightarrow> nat \<Rightarrow> addr \<Rightarrow> nat \<Rightarrow>
     addr \<Rightarrow> nat \<Rightarrow> alg_id \<Rightarrow> status \<times> mem" where
  "LIBERAC_AEAD_ENCRYPT m output output_capacity tag tag_capacity tag_length input input_length
       key key_length nonce nonce_length aad aad_length alg =
     (case aead_parameters alg of
        Inl err \<Rightarrow> (err, m)
      | Inr parameters \<Rightarrow>
          let err = aead_validate_request output output_capacity tag tag_length input input_length
                      key key_length nonce nonce_length aad aad_length alg parameters
          in if err \<noteq> SUCCESS then (err, m)
             else if tag_capacity < tag_length then (BUFFER_TOO_SMALL, m)
             else if aead_FAMILY parameters = AEAD_FAMILY_CHACHA20_POLY1305
             then crypto_chacha20_poly1305_encrypt_internal m output tag input input_length key
                    nonce aad aad_length
             else let (err, m) = aead_aes_encrypt (aead_FAMILY parameters) m output tag tag_length
                        input input_length key key_length nonce nonce_length aad aad_length
               in if err \<noteq> SUCCESS
                  then (err, crypto_zeroize (crypto_zeroize m output input_length) tag tag_length)
                  else (err, m))"

definition LIBERAC_AEAD_DECRYPT ::
    "mem \<Rightarrow> addr \<Rightarrow> nat \<Rightarrow> addr \<Rightarrow> nat \<Rightarrow> addr \<Rightarrow> nat \<Rightarrow> addr \<Rightarrow> nat \<Rightarrow> addr \<Rightarrow> nat \<Rightarrow>
     addr \<Rightarrow> nat \<Rightarrow> alg_id \<Rightarrow> status \<times> mem" where
  "LIBERAC_AEAD_DECRYPT m output output_capacity tag tag_length input input_length
       key key_length nonce nonce_length aad aad_length alg =
     (case aead_parameters alg of
        Inl err \<Rightarrow> (err, m)
      | Inr parameters \<Rightarrow>
          let err = aead_validate_request output output_capacity tag tag_length input input_length
                      key key_length nonce nonce_length aad aad_length alg parameters
          in if err \<noteq> SUCCESS then (err, m)
             else if aead_FAMILY parameters = AEAD_FAMILY_CHACHA20_POLY1305
             then crypto_chacha20_poly1305_decrypt_internal m output tag input input_length key
                    nonce aad aad_length
             else let (err, m) = aead_aes_decrypt (aead_FAMILY parameters) m output tag tag_length
                        input input_length key key_length nonce nonce_length aad aad_length
               in if err \<noteq> SUCCESS then (err, crypto_zeroize m output input_length)
                  else (err, m))"

section \<open>One specification for the three families\<close>

definition chacha_seal ::
    "byte list \<Rightarrow> byte list \<Rightarrow> byte list \<Rightarrow> nat \<Rightarrow> byte list \<Rightarrow> byte list \<times> byte list" where
  "chacha_seal key nonce aad t p =
     (let ct = xor_bytes p (chacha20_keystream key nonce 1 (length p))
      in (ct, chacha20_poly1305_mac key nonce aad ct))"

definition chacha_unseal ::
    "byte list \<Rightarrow> byte list \<Rightarrow> byte list \<Rightarrow> nat \<Rightarrow> byte list \<Rightarrow> byte list \<Rightarrow> byte list option" where
  "chacha_unseal key nonce aad t ct T =
     (if T = chacha20_poly1305_mac key nonce aad ct
      then Some (xor_bytes ct (chacha20_keystream key nonce 1 (length ct))) else None)"

interpretation chacha: aead_scheme "\<lambda>k t. t = 16" chacha_seal chacha_unseal
proof
  fix k :: "byte list" and t :: nat and n a p ct T :: "byte list"
  assume ok: "t = 16"
  then show "length (fst (chacha_seal k n a t p)) = length p" "length (snd (chacha_seal k n a t p)) = t"
    by (simp_all add: chacha_seal_def Let_def)
  have "(ct = xor_bytes p (chacha20_keystream k n 1 (length p))) \<longleftrightarrow>
      (p = xor_bytes ct (chacha20_keystream k n 1 (length ct)))"
    by (intro stream_seal_iff) simp
  then show "chacha_unseal k n a t ct T = Some p \<longleftrightarrow> chacha_seal k n a t p = (ct, T)"
    by (auto simp: chacha_unseal_def chacha_seal_def Let_def)
qed

definition aead_context :: "byte list \<Rightarrow> AES_CONTEXT" where
  "aead_context key = snd (crypto_aes_context_init (Some key) (length key))"

definition aead_seal ::
    "AeadFamily \<times> byte list \<Rightarrow> byte list \<Rightarrow> byte list \<Rightarrow> nat \<Rightarrow> byte list \<Rightarrow> byte list \<times> byte list" where
  "aead_seal fk nonce aad t p = (case fk of (family, key) \<Rightarrow>
     (case family of
        AEAD_FAMILY_AES_GCM \<Rightarrow> gcm_seal (aead_context key) nonce aad t p
      | AEAD_FAMILY_AES_CCM \<Rightarrow> ccm_seal (aead_context key) nonce aad t p
      | AEAD_FAMILY_CHACHA20_POLY1305 \<Rightarrow> chacha_seal key nonce aad t p))"

definition aead_unseal ::
    "AeadFamily \<times> byte list \<Rightarrow> byte list \<Rightarrow> byte list \<Rightarrow> nat \<Rightarrow> byte list \<Rightarrow> byte list \<Rightarrow> byte list option" where
  "aead_unseal fk nonce aad t ct T = (case fk of (family, key) \<Rightarrow>
     (case family of
        AEAD_FAMILY_AES_GCM \<Rightarrow> gcm_unseal (aead_context key) nonce aad t ct T
      | AEAD_FAMILY_AES_CCM \<Rightarrow> ccm_unseal (aead_context key) nonce aad t ct T
      | AEAD_FAMILY_CHACHA20_POLY1305 \<Rightarrow> chacha_unseal key nonce aad t ct T))"

definition aead_valid :: "AeadFamily \<times> byte list \<Rightarrow> nat \<Rightarrow> bool" where
  "aead_valid fk t = (case fk of (family, key) \<Rightarrow>
     if family = AEAD_FAMILY_CHACHA20_POLY1305 then t = 16
     else length key \<in> {16, 24, 32} \<and> t \<le> 16)"

lemma aead_context_valid: "length key \<in> {16, 24, 32} \<Longrightarrow> aes_context_valid (aead_context key)"
  unfolding aead_context_def by (rule aes_context_init_valid)

interpretation aead: aead_scheme aead_valid aead_seal aead_unseal
proof
  fix fk :: "AeadFamily \<times> byte list" and t :: nat and n a p ct T :: "byte list"
  assume ok: "aead_valid fk t"
  obtain f k where fk: "fk = (f, k)" by (cases fk)
  have v: "aes_context_valid (aead_context k) \<and> t \<le> 16" if "f \<noteq> AEAD_FAMILY_CHACHA20_POLY1305"
    using ok that by (simp add: aead_valid_def fk aead_context_valid)
  have c: "t = 16" if "f = AEAD_FAMILY_CHACHA20_POLY1305"
    using ok that by (simp add: aead_valid_def fk)
  show "length (fst (aead_seal fk n a t p)) = length p"
    using gcm.length_seal [OF v] ccm.length_seal [OF v] chacha.length_seal [OF c]
    by (cases f) (simp_all add: aead_seal_def fk)
  show "length (snd (aead_seal fk n a t p)) = t"
    using gcm.length_tag [OF v] ccm.length_tag [OF v] chacha.length_tag [OF c]
    by (cases f) (simp_all add: aead_seal_def fk)
  assume T: "length T = t"
  show "aead_unseal fk n a t ct T = Some p \<longleftrightarrow> aead_seal fk n a t p = (ct, T)"
    using gcm.unseal_iff [OF v T] ccm.unseal_iff [OF v T] chacha.unseal_iff [OF c T]
    by (cases f) (simp_all add: aead_seal_def aead_unseal_def fk)
qed

section \<open>The dispatcher computes the specification\<close>

lemma aead_validate_SUCCESS:
  "aead_validate_request out cap tag t inp n key kl nonce nl aad al alg p = SUCCESS \<longleftrightarrow>
     tag \<noteq> 0 \<and> key \<noteq> 0 \<and> nonce \<noteq> 0 \<and> \<not> (n \<noteq> 0 \<and> (inp = 0 \<or> out = 0)) \<and> \<not> (aad = 0 \<and> al \<noteq> 0) \<and>
     kl = aead_KEY_LENGTH p \<and> LIBERAC_AEAD_NONCE_LENGTH_VALID alg nl \<and>
     LIBERAC_AEAD_TAG_LENGTH_VALID alg t \<and> n \<le> cap \<and>
     \<not> (aead_FAMILY p = AEAD_FAMILY_CHACHA20_POLY1305 \<and>
        crypto_chacha20_poly1305_validate_lengths n al \<noteq> SUCCESS) \<and>
     aead_ranges_ok out inp n tag t key kl nonce nl aad al"
  unfolding aead_validate_request_def crypto_ranges_overlap_iff aead_ranges_ok_def Let_def
  by (auto split: if_split)

lemma aead_parameters_cases:
  assumes "aead_parameters alg = Inr p"
  shows "aead_KEY_LENGTH p \<in> {16, 24, 32}"
    and "aead_FAMILY p = AEAD_FAMILY_CHACHA20_POLY1305 \<Longrightarrow> aead_KEY_LENGTH p = 32"
  using assms by (auto simp: aead_parameters_def split: if_splits)

text \<open>The length limits the AES families check after validation.\<close>

definition aead_limits :: "AeadFamily \<Rightarrow> nat \<Rightarrow> nat \<Rightarrow> nat \<Rightarrow> bool" where
  "aead_limits family nonce_length aad_length n =
     (case family of
        AEAD_FAMILY_AES_GCM \<Rightarrow> nonce_length \<le> (2 ^ 64 - 1) div 8 \<and> aad_length \<le> (2 ^ 64 - 1) div 8 \<and>
          n \<le> 0xfffffffe * 16
      | AEAD_FAMILY_AES_CCM \<Rightarrow> ccm_length_fits (15 - nonce_length) n
      | AEAD_FAMILY_CHACHA20_POLY1305 \<Rightarrow> True)"

lemma aead_arguments:
  assumes p: "aead_parameters alg = Inr p"
    and ok: "aead_validate_request out cap tag t inp n key kl nonce nl aad al alg p = SUCCESS"
  shows "aead_FAMILY p = AEAD_FAMILY_AES_GCM \<Longrightarrow>
      gcm_arguments out tag t inp n nonce nl aad al =
        (if aead_limits AEAD_FAMILY_AES_GCM nl al n then SUCCESS else MESSAGE_TOO_LARGE)"
    and "aead_FAMILY p = AEAD_FAMILY_AES_CCM \<Longrightarrow>
      ccm_arguments out tag t inp n nonce nl aad al =
        (if aead_limits AEAD_FAMILY_AES_CCM nl al n then SUCCESS else MESSAGE_TOO_LARGE)"
proof -
  have v: "tag \<noteq> 0" "nonce \<noteq> 0" "\<not> (n \<noteq> 0 \<and> (inp = 0 \<or> out = 0))" "\<not> (aad = 0 \<and> al \<noteq> 0)"
    "LIBERAC_AEAD_NONCE_LENGTH_VALID alg nl" "LIBERAC_AEAD_TAG_LENGTH_VALID alg t"
    using ok unfolding aead_validate_SUCCESS by auto
  show "gcm_arguments out tag t inp n nonce nl aad al =
      (if aead_limits AEAD_FAMILY_AES_GCM nl al n then SUCCESS else MESSAGE_TOO_LARGE)"
    if f: "aead_FAMILY p = AEAD_FAMILY_AES_GCM"
  proof -
    have nl: "nl \<noteq> 0" and "t = 4 \<or> t = 8 \<or> (12 \<le> t \<and> t \<le> 16)"
      using v(5,6) by (simp_all add: LIBERAC_AEAD_NONCE_LENGTH_VALID_def LIBERAC_AEAD_TAG_LENGTH_VALID_def p f)
    then have "t \<in> {4, 8, 12, 13, 14, 15, 16}" by auto
    then show ?thesis
      using v(1-4) nl by (auto simp: gcm_arguments_def gcm_validate_lengths_def gcm_tag_length_valid_def
          aead_limits_def Let_def)
  qed
  show "ccm_arguments out tag t inp n nonce nl aad al =
      (if aead_limits AEAD_FAMILY_AES_CCM nl al n then SUCCESS else MESSAGE_TOO_LARGE)"
    if f: "aead_FAMILY p = AEAD_FAMILY_AES_CCM"
  proof -
    have "7 \<le> nl" "nl \<le> 13" "4 \<le> t" "t \<le> 16" "even t"
      using v(5,6) by (simp_all add: LIBERAC_AEAD_NONCE_LENGTH_VALID_def LIBERAC_AEAD_TAG_LENGTH_VALID_def p f)
    then show ?thesis
      using v(1-4) by (auto simp: ccm_arguments_def ccm_validate_def aead_limits_def)
  qed
qed

lemma aead_valid_request:
  assumes p: "aead_parameters alg = Inr p"
    and ok: "aead_validate_request out cap tag t inp n key kl nonce nl aad al alg p = SUCCESS"
  shows "aead_valid (aead_FAMILY p, load m key kl) t"
    and "aead_FAMILY p = AEAD_FAMILY_CHACHA20_POLY1305 \<Longrightarrow> kl = 32 \<and> nl = 12 \<and> t = 16"
    and "crypto_aes_context_init (ptr m key kl) kl = (SUCCESS, aead_context (load m key kl))"
    and "aes_context_valid (aead_context (load m key kl))"
proof -
  have v: "key \<noteq> 0" "kl = aead_KEY_LENGTH p" "LIBERAC_AEAD_NONCE_LENGTH_VALID alg nl"
    "LIBERAC_AEAD_TAG_LENGTH_VALID alg t"
    using ok unfolding aead_validate_SUCCESS by auto
  have kl: "kl \<in> {16, 24, 32}" using aead_parameters_cases(1) [OF p] v(2) by simp
  show "aead_valid (aead_FAMILY p, load m key kl) t"
    using v(4) kl by (cases "aead_FAMILY p")
      (auto simp: aead_valid_def LIBERAC_AEAD_TAG_LENGTH_VALID_def p)
  show "aead_FAMILY p = AEAD_FAMILY_CHACHA20_POLY1305 \<Longrightarrow> kl = 32 \<and> nl = 12 \<and> t = 16"
    using v aead_parameters_cases(2) [OF p]
    by (simp add: LIBERAC_AEAD_NONCE_LENGTH_VALID_def LIBERAC_AEAD_TAG_LENGTH_VALID_def p)
  show "crypto_aes_context_init (ptr m key kl) kl = (SUCCESS, aead_context (load m key kl))"
    using kl v(1) aes_context_init_SUCCESS [of "ptr m key kl" kl]
    by (simp add: ptr_def aead_context_def prod_eq_iff)
  show "aes_context_valid (aead_context (load m key kl))"
    using kl by (intro aead_context_valid) simp
qed

text \<open>The bytes the dispatcher writes on success, and its behaviour on every error.\<close>

definition aead_sealed :: "mem \<Rightarrow> AeadFamily \<Rightarrow> addr \<Rightarrow> nat \<Rightarrow> addr \<Rightarrow> nat \<Rightarrow> addr \<Rightarrow> nat \<Rightarrow> addr \<Rightarrow> nat \<Rightarrow>
    nat \<Rightarrow> byte list \<times> byte list" where
  "aead_sealed m family inp n key kl nonce nl aad al t =
     aead_seal (family, load m key kl) (load m nonce nl) (load m aad al) t (load m inp n)"

lemma aead_encrypt_eq:
  assumes p: "aead_parameters alg = Inr p"
    and ok: "aead_validate_request out cap tag t inp n key kl nonce nl aad al alg p = SUCCESS"
    and t: "t \<le> tcap"
  shows "LIBERAC_AEAD_ENCRYPT m out cap tag tcap t inp n key kl nonce nl aad al alg =
    (if aead_limits (aead_FAMILY p) nl al n
     then (SUCCESS, store (store m out (fst (aead_sealed m (aead_FAMILY p) inp n key kl nonce nl aad al t))) tag
                      (snd (aead_sealed m (aead_FAMILY p) inp n key kl nonce nl aad al t)))
     else (MESSAGE_TOO_LARGE, crypto_zeroize (crypto_zeroize m out n) tag t))"
proof -
  have r: "aead_ranges_ok out inp n tag t key kl nonce nl aad al"
    using ok unfolding aead_validate_SUCCESS by blast
  have io: "out = inp \<or> disjoint out n inp n" and ad: "disjoint out n aad al"
    using r by (simp_all add: aead_ranges_ok_def)
  note req = aead_valid_request(1) [OF p ok, of m] aead_valid_request(2) [OF p ok]
    aead_valid_request(3,4) [OF p ok, of m]
  note args = aead_arguments [OF p ok]
  show ?thesis
  proof (cases "aead_FAMILY p")
    case AEAD_FAMILY_AES_GCM
    show ?thesis
    proof (cases "aead_limits (aead_FAMILY p) nl al n")
      case True
      then have "gcm_arguments out tag t inp n nonce nl aad al = SUCCESS"
        using args(1) AEAD_FAMILY_AES_GCM by simp
      then show ?thesis
        using True AEAD_FAMILY_AES_GCM t gcm_encrypt_eq [OF req(4) _ io ad]
        by (simp add: LIBERAC_AEAD_ENCRYPT_def p ok aead_aes_encrypt_def req(3) aead_sealed_def aead_seal_def)
    next
      case False
      then have "gcm_arguments out tag t inp n nonce nl aad al = MESSAGE_TOO_LARGE"
        using args(1) AEAD_FAMILY_AES_GCM by simp
      then show ?thesis
        using False AEAD_FAMILY_AES_GCM t
        by (simp add: LIBERAC_AEAD_ENCRYPT_def p ok aead_aes_encrypt_def req(3) crypto_aes_gcm_encrypt_def)
    qed
  next
    case AEAD_FAMILY_AES_CCM
    show ?thesis
    proof (cases "aead_limits (aead_FAMILY p) nl al n")
      case True
      then have "ccm_arguments out tag t inp n nonce nl aad al = SUCCESS"
        using args(2) AEAD_FAMILY_AES_CCM by simp
      then show ?thesis
        using True AEAD_FAMILY_AES_CCM t ccm_encrypt_eq [OF req(4) _ io]
        by (simp add: LIBERAC_AEAD_ENCRYPT_def p ok aead_aes_encrypt_def req(3) aead_sealed_def aead_seal_def)
    next
      case False
      then have "ccm_arguments out tag t inp n nonce nl aad al = MESSAGE_TOO_LARGE"
        using args(2) AEAD_FAMILY_AES_CCM by simp
      then show ?thesis
        using False AEAD_FAMILY_AES_CCM t
        by (simp add: LIBERAC_AEAD_ENCRYPT_def p ok aead_aes_encrypt_def req(3) crypto_aes_ccm_encrypt_def)
    qed
  next
    case AEAD_FAMILY_CHACHA20_POLY1305
    have l: "crypto_chacha20_poly1305_validate_lengths n al = SUCCESS"
      using ok AEAD_FAMILY_CHACHA20_POLY1305 unfolding aead_validate_SUCCESS by auto
    have d: "kl = 32" "nl = 12" "t = 16" using req(2) AEAD_FAMILY_CHACHA20_POLY1305 by simp_all
    show ?thesis
      using AEAD_FAMILY_CHACHA20_POLY1305 t encrypt_internal_eq [OF l, of out inp tag key nonce aad m] r d
      unfolding LIBERAC_AEAD_ENCRYPT_def p sum.case ok Let_def
      by (simp add: aead_sealed_def aead_seal_def chacha_seal_def Let_def
          aead_limits_def chacha20_poly1305_ct_def)
  qed
qed

lemma aead_decrypt_eq:
  assumes p: "aead_parameters alg = Inr p"
    and ok: "aead_validate_request out cap tag t inp n key kl nonce nl aad al alg p = SUCCESS"
  shows "LIBERAC_AEAD_DECRYPT m out cap tag t inp n key kl nonce nl aad al alg =
    (if aead_limits (aead_FAMILY p) nl al n
     then case aead_unseal (aead_FAMILY p, load m key kl) (load m nonce nl) (load m aad al) t
                 (load m inp n) (load m tag t) of
            None \<Rightarrow> (AUTHENTICATION_FAILED, store m out (zeroes n))
          | Some q \<Rightarrow> (SUCCESS, store m out q)
     else (MESSAGE_TOO_LARGE, crypto_zeroize m out n))"
proof -
  have r: "aead_ranges_ok out inp n tag t key kl nonce nl aad al" and nz: "n \<noteq> 0 \<longrightarrow> out \<noteq> 0"
    using ok unfolding aead_validate_SUCCESS by blast+
  have io: "out = inp \<or> disjoint out n inp n" and ad: "disjoint out n aad al" "disjoint out n tag t"
    using r by (simp_all add: aead_ranges_ok_def)
  have zz: "crypto_zeroize (store m out (zeroes n)) out n = store m out (zeroes n)"
    using nz by (cases "out = 0") (auto simp: crypto_zeroize_def store_apply fun_eq_iff)
  note req = aead_valid_request(1) [OF p ok, of m] aead_valid_request(2) [OF p ok]
    aead_valid_request(3,4) [OF p ok, of m]
  note args = aead_arguments [OF p ok]
  show ?thesis
  proof (cases "aead_FAMILY p")
    case AEAD_FAMILY_AES_GCM
    show ?thesis
    proof (cases "aead_limits (aead_FAMILY p) nl al n")
      case True
      then have "gcm_arguments out tag t inp n nonce nl aad al = SUCCESS"
        using args(1) AEAD_FAMILY_AES_GCM by simp
      then show ?thesis
        using True AEAD_FAMILY_AES_GCM gcm_decrypt_eq [OF req(4) _ io, of tag t nonce nl aad al m] zz
        by (simp add: LIBERAC_AEAD_DECRYPT_def p ok aead_aes_decrypt_def req(3) aead_unseal_def
            split: option.split)
    next
      case False
      then have "gcm_arguments out tag t inp n nonce nl aad al = MESSAGE_TOO_LARGE"
        using args(1) AEAD_FAMILY_AES_GCM by simp
      then show ?thesis
        using False AEAD_FAMILY_AES_GCM
        by (simp add: LIBERAC_AEAD_DECRYPT_def p ok aead_aes_decrypt_def req(3) crypto_aes_gcm_decrypt_def)
    qed
  next
    case AEAD_FAMILY_AES_CCM
    show ?thesis
    proof (cases "aead_limits (aead_FAMILY p) nl al n")
      case True
      then have "ccm_arguments out tag t inp n nonce nl aad al = SUCCESS"
        using args(2) AEAD_FAMILY_AES_CCM by simp
      then show ?thesis
        using True AEAD_FAMILY_AES_CCM ccm_decrypt_eq [OF req(4) _ io ad, of nonce nl m] zz
        by (simp add: LIBERAC_AEAD_DECRYPT_def p ok aead_aes_decrypt_def req(3) aead_unseal_def
            split: option.split)
    next
      case False
      then have "ccm_arguments out tag t inp n nonce nl aad al = MESSAGE_TOO_LARGE"
        using args(2) AEAD_FAMILY_AES_CCM by simp
      then show ?thesis
        using False AEAD_FAMILY_AES_CCM
        by (simp add: LIBERAC_AEAD_DECRYPT_def p ok aead_aes_decrypt_def req(3) crypto_aes_ccm_decrypt_def)
    qed
  next
    case AEAD_FAMILY_CHACHA20_POLY1305
    have l: "crypto_chacha20_poly1305_validate_lengths n al = SUCCESS"
      using ok AEAD_FAMILY_CHACHA20_POLY1305 unfolding aead_validate_SUCCESS by auto
    have d: "kl = 32" "nl = 12" "t = 16" using req(2) AEAD_FAMILY_CHACHA20_POLY1305 by simp_all
    show ?thesis
      using AEAD_FAMILY_CHACHA20_POLY1305 decrypt_internal_eq [OF l io nz, of m tag key nonce aad] d
      unfolding LIBERAC_AEAD_DECRYPT_def p sum.case ok Let_def
      by (simp add: aead_unseal_def chacha_unseal_def
          aead_limits_def chacha20_poly1305_ct_def)
  qed
qed

section \<open>Round trip and authenticity\<close>

lemma aead_unknown_algorithm:
  "aead_parameters alg = Inl e \<Longrightarrow> e = INVALID_ALG_ID"
  by (auto simp: aead_parameters_def split: if_splits)

lemma aead_encrypt_SUCCESS:
  assumes "LIBERAC_AEAD_ENCRYPT m out cap tag tcap t inp n key kl nonce nl aad al alg = (SUCCESS, m')"
  obtains p where "aead_parameters alg = Inr p"
    and "aead_validate_request out cap tag t inp n key kl nonce nl aad al alg p = SUCCESS"
    and "aead_limits (aead_FAMILY p) nl al n"
    and "m' = store (store m out (fst (aead_sealed m (aead_FAMILY p) inp n key kl nonce nl aad al t))) tag
                (snd (aead_sealed m (aead_FAMILY p) inp n key kl nonce nl aad al t))"
proof (cases "aead_parameters alg")
  case (Inl e)
  then show thesis using assms aead_unknown_algorithm by (fastforce simp: LIBERAC_AEAD_ENCRYPT_def)
next
  case (Inr p)
  have ok: "aead_validate_request out cap tag t inp n key kl nonce nl aad al alg p = SUCCESS"
    using assms by (auto simp: LIBERAC_AEAD_ENCRYPT_def Inr Let_def split: if_splits)
  have t: "t \<le> tcap"
    using assms by (auto simp: LIBERAC_AEAD_ENCRYPT_def Inr ok not_less[symmetric] split: if_splits)
  show thesis
    using assms that [OF Inr ok] unfolding aead_encrypt_eq [OF Inr ok t] by (auto split: if_splits)
qed

lemma aead_decrypt_SUCCESS:
  assumes "LIBERAC_AEAD_DECRYPT m out cap tag t inp n key kl nonce nl aad al alg = (SUCCESS, m')"
  obtains p q where "aead_parameters alg = Inr p"
    and "aead_validate_request out cap tag t inp n key kl nonce nl aad al alg p = SUCCESS"
    and "aead_unseal (aead_FAMILY p, load m key kl) (load m nonce nl) (load m aad al) t
           (load m inp n) (load m tag t) = Some q"
    and "m' = store m out q"
proof (cases "aead_parameters alg")
  case (Inl e)
  then show thesis using assms aead_unknown_algorithm by (fastforce simp: LIBERAC_AEAD_DECRYPT_def)
next
  case (Inr p)
  have ok: "aead_validate_request out cap tag t inp n key kl nonce nl aad al alg p = SUCCESS"
    using assms by (auto simp: LIBERAC_AEAD_DECRYPT_def Inr Let_def split: if_splits)
  show thesis
    using assms that [OF Inr ok] unfolding aead_decrypt_eq [OF Inr ok]
    by (auto split: if_splits option.splits)
qed

lemma length_aead_sealed:
  assumes "aead_parameters alg = Inr p"
    and "aead_validate_request out cap tag t inp n key kl nonce nl aad al alg p = SUCCESS"
  shows "length (fst (aead_sealed m (aead_FAMILY p) inp n key kl nonce nl aad al t)) = n"
    and "length (snd (aead_sealed m (aead_FAMILY p) inp n key kl nonce nl aad al t)) = t"
  using aead.length_seal [OF aead_valid_request(1) [OF assms]]
    aead.length_tag [OF aead_valid_request(1) [OF assms]]
  by (simp_all add: aead_sealed_def)

lemma aead_validate_in_place:
  assumes "aead_validate_request out cap tag t inp n key kl nonce nl aad al alg p = SUCCESS"
  shows "aead_validate_request out cap tag t out n key kl nonce nl aad al alg p = SUCCESS"
  using assms unfolding aead_validate_SUCCESS aead_ranges_ok_def disjoint_sets by blast

text \<open>
  C3. Round trip through the public interface, for every algorithm: whenever
  \<^verbatim>\<open>LIBERAC_AEAD_ENCRYPT\<close> succeeds, \<^verbatim>\<open>LIBERAC_AEAD_DECRYPT\<close> run on the produced ciphertext
  and tag, in place and with the same parameters, succeeds, puts the plaintext back and
  changes nothing outside the output buffer.
\<close>

theorem aead_encrypt_decrypt:
  assumes "LIBERAC_AEAD_ENCRYPT m out cap tag tcap t inp n key kl nonce nl aad al alg = (SUCCESS, m')"
  shows "LIBERAC_AEAD_DECRYPT m' out cap tag t out n key kl nonce nl aad al alg =
    (SUCCESS, store m' out (load m inp n))"
proof -
  obtain p where p: "aead_parameters alg = Inr p"
    and ok: "aead_validate_request out cap tag t inp n key kl nonce nl aad al alg p = SUCCESS"
    and lim: "aead_limits (aead_FAMILY p) nl al n"
    and m': "m' = store (store m out (fst (aead_sealed m (aead_FAMILY p) inp n key kl nonce nl aad al t))) tag
                (snd (aead_sealed m (aead_FAMILY p) inp n key kl nonce nl aad al t))"
    using aead_encrypt_SUCCESS [OF assms] by blast
  note len = length_aead_sealed [OF p ok, of m]
  have r: "aead_ranges_ok out inp n tag t key kl nonce nl aad al"
    using ok unfolding aead_validate_SUCCESS by blast
  then have "disjoint tag t out n" unfolding aead_ranges_ok_def disjoint_sets by blast
  then have out: "load m' out n = fst (aead_sealed m (aead_FAMILY p) inp n key kl nonce nl aad al t)"
    using load_store_same [of m out "fst (aead_sealed m (aead_FAMILY p) inp n key kl nonce nl aad al t)"]
    by (simp add: m' load_store_disjoint len)
  have tag: "load m' tag t = snd (aead_sealed m (aead_FAMILY p) inp n key kl nonce nl aad al t)"
    using load_store_same [of _ tag "snd (aead_sealed m (aead_FAMILY p) inp n key kl nonce nl aad al t)"]
    by (simp add: m' len)
  have same: "load m' key kl = load m key kl" "load m' nonce nl = load m nonce nl" "load m' aad al = load m aad al"
    using r by (simp_all add: m' load_store_disjoint len aead_ranges_ok_def)
  show ?thesis
    using lim aead.unseal_seal [OF aead_valid_request(1) [OF p ok, of m]]
    unfolding aead_decrypt_eq [OF p aead_validate_in_place [OF ok]] out tag same
    by (simp add: aead_sealed_def)
qed

theorem aead_encrypt_decrypt_witness:
  "\<exists>m'. LIBERAC_AEAD_ENCRYPT (\<lambda>a. of_nat a) 1000 20 2000 16 16 1000 20 3000 32 4000 12 5000 7
        LIBERAC_ALG_CHACHA20_POLY1305 = (SUCCESS, m') \<and>
    load (snd (LIBERAC_AEAD_DECRYPT m' 1000 20 2000 16 1000 20 3000 32 4000 12 5000 7
        LIBERAC_ALG_CHACHA20_POLY1305)) 1000 20 = load (\<lambda>a. of_nat a) 1000 20"
proof -
  let ?m = "(\<lambda>a. of_nat a) :: mem"
  have p: "aead_parameters LIBERAC_ALG_CHACHA20_POLY1305 =
      Inr \<lparr>aead_KEY_LENGTH = 32, aead_FAMILY = AEAD_FAMILY_CHACHA20_POLY1305\<rparr>"
    by (simp add: aead_parameters_def)
  have ok: "aead_validate_request 1000 20 2000 16 1000 20 3000 32 4000 12 5000 7 LIBERAC_ALG_CHACHA20_POLY1305
      \<lparr>aead_KEY_LENGTH = 32, aead_FAMILY = AEAD_FAMILY_CHACHA20_POLY1305\<rparr> = SUCCESS"
    by (simp add: aead_validate_SUCCESS LIBERAC_AEAD_NONCE_LENGTH_VALID_def LIBERAC_AEAD_TAG_LENGTH_VALID_def
        p crypto_chacha20_poly1305_validate_lengths_def crypto_chacha20_validate_length_def
        aead_ranges_ok_def disjoint_def)
  have "fst (LIBERAC_AEAD_ENCRYPT ?m 1000 20 2000 16 16 1000 20 3000 32 4000 12 5000 7
      LIBERAC_ALG_CHACHA20_POLY1305) = SUCCESS"
    unfolding aead_encrypt_eq [OF p ok order_refl] by (simp add: aead_limits_def)
  then obtain m' where m': "LIBERAC_AEAD_ENCRYPT ?m 1000 20 2000 16 16 1000 20 3000 32 4000 12 5000 7
      LIBERAC_ALG_CHACHA20_POLY1305 = (SUCCESS, m')"
    by (metis prod.collapse)
  show ?thesis
  proof (intro exI conjI)
    show "LIBERAC_AEAD_ENCRYPT ?m 1000 20 2000 16 16 1000 20 3000 32 4000 12 5000 7
      LIBERAC_ALG_CHACHA20_POLY1305 = (SUCCESS, m')" by (rule m')
    show "load (snd (LIBERAC_AEAD_DECRYPT m' 1000 20 2000 16 1000 20 3000 32 4000 12 5000 7
        LIBERAC_ALG_CHACHA20_POLY1305)) 1000 20 = load ?m 1000 20"
      using load_store_same [of m' 1000 "load ?m 1000 20"]
      unfolding aead_encrypt_decrypt [OF m'] by simp
  qed
qed

text \<open>
  C4. No unauthenticated plaintext leaves \<^verbatim>\<open>LIBERAC_AEAD_DECRYPT\<close>. When it succeeds, the
  received ciphertext and tag are exactly what sealing the bytes now in the output buffer
  gives under the same key, nonce and associated data. When it does not, memory is
  unchanged or the output buffer holds only zeroes; and an authentication failure means
  that no plaintext at all seals to the received ciphertext and tag.
\<close>

theorem aead_decrypt_authentic:
  assumes "LIBERAC_AEAD_DECRYPT m out cap tag t inp n key kl nonce nl aad al alg = (s, m')"
    and "aead_parameters alg = Inr p"
  defines "seal \<equiv> aead_seal (aead_FAMILY p, load m key kl) (load m nonce nl) (load m aad al) t"
  shows "(s = SUCCESS \<longrightarrow> seal (load m' out n) = (load m inp n, load m tag t)) \<and>
    (s = AUTHENTICATION_FAILED \<longrightarrow> (\<forall>q. seal q \<noteq> (load m inp n, load m tag t))) \<and>
    (s \<noteq> SUCCESS \<longrightarrow> m' = m \<or> m' = store m out (zeroes n))"
proof (cases "aead_validate_request out cap tag t inp n key kl nonce nl aad al alg p = SUCCESS")
  case ok: True
  have nz: "n \<noteq> 0 \<longrightarrow> out \<noteq> 0" using ok unfolding aead_validate_SUCCESS by blast
  note v = aead_valid_request(1) [OF assms(2) ok, of m]
  have un: "aead_unseal (aead_FAMILY p, load m key kl) (load m nonce nl) (load m aad al) t
      (load m inp n) (load m tag t) = Some q \<longleftrightarrow> seal q = (load m inp n, load m tag t)" for q
    unfolding seal_def using aead.unseal_iff [OF v] by simp
  have len: "length q = n" if "seal q = (load m inp n, load m tag t)" for q
    using aead.length_unseal [OF v, of "load m tag t"] that unfolding un [symmetric] by fastforce
  have ld: "load (store m out q) out n = q" if "seal q = (load m inp n, load m tag t)" for q
    using load_store_same [of m out q] len [OF that] by simp
  have zz: "crypto_zeroize m out n = m \<or> crypto_zeroize m out n = store m out (zeroes n)"
    using nz by (auto simp: crypto_zeroize_def)
  show ?thesis
    using assms(1) ld zz un un [THEN iffD2]
    unfolding aead_decrypt_eq [OF assms(2) ok]
    by (fastforce split: if_splits option.splits)
next
  case False
  moreover have "aead_validate_request out cap tag t inp n key kl nonce nl aad al alg p \<noteq> AUTHENTICATION_FAILED"
    by (auto simp: aead_validate_request_def Let_def crypto_chacha20_poly1305_validate_lengths_def
        crypto_chacha20_validate_length_def)
  ultimately show ?thesis
    using assms(1) unfolding LIBERAC_AEAD_DECRYPT_def assms(2) by auto
qed

theorem aead_decrypt_authentic_witness:
  "\<exists>m s m'. LIBERAC_AEAD_DECRYPT m 1000 20 2000 16 1000 20 3000 32 4000 12 5000 7
        LIBERAC_ALG_CHACHA20_POLY1305 = (s, m') \<and> s \<in> {SUCCESS, AUTHENTICATION_FAILED} \<and>
    (s = AUTHENTICATION_FAILED \<longrightarrow> m' = m \<or> m' = store m 1000 (zeroes 20))"
proof -
  let ?m = "(\<lambda>a. of_nat a) :: mem"
  let ?p = "\<lparr>aead_KEY_LENGTH = 32, aead_FAMILY = AEAD_FAMILY_CHACHA20_POLY1305\<rparr>"
  have p: "aead_parameters LIBERAC_ALG_CHACHA20_POLY1305 = Inr ?p"
    by (simp add: aead_parameters_def)
  have ok: "aead_validate_request 1000 20 2000 16 1000 20 3000 32 4000 12 5000 7 LIBERAC_ALG_CHACHA20_POLY1305
      ?p = SUCCESS"
    by (simp add: aead_validate_SUCCESS LIBERAC_AEAD_NONCE_LENGTH_VALID_def LIBERAC_AEAD_TAG_LENGTH_VALID_def
        p crypto_chacha20_poly1305_validate_lengths_def crypto_chacha20_validate_length_def
        aead_ranges_ok_def disjoint_def)
  obtain s m' where d: "LIBERAC_AEAD_DECRYPT ?m 1000 20 2000 16 1000 20 3000 32 4000 12 5000 7
        LIBERAC_ALG_CHACHA20_POLY1305 = (s, m')"
    by (metis prod.collapse)
  then have "s \<in> {SUCCESS, AUTHENTICATION_FAILED}"
    unfolding aead_decrypt_eq [OF p ok] by (auto simp: aead_limits_def split: option.splits)
  then show ?thesis
    using d aead_decrypt_authentic [OF d p] by (intro exI [of _ ?m] exI [of _ s] exI [of _ m']) auto
qed

end
