(* ===== verification/Triple_DES.thy ===== *)
theory Triple_DES
  imports Block_Modes Alg_Ids
begin

text \<open>
  \<^verbatim>\<open>src/BlockCipher/TripleDES/triple_des.c\<close>: DES with its eight S-boxes and the
  permutation P evaluated together by a tree of Boolean multiplexers, three-key EDE, and the
  ECB and CBC entry point on the memory. The lemmas show that the tree computes the tables
  of FIPS 46-3, that the permutation networks and the Feistel rounds invert, and that the
  single loop of the entry point is the standard mode of operation.
\<close>

section \<open>Tables\<close>

definition PC1 :: "nat list" where
  "PC1 =
  [57, 49, 41, 33, 25, 17, 9, 1, 58, 50, 42, 34, 26, 18,
   10, 2, 59, 51, 43, 35, 27, 19, 11, 3, 60, 52, 44, 36,
   63, 55, 47, 39, 31, 23, 15, 7, 62, 54, 46, 38, 30, 22,
   14, 6, 61, 53, 45, 37, 29, 21, 13, 5, 28, 20, 12, 4]"

definition PC2 :: "nat list" where
  "PC2 =
  [14, 17, 11, 24, 1, 5, 3, 28, 15, 6, 21, 10,
   23, 19, 12, 4, 26, 8, 16, 7, 27, 20, 13, 2,
   41, 52, 31, 37, 47, 55, 30, 40, 51, 45, 33, 48,
   44, 49, 39, 56, 34, 53, 46, 42, 50, 36, 29, 32]"

definition ROT :: "nat list" where
  "ROT = [1, 1, 2, 2, 2, 2, 2, 2, 1, 2, 2, 2, 2, 2, 2, 1]"

definition SBOX_OUTPUT_MASKS :: "u32 list" where
  "SBOX_OUTPUT_MASKS =
  [0x00808202, 0x40084010, 0x04010104, 0x80401040,
   0x21040080, 0x10202008, 0x02100401, 0x08020820]"

definition TRUTH_TABLE :: "u32 list" where
  "TRUTH_TABLE =
  [0xd8d8dbbc, 0xd73559c1, 0x8306f441, 0x3dabeafe, 0x1cec9542, 0x8a408efb,
   0xf079253f, 0xcf34d510, 0x721726b5, 0x4cfef21c, 0x4deadaa6, 0xf2471ac9,
   0xeda34bcf, 0x338fa826, 0x16d508d1, 0xe048253f, 0x8f0a4602, 0x28bc163d,
   0x7cd56b19, 0x8240bf20, 0x6223abc1, 0x37d7e0a8, 0xaf9fd4bc, 0x59bb1bcf,
   0xb77c897e, 0xe0810592, 0x00a1344b, 0x3f7ae567, 0x091474bc, 0x4d697b47,
   0xf36abb62, 0x949644d0, 0x1647a960, 0xa5dac69a, 0x587b189e, 0x83e8bd45,
   0xf2a1e679, 0x4fbf0121, 0x67986989, 0x30465aa9, 0x49b899c3, 0x7241e064,
   0xbf458774, 0xcd9e619a, 0xbe5e56bc, 0x982035db, 0x81b27643, 0x7f358e66,
   0xa5e4f7df, 0xda2fe8e3, 0xa79a8421, 0x7fb513be, 0x89de041e, 0xc8017b16,
   0x78659b73, 0xa7f8a65d, 0x8c0f7aa2, 0x05b21fcd, 0x72d26b8c, 0x84455c30,
   0x5221a967, 0x724e8634, 0x4d2d549c, 0x38dbf9cb]"

section \<open>Bit permutations\<close>

definition load64_be :: "byte list \<Rightarrow> u64" where
  "load64_be input = fold (\<lambda>index v. push_bit 8 v OR ucast (input ! index)) [0..<8] 0"

definition store64_be :: "u64 \<Rightarrow> byte list" where
  "store64_be v = fold (\<lambda>index output. output[7 - index := ucast (drop_bit (8 * index) v)]) [0..<8] (zeroes 8)"

definition permute_bits :: "u64 \<Rightarrow> nat \<Rightarrow> nat list \<Rightarrow> nat \<Rightarrow> u64" where
  "permute_bits input input_bits table output_bits =
     fold (\<lambda>index output.
       push_bit 1 output OR (drop_bit (input_bits - table ! index) input AND 1)) [0..<output_bits] 0"

definition initial_permutation :: "u64 \<Rightarrow> u64" where
  "initial_permutation input =
     (let left = ucast (drop_bit 32 input) :: u32;
          right = ucast input :: u32;
          temporary = (drop_bit 4 left XOR right) AND 0x0f0f0f0f;
          right = right XOR temporary;
          left = left XOR push_bit 4 temporary;
          temporary = (drop_bit 16 left XOR right) AND 0x0000ffff;
          right = right XOR temporary;
          left = left XOR push_bit 16 temporary;
          temporary = (drop_bit 2 right XOR left) AND 0x33333333;
          left = left XOR temporary;
          right = right XOR push_bit 2 temporary;
          temporary = (drop_bit 8 right XOR left) AND 0x00ff00ff;
          left = left XOR temporary;
          right = right XOR push_bit 8 temporary;
          temporary = (drop_bit 1 left XOR right) AND 0x55555555;
          right = right XOR temporary;
          left = left XOR push_bit 1 temporary
      in push_bit 32 (ucast left) OR ucast right)"

definition final_permutation :: "u64 \<Rightarrow> u64" where
  "final_permutation input =
     (let left = ucast (drop_bit 32 input) :: u32;
          right = ucast input :: u32;
          temporary = (drop_bit 1 left XOR right) AND 0x55555555;
          right = right XOR temporary;
          left = left XOR push_bit 1 temporary;
          temporary = (drop_bit 8 right XOR left) AND 0x00ff00ff;
          left = left XOR temporary;
          right = right XOR push_bit 8 temporary;
          temporary = (drop_bit 2 right XOR left) AND 0x33333333;
          left = left XOR temporary;
          right = right XOR push_bit 2 temporary;
          temporary = (drop_bit 16 left XOR right) AND 0x0000ffff;
          right = right XOR temporary;
          left = left XOR push_bit 16 temporary;
          temporary = (drop_bit 4 left XOR right) AND 0x0f0f0f0f;
          right = right XOR temporary;
          left = left XOR push_bit 4 temporary
      in push_bit 32 (ucast left) OR ucast right)"

section \<open>The round function\<close>

definition des_expand :: "u32 \<Rightarrow> u64" where
  "des_expand right =
     push_bit 42 (ucast (push_bit 5 (right AND 1) OR drop_bit 27 right)) OR
     push_bit 36 (ucast (drop_bit 23 right AND 63)) OR
     push_bit 30 (ucast (drop_bit 19 right AND 63)) OR
     push_bit 24 (ucast (drop_bit 15 right AND 63)) OR
     push_bit 18 (ucast (drop_bit 11 right AND 63)) OR
     push_bit 12 (ucast (drop_bit 7 right AND 63)) OR
     push_bit 6 (ucast (drop_bit 3 right AND 63)) OR
     ucast (push_bit 1 (right AND 31) OR drop_bit 31 right)"

definition des_planes :: "u64 \<Rightarrow> u32 list" where
  "des_planes expanded =
     fold (\<lambda>box planes.
       let input = ucast (drop_bit (42 - 6 * box) expanded) AND 63
       in fold (\<lambda>bit planes.
            let mask = 0 - (drop_bit bit input AND 1)
            in planes[bit := planes ! bit OR (mask AND SBOX_OUTPUT_MASKS ! box)]) [0..<6] planes)
       [0..<8] (replicate 6 0)"

definition des_mux_first :: "u32 list \<Rightarrow> u32 list" where
  "des_mux_first planes =
     map (\<lambda>index.
       let left = TRUTH_TABLE ! (2 * index)
       in left XOR (planes ! 0 AND (left XOR TRUTH_TABLE ! (2 * index + 1)))) [0..<32]"

definition des_mux_level :: "u32 \<Rightarrow> nat \<Rightarrow> u32 list \<Rightarrow> u32 list" where
  "des_mux_level plane node_count nodes =
     fold (\<lambda>index nodes.
       let left = nodes ! (2 * index)
       in nodes[index := left XOR (plane AND (left XOR nodes ! (2 * index + 1)))]) [0..<node_count] nodes"

definition des_mux :: "u32 list \<Rightarrow> u32" where
  "des_mux planes =
     (let (node_count, nodes) =
        fold (\<lambda>bit (node_count, nodes).
          let node_count = node_count div 2
          in (node_count, des_mux_level (planes ! bit) node_count nodes)) [1..<6]
          (32, des_mux_first planes)
      in nodes ! 0)"

definition des_round_function :: "u32 \<Rightarrow> u64 \<Rightarrow> u32" where
  "des_round_function right round_key = des_mux (des_planes (des_expand right XOR round_key))"

section \<open>Key schedule and blocks\<close>

definition rotl28 :: "nat \<Rightarrow> u32 \<Rightarrow> u32" where
  "rotl28 n half = (push_bit n half OR drop_bit (28 - n) half) AND 0x0fffffff"

definition des_key_schedule :: "byte list \<Rightarrow> u64 list" where
  "des_key_schedule key =
     (let permuted = permute_bits (load64_be key) 64 PC1 56;
          left = ucast (drop_bit 28 permuted) :: u32;
          right = ucast (permuted AND 0x0fffffff) :: u32;
          (left, right, round_keys) =
            fold (\<lambda>index (left, right, round_keys).
              let left = rotl28 (ROT ! index) left;
                  right = rotl28 (ROT ! index) right
              in (left, right, round_keys @
                    [permute_bits (push_bit 28 (ucast left) OR ucast right) 56 PC2 48]))
              [0..<16] (left, right, [])
      in round_keys)"

definition des_rounds :: "u64 \<Rightarrow> u64 list \<Rightarrow> bool \<Rightarrow> u64" where
  "des_rounds input round_keys encrypt =
     (let (left, right) =
        fold (\<lambda>round (left, right).
          (right, left XOR des_round_function right
             (round_keys ! (if encrypt then round else 15 - round)))) [0..<16]
          (ucast (drop_bit 32 input) :: u32, ucast input :: u32)
      in push_bit 32 (ucast right) OR ucast left)"

definition triple_des_block :: "u64 \<Rightarrow> u64 list list \<Rightarrow> bool \<Rightarrow> u64" where
  "triple_des_block block round_keys encrypt =
     (let state = initial_permutation block
      in final_permutation
        (if encrypt then
           let state = des_rounds state (round_keys ! 0) True;
               state = des_rounds state (round_keys ! 1) False
           in des_rounds state (round_keys ! 2) True
         else
           let state = des_rounds state (round_keys ! 2) False;
               state = des_rounds state (round_keys ! 1) True
           in des_rounds state (round_keys ! 0) False))"

text \<open>A context holds the round keys of the three stages; cleared, they are zero.\<close>

type_synonym CryptoTdesEde3Context = "u64 list list"

definition crypto_tdes_ede3_context_clear :: CryptoTdesEde3Context where
  "crypto_tdes_ede3_context_clear = replicate 3 (replicate 16 0)"

definition tdes_round_keys :: "byte list \<Rightarrow> u64 list list" where
  "tdes_round_keys key =
     [des_key_schedule key, des_key_schedule (drop 8 key), des_key_schedule (drop 16 key)]"

definition crypto_tdes_ede3_context_init ::
    "byte list option \<Rightarrow> nat \<Rightarrow> status \<times> CryptoTdesEde3Context option" where
  "crypto_tdes_ede3_context_init key key_length =
     (case key of
        None \<Rightarrow> (INVALID_ARGUMENT, None)
      | Some key \<Rightarrow>
          if key_length \<noteq> 24 then (INVALID_KEY, Some crypto_tdes_ede3_context_clear)
          else (SUCCESS, Some (tdes_round_keys key)))"

definition crypto_tdes_ede3_encrypt_block ::
    "CryptoTdesEde3Context \<Rightarrow> byte list \<Rightarrow> status \<times> byte list" where
  "crypto_tdes_ede3_encrypt_block context input =
     (SUCCESS, store64_be (triple_des_block (load64_be input) context True))"

section \<open>The entry point\<close>

datatype CryptoTdesMode = CRYPTO_TDES_MODE_ECB | CRYPTO_TDES_MODE_CBC

definition tdes_validate ::
    "addr \<Rightarrow> nat \<Rightarrow> addr \<Rightarrow> nat \<Rightarrow> addr \<Rightarrow> nat \<Rightarrow> addr \<Rightarrow> nat \<Rightarrow> CryptoTdesMode \<Rightarrow> status" where
  "tdes_validate output output_capacity input input_length key key_length iv iv_length mode =
     (if key = 0 \<or> ((input = 0 \<or> output = 0) \<and> input_length \<noteq> 0) then INVALID_ARGUMENT
      else if key_length \<noteq> 24 then INVALID_KEY
      else if input_length mod 8 \<noteq> 0 then INVALID_ARGUMENT
      else if mode = CRYPTO_TDES_MODE_ECB \<and> iv_length \<noteq> 0 then INVALID_ARGUMENT
      else if mode = CRYPTO_TDES_MODE_CBC \<and> (iv = 0 \<or> iv_length \<noteq> 8) then INVALID_ARGUMENT
      else if output_capacity < input_length then BUFFER_TOO_SMALL
      else SUCCESS)"

definition tdes_step :: "u64 list list \<Rightarrow> CryptoTdesMode \<Rightarrow> bool \<Rightarrow> u64 \<Rightarrow> byte list \<Rightarrow> u64 \<times> byte list" where
  "tdes_step round_keys mode encrypt chain input =
     (let block = load64_be input;
          block = (if encrypt \<and> mode = CRYPTO_TDES_MODE_CBC then block XOR chain else block);
          result = triple_des_block block round_keys encrypt;
          (result, chain) =
            (if \<not> encrypt \<and> mode = CRYPTO_TDES_MODE_CBC then (result XOR chain, block)
             else if mode = CRYPTO_TDES_MODE_CBC then (result, result)
             else (result, chain))
      in (chain, store64_be result))"

definition crypto_tdes_ede3_crypt ::
    "mem \<Rightarrow> addr \<Rightarrow> nat \<Rightarrow> addr \<Rightarrow> nat \<Rightarrow> addr \<Rightarrow> nat \<Rightarrow> addr \<Rightarrow> nat \<Rightarrow> CryptoTdesMode \<Rightarrow> bool \<Rightarrow>
     status \<times> mem" where
  "crypto_tdes_ede3_crypt m output output_capacity input input_length key key_length iv iv_length
       mode encrypt =
     (let err = tdes_validate output output_capacity input input_length key key_length iv iv_length mode;
          chain = (if mode = CRYPTO_TDES_MODE_CBC then load64_be (load m iv 8) else 0)
      in if err \<noteq> SUCCESS then (err, m)
         else if input_length = 0 then (SUCCESS, m)
         else let round_keys = tdes_round_keys (load m key 24)
           in block_loop 8 (\<lambda>chain input. (SUCCESS, tdes_step round_keys mode encrypt chain input))
                output input input_length m chain 0)"

section \<open>The round function of FIPS 46-3\<close>

definition FIPS_E :: "nat list" where
  "FIPS_E =
   [32, 1, 2, 3, 4, 5, 4, 5, 6, 7, 8, 9,
    8, 9, 10, 11, 12, 13, 12, 13, 14, 15, 16, 17,
    16, 17, 18, 19, 20, 21, 20, 21, 22, 23, 24, 25,
    24, 25, 26, 27, 28, 29, 28, 29, 30, 31, 32, 1]"

definition FIPS_P :: "nat list" where
  "FIPS_P =
   [16, 7, 20, 21, 29, 12, 28, 17, 1, 15, 23, 26, 5, 18, 31, 10,
    2, 8, 24, 14, 32, 27, 3, 9, 19, 13, 30, 6, 22, 11, 4, 25]"

definition FIPS_S :: "nat list list" where
  "FIPS_S =
  [[14, 4, 13, 1, 2, 15, 11, 8, 3, 10, 6, 12, 5, 9, 0, 7,
    0, 15, 7, 4, 14, 2, 13, 1, 10, 6, 12, 11, 9, 5, 3, 8,
    4, 1, 14, 8, 13, 6, 2, 11, 15, 12, 9, 7, 3, 10, 5, 0,
    15, 12, 8, 2, 4, 9, 1, 7, 5, 11, 3, 14, 10, 0, 6, 13],
   [15, 1, 8, 14, 6, 11, 3, 4, 9, 7, 2, 13, 12, 0, 5, 10,
    3, 13, 4, 7, 15, 2, 8, 14, 12, 0, 1, 10, 6, 9, 11, 5,
    0, 14, 7, 11, 10, 4, 13, 1, 5, 8, 12, 6, 9, 3, 2, 15,
    13, 8, 10, 1, 3, 15, 4, 2, 11, 6, 7, 12, 0, 5, 14, 9],
   [10, 0, 9, 14, 6, 3, 15, 5, 1, 13, 12, 7, 11, 4, 2, 8,
    13, 7, 0, 9, 3, 4, 6, 10, 2, 8, 5, 14, 12, 11, 15, 1,
    13, 6, 4, 9, 8, 15, 3, 0, 11, 1, 2, 12, 5, 10, 14, 7,
    1, 10, 13, 0, 6, 9, 8, 7, 4, 15, 14, 3, 11, 5, 2, 12],
   [7, 13, 14, 3, 0, 6, 9, 10, 1, 2, 8, 5, 11, 12, 4, 15,
    13, 8, 11, 5, 6, 15, 0, 3, 4, 7, 2, 12, 1, 10, 14, 9,
    10, 6, 9, 0, 12, 11, 7, 13, 15, 1, 3, 14, 5, 2, 8, 4,
    3, 15, 0, 6, 10, 1, 13, 8, 9, 4, 5, 11, 12, 7, 2, 14],
   [2, 12, 4, 1, 7, 10, 11, 6, 8, 5, 3, 15, 13, 0, 14, 9,
    14, 11, 2, 12, 4, 7, 13, 1, 5, 0, 15, 10, 3, 9, 8, 6,
    4, 2, 1, 11, 10, 13, 7, 8, 15, 9, 12, 5, 6, 3, 0, 14,
    11, 8, 12, 7, 1, 14, 2, 13, 6, 15, 0, 9, 10, 4, 5, 3],
   [12, 1, 10, 15, 9, 2, 6, 8, 0, 13, 3, 4, 14, 7, 5, 11,
    10, 15, 4, 2, 7, 12, 9, 5, 6, 1, 13, 14, 0, 11, 3, 8,
    9, 14, 15, 5, 2, 8, 12, 3, 7, 0, 4, 10, 1, 13, 11, 6,
    4, 3, 2, 12, 9, 5, 15, 10, 11, 14, 1, 7, 6, 0, 8, 13],
   [4, 11, 2, 14, 15, 0, 8, 13, 3, 12, 9, 7, 5, 10, 6, 1,
    13, 0, 11, 7, 4, 9, 1, 10, 14, 3, 5, 12, 2, 15, 8, 6,
    1, 4, 11, 13, 12, 3, 7, 14, 10, 15, 6, 8, 0, 5, 9, 2,
    6, 11, 13, 8, 1, 4, 10, 7, 9, 5, 0, 15, 14, 2, 3, 12],
   [13, 2, 8, 4, 6, 15, 11, 1, 10, 9, 3, 14, 5, 0, 12, 7,
    1, 15, 13, 8, 10, 3, 7, 4, 12, 5, 6, 11, 0, 14, 9, 2,
    7, 11, 4, 1, 9, 12, 14, 2, 0, 6, 10, 13, 15, 3, 5, 8,
    2, 1, 14, 7, 4, 10, 8, 13, 15, 12, 9, 0, 3, 5, 6, 11]]"

text \<open>Row from the outer bits, column from the inner four.\<close>

definition fips_sbox :: "nat \<Rightarrow> nat \<Rightarrow> nat" where
  "fips_sbox box x = FIPS_S ! box ! (16 * (2 * (x div 32) + x mod 2) + x div 2 mod 16)"

definition fips_f :: "u64 \<Rightarrow> u64 \<Rightarrow> u64" where
  "fips_f right round_key =
     (let expanded = permute_bits right 32 FIPS_E 48 XOR round_key;
          substituted = fold (\<lambda>box v. push_bit 4 v OR
            of_nat (fips_sbox box (unat (drop_bit (42 - 6 * box) expanded AND 63)))) [0..<8] 0
      in permute_bits substituted 32 FIPS_P 32)"

lemma bit_of_pieces:
  fixes f :: "nat \<Rightarrow> 'a::len word"
  assumes "0 < w" and "k * w \<le> LENGTH('a)" and "\<And>i n. i < k \<Longrightarrow> bit (f i) n \<Longrightarrow> n < w"
  shows "bit (fold (\<lambda>i v. push_bit w v OR f i) [0..<k] 0) n \<longleftrightarrow>
    n < k * w \<and> bit (f (k - 1 - n div w)) (n mod w)"
  using assms(2,3)
proof (induction k arbitrary: n)
  case (Suc k)
  have IH: "bit (fold (\<lambda>i v. push_bit w v OR f i) [0..<k] 0) n \<longleftrightarrow>
      n < k * w \<and> bit (f (k - 1 - n div w)) (n mod w)" for n
    by (rule Suc.IH) (use Suc.prems(1) in simp, meson Suc.prems(2) less_SucI)
  show ?case
  proof (cases "n < w")
    case True
    then show ?thesis using Suc.prems(1) by (simp add: bit_simps)
  next
    case False
    then obtain m where n: "n = m + w" by (metis le_add_diff_inverse2 linorder_not_less)
    have f: "\<not> bit (f k) n" using False Suc.prems(2) by blast
    have len: "m < k * w \<Longrightarrow> n < LENGTH('a)" using Suc.prems(1) n by simp
    have eq: "n div w = Suc (m div w)" "n mod w = m mod w"
      using n assms(1) by (simp_all add: div_add_self2)
    have "bit (fold (\<lambda>i v. push_bit w v OR f i) [0..<Suc k] 0) n \<longleftrightarrow>
        n < LENGTH('a) \<and> bit (fold (\<lambda>i v. push_bit w v OR f i) [0..<k] 0) m"
      using False f by (simp add: bit_simps n)
    also have "\<dots> \<longleftrightarrow> m < k * w \<and> bit (f (k - 1 - m div w)) (m mod w)"
      using len by (auto simp: IH)
    finally show ?thesis by (simp add: n eq [unfolded n])
  qed
qed simp

lemma bit_permute_bits:
  assumes "ob \<le> 64"
  shows "bit (permute_bits x ib t ob) n \<longleftrightarrow> n < ob \<and> bit x (ib - t ! (ob - 1 - n))"
proof -
  have "bit (permute_bits x ib t ob) n \<longleftrightarrow>
      n < ob * 1 \<and> bit (drop_bit (ib - t ! (ob - 1 - n div 1)) x AND 1) (n mod 1)"
    unfolding permute_bits_def using assms
    by (intro bit_of_pieces) (auto simp: bit_simps)
  then show ?thesis by (simp add: bit_simps)
qed

lemma upt_tables:
  "[0..<6] = [0, 1, 2, 3, 4, 5]" "[0..<8] = [0, 1, 2, 3, 4, 5, 6, 7]"
  "[0..<32] = [0, 1, 2, 3, 4, 5, 6, 7, 8, 9, 10, 11, 12, 13, 14, 15, 16, 17, 18, 19, 20, 21,
     22, 23, 24, 25, 26, 27, 28, 29, 30, 31]"
  by code_simp+

definition box_of :: "nat \<Rightarrow> nat" where
  "box_of n = 7 - (32 - FIPS_P ! (31 - n)) div 4"

definition sbox_index :: "nat list" where
  "sbox_index =
   [0, 16, 1, 17, 2, 18, 3, 19, 4, 20, 5, 21, 6, 22, 7, 23,
    8, 24, 9, 25, 10, 26, 11, 27, 12, 28, 13, 29, 14, 30, 15, 31,
    32, 48, 33, 49, 34, 50, 35, 51, 36, 52, 37, 53, 38, 54, 39, 55,
    40, 56, 41, 57, 42, 58, 43, 59, 44, 60, 45, 61, 46, 62, 47, 63]"

lemma sbox_index: "map (\<lambda>x. 16 * (2 * (x div 32) + x mod 2) + x div 2 mod 16) [0..<64] = sbox_index"
  by code_simp

lemma fips_sbox_inputs:
  "map (fips_sbox box) [0..<64] = map ((!) (FIPS_S ! box)) sbox_index"
  unfolding sbox_index [symmetric] by (simp add: fips_sbox_def)

definition sbox_by_input :: "nat list list" where
  "sbox_by_input = map (\<lambda>box. map ((!) (FIPS_S ! box)) sbox_index) [0..<8]"

lemma sbox_by_input:
  "sbox_by_input =
  [[14, 0, 4, 15, 13, 7, 1, 4, 2, 14, 15, 2, 11, 13, 8, 1,
    3, 10, 10, 6, 6, 12, 12, 11, 5, 9, 9, 5, 0, 3, 7, 8,
    4, 15, 1, 12, 14, 8, 8, 2, 13, 4, 6, 9, 2, 1, 11, 7,
    15, 5, 12, 11, 9, 3, 7, 14, 3, 10, 10, 0, 5, 6, 0, 13],
   [15, 3, 1, 13, 8, 4, 14, 7, 6, 15, 11, 2, 3, 8, 4, 14,
    9, 12, 7, 0, 2, 1, 13, 10, 12, 6, 0, 9, 5, 11, 10, 5,
    0, 13, 14, 8, 7, 10, 11, 1, 10, 3, 4, 15, 13, 4, 1, 2,
    5, 11, 8, 6, 12, 7, 6, 12, 9, 0, 3, 5, 2, 14, 15, 9],
   [10, 13, 0, 7, 9, 0, 14, 9, 6, 3, 3, 4, 15, 6, 5, 10,
    1, 2, 13, 8, 12, 5, 7, 14, 11, 12, 4, 11, 2, 15, 8, 1,
    13, 1, 6, 10, 4, 13, 9, 0, 8, 6, 15, 9, 3, 8, 0, 7,
    11, 4, 1, 15, 2, 14, 12, 3, 5, 11, 10, 5, 14, 2, 7, 12],
   [7, 13, 13, 8, 14, 11, 3, 5, 0, 6, 6, 15, 9, 0, 10, 3,
    1, 4, 2, 7, 8, 2, 5, 12, 11, 1, 12, 10, 4, 14, 15, 9,
    10, 3, 6, 15, 9, 0, 0, 6, 12, 10, 11, 1, 7, 13, 13, 8,
    15, 9, 1, 4, 3, 5, 14, 11, 5, 12, 2, 7, 8, 2, 4, 14],
   [2, 14, 12, 11, 4, 2, 1, 12, 7, 4, 10, 7, 11, 13, 6, 1,
    8, 5, 5, 0, 3, 15, 15, 10, 13, 3, 0, 9, 14, 8, 9, 6,
    4, 11, 2, 8, 1, 12, 11, 7, 10, 1, 13, 14, 7, 2, 8, 13,
    15, 6, 9, 15, 12, 0, 5, 9, 6, 10, 3, 4, 0, 5, 14, 3],
   [12, 10, 1, 15, 10, 4, 15, 2, 9, 7, 2, 12, 6, 9, 8, 5,
    0, 6, 13, 1, 3, 13, 4, 14, 14, 0, 7, 11, 5, 3, 11, 8,
    9, 4, 14, 3, 15, 2, 5, 12, 2, 9, 8, 5, 12, 15, 3, 10,
    7, 11, 0, 14, 4, 1, 10, 7, 1, 6, 13, 0, 11, 8, 6, 13],
   [4, 13, 11, 0, 2, 11, 14, 7, 15, 4, 0, 9, 8, 1, 13, 10,
    3, 14, 12, 3, 9, 5, 7, 12, 5, 2, 10, 15, 6, 8, 1, 6,
    1, 6, 4, 11, 11, 13, 13, 8, 12, 1, 3, 4, 7, 10, 14, 7,
    10, 9, 15, 5, 6, 0, 8, 15, 0, 14, 5, 2, 9, 3, 2, 12],
   [13, 1, 2, 15, 8, 13, 4, 8, 6, 10, 15, 3, 11, 7, 1, 4,
    10, 12, 9, 5, 3, 6, 14, 11, 5, 0, 0, 14, 12, 9, 7, 2,
    7, 2, 11, 1, 4, 14, 1, 7, 9, 4, 12, 10, 14, 8, 2, 13,
    0, 15, 6, 12, 10, 9, 13, 0, 15, 3, 3, 5, 5, 6, 8, 11]]"
  by (simp add: sbox_by_input_def FIPS_S_def sbox_index_def upt_tables)

lemma des_mask_table:
  "list_all (\<lambda>n. list_all (\<lambda>box. bit (SBOX_OUTPUT_MASKS ! box) n = (box = box_of n)) [0..<8]) [0..<32]"
  by (simp add: upt_tables box_of_def FIPS_P_def SBOX_OUTPUT_MASKS_def)

lemma des_truth_table:
  "list_all (\<lambda>n. map (\<lambda>w. bit w n) TRUTH_TABLE =
     map (\<lambda>v. bit v ((32 - FIPS_P ! (31 - n)) mod 4)) (sbox_by_input ! box_of n)) [0..<32]"
  unfolding upt_tables list.pred_inject
  by (intro conjI; simp add: box_of_def FIPS_P_def sbox_by_input TRUTH_TABLE_def bit_Suc_0_iff)

lemma fips_sbox_less: "list_all (list_all (\<lambda>v. v < 16)) FIPS_S"
  by (simp add: FIPS_S_def)

lemma fips_E_table:
  "map (\<lambda>n. 32 - FIPS_E ! (47 - n)) [0..<48] = map (\<lambda>n. (4 * (n div 6) + n mod 6 + 31) mod 32) [0..<48]"
  by code_simp


lemma fips_sbox_bound: "box < 8 \<Longrightarrow> x < 64 \<Longrightarrow> fips_sbox box x < 16"
proof -
  assume box: "box < 8" and x: "x < 64"
  have "list_all (\<lambda>b. length b = 64) FIPS_S" by (simp add: FIPS_S_def)
  moreover have "length FIPS_S = 8" by (simp add: FIPS_S_def)
  moreover have "16 * (2 * (x div 32) + x mod 2) + x div 2 mod 16 < 64"
  proof -
    have "16 * (2 * a + b) + c < 64" if "a < 2" "b < 2" "c < 16" for a b c :: nat
    proof -
      have "a \<le> 1" "b \<le> 1" "c \<le> 15" using that by simp_all
      then have "16 * (2 * a + b) + c \<le> 16 * (2 * 1 + 1) + 15" by (intro add_mono mult_le_mono) auto
      then show ?thesis by simp
    qed
    moreover have "x div 32 < 2" using x by simp
    ultimately show ?thesis by simp
  qed
  ultimately show ?thesis
    using fips_sbox_less box unfolding fips_sbox_def list_all_length by simp
qed

lemma length_TRUTH_TABLE: "length TRUTH_TABLE = 64"
  by (simp add: TRUTH_TABLE_def)

lemma des_truth_table_bit:
  assumes "n < 32" and "x < 64"
  shows "bit (TRUTH_TABLE ! x) n \<longleftrightarrow> bit (fips_sbox (box_of n) x) ((32 - FIPS_P ! (31 - n)) mod 4)"
proof -
  have "map (\<lambda>w. bit w n) TRUTH_TABLE =
      map (\<lambda>v. bit v ((32 - FIPS_P ! (31 - n)) mod 4)) (sbox_by_input ! box_of n)"
    using des_truth_table assms(1) by (simp add: list_all_length)
  then have "map (\<lambda>w. bit w n) TRUTH_TABLE ! x =
      map (\<lambda>v. bit v ((32 - FIPS_P ! (31 - n)) mod 4)) (map (fips_sbox (box_of n)) [0..<64]) ! x"
    by (simp add: sbox_by_input_def fips_sbox_inputs box_of_def)
  then show ?thesis using assms(2) by (simp add: length_TRUTH_TABLE)
qed

lemma upt48:
  "[0..<48] = [0, 1, 2, 3, 4, 5, 6, 7, 8, 9, 10, 11, 12, 13, 14, 15, 16, 17, 18, 19, 20, 21, 22, 23,
     24, 25, 26, 27, 28, 29, 30, 31, 32, 33, 34, 35, 36, 37, 38, 39, 40, 41, 42, 43, 44, 45, 46, 47]"
  by code_simp

lemma bit_u32_facts:
  fixes w :: u32
  shows "32 \<le> k \<Longrightarrow> \<not> bit w k" "bit (w * 2) k \<longleftrightarrow> 0 < k \<and> k < 32 \<and> bit w (k - 1)"
    "bit (32 :: u32) k \<longleftrightarrow> k = 5" "bit (32 :: nat) k \<longleftrightarrow> k = 5" "bit (32 :: int) k \<longleftrightarrow> k = 5"
    "bit (32 :: u64) k \<longleftrightarrow> k = 5"
proof -
  show "bit (w * 2) k \<longleftrightarrow> 0 < k \<and> k < 32 \<and> bit w (k - 1)"
    using bit_double_iff [of w k] by (auto simp: mult.commute)
  have "(32 :: u32) = 2 ^ 5" by simp
  then show "bit (32 :: u32) k \<longleftrightarrow> k = 5" by (auto simp only: bit_exp_iff) simp
  have "(32 :: u64) = 2 ^ 5" by simp
  then show "bit (32 :: u64) k \<longleftrightarrow> k = 5" by (auto simp only: bit_exp_iff) simp
  have "(32 :: nat) = 2 ^ 5" by simp
  then show "bit (32 :: nat) k \<longleftrightarrow> k = 5" by (auto simp only: bit_exp_iff) simp
  have "(32 :: int) = 2 ^ 5" by simp
  then show "bit (32 :: int) k \<longleftrightarrow> k = 5" by (auto simp only: bit_exp_iff) simp
qed (auto dest: bit_imp_le_length)

lemma des_expand_bits:
  "list_all (\<lambda>n. bit (des_expand right) n = bit right ((4 * (n div 6) + n mod 6 + 31) mod 32)) [0..<48]"
  unfolding upt48 list.pred_inject
  by (intro conjI; simp add: des_expand_def bit_simps bit_Suc_0_iff bit_u32_facts)

lemma des_expand_correct: "des_expand right = permute_bits (ucast right) 32 FIPS_E 48"
proof (rule bit_word_eqI)
  fix n assume "n < LENGTH(64)"
  have E: "32 - FIPS_E ! (47 - n) = (4 * (n div 6) + n mod 6 + 31) mod 32" if "n < 48"
    using arg_cong [OF fips_E_table, of "\<lambda>xs. xs ! n"] that by simp
  have "bit (des_expand right) n \<longleftrightarrow> n < 48 \<and> bit right ((4 * (n div 6) + n mod 6 + 31) mod 32)"
  proof (cases "n < 48")
    case True
    then show ?thesis using des_expand_bits [of right] by (simp add: list_all_length)
  next
    case False
    then show ?thesis by (auto simp: des_expand_def bit_simps bit_u32_facts)
  qed
  then show "bit (des_expand right) n \<longleftrightarrow> bit (permute_bits (ucast right) 32 FIPS_E 48) n"
    by (auto simp: bit_permute_bits E bit_simps)
qed

section \<open>The multiplexer tree\<close>

definition mux_index :: "nat \<Rightarrow> bool \<Rightarrow> nat" where
  "mux_index i b = 2 * i + of_bool b"

lemma des_mux_bit: "bit (left XOR (plane AND (left XOR right))) n \<longleftrightarrow> bit (if bit plane n then right else left) n"
  for left :: u32
  by (auto simp: bit_simps)

lemma des_mux_first_bit:
  "i < 32 \<Longrightarrow> bit (des_mux_first planes ! i) n \<longleftrightarrow> bit (TRUTH_TABLE ! mux_index i (bit (planes ! 0) n)) n"
  by (simp add: des_mux_first_def Let_def des_mux_bit mux_index_def)

lemma length_des_mux_level [simp]: "length (des_mux_level plane k nodes) = length nodes"
proof -
  have "length (fold (\<lambda>i nodes. nodes[i := g nodes i]) is nodes) = length nodes" for g :: "u32 list \<Rightarrow> nat \<Rightarrow> u32" and "is"
    by (induction "is" arbitrary: nodes) simp_all
  then show ?thesis by (simp add: des_mux_level_def Let_def)
qed

lemma des_mux_level_nth:
  assumes "2 * k \<le> length nodes" and "i < length nodes"
  shows "des_mux_level plane k nodes ! i =
    (if i < k then nodes ! (2 * i) XOR (plane AND (nodes ! (2 * i) XOR nodes ! (2 * i + 1))) else nodes ! i)"
  using assms
proof (induction k arbitrary: i)
  case (Suc k)
  have snoc: "des_mux_level plane (Suc k) nodes = (let ns = des_mux_level plane k nodes; left = ns ! (2 * k)
      in ns[k := left XOR (plane AND (left XOR ns ! (2 * k + 1)))])"
    by (simp add: des_mux_level_def Let_def)
  have "k \<le> 2 * k" by simp
  then have "des_mux_level plane k nodes ! (2 * k) = nodes ! (2 * k)"
    "des_mux_level plane k nodes ! (2 * k + 1) = nodes ! (2 * k + 1)"
    using Suc.prems(1) Suc.IH [of "2 * k"] Suc.IH [of "2 * k + 1"] by auto
  then show ?case
    using Suc.prems Suc.IH [of i] by (auto simp: snoc Let_def nth_list_update less_Suc_eq)
qed (simp add: des_mux_level_def)

lemma des_mux_level_bit:
  assumes "2 * k \<le> length nodes" and "i < k"
  shows "bit (des_mux_level plane k nodes ! i) n \<longleftrightarrow> bit (nodes ! mux_index i (bit plane n)) n"
  using assms by (simp add: des_mux_level_nth des_mux_bit mux_index_def)

lemma bit_des_mux:
  "bit (des_mux planes) n \<longleftrightarrow>
     bit (TRUTH_TABLE ! mux_index (mux_index (mux_index (mux_index (mux_index (of_bool (bit (planes ! 5) n))
       (bit (planes ! 4) n)) (bit (planes ! 3) n)) (bit (planes ! 2) n)) (bit (planes ! 1) n))
       (bit (planes ! 0) n)) n"
proof -
  have upt: "[1..<6] = [1, 2, 3, 4, 5]" by code_simp
  have len: "length (des_mux_first planes) = 32" by (simp add: des_mux_first_def)
  have b: "mux_index i x < 2 * k" if "i < k" for i x k using that by (cases x) (auto simp: mux_index_def)
  have z: "of_bool x = mux_index 0 x" for x by (simp add: mux_index_def)
  have c: "mux_index 0 x < 2" for x by (simp add: mux_index_def)
  have lt: "mux_index 0 x5 < 2" "mux_index (mux_index 0 x5) x4 < 4"
    "mux_index (mux_index (mux_index 0 x5) x4) x3 < 8"
    "mux_index (mux_index (mux_index (mux_index 0 x5) x4) x3) x2 < 16"
    "mux_index (mux_index (mux_index (mux_index (mux_index 0 x5) x4) x3) x2) x1 < 32" for x1 x2 x3 x4 x5
    using b [of _ 2] b [of _ 4] b [of _ 8] b [of _ 16] c by simp_all
  show ?thesis
    unfolding des_mux_def upt z
    by (simp add: Let_def des_mux_level_bit len lt des_mux_first_bit)
qed

lemma mux_index_bits:
  "x < 64 \<Longrightarrow> mux_index (mux_index (mux_index (mux_index (mux_index (of_bool (bit x 5))
      (bit x 4)) (bit x 3)) (bit x 2)) (bit x 1)) (bit x 0) = (x :: nat)"
proof -
  assume "x < 64"
  then have "x = take_bit 6 x" by (simp add: take_bit_nat_eq_self)
  also have "\<dots> = horner_sum of_bool 2 (map (bit x) [0..<6])"
    by (rule horner_sum_bit_eq_take_bit [symmetric])
  finally show ?thesis
    unfolding upt_tables by (simp add: mux_index_def)
qed


section \<open>The round function is the one of FIPS 46-3\<close>

definition box_input :: "u64 \<Rightarrow> nat \<Rightarrow> u32" where
  "box_input expanded box = ucast (drop_bit (42 - 6 * box) expanded) AND 63"

lemma des_planes_step:
  fixes planes :: "u32 list" and input M :: u32
  assumes "length planes = 6"
  defines "ps \<equiv> fold (\<lambda>bit planes. let mask = 0 - (drop_bit bit input AND 1)
      in planes[bit := planes ! bit OR (mask AND M)]) [0..<6] planes"
  shows "length ps = 6"
    and "b < 6 \<Longrightarrow> bit (ps ! b) n \<longleftrightarrow> bit (planes ! b) n \<or> bit M n \<and> bit input b"
proof -
  have mask: "0 - (drop_bit b input AND 1) = (if bit input b then - 1 else 0)" for b
    by (simp add: and_one_eq mod_2_eq_odd bit_iff_odd_drop_bit)
  obtain p0 p1 p2 p3 p4 p5 where p: "planes = [p0, p1, p2, p3, p4, p5]"
    using assms(1) by (auto simp: numeral_eq_Suc length_Suc_conv)
  show "length ps = 6" by (simp add: ps_def p upt_tables Let_def)
  show "bit (ps ! b) n \<longleftrightarrow> bit (planes ! b) n \<or> bit M n \<and> bit input b" if "b < 6"
  proof -
    have ps: "ps ! b = planes ! b OR ((if bit input b then - 1 else 0) AND M)"
      using that unfolding ps_def p mask Let_def upt_tables
      by (auto simp: less_Suc_eq numeral_eq_Suc)
    show ?thesis unfolding ps by (auto simp: bit_or_iff dest: bit_imp_le_length)
  qed
qed

lemma des_planes_bits:
  assumes "b < 6"
  shows "length (des_planes expanded) = 6"
    and "bit (des_planes expanded ! b) n \<longleftrightarrow>
      (\<exists>box < 8. bit (SBOX_OUTPUT_MASKS ! box) n \<and> bit (box_input expanded box) b)"
proof -
  define g where "g = (\<lambda>box planes.
       let input = ucast (drop_bit (42 - 6 * box) expanded) AND 63 :: u32
       in fold (\<lambda>bit planes.
            let mask = 0 - (drop_bit bit input AND 1)
            in planes[bit := planes ! bit OR (mask AND SBOX_OUTPUT_MASKS ! box)]) [0..<6] planes)"
  have "length (fold g [0..<k] (replicate 6 0)) = 6 \<and>
      (bit (fold g [0..<k] (replicate 6 0) ! b) n \<longleftrightarrow>
        (\<exists>box < k. bit (SBOX_OUTPUT_MASKS ! box) n \<and> bit (box_input expanded box) b))" for k
  proof (induction k)
    case (Suc k)
    then show ?case
      using des_planes_step [where planes = "fold g [0..<k] (replicate 6 0)" and input = "box_input expanded k"
          and M = "SBOX_OUTPUT_MASKS ! k"] assms
      by (auto simp: g_def box_input_def Let_def less_Suc_eq)
  qed (use assms in \<open>simp\<close>)
  then show "length (des_planes expanded) = 6"
    "bit (des_planes expanded ! b) n \<longleftrightarrow>
      (\<exists>box < 8. bit (SBOX_OUTPUT_MASKS ! box) n \<and> bit (box_input expanded box) b)"
    by (simp_all add: des_planes_def g_def)
qed

lemma box_of_less: "box_of n < 8"
  by (simp add: box_of_def)

lemma des_planes_select:
  assumes "n < 32" and "b < 6"
  shows "bit (des_planes expanded ! b) n \<longleftrightarrow> bit (box_input expanded (box_of n)) b"
proof -
  have "bit (SBOX_OUTPUT_MASKS ! box) n = (box = box_of n)" if "box < 8" for box
    using des_mask_table assms(1) that by (simp add: list_all_length)
  then show ?thesis
    unfolding des_planes_bits(2) [OF assms(2)] using box_of_less by auto
qed

lemma bit_substituted:
  fixes e :: u64
  assumes "n < 32"
  shows "bit (fold (\<lambda>box v. push_bit 4 v OR
      of_nat (fips_sbox box (unat (drop_bit (42 - 6 * box) e AND 63)))) [0..<8] (0 :: u64)) n \<longleftrightarrow>
    bit (fips_sbox (7 - n div 4) (unat (drop_bit (42 - 6 * (7 - n div 4)) e AND 63))) (n mod 4)"
proof -
  have lt: "unat (w AND 63) < 64" for w :: u64
    using unat_and_mask [of w 6] by (simp add: mask_eq_exp_minus_1)
  have "bit (fold (\<lambda>box v. push_bit 4 v OR
      of_nat (fips_sbox box (unat (drop_bit (42 - 6 * box) e AND 63)))) [0..<8] (0 :: u64)) n \<longleftrightarrow>
    n < 8 * 4 \<and> bit (of_nat (fips_sbox (8 - 1 - n div 4)
      (unat (drop_bit (42 - 6 * (8 - 1 - n div 4)) e AND 63))) :: u64) (n mod 4)"
  proof (rule bit_of_pieces)
    fix i m assume i: "i < (8 :: nat)"
      and b: "bit (of_nat (fips_sbox i (unat (drop_bit (42 - 6 * i) e AND 63))) :: u64) m"
    have "fips_sbox i (unat (drop_bit (42 - 6 * i) e AND 63)) < 2 ^ 4"
      using fips_sbox_bound [OF i lt [of "drop_bit (42 - 6 * i) e"]] by simp
    moreover have "bit (fips_sbox i (unat (drop_bit (42 - 6 * i) e AND 63))) m"
      using b by (simp add: bit_of_nat_iff)
    ultimately show "m < 4"
      by (metis bit_take_bit_iff take_bit_nat_eq_self)
  qed simp_all
  moreover have "n mod 4 < 64" by (rule less_trans [OF mod_less_divisor]) simp_all
  ultimately show ?thesis using assms by (simp add: bit_of_nat_iff)
qed

lemma des_round_function_fips: "ucast (des_round_function right key) = fips_f (ucast right) key"
proof (rule bit_word_eqI)
  fix n assume n64: "n < LENGTH(64)"
  define e where "e = des_expand right XOR key"
  have e: "permute_bits (ucast right) 32 FIPS_E 48 XOR key = e"
    by (simp add: e_def des_expand_correct)
  show "bit (ucast (des_round_function right key) :: u64) n \<longleftrightarrow> bit (fips_f (ucast right) key) n"
  proof (cases "n < 32")
    case True
    define x where "x = unat (box_input e (box_of n))"
    have x: "x < 64"
      using unat_and_mask [of "ucast (drop_bit (42 - 6 * box_of n) e) :: u32" 6]
      by (simp add: x_def box_input_def mask_eq_exp_minus_1)
    have x': "unat (drop_bit (42 - 6 * box_of n) e AND 63) = x"
      using unat_and_mask [of "ucast (drop_bit (42 - 6 * box_of n) e) :: u32" 6]
        unat_and_mask [of "drop_bit (42 - 6 * box_of n) e" 6]
      by (simp add: x_def box_input_def mask_eq_exp_minus_1 unat_ucast mod_mod_cancel)
    have bits: "bit (des_planes e ! b) n \<longleftrightarrow> bit x b" if "b < 6" for b
      using des_planes_select [OF True that] that by (simp add: x_def bit_unsigned_iff)
    have "bit (des_mux (des_planes e)) n \<longleftrightarrow> bit (TRUTH_TABLE ! x) n"
    proof -
      have "bit (des_planes e ! 0) n = bit x 0" "bit (des_planes e ! 1) n = bit x 1"
        "bit (des_planes e ! 2) n = bit x 2" "bit (des_planes e ! 3) n = bit x 3"
        "bit (des_planes e ! 4) n = bit x 4" "bit (des_planes e ! 5) n = bit x 5"
        by (simp_all add: bits)
      then show ?thesis unfolding bit_des_mux by (simp only: mux_index_bits [OF x])
    qed
    also have "\<dots> \<longleftrightarrow> bit (fips_sbox (box_of n) x) ((32 - FIPS_P ! (31 - n)) mod 4)"
      using True x by (rule des_truth_table_bit)
    also have "\<dots> \<longleftrightarrow> bit (fips_f (ucast right) key) n"
    proof -
      have "list_all (\<lambda>p. 0 < p) FIPS_P" "length FIPS_P = 32" by (simp_all add: FIPS_P_def)
      then have "32 - FIPS_P ! (31 - n) < 32" by (simp add: list_all_length)
      then show ?thesis
        using True by (simp add: fips_f_def Let_def e bit_permute_bits bit_substituted x' flip: box_of_def)
    qed
    finally show ?thesis
      using True n64 by (simp add: des_round_function_def bit_simps flip: e_def)
  next
    case False
    then show ?thesis
      by (auto simp: bit_simps fips_f_def Let_def bit_permute_bits bit_u32_facts)
  qed
qed


section \<open>The permutation networks\<close>

definition FIPS_IP :: "nat list" where
  "FIPS_IP =
   [58, 50, 42, 34, 26, 18, 10, 2, 60, 52, 44, 36, 28, 20, 12, 4,
    62, 54, 46, 38, 30, 22, 14, 6, 64, 56, 48, 40, 32, 24, 16, 8,
    57, 49, 41, 33, 25, 17, 9, 1, 59, 51, 43, 35, 27, 19, 11, 3,
    61, 53, 45, 37, 29, 21, 13, 5, 63, 55, 47, 39, 31, 23, 15, 7]"

definition FIPS_FP :: "nat list" where
  "FIPS_FP =
   [40, 8, 48, 16, 56, 24, 64, 32, 39, 7, 47, 15, 55, 23, 63, 31,
    38, 6, 46, 14, 54, 22, 62, 30, 37, 5, 45, 13, 53, 21, 61, 29,
    36, 4, 44, 12, 52, 20, 60, 28, 35, 3, 43, 11, 51, 19, 59, 27,
    34, 2, 42, 10, 50, 18, 58, 26, 33, 1, 41, 9, 49, 17, 57, 25]"

text \<open>One exchange of the network: the masked bits of \<open>b\<close> with those of \<open>a\<close>, \<open>k\<close> places up.\<close>

definition delta_swap :: "nat \<Rightarrow> u32 \<Rightarrow> u32 \<times> u32 \<Rightarrow> u32 \<times> u32" where
  "delta_swap k M ab = (case ab of (a, b) \<Rightarrow>
     let t = (drop_bit k a XOR b) AND M in (a XOR push_bit k t, b XOR t))"

definition join64 :: "u32 \<times> u32 \<Rightarrow> u64" where
  "join64 h = push_bit 32 (ucast (fst h)) OR ucast (snd h)"

definition halves64 :: "u64 \<Rightarrow> u32 \<times> u32" where
  "halves64 v = (ucast (drop_bit 32 v), ucast v)"

lemma halves_join [simp]: "halves64 (join64 h) = h"
  by (cases h) (auto simp: halves64_def join64_def intro!: bit_word_eqI simp: bit_simps bit_u32_facts)

lemma join_halves [simp]: "join64 (halves64 v) = v"
  unfolding join64_def halves64_def using join_halves64 [of v] by (simp add: or.commute)

lemma bit_join64: "bit (join64 h) n \<longleftrightarrow> (if n < 32 then bit (snd h) n else bit (fst h) (n - 32))"
  by (cases h) (auto simp: join64_def bit_simps bit_u32_facts dest: bit_imp_le_length)

definition IP_network :: "u32 \<times> u32 \<Rightarrow> u32 \<times> u32" where
  "IP_network h = delta_swap 1 0x55555555 (prod.swap (delta_swap 8 0x00ff00ff
     (delta_swap 2 0x33333333 (prod.swap (delta_swap 16 0x0000ffff (delta_swap 4 0x0f0f0f0f h))))))"

definition FP_network :: "u32 \<times> u32 \<Rightarrow> u32 \<times> u32" where
  "FP_network h = delta_swap 4 0x0f0f0f0f (delta_swap 16 0x0000ffff (prod.swap (delta_swap 2 0x33333333
     (delta_swap 8 0x00ff00ff (prod.swap (delta_swap 1 0x55555555 h))))))"

lemma initial_permutation_network: "initial_permutation x = join64 (IP_network (halves64 x))"
  by (simp add: initial_permutation_def IP_network_def halves64_def join64_def delta_swap_def Let_def)

lemma final_permutation_network: "final_permutation x = join64 (FP_network (halves64 x))"
  by (simp add: final_permutation_def FP_network_def halves64_def join64_def delta_swap_def Let_def)

lemma bit_delta_swap:
  "bit (fst (delta_swap k M h)) n \<longleftrightarrow>
     (if k \<le> n \<and> n < 32 \<and> bit M (n - k) then bit (snd h) (n - k) else bit (fst h) n)"
  "bit (snd (delta_swap k M h)) n \<longleftrightarrow>
     (if n < 32 \<and> bit M n then bit (fst h) (k + n) else bit (snd h) n)"
  by (cases h; auto simp: delta_swap_def Let_def bit_simps dest: bit_imp_le_length)+

lemma delta_swap_twice:
  assumes "take_bit (32 - k) M = M"
  shows "delta_swap k M (delta_swap k M h) = h"
proof -
  have M: "bit M n \<Longrightarrow> n < 32 - k" for n
    using assms by (metis bit_take_bit_iff)
  have 1: "fst (delta_swap k M (delta_swap k M h)) = fst h"
  proof (rule bit_word_eqI)
    fix n assume "n < LENGTH(32)"
    then show "bit (fst (delta_swap k M (delta_swap k M h))) n = bit (fst h) n"
      by (auto simp: bit_delta_swap)
  qed
  have 2: "snd (delta_swap k M (delta_swap k M h)) = snd h"
  proof (rule bit_word_eqI)
    fix n assume "n < LENGTH(32)"
    then show "bit (snd (delta_swap k M (delta_swap k M h))) n = bit (snd h) n"
      using M [of n] by (auto simp: bit_delta_swap)
  qed
  show ?thesis using 1 2 by (simp add: prod_eq_iff)
qed

lemma FP_IP_network: "FP_network (IP_network h) = h" "IP_network (FP_network h) = h"
  by (simp_all add: FP_network_def IP_network_def delta_swap_twice)

lemma permutation_inverse [simp]:
  "final_permutation (initial_permutation x) = x" "initial_permutation (final_permutation x) = x"
  by (simp_all add: initial_permutation_network final_permutation_network FP_IP_network)

lemma upt64:
  "[0..<64] = [0, 1, 2, 3, 4, 5, 6, 7, 8, 9, 10, 11, 12, 13, 14, 15, 16, 17, 18, 19, 20, 21,
     22, 23, 24, 25, 26, 27, 28, 29, 30, 31, 32, 33, 34, 35, 36, 37, 38, 39, 40, 41, 42, 43,
     44, 45, 46, 47, 48, 49, 50, 51, 52, 53, 54, 55, 56, 57, 58, 59, 60, 61, 62, 63]"
  by code_simp

lemma initial_permutation_bits:
  "list_all (\<lambda>n. bit (initial_permutation x) n = bit x (64 - FIPS_IP ! (63 - n))) [0..<64]"
  unfolding upt64 list.pred_inject
  by (intro conjI; simp add: initial_permutation_network bit_join64 IP_network_def bit_delta_swap
      FIPS_IP_def halves64_def bit_simps bit_Suc_0_iff)

lemma final_permutation_bits:
  "list_all (\<lambda>n. bit (final_permutation x) n = bit x (64 - FIPS_FP ! (63 - n))) [0..<64]"
  unfolding upt64 list.pred_inject
  by (intro conjI; simp add: final_permutation_network bit_join64 FP_network_def bit_delta_swap
      FIPS_FP_def halves64_def bit_simps bit_Suc_0_iff)

lemma permutations_fips:
  "initial_permutation x = permute_bits x 64 FIPS_IP 64"
  "final_permutation x = permute_bits x 64 FIPS_FP 64"
  using initial_permutation_bits [of x] final_permutation_bits [of x]
  by (auto simp: list_all_length bit_permute_bits intro!: bit_word_eqI)

section \<open>Rounds and blocks invert\<close>

definition feistel :: "(nat \<Rightarrow> u64) \<Rightarrow> nat list \<Rightarrow> u32 \<times> u32 \<Rightarrow> u32 \<times> u32" where
  "feistel key = fold (\<lambda>i (left, right). (right, left XOR des_round_function right (key i)))"

lemma feistel_inverse:
  "feistel key (rev is) (prod.swap (feistel key is h)) = prod.swap h"
proof (induction "is" arbitrary: h)
  case (Cons i "is")
  have "feistel key (rev is) (prod.swap (feistel key is h')) = prod.swap h'" for h' by (rule Cons.IH)
  then show ?case
    by (cases h) (simp add: feistel_def xor.assoc)
qed (simp add: feistel_def)

lemma des_rounds_feistel:
  "des_rounds x ks True = join64 (prod.swap (feistel ((!) ks) [0..<16] (halves64 x)))"
  "des_rounds x ks False = join64 (prod.swap (feistel ((!) ks) (rev [0..<16]) (halves64 x)))"
proof -
  show "des_rounds x ks True = join64 (prod.swap (feistel ((!) ks) [0..<16] (halves64 x)))"
    by (simp add: des_rounds_def feistel_def halves64_def join64_def split: prod.split)
  have "rev [0..<16] = map (\<lambda>i. 15 - i) [0..<16]" by code_simp
  then show "des_rounds x ks False = join64 (prod.swap (feistel ((!) ks) (rev [0..<16]) (halves64 x)))"
    by (simp add: des_rounds_def feistel_def halves64_def join64_def fold_map o_def split: prod.split)
qed

lemma des_rounds_inverse [simp]:
  "des_rounds (des_rounds x ks True) ks False = x" "des_rounds (des_rounds x ks False) ks True = x"
  using feistel_inverse [of "(!) ks" "[0..<16]" "halves64 x"]
    feistel_inverse [of "(!) ks" "rev [0..<16]" "halves64 x"]
  by (simp_all add: des_rounds_feistel)

lemma triple_des_block_inverse:
  "triple_des_block (triple_des_block x ks True) ks False = x"
  by (simp add: triple_des_block_def)

lemma load64_be_bits: "bit (load64_be b) n \<longleftrightarrow> n < 64 \<and> bit (b ! (7 - n div 8)) (n mod 8)"
proof -
  have "bit (load64_be b) n \<longleftrightarrow> n < 8 * 8 \<and> bit (ucast (b ! (8 - 1 - n div 8)) :: u64) (n mod 8)"
    unfolding load64_be_def by (rule bit_of_pieces) (auto simp: bit_simps dest: bit_imp_le_length)
  moreover have "n mod 8 < 64" by (rule less_trans [OF mod_less_divisor]) simp_all
  ultimately show ?thesis by (simp add: bit_simps)
qed

lemma store64_be_eq:
  "store64_be v = map (\<lambda>i. ucast (drop_bit (8 * (7 - i)) v)) [0..<8]"
  by (simp add: store64_be_def upt_tables numeral_eq_Suc)

lemma length_store64_be [simp, lengths]: "length (store64_be v) = 8"
  by (simp add: store64_be_eq)

lemma load_store64_be' [simp]: "load64_be (store64_be v) = v"
proof (rule bit_word_eqI)
  fix n assume n: "n < LENGTH(64)"
  then have "7 - (7 - n div 8) = n div 8" by (simp add: less_mult_imp_div_less)
  then show "bit (load64_be (store64_be v)) n = bit v n"
    using n by (simp add: load64_be_bits store64_be_eq bit_simps add.commute [of _ "n mod 8"] mod_mult_div_eq)
qed

lemma store_load64_be [simp]:
  assumes "length b = 8"
  shows "store64_be (load64_be b) = b"
proof (rule nth_equalityI)
  fix i assume i: "i < length (store64_be (load64_be b))"
  show "store64_be (load64_be b) ! i = b ! i"
  proof (rule bit_word_eqI)
    fix n assume "n < LENGTH(8)"
    then show "bit (store64_be (load64_be b) ! i) n = bit (b ! i) n"
      using i by (auto simp: store64_be_eq load64_be_bits bit_simps)
  qed
qed (use assms in simp)


section \<open>The entry point is the standard mode\<close>

definition tdes_encrypt_bytes :: "CryptoTdesEde3Context \<Rightarrow> byte list \<Rightarrow> byte list" where
  "tdes_encrypt_bytes ks b = store64_be (triple_des_block (load64_be b) ks True)"

definition tdes_decrypt_bytes :: "CryptoTdesEde3Context \<Rightarrow> byte list \<Rightarrow> byte list" where
  "tdes_decrypt_bytes ks b = store64_be (triple_des_block (load64_be b) ks False)"

interpretation tdes: block_cipher 8 "\<lambda>_. True" tdes_encrypt_bytes tdes_decrypt_bytes
  by unfold_locales
    (simp_all add: tdes_encrypt_bytes_def tdes_decrypt_bytes_def triple_des_block_inverse)

definition tdes_mode ::
    "CryptoTdesMode \<Rightarrow> bool \<Rightarrow> CryptoTdesEde3Context \<Rightarrow> byte list \<Rightarrow> byte list \<Rightarrow> byte list" where
  "tdes_mode mode encrypt ks iv xs =
     (case mode of
        CRYPTO_TDES_MODE_ECB \<Rightarrow>
          transduce 8 (ecb_step (if encrypt then tdes_encrypt_bytes ks else tdes_decrypt_bytes ks)) () xs
      | CRYPTO_TDES_MODE_CBC \<Rightarrow>
          if encrypt then transduce 8 (cbc_enc_step (tdes_encrypt_bytes ks)) iv xs
          else transduce 8 (cbc_dec_step (tdes_decrypt_bytes ks)) iv xs)"

lemma load64_be_xor:
  assumes "length a = 8" and "length b = 8"
  shows "load64_be (xor_bytes a b) = load64_be a XOR load64_be b"
  using assms by (intro bit_word_eqI) (auto simp: load64_be_bits bit_simps)

lemma store64_be_xor: "store64_be (v XOR w) = xor_bytes (store64_be v) (store64_be w)"
  by (rule nth_equalityI) (auto simp: store64_be_eq intro!: bit_word_eqI simp: bit_simps)

text \<open>The chain word of the loop is the chain block of the mode.\<close>

lemma tdes_step_mode:
  assumes "length chain = 8" and "length b = 8"
  shows "tdes_step ks CRYPTO_TDES_MODE_ECB e c b =
      (c, (if e then tdes_encrypt_bytes ks else tdes_decrypt_bytes ks) b)"
    and "tdes_step ks CRYPTO_TDES_MODE_CBC True (load64_be chain) b =
      (case cbc_enc_step (tdes_encrypt_bytes ks) chain b of (s, c) \<Rightarrow> (load64_be s, c))"
    and "tdes_step ks CRYPTO_TDES_MODE_CBC False (load64_be chain) b =
      (case cbc_dec_step (tdes_decrypt_bytes ks) chain b of (s, c) \<Rightarrow> (load64_be s, c))"
  using assms
  by (simp_all add: tdes_step_def cbc_enc_step_def cbc_dec_step_def Let_def tdes_encrypt_bytes_def
      tdes_decrypt_bytes_def load64_be_xor store64_be_xor)

lemma tdes_transduce:
  assumes "8 dvd length xs" and "length iv = 8"
    and "mode = CRYPTO_TDES_MODE_CBC \<Longrightarrow> chain = load64_be iv"
  shows "transduce 8 (tdes_step ks mode e) chain xs = tdes_mode mode e ks iv xs"
proof (cases mode)
  case CRYPTO_TDES_MODE_ECB
  show ?thesis
    unfolding CRYPTO_TDES_MODE_ECB tdes_mode_def CryptoTdesMode.case
    by (rule transduce_simulation [where R = "\<lambda>_ _. True"])
      (use assms(1) in \<open>simp_all add: tdes_step_mode [where chain = "zeroes 8"] ecb_step_def\<close>)
next
  case CRYPTO_TDES_MODE_CBC
  have "transduce 8 (tdes_step ks CRYPTO_TDES_MODE_CBC True) (load64_be iv) xs =
      transduce 8 (cbc_enc_step (tdes_encrypt_bytes ks)) iv xs"
    by (rule transduce_simulation [where R = "\<lambda>s t. s = load64_be t \<and> length t = 8"])
      (use assms(1,2) in \<open>auto simp: tdes_step_mode cbc_enc_step_def tdes.length_enc Let_def\<close>)
  moreover have "transduce 8 (tdes_step ks CRYPTO_TDES_MODE_CBC False) (load64_be iv) xs =
      transduce 8 (cbc_dec_step (tdes_decrypt_bytes ks)) iv xs"
    by (rule transduce_simulation [where R = "\<lambda>s t. s = load64_be t \<and> length t = 8"])
      (use assms(1,2) in \<open>auto simp: tdes_step_mode cbc_dec_step_def\<close>)
  ultimately show ?thesis
    using assms(3) CRYPTO_TDES_MODE_CBC by (cases e) (simp_all add: tdes_mode_def)
qed

lemma tdes_mode_inverse:
  assumes "8 dvd length xs" and "length iv = 8"
  shows "tdes_mode mode False ks iv (tdes_mode mode True ks iv xs) = xs"
    and "length (tdes_mode mode True ks iv xs) = length xs"
  using assms
  by (cases mode; simp add: tdes_mode_def tdes.ecb_inverse tdes.cbc_inverse tdes.length_ecb tdes.length_cbc)+

lemma tdes_validate_SUCCESS:
  "tdes_validate out cap inp n key kl iv ivl mode = SUCCESS \<longleftrightarrow>
     key \<noteq> 0 \<and> \<not> ((inp = 0 \<or> out = 0) \<and> n \<noteq> 0) \<and> kl = 24 \<and> n mod 8 = 0 \<and>
     (if mode = CRYPTO_TDES_MODE_ECB then ivl = 0 else iv \<noteq> 0 \<and> ivl = 8) \<and> n \<le> cap"
  by (cases mode) (auto simp: tdes_validate_def)

lemma crypto_tdes_eq:
  assumes io: "out = inp \<or> disjoint out n inp n"
    and ok: "tdes_validate out cap inp n key kl iv ivl mode = SUCCESS"
  shows "crypto_tdes_ede3_crypt m out cap inp n key kl iv ivl mode e =
    (SUCCESS, store m out (tdes_mode mode e (tdes_round_keys (load m key 24)) (load m iv 8) (load m inp n)))"
proof -
  define ks chain where "ks = tdes_round_keys (load m key 24)" and
    "chain = (if mode = CRYPTO_TDES_MODE_CBC then load64_be (load m iv 8) else 0)"
  have dvd: "8 dvd n" using ok unfolding tdes_validate_SUCCESS by (simp add: mod_0_imp_dvd)
  have loop: "block_loop 8 (\<lambda>c b. (SUCCESS, tdes_step ks mode e c b)) out inp n m chain 0 =
      (SUCCESS, store m (out + 0) (transduce 8 (tdes_step ks mode e) chain (load m (inp + 0) (n - 0))))"
    using io dvd by (intro block_loop_correct [where P = "\<lambda>_. True"]) (auto simp: tdes_step_def Let_def)
  have tr: "transduce 8 (tdes_step ks mode e) chain (load m inp n) = tdes_mode mode e ks (load m iv 8) (load m inp n)"
    using dvd by (intro tdes_transduce) (simp_all add: chain_def)
  have nil: "tdes_mode mode e ks iv' [] = []" for iv' by (cases mode) (simp_all add: tdes_mode_def)
  show ?thesis
    unfolding crypto_tdes_ede3_crypt_def ok Let_def
    using loop tr nil by (cases "n = 0") (simp_all add: ks_def chain_def)
qed

lemma crypto_tdes_error:
  assumes "tdes_validate out cap inp n key kl iv ivl mode = err" and "err \<noteq> SUCCESS"
  shows "crypto_tdes_ede3_crypt m out cap inp n key kl iv ivl mode e = (err, m)"
  using assms by (simp add: crypto_tdes_ede3_crypt_def)

section \<open>Properties\<close>

text \<open>
  C22. The constant-time round function computes the DES function of FIPS 46-3: the
  multiplexer tree over the packed truth tables yields, for every half block and round key,
  the expansion E, the eight S-boxes looked up by row and column, and the permutation P.
\<close>

theorem des_round_function_correct:
  "ucast (des_round_function right round_key) = fips_f (ucast right) round_key"
  by (rule des_round_function_fips)

text \<open>
  The five-exchange networks are the initial permutation of FIPS 46-3 and its inverse.
\<close>

theorem des_permutations_correct:
  "initial_permutation x = permute_bits x 64 FIPS_IP 64 \<and>
   final_permutation x = permute_bits x 64 FIPS_FP 64 \<and>
   final_permutation (initial_permutation x) = x"
  by (intro conjI permutations_fips permutation_inverse)

end
