(* ===== verification/Block_Cipher.thy ===== *)
theory Block_Cipher
  imports AES_Modes Triple_DES
begin

text \<open>
  The public block-cipher dispatcher \<^verbatim>\<open>src/BlockCipher.c\<close>: the table of complete
  parameter-set identifiers and the encrypt and decrypt calls over AES and Triple DES.
\<close>

datatype BlockCipherFamily = BLOCK_CIPHER_AES | BLOCK_CIPHER_TDES

record BlockCipherParameters =
  bc_KEY_LENGTH :: nat
  bc_MODE :: CryptoAesMode
  bc_FAMILY :: BlockCipherFamily
  bc_TDES_MODE :: CryptoTdesMode

definition block_cipher_parameters :: "alg_id \<Rightarrow> status + BlockCipherParameters" where
  "block_cipher_parameters alg =
     (let tdes = (\<lambda>mode tdes_mode. Inr \<lparr>bc_KEY_LENGTH = 24, bc_MODE = mode,
            bc_FAMILY = BLOCK_CIPHER_TDES, bc_TDES_MODE = tdes_mode\<rparr>);
          aes = (\<lambda>key_length mode. Inr \<lparr>bc_KEY_LENGTH = key_length, bc_MODE = mode,
            bc_FAMILY = BLOCK_CIPHER_AES, bc_TDES_MODE = CRYPTO_TDES_MODE_ECB\<rparr>)
      in if alg = LIBERAC_ALG_TDES_EDE3_ECB then tdes CRYPTO_AES_MODE_ECB CRYPTO_TDES_MODE_ECB
         else if alg = LIBERAC_ALG_TDES_EDE3_CBC then tdes CRYPTO_AES_MODE_CBC CRYPTO_TDES_MODE_CBC
         else if alg = LIBERAC_ALG_AES_128_ECB then aes 16 CRYPTO_AES_MODE_ECB
         else if alg = LIBERAC_ALG_AES_192_ECB then aes 24 CRYPTO_AES_MODE_ECB
         else if alg = LIBERAC_ALG_AES_256_ECB then aes 32 CRYPTO_AES_MODE_ECB
         else if alg = LIBERAC_ALG_AES_128_CBC then aes 16 CRYPTO_AES_MODE_CBC
         else if alg = LIBERAC_ALG_AES_192_CBC then aes 24 CRYPTO_AES_MODE_CBC
         else if alg = LIBERAC_ALG_AES_256_CBC then aes 32 CRYPTO_AES_MODE_CBC
         else if alg = LIBERAC_ALG_AES_128_CTR then aes 16 CRYPTO_AES_MODE_CTR
         else if alg = LIBERAC_ALG_AES_192_CTR then aes 24 CRYPTO_AES_MODE_CTR
         else if alg = LIBERAC_ALG_AES_256_CTR then aes 32 CRYPTO_AES_MODE_CTR
         else Inl INVALID_ALG_ID)"

definition LIBERAC_BLOCK_CIPHER_KEY_SIZE :: "alg_id \<Rightarrow> nat" where
  "LIBERAC_BLOCK_CIPHER_KEY_SIZE alg =
     (case block_cipher_parameters alg of Inl _ \<Rightarrow> 0 | Inr parameters \<Rightarrow> bc_KEY_LENGTH parameters)"

definition LIBERAC_BLOCK_CIPHER_ENCRYPT ::
    "mem \<Rightarrow> addr \<Rightarrow> nat \<Rightarrow> addr \<Rightarrow> nat \<Rightarrow> addr \<Rightarrow> nat \<Rightarrow> addr \<Rightarrow> nat \<Rightarrow> alg_id \<Rightarrow> status \<times> mem" where
  "LIBERAC_BLOCK_CIPHER_ENCRYPT m output output_capacity input input_length key key_length iv iv_length alg =
     (case block_cipher_parameters alg of
        Inl err \<Rightarrow> (err, m)
      | Inr parameters \<Rightarrow>
          if bc_FAMILY parameters = BLOCK_CIPHER_TDES
          then crypto_tdes_ede3_crypt m output output_capacity input input_length key key_length
                 iv iv_length (bc_TDES_MODE parameters) True
          else crypto_aes_encrypt m output output_capacity input input_length key key_length
                 iv iv_length (bc_KEY_LENGTH parameters) (bc_MODE parameters))"

definition LIBERAC_BLOCK_CIPHER_DECRYPT ::
    "mem \<Rightarrow> addr \<Rightarrow> nat \<Rightarrow> addr \<Rightarrow> nat \<Rightarrow> addr \<Rightarrow> nat \<Rightarrow> addr \<Rightarrow> nat \<Rightarrow> alg_id \<Rightarrow> status \<times> mem" where
  "LIBERAC_BLOCK_CIPHER_DECRYPT m output output_capacity input input_length key key_length iv iv_length alg =
     (case block_cipher_parameters alg of
        Inl err \<Rightarrow> (err, m)
      | Inr parameters \<Rightarrow>
          if bc_FAMILY parameters = BLOCK_CIPHER_TDES
          then crypto_tdes_ede3_crypt m output output_capacity input input_length key key_length
                 iv iv_length (bc_TDES_MODE parameters) False
          else crypto_aes_decrypt m output output_capacity input input_length key key_length
                 iv iv_length (bc_KEY_LENGTH parameters) (bc_MODE parameters))"

section \<open>Properties\<close>

lemma block_cipher_parameters_error: "block_cipher_parameters alg = Inl e \<Longrightarrow> e = INVALID_ALG_ID"
  by (auto simp: block_cipher_parameters_def Let_def split: if_splits)

lemma tdes_decrypt_after_encrypt:
  assumes io: "out = inp \<or> disjoint out n inp n"
    and ok: "fst (crypto_tdes_ede3_crypt m out cap inp n key kl iv ivl mode True) = SUCCESS"
    and key: "disjoint out n key kl" and iv: "disjoint out n iv ivl"
    and m': "m' = snd (crypto_tdes_ede3_crypt m out cap inp n key kl iv ivl mode True)"
  shows "crypto_tdes_ede3_crypt m' out cap out n key kl iv ivl mode False =
    (SUCCESS, store m' out (load m inp n))"
proof -
  have valid: "tdes_validate out cap inp n key kl iv ivl mode = SUCCESS"
    using ok crypto_tdes_error by fastforce
  have valid': "tdes_validate out cap out n key kl iv ivl mode = SUCCESS" and kl: "kl = 24"
    and dvd: "8 dvd length (load m inp n)"
    using valid unfolding tdes_validate_SUCCESS by (auto simp: mod_0_imp_dvd)
  define ks x where "ks = tdes_round_keys (load m key 24)" and
    "x = tdes_mode mode True ks (load m iv 8) (load m inp n)"
  have len: "length x = n" unfolding x_def using dvd by (simp add: tdes_mode_inverse)
  have m'_eq: "m' = store m out x"
    by (simp add: m' crypto_tdes_eq [OF io valid] x_def ks_def)
  have keys: "tdes_round_keys (load m' key 24) = ks"
    using key len kl by (simp add: m'_eq ks_def load_store_disjoint)
  have lx: "load m' out n = x" using load_store_same [of m out x] by (simp add: m'_eq len)
  have "tdes_mode mode False ks (load m' iv 8) x = load m inp n"
  proof (cases mode)
    case CRYPTO_TDES_MODE_ECB
    then show ?thesis
      using tdes_mode_inverse(1) [OF dvd, of "load m iv 8" mode ks] by (simp add: x_def tdes_mode_def)
  next
    case CRYPTO_TDES_MODE_CBC
    then have "load m' iv 8 = load m iv 8"
      using valid iv len unfolding tdes_validate_SUCCESS by (simp add: m'_eq load_store_disjoint)
    then show ?thesis using tdes_mode_inverse(1) [OF dvd, of "load m iv 8" mode ks] by (simp add: x_def)
  qed
  then show ?thesis
    using crypto_tdes_eq [OF _ valid', of m' False] by (simp add: keys lx)
qed

text \<open>
  C26. Round trip through the public block-cipher interface, for the eleven algorithm
  identifiers: when encryption succeeds, with buffers that coincide or do not overlap and an
  output that does not cover the key or the IV, decrypting the output in place with the same
  arguments succeeds and restores the message.
\<close>

theorem block_cipher_roundtrip:
  assumes "out = inp \<or> disjoint out n inp n"
    and "LIBERAC_BLOCK_CIPHER_ENCRYPT m out cap inp n key kl iv ivl alg = (SUCCESS, m')"
    and "disjoint out n key kl" and "disjoint out n iv ivl"
  shows "fst (LIBERAC_BLOCK_CIPHER_DECRYPT m' out cap out n key kl iv ivl alg) = SUCCESS \<and>
    load (snd (LIBERAC_BLOCK_CIPHER_DECRYPT m' out cap out n key kl iv ivl alg)) out n = load m inp n"
proof (cases "block_cipher_parameters alg")
  case (Inl e)
  then show ?thesis
    using assms(2) block_cipher_parameters_error [OF Inl] by (simp add: LIBERAC_BLOCK_CIPHER_ENCRYPT_def)
next
  case (Inr p)
  show ?thesis
  proof (cases "bc_FAMILY p")
    case BLOCK_CIPHER_AES
    then have e: "crypto_aes_encrypt m out cap inp n key kl iv ivl (bc_KEY_LENGTH p) (bc_MODE p) = (SUCCESS, m')"
      using assms(2) by (simp add: LIBERAC_BLOCK_CIPHER_ENCRYPT_def Inr)
    have "fst (crypto_aes_decrypt m' out cap out n key kl iv ivl (bc_KEY_LENGTH p) (bc_MODE p)) = SUCCESS \<and>
      load (snd (crypto_aes_decrypt m' out cap out n key kl iv ivl (bc_KEY_LENGTH p) (bc_MODE p))) out n = load m inp n"
      by (rule aes_decrypt_after_encrypt [OF assms(1) _ assms(3,4)]) (simp_all only: e fst_conv snd_conv)
    then show ?thesis by (simp add: LIBERAC_BLOCK_CIPHER_DECRYPT_def Inr BLOCK_CIPHER_AES)
  next
    case BLOCK_CIPHER_TDES
    then have e: "crypto_tdes_ede3_crypt m out cap inp n key kl iv ivl (bc_TDES_MODE p) True = (SUCCESS, m')"
      using assms(2) by (simp add: LIBERAC_BLOCK_CIPHER_ENCRYPT_def Inr)
    have "crypto_tdes_ede3_crypt m' out cap out n key kl iv ivl (bc_TDES_MODE p) False =
      (SUCCESS, store m' out (load m inp n))"
      by (rule tdes_decrypt_after_encrypt [OF assms(1) _ assms(3,4)]) (simp_all only: e fst_conv snd_conv)
    then show ?thesis
      using load_store_same [of m' out "load m inp n"]
      by (simp add: LIBERAC_BLOCK_CIPHER_DECRYPT_def Inr BLOCK_CIPHER_TDES)
  qed
qed

theorem block_cipher_roundtrip_witness:
  "\<exists>m'. LIBERAC_BLOCK_CIPHER_ENCRYPT (\<lambda>a. of_nat a) 1000 24 400 24 64 24 128 8 LIBERAC_ALG_TDES_EDE3_CBC =
      (SUCCESS, m') \<and>
    load (snd (LIBERAC_BLOCK_CIPHER_DECRYPT m' 1000 24 1000 24 64 24 128 8 LIBERAC_ALG_TDES_EDE3_CBC)) 1000 24 =
      load (\<lambda>a. of_nat a) 400 24"
proof -
  let ?m = "(\<lambda>a. of_nat a) :: mem"
  have "fst (LIBERAC_BLOCK_CIPHER_ENCRYPT ?m 1000 24 400 24 64 24 128 8 LIBERAC_ALG_TDES_EDE3_CBC) = SUCCESS"
    by (simp add: LIBERAC_BLOCK_CIPHER_ENCRYPT_def block_cipher_parameters_def crypto_tdes_eq disjoint_def
        tdes_validate_SUCCESS)
  then obtain m' where e: "LIBERAC_BLOCK_CIPHER_ENCRYPT ?m 1000 24 400 24 64 24 128 8
      LIBERAC_ALG_TDES_EDE3_CBC = (SUCCESS, m')"
    by (metis prod.collapse)
  moreover have "load (snd (LIBERAC_BLOCK_CIPHER_DECRYPT m' 1000 24 1000 24 64 24 128 8
      LIBERAC_ALG_TDES_EDE3_CBC)) 1000 24 = load ?m 400 24"
    by (rule block_cipher_roundtrip [OF _ e, THEN conjunct2]) (simp_all add: disjoint_def)
  ultimately show ?thesis by blast
qed

text \<open>
  Every call with an identifier outside the table is rejected with the same status and
  leaves the memory alone, and a call is rejected for its key exactly when the length is not
  the one \<^verbatim>\<open>LIBERAC_BLOCK_CIPHER_KEY_SIZE\<close> reports: the key size is zero for precisely
  the unknown identifiers, and success implies the reported length.
\<close>

theorem block_cipher_key_size_contract:
  "(LIBERAC_BLOCK_CIPHER_KEY_SIZE alg = 0 \<longrightarrow>
      LIBERAC_BLOCK_CIPHER_ENCRYPT m out cap inp n key kl iv ivl alg = (INVALID_ALG_ID, m) \<and>
      LIBERAC_BLOCK_CIPHER_DECRYPT m out cap inp n key kl iv ivl alg = (INVALID_ALG_ID, m)) \<and>
   (LIBERAC_BLOCK_CIPHER_KEY_SIZE alg \<noteq> 0 \<and> kl \<noteq> LIBERAC_BLOCK_CIPHER_KEY_SIZE alg \<and> key \<noteq> 0 \<and>
      inp \<noteq> 0 \<and> out \<noteq> 0 \<longrightarrow>
      LIBERAC_BLOCK_CIPHER_ENCRYPT m out cap inp n key kl iv ivl alg = (INVALID_KEY, m) \<and>
      LIBERAC_BLOCK_CIPHER_DECRYPT m out cap inp n key kl iv ivl alg = (INVALID_KEY, m))"
proof (cases "block_cipher_parameters alg")
  case (Inl e)
  then show ?thesis
    using block_cipher_parameters_error [OF Inl]
    by (simp add: LIBERAC_BLOCK_CIPHER_KEY_SIZE_def LIBERAC_BLOCK_CIPHER_ENCRYPT_def
        LIBERAC_BLOCK_CIPHER_DECRYPT_def)
next
  case (Inr p)
  have "bc_KEY_LENGTH p \<noteq> 0" "bc_FAMILY p = BLOCK_CIPHER_TDES \<Longrightarrow> bc_KEY_LENGTH p = 24"
    using Inr by (auto simp: block_cipher_parameters_def Let_def split: if_splits)
  then show ?thesis
    by (cases "bc_FAMILY p")
      (simp_all add: LIBERAC_BLOCK_CIPHER_KEY_SIZE_def LIBERAC_BLOCK_CIPHER_ENCRYPT_def
        LIBERAC_BLOCK_CIPHER_DECRYPT_def Inr crypto_tdes_ede3_crypt_def tdes_validate_def
        crypto_aes_encrypt_def crypto_aes_decrypt_def aes_validate_request_def)
qed

theorem block_cipher_key_size_contract_witness:
  "LIBERAC_BLOCK_CIPHER_ENCRYPT m 64 16 64 16 8 24 0 0 LIBERAC_ALG_AES_128_ECB = (INVALID_KEY, m) \<and>
   LIBERAC_BLOCK_CIPHER_DECRYPT m 64 16 64 16 8 24 0 0 3 = (INVALID_ALG_ID, m)"
  using block_cipher_key_size_contract [where alg = LIBERAC_ALG_AES_128_ECB and kl = 24 and key = 8
      and inp = 64 and out = 64 and n = 16 and cap = 16 and iv = 0 and ivl = 0 and m = m]
    block_cipher_key_size_contract [where alg = 3 and kl = 24 and key = 8
      and inp = 64 and out = 64 and n = 16 and cap = 16 and iv = 0 and ivl = 0 and m = m]
  by (simp add: LIBERAC_BLOCK_CIPHER_KEY_SIZE_def block_cipher_parameters_def)

end
