(* ===== verification/Hash_Buffer.thy ===== *)
theory Hash_Buffer
  imports Util_Core
begin

text \<open>
  The buffering that SHA-1, SHA-2 and LSH share: an update first completes a partly filled
  block, then compresses whole blocks of the input and keeps the rest; finalization appends
  a one bit, zeroes and (for SHA-1 and SHA-2) the message length. The lemmas give both as
  functions of the byte sequence absorbed so far, so that each hash is an instance of the
  interface \<open>block_buffer\<close>.
\<close>

section \<open>Update\<close>

definition md_fill ::
    "nat \<Rightarrow> ('c \<Rightarrow> byte list \<Rightarrow> 'c) \<Rightarrow> 'c \<Rightarrow> byte list \<Rightarrow> nat \<Rightarrow> byte list \<Rightarrow> 'c \<times> byte list \<times> nat \<times> byte list" where
  "md_fill n compress core block buffer_length input =
     (let available = n - buffer_length;
          copied = (if length input < available then length input else available);
          block = copy_at block buffer_length (take copied input);
          buffer_length = buffer_length + copied;
          input = drop copied input
      in if buffer_length = n then (compress core (take n block), block, 0, input)
         else (core, block, buffer_length, input))"

definition md_update ::
    "nat \<Rightarrow> ('c \<Rightarrow> byte list \<Rightarrow> 'c) \<Rightarrow> 'c \<Rightarrow> byte list \<Rightarrow> nat \<Rightarrow> byte list \<Rightarrow> 'c \<times> byte list \<times> nat" where
  "md_update n compress core block buffer_length input =
     (let (core, block, buffer_length, input) =
            (if buffer_length \<noteq> 0 then md_fill n compress core block buffer_length input
             else (core, block, buffer_length, input));
          core = absorb n compress core input;
          input = leftover n input
      in if input \<noteq> [] then (core, copy_at block 0 input, length input)
         else (core, block, buffer_length))"

lemma md_update_correct:
  assumes used: "used < n" and len: "n \<le> length block"
    and eq: "md_update n f core block used input = (core', block', used')"
  shows "core' = absorb n f core (take used block @ input)"
    and "take used' block' = leftover n (take used block @ input)"
    and "used' < n" and "length block' = length block"
proof -
  let ?p = "take used block"
  have n: "0 < n" and p: "length ?p = used" and mn: "min (length block) used = used"
    using used len by simp_all
  have tail: "c' = absorb n f c xs \<and> take u' b' = leftover n xs \<and> u' < n \<and> length b' = length b"
    if "(if leftover n xs \<noteq> [] then (absorb n f c xs, copy_at b 0 (leftover n xs), length (leftover n xs))
        else (absorb n f c xs, b, 0)) = (c', b', u')" and "n \<le> length b" for xs c b c' b' u'
  proof -
    have "length (leftover n xs) < n" using n by (rule length_leftover_less)
    then have "length (copy_at b 0 (leftover n xs)) = length b"
      "take (length (leftover n xs)) (copy_at b 0 (leftover n xs)) = leftover n xs"
      using that(2) by (simp_all add: copy_at_def)
    with that n length_leftover_less [OF n, of xs] show ?thesis by (auto split: if_splits)
  qed
  have "core' = absorb n f core (?p @ input) \<and> take used' block' = leftover n (?p @ input) \<and>
      used' < n \<and> length block' = length block"
  proof (cases "used = 0")
    case True
    then have "(if leftover n input \<noteq> [] then (absorb n f core input, copy_at block 0 (leftover n input),
        length (leftover n input)) else (absorb n f core input, block, 0)) = (core', block', used')"
      using eq by (simp add: md_update_def Let_def)
    from tail [OF this len] show ?thesis using True by simp
  next
    case False
    show ?thesis
    proof (cases "length input < n - used")
      case True
      have fill: "md_fill n f core block used input = (core, copy_at block used input, used + length input, [])"
      proof -
        have "used + length input \<noteq> n" using True by simp
        then show ?thesis using True by (simp add: md_fill_def Let_def)
      qed
      have nil: "leftover n [] = ([] :: byte list)" "absorb n f core [] = core"
        using n by (simp_all add: leftover_def)
      have "core' = core \<and> block' = copy_at block used input \<and> used' = used + length input"
        using eq False unfolding md_update_def Let_def fill by (simp add: nil)
      moreover have "take (used + length input) (copy_at block used input) = ?p @ input"
        using True len by (intro take_copy_at) auto
      ultimately show ?thesis using True len p by (simp add: length_copy_at)
    next
      case f: False
      define b where "b = copy_at block used (take (n - used) input)"
      have b: "take n b = ?p @ take (n - used) input" "length b = length block"
        using f used len unfolding b_def by (simp_all add: take_copy_at length_copy_at)
      have "md_fill n f core block used input = (f core (take n b), b, 0, drop (n - used) input)"
        using f used by (simp add: md_fill_def Let_def b_def)
      then have "core' = absorb n f (f core (take n b)) (drop (n - used) input) \<and>
          take used' block' = leftover n (drop (n - used) input) \<and> used' < n \<and> length block' = length b"
        using eq False b(2) len unfolding md_update_def Let_def by (intro tail) simp_all
      moreover have "absorb n f core (?p @ input) = absorb n f (f core (take n b)) (drop (n - used) input)"
        using absorb_fill [of ?p n input f core] f used by (simp add: mn b(1))
      moreover have "leftover n (?p @ input) = leftover n (drop (n - used) input)"
        using leftover_fill [of ?p n input] f used by (simp add: mn)
      ultimately show ?thesis using b(2) by (simp only:)
    qed
  qed
  then show "core' = absorb n f core (?p @ input)" "take used' block' = leftover n (?p @ input)"
    "used' < n" "length block' = length block" by auto
qed

section \<open>Padding\<close>

text \<open>The end of a message: \<open>z\<close> is the end of the zeroed range, \<open>L\<close> the length field.\<close>

definition md_finish ::
    "nat \<Rightarrow> nat \<Rightarrow> ('c \<Rightarrow> byte list \<Rightarrow> 'c) \<Rightarrow> 'c \<Rightarrow> byte list \<Rightarrow> nat \<Rightarrow> byte list \<Rightarrow> 'c \<times> byte list" where
  "md_finish n z compress core block used bits =
     (let block = block[used := 0x80]; used = used + 1;
          (core, block, used) =
            (if n - length bits < used
             then let block = copy_at block used (zeroes (n - used))
               in (compress core (take n block), block, 0)
             else (core, block, used));
          block = copy_at block used (zeroes (z - used));
          block = copy_at block (n - length bits) bits
      in (compress core (take n block), block))"

definition md_padding :: "nat \<Rightarrow> byte list \<Rightarrow> nat \<Rightarrow> byte list" where
  "md_padding n bits tlen = [0x80] @ zeroes ((2 * n - 1 - length bits - tlen mod n) mod n) @ bits"

lemma md_finish_correct:
  assumes used: "used < n" and len: "n \<le> length block" and L: "length bits < n"
    and z: "n - length bits \<le> z" "z \<le> n" and tlen: "used = tlen mod n"
  shows "fst (md_finish n z f core block used bits) =
      absorb n f core (take used block @ md_padding n bits tlen)"
    and "length (snd (md_finish n z f core block used bits)) = length block"
proof -
  let ?L = "length bits"
  define b where "b = block[used := 0x80]"
  have b: "length b = length block" "take (used + 1) b = take used block @ [0x80]"
    using used len by (simp_all add: b_def take_Suc_conv_app_nth)
  have last: "take n (copy_at (copy_at c u (zeroes (z - u))) (n - ?L) bits) = take u c @ zeroes (n - ?L - u) @ bits"
    "length (copy_at (copy_at c u (zeroes (z - u))) (n - ?L) bits) = length c"
    if "u \<le> n - ?L" "n \<le> length c" for u c
  proof -
    define Z where "Z = copy_at c u (zeroes (z - u))"
    have "z - u = (n - ?L - u) + (z - (n - ?L))" using that z by simp
    then have "zeroes (z - u) = zeroes (n - ?L - u) @ zeroes (z - (n - ?L))"
      by (simp only: replicate_add)
    moreover have "Z = take u c @ zeroes (z - u) @ drop (u + (z - u)) c"
      by (simp add: Z_def copy_at_def)
    ultimately have "Z = (take u c @ zeroes (n - ?L - u)) @ zeroes (z - (n - ?L)) @ drop (u + (z - u)) c"
      by (simp only: append_assoc)
    moreover have "length (take u c @ zeroes (n - ?L - u)) = n - ?L" using that by simp
    ultimately have tZ: "take (n - ?L) Z = take u c @ zeroes (n - ?L - u)"
      by (metis append_eq_conv_conj)
    have lZ: "length Z = length c"
      using that z unfolding Z_def by (intro length_copy_at) auto
    show "take n (copy_at (copy_at c u (zeroes (z - u))) (n - ?L) bits) = take u c @ zeroes (n - ?L - u) @ bits"
      using take_copy_at [of n "n - ?L" bits Z] that L tZ lZ by (simp flip: Z_def)
    show "length (copy_at (copy_at c u (zeroes (z - u))) (n - ?L) bits) = length c"
      using length_copy_at [of "n - ?L" bits Z] that L lZ by (simp flip: Z_def)
  qed
  show "fst (md_finish n z f core block used bits) =
      absorb n f core (take used block @ md_padding n bits tlen)"
  proof (cases "n - ?L < used + 1")
    case False
    then have k: "(2 * n - 1 - ?L - tlen mod n) mod n = n - ?L - (used + 1)"
    proof -
      have "2 * n - 1 - ?L - tlen mod n = n + (n - ?L - (used + 1))" using False L tlen by simp
      moreover have "n - ?L - (used + 1) < n" using used by simp
      ultimately show ?thesis by (simp only: mod_add_self1 mod_less)
    qed
    have "fst (md_finish n z f core block used bits) =
        f core (take used block @ [0x80] @ zeroes (n - ?L - (used + 1)) @ bits)"
      using False last(1) [of "used + 1" b] b len
      by (simp add: md_finish_def Let_def flip: b_def)
    also have "\<dots> = absorb n f core (take used block @ [0x80] @ zeroes (n - ?L - (used + 1)) @ bits)"
      using False L used len by (intro absorb_one [symmetric]) auto
    finally show ?thesis unfolding md_padding_def k .
  next
    case True
    have k: "(2 * n - 1 - ?L - tlen mod n) mod n = (n - (used + 1)) + (n - ?L)"
    proof -
      have "2 * n - 1 - ?L - used = (n - (used + 1)) + (n - ?L)" "(n - (used + 1)) + (n - ?L) < n"
        using True L used by linarith+
      then show ?thesis unfolding tlen [symmetric] by (simp only: mod_less)
    qed
    define c where "c = copy_at b (Suc used) (zeroes (n - Suc used))"
    have c: "take n c = take used block @ [0x80] @ zeroes (n - (used + 1))" "length c = length block"
      using b used len unfolding c_def by (simp_all add: take_copy_at length_copy_at)
    have "fst (md_finish n z f core block used bits) = f (f core (take n c)) (zeroes (n - ?L) @ bits)"
      using True last(1) [of 0 c] c len
      by (simp add: md_finish_def Let_def flip: b_def c_def)
    also have "\<dots> = absorb n f (f core (take n c)) (zeroes (n - ?L) @ bits)"
      using L by (intro absorb_one [symmetric]) auto
    also have "\<dots> = absorb n f core (take n c @ zeroes (n - ?L) @ bits)"
      using c(2) len used by (intro absorb_step [symmetric]) auto
    finally show ?thesis unfolding md_padding_def k by (simp add: c replicate_add)
  qed
  show "length (snd (md_finish n z f core block used bits)) = length block"
    using last(2) [of "used + 1" b] last(2) [of 0 "copy_at b (used + 1) (zeroes (n - (used + 1)))"] b used len
    by (auto simp: md_finish_def Let_def length_copy_at simp flip: b_def)
qed

lemma md_padding_dvd:
  assumes "length bits < n"
  shows "n dvd tlen + length (md_padding n bits tlen)"
proof -
  let ?r = "tlen mod n" and ?k = "2 * n - 1 - length bits - tlen mod n"
  have r: "?r < n" using assms by simp
  have "tlen + length (md_padding n bits tlen) = tlen + (1 + length bits + ?k mod n)"
    by (simp add: md_padding_def)
  also have "\<dots> mod n = (?r + (1 + length bits + ?k mod n)) mod n" by (rule mod_add_left_eq [symmetric])
  also have "\<dots> = ((?r + 1 + length bits) + ?k mod n) mod n" by (simp only: add.assoc)
  also have "\<dots> = (?r + 1 + length bits + ?k) mod n" by (rule mod_add_right_eq)
  also have "?r + 1 + length bits + ?k = 2 * n" using r assms by linarith
  finally show ?thesis by (simp add: mod_eq_0_iff_dvd)
qed

section \<open>The logical functions of FIPS 180-4\<close>

definition fips_Ch :: "'a::len word \<Rightarrow> 'a word \<Rightarrow> 'a word \<Rightarrow> 'a word" where
  "fips_Ch x y z = (x AND y) XOR (NOT x AND z)"

definition fips_Parity :: "'a::len word \<Rightarrow> 'a word \<Rightarrow> 'a word \<Rightarrow> 'a word" where
  "fips_Parity x y z = x XOR y XOR z"

definition fips_Maj :: "'a::len word \<Rightarrow> 'a word \<Rightarrow> 'a word \<Rightarrow> 'a word" where
  "fips_Maj x y z = (x AND y) XOR (x AND z) XOR (y AND z)"

section \<open>The interface of an incremental hash\<close>

text \<open>
  What a client of a hash relies on: the state stands for the bytes absorbed so far, an
  update (of a length that a 64-bit \<^verbatim>\<open>size_t\<close> holds) appends to them or, when the length
  limit of the algorithm would be passed, fails and changes nothing, and the output is the
  hash of everything absorbed.
\<close>

locale incremental_hash =
  fixes start :: 's
    and update :: "'s \<Rightarrow> byte list \<Rightarrow> status \<times> 's"
    and digest :: "'s \<Rightarrow> byte list"
    and fits :: "nat \<Rightarrow> bool"
    and spec :: "byte list \<Rightarrow> byte list"
    and absorbed :: "'s \<Rightarrow> byte list \<Rightarrow> bool"
  assumes absorbed_start: "absorbed start []"
    and update_fits: "absorbed s M \<Longrightarrow> length x < 2 ^ 64 \<Longrightarrow> fits (length M + length x) \<Longrightarrow>
      fst (update s x) = SUCCESS \<and> absorbed (snd (update s x)) (M @ x)"
    and update_large: "absorbed s M \<Longrightarrow> length x < 2 ^ 64 \<Longrightarrow> \<not> fits (length M + length x) \<Longrightarrow>
      update s x = (MESSAGE_TOO_LARGE, s)"
    and fits_mono: "fits n \<Longrightarrow> m \<le> n \<Longrightarrow> fits m"
    and digest_spec: "absorbed s M \<Longrightarrow> digest s = spec M"
begin

abbreviation updates :: "'s \<Rightarrow> byte list list \<Rightarrow> 's" where
  "updates \<equiv> foldl (\<lambda>s x. snd (update s x))"

lemma absorbed_updates:
  assumes "absorbed s M" and "fits (length M + length (concat xs))"
    and "\<forall>x \<in> set xs. length x < 2 ^ 64"
  shows "absorbed (updates s xs) (M @ concat xs)"
  using assms
proof (induction xs arbitrary: s M)
  case (Cons x xs)
  then have "fits (length M + length x)" by (auto intro: fits_mono)
  then have "absorbed (snd (update s x)) (M @ x)" using update_fits Cons.prems(1,3) by simp
  then have "absorbed (updates (snd (update s x)) xs) ((M @ x) @ concat xs)"
    using Cons.prems(2,3) by (intro Cons.IH) (simp_all add: add.assoc)
  then show ?case by simp
qed simp

lemma update_status:
  "absorbed s M \<Longrightarrow> length x < 2 ^ 64 \<Longrightarrow> fst (update s x) = (if fits (length M + length x) then SUCCESS else MESSAGE_TOO_LARGE)"
  using update_fits [of s M x] update_large [of s M x] by auto

lemma digest_updates:
  "fits (length (concat xs)) \<Longrightarrow> \<forall>x \<in> set xs. length x < 2 ^ 64 \<Longrightarrow> digest (updates start xs) = spec (concat xs)"
  using absorbed_updates [OF absorbed_start, of xs] digest_spec by simp

end

text \<open>The bytes of a 64-bit length, most significant first.\<close>

lemma length_bytes_be:
  "map (\<lambda>i. ucast (drop_bit (8 * (7 - i)) v)) [0..<8] = be_of_nat 8 (unat (v :: u64))"
proof (rule nth_equalityI)
  fix i assume "i < length (map (\<lambda>i. ucast (drop_bit (8 * (7 - i)) v) :: byte) [0..<8])"
  then have i: "i < 8" by simp
  have "(ucast (drop_bit (8 * (7 - i)) v) :: byte) = of_nat (unat v div 256 ^ (7 - i))"
  proof -
    have "(2 :: nat) ^ (8 * (7 - i)) = 256 ^ (7 - i)" by (simp add: power_mult)
    then have "unat (ucast (drop_bit (8 * (7 - i)) v) :: byte) = unat (of_nat (unat v div 256 ^ (7 - i)) :: byte)"
      by (simp add: unat_ucast unat_drop_bit)
    then show ?thesis by (rule word_unat_eq_iff [THEN iffD2])
  qed
  then show "map (\<lambda>i. ucast (drop_bit (8 * (7 - i)) v) :: byte) [0..<8] ! i = be_of_nat 8 (unat v) ! i"
    using i by (simp add: be_of_nat_eq)
qed simp

lemma ucast_drop_of_nat:
  "(ucast (drop_bit (8 * k) (v :: 'a::len word)) :: byte) = of_nat (unat v div 256 ^ k)"
proof -
  have "(2 :: nat) ^ (8 * k) = 256 ^ k" by (simp add: power_mult)
  then have "unat (ucast (drop_bit (8 * k) v) :: byte) = unat (of_nat (unat v div 256 ^ k) :: byte)"
    by (simp add: unat_ucast unat_drop_bit)
  then show ?thesis by (rule word_unat_eq_iff [THEN iffD2])
qed

lemma store64_be_bytes: "crypto_store64_be v = be_of_nat 8 (unat v)"
proof -
  have "crypto_store64_be v = map (\<lambda>i. ucast (drop_bit (8 * (7 - i)) v)) [0..<8]"
    by (simp add: crypto_store64_be_def crypto_store32_be_def upt_rec [of _ 8])
      (auto intro!: bit_word_eqI simp: bit_simps)
  then show ?thesis by (simp only: length_bytes_be)
qed

lemma store32_be_bytes: "crypto_store32_be v = be_of_nat 4 (unat v)"
  using ucast_drop_of_nat [of 3 v] ucast_drop_of_nat [of 2 v] ucast_drop_of_nat [of 1 v] ucast_drop_of_nat [of 0 v]
  by (simp add: be_of_nat_eq upt_rec [of _ 4] crypto_store32_be_def)

lemma be_of_nat_split: "be_of_nat (j + k) v = be_of_nat j (v div 256 ^ k) @ be_of_nat k v"
  by (rule nth_equalityI)
    (auto simp: be_of_nat_eq nth_append div_mult2_eq [symmetric] power_add [symmetric] intro!: arg_cong [of _ _ of_nat]
      arg_cong [of _ _ "(div) v"] arg_cong [of _ _ "(^) 256"])

lemma be_of_nat_mod: "be_of_nat k (v mod 256 ^ k) = be_of_nat k v"
  using nat_of_be_of_nat [of k v] be_of_nat_of_be [of "be_of_nat k v" k] by simp

lemma store32_be_of_nat: "crypto_store32_be (of_nat i) = be_of_nat 4 i"
  unfolding store32_be_bytes unat_of_nat using be_of_nat_mod [of 4 i] by simp

end
