(* ===== verification/SHA1.thy ===== *)
theory SHA1
  imports Hash_Buffer
begin

text \<open>
  \<^verbatim>\<open>src/HashFunction/SHA1/sha1.c\<close>: the compression function with its sixteen-word circular
  schedule, the incremental update, finalization and output. The specification is FIPS 180-4:
  the full eighty-word schedule, the functions Ch, Parity and Maj, and padding to whole blocks.
\<close>

section \<open>The code\<close>

type_synonym sha1_state = "u32 \<times> u32 \<times> u32 \<times> u32 \<times> u32"

record crypto_sha1_context =
  sha1_STATE :: sha1_state
  sha1_BLOCK :: "byte list"
  sha1_LENGTH :: u64
  sha1_BUFFER_LENGTH :: nat

definition rol32 :: "u32 \<Rightarrow> nat \<Rightarrow> u32" where
  "rol32 x n = push_bit n x OR drop_bit (32 - n) x"

definition load_be32 :: "byte list \<Rightarrow> u32" where
  "load_be32 p =
     push_bit 24 (ucast (p ! 0)) OR push_bit 16 (ucast (p ! 1)) OR
     push_bit 8 (ucast (p ! 2)) OR ucast (p ! 3)"

definition store_be32 :: "u32 \<Rightarrow> byte list" where
  "store_be32 x = [ucast (drop_bit 24 x), ucast (drop_bit 16 x), ucast (drop_bit 8 x), ucast x]"

definition sha1_schedule_step :: "nat \<Rightarrow> u32 list \<Rightarrow> u32 list" where
  "sha1_schedule_step i w =
     (if 16 \<le> i
      then w[i mod 16 := rol32 (w ! ((i - 3) mod 16) XOR w ! ((i - 8) mod 16) XOR
               w ! ((i - 14) mod 16) XOR w ! (i mod 16)) 1]
      else w)"

definition sha1_fk :: "nat \<Rightarrow> u32 \<Rightarrow> u32 \<Rightarrow> u32 \<Rightarrow> u32 \<times> u32" where
  "sha1_fk i b c d =
     (if i < 20 then ((b AND c) OR (NOT b AND d), 0x5a827999)
      else if i < 40 then (b XOR c XOR d, 0x6ed9eba1)
      else if i < 60 then ((b AND c) OR (b AND d) OR (c AND d), 0x8f1bbcdc)
      else (b XOR c XOR d, 0xca62c1d6))"

definition sha1_round :: "nat \<Rightarrow> u32 list \<times> sha1_state \<Rightarrow> u32 list \<times> sha1_state" where
  "sha1_round i s =
     (case s of (w, a, b, c, d, e) \<Rightarrow>
        let w = sha1_schedule_step i w;
            (f, k) = sha1_fk i b c d;
            t = rol32 a 5 + f + e + k + w ! (i mod 16)
        in (w, t, a, rol32 b 30, c, d))"

definition sha1_compress :: "sha1_state \<Rightarrow> byte list \<Rightarrow> sha1_state" where
  "sha1_compress state block =
     (case state of (h0, h1, h2, h3, h4) \<Rightarrow>
      case fold sha1_round [0..<80] (map (\<lambda>i. load_be32 (drop (4 * i) block)) [0..<16], state) of
        (w, a, b, c, d, e) \<Rightarrow> (h0 + a, h1 + b, h2 + c, h3 + d, h4 + e))"

definition crypto_sha1_init :: crypto_sha1_context where
  "crypto_sha1_init =
     \<lparr>sha1_STATE = (0x67452301, 0xefcdab89, 0x98badcfe, 0x10325476, 0xc3d2e1f0),
      sha1_BLOCK = zeroes 64, sha1_LENGTH = 0, sha1_BUFFER_LENGTH = 0\<rparr>"

definition crypto_sha1_update :: "crypto_sha1_context \<Rightarrow> byte list \<Rightarrow> status \<times> crypto_sha1_context" where
  "crypto_sha1_update ctx input =
     (if (2 ^ 64 - 1 - unat (sha1_LENGTH ctx)) div 8 < length input then (MESSAGE_TOO_LARGE, ctx)
      else let (state, block, buffer_length) =
             md_update 64 sha1_compress (sha1_STATE ctx) (sha1_BLOCK ctx) (sha1_BUFFER_LENGTH ctx) input
        in (SUCCESS, ctx\<lparr>sha1_LENGTH := sha1_LENGTH ctx + of_nat (length input) * 8,
              sha1_STATE := state, sha1_BLOCK := block, sha1_BUFFER_LENGTH := buffer_length\<rparr>))"

definition crypto_sha1_finalize :: "crypto_sha1_context \<Rightarrow> crypto_sha1_context" where
  "crypto_sha1_finalize ctx =
     (let bits = map (\<lambda>i. ucast (drop_bit (8 * (7 - i)) (sha1_LENGTH ctx))) [0..<8];
          (state, block) = md_finish 64 56 sha1_compress (sha1_STATE ctx) (sha1_BLOCK ctx)
            (sha1_BUFFER_LENGTH ctx) bits
      in ctx\<lparr>sha1_STATE := state, sha1_BLOCK := block, sha1_BUFFER_LENGTH := 0\<rparr>)"

definition crypto_sha1_squeeze :: "crypto_sha1_context \<Rightarrow> byte list" where
  "crypto_sha1_squeeze ctx =
     (case sha1_STATE ctx of (h0, h1, h2, h3, h4) \<Rightarrow> concat (map store_be32 [h0, h1, h2, h3, h4]))"

section \<open>FIPS 180-4\<close>

function fips_sha1_W :: "byte list \<Rightarrow> nat \<Rightarrow> u32" where
  "fips_sha1_W block t =
     (if t < 16 then crypto_load32_be (drop (4 * t) block)
      else word_rotl 1 (fips_sha1_W block (t - 3) XOR fips_sha1_W block (t - 8) XOR
             fips_sha1_W block (t - 14) XOR fips_sha1_W block (t - 16)))"
  by pat_completeness auto
termination by (relation "measure snd") auto

declare fips_sha1_W.simps [simp del]

definition fips_sha1_step :: "byte list \<Rightarrow> nat \<Rightarrow> sha1_state \<Rightarrow> sha1_state" where
  "fips_sha1_step block t s =
     (case s of (a, b, c, d, e) \<Rightarrow>
        let f = (if t < 20 then fips_Ch b c d else if t < 40 then fips_Parity b c d
                 else if t < 60 then fips_Maj b c d else fips_Parity b c d);
            k = (if t < 20 then 0x5a827999 else if t < 40 then 0x6ed9eba1
                 else if t < 60 then 0x8f1bbcdc else 0xca62c1d6)
        in (word_rotl 5 a + f + e + k + fips_sha1_W block t, a, word_rotl 30 b, c, d))"

definition fips_sha1_block :: "sha1_state \<Rightarrow> byte list \<Rightarrow> sha1_state" where
  "fips_sha1_block h block =
     (case h of (h0, h1, h2, h3, h4) \<Rightarrow>
      case fold (fips_sha1_step block) [0..<80] h of
        (a, b, c, d, e) \<Rightarrow> (h0 + a, h1 + b, h2 + c, h3 + d, h4 + e))"

definition fips_sha1 :: "byte list \<Rightarrow> byte list" where
  "fips_sha1 message =
     (case absorb 64 fips_sha1_block (0x67452301, 0xefcdab89, 0x98badcfe, 0x10325476, 0xc3d2e1f0)
             (message @ md_padding 64 (be_of_nat 8 (8 * length message)) (length message)) of
        (h0, h1, h2, h3, h4) \<Rightarrow> concat (map crypto_store32_be [h0, h1, h2, h3, h4]))"

section \<open>The compression function\<close>

lemma rol32_rotl: "0 < n \<Longrightarrow> n < 32 \<Longrightarrow> rol32 x n = word_rotl n x"
  using rotl_of_shifts [of n x] by (simp add: rol32_def)

lemma sha1_fk_fips:
  "sha1_fk t b c d =
     (if t < 20 then fips_Ch b c d else if t < 40 then fips_Parity b c d
      else if t < 60 then fips_Maj b c d else fips_Parity b c d,
      if t < 20 then 0x5a827999 else if t < 40 then 0x6ed9eba1
      else if t < 60 then 0x8f1bbcdc else 0xca62c1d6)"
proof -
  have "(b AND c) OR (NOT b AND d) = fips_Ch b c d"
    by (rule bit_word_eqI) (auto simp: fips_Ch_def bit_simps)
  moreover have "(b AND c) OR (b AND d) OR (c AND d) = fips_Maj b c d"
    by (rule bit_word_eqI) (auto simp: fips_Maj_def bit_simps)
  ultimately show ?thesis by (simp add: sha1_fk_def fips_Parity_def)
qed

text \<open>The circular buffer holds the last sixteen words of the schedule.\<close>

definition sha1_window :: "byte list \<Rightarrow> nat \<Rightarrow> u32 list \<Rightarrow> bool" where
  "sha1_window block i w \<longleftrightarrow> length w = 16 \<and>
     (\<forall>t < max 16 i. max 16 i \<le> t + 16 \<longrightarrow> w ! (t mod 16) = fips_sha1_W block t)"

lemma mod16_distinct:
  assumes "t < i" and "i < t + 16"
  shows "t mod 16 \<noteq> i mod (16 :: nat)"
proof
  assume "t mod 16 = i mod 16"
  then have "16 dvd i - t" using assms(1) mod_eq_dvd_iff_nat [of t i 16] by simp
  then show False using assms by (auto dest: dvd_imp_le)
qed

lemma sha1_schedule_step_window:
  assumes "sha1_window block i w"
  shows "sha1_window block (Suc i) (sha1_schedule_step i w)"
    and "sha1_schedule_step i w ! (i mod 16) = fips_sha1_W block i"
proof -
  have len: "length w = 16" and win: "\<And>t. t < max 16 i \<Longrightarrow> max 16 i \<le> t + 16 \<Longrightarrow>
      w ! (t mod 16) = fips_sha1_W block t"
    using assms by (simp_all add: sha1_window_def)
  have "sha1_window block (Suc i) (sha1_schedule_step i w) \<and>
      sha1_schedule_step i w ! (i mod 16) = fips_sha1_W block i"
  proof (cases "16 \<le> i")
    case False
    then show ?thesis using assms win [of i] by (auto simp: sha1_schedule_step_def sha1_window_def)
  next
    case True
    have i: "i mod 16 = (i - 16) mod 16" using True by (simp add: le_mod_geq)
    have "w ! ((i - 3) mod 16) XOR w ! ((i - 8) mod 16) XOR w ! ((i - 14) mod 16) XOR w ! (i mod 16) =
        fips_sha1_W block (i - 3) XOR fips_sha1_W block (i - 8) XOR fips_sha1_W block (i - 14) XOR
        fips_sha1_W block (i - 16)"
      unfolding i using True by (simp add: win)
    then have new: "sha1_schedule_step i w = w[i mod 16 := fips_sha1_W block i]"
      using True by (simp add: sha1_schedule_step_def rol32_rotl fips_sha1_W.simps [of block i])
    have "w[i mod 16 := fips_sha1_W block i] ! (t mod 16) = fips_sha1_W block t"
      if t: "t < Suc i" "Suc i \<le> t + 16" for t
    proof (cases "t = i")
      case False
      then have "t mod 16 \<noteq> i mod 16"
        using t False mod16_distinct [of t i] by simp
      then show ?thesis using win [of t] t False True by simp
    qed (simp add: len)
    then show ?thesis using True len by (simp add: new sha1_window_def)
  qed
  then show "sha1_window block (Suc i) (sha1_schedule_step i w)"
    "sha1_schedule_step i w ! (i mod 16) = fips_sha1_W block i" by auto
qed

lemma load_be32_eq: "load_be32 = crypto_load32_be"
  by (rule ext) (simp add: load_be32_def crypto_load32_be_def)

lemma sha1_round_fips:
  assumes "sha1_window block n w"
  shows "sha1_round n (w, s) = (sha1_schedule_step n w, fips_sha1_step block n s)"
  using sha1_schedule_step_window(2) [OF assms]
  by (cases s) (simp add: sha1_round_def sha1_fk_fips rol32_rotl fips_sha1_step_def)

lemma sha1_rounds:
  assumes "length block = 64"
  shows "case fold sha1_round [0..<n] (map (\<lambda>i. load_be32 (drop (4 * i) block)) [0..<16], h) of
    (w, s) \<Rightarrow> sha1_window block n w \<and> s = fold (fips_sha1_step block) [0..<n] h"
proof (induction n)
  case 0
  show ?case by (simp add: sha1_window_def load_be32_eq fips_sha1_W.simps)
next
  case (Suc n)
  obtain w s where f: "fold sha1_round [0..<n] (map (\<lambda>i. load_be32 (drop (4 * i) block)) [0..<16], h) = (w, s)"
    by (meson surj_pair)
  have w: "sha1_window block n w" and s: "s = fold (fips_sha1_step block) [0..<n] h"
    using Suc by (simp_all add: f)
  show ?case
    using sha1_schedule_step_window(1) [OF w] f s sha1_round_fips [OF w, of s] by simp
qed

lemma sha1_compress_fips:
  assumes "length block = 64"
  shows "sha1_compress h block = fips_sha1_block h block"
proof -
  obtain w s where f: "fold sha1_round [0..<80] (map (\<lambda>i. load_be32 (drop (4 * i) block)) [0..<16], h) = (w, s)"
    by (meson surj_pair)
  have "s = fold (fips_sha1_step block) [0..<80] h"
    using sha1_rounds [OF assms, of 80 h] by (simp add: f)
  then show ?thesis
    by (simp add: sha1_compress_def fips_sha1_block_def f split: prod.split)
qed

section \<open>The incremental hash\<close>

definition sha1_absorbed :: "crypto_sha1_context \<Rightarrow> byte list \<Rightarrow> bool" where
  "sha1_absorbed ctx M \<longleftrightarrow>
     sha1_STATE ctx = absorb 64 fips_sha1_block (sha1_STATE crypto_sha1_init) M \<and>
     take (sha1_BUFFER_LENGTH ctx) (sha1_BLOCK ctx) = leftover 64 M \<and>
     sha1_BUFFER_LENGTH ctx < 64 \<and> length (sha1_BLOCK ctx) = 64 \<and>
     unat (sha1_LENGTH ctx) = 8 * length M"

lemma absorb_sha1: "absorb 64 sha1_compress h M = absorb 64 fips_sha1_block h M"
  by (rule absorb_relation [where P = "(=)"]) (simp_all add: sha1_compress_fips)

lemma store_be32_eq: "store_be32 = crypto_store32_be"
  by (rule ext) (simp add: store_be32_def crypto_store32_be_def)

definition sha1_fits :: "nat \<Rightarrow> bool" where
  "sha1_fits n \<longleftrightarrow> 8 * n < 2 ^ 64"

interpretation sha1: incremental_hash crypto_sha1_init crypto_sha1_update
  "\<lambda>ctx. crypto_sha1_squeeze (crypto_sha1_finalize ctx)" sha1_fits fips_sha1 sha1_absorbed
proof
  show "sha1_absorbed crypto_sha1_init []"
    by (simp add: sha1_absorbed_def crypto_sha1_init_def)
  show "sha1_fits m" if "sha1_fits n" "m \<le> n" for m n
    using that by (simp add: sha1_fits_def)
  fix ctx :: crypto_sha1_context and M x :: "byte list"
  assume a: "sha1_absorbed ctx M"
  have fit: "(2 ^ 64 - 1 - unat (sha1_LENGTH ctx)) div 8 < length x \<longleftrightarrow> \<not> sha1_fits (length M + length x)"
    using a unat_u64_less [of "sha1_LENGTH ctx"] by (auto simp: sha1_absorbed_def sha1_fits_def)
  show "crypto_sha1_update ctx x = (MESSAGE_TOO_LARGE, ctx)" if "\<not> sha1_fits (length M + length x)"
    using that unfolding crypto_sha1_update_def fit by simp
  show "fst (crypto_sha1_update ctx x) = SUCCESS \<and> sha1_absorbed (snd (crypto_sha1_update ctx x)) (M @ x)"
    if fits: "sha1_fits (length M + length x)"
  proof -
    obtain c b u where e: "md_update 64 sha1_compress (sha1_STATE ctx) (sha1_BLOCK ctx)
        (sha1_BUFFER_LENGTH ctx) x = (c, b, u)" by (metis prod_cases3)
    have len: "sha1_BUFFER_LENGTH ctx < 64" "64 \<le> length (sha1_BLOCK ctx)"
      using a by (simp_all add: sha1_absorbed_def)
    note r = md_update_correct [OF len e]
    have L: "unat (sha1_LENGTH ctx + of_nat (length x) * 8) = 8 * (length M + length x)"
    proof -
      have b: "8 * length M + 8 * length x < 2 ^ LENGTH(64)" and l: "unat (sha1_LENGTH ctx) = 8 * length M"
        using a fits by (simp_all add: sha1_absorbed_def sha1_fits_def)
      have "unat (of_nat (length x) :: u64) = length x"
        using b by (simp add: unat_of_nat)
      then have "unat (of_nat (length x) * 8 :: u64) = length x * 8"
        using b by (subst unat_mult_small) simp_all
      then show ?thesis using b l by (subst unat_add_small) simp_all
    qed
    show ?thesis
      using a r L absorb_append [of 64 fips_sha1_block "sha1_STATE crypto_sha1_init" M x]
        leftover_append [of 64 M x] fits
      unfolding crypto_sha1_update_def fit e
      by (simp add: sha1_absorbed_def absorb_sha1)
  qed
  show "crypto_sha1_squeeze (crypto_sha1_finalize ctx) = fips_sha1 M"
  proof -
    have len: "sha1_BUFFER_LENGTH ctx < 64" "64 \<le> length (sha1_BLOCK ctx)"
      using a by (simp_all add: sha1_absorbed_def)
    have used: "sha1_BUFFER_LENGTH ctx = length M mod 64"
      using a length_leftover [of 64 M] by (auto simp: sha1_absorbed_def dest: arg_cong [of _ _ length])
    have bits: "map (\<lambda>i. ucast (drop_bit (8 * (7 - i)) (sha1_LENGTH ctx))) [0..<8] =
        be_of_nat 8 (8 * length M)"
      using a by (simp only: length_bytes_be sha1_absorbed_def)
    have "fst (md_finish 64 56 sha1_compress (sha1_STATE ctx) (sha1_BLOCK ctx) (sha1_BUFFER_LENGTH ctx)
        (be_of_nat 8 (8 * length M))) = absorb 64 fips_sha1_block (sha1_STATE crypto_sha1_init)
        (M @ md_padding 64 (be_of_nat 8 (8 * length M)) (length M))"
      using a md_finish_correct(1) [OF len _ _ _ used, of "be_of_nat 8 (8 * length M)" 56 sha1_compress
          "sha1_STATE ctx"]
      by (simp add: absorb_sha1 sha1_absorbed_def
          absorb_append [of 64 fips_sha1_block "sha1_STATE crypto_sha1_init" M])
    then obtain b where f: "md_finish 64 56 sha1_compress (sha1_STATE ctx) (sha1_BLOCK ctx)
        (sha1_BUFFER_LENGTH ctx) (be_of_nat 8 (8 * length M)) =
        (absorb 64 fips_sha1_block (sha1_STATE crypto_sha1_init)
          (M @ md_padding 64 (be_of_nat 8 (8 * length M)) (length M)), b)"
      by (metis prod.collapse)
    then show ?thesis
      unfolding crypto_sha1_squeeze_def crypto_sha1_finalize_def Let_def bits fips_sha1_def f
      by (simp add: store_be32_eq crypto_sha1_init_def)
  qed
qed

text \<open>
  C27. However a message under 2^64 bits is cut into updates, SHA-1's init, updates, finalize
  and squeeze return the FIPS 180-4 digest of the whole message.
\<close>

theorem sha1_incremental_correct:
  assumes "8 * length (concat chunks) < 2 ^ 64"
  shows "crypto_sha1_squeeze (crypto_sha1_finalize
      (foldl (\<lambda>ctx x. snd (crypto_sha1_update ctx x)) crypto_sha1_init chunks)) = fips_sha1 (concat chunks)"
proof (rule sha1.digest_updates)
  show "sha1_fits (length (concat chunks))" using assms by (simp add: sha1_fits_def)
  have "length x \<le> length (concat chunks)" if "x \<in> set chunks" for x
    using that by (induction chunks) auto
  then show "\<forall>x \<in> set chunks. length x < 2 ^ 64" using assms by fastforce
qed

lemma sha1_incremental_correct_witness:
  "crypto_sha1_squeeze (crypto_sha1_finalize
      (foldl (\<lambda>ctx x. snd (crypto_sha1_update ctx x)) crypto_sha1_init [[0x61], [], [0x62, 0x63]])) =
    fips_sha1 [0x61, 0x62, 0x63]"
  using sha1_incremental_correct [of "[[0x61], [], [0x62, 0x63]]"] by simp

end
