(* ===== verification/SHA2.thy ===== *)
theory SHA2
  imports Hash_Buffer Alg_Ids
begin

text \<open>
  \<^verbatim>\<open>src/HashFunction/SHA2/sha2.c\<close>: the two compression functions, the six variants, the
  128-bit length counter and the incremental interface. The specification is FIPS 180-4 with
  the recursive message schedule.
\<close>

section \<open>The code\<close>

type_synonym 'w sha2_words = "'w \<times> 'w \<times> 'w \<times> 'w \<times> 'w \<times> 'w \<times> 'w \<times> 'w"

definition sha2_add :: "'w::plus sha2_words \<Rightarrow> 'w sha2_words \<Rightarrow> 'w sha2_words" where
  "sha2_add s t =
     (case s of (s0, s1, s2, s3, s4, s5, s6, s7) \<Rightarrow> case t of (a, b, c, d, e, f, g, h) \<Rightarrow>
        (s0 + a, s1 + b, s2 + c, s3 + d, s4 + e, s5 + f, s6 + g, s7 + h))"

text \<open>
  The two tables of round constants in the order of the C arrays. The source writes them in
  hexadecimal, here they are in decimal.
\<close>

definition sha256_round_constants :: "u32 list" where
  "sha256_round_constants =
   [1116352408, 1899447441, 3049323471, 3921009573, 961987163, 1508970993,
    2453635748, 2870763221, 3624381080, 310598401, 607225278, 1426881987,
    1925078388, 2162078206, 2614888103, 3248222580, 3835390401, 4022224774,
    264347078, 604807628, 770255983, 1249150122, 1555081692, 1996064986,
    2554220882, 2821834349, 2952996808, 3210313671, 3336571891, 3584528711,
    113926993, 338241895, 666307205, 773529912, 1294757372, 1396182291,
    1695183700, 1986661051, 2177026350, 2456956037, 2730485921, 2820302411,
    3259730800, 3345764771, 3516065817, 3600352804, 4094571909, 275423344,
    430227734, 506948616, 659060556, 883997877, 958139571, 1322822218,
    1537002063, 1747873779, 1955562222, 2024104815, 2227730452, 2361852424,
    2428436474, 2756734187, 3204031479, 3329325298]"

definition sha512_round_constants :: "u64 list" where
  "sha512_round_constants =
   [4794697086780616226, 8158064640168781261, 13096744586834688815,
    16840607885511220156, 4131703408338449720, 6480981068601479193,
    10538285296894168987, 12329834152419229976, 15566598209576043074,
    1334009975649890238, 2608012711638119052, 6128411473006802146,
    8268148722764581231, 9286055187155687089, 11230858885718282805,
    13951009754708518548, 16472876342353939154, 17275323862435702243,
    1135362057144423861, 2597628984639134821, 3308224258029322869,
    5365058923640841347, 6679025012923562964, 8573033837759648693,
    10970295158949994411, 12119686244451234320, 12683024718118986047,
    13788192230050041572, 14330467153632333762, 15395433587784984357,
    489312712824947311, 1452737877330783856, 2861767655752347644,
    3322285676063803686, 5560940570517711597, 5996557281743188959,
    7280758554555802590, 8532644243296465576, 9350256976987008742,
    10552545826968843579, 11727347734174303076, 12113106623233404929,
    14000437183269869457, 14369950271660146224, 15101387698204529176,
    15463397548674623760, 17586052441742319658, 1182934255886127544,
    1847814050463011016, 2177327727835720531, 2830643537854262169,
    3796741975233480872, 4115178125766777443, 5681478168544905931,
    6601373596472566643, 7507060721942968483, 8399075790359081724,
    8693463985226723168, 9568029438360202098, 10144078919501101548,
    10430055236837252648, 11840083180663258601, 13761210420658862357,
    14299343276471374635, 14566680578165727644, 15097957966210449927,
    16922976911328602910, 17689382322260857208, 500013540394364858,
    748580250866718886, 1242879168328830382, 1977374033974150939,
    2944078676154940804, 3659926193048069267, 4368137639120453308,
    4836135668995329356, 5532061633213252278, 6448918945643986474,
    6902733635092675308, 7801388544844847127]"

definition sha256_schedule :: "byte list \<Rightarrow> u32 list" where
  "sha256_schedule block =
     fold (\<lambda>round schedule.
       let s0 = crypto_rotr32 (schedule ! (round - 15)) 7 XOR crypto_rotr32 (schedule ! (round - 15)) 18 XOR
                drop_bit 3 (schedule ! (round - 15));
           s1 = crypto_rotr32 (schedule ! (round - 2)) 17 XOR crypto_rotr32 (schedule ! (round - 2)) 19 XOR
                drop_bit 10 (schedule ! (round - 2))
       in schedule @ [schedule ! (round - 16) + s0 + schedule ! (round - 7) + s1])
       [16..<64] (map (\<lambda>round. crypto_load32_be (drop (round * 4) block)) [0..<16])"

definition sha256_round :: "u32 list \<Rightarrow> nat \<Rightarrow> u32 sha2_words \<Rightarrow> u32 sha2_words" where
  "sha256_round schedule round s =
     (case s of (a, b, c, d, e, f, g, h) \<Rightarrow>
        let sigma1 = crypto_rotr32 e 6 XOR crypto_rotr32 e 11 XOR crypto_rotr32 e 25;
            choice = (e AND f) XOR (NOT e AND g);
            temporary1 = h + sigma1 + choice + sha256_round_constants ! round + schedule ! round;
            sigma0 = crypto_rotr32 a 2 XOR crypto_rotr32 a 13 XOR crypto_rotr32 a 22;
            majority = (a AND b) XOR (a AND c) XOR (b AND c);
            temporary2 = sigma0 + majority
        in (temporary1 + temporary2, a, b, c, d + temporary1, e, f, g))"

definition sha256_compress :: "u32 sha2_words \<Rightarrow> byte list \<Rightarrow> u32 sha2_words" where
  "sha256_compress state block =
     sha2_add state (fold (sha256_round (sha256_schedule block)) [0..<64] state)"

definition sha512_schedule :: "byte list \<Rightarrow> u64 list" where
  "sha512_schedule block =
     fold (\<lambda>round schedule.
       let s0 = crypto_rotr64 (schedule ! (round - 15)) 1 XOR crypto_rotr64 (schedule ! (round - 15)) 8 XOR
                drop_bit 7 (schedule ! (round - 15));
           s1 = crypto_rotr64 (schedule ! (round - 2)) 19 XOR crypto_rotr64 (schedule ! (round - 2)) 61 XOR
                drop_bit 6 (schedule ! (round - 2))
       in schedule @ [schedule ! (round - 16) + s0 + schedule ! (round - 7) + s1])
       [16..<80] (map (\<lambda>round. crypto_load64_be (drop (round * 8) block)) [0..<16])"

definition sha512_round :: "u64 list \<Rightarrow> nat \<Rightarrow> u64 sha2_words \<Rightarrow> u64 sha2_words" where
  "sha512_round schedule round s =
     (case s of (a, b, c, d, e, f, g, h) \<Rightarrow>
        let sigma1 = crypto_rotr64 e 14 XOR crypto_rotr64 e 18 XOR crypto_rotr64 e 41;
            choice = (e AND f) XOR (NOT e AND g);
            temporary1 = h + sigma1 + choice + sha512_round_constants ! round + schedule ! round;
            sigma0 = crypto_rotr64 a 28 XOR crypto_rotr64 a 34 XOR crypto_rotr64 a 39;
            majority = (a AND b) XOR (a AND c) XOR (b AND c);
            temporary2 = sigma0 + majority
        in (temporary1 + temporary2, a, b, c, d + temporary1, e, f, g))"

definition sha512_compress :: "u64 sha2_words \<Rightarrow> byte list \<Rightarrow> u64 sha2_words" where
  "sha512_compress state block =
     sha2_add state (fold (sha512_round (sha512_schedule block)) [0..<80] state)"

text \<open>The state is a C union; only the member the variant selects is ever accessed.\<close>

record crypto_sha2_context =
  sha2_WORDS32 :: "u32 sha2_words"
  sha2_WORDS64 :: "u64 sha2_words"
  sha2_BLOCK :: "byte list"
  sha2_LENGTH_LOW :: u64
  sha2_LENGTH_HIGH :: u64
  sha2_BUFFER_LENGTH :: nat
  sha2_USE_SHA512 :: bool

definition crypto_sha2_clear :: crypto_sha2_context where
  "crypto_sha2_clear =
     \<lparr>sha2_WORDS32 = (0, 0, 0, 0, 0, 0, 0, 0), sha2_WORDS64 = (0, 0, 0, 0, 0, 0, 0, 0),
      sha2_BLOCK = zeroes 128, sha2_LENGTH_LOW = 0, sha2_LENGTH_HIGH = 0,
      sha2_BUFFER_LENGTH = 0, sha2_USE_SHA512 = False\<rparr>"

definition crypto_sha2_init :: "alg_id \<Rightarrow> status \<times> crypto_sha2_context" where
  "crypto_sha2_init alg =
     (if alg = LIBERAC_ALG_HASH_SHA2_224 then (SUCCESS, crypto_sha2_clear\<lparr>sha2_WORDS32 :=
       (0xc1059ed8, 0x367cd507, 0x3070dd17, 0xf70e5939,
        0xffc00b31, 0x68581511, 0x64f98fa7, 0xbefa4fa4)\<rparr>)
      else if alg = LIBERAC_ALG_HASH_SHA2_256 then (SUCCESS, crypto_sha2_clear\<lparr>sha2_WORDS32 :=
       (0x6a09e667, 0xbb67ae85, 0x3c6ef372, 0xa54ff53a,
        0x510e527f, 0x9b05688c, 0x1f83d9ab, 0x5be0cd19)\<rparr>)
      else if alg = LIBERAC_ALG_HASH_SHA2_384 then (SUCCESS, crypto_sha2_clear\<lparr>sha2_WORDS64 :=
       (0xcbbb9d5dc1059ed8, 0x629a292a367cd507, 0x9159015a3070dd17, 0x152fecd8f70e5939,
        0x67332667ffc00b31, 0x8eb44a8768581511, 0xdb0c2e0d64f98fa7, 0x47b5481dbefa4fa4), sha2_USE_SHA512 := True\<rparr>)
      else if alg = LIBERAC_ALG_HASH_SHA2_512 then (SUCCESS, crypto_sha2_clear\<lparr>sha2_WORDS64 :=
       (0x6a09e667f3bcc908, 0xbb67ae8584caa73b, 0x3c6ef372fe94f82b, 0xa54ff53a5f1d36f1,
        0x510e527fade682d1, 0x9b05688c2b3e6c1f, 0x1f83d9abfb41bd6b, 0x5be0cd19137e2179), sha2_USE_SHA512 := True\<rparr>)
      else if alg = LIBERAC_ALG_HASH_SHA2_512_224 then (SUCCESS, crypto_sha2_clear\<lparr>sha2_WORDS64 :=
       (0x8c3d37c819544da2, 0x73e1996689dcd4d6, 0x1dfab7ae32ff9c82, 0x679dd514582f9fcf,
        0x0f6d2b697bd44da8, 0x77e36f7304c48942, 0x3f9d85a86a1d36c8, 0x1112e6ad91d692a1), sha2_USE_SHA512 := True\<rparr>)
      else if alg = LIBERAC_ALG_HASH_SHA2_512_256 then (SUCCESS, crypto_sha2_clear\<lparr>sha2_WORDS64 :=
       (0x22312194fc2bf72c, 0x9f555fa3c84c64c2, 0x2393b86b6f53b151, 0x963877195940eabd,
        0x96283ee2a88effe3, 0xbe5e1e2553863992, 0x2b0199fc2c85b8aa, 0x0eb72ddc81c52ca2), sha2_USE_SHA512 := True\<rparr>)
      else (INVALID_ALG_ID, crypto_sha2_clear))"

definition sha2_add_length :: "crypto_sha2_context \<Rightarrow> nat \<Rightarrow> status \<times> crypto_sha2_context" where
  "sha2_add_length context input_length =
     (let maximum_high = drop_bit 3 (- 1) :: u64; addition = of_nat input_length :: u64
      in if \<not> sha2_USE_SHA512 context then
           let maximum_length = drop_bit 3 (- 1) :: u64
           in if sha2_LENGTH_HIGH context \<noteq> 0 \<or> maximum_length - sha2_LENGTH_LOW context < addition
              then (MESSAGE_TOO_LARGE, context)
              else (SUCCESS, context\<lparr>sha2_LENGTH_LOW := sha2_LENGTH_LOW context + addition\<rparr>)
         else
           let new_low = sha2_LENGTH_LOW context + addition;
               new_high = sha2_LENGTH_HIGH context + (if new_low < sha2_LENGTH_LOW context then 1 else 0)
           in if new_high < sha2_LENGTH_HIGH context \<or> maximum_high < new_high
              then (MESSAGE_TOO_LARGE, context)
              else (SUCCESS, context\<lparr>sha2_LENGTH_LOW := new_low, sha2_LENGTH_HIGH := new_high\<rparr>))"

definition crypto_sha2_update :: "crypto_sha2_context \<Rightarrow> byte list \<Rightarrow> status \<times> crypto_sha2_context" where
  "crypto_sha2_update context input =
     (let (error, context) = sha2_add_length context (length input)
      in if error \<noteq> SUCCESS then (error, context)
         else if sha2_USE_SHA512 context then
           let (state, block, buffer_length) = md_update 128 sha512_compress (sha2_WORDS64 context)
                 (sha2_BLOCK context) (sha2_BUFFER_LENGTH context) input
           in (SUCCESS, context\<lparr>sha2_WORDS64 := state, sha2_BLOCK := block,
                 sha2_BUFFER_LENGTH := buffer_length\<rparr>)
         else
           let (state, block, buffer_length) = md_update 64 sha256_compress (sha2_WORDS32 context)
                 (sha2_BLOCK context) (sha2_BUFFER_LENGTH context) input
           in (SUCCESS, context\<lparr>sha2_WORDS32 := state, sha2_BLOCK := block,
                 sha2_BUFFER_LENGTH := buffer_length\<rparr>))"

definition crypto_sha2_finalize :: "crypto_sha2_context \<Rightarrow> crypto_sha2_context" where
  "crypto_sha2_finalize context =
     (let context =
        (if sha2_USE_SHA512 context then
           let bits = crypto_store64_be (push_bit 3 (sha2_LENGTH_HIGH context) OR
                        drop_bit 61 (sha2_LENGTH_LOW context)) @
                      crypto_store64_be (push_bit 3 (sha2_LENGTH_LOW context));
               (state, block) = md_finish 128 128 sha512_compress (sha2_WORDS64 context)
                 (sha2_BLOCK context) (sha2_BUFFER_LENGTH context) bits
           in context\<lparr>sha2_WORDS64 := state\<rparr>
         else
           let bits = crypto_store64_be (push_bit 3 (sha2_LENGTH_LOW context));
               (state, block) = md_finish 64 64 sha256_compress (sha2_WORDS32 context)
                 (sha2_BLOCK context) (sha2_BUFFER_LENGTH context) bits
           in context\<lparr>sha2_WORDS32 := state\<rparr>)
      in context\<lparr>sha2_BLOCK := zeroes 128, sha2_BUFFER_LENGTH := 0\<rparr>)"

definition sha2_store :: "('w \<Rightarrow> byte list) \<Rightarrow> 'w sha2_words \<Rightarrow> byte list" where
  "sha2_store put s =
     (case s of (a, b, c, d, e, f, g, h) \<Rightarrow> concat (map put [a, b, c, d, e, f, g, h]))"

definition crypto_sha2_squeeze :: "crypto_sha2_context \<Rightarrow> alg_id \<Rightarrow> byte list" where
  "crypto_sha2_squeeze context alg =
     (let digest = (if sha2_USE_SHA512 context then sha2_store crypto_store64_be (sha2_WORDS64 context)
                    else sha2_store crypto_store32_be (sha2_WORDS32 context));
          digest_length =
            (if alg = LIBERAC_ALG_HASH_SHA2_224 \<or> alg = LIBERAC_ALG_HASH_SHA2_512_224 then 28
             else if alg = LIBERAC_ALG_HASH_SHA2_256 \<or> alg = LIBERAC_ALG_HASH_SHA2_512_256 then 32
             else if alg = LIBERAC_ALG_HASH_SHA2_384 then 48
             else if alg = LIBERAC_ALG_HASH_SHA2_512 then 64
             else 0)
      in take digest_length digest)"

section \<open>FIPS 180-4\<close>

text \<open>A schedule that grows by one word at a time holds the recursive sequence.\<close>

lemma schedule_fold:
  assumes init: "\<And>t. t < 16 \<Longrightarrow> f t = W t" and "16 \<le> n"
    and step: "\<And>r S. 16 \<le> r \<Longrightarrow> \<forall>t < r. S ! t = W t \<Longrightarrow> next S r = W r"
  shows "length (fold (\<lambda>r S. S @ [next S r]) [16..<n] (map f [0..<16])) = n \<and>
    (\<forall>t < n. fold (\<lambda>r S. S @ [next S r]) [16..<n] (map f [0..<16]) ! t = W t)"
  using assms(2)
proof (induction n rule: dec_induct)
  case base
  then show ?case by (simp add: init)
next
  case (step n)
  then show ?case using assms(3) by (auto simp: nth_append less_Suc_eq)
qed

function fips_sha256_W :: "byte list \<Rightarrow> nat \<Rightarrow> u32" where
  "fips_sha256_W block t =
     (if t < 16 then crypto_load32_be (drop (4 * t) block)
      else (word_rotr 17 (fips_sha256_W block (t - 2)) XOR word_rotr 19 (fips_sha256_W block (t - 2)) XOR
              drop_bit 10 (fips_sha256_W block (t - 2))) + fips_sha256_W block (t - 7) +
           (word_rotr 7 (fips_sha256_W block (t - 15)) XOR word_rotr 18 (fips_sha256_W block (t - 15)) XOR
              drop_bit 3 (fips_sha256_W block (t - 15))) + fips_sha256_W block (t - 16))"
  by pat_completeness auto
termination by (relation "measure snd") auto

declare fips_sha256_W.simps [simp del]

definition fips_sha256_step :: "byte list \<Rightarrow> nat \<Rightarrow> u32 sha2_words \<Rightarrow> u32 sha2_words" where
  "fips_sha256_step block t s =
     (case s of (a, b, c, d, e, f, g, h) \<Rightarrow>
        let T1 = h + (word_rotr 6 e XOR word_rotr 11 e XOR word_rotr 25 e) + fips_Ch e f g +
                 sha256_round_constants ! t + fips_sha256_W block t;
            T2 = (word_rotr 2 a XOR word_rotr 13 a XOR word_rotr 22 a) + fips_Maj a b c
        in (T1 + T2, a, b, c, d + T1, e, f, g))"

definition fips_sha256_block :: "u32 sha2_words \<Rightarrow> byte list \<Rightarrow> u32 sha2_words" where
  "fips_sha256_block h block = sha2_add h (fold (fips_sha256_step block) [0..<64] h)"

definition fips_sha256 :: "u32 sha2_words \<Rightarrow> nat \<Rightarrow> byte list \<Rightarrow> byte list" where
  "fips_sha256 iv digest_length M =
     take digest_length (sha2_store crypto_store32_be (absorb 64 fips_sha256_block iv
       (M @ md_padding 64 (be_of_nat 8 (8 * length M)) (length M))))"

lemma sha256_schedule_nth:
  assumes "t < 64"
  shows "sha256_schedule block ! t = fips_sha256_W block t"
proof -
  have "length (sha256_schedule block) = 64 \<and> (\<forall>t < 64. sha256_schedule block ! t = fips_sha256_W block t)"
    unfolding sha256_schedule_def Let_def
  proof (rule schedule_fold)
    fix r S
    assume "16 \<le> r" and "\<forall>t < r. S ! t = fips_sha256_W block t"
    then show "S ! (r - 16) + (crypto_rotr32 (S ! (r - 15)) 7 XOR crypto_rotr32 (S ! (r - 15)) 18 XOR
                drop_bit 3 (S ! (r - 15))) + S ! (r - 7) +
        (crypto_rotr32 (S ! (r - 2)) 17 XOR crypto_rotr32 (S ! (r - 2)) 19 XOR
                drop_bit 10 (S ! (r - 2))) = fips_sha256_W block r"
      unfolding fips_sha256_W.simps [of block r] by (simp add: crypto_rot_correct ac_simps)
  qed (simp_all add: fips_sha256_W.simps mult.commute)
  then show ?thesis using assms by blast
qed

lemma sha256_compress_fips: "sha256_compress = fips_sha256_block"
proof (intro ext)
  fix h block
  have "sha256_round (sha256_schedule block) t s = fips_sha256_step block t s" if "t < 64" for t s
    unfolding sha256_round_def fips_sha256_step_def crypto_rot_correct fips_Ch_def fips_Maj_def
      sha256_schedule_nth [OF that] Let_def by (cases s) (simp only: prod.case add.assoc)
  then have "fold (sha256_round (sha256_schedule block)) [0..<64] h = fold (fips_sha256_step block) [0..<64] h"
    by (intro fold_cong) auto
  then show "sha256_compress h block = fips_sha256_block h block"
    by (simp add: sha256_compress_def fips_sha256_block_def)
qed

function fips_sha512_W :: "byte list \<Rightarrow> nat \<Rightarrow> u64" where
  "fips_sha512_W block t =
     (if t < 16 then crypto_load64_be (drop (8 * t) block)
      else (word_rotr 19 (fips_sha512_W block (t - 2)) XOR word_rotr 61 (fips_sha512_W block (t - 2)) XOR
              drop_bit 6 (fips_sha512_W block (t - 2))) + fips_sha512_W block (t - 7) +
           (word_rotr 1 (fips_sha512_W block (t - 15)) XOR word_rotr 8 (fips_sha512_W block (t - 15)) XOR
              drop_bit 7 (fips_sha512_W block (t - 15))) + fips_sha512_W block (t - 16))"
  by pat_completeness auto
termination by (relation "measure snd") auto

declare fips_sha512_W.simps [simp del]

definition fips_sha512_step :: "byte list \<Rightarrow> nat \<Rightarrow> u64 sha2_words \<Rightarrow> u64 sha2_words" where
  "fips_sha512_step block t s =
     (case s of (a, b, c, d, e, f, g, h) \<Rightarrow>
        let T1 = h + (word_rotr 14 e XOR word_rotr 18 e XOR word_rotr 41 e) + fips_Ch e f g +
                 sha512_round_constants ! t + fips_sha512_W block t;
            T2 = (word_rotr 28 a XOR word_rotr 34 a XOR word_rotr 39 a) + fips_Maj a b c
        in (T1 + T2, a, b, c, d + T1, e, f, g))"

definition fips_sha512_block :: "u64 sha2_words \<Rightarrow> byte list \<Rightarrow> u64 sha2_words" where
  "fips_sha512_block h block = sha2_add h (fold (fips_sha512_step block) [0..<80] h)"

definition fips_sha512 :: "u64 sha2_words \<Rightarrow> nat \<Rightarrow> byte list \<Rightarrow> byte list" where
  "fips_sha512 iv digest_length M =
     take digest_length (sha2_store crypto_store64_be (absorb 128 fips_sha512_block iv
       (M @ md_padding 128 (be_of_nat 16 (8 * length M)) (length M))))"

lemma sha512_schedule_nth:
  assumes "t < 80"
  shows "sha512_schedule block ! t = fips_sha512_W block t"
proof -
  have "length (sha512_schedule block) = 80 \<and> (\<forall>t < 80. sha512_schedule block ! t = fips_sha512_W block t)"
    unfolding sha512_schedule_def Let_def
  proof (rule schedule_fold)
    fix r S
    assume "16 \<le> r" and "\<forall>t < r. S ! t = fips_sha512_W block t"
    then show "S ! (r - 16) + (crypto_rotr64 (S ! (r - 15)) 1 XOR crypto_rotr64 (S ! (r - 15)) 8 XOR
                drop_bit 7 (S ! (r - 15))) + S ! (r - 7) +
        (crypto_rotr64 (S ! (r - 2)) 19 XOR crypto_rotr64 (S ! (r - 2)) 61 XOR
                drop_bit 6 (S ! (r - 2))) = fips_sha512_W block r"
      unfolding fips_sha512_W.simps [of block r] by (simp add: crypto_rot_correct ac_simps)
  qed (simp_all add: fips_sha512_W.simps mult.commute)
  then show ?thesis using assms by blast
qed

lemma sha512_compress_fips: "sha512_compress = fips_sha512_block"
proof (intro ext)
  fix h block
  have "sha512_round (sha512_schedule block) t s = fips_sha512_step block t s" if "t < 80" for t s
    unfolding sha512_round_def fips_sha512_step_def crypto_rot_correct fips_Ch_def fips_Maj_def
      sha512_schedule_nth [OF that] Let_def by (cases s) (simp only: prod.case add.assoc)
  then have "fold (sha512_round (sha512_schedule block)) [0..<80] h = fold (fips_sha512_step block) [0..<80] h"
    by (intro fold_cong) auto
  then show "sha512_compress h block = fips_sha512_block h block"
    by (simp add: sha512_compress_def fips_sha512_block_def)
qed

definition sha2_digest_length :: "alg_id \<Rightarrow> nat" where
  "sha2_digest_length alg =
     (if alg = LIBERAC_ALG_HASH_SHA2_224 \<or> alg = LIBERAC_ALG_HASH_SHA2_512_224 then 28
      else if alg = LIBERAC_ALG_HASH_SHA2_256 \<or> alg = LIBERAC_ALG_HASH_SHA2_512_256 then 32
      else if alg = LIBERAC_ALG_HASH_SHA2_384 then 48
      else if alg = LIBERAC_ALG_HASH_SHA2_512 then 64
      else 0)"

definition fips_sha2 :: "alg_id \<Rightarrow> byte list \<Rightarrow> byte list" where
  "fips_sha2 alg M =
     (let start = snd (crypto_sha2_init alg)
      in if sha2_USE_SHA512 start then fips_sha512 (sha2_WORDS64 start) (sha2_digest_length alg) M
         else fips_sha256 (sha2_WORDS32 start) (sha2_digest_length alg) M)"

definition sha2_fits :: "alg_id \<Rightarrow> nat \<Rightarrow> bool" where
  "sha2_fits alg n \<longleftrightarrow> 8 * n < (if sha2_USE_SHA512 (snd (crypto_sha2_init alg)) then 2 ^ 128 else 2 ^ 64)"

section \<open>The length counter\<close>

lemma sha2_add_length_256:
  assumes "\<not> sha2_USE_SHA512 c" "sha2_LENGTH_HIGH c = 0" "unat (sha2_LENGTH_LOW c) = t"
    and "8 * t < 2 ^ 64" "n < 2 ^ 64"
  shows "sha2_add_length c n =
    (if 8 * (t + n) < 2 ^ 64 then (SUCCESS, c\<lparr>sha2_LENGTH_LOW := of_nat (t + n)\<rparr>)
     else (MESSAGE_TOO_LARGE, c))"
proof -
  have max: "unat (drop_bit 3 (- 1) :: u64) = 2 ^ 61 - 1"
    by (simp add: unat_drop_bit unsigned_minus_1_eq_mask mask_eq_exp_minus_1)
  have n: "unat (of_nat n :: u64) = n" using assms(5) by (simp add: unat_of_nat)
  have low: "sha2_LENGTH_LOW c = of_nat t" using assms(3) by auto
  have "sha2_LENGTH_LOW c \<le> drop_bit 3 (- 1)"
    using assms(3,4) unfolding word_le_nat_alt max by simp
  then have sub: "unat (drop_bit 3 (- 1) - sha2_LENGTH_LOW c) = 2 ^ 61 - 1 - t"
    using assms(3) by (simp only: unat_sub max)
  have "drop_bit 3 (- 1) - sha2_LENGTH_LOW c < of_nat n \<longleftrightarrow> \<not> 8 * (t + n) < 2 ^ 64"
    unfolding word_less_nat_alt sub n using assms(4) by auto
  then show ?thesis
    using assms(1,2) by (simp add: sha2_add_length_def low)
qed

lemma sha2_add_length_512:
  assumes "sha2_USE_SHA512 c" and t: "unat (sha2_LENGTH_HIGH c) * 2 ^ 64 + unat (sha2_LENGTH_LOW c) = t"
    and "8 * t < 2 ^ 128" "n < 2 ^ 64"
  shows "sha2_add_length c n =
    (if 8 * (t + n) < 2 ^ 128
     then (SUCCESS, c\<lparr>sha2_LENGTH_LOW := of_nat (t + n), sha2_LENGTH_HIGH := of_nat ((t + n) div 2 ^ 64)\<rparr>)
     else (MESSAGE_TOO_LARGE, c))"
proof -
  define hi lo where "hi = unat (sha2_LENGTH_HIGH c)" and "lo = unat (sha2_LENGTH_LOW c)"
  have t': "t = hi * 2 ^ 64 + lo" using t by (simp add: hi_def lo_def)
  have lo: "lo < 2 ^ 64" using unat_u64_less [of "sha2_LENGTH_LOW c"] by (simp add: lo_def)
  have hi: "hi < 2 ^ 61" using assms(3) by (simp add: t')
  have n: "unat (of_nat n :: u64) = n" using assms(4) by (simp add: unat_of_nat)
  have max: "unat (drop_bit 3 (- 1) :: u64) = 2 ^ 61 - 1"
    by (simp add: unat_drop_bit unsigned_minus_1_eq_mask mask_eq_exp_minus_1)
  have new: "unat (sha2_LENGTH_LOW c + of_nat n) = (lo + n) mod 2 ^ 64"
    using n by (simp add: unat_word_ariths lo_def)
  have carry: "sha2_LENGTH_LOW c + of_nat n < sha2_LENGTH_LOW c \<longleftrightarrow> 2 ^ 64 \<le> lo + n"
  proof (cases "2 ^ 64 \<le> lo + n")
    case True
    then have "(lo + n) mod 2 ^ 64 = lo + n - 2 ^ 64" using lo assms(4) by (simp add: le_mod_geq)
    then show ?thesis
      using True assms(4) unfolding word_less_nat_alt new lo_def [symmetric] by linarith
  next
    case False
    then show ?thesis unfolding word_less_nat_alt new lo_def [symmetric] by simp
  qed
  define h' where "h' = hi + (if 2 ^ 64 \<le> lo + n then 1 else 0)"
  have h': "h' = (t + n) div 2 ^ 64"
  proof -
    have "(t + n) div 2 ^ 64 = hi + (lo + n) div 2 ^ 64" by (simp add: t' add.assoc)
    also have "(lo + n) div 2 ^ 64 = (if 2 ^ 64 \<le> lo + n then 1 else 0)"
    proof (cases "2 ^ 64 \<le> lo + n")
      case True
      then have "(lo + n) div 2 ^ 64 = Suc ((lo + n - 2 ^ 64) div 2 ^ 64)" by (simp add: le_div_geq)
      then show ?thesis using True lo assms(4) by simp
    qed simp
    finally show ?thesis by (simp add: h'_def)
  qed
  define H where "H = sha2_LENGTH_HIGH c + (if sha2_LENGTH_LOW c + of_nat n < sha2_LENGTH_LOW c then 1 else 0)"
  have uH: "unat H = h'"
    using hi unfolding H_def carry h'_def by (auto simp: unat_word_ariths hi_def)
  have H: "H = of_nat h'" using uH by auto
  have "\<not> H < sha2_LENGTH_HIGH c" unfolding word_less_nat_alt uH by (simp add: h'_def hi_def)
  moreover have "drop_bit 3 (- 1) < H \<longleftrightarrow> \<not> 8 * (t + n) < 2 ^ 128"
  proof -
    have "(t + n) div 2 ^ 64 < 2 ^ 61 \<longleftrightarrow> t + n < 2 ^ 61 * 2 ^ 64" by (rule div_less_iff_less_mult) simp
    then show ?thesis unfolding word_less_nat_alt uH max h' by auto
  qed
  moreover have "sha2_LENGTH_LOW c + of_nat n = of_nat (t + n)"
  proof -
    have "(2 ^ 64 :: u64) = 0" by simp
    then have "of_nat (t + n) = (of_nat (lo + n) :: u64)" by (simp only: t' of_nat_add of_nat_mult of_nat_power of_nat_numeral) simp
    then show ?thesis by (simp add: lo_def)
  qed
  ultimately show ?thesis
    using assms(1) unfolding sha2_add_length_def Let_def H_def [symmetric] by (simp add: H h')
qed

lemma one_word_value: "k < 2 ^ 64 \<Longrightarrow> unat (of_nat k :: u64) = k"
  by (simp add: unat_of_nat)

lemma two_word_value:
  assumes "k < 2 ^ 128"
  shows "unat (of_nat (k div 2 ^ 64) :: u64) * 2 ^ 64 + unat (of_nat k :: u64) = k"
proof -
  have "k div 2 ^ 64 < 2 ^ 64" using assms by (simp add: less_mult_imp_div_less)
  then show ?thesis by (simp add: unat_of_nat)
qed

section \<open>The incremental hash\<close>

definition sha2_absorbed :: "alg_id \<Rightarrow> crypto_sha2_context \<Rightarrow> byte list \<Rightarrow> bool" where
  "sha2_absorbed alg ctx M \<longleftrightarrow>
     (let start = snd (crypto_sha2_init alg); n = (if sha2_USE_SHA512 start then 128 else 64)
      in sha2_USE_SHA512 ctx = sha2_USE_SHA512 start \<and>
         (if sha2_USE_SHA512 start
          then sha2_WORDS64 ctx = absorb 128 fips_sha512_block (sha2_WORDS64 start) M
          else sha2_WORDS32 ctx = absorb 64 fips_sha256_block (sha2_WORDS32 start) M \<and>
               sha2_LENGTH_HIGH ctx = 0) \<and>
         take (sha2_BUFFER_LENGTH ctx) (sha2_BLOCK ctx) = leftover n M \<and>
         sha2_BUFFER_LENGTH ctx < n \<and> length (sha2_BLOCK ctx) = 128 \<and>
         unat (sha2_LENGTH_HIGH ctx) * 2 ^ 64 + unat (sha2_LENGTH_LOW ctx) = length M \<and>
         sha2_fits alg (length M))"

lemma sha2_init_cleared:
  "sha2_BLOCK (snd (crypto_sha2_init alg)) = zeroes 128"
  "sha2_BUFFER_LENGTH (snd (crypto_sha2_init alg)) = 0"
  "sha2_LENGTH_LOW (snd (crypto_sha2_init alg)) = 0" "sha2_LENGTH_HIGH (snd (crypto_sha2_init alg)) = 0"
  by (simp_all add: crypto_sha2_init_def crypto_sha2_clear_def)

lemma sha2_absorbed_init: "sha2_absorbed alg (snd (crypto_sha2_init alg)) []"
  by (simp add: sha2_absorbed_def Let_def sha2_init_cleared leftover_def sha2_fits_def)

lemma sha2_update_absorbed:
  assumes a: "sha2_absorbed alg ctx M" and x: "length x < 2 ^ 64"
  shows "sha2_fits alg (length M + length x) \<Longrightarrow>
      fst (crypto_sha2_update ctx x) = SUCCESS \<and> sha2_absorbed alg (snd (crypto_sha2_update ctx x)) (M @ x)"
    and "\<not> sha2_fits alg (length M + length x) \<Longrightarrow> crypto_sha2_update ctx x = (MESSAGE_TOO_LARGE, ctx)"
proof -
  define t where "t = length M"
  have len: "length (sha2_BLOCK ctx) = 128" "unat (sha2_LENGTH_HIGH ctx) * 2 ^ 64 + unat (sha2_LENGTH_LOW ctx) = t"
    "sha2_fits alg t"
    using a by (simp_all add: sha2_absorbed_def Let_def t_def)
  have "(sha2_fits alg (t + length x) \<longrightarrow> fst (crypto_sha2_update ctx x) = SUCCESS \<and>
      sha2_absorbed alg (snd (crypto_sha2_update ctx x)) (M @ x)) \<and>
    (\<not> sha2_fits alg (t + length x) \<longrightarrow> crypto_sha2_update ctx x = (MESSAGE_TOO_LARGE, ctx))"
  proof (cases "sha2_USE_SHA512 (snd (crypto_sha2_init alg))")
    case True
    have u: "sha2_USE_SHA512 ctx" "sha2_BUFFER_LENGTH ctx < 128"
      using a True by (simp_all add: sha2_absorbed_def Let_def)
    have fit: "sha2_fits alg k \<longleftrightarrow> 8 * k < 2 ^ 128" for k using True by (simp add: sha2_fits_def)
    note add = sha2_add_length_512 [OF u(1) len(2) len(3) [unfolded fit] x]
    obtain c b v where e: "md_update 128 sha512_compress (sha2_WORDS64 ctx) (sha2_BLOCK ctx)
        (sha2_BUFFER_LENGTH ctx) x = (c, b, v)" by (metis prod_cases3)
    have "128 \<le> length (sha2_BLOCK ctx)" using len by simp
    note r = md_update_correct [OF u(2) this e]
    have L: "unat (of_nat ((t + length x) div 2 ^ 64) :: u64) * 2 ^ 64 + unat (of_nat (t + length x) :: u64) = t + length x"
      if "8 * (t + length x) < 2 ^ 128"
      using that by (intro two_word_value) simp
    have ok: "crypto_sha2_update ctx x = (SUCCESS, ctx\<lparr>sha2_LENGTH_LOW := of_nat (t + length x), sha2_LENGTH_HIGH := of_nat ((t + length x) div 2 ^ 64),
        sha2_WORDS64 := c, sha2_BLOCK := b, sha2_BUFFER_LENGTH := v\<rparr>)" if "8 * (t + length x) < 2 ^ 128"
      using that u(1) e unfolding crypto_sha2_update_def add by simp
    have large: "crypto_sha2_update ctx x = (MESSAGE_TOO_LARGE, ctx)" if "\<not> 8 * (t + length x) < 2 ^ 128"
      using that unfolding crypto_sha2_update_def add by simp
    have core: "c = absorb 128 fips_sha512_block (sha2_WORDS64 (snd (crypto_sha2_init alg))) (M @ x)"
      "take v b = leftover 128 (M @ x)"
      using r(1,2) a True absorb_append [of 128 fips_sha512_block "sha2_WORDS64 (snd (crypto_sha2_init alg))" M x]
        leftover_append [of 128 M x]
      by (simp_all add: sha2_absorbed_def Let_def sha512_compress_fips)
    show ?thesis
    proof (cases "8 * (t + length x) < 2 ^ 128")
      case fits: True
      show ?thesis
        unfolding fit ok [OF fits] using fits True u len r(3,4) core L [OF fits]
        by (simp add: sha2_absorbed_def Let_def fit t_def del: of_nat_add)
    qed (use large fit in simp)
  next
    case False
    have u: "\<not> sha2_USE_SHA512 ctx" "sha2_BUFFER_LENGTH ctx < 64" "sha2_LENGTH_HIGH ctx = 0"
      "unat (sha2_LENGTH_LOW ctx) = t"
      using a False by (auto simp: sha2_absorbed_def Let_def t_def)
    have fit: "sha2_fits alg k \<longleftrightarrow> 8 * k < 2 ^ 64" for k using False by (simp add: sha2_fits_def)
    note add = sha2_add_length_256 [OF u(1,3,4) len(3) [unfolded fit] x]
    obtain c b v where e: "md_update 64 sha256_compress (sha2_WORDS32 ctx) (sha2_BLOCK ctx)
        (sha2_BUFFER_LENGTH ctx) x = (c, b, v)" by (metis prod_cases3)
    have "64 \<le> length (sha2_BLOCK ctx)" using len by simp
    note r = md_update_correct [OF u(2) this e]
    have L: "unat (of_nat (t + length x) :: u64) = t + length x" if "8 * (t + length x) < 2 ^ 64"
      using that by (intro one_word_value) simp
    have ok: "crypto_sha2_update ctx x = (SUCCESS, ctx\<lparr>sha2_LENGTH_LOW := of_nat (t + length x),
        sha2_WORDS32 := c, sha2_BLOCK := b, sha2_BUFFER_LENGTH := v\<rparr>)" if "8 * (t + length x) < 2 ^ 64"
      using that u(1) e unfolding crypto_sha2_update_def add by simp
    have large: "crypto_sha2_update ctx x = (MESSAGE_TOO_LARGE, ctx)" if "\<not> 8 * (t + length x) < 2 ^ 64"
      using that unfolding crypto_sha2_update_def add by simp
    have core: "c = absorb 64 fips_sha256_block (sha2_WORDS32 (snd (crypto_sha2_init alg))) (M @ x)"
      "take v b = leftover 64 (M @ x)"
      using r(1,2) a False absorb_append [of 64 fips_sha256_block "sha2_WORDS32 (snd (crypto_sha2_init alg))" M x]
        leftover_append [of 64 M x]
      by (simp_all add: sha2_absorbed_def Let_def sha256_compress_fips)
    show ?thesis
    proof (cases "8 * (t + length x) < 2 ^ 64")
      case fits: True
      show ?thesis
        unfolding fit ok [OF fits] using fits False u len r(3,4) core L [OF fits]
        by (simp add: sha2_absorbed_def Let_def fit t_def del: of_nat_add)
    qed (use large fit in simp)
  qed
  then show "sha2_fits alg (length M + length x) \<Longrightarrow>
      fst (crypto_sha2_update ctx x) = SUCCESS \<and> sha2_absorbed alg (snd (crypto_sha2_update ctx x)) (M @ x)"
    "\<not> sha2_fits alg (length M + length x) \<Longrightarrow> crypto_sha2_update ctx x = (MESSAGE_TOO_LARGE, ctx)"
    by (simp_all add: t_def)
qed

lemma sha2_length_bits:
  assumes "8 * (unat hi * 2 ^ 64 + unat lo) < 2 ^ 128"
  shows "crypto_store64_be (push_bit 3 hi OR drop_bit 61 lo) @ crypto_store64_be (push_bit 3 lo) =
    be_of_nat 16 (8 * (unat (hi :: u64) * 2 ^ 64 + unat (lo :: u64)))"
proof -
  define v where "v = 8 * (unat hi * 2 ^ 64 + unat lo)"
  have v: "v = 8 * unat lo + 8 * unat hi * 2 ^ 64" by (simp add: v_def)
  have hi: "unat hi < 2 ^ 61" using assms by simp
  have lo: "unat lo < 2 ^ 64" using unat_u64_less [of lo] by simp
  have d: "unat lo div 2 ^ 61 < 8" using lo by (simp add: less_mult_imp_div_less)
  have "push_bit 3 hi OR drop_bit 61 lo = push_bit 3 hi + drop_bit 61 lo"
    by (rule disjunctive_add_eq_or [symmetric]) (auto simp: bit_simps impossible_bit intro!: bit_word_eqI)
  moreover have ph: "unat (push_bit 3 hi) = 8 * unat hi" and pd: "unat (drop_bit 61 lo) = unat lo div 2 ^ 61"
    using hi by (simp_all add: unat_push_bit unat_drop_bit)
  moreover have "unat (push_bit 3 hi + drop_bit 61 lo) = 8 * unat hi + unat lo div 2 ^ 61"
    using hi d unfolding ph [symmetric] pd [symmetric] by (subst unat_add_small) (simp_all add: ph pd)
  moreover have "8 * unat hi + unat lo div 2 ^ 61 = v div 256 ^ 8"
  proof -
    have "8 * unat lo div 2 ^ 64 = unat lo div 2 ^ 61" by simp
    moreover have "v div 2 ^ 64 = 8 * unat hi + 8 * unat lo div 2 ^ 64"
      unfolding v by (rule div_mult_self1) simp
    ultimately show ?thesis by simp
  qed
  moreover have "be_of_nat 8 (unat (push_bit 3 lo)) = be_of_nat 8 v"
  proof -
    have "unat (push_bit 3 lo) = 8 * unat lo mod 256 ^ 8"
      by (simp add: push_bit_eq_mult unat_word_ariths mult.commute)
    also have "\<dots> = v mod 256 ^ 8"
    proof -
      have "(256 :: nat) ^ 8 = 2 ^ 64" by simp
      then show ?thesis by (simp only: v mod_mult_self1)
    qed
    finally show ?thesis by (simp only: be_of_nat_mod)
  qed
  moreover have "be_of_nat 16 v = be_of_nat 8 (v div 256 ^ 8) @ be_of_nat 8 v"
    using be_of_nat_split [of 8 8 v] by simp
  ultimately show ?thesis by (simp only: store64_be_bytes v_def [symmetric])
qed

lemma sha2_digest_fips:
  assumes a: "sha2_absorbed alg ctx M"
  shows "crypto_sha2_squeeze (crypto_sha2_finalize ctx) alg = fips_sha2 alg M"
proof (cases "sha2_USE_SHA512 (snd (crypto_sha2_init alg))")
  case True
  have len: "sha2_BUFFER_LENGTH ctx < 128" "128 \<le> length (sha2_BLOCK ctx)"
    "take (sha2_BUFFER_LENGTH ctx) (sha2_BLOCK ctx) = leftover 128 M" "sha2_USE_SHA512 ctx"
    "sha2_WORDS64 ctx = absorb 128 fips_sha512_block (sha2_WORDS64 (snd (crypto_sha2_init alg))) M"
    using a True by (simp_all add: sha2_absorbed_def Let_def)
  have used: "sha2_BUFFER_LENGTH ctx = length M mod 128"
    using len(1,2) length_leftover [of 128 M] by (auto dest: arg_cong [of _ _ length] simp flip: len(3))
  have bits: "crypto_store64_be (push_bit 3 (sha2_LENGTH_HIGH ctx) OR drop_bit 61 (sha2_LENGTH_LOW ctx)) @
      crypto_store64_be (push_bit 3 (sha2_LENGTH_LOW ctx)) = be_of_nat 16 (8 * length M)"
    using a True sha2_length_bits [of "sha2_LENGTH_HIGH ctx" "sha2_LENGTH_LOW ctx"]
    by (simp only: sha2_absorbed_def Let_def sha2_fits_def if_True)
  have "fst (md_finish 128 128 sha512_compress (sha2_WORDS64 ctx) (sha2_BLOCK ctx) (sha2_BUFFER_LENGTH ctx)
      (be_of_nat 16 (8 * length M))) = absorb 128 fips_sha512_block (sha2_WORDS64 (snd (crypto_sha2_init alg)))
      (M @ md_padding 128 (be_of_nat 16 (8 * length M)) (length M))"
    using md_finish_correct(1) [OF len(1,2) _ _ _ used, of "be_of_nat 16 (8 * length M)" 128 sha512_compress
        "sha2_WORDS64 ctx"]
    by (simp add: sha512_compress_fips len
        absorb_append [of 128 fips_sha512_block "sha2_WORDS64 (snd (crypto_sha2_init alg))" M])
  then obtain b where "md_finish 128 128 sha512_compress (sha2_WORDS64 ctx) (sha2_BLOCK ctx)
      (sha2_BUFFER_LENGTH ctx) (be_of_nat 16 (8 * length M)) =
      (absorb 128 fips_sha512_block (sha2_WORDS64 (snd (crypto_sha2_init alg)))
        (M @ md_padding 128 (be_of_nat 16 (8 * length M)) (length M)), b)"
    by (metis prod.collapse)
  then show ?thesis
    using True len(4) by (simp add: crypto_sha2_finalize_def Let_def bits crypto_sha2_squeeze_def
        fips_sha2_def fips_sha512_def sha2_digest_length_def)
next
  case False
  have len: "sha2_BUFFER_LENGTH ctx < 64" "64 \<le> length (sha2_BLOCK ctx)"
    "take (sha2_BUFFER_LENGTH ctx) (sha2_BLOCK ctx) = leftover 64 M" "\<not> sha2_USE_SHA512 ctx"
    "sha2_WORDS32 ctx = absorb 64 fips_sha256_block (sha2_WORDS32 (snd (crypto_sha2_init alg))) M"
    "unat (sha2_LENGTH_LOW ctx) = length M" "8 * length M < 2 ^ 64"
    using a False by (auto simp: sha2_absorbed_def Let_def sha2_fits_def)
  have used: "sha2_BUFFER_LENGTH ctx = length M mod 64"
    using len(1,2) length_leftover [of 64 M] by (auto dest: arg_cong [of _ _ length] simp flip: len(3))
  have bits: "crypto_store64_be (push_bit 3 (sha2_LENGTH_LOW ctx)) = be_of_nat 8 (8 * length M)"
  proof -
    have "unat (push_bit 3 (sha2_LENGTH_LOW ctx)) = 8 * length M"
      using len(6,7) by (simp add: unat_push_bit)
    then show ?thesis by (simp only: store64_be_bytes)
  qed
  have "fst (md_finish 64 64 sha256_compress (sha2_WORDS32 ctx) (sha2_BLOCK ctx) (sha2_BUFFER_LENGTH ctx)
      (be_of_nat 8 (8 * length M))) = absorb 64 fips_sha256_block (sha2_WORDS32 (snd (crypto_sha2_init alg)))
      (M @ md_padding 64 (be_of_nat 8 (8 * length M)) (length M))"
    using md_finish_correct(1) [OF len(1,2) _ _ _ used, of "be_of_nat 8 (8 * length M)" 64 sha256_compress
        "sha2_WORDS32 ctx"]
    by (simp add: sha256_compress_fips len
        absorb_append [of 64 fips_sha256_block "sha2_WORDS32 (snd (crypto_sha2_init alg))" M])
  then obtain b where "md_finish 64 64 sha256_compress (sha2_WORDS32 ctx) (sha2_BLOCK ctx)
      (sha2_BUFFER_LENGTH ctx) (be_of_nat 8 (8 * length M)) =
      (absorb 64 fips_sha256_block (sha2_WORDS32 (snd (crypto_sha2_init alg)))
        (M @ md_padding 64 (be_of_nat 8 (8 * length M)) (length M)), b)"
    by (metis prod.collapse)
  then show ?thesis
    using False len(4) by (simp add: crypto_sha2_finalize_def Let_def bits crypto_sha2_squeeze_def
        fips_sha2_def fips_sha256_def sha2_digest_length_def)
qed

interpretation sha2: incremental_hash "snd (crypto_sha2_init alg)" crypto_sha2_update
  "\<lambda>ctx. crypto_sha2_squeeze (crypto_sha2_finalize ctx) alg" "sha2_fits alg" "fips_sha2 alg" "sha2_absorbed alg"
  for alg
proof
  show "sha2_fits alg n \<Longrightarrow> m \<le> n \<Longrightarrow> sha2_fits alg m" for m n
    by (auto simp: sha2_fits_def split: if_splits)
qed (simp_all add: sha2_absorbed_init sha2_update_absorbed sha2_digest_fips)



text \<open>
  The message length counter never wraps: from a context that has absorbed a message, an
  update that would take it past the limit of the variant returns MESSAGE_TOO_LARGE and
  leaves the context as it was.
\<close>

theorem sha2_update_too_large:
  assumes "sha2_absorbed alg ctx M" and "length x < 2 ^ 64" and "\<not> sha2_fits alg (length M + length x)"
  shows "crypto_sha2_update ctx x = (MESSAGE_TOO_LARGE, ctx)"
  by (rule sha2.update_large [OF assms])

lemma sha2_update_too_large_witness:
  "crypto_sha2_update (snd (crypto_sha2_init LIBERAC_ALG_HASH_SHA2_256)\<lparr>
      sha2_WORDS32 := absorb 64 fips_sha256_block
        (sha2_WORDS32 (snd (crypto_sha2_init LIBERAC_ALG_HASH_SHA2_256))) (zeroes (2 ^ 61 - 64)),
      sha2_LENGTH_LOW := of_nat (2 ^ 61 - 64)\<rparr>) (zeroes 64) =
    (MESSAGE_TOO_LARGE, snd (crypto_sha2_init LIBERAC_ALG_HASH_SHA2_256)\<lparr>
      sha2_WORDS32 := absorb 64 fips_sha256_block
        (sha2_WORDS32 (snd (crypto_sha2_init LIBERAC_ALG_HASH_SHA2_256))) (zeroes (2 ^ 61 - 64)),
      sha2_LENGTH_LOW := of_nat (2 ^ 61 - 64)\<rparr>)"
  by (rule sha2_update_too_large [of LIBERAC_ALG_HASH_SHA2_256 _ "zeroes (2 ^ 61 - 64)"])
    (simp_all add: sha2_absorbed_def sha2_fits_def sha2_init_cleared leftover_def Let_def
      crypto_sha2_init_def crypto_sha2_clear_def)

end
