(* ===== verification/SHA3.thy ===== *)
theory SHA3
  imports Hash_Buffer Alg_Ids
begin

text \<open>
  \<^verbatim>\<open>src/HashFunction/SHA3/sha3.c\<close>: the permutation Keccak-f[1600], the byte-wise sponge of
  SHA3 and SHAKE, its incremental interface and the one-shot functions the post-quantum
  schemes call. The specification is FIPS 202: the five step mappings on the state array, the
  round constants from their shift register, the rotation offsets from their walk over the
  lanes, and the sponge construction on whole blocks.
\<close>

section \<open>The code\<close>

definition keccak_round_constants :: "u64 list" where
  "keccak_round_constants =
   [0x0000000000000001, 0x0000000000008082, 0x800000000000808a, 0x8000000080008000,
    0x000000000000808b, 0x0000000080000001, 0x8000000080008081, 0x8000000000008009,
    0x000000000000008a, 0x0000000000000088, 0x0000000080008009, 0x000000008000000a,
    0x000000008000808b, 0x800000000000008b, 0x8000000000008089, 0x8000000000008003,
    0x8000000000008002, 0x8000000000000080, 0x000000000000800a, 0x800000008000000a,
    0x8000000080008081, 0x8000000000008080, 0x0000000080000001, 0x8000000080008008]"

definition keccak_rotation_offsets :: "nat list" where
  "keccak_rotation_offsets =
   [0, 1, 62, 28, 27,
    36, 44, 6, 55, 20,
    3, 10, 43, 25, 39,
    41, 45, 15, 21, 8,
    18, 2, 61, 56, 14]"

text \<open>The loops of one round run over \<open>y\<close> outside and \<open>x\<close> inside, which is index order.\<close>

definition keccak_theta :: "u64 list \<Rightarrow> u64 list" where
  "keccak_theta state =
     (let columns = map (\<lambda>x. state ! x XOR state ! (x + 5) XOR state ! (x + 10) XOR
            state ! (x + 15) XOR state ! (x + 20)) [0..<5];
          deltas = map (\<lambda>x. columns ! ((x + 4) mod 5) XOR crypto_rotl64 (columns ! ((x + 1) mod 5)) 1) [0..<5]
      in map (\<lambda>i. state ! i XOR deltas ! (i mod 5)) [0..<25])"

definition keccak_rho_pi :: "u64 list \<Rightarrow> u64 list" where
  "keccak_rho_pi state =
     fold (\<lambda>i permuted. let x = i mod 5; y = i div 5; new_x = y; new_y = (2 * x + 3 * y) mod 5
            in permuted[new_x + 5 * new_y :=
                 crypto_rotl64 (state ! (x + 5 * y)) (keccak_rotation_offsets ! (x + 5 * y))])
       [0..<25] (replicate 25 0)"

definition keccak_chi :: "u64 list \<Rightarrow> u64 list" where
  "keccak_chi permuted =
     map (\<lambda>i. let x = i mod 5; y = i div 5
            in permuted ! (x + 5 * y) XOR
               (NOT (permuted ! ((x + 1) mod 5 + 5 * y)) AND permuted ! ((x + 2) mod 5 + 5 * y)))
       [0..<25]"

definition keccak_round :: "nat \<Rightarrow> u64 list \<Rightarrow> u64 list" where
  "keccak_round round state =
     (let state = keccak_chi (keccak_rho_pi (keccak_theta state))
      in state[0 := state ! 0 XOR keccak_round_constants ! round])"

definition keccak_f1600 :: "u64 list \<Rightarrow> u64 list" where
  "keccak_f1600 state = fold keccak_round [0..<24] state"

record crypto_sha3_context =
  sha3_STATE :: "u64 list"
  sha3_RATE :: nat
  sha3_POSITION :: nat
  sha3_DOMAIN :: byte
  sha3_FINALIZED :: bool

definition crypto_sha3_clear :: crypto_sha3_context where
  "crypto_sha3_clear =
     \<lparr>sha3_STATE = replicate 25 0, sha3_RATE = 0, sha3_POSITION = 0, sha3_DOMAIN = 0,
      sha3_FINALIZED = False\<rparr>"

definition sha3_context_init :: "nat \<Rightarrow> byte \<Rightarrow> crypto_sha3_context" where
  "sha3_context_init rate domain = crypto_sha3_clear\<lparr>sha3_RATE := rate, sha3_DOMAIN := domain\<rparr>"

definition xor_byte :: "u64 list \<Rightarrow> nat \<Rightarrow> byte \<Rightarrow> u64 list" where
  "xor_byte state position value =
     (let lane = position div 8; shift = 8 * (position mod 8)
      in state[lane := state ! lane XOR push_bit shift (ucast value)])"

definition get_byte :: "u64 list \<Rightarrow> nat \<Rightarrow> byte" where
  "get_byte state position =
     (let lane = position div 8; shift = 8 * (position mod 8)
      in ucast (drop_bit shift (state ! lane)))"

definition crypto_sha3_init :: "alg_id \<Rightarrow> status \<times> crypto_sha3_context" where
  "crypto_sha3_init alg =
     (if alg = LIBERAC_ALG_HASH_SHA3_224 then (SUCCESS, sha3_context_init 144 0x06)
      else if alg = LIBERAC_ALG_HASH_SHA3_256 then (SUCCESS, sha3_context_init 136 0x06)
      else if alg = LIBERAC_ALG_HASH_SHA3_384 then (SUCCESS, sha3_context_init 104 0x06)
      else if alg = LIBERAC_ALG_HASH_SHA3_512 then (SUCCESS, sha3_context_init 72 0x06)
      else if alg = LIBERAC_ALG_HASH_SHAKE128 then (SUCCESS, sha3_context_init 168 0x1f)
      else if alg = LIBERAC_ALG_HASH_SHAKE256 then (SUCCESS, sha3_context_init 136 0x1f)
      else (INVALID_ALG_ID, crypto_sha3_clear))"

definition crypto_shake128_init :: crypto_sha3_context where
  "crypto_shake128_init = sha3_context_init 168 0x1f"

definition crypto_shake256_init :: crypto_sha3_context where
  "crypto_shake256_init = sha3_context_init 136 0x1f"

definition sha3_update_byte :: "byte \<Rightarrow> crypto_sha3_context \<Rightarrow> crypto_sha3_context" where
  "sha3_update_byte b context =
     (let state = xor_byte (sha3_STATE context) (sha3_POSITION context) b;
          position = sha3_POSITION context + 1
      in if position = sha3_RATE context
         then context\<lparr>sha3_STATE := keccak_f1600 state, sha3_POSITION := 0\<rparr>
         else context\<lparr>sha3_STATE := state, sha3_POSITION := position\<rparr>)"

definition crypto_sha3_update :: "crypto_sha3_context \<Rightarrow> byte list \<Rightarrow> crypto_sha3_context" where
  "crypto_sha3_update context input =
     (if sha3_FINALIZED context then context else fold sha3_update_byte input context)"

definition crypto_sha3_finalize :: "crypto_sha3_context \<Rightarrow> crypto_sha3_context" where
  "crypto_sha3_finalize context =
     (if sha3_FINALIZED context then context
      else let state = xor_byte (sha3_STATE context) (sha3_POSITION context) (sha3_DOMAIN context);
               state = xor_byte state (sha3_RATE context - 1) 0x80
        in context\<lparr>sha3_STATE := keccak_f1600 state, sha3_POSITION := 0, sha3_FINALIZED := True\<rparr>)"

definition sha3_squeeze_byte :: "crypto_sha3_context \<Rightarrow> byte \<times> crypto_sha3_context" where
  "sha3_squeeze_byte context =
     (let context = (if sha3_POSITION context = sha3_RATE context
            then context\<lparr>sha3_STATE := keccak_f1600 (sha3_STATE context), sha3_POSITION := 0\<rparr>
            else context)
      in (get_byte (sha3_STATE context) (sha3_POSITION context),
          context\<lparr>sha3_POSITION := sha3_POSITION context + 1\<rparr>))"

primrec sha3_squeeze_bytes :: "nat \<Rightarrow> crypto_sha3_context \<Rightarrow> byte list \<times> crypto_sha3_context" where
  "sha3_squeeze_bytes 0 context = ([], context)"
| "sha3_squeeze_bytes (Suc n) context =
     (let (b, context) = sha3_squeeze_byte context; (bs, context) = sha3_squeeze_bytes n context
      in (b # bs, context))"

definition crypto_sha3_squeeze :: "crypto_sha3_context \<Rightarrow> nat \<Rightarrow> byte list \<times> crypto_sha3_context" where
  "crypto_sha3_squeeze context output_length =
     sha3_squeeze_bytes output_length (crypto_sha3_finalize context)"

definition sha3_fixed :: "nat \<Rightarrow> byte list \<Rightarrow> nat \<Rightarrow> byte list" where
  "sha3_fixed output_length input rate =
     fst (crypto_sha3_squeeze (crypto_sha3_update (sha3_context_init rate 0x06) input) output_length)"

definition crypto_sha3_256 :: "byte list \<Rightarrow> byte list" where
  "crypto_sha3_256 input = sha3_fixed 32 input 136"

definition crypto_sha3_512 :: "byte list \<Rightarrow> byte list" where
  "crypto_sha3_512 input = sha3_fixed 64 input 72"

definition crypto_shake128 :: "nat \<Rightarrow> byte list \<Rightarrow> byte list" where
  "crypto_shake128 output_length input =
     fst (crypto_sha3_squeeze (crypto_sha3_update crypto_shake128_init input) output_length)"

definition crypto_shake256 :: "nat \<Rightarrow> byte list \<Rightarrow> byte list" where
  "crypto_shake256 output_length input =
     fst (crypto_sha3_squeeze (crypto_sha3_update crypto_shake256_init input) output_length)"

section \<open>FIPS 202: the permutation\<close>

text \<open>The state array: \<open>A x y\<close> is the lane of column \<open>x\<close> and row \<open>y\<close>.\<close>

type_synonym lane_array = "nat \<Rightarrow> nat \<Rightarrow> u64"

definition fips_theta :: "lane_array \<Rightarrow> lane_array" where
  "fips_theta A x y =
     (let C = (\<lambda>x. A x 0 XOR A x 1 XOR A x 2 XOR A x 3 XOR A x 4);
          D = (\<lambda>x. C ((x + 4) mod 5) XOR word_rotl 1 (C ((x + 1) mod 5)))
      in A x y XOR D x)"

text \<open>The walk of Algorithm 2 over the lanes, starting at \<open>(1, 0)\<close>.\<close>

definition rho_walk :: "nat \<Rightarrow> nat \<times> nat" where
  "rho_walk t = ((\<lambda>(x, y). (y, (2 * x + 3 * y) mod 5)) ^^ t) (1, 0)"

definition rho_offset :: "nat \<Rightarrow> nat \<Rightarrow> nat" where
  "rho_offset x y =
     (case find (\<lambda>t. rho_walk t = (x, y)) [0..<24] of
        None \<Rightarrow> 0 | Some t \<Rightarrow> ((t + 1) * (t + 2) div 2) mod 64)"

definition fips_rho :: "lane_array \<Rightarrow> lane_array" where
  "fips_rho A x y = word_rotl (rho_offset x y) (A x y)"

definition fips_pi :: "lane_array \<Rightarrow> lane_array" where
  "fips_pi A x y = A ((x + 3 * y) mod 5) x"

definition fips_chi :: "lane_array \<Rightarrow> lane_array" where
  "fips_chi A x y = A x y XOR (NOT (A ((x + 1) mod 5) y) AND A ((x + 2) mod 5) y)"

text \<open>The shift register of Algorithm 5 and the round constants of Algorithm 6.\<close>

definition rc_step :: "bool list \<Rightarrow> bool list" where
  "rc_step R =
     (let R = False # R
      in take 8 (R[0 := R ! 0 \<noteq> R ! 8, 4 := R ! 4 \<noteq> R ! 8, 5 := R ! 5 \<noteq> R ! 8, 6 := R ! 6 \<noteq> R ! 8]))"

definition rc :: "nat \<Rightarrow> bool" where
  "rc t = (rc_step ^^ (t mod 255)) (True # replicate 7 False) ! 0"

definition fips_RC :: "nat \<Rightarrow> u64" where
  "fips_RC r = fold (\<lambda>j w. if rc (j + 7 * r) then set_bit (2 ^ j - 1) w else w) [0..<7] 0"

definition fips_iota :: "nat \<Rightarrow> lane_array \<Rightarrow> lane_array" where
  "fips_iota r A x y = (if x = 0 \<and> y = 0 then A x y XOR fips_RC r else A x y)"

definition fips_Rnd :: "nat \<Rightarrow> lane_array \<Rightarrow> lane_array" where
  "fips_Rnd r A = fips_iota r (fips_chi (fips_pi (fips_rho (fips_theta A))))"

text \<open>Strings of 200 bytes and state arrays.\<close>

definition fips_array :: "byte list \<Rightarrow> lane_array" where
  "fips_array S x y = crypto_load64_le (drop (8 * (x + 5 * y)) S)"

definition fips_string :: "lane_array \<Rightarrow> byte list" where
  "fips_string A = map (\<lambda>j. ucast (drop_bit (8 * (j mod 8)) (A (j div 8 mod 5) (j div 8 div 5)))) [0..<200]"

definition fips_keccak :: "byte list \<Rightarrow> byte list" where
  "fips_keccak S = fips_string (fold fips_Rnd [0..<24] (fips_array S))"

section \<open>FIPS 202: the sponge\<close>

text \<open>The suffix bits of the domain, then \<open>10*1\<close>, as bytes.\<close>

definition fips_pad :: "nat \<Rightarrow> byte \<Rightarrow> nat \<Rightarrow> byte list" where
  "fips_pad r domain m =
     (let q = r - m mod r in if q = 1 then [domain XOR 0x80] else [domain] @ zeroes (q - 2) @ [0x80])"

definition xor_prefix :: "byte list \<Rightarrow> byte list \<Rightarrow> byte list" where
  "xor_prefix S P = xor_bytes S (P @ zeroes (length S - length P))"

definition fips_absorb :: "nat \<Rightarrow> byte list \<Rightarrow> byte list" where
  "fips_absorb r M = absorb r (\<lambda>S P. fips_keccak (xor_prefix S P)) (zeroes 200) M"

definition fips_stream :: "nat \<Rightarrow> byte list \<Rightarrow> nat \<Rightarrow> byte" where
  "fips_stream r S i = (fips_keccak ^^ (i div r)) S ! (i mod r)"

definition fips_sponge :: "nat \<Rightarrow> byte \<Rightarrow> nat \<Rightarrow> byte list \<Rightarrow> byte list" where
  "fips_sponge r domain n M =
     map (fips_stream r (fips_absorb r (M @ fips_pad r domain (length M)))) [0..<n]"

section \<open>The permutation\<close>

lemma upt5: "[0..<5] = [0, 1, 2, 3, 4]" by code_simp
lemma upt24: "[0..<24] = [0, 1, 2, 3, 4, 5, 6, 7, 8, 9, 10, 11, 12, 13, 14, 15, 16, 17, 18, 19, 20, 21, 22, 23]"
  by code_simp
lemma upt25: "[0..<25] = [0, 1, 2, 3, 4, 5, 6, 7, 8, 9, 10, 11, 12, 13, 14, 15, 16, 17, 18, 19, 20, 21, 22, 23, 24]"
  by code_simp

lemma keccak_rotation_offsets_fips:
  "map (\<lambda>i. rho_offset (i mod 5) (i div 5)) [0..<25] = keccak_rotation_offsets"
  by code_simp

text \<open>The first 168 outputs of the shift register, in one pass.\<close>

primrec rc_outputs :: "nat \<Rightarrow> bool list \<Rightarrow> bool list" where
  "rc_outputs 0 R = []"
| "rc_outputs (Suc n) R = R ! 0 # rc_outputs n (rc_step R)"

lemma nth_rc_outputs: "t < n \<Longrightarrow> rc_outputs n R ! t = (rc_step ^^ t) R ! 0"
  by (induction n arbitrary: t R)
    (auto simp: nth_Cons' gr0_conv_Suc funpow_Suc_right simp del: funpow.simps(2))

definition rc_table :: "bool list" where
  "rc_table =
   [True, False, False, False, False, False, False, False, True, False, True, True, False,
    False, False, True, True, True, True, False, True, False, False, False, False, True, True,
    True, True, True, True, True, True, False, False, True, False, False, False, False, True,
    False, True, False, False, True, True, True, True, True, False, True, False, True, False,
    True, False, True, True, True, False, False, False, False, False, True, True, False,
    False, False, True, False, True, False, True, True, False, False, True, True, False,
    False, True, False, True, True, True, True, True, True, False, True, True, True, True,
    False, False, True, True, False, True, True, True, False, True, True, True, False, False,
    True, False, True, False, True, False, False, True, False, True, False, False, False,
    True, False, False, True, False, True, True, False, True, False, False, False, True, True,
    False, False, True, True, True, False, False, True, True, True, True, False, False, False,
    True, True, False, True, True, False, False, False, False, True, False, False, False,
    True, False, True, True, True]"

lemma rc_table: "rc_outputs 168 (True # replicate 7 False) = rc_table"
  by code_simp

lemma fips_RC_table:
  assumes "r < 24"
  shows "fips_RC r = fold (\<lambda>j w. if rc_table ! (j + 7 * r) then set_bit (2 ^ j - 1) w else w) [0..<7] 0"
  unfolding fips_RC_def
proof (intro fold_cong refl)
  fix j assume "j \<in> set [0..<7]"
  then have "j + 7 * r < 168" using assms by simp
  then have "rc (j + 7 * r) = rc_table ! (j + 7 * r)"
    using nth_rc_outputs [of "j + 7 * r" 168] by (simp add: rc_def flip: rc_table)
  then show "(\<lambda>w. if rc (j + 7 * r) then set_bit (2 ^ j - 1) w else w :: u64) =
      (\<lambda>w. if rc_table ! (j + 7 * r) then set_bit (2 ^ j - 1) w else w)" by simp
qed

lemma keccak_round_constants_fips: "r < 24 \<Longrightarrow> keccak_round_constants ! r = fips_RC r"
proof -
  have "map (\<lambda>r. fold (\<lambda>j w. if rc_table ! (j + 7 * r) then set_bit (2 ^ j - 1) w else w) [0..<7] 0) [0..<24] =
      keccak_round_constants"
    by code_simp
  then show "r < 24 \<Longrightarrow> keccak_round_constants ! r = fips_RC r"
    by (simp add: fips_RC_table flip: \<open>_ = keccak_round_constants\<close>)
qed

text \<open>The list state and the state array.\<close>

definition lane_view :: "u64 list \<Rightarrow> lane_array" where
  "lane_view st x y = st ! (x + 5 * y)"

lemma lane_index: "x < 5 \<Longrightarrow> y < 5 \<Longrightarrow> x + 5 * y < (25 :: nat)"
  by simp

lemma keccak_theta_fips:
  "x < 5 \<Longrightarrow> y < 5 \<Longrightarrow> lane_view (keccak_theta st) x y = fips_theta (lane_view st) x y"
  by (simp add: lane_view_def keccak_theta_def fips_theta_def Let_def crypto_rot_correct lane_index)

lemma keccak_rho_pi_eq:
  "keccak_rho_pi st = map (\<lambda>i. let x = i mod 5; y = i div 5; s = (x + 3 * y) mod 5 + 5 * x
     in crypto_rotl64 (st ! s) (keccak_rotation_offsets ! s)) [0..<25]"
proof -
  have "replicate 25 0 = [0, 0, 0, 0, 0, 0, 0, 0, 0, 0, 0, 0, 0, 0, 0, 0, 0, 0, 0, 0, 0, 0, 0, 0, 0 :: u64]"
    by code_simp
  then show ?thesis by (simp add: keccak_rho_pi_def upt25 Let_def)
qed

lemma keccak_rho_pi_fips:
  "x < 5 \<Longrightarrow> y < 5 \<Longrightarrow> lane_view (keccak_rho_pi st) x y = fips_pi (fips_rho (lane_view st)) x y"
proof -
  assume xy: "x < 5" "y < 5"
  define s where "s = (x + 3 * y) mod 5 + 5 * x"
  have s: "s < 25" "s mod 5 = (x + 3 * y) mod 5" "s div 5 = x" using xy by (simp_all add: s_def)
  have "keccak_rotation_offsets ! s = rho_offset (s mod 5) (s div 5)"
    using s(1) by (simp flip: keccak_rotation_offsets_fips)
  moreover have "(x + 5 * y) mod 5 = x" "(x + 5 * y) div 5 = y" using xy by simp_all
  ultimately show ?thesis
    using lane_index [OF xy] s
    by (simp add: keccak_rho_pi_eq lane_view_def fips_pi_def fips_rho_def Let_def crypto_rot_correct s_def)
qed

lemma keccak_chi_fips:
  "x < 5 \<Longrightarrow> y < 5 \<Longrightarrow> lane_view (keccak_chi st) x y = fips_chi (lane_view st) x y"
  by (simp add: lane_view_def keccak_chi_def fips_chi_def Let_def lane_index)

text \<open>Each step mapping reads only lanes of the array, so agreement on the array is kept.\<close>

definition same_lanes :: "lane_array \<Rightarrow> lane_array \<Rightarrow> bool" where
  "same_lanes A B \<longleftrightarrow> (\<forall>x < 5. \<forall>y < 5. A x y = B x y)"

lemma same_lanes_steps:
  assumes "same_lanes A B"
  shows "same_lanes (fips_theta A) (fips_theta B)" "same_lanes (fips_rho A) (fips_rho B)"
    "same_lanes (fips_pi A) (fips_pi B)" "same_lanes (fips_chi A) (fips_chi B)"
    "same_lanes (fips_iota r A) (fips_iota r B)"
  using assms
  by (simp_all add: same_lanes_def fips_theta_def fips_rho_def fips_pi_def fips_chi_def fips_iota_def Let_def)

lemma same_lanes_trans: "same_lanes A B \<Longrightarrow> same_lanes B C \<Longrightarrow> same_lanes A C"
  by (simp add: same_lanes_def)

lemma same_lanes_Rnd: "same_lanes A B \<Longrightarrow> same_lanes (fips_Rnd r A) (fips_Rnd r B)"
  by (simp add: fips_Rnd_def same_lanes_steps)

lemma length_keccak_round [simp]: "length (keccak_round r st) = 25"
  by (simp add: keccak_round_def keccak_chi_def)

lemma keccak_round_fips:
  assumes "r < 24"
  shows "same_lanes (lane_view (keccak_round r st)) (fips_Rnd r (lane_view st))"
proof -
  have "same_lanes (lane_view (keccak_rho_pi (keccak_theta st))) (fips_pi (fips_rho (lane_view (keccak_theta st))))"
    by (simp add: same_lanes_def keccak_rho_pi_fips)
  moreover have "same_lanes (lane_view (keccak_theta st)) (fips_theta (lane_view st))"
    by (simp add: same_lanes_def keccak_theta_fips)
  ultimately have "same_lanes (lane_view (keccak_rho_pi (keccak_theta st))) (fips_pi (fips_rho (fips_theta (lane_view st))))"
    using same_lanes_steps same_lanes_trans by meson
  moreover have "same_lanes (lane_view (keccak_chi (keccak_rho_pi (keccak_theta st))))
      (fips_chi (lane_view (keccak_rho_pi (keccak_theta st))))"
    by (simp add: same_lanes_def keccak_chi_fips)
  ultimately have "same_lanes (lane_view (keccak_chi (keccak_rho_pi (keccak_theta st))))
      (fips_chi (fips_pi (fips_rho (fips_theta (lane_view st)))))"
    using same_lanes_steps same_lanes_trans by meson
  then have "same_lanes (fips_iota r (lane_view (keccak_chi (keccak_rho_pi (keccak_theta st))))) (fips_Rnd r (lane_view st))"
    unfolding fips_Rnd_def by (rule same_lanes_steps)
  moreover have "length (keccak_chi (keccak_rho_pi (keccak_theta st))) = 25" by (simp add: keccak_chi_def)
  then have "same_lanes (lane_view (keccak_round r st)) (fips_iota r (lane_view (keccak_chi (keccak_rho_pi (keccak_theta st)))))"
    using assms by (auto simp: same_lanes_def keccak_round_def lane_view_def fips_iota_def Let_def
        keccak_round_constants_fips nth_list_update)
  ultimately show ?thesis by (rule same_lanes_trans [rotated])
qed

lemma length_keccak_f1600 [simp]: "length (keccak_f1600 st) = 25"
  by (simp add: keccak_f1600_def upt24)

lemma keccak_f1600_lanes:
  "same_lanes (lane_view (keccak_f1600 st)) (fold fips_Rnd [0..<24] (lane_view st))"
proof -
  have "same_lanes (lane_view (fold keccak_round [0..<n] st)) (fold fips_Rnd [0..<n] (lane_view st))"
    if "n \<le> 24" for n
    using that
  proof (induction n)
    case (Suc n)
    then show ?case
      using same_lanes_trans [OF keccak_round_fips [of n] same_lanes_Rnd] by simp
  qed (simp add: same_lanes_def)
  then show ?thesis by (simp add: keccak_f1600_def)
qed

text \<open>The state as a string of bytes.\<close>

definition state_bytes :: "u64 list \<Rightarrow> byte list" where
  "state_bytes st = map (get_byte st) [0..<200]"

lemma length_state_bytes [simp, lengths]: "length (state_bytes st) = 200"
  by (simp add: state_bytes_def)

lemma nth_state_bytes [simp]: "i < 200 \<Longrightarrow> state_bytes st ! i = get_byte st i"
  by (simp add: state_bytes_def)

lemma bit_get_byte: "bit (get_byte st i) b \<longleftrightarrow> b < 8 \<and> bit (st ! (i div 8)) (8 * (i mod 8) + b)"
  by (auto simp: get_byte_def Let_def bit_simps)

lemma fips_string_lanes:
  assumes "same_lanes A B"
  shows "fips_string A = fips_string B"
proof -
  have "A (j div 8 mod 5) (j div 8 div 5) = B (j div 8 mod 5) (j div 8 div 5)" if "j < 200" for j
    using assms that by (simp add: same_lanes_def)
  then show ?thesis by (simp add: fips_string_def)
qed

lemma state_bytes_string: "state_bytes st = fips_string (lane_view st)"
proof -
  have "j div 8 = j div 8 mod 5 + 5 * (j div 8 div 5)" for j :: nat by simp
  then show ?thesis by (simp add: state_bytes_def fips_string_def lane_view_def get_byte_def Let_def)
qed

lemma bit_load32_le:
  assumes "n < 32"
  shows "bit (crypto_load32_le p) n \<longleftrightarrow> bit (p ! (n div 8)) (n mod 8)"
proof -
  define b where "b = n mod 8"
  have b: "b < 8" by (simp add: b_def)
  have n: "n = 8 * (n div 8) + b" by (simp add: b_def)
  have "n div 8 < 4" using assms by simp
  then consider "n div 8 = 0" | "n div 8 = 1" | "n div 8 = 2" | "n div 8 = 3" by linarith
  then have "bit (crypto_load32_le p) (8 * (n div 8) + b) \<longleftrightarrow> bit (p ! (n div 8)) b"
    using b by cases (auto simp: crypto_load32_le_def bit_simps impossible_bit)
  then show ?thesis using n by (simp flip: b_def)
qed

lemma bit_load64_le:
  assumes "n < 64" and "8 \<le> length p"
  shows "bit (crypto_load64_le p) n \<longleftrightarrow> bit (p ! (n div 8)) (n mod 8)"
proof (cases "n < 32")
  case True
  then show ?thesis by (simp add: crypto_load64_le_def bit_simps bit_load32_le)
next
  case False
  then obtain k where k: "n = k + 8 * 4" using le_Suc_ex [of 32 n] by (auto simp: add.commute)
  have "(n - 32) div 8 + 4 = n div 8" and m: "(n - 32) mod 8 = n mod 8"
    using div_mult_self2 [of "8 :: nat" k 4] mod_mult_self2 [of k "8 :: nat" 4] by (simp_all add: k)
  then have "drop 4 p ! ((n - 32) div 8) = p ! (n div 8)"
    using assms by (simp add: add.commute)
  then show ?thesis
    using False assms m less_imp_diff_less [of n 64 32]
    by (simp add: crypto_load64_le_def bit_simps bit_load32_le impossible_bit)
qed

lemma fips_array_state_bytes: "same_lanes (fips_array (state_bytes st)) (lane_view st)"
proof -
  have "crypto_load64_le (drop (8 * i) (state_bytes st)) = st ! i" if i: "i < 25" for i
  proof (rule bit_word_eqI)
    fix n assume "n < LENGTH(64)"
    then have n: "n < 64" by simp
    then have "drop (8 * i) (state_bytes st) ! (n div 8) = get_byte st (8 * i + n div 8)"
      using i by simp
    moreover have "(8 * i + n div 8) div 8 = i" "(8 * i + n div 8) mod 8 = n div 8" using n by simp_all
    ultimately show "bit (crypto_load64_le (drop (8 * i) (state_bytes st))) n = bit (st ! i) n"
      using n i by (simp add: bit_load64_le bit_get_byte)
  qed
  then show ?thesis unfolding same_lanes_def fips_array_def lane_view_def using lane_index by blast
qed

lemma same_lanes_sym: "same_lanes A B \<Longrightarrow> same_lanes B A"
  by (simp add: same_lanes_def)

lemma keccak_f1600_bytes: "state_bytes (keccak_f1600 st) = fips_keccak (state_bytes st)"
proof -
  have "same_lanes (fold fips_Rnd ts A) (fold fips_Rnd ts B)" if "same_lanes A B" for ts A B
    using that by (induction ts arbitrary: A B) (simp_all add: same_lanes_Rnd)
  then have "same_lanes (lane_view (keccak_f1600 st)) (fold fips_Rnd [0..<24] (fips_array (state_bytes st)))"
    by (rule same_lanes_trans [OF keccak_f1600_lanes]) (rule same_lanes_sym [OF fips_array_state_bytes])
  then show ?thesis
    unfolding state_bytes_string [of "keccak_f1600 st"] fips_keccak_def by (rule fips_string_lanes)
qed

section \<open>Absorbing\<close>

lemma length_xor_prefix [simp]: "length P \<le> length S \<Longrightarrow> length (xor_prefix S P) = length S"
  by (simp add: xor_prefix_def)

lemma nth_xor_prefix:
  "length P \<le> length S \<Longrightarrow> i < length S \<Longrightarrow>
    xor_prefix S P ! i = (if i < length P then S ! i XOR P ! i else S ! i)"
  by (simp add: xor_prefix_def nth_append)

lemma xor_prefix_Nil [simp]: "xor_prefix S [] = S"
  by (rule nth_equalityI) (simp_all add: nth_xor_prefix)

lemma xor_prefix_snoc:
  assumes "length P \<le> k" and "k < length S"
  shows "(xor_prefix S P)[k := xor_prefix S P ! k XOR b] = xor_prefix S (P @ zeroes (k - length P) @ [b])"
  using assms by (intro nth_equalityI) (auto simp: nth_xor_prefix nth_append nth_list_update)

lemma xor_prefix_last:
  assumes "length P < length S"
  shows "(xor_prefix S (P @ [b]))[length P := xor_prefix S (P @ [b]) ! length P XOR c] =
    xor_prefix S (P @ [b XOR c])"
  using assms by (intro nth_equalityI) (auto simp: nth_xor_prefix nth_append nth_list_update xor.assoc)

lemma length_xor_byte [simp]: "length (xor_byte st i b) = length st"
  by (simp add: xor_byte_def Let_def)

lemma state_bytes_xor_byte:
  assumes "length st = 25" and "i < 200"
  shows "state_bytes (xor_byte st i b) = (state_bytes st)[i := state_bytes st ! i XOR b]"
proof (rule nth_equalityI)
  fix j assume "j < length (state_bytes (xor_byte st i b))"
  then have j: "j < 200" by simp
  have lane: "i div 8 < 25" using assms by simp
  have "get_byte (xor_byte st i b) j = (if i = j then get_byte st j XOR b else get_byte st j)"
  proof (cases "i div 8 = j div 8")
    case False
    then have "i \<noteq> j" by auto
    then show ?thesis using False by (simp add: get_byte_def xor_byte_def Let_def)
  next
    case True
    show ?thesis
    proof (rule bit_word_eqI)
      fix n assume "n < LENGTH(8)"
      then have n: "n < 8" by simp
      have "8 * (j mod 8) + n < 64" using n mod_less_divisor [of 8 j] by linarith
      moreover have "8 * (i mod 8) \<le> 8 * (j mod 8) + n \<and> 8 * (j mod 8) + n - 8 * (i mod 8) < 8 \<longleftrightarrow> i mod 8 = j mod 8"
        using n by auto
      moreover have "i mod 8 = j mod 8 \<longleftrightarrow> i = j" using True by (metis div_mult_mod_eq)
      ultimately show "bit (get_byte (xor_byte st i b) j) n =
          bit (if i = j then get_byte st j XOR b else get_byte st j) n"
        using True lane assms(1) n bit_imp_le_length [of b "8 * (j mod 8) + n - 8 * (i mod 8)"]
        by (auto simp: bit_get_byte xor_byte_def Let_def bit_simps)
    qed
  qed
  then show "state_bytes (xor_byte st i b) ! j = (state_bytes st)[i := state_bytes st ! i XOR b] ! j"
    using assms(2) j by (auto simp: nth_list_update)
qed simp

text \<open>The state after a message: its whole blocks absorbed, its last bytes mixed in.\<close>

definition sha3_state_of :: "nat \<Rightarrow> byte \<Rightarrow> crypto_sha3_context \<Rightarrow> byte list \<Rightarrow> bool" where
  "sha3_state_of r domain ctx M \<longleftrightarrow>
     sha3_RATE ctx = r \<and> sha3_DOMAIN ctx = domain \<and> \<not> sha3_FINALIZED ctx \<and>
     sha3_POSITION ctx = length M mod r \<and> length (sha3_STATE ctx) = 25 \<and>
     state_bytes (sha3_STATE ctx) = xor_prefix (fips_absorb r M) (leftover r M)"

lemma length_fips_keccak [simp]: "length (fips_keccak S) = 200"
  by (simp add: fips_keccak_def fips_string_def)

lemma length_fips_absorb [simp]: "length (fips_absorb r M) = 200"
  unfolding fips_absorb_def by (rule absorb_invariant [where P = "\<lambda>S. length S = 200"]) simp_all

lemma fips_absorb_snoc:
  assumes "0 < r" and "length P = r - length M mod r"
  shows "fips_absorb r (M @ P) = fips_keccak (xor_prefix (fips_absorb r M) (leftover r M @ P))"
    and "leftover r (M @ P) = []"
proof -
  have len: "length (leftover r M @ P) = r"
    using assms mod_less_divisor [of r "length M"] by (simp add: length_leftover)
  show "fips_absorb r (M @ P) = fips_keccak (xor_prefix (fips_absorb r M) (leftover r M @ P))"
    using assms(1) len by (simp only: fips_absorb_def absorb_append absorb_one)
  show "leftover r (M @ P) = []"
    using leftover_append [OF assms(1), of M P] leftover_step [OF assms(1) len, of "[]"] assms(1) by simp
qed

lemma fips_absorb_partial:
  assumes "0 < r" and "length P < r - length M mod r"
  shows "fips_absorb r (M @ P) = fips_absorb r M" "leftover r (M @ P) = leftover r M @ P"
  using assms absorb_append [of r _ _ M P] leftover_append [of r M P]
  by (simp_all add: fips_absorb_def length_leftover less_diff_conv)

lemma sha3_state_of_init:
  "sha3_state_of r domain (sha3_context_init r domain) []"
proof -
  have "state_bytes (replicate 25 0) = zeroes 200"
    by (rule nth_equalityI) (simp_all add: get_byte_def Let_def)
  then show ?thesis
    by (cases "0 < r") (simp_all add: sha3_state_of_def sha3_context_init_def crypto_sha3_clear_def
        leftover_def fips_absorb_def absorb.simps)
qed

lemma sha3_update_byte_correct:
  assumes "sha3_state_of r domain ctx M" and r: "0 < r" "r \<le> 200"
  shows "sha3_state_of r domain (sha3_update_byte b ctx) (M @ [b])"
proof -
  have p: "sha3_POSITION ctx = length (leftover r M)" "length M mod r < r"
    using assms by (simp_all add: sha3_state_of_def length_leftover)
  have st: "state_bytes (xor_byte (sha3_STATE ctx) (sha3_POSITION ctx) b) =
      xor_prefix (fips_absorb r M) (leftover r M @ [b])"
    using assms p xor_prefix_snoc [of "leftover r M" "length (leftover r M)" "fips_absorb r M" b]
    by (simp add: sha3_state_of_def state_bytes_xor_byte length_leftover)
  show ?thesis
  proof (cases "length M mod r + 1 = r")
    case True
    then have "length [b] = r - length M mod r" by simp
    note e = fips_absorb_snoc [OF r(1) this]
    have "(length M + 1) mod r = 0" using True mod_Suc [of "length M" r] by simp
    then show ?thesis
      using assms True st e by (simp add: sha3_update_byte_def sha3_state_of_def Let_def keccak_f1600_bytes)
  next
    case False
    then have "length [b] < r - length M mod r" using p(2) by simp
    note e = fips_absorb_partial [OF r(1) this]
    have "(length M + 1) mod r = length M mod r + 1" using False mod_Suc [of "length M" r] by simp
    then show ?thesis
      using assms False st e by (simp add: sha3_update_byte_def sha3_state_of_def Let_def)
  qed
qed

lemma sha3_update_state_of:
  assumes "sha3_state_of r domain ctx M" and "0 < r" "r \<le> 200"
  shows "sha3_state_of r domain (crypto_sha3_update ctx x) (M @ x)"
proof -
  have "sha3_state_of r domain (fold sha3_update_byte x ctx) (M @ x)"
    using assms(1)
  proof (induction x arbitrary: ctx M)
    case (Cons b x)
    from Cons.IH [OF sha3_update_byte_correct [OF Cons.prems assms(2,3)]] show ?case by simp
  qed simp
  then show ?thesis using assms(1) by (simp add: crypto_sha3_update_def sha3_state_of_def)
qed

lemma fips_pad_length:
  assumes "0 < r"
  shows "length (fips_pad r domain m) = r - m mod r"
proof -
  have "m mod r < r" using assms by simp
  then show ?thesis by (cases "r - m mod r = 1") (auto simp: fips_pad_def Let_def)
qed

lemma sha3_finalize_state:
  assumes a: "sha3_state_of r domain ctx M" and r: "0 < r" "r \<le> 200"
  shows "state_bytes (sha3_STATE (crypto_sha3_finalize ctx)) =
    fips_absorb r (M @ fips_pad r domain (length M))"
proof -
  define A L where "A = fips_absorb r M" and "L = leftover r M"
  have L: "length L = length M mod r" "length L < r" and A: "length A = 200"
    using r by (simp_all add: L_def A_def length_leftover)
  have x1: "state_bytes (xor_byte (sha3_STATE ctx) (length L) domain) = xor_prefix A (L @ [domain])"
    using a L r xor_prefix_snoc [of L "length L" A domain] order_less_le_trans [OF L(2) r(2)]
    by (simp add: sha3_state_of_def state_bytes_xor_byte A A_def L_def)
  define st where "st = xor_byte (sha3_STATE ctx) (length L) domain"
  have st: "length st = 25" using a by (simp add: st_def sha3_state_of_def)
  have "state_bytes (xor_byte st (r - 1) 0x80) = xor_prefix A (L @ fips_pad r domain (length M))"
  proof (cases "r - length L = 1")
    case True
    then have "length L = r - 1" by simp
    then show ?thesis
      using True r L xor_prefix_last [of L A domain "0x80"] x1 [folded st_def]
      by (simp add: state_bytes_xor_byte [OF st] fips_pad_def A del: nth_state_bytes)
  next
    case False
    then have "r - 1 - length (L @ [domain]) = r - length L - 2" "length (L @ [domain]) \<le> r - 1"
      using L(2) by simp_all
    then show ?thesis
      using False r L xor_prefix_snoc [of "L @ [domain]" "r - 1" A "0x80"] x1 [folded st_def]
      by (simp add: state_bytes_xor_byte [OF st] fips_pad_def A del: nth_state_bytes)
  qed
  moreover have "sha3_POSITION ctx = length L" using a L by (simp add: sha3_state_of_def)
  ultimately show ?thesis
    using a fips_absorb_snoc(1) [OF r(1) fips_pad_length [OF r(1)]]
    by (simp add: crypto_sha3_finalize_def Let_def sha3_state_of_def keccak_f1600_bytes st_def flip: A_def L_def)
qed

section \<open>Squeezing\<close>

text \<open>The state after \<open>j\<close> bytes of output from the sponge state \<open>S\<close>.\<close>

definition sha3_squeezed :: "nat \<Rightarrow> byte list \<Rightarrow> nat \<Rightarrow> crypto_sha3_context \<Rightarrow> bool" where
  "sha3_squeezed r S j ctx \<longleftrightarrow>
     sha3_RATE ctx = r \<and> sha3_FINALIZED ctx \<and> length (sha3_STATE ctx) = 25 \<and>
     (\<exists>k p. state_bytes (sha3_STATE ctx) = (fips_keccak ^^ k) S \<and> sha3_POSITION ctx = p \<and>
        p \<le> r \<and> j = k * r + p)"

lemma sha3_squeeze_byte_correct:
  assumes "sha3_squeezed r S j ctx" and r: "0 < r" "r \<le> 200"
  shows "fst (sha3_squeeze_byte ctx) = fips_stream r S j"
    and "sha3_squeezed r S (Suc j) (snd (sha3_squeeze_byte ctx))"
proof -
  obtain k p where k: "state_bytes (sha3_STATE ctx) = (fips_keccak ^^ k) S" "sha3_POSITION ctx = p"
    "p \<le> r" "j = k * r + p"
    using assms(1) unfolding sha3_squeezed_def by blast
  have out: "fips_stream r S j = (fips_keccak ^^ i) S ! q" if "j = i * r + q" "q < r" for i q
    using that by (simp add: fips_stream_def)
  show "fst (sha3_squeeze_byte ctx) = fips_stream r S j"
  proof (cases "p = r")
    case True
    have "fips_stream r S j = (fips_keccak ^^ Suc k) S ! 0" using True k r by (intro out) simp_all
    also have "\<dots> = state_bytes (keccak_f1600 (sha3_STATE ctx)) ! 0"
      by (simp add: keccak_f1600_bytes k)
    finally show ?thesis using True k assms(1)
      by (simp add: sha3_squeeze_byte_def Let_def sha3_squeezed_def)
  next
    case False
    have "fips_stream r S j = (fips_keccak ^^ k) S ! p" using False k by (intro out) simp_all
    also have "\<dots> = get_byte (sha3_STATE ctx) p"
      using k r False nth_state_bytes [of p "sha3_STATE ctx"] by simp
    finally show ?thesis using False k assms(1)
      by (simp add: sha3_squeeze_byte_def Let_def sha3_squeezed_def)
  qed
  show "sha3_squeezed r S (Suc j) (snd (sha3_squeeze_byte ctx))"
  proof (cases "p = r")
    case True
    have "state_bytes (keccak_f1600 (sha3_STATE ctx)) = (fips_keccak ^^ Suc k) S \<and> 1 \<le> r \<and> Suc j = Suc k * r + 1"
      using True k r by (simp add: keccak_f1600_bytes)
    then show ?thesis
      using True k assms(1) unfolding sha3_squeezed_def
      by (intro conjI exI [of _ "Suc k"] exI [of _ 1]) (simp_all add: sha3_squeeze_byte_def Let_def)
  next
    case False
    have "state_bytes (sha3_STATE ctx) = (fips_keccak ^^ k) S \<and> Suc p \<le> r \<and> Suc j = k * r + Suc p"
      using False k by simp
    then show ?thesis
      using False k assms(1) unfolding sha3_squeezed_def
      by (intro conjI exI [of _ k] exI [of _ "Suc p"]) (simp_all add: sha3_squeeze_byte_def Let_def)
  qed
qed

lemma sha3_squeeze_bytes_correct:
  assumes "0 < r" "r \<le> 200"
  shows "sha3_squeezed r S j ctx \<Longrightarrow>
    fst (sha3_squeeze_bytes n ctx) = map (fips_stream r S) [j..<j + n] \<and>
    sha3_squeezed r S (j + n) (snd (sha3_squeeze_bytes n ctx))"
proof (induction n arbitrary: j ctx)
  case (Suc n)
  note b = sha3_squeeze_byte_correct [OF Suc.prems assms]
  note bs = Suc.IH [OF b(2)]
  have "[j..<j + Suc n] = j # [Suc j..<Suc j + n]" by (simp add: upt_conv_Cons)
  then show ?case using b(1) bs by (simp add: case_prod_beta Let_def del: upt_Suc)
qed simp

lemma sha3_finalize_squeezed:
  assumes "sha3_state_of r domain ctx M" and "0 < r" "r \<le> 200"
  shows "sha3_squeezed r (fips_absorb r (M @ fips_pad r domain (length M))) 0 (crypto_sha3_finalize ctx)"
proof -
  have "sha3_RATE (crypto_sha3_finalize ctx) = r \<and> sha3_FINALIZED (crypto_sha3_finalize ctx) \<and>
      length (sha3_STATE (crypto_sha3_finalize ctx)) = 25 \<and> sha3_POSITION (crypto_sha3_finalize ctx) = 0"
    using assms(1) by (simp add: crypto_sha3_finalize_def Let_def sha3_state_of_def)
  then show ?thesis
    unfolding sha3_squeezed_def using sha3_finalize_state [OF assms]
    by (auto intro!: exI [of _ 0])
qed

lemma sha3_squeeze_sponge:
  assumes "sha3_state_of r domain ctx M" and "0 < r" "r \<le> 200"
  shows "fst (crypto_sha3_squeeze ctx n) = fips_sponge r domain n M"
  using sha3_squeeze_bytes_correct [OF assms(2,3) sha3_finalize_squeezed [OF assms], of n]
  by (simp add: crypto_sha3_squeeze_def fips_sponge_def)

lemma sha3_squeeze_bytes_add:
  "sha3_squeeze_bytes (n + m) ctx =
    (fst (sha3_squeeze_bytes n ctx) @ fst (sha3_squeeze_bytes m (snd (sha3_squeeze_bytes n ctx))),
     snd (sha3_squeeze_bytes m (snd (sha3_squeeze_bytes n ctx))))"
  by (induction n arbitrary: ctx) (simp_all add: case_prod_beta Let_def)

lemma sha3_squeeze_bytes_finalized:
  "sha3_FINALIZED (snd (sha3_squeeze_bytes n ctx)) = sha3_FINALIZED ctx"
  by (induction n arbitrary: ctx) (simp_all add: case_prod_beta Let_def sha3_squeeze_byte_def)

section \<open>The incremental hash\<close>

definition sha3_rate :: "alg_id \<Rightarrow> nat" where
  "sha3_rate alg = sha3_RATE (snd (crypto_sha3_init alg))"

definition sha3_domain :: "alg_id \<Rightarrow> byte" where
  "sha3_domain alg = sha3_DOMAIN (snd (crypto_sha3_init alg))"

definition fips_sha3 :: "alg_id \<Rightarrow> nat \<Rightarrow> byte list \<Rightarrow> byte list" where
  "fips_sha3 alg = fips_sponge (sha3_rate alg) (sha3_domain alg)"

lemma sha3_rate_bounds:
  assumes "fst (crypto_sha3_init alg) = SUCCESS"
  shows "0 < sha3_rate alg" "sha3_rate alg \<le> 200"
  using assms by (simp_all add: sha3_rate_def crypto_sha3_init_def sha3_context_init_def crypto_sha3_clear_def
      split: if_splits)

lemma sha3_init_context:
  "fst (crypto_sha3_init alg) = SUCCESS \<Longrightarrow>
    snd (crypto_sha3_init alg) = sha3_context_init (sha3_rate alg) (sha3_domain alg)"
  by (auto simp: crypto_sha3_init_def sha3_rate_def sha3_domain_def sha3_context_init_def crypto_sha3_clear_def
      split: if_splits)

locale sponge_hash =
  fixes r :: nat and domain :: byte and n :: nat
  assumes rate: "0 < r" "r \<le> 200"
begin

sublocale incremental_hash "sha3_context_init r domain" "\<lambda>ctx x. (SUCCESS, crypto_sha3_update ctx x)"
  "\<lambda>ctx. fst (crypto_sha3_squeeze ctx n)" "\<lambda>_. True" "fips_sponge r domain n" "sha3_state_of r domain"
  by unfold_locales (simp_all add: sha3_state_of_init sha3_update_state_of sha3_squeeze_sponge rate)

lemma sponge_updates:
  assumes "sha3_state_of r domain ctx M"
  shows "sha3_state_of r domain (foldl crypto_sha3_update ctx xs) (M @ concat xs)"
  using assms
proof (induction xs arbitrary: ctx M)
  case (Cons x xs)
  from Cons.IH [OF sha3_update_state_of [OF Cons.prems rate]] show ?case by simp
qed simp

end

interpretation sha3_224: sponge_hash 144 "0x06" 28 by unfold_locales simp_all

interpretation sha3_256: sponge_hash 136 "0x06" 32 by unfold_locales simp_all

interpretation sha3_384: sponge_hash 104 "0x06" 48 by unfold_locales simp_all

interpretation sha3_512: sponge_hash 72 "0x06" 64 by unfold_locales simp_all

interpretation shake128: sponge_hash 168 "0x1f" n for n by unfold_locales simp_all

interpretation shake256: sponge_hash 136 "0x1f" n for n by unfold_locales simp_all

text \<open>
  C21. The permutation on the 25-lane state is Keccak-f[1600] of FIPS 202: on the state read as
  a string of 200 bytes it is the 24 rounds of the step mappings theta, rho, pi, chi and iota,
  with the rotation offsets of the lane walk and the round constants of the shift register.
\<close>

theorem keccak_f1600_correct:
  "map (get_byte (keccak_f1600 st)) [0..<200] = fips_keccak (map (get_byte st) [0..<200])"
  using keccak_f1600_bytes unfolding state_bytes_def .



text \<open>
  Squeezing is a stream: the output of a squeeze of \<open>n + m\<close> bytes is that of a squeeze
  of \<open>n\<close> bytes followed by one of \<open>m\<close>, with the same context at the end.
\<close>

theorem sha3_squeeze_stream:
  "crypto_sha3_squeeze ctx (n + m) =
    (let (a, ctx1) = crypto_sha3_squeeze ctx n; (b, ctx2) = crypto_sha3_squeeze ctx1 m in (a @ b, ctx2))"
proof -
  have "sha3_FINALIZED (crypto_sha3_finalize ctx)" by (simp add: crypto_sha3_finalize_def Let_def)
  then have "crypto_sha3_finalize (snd (sha3_squeeze_bytes n (crypto_sha3_finalize ctx))) =
      snd (sha3_squeeze_bytes n (crypto_sha3_finalize ctx))"
    using sha3_squeeze_bytes_finalized by (simp add: crypto_sha3_finalize_def [of "snd _"])
  then show ?thesis
    by (simp add: crypto_sha3_squeeze_def sha3_squeeze_bytes_add case_prod_beta Let_def)
qed

text \<open>
  The one-shot functions that ML-KEM and ML-DSA call return the FIPS 202 sponge of their
  input for every input and every output length.
\<close>

theorem sha3_one_shot:
  "crypto_sha3_256 M = fips_sponge 136 0x06 32 M \<and> crypto_sha3_512 M = fips_sponge 72 0x06 64 M \<and>
   crypto_shake128 n M = fips_sponge 168 0x1f n M \<and> crypto_shake256 n M = fips_sponge 136 0x1f n M"
proof -
  have "fst (crypto_sha3_squeeze (crypto_sha3_update (sha3_context_init r d) M) n) = fips_sponge r d n M"
    if "0 < r" "r \<le> 200" for r d n
    using sha3_squeeze_sponge [OF sha3_update_state_of [OF sha3_state_of_init that] that] by simp
  then show ?thesis
    by (simp add: crypto_sha3_256_def crypto_sha3_512_def sha3_fixed_def crypto_shake128_def
        crypto_shake256_def crypto_shake128_init_def crypto_shake256_init_def)
qed

end
