(* ===== verification/LSH.thy ===== *)
theory LSH
  imports Hash_Buffer Alg_Ids
begin

text \<open>
  \<^verbatim>\<open>src/HashFunction/LSH/lsh.c\<close>: the LSH-256 and LSH-512 compression functions, the six
  variants and the incremental interface. The chaining value, which the code keeps as bytes
  and copies to words and back, is held as its sixteen words. The lemmas show that every
  step of the compression is invertible, and that the incremental interface hashes the
  whole message with the one-and-zeroes padding of the standard.
\<close>

section \<open>The code\<close>

definition lsh_tau :: "nat list" where
  "lsh_tau =
   [3, 2, 0, 1, 7, 4, 5, 6, 11, 10, 8, 9, 15, 12, 13, 14]"

definition lsh_delta :: "nat list" where
  "lsh_delta =
   [6, 4, 5, 7, 12, 15, 14, 13, 2, 0, 1, 3, 8, 11, 10, 9]"

definition gamma32 :: "nat list" where
  "gamma32 =
   [0, 8, 16, 24, 24, 16, 8, 0]"

definition gamma64 :: "nat list" where
  "gamma64 =
   [0, 16, 32, 48, 8, 24, 40, 56]"

definition SC32 :: "u32 list" where
  "SC32 =
   [0x917caf90, 0x6c1b10a2, 0x6f352943, 0xcf778243, 0x2ceb7472, 0x29e96ff2, 0x8a9ba428,
    0x2eeb2642, 0x0e2c4021, 0x872bb30e, 0xa45e6cb2, 0x46f9c612, 0x185fe69e, 0x1359621b,
    0x263fccb2, 0x1a116870, 0x3a6c612f, 0xb2dec195, 0x02cb1f56, 0x40bfd858, 0x784684b6,
    0x6cbb7d2e, 0x660c7ed8, 0x2b79d88a, 0xa6cd9069, 0x91a05747, 0xcdea7558, 0x00983098,
    0xbecb3b2e, 0x2838ab9a, 0x728b573e, 0xa55262b5, 0x745dfa0f, 0x31f79ed8, 0xb85fce25,
    0x98c8c898, 0x8a0669ec, 0x60e445c2, 0xfde295b0, 0xf7b5185a, 0xd2580983, 0x29967709,
    0x182df3dd, 0x61916130, 0x90705676, 0x452a0822, 0xe07846ad, 0xaccd7351, 0x2a618d55,
    0xc00d8032, 0x4621d0f5, 0xf2f29191, 0x00c6cd06, 0x6f322a67, 0x58bef48d, 0x7a40c4fd,
    0x8beee27f, 0xcd8db2f2, 0x67f2c63b, 0xe5842383, 0xc793d306, 0xa15c91d6, 0x17b381e5,
    0xbb05c277, 0x7ad1620a, 0x5b40a5bf, 0x5ab901a2, 0x69a7a768, 0x5b66d9cd, 0xfdee6877,
    0xcb3566fc, 0xc0c83a32, 0x4c336c84, 0x9be6651a, 0x13baa3fc, 0x114f0fd1, 0xc240a728,
    0xec56e074, 0x009c63c7, 0x89026cf2, 0x7f9ff0d0, 0x824b7fb5, 0xce5ea00f, 0x605ee0e2,
    0x02e7cfea, 0x43375560, 0x9d002ac7, 0x8b6f5f7b, 0x1f90c14f, 0xcdcb3537, 0x2cfeafdd,
    0xbf3fc342, 0xeab7b9ec, 0x7a8cb5a3, 0x9d2af264, 0xfacedb06, 0xb052106e, 0x99006d04,
    0x2bae8d09, 0xff030601, 0xa271a6d6, 0x0742591d, 0xc81d5701, 0xc9a9e200, 0x02627f1e,
    0x996d719d, 0xda3b9634, 0x02090800, 0x14187d78, 0x499b7624, 0xe57458c9, 0x738be2c9,
    0x64e19d20, 0x06df0f36, 0x15d1cb0e, 0x0b110802, 0x2c95f58c, 0xe5119a6d, 0x59cd22ae,
    0xff6eac3c, 0x467ebd84, 0xe5ee453c, 0xe79cd923, 0x1c190a0d, 0xc28b81b8, 0xf6ac0852,
    0x26efd107, 0x6e1ae93b, 0xc53c41ca, 0xd4338221, 0x8475fd0a, 0x35231729, 0x4e0d3a7a,
    0xa2b45b48, 0x16c0d82d, 0x890424a9, 0x017e0c8f, 0x07b5a3f5, 0xfa73078e, 0x583a405e,
    0x5b47b4c8, 0x570fa3ea, 0xd7990543, 0x8d28ce32, 0x7f8a9b90, 0xbd5998fc, 0x6d7a9688,
    0x927a9eb6, 0xa2fc7d23, 0x66b38e41, 0x709e491a, 0xb5f700bf, 0x0a262c0f, 0x16f295b9,
    0xe8111ef5, 0x0d195548, 0x9f79a0c5, 0x1a41cfa7, 0x0ee7638a, 0xacf7c074, 0x30523b19,
    0x09884ecf, 0xf93014dd, 0x266e9d55, 0x191a6664, 0x5c1176c1, 0xf64aed98, 0xa4b83520,
    0x828d5449, 0x91d71dd8, 0x2944f2d6, 0x950bf27b, 0x3380ca7d, 0x6d88381d, 0x4138868e,
    0x5ced55c4, 0x0fe19dcb, 0x68f4f669, 0x6e37c8ff, 0xa0fe6e10, 0xb44b47b0, 0xf5c0558a,
    0x79bf14cf, 0x4a431a20, 0xf17f68da, 0x5deb5fd1, 0xa600c86d, 0x9f6c7eb0, 0xff92f864,
    0xb615e07f, 0x38d3e448, 0x8d5d3a6a, 0x70e843cb, 0x494b312e, 0xa6c93613, 0x0beb2f4f,
    0x928b5d63, 0xcbf66035, 0x0cb82c80, 0xea97a4f7, 0x592c0f3b, 0x947c5f77, 0x6fff49b9,
    0xf71a7e5a, 0x1de8c0f5, 0xc2569600, 0xc4e4ac8c, 0x823c9ce1]"

definition SC64 :: "u64 list" where
  "SC64 =
   [0x97884283c938982a, 0xba1fca93533e2355, 0xc519a2e87aeb1c03, 0x9a0fc95462af17b1,
    0xfc3dda8ab019a82b, 0x02825d079a895407, 0x79f2d0a7ee06a6f7, 0xd76d15eed9fdf5fe,
    0x1fcac64d01d0c2c1, 0xd9ea5de69161790f, 0xdebc8b6366071fc8, 0xa9d91db711c6c94b,
    0x3a18653ac9c1d427, 0x84df64a223dd5b09, 0x6cc37895f4ad9e70, 0x448304c8d7f3f4d5,
    0xea91134ed29383e0, 0xc4484477f2da88e8, 0x9b47eec96d26e8a6, 0x82f6d4c8d89014f4,
    0x527da0048b95fb61, 0x644406c60138648d, 0x303c0e8aa24c0edc, 0xc787cda0cbe8ca19,
    0x7ba46221661764ca, 0x0c8cbc6acd6371ac, 0xe336b836940f8f41, 0x79cb9da168a50976,
    0xd01da49021915cb3, 0xa84accc7399cf1f1, 0x6c4a992cee5aeb0c, 0x4f556e6cb4b2e3e0,
    0x200683877d7c2f45, 0x9949273830d51db8, 0x19eeeecaa39ed124, 0x45693f0a0dae7fef,
    0xedc234b1b2ee1083, 0xf3179400d68ee399, 0xb6e3c61b4945f778, 0xa4c3db216796c42f,
    0x268a0b04f9ab7465, 0xe2705f6905f2d651, 0x08ddb96e426ff53d, 0xaea84917bc2e6f34,
    0xaff6e664a0fe9470, 0x0aab94d765727d8c, 0x9aa9e1648f3d702e, 0x689efc88fe5af3d3,
    0xb0950ffea51fd98b, 0x52cfc86ef8c92833, 0xe69727b0b2653245, 0x56f160d3ea9da3e2,
    0xa6dd4b059f93051f, 0xb6406c3cd7f00996, 0x448b45f3ccad9ec8, 0x079b8587594ec73b,
    0x45a50ea3c4f9653b, 0x22983767c1f15b85, 0x7dbed8631797782b, 0x485234be88418638,
    0x842850a5329824c5, 0xf6aca914c7f9a04c, 0xcfd139c07a4c670c, 0xa3210ce0a8160242,
    0xeab3b268be5ea080, 0xbacf9f29b34ce0a7, 0x3c973b7aaf0fa3a8, 0x9a86f346c9c7be80,
    0xac78f5d7cabcea49, 0xa355bddcc199ed42, 0xa10afa3ac6b373db, 0xc42ded88be1844e5,
    0x9e661b271cff216a, 0x8a6ec8dd002d8861, 0xd3d2b629beb34be4, 0x217a3a1091863f1a,
    0x256ecda287a733f5, 0xf9139a9e5b872fe5, 0xac0535017a274f7c, 0xf21b7646d65d2aa9,
    0x048142441c208c08, 0xf937a5dd2db5e9eb, 0xa688dfe871ff30b7, 0x9bb44aa217c5593b,
    0x943c702a2edb291a, 0x0cae38f9e2b715de, 0xb13a367ba176cc28, 0x0d91bd1d3387d49b,
    0x85c386603cac940c, 0x30dd830ae39fd5e4, 0x2f68c85a712fe85d, 0x4ffeecb9dd1e94d6,
    0xd0ac9a590a0443ae, 0xbae732dc99ccf3ea, 0xeb70b21d1842f4d9, 0x9f4eda50bb5c6fa8,
    0x4949e69ce940a091, 0x0e608dee8375ba14, 0x983122cba118458c, 0x4eeba696fbb36b25,
    0x7d46f3630e47f27e, 0xa21a0f7666c0dea4, 0x5c22cf355b37cec4, 0xee292b0c17cc1847,
    0x9330838629e131da, 0x6eee7c71f92fce22, 0xc953ee6cb95dd224, 0x3a923d92af1e9073,
    0xc43a5671563a70fb, 0xbc2985dd279f8346, 0x7ef2049093069320, 0x17543723e3e46035,
    0xc3b409b00b130c6d, 0x5d6aee6b28fdf090, 0x1d425b26172ff6ed, 0xcccfd041cdaf03ad,
    0xfe90c7c790ab6cbf, 0xe5af6304c722ca02, 0x70f695239999b39e, 0x6b8b5b07c844954c,
    0x77bdb9bb1e1f7a30, 0xc859599426ee80ed, 0x5f9d813d4726e40a, 0x9ca0120f7cb2b179,
    0x8f588f583c182cbd, 0x951267cbe9eccce7, 0x678bb8bd334d520e, 0xf6e662d00cd9e1b7,
    0x357774d93d99aaa7, 0x21b2edbb156f6eb5, 0xfd1ebe846e0aee69, 0x3cb2218c2f642b15,
    0xe7e7e7945444ea4c, 0xa77a33b5d6b9b47c, 0xf34475f0809f6075, 0xdd4932dce6bb99ad,
    0xacec4e16d74451dc, 0xd4a0a8d084de23d6, 0x1bdd42f278f95866, 0xeed3adbb938f4051,
    0xcfcf7be8992f3733, 0x21ade98c906e3123, 0x37ba66711fffd668, 0x267c0fc3a255478a,
    0x993a64ee1b962e88, 0x754979556301faaa, 0xf920356b7251be81, 0xc281694f22cf923f,
    0x9f4b6481c8666b02, 0xcf97761cfe9f5444, 0xf220d7911fd63e9f, 0xa28bd365f79cd1b0,
    0xd39f5309b1c4b721, 0xbec2ceb864fca51f, 0x1955a0ddc410407a, 0x43eab871f261d201,
    0xeaafe64a2ed16da1, 0x670d931b9df39913, 0x12f868b0f614de91, 0x2e5f395d946e8252,
    0x72f25cbb767bd8f4, 0x8191871d61a1c4dd, 0x6ef67ea1d450ba93, 0x2ea32a645433d344,
    0x9a963079003f0f8b, 0x74a0aeb9918cac7a, 0x0b6119a70af36fa3, 0x8d9896f202f0d480,
    0x654f1831f254cd66, 0x1318a47f0366a25e, 0x65752076250b4e01, 0xd1cd8eb888071772,
    0x30c6a9793f4e9b25, 0x154f684b1e3926ee, 0x6c7ac0b1fe6312ae, 0x262f88f4f3c5550d,
    0xb4674a24472233cb, 0x2bbd23826a090071, 0xda95969b30594f66, 0x9f5c47408f1e8a43,
    0xf77022b88de9c055, 0x64b7b36957601503, 0xe73b72b06175c11a, 0x55b87de8b91a6233,
    0x1bb16e6b6955ff7f, 0xe8e0a5ec7309719c, 0x702c31cb89a8b640, 0xfba387cfada8cde2,
    0x6792db4677aa164c, 0x1c6b1cc0b7751867, 0x22ae2311d736dc01, 0x0e3666a1d37c9588,
    0xcd1fd9d4bf557e9a, 0xc986925f7c7b0e84, 0x9c5dfd55325ef6b0, 0x9f2b577d5676b0dd,
    0xfa6e21be21c062b3, 0x8787dd782c8d7f83, 0xd0d134e90e12dd23, 0x449d087550121d96,
    0xecf9ae9414d41967, 0x5018f1dbf789934d, 0xfa5b52879155a74c, 0xca82d4d3cd278e7c,
    0x688fdfdfe22316ad, 0x0f6555a4ba0d030a, 0xa2061df720f000f3, 0xe1a57dc5622fb3da,
    0xe6a842a8e8ed8153, 0x690acdd3811ce09d, 0x55adda18e6fcf446, 0x4d57a8a0f4b60b46,
    0xf86fbfc20539c415, 0x74bafa5ec7100d19, 0xa824151810f0f495, 0x8723432791e38ebb,
    0x8eeaeb91d66ed539, 0x73d8a1549dfd7e06, 0x0387f2ffe3f13a9b, 0xa5004995aac15193,
    0x682f81c73efdda0d, 0x2fb55925d71d268d, 0xcc392d2901e58a3d, 0xaa666ab975724a42]"

definition iv_lsh_256_224 :: "u32 list" where
  "iv_lsh_256_224 =
   [0x068608d3, 0x62d8f7a7, 0xd76652ab, 0x4c600a43, 0xbdc40aa8, 0x1eca0b68, 0xda1a89be,
    0x3147d354, 0x707eb4f9, 0xf65b3862, 0x6b0b2abe, 0x56b8ec0a, 0xcf237286, 0xee0d1727,
    0x33636595, 0x8bb8d05f]"

definition iv_lsh_256_256 :: "u32 list" where
  "iv_lsh_256_256 =
   [0x46a10f1f, 0xfddce486, 0xb41443a8, 0x198e6b9d, 0x3304388d, 0xb0f5a3c7, 0xb36061c4,
    0x7adbd553, 0x105d5378, 0x2f74de54, 0x5c2f2d95, 0xf2553fbe, 0x8051357a, 0x138668c8,
    0x47aa4484, 0xe01afb41]"

definition iv_lsh_512_224 :: "u64 list" where
  "iv_lsh_512_224 =
   [0x0c401e9fe8813a55, 0x4a5f446268fd3d35, 0xff13e452334f612a, 0xf8227661037e354a,
    0xa5f223723c9ca29d, 0x95d965a11aed3979, 0x01e23835b9ab02cc, 0x52d49cbad5b30616,
    0x9e5c2027773f4ed3, 0x66a5c8801925b701, 0x22bbc85b4c6779d9, 0xc13171a42c559c23,
    0x31e2b67d25be3813, 0xd522c4deed8e4d83, 0xa79f5509b43fbafe, 0xe00d2cd88b4b6c6a]"

definition iv_lsh_512_256 :: "u64 list" where
  "iv_lsh_512_256 =
   [0x6dc57c33df989423, 0xd8ea7f6e8342c199, 0x76df8356f8603ac4, 0x40f1b44de838223a,
    0x39ffe7cfc31484cd, 0x39c4326cc5281548, 0x8a2ff85a346045d8, 0xff202aa46dbdd61e,
    0xcf785b3cd5fcdb8b, 0x1f0323b64a8150bf, 0xff75d972f29ea355, 0x2e567f30bf1ca9e1,
    0xb596875bf8ff6dba, 0xfcca39b089ef4615, 0xecff4017d020b4b6, 0x7e77384c772ed802]"

definition iv_lsh_512_384 :: "u64 list" where
  "iv_lsh_512_384 =
   [0x53156a66292808f6, 0xb2c4f362b204c2bc, 0xb84b7213bfa05c4e, 0x976ceb7c1b299f73,
    0xdf0cc63c0570ae97, 0xda4441baa486ce3f, 0x6559f5d9b5f2acc2, 0x22dacf19b4b52a16,
    0xbbcdacefde80953a, 0xc9891a2879725b3e, 0x7c9fe6330237e440, 0xa30ba550553f7431,
    0xbb08043fb34e3e30, 0xa0dec48d54618ead, 0x150317267464bc57, 0x32d1501fde63dc93]"

definition iv_lsh_512_512 :: "u64 list" where
  "iv_lsh_512_512 =
   [0xadd50f3c7f07094e, 0xe3f3cee8f9418a4f, 0xb527ecde5b3d0ae9, 0x2ef6dec68076f501,
    0x8cb994cae5aca216, 0xfbb9eae4bba48cc7, 0x650a526174725fea, 0x1f9a61a73f8d8085,
    0xb6607378173b539b, 0x1bc99853b0c0b9ed, 0xdf727fc19b182d47, 0xdbef360cf893a457,
    0x4981f5e570147e80, 0xd00c4490ca7d3e30, 0x5d73940c0e4ae1ec, 0x894085e2edb2d819]"

definition lsh256_msg_exp :: "byte list \<Rightarrow> u32 list list" where
  "lsh256_msg_exp block =
     fold (\<lambda>i msgExp. msgExp @ [map (\<lambda>j. msgExp ! (i - 1) ! j + msgExp ! (i - 2) ! (lsh_tau ! j)) [0..<16]])
       [2..<27] [map (\<lambda>j. crypto_load32_le (drop (4 * j) block)) [0..<16],
               map (\<lambda>j. crypto_load32_le (drop (4 * (16 + j)) block)) [0..<16]]"

definition lsh256_mix :: "nat \<Rightarrow> nat \<Rightarrow> u32 list \<Rightarrow> u32 list" where
  "lsh256_mix i j out =
     (let out = out[j := out ! j + out ! (j + 8)];
          out = out[j := crypto_rotl32 (out ! j) (if odd i then 5 else 29)];
          out = out[j := out ! j XOR SC32 ! (i * 8 + j)];
          out = out[j + 8 := out ! (j + 8) + out ! j];
          out = out[j + 8 := crypto_rotl32 (out ! (j + 8)) (if odd i then 17 else 1)];
          out = out[j := out ! j + out ! (j + 8)]
      in out[j + 8 := crypto_rotl32 (out ! (j + 8)) (gamma32 ! j)])"

definition lsh256_round :: "u32 list list \<Rightarrow> nat \<Rightarrow> u32 list \<Rightarrow> u32 list" where
  "lsh256_round msgExp i out =
     (let out = map (\<lambda>j. out ! j XOR msgExp ! i ! j) [0..<16];
          out = fold (lsh256_mix i) [0..<8] out
      in map (\<lambda>j. out ! (lsh_delta ! j)) [0..<16])"

definition LSH_256_CompressBlock :: "u32 list \<Rightarrow> byte list \<Rightarrow> u32 list" where
  "LSH_256_CompressBlock in_out block =
     (let msgExp = lsh256_msg_exp block;
          out = fold (lsh256_round msgExp) [0..<26] in_out
      in map (\<lambda>j. out ! j XOR msgExp ! 26 ! j) [0..<16])"

definition lsh512_msg_exp :: "byte list \<Rightarrow> u64 list list" where
  "lsh512_msg_exp block =
     fold (\<lambda>i msgExp. msgExp @ [map (\<lambda>j. msgExp ! (i - 1) ! j + msgExp ! (i - 2) ! (lsh_tau ! j)) [0..<16]])
       [2..<29] [map (\<lambda>j. crypto_load64_le (drop (8 * j) block)) [0..<16],
               map (\<lambda>j. crypto_load64_le (drop (8 * (16 + j)) block)) [0..<16]]"

definition lsh512_mix :: "nat \<Rightarrow> nat \<Rightarrow> u64 list \<Rightarrow> u64 list" where
  "lsh512_mix i j out =
     (let out = out[j := out ! j + out ! (j + 8)];
          out = out[j := crypto_rotl64 (out ! j) (if odd i then 7 else 23)];
          out = out[j := out ! j XOR SC64 ! (i * 8 + j)];
          out = out[j + 8 := out ! (j + 8) + out ! j];
          out = out[j + 8 := crypto_rotl64 (out ! (j + 8)) (if odd i then 3 else 59)];
          out = out[j := out ! j + out ! (j + 8)]
      in out[j + 8 := crypto_rotl64 (out ! (j + 8)) (gamma64 ! j)])"

definition lsh512_round :: "u64 list list \<Rightarrow> nat \<Rightarrow> u64 list \<Rightarrow> u64 list" where
  "lsh512_round msgExp i out =
     (let out = map (\<lambda>j. out ! j XOR msgExp ! i ! j) [0..<16];
          out = fold (lsh512_mix i) [0..<8] out
      in map (\<lambda>j. out ! (lsh_delta ! j)) [0..<16])"

definition LSH_512_CompressBlock :: "u64 list \<Rightarrow> byte list \<Rightarrow> u64 list" where
  "LSH_512_CompressBlock in_out block =
     (let msgExp = lsh512_msg_exp block;
          out = fold (lsh512_round msgExp) [0..<28] in_out
      in map (\<lambda>j. out ! j XOR msgExp ! 28 ! j) [0..<16])"

definition lsh256_return :: "u32 list \<Rightarrow> nat \<Rightarrow> byte list" where
  "lsh256_return state dlen =
     concat (map (\<lambda>j. crypto_store32_le (state ! j XOR state ! (8 + j))) [0..<dlen div 4])"

definition lsh512_return :: "u64 list \<Rightarrow> nat \<Rightarrow> byte list" where
  "lsh512_return state dlen =
     (let full = dlen div 8
      in concat (map (\<lambda>j. crypto_store64_le (state ! j XOR state ! (8 + j))) [0..<full]) @
         (if dlen mod 8 \<noteq> 0 then crypto_store32_le (ucast (state ! full XOR state ! (8 + full))) else []))"

text \<open>The member \<open>STATE\<close> holds LSH-256 words or LSH-512 words, as \<open>USE_LSH512\<close> says.\<close>

record crypto_lsh_context =
  lsh_STATE32 :: "u32 list"
  lsh_STATE64 :: "u64 list"
  lsh_BLOCK :: "byte list"
  lsh_BLOCK_LENGTH :: nat
  lsh_BUFFER_LENGTH :: nat
  lsh_USE_LSH512 :: bool

definition crypto_lsh_clear :: crypto_lsh_context where
  "crypto_lsh_clear =
     \<lparr>lsh_STATE32 = replicate 16 0, lsh_STATE64 = replicate 16 0, lsh_BLOCK = zeroes 256,
      lsh_BLOCK_LENGTH = 0, lsh_BUFFER_LENGTH = 0, lsh_USE_LSH512 = False\<rparr>"

definition lsh256_start :: "u32 list \<Rightarrow> crypto_lsh_context" where
  "lsh256_start iv = crypto_lsh_clear\<lparr>lsh_STATE32 := iv, lsh_BLOCK_LENGTH := 128\<rparr>"

definition lsh512_start :: "u64 list \<Rightarrow> crypto_lsh_context" where
  "lsh512_start iv = crypto_lsh_clear\<lparr>lsh_STATE64 := iv, lsh_BLOCK_LENGTH := 256, lsh_USE_LSH512 := True\<rparr>"

definition crypto_lsh_init :: "alg_id \<Rightarrow> status \<times> crypto_lsh_context" where
  "crypto_lsh_init alg =
     (if alg = LIBERAC_ALG_HASH_LSH_256_224 then (SUCCESS, lsh256_start iv_lsh_256_224)
      else if alg = LIBERAC_ALG_HASH_LSH_256_256 then (SUCCESS, lsh256_start iv_lsh_256_256)
      else if alg = LIBERAC_ALG_HASH_LSH_512_224 then (SUCCESS, lsh512_start iv_lsh_512_224)
      else if alg = LIBERAC_ALG_HASH_LSH_512_256 then (SUCCESS, lsh512_start iv_lsh_512_256)
      else if alg = LIBERAC_ALG_HASH_LSH_512_384 then (SUCCESS, lsh512_start iv_lsh_512_384)
      else if alg = LIBERAC_ALG_HASH_LSH_512_512 then (SUCCESS, lsh512_start iv_lsh_512_512)
      else (INVALID_ALG_ID, crypto_lsh_clear))"

definition crypto_lsh_update :: "crypto_lsh_context \<Rightarrow> byte list \<Rightarrow> status \<times> crypto_lsh_context" where
  "crypto_lsh_update context input =
     (if lsh_BLOCK_LENGTH context \<noteq> 128 \<and> lsh_BLOCK_LENGTH context \<noteq> 256 then (INVALID_ARGUMENT, context)
      else if lsh_USE_LSH512 context then
        let (state, block, buffer_length) = md_update (lsh_BLOCK_LENGTH context) LSH_512_CompressBlock
              (lsh_STATE64 context) (lsh_BLOCK context) (lsh_BUFFER_LENGTH context) input
        in (SUCCESS, context\<lparr>lsh_STATE64 := state, lsh_BLOCK := block, lsh_BUFFER_LENGTH := buffer_length\<rparr>)
      else
        let (state, block, buffer_length) = md_update (lsh_BLOCK_LENGTH context) LSH_256_CompressBlock
              (lsh_STATE32 context) (lsh_BLOCK context) (lsh_BUFFER_LENGTH context) input
        in (SUCCESS, context\<lparr>lsh_STATE32 := state, lsh_BLOCK := block, lsh_BUFFER_LENGTH := buffer_length\<rparr>))"

definition crypto_lsh_finalize :: "crypto_lsh_context \<Rightarrow> crypto_lsh_context" where
  "crypto_lsh_finalize context =
     (if lsh_BLOCK_LENGTH context \<noteq> 128 \<and> lsh_BLOCK_LENGTH context \<noteq> 256 then context
      else
        let block = copy_at (lsh_BLOCK context) (lsh_BUFFER_LENGTH context)
              (zeroes (lsh_BLOCK_LENGTH context - lsh_BUFFER_LENGTH context));
            block = block[lsh_BUFFER_LENGTH context := 0x80];
            whole = take (lsh_BLOCK_LENGTH context) block;
            context = (if lsh_USE_LSH512 context
              then context\<lparr>lsh_STATE64 := LSH_512_CompressBlock (lsh_STATE64 context) whole\<rparr>
              else context\<lparr>lsh_STATE32 := LSH_256_CompressBlock (lsh_STATE32 context) whole\<rparr>)
        in context\<lparr>lsh_BLOCK := zeroes 256, lsh_BUFFER_LENGTH := 0\<rparr>)"

definition crypto_lsh_squeeze :: "crypto_lsh_context \<Rightarrow> alg_id \<Rightarrow> byte list" where
  "crypto_lsh_squeeze context alg =
     (if alg = LIBERAC_ALG_HASH_LSH_256_224 then lsh256_return (lsh_STATE32 context) 28
      else if alg = LIBERAC_ALG_HASH_LSH_256_256 then lsh256_return (lsh_STATE32 context) 32
      else if alg = LIBERAC_ALG_HASH_LSH_512_224 then lsh512_return (lsh_STATE64 context) 28
      else if alg = LIBERAC_ALG_HASH_LSH_512_256 then lsh512_return (lsh_STATE64 context) 32
      else if alg = LIBERAC_ALG_HASH_LSH_512_384 then lsh512_return (lsh_STATE64 context) 48
      else if alg = LIBERAC_ALG_HASH_LSH_512_512 then lsh512_return (lsh_STATE64 context) 64
      else [])"

section \<open>The standard\<close>

text \<open>
  KS X 3262 in vector form: the message expansion by recursion on the step, and a step as
  message addition, mixing of the two halves of the state word by word, and the word
  permutation.
\<close>

fun lsh_M :: "(nat \<Rightarrow> 'a::len word) \<Rightarrow> nat \<Rightarrow> nat \<Rightarrow> 'a word" where
  "lsh_M w 0 j = w j"
| "lsh_M w (Suc 0) j = w (16 + j)"
| "lsh_M w (Suc (Suc i)) j = lsh_M w (Suc i) j + lsh_M w i (lsh_tau ! j)"

definition lsh_mix_pair :: "nat \<Rightarrow> nat \<Rightarrow> nat \<Rightarrow> 'a::len word \<Rightarrow> 'a word \<times> 'a word \<Rightarrow> 'a word \<times> 'a word" where
  "lsh_mix_pair \<alpha> \<beta> \<gamma> c p =
     (case p of (l, r) \<Rightarrow>
        let v = word_rotl \<alpha> (l + r) XOR c; w = word_rotl \<beta> (r + v) in (v + w, word_rotl \<gamma> w))"

definition lsh_step ::
    "nat \<Rightarrow> nat \<Rightarrow> nat list \<Rightarrow> (nat \<Rightarrow> 'a::len word) \<Rightarrow> (nat \<Rightarrow> 'a word) \<Rightarrow> 'a word list \<Rightarrow> 'a word list" where
  "lsh_step \<alpha> \<beta> \<gamma> c m V =
     (let X = (\<lambda>j. V ! j XOR m j);
          P = map (\<lambda>j. lsh_mix_pair \<alpha> \<beta> (\<gamma> ! j) (c j) (X j, X (j + 8))) [0..<8];
          Y = map fst P @ map snd P
      in map (\<lambda>j. Y ! (lsh_delta ! j)) [0..<16])"

definition lsh256_block :: "u32 list \<Rightarrow> byte list \<Rightarrow> u32 list" where
  "lsh256_block V block =
     (let M = lsh_M (\<lambda>j. crypto_load32_le (drop (4 * j) block));
          V = fold (\<lambda>i. lsh_step (if odd i then 5 else 29) (if odd i then 17 else 1) gamma32
                 (\<lambda>j. SC32 ! (i * 8 + j)) (M i)) [0..<26] V
      in map (\<lambda>j. V ! j XOR M 26 j) [0..<16])"

definition lsh512_block :: "u64 list \<Rightarrow> byte list \<Rightarrow> u64 list" where
  "lsh512_block V block =
     (let M = lsh_M (\<lambda>j. crypto_load64_le (drop (8 * j) block));
          V = fold (\<lambda>i. lsh_step (if odd i then 7 else 23) (if odd i then 3 else 59) gamma64
                 (\<lambda>j. SC64 ! (i * 8 + j)) (M i)) [0..<28] V
      in map (\<lambda>j. V ! j XOR M 28 j) [0..<16])"

definition lsh_pad :: "nat \<Rightarrow> nat \<Rightarrow> byte list" where
  "lsh_pad n m = [0x80] @ zeroes (n - 1 - m mod n)"

definition lsh_hash :: "alg_id \<Rightarrow> byte list \<Rightarrow> byte list" where
  "lsh_hash alg M =
     (let start = snd (crypto_lsh_init alg); n = lsh_BLOCK_LENGTH start
      in crypto_lsh_squeeze (start\<lparr>
           lsh_STATE32 := absorb n lsh256_block (lsh_STATE32 start) (M @ lsh_pad n (length M)),
           lsh_STATE64 := absorb n lsh512_block (lsh_STATE64 start) (M @ lsh_pad n (length M))\<rparr>) alg)"

section \<open>The compression functions\<close>

lemma lsh_tau_less: "j < 16 \<Longrightarrow> lsh_tau ! j < 16"
proof -
  have "list_all (\<lambda>j. lsh_tau ! j < 16) [0..<16]" by code_simp
  then show "j < 16 \<Longrightarrow> lsh_tau ! j < 16" by (simp add: list_all_iff)
qed

lemma lsh_delta_less: "j < 16 \<Longrightarrow> lsh_delta ! j < 16"
proof -
  have "list_all (\<lambda>j. lsh_delta ! j < 16) [0..<16]" by code_simp
  then show "j < 16 \<Longrightarrow> lsh_delta ! j < 16" by (simp add: list_all_iff)
qed

lemma lsh_delta_onto: "k < 16 \<Longrightarrow> \<exists>j < 16. lsh_delta ! j = k"
proof -
  have "list_all (\<lambda>k. list_ex (\<lambda>j. lsh_delta ! j = k) [0..<16]) [0..<16]" by code_simp
  then show "k < 16 \<Longrightarrow> \<exists>j < 16. lsh_delta ! j = k" by (fastforce simp: list_all_iff list_ex_iff)
qed

lemma lsh_expand_fold:
  assumes "2 \<le> n"
  shows "length (fold (\<lambda>i E. E @ [map (\<lambda>j. E ! (i - 1) ! j + E ! (i - 2) ! (lsh_tau ! j)) [0..<16]])
      [2..<n] [map w [0..<16], map (\<lambda>j. w (16 + j)) [0..<16]]) = n \<and>
    (\<forall>i < n. fold (\<lambda>i E. E @ [map (\<lambda>j. E ! (i - 1) ! j + E ! (i - 2) ! (lsh_tau ! j)) [0..<16]])
      [2..<n] [map w [0..<16], map (\<lambda>j. w (16 + j)) [0..<16]] ! i = map (lsh_M w i) [0..<16])"
  using assms
proof (induction n rule: dec_induct)
  case base
  show ?case by (auto simp: less_2_cases_iff)
next
  case (step n)
  then obtain k where k: "n = Suc (Suc k)" by (metis add_2_eq_Suc le_Suc_ex)
  show ?case
    using step by (auto simp: nth_append less_Suc_eq k lsh_tau_less)
qed

lemma lsh256_msg_exp_nth:
  "i < 27 \<Longrightarrow> lsh256_msg_exp block ! i = map (lsh_M (\<lambda>j. crypto_load32_le (drop (4 * j) block)) i) [0..<16]"
proof -
  have "2 \<le> (27 :: nat)" by simp
  then show "i < 27 \<Longrightarrow> lsh256_msg_exp block ! i = map (lsh_M (\<lambda>j. crypto_load32_le (drop (4 * j) block)) i) [0..<16]"
    unfolding lsh256_msg_exp_def using lsh_expand_fold [of 27 "\<lambda>j. crypto_load32_le (drop (4 * j) block)"] by blast
qed

lemma lsh512_msg_exp_nth:
  "i < 29 \<Longrightarrow> lsh512_msg_exp block ! i = map (lsh_M (\<lambda>j. crypto_load64_le (drop (8 * j) block)) i) [0..<16]"
proof -
  have "2 \<le> (29 :: nat)" by simp
  then show "i < 29 \<Longrightarrow> lsh512_msg_exp block ! i = map (lsh_M (\<lambda>j. crypto_load64_le (drop (8 * j) block)) i) [0..<16]"
    unfolding lsh512_msg_exp_def using lsh_expand_fold [of 29 "\<lambda>j. crypto_load64_le (drop (8 * j) block)"] by blast
qed

text \<open>The eight mixes of a step touch disjoint pairs of words, so they act at once.\<close>

lemma pair_updates:
  assumes len: "length X = 16" and "n \<le> 8"
  shows "length (fold (\<lambda>j out. out[j := fst (f j (out ! j, out ! (j + 8))),
        j + 8 := snd (f j (out ! j, out ! (j + 8)))]) [0..<n] X) = 16 \<and>
    (\<forall>k < 16. fold (\<lambda>j out. out[j := fst (f j (out ! j, out ! (j + 8))),
        j + 8 := snd (f j (out ! j, out ! (j + 8)))]) [0..<n] X ! k =
      (if k < n then fst (f k (X ! k, X ! (k + 8)))
       else if 8 \<le> k \<and> k < n + 8 then snd (f (k - 8) (X ! (k - 8), X ! k)) else X ! k))"
  using assms(2)
proof (induction n)
  case (Suc n)
  then show ?case by (auto simp: nth_list_update less_Suc_eq)
qed (auto simp: len)

lemma pair_updates_map:
  assumes "length X = 16"
  shows "fold (\<lambda>j out. out[j := fst (f j (out ! j, out ! (j + 8))),
        j + 8 := snd (f j (out ! j, out ! (j + 8)))]) [0..<8] X =
    map fst (map (\<lambda>j. f j (X ! j, X ! (j + 8))) [0..<8]) @ map snd (map (\<lambda>j. f j (X ! j, X ! (j + 8))) [0..<8])"
  using pair_updates [OF assms, of 8 f]
  by (intro nth_equalityI) (auto simp: nth_append)

lemma lsh256_mix_pair:
  assumes "length out = 16" and "j < 8"
  shows "lsh256_mix i j out = (let p = lsh_mix_pair (if odd i then 5 else 29) (if odd i then 17 else 1)
      (gamma32 ! j) (SC32 ! (i * 8 + j)) (out ! j, out ! (j + 8)) in out[j := fst p, j + 8 := snd p])"
  using assms
  by (intro nth_equalityI) (auto simp: lsh256_mix_def lsh_mix_pair_def Let_def crypto_rot_correct nth_list_update)

lemma lsh512_mix_pair:
  assumes "length out = 16" and "j < 8"
  shows "lsh512_mix i j out = (let p = lsh_mix_pair (if odd i then 7 else 23) (if odd i then 3 else 59)
      (gamma64 ! j) (SC64 ! (i * 8 + j)) (out ! j, out ! (j + 8)) in out[j := fst p, j + 8 := snd p])"
  using assms
  by (intro nth_equalityI) (auto simp: lsh512_mix_def lsh_mix_pair_def Let_def crypto_rot_correct nth_list_update)

lemma fold_cong_length:
  assumes "\<And>j X. j \<in> set js \<Longrightarrow> length X = n \<Longrightarrow> f j X = g j X" and "\<And>j X. length X = n \<Longrightarrow> length (g j X) = n"
    and "length X = n"
  shows "fold f js X = fold g js X"
  using assms(1,3)
proof (induction js arbitrary: X)
  case (Cons j js)
  have "f j X = g j X" using Cons.prems by simp
  moreover have "length (g j X) = n" using assms(2) Cons.prems by simp
  ultimately show ?case using Cons by simp
qed simp

lemma lsh256_round_step:
  assumes "i < 26"
  shows "lsh256_round (lsh256_msg_exp block) i V =
    lsh_step (if odd i then 5 else 29) (if odd i then 17 else 1) gamma32 (\<lambda>j. SC32 ! (i * 8 + j))
      (lsh_M (\<lambda>j. crypto_load32_le (drop (4 * j) block)) i) V"
proof -
  let ?f = "\<lambda>j. lsh_mix_pair (if odd i then 5 else 29) (if odd i then 17 else 1) (gamma32 ! j) (SC32 ! (i * 8 + j))"
  let ?x = "\<lambda>j. V ! j XOR lsh_M (\<lambda>j. crypto_load32_le (drop (4 * j) block)) i j"
  let ?X = "map ?x [0..<16]"
  have "fold (lsh256_mix i) [0..<8] ?X =
      fold (\<lambda>j out. out[j := fst (?f j (out ! j, out ! (j + 8))), j + 8 := snd (?f j (out ! j, out ! (j + 8)))]) [0..<8] ?X"
    by (rule fold_cong_length [where n = 16]) (simp_all add: lsh256_mix_pair Let_def)
  also have "\<dots> = map fst (map (\<lambda>j. ?f j (?X ! j, ?X ! (j + 8))) [0..<8]) @
      map snd (map (\<lambda>j. ?f j (?X ! j, ?X ! (j + 8))) [0..<8])"
    by (rule pair_updates_map) simp
  also have "map (\<lambda>j. ?f j (?X ! j, ?X ! (j + 8))) [0..<8] = map (\<lambda>j. ?f j (?x j, ?x (j + 8))) [0..<8]"
    by (intro map_cong refl) simp
  finally have "fold (lsh256_mix i) [0..<8] ?X = map fst (map (\<lambda>j. ?f j (?x j, ?x (j + 8))) [0..<8]) @
      map snd (map (\<lambda>j. ?f j (?x j, ?x (j + 8))) [0..<8])" .
  moreover have "map (\<lambda>j. V ! j XOR lsh256_msg_exp block ! i ! j) [0..<16] = ?X"
    using assms by (intro map_cong refl) (simp add: lsh256_msg_exp_nth)
  ultimately show ?thesis unfolding lsh256_round_def lsh_step_def Let_def by (simp only:)
qed

lemma lsh512_round_step:
  assumes "i < 28"
  shows "lsh512_round (lsh512_msg_exp block) i V =
    lsh_step (if odd i then 7 else 23) (if odd i then 3 else 59) gamma64 (\<lambda>j. SC64 ! (i * 8 + j))
      (lsh_M (\<lambda>j. crypto_load64_le (drop (8 * j) block)) i) V"
proof -
  let ?f = "\<lambda>j. lsh_mix_pair (if odd i then 7 else 23) (if odd i then 3 else 59) (gamma64 ! j) (SC64 ! (i * 8 + j))"
  let ?x = "\<lambda>j. V ! j XOR lsh_M (\<lambda>j. crypto_load64_le (drop (8 * j) block)) i j"
  let ?X = "map ?x [0..<16]"
  have "fold (lsh512_mix i) [0..<8] ?X =
      fold (\<lambda>j out. out[j := fst (?f j (out ! j, out ! (j + 8))), j + 8 := snd (?f j (out ! j, out ! (j + 8)))]) [0..<8] ?X"
    by (rule fold_cong_length [where n = 16]) (simp_all add: lsh512_mix_pair Let_def)
  also have "\<dots> = map fst (map (\<lambda>j. ?f j (?X ! j, ?X ! (j + 8))) [0..<8]) @
      map snd (map (\<lambda>j. ?f j (?X ! j, ?X ! (j + 8))) [0..<8])"
    by (rule pair_updates_map) simp
  also have "map (\<lambda>j. ?f j (?X ! j, ?X ! (j + 8))) [0..<8] = map (\<lambda>j. ?f j (?x j, ?x (j + 8))) [0..<8]"
    by (intro map_cong refl) simp
  finally have "fold (lsh512_mix i) [0..<8] ?X = map fst (map (\<lambda>j. ?f j (?x j, ?x (j + 8))) [0..<8]) @
      map snd (map (\<lambda>j. ?f j (?x j, ?x (j + 8))) [0..<8])" .
  moreover have "map (\<lambda>j. V ! j XOR lsh512_msg_exp block ! i ! j) [0..<16] = ?X"
    using assms by (intro map_cong refl) (simp add: lsh512_msg_exp_nth)
  ultimately show ?thesis unfolding lsh512_round_def lsh_step_def Let_def by (simp only:)
qed

lemma lsh_compress_blocks:
  "LSH_256_CompressBlock = lsh256_block" "LSH_512_CompressBlock = lsh512_block"
proof -
  have "LSH_256_CompressBlock V block = lsh256_block V block" for V block
  proof -
    have "fold (lsh256_round (lsh256_msg_exp block)) [0..<26] V =
        fold (\<lambda>i. lsh_step (if odd i then 5 else 29) (if odd i then 17 else 1) gamma32 (\<lambda>j. SC32 ! (i * 8 + j))
          (lsh_M (\<lambda>j. crypto_load32_le (drop (4 * j) block)) i)) [0..<26] V"
      by (intro fold_cong refl ext) (simp add: lsh256_round_step)
    then show ?thesis by (simp add: LSH_256_CompressBlock_def lsh256_block_def Let_def lsh256_msg_exp_nth)
  qed
  moreover have "LSH_512_CompressBlock V block = lsh512_block V block" for V block
  proof -
    have "fold (lsh512_round (lsh512_msg_exp block)) [0..<28] V =
        fold (\<lambda>i. lsh_step (if odd i then 7 else 23) (if odd i then 3 else 59) gamma64 (\<lambda>j. SC64 ! (i * 8 + j))
          (lsh_M (\<lambda>j. crypto_load64_le (drop (8 * j) block)) i)) [0..<28] V"
      by (intro fold_cong refl ext) (simp add: lsh512_round_step)
    then show ?thesis by (simp add: LSH_512_CompressBlock_def lsh512_block_def Let_def lsh512_msg_exp_nth)
  qed
  ultimately show "LSH_256_CompressBlock = lsh256_block" "LSH_512_CompressBlock = lsh512_block"
    by (auto intro!: ext)
qed

text \<open>
  The in-place LSH compressions, with their expanded message table and their mixing loops
  over pairs of words, compute the vector form of the standard for every chaining value and
  block.
\<close>

theorem lsh_compress_correct:
  "LSH_256_CompressBlock V block = lsh256_block V block \<and> LSH_512_CompressBlock W block' = lsh512_block W block'"
  by (simp add: lsh_compress_blocks)

section \<open>Invertibility\<close>

lemma rotl_inject: "word_rotl n v = word_rotl n w \<longleftrightarrow> v = (w :: 'a::len word)"
  by (metis word_rot_lr)

lemma xor_right_inject: "v XOR c = w XOR c \<longleftrightarrow> v = (w :: 'a::len word)"
proof
  assume "v XOR c = w XOR c"
  then have "(v XOR c) XOR c = (w XOR c) XOR c" by simp
  then show "v = w" by (simp add: xor.assoc)
qed simp

lemma lsh_mix_pair_inject: "lsh_mix_pair \<alpha> \<beta> \<gamma> c p = lsh_mix_pair \<alpha> \<beta> \<gamma> c q \<longleftrightarrow> p = q"
  by (cases p; cases q) (auto simp: lsh_mix_pair_def Let_def rotl_inject xor_right_inject)

lemma lsh_step_inject:
  assumes "length V = 16" "length V' = 16" and eq: "lsh_step \<alpha> \<beta> \<gamma> c m V = lsh_step \<alpha> \<beta> \<gamma> c m V'"
  shows "V = V'"
proof -
  define P where "P V = map (\<lambda>j. lsh_mix_pair \<alpha> \<beta> (\<gamma> ! j) (c j) (V ! j XOR m j, V ! (j + 8) XOR m (j + 8))) [0..<8]"
    for V
  define Y where "Y V = map fst (P V) @ map snd (P V)" for V
  have len: "length (P V) = 8" for V by (simp add: P_def)
  have "Y V ! k = Y V' ! k" if k: "k < 16" for k
  proof -
    obtain j where "j < 16" "lsh_delta ! j = k" using lsh_delta_onto [OF k] by auto
    moreover have "map (\<lambda>j. Y V ! (lsh_delta ! j)) [0..<16] = map (\<lambda>j. Y V' ! (lsh_delta ! j)) [0..<16]"
      using eq unfolding lsh_step_def Let_def Y_def P_def .
    ultimately show ?thesis by (auto simp: list_eq_iff_nth_eq)
  qed
  note Y = this
  have pair: "(V ! j, V ! (j + 8)) = (V' ! j, V' ! (j + 8))" if j: "j < 8" for j
  proof -
    have "fst (P V ! j) = fst (P V' ! j)"
      using Y [of j] j by (simp add: Y_def nth_append len)
    moreover have "snd (P V ! j) = snd (P V' ! j)"
      using Y [of "8 + j"] j by (simp add: Y_def nth_append len)
    ultimately have "P V ! j = P V' ! j" by (rule prod_eqI)
    then show ?thesis using j by (simp add: P_def lsh_mix_pair_inject xor_right_inject)
  qed
  show ?thesis
  proof (rule nth_equalityI)
    fix k assume "k < length V"
    then have k: "k < 16" using assms by simp
    show "V ! k = V' ! k"
    proof (cases "k < 8")
      case False
      then have "k = (k - 8) + 8" "k - 8 < 8" using k by simp_all
      then show ?thesis using pair [of "k - 8"] by simp
    qed (use pair in auto)
  qed (use assms in simp)
qed

lemma fold_steps_inject:
  assumes "length V = 16" "length V' = 16"
    and "\<And>i V. length V = 16 \<Longrightarrow> length (f i V) = 16"
    and "\<And>i V V'. length V = 16 \<Longrightarrow> length V' = 16 \<Longrightarrow> f i V = f i V' \<Longrightarrow> V = V'"
    and "fold f is V = fold f is V'"
  shows "V = V'"
  using assms(1,2,5)
proof (induction "is" arbitrary: V V')
  case (Cons i "is")
  then have "f i V = f i V'" using assms(3) by (simp add: Cons.IH)
  then show ?case using assms(4) Cons.prems by blast
qed simp

lemma map_xor_inject:
  fixes V V' :: "'a::len word list"
  assumes "length V = 16" "length V' = 16"
    and "map (\<lambda>j. V ! j XOR m j) [0..<16] = map (\<lambda>j. V' ! j XOR m j) [0..<16]"
  shows "V = V'"
  using assms by (intro nth_equalityI) (auto simp: xor_right_inject)

lemma length_lsh_step [simp]: "length (lsh_step \<alpha> \<beta> \<gamma> c m V) = 16"
  by (simp add: lsh_step_def Let_def)

lemma length_fold_lsh_step:
  "length V = 16 \<Longrightarrow> length (fold (\<lambda>i. lsh_step (\<alpha> i) (\<beta> i) \<gamma> (c i) (m i)) is V) = 16"
  by (induction "is" arbitrary: V) simp_all

lemma lsh_blocks_inject:
  assumes "length V = 16" "length V' = 16"
    and "map (\<lambda>j. fold (\<lambda>i. lsh_step (\<alpha> i) (\<beta> i) \<gamma> (c i) (m i)) is V ! j XOR m' j) [0..<16] =
      map (\<lambda>j. fold (\<lambda>i. lsh_step (\<alpha> i) (\<beta> i) \<gamma> (c i) (m i)) is V' ! j XOR m' j) [0..<16]"
  shows "V = V'"
proof (rule fold_steps_inject [OF assms(1,2)])
  show "fold (\<lambda>i. lsh_step (\<alpha> i) (\<beta> i) \<gamma> (c i) (m i)) is V = fold (\<lambda>i. lsh_step (\<alpha> i) (\<beta> i) \<gamma> (c i) (m i)) is V'"
    by (rule map_xor_inject [OF _ _ assms(3)]) (simp_all add: length_fold_lsh_step assms)
qed (auto dest: lsh_step_inject)

text \<open>
  For a fixed message block the LSH compression functions are injective in the chaining
  value: no two states of sixteen words are merged, whatever the block is.
\<close>

theorem lsh_compress_injective:
  "inj_on (\<lambda>V. LSH_256_CompressBlock V block) {V. length V = 16} \<and>
   inj_on (\<lambda>V. LSH_512_CompressBlock V block') {V. length V = 16}"
  unfolding lsh_compress_blocks lsh256_block_def lsh512_block_def Let_def
  by (intro conjI inj_onI; erule lsh_blocks_inject [rotated 2]; simp)

section \<open>The incremental hash\<close>

text \<open>Finalization is the common end of a message with an empty length field.\<close>

lemma lsh_finish_block:
  assumes "used < n" "n \<le> length block"
  shows "(copy_at block used (zeroes (n - used)))[used := 0x80] = copy_at block used (lsh_pad n used)"
proof -
  have "zeroes (n - used) = [0] @ zeroes (n - 1 - used)" using assms by (simp flip: replicate_Suc)
  then show ?thesis using assms by (simp add: copy_at_def lsh_pad_def list_update_append)
qed

lemma lsh_finish:
  assumes used: "used < n" "n \<le> length block" "used = m mod n"
  shows "f core (take n ((copy_at block used (zeroes (n - used)))[used := 0x80])) =
    absorb n f core (take used block @ lsh_pad n m)"
proof -
  have "lsh_pad n used = lsh_pad n m" using used by (simp add: lsh_pad_def)
  moreover have "length (lsh_pad n m) = n - used" using used by (simp add: lsh_pad_def)
  ultimately have "take n ((copy_at block used (zeroes (n - used)))[used := 0x80]) = take used block @ lsh_pad n m"
    using used take_copy_at [of n used "lsh_pad n m" block]
    unfolding lsh_finish_block [OF used(1,2)] by simp
  moreover have "length (take used block @ lsh_pad n m) = n" using used by (simp add: lsh_pad_def)
  ultimately show ?thesis using used by (simp add: absorb_one)
qed

text \<open>What the context holds after a message, for a context of block length \<open>n\<close>.\<close>

definition lsh_absorbed :: "alg_id \<Rightarrow> crypto_lsh_context \<Rightarrow> byte list \<Rightarrow> bool" where
  "lsh_absorbed alg ctx M \<longleftrightarrow>
     (let start = snd (crypto_lsh_init alg); n = lsh_BLOCK_LENGTH start
      in lsh_USE_LSH512 ctx = lsh_USE_LSH512 start \<and> lsh_BLOCK_LENGTH ctx = n \<and>
         (if lsh_USE_LSH512 start
          then lsh_STATE64 ctx = absorb n lsh512_block (lsh_STATE64 start) M
          else lsh_STATE32 ctx = absorb n lsh256_block (lsh_STATE32 start) M) \<and>
         take (lsh_BUFFER_LENGTH ctx) (lsh_BLOCK ctx) = leftover n M \<and>
         lsh_BUFFER_LENGTH ctx < n \<and> length (lsh_BLOCK ctx) = 256)"

lemma lsh_init_start:
  "lsh_BLOCK (snd (crypto_lsh_init alg)) = zeroes 256" "lsh_BUFFER_LENGTH (snd (crypto_lsh_init alg)) = 0"
  by (simp_all add: crypto_lsh_init_def lsh256_start_def lsh512_start_def crypto_lsh_clear_def)

lemma lsh_init_block_length:
  "fst (crypto_lsh_init alg) = SUCCESS \<Longrightarrow>
    lsh_BLOCK_LENGTH (snd (crypto_lsh_init alg)) = (if lsh_USE_LSH512 (snd (crypto_lsh_init alg)) then 256 else 128)"
  by (auto simp: crypto_lsh_init_def lsh256_start_def lsh512_start_def crypto_lsh_clear_def split: if_splits)

lemma lsh_absorbed_init:
  "fst (crypto_lsh_init alg) = SUCCESS \<Longrightarrow> lsh_absorbed alg (snd (crypto_lsh_init alg)) []"
  by (simp add: lsh_absorbed_def Let_def lsh_init_start lsh_init_block_length leftover_def)

lemma lsh_update_absorbed:
  assumes alg: "fst (crypto_lsh_init alg) = SUCCESS" and a: "lsh_absorbed alg ctx M"
  shows "fst (crypto_lsh_update ctx x) = SUCCESS \<and> lsh_absorbed alg (snd (crypto_lsh_update ctx x)) (M @ x)"
proof -
  define start n where "start = snd (crypto_lsh_init alg)" and "n = lsh_BLOCK_LENGTH start"
  have n: "n = (if lsh_USE_LSH512 start then 256 else 128)" "0 < n"
    using lsh_init_block_length [OF alg] by (simp_all add: start_def n_def)
  have ctx: "lsh_USE_LSH512 ctx = lsh_USE_LSH512 start" "lsh_BLOCK_LENGTH ctx = n"
    "take (lsh_BUFFER_LENGTH ctx) (lsh_BLOCK ctx) = leftover n M"
    "lsh_BUFFER_LENGTH ctx < n" "n \<le> length (lsh_BLOCK ctx)" "length (lsh_BLOCK ctx) = 256"
    using a n by (auto simp: lsh_absorbed_def Let_def start_def n_def)
  show ?thesis
  proof (cases "lsh_USE_LSH512 start")
    case True
    obtain c b u where e: "md_update n LSH_512_CompressBlock (lsh_STATE64 ctx) (lsh_BLOCK ctx)
        (lsh_BUFFER_LENGTH ctx) x = (c, b, u)" by (metis prod_cases3)
    note r = md_update_correct [OF ctx(4,5) e]
    have "lsh_STATE64 ctx = absorb n lsh512_block (lsh_STATE64 start) M"
      using a True by (simp add: lsh_absorbed_def Let_def start_def n_def)
    then show ?thesis
      using True ctx r n e absorb_append [OF n(2), of lsh512_block "lsh_STATE64 start" M x] leftover_append [OF n(2), of M x]
      by (simp add: crypto_lsh_update_def lsh_absorbed_def Let_def lsh_compress_blocks flip: start_def n_def)
  next
    case False
    obtain c b u where e: "md_update n LSH_256_CompressBlock (lsh_STATE32 ctx) (lsh_BLOCK ctx)
        (lsh_BUFFER_LENGTH ctx) x = (c, b, u)" by (metis prod_cases3)
    note r = md_update_correct [OF ctx(4,5) e]
    have "lsh_STATE32 ctx = absorb n lsh256_block (lsh_STATE32 start) M"
      using a False by (simp add: lsh_absorbed_def Let_def start_def n_def)
    then show ?thesis
      using False ctx r n e absorb_append [OF n(2), of lsh256_block "lsh_STATE32 start" M x] leftover_append [OF n(2), of M x]
      by (simp add: crypto_lsh_update_def lsh_absorbed_def Let_def lsh_compress_blocks flip: start_def n_def)
  qed
qed

lemma lsh_squeeze_member:
  assumes "fst (crypto_lsh_init alg) = SUCCESS"
    and "if lsh_USE_LSH512 (snd (crypto_lsh_init alg)) then lsh_STATE64 c = lsh_STATE64 d else lsh_STATE32 c = lsh_STATE32 d"
  shows "crypto_lsh_squeeze c alg = crypto_lsh_squeeze d alg"
  using assms by (auto simp: crypto_lsh_squeeze_def crypto_lsh_init_def lsh256_start_def lsh512_start_def
      crypto_lsh_clear_def split: if_splits)

lemma lsh_digest:
  assumes alg: "fst (crypto_lsh_init alg) = SUCCESS" and a: "lsh_absorbed alg ctx M"
  shows "crypto_lsh_squeeze (crypto_lsh_finalize ctx) alg = lsh_hash alg M"
proof -
  define start n where "start = snd (crypto_lsh_init alg)" and "n = lsh_BLOCK_LENGTH start"
  have n: "n = (if lsh_USE_LSH512 start then 256 else 128)" "0 < n"
    using lsh_init_block_length [OF alg] by (simp_all add: start_def n_def)
  have ctx: "lsh_USE_LSH512 ctx = lsh_USE_LSH512 start" "lsh_BLOCK_LENGTH ctx = n"
    "take (lsh_BUFFER_LENGTH ctx) (lsh_BLOCK ctx) = leftover n M"
    "lsh_BUFFER_LENGTH ctx < n" "n \<le> length (lsh_BLOCK ctx)" "length (lsh_BLOCK ctx) = 256"
    using a n by (auto simp: lsh_absorbed_def Let_def start_def n_def)
  have used: "lsh_BUFFER_LENGTH ctx = length M mod n"
    using ctx(4,5) length_leftover [of n M] by (auto dest: arg_cong [of _ _ length] simp flip: ctx(3))
  have fin: "f c (take n ((copy_at (lsh_BLOCK ctx) (lsh_BUFFER_LENGTH ctx)
      (zeroes (n - lsh_BUFFER_LENGTH ctx)))[lsh_BUFFER_LENGTH ctx := 0x80])) =
      absorb n f c (leftover n M @ lsh_pad n (length M))" for f :: "'c \<Rightarrow> byte list \<Rightarrow> 'c" and c
    using lsh_finish [OF ctx(4,5) used, of f c] by (simp only: ctx(3))
  show ?thesis
  proof (cases "lsh_USE_LSH512 start")
    case True
    have "lsh_STATE64 (crypto_lsh_finalize ctx) = absorb n lsh512_block (lsh_STATE64 start) (M @ lsh_pad n (length M))"
      using a True n ctx(1,2) absorb_append [OF n(2), of lsh512_block "lsh_STATE64 start" M] fin
      by (simp add: crypto_lsh_finalize_def lsh_absorbed_def Let_def lsh_compress_blocks flip: start_def n_def)
    then show ?thesis unfolding lsh_hash_def Let_def
      by (intro lsh_squeeze_member alg) (use True in \<open>simp add: start_def n_def\<close>)
  next
    case False
    have "lsh_STATE32 (crypto_lsh_finalize ctx) = absorb n lsh256_block (lsh_STATE32 start) (M @ lsh_pad n (length M))"
      using a False n ctx(1,2) absorb_append [OF n(2), of lsh256_block "lsh_STATE32 start" M] fin
      by (simp add: crypto_lsh_finalize_def lsh_absorbed_def Let_def lsh_compress_blocks flip: start_def n_def)
    then show ?thesis unfolding lsh_hash_def Let_def
      by (intro lsh_squeeze_member alg) (use False in \<open>simp add: start_def n_def\<close>)
  qed
qed

locale lsh_variant =
  fixes alg :: alg_id
  assumes variant: "fst (crypto_lsh_init alg) = SUCCESS"
begin

sublocale incremental_hash "snd (crypto_lsh_init alg)" crypto_lsh_update
  "\<lambda>ctx. crypto_lsh_squeeze (crypto_lsh_finalize ctx) alg" "\<lambda>_. True" "lsh_hash alg" "lsh_absorbed alg"
  by unfold_locales
    (use lsh_update_absorbed [OF variant] in \<open>auto simp: lsh_absorbed_init lsh_digest variant\<close>)

lemma variant_updates:
  assumes "lsh_absorbed alg ctx M"
  shows "lsh_absorbed alg (foldl (\<lambda>s x. snd (crypto_lsh_update s x)) ctx xs) (M @ concat xs)"
  using assms
proof (induction xs arbitrary: ctx M)
  case (Cons x xs)
  from Cons.IH [of "snd (crypto_lsh_update ctx x)" "M @ x"] lsh_update_absorbed [OF variant Cons.prems, of x]
  show ?case by simp
qed simp

lemma variant_digest:
  "crypto_lsh_squeeze (crypto_lsh_finalize
      (foldl (\<lambda>s x. snd (crypto_lsh_update s x)) (snd (crypto_lsh_init alg)) xs)) alg = lsh_hash alg (concat xs)"
  using variant_updates [OF lsh_absorbed_init [OF variant], of xs] lsh_digest [OF variant] by simp

end

interpretation lsh_256_224: lsh_variant LIBERAC_ALG_HASH_LSH_256_224
  by unfold_locales (simp add: crypto_lsh_init_def)

interpretation lsh_256_256: lsh_variant LIBERAC_ALG_HASH_LSH_256_256
  by unfold_locales (simp add: crypto_lsh_init_def)

interpretation lsh_512_224: lsh_variant LIBERAC_ALG_HASH_LSH_512_224
  by unfold_locales (simp add: crypto_lsh_init_def)

interpretation lsh_512_256: lsh_variant LIBERAC_ALG_HASH_LSH_512_256
  by unfold_locales (simp add: crypto_lsh_init_def)

interpretation lsh_512_384: lsh_variant LIBERAC_ALG_HASH_LSH_512_384
  by unfold_locales (simp add: crypto_lsh_init_def)

interpretation lsh_512_512: lsh_variant LIBERAC_ALG_HASH_LSH_512_512
  by unfold_locales (simp add: crypto_lsh_init_def)



end
