(* ===== verification/Hash_Function.thy ===== *)
theory Hash_Function
  imports SHA1 SHA2 SHA3 LSH
begin

text \<open>
  The public hash interface \<^verbatim>\<open>src/HashFunction.c\<close>: the streaming object with its phases
  (absorbing, finalized, squeezing, consumed), dispatch to the four families, and the
  one-shot function. The object is refined to an abstract state machine that remembers the
  message and hashes it at the end; the four families provide the interface
  \<open>hash_algorithm\<close> the machine relies on.
\<close>

section \<open>The code\<close>

datatype crypto_hash_family =
    CRYPTO_HASH_FAMILY_NONE
  | CRYPTO_HASH_FAMILY_SHA1
  | CRYPTO_HASH_FAMILY_SHA2
  | CRYPTO_HASH_FAMILY_SHA3
  | CRYPTO_HASH_FAMILY_LSH

text \<open>The phase is a byte of the object, so a corrupted object can hold any value.\<close>

abbreviation "CRYPTO_HASH_PHASE_ABSORBING \<equiv> (1 :: nat)"
abbreviation "CRYPTO_HASH_PHASE_FINALIZED \<equiv> (2 :: nat)"
abbreviation "CRYPTO_HASH_PHASE_SQUEEZING \<equiv> (3 :: nat)"
abbreviation "CRYPTO_HASH_PHASE_CONSUMED \<equiv> (4 :: nat)"

abbreviation "CRYPTO_HASH_CONTEXT_MAGIC \<equiv> (0x43524853 :: u32)"

text \<open>The union of algorithm states; only the member of the family is ever accessed.\<close>

record crypto_hash_algorithm_state =
  hs_SHA1 :: crypto_sha1_context
  hs_SHA2 :: crypto_sha2_context
  hs_SHA3 :: crypto_sha3_context
  hs_LSH :: crypto_lsh_context

record crypto_hash_context_impl =
  hash_MAGIC :: u32
  hash_ALG :: alg_id
  hash_PHASE :: nat
  hash_STATE :: crypto_hash_algorithm_state

definition hash_state_zero :: crypto_hash_algorithm_state where
  "hash_state_zero =
     \<lparr>hs_SHA1 = \<lparr>sha1_STATE = (0, 0, 0, 0, 0), sha1_BLOCK = zeroes 64, sha1_LENGTH = 0,
        sha1_BUFFER_LENGTH = 0\<rparr>,
      hs_SHA2 = crypto_sha2_clear, hs_SHA3 = crypto_sha3_clear, hs_LSH = crypto_lsh_clear\<rparr>"

definition LIBERAC_HASH_CLEAR :: crypto_hash_context_impl where
  "LIBERAC_HASH_CLEAR = \<lparr>hash_MAGIC = 0, hash_ALG = 0, hash_PHASE = 0, hash_STATE = hash_state_zero\<rparr>"

definition hash_family :: "alg_id \<Rightarrow> crypto_hash_family" where
  "hash_family algorithm =
     (if algorithm = LIBERAC_ALG_HASH_SHA1 then CRYPTO_HASH_FAMILY_SHA1
      else if algorithm \<in> {LIBERAC_ALG_HASH_SHA2_224, LIBERAC_ALG_HASH_SHA2_256, LIBERAC_ALG_HASH_SHA2_384,
        LIBERAC_ALG_HASH_SHA2_512, LIBERAC_ALG_HASH_SHA2_512_224, LIBERAC_ALG_HASH_SHA2_512_256}
      then CRYPTO_HASH_FAMILY_SHA2
      else if algorithm \<in> {LIBERAC_ALG_HASH_SHA3_224, LIBERAC_ALG_HASH_SHA3_256, LIBERAC_ALG_HASH_SHA3_384,
        LIBERAC_ALG_HASH_SHA3_512, LIBERAC_ALG_HASH_SHAKE128, LIBERAC_ALG_HASH_SHAKE256}
      then CRYPTO_HASH_FAMILY_SHA3
      else if algorithm \<in> {LIBERAC_ALG_HASH_LSH_256_224, LIBERAC_ALG_HASH_LSH_256_256,
        LIBERAC_ALG_HASH_LSH_512_224, LIBERAC_ALG_HASH_LSH_512_256, LIBERAC_ALG_HASH_LSH_512_384,
        LIBERAC_ALG_HASH_LSH_512_512}
      then CRYPTO_HASH_FAMILY_LSH
      else CRYPTO_HASH_FAMILY_NONE)"

definition is_shake :: "alg_id \<Rightarrow> bool" where
  "is_shake algorithm \<longleftrightarrow> algorithm = LIBERAC_ALG_HASH_SHAKE128 \<or> algorithm = LIBERAC_ALG_HASH_SHAKE256"

definition fixed_digest_length :: "alg_id \<Rightarrow> nat" where
  "fixed_digest_length algorithm =
     (if algorithm = LIBERAC_ALG_HASH_SHA1 then 20
      else if algorithm \<in> {LIBERAC_ALG_HASH_SHA2_224, LIBERAC_ALG_HASH_SHA2_512_224,
        LIBERAC_ALG_HASH_LSH_256_224, LIBERAC_ALG_HASH_LSH_512_224, LIBERAC_ALG_HASH_SHA3_224} then 28
      else if algorithm \<in> {LIBERAC_ALG_HASH_SHA2_256, LIBERAC_ALG_HASH_SHA2_512_256,
        LIBERAC_ALG_HASH_LSH_256_256, LIBERAC_ALG_HASH_LSH_512_256, LIBERAC_ALG_HASH_SHA3_256} then 32
      else if algorithm \<in> {LIBERAC_ALG_HASH_SHA2_384, LIBERAC_ALG_HASH_LSH_512_384,
        LIBERAC_ALG_HASH_SHA3_384} then 48
      else if algorithm \<in> {LIBERAC_ALG_HASH_SHA2_512, LIBERAC_ALG_HASH_LSH_512_512,
        LIBERAC_ALG_HASH_SHA3_512} then 64
      else 0)"

text \<open>
  A context pointer is \<open>None\<close> when NULL; an input pointer is \<open>None\<close> when NULL and otherwise
  the bytes it points to; of an output pointer only whether it is NULL matters, and the
  operations return the bytes they write there.
\<close>

definition hash_context_load :: "crypto_hash_context_impl option \<Rightarrow> crypto_hash_context_impl option" where
  "hash_context_load context =
     (case context of
        None \<Rightarrow> None
      | Some implementation \<Rightarrow>
          if hash_MAGIC implementation \<noteq> CRYPTO_HASH_CONTEXT_MAGIC \<or>
             hash_family (hash_ALG implementation) = CRYPTO_HASH_FAMILY_NONE \<or>
             hash_PHASE implementation < CRYPTO_HASH_PHASE_ABSORBING \<or>
             CRYPTO_HASH_PHASE_CONSUMED < hash_PHASE implementation
          then None else Some implementation)"

definition LIBERAC_HASH_INIT ::
    "crypto_hash_context_impl option \<Rightarrow> alg_id \<Rightarrow> status \<times> crypto_hash_context_impl option" where
  "LIBERAC_HASH_INIT context alg =
     (case context of
        None \<Rightarrow> (INVALID_ARGUMENT, None)
      | Some _ \<Rightarrow>
          let context = LIBERAC_HASH_CLEAR;
              (error, state) =
                (case hash_family alg of
                   CRYPTO_HASH_FAMILY_SHA1 \<Rightarrow> (SUCCESS, hash_state_zero\<lparr>hs_SHA1 := crypto_sha1_init\<rparr>)
                 | CRYPTO_HASH_FAMILY_SHA2 \<Rightarrow>
                     let (error, c) = crypto_sha2_init alg in (error, hash_state_zero\<lparr>hs_SHA2 := c\<rparr>)
                 | CRYPTO_HASH_FAMILY_SHA3 \<Rightarrow>
                     let (error, c) = crypto_sha3_init alg in (error, hash_state_zero\<lparr>hs_SHA3 := c\<rparr>)
                 | CRYPTO_HASH_FAMILY_LSH \<Rightarrow>
                     let (error, c) = crypto_lsh_init alg in (error, hash_state_zero\<lparr>hs_LSH := c\<rparr>)
                 | CRYPTO_HASH_FAMILY_NONE \<Rightarrow> (INVALID_ALG_ID, hash_state_zero))
          in if error = SUCCESS
             then (SUCCESS, Some \<lparr>hash_MAGIC = CRYPTO_HASH_CONTEXT_MAGIC, hash_ALG = alg,
                     hash_PHASE = CRYPTO_HASH_PHASE_ABSORBING, hash_STATE = state\<rparr>)
             else (error, Some context))"

definition hash_state_update ::
    "alg_id \<Rightarrow> crypto_hash_algorithm_state \<Rightarrow> byte list \<Rightarrow> status \<times> crypto_hash_algorithm_state" where
  "hash_state_update alg state input =
     (case hash_family alg of
        CRYPTO_HASH_FAMILY_SHA1 \<Rightarrow>
          let (error, c) = crypto_sha1_update (hs_SHA1 state) input in (error, state\<lparr>hs_SHA1 := c\<rparr>)
      | CRYPTO_HASH_FAMILY_SHA2 \<Rightarrow>
          let (error, c) = crypto_sha2_update (hs_SHA2 state) input in (error, state\<lparr>hs_SHA2 := c\<rparr>)
      | CRYPTO_HASH_FAMILY_SHA3 \<Rightarrow>
          (SUCCESS, state\<lparr>hs_SHA3 := crypto_sha3_update (hs_SHA3 state) input\<rparr>)
      | CRYPTO_HASH_FAMILY_LSH \<Rightarrow>
          let (error, c) = crypto_lsh_update (hs_LSH state) input in (error, state\<lparr>hs_LSH := c\<rparr>)
      | CRYPTO_HASH_FAMILY_NONE \<Rightarrow> (INVALID_ARGUMENT, state))"

definition LIBERAC_HASH_UPDATE ::
    "crypto_hash_context_impl option \<Rightarrow> byte list option \<Rightarrow> nat \<Rightarrow> status \<times> crypto_hash_context_impl option" where
  "LIBERAC_HASH_UPDATE context input input_length =
     (if input = None \<and> input_length \<noteq> 0 then (INVALID_ARGUMENT, context)
      else case hash_context_load context of
        None \<Rightarrow> (INVALID_ARGUMENT, context)
      | Some implementation \<Rightarrow>
          if hash_PHASE implementation \<noteq> CRYPTO_HASH_PHASE_ABSORBING then (INVALID_ARGUMENT, context)
          else let (error, state) = hash_state_update (hash_ALG implementation) (hash_STATE implementation)
                     (case input of None \<Rightarrow> [] | Some b \<Rightarrow> take input_length b)
            in if error = SUCCESS then (SUCCESS, Some (implementation\<lparr>hash_STATE := state\<rparr>))
               else (error, context))"

definition LIBERAC_HASH_FINALIZE ::
    "crypto_hash_context_impl option \<Rightarrow> status \<times> crypto_hash_context_impl option" where
  "LIBERAC_HASH_FINALIZE context =
     (case hash_context_load context of
        None \<Rightarrow> (INVALID_ARGUMENT, context)
      | Some implementation \<Rightarrow>
          if hash_PHASE implementation \<noteq> CRYPTO_HASH_PHASE_ABSORBING then (INVALID_ARGUMENT, context)
          else let state = hash_STATE implementation;
                   done = implementation\<lparr>hash_PHASE := CRYPTO_HASH_PHASE_FINALIZED\<rparr>
            in (case hash_family (hash_ALG implementation) of
                  CRYPTO_HASH_FAMILY_SHA1 \<Rightarrow>
                    (SUCCESS, Some (done\<lparr>hash_STATE := state\<lparr>hs_SHA1 := crypto_sha1_finalize (hs_SHA1 state)\<rparr>\<rparr>))
                | CRYPTO_HASH_FAMILY_SHA2 \<Rightarrow>
                    (SUCCESS, Some (done\<lparr>hash_STATE := state\<lparr>hs_SHA2 := crypto_sha2_finalize (hs_SHA2 state)\<rparr>\<rparr>))
                | CRYPTO_HASH_FAMILY_SHA3 \<Rightarrow>
                    (SUCCESS, Some (done\<lparr>hash_STATE := state\<lparr>hs_SHA3 := crypto_sha3_finalize (hs_SHA3 state)\<rparr>\<rparr>))
                | CRYPTO_HASH_FAMILY_LSH \<Rightarrow>
                    (SUCCESS, Some (done\<lparr>hash_STATE := state\<lparr>hs_LSH := crypto_lsh_finalize (hs_LSH state)\<rparr>\<rparr>))
                | CRYPTO_HASH_FAMILY_NONE \<Rightarrow> (INVALID_ARGUMENT, context)))"

definition LIBERAC_HASH_SQUEEZE ::
    "crypto_hash_context_impl option \<Rightarrow> bool \<Rightarrow> nat \<Rightarrow> status \<times> byte list \<times> crypto_hash_context_impl option" where
  "LIBERAC_HASH_SQUEEZE context output_null output_length =
     (if output_null \<and> output_length \<noteq> 0 then (INVALID_ARGUMENT, [], context)
      else case hash_context_load context of
        None \<Rightarrow> (INVALID_ARGUMENT, [], context)
      | Some implementation \<Rightarrow>
          let alg = hash_ALG implementation; state = hash_STATE implementation in
          if is_shake alg then
            if hash_PHASE implementation \<noteq> CRYPTO_HASH_PHASE_FINALIZED \<and>
               hash_PHASE implementation \<noteq> CRYPTO_HASH_PHASE_SQUEEZING
            then (INVALID_ARGUMENT, [], context)
            else let (output, c) = crypto_sha3_squeeze (hs_SHA3 state) output_length
              in (SUCCESS, output, Some (implementation\<lparr>hash_STATE := state\<lparr>hs_SHA3 := c\<rparr>,
                    hash_PHASE := CRYPTO_HASH_PHASE_SQUEEZING\<rparr>))
          else if hash_PHASE implementation \<noteq> CRYPTO_HASH_PHASE_FINALIZED then (INVALID_ARGUMENT, [], context)
          else let digest_length = fixed_digest_length alg in
            if output_length < digest_length then (BUFFER_TOO_SMALL, [], context)
            else if output_null then (INVALID_ARGUMENT, [], context)
            else let consumed = Some (implementation\<lparr>hash_STATE := hash_state_zero,
                   hash_PHASE := CRYPTO_HASH_PHASE_CONSUMED\<rparr>)
              in (case hash_family alg of
                    CRYPTO_HASH_FAMILY_SHA1 \<Rightarrow> (SUCCESS, crypto_sha1_squeeze (hs_SHA1 state), consumed)
                  | CRYPTO_HASH_FAMILY_SHA2 \<Rightarrow> (SUCCESS, crypto_sha2_squeeze (hs_SHA2 state) alg, consumed)
                  | CRYPTO_HASH_FAMILY_SHA3 \<Rightarrow>
                      (SUCCESS, fst (crypto_sha3_squeeze (hs_SHA3 state) digest_length), consumed)
                  | CRYPTO_HASH_FAMILY_LSH \<Rightarrow> (SUCCESS, crypto_lsh_squeeze (hs_LSH state) alg, consumed)
                  | CRYPTO_HASH_FAMILY_NONE \<Rightarrow> (INVALID_ARGUMENT, [], context)))"

definition LIBERAC_HASH ::
    "bool \<Rightarrow> nat \<Rightarrow> byte list option \<Rightarrow> nat \<Rightarrow> alg_id \<Rightarrow> status \<times> byte list" where
  "LIBERAC_HASH output_null output_length input input_length alg =
     (let digest_length = fixed_digest_length alg in
      if (input = None \<and> input_length \<noteq> 0) \<or> (output_null \<and> output_length \<noteq> 0) then (INVALID_ARGUMENT, [])
      else if \<not> is_shake alg \<and> digest_length = 0 then (INVALID_ALG_ID, [])
      else if \<not> is_shake alg \<and> output_length < digest_length then (BUFFER_TOO_SMALL, [])
      else
        let (error, context) = LIBERAC_HASH_INIT (Some LIBERAC_HASH_CLEAR) alg;
            (error, context) = (if error = SUCCESS then LIBERAC_HASH_UPDATE context input input_length
                                else (error, context));
            (error, context) = (if error = SUCCESS then LIBERAC_HASH_FINALIZE context else (error, context))
        in if error = SUCCESS
           then let (error, output, context) = LIBERAC_HASH_SQUEEZE context output_null output_length
             in (error, output)
           else (error, []))"

section \<open>The abstract machine\<close>

text \<open>
  The promise of the interface: an object is closed, or it has absorbed a message, or the
  message is complete and its digest (or, for SHAKE, the stream from some position on) can be
  read. The machine knows nothing of blocks, counters, families or phases' encodings.
\<close>

datatype hash_machine =
    Closed
  | Absorbing alg_id "byte list"
  | Finalized alg_id "byte list"
  | Squeezing alg_id "byte list" nat
  | Consumed alg_id

datatype hash_op =
    HInit alg_id
  | HUpdate "byte list option" nat
  | HFinalize
  | HSqueeze bool nat
  | HClear

definition hash_fits :: "alg_id \<Rightarrow> nat \<Rightarrow> bool" where
  "hash_fits alg n \<longleftrightarrow>
     (case hash_family alg of
        CRYPTO_HASH_FAMILY_SHA1 \<Rightarrow> sha1_fits n
      | CRYPTO_HASH_FAMILY_SHA2 \<Rightarrow> sha2_fits alg n
      | _ \<Rightarrow> True)"

definition hash_value :: "alg_id \<Rightarrow> byte list \<Rightarrow> byte list" where
  "hash_value alg M =
     (case hash_family alg of
        CRYPTO_HASH_FAMILY_SHA1 \<Rightarrow> fips_sha1 M
      | CRYPTO_HASH_FAMILY_SHA2 \<Rightarrow> fips_sha2 alg M
      | CRYPTO_HASH_FAMILY_SHA3 \<Rightarrow> fips_sha3 alg (fixed_digest_length alg) M
      | CRYPTO_HASH_FAMILY_LSH \<Rightarrow> lsh_hash alg M
      | CRYPTO_HASH_FAMILY_NONE \<Rightarrow> [])"

definition input_bytes :: "byte list option \<Rightarrow> nat \<Rightarrow> byte list" where
  "input_bytes input n = (case input of None \<Rightarrow> [] | Some b \<Rightarrow> take n b)"

fun hash_machine_step :: "hash_op \<Rightarrow> hash_machine \<Rightarrow> (status \<times> byte list) \<times> hash_machine" where
  "hash_machine_step (HInit alg) s =
     (if hash_family alg = CRYPTO_HASH_FAMILY_NONE then ((INVALID_ALG_ID, []), Closed)
      else ((SUCCESS, []), Absorbing alg []))"
| "hash_machine_step (HUpdate input n) (Absorbing alg M) =
     (if input = None \<and> n \<noteq> 0 then ((INVALID_ARGUMENT, []), Absorbing alg M)
      else if hash_fits alg (length M + length (input_bytes input n))
      then ((SUCCESS, []), Absorbing alg (M @ input_bytes input n))
      else ((MESSAGE_TOO_LARGE, []), Absorbing alg M))"
| "hash_machine_step HFinalize (Absorbing alg M) = ((SUCCESS, []), Finalized alg M)"
| "hash_machine_step (HSqueeze output_null n) (Finalized alg M) =
     (if output_null \<and> n \<noteq> 0 then ((INVALID_ARGUMENT, []), Finalized alg M)
      else if is_shake alg then ((SUCCESS, fips_sha3 alg n M), Squeezing alg M n)
      else if n < fixed_digest_length alg then ((BUFFER_TOO_SMALL, []), Finalized alg M)
      else ((SUCCESS, hash_value alg M), Consumed alg))"
| "hash_machine_step (HSqueeze output_null n) (Squeezing alg M j) =
     (if output_null \<and> n \<noteq> 0 then ((INVALID_ARGUMENT, []), Squeezing alg M j)
      else ((SUCCESS, drop j (fips_sha3 alg (j + n) M)), Squeezing alg M (j + n)))"
| "hash_machine_step HClear s = ((SUCCESS, []), Closed)"
| "hash_machine_step _ s = ((INVALID_ARGUMENT, []), s)"

text \<open>The same operations on the object of the code.\<close>

definition hash_object_step ::
    "hash_op \<Rightarrow> crypto_hash_context_impl \<Rightarrow> (status \<times> byte list) \<times> crypto_hash_context_impl" where
  "hash_object_step op c =
     (case op of
        HInit alg \<Rightarrow> let (error, d) = LIBERAC_HASH_INIT (Some c) alg in ((error, []), the d)
      | HUpdate input n \<Rightarrow> let (error, d) = LIBERAC_HASH_UPDATE (Some c) input n in ((error, []), the d)
      | HFinalize \<Rightarrow> let (error, d) = LIBERAC_HASH_FINALIZE (Some c) in ((error, []), the d)
      | HSqueeze output_null n \<Rightarrow>
          let (error, output, d) = LIBERAC_HASH_SQUEEZE (Some c) output_null n in ((error, output), the d)
      | HClear \<Rightarrow> ((SUCCESS, []), LIBERAC_HASH_CLEAR))"

text \<open>The results of a sequence of operations.\<close>

primrec run_ops :: "('op \<Rightarrow> 's \<Rightarrow> 'r \<times> 's) \<Rightarrow> 'op list \<Rightarrow> 's \<Rightarrow> 'r list" where
  "run_ops step [] s = []"
| "run_ops step (op # ops) s = (let (r, s) = step op s in r # run_ops step ops s)"

section \<open>The families\<close>

definition hash_absorbed :: "alg_id \<Rightarrow> crypto_hash_algorithm_state \<Rightarrow> byte list \<Rightarrow> bool" where
  "hash_absorbed alg st M \<longleftrightarrow>
     (case hash_family alg of
        CRYPTO_HASH_FAMILY_SHA1 \<Rightarrow> sha1_absorbed (hs_SHA1 st) M
      | CRYPTO_HASH_FAMILY_SHA2 \<Rightarrow> sha2_absorbed alg (hs_SHA2 st) M
      | CRYPTO_HASH_FAMILY_SHA3 \<Rightarrow> sha3_state_of (sha3_rate alg) (sha3_domain alg) (hs_SHA3 st) M
      | CRYPTO_HASH_FAMILY_LSH \<Rightarrow> lsh_absorbed alg (hs_LSH st) M
      | CRYPTO_HASH_FAMILY_NONE \<Rightarrow> False)"

definition sha3_sponge :: "alg_id \<Rightarrow> byte list \<Rightarrow> byte list" where
  "sha3_sponge alg M = fips_absorb (sha3_rate alg) (M @ fips_pad (sha3_rate alg) (sha3_domain alg) (length M))"

definition hash_finalized :: "alg_id \<Rightarrow> crypto_hash_algorithm_state \<Rightarrow> byte list \<Rightarrow> bool" where
  "hash_finalized alg st M \<longleftrightarrow>
     (case hash_family alg of
        CRYPTO_HASH_FAMILY_SHA1 \<Rightarrow> crypto_sha1_squeeze (hs_SHA1 st) = fips_sha1 M
      | CRYPTO_HASH_FAMILY_SHA2 \<Rightarrow> crypto_sha2_squeeze (hs_SHA2 st) alg = fips_sha2 alg M
      | CRYPTO_HASH_FAMILY_SHA3 \<Rightarrow> sha3_squeezed (sha3_rate alg) (sha3_sponge alg M) 0 (hs_SHA3 st)
      | CRYPTO_HASH_FAMILY_LSH \<Rightarrow> crypto_lsh_squeeze (hs_LSH st) alg = lsh_hash alg M
      | CRYPTO_HASH_FAMILY_NONE \<Rightarrow> False)"

lemma hash_family_init:
  "hash_family alg = CRYPTO_HASH_FAMILY_SHA2 \<Longrightarrow> fst (crypto_sha2_init alg) = SUCCESS"
  "hash_family alg = CRYPTO_HASH_FAMILY_SHA3 \<Longrightarrow> fst (crypto_sha3_init alg) = SUCCESS"
  "hash_family alg = CRYPTO_HASH_FAMILY_LSH \<Longrightarrow> fst (crypto_lsh_init alg) = SUCCESS"
  by (auto simp: hash_family_def crypto_sha2_init_def crypto_sha3_init_def crypto_lsh_init_def split: if_splits)

lemma shake_family: "is_shake alg \<Longrightarrow> hash_family alg = CRYPTO_HASH_FAMILY_SHA3"
  by (auto simp: is_shake_def hash_family_def)

lemma fixed_digest_length_pos:
  "hash_family alg \<noteq> CRYPTO_HASH_FAMILY_NONE \<Longrightarrow> \<not> is_shake alg \<Longrightarrow> 0 < fixed_digest_length alg"
  by (auto simp: is_shake_def hash_family_def fixed_digest_length_def split: if_splits)

lemma hash_state_update_absorbed:
  assumes "hash_absorbed alg st M" and "length x < 2 ^ 64"
  shows "if hash_fits alg (length M + length x)
    then fst (hash_state_update alg st x) = SUCCESS \<and> hash_absorbed alg (snd (hash_state_update alg st x)) (M @ x)
    else fst (hash_state_update alg st x) = MESSAGE_TOO_LARGE"
proof (cases "hash_family alg")
  case CRYPTO_HASH_FAMILY_SHA1
  then show ?thesis
    using assms sha1.update_fits [of "hs_SHA1 st" M x] sha1.update_large [of "hs_SHA1 st" M x]
    by (simp add: hash_state_update_def hash_absorbed_def hash_fits_def case_prod_beta)
next
  case CRYPTO_HASH_FAMILY_SHA2
  then show ?thesis
    using assms sha2.update_fits [of alg "hs_SHA2 st" M x] sha2.update_large [of alg "hs_SHA2 st" M x]
    by (simp add: hash_state_update_def hash_absorbed_def hash_fits_def case_prod_beta)
next
  case CRYPTO_HASH_FAMILY_SHA3
  then show ?thesis
    using assms sha3_update_state_of [OF _ sha3_rate_bounds [OF hash_family_init(2)], of alg]
    by (simp add: hash_state_update_def hash_absorbed_def hash_fits_def)
next
  case CRYPTO_HASH_FAMILY_LSH
  then show ?thesis
    using assms lsh_update_absorbed [OF hash_family_init(3), of alg]
    by (simp add: hash_state_update_def hash_absorbed_def hash_fits_def case_prod_beta)
qed (use assms in \<open>simp add: hash_absorbed_def\<close>)

section \<open>The refinement\<close>

text \<open>An object of the algorithm that \<^verbatim>\<open>hash_context_load\<close> accepts.\<close>

definition hash_live :: "crypto_hash_context_impl \<Rightarrow> alg_id \<Rightarrow> bool" where
  "hash_live c alg \<longleftrightarrow> hash_MAGIC c = CRYPTO_HASH_CONTEXT_MAGIC \<and> hash_ALG c = alg \<and>
     hash_family alg \<noteq> CRYPTO_HASH_FAMILY_NONE \<and> 1 \<le> hash_PHASE c \<and> hash_PHASE c \<le> 4"

lemma hash_live_load:
  "hash_live c alg \<Longrightarrow> hash_context_load (Some c) = Some c \<and> hash_ALG c = alg"
  by (simp add: hash_live_def hash_context_load_def)

definition hash_rel :: "crypto_hash_context_impl \<Rightarrow> hash_machine \<Rightarrow> bool" where
  "hash_rel c s \<longleftrightarrow>
     (case s of
        Closed \<Rightarrow> hash_context_load (Some c) = None
      | Absorbing alg M \<Rightarrow> hash_live c alg \<and>
          hash_PHASE c = CRYPTO_HASH_PHASE_ABSORBING \<and> hash_absorbed alg (hash_STATE c) M
      | Finalized alg M \<Rightarrow> hash_live c alg \<and>
          hash_PHASE c = CRYPTO_HASH_PHASE_FINALIZED \<and> hash_finalized alg (hash_STATE c) M
      | Squeezing alg M j \<Rightarrow> hash_live c alg \<and> is_shake alg \<and>
          hash_PHASE c = CRYPTO_HASH_PHASE_SQUEEZING \<and>
          sha3_squeezed (sha3_rate alg) (sha3_sponge alg M) j (hs_SHA3 (hash_STATE c))
      | Consumed alg \<Rightarrow> hash_live c alg \<and> \<not> is_shake alg \<and>
          hash_PHASE c = CRYPTO_HASH_PHASE_CONSUMED)"

lemma hash_rel_load: "hash_rel c s \<Longrightarrow> hash_context_load (Some c) = (if s = Closed then None else Some c)"
  using hash_live_load by (cases s) (auto simp: hash_rel_def)

lemma hash_clear_rel: "hash_rel LIBERAC_HASH_CLEAR Closed"
  by (simp add: hash_rel_def hash_context_load_def LIBERAC_HASH_CLEAR_def)

text \<open>One step of the object against one step of the machine.\<close>

abbreviation step_refines ::
    "(status \<times> byte list) \<times> crypto_hash_context_impl \<Rightarrow> (status \<times> byte list) \<times> hash_machine \<Rightarrow> bool" where
  "step_refines r a \<equiv> fst r = fst a \<and> hash_rel (snd r) (snd a)"

lemma hash_init_refines:
  "step_refines (hash_object_step (HInit alg) c) (hash_machine_step (HInit alg) s)"
proof (cases "hash_family alg")
  case CRYPTO_HASH_FAMILY_NONE
  then show ?thesis
    using hash_clear_rel by (simp add: hash_object_step_def LIBERAC_HASH_INIT_def)
next
  case CRYPTO_HASH_FAMILY_SHA1
  then show ?thesis
    using sha1.absorbed_start
    by (simp add: hash_object_step_def LIBERAC_HASH_INIT_def hash_rel_def hash_live_def hash_absorbed_def)
next
  case CRYPTO_HASH_FAMILY_SHA2
  then show ?thesis
    using sha2.absorbed_start [of alg] hash_family_init(1)
    by (simp add: hash_object_step_def LIBERAC_HASH_INIT_def hash_rel_def hash_live_def hash_absorbed_def
        case_prod_beta)
next
  case CRYPTO_HASH_FAMILY_SHA3
  then show ?thesis
    using sha3_state_of_init hash_family_init(2) sha3_init_context
    by (simp add: hash_object_step_def LIBERAC_HASH_INIT_def hash_rel_def hash_live_def hash_absorbed_def
        case_prod_beta)
next
  case CRYPTO_HASH_FAMILY_LSH
  then show ?thesis
    using lsh_absorbed_init hash_family_init(3)
    by (simp add: hash_object_step_def LIBERAC_HASH_INIT_def hash_rel_def hash_live_def hash_absorbed_def
        case_prod_beta)
qed

lemma hash_update_refines:
  assumes rel: "hash_rel c s" and n: "n < 2 ^ 64"
  shows "step_refines (hash_object_step (HUpdate input n) c) (hash_machine_step (HUpdate input n) s)"
proof (cases s)
  case (Absorbing alg M)
  have len: "length (input_bytes input n) < 2 ^ 64"
    using n by (auto simp: input_bytes_def split: option.splits)
  have c: "hash_live c alg" "hash_context_load (Some c) = Some c" "hash_ALG c = alg" "hash_PHASE c = 1"
    "hash_absorbed alg (hash_STATE c) M"
    using rel Absorbing hash_live_load [of c alg] by (auto simp: hash_rel_def)
  show ?thesis
  proof (cases "input = None \<and> n \<noteq> 0")
    case False
    then show ?thesis
      using c rel Absorbing hash_state_update_absorbed [OF c(5) len]
      by (auto simp: hash_object_step_def LIBERAC_HASH_UPDATE_def case_prod_beta hash_rel_def
          hash_live_def input_bytes_def [symmetric] split: if_splits)
  qed (use rel Absorbing in \<open>simp add: hash_object_step_def LIBERAC_HASH_UPDATE_def\<close>)
qed (use rel hash_rel_load [OF rel] in \<open>auto simp: hash_object_step_def LIBERAC_HASH_UPDATE_def hash_rel_def\<close>)

lemma hash_finalize_absorbed:
  assumes "hash_absorbed alg st M"
  shows "hash_family alg = CRYPTO_HASH_FAMILY_SHA1 \<Longrightarrow>
      hash_finalized alg (st\<lparr>hs_SHA1 := crypto_sha1_finalize (hs_SHA1 st)\<rparr>) M"
    and "hash_family alg = CRYPTO_HASH_FAMILY_SHA2 \<Longrightarrow>
      hash_finalized alg (st\<lparr>hs_SHA2 := crypto_sha2_finalize (hs_SHA2 st)\<rparr>) M"
    and "hash_family alg = CRYPTO_HASH_FAMILY_SHA3 \<Longrightarrow>
      hash_finalized alg (st\<lparr>hs_SHA3 := crypto_sha3_finalize (hs_SHA3 st)\<rparr>) M"
    and "hash_family alg = CRYPTO_HASH_FAMILY_LSH \<Longrightarrow>
      hash_finalized alg (st\<lparr>hs_LSH := crypto_lsh_finalize (hs_LSH st)\<rparr>) M"
  using assms sha1.digest_spec sha2.digest_spec sha3_finalize_squeezed sha3_rate_bounds lsh_digest hash_family_init
  by (simp_all add: hash_absorbed_def hash_finalized_def sha3_sponge_def)

lemma hash_finalize_refines:
  assumes rel: "hash_rel c s"
  shows "step_refines (hash_object_step HFinalize c) (hash_machine_step HFinalize s)"
proof (cases s)
  case (Absorbing alg M)
  have c: "hash_live c alg" "hash_context_load (Some c) = Some c" "hash_ALG c = alg" "hash_PHASE c = 1"
    "hash_absorbed alg (hash_STATE c) M" "hash_family alg \<noteq> CRYPTO_HASH_FAMILY_NONE"
    using rel Absorbing hash_live_load [of c alg] by (auto simp: hash_rel_def hash_live_def)
  show ?thesis
    using c Absorbing hash_finalize_absorbed [OF c(5)]
    by (cases "hash_family alg")
      (simp_all add: hash_object_step_def LIBERAC_HASH_FINALIZE_def hash_rel_def hash_live_def Let_def)
qed (use rel hash_rel_load [OF rel] in \<open>auto simp: hash_object_step_def LIBERAC_HASH_FINALIZE_def hash_rel_def\<close>)

lemma sha3_squeeze_finalized:
  assumes "sha3_squeezed r S j ctx" and "0 < r" "r \<le> 200"
  shows "fst (crypto_sha3_squeeze ctx n) = map (fips_stream r S) [j..<j + n]"
    and "sha3_squeezed r S (j + n) (snd (crypto_sha3_squeeze ctx n))"
proof -
  have "crypto_sha3_finalize ctx = ctx"
    using assms(1) by (simp add: crypto_sha3_finalize_def sha3_squeezed_def)
  then show "fst (crypto_sha3_squeeze ctx n) = map (fips_stream r S) [j..<j + n]"
    "sha3_squeezed r S (j + n) (snd (crypto_sha3_squeeze ctx n))"
    using sha3_squeeze_bytes_correct [OF assms(2,3,1), of n] by (simp_all add: crypto_sha3_squeeze_def)
qed

lemma fips_sha3_stream:
  "fips_sha3 alg n M = map (fips_stream (sha3_rate alg) (sha3_sponge alg M)) [0..<n]"
  "drop j (fips_sha3 alg (j + n) M) = map (fips_stream (sha3_rate alg) (sha3_sponge alg M)) [j..<j + n]"
  by (simp_all add: fips_sha3_def fips_sponge_def sha3_sponge_def drop_map)

lemma hash_finalized_value:
  assumes "hash_finalized alg st M"
  shows "hash_family alg = CRYPTO_HASH_FAMILY_SHA1 \<Longrightarrow> crypto_sha1_squeeze (hs_SHA1 st) = hash_value alg M"
    and "hash_family alg = CRYPTO_HASH_FAMILY_SHA2 \<Longrightarrow> crypto_sha2_squeeze (hs_SHA2 st) alg = hash_value alg M"
    and "hash_family alg = CRYPTO_HASH_FAMILY_SHA3 \<Longrightarrow>
      fst (crypto_sha3_squeeze (hs_SHA3 st) (fixed_digest_length alg)) = hash_value alg M"
    and "hash_family alg = CRYPTO_HASH_FAMILY_LSH \<Longrightarrow> crypto_lsh_squeeze (hs_LSH st) alg = hash_value alg M"
  using assms sha3_squeeze_finalized(1) [of "sha3_rate alg" "sha3_sponge alg M" 0 "hs_SHA3 st"]
    sha3_rate_bounds [OF hash_family_init(2)]
  by (simp_all add: hash_finalized_def hash_value_def fips_sha3_stream)

lemma hash_squeeze_refines:
  assumes rel: "hash_rel c s"
  shows "step_refines (hash_object_step (HSqueeze output_null n) c) (hash_machine_step (HSqueeze output_null n) s)"
proof (cases s)
  case (Finalized alg M)
  have c: "hash_live c alg" "hash_context_load (Some c) = Some c" "hash_ALG c = alg" "hash_PHASE c = 2"
    "hash_finalized alg (hash_STATE c) M" "hash_family alg \<noteq> CRYPTO_HASH_FAMILY_NONE"
    using rel Finalized hash_live_load [of c alg] by (auto simp: hash_rel_def hash_live_def)
  show ?thesis
  proof (cases "is_shake alg")
    case True
    have "sha3_squeezed (sha3_rate alg) (sha3_sponge alg M) 0 (hs_SHA3 (hash_STATE c))"
      using c(5) shake_family [OF True] by (simp add: hash_finalized_def)
    note q = sha3_squeeze_finalized [OF this sha3_rate_bounds [OF hash_family_init(2) [OF shake_family [OF True]]], of n]
    show ?thesis
      using True c(1-4) rel q Finalized shake_family [OF True]
      by (simp add: hash_object_step_def LIBERAC_HASH_SQUEEZE_def case_prod_beta Let_def hash_rel_def
          hash_live_def fips_sha3_stream drop_map)
  next
    case False
    then show ?thesis
      using c rel Finalized hash_finalized_value [OF c(5)] fixed_digest_length_pos [OF c(6) False]
      by (cases "hash_family alg")
        (auto simp: hash_object_step_def LIBERAC_HASH_SQUEEZE_def Let_def hash_rel_def hash_live_def)
  qed
next
  case (Squeezing alg M j)
  have c: "hash_live c alg" "hash_context_load (Some c) = Some c" "hash_ALG c = alg" "hash_PHASE c = 3" "is_shake alg"
    "sha3_squeezed (sha3_rate alg) (sha3_sponge alg M) j (hs_SHA3 (hash_STATE c))"
    using rel Squeezing hash_live_load [of c alg] by (auto simp: hash_rel_def)
  note q = sha3_squeeze_finalized [OF c(6) sha3_rate_bounds [OF hash_family_init(2) [OF shake_family [OF c(5)]]], of n]
  show ?thesis
    using c(1-5) rel q Squeezing shake_family [OF c(5)]
    by (simp add: hash_object_step_def LIBERAC_HASH_SQUEEZE_def case_prod_beta Let_def hash_rel_def
        hash_live_def fips_sha3_stream drop_map)
next
  case (Absorbing alg M)
  then show ?thesis using rel hash_rel_load [OF rel]
    by (auto simp: hash_object_step_def LIBERAC_HASH_SQUEEZE_def hash_rel_def Let_def)
next
  case (Consumed alg)
  then show ?thesis using rel hash_rel_load [OF rel]
    by (auto simp: hash_object_step_def LIBERAC_HASH_SQUEEZE_def hash_rel_def Let_def)
qed (use rel in \<open>auto simp: hash_object_step_def LIBERAC_HASH_SQUEEZE_def hash_rel_def\<close>)

text \<open>An operation whose input length a 64-bit \<^verbatim>\<open>size_t\<close> holds.\<close>

definition hash_op_ok :: "hash_op \<Rightarrow> bool" where
  "hash_op_ok op = (case op of HUpdate input n \<Rightarrow> n < 2 ^ 64 | _ \<Rightarrow> True)"

lemma hash_step_refines:
  assumes "hash_rel c s" and "hash_op_ok op"
  shows "step_refines (hash_object_step op c) (hash_machine_step op s)"
proof (cases op)
  case HClear
  then show ?thesis using hash_clear_rel by (simp add: hash_object_step_def)
qed (use assms hash_init_refines hash_update_refines hash_finalize_refines hash_squeeze_refines in
    \<open>simp_all add: hash_op_ok_def\<close>)

text \<open>
  C17. The hash object refines the abstract machine: for every sequence of init, update,
  finalize, squeeze and clear calls on a cleared object, in any order and with any
  arguments, each call returns the status and writes the bytes the machine does; so misuse
  is refused as the machine refuses it, and each digest or XOF output is that of the whole
  message absorbed since the last init.
\<close>

theorem hash_object_refines:
  assumes "\<forall>op \<in> set ops. hash_op_ok op"
  shows "run_ops hash_object_step ops LIBERAC_HASH_CLEAR = run_ops hash_machine_step ops Closed"
proof -
  have "run_ops hash_object_step ops c = run_ops hash_machine_step ops s" if "hash_rel c s" for c s
    using assms that
  proof (induction ops arbitrary: c s)
    case (Cons op ops)
    then have "step_refines (hash_object_step op c) (hash_machine_step op s)"
      by (intro hash_step_refines) simp_all
    then show ?case using Cons by (simp add: case_prod_beta)
  qed simp
  then show ?thesis using hash_clear_rel by blast
qed

lemma hash_object_refines_witness:
  "run_ops hash_object_step [HInit LIBERAC_ALG_HASH_SHAKE128, HUpdate (Some [0x61]) 1, HSqueeze False 3,
      HFinalize, HSqueeze False 200, HUpdate None 0, HSqueeze False 5, HInit 7, HFinalize] LIBERAC_HASH_CLEAR =
    run_ops hash_machine_step [HInit LIBERAC_ALG_HASH_SHAKE128, HUpdate (Some [0x61]) 1, HSqueeze False 3,
      HFinalize, HSqueeze False 200, HUpdate None 0, HSqueeze False 5, HInit 7, HFinalize] Closed"
  by (rule hash_object_refines) (simp add: hash_op_ok_def)

section \<open>Sessions\<close>

text \<open>The calls of a session one by one, as the MAC functions make them.\<close>

lemma hash_init_ok:
  assumes "hash_family alg \<noteq> CRYPTO_HASH_FAMILY_NONE"
  obtains c where "LIBERAC_HASH_INIT (Some d) alg = (SUCCESS, Some c)" and "hash_rel c (Absorbing alg [])"
proof -
  have "snd (LIBERAC_HASH_INIT (Some d) alg) \<noteq> None"
    by (simp add: LIBERAC_HASH_INIT_def case_prod_beta Let_def)
  then obtain e c where "LIBERAC_HASH_INIT (Some d) alg = (e, Some c)" by (metis option.exhaust prod.collapse)
  then show ?thesis
    using that hash_init_refines [of alg d Closed] assms by (simp add: hash_object_step_def)
qed

lemma hash_update_ok:
  assumes "hash_rel c (Absorbing alg M)" and "n < 2 ^ 64" and "\<not> (input = None \<and> n \<noteq> 0)"
    and "hash_fits alg (length M + length (input_bytes input n))"
  obtains c' where "LIBERAC_HASH_UPDATE (Some c) input n = (SUCCESS, Some c')"
    and "hash_rel c' (Absorbing alg (M @ input_bytes input n))"
proof -
  have "snd (LIBERAC_HASH_UPDATE (Some c) input n) \<noteq> None"
    by (auto simp: LIBERAC_HASH_UPDATE_def case_prod_beta Let_def split: option.split)
  then obtain e c' where "LIBERAC_HASH_UPDATE (Some c) input n = (e, Some c')"
    by (metis option.exhaust prod.collapse)
  then show ?thesis
    using that hash_update_refines [OF assms(1,2), of input] assms(3,4) by (auto simp: hash_object_step_def)
qed

lemma hash_update_large:
  assumes "hash_rel c (Absorbing alg M)" and "n < 2 ^ 64" and "\<not> (input = None \<and> n \<noteq> 0)"
    and "\<not> hash_fits alg (length M + length (input_bytes input n))"
  shows "fst (LIBERAC_HASH_UPDATE (Some c) input n) = MESSAGE_TOO_LARGE"
  using hash_update_refines [OF assms(1,2), of input] assms(3,4)
  by (auto simp: hash_object_step_def case_prod_beta)

lemma hash_finalize_ok:
  assumes "hash_rel c (Absorbing alg M)"
  obtains c' where "LIBERAC_HASH_FINALIZE (Some c) = (SUCCESS, Some c')" and "hash_rel c' (Finalized alg M)"
proof -
  have "snd (LIBERAC_HASH_FINALIZE (Some c)) \<noteq> None"
    by (auto simp: LIBERAC_HASH_FINALIZE_def Let_def split: option.split crypto_hash_family.split)
  then obtain e c' where "LIBERAC_HASH_FINALIZE (Some c) = (e, Some c')" by (metis option.exhaust prod.collapse)
  then show ?thesis
    using that hash_finalize_refines [OF assms] by (simp add: hash_object_step_def)
qed

lemma hash_squeeze_ok:
  assumes "hash_rel c (Finalized alg M)" and "\<not> (output_null \<and> n \<noteq> 0)"
    and "is_shake alg \<or> fixed_digest_length alg \<le> n"
  shows "\<exists>d. LIBERAC_HASH_SQUEEZE (Some c) output_null n =
    (SUCCESS, if is_shake alg then fips_sha3 alg n M else hash_value alg M, d)"
proof -
  obtain e out d where "LIBERAC_HASH_SQUEEZE (Some c) output_null n = (e, out, d)" by (metis prod_cases3)
  then show ?thesis
    using hash_squeeze_refines [OF assms(1), of output_null n] assms(2,3) by (auto simp: hash_object_step_def)
qed

lemma hash_one_shot:
  assumes "n < 2 ^ 64"
  shows "LIBERAC_HASH output_null output_length input n alg =
    (if (input = None \<and> n \<noteq> 0) \<or> (output_null \<and> output_length \<noteq> 0) then (INVALID_ARGUMENT, [])
     else if hash_family alg = CRYPTO_HASH_FAMILY_NONE then (INVALID_ALG_ID, [])
     else if \<not> is_shake alg \<and> output_length < fixed_digest_length alg then (BUFFER_TOO_SMALL, [])
     else if \<not> hash_fits alg (length (input_bytes input n)) then (MESSAGE_TOO_LARGE, [])
     else (SUCCESS, if is_shake alg then fips_sha3 alg output_length (input_bytes input n)
                    else hash_value alg (input_bytes input n)))"
proof (cases "(input = None \<and> n \<noteq> 0) \<or> (output_null \<and> output_length \<noteq> 0) \<or>
    (\<not> is_shake alg \<and> output_length < fixed_digest_length alg) \<or> hash_family alg = CRYPTO_HASH_FAMILY_NONE")
  case True
  have "\<not> is_shake alg \<and> fixed_digest_length alg = 0" if "hash_family alg = CRYPTO_HASH_FAMILY_NONE"
    using that by (auto simp: hash_family_def is_shake_def fixed_digest_length_def split: if_splits)
  moreover have "fixed_digest_length alg \<noteq> 0" if "hash_family alg \<noteq> CRYPTO_HASH_FAMILY_NONE" "\<not> is_shake alg"
    using fixed_digest_length_pos that by simp
  ultimately show ?thesis using True by (auto simp: LIBERAC_HASH_def)
next
  case False
  then have fam: "hash_family alg \<noteq> CRYPTO_HASH_FAMILY_NONE" by simp
  have pos: "is_shake alg \<or> 0 < fixed_digest_length alg" by (cases "is_shake alg") (simp_all add: fixed_digest_length_pos [OF fam])
  obtain c where c: "LIBERAC_HASH_INIT (Some LIBERAC_HASH_CLEAR) alg = (SUCCESS, Some c)"
    "hash_rel c (Absorbing alg [])" using fam by (rule hash_init_ok)
  have G: "\<not> ((input = None \<and> n \<noteq> 0) \<or> (output_null \<and> output_length \<noteq> 0))"
    "\<not> (\<not> is_shake alg \<and> fixed_digest_length alg = 0)"
    "\<not> (\<not> is_shake alg \<and> output_length < fixed_digest_length alg)"
    using False pos by auto
  note open_hash = LIBERAC_HASH_def Let_def if_not_P [OF G(1)] if_not_P [OF G(2)] if_not_P [OF G(3)]
    if_not_P [OF fam] c(1) prod.case if_True simp_thms
  show ?thesis
  proof (cases "hash_fits alg (length (input_bytes input n))")
    case fits: True
    obtain d where d: "LIBERAC_HASH_UPDATE (Some c) input n = (SUCCESS, Some d)"
      "hash_rel d (Absorbing alg (input_bytes input n))"
      using hash_update_ok [OF c(2) assms, of input] False fits by auto
    obtain e where e: "LIBERAC_HASH_FINALIZE (Some d) = (SUCCESS, Some e)"
      "hash_rel e (Finalized alg (input_bytes input n))" using d(2) by (rule hash_finalize_ok)
    obtain f where "LIBERAC_HASH_SQUEEZE (Some e) output_null output_length = (SUCCESS,
        if is_shake alg then fips_sha3 alg output_length (input_bytes input n)
        else hash_value alg (input_bytes input n), f)"
      using hash_squeeze_ok [OF e(2), of output_null output_length] False by auto
    then show ?thesis by (simp only: open_hash d(1) e(1) fits if_False)
  next
    case large: False
    then have "fst (LIBERAC_HASH_UPDATE (Some c) input n) = MESSAGE_TOO_LARGE"
      using hash_update_large [OF c(2) assms, of input] False by auto
    then obtain d where "LIBERAC_HASH_UPDATE (Some c) input n = (MESSAGE_TOO_LARGE, d)" by (metis prod.collapse)
    then show ?thesis by (simp only: open_hash large if_False status.distinct)
  qed
qed

text \<open>
  C25. The one-shot hash on every branch: the checks in the order of the code, and otherwise
  the digest of the input (for SHAKE, as many bytes of the stream as asked for).
\<close>

theorem LIBERAC_HASH_correct:
  assumes "n < 2 ^ 64"
  shows "LIBERAC_HASH output_null output_length input n alg =
    (if (input = None \<and> n \<noteq> 0) \<or> (output_null \<and> output_length \<noteq> 0) then (INVALID_ARGUMENT, [])
     else if hash_family alg = CRYPTO_HASH_FAMILY_NONE then (INVALID_ALG_ID, [])
     else if \<not> is_shake alg \<and> output_length < fixed_digest_length alg then (BUFFER_TOO_SMALL, [])
     else if \<not> hash_fits alg (length (input_bytes input n)) then (MESSAGE_TOO_LARGE, [])
     else (SUCCESS, if is_shake alg then fips_sha3 alg output_length (input_bytes input n)
                    else hash_value alg (input_bytes input n)))"
  by (rule hash_one_shot [OF assms])

lemma LIBERAC_HASH_correct_witness:
  "LIBERAC_HASH False 32 (Some [0x61, 0x62, 0x63]) 3 LIBERAC_ALG_HASH_SHA2_256 =
     (SUCCESS, fips_sha2 LIBERAC_ALG_HASH_SHA2_256 [0x61, 0x62, 0x63])"
  using LIBERAC_HASH_correct [of 3 False 32 "Some [0x61, 0x62, 0x63]" LIBERAC_ALG_HASH_SHA2_256]
  by (simp add: hash_family_def is_shake_def fixed_digest_length_def hash_fits_def sha2_fits_def
      input_bytes_def hash_value_def)

section \<open>Digest lengths\<close>

lemma length_fips_sha1: "length (fips_sha1 M) = 20"
  by (simp add: fips_sha1_def crypto_store32_be_def split: prod.split)

lemma length_concat_blocks: "(\<And>x. x \<in> set xs \<Longrightarrow> length (f x) = k) \<Longrightarrow> length (concat (map f xs)) = k * length xs"
  by (induction xs) auto

lemma length_sha2_store: "(\<And>w. length (put w) = k) \<Longrightarrow> length (sha2_store put s) = 8 * k"
  by (auto simp: sha2_store_def split: prod.split)

lemma length_hash_value:
  assumes "hash_family alg \<noteq> CRYPTO_HASH_FAMILY_NONE" and "\<not> is_shake alg"
  shows "length (hash_value alg M) = fixed_digest_length alg"
proof (cases "hash_family alg")
  case CRYPTO_HASH_FAMILY_SHA1
  then show ?thesis
    by (auto simp: hash_value_def length_fips_sha1 hash_family_def fixed_digest_length_def split: if_splits)
next
  case CRYPTO_HASH_FAMILY_SHA2
  have "length (fips_sha256 h d M) = min d 32" "length (fips_sha512 g d M) = min d 64" for h g d
    by (simp_all add: fips_sha256_def fips_sha512_def length_sha2_store [where k = 4]
        length_sha2_store [where k = 8] min.commute)
  then show ?thesis using CRYPTO_HASH_FAMILY_SHA2
    by (auto simp: hash_value_def fips_sha2_def Let_def hash_family_def fixed_digest_length_def
        sha2_digest_length_def crypto_sha2_init_def crypto_sha2_clear_def split: if_splits)
next
  case CRYPTO_HASH_FAMILY_SHA3
  then show ?thesis by (simp add: hash_value_def fips_sha3_def fips_sponge_def)
next
  case CRYPTO_HASH_FAMILY_LSH
  have "length (lsh256_return s 28) = 28" "length (lsh256_return s 32) = 32"
    "length (lsh512_return t 28) = 28" "length (lsh512_return t 32) = 32"
    "length (lsh512_return t 48) = 48" "length (lsh512_return t 64) = 64" for s t
    by (simp_all add: lsh256_return_def lsh512_return_def Let_def length_concat_blocks [where k = 4]
        length_concat_blocks [where k = 8] crypto_store32_le_def crypto_store64_le_def)
  then show ?thesis using CRYPTO_HASH_FAMILY_LSH
    by (auto simp: hash_value_def lsh_hash_def Let_def hash_family_def fixed_digest_length_def
        crypto_lsh_squeeze_def split: if_splits)
qed (use assms in simp)

text \<open>
  The one-shot hash never writes past the buffer it was given: what it writes is at most
  the declared length, and for a fixed-output algorithm a successful call writes exactly the
  digest length of the algorithm.
\<close>

theorem LIBERAC_HASH_bounded:
  assumes "n < 2 ^ 64"
  shows "length (snd (LIBERAC_HASH output_null output_length input n alg)) \<le> output_length \<and>
    (fst (LIBERAC_HASH output_null output_length input n alg) = SUCCESS \<and> \<not> is_shake alg \<longrightarrow>
     length (snd (LIBERAC_HASH output_null output_length input n alg)) = fixed_digest_length alg)"
proof -
  have "length (fips_sha3 alg k M) = k" for k M by (simp add: fips_sha3_def fips_sponge_def)
  then show ?thesis using length_hash_value [of alg] unfolding hash_one_shot [OF assms] by auto
qed

lemma LIBERAC_HASH_bounded_witness:
  "length (snd (LIBERAC_HASH False 40 (Some [0x61]) 1 LIBERAC_ALG_HASH_SHA1)) \<le> 40"
  using LIBERAC_HASH_bounded [of 1 False 40 "Some [0x61]" LIBERAC_ALG_HASH_SHA1] by simp

end
