(* ===== verification/HMAC.thy ===== *)
theory HMAC
  imports Hash_Function
begin

text \<open>
  HMAC over every fixed-output hash of the library except LSH
  (\<^verbatim>\<open>src/MessageAuthentication.c\<close>): two sessions of the streaming hash object over the
  padded key. The specification is FIPS 198-1 over the digest of the algorithm.
\<close>

section \<open>The code\<close>

record HmacParameters =
  hmac_DIGEST_LENGTH :: nat
  hmac_BLOCK_LENGTH :: nat

definition hmac_parameters :: "alg_id \<Rightarrow> status + HmacParameters" where
  "hmac_parameters alg =
     (if alg = LIBERAC_ALG_HASH_SHA1 then Inr \<lparr>hmac_DIGEST_LENGTH = 20, hmac_BLOCK_LENGTH = 64\<rparr>
      else if alg = LIBERAC_ALG_HASH_SHA2_224 then Inr \<lparr>hmac_DIGEST_LENGTH = 28, hmac_BLOCK_LENGTH = 64\<rparr>
      else if alg = LIBERAC_ALG_HASH_SHA2_256 then Inr \<lparr>hmac_DIGEST_LENGTH = 32, hmac_BLOCK_LENGTH = 64\<rparr>
      else if alg = LIBERAC_ALG_HASH_SHA2_384 then Inr \<lparr>hmac_DIGEST_LENGTH = 48, hmac_BLOCK_LENGTH = 128\<rparr>
      else if alg = LIBERAC_ALG_HASH_SHA2_512 then Inr \<lparr>hmac_DIGEST_LENGTH = 64, hmac_BLOCK_LENGTH = 128\<rparr>
      else if alg = LIBERAC_ALG_HASH_SHA2_512_224 then Inr \<lparr>hmac_DIGEST_LENGTH = 28, hmac_BLOCK_LENGTH = 128\<rparr>
      else if alg = LIBERAC_ALG_HASH_SHA2_512_256 then Inr \<lparr>hmac_DIGEST_LENGTH = 32, hmac_BLOCK_LENGTH = 128\<rparr>
      else if alg = LIBERAC_ALG_HASH_SHA3_224 then Inr \<lparr>hmac_DIGEST_LENGTH = 28, hmac_BLOCK_LENGTH = 144\<rparr>
      else if alg = LIBERAC_ALG_HASH_SHA3_256 then Inr \<lparr>hmac_DIGEST_LENGTH = 32, hmac_BLOCK_LENGTH = 136\<rparr>
      else if alg = LIBERAC_ALG_HASH_SHA3_384 then Inr \<lparr>hmac_DIGEST_LENGTH = 48, hmac_BLOCK_LENGTH = 104\<rparr>
      else if alg = LIBERAC_ALG_HASH_SHA3_512 then Inr \<lparr>hmac_DIGEST_LENGTH = 64, hmac_BLOCK_LENGTH = 72\<rparr>
      else Inl INVALID_ALG_ID)"

definition LIBERAC_HMAC_TAG_SIZE :: "alg_id \<Rightarrow> nat" where
  "LIBERAC_HMAC_TAG_SIZE alg =
     (case hmac_parameters alg of Inl _ \<Rightarrow> 0 | Inr parameters \<Rightarrow> hmac_DIGEST_LENGTH parameters)"

text \<open>
  One session of the hash object: init, an update with the pad, an update with the data,
  finalize, squeeze; the first error ends it. The code writes this chain twice.
\<close>

definition hmac_pass :: "HmacParameters \<Rightarrow> alg_id \<Rightarrow> byte list \<Rightarrow> byte list option \<Rightarrow> nat \<Rightarrow> status \<times> byte list" where
  "hmac_pass parameters alg pad data data_length =
     (let (error, context) = LIBERAC_HASH_INIT (Some LIBERAC_HASH_CLEAR) alg;
          (error, context) =
            (if error = SUCCESS then LIBERAC_HASH_UPDATE context (Some pad) (hmac_BLOCK_LENGTH parameters)
             else (error, context));
          (error, context) =
            (if error = SUCCESS then LIBERAC_HASH_UPDATE context data data_length else (error, context));
          (error, context) =
            (if error = SUCCESS then LIBERAC_HASH_FINALIZE context else (error, context))
      in if error = SUCCESS
         then let (error, digest, context) = LIBERAC_HASH_SQUEEZE context False (hmac_DIGEST_LENGTH parameters)
           in (error, digest)
         else (error, []))"

text \<open>The result is the status and the bytes written at the start of \<open>TAG\<close>.\<close>

definition LIBERAC_HMAC ::
    "bool \<Rightarrow> nat \<Rightarrow> nat \<Rightarrow> byte list option \<Rightarrow> nat \<Rightarrow> byte list option \<Rightarrow> nat \<Rightarrow> alg_id \<Rightarrow> status \<times> byte list" where
  "LIBERAC_HMAC tag_null tag_capacity tag_length message message_length key key_length alg =
     (case hmac_parameters alg of
        Inl error \<Rightarrow> (error, [])
      | Inr parameters \<Rightarrow>
          if tag_length = 0 \<or> hmac_DIGEST_LENGTH parameters < tag_length \<or> tag_null \<or>
             (message = None \<and> message_length \<noteq> 0) \<or> (key = None \<and> key_length \<noteq> 0)
          then (INVALID_ARGUMENT, [])
          else if tag_capacity < tag_length then (BUFFER_TOO_SMALL, [])
          else
            let (error, normalized_key) =
                  (if hmac_BLOCK_LENGTH parameters < key_length
                   then LIBERAC_HASH False (hmac_DIGEST_LENGTH parameters) key key_length alg
                   else (SUCCESS, input_bytes key key_length))
            in if error \<noteq> SUCCESS then (error, [])
               else
                 let key_block = copy_at (zeroes 144) 0 normalized_key;
                     inner_pad = map (\<lambda>index. key_block ! index XOR 0x36) [0..<hmac_BLOCK_LENGTH parameters];
                     outer_pad = map (\<lambda>index. key_block ! index XOR 0x5c) [0..<hmac_BLOCK_LENGTH parameters];
                     (error, inner_digest) = hmac_pass parameters alg inner_pad message message_length
                 in if error \<noteq> SUCCESS then (error, [])
                    else let (error, full_tag) = hmac_pass parameters alg outer_pad (Some inner_digest)
                               (hmac_DIGEST_LENGTH parameters)
                      in if error \<noteq> SUCCESS then (error, []) else (SUCCESS, take tag_length full_tag))"

definition LIBERAC_HMAC_VERIFY ::
    "byte list option \<Rightarrow> nat \<Rightarrow> byte list option \<Rightarrow> nat \<Rightarrow> byte list option \<Rightarrow> nat \<Rightarrow> alg_id \<Rightarrow> status" where
  "LIBERAC_HMAC_VERIFY tag tag_length message message_length key key_length alg =
     (case tag of
        None \<Rightarrow> INVALID_ARGUMENT
      | Some tag \<Rightarrow>
          let (error, expected) = LIBERAC_HMAC False 64 tag_length message message_length key key_length alg
          in if error = SUCCESS \<and> \<not> crypto_constant_time_equal (copy_at (zeroes 64) 0 expected) tag tag_length
             then AUTHENTICATION_FAILED else error)"

section \<open>FIPS 198-1\<close>

definition hmac_key_block :: "nat \<Rightarrow> (byte list \<Rightarrow> byte list) \<Rightarrow> byte list \<Rightarrow> byte list" where
  "hmac_key_block B H K =
     (let K' = (if B < length K then H K else K) in K' @ zeroes (B - length K'))"

definition fips_hmac :: "nat \<Rightarrow> (byte list \<Rightarrow> byte list) \<Rightarrow> byte list \<Rightarrow> byte list \<Rightarrow> byte list" where
  "fips_hmac B H K M =
     (let K0 = hmac_key_block B H K
      in H (map (\<lambda>b. b XOR 0x5c) K0 @ H (map (\<lambda>b. b XOR 0x36) K0 @ M)))"

text \<open>HMAC of an algorithm of the library.\<close>

definition hmac_of :: "alg_id \<Rightarrow> byte list \<Rightarrow> byte list \<Rightarrow> byte list" where
  "hmac_of alg = (case hmac_parameters alg of
     Inl _ \<Rightarrow> (\<lambda>K M. []) | Inr p \<Rightarrow> fips_hmac (hmac_BLOCK_LENGTH p) (hash_value alg))"

section \<open>Correctness\<close>

lemma hmac_parameters_hash:
  assumes "hmac_parameters alg = Inr p"
  shows "hash_family alg \<noteq> CRYPTO_HASH_FAMILY_NONE" "\<not> is_shake alg"
    "fixed_digest_length alg = hmac_DIGEST_LENGTH p"
    "hmac_DIGEST_LENGTH p \<le> 64" "hmac_DIGEST_LENGTH p \<le> hmac_BLOCK_LENGTH p" "hmac_BLOCK_LENGTH p \<le> 144"
    "0 < hmac_DIGEST_LENGTH p"
  using assms
  by (auto simp: hmac_parameters_def hash_family_def is_shake_def fixed_digest_length_def split: if_splits)

lemma hash_fits_small: "n < 2 ^ 61 \<Longrightarrow> hash_fits alg n"
  by (auto simp: hash_fits_def sha1_fits_def sha2_fits_def split: crypto_hash_family.split)

lemma hash_fits_mono: "hash_fits alg n \<Longrightarrow> k \<le> n \<Longrightarrow> hash_fits alg k"
  by (auto simp: hash_fits_def sha1_fits_def sha2_fits_def split: crypto_hash_family.splits if_splits)

lemma hmac_pass_correct:
  assumes p: "hmac_parameters alg = Inr p" and pad: "length pad = hmac_BLOCK_LENGTH p"
    and n: "n < 2 ^ 64" "\<not> (data = None \<and> n \<noteq> 0)"
  shows "hmac_pass p alg pad data n =
    (if hash_fits alg (hmac_BLOCK_LENGTH p + length (input_bytes data n))
     then (SUCCESS, hash_value alg (pad @ input_bytes data n)) else (MESSAGE_TOO_LARGE, []))"
proof -
  note h = hmac_parameters_hash [OF p]
  obtain c where c: "LIBERAC_HASH_INIT (Some LIBERAC_HASH_CLEAR) alg = (SUCCESS, Some c)"
    "hash_rel c (Absorbing alg [])" using h(1) by (rule hash_init_ok)
  have pb: "input_bytes (Some pad) (hmac_BLOCK_LENGTH p) = pad"
    by (simp add: input_bytes_def flip: pad)
  have "hash_fits alg (length ([] :: byte list) + length (input_bytes (Some pad) (hmac_BLOCK_LENGTH p)))"
    using h(6) pad by (simp add: pb hash_fits_small)
  then obtain d where d: "LIBERAC_HASH_UPDATE (Some c) (Some pad) (hmac_BLOCK_LENGTH p) = (SUCCESS, Some d)"
    "hash_rel d (Absorbing alg pad)"
    using hash_update_ok [OF c(2), of "hmac_BLOCK_LENGTH p" "Some pad"] h(6) pb by auto
  note chain = hmac_pass_def c(1) d(1) Let_def prod.case if_True if_False simp_thms status.distinct
  show ?thesis
  proof (cases "hash_fits alg (length pad + length (input_bytes data n))")
    case True
    obtain e where e: "LIBERAC_HASH_UPDATE (Some d) data n = (SUCCESS, Some e)"
      "hash_rel e (Absorbing alg (pad @ input_bytes data n))"
      using hash_update_ok [OF d(2) n True] by auto
    obtain f where f: "LIBERAC_HASH_FINALIZE (Some e) = (SUCCESS, Some f)"
      "hash_rel f (Finalized alg (pad @ input_bytes data n))" using e(2) by (rule hash_finalize_ok)
    obtain g where "LIBERAC_HASH_SQUEEZE (Some f) False (hmac_DIGEST_LENGTH p) =
        (SUCCESS, hash_value alg (pad @ input_bytes data n), g)"
      using hash_squeeze_ok [OF f(2), of False "hmac_DIGEST_LENGTH p"] h(2,3) by auto
    then show ?thesis using True unfolding pad by (simp only: chain e(1) f(1))
  next
    case False
    obtain e where "LIBERAC_HASH_UPDATE (Some d) data n = (MESSAGE_TOO_LARGE, e)"
      using hash_update_large [OF d(2) n False] by (metis prod.collapse)
    then show ?thesis using False unfolding pad by (simp only: chain)
  qed
qed

text \<open>The length limits the two sessions and the key hash can hit.\<close>

definition hmac_fits :: "alg_id \<Rightarrow> HmacParameters \<Rightarrow> nat \<Rightarrow> nat \<Rightarrow> bool" where
  "hmac_fits alg p k m \<longleftrightarrow> (hmac_BLOCK_LENGTH p < k \<longrightarrow> hash_fits alg k) \<and> hash_fits alg (hmac_BLOCK_LENGTH p + m)"

lemma hmac_key_block_bytes:
  assumes "length K' \<le> B" "B \<le> 144"
  shows "map (\<lambda>i. copy_at (zeroes 144) 0 K' ! i XOR c) [0..<B] = map (\<lambda>b. b XOR c) (K' @ zeroes (B - length K'))"
  using assms by (intro nth_equalityI) (auto simp: copy_at_def nth_append)

lemma hmac_correct:
  assumes "message_length < 2 ^ 64" "key_length < 2 ^ 64"
    and lens: "message \<noteq> None \<Longrightarrow> length (the message) = message_length" "key \<noteq> None \<Longrightarrow> length (the key) = key_length"
  shows "LIBERAC_HMAC tag_null tag_capacity tag_length message message_length key key_length alg =
    (case hmac_parameters alg of
       Inl error \<Rightarrow> (error, [])
     | Inr p \<Rightarrow>
         if tag_length = 0 \<or> hmac_DIGEST_LENGTH p < tag_length \<or> tag_null \<or>
            (message = None \<and> message_length \<noteq> 0) \<or> (key = None \<and> key_length \<noteq> 0) then (INVALID_ARGUMENT, [])
         else if tag_capacity < tag_length then (BUFFER_TOO_SMALL, [])
         else if \<not> hmac_fits alg p key_length message_length then (MESSAGE_TOO_LARGE, [])
         else (SUCCESS, take tag_length
                (hmac_of alg (input_bytes key key_length) (input_bytes message message_length))))"
proof (cases "hmac_parameters alg")
  case (Inr p)
  note h = hmac_parameters_hash [OF Inr]
  define K M where "K = input_bytes key key_length" and "M = input_bytes message message_length"
  let ?B = "hmac_BLOCK_LENGTH p" and ?D = "hmac_DIGEST_LENGTH p"
  show ?thesis
  proof (cases "tag_length = 0 \<or> ?D < tag_length \<or> tag_null \<or> (message = None \<and> message_length \<noteq> 0) \<or>
      (key = None \<and> key_length \<noteq> 0) \<or> tag_capacity < tag_length")
    case True
    then show ?thesis by (auto simp: LIBERAC_HMAC_def Inr)
  next
    case False
    have lK: "length K = key_length" and lM: "length M = message_length"
      using lens False by (auto simp: K_def M_def input_bytes_def split: option.splits)
    define K' where "K' = (if ?B < key_length then hash_value alg K else K)"
    have K': "length K' \<le> ?B"
      using h length_hash_value [OF h(1,2), of K] lK by (simp add: K'_def)
    have one: "(if ?B < key_length then LIBERAC_HASH False ?D key key_length alg else (SUCCESS, K)) =
        (if ?B < key_length \<and> \<not> hash_fits alg key_length then (MESSAGE_TOO_LARGE, []) else (SUCCESS, K'))"
      using hash_one_shot [OF assms(2), of False ?D key alg] h False lK by (auto simp: K'_def K_def)
    define P where "P c = map (\<lambda>b. b XOR c) (K' @ zeroes (?B - length K'))" for c :: byte
    have P: "map (\<lambda>i. copy_at (zeroes 144) 0 K' ! i XOR c) [0..<?B] = P c" "length (P c) = ?B" for c
      using hmac_key_block_bytes [OF K' h(6)] K' by (simp_all add: P_def)
    have inner: "hmac_pass p alg (P 0x36) message message_length =
        (if hash_fits alg (?B + message_length) then (SUCCESS, hash_value alg (P 0x36 @ M)) else (MESSAGE_TOO_LARGE, []))"
      using hmac_pass_correct [OF Inr P(2) assms(1)] False lM by (auto simp: M_def)
    have outer: "hmac_pass p alg (P 0x5c) (Some (hash_value alg X)) ?D = (SUCCESS, hash_value alg (P 0x5c @ hash_value alg X))"
      for X
      using hmac_pass_correct [OF Inr P(2), of ?D "Some (hash_value alg X)"] h length_hash_value [OF h(1,2), of X]
      by (simp add: input_bytes_def hash_fits_small)
    have "hmac_of alg K M = hash_value alg (P 0x5c @ hash_value alg (P 0x36 @ M))"
      by (simp add: hmac_of_def Inr fips_hmac_def hmac_key_block_def P_def K'_def Let_def lK)
    moreover have G: "\<not> (tag_length = 0 \<or> ?D < tag_length \<or> tag_null \<or> (message = None \<and> message_length \<noteq> 0) \<or>
        (key = None \<and> key_length \<noteq> 0))" "\<not> tag_capacity < tag_length"
      using False by auto
    ultimately show ?thesis
      unfolding LIBERAC_HMAC_def Inr sum.case if_not_P [OF G(1)] if_not_P [OF G(2)] K_def [symmetric] M_def [symmetric]
        one hmac_fits_def
      by (cases "?B < key_length \<and> \<not> hash_fits alg key_length") (auto simp: P inner outer Let_def)
  qed
qed (simp add: LIBERAC_HMAC_def)



lemma length_hmac_of: "length (hmac_of alg K M) = LIBERAC_HMAC_TAG_SIZE alg"
  using hmac_parameters_hash(1-3) length_hash_value
  by (auto simp: hmac_of_def fips_hmac_def LIBERAC_HMAC_TAG_SIZE_def Let_def split: sum.split)

lemma hmac_written:
  assumes "LIBERAC_HMAC tag_null tag_capacity tag_length message message_length key key_length alg = (SUCCESS, out)"
    and "message_length < 2 ^ 64" "key_length < 2 ^ 64"
    and lens: "message \<noteq> None \<Longrightarrow> length (the message) = message_length" "key \<noteq> None \<Longrightarrow> length (the key) = key_length"
  shows "length out = tag_length" "tag_length \<le> 64"
proof -
  obtain p where p: "hmac_parameters alg = Inr p" using assms(1)
    by (cases "hmac_parameters alg") (auto simp: LIBERAC_HMAC_def hmac_parameters_def split: if_splits)
  have out: "\<not> hmac_DIGEST_LENGTH p < tag_length"
    "out = take tag_length (hmac_of alg (input_bytes key key_length) (input_bytes message message_length))"
    using assms(1) unfolding hmac_correct [OF assms(2,3) lens, simplified] by (auto simp: p split: if_splits)
  then show "length out = tag_length" "tag_length \<le> 64"
    using hmac_parameters_hash(4) [OF p] by (simp_all add: length_hmac_of LIBERAC_HMAC_TAG_SIZE_def p)
qed

text \<open>
  C28. Verification accepts exactly the tag HMAC would produce: it returns SUCCESS if and only
  if the computation succeeds with these bytes, AUTHENTICATION_FAILED if it succeeds with
  others, and otherwise the error of the computation.
\<close>

theorem LIBERAC_HMAC_VERIFY_correct:
  assumes "length message < 2 ^ 64" and "length key < 2 ^ 64"
  shows "LIBERAC_HMAC_VERIFY (Some tag) (length tag) (Some message) (length message) (Some key) (length key) alg =
    (case LIBERAC_HMAC False 64 (length tag) (Some message) (length message) (Some key) (length key) alg of
       (error, expected) \<Rightarrow> if error = SUCCESS \<and> expected \<noteq> tag then AUTHENTICATION_FAILED else error)"
proof -
  obtain e x where r: "LIBERAC_HMAC False 64 (length tag) (Some message) (length message) (Some key) (length key) alg = (e, x)"
    by (meson surj_pair)
  have "crypto_constant_time_equal (copy_at (zeroes 64) 0 x) tag (length tag) \<longleftrightarrow> x = tag" if "e = SUCCESS"
  proof -
    have "length x = length tag" "length tag \<le> 64"
      using hmac_written [OF r [unfolded that]] assms by simp_all
    then show ?thesis
      by (simp add: crypto_constant_time_equal_iff copy_at_def)
  qed
  then show ?thesis by (auto simp: LIBERAC_HMAC_VERIFY_def r)
qed

lemma LIBERAC_HMAC_VERIFY_correct_witness:
  "LIBERAC_HMAC_VERIFY (Some (replicate 20 1)) 20 (Some [7]) 1 (Some (replicate 9 9)) 9 LIBERAC_ALG_HASH_SHA1 =
    (case LIBERAC_HMAC False 64 20 (Some [7]) 1 (Some (replicate 9 9)) 9 LIBERAC_ALG_HASH_SHA1 of
       (error, expected) \<Rightarrow> if error = SUCCESS \<and> expected \<noteq> replicate 20 1 then AUTHENTICATION_FAILED else error)"
  using LIBERAC_HMAC_VERIFY_correct [of "[7]" "replicate 9 9" "replicate 20 1" LIBERAC_ALG_HASH_SHA1]
  by simp

end
