(* ===== verification/CMAC.thy ===== *)
theory CMAC
  imports AES_Modes Triple_DES
begin

text \<open>
  CMAC over AES and Triple DES (\<^verbatim>\<open>src/MessageAuthentication.c\<close>). The specification is
  SP 800-38B: subkeys by doubling in the binary field and CBC-MAC with a masked last block,
  over any function on blocks.
\<close>

section \<open>The code\<close>

datatype CmacCipherFamily = CMAC_CIPHER_AES | CMAC_CIPHER_TDES

record CmacParameters =
  cmac_BLOCK_LENGTH :: nat
  cmac_KEY_LENGTH :: nat
  cmac_REDUCTION_CONSTANT :: byte
  cmac_FAMILY :: CmacCipherFamily

definition cmac_parameters :: "alg_id \<Rightarrow> status + CmacParameters" where
  "cmac_parameters alg =
     (let aes = (\<lambda>key_length. Inr \<lparr>cmac_BLOCK_LENGTH = 16, cmac_KEY_LENGTH = key_length,
            cmac_REDUCTION_CONSTANT = 0x87, cmac_FAMILY = CMAC_CIPHER_AES\<rparr>)
      in if alg = LIBERAC_ALG_AES_128_ECB then aes 16
         else if alg = LIBERAC_ALG_AES_192_ECB then aes 24
         else if alg = LIBERAC_ALG_AES_256_ECB then aes 32
         else if alg = LIBERAC_ALG_TDES_EDE3_ECB
         then Inr \<lparr>cmac_BLOCK_LENGTH = 8, cmac_KEY_LENGTH = 24, cmac_REDUCTION_CONSTANT = 0x1b,
                cmac_FAMILY = CMAC_CIPHER_TDES\<rparr>
         else Inl INVALID_ALG_ID)"

definition LIBERAC_CMAC_TAG_SIZE :: "alg_id \<Rightarrow> nat" where
  "LIBERAC_CMAC_TAG_SIZE alg =
     (case cmac_parameters alg of Inl _ \<Rightarrow> 0 | Inr parameters \<Rightarrow> cmac_BLOCK_LENGTH parameters)"

text \<open>Every local array is held as its first \<open>BLOCK_LENGTH\<close> bytes, the only ones in use.\<close>

definition cmac_double :: "byte list \<Rightarrow> nat \<Rightarrow> byte \<Rightarrow> byte list" where
  "cmac_double input block_length reduction_constant =
     (let most_significant_bit = drop_bit 7 (input ! 0);
          (output, carry) = fold (\<lambda>index (output, carry).
              let value = input ! (index - 1)
              in (output[index - 1 := push_bit 1 value OR carry], drop_bit 7 value))
            (rev [1..<block_length + 1]) (zeroes block_length, 0)
      in output[block_length - 1 :=
           output ! (block_length - 1) XOR (reduction_constant AND (0 - most_significant_bit))])"

definition cmac_xor_block :: "byte list \<Rightarrow> byte list \<Rightarrow> nat \<Rightarrow> byte list" where
  "cmac_xor_block left right block_length = map (\<lambda>index. left ! index XOR right ! index) [0..<block_length]"

text \<open>
  The Triple DES call goes through its public entry point; its buffers are local arrays, here
  at addresses of a private store: key at 1, input at 32, output at 48.
\<close>

definition cmac_encrypt_block ::
    "CmacParameters \<Rightarrow> AES_CONTEXT \<Rightarrow> byte list \<Rightarrow> nat \<Rightarrow> byte list \<Rightarrow> status \<times> byte list" where
  "cmac_encrypt_block parameters aes_context key key_length input =
     (if cmac_FAMILY parameters = CMAC_CIPHER_AES then crypto_aes_encrypt_block aes_context input
      else let n = cmac_BLOCK_LENGTH parameters;
               (error, m) = crypto_tdes_ede3_crypt (store (store (\<lambda>_. 0) 1 key) 32 input)
                 48 n 32 n 1 key_length 0 0 CRYPTO_TDES_MODE_ECB True
        in (error, load m 48 n))"

text \<open>The loop over the complete blocks before the last: \<open>Inl\<close> the error that stopped it.\<close>

function cmac_loop ::
    "(byte list \<Rightarrow> status \<times> byte list) \<Rightarrow> nat \<Rightarrow> byte list \<Rightarrow> byte list \<Rightarrow> status + byte list \<times> byte list" where
  "cmac_loop encrypt block_length state cursor =
     (if 0 < block_length \<and> block_length < length cursor then
        let work = cmac_xor_block state cursor block_length;
            (error, state) = encrypt work
        in if error \<noteq> SUCCESS then Inl error
           else cmac_loop encrypt block_length state (drop block_length cursor)
      else Inr (state, cursor))"
  by pat_completeness auto
termination by (relation "measure (\<lambda>(_, _, _, cursor). length cursor)") auto

declare cmac_loop.simps [simp del]

definition cmac_last_block :: "byte list \<Rightarrow> nat \<Rightarrow> byte list \<Rightarrow> byte list \<Rightarrow> byte list" where
  "cmac_last_block cursor block_length subkey1 subkey2 =
     (if length cursor = block_length
      then map (\<lambda>index. cursor ! index XOR subkey1 ! index) [0..<block_length]
      else let last_block = (copy_at (zeroes block_length) 0 cursor)[length cursor := 0x80]
        in map (\<lambda>index. last_block ! index XOR subkey2 ! index) [0..<block_length])"

definition LIBERAC_CMAC ::
    "bool \<Rightarrow> nat \<Rightarrow> nat \<Rightarrow> byte list option \<Rightarrow> nat \<Rightarrow> byte list option \<Rightarrow> nat \<Rightarrow> alg_id \<Rightarrow> status \<times> byte list" where
  "LIBERAC_CMAC tag_null tag_capacity tag_length message message_length key key_length alg =
     (case cmac_parameters alg of
        Inl error \<Rightarrow> (error, [])
      | Inr parameters \<Rightarrow>
          let n = cmac_BLOCK_LENGTH parameters in
          if tag_length = 0 \<or> n < tag_length \<or> tag_null \<or> key = None \<or>
             (message = None \<and> message_length \<noteq> 0) then (INVALID_ARGUMENT, [])
          else if tag_capacity < tag_length then (BUFFER_TOO_SMALL, [])
          else if key_length \<noteq> cmac_KEY_LENGTH parameters then (INVALID_KEY, [])
          else
            let (error, aes_context) =
                  (if cmac_FAMILY parameters = CMAC_CIPHER_AES then crypto_aes_context_init key key_length
                   else (SUCCESS, aes_cleared))
            in if error \<noteq> SUCCESS then (error, [])
               else
                 let encrypt = cmac_encrypt_block parameters aes_context (the key) key_length;
                     (error, work) = encrypt (zeroes n)
                 in if error \<noteq> SUCCESS then (error, [])
                    else
                      let subkey1 = cmac_double work n (cmac_REDUCTION_CONSTANT parameters);
                          subkey2 = cmac_double subkey1 n (cmac_REDUCTION_CONSTANT parameters);
                          input = (case message of None \<Rightarrow> [] | Some b \<Rightarrow> take message_length b)
                      in (case cmac_loop encrypt n (zeroes n) input of
                            Inl error \<Rightarrow> (error, [])
                          | Inr (state, cursor) \<Rightarrow>
                              let work = cmac_xor_block state (cmac_last_block cursor n subkey1 subkey2) n;
                                  (error, state) = encrypt work
                              in if error = SUCCESS then (SUCCESS, take tag_length state) else (error, [])))"

definition LIBERAC_CMAC_VERIFY ::
    "byte list option \<Rightarrow> nat \<Rightarrow> byte list option \<Rightarrow> nat \<Rightarrow> byte list option \<Rightarrow> nat \<Rightarrow> alg_id \<Rightarrow> status" where
  "LIBERAC_CMAC_VERIFY tag tag_length message message_length key key_length alg =
     (case tag of
        None \<Rightarrow> INVALID_ARGUMENT
      | Some tag \<Rightarrow>
          let (error, expected) = LIBERAC_CMAC False 16 tag_length message message_length key key_length alg
          in if error = SUCCESS \<and> \<not> crypto_constant_time_equal (copy_at (zeroes 16) 0 expected) tag tag_length
             then AUTHENTICATION_FAILED else error)"

section \<open>SP 800-38B\<close>

text \<open>Doubling in the field of \<open>2 ^ (8 * n)\<close> elements, on the number a block stands for.\<close>

definition field_double :: "nat \<Rightarrow> byte \<Rightarrow> byte list \<Rightarrow> byte list" where
  "field_double n R b =
     (let v = nat_of_be b
      in be_of_nat n ((2 * v mod 256 ^ n) XOR (if 256 ^ n \<le> 2 * v then unat R else 0)))"

definition sp_cmac :: "(byte list \<Rightarrow> byte list) \<Rightarrow> nat \<Rightarrow> byte \<Rightarrow> byte list \<Rightarrow> byte list" where
  "sp_cmac E n R M =
     (let K1 = field_double n R (E (zeroes n)); K2 = field_double n R K1;
          full = n * ((length M - 1) div n);
          last = drop full M;
          Mn = (if length last = n then xor_bytes last K1
                else xor_bytes (last @ [0x80] @ zeroes (n - 1 - length last)) K2)
      in E (xor_bytes (absorb n (\<lambda>C b. E (xor_bytes C b)) (zeroes n) (take full M)) Mn))"

section \<open>Doubling\<close>

text \<open>A shift left by one bit of a big-endian number, byte by byte.\<close>

fun shift_bytes :: "byte list \<Rightarrow> byte list" where
  "shift_bytes [] = []"
| "shift_bytes [b] = [push_bit 1 b]"
| "shift_bytes (b # c # bs) = (push_bit 1 b OR drop_bit 7 c) # shift_bytes (c # bs)"

lemma length_shift_bytes [simp]: "length (shift_bytes bs) = length bs"
  by (induction bs rule: shift_bytes.induct) auto

lemma nth_shift_bytes:
  "i < length bs \<Longrightarrow> shift_bytes bs ! i =
    push_bit 1 (bs ! i) OR (if Suc i < length bs then drop_bit 7 (bs ! Suc i) else 0)"
proof (induction bs arbitrary: i rule: shift_bytes.induct)
  case (3 b c bs)
  then show ?case by (cases i) (auto simp del: push_bit_Suc)
qed (auto simp del: push_bit_Suc)

lemma nat_of_be_Cons: "nat_of_be (b # bs) = unat b * 256 ^ length bs + nat_of_be bs"
  by (simp add: nat_of_be_def nat_of_le_append)

lemma shift_byte_value:
  "unat (push_bit 1 b OR drop_bit 7 c) + 256 * (unat b div 128) = 2 * unat b + unat (c :: byte) div 128"
proof -
  have "push_bit 1 b OR drop_bit 7 c = push_bit 1 b + drop_bit 7 c"
    by (rule disjunctive_add_eq_or [symmetric]) (auto simp: bit_simps impossible_bit intro!: bit_word_eqI simp del: push_bit_Suc)
  moreover have "unat (push_bit 1 b) = 2 * unat b mod 256"
    by (simp add: push_bit_eq_mult unat_word_ariths mult.commute)
  moreover have "unat (drop_bit 7 c) = unat c div 128" by (simp add: unat_drop_bit)
  moreover have "unat c div 128 < 2" using unat_byte_less [of c] by simp
  moreover have "2 * unat b mod 256 + 1 < 256"
  proof -
    have "2 * unat b mod 256 = 2 * (unat b mod 128)" using mult_mod_right [of 2 "unat b" 128] by simp
    moreover have "unat b mod 128 < 128" by simp
    ultimately show ?thesis by linarith
  qed
  ultimately have "unat (push_bit 1 b OR drop_bit 7 c) = 2 * unat b mod 256 + unat c div 128"
    by (simp add: unat_word_ariths)
  moreover have "2 * unat b div 256 = unat b div 128" by simp
  ultimately show ?thesis using div_mult_mod_eq [of "2 * unat b" 256] by simp
qed

lemma nat_of_be_shift:
  "bs \<noteq> [] \<Longrightarrow> nat_of_be (shift_bytes bs) + 256 ^ length bs * (unat (hd bs) div 128) = 2 * nat_of_be bs"
proof (induction bs rule: shift_bytes.induct)
  case (2 b)
  show ?case using shift_byte_value [of b 0] by (simp add: nat_of_be_Cons nat_of_be_def)
next
  case (3 b c bs)
  let ?k = "256 ^ length (c # bs) :: nat"
  have "nat_of_be (shift_bytes (b # c # bs)) + 256 ^ length (b # c # bs) * (unat b div 128) =
      (unat (push_bit 1 b OR drop_bit 7 c) + 256 * (unat b div 128)) * ?k + nat_of_be (shift_bytes (c # bs))"
    by (simp add: nat_of_be_Cons algebra_simps)
  also have "\<dots> = 2 * unat b * ?k + (nat_of_be (shift_bytes (c # bs)) + ?k * (unat c div 128))"
    by (simp only: shift_byte_value) (simp add: algebra_simps)
  also have "\<dots> = 2 * (unat b * ?k + nat_of_be (c # bs))" using 3 by simp
  finally show ?case by (simp add: nat_of_be_Cons [of b])
qed simp

lemma cmac_double_loop:
  assumes "length out = n" and "k \<le> n" "n \<le> length input"
  shows "fold (\<lambda>index (output, carry). let value = input ! (index - 1)
        in (output[index - 1 := push_bit 1 value OR carry], drop_bit 7 value)) (rev [k + 1..<n + 1]) (out, 0) =
    (take k out @ drop k (shift_bytes (take n input)), if k < n then drop_bit 7 (input ! k) else 0)"
  using assms(2)
proof (induction k rule: inc_induct)
  case base
  then show ?case using assms by simp
next
  case (step k)
  have range: "rev [k + 1..<n + 1] = rev [Suc k + 1..<n + 1] @ [k + 1]"
    using step by (simp add: upt_conv_Cons del: upt_Suc)
  have len: "length (shift_bytes (take n input)) = n" using assms(3) by simp
  have nth: "shift_bytes (take n input) ! k =
      push_bit 1 (input ! k) OR (if Suc k < n then drop_bit 7 (input ! Suc k) else 0)"
    using step assms by (simp add: nth_shift_bytes del: push_bit_Suc)
  have upd: "(take (Suc k) out @ drop (Suc k) (shift_bytes (take n input)))[k := shift_bytes (take n input) ! k] =
      take k out @ drop k (shift_bytes (take n input))"
    using step assms len
    by (simp add: take_Suc_conv_app_nth list_update_append Cons_nth_drop_Suc)
  show ?case
    unfolding range fold_append comp_def step.IH
    using step upd by (simp add: Let_def nth del: push_bit_Suc)
qed

lemma nat_of_be_snoc: "nat_of_be (bs @ [b]) = 256 * nat_of_be bs + unat b"
  by (simp add: nat_of_be_def)

lemma xor_small: "(256 * v + unat b) XOR unat r = 256 * v + unat (b XOR (r :: byte))"
proof (rule bit_eqI)
  fix n
  have low: "unat x < 2 ^ 8" for x :: byte using unat_byte_less [of x] by simp
  have split: "256 * v + unat x = push_bit 8 v OR unat x" for x :: byte
  proof -
    have "push_bit 8 v AND unat x = 0"
    proof (rule bit_eqI)
      fix i show "bit (push_bit 8 v AND unat x) i = bit 0 i"
        by (auto simp: bit_simps dest: bit_imp_le_length)
    qed
    then show ?thesis by (simp add: push_bit_eq_mult flip: disjunctive_add_eq_or)
  qed
  show "bit ((256 * v + unat b) XOR unat r) n \<longleftrightarrow> bit (256 * v + unat (b XOR r)) n"
    unfolding split by (auto simp: bit_simps impossible_bit)
qed

lemma cmac_double_field:
  assumes n: "0 < n" and len: "length input = n"
  shows "cmac_double input n R = field_double n R input"
proof -
  define S where "S = shift_bytes input"
  have S: "length S = n" by (simp add: S_def len)
  have loop: "fold (\<lambda>index (output, carry). let value = input ! (index - 1)
        in (output[index - 1 := push_bit 1 value OR carry], drop_bit 7 value)) (rev [1..<n + 1]) (zeroes n, 0) =
      (S, drop_bit 7 (input ! 0))"
    using cmac_double_loop [of "zeroes n" n 0 input] n len by (simp add: S_def)
  define v where "v = nat_of_be input"
  define top where "top = unat (hd input) div 128"
  have hd: "hd input = input ! 0" using n len by (simp add: hd_conv_nth flip: length_greater_0_conv)
  have shift: "nat_of_be S + 256 ^ n * top = 2 * v"
    using nat_of_be_shift [of input] n len by (auto simp: S_def v_def top_def)
  have S_less: "nat_of_be S < 256 ^ n"
    using nat_of_le_bound [of "rev S"] by (simp add: nat_of_be_def S)
  have top: "top < 2" using unat_byte_less [of "hd input"] by (simp add: top_def)
  have val: "nat_of_be S = 2 * v mod 256 ^ n" using S_less by (simp flip: shift)
  have msb: "256 ^ n \<le> 2 * v \<longleftrightarrow> top = 1"
  proof (cases "top = 0")
    case True
    then show ?thesis using shift S_less by simp
  next
    case False
    then have "top = 1" using top by simp
    then show ?thesis using shift by simp
  qed
  have mask: "R AND (0 - drop_bit 7 (input ! 0)) = (if top = 1 then R else 0)"
  proof -
    have "unat (drop_bit 7 (input ! 0)) = top" by (simp add: unat_drop_bit top_def hd)
    then have "drop_bit 7 (input ! 0) = (if top = 1 then 1 else 0)"
      using top by (cases "top = 0") (auto simp: word_unat_eq_iff)
    then show ?thesis by simp
  qed
  define r where "r = (if top = 1 then R else 0)"
  obtain I l where Sl: "S = I @ [l]" using S n by (metis length_0_conv less_numeral_extra(3) rev_exhaust)
  have I: "length I = n - 1" using S Sl by simp
  have "cmac_double input n R = I @ [l XOR r]"
    unfolding cmac_double_def loop
    unfolding Let_def prod.case mask r_def [symmetric]
    by (simp add: Sl nth_append list_update_append I)
  also have "\<dots> = be_of_nat n (nat_of_be (I @ [l XOR r]))"
    using I n by simp
  also have "nat_of_be (I @ [l XOR r]) = nat_of_be S XOR unat r"
    by (simp add: nat_of_be_snoc xor_small Sl)
  also have "unat r = (if 256 ^ n \<le> 2 * v then unat R else 0)" by (simp add: r_def msb)
  finally show ?thesis by (simp add: field_double_def Let_def val flip: v_def)
qed

lemma length_field_double [simp]: "length (field_double n R b) = n"
  by (simp add: field_double_def Let_def)

section \<open>The chain\<close>

lemma cmac_xor_block_eq:
  "length left = n \<Longrightarrow> n \<le> length right \<Longrightarrow> cmac_xor_block left right n = xor_bytes left (take n right)"
  unfolding cmac_xor_block_def by (intro nth_equalityI) auto

lemma cmac_loop_correct:
  assumes enc: "\<And>b. length b = n \<Longrightarrow> encrypt b = (SUCCESS, E b)" "\<And>b. length b = n \<Longrightarrow> length (E b) = n"
    and n: "0 < n" and state: "length state = n"
  shows "cmac_loop encrypt n state cursor =
    Inr (absorb n (\<lambda>C b. E (xor_bytes C b)) state (take (n * ((length cursor - 1) div n)) cursor),
         drop (n * ((length cursor - 1) div n)) cursor)"
  using state
proof (induction cursor arbitrary: state rule: length_induct)
  case (1 cursor)
  show ?case
  proof (cases "n < length cursor")
    case False
    then have "(length cursor - 1) div n = 0" using n by simp
    then show ?thesis using False n by (subst cmac_loop.simps) simp
  next
    case True
    define d where "d = drop n cursor"
    have d: "cursor = take n cursor @ d" "length d < length cursor" "length cursor - 1 = n + (length d - 1)" "length d = length cursor - n"
      using True n by (auto simp: d_def)
    have full: "(length cursor - 1) div n = Suc ((length d - 1) div n)" using n div_add_self1 [of n "length d - 1"] unfolding d(3) by simp
    have work: "cmac_xor_block state cursor n = xor_bytes state (take n cursor)"
      using True "1.prems" by (intro cmac_xor_block_eq) simp_all
    have len: "length (xor_bytes state (take n cursor)) = n" "length (take n cursor) = n"
      using True "1.prems" by simp_all
    let ?s = "E (xor_bytes state (take n cursor))"
    have "cmac_loop encrypt n state cursor = cmac_loop encrypt n ?s d"
      using True n enc(1) [OF len(1)] by (subst cmac_loop.simps) (simp add: work d_def)
    also have "\<dots> = Inr (absorb n (\<lambda>C b. E (xor_bytes C b)) ?s (take (n * ((length d - 1) div n)) d),
        drop (n * ((length d - 1) div n)) d)"
      using 1(1) d(2) enc(2) [OF len(1)] by blast
    also have "take (n * ((length cursor - 1) div n)) cursor = take n cursor @ take (n * ((length d - 1) div n)) d"
      unfolding full d_def using True by (simp add: take_add)
    then have "absorb n (\<lambda>C b. E (xor_bytes C b)) ?s (take (n * ((length d - 1) div n)) d) =
        absorb n (\<lambda>C b. E (xor_bytes C b)) state (take (n * ((length cursor - 1) div n)) cursor)"
      using n len(2) by (simp add: absorb_step)
    moreover have "drop (n * ((length d - 1) div n)) d = drop (n * ((length cursor - 1) div n)) cursor"
      unfolding full d_def by (simp add: add.commute)
    ultimately show ?thesis by simp
  qed
qed

lemma cmac_last_block_eq:
  assumes "length cursor \<le> n" "length k1 = n" "length k2 = n"
  shows "cmac_last_block cursor n k1 k2 =
    (if length cursor = n then xor_bytes cursor k1
     else xor_bytes (cursor @ [0x80] @ zeroes (n - 1 - length cursor)) k2)"
proof -
  have pad: "(copy_at (zeroes n) 0 cursor)[length cursor := 0x80] = cursor @ [0x80] @ zeroes (n - 1 - length cursor)"
    if "length cursor \<noteq> n"
  proof -
    have "zeroes (n - length cursor) = 0 # zeroes (n - 1 - length cursor)"
      using that assms(1) by (simp flip: replicate_Suc)
    then show ?thesis by (simp add: copy_at_def list_update_append)
  qed
  show ?thesis
    unfolding cmac_last_block_def Let_def
    using assms by (cases "length cursor = n") (auto simp: pad intro!: nth_equalityI)
qed

section \<open>The block ciphers\<close>

definition cmac_cipher :: "CmacParameters \<Rightarrow> byte list \<Rightarrow> byte list \<Rightarrow> byte list" where
  "cmac_cipher p key =
     (if cmac_FAMILY p = CMAC_CIPHER_AES
      then aes_encrypt_bytes (snd (crypto_aes_context_init (Some key) (length key)))
      else tdes_encrypt_bytes (tdes_round_keys key))"

lemma cmac_parameters_cases:
  assumes "cmac_parameters alg = Inr p"
  shows "cmac_FAMILY p = CMAC_CIPHER_AES \<Longrightarrow> cmac_BLOCK_LENGTH p = 16 \<and> cmac_KEY_LENGTH p \<in> {16, 24, 32}"
    and "cmac_FAMILY p = CMAC_CIPHER_TDES \<Longrightarrow> cmac_BLOCK_LENGTH p = 8 \<and> cmac_KEY_LENGTH p = 24"
    and "0 < cmac_BLOCK_LENGTH p" "cmac_BLOCK_LENGTH p \<le> 16"
  using assms by (auto simp: cmac_parameters_def Let_def split: if_splits)

lemma cmac_tdes_block:
  assumes "cmac_FAMILY p = CMAC_CIPHER_TDES" "cmac_BLOCK_LENGTH p = 8" "length key = 24" "length input = 8"
  shows "cmac_encrypt_block p c key 24 input = (SUCCESS, tdes_encrypt_bytes (tdes_round_keys key) input)"
proof -
  define m where "m = store (store (\<lambda>_. 0) 1 key) 32 input"
  have key: "load m 1 24 = key"
    unfolding m_def using assms load_store_same [of "\<lambda>_. 0" 1 key] by (subst load_store_disjoint) (auto simp: disjoint_def)
  have input: "load m 32 8 = input"
    unfolding m_def using assms load_store_same [of "store (\<lambda>_. 0) 1 key" 32 input] by simp
  have "crypto_tdes_ede3_crypt m 48 8 32 8 1 24 0 0 CRYPTO_TDES_MODE_ECB True =
      (SUCCESS, store m 48 (tdes_mode CRYPTO_TDES_MODE_ECB True (tdes_round_keys key) (load m 0 8) input))"
    by (subst crypto_tdes_eq) (simp_all add: disjoint_def tdes_validate_SUCCESS key [simplified] input)
  moreover have "tdes_mode CRYPTO_TDES_MODE_ECB True (tdes_round_keys key) iv input =
      tdes_encrypt_bytes (tdes_round_keys key) input" for iv
    using assms(4) by (cases "input = []") (simp_all add: tdes_mode_def transduce.simps [of 8] ecb_step_def)
  moreover have "load (store m 48 (tdes_encrypt_bytes (tdes_round_keys key) input)) 48 8 =
      tdes_encrypt_bytes (tdes_round_keys key) input"
    using load_store_same [of m 48 "tdes_encrypt_bytes (tdes_round_keys key) input"]
    by (simp add: tdes_encrypt_bytes_def)
  ultimately show ?thesis using assms by (simp add: cmac_encrypt_block_def Let_def m_def [symmetric, simplified])
qed

lemma cmac_cipher_block:
  assumes p: "cmac_parameters alg = Inr p" and key: "length key = cmac_KEY_LENGTH p"
    and c: "cmac_FAMILY p = CMAC_CIPHER_AES \<Longrightarrow> c = snd (crypto_aes_context_init (Some key) (length key))"
    and b: "length b = cmac_BLOCK_LENGTH p"
  shows "cmac_encrypt_block p c key (length key) b = (SUCCESS, cmac_cipher p key b)"
    and "length (cmac_cipher p key b) = cmac_BLOCK_LENGTH p"
proof -
  have "cmac_encrypt_block p c key (length key) b = (SUCCESS, cmac_cipher p key b) \<and>
      length (cmac_cipher p key b) = cmac_BLOCK_LENGTH p"
  proof (cases "cmac_FAMILY p")
    case CMAC_CIPHER_AES
    have "aes_context_valid c"
      using cmac_parameters_cases(1) [OF p CMAC_CIPHER_AES] key c [OF CMAC_CIPHER_AES] by (auto intro: aes_context_init_valid)
    then show ?thesis
      using CMAC_CIPHER_AES c cmac_parameters_cases(1) [OF p]
      by (simp add: cmac_encrypt_block_def cmac_cipher_def aes_encrypt_block_valid length_aes_encrypt_bytes)
  next
    case CMAC_CIPHER_TDES
    then show ?thesis
      using cmac_tdes_block [of p key b c] cmac_parameters_cases(2) [OF p CMAC_CIPHER_TDES] key b
      by (simp add: cmac_cipher_def tdes_encrypt_bytes_def)
  qed
  then show "cmac_encrypt_block p c key (length key) b = (SUCCESS, cmac_cipher p key b)"
    "length (cmac_cipher p key b) = cmac_BLOCK_LENGTH p" by auto
qed

lemma cmac_length_arg:
  "n * ((m - 1) div n) \<le> m" "0 < n \<Longrightarrow> m - n * ((m - 1) div n) \<le> (n :: nat)"
proof -
  have split: "m - 1 = n * ((m - 1) div n) + (m - 1) mod n" by simp
  then show "n * ((m - 1) div n) \<le> m" by linarith
  assume "0 < n"
  then have "(m - 1) mod n < n" by simp
  then show "m - n * ((m - 1) div n) \<le> n" using split by linarith
qed

lemma cmac_correct:
  assumes msg: "message \<noteq> None \<Longrightarrow> length (the message) = message_length"
    and len: "key \<noteq> None \<Longrightarrow> length (the key) = key_length"
  shows "LIBERAC_CMAC tag_null tag_capacity tag_length message message_length key key_length alg =
    (case cmac_parameters alg of
       Inl error \<Rightarrow> (error, [])
     | Inr p \<Rightarrow>
         if tag_length = 0 \<or> cmac_BLOCK_LENGTH p < tag_length \<or> tag_null \<or> key = None \<or>
            (message = None \<and> message_length \<noteq> 0) then (INVALID_ARGUMENT, [])
         else if tag_capacity < tag_length then (BUFFER_TOO_SMALL, [])
         else if key_length \<noteq> cmac_KEY_LENGTH p then (INVALID_KEY, [])
         else (SUCCESS, take tag_length (sp_cmac (cmac_cipher p (the key)) (cmac_BLOCK_LENGTH p)
                (cmac_REDUCTION_CONSTANT p) (case message of None \<Rightarrow> [] | Some b \<Rightarrow> b))))"
proof (cases "cmac_parameters alg")
  case (Inr p)
  let ?n = "cmac_BLOCK_LENGTH p" and ?R = "cmac_REDUCTION_CONSTANT p"
  note pc = cmac_parameters_cases [OF Inr]
  have G: ?thesis
    if "tag_length = 0 \<or> ?n < tag_length \<or> tag_null \<or> key = None \<or> (message = None \<and> message_length \<noteq> 0) \<or>
        tag_capacity < tag_length \<or> key_length \<noteq> cmac_KEY_LENGTH p"
    using that by (auto simp: LIBERAC_CMAC_def Inr Let_def)
  show ?thesis
  proof (cases "tag_length = 0 \<or> ?n < tag_length \<or> tag_null \<or> key = None \<or> (message = None \<and> message_length \<noteq> 0) \<or>
      tag_capacity < tag_length \<or> key_length \<noteq> cmac_KEY_LENGTH p")
    case False
    then obtain k where k: "key = Some k" "length k = key_length" "key_length = cmac_KEY_LENGTH p"
      using len by auto
    define M where "M = (case message of None \<Rightarrow> [] | Some b \<Rightarrow> b)"
    have M: "(case message of None \<Rightarrow> [] | Some b \<Rightarrow> take message_length b) = M"
      using msg by (auto simp: M_def split: option.split)
    define c where "c = (if cmac_FAMILY p = CMAC_CIPHER_AES then snd (crypto_aes_context_init key key_length) else aes_cleared)"
    have init: "(if cmac_FAMILY p = CMAC_CIPHER_AES then crypto_aes_context_init key key_length else (SUCCESS, aes_cleared)) = (SUCCESS, c)"
      using pc(1) k aes_context_init_SUCCESS [of key key_length] by (auto simp: c_def prod_eq_iff)
    let ?E = "cmac_cipher p k"
    have enc: "cmac_encrypt_block p c k key_length b = (SUCCESS, ?E b)" "length (?E b) = ?n" if "length b = ?n" for b
      using cmac_cipher_block [OF Inr _ _ that, of k c] k by (simp_all add: c_def)
    define K1 K2 full where "K1 = field_double ?n ?R (?E (zeroes ?n))" and "K2 = field_double ?n ?R K1"
      and "full = ?n * ((length M - 1) div ?n)"
    have keys: "cmac_double (?E (zeroes ?n)) ?n ?R = K1" "cmac_double K1 ?n ?R = K2"
      using pc(3) enc(2) [of "zeroes ?n"] by (simp_all add: cmac_double_field K1_def K2_def)
    define C where "C = absorb ?n (\<lambda>C b. ?E (xor_bytes C b)) (zeroes ?n) (take full M)"
    have loop: "cmac_loop (cmac_encrypt_block p c k key_length) ?n (zeroes ?n) M = Inr (C, drop full M)"
      using cmac_loop_correct [of ?n "cmac_encrypt_block p c k key_length" ?E "zeroes ?n" M] enc pc(3)
      by (simp add: C_def full_def)
    have C: "length C = ?n"
      unfolding C_def by (rule absorb_invariant [where P = "\<lambda>s. length s = ?n"]) (use enc(2) in simp_all)
    define Mn where "Mn = cmac_last_block (drop full M) ?n K1 K2"
    have rest: "length (drop full M) \<le> ?n" using cmac_length_arg(2) [OF pc(3)] by (simp add: full_def)
    have Mn: "Mn = (if length (drop full M) = ?n then xor_bytes (drop full M) K1
        else xor_bytes (drop full M @ [0x80] @ zeroes (?n - 1 - length (drop full M))) K2)" "length Mn = ?n"
      using rest cmac_last_block_eq [of "drop full M" ?n K1 K2] by (auto simp: Mn_def K1_def K2_def)
    have work: "cmac_xor_block C Mn ?n = xor_bytes C Mn" using C Mn(2) by (simp add: cmac_xor_block_eq)
    have "sp_cmac ?E ?n ?R M = ?E (xor_bytes C Mn)"
      unfolding sp_cmac_def Let_def Mn(1) by (simp add: C_def K1_def K2_def full_def)
    then show ?thesis
      using False enc(1) [of "zeroes ?n"] enc(1) [of "xor_bytes C Mn"] C Mn(2)
      unfolding LIBERAC_CMAC_def Inr sum.case Let_def init M
      by (simp add: k keys loop [unfolded k(3)] work M_def [symmetric] flip: Mn_def)
  qed (use G in simp)
qed (simp add: LIBERAC_CMAC_def)

lemma length_sp_cmac:
  assumes "cmac_parameters alg = Inr p" and "length key = cmac_KEY_LENGTH p"
  shows "length (sp_cmac (cmac_cipher p key) (cmac_BLOCK_LENGTH p) R M) = cmac_BLOCK_LENGTH p"
proof -
  let ?n = "cmac_BLOCK_LENGTH p" and ?E = "cmac_cipher p key"
  define full where "full = ?n * ((length M - 1) div ?n)"
  have len: "length (?E b) = ?n" if "length b = ?n" for b
    using cmac_cipher_block(2) [OF assms _ that] by blast
  have C: "length (absorb ?n (\<lambda>C b. ?E (xor_bytes C b)) (zeroes ?n) (take full M)) = ?n"
    by (rule absorb_invariant [where P = "\<lambda>s. length s = ?n"]) (use len in simp_all)
  have "length (drop full M) \<le> ?n"
    using cmac_length_arg(2) [OF cmac_parameters_cases(3) [OF assms(1)]] by (simp add: full_def)
  then show ?thesis
    using C unfolding sp_cmac_def Let_def by (intro len) (simp add: full_def)
qed

lemma cmac_written:
  assumes "LIBERAC_CMAC tag_null tag_capacity tag_length (Some message) (length message) (Some key) (length key) alg =
    (SUCCESS, out)"
  shows "length out = tag_length" "tag_length \<le> 16"
proof -
  obtain p where p: "cmac_parameters alg = Inr p" using assms
    by (cases "cmac_parameters alg") (auto simp: LIBERAC_CMAC_def cmac_parameters_def Let_def split: if_splits)
  have c: "LIBERAC_CMAC tag_null tag_capacity tag_length (Some message) (length message) (Some key) (length key) alg =
      (if tag_length = 0 \<or> cmac_BLOCK_LENGTH p < tag_length \<or> tag_null then (INVALID_ARGUMENT, [])
       else if tag_capacity < tag_length then (BUFFER_TOO_SMALL, [])
       else if length key \<noteq> cmac_KEY_LENGTH p then (INVALID_KEY, [])
       else (SUCCESS, take tag_length (sp_cmac (cmac_cipher p key) (cmac_BLOCK_LENGTH p)
              (cmac_REDUCTION_CONSTANT p) message)))"
    by (subst cmac_correct) (simp_all add: p)
  then show "length out = tag_length" "tag_length \<le> 16"
    using assms length_sp_cmac [OF p] cmac_parameters_cases(4) [OF p] by (auto split: if_splits)
qed


end
