(* ===== verification/Message_Authentication.thy ===== *)
theory Message_Authentication
  imports HMAC CMAC Authenticated_Encryption
begin

text \<open>
  The rest of \<^verbatim>\<open>src/MessageAuthentication.c\<close>: GMAC, which is AES-GCM without a plaintext,
  the public Poly1305 functions, and verification for CMAC. GMAC takes pointers, because the
  AEAD entry points it calls check their overlap.
\<close>

section \<open>GMAC\<close>

definition gmac_algorithm_valid :: "alg_id \<Rightarrow> bool" where
  "gmac_algorithm_valid alg \<longleftrightarrow>
     alg = LIBERAC_ALG_AES_128_GCM \<or> alg = LIBERAC_ALG_AES_192_GCM \<or> alg = LIBERAC_ALG_AES_256_GCM"

definition LIBERAC_GMAC ::
    "mem \<Rightarrow> addr \<Rightarrow> nat \<Rightarrow> nat \<Rightarrow> addr \<Rightarrow> nat \<Rightarrow> addr \<Rightarrow> nat \<Rightarrow> addr \<Rightarrow> nat \<Rightarrow> alg_id \<Rightarrow> status \<times> mem" where
  "LIBERAC_GMAC m tag tag_capacity tag_length message message_length key key_length iv iv_length alg =
     (if \<not> gmac_algorithm_valid alg then (INVALID_ALG_ID, m)
      else if \<not> LIBERAC_AEAD_TAG_LENGTH_VALID alg tag_length \<or> tag = 0 \<or> key = 0 \<or> iv = 0 \<or> iv_length = 0 \<or>
              (message = 0 \<and> message_length \<noteq> 0) then (INVALID_ARGUMENT, m)
      else if tag_capacity < tag_length then (BUFFER_TOO_SMALL, m)
      else LIBERAC_AEAD_ENCRYPT m 0 0 tag tag_capacity tag_length 0 0 key key_length iv iv_length
             message message_length alg)"

definition LIBERAC_GMAC_VERIFY ::
    "mem \<Rightarrow> addr \<Rightarrow> nat \<Rightarrow> addr \<Rightarrow> nat \<Rightarrow> addr \<Rightarrow> nat \<Rightarrow> addr \<Rightarrow> nat \<Rightarrow> alg_id \<Rightarrow> status \<times> mem" where
  "LIBERAC_GMAC_VERIFY m tag tag_length message message_length key key_length iv iv_length alg =
     (if \<not> gmac_algorithm_valid alg then (INVALID_ALG_ID, m)
      else if \<not> LIBERAC_AEAD_TAG_LENGTH_VALID alg tag_length \<or> tag = 0 \<or> key = 0 \<or> iv = 0 \<or> iv_length = 0 \<or>
              (message = 0 \<and> message_length \<noteq> 0) then (INVALID_ARGUMENT, m)
      else LIBERAC_AEAD_DECRYPT m 0 0 tag tag_length 0 0 key key_length iv iv_length
             message message_length alg)"

lemma gmac_family:
  "gmac_algorithm_valid alg \<Longrightarrow> aead_parameters alg = Inr p \<Longrightarrow> aead_FAMILY p = AEAD_FAMILY_AES_GCM"
  by (auto simp: gmac_algorithm_valid_def aead_parameters_def split: if_splits)

text \<open>
  C29. A GMAC tag authenticates exactly its message: after a successful computation, verifying
  any tag of the same length in any store that holds the same key, IV and message succeeds if
  and only if the tag is, byte for byte, the one computed, returns AUTHENTICATION_FAILED
  otherwise, and changes nothing.
\<close>

theorem gmac_verify_exact:
  assumes gen: "LIBERAC_GMAC m tag tag_capacity t msg ml key kl iv ivl alg = (SUCCESS, m1)"
    and same: "load m2 msg ml = load m msg ml" "load m2 key kl = load m key kl" "load m2 iv ivl = load m iv ivl"
  shows "LIBERAC_GMAC_VERIFY m2 tag t msg ml key kl iv ivl alg =
    (if load m2 tag t = load m1 tag t then SUCCESS else AUTHENTICATION_FAILED, m2)"
proof -
  have alg: "gmac_algorithm_valid alg"
    and args: "\<not> (\<not> LIBERAC_AEAD_TAG_LENGTH_VALID alg t \<or> tag = 0 \<or> key = 0 \<or> iv = 0 \<or> ivl = 0 \<or> (msg = 0 \<and> ml \<noteq> 0))"
    and enc: "LIBERAC_AEAD_ENCRYPT m 0 0 tag tag_capacity t 0 0 key kl iv ivl msg ml alg = (SUCCESS, m1)"
    using gen unfolding LIBERAC_GMAC_def by (auto split: if_splits)
  obtain p where p: "aead_parameters alg = Inr p"
    and ok: "aead_validate_request 0 0 tag t 0 0 key kl iv ivl msg ml alg p = SUCCESS"
    and lim: "aead_limits (aead_FAMILY p) ivl ml 0"
    and m1: "m1 = store (store m 0 (fst (aead_sealed m (aead_FAMILY p) 0 0 key kl iv ivl msg ml t))) tag
        (snd (aead_sealed m (aead_FAMILY p) 0 0 key kl iv ivl msg ml t))"
    using enc by (rule aead_encrypt_SUCCESS)
  define fk where "fk = (aead_FAMILY p, load m key kl)"
  have valid: "aead_valid fk t" unfolding fk_def using aead_valid_request(1) [OF p ok] .
  define T where "T = snd (aead_seal fk (load m iv ivl) (load m msg ml) t [])"
  have T: "length T = t" unfolding T_def using aead.length_tag [OF valid] .
  have nil: "fst (aead_seal fk n a t []) = []" for n a
    using aead.length_seal [OF valid, of n a "[]"] by simp
  have tag: "load m1 tag t = T"
  proof -
    have "m1 = store (store m 0 (fst (aead_sealed m (aead_FAMILY p) 0 0 key kl iv ivl msg ml t))) tag T"
      by (simp add: m1 aead_sealed_def T_def fk_def)
    then show ?thesis using load_store_same [of _ tag T] by (simp add: T)
  qed
  have unseal: "aead_unseal fk (load m iv ivl) (load m msg ml) t [] (load m2 tag t) =
      (if load m2 tag t = T then Some [] else None)"
  proof -
    have iff: "aead_unseal fk (load m iv ivl) (load m msg ml) t [] (load m2 tag t) = Some q \<longleftrightarrow>
        aead_seal fk (load m iv ivl) (load m msg ml) t q = ([], load m2 tag t)" for q
      using aead.unseal_iff [OF valid] by simp
    have "aead_seal fk (load m iv ivl) (load m msg ml) t q = ([], load m2 tag t) \<longleftrightarrow> q = [] \<and> load m2 tag t = T" for q
      using aead.length_seal [OF valid, of "load m iv ivl" "load m msg ml" q] nil
      by (auto simp: T_def prod_eq_iff)
    with iff show ?thesis
      by (cases "aead_unseal fk (load m iv ivl) (load m msg ml) t [] (load m2 tag t)") auto
  qed
  show ?thesis
    using alg args lim unseal
    by (simp add: LIBERAC_GMAC_VERIFY_def aead_decrypt_eq [OF p ok] same tag flip: fk_def)
qed

lemma gmac_verify_exact_witness:
  "\<exists>m1. LIBERAC_GMAC of_nat 2000 16 12 5000 7 3000 16 4000 12 LIBERAC_ALG_AES_128_GCM = (SUCCESS, m1) \<and>
    LIBERAC_GMAC_VERIFY of_nat 2000 12 5000 7 3000 16 4000 12 LIBERAC_ALG_AES_128_GCM =
      (if load of_nat 2000 12 = load m1 2000 12 then SUCCESS else AUTHENTICATION_FAILED, of_nat)"
proof -
  have p: "aead_parameters LIBERAC_ALG_AES_128_GCM = Inr \<lparr>aead_KEY_LENGTH = 16, aead_FAMILY = AEAD_FAMILY_AES_GCM\<rparr>"
    by (simp add: aead_parameters_def)
  have ok: "aead_validate_request 0 0 2000 12 0 0 3000 16 4000 12 5000 7 LIBERAC_ALG_AES_128_GCM
      \<lparr>aead_KEY_LENGTH = 16, aead_FAMILY = AEAD_FAMILY_AES_GCM\<rparr> = SUCCESS"
    by (simp add: aead_validate_SUCCESS LIBERAC_AEAD_NONCE_LENGTH_VALID_def LIBERAC_AEAD_TAG_LENGTH_VALID_def
        p aead_ranges_ok_def disjoint_def)
  have "12 \<le> (16 :: nat)" by simp
  from aead_encrypt_eq [OF p ok this, of of_nat]
  have "fst (LIBERAC_GMAC of_nat 2000 16 12 5000 7 3000 16 4000 12 LIBERAC_ALG_AES_128_GCM) = SUCCESS"
    by (simp add: LIBERAC_GMAC_def gmac_algorithm_valid_def LIBERAC_AEAD_TAG_LENGTH_VALID_def p aead_limits_def)
  then obtain m1 where "LIBERAC_GMAC of_nat 2000 16 12 5000 7 3000 16 4000 12 LIBERAC_ALG_AES_128_GCM = (SUCCESS, m1)"
    by (metis prod.collapse)
  then show ?thesis using gmac_verify_exact by blast
qed

section \<open>Poly1305\<close>

definition LIBERAC_POLY1305_TAG_SIZE :: "alg_id \<Rightarrow> nat" where
  "LIBERAC_POLY1305_TAG_SIZE alg = (if alg = LIBERAC_ALG_POLY1305 then 16 else 0)"

definition LIBERAC_POLY1305 ::
    "bool \<Rightarrow> nat \<Rightarrow> byte list option \<Rightarrow> nat \<Rightarrow> byte list option \<Rightarrow> nat \<Rightarrow> alg_id \<Rightarrow> status \<times> byte list" where
  "LIBERAC_POLY1305 tag_null tag_capacity message message_length key key_length alg =
     (if alg \<noteq> LIBERAC_ALG_POLY1305 then (INVALID_ALG_ID, [])
      else if tag_null \<or> key = None \<or> (message = None \<and> message_length \<noteq> 0) then (INVALID_ARGUMENT, [])
      else if key_length \<noteq> 32 then (INVALID_KEY, [])
      else if tag_capacity < 16 then (BUFFER_TOO_SMALL, [])
      else (SUCCESS, crypto_poly1305_internal (input_bytes message message_length) (the key)))"

definition LIBERAC_POLY1305_VERIFY ::
    "byte list option \<Rightarrow> nat \<Rightarrow> byte list option \<Rightarrow> nat \<Rightarrow> byte list option \<Rightarrow> nat \<Rightarrow> alg_id \<Rightarrow> status" where
  "LIBERAC_POLY1305_VERIFY tag tag_length message message_length key key_length alg =
     (if alg \<noteq> LIBERAC_ALG_POLY1305 then INVALID_ALG_ID
      else if tag = None \<or> key = None \<or> (message = None \<and> message_length \<noteq> 0) \<or> tag_length \<noteq> 16 then INVALID_ARGUMENT
      else if key_length \<noteq> 32 then INVALID_KEY
      else if crypto_constant_time_equal
                (crypto_poly1305_internal (input_bytes message message_length) (the key)) (the tag) 16
      then SUCCESS else AUTHENTICATION_FAILED)"

text \<open>
  The public Poly1305 functions on every branch: generation returns the one-time MAC of
  the message under the 32-byte key after the checks in the order of the code, and
  verification accepts exactly that MAC.
\<close>

theorem LIBERAC_POLY1305_correct:
  "LIBERAC_POLY1305 tag_null tag_capacity (Some message) (length message) (Some key) (length key) alg =
    (if alg \<noteq> LIBERAC_ALG_POLY1305 then (INVALID_ALG_ID, [])
     else if tag_null then (INVALID_ARGUMENT, [])
     else if length key \<noteq> 32 then (INVALID_KEY, [])
     else if tag_capacity < 16 then (BUFFER_TOO_SMALL, [])
     else (SUCCESS, poly1305_mac message key)) \<and>
   LIBERAC_POLY1305_VERIFY (Some tag) (length tag) (Some message) (length message) (Some key) (length key) alg =
    (if alg \<noteq> LIBERAC_ALG_POLY1305 then INVALID_ALG_ID
     else if length tag \<noteq> 16 then INVALID_ARGUMENT
     else if length key \<noteq> 32 then INVALID_KEY
     else if tag = poly1305_mac message key then SUCCESS else AUTHENTICATION_FAILED)"
  by (auto simp: LIBERAC_POLY1305_def LIBERAC_POLY1305_VERIFY_def input_bytes_def crypto_poly1305_internal_mac
      crypto_constant_time_equal_iff)

section \<open>Verification of CMAC tags\<close>

text \<open>
  CMAC verification accepts exactly the tag CMAC would produce: SUCCESS if and only if the
  computation succeeds with these bytes, AUTHENTICATION_FAILED if it succeeds with others, and
  otherwise the error of the computation.
\<close>

theorem LIBERAC_CMAC_VERIFY_correct:
  "LIBERAC_CMAC_VERIFY (Some tag) (length tag) (Some message) (length message) (Some key) (length key) alg =
    (case LIBERAC_CMAC False 16 (length tag) (Some message) (length message) (Some key) (length key) alg of
       (error, expected) \<Rightarrow> if error = SUCCESS \<and> expected \<noteq> tag then AUTHENTICATION_FAILED else error)"
proof -
  obtain e x where r: "LIBERAC_CMAC False 16 (length tag) (Some message) (length message) (Some key) (length key) alg = (e, x)"
    by (meson surj_pair)
  have "crypto_constant_time_equal (copy_at (zeroes 16) 0 x) tag (length tag) \<longleftrightarrow> x = tag" if "e = SUCCESS"
  proof -
    have "length x = length tag" "length tag \<le> 16"
      using cmac_written [OF r [unfolded that]] by simp_all
    then show ?thesis by (simp add: crypto_constant_time_equal_iff copy_at_def)
  qed
  then show ?thesis by (auto simp: LIBERAC_CMAC_VERIFY_def r)
qed

end
