(* ===== verification/Output_Blocks.thy ===== *)
theory Output_Blocks
  imports Prelude
begin

text \<open>
  Output produced in blocks of a fixed size and cut to the requested length: the interface of
  HKDF-Expand, PBKDF2 and the random generator. The client writes block after block and stops
  inside the last one; the laws say what remains to be written after \<open>i\<close> blocks.
\<close>

definition blocks_output :: "nat \<Rightarrow> (nat \<Rightarrow> byte list) \<Rightarrow> nat \<Rightarrow> byte list" where
  "blocks_output h f L = take L (concat (map f [0..<(L + h - 1) div h]))"

locale block_output =
  fixes h :: nat and f :: "nat \<Rightarrow> byte list"
  assumes length_block: "length (f i) = h"
begin

lemma length_blocks: "length (concat (map f [i..<n])) = h * (n - i)"
  by (induction n) (auto simp: length_block Suc_diff_le)

lemma drop_blocks: "i \<le> n \<Longrightarrow> drop (h * i) (concat (map f [0..<n])) = concat (map f [i..<n])"
proof -
  assume "i \<le> n"
  then have "[0..<n] = [0..<i] @ [i..<n]" using upt_add_eq_append [of 0 i "n - i"] by simp
  then show ?thesis using length_blocks [of 0 i] by simp
qed

lemma enough_blocks:
  assumes "0 < h"
  shows "L \<le> h * ((L + h - 1) div h)"
proof -
  have "L + h - 1 < h * ((L + h - 1) div h) + h"
    using dividend_less_times_div [OF assms, of "L + h - 1"] by simp
  then show ?thesis by linarith
qed

lemma length_blocks_output: "0 < h \<Longrightarrow> length (blocks_output h f L) = L"
  using enough_blocks [of L] by (simp add: blocks_output_def length_blocks [of 0])

lemma blocks_output_rest:
  assumes "0 < h" "h * i < L"
  shows "drop (h * i) (blocks_output h f L) =
    take (min h (L - h * i)) (f i) @ drop (h * Suc i) (blocks_output h f L)"
proof -
  let ?n = "(L + h - 1) div h"
  have "h * i < h * ?n" using assms enough_blocks [OF assms(1), of L] by linarith
  then have i: "i < ?n" by simp
  have D: "drop (h * j) (blocks_output h f L) = take (L - h * j) (concat (map f [j..<?n]))" if "j \<le> ?n" for j
    unfolding blocks_output_def drop_take drop_blocks [OF that] ..
  have "drop (h * i) (blocks_output h f L) = take (L - h * i) (f i @ concat (map f [Suc i..<?n]))"
    using D [of i] i by (simp add: upt_conv_Cons)
  also have "\<dots> = take (min h (L - h * i)) (f i) @ take (L - h * Suc i) (concat (map f [Suc i..<?n]))"
    by (simp add: length_block min_def add.commute)
  also have "take (L - h * Suc i) (concat (map f [Suc i..<?n])) = drop (h * Suc i) (blocks_output h f L)"
    using D [of "Suc i"] i by simp
  finally show ?thesis .
qed

lemma blocks_output_0 [simp]: "blocks_output h f 0 = []"
  by (simp add: blocks_output_def)

end

end
