(* ===== verification/Key_Derivation.thy ===== *)
theory Key_Derivation
  imports HMAC Output_Blocks
begin

text \<open>
  HKDF and PBKDF2 over HMAC (\<^verbatim>\<open>src/KeyDerivation.c\<close>), on an explicit store because the code
  refuses overlapping buffers. The specifications are RFC 5869 and RFC 8018 over any
  pseudorandom function of a fixed output length, the interface \<open>keyed_function\<close>.
\<close>

section \<open>The code\<close>

text \<open>
  \<open>malloc_ok\<close> says whether the allocation of the working buffer succeeds. Addresses and
  lengths are below \<open>2 ^ 64\<close> in the code; a null pointer is address \<open>0\<close>.
\<close>

definition kdf_optional_input_valid :: "addr \<Rightarrow> nat \<Rightarrow> bool" where
  "kdf_optional_input_valid input n \<longleftrightarrow> input \<noteq> 0 \<or> n = 0"

definition LIBERAC_HKDF_PRK_SIZE :: "alg_id \<Rightarrow> nat" where
  "LIBERAC_HKDF_PRK_SIZE alg = LIBERAC_HMAC_TAG_SIZE alg"

definition LIBERAC_HKDF_EXTRACT ::
    "mem \<Rightarrow> addr \<Rightarrow> nat \<Rightarrow> addr \<Rightarrow> nat \<Rightarrow> addr \<Rightarrow> nat \<Rightarrow> alg_id \<Rightarrow> status \<times> mem" where
  "LIBERAC_HKDF_EXTRACT m prk prk_capacity ikm ikm_length salt salt_length alg =
     (let digest_length = LIBERAC_HMAC_TAG_SIZE alg in
      if digest_length = 0 then (INVALID_ALG_ID, m)
      else if prk = 0 \<or> \<not> kdf_optional_input_valid ikm ikm_length \<or>
              \<not> kdf_optional_input_valid salt salt_length then (INVALID_ARGUMENT, m)
      else if prk_capacity < digest_length then (BUFFER_TOO_SMALL, m)
      else if crypto_ranges_overlap prk digest_length ikm ikm_length \<or>
              crypto_ranges_overlap prk digest_length salt salt_length then (INVALID_ARGUMENT, m)
      else
        let (effective_salt, effective_salt_length) =
              (if salt_length = 0 then (Some (take digest_length (zeroes 64)), digest_length) else (ptr m salt salt_length, salt_length));
            (error, tag) = LIBERAC_HMAC False prk_capacity digest_length (ptr m ikm ikm_length) ikm_length
              effective_salt effective_salt_length alg
        in (error, store m prk tag))"

text \<open>The expansion loop: the status, the store and the number of bytes produced.\<close>

function hkdf_expand_loop ::
    "alg_id \<Rightarrow> nat \<Rightarrow> addr \<Rightarrow> nat \<Rightarrow> addr \<Rightarrow> nat \<Rightarrow> addr \<Rightarrow> nat \<Rightarrow> mem \<Rightarrow> nat \<Rightarrow> byte list \<Rightarrow> nat \<Rightarrow> status \<times> mem \<times> nat" where
  "hkdf_expand_loop alg digest_length okm okm_length prk prk_length info info_length m produced previous block_index =
     (if produced < okm_length \<and> 0 < digest_length then
        let message = previous @ load m info info_length @ [of_nat block_index];
            (error, tag) = LIBERAC_HMAC False 64 digest_length (Some message) (length message)
              (ptr m prk prk_length) prk_length alg
        in if error \<noteq> SUCCESS then (error, m, produced)
           else let copy_length = (if digest_length < okm_length - produced then digest_length
                                   else okm_length - produced)
             in hkdf_expand_loop alg digest_length okm okm_length prk prk_length info info_length
                  (store m (okm + produced) (take copy_length tag)) (produced + copy_length) tag (block_index + 1)
      else (SUCCESS, m, produced))"
  by pat_completeness auto
termination
  by (relation "measure (\<lambda>(_, _, _, okm_length, _, _, _, _, _, produced, _, _). okm_length - produced)") auto

declare hkdf_expand_loop.simps [simp del]

definition LIBERAC_HKDF_EXPAND ::
    "bool \<Rightarrow> mem \<Rightarrow> addr \<Rightarrow> nat \<Rightarrow> nat \<Rightarrow> addr \<Rightarrow> nat \<Rightarrow> addr \<Rightarrow> nat \<Rightarrow> alg_id \<Rightarrow> status \<times> mem" where
  "LIBERAC_HKDF_EXPAND malloc_ok m okm okm_capacity okm_length prk prk_length info info_length alg =
     (let digest_length = LIBERAC_HMAC_TAG_SIZE alg in
      if digest_length = 0 then (INVALID_ALG_ID, m)
      else if prk = 0 \<or> prk_length < digest_length \<or> \<not> kdf_optional_input_valid info info_length \<or>
              (okm = 0 \<and> okm_length \<noteq> 0) then (INVALID_ARGUMENT, m)
      else if 255 * digest_length < okm_length then (MESSAGE_TOO_LARGE, m)
      else if okm_capacity < okm_length then (BUFFER_TOO_SMALL, m)
      else if crypto_ranges_overlap okm okm_length prk prk_length \<or>
              crypto_ranges_overlap okm okm_length info info_length then (INVALID_ARGUMENT, m)
      else if okm_length = 0 then (SUCCESS, m)
      else if (2 ^ 64 - 1) - digest_length - 1 < info_length then (MESSAGE_TOO_LARGE, m)
      else if \<not> malloc_ok then (ALLOCATION_FAILED, m)
      else
        let (error, m, produced) = hkdf_expand_loop alg digest_length okm okm_length prk prk_length
              info info_length m 0 [] 1
        in (error, if error \<noteq> SUCCESS \<and> produced \<noteq> 0 then crypto_zeroize m okm produced else m))"

text \<open>\<open>frame\<close> is the address of the local array \<^verbatim>\<open>prk\<close> of 64 bytes.\<close>

definition LIBERAC_HKDF ::
    "bool \<Rightarrow> addr \<Rightarrow> mem \<Rightarrow> addr \<Rightarrow> nat \<Rightarrow> nat \<Rightarrow> addr \<Rightarrow> nat \<Rightarrow> addr \<Rightarrow> nat \<Rightarrow> addr \<Rightarrow> nat \<Rightarrow> alg_id \<Rightarrow> status \<times> mem" where
  "LIBERAC_HKDF malloc_ok frame m okm okm_capacity okm_length ikm ikm_length salt salt_length info info_length alg =
     (let digest_length = LIBERAC_HMAC_TAG_SIZE alg in
      if digest_length = 0 then (INVALID_ALG_ID, m)
      else
        let m = crypto_zeroize m frame 64;
            (error, m) = LIBERAC_HKDF_EXTRACT m frame 64 ikm ikm_length salt salt_length alg;
            (error, m) = (if error = SUCCESS
              then LIBERAC_HKDF_EXPAND malloc_ok m okm okm_capacity okm_length frame digest_length info info_length alg
              else (error, m))
        in (error, crypto_zeroize m frame 64))"

text \<open>
  The inner loop of PBKDF2, for the remaining number of iterations: it swaps two buffers, so
  the state is the current block and the accumulator.
\<close>

primrec pbkdf2_iterate ::
    "nat \<Rightarrow> alg_id \<Rightarrow> nat \<Rightarrow> byte list option \<Rightarrow> nat \<Rightarrow> byte list \<Rightarrow> byte list \<Rightarrow> status \<times> byte list" where
  "pbkdf2_iterate 0 alg digest_length password password_length current accumulator = (SUCCESS, accumulator)"
| "pbkdf2_iterate (Suc n) alg digest_length password password_length current accumulator =
     (let (error, tag) = LIBERAC_HMAC False 64 digest_length (Some current) digest_length password password_length alg
      in if error \<noteq> SUCCESS then (error, accumulator)
         else pbkdf2_iterate n alg digest_length password password_length tag
                (map (\<lambda>index. accumulator ! index XOR tag ! index) [0..<digest_length]))"

function pbkdf2_loop ::
    "alg_id \<Rightarrow> nat \<Rightarrow> addr \<Rightarrow> nat \<Rightarrow> addr \<Rightarrow> nat \<Rightarrow> byte list \<Rightarrow> nat \<Rightarrow> nat \<Rightarrow> mem \<Rightarrow> nat \<Rightarrow> nat \<Rightarrow> status \<times> mem \<times> nat" where
  "pbkdf2_loop alg digest_length derived_key derived_key_length password password_length salt_bytes
       iteration_count block_count m produced block_offset =
     (if block_offset < block_count then
        let encoded_block_number = of_nat (block_offset + 1) :: u32;
            salt_block = salt_bytes @ [ucast (drop_bit 24 encoded_block_number),
              ucast (drop_bit 16 encoded_block_number), ucast (drop_bit 8 encoded_block_number),
              ucast encoded_block_number];
            (error, current) = LIBERAC_HMAC False 64 digest_length (Some salt_block) (length salt_block)
              (ptr m password password_length) password_length alg
        in if error \<noteq> SUCCESS then (error, m, produced)
           else
             let (error, accumulator) = pbkdf2_iterate (iteration_count - 1) alg digest_length
                   (ptr m password password_length) password_length current current
             in if error \<noteq> SUCCESS then (error, m, produced)
                else
                  let copy_length = (if digest_length < derived_key_length - produced then digest_length
                                     else derived_key_length - produced)
                  in pbkdf2_loop alg digest_length derived_key derived_key_length password password_length
                       salt_bytes iteration_count block_count
                       (store m (derived_key + produced) (take copy_length accumulator))
                       (produced + copy_length) (block_offset + 1)
      else (SUCCESS, m, produced))"
  by pat_completeness auto
termination
  by (relation "measure (\<lambda>(_, _, _, _, _, _, _, _, block_count, _, _, block_offset). block_count - block_offset)") auto

declare pbkdf2_loop.simps [simp del]

definition LIBERAC_PBKDF2_HMAC ::
    "bool \<Rightarrow> mem \<Rightarrow> addr \<Rightarrow> nat \<Rightarrow> nat \<Rightarrow> addr \<Rightarrow> nat \<Rightarrow> addr \<Rightarrow> nat \<Rightarrow> nat \<Rightarrow> alg_id \<Rightarrow> status \<times> mem" where
  "LIBERAC_PBKDF2_HMAC malloc_ok m derived_key derived_key_capacity derived_key_length
       password password_length salt salt_length iteration_count alg =
     (let digest_length = LIBERAC_HMAC_TAG_SIZE alg in
      if digest_length = 0 then (INVALID_ALG_ID, m)
      else if derived_key = 0 \<or> derived_key_length = 0 \<or> \<not> kdf_optional_input_valid password password_length \<or>
              \<not> kdf_optional_input_valid salt salt_length \<or> iteration_count = 0 then (INVALID_ARGUMENT, m)
      else if derived_key_capacity < derived_key_length then (BUFFER_TOO_SMALL, m)
      else let block_count = (derived_key_length - 1) div digest_length + 1 in
        if 2 ^ 32 - 1 < block_count then (MESSAGE_TOO_LARGE, m)
        else if (2 ^ 64 - 1) - 4 < salt_length then (MESSAGE_TOO_LARGE, m)
        else if crypto_ranges_overlap derived_key derived_key_length password password_length \<or>
                crypto_ranges_overlap derived_key derived_key_length salt salt_length then (INVALID_ARGUMENT, m)
        else if \<not> malloc_ok then (ALLOCATION_FAILED, m)
        else
          let (error, m, produced) = pbkdf2_loop alg digest_length derived_key derived_key_length
                password password_length (load m salt salt_length) iteration_count block_count m 0 0
          in (error, if error \<noteq> SUCCESS \<and> produced \<noteq> 0 then crypto_zeroize m derived_key produced else m))"

section \<open>RFC 5869 and RFC 8018\<close>

text \<open>The blocks of HKDF-Expand: each is the function of the previous one, the info and a counter byte.\<close>

primrec hkdf_T :: "(byte list \<Rightarrow> byte list) \<Rightarrow> byte list \<Rightarrow> nat \<Rightarrow> byte list" where
  "hkdf_T prf info 0 = []"
| "hkdf_T prf info (Suc i) = prf (hkdf_T prf info i @ info @ [of_nat (Suc i)])"

definition rfc_hkdf_expand :: "nat \<Rightarrow> (byte list \<Rightarrow> byte list) \<Rightarrow> byte list \<Rightarrow> nat \<Rightarrow> byte list" where
  "rfc_hkdf_expand h prf info L = blocks_output h (\<lambda>i. hkdf_T prf info (Suc i)) L"

text \<open>The blocks of PBKDF2: the exclusive or of \<open>c\<close> iterates of the function.\<close>

definition pbkdf2_U :: "(byte list \<Rightarrow> byte list) \<Rightarrow> byte list \<Rightarrow> nat \<Rightarrow> nat \<Rightarrow> byte list" where
  "pbkdf2_U prf S i j = (prf ^^ j) (S @ be_of_nat 4 i)"

definition pbkdf2_F :: "(byte list \<Rightarrow> byte list) \<Rightarrow> byte list \<Rightarrow> nat \<Rightarrow> nat \<Rightarrow> byte list" where
  "pbkdf2_F prf S c i = foldl (\<lambda>acc j. xor_bytes acc (pbkdf2_U prf S i j)) (pbkdf2_U prf S i 1) [2..<c + 1]"

definition rfc_pbkdf2 :: "nat \<Rightarrow> (byte list \<Rightarrow> byte list) \<Rightarrow> byte list \<Rightarrow> nat \<Rightarrow> nat \<Rightarrow> byte list" where
  "rfc_pbkdf2 h prf S c L = blocks_output h (\<lambda>i. pbkdf2_F prf S c (Suc i)) L"

locale keyed_function =
  fixes h :: nat and F :: "byte list \<Rightarrow> byte list \<Rightarrow> byte list"
  assumes length_prf: "length (F K M) = h"
begin

lemma length_hkdf_T: "length (hkdf_T (F K) info (Suc i)) = h"
  by (simp add: length_prf)

lemma length_pbkdf2_U: "0 < j \<Longrightarrow> length (pbkdf2_U (F K) S i j) = h"
  by (cases j) (simp_all add: pbkdf2_U_def length_prf)

lemma length_pbkdf2_F: "length (pbkdf2_F (F K) S c i) = h"
proof -
  have "length (foldl (\<lambda>acc j. xor_bytes acc (pbkdf2_U (F K) S i j)) acc js) = h"
    if "length acc = h" "\<forall>j \<in> set js. 0 < j" for acc js
    using that by (induction js arbitrary: acc) (simp_all add: length_pbkdf2_U)
  then show ?thesis by (simp add: pbkdf2_F_def length_pbkdf2_U)
qed

end

sublocale keyed_function \<subseteq> hkdf: block_output h "\<lambda>i. hkdf_T (F K) info (Suc i)" for K info
  by unfold_locales (rule length_hkdf_T)

sublocale keyed_function \<subseteq> pbkdf2: block_output h "\<lambda>i. pbkdf2_F (F K) S c (Suc i)" for K S c
  by unfold_locales (rule length_pbkdf2_F)

interpretation hmac: keyed_function "LIBERAC_HMAC_TAG_SIZE alg" "hmac_of alg" for alg
  by unfold_locales (rule length_hmac_of)

section \<open>Correctness\<close>

lemma hmac_tag_size:
  assumes "LIBERAC_HMAC_TAG_SIZE alg \<noteq> 0"
  obtains p where "hmac_parameters alg = Inr p" "LIBERAC_HMAC_TAG_SIZE alg = hmac_DIGEST_LENGTH p"
  using assms by (auto simp: LIBERAC_HMAC_TAG_SIZE_def split: sum.splits)

lemma hmac_tag_size_le: "LIBERAC_HMAC_TAG_SIZE alg \<le> 64"
  using hmac_parameters_hash(4) by (auto simp: LIBERAC_HMAC_TAG_SIZE_def split: sum.split)

text \<open>A full-length HMAC call of this file succeeds on inputs of any practical size.\<close>

lemma hmac_call:
  assumes "LIBERAC_HMAC_TAG_SIZE alg \<noteq> 0" and "LIBERAC_HMAC_TAG_SIZE alg \<le> capacity"
    and "n < 2 ^ 60" "k < 2 ^ 60"
    and "message \<noteq> None \<Longrightarrow> length (the message) = n" "key \<noteq> None \<Longrightarrow> length (the key) = k"
    and "message = None \<Longrightarrow> n = 0" "key = None \<Longrightarrow> k = 0"
  shows "LIBERAC_HMAC False capacity (LIBERAC_HMAC_TAG_SIZE alg) message n key k alg =
    (SUCCESS, hmac_of alg (input_bytes key k) (input_bytes message n))"
proof -
  obtain p where p: "hmac_parameters alg = Inr p" "LIBERAC_HMAC_TAG_SIZE alg = hmac_DIGEST_LENGTH p"
    using assms(1) by (rule hmac_tag_size)
  have "hmac_fits alg p k n"
    using assms hmac_parameters_hash(6) [OF p(1)] by (simp add: hmac_fits_def hash_fits_small)
  moreover have "n < 2 ^ 64" "k < 2 ^ 64" using assms by simp_all
  ultimately show ?thesis
    using assms p by (subst hmac_correct) (auto simp: length_hmac_of)
qed

lemma input_bytes_None [simp]: "input_bytes None n = []"
  by (simp add: input_bytes_def)

lemma input_bytes_ptr: "p \<noteq> 0 \<or> n = 0 \<Longrightarrow> input_bytes (ptr m p n) n = load m p n"
  by (auto simp: input_bytes_def ptr_def)

lemma input_bytes_Some: "length xs = n \<Longrightarrow> input_bytes (Some xs) n = xs"
  by (auto simp: input_bytes_def)

lemma hmac_call_ptr:
  assumes "LIBERAC_HMAC_TAG_SIZE alg \<noteq> 0" and "LIBERAC_HMAC_TAG_SIZE alg \<le> capacity"
    and "length M < 2 ^ 60" "k < 2 ^ 60" "p \<noteq> 0 \<or> k = 0"
  shows "LIBERAC_HMAC False capacity (LIBERAC_HMAC_TAG_SIZE alg) (Some M) (length M) (ptr m p k) k alg =
    (SUCCESS, hmac_of alg (load m p k) M)"
  using assms by (subst hmac_call) (auto simp: input_bytes_ptr input_bytes_Some ptr_def)

text \<open>A partial block is written, and the next call starts right behind it.\<close>

lemma store_block:
  assumes "length t = h" "h * i < L"
  shows "length (take (min h (L - h * i)) t) = min L (h * Suc i) - h * i"
    "h * i + min h (L - h * i) = min L (h * Suc i)"
  using assms by auto

lemma load_store_outside:
  assumes "disjoint p L q n" "a \<le> L" "a + length bs \<le> L"
  shows "load (store m (p + a) bs) q n = load m q n"
  by (rule load_store_disjoint) (use assms in \<open>auto simp: disjoint_def\<close>)

lemma hkdf_expand_loop_correct:
  fixes alg K I L
  defines "h \<equiv> LIBERAC_HMAC_TAG_SIZE alg"
  defines "out \<equiv> rfc_hkdf_expand h (hmac_of alg K) I L"
  assumes h: "h \<noteq> 0" and sizes: "plen < 2 ^ 60" "ilen < 2 ^ 59" and prk: "prk \<noteq> 0"
    and apart: "disjoint okm L prk plen" "disjoint okm L info ilen"
    and data: "load m prk plen = K" "load m info ilen = I"
  shows "hkdf_expand_loop alg h okm L prk plen info ilen m (min L (h * i)) (hkdf_T (hmac_of alg K) I i) (i + 1) =
    (SUCCESS, store m (okm + min L (h * i)) (drop (h * i) out), L)"
  using data
proof (induction "L - h * i" arbitrary: i m rule: less_induct)
  case less
  have len: "length out = L"
    using h hmac.hkdf.length_blocks_output [of alg K I L] unfolding out_def rfc_hkdf_expand_def h_def by simp
  show ?case
  proof (cases "h * i < L")
    case False
    then show ?thesis using len by (simp add: hkdf_expand_loop.simps)
  next
    case True
    define T where "T = hkdf_T (hmac_of alg K) I (i + 1)"
    let ?n = "min h (L - h * i)"
    have lT: "length T = h" by (simp add: T_def h_def length_hmac_of)
    have "length (hkdf_T (hmac_of alg K) I i) \<le> 64"
      using hmac_tag_size_le [of alg] by (cases i) (simp_all add: length_hmac_of)
    moreover have "length I = ilen" using less.prems by auto
    ultimately have "LIBERAC_HMAC False 64 h (Some (hkdf_T (hmac_of alg K) I i @ I @ [of_nat (i + 1)]))
        (length (hkdf_T (hmac_of alg K) I i @ I @ [of_nat (i + 1)])) (ptr m prk plen) plen alg = (SUCCESS, T)"
      using h sizes prk less.prems hmac_tag_size_le [of alg] unfolding h_def
      by (subst hmac_call_ptr) (simp_all add: T_def)
    moreover have copied: "?n = (if h < L - h * i then h else L - h * i)" by simp
    ultimately have step: "hkdf_expand_loop alg h okm L prk plen info ilen m (h * i) (hkdf_T (hmac_of alg K) I i) (i + 1) =
        hkdf_expand_loop alg h okm L prk plen info ilen (store m (okm + h * i) (take ?n T)) (h * i + ?n) T (i + 1 + 1)"
      using True h less.prems unfolding copied by (subst hkdf_expand_loop.simps) simp
    note blk = store_block [OF lT True]
    have keep: "load (store m (okm + h * i) (take ?n T)) prk plen = K"
      "load (store m (okm + h * i) (take ?n T)) info ilen = I"
      using load_store_outside [OF apart(1), of "h * i" "take ?n T" m] load_store_outside [OF apart(2), of "h * i" "take ?n T" m]
        blk(1) True less.prems by simp_all
    have rest: "drop (h * i) out = take ?n T @ drop (h * Suc i) out"
      using hmac.hkdf.blocks_output_rest [of alg i L K I] True h
      unfolding out_def rfc_hkdf_expand_def T_def h_def by simp
    have "L - h * Suc i < L - h * i" using True h by simp
    from less.hyps [OF this keep] have
      "hkdf_expand_loop alg h okm L prk plen info ilen (store m (okm + h * i) (take ?n T)) (h * i + ?n) T (i + 1 + 1) =
        (SUCCESS, store (store m (okm + h * i) (take ?n T)) (okm + (h * i + ?n)) (drop (h * Suc i) out), L)"
      unfolding blk(2) T_def by simp
    moreover have "store (store m (okm + h * i) (take ?n T)) (okm + (h * i + ?n)) (drop (h * Suc i) out) =
        store m (okm + h * i) (drop (h * i) out)"
      unfolding rest store_append using blk True by (simp add: add.assoc)
    ultimately show ?thesis using True step by (simp add: min_def)
  qed
qed

lemma ptr_cases: "kdf_optional_input_valid p n \<Longrightarrow> ptr m p n = None \<Longrightarrow> n = 0"
  "ptr m p n \<noteq> None \<Longrightarrow> length (the (ptr m p n)) = n"
  by (auto simp: kdf_optional_input_valid_def ptr_def split: if_splits)

lemma hkdf_extract_correct:
  assumes "n < 2 ^ 60" "k < 2 ^ 60"
  shows "LIBERAC_HKDF_EXTRACT m prk capacity ikm n salt k alg =
    (let h = LIBERAC_HMAC_TAG_SIZE alg in
     if h = 0 then (INVALID_ALG_ID, m)
     else if prk = 0 \<or> \<not> kdf_optional_input_valid ikm n \<or> \<not> kdf_optional_input_valid salt k then (INVALID_ARGUMENT, m)
     else if capacity < h then (BUFFER_TOO_SMALL, m)
     else if crypto_ranges_overlap prk h ikm n \<or> crypto_ranges_overlap prk h salt k then (INVALID_ARGUMENT, m)
     else (SUCCESS, store m prk (hmac_of alg (if k = 0 then zeroes h else load m salt k) (load m ikm n))))"
proof (cases "LIBERAC_HMAC_TAG_SIZE alg = 0 \<or> prk = 0 \<or> \<not> kdf_optional_input_valid ikm n \<or>
    \<not> kdf_optional_input_valid salt k \<or> capacity < LIBERAC_HMAC_TAG_SIZE alg")
  case True
  then show ?thesis by (auto simp: LIBERAC_HKDF_EXTRACT_def Let_def)
next
  case False
  let ?h = "LIBERAC_HMAC_TAG_SIZE alg"
  have v: "kdf_optional_input_valid ikm n" "kdf_optional_input_valid salt k" "?h \<noteq> 0" "?h \<le> capacity" "?h \<le> 64"
    using False hmac_tag_size_le [of alg] by auto
  note p = ptr_cases(1) [OF v(1)] ptr_cases(2) ptr_cases(1) [OF v(2)]
  have "LIBERAC_HMAC False capacity ?h (ptr m ikm n) n (Some (take ?h (zeroes 64))) ?h alg =
      (SUCCESS, hmac_of alg (zeroes ?h) (load m ikm n))"
    using v assms p by (subst hmac_call) (auto simp: input_bytes_ptr input_bytes_Some kdf_optional_input_valid_def)
  moreover have "LIBERAC_HMAC False capacity ?h (ptr m ikm n) n (ptr m salt k) k alg =
      (SUCCESS, hmac_of alg (load m salt k) (load m ikm n))"
    using v assms p by (subst hmac_call) (auto simp: input_bytes_ptr kdf_optional_input_valid_def)
  ultimately show ?thesis using False by (auto simp: LIBERAC_HKDF_EXTRACT_def Let_def)
qed

lemma hkdf_expand_correct:
  assumes "plen < 2 ^ 60" "ilen < 2 ^ 59"
  shows "LIBERAC_HKDF_EXPAND malloc_ok m okm capacity L prk plen info ilen alg =
    (let h = LIBERAC_HMAC_TAG_SIZE alg in
     if h = 0 then (INVALID_ALG_ID, m)
     else if prk = 0 \<or> plen < h \<or> \<not> kdf_optional_input_valid info ilen \<or> (okm = 0 \<and> L \<noteq> 0) then (INVALID_ARGUMENT, m)
     else if 255 * h < L then (MESSAGE_TOO_LARGE, m)
     else if capacity < L then (BUFFER_TOO_SMALL, m)
     else if crypto_ranges_overlap okm L prk plen \<or> crypto_ranges_overlap okm L info ilen then (INVALID_ARGUMENT, m)
     else if L \<noteq> 0 \<and> \<not> malloc_ok then (ALLOCATION_FAILED, m)
     else (SUCCESS, store m okm (rfc_hkdf_expand h (hmac_of alg (load m prk plen)) (load m info ilen) L)))"
proof -
  let ?h = "LIBERAC_HMAC_TAG_SIZE alg"
  have "\<not> (2 ^ 64 - 1) - ?h - 1 < ilen" using assms hmac_tag_size_le [of alg] by simp
  moreover have "rfc_hkdf_expand ?h f x 0 = []" for f x
    by (simp add: rfc_hkdf_expand_def blocks_output_def)
  moreover have "hkdf_expand_loop alg ?h okm L prk plen info ilen m 0 [] 1 =
      (SUCCESS, store m okm (rfc_hkdf_expand ?h (hmac_of alg (load m prk plen)) (load m info ilen) L), L)"
    if "?h \<noteq> 0" "prk \<noteq> 0" "\<not> crypto_ranges_overlap okm L prk plen" "\<not> crypto_ranges_overlap okm L info ilen"
    using hkdf_expand_loop_correct [of alg plen ilen prk okm L info m "load m prk plen" "load m info ilen" 0] that assms
    by (simp add: crypto_ranges_overlap_iff)
  ultimately show ?thesis by (auto simp: LIBERAC_HKDF_EXPAND_def Let_def)
qed

definition rfc_hkdf :: "nat \<Rightarrow> (byte list \<Rightarrow> byte list \<Rightarrow> byte list) \<Rightarrow> byte list \<Rightarrow> byte list \<Rightarrow> byte list \<Rightarrow> nat \<Rightarrow> byte list" where
  "rfc_hkdf h F salt ikm info L = rfc_hkdf_expand h (F (F (if salt = [] then zeroes h else salt) ikm)) info L"

text \<open>The local buffer leaves no trace: it is overwritten with zeroes on every path.\<close>

lemma crypto_zeroize_outside:
  assumes "\<And>a. \<not> (p \<le> a \<and> a < p + n) \<Longrightarrow> m a = m' a" and "p \<noteq> 0"
  shows "crypto_zeroize m p n = crypto_zeroize m' p n"
  using assms by (auto simp: crypto_zeroize_def store_apply fun_eq_iff)

lemma crypto_zeroize_twice: "crypto_zeroize (crypto_zeroize m p n) p n = crypto_zeroize m p n"
  by (auto simp: crypto_zeroize_def store_apply fun_eq_iff)

text \<open>
  C30. HKDF on every branch, the local buffer being apart from the caller's buffers: the errors
  in the order of the two stages, and otherwise the output of RFC 5869 (a missing salt counts
  as a block of zeroes) and nothing else written; the pseudorandom key is erased in all cases.
\<close>

theorem LIBERAC_HKDF_correct:
  assumes sizes: "n < 2 ^ 60" "k < 2 ^ 60" "ilen < 2 ^ 59"
    and frame: "frame \<noteq> 0" "disjoint frame 64 ikm n" "disjoint frame 64 salt k" "disjoint frame 64 info ilen" "disjoint frame 64 okm L"
  shows "LIBERAC_HKDF malloc_ok frame m okm capacity L ikm n salt k info ilen alg =
    (let h = LIBERAC_HMAC_TAG_SIZE alg; clean = crypto_zeroize m frame 64 in
     if h = 0 then (INVALID_ALG_ID, m)
     else if \<not> kdf_optional_input_valid ikm n \<or> \<not> kdf_optional_input_valid salt k \<or>
             \<not> kdf_optional_input_valid info ilen \<or> (okm = 0 \<and> L \<noteq> 0) then (INVALID_ARGUMENT, clean)
     else if 255 * h < L then (MESSAGE_TOO_LARGE, clean)
     else if capacity < L then (BUFFER_TOO_SMALL, clean)
     else if crypto_ranges_overlap okm L info ilen then (INVALID_ARGUMENT, clean)
     else if L \<noteq> 0 \<and> \<not> malloc_ok then (ALLOCATION_FAILED, clean)
     else (SUCCESS, crypto_zeroize (store m okm (rfc_hkdf h (hmac_of alg) (load m salt k) (load m ikm n)
             (load m info ilen) L)) frame 64))"
proof (cases "LIBERAC_HMAC_TAG_SIZE alg = 0")
  case True
  then show ?thesis by (simp add: LIBERAC_HKDF_def)
next
  case h: False
  let ?h = "LIBERAC_HMAC_TAG_SIZE alg" and ?m = "crypto_zeroize m frame 64"
  have h64: "?h \<le> 64" by (rule hmac_tag_size_le)
  have outside: "load ?m q i = load m q i" if "disjoint frame 64 q i" for q i
    using that frame(1) by (simp add: crypto_zeroize_def load_store_disjoint)
  define prk where "prk = hmac_of alg (if load m salt k = [] then zeroes ?h else load m salt k) (load m ikm n)"
  let ?e = "store ?m frame prk"
  have lp: "length prk = ?h" by (simp add: prk_def length_hmac_of)
  have near: "disjoint frame ?h q i" if "disjoint frame 64 q i" for q i
    using that h64 by (auto simp: disjoint_def)
  have "load m salt k = [] \<longleftrightarrow> k = 0" by (metis length_load list.size(3) load_0)
  then have ext: "LIBERAC_HKDF_EXTRACT ?m frame 64 ikm n salt k alg =
      (if \<not> kdf_optional_input_valid ikm n \<or> \<not> kdf_optional_input_valid salt k then (INVALID_ARGUMENT, ?m) else (SUCCESS, ?e))"
    using h h64 frame near sizes
    by (subst hkdf_extract_correct) (auto simp: Let_def crypto_ranges_overlap_iff outside prk_def)
  have e: "load ?e frame ?h = prk" "load ?e info ilen = load m info ilen"
    using load_store_same [of ?m frame prk] load_store_disjoint [of frame prk info ilen ?m] near [OF frame(4)] outside [OF frame(4)]
    by (simp_all add: lp)
  have clean: "crypto_zeroize ?e frame 64 = ?m"
    using frame(1) h64 lp by (intro crypto_zeroize_outside) (auto simp: store_apply crypto_zeroize_def)
  have final: "crypto_zeroize (store ?e okm x) frame 64 = crypto_zeroize (store m okm x) frame 64" for x
    using frame(1) h64 lp by (intro crypto_zeroize_outside) (auto simp: store_apply crypto_zeroize_def)
  have "disjoint okm L frame ?h" using near [OF frame(5)] by (auto simp: disjoint_def)
  then have exp: "LIBERAC_HKDF_EXPAND malloc_ok ?e okm capacity L frame ?h info ilen alg =
     (if \<not> kdf_optional_input_valid info ilen \<or> (okm = 0 \<and> L \<noteq> 0) then (INVALID_ARGUMENT, ?e)
      else if 255 * ?h < L then (MESSAGE_TOO_LARGE, ?e)
      else if capacity < L then (BUFFER_TOO_SMALL, ?e)
      else if crypto_ranges_overlap okm L info ilen then (INVALID_ARGUMENT, ?e)
      else if L \<noteq> 0 \<and> \<not> malloc_ok then (ALLOCATION_FAILED, ?e)
      else (SUCCESS, store ?e okm (rfc_hkdf_expand ?h (hmac_of alg prk) (load m info ilen) L)))"
    using h h64 frame(1) sizes
    by (subst hkdf_expand_correct) (auto simp: Let_def e crypto_ranges_overlap_iff disjoint_def)
  show ?thesis
    using h unfolding LIBERAC_HKDF_def Let_def ext rfc_hkdf_def prk_def [symmetric]
    by (auto simp: exp clean final crypto_zeroize_twice)
qed

lemma LIBERAC_HKDF_correct_witness:
  "LIBERAC_HKDF True 1000 (\<lambda>_. 0x0b) 100 42 42 200 22 300 13 400 10 LIBERAC_ALG_HASH_SHA2_256 =
    (SUCCESS, crypto_zeroize (store (\<lambda>_. 0x0b) 100 (rfc_hkdf 32 (hmac_of LIBERAC_ALG_HASH_SHA2_256)
      (load (\<lambda>_. 0x0b) 300 13) (load (\<lambda>_. 0x0b) 200 22) (load (\<lambda>_. 0x0b) 400 10) 42)) 1000 64)"
  using LIBERAC_HKDF_correct [of 22 13 10 1000 200 300 400 100 42 True "\<lambda>_. 0x0b" 42 LIBERAC_ALG_HASH_SHA2_256]
  by (simp add: disjoint_def LIBERAC_HMAC_TAG_SIZE_def hmac_parameters_def Let_def kdf_optional_input_valid_def crypto_ranges_overlap_def)

lemma pbkdf2_iterate_correct:
  assumes h: "LIBERAC_HMAC_TAG_SIZE alg \<noteq> 0" and pw: "plen < 2 ^ 60" "password = None \<Longrightarrow> plen = 0"
    "password \<noteq> None \<Longrightarrow> length (the password) = plen"
    and len: "length current = LIBERAC_HMAC_TAG_SIZE alg" "length acc = LIBERAC_HMAC_TAG_SIZE alg"
  shows "pbkdf2_iterate n alg (LIBERAC_HMAC_TAG_SIZE alg) password plen current acc =
    (SUCCESS, foldl (\<lambda>acc j. xor_bytes acc ((hmac_of alg (input_bytes password plen) ^^ j) current)) acc [1..<n + 1])"
  using len
proof (induction n arbitrary: current acc)
  case (Suc n)
  let ?F = "hmac_of alg (input_bytes password plen)" and ?h = "LIBERAC_HMAC_TAG_SIZE alg"
  have call: "LIBERAC_HMAC False 64 ?h (Some current) ?h password plen alg = (SUCCESS, ?F current)"
    using h pw Suc.prems hmac_tag_size_le [of alg] by (subst hmac_call) (auto simp: input_bytes_Some)
  have "map (\<lambda>i. acc ! i XOR ?F current ! i) [0..<?h] = xor_bytes acc (?F current)"
    using Suc.prems by (intro nth_equalityI) (simp_all add: length_hmac_of)
  moreover have "[1..<Suc n + 1] = 1 # map Suc [1..<n + 1]" using upt_conv_Cons [of 1 "Suc n + 1"] by (simp add: map_Suc_upt del: upt_Suc)
  ultimately show ?case
    using Suc.prems by (simp add: call Suc.IH length_hmac_of foldl_map funpow_swap1 del: upt_Suc)
qed simp

text \<open>One block of the code is one block of the standard.\<close>

lemma pbkdf2_block:
  assumes h: "LIBERAC_HMAC_TAG_SIZE alg \<noteq> 0" and pw: "plen < 2 ^ 60" "password = None \<Longrightarrow> plen = 0"
    "password \<noteq> None \<Longrightarrow> length (the password) = plen" and c: "0 < c"
  defines "F \<equiv> hmac_of alg (input_bytes password plen)"
  shows "pbkdf2_iterate (c - 1) alg (LIBERAC_HMAC_TAG_SIZE alg) password plen (F (S @ be_of_nat 4 i)) (F (S @ be_of_nat 4 i)) =
    (SUCCESS, pbkdf2_F F S c i)"
proof -
  have "[2..<c + 1] = map Suc [1..<c - 1 + 1]" using c by (simp add: map_Suc_upt numeral_2_eq_2)
  then have "pbkdf2_F F S c i = foldl (\<lambda>acc j. xor_bytes acc ((F ^^ j) (F (S @ be_of_nat 4 i)))) (F (S @ be_of_nat 4 i)) [1..<c - 1 + 1]"
    by (simp add: pbkdf2_F_def pbkdf2_U_def foldl_map funpow_swap1 del: upt_Suc)
  then show ?thesis
    using pbkdf2_iterate_correct [OF h pw] by (simp add: F_def length_hmac_of)
qed

lemma pbkdf2_loop_correct:
  fixes alg K S L c
  defines "h \<equiv> LIBERAC_HMAC_TAG_SIZE alg"
  defines "out \<equiv> rfc_pbkdf2 h (hmac_of alg K) S c L"
  assumes h: "h \<noteq> 0" and sizes: "plen < 2 ^ 60" "length S < 2 ^ 59" "pw \<noteq> 0 \<or> plen = 0" and c: "0 < c"
    and L: "0 < L" "(L - 1) div h + 1 < 2 ^ 32"
    and apart: "disjoint dk L pw plen" and data: "load m pw plen = K" and i: "i \<le> (L - 1) div h + 1"
  shows "pbkdf2_loop alg h dk L pw plen S c ((L - 1) div h + 1) m (min L (h * i)) i =
    (SUCCESS, store m (dk + min L (h * i)) (drop (h * i) out), L)"
  using data i
proof (induction "(L - 1) div h + 1 - i" arbitrary: i m rule: less_induct)
  case less
  let ?b = "(L - 1) div h + 1"
  have len: "length out = L"
    using h hmac.pbkdf2.length_blocks_output [of alg K S c L] unfolding out_def rfc_pbkdf2_def h_def by simp
  have inside: "h * i < L \<longleftrightarrow> i < ?b"
  proof -
    have "h * i \<le> L - 1 \<longleftrightarrow> i \<le> (L - 1) div h"
      using h by (simp add: less_eq_div_iff_mult_less_eq mult.commute)
    then show ?thesis using L(1) by (auto simp: less_Suc_eq_le)
  qed
  show ?case
  proof (cases "i < ?b")
    case False
    then show ?thesis using len inside by (simp add: pbkdf2_loop.simps)
  next
    case True
    then have hi: "h * i < L" using inside by simp
    let ?n = "min h (L - h * i)" and ?F = "hmac_of alg K"
    define T where "T = pbkdf2_F ?F S c (Suc i)"
    have lT: "length T = h" by (simp add: T_def h_def hmac.length_pbkdf2_F)
    have salt: "[ucast (drop_bit 24 (of_nat (i + 1) :: u32)), ucast (drop_bit 16 (of_nat (i + 1) :: u32)),
        ucast (drop_bit 8 (of_nat (i + 1) :: u32)), ucast (of_nat (i + 1) :: u32)] = be_of_nat 4 (Suc i)"
      using store32_be_of_nat [of "i + 1"] by (simp add: crypto_store32_be_def)
    have K: "input_bytes (ptr m pw plen) plen = K"
      using sizes(3) less.prems by (simp add: input_bytes_ptr)
    have first: "LIBERAC_HMAC False 64 h (Some (S @ be_of_nat 4 (Suc i))) (length (S @ be_of_nat 4 (Suc i))) (ptr m pw plen) plen alg =
        (SUCCESS, ?F (S @ be_of_nat 4 (Suc i)))"
      using h sizes less.prems hmac_tag_size_le [of alg] unfolding h_def by (subst hmac_call_ptr) simp_all
    have block: "pbkdf2_iterate (c - 1) alg h (ptr m pw plen) plen (?F (S @ be_of_nat 4 (Suc i))) (?F (S @ be_of_nat 4 (Suc i))) = (SUCCESS, T)"
      using pbkdf2_block [of alg plen "ptr m pw plen" c S "Suc i"] h sizes c unfolding K h_def T_def by (auto simp: ptr_def)
    have copied: "?n = (if h < L - h * i then h else L - h * i)" by simp
    have step: "pbkdf2_loop alg h dk L pw plen S c ?b m (h * i) i =
        pbkdf2_loop alg h dk L pw plen S c ?b (store m (dk + h * i) (take ?n T)) (h * i + ?n) (i + 1)"
      using True unfolding copied
      by (subst pbkdf2_loop.simps) (simp only: if_True Let_def salt first block prod.case if_False simp_thms)
    note blk = store_block [OF lT hi]
    have keep: "load (store m (dk + h * i) (take ?n T)) pw plen = K"
      using load_store_outside [OF apart, of "h * i" "take ?n T" m] blk(1) hi less.prems by simp
    have rest: "drop (h * i) out = take ?n T @ drop (h * Suc i) out"
      using hmac.pbkdf2.blocks_output_rest [of alg i L K S c] hi h
      unfolding out_def rfc_pbkdf2_def T_def h_def by simp
    have "?b - Suc i < ?b - i" "Suc i \<le> ?b" using True by simp_all
    from less.hyps [OF this(1) keep this(2)] have
      "pbkdf2_loop alg h dk L pw plen S c ?b (store m (dk + h * i) (take ?n T)) (h * i + ?n) (i + 1) =
        (SUCCESS, store (store m (dk + h * i) (take ?n T)) (dk + (h * i + ?n)) (drop (h * Suc i) out), L)"
      unfolding blk(2) by simp
    moreover have "store (store m (dk + h * i) (take ?n T)) (dk + (h * i + ?n)) (drop (h * Suc i) out) =
        store m (dk + h * i) (drop (h * i) out)"
      unfolding rest store_append using blk hi by (simp add: add.assoc)
    moreover have "min L (h * i) = h * i" using hi by simp
    ultimately show ?thesis by (simp only: step)
  qed
qed

text \<open>
  C31. PBKDF2 on every branch: the argument checks in the order of the code, and otherwise the
  derived key of RFC 8018 over HMAC, for every iteration count and length, with nothing else written.
\<close>

theorem LIBERAC_PBKDF2_HMAC_correct:
  assumes sizes: "plen < 2 ^ 60" "slen < 2 ^ 59"
  shows "LIBERAC_PBKDF2_HMAC malloc_ok m dk capacity L pw plen salt slen c alg =
    (let h = LIBERAC_HMAC_TAG_SIZE alg in
     if h = 0 then (INVALID_ALG_ID, m)
     else if dk = 0 \<or> L = 0 \<or> \<not> kdf_optional_input_valid pw plen \<or> \<not> kdf_optional_input_valid salt slen \<or> c = 0
     then (INVALID_ARGUMENT, m)
     else if capacity < L then (BUFFER_TOO_SMALL, m)
     else if (2 ^ 32 - 1) * h < L then (MESSAGE_TOO_LARGE, m)
     else if crypto_ranges_overlap dk L pw plen \<or> crypto_ranges_overlap dk L salt slen then (INVALID_ARGUMENT, m)
     else if \<not> malloc_ok then (ALLOCATION_FAILED, m)
     else (SUCCESS, store m dk (rfc_pbkdf2 h (hmac_of alg (load m pw plen)) (load m salt slen) c L)))"
proof -
  let ?h = "LIBERAC_HMAC_TAG_SIZE alg" and ?b = "(L - 1) div LIBERAC_HMAC_TAG_SIZE alg + 1"
  have large: "2 ^ 32 - 1 < ?b \<longleftrightarrow> (2 ^ 32 - 1) * ?h < L" if "?h \<noteq> 0" "L \<noteq> 0"
  proof -
    have "2 ^ 32 - 1 \<le> (L - 1) div ?h \<longleftrightarrow> (2 ^ 32 - 1) * ?h \<le> L - 1"
      using that(1) by (simp only: less_eq_div_iff_mult_less_eq neq0_conv)
    then show ?thesis using that(2) by auto
  qed
  have loop: "pbkdf2_loop alg ?h dk L pw plen (load m salt slen) c ?b m 0 0 =
      (SUCCESS, store m dk (rfc_pbkdf2 ?h (hmac_of alg (load m pw plen)) (load m salt slen) c L), L)"
    if "?h \<noteq> 0" "L \<noteq> 0" "c \<noteq> 0" "kdf_optional_input_valid pw plen" "\<not> 2 ^ 32 - 1 < ?b" "\<not> crypto_ranges_overlap dk L pw plen"
    using pbkdf2_loop_correct [of alg plen "load m salt slen" pw c L dk m "load m pw plen" 0] that sizes
    by (simp add: crypto_ranges_overlap_iff kdf_optional_input_valid_def)
  have "\<not> (2 ^ 64 - 1) - 4 < slen" using sizes by simp
  then show ?thesis using large loop
    by (cases "?h = 0 \<or> dk = 0 \<or> L = 0 \<or> \<not> kdf_optional_input_valid pw plen \<or> \<not> kdf_optional_input_valid salt slen \<or> c = 0 \<or>
        capacity < L \<or> 2 ^ 32 - 1 < ?b")
      (auto simp: LIBERAC_PBKDF2_HMAC_def Let_def)
qed

lemma LIBERAC_PBKDF2_HMAC_correct_witness:
  "LIBERAC_PBKDF2_HMAC True (\<lambda>_. 0x70) 100 25 25 200 8 300 4 2 LIBERAC_ALG_HASH_SHA1 =
    (SUCCESS, store (\<lambda>_. 0x70) 100 (rfc_pbkdf2 20 (hmac_of LIBERAC_ALG_HASH_SHA1 (load (\<lambda>_. 0x70) 200 8)) (load (\<lambda>_. 0x70) 300 4) 2 25))"
  using LIBERAC_PBKDF2_HMAC_correct [of 8 4 True "\<lambda>_. 0x70" 100 25 25 200 300 2 LIBERAC_ALG_HASH_SHA1]
  by (simp add: LIBERAC_HMAC_TAG_SIZE_def hmac_parameters_def Let_def kdf_optional_input_valid_def crypto_ranges_overlap_def)

end
