(* ===== verification/CTR_DRBG.thy ===== *)
theory CTR_DRBG
  imports Output_Blocks Triple_DES AES_Modes Alg_Ids
begin

text \<open>
  The CTR_DRBG random generator (\<^verbatim>\<open>src/RandomNumberGeneration/CTR_DRBG/ctr_drbg.c\<close>) over AES
  and three-key Triple DES, with and without derivation function, and the public interface
  of \<^verbatim>\<open>src/RandomNumberGeneration.c\<close>. The specification is SP 800-90A.
\<close>

section \<open>Parameters and state\<close>

datatype CtrDrbgCipherFamily = CTR_DRBG_CIPHER_AES | CTR_DRBG_CIPHER_TDEA

record CtrDrbgParameters =
  dp_KEY_LENGTH :: nat
  dp_BLOCK_LENGTH :: nat
  dp_SECURITY_BYTES :: nat
  dp_MAX_REQUEST_BYTES :: nat
  dp_RESEED_INTERVAL :: u64
  dp_USE_DF :: bool
  dp_FAMILY :: CtrDrbgCipherFamily

record LiberaCCtrDrbgContext =
  drbg_ALG :: alg_id
  drbg_KEY :: "byte list"
  drbg_V :: "byte list"
  drbg_RESEED_COUNTER :: u64
  drbg_KEY_LENGTH :: nat
  drbg_USE_DF :: bool
  drbg_INSTANTIATED :: bool

definition ctr_drbg_parameters :: "alg_id \<Rightarrow> status + CtrDrbgParameters" where
  "ctr_drbg_parameters alg =
     (let aes = (\<lambda>key_length use_df.
            \<lparr>dp_KEY_LENGTH = key_length, dp_BLOCK_LENGTH = 16, dp_SECURITY_BYTES = key_length,
             dp_MAX_REQUEST_BYTES = 65536, dp_RESEED_INTERVAL = push_bit 48 1, dp_USE_DF = use_df,
             dp_FAMILY = CTR_DRBG_CIPHER_AES\<rparr>);
          tdea = (\<lambda>use_df.
            \<lparr>dp_KEY_LENGTH = 21, dp_BLOCK_LENGTH = 8, dp_SECURITY_BYTES = 14,
             dp_MAX_REQUEST_BYTES = 1024, dp_RESEED_INTERVAL = push_bit 32 1, dp_USE_DF = use_df,
             dp_FAMILY = CTR_DRBG_CIPHER_TDEA\<rparr>)
      in if alg = LIBERAC_ALG_CTR_DRBG_AES_128_DF \<or> alg = LIBERAC_ALG_CTR_DRBG_AES_128_NO_DF
         then Inr (aes 16 (alg = LIBERAC_ALG_CTR_DRBG_AES_128_DF))
         else if alg = LIBERAC_ALG_CTR_DRBG_AES_192_DF \<or> alg = LIBERAC_ALG_CTR_DRBG_AES_192_NO_DF
         then Inr (aes 24 (alg = LIBERAC_ALG_CTR_DRBG_AES_192_DF))
         else if alg = LIBERAC_ALG_CTR_DRBG_AES_256_DF \<or> alg = LIBERAC_ALG_CTR_DRBG_AES_256_NO_DF
         then Inr (aes 32 (alg = LIBERAC_ALG_CTR_DRBG_AES_256_DF))
         else if alg = LIBERAC_ALG_CTR_DRBG_TDEA_DF \<or> alg = LIBERAC_ALG_CTR_DRBG_TDEA_NO_DF
         then Inr (tdea (alg = LIBERAC_ALG_CTR_DRBG_TDEA_DF))
         else Inl INVALID_ALG_ID)"

definition ctr_drbg_context_parameters :: "LiberaCCtrDrbgContext \<Rightarrow> status + CtrDrbgParameters" where
  "ctr_drbg_context_parameters context =
     (case ctr_drbg_parameters (drbg_ALG context) of
        Inl err \<Rightarrow> Inl err
      | Inr selected \<Rightarrow>
          if drbg_KEY_LENGTH context \<noteq> dp_KEY_LENGTH selected \<or> drbg_USE_DF context \<noteq> dp_USE_DF selected
          then Inl INVALID_ARGUMENT
          else Inr selected)"

definition crypto_ctr_drbg_seed_size_internal :: "alg_id \<Rightarrow> nat" where
  "crypto_ctr_drbg_seed_size_internal alg =
     (case ctr_drbg_parameters alg of
        Inl _ \<Rightarrow> 0
      | Inr parameters \<Rightarrow> dp_KEY_LENGTH parameters + dp_BLOCK_LENGTH parameters)"

definition crypto_ctr_drbg_clear_internal :: LiberaCCtrDrbgContext where
  "crypto_ctr_drbg_clear_internal =
     \<lparr>drbg_ALG = 0, drbg_KEY = zeroes 32, drbg_V = zeroes 16, drbg_RESEED_COUNTER = 0,
      drbg_KEY_LENGTH = 0, drbg_USE_DF = False, drbg_INSTANTIATED = False\<rparr>"

section \<open>The counter and the block cipher\<close>

text \<open>The carry is a 16-bit sum; every byte is visited, from the last to the first.\<close>

fun increment_v :: "byte list \<Rightarrow> nat \<Rightarrow> 16 word \<Rightarrow> byte list" where
  "increment_v v 0 carry = v"
| "increment_v v (Suc index) carry =
     (let sum = ucast (v ! index) + carry :: 16 word
      in increment_v (v[index := ucast sum]) index (drop_bit 8 sum))"

definition set_odd_parity :: "byte \<Rightarrow> byte" where
  "set_odd_parity value =
     (let parity = value;
          parity = parity XOR drop_bit 4 parity;
          parity = parity XOR drop_bit 2 parity;
          parity = parity XOR drop_bit 1 parity
      in (value AND 0xfe) OR ((parity XOR 1) AND 1))"

definition expand_tdea_key :: "byte list \<Rightarrow> byte list" where
  "expand_tdea_key key =
     concat (map (\<lambda>group.
       let packed = fold (\<lambda>index packed. push_bit 8 packed OR ucast (key ! (7 * group + index))) [0..<7] (0 :: u64)
       in map (\<lambda>index. set_odd_parity (push_bit 1 (ucast (drop_bit (49 - 7 * index) packed AND 0x7f)))) [0..<8])
       [0..<3])"

record CtrDrbgBlockContext =
  cb_FAMILY :: "CtrDrbgCipherFamily option"
  cb_AES :: AES_CONTEXT
  cb_TDEA :: CryptoTdesEde3Context

definition ctr_block_context_clear :: CtrDrbgBlockContext where
  "ctr_block_context_clear =
     \<lparr>cb_FAMILY = None, cb_AES = aes_cleared, cb_TDEA = crypto_tdes_ede3_context_clear\<rparr>"

definition ctr_block_context_init :: "CtrDrbgParameters \<Rightarrow> byte list \<Rightarrow> status \<times> CtrDrbgBlockContext" where
  "ctr_block_context_init parameters key =
     (let context = ctr_block_context_clear;
          (err, context) =
            (case dp_FAMILY parameters of
               CTR_DRBG_CIPHER_AES \<Rightarrow>
                 let (err, aes) = crypto_aes_context_init (Some key) (dp_KEY_LENGTH parameters)
                 in (err, context\<lparr>cb_AES := aes\<rparr>)
             | CTR_DRBG_CIPHER_TDEA \<Rightarrow>
                 let (err, tdea) = crypto_tdes_ede3_context_init (Some (expand_tdea_key key)) 24
                 in (err, case tdea of None \<Rightarrow> context | Some tdea \<Rightarrow> context\<lparr>cb_TDEA := tdea\<rparr>))
      in if err = SUCCESS then (SUCCESS, context\<lparr>cb_FAMILY := Some (dp_FAMILY parameters)\<rparr>)
         else (err, ctr_block_context_clear))"

definition ctr_block_encrypt :: "CtrDrbgBlockContext \<Rightarrow> byte list \<Rightarrow> status \<times> byte list" where
  "ctr_block_encrypt context input =
     (case cb_FAMILY context of
        Some CTR_DRBG_CIPHER_AES \<Rightarrow> crypto_aes_encrypt_block (cb_AES context) input
      | Some CTR_DRBG_CIPHER_TDEA \<Rightarrow> crypto_tdes_ede3_encrypt_block (cb_TDEA context) input
      | None \<Rightarrow> (INVALID_ARGUMENT, []))"

section \<open>The derivation function\<close>

function bcc_loop :: "nat \<Rightarrow> CtrDrbgBlockContext \<Rightarrow> byte list \<Rightarrow> byte list \<Rightarrow> status \<times> byte list" where
  "bcc_loop n context chain string =
     (if string \<noteq> [] \<and> 0 < n then
        let x = map (\<lambda>index. chain ! index XOR string ! index) [0..<n];
            (err, chain) = ctr_block_encrypt context x
        in if err \<noteq> SUCCESS then (err, []) else bcc_loop n context chain (drop n string)
      else (SUCCESS, chain))"
  by pat_completeness auto
termination
  by (relation "measure (\<lambda>(n, context, chain, string). length string)") auto

declare bcc_loop.simps [simp del]

definition bcc :: "CtrDrbgParameters \<Rightarrow> CtrDrbgBlockContext \<Rightarrow> byte list \<Rightarrow> byte list \<Rightarrow> status \<times> byte list" where
  "bcc parameters context iv string =
     (let n = dp_BLOCK_LENGTH parameters;
          chain = zeroes 16;
          x = map (\<lambda>index. chain ! index XOR iv ! index) [0..<n];
          (err, chain) = ctr_block_encrypt context x
      in if err \<noteq> SUCCESS then (err, []) else bcc_loop n context chain string)"

text \<open>
  The loops that collect blocks into a buffer, with the number of bytes already there: over
  the chaining of the input, over iterated encryption, and over the counter \<open>V\<close>. The block
  length is never zero; the test makes the recursion well-founded.
\<close>

function df_collect ::
    "CtrDrbgParameters \<Rightarrow> CtrDrbgBlockContext \<Rightarrow> byte list \<Rightarrow> nat \<Rightarrow> byte list \<Rightarrow> nat \<Rightarrow> u32 \<Rightarrow> status \<times> byte list" where
  "df_collect parameters context string seed_length temp used counter =
     (if used < seed_length \<and> 0 < dp_BLOCK_LENGTH parameters then
        let iv = copy_at (zeroes 16) 0 (crypto_store32_be counter);
            (err, block) = bcc parameters context iv string
        in if err \<noteq> SUCCESS then (err, temp)
           else let copy_length = (if dp_BLOCK_LENGTH parameters < seed_length - used
                                   then dp_BLOCK_LENGTH parameters else seed_length - used)
             in df_collect parameters context string seed_length
                  (copy_at temp used (take copy_length block)) (used + copy_length) (counter + 1)
      else (SUCCESS, temp))"
  by pat_completeness auto
termination
  by (relation "measure (\<lambda>(_, _, _, seed_length, _, used, _). seed_length - used)") auto

declare df_collect.simps [simp del]

function df_output ::
    "CtrDrbgParameters \<Rightarrow> CtrDrbgBlockContext \<Rightarrow> nat \<Rightarrow> byte list \<Rightarrow> byte list \<Rightarrow> nat \<Rightarrow> status \<times> byte list" where
  "df_output parameters context output_length x output generated =
     (if generated < output_length \<and> 0 < dp_BLOCK_LENGTH parameters then
        let (err, x) = ctr_block_encrypt context x
        in if err \<noteq> SUCCESS then (err, output)
           else let copy_length = (if dp_BLOCK_LENGTH parameters < output_length - generated
                                   then dp_BLOCK_LENGTH parameters else output_length - generated)
             in df_output parameters context output_length x
                  (copy_at output generated (take copy_length x)) (generated + copy_length)
      else (SUCCESS, output))"
  by pat_completeness auto
termination
  by (relation "measure (\<lambda>(_, _, output_length, _, _, generated). output_length - generated)") auto

declare df_output.simps [simp del]

function v_collect ::
    "CtrDrbgParameters \<Rightarrow> CtrDrbgBlockContext \<Rightarrow> nat \<Rightarrow> byte list \<Rightarrow> byte list \<Rightarrow> nat \<Rightarrow> status \<times> byte list \<times> byte list" where
  "v_collect parameters cipher wanted v output used =
     (if used < wanted \<and> 0 < dp_BLOCK_LENGTH parameters then
        let v = increment_v v (dp_BLOCK_LENGTH parameters) 1;
            (err, block) = ctr_block_encrypt cipher (take (dp_BLOCK_LENGTH parameters) v)
        in if err \<noteq> SUCCESS then (err, v, output)
           else let copy_length = (if dp_BLOCK_LENGTH parameters < wanted - used
                                   then dp_BLOCK_LENGTH parameters else wanted - used)
             in v_collect parameters cipher wanted v
                  (copy_at output used (take copy_length block)) (used + copy_length)
      else (SUCCESS, v, output))"
  by pat_completeness auto
termination
  by (relation "measure (\<lambda>(_, _, wanted, _, _, used). wanted - used)") auto

declare v_collect.simps [simp del]

text \<open>
  The result is the status and what is written to the output: nothing on an early return,
  zeroes on a failure after the allocation.
\<close>

definition block_cipher_df ::
    "bool \<Rightarrow> CtrDrbgParameters \<Rightarrow> byte list option \<Rightarrow> nat \<Rightarrow> nat \<Rightarrow> status \<times> byte list" where
  "block_cipher_df calloc_ok parameters input input_length output_length =
     (let n = dp_BLOCK_LENGTH parameters;
          seed_length = dp_KEY_LENGTH parameters + n in
      if (input = None \<and> input_length \<noteq> 0) \<or> output_length = 0 \<or> 48 < output_length
      then (INVALID_ARGUMENT, [])
      else if 2 ^ 32 - 1 < input_length \<or> 2 ^ 32 - 1 < output_length then (MESSAGE_TOO_LARGE, [])
      else if (2 ^ 64 - 1) - 9 < input_length then (MESSAGE_TOO_LARGE, [])
      else let string_length = 8 + input_length + 1 in
        if (2 ^ 64 - 1) - (n - 1) < string_length then (MESSAGE_TOO_LARGE, [])
        else let string_length = unat (of_nat (string_length + n - 1) AND NOT (of_nat (n - 1)) :: u64) in
          if \<not> calloc_ok then (ALLOCATION_FAILED, [])
          else
            let string = copy_at (zeroes string_length) 0 (crypto_store32_be (of_nat input_length));
                string = copy_at string 4 (crypto_store32_be (of_nat output_length));
                string = (case input of None \<Rightarrow> string | Some i \<Rightarrow> copy_at string 8 (take input_length i));
                string = string[8 + input_length := 0x80];
                initial_key = copy_at (zeroes 32) 0 (map of_nat [0..<dp_KEY_LENGTH parameters]);
                (err, context) = ctr_block_context_init parameters initial_key
            in if err \<noteq> SUCCESS then (err, zeroes output_length)
               else
                 let (err, temp) = df_collect parameters context string seed_length (zeroes 48) 0 0
                 in if err \<noteq> SUCCESS then (err, zeroes output_length)
                    else
                      let x = copy_at (zeroes 16) 0 (take n (drop (dp_KEY_LENGTH parameters) temp));
                          (err, context) = ctr_block_context_init parameters temp
                      in if err \<noteq> SUCCESS then (err, zeroes output_length)
                         else
                           let (err, output) = df_output parameters context output_length (take n x) (zeroes output_length) 0
                           in if err \<noteq> SUCCESS then (err, zeroes output_length) else (SUCCESS, output))"

section \<open>Update and reseeding\<close>

definition ctr_drbg_update ::
    "LiberaCCtrDrbgContext \<Rightarrow> byte list option \<Rightarrow> status \<times> LiberaCCtrDrbgContext" where
  "ctr_drbg_update context provided_data =
     (case ctr_drbg_context_parameters context of
        Inl err \<Rightarrow> (err, context)
      | Inr parameters \<Rightarrow>
          let seed_length = dp_KEY_LENGTH parameters + dp_BLOCK_LENGTH parameters;
              (err, cipher) = ctr_block_context_init parameters (drbg_KEY context)
          in if err \<noteq> SUCCESS then (err, context)
             else
               let (err, v, temp) = v_collect parameters cipher seed_length (drbg_V context) (zeroes 48) 0
               in if err \<noteq> SUCCESS then (err, context\<lparr>drbg_V := v\<rparr>)
                  else
                    let temp = (case provided_data of
                          None \<Rightarrow> temp
                        | Some data \<Rightarrow> map (\<lambda>index. if index < seed_length then temp ! index XOR data ! index
                                                  else temp ! index) [0..<48])
                    in (SUCCESS, context\<lparr>
                          drbg_KEY := copy_at (zeroes 32) 0 (take (dp_KEY_LENGTH parameters) temp),
                          drbg_V := copy_at (zeroes 16) 0
                            (take (dp_BLOCK_LENGTH parameters) (drop (dp_KEY_LENGTH parameters) temp))\<rparr>))"

text \<open>\<open>heap\<close> says whether the two allocations of a call succeed, in their order.\<close>

definition make_df_seed ::
    "bool \<times> bool \<Rightarrow> LiberaCCtrDrbgContext \<Rightarrow> byte list option \<Rightarrow> nat \<Rightarrow> byte list option \<Rightarrow> nat \<Rightarrow>
     byte list option \<Rightarrow> nat \<Rightarrow> status \<times> byte list" where
  "make_df_seed heap context a a_length b b_length c c_length =
     (if (2 ^ 64 - 1) - b_length < a_length \<or> (2 ^ 64 - 1) - c_length < a_length + b_length
      then (MESSAGE_TOO_LARGE, [])
      else let total_length = a_length + b_length + c_length in
        if 2 ^ 32 - 1 < total_length then (MESSAGE_TOO_LARGE, [])
        else if total_length \<noteq> 0 \<and> \<not> fst heap then (ALLOCATION_FAILED, [])
        else
          let part = (\<lambda>x n. case x of None \<Rightarrow> [] | Some bs \<Rightarrow> take n bs);
              joined = (if total_length = 0 then None
                        else Some (part a a_length @ part b b_length @ part c c_length))
          in (case ctr_drbg_context_parameters context of
                Inl err \<Rightarrow> (err, [])
              | Inr parameters \<Rightarrow>
                  block_cipher_df (snd heap) parameters joined total_length
                    (dp_KEY_LENGTH parameters + dp_BLOCK_LENGTH parameters)))"

definition prepare_additional ::
    "bool \<times> bool \<Rightarrow> LiberaCCtrDrbgContext \<Rightarrow> byte list option \<Rightarrow> nat \<Rightarrow> status \<times> byte list" where
  "prepare_additional heap context additional additional_length =
     (if additional = None \<and> additional_length \<noteq> 0 then (INVALID_ARGUMENT, [])
      else let seed = zeroes 48 in
        case ctr_drbg_context_parameters context of
          Inl err \<Rightarrow> (err, seed)
        | Inr parameters \<Rightarrow>
            if additional_length = 0 then (SUCCESS, seed)
            else if dp_USE_DF parameters then
              let (err, written) = make_df_seed heap context additional additional_length None 0 None 0
              in (err, copy_at seed 0 written)
            else let seed_length = dp_KEY_LENGTH parameters + dp_BLOCK_LENGTH parameters in
              if seed_length < additional_length then (INVALID_ARGUMENT, seed)
              else (SUCCESS, copy_at seed 0 (take additional_length (the additional))))"

section \<open>The operations\<close>

text \<open>
  A call takes and returns the context, \<open>None\<close> being the null pointer. Seeds are xored byte
  by byte with the personalization string or the additional input.
\<close>

definition xor_seed :: "byte list \<Rightarrow> byte list \<Rightarrow> nat \<Rightarrow> byte list" where
  "xor_seed seed data n = map (\<lambda>index. if index < n then seed ! index XOR data ! index else seed ! index) [0..<length seed]"

definition crypto_ctr_drbg_instantiate_internal ::
    "bool \<times> bool \<Rightarrow> LiberaCCtrDrbgContext option \<Rightarrow> alg_id \<Rightarrow> byte list option \<Rightarrow> nat \<Rightarrow> byte list option \<Rightarrow> nat \<Rightarrow>
     byte list option \<Rightarrow> nat \<Rightarrow> status \<times> LiberaCCtrDrbgContext option" where
  "crypto_ctr_drbg_instantiate_internal heap context alg entropy entropy_length nonce nonce_length
       personalization personalization_length =
     (if context = None \<or> entropy = None \<or> (nonce = None \<and> nonce_length \<noteq> 0) \<or>
         (personalization = None \<and> personalization_length \<noteq> 0)
      then (INVALID_ARGUMENT, context)
      else case ctr_drbg_parameters alg of
        Inl err \<Rightarrow> (err, context)
      | Inr parameters \<Rightarrow>
          let seed_length = dp_KEY_LENGTH parameters + dp_BLOCK_LENGTH parameters;
              required_total = dp_SECURITY_BYTES parameters + (dp_SECURITY_BYTES parameters + 1) div 2;
              context = crypto_ctr_drbg_clear_internal\<lparr>drbg_ALG := alg,
                drbg_KEY_LENGTH := dp_KEY_LENGTH parameters, drbg_USE_DF := dp_USE_DF parameters\<rparr>
          in if dp_USE_DF parameters \<and>
                (entropy_length < dp_SECURITY_BYTES parameters \<or>
                 (entropy_length < required_total \<and> nonce_length < required_total - entropy_length))
             then (INVALID_ARGUMENT, Some crypto_ctr_drbg_clear_internal)
             else if \<not> dp_USE_DF parameters \<and>
                (entropy_length \<noteq> seed_length \<or> nonce_length \<noteq> 0 \<or> seed_length < personalization_length)
             then (INVALID_ARGUMENT, Some crypto_ctr_drbg_clear_internal)
             else
               let (err, seed) =
                     (if dp_USE_DF parameters
                      then make_df_seed heap context entropy entropy_length nonce nonce_length
                             personalization personalization_length
                      else (SUCCESS, case personalization of
                              None \<Rightarrow> take seed_length (the entropy)
                            | Some p \<Rightarrow> xor_seed (take seed_length (the entropy)) p personalization_length));
                   (err, context) = (if err = SUCCESS then ctr_drbg_update context (Some seed) else (err, context))
               in if err = SUCCESS
                  then (SUCCESS, Some (context\<lparr>drbg_RESEED_COUNTER := 1, drbg_INSTANTIATED := True\<rparr>))
                  else (err, Some crypto_ctr_drbg_clear_internal))"

definition crypto_ctr_drbg_reseed_internal ::
    "bool \<times> bool \<Rightarrow> LiberaCCtrDrbgContext option \<Rightarrow> byte list option \<Rightarrow> nat \<Rightarrow> byte list option \<Rightarrow> nat \<Rightarrow>
     status \<times> LiberaCCtrDrbgContext option" where
  "crypto_ctr_drbg_reseed_internal heap context entropy entropy_length additional additional_length =
     (case context of
        None \<Rightarrow> (INVALID_ARGUMENT, context)
      | Some c \<Rightarrow>
          if \<not> drbg_INSTANTIATED c \<or> entropy = None \<or> (additional = None \<and> additional_length \<noteq> 0)
          then (INVALID_ARGUMENT, context)
          else case ctr_drbg_context_parameters c of
            Inl err \<Rightarrow> (err, context)
          | Inr parameters \<Rightarrow>
              let seed_length = dp_KEY_LENGTH parameters + dp_BLOCK_LENGTH parameters in
              if dp_USE_DF parameters \<and> entropy_length < dp_SECURITY_BYTES parameters then (INVALID_ARGUMENT, context)
              else if \<not> dp_USE_DF parameters \<and> (entropy_length \<noteq> seed_length \<or> seed_length < additional_length)
              then (INVALID_ARGUMENT, context)
              else
                let (err, seed) =
                      (if dp_USE_DF parameters
                       then make_df_seed heap c entropy entropy_length additional additional_length None 0
                       else (SUCCESS, case additional of
                               None \<Rightarrow> take seed_length (the entropy)
                             | Some a \<Rightarrow> xor_seed (take seed_length (the entropy)) a additional_length));
                    (err, c) = (if err = SUCCESS then ctr_drbg_update c (Some seed) else (err, c))
                in (err, Some (if err = SUCCESS then c\<lparr>drbg_RESEED_COUNTER := 1\<rparr> else c)))"

text \<open>
  The system's random source is code outside the library: \<open>os s n\<close> asks it for \<open>n\<close> bytes
  in the state \<open>s\<close>. The wrapper of \<^verbatim>\<open>Noise/random.c\<close> turns a failure into a status.
\<close>

definition crypto_random_bytes_internal ::
    "('s \<Rightarrow> nat \<Rightarrow> byte list option \<times> 's) \<Rightarrow> 's \<Rightarrow> bool \<Rightarrow> nat \<Rightarrow> status \<times> byte list \<times> 's" where
  "crypto_random_bytes_internal os s out_null n =
     (if out_null \<and> n \<noteq> 0 then (INVALID_ARGUMENT, [], s)
      else case os s n of
        (None, s) \<Rightarrow> (RANDOM_FAILED, [], s)
      | (Some bytes, s) \<Rightarrow> (SUCCESS, bytes, s))"

definition crypto_ctr_drbg_instantiate_os_internal ::
    "('s \<Rightarrow> nat \<Rightarrow> byte list option \<times> 's) \<Rightarrow> 's \<Rightarrow> bool \<times> bool \<Rightarrow> LiberaCCtrDrbgContext option \<Rightarrow> alg_id \<Rightarrow>
     byte list option \<Rightarrow> nat \<Rightarrow> status \<times> LiberaCCtrDrbgContext option \<times> 's" where
  "crypto_ctr_drbg_instantiate_os_internal os s heap context alg personalization personalization_length =
     (if context = None \<or> (personalization = None \<and> personalization_length \<noteq> 0) then (INVALID_ARGUMENT, context, s)
      else case ctr_drbg_parameters alg of
        Inl err \<Rightarrow> (err, context, s)
      | Inr parameters \<Rightarrow>
          let seed_length = dp_KEY_LENGTH parameters + dp_BLOCK_LENGTH parameters;
              entropy_length = (if dp_USE_DF parameters then dp_SECURITY_BYTES parameters else seed_length);
              nonce_length = (if dp_USE_DF parameters then (dp_SECURITY_BYTES parameters + 1) div 2 else 0);
              (err, entropy, s) = crypto_random_bytes_internal os s False entropy_length
          in if err \<noteq> SUCCESS then (err, context, s)
             else
               let (err, nonce, s) = (if nonce_length \<noteq> 0 then crypto_random_bytes_internal os s False nonce_length
                                      else (SUCCESS, [], s))
               in if err \<noteq> SUCCESS then (err, context, s)
                  else let (err, context) = crypto_ctr_drbg_instantiate_internal heap context alg (Some entropy) entropy_length
                             (if nonce_length \<noteq> 0 then Some nonce else None) nonce_length
                             personalization personalization_length
                    in (err, context, s))"

definition crypto_ctr_drbg_reseed_os_internal ::
    "('s \<Rightarrow> nat \<Rightarrow> byte list option \<times> 's) \<Rightarrow> 's \<Rightarrow> bool \<times> bool \<Rightarrow> LiberaCCtrDrbgContext option \<Rightarrow>
     byte list option \<Rightarrow> nat \<Rightarrow> status \<times> LiberaCCtrDrbgContext option \<times> 's" where
  "crypto_ctr_drbg_reseed_os_internal os s heap context additional additional_length =
     (case context of
        None \<Rightarrow> (INVALID_ARGUMENT, context, s)
      | Some c \<Rightarrow>
          if \<not> drbg_INSTANTIATED c \<or> (additional = None \<and> additional_length \<noteq> 0) then (INVALID_ARGUMENT, context, s)
          else case ctr_drbg_context_parameters c of
            Inl err \<Rightarrow> (err, context, s)
          | Inr parameters \<Rightarrow>
              let seed_length = dp_KEY_LENGTH parameters + dp_BLOCK_LENGTH parameters;
                  entropy_length = (if dp_USE_DF parameters then dp_SECURITY_BYTES parameters else seed_length);
                  (err, entropy, s) = crypto_random_bytes_internal os s False entropy_length
              in if err \<noteq> SUCCESS then (err, context, s)
                 else let (err, context) = crypto_ctr_drbg_reseed_internal heap context (Some entropy) entropy_length
                            additional additional_length
                   in (err, context, s))"

text \<open>
  Generation returns the status, the context, the bytes written at the start of the output
  and the state of the random source. A failure after the checks overwrites the whole output.
\<close>

definition ctr_drbg_generate_blocks ::
    "bool \<times> bool \<Rightarrow> LiberaCCtrDrbgContext \<Rightarrow> CtrDrbgParameters \<Rightarrow> nat \<Rightarrow> byte list option \<Rightarrow> nat \<Rightarrow>
     status \<times> LiberaCCtrDrbgContext \<times> byte list" where
  "ctr_drbg_generate_blocks heap c parameters output_length additional additional_length =
     (let (err, provided) = prepare_additional heap c additional additional_length in
      if err \<noteq> SUCCESS then (err, c, zeroes output_length)
      else
        let (err, c) = (if additional_length \<noteq> 0 then ctr_drbg_update c (Some provided) else (SUCCESS, c))
        in if err \<noteq> SUCCESS then (err, c, zeroes output_length)
           else
             let (err, cipher) = ctr_block_context_init parameters (drbg_KEY c)
             in if err \<noteq> SUCCESS then (err, c, zeroes output_length)
                else
                  let (err, v, output) = v_collect parameters cipher output_length (drbg_V c) (zeroes output_length) 0;
                      c = c\<lparr>drbg_V := v\<rparr>
                  in if err \<noteq> SUCCESS then (err, c, zeroes output_length)
                     else
                       let (err, c) = ctr_drbg_update c (Some provided)
                       in if err = SUCCESS
                          then (SUCCESS, c\<lparr>drbg_RESEED_COUNTER := drbg_RESEED_COUNTER c + 1\<rparr>, output)
                          else (err, c, zeroes output_length))"

definition crypto_ctr_drbg_generate_internal ::
    "('s \<Rightarrow> nat \<Rightarrow> byte list option \<times> 's) \<Rightarrow> 's \<Rightarrow> bool \<times> bool \<Rightarrow> LiberaCCtrDrbgContext option \<Rightarrow> bool \<Rightarrow> nat \<Rightarrow>
     byte list option \<Rightarrow> nat \<Rightarrow> bool \<Rightarrow> status \<times> LiberaCCtrDrbgContext option \<times> byte list \<times> 's" where
  "crypto_ctr_drbg_generate_internal os s heap context output_null output_length additional additional_length
       prediction_resistance =
     (case context of
        None \<Rightarrow> (INVALID_ARGUMENT, context, [], s)
      | Some c \<Rightarrow>
          if \<not> drbg_INSTANTIATED c \<or> (output_null \<and> output_length \<noteq> 0) \<or> (additional = None \<and> additional_length \<noteq> 0)
          then (INVALID_ARGUMENT, context, [], s)
          else case ctr_drbg_context_parameters c of
            Inl err \<Rightarrow> (err, context, [], s)
          | Inr parameters \<Rightarrow>
              if dp_MAX_REQUEST_BYTES parameters < output_length then (MESSAGE_TOO_LARGE, context, [], s)
              else
                let (err, context, s) =
                      (if prediction_resistance
                       then crypto_ctr_drbg_reseed_os_internal os s heap context additional additional_length
                       else (SUCCESS, context, s));
                    (additional, additional_length) =
                      (if prediction_resistance then (None, 0) else (additional, additional_length))
                in if err \<noteq> SUCCESS then (err, context, [], s)
                   else let c = the context in
                     if dp_RESEED_INTERVAL parameters < drbg_RESEED_COUNTER c then (RESEED_REQUIRED, context, [], s)
                     else let (err, c, output) = ctr_drbg_generate_blocks heap c parameters output_length
                                additional additional_length
                       in (err, Some c, output, s))"

section \<open>The public interface\<close>

definition LIBERAC_RANDOM_BYTES where
  "LIBERAC_RANDOM_BYTES = crypto_random_bytes_internal"

definition LIBERAC_CTR_DRBG_SEED_SIZE :: "alg_id \<Rightarrow> nat" where
  "LIBERAC_CTR_DRBG_SEED_SIZE alg = crypto_ctr_drbg_seed_size_internal alg"

definition LIBERAC_CTR_DRBG_INSTANTIATE where
  "LIBERAC_CTR_DRBG_INSTANTIATE heap context entropy entropy_length nonce nonce_length
    personalization personalization_length alg =
  crypto_ctr_drbg_instantiate_internal heap context alg entropy entropy_length nonce nonce_length
    personalization personalization_length"

definition LIBERAC_CTR_DRBG_INSTANTIATE_OS where
  "LIBERAC_CTR_DRBG_INSTANTIATE_OS os s heap context personalization personalization_length alg =
  crypto_ctr_drbg_instantiate_os_internal os s heap context alg personalization personalization_length"

definition LIBERAC_CTR_DRBG_RESEED where
  "LIBERAC_CTR_DRBG_RESEED = crypto_ctr_drbg_reseed_internal"

definition LIBERAC_CTR_DRBG_RESEED_OS where
  "LIBERAC_CTR_DRBG_RESEED_OS = crypto_ctr_drbg_reseed_os_internal"

definition LIBERAC_CTR_DRBG_GENERATE where
  "LIBERAC_CTR_DRBG_GENERATE = crypto_ctr_drbg_generate_internal"

definition LIBERAC_CTR_DRBG_CLEAR :: "LiberaCCtrDrbgContext option \<Rightarrow> LiberaCCtrDrbgContext option" where
  "LIBERAC_CTR_DRBG_CLEAR context = (case context of None \<Rightarrow> None | Some _ \<Rightarrow> Some crypto_ctr_drbg_clear_internal)"

end
