(* ===== verification/CTR_DRBG_Spec.thy ===== *)
theory CTR_DRBG_Spec
  imports CTR_DRBG Hash_Buffer
begin

text \<open>
  SP 800-90A for CTR_DRBG, and the proof that the generator of the library refines it: the
  block cipher of a parameter set is a keyed function on blocks (the interface
  \<open>block_output\<close> gives the streams it is expanded to), the state is a key and a counter
  block, and every operation of the code is the operation of the standard on them.
\<close>

section \<open>SP 800-90A\<close>

text \<open>The block cipher of a parameter set under an effective key (168 bits for Triple DES).\<close>

definition drbg_E :: "CtrDrbgParameters \<Rightarrow> byte list \<Rightarrow> byte list \<Rightarrow> byte list" where
  "drbg_E p K b =
     (case dp_FAMILY p of
        CTR_DRBG_CIPHER_AES \<Rightarrow> aes_encrypt_bytes (snd (crypto_aes_context_init (Some K) (dp_KEY_LENGTH p))) b
      | CTR_DRBG_CIPHER_TDEA \<Rightarrow> tdes_encrypt_bytes (tdes_round_keys (expand_tdea_key K)) b)"

text \<open>The blocks that follow the counter value \<open>V\<close>.\<close>

definition sp_stream :: "CtrDrbgParameters \<Rightarrow> byte list \<Rightarrow> byte list \<Rightarrow> nat \<Rightarrow> byte list" where
  "sp_stream p K V L =
     (let n = dp_BLOCK_LENGTH p
      in blocks_output n (\<lambda>j. drbg_E p K (be_of_nat n (nat_of_be V + Suc j))) L)"

definition sp_seedlen :: "CtrDrbgParameters \<Rightarrow> nat" where
  "sp_seedlen p = dp_KEY_LENGTH p + dp_BLOCK_LENGTH p"

definition sp_update :: "CtrDrbgParameters \<Rightarrow> byte list \<Rightarrow> byte list \<Rightarrow> byte list \<Rightarrow> byte list \<times> byte list" where
  "sp_update p provided K V =
     (let temp = xor_bytes (sp_stream p K V (sp_seedlen p)) provided
      in (take (dp_KEY_LENGTH p) temp, drop (dp_KEY_LENGTH p) temp))"

definition sp_bcc :: "CtrDrbgParameters \<Rightarrow> byte list \<Rightarrow> byte list \<Rightarrow> byte list" where
  "sp_bcc p K S = (let n = dp_BLOCK_LENGTH p in absorb n (\<lambda>chain b. drbg_E p K (xor_bytes chain b)) (zeroes n) S)"

text \<open>The formatted input: its length, the length asked for, the input, a one bit, zeroes.\<close>

definition sp_df_string :: "CtrDrbgParameters \<Rightarrow> byte list \<Rightarrow> nat \<Rightarrow> byte list" where
  "sp_df_string p input N =
     (let S = be_of_nat 4 (length input) @ be_of_nat 4 N @ input @ [0x80]; n = dp_BLOCK_LENGTH p
      in S @ zeroes ((n - length S mod n) mod n))"

definition sp_df :: "CtrDrbgParameters \<Rightarrow> byte list \<Rightarrow> nat \<Rightarrow> byte list" where
  "sp_df p input N =
     (let n = dp_BLOCK_LENGTH p; k = dp_KEY_LENGTH p;
          S = sp_df_string p input N;
          temp = blocks_output n (\<lambda>i. sp_bcc p (map of_nat [0..<k]) (be_of_nat 4 i @ zeroes (n - 4) @ S)) (k + n)
      in blocks_output n (\<lambda>j. (drbg_E p (take k temp) ^^ Suc j) (drop k temp)) N)"

section \<open>The block cipher\<close>

definition drbg_params :: "CtrDrbgParameters \<Rightarrow> bool" where
  "drbg_params p \<longleftrightarrow> (\<exists>alg. ctr_drbg_parameters alg = Inr p)"

lemma drbg_params_cases:
  assumes "drbg_params p"
  obtains (aes) "dp_FAMILY p = CTR_DRBG_CIPHER_AES" "dp_KEY_LENGTH p \<in> {16, 24, 32}" "dp_BLOCK_LENGTH p = 16"
      "dp_SECURITY_BYTES p = dp_KEY_LENGTH p" "dp_MAX_REQUEST_BYTES p = 65536" "unat (dp_RESEED_INTERVAL p) = 2 ^ 48"
    | (tdea) "dp_FAMILY p = CTR_DRBG_CIPHER_TDEA" "dp_KEY_LENGTH p = 21" "dp_BLOCK_LENGTH p = 8"
      "dp_SECURITY_BYTES p = 14" "dp_MAX_REQUEST_BYTES p = 1024" "unat (dp_RESEED_INTERVAL p) = 2 ^ 32"
proof -
  have "unat (push_bit 48 1 :: u64) = 2 ^ 48" "unat (push_bit 32 1 :: u64) = 2 ^ 32"
    by (simp_all add: unat_push_bit del: push_bit_Suc)
  then show ?thesis
    using assms aes tdea by (auto simp: drbg_params_def ctr_drbg_parameters_def Let_def split: if_splits)
qed

lemma drbg_params_bounds:
  assumes "drbg_params p"
  shows "0 < dp_BLOCK_LENGTH p" "dp_BLOCK_LENGTH p \<le> 16" "8 \<le> dp_BLOCK_LENGTH p" "dp_KEY_LENGTH p \<le> 32"
    "0 < dp_KEY_LENGTH p" "sp_seedlen p \<le> 48"
  using assms by (cases rule: drbg_params_cases; auto simp: sp_seedlen_def)+

lemma length_expand_tdea_key: "length (expand_tdea_key key) = 24"
  by (simp add: expand_tdea_key_def Let_def length_concat comp_def upt_rec [of _ 3])

lemma expand_tdea_key_cong:
  assumes "\<And>i. i < 21 \<Longrightarrow> a ! i = b ! i"
  shows "expand_tdea_key a = expand_tdea_key b"
proof -
  have "fold (\<lambda>i packed. push_bit 8 packed OR ucast (a ! (7 * g + i))) [0..<7] (0 :: u64) =
      fold (\<lambda>i packed. push_bit 8 packed OR ucast (b ! (7 * g + i))) [0..<7] 0" if "g < 3" for g
    by (rule fold_cong) (use assms that in auto)
  then show ?thesis
    unfolding expand_tdea_key_def Let_def by (intro arg_cong [where f = concat] map_cong refl) auto
qed

lemma ctr_block_ok:
  assumes p: "drbg_params p" and key: "dp_KEY_LENGTH p \<le> length key"
  obtains c where "ctr_block_context_init p key = (SUCCESS, c)"
    "\<And>b. ctr_block_encrypt c b = (SUCCESS, drbg_E p (take (dp_KEY_LENGTH p) key) b)"
  using p
proof (cases rule: drbg_params_cases)
  case aes
  let ?k = "dp_KEY_LENGTH p"
  have eq: "crypto_aes_context_init (Some (take ?k key)) ?k = crypto_aes_context_init (Some key) ?k"
    by (simp add: crypto_aes_context_init_def split: option.split)
  have v: "aes_context_valid (snd (crypto_aes_context_init (Some key) ?k))"
    using aes(2) key by (intro aes_context_init_valid) auto
  obtain a where a: "crypto_aes_context_init (Some key) ?k = (SUCCESS, a)"
    using aes(2) by (auto simp: crypto_aes_context_init_def aes_key_parameters_def Let_def)
  show ?thesis
    using v a eq aes(1)
    by (intro that) (auto simp: ctr_block_context_init_def ctr_block_encrypt_def drbg_E_def aes_encrypt_block_valid)
next
  case tdea
  have "expand_tdea_key (take 21 key) = expand_tdea_key key"
    by (rule expand_tdea_key_cong) (use key tdea(2) in auto)
  then show ?thesis
    using tdea(1,2)
    by (intro that) (auto simp: ctr_block_context_init_def ctr_block_encrypt_def drbg_E_def
        crypto_tdes_ede3_context_init_def crypto_tdes_ede3_encrypt_block_def tdes_encrypt_bytes_def)
qed

lemma length_drbg_E:
  assumes "drbg_params p" "dp_KEY_LENGTH p \<le> length K"
  shows "length (drbg_E p K b) = dp_BLOCK_LENGTH p"
  using assms(1)
proof (cases rule: drbg_params_cases)
  case aes
  then have "aes_context_valid (snd (crypto_aes_context_init (Some K) (dp_KEY_LENGTH p)))"
    using assms(2) by (intro aes_context_init_valid) auto
  then show ?thesis using aes by (simp add: drbg_E_def length_aes_encrypt_bytes)
next
  case tdea
  then show ?thesis by (simp add: drbg_E_def tdes_encrypt_bytes_def)
qed

section \<open>The counter\<close>

lemma nat_of_be_last: "nat_of_be (xs @ [b]) = unat b + 256 * nat_of_be xs"
  by (simp add: nat_of_be_def)

lemma be_of_nat_last: "be_of_nat (Suc k) v = be_of_nat k (v div 256) @ [of_nat v]"
  by (simp add: be_of_nat_def)

lemma increment_v_value:
  assumes "k \<le> length v" "unat carry \<le> 1"
  shows "increment_v v k carry = be_of_nat k (nat_of_be (take k v) + unat carry) @ drop k v"
  using assms
proof (induction k arbitrary: v carry)
  case (Suc k)
  define s where "s = unat (v ! k) + unat carry"
  have s: "s \<le> 256" using unat_byte_less [of "v ! k"] Suc.prems by (simp add: s_def)
  define sum where "sum = (ucast (v ! k) + carry :: 16 word)"
  have u: "unat (ucast (v ! k) :: 16 word) = unat (v ! k)"
    using unat_byte_less [of "v ! k"] by (simp add: unat_ucast)
  have sum: "unat sum = s"
    unfolding sum_def s_def u [symmetric] by (rule unat_add_small) (use s in \<open>simp add: u s_def\<close>)
  have byte: "(ucast sum :: byte) = of_nat s"
    using sum by (simp add: word_unat_eq_iff unat_ucast)
  have wrap: "(of_nat (256 * x + s) :: byte) = of_nat s" for x
    unfolding word_unat_eq_iff unat_of_nat by simp
  have carry: "unat (drop_bit 8 sum) = s div 256" by (simp add: unat_drop_bit sum)
  have "increment_v v (Suc k) carry = increment_v (v[k := of_nat s]) k (drop_bit 8 sum)"
    by (simp add: sum_def [symmetric] byte)
  also have "\<dots> = be_of_nat k (nat_of_be (take k v) + s div 256) @ drop k (v[k := of_nat s])"
    using Suc.prems s by (subst Suc.IH) (simp_all add: carry)
  also have "drop k (v[k := of_nat s]) = [of_nat s] @ drop (Suc k) v"
    using Suc.prems by (subst Cons_nth_drop_Suc [symmetric]) simp_all
  also have "nat_of_be (take (Suc k) v) + unat carry = 256 * nat_of_be (take k v) + s"
    using Suc.prems by (simp add: take_Suc_conv_app_nth nat_of_be_last s_def)
  then have "be_of_nat k (nat_of_be (take k v) + s div 256) @ [of_nat s] @ drop (Suc k) v =
      be_of_nat (Suc k) (nat_of_be (take (Suc k) v) + unat carry) @ drop (Suc k) v"
    using wrap by (simp add: be_of_nat_last)
  finally show ?case .
qed (simp add: be_of_nat_def)

lemma increment_v_be:
  assumes "n + length rest \<le> 16"
  shows "increment_v (be_of_nat n k @ rest) n 1 = be_of_nat n (Suc k) @ rest"
proof -
  have "increment_v (be_of_nat n k @ rest) n 1 = be_of_nat n (k mod 256 ^ n + 1) @ rest"
    by (subst increment_v_value) simp_all
  also have "be_of_nat n (k mod 256 ^ n + 1) = be_of_nat n (Suc k)"
    using be_of_nat_mod [of n "k mod 256 ^ n + 1"] be_of_nat_mod [of n "Suc k"] by (simp add: mod_Suc_eq)
  finally show ?thesis .
qed

section \<open>Collecting blocks\<close>

lemma copy_at_append:
  "offset + length xs + length ys \<le> length b \<Longrightarrow>
    copy_at (copy_at b offset xs) (offset + length xs) ys = copy_at b offset (xs @ ys)"
  by (simp add: copy_at_def ac_simps)

lemma copy_at_all: "length xs = length b \<Longrightarrow> copy_at b 0 xs = xs"
  by (simp add: copy_at_def)

lemma copy_at_Nil: "copy_at b offset [] = b"
  by (simp add: copy_at_def)

lemma blocks_left: "0 < n \<Longrightarrow> n * i < L \<longleftrightarrow> i < (L + n - 1) div n" for n i L :: nat
proof -
  assume n: "0 < n"
  have "i < (L + n - 1) div n \<longleftrightarrow> Suc i * n \<le> L + n - 1"
    using less_eq_div_iff_mult_less_eq [OF n, of "Suc i" "L + n - 1"] by (simp only: Suc_le_eq)
  then show ?thesis using n by (auto simp: mult.commute)
qed

context block_output
begin

text \<open>One step of a collecting loop: what is copied now and what is copied later.\<close>

lemma collect_step:
  assumes "0 < h" "h * i < L" "L \<le> length out"
  defines "n \<equiv> if h < L - h * i then h else L - h * i"
  shows "h * i + n = min L (h * Suc i)"
    "copy_at (copy_at out (h * i) (take n (f i))) (h * i + n) (drop (h * Suc i) (blocks_output h f L)) =
      copy_at out (h * i) (drop (h * i) (blocks_output h f L))"
proof -
  have n: "n = min h (L - h * i)" by (simp add: n_def)
  show "h * i + n = min L (h * Suc i)" using assms(2) by (simp add: n)
  have "length (drop (h * i) (blocks_output h f L)) = L - h * i"
    by (simp add: length_blocks_output [OF assms(1)])
  then have len: "length (take n (f i)) + length (drop (h * Suc i) (blocks_output h f L)) = L - h * i"
    unfolding blocks_output_rest [OF assms(1,2)] n [symmetric] by simp
  have lt: "length (take n (f i)) = n" by (simp add: n length_block)
  have "h * i + length (take n (f i)) + length (drop (h * Suc i) (blocks_output h f L)) \<le> length out"
    using len assms(2,3) by linarith
  from copy_at_append [OF this]
  show "copy_at (copy_at out (h * i) (take n (f i))) (h * i + n) (drop (h * Suc i) (blocks_output h f L)) =
      copy_at out (h * i) (drop (h * i) (blocks_output h f L))"
    unfolding blocks_output_rest [OF assms(1,2)] n [symmetric] lt .
qed

lemma collect_done: "0 < h \<Longrightarrow> \<not> h * i < L \<Longrightarrow> copy_at out k (drop (h * i) (blocks_output h f L)) = out"
  using length_blocks_output [of L] by (simp add: copy_at_Nil)

text \<open>
  A loop that copies block after block computes the whole output: \<open>loop i\<close> is the loop after
  \<open>i\<close> blocks and \<open>R\<close> is what it returns at the end.
\<close>

lemma collect_loop:
  assumes h: "0 < h"
    and step: "\<And>i out. h * i < L \<Longrightarrow> L \<le> length out \<Longrightarrow>
      loop i out = loop (Suc i) (copy_at out (h * i) (take (if h < L - h * i then h else L - h * i) (f i)))"
    and final: "\<And>out. loop ((L + h - 1) div h) out = R out"
    and i: "i \<le> (L + h - 1) div h" "L \<le> length out"
  shows "loop i out = R (copy_at out (min L (h * i)) (drop (h * i) (blocks_output h f L)))"
  using i
proof (induction "(L + h - 1) div h - i" arbitrary: i out rule: less_induct)
  case less
  show ?case
  proof (cases "h * i < L")
    case False
    then have "i = (L + h - 1) div h" using less.prems(1) blocks_left [OF h, of i L] by simp
    then show ?thesis using final collect_done [OF h False] by simp
  next
    case True
    then have iN: "i < (L + h - 1) div h" using blocks_left [OF h, of i L] by simp
    let ?m = "if h < L - h * i then h else L - h * i"
    note st = collect_step [OF h True less.prems(2)]
    have "L \<le> length (copy_at out (h * i) (take ?m (f i)))"
      using less.prems(2) True length_block [of i] by (subst length_copy_at) auto
    then have "loop (Suc i) (copy_at out (h * i) (take ?m (f i))) =
        R (copy_at (copy_at out (h * i) (take ?m (f i))) (h * i + ?m) (drop (h * Suc i) (blocks_output h f L)))"
      using iN unfolding st(1) by (intro less.hyps) simp_all
    then show ?thesis using step [OF True less.prems(2)] True unfolding st(2) by simp
  qed
qed

end

lemma v_collect_correct:
  fixes n k L and E :: "byte list \<Rightarrow> byte list"
  defines "F \<equiv> \<lambda>j. E (be_of_nat n (k + Suc j))"
  assumes enc: "\<And>b. ctr_block_encrypt c b = (SUCCESS, E b)" "\<And>b. length (E b) = n"
    and n: "0 < n" "n = dp_BLOCK_LENGTH p" "n + length rest \<le> 16" and out: "L \<le> length out"
  shows "v_collect p c L (be_of_nat n k @ rest) out 0 =
    (SUCCESS, be_of_nat n (k + (L + n - 1) div n) @ rest, copy_at out 0 (blocks_output n F L))"
proof -
  have F: "block_output n F"
    by unfold_locales (simp add: F_def enc(2))
  let ?loop = "\<lambda>i out. v_collect p c L (be_of_nat n (k + i) @ rest) out (min L (n * i))"
  have "?loop 0 out = (SUCCESS, be_of_nat n (k + (L + n - 1) div n) @ rest,
      copy_at out (min L (n * 0)) (drop (n * 0) (blocks_output n F L)))"
  proof (rule block_output.collect_loop [OF F n(1), where loop = ?loop])
    fix i out assume i: "n * i < L" and "L \<le> length (out :: byte list)"
    let ?m = "if n < L - n * i then n else L - n * i"
    have stepped: "increment_v (be_of_nat n (k + i) @ rest) n 1 = be_of_nat n (k + Suc i) @ rest"
      using increment_v_be [OF n(3), of "k + i"] by simp
    have block: "take n (be_of_nat n (k + Suc i) @ rest) = be_of_nat n (k + Suc i)" by simp
    have used: "min L (n * i) = n * i" "min L (n * Suc i) = n * i + ?m" using i by auto
    show "?loop i out = ?loop (Suc i) (copy_at out (n * i) (take ?m (F i)))"
      unfolding used using i n(1)
      by (subst v_collect.simps) (simp only: n(2) [symmetric] stepped block enc(1) F_def Let_def prod.case
          if_True if_False simp_thms refl)
  next
    fix out :: "byte list"
    have "\<not> n * ((L + n - 1) div n) < L" using blocks_left [OF n(1)] by simp
    then show "?loop ((L + n - 1) div n) out = (SUCCESS, be_of_nat n (k + (L + n - 1) div n) @ rest, out)"
      by (simp add: v_collect.simps)
  qed (use out in simp_all)
  then show ?thesis by simp
qed

section \<open>The derivation function\<close>

lemma xor_index_map:
  "n \<le> length a \<Longrightarrow> n \<le> length b \<Longrightarrow> map (\<lambda>i. a ! i XOR b ! i) [0..<n] = xor_bytes (take n a) (take n b)"
  for a b :: "'a::semiring_bit_operations list"
  by (rule nth_equalityI) simp_all

lemma bcc_loop_correct:
  assumes enc: "\<And>b. ctr_block_encrypt c b = (SUCCESS, E b)" "\<And>b. length (E b) = n"
    and n: "0 < n" "n dvd length S" "length chain = n"
  shows "bcc_loop n c chain S = (SUCCESS, absorb n (\<lambda>chain b. E (xor_bytes chain b)) chain S)"
  using n(2,3)
proof (induction S arbitrary: chain rule: length_induct)
  case (1 S)
  show ?case
  proof (cases "S = []")
    case True
    then show ?thesis using n(1) by (simp add: bcc_loop.simps)
  next
    case False
    then have le: "n \<le> length S" using 1 by (simp add: dvd_imp_le)
    have x: "map (\<lambda>i. chain ! i XOR S ! i) [0..<n] = xor_bytes chain (take n S)"
      using xor_index_map [of n chain S] le 1 by simp
    have "bcc_loop n c chain S = bcc_loop n c (E (xor_bytes chain (take n S))) (drop n S)"
      using False n(1) by (subst bcc_loop.simps) (simp add: x enc)
    also have "\<dots> = (SUCCESS, absorb n (\<lambda>chain b. E (xor_bytes chain b)) (E (xor_bytes chain (take n S))) (drop n S))"
      using 1 n(1) False le by (simp add: enc)
    also have "\<dots> = (SUCCESS, absorb n (\<lambda>chain b. E (xor_bytes chain b)) chain S)"
      using n(1) le by (simp add: absorb.simps [of n _ chain S])
    finally show ?thesis .
  qed
qed

lemma bcc_correct:
  assumes enc: "\<And>b. ctr_block_encrypt c b = (SUCCESS, drbg_E p K b)" "\<And>b. length (drbg_E p K b) = dp_BLOCK_LENGTH p"
    and n: "0 < dp_BLOCK_LENGTH p" "dp_BLOCK_LENGTH p \<le> 16" "dp_BLOCK_LENGTH p dvd length S" "length iv = 16"
  shows "bcc p c iv S = (SUCCESS, sp_bcc p K (take (dp_BLOCK_LENGTH p) iv @ S))"
proof -
  let ?n = "dp_BLOCK_LENGTH p"
  have x: "map (\<lambda>i. zeroes 16 ! i XOR iv ! i) [0..<?n] = xor_bytes (zeroes ?n) (take ?n iv)"
    using xor_index_map [of ?n "zeroes 16" iv] n by (simp add: min_def)
  have step: "sp_bcc p K (take ?n iv @ S) =
      absorb ?n (\<lambda>chain b. drbg_E p K (xor_bytes chain b)) (drbg_E p K (xor_bytes (zeroes ?n) (take ?n iv))) S"
    using n by (simp add: sp_bcc_def Let_def absorb_step)
  show ?thesis
    using bcc_loop_correct [OF enc n(1,3), of "drbg_E p K (xor_bytes (zeroes ?n) (take ?n iv))"]
    unfolding step bcc_def Let_def x enc(1) by (simp add: enc(2))
qed

lemma df_collect_correct:
  fixes p K S L
  defines "n \<equiv> dp_BLOCK_LENGTH p"
  defines "F \<equiv> \<lambda>i. sp_bcc p K (be_of_nat 4 i @ zeroes (n - 4) @ S)"
  assumes enc: "\<And>b. ctr_block_encrypt c b = (SUCCESS, drbg_E p K b)" "\<And>b. length (drbg_E p K b) = n"
    and n: "4 \<le> n" "n \<le> 16" "n dvd length S" and out: "L \<le> length out"
  shows "df_collect p c S L out 0 0 = (SUCCESS, copy_at out 0 (blocks_output n F L))"
proof -
  have pos: "0 < n" using n by simp
  have block: "bcc p c (copy_at (zeroes 16) 0 (crypto_store32_be (of_nat i))) S = (SUCCESS, F i)" for i
  proof -
    let ?iv = "copy_at (zeroes 16) 0 (crypto_store32_be (of_nat i))"
    have "take n ?iv = be_of_nat 4 i @ zeroes (n - 4)"
      using n by (simp add: copy_at_def store32_be_of_nat)
    moreover have "length ?iv = 16" by (simp add: copy_at_def)
    ultimately show ?thesis
      using bcc_correct [of c p K S ?iv] enc n pos unfolding n_def F_def by simp
  qed
  have length_absorb: "length (absorb n (\<lambda>chain b. drbg_E p K (xor_bytes chain b)) chain T) = n" if "length chain = n" for chain T
    by (rule absorb_invariant [where P = "\<lambda>s. length s = n"]) (use that enc in simp_all)
  have F: "block_output n F"
    by unfold_locales (simp add: F_def sp_bcc_def Let_def n_def [symmetric] length_absorb)
  let ?loop = "\<lambda>i out. df_collect p c S L out (min L (n * i)) (of_nat i)"
  have "?loop 0 out = (SUCCESS, copy_at out (min L (n * 0)) (drop (n * 0) (blocks_output n F L)))"
  proof (rule block_output.collect_loop [OF F pos, where loop = ?loop])
    fix i out assume i: "n * i < L" and "L \<le> length (out :: byte list)"
    let ?m = "if n < L - n * i then n else L - n * i"
    have used: "min L (n * i) = n * i" "min L (n * Suc i) = n * i + ?m" using i by auto
    have next_counter: "(of_nat (Suc i) :: u32) = of_nat i + 1" by simp
    show "?loop i out = ?loop (Suc i) (copy_at out (n * i) (take ?m (F i)))"
      unfolding used next_counter using i pos
      by (subst df_collect.simps) (simp only: n_def [symmetric] block Let_def prod.case if_True if_False simp_thms refl)
  next
    fix out :: "byte list"
    have "\<not> n * ((L + n - 1) div n) < L" using blocks_left [OF pos] by simp
    then show "?loop ((L + n - 1) div n) out = (SUCCESS, out)" by (simp add: df_collect.simps)
  qed (use out in simp_all)
  then show ?thesis by simp
qed

lemma df_output_correct:
  fixes p K X L
  defines "n \<equiv> dp_BLOCK_LENGTH p"
  defines "F \<equiv> \<lambda>j. (drbg_E p K ^^ Suc j) X"
  assumes enc: "\<And>b. ctr_block_encrypt c b = (SUCCESS, drbg_E p K b)" "\<And>b. length (drbg_E p K b) = n"
    and n: "0 < n" and out: "L \<le> length out"
  shows "df_output p c L X out 0 = (SUCCESS, copy_at out 0 (blocks_output n F L))"
proof -
  have F: "block_output n F"
    by unfold_locales (simp add: F_def enc(2))
  let ?loop = "\<lambda>i out. df_output p c L ((drbg_E p K ^^ i) X) out (min L (n * i))"
  have "?loop 0 out = (SUCCESS, copy_at out (min L (n * 0)) (drop (n * 0) (blocks_output n F L)))"
  proof (rule block_output.collect_loop [OF F n, where loop = ?loop])
    fix i out assume i: "n * i < L" and "L \<le> length (out :: byte list)"
    let ?m = "if n < L - n * i then n else L - n * i"
    have used: "min L (n * i) = n * i" "min L (n * Suc i) = n * i + ?m" using i by auto
    show "?loop i out = ?loop (Suc i) (copy_at out (n * i) (take ?m (F i)))"
      unfolding used using i n
      by (subst df_output.simps)
        (simp only: n_def [symmetric] enc(1) F_def funpow.simps o_apply Let_def prod.case if_True if_False simp_thms refl)
  next
    fix out :: "byte list"
    have "\<not> n * ((L + n - 1) div n) < L" using blocks_left [OF n] by simp
    then show "?loop ((L + n - 1) div n) out = (SUCCESS, out)" by (simp add: df_output.simps)
  qed (use out in simp_all)
  then show ?thesis by simp
qed

lemma and_not_mask_nat: "unat (w AND NOT (mask k)) = unat w div 2 ^ k * 2 ^ k" for w :: "'a::len word"
proof -
  have "w AND NOT (mask k) = push_bit k (drop_bit k w)"
    by (rule bit_word_eqI) (auto simp: bit_simps)
  moreover have "unat w div 2 ^ k * 2 ^ k < 2 ^ LENGTH('a)"
    using unsigned_less [of w] by (rule le_less_trans [rotated]) simp
  ultimately show ?thesis by (simp add: unat_push_bit unat_drop_bit)
qed

lemma round_up: "0 < n \<Longrightarrow> (m + n - 1) div n * n = m + (n - m mod n) mod n" for m n :: nat
proof -
  assume n: "0 < n"
  show ?thesis
  proof (cases "m mod n = 0")
    case True
    then obtain k where k: "m = n * k" by auto
    have "(n * k + (n - 1)) div n = k" using n by (subst div_mult_self4) auto
    moreover have "m + n - 1 = n * k + (n - 1)" using n k by simp
    ultimately show ?thesis using k by simp
  next
    case False
    define r where "r = m mod n"
    have r: "0 < r" "r < n" "m = n * (m div n) + r" using False n by (simp_all add: r_def)
    have "(m + n - 1) div n = m div n + 1"
    proof -
      have "m + n - 1 = n * (m div n + 1) + (r - 1)" using r by (simp add: algebra_simps)
      moreover have "(n * (m div n + 1) + (r - 1)) div n = m div n + 1" using r by (subst div_mult_self4) auto
      ultimately show ?thesis by (simp only:)
    qed
    moreover have "(n - r) mod n = n - r" using r by simp
    ultimately show ?thesis using r by (simp add: r_def [symmetric] algebra_simps)
  qed
qed

text \<open>The padded string built in the allocated buffer.\<close>

lemma df_string_built:
  fixes p input N
  defines "n \<equiv> dp_BLOCK_LENGTH p" and "l \<equiv> length input"
  defines "room \<equiv> 9 + l + (n - (9 + l) mod n) mod n"
  shows "(copy_at (copy_at (copy_at (zeroes room) 0 (crypto_store32_be (of_nat l))) 4 (crypto_store32_be (of_nat N))) 8 input)
      [8 + l := 0x80] = sp_df_string p input N"
    "length (sp_df_string p input N) = room"
proof -
  define t where "t = (n - (9 + l) mod n) mod n"
  have S: "sp_df_string p input N = be_of_nat 4 l @ be_of_nat 4 N @ input @ [0x80] @ zeroes t"
    by (simp add: sp_df_string_def t_def n_def l_def Let_def add.commute)
  have z: "zeroes room = zeroes 4 @ zeroes 4 @ zeroes l @ zeroes 1 @ zeroes t"
  proof -
    have "room = 4 + (4 + (l + (1 + t)))" by (simp add: room_def t_def)
    then show ?thesis by (simp only: replicate_add)
  qed
  have a: "copy_at (zeroes room) 0 (be_of_nat 4 l) = be_of_nat 4 l @ zeroes 4 @ zeroes l @ zeroes 1 @ zeroes t"
    unfolding z by (simp add: copy_at_def)
  have b: "copy_at (be_of_nat 4 l @ zeroes 4 @ zeroes l @ zeroes 1 @ zeroes t) 4 (be_of_nat 4 N) =
      be_of_nat 4 l @ be_of_nat 4 N @ zeroes l @ zeroes 1 @ zeroes t"
    by (simp add: copy_at_def)
  have c: "copy_at (be_of_nat 4 l @ be_of_nat 4 N @ zeroes l @ zeroes 1 @ zeroes t) 8 input =
      be_of_nat 4 l @ be_of_nat 4 N @ input @ zeroes 1 @ zeroes t"
    by (simp add: copy_at_def l_def)
  have d: "(be_of_nat 4 l @ be_of_nat 4 N @ input @ zeroes 1 @ zeroes t)[8 + l := 0x80] =
      be_of_nat 4 l @ be_of_nat 4 N @ input @ [0x80] @ zeroes t"
    by (simp add: list_update_append l_def)
  show "(copy_at (copy_at (copy_at (zeroes room) 0 (crypto_store32_be (of_nat l))) 4 (crypto_store32_be (of_nat N))) 8 input)
      [8 + l := 0x80] = sp_df_string p input N"
    unfolding store32_be_of_nat a b c d S ..
  show "length (sp_df_string p input N) = room" by (simp add: S room_def t_def l_def)
qed

definition drbg_input :: "byte list option \<Rightarrow> nat \<Rightarrow> bool" where
  "drbg_input x n \<longleftrightarrow> (case x of None \<Rightarrow> n = 0 | Some b \<Rightarrow> length b = n)"

definition drbg_bytes :: "byte list option \<Rightarrow> byte list" where
  "drbg_bytes x = (case x of None \<Rightarrow> [] | Some b \<Rightarrow> b)"

lemma drbg_input_length: "drbg_input x n \<Longrightarrow> length (drbg_bytes x) = n"
  by (auto simp: drbg_input_def drbg_bytes_def split: option.splits)

lemma length_sp_bcc:
  assumes "drbg_params p" "dp_KEY_LENGTH p \<le> length K"
  shows "length (sp_bcc p K S) = dp_BLOCK_LENGTH p"
  unfolding sp_bcc_def Let_def
  by (rule absorb_invariant [where P = "\<lambda>s. length s = dp_BLOCK_LENGTH p"]) (simp_all add: length_drbg_E [OF assms])

lemma block_cipher_df_correct:
  assumes p: "drbg_params p" and inp: "drbg_input input n" "n < 2 ^ 32" and N: "0 < N" "N \<le> 48"
  shows "block_cipher_df calloc_ok p input n N =
    (if calloc_ok then (SUCCESS, sp_df p (drbg_bytes input) N) else (ALLOCATION_FAILED, []))"
proof -
  let ?n = "dp_BLOCK_LENGTH p" and ?k = "dp_KEY_LENGTH p"
  note b = drbg_params_bounds [OF p]
  define I where "I = drbg_bytes input"
  have I: "length I = n" using drbg_input_length [OF inp(1)] by (simp add: I_def)
  define room where "room = 9 + n + (?n - (9 + n) mod ?n) mod ?n"
  define S where "S = sp_df_string p I N"
  have room: "unat (of_nat (8 + n + 1 + ?n - 1) AND NOT (of_nat (?n - 1)) :: u64) = room"
  proof -
    obtain e where e: "?n = 2 ^ e" "e \<in> {3, 4}"
      using p by (cases rule: drbg_params_cases) (auto intro: that [of 3] that [of 4])
    then have m: "(of_nat (?n - 1) :: u64) = mask e" by (auto simp: mask_eq_exp_minus_1)
    have "unat (of_nat (8 + n + 1 + ?n - 1) :: u64) = 9 + n + ?n - 1"
      using b inp(2) unfolding unat_of_nat by simp
    then show ?thesis
      unfolding m and_not_mask_nat e(1) [symmetric] room_def using round_up [of ?n "9 + n"] b by simp
  qed
  have string: "(case input of None \<Rightarrow> s | Some i \<Rightarrow> copy_at s 8 (take n i)) = copy_at s 8 I" for s
    using inp(1) by (auto simp: I_def drbg_bytes_def drbg_input_def copy_at_Nil split: option.splits)
  have built: "(copy_at (copy_at (copy_at (zeroes room) 0 (crypto_store32_be (of_nat n))) 4 (crypto_store32_be (of_nat N))) 8 I)
      [8 + n := 0x80] = S" and lS: "length S = room"
    using df_string_built [where p = p and input = I and N = N] unfolding I room_def S_def by simp_all
  have dvd: "?n dvd length S" unfolding lS room_def
    using round_up [of ?n "9 + n"] b(1) by (metis dvd_triv_right)
  have key0: "copy_at (zeroes 32) 0 (map of_nat [0..<?k]) = map of_nat [0..<?k] @ zeroes (32 - ?k)"
    using b by (simp add: copy_at_def)
  obtain c where c: "ctr_block_context_init p (copy_at (zeroes 32) 0 (map of_nat [0..<?k])) = (SUCCESS, c)"
    "\<And>x. ctr_block_encrypt c x = (SUCCESS, drbg_E p (map of_nat [0..<?k]) x)"
    using ctr_block_ok [OF p, of "copy_at (zeroes 32) 0 (map of_nat [0..<?k])"] b unfolding key0 by auto
  define F where "F i = sp_bcc p (map of_nat [0..<?k]) (be_of_nat 4 i @ zeroes (?n - 4) @ S)" for i
  define temp where "temp = blocks_output ?n F (?k + ?n)"
  have F: "block_output ?n F" by unfold_locales (simp add: F_def length_sp_bcc [OF p])
  have lt: "length temp = ?k + ?n" using block_output.length_blocks_output [OF F b(1)] by (simp add: temp_def)
  have kn: "?k + ?n \<le> 48" using b(6) by (simp add: sp_seedlen_def)
  have collect: "df_collect p c S (?k + ?n) (zeroes 48) 0 0 = (SUCCESS, temp @ zeroes (48 - (?k + ?n)))"
    using df_collect_correct [OF c(2), where S = S and L = "?k + ?n" and out = "zeroes 48"] length_drbg_E [OF p] b dvd kn lt
    by (simp add: temp_def F_def [abs_def] copy_at_def)
  let ?t = "temp @ zeroes (48 - (?k + ?n))"
  obtain d where d: "ctr_block_context_init p ?t = (SUCCESS, d)"
    "\<And>x. ctr_block_encrypt d x = (SUCCESS, drbg_E p (take ?k temp) x)"
    using ctr_block_ok [OF p, of ?t] lt by auto
  have x: "take ?n (copy_at (zeroes 16) 0 (take ?n (drop ?k ?t))) = drop ?k temp"
    using lt b by (simp add: copy_at_def)
  have out: "df_output p d N (drop ?k temp) (zeroes N) 0 = (SUCCESS, sp_df p I N)"
  proof -
    have E: "length (drbg_E p (take ?k temp) y) = ?n" for y using lt by (simp add: length_drbg_E [OF p])
    have "block_output ?n (\<lambda>j. (drbg_E p (take ?k temp) ^^ Suc j) (drop ?k temp))"
      by unfold_locales (simp add: E)
    from block_output.length_blocks_output [OF this b(1), of N]
    show ?thesis
      using df_output_correct [OF d(2) E b(1), where L = N and out = "zeroes N" and X = "drop ?k temp"]
      by (simp add: copy_at_all sp_df_def Let_def temp_def F_def [abs_def] S_def)
  qed
  have g: "\<not> ((input = None \<and> n \<noteq> 0) \<or> N = 0 \<or> 48 < N)" "\<not> (2 ^ 32 - 1 < n \<or> 2 ^ 32 - 1 < N)"
    "\<not> (2 ^ 64 - 1) - 9 < n" "\<not> (2 ^ 64 - 1) - (?n - 1) < 8 + n + 1"
    using inp N b by (auto simp: drbg_input_def split: option.splits)
  show ?thesis
  proof (cases calloc_ok)
    case True
    then show ?thesis
      unfolding block_cipher_df_def Let_def if_not_P [OF g(1)] if_not_P [OF g(2)] if_not_P [OF g(3)] if_not_P [OF g(4)] room string built
      by (simp only: c(1) collect d(1) x out I_def [symmetric] prod.case simp_thms if_True if_False refl)
  next
    case False
    then show ?thesis
      unfolding block_cipher_df_def Let_def if_not_P [OF g(1)] if_not_P [OF g(2)] if_not_P [OF g(3)] if_not_P [OF g(4)] by simp
  qed
qed

section \<open>Update and seeds\<close>

text \<open>A context of the code stands for a key and a counter block of the standard, padded with zeroes.\<close>

definition drbg_rel :: "LiberaCCtrDrbgContext \<Rightarrow> CtrDrbgParameters \<Rightarrow> byte list \<Rightarrow> byte list \<Rightarrow> bool" where
  "drbg_rel c p K V \<longleftrightarrow>
     ctr_drbg_context_parameters c = Inr p \<and> length K = dp_KEY_LENGTH p \<and> length V = dp_BLOCK_LENGTH p \<and>
     drbg_KEY c = copy_at (zeroes 32) 0 K \<and> drbg_V c = copy_at (zeroes 16) 0 V"

definition drbg_with :: "LiberaCCtrDrbgContext \<Rightarrow> byte list \<times> byte list \<Rightarrow> LiberaCCtrDrbgContext" where
  "drbg_with c = (\<lambda>(K, V). c\<lparr>drbg_KEY := copy_at (zeroes 32) 0 K, drbg_V := copy_at (zeroes 16) 0 V\<rparr>)"

lemma drbg_context_params: "ctr_drbg_context_parameters c = Inr p \<Longrightarrow> drbg_params p"
  by (auto simp: ctr_drbg_context_parameters_def drbg_params_def split: sum.splits if_splits)

lemma drbg_parameters_cong:
  "drbg_ALG c = drbg_ALG d \<Longrightarrow> drbg_KEY_LENGTH c = drbg_KEY_LENGTH d \<Longrightarrow> drbg_USE_DF c = drbg_USE_DF d \<Longrightarrow>
    ctr_drbg_context_parameters c = ctr_drbg_context_parameters d"
  by (simp add: ctr_drbg_context_parameters_def split: sum.split)

lemma drbg_with_parameters [simp]:
  "ctr_drbg_context_parameters (drbg_with c x) = ctr_drbg_context_parameters c"
  "drbg_INSTANTIATED (drbg_with c x) = drbg_INSTANTIATED c"
  "drbg_RESEED_COUNTER (drbg_with c x) = drbg_RESEED_COUNTER c"
  by (rule drbg_parameters_cong) (simp_all add: drbg_with_def split: prod.split)

lemma drbg_counter_parameters [simp]:
  "ctr_drbg_context_parameters (c\<lparr>drbg_RESEED_COUNTER := k\<rparr>) = ctr_drbg_context_parameters c"
  "ctr_drbg_context_parameters (c\<lparr>drbg_RESEED_COUNTER := k, drbg_INSTANTIATED := b\<rparr>) = ctr_drbg_context_parameters c"
  by (rule drbg_parameters_cong; simp)+

lemma drbg_rel_counter [simp]:
  "drbg_rel (c\<lparr>drbg_RESEED_COUNTER := k\<rparr>) p K V = drbg_rel c p K V"
  "drbg_rel (c\<lparr>drbg_RESEED_COUNTER := k, drbg_INSTANTIATED := b\<rparr>) p K V = drbg_rel c p K V"
  by (simp_all add: drbg_rel_def)

lemma drbg_rel_params: "drbg_rel c p K V \<Longrightarrow> drbg_params p"
  by (auto simp: drbg_rel_def drbg_context_params)

lemma length_sp_stream:
  assumes "drbg_params p" "length K = dp_KEY_LENGTH p"
  shows "length (sp_stream p K V L) = L"
proof -
  have "block_output (dp_BLOCK_LENGTH p) (\<lambda>j. drbg_E p K (be_of_nat (dp_BLOCK_LENGTH p) (nat_of_be V + Suc j)))"
    by unfold_locales (simp add: length_drbg_E assms)
  then show ?thesis
    using block_output.length_blocks_output drbg_params_bounds(1) [OF assms(1)] by (simp add: sp_stream_def Let_def)
qed

lemma length_sp_update:
  assumes "drbg_params p" "length K = dp_KEY_LENGTH p" "length d = sp_seedlen p"
  shows "length (fst (sp_update p d K V)) = dp_KEY_LENGTH p" "length (snd (sp_update p d K V)) = dp_BLOCK_LENGTH p"
  using length_sp_stream [OF assms(1,2)] assms(3) by (simp_all add: sp_update_def Let_def sp_seedlen_def)

text \<open>The counter loop on a context: the stream of the standard, and the counter behind it.\<close>

lemma v_collect_rel:
  assumes rel: "drbg_rel c p K V" and enc: "\<And>b. ctr_block_encrypt cipher b = (SUCCESS, drbg_E p K b)" and L: "L \<le> length out"
  shows "v_collect p cipher L (drbg_V c) out 0 =
    (SUCCESS, copy_at (zeroes 16) 0 (be_of_nat (dp_BLOCK_LENGTH p) (nat_of_be V + (L + dp_BLOCK_LENGTH p - 1) div dp_BLOCK_LENGTH p)),
     copy_at out 0 (sp_stream p K V L))"
proof -
  let ?n = "dp_BLOCK_LENGTH p"
  have p: "drbg_params p" using rel by (rule drbg_rel_params)
  note b = drbg_params_bounds [OF p]
  have V: "drbg_V c = be_of_nat ?n (nat_of_be V) @ zeroes (16 - ?n)" and K: "length K = dp_KEY_LENGTH p"
    using rel b by (auto simp: drbg_rel_def copy_at_def)
  have E: "length (drbg_E p K x) = ?n" for x using K by (simp add: length_drbg_E [OF p])
  show ?thesis
    unfolding V using v_collect_correct [OF enc E b(1) refl _ L, where k = "nat_of_be V" and rest = "zeroes (16 - ?n)"] b
    by (simp add: sp_stream_def Let_def copy_at_def)
qed

lemma drbg_key_ready:
  assumes "drbg_rel c p K V"
  obtains cipher where "ctr_block_context_init p (drbg_KEY c) = (SUCCESS, cipher)"
    "\<And>b. ctr_block_encrypt cipher b = (SUCCESS, drbg_E p K b)"
proof -
  have p: "drbg_params p" using assms by (rule drbg_rel_params)
  note b = drbg_params_bounds [OF p]
  have "length (drbg_KEY c) = 32" "take (dp_KEY_LENGTH p) (drbg_KEY c) = K"
    using assms b by (auto simp: drbg_rel_def copy_at_def)
  then show ?thesis using ctr_block_ok [OF p, of "drbg_KEY c"] b that by auto
qed

lemma ctr_drbg_update_correct:
  assumes rel: "drbg_rel c p K V" and data: "sp_seedlen p \<le> length data"
  shows "ctr_drbg_update c (Some data) = (SUCCESS, drbg_with c (sp_update p (take (sp_seedlen p) data) K V))"
    "drbg_rel (drbg_with c (sp_update p (take (sp_seedlen p) data) K V)) p
      (fst (sp_update p (take (sp_seedlen p) data) K V)) (snd (sp_update p (take (sp_seedlen p) data) K V))"
proof -
  have p: "drbg_params p" using rel by (rule drbg_rel_params)
  note b = drbg_params_bounds [OF p]
  let ?s = "sp_seedlen p" and ?k = "dp_KEY_LENGTH p" and ?n = "dp_BLOCK_LENGTH p"
  have K: "length K = ?k" and ctx: "ctr_drbg_context_parameters c = Inr p" using rel by (auto simp: drbg_rel_def)
  obtain cipher where cipher: "ctr_block_context_init p (drbg_KEY c) = (SUCCESS, cipher)"
    "\<And>b. ctr_block_encrypt cipher b = (SUCCESS, drbg_E p K b)" using drbg_key_ready [OF rel] by blast
  define temp where "temp = sp_stream p K V ?s"
  have lt: "length temp = ?s" using length_sp_stream [OF p K] by (simp add: temp_def)
  define x where "x = xor_bytes temp (take ?s data)"
  have lx: "length x = ?s" using lt data by (simp add: x_def)
  have collected: "v_collect p cipher (?k + ?n) (drbg_V c) (zeroes 48) 0 =
      (SUCCESS, copy_at (zeroes 16) 0 (be_of_nat ?n (nat_of_be V + (?s + ?n - 1) div ?n)), temp @ zeroes (48 - ?s))"
    using v_collect_rel [OF rel cipher(2), of ?s "zeroes 48"] b(6) lt
    by (simp add: temp_def [symmetric] copy_at_def) (simp add: sp_seedlen_def)
  have mixed: "map (\<lambda>i. if i < ?k + ?n then (temp @ zeroes (48 - ?s)) ! i XOR data ! i else (temp @ zeroes (48 - ?s)) ! i) [0..<48] =
      x @ zeroes (48 - ?s)"
    using lt lx data b(6) by (intro nth_equalityI) (auto simp: nth_append x_def sp_seedlen_def)
  have parts: "take ?k (x @ zeroes (48 - ?s)) = take ?k x" "take ?n (drop ?k (x @ zeroes (48 - ?s))) = drop ?k x"
    using lx by (simp_all add: sp_seedlen_def)
  have upd: "sp_update p (take ?s data) K V = (take ?k x, drop ?k x)"
    by (simp add: sp_update_def Let_def x_def temp_def)
  show "ctr_drbg_update c (Some data) = (SUCCESS, drbg_with c (sp_update p (take ?s data) K V))"
    unfolding ctr_drbg_update_def ctx sum.case Let_def cipher(1) prod.case collected option.case mixed parts upd drbg_with_def
    by simp
  show "drbg_rel (drbg_with c (sp_update p (take ?s data) K V)) p
      (fst (sp_update p (take ?s data) K V)) (snd (sp_update p (take ?s data) K V))"
    using length_sp_update [OF p K, of "take ?s data" V] ctx data
    by (simp add: drbg_rel_def) (simp add: drbg_with_def split: prod.split)
qed

lemma ctr_drbg_update_exact:
  assumes "drbg_rel c p K V" "length data = sp_seedlen p"
  shows "ctr_drbg_update c (Some data) = (SUCCESS, drbg_with c (sp_update p data K V))"
    "drbg_rel (drbg_with c (sp_update p data K V)) p (fst (sp_update p data K V)) (snd (sp_update p data K V))"
  using ctr_drbg_update_correct [OF assms(1), of data] assms(2) by simp_all

text \<open>The seed of the derivation function, or why there is none.\<close>

definition df_status :: "bool \<times> bool \<Rightarrow> nat \<Rightarrow> status" where
  "df_status heap n =
     (if 2 ^ 32 \<le> n then MESSAGE_TOO_LARGE
      else if (n \<noteq> 0 \<and> \<not> fst heap) \<or> \<not> snd heap then ALLOCATION_FAILED
      else SUCCESS)"

lemma make_df_seed_correct:
  assumes ctx: "ctr_drbg_context_parameters context = Inr p"
    and inp: "drbg_input a al" "drbg_input b bl" "drbg_input c cl"
  shows "make_df_seed heap context a al b bl c cl =
    (df_status heap (al + bl + cl),
     if df_status heap (al + bl + cl) = SUCCESS
     then sp_df p (drbg_bytes a @ drbg_bytes b @ drbg_bytes c) (sp_seedlen p) else [])"
proof -
  have p: "drbg_params p" using ctx by (rule drbg_context_params)
  note bd = drbg_params_bounds [OF p]
  let ?part = "\<lambda>x n. case x of None \<Rightarrow> [] | Some bs \<Rightarrow> take n bs"
  have part: "?part a al = drbg_bytes a" "?part b bl = drbg_bytes b" "?part c cl = drbg_bytes c"
    using inp by (auto simp: drbg_input_def drbg_bytes_def split: option.splits)
  define j where "j = (if al + bl + cl = 0 then None else Some (drbg_bytes a @ drbg_bytes b @ drbg_bytes c))"
  have lens: "length (drbg_bytes a) = al" "length (drbg_bytes b) = bl" "length (drbg_bytes c) = cl"
    using inp by (simp_all add: drbg_input_length)
  then have j: "drbg_input j (al + bl + cl)" "drbg_bytes j = drbg_bytes a @ drbg_bytes b @ drbg_bytes c"
    by (auto simp: j_def drbg_input_def drbg_bytes_def split: option.splits)
  have df: "block_cipher_df (snd heap) p j (al + bl + cl) (sp_seedlen p) =
      (if snd heap then (SUCCESS, sp_df p (drbg_bytes j) (sp_seedlen p)) else (ALLOCATION_FAILED, []))"
    if "al + bl + cl < 2 ^ 32"
    using block_cipher_df_correct [OF p j(1) that] bd by (simp add: sp_seedlen_def)
  have big: "(2 ^ 64 - 1) - bl < al \<or> (2 ^ 64 - 1) - cl < al + bl \<Longrightarrow> 2 ^ 32 \<le> al + bl + cl"
    by auto
  show ?thesis
  proof (cases "2 ^ 32 \<le> al + bl + cl")
    case True
    then show ?thesis by (auto simp: make_df_seed_def df_status_def Let_def)
  next
    case False
    then have small: "\<not> ((2 ^ 64 - 1) - bl < al \<or> (2 ^ 64 - 1) - cl < al + bl)" "\<not> 2 ^ 32 - 1 < al + bl + cl"
      using big by auto
    have lt: "al + bl + cl < 2 ^ 32" using False by simp
    have "make_df_seed heap context a al b bl c cl =
        (if al + bl + cl \<noteq> 0 \<and> \<not> fst heap then (ALLOCATION_FAILED, [])
         else block_cipher_df (snd heap) p j (al + bl + cl) (sp_seedlen p))"
      unfolding make_df_seed_def Let_def if_not_P [OF small(1)] if_not_P [OF small(2)] ctx sum.case part j_def [symmetric] sp_seedlen_def ..
    then show ?thesis using False by (simp add: df [OF lt] j(2) df_status_def)
  qed
qed

definition sp_additional :: "CtrDrbgParameters \<Rightarrow> byte list \<Rightarrow> byte list" where
  "sp_additional p x =
     (if x = [] then zeroes (sp_seedlen p)
      else if dp_USE_DF p then sp_df p x (sp_seedlen p)
      else x @ zeroes (sp_seedlen p - length x))"

definition additional_status :: "CtrDrbgParameters \<Rightarrow> bool \<times> bool \<Rightarrow> nat \<Rightarrow> status" where
  "additional_status p heap n =
     (if n = 0 then SUCCESS
      else if dp_USE_DF p then df_status heap n
      else if sp_seedlen p < n then INVALID_ARGUMENT else SUCCESS)"

lemma length_sp_df:
  assumes "drbg_params p"
  shows "length (sp_df p x N) = N"
proof -
  note b = drbg_params_bounds [OF assms]
  define temp where "temp = blocks_output (dp_BLOCK_LENGTH p)
    (\<lambda>i. sp_bcc p (map of_nat [0..<dp_KEY_LENGTH p]) (be_of_nat 4 i @ zeroes (dp_BLOCK_LENGTH p - 4) @ sp_df_string p x N))
    (dp_KEY_LENGTH p + dp_BLOCK_LENGTH p)"
  have "block_output (dp_BLOCK_LENGTH p)
      (\<lambda>i. sp_bcc p (map of_nat [0..<dp_KEY_LENGTH p]) (be_of_nat 4 i @ zeroes (dp_BLOCK_LENGTH p - 4) @ sp_df_string p x N))"
    by unfold_locales (simp add: length_sp_bcc [OF assms])
  from block_output.length_blocks_output [OF this b(1)]
  have t: "length temp = dp_KEY_LENGTH p + dp_BLOCK_LENGTH p" by (simp add: temp_def)
  have "block_output (dp_BLOCK_LENGTH p)
      (\<lambda>j. (drbg_E p (take (dp_KEY_LENGTH p) temp) ^^ Suc j) (drop (dp_KEY_LENGTH p) temp))"
    by unfold_locales (simp add: length_drbg_E [OF assms] t)
  from block_output.length_blocks_output [OF this b(1)]
  show ?thesis by (simp add: sp_df_def Let_def temp_def)
qed

lemma length_sp_additional:
  "drbg_params p \<Longrightarrow> dp_USE_DF p \<or> length x \<le> sp_seedlen p \<Longrightarrow> length (sp_additional p x) = sp_seedlen p"
  by (auto simp: sp_additional_def length_sp_df)

lemma prepare_additional_correct:
  assumes ctx: "ctr_drbg_context_parameters c = Inr p" and inp: "drbg_input a n"
  obtains seed where "prepare_additional heap c a n = (additional_status p heap n, seed)"
    "additional_status p heap n = SUCCESS \<Longrightarrow> length seed = 48 \<and> take (sp_seedlen p) seed = sp_additional p (drbg_bytes a)"
proof -
  have p: "drbg_params p" using ctx by (rule drbg_context_params)
  note bd = drbg_params_bounds [OF p]
  have la: "length (drbg_bytes a) = n" using inp by (rule drbg_input_length)
  have g: "\<not> (a = None \<and> n \<noteq> 0)" using inp by (auto simp: drbg_input_def split: option.splits)
  have none: "drbg_input None 0" by (simp add: drbg_input_def)
  have df: "make_df_seed heap c a n None 0 None 0 =
      (df_status heap n, if df_status heap n = SUCCESS then sp_df p (drbg_bytes a) (sp_seedlen p) else [])"
    using make_df_seed_correct [OF ctx inp none none, of heap] by (simp add: drbg_bytes_def)
  have some: "n \<noteq> 0 \<Longrightarrow> a = Some (drbg_bytes a)"
    using g by (auto simp: drbg_bytes_def)
  consider "n = 0" | "n \<noteq> 0" "dp_USE_DF p" | "n \<noteq> 0" "\<not> dp_USE_DF p" "sp_seedlen p < n"
    | "n \<noteq> 0" "\<not> dp_USE_DF p" "n \<le> sp_seedlen p" by linarith
  then show ?thesis
  proof cases
    case 1
    then show ?thesis
      using la bd(6) g ctx by (intro that [of "zeroes 48"]) (auto simp: prepare_additional_def additional_status_def sp_additional_def)
  next
    case 2
    then show ?thesis
      using la bd(6) g ctx length_sp_df [OF p, of "drbg_bytes a" "sp_seedlen p"] df
      by (intro that [of "copy_at (zeroes 48) 0 (snd (make_df_seed heap c a n None 0 None 0))"])
        (auto simp: prepare_additional_def additional_status_def sp_additional_def copy_at_def)
  next
    case 3
    then show ?thesis
      using g ctx by (intro that [of "zeroes 48"])
        (auto simp: prepare_additional_def additional_status_def sp_seedlen_def Let_def)
  next
    case 4
    then have "prepare_additional heap c a n = (SUCCESS, copy_at (zeroes 48) 0 (take n (drbg_bytes a)))"
      using g ctx some by (auto simp: prepare_additional_def sp_seedlen_def Let_def)
    then show ?thesis
      using 4 la bd(6) by (intro that [of "copy_at (zeroes 48) 0 (take n (drbg_bytes a))"])
        (auto simp: additional_status_def sp_additional_def copy_at_def)
  qed
qed

end
