(* ===== verification/CTR_DRBG_Correct.thy ===== *)
theory CTR_DRBG_Correct
  imports CTR_DRBG_Spec
begin

text \<open>
  The operations of the generator against SP 800-90A, call by call, and the state machine they
  form: the invariant of every reachable context and the limit on requests between reseeds.
\<close>

section \<open>The functions of the standard\<close>

definition sp_seed_material :: "CtrDrbgParameters \<Rightarrow> byte list \<Rightarrow> byte list \<Rightarrow> byte list \<Rightarrow> byte list" where
  "sp_seed_material p entropy nonce extra =
     (if dp_USE_DF p then sp_df p (entropy @ nonce @ extra) (sp_seedlen p)
      else xor_bytes entropy (extra @ zeroes (sp_seedlen p - length extra)))"

definition sp_instantiate :: "CtrDrbgParameters \<Rightarrow> byte list \<Rightarrow> byte list \<Rightarrow> byte list \<Rightarrow> byte list \<times> byte list" where
  "sp_instantiate p entropy nonce personalization =
     sp_update p (sp_seed_material p entropy nonce personalization) (zeroes (dp_KEY_LENGTH p)) (zeroes (dp_BLOCK_LENGTH p))"

definition sp_reseed :: "CtrDrbgParameters \<Rightarrow> byte list \<Rightarrow> byte list \<Rightarrow> byte list \<times> byte list \<Rightarrow> byte list \<times> byte list" where
  "sp_reseed p entropy additional = (\<lambda>(K, V). sp_update p (sp_seed_material p entropy [] additional) K V)"

definition sp_generate ::
    "CtrDrbgParameters \<Rightarrow> nat \<Rightarrow> byte list \<Rightarrow> byte list \<times> byte list \<Rightarrow> byte list \<times> byte list \<times> byte list" where
  "sp_generate p L additional = (\<lambda>(K, V).
     let input = sp_additional p additional;
         (K, V) = (if additional = [] then (K, V) else sp_update p input K V);
         n = dp_BLOCK_LENGTH p
     in (sp_stream p K V L, sp_update p input K (be_of_nat n (nat_of_be V + (L + n - 1) div n))))"

section \<open>Seeds without derivation function\<close>

lemma xor_seed_padded:
  assumes "length d = n" "n \<le> length s"
  shows "xor_seed s d n = xor_bytes s (d @ zeroes (length s - n))"
  using assms by (intro nth_equalityI) (auto simp: xor_seed_def nth_append)

lemma seed_without_df:
  assumes "length e = sp_seedlen p" "drbg_input x n" "n \<le> sp_seedlen p"
  shows "(case x of None \<Rightarrow> take (sp_seedlen p) e | Some d \<Rightarrow> xor_seed (take (sp_seedlen p) e) d n) =
    xor_bytes e (drbg_bytes x @ zeroes (sp_seedlen p - n))"
proof (cases x)
  case None
  then have "xor_bytes e (zeroes (sp_seedlen p)) = e"
    using assms(1) by (intro nth_equalityI) auto
  then show ?thesis using None assms by (simp add: drbg_input_def drbg_bytes_def)
next
  case (Some d)
  then show ?thesis using assms xor_seed_padded [of d n e] by (simp add: drbg_input_def drbg_bytes_def)
qed

text \<open>The seed of a request, and why it is refused.\<close>

definition seed_status :: "CtrDrbgParameters \<Rightarrow> bool \<times> bool \<Rightarrow> nat \<Rightarrow> status" where
  "seed_status p heap n = (if dp_USE_DF p then df_status heap n else SUCCESS)"

lemma seed_correct:
  assumes ctx: "ctr_drbg_context_parameters c = Inr p" and inp: "drbg_input (Some e) el" "drbg_input a al" "drbg_input b bl"
    and plain: "\<not> dp_USE_DF p \<Longrightarrow> el = sp_seedlen p \<and> al \<le> sp_seedlen p \<and> bl = 0"
  obtains seed where "(if dp_USE_DF p then make_df_seed heap c (Some e) el b bl a al
      else (SUCCESS, case a of None \<Rightarrow> take (sp_seedlen p) e | Some d \<Rightarrow> xor_seed (take (sp_seedlen p) e) d al)) =
        (seed_status p heap (el + bl + al), seed)"
    "seed_status p heap (el + bl + al) = SUCCESS \<Longrightarrow> seed = sp_seed_material p e (drbg_bytes b) (drbg_bytes a) \<and> length seed = sp_seedlen p"
proof (cases "dp_USE_DF p")
  case True
  have p: "drbg_params p" using ctx by (rule drbg_context_params)
  show ?thesis
    using True make_df_seed_correct [OF ctx inp(1,3,2), of heap] length_sp_df [OF p]
    by (intro that) (auto simp: seed_status_def sp_seed_material_def drbg_bytes_def)
next
  case False
  have "length e = sp_seedlen p" "al = length (drbg_bytes a)"
    using inp plain False by (auto simp: drbg_input_def drbg_input_length)
  then show ?thesis
    using False plain seed_without_df [of e p a al] inp(2)
    by (intro that) (auto simp: seed_status_def sp_seed_material_def)
qed

section \<open>Instantiation\<close>

definition instantiate_refused :: "CtrDrbgParameters \<Rightarrow> nat \<Rightarrow> nat \<Rightarrow> nat \<Rightarrow> bool" where
  "instantiate_refused p el nl pl \<longleftrightarrow>
     (if dp_USE_DF p then el < dp_SECURITY_BYTES p \<or> el + nl < dp_SECURITY_BYTES p + (dp_SECURITY_BYTES p + 1) div 2
      else el \<noteq> sp_seedlen p \<or> nl \<noteq> 0 \<or> sp_seedlen p < pl)"

lemma instantiate_correct:
  fixes heap e el nl pl nonce pers p
  assumes p: "ctr_drbg_parameters alg = Inr p"
    and inp: "drbg_input (Some e) el" "drbg_input nonce nl" "drbg_input pers pl"
  defines "st \<equiv> seed_status p heap (el + nl + pl)" and "KV \<equiv> sp_instantiate p e (drbg_bytes nonce) (drbg_bytes pers)"
  shows "crypto_ctr_drbg_instantiate_internal heap (Some c) alg (Some e) el nonce nl pers pl =
    (if instantiate_refused p el nl pl then (INVALID_ARGUMENT, Some crypto_ctr_drbg_clear_internal)
     else if st \<noteq> SUCCESS then (st, Some crypto_ctr_drbg_clear_internal)
     else (SUCCESS, Some (drbg_with (crypto_ctr_drbg_clear_internal\<lparr>drbg_ALG := alg, drbg_KEY_LENGTH := dp_KEY_LENGTH p,
            drbg_USE_DF := dp_USE_DF p\<rparr>) KV\<lparr>drbg_RESEED_COUNTER := 1, drbg_INSTANTIATED := True\<rparr>)))"
    "\<not> instantiate_refused p el nl pl \<Longrightarrow> st = SUCCESS \<Longrightarrow>
      drbg_rel (drbg_with (crypto_ctr_drbg_clear_internal\<lparr>drbg_ALG := alg, drbg_KEY_LENGTH := dp_KEY_LENGTH p,
            drbg_USE_DF := dp_USE_DF p\<rparr>) KV) p (fst KV) (snd KV)"
proof -
  let ?c = "crypto_ctr_drbg_clear_internal\<lparr>drbg_ALG := alg, drbg_KEY_LENGTH := dp_KEY_LENGTH p, drbg_USE_DF := dp_USE_DF p\<rparr>"
  have dp: "drbg_params p" using p by (auto simp: drbg_params_def)
  note b = drbg_params_bounds [OF dp]
  have ctx: "ctr_drbg_context_parameters ?c = Inr p"
    using p by (simp add: ctr_drbg_context_parameters_def)
  have rel: "drbg_rel ?c p (zeroes (dp_KEY_LENGTH p)) (zeroes (dp_BLOCK_LENGTH p))"
    unfolding drbg_rel_def using ctx b
    by (simp add: copy_at_def crypto_ctr_drbg_clear_internal_def replicate_add [symmetric])
  have g: "\<not> (Some c = None \<or> Some e = None \<or> (nonce = None \<and> nl \<noteq> 0) \<or> (pers = None \<and> pl \<noteq> 0))"
    using inp by (auto simp: drbg_input_def split: option.splits)
  let ?s = "dp_SECURITY_BYTES p" and ?l = "dp_KEY_LENGTH p + dp_BLOCK_LENGTH p"
  have refused: "instantiate_refused p el nl pl \<longleftrightarrow>
      (dp_USE_DF p \<and> (el < ?s \<or> (el < ?s + (?s + 1) div 2 \<and> nl < ?s + (?s + 1) div 2 - el))) \<or>
      (\<not> dp_USE_DF p \<and> (el \<noteq> ?l \<or> nl \<noteq> 0 \<or> ?l < pl))"
    by (auto simp: instantiate_refused_def sp_seedlen_def)
  have ok: "crypto_ctr_drbg_instantiate_internal heap (Some c) alg (Some e) el nonce nl pers pl =
      (if st \<noteq> SUCCESS then (st, Some crypto_ctr_drbg_clear_internal)
       else (SUCCESS, Some (drbg_with ?c KV\<lparr>drbg_RESEED_COUNTER := 1, drbg_INSTANTIATED := True\<rparr>))) \<and>
      (st = SUCCESS \<longrightarrow> drbg_rel (drbg_with ?c KV) p (fst KV) (snd KV))"
    if r: "\<not> instantiate_refused p el nl pl"
  proof -
    have plain: "\<not> dp_USE_DF p \<Longrightarrow> el = sp_seedlen p \<and> pl \<le> sp_seedlen p \<and> nl = 0"
      using r by (auto simp: instantiate_refused_def)
    have r1: "\<not> (dp_USE_DF p \<and> (el < ?s \<or> (el < ?s + (?s + 1) div 2 \<and> nl < ?s + (?s + 1) div 2 - el)))"
      "\<not> (\<not> dp_USE_DF p \<and> (el \<noteq> ?l \<or> nl \<noteq> 0 \<or> ?l < pl))"
      using r unfolding refused by auto
    obtain seed where seed: "(if dp_USE_DF p then make_df_seed heap ?c (Some e) el nonce nl pers pl
        else (SUCCESS, case pers of None \<Rightarrow> take (sp_seedlen p) e | Some d \<Rightarrow> xor_seed (take (sp_seedlen p) e) d pl)) = (st, seed)"
      "st = SUCCESS \<Longrightarrow> seed = sp_seed_material p e (drbg_bytes nonce) (drbg_bytes pers) \<and> length seed = sp_seedlen p"
      using seed_correct [OF ctx inp(1,3,2) plain, of heap] unfolding st_def by blast
    have upd: "ctr_drbg_update ?c (Some seed) = (SUCCESS, drbg_with ?c KV)" "drbg_rel (drbg_with ?c KV) p (fst KV) (snd KV)" if "st = SUCCESS"
      using ctr_drbg_update_exact [OF rel, of seed] seed(2) [OF that] unfolding KV_def sp_instantiate_def by blast+
    show ?thesis
      unfolding crypto_ctr_drbg_instantiate_internal_def if_not_P [OF g] p sum.case Let_def if_not_P [OF r1(1)] if_not_P [OF r1(2)]
        option.sel
      unfolding sp_seedlen_def [symmetric] seed(1) prod.case
      using upd by (cases "st = SUCCESS") simp_all
  qed
  have bad: "crypto_ctr_drbg_instantiate_internal heap (Some c) alg (Some e) el nonce nl pers pl =
      (INVALID_ARGUMENT, Some crypto_ctr_drbg_clear_internal)" if "instantiate_refused p el nl pl"
    using that unfolding refused crypto_ctr_drbg_instantiate_internal_def if_not_P [OF g] p sum.case Let_def by auto
  show "crypto_ctr_drbg_instantiate_internal heap (Some c) alg (Some e) el nonce nl pers pl =
    (if instantiate_refused p el nl pl then (INVALID_ARGUMENT, Some crypto_ctr_drbg_clear_internal)
     else if st \<noteq> SUCCESS then (st, Some crypto_ctr_drbg_clear_internal)
     else (SUCCESS, Some (drbg_with ?c KV\<lparr>drbg_RESEED_COUNTER := 1, drbg_INSTANTIATED := True\<rparr>)))"
    using ok bad by (cases "instantiate_refused p el nl pl") simp_all
  show "drbg_rel (drbg_with ?c KV) p (fst KV) (snd KV)" if "\<not> instantiate_refused p el nl pl" "st = SUCCESS"
    using ok that by simp
qed

section \<open>Reseeding\<close>

definition reseed_refused :: "CtrDrbgParameters \<Rightarrow> nat \<Rightarrow> nat \<Rightarrow> bool" where
  "reseed_refused p el al \<longleftrightarrow>
     (if dp_USE_DF p then el < dp_SECURITY_BYTES p else el \<noteq> sp_seedlen p \<or> sp_seedlen p < al)"

lemma reseed_correct:
  fixes heap e el al additional p K V
  assumes rel: "drbg_rel c p K V" and live: "drbg_INSTANTIATED c"
    and inp: "drbg_input (Some e) el" "drbg_input additional al"
  defines "st \<equiv> seed_status p heap (el + al)" and "KV \<equiv> sp_reseed p e (drbg_bytes additional) (K, V)"
  shows "crypto_ctr_drbg_reseed_internal heap (Some c) (Some e) el additional al =
    (if reseed_refused p el al then (INVALID_ARGUMENT, Some c)
     else if st \<noteq> SUCCESS then (st, Some c)
     else (SUCCESS, Some (drbg_with c KV\<lparr>drbg_RESEED_COUNTER := 1\<rparr>)))"
    "\<not> reseed_refused p el al \<Longrightarrow> st = SUCCESS \<Longrightarrow> drbg_rel (drbg_with c KV) p (fst KV) (snd KV)"
proof -
  have ctx: "ctr_drbg_context_parameters c = Inr p" using rel by (simp add: drbg_rel_def)
  have g: "\<not> (\<not> drbg_INSTANTIATED c \<or> Some e = None \<or> (additional = None \<and> al \<noteq> 0))"
    using inp live by (auto simp: drbg_input_def split: option.splits)
  have none: "drbg_input None 0" by (simp add: drbg_input_def)
  have refused: "reseed_refused p el al \<longleftrightarrow> (dp_USE_DF p \<and> el < dp_SECURITY_BYTES p) \<or>
      (\<not> dp_USE_DF p \<and> (el \<noteq> dp_KEY_LENGTH p + dp_BLOCK_LENGTH p \<or> dp_KEY_LENGTH p + dp_BLOCK_LENGTH p < al))"
    by (auto simp: reseed_refused_def sp_seedlen_def)
  have ok: "crypto_ctr_drbg_reseed_internal heap (Some c) (Some e) el additional al =
      (if st \<noteq> SUCCESS then (st, Some c) else (SUCCESS, Some (drbg_with c KV\<lparr>drbg_RESEED_COUNTER := 1\<rparr>))) \<and>
      (st = SUCCESS \<longrightarrow> drbg_rel (drbg_with c KV) p (fst KV) (snd KV))"
    if r: "\<not> reseed_refused p el al"
  proof -
    have plain: "\<not> dp_USE_DF p \<Longrightarrow> el = sp_seedlen p \<and> al \<le> sp_seedlen p \<and> 0 = 0"
      using r by (auto simp: reseed_refused_def)
    have r1: "\<not> (dp_USE_DF p \<and> el < dp_SECURITY_BYTES p)"
      "\<not> (\<not> dp_USE_DF p \<and> (el \<noteq> dp_KEY_LENGTH p + dp_BLOCK_LENGTH p \<or> dp_KEY_LENGTH p + dp_BLOCK_LENGTH p < al))"
      using r unfolding refused by auto
    have swap: "make_df_seed heap c (Some e) el additional al None 0 = make_df_seed heap c (Some e) el None 0 additional al"
      if "dp_USE_DF p"
      using make_df_seed_correct [OF ctx inp(1,2) none, of heap] make_df_seed_correct [OF ctx inp(1) none inp(2), of heap]
      by (simp add: drbg_bytes_def)
    obtain seed where seed: "(if dp_USE_DF p then make_df_seed heap c (Some e) el None 0 additional al
        else (SUCCESS, case additional of None \<Rightarrow> take (sp_seedlen p) e | Some d \<Rightarrow> xor_seed (take (sp_seedlen p) e) d al)) = (st, seed)"
      "st = SUCCESS \<Longrightarrow> seed = sp_seed_material p e [] (drbg_bytes additional) \<and> length seed = sp_seedlen p"
      using seed_correct [OF ctx inp(1,2) none plain, of heap] unfolding st_def by (auto simp: drbg_bytes_def)
    have upd: "ctr_drbg_update c (Some seed) = (SUCCESS, drbg_with c KV)" "drbg_rel (drbg_with c KV) p (fst KV) (snd KV)" if "st = SUCCESS"
      using ctr_drbg_update_exact [OF rel, of seed] seed(2) [OF that] unfolding KV_def sp_reseed_def prod.case by blast+
    have "(if dp_USE_DF p then make_df_seed heap c (Some e) el additional al None 0
        else (SUCCESS, case additional of None \<Rightarrow> take (sp_seedlen p) e | Some d \<Rightarrow> xor_seed (take (sp_seedlen p) e) d al)) = (st, seed)"
      using seed(1) swap by (cases "dp_USE_DF p") simp_all
    note seed' = this
    show ?thesis
      unfolding crypto_ctr_drbg_reseed_internal_def option.case if_not_P [OF g] ctx sum.case Let_def if_not_P [OF r1(1)] if_not_P [OF r1(2)]
        option.sel
      unfolding sp_seedlen_def [symmetric] seed' prod.case
      using upd by (cases "st = SUCCESS") simp_all
  qed
  have bad: "crypto_ctr_drbg_reseed_internal heap (Some c) (Some e) el additional al = (INVALID_ARGUMENT, Some c)"
    if "reseed_refused p el al"
    using that unfolding refused crypto_ctr_drbg_reseed_internal_def option.case if_not_P [OF g] ctx sum.case Let_def by auto
  show "crypto_ctr_drbg_reseed_internal heap (Some c) (Some e) el additional al =
    (if reseed_refused p el al then (INVALID_ARGUMENT, Some c)
     else if st \<noteq> SUCCESS then (st, Some c)
     else (SUCCESS, Some (drbg_with c KV\<lparr>drbg_RESEED_COUNTER := 1\<rparr>)))"
    using ok bad by (cases "reseed_refused p el al") simp_all
  show "drbg_rel (drbg_with c KV) p (fst KV) (snd KV)" if "\<not> reseed_refused p el al" "st = SUCCESS"
    using ok that by simp
qed

section \<open>Generation\<close>

lemma generate_blocks_correct:
  fixes heap L additional al p K V
  assumes rel: "drbg_rel c p K V" and inp: "drbg_input additional al"
  defines "st \<equiv> additional_status p heap al" and "R \<equiv> sp_generate p L (drbg_bytes additional) (K, V)"
  shows "ctr_drbg_generate_blocks heap c p L additional al =
    (if st \<noteq> SUCCESS then (st, c, zeroes L)
     else (SUCCESS, drbg_with c (snd R)\<lparr>drbg_RESEED_COUNTER := drbg_RESEED_COUNTER c + 1\<rparr>, fst R))"
    "st = SUCCESS \<Longrightarrow> drbg_rel (drbg_with c (snd R)) p (fst (snd R)) (snd (snd R))"
proof -
  have p: "drbg_params p" using rel by (rule drbg_rel_params)
  note b = drbg_params_bounds [OF p]
  let ?n = "dp_BLOCK_LENGTH p"
  have ctx: "ctr_drbg_context_parameters c = Inr p" using rel by (simp add: drbg_rel_def)
  have la: "length (drbg_bytes additional) = al" using inp by (rule drbg_input_length)
  define I where "I = sp_additional p (drbg_bytes additional)"
  obtain seed where seed: "prepare_additional heap c additional al = (st, seed)"
    "st = SUCCESS \<Longrightarrow> length seed = 48 \<and> take (sp_seedlen p) seed = I"
    using prepare_additional_correct [OF ctx inp, of heap] unfolding st_def I_def by blast
  have main: "ctr_drbg_generate_blocks heap c p L additional al =
      (SUCCESS, drbg_with c (snd R)\<lparr>drbg_RESEED_COUNTER := drbg_RESEED_COUNTER c + 1\<rparr>, fst R) \<and>
      drbg_rel (drbg_with c (snd R)) p (fst (snd R)) (snd (snd R))" if ok: "st = SUCCESS"
  proof -
    have ls: "sp_seedlen p \<le> length seed" and ts: "take (sp_seedlen p) seed = I" using seed(2) [OF ok] b(6) by auto
    obtain K1 V1 where KV1: "(if al \<noteq> 0 then sp_update p I K V else (K, V)) = (K1, V1)" by (meson surj_pair)
    have first: "(if al \<noteq> 0 then ctr_drbg_update c (Some seed) else (SUCCESS, c)) = (SUCCESS, drbg_with c (K1, V1))"
      "drbg_rel (drbg_with c (K1, V1)) p K1 V1"
    proof -
      have same: "drbg_with c (K, V) = c" using rel by (simp add: drbg_with_def drbg_rel_def)
      show "(if al \<noteq> 0 then ctr_drbg_update c (Some seed) else (SUCCESS, c)) = (SUCCESS, drbg_with c (K1, V1))"
        using KV1 ctr_drbg_update_correct(1) [OF rel ls] same unfolding ts by (auto split: if_splits)
      show "drbg_rel (drbg_with c (K1, V1)) p K1 V1"
        using KV1 ctr_drbg_update_correct(2) [OF rel ls] same rel unfolding ts by (auto split: if_splits)
    qed
    let ?c = "drbg_with c (K1, V1)"
    obtain cipher where cipher: "ctr_block_context_init p (drbg_KEY ?c) = (SUCCESS, cipher)"
      "\<And>b. ctr_block_encrypt cipher b = (SUCCESS, drbg_E p K1 b)" using drbg_key_ready [OF first(2)] by blast
    define V2 where "V2 = be_of_nat ?n (nat_of_be V1 + (L + ?n - 1) div ?n)"
    have K1: "length K1 = dp_KEY_LENGTH p" using first(2) by (simp add: drbg_rel_def)
    have blocks: "v_collect p cipher L (drbg_V ?c) (zeroes L) 0 = (SUCCESS, copy_at (zeroes 16) 0 V2, sp_stream p K1 V1 L)"
      using v_collect_rel [OF first(2) cipher(2), of L "zeroes L"] length_sp_stream [OF p K1]
      by (simp add: V2_def copy_at_all)
    have with2: "?c\<lparr>drbg_V := copy_at (zeroes 16) 0 V2\<rparr> = drbg_with c (K1, V2)"
      by (simp add: drbg_with_def)
    have rel2: "drbg_rel (drbg_with c (K1, V2)) p K1 V2"
      using first(2) by (simp add: drbg_rel_def V2_def) (simp add: drbg_with_def)
    have last: "ctr_drbg_update (drbg_with c (K1, V2)) (Some seed) = (SUCCESS, drbg_with c (sp_update p I K1 V2))"
      "drbg_rel (drbg_with c (sp_update p I K1 V2)) p (fst (sp_update p I K1 V2)) (snd (sp_update p I K1 V2))"
    proof -
      have "drbg_with (drbg_with c (K1, V2)) x = drbg_with c x" for x by (simp add: drbg_with_def split: prod.split)
      then show "ctr_drbg_update (drbg_with c (K1, V2)) (Some seed) = (SUCCESS, drbg_with c (sp_update p I K1 V2))"
        "drbg_rel (drbg_with c (sp_update p I K1 V2)) p (fst (sp_update p I K1 V2)) (snd (sp_update p I K1 V2))"
        using ctr_drbg_update_correct [OF rel2 ls] unfolding ts by simp_all
    qed
    have "(if drbg_bytes additional = [] then (K, V) else sp_update p I K V) = (K1, V1)"
      using KV1 la by (auto split: if_splits)
    then have R: "R = (sp_stream p K1 V1 L, sp_update p I K1 V2)"
      by (simp add: R_def sp_generate_def Let_def I_def [symmetric] V2_def)
    have "ctr_drbg_generate_blocks heap c p L additional al =
        (SUCCESS, drbg_with c (sp_update p I K1 V2)\<lparr>drbg_RESEED_COUNTER := drbg_RESEED_COUNTER c + 1\<rparr>, sp_stream p K1 V1 L)"
      unfolding ctr_drbg_generate_blocks_def seed(1) ok Let_def prod.case first(1) cipher(1) blocks with2 last(1) by simp
    then show ?thesis using last(2) by (simp add: R)
  qed
  have bad: "st \<noteq> SUCCESS \<Longrightarrow> ctr_drbg_generate_blocks heap c p L additional al = (st, c, zeroes L)"
    by (simp add: ctr_drbg_generate_blocks_def seed(1))
  show "ctr_drbg_generate_blocks heap c p L additional al =
    (if st \<noteq> SUCCESS then (st, c, zeroes L)
     else (SUCCESS, drbg_with c (snd R)\<lparr>drbg_RESEED_COUNTER := drbg_RESEED_COUNTER c + 1\<rparr>, fst R))"
    using main bad by (cases "st = SUCCESS") simp_all
  show "drbg_rel (drbg_with c (snd R)) p (fst (snd R)) (snd (snd R))" if "st = SUCCESS"
    using main that by simp
qed

lemma generate_correct:
  fixes heap L additional al p K V
  assumes rel: "drbg_rel c p K V" and live: "drbg_INSTANTIATED c" and inp: "drbg_input additional al"
  defines "st \<equiv> additional_status p heap al" and "R \<equiv> sp_generate p L (drbg_bytes additional) (K, V)"
  shows "crypto_ctr_drbg_generate_internal os s heap (Some c) output_null L additional al False =
    (if output_null \<and> L \<noteq> 0 then (INVALID_ARGUMENT, Some c, [], s)
     else if dp_MAX_REQUEST_BYTES p < L then (MESSAGE_TOO_LARGE, Some c, [], s)
     else if dp_RESEED_INTERVAL p < drbg_RESEED_COUNTER c then (RESEED_REQUIRED, Some c, [], s)
     else if st \<noteq> SUCCESS then (st, Some c, zeroes L, s)
     else (SUCCESS, Some (drbg_with c (snd R)\<lparr>drbg_RESEED_COUNTER := drbg_RESEED_COUNTER c + 1\<rparr>), fst R, s))"
proof -
  have ctx: "ctr_drbg_context_parameters c = Inr p" using rel by (simp add: drbg_rel_def)
  have g: "(\<not> drbg_INSTANTIATED c \<or> (output_null \<and> L \<noteq> 0) \<or> (additional = None \<and> al \<noteq> 0)) = (output_null \<and> L \<noteq> 0)"
    using inp live by (auto simp: drbg_input_def split: option.splits)
  show ?thesis
    unfolding crypto_ctr_drbg_generate_internal_def option.case g ctx sum.case
    using generate_blocks_correct(1) [OF rel inp, of heap L]
    by (simp add: st_def R_def Let_def split: prod.split)
qed



end
