(* ===== verification/CTR_DRBG_Machine.thy ===== *)
theory CTR_DRBG_Machine
  imports CTR_DRBG_Correct
begin

text \<open>
  The state machine of a generator context: the calls a client makes, the contexts they reach,
  the invariant of these, and the limit on the requests between two reseeds.
\<close>

text \<open>
  The calls a client can make on one context, with well-formed buffers: a null pointer has
  length zero and any other buffer the length that is passed. The system's random source
  returns as many bytes as it is asked for, or fails.
\<close>

datatype drbg_call =
    Instantiate alg_id "byte list" "byte list option" nat "byte list option" nat
  | Instantiate_OS alg_id "byte list option" nat
  | Reseed "byte list" "byte list option" nat
  | Reseed_OS "byte list option" nat
  | Generate bool nat "byte list option" nat bool
  | Clear

fun drbg_call_ok :: "drbg_call \<Rightarrow> bool" where
  "drbg_call_ok (Instantiate alg e nonce nl pers pl) = (drbg_input nonce nl \<and> drbg_input pers pl)"
| "drbg_call_ok (Instantiate_OS alg pers pl) = drbg_input pers pl"
| "drbg_call_ok (Reseed e additional al) = drbg_input additional al"
| "drbg_call_ok (Reseed_OS additional al) = drbg_input additional al"
| "drbg_call_ok (Generate output_null L additional al resist) = drbg_input additional al"
| "drbg_call_ok Clear = True"

fun drbg_exec ::
    "('s \<Rightarrow> nat \<Rightarrow> byte list option \<times> 's) \<Rightarrow> bool \<times> bool \<Rightarrow> drbg_call \<Rightarrow> LiberaCCtrDrbgContext \<Rightarrow> 's \<Rightarrow>
     status \<times> LiberaCCtrDrbgContext option \<times> 's" where
  "drbg_exec os heap (Instantiate alg e nonce nl pers pl) c s =
     (case LIBERAC_CTR_DRBG_INSTANTIATE heap (Some c) (Some e) (length e) nonce nl pers pl alg of (err, c) \<Rightarrow> (err, c, s))"
| "drbg_exec os heap (Instantiate_OS alg pers pl) c s = LIBERAC_CTR_DRBG_INSTANTIATE_OS os s heap (Some c) pers pl alg"
| "drbg_exec os heap (Reseed e additional al) c s =
     (case LIBERAC_CTR_DRBG_RESEED heap (Some c) (Some e) (length e) additional al of (err, c) \<Rightarrow> (err, c, s))"
| "drbg_exec os heap (Reseed_OS additional al) c s = LIBERAC_CTR_DRBG_RESEED_OS os s heap (Some c) additional al"
| "drbg_exec os heap (Generate output_null L additional al resist) c s =
     (case LIBERAC_CTR_DRBG_GENERATE os s heap (Some c) output_null L additional al resist of
        (err, c, output, s) \<Rightarrow> (err, c, s))"
| "drbg_exec os heap Clear c s = (SUCCESS, LIBERAC_CTR_DRBG_CLEAR (Some c), s)"

definition os_ok :: "('s \<Rightarrow> nat \<Rightarrow> byte list option \<times> 's) \<Rightarrow> bool" where
  "os_ok os \<longleftrightarrow> (\<forall>s n b t. os s n = (Some b, t) \<longrightarrow> length b = n)"

inductive drbg_reachable :: "('s \<Rightarrow> nat \<Rightarrow> byte list option \<times> 's) \<Rightarrow> LiberaCCtrDrbgContext \<Rightarrow> 's \<Rightarrow> bool"
  for os :: "'s \<Rightarrow> nat \<Rightarrow> byte list option \<times> 's" where
  start: "drbg_reachable os crypto_ctr_drbg_clear_internal s"
| call: "drbg_reachable os c s \<Longrightarrow> drbg_call_ok call \<Longrightarrow> drbg_exec os heap call c s = (err, Some c', s') \<Longrightarrow> drbg_reachable os c' s'"

text \<open>An instantiated context stands for a state of the standard, with a counter within its limit.\<close>

definition drbg_inv :: "LiberaCCtrDrbgContext \<Rightarrow> bool" where
  "drbg_inv c \<longleftrightarrow> (drbg_INSTANTIATED c \<longrightarrow>
     (\<exists>p K V. drbg_rel c p K V \<and> 1 \<le> unat (drbg_RESEED_COUNTER c) \<and>
       unat (drbg_RESEED_COUNTER c) \<le> unat (dp_RESEED_INTERVAL p) + 1))"

lemma drbg_inv_cleared: "drbg_inv crypto_ctr_drbg_clear_internal"
  by (simp add: drbg_inv_def crypto_ctr_drbg_clear_internal_def)

lemma drbg_inv_seeded:
  assumes "drbg_rel c p K V"
  shows "drbg_inv (c\<lparr>drbg_RESEED_COUNTER := 1\<rparr>)" "drbg_inv (c\<lparr>drbg_RESEED_COUNTER := 1, drbg_INSTANTIATED := b\<rparr>)"
  unfolding drbg_inv_def using assms by fastforce+

lemma instantiate_inv:
  assumes "drbg_inv c" "drbg_input (Some e) el" "drbg_input nonce nl" "drbg_input pers pl"
    and "crypto_ctr_drbg_instantiate_internal heap (Some c) alg (Some e) el nonce nl pers pl = (err, Some d)"
  shows "drbg_inv d"
proof (cases "ctr_drbg_parameters alg")
  case (Inl x)
  then show ?thesis using assms(1,5) by (auto simp: crypto_ctr_drbg_instantiate_internal_def split: if_splits)
next
  case (Inr p)
  note i = instantiate_correct [OF Inr assms(2-4), of heap]
  show ?thesis
    using assms(5) i(2) drbg_inv_cleared drbg_inv_seeded(2) unfolding i(1) by (auto split: if_splits)
qed

lemma reseed_inv:
  assumes "drbg_inv c" "drbg_input (Some e) el" "drbg_input additional al"
    and eq: "crypto_ctr_drbg_reseed_internal heap (Some c) (Some e) el additional al = (err, Some d)"
  shows "drbg_inv d" "drbg_INSTANTIATED d = drbg_INSTANTIATED c"
    "err = SUCCESS \<Longrightarrow> drbg_RESEED_COUNTER d = 1"
    "ctr_drbg_context_parameters d = ctr_drbg_context_parameters c"
proof -
  have "drbg_inv d \<and> drbg_INSTANTIATED d = drbg_INSTANTIATED c \<and> (err = SUCCESS \<longrightarrow> drbg_RESEED_COUNTER d = 1) \<and>
      ctr_drbg_context_parameters d = ctr_drbg_context_parameters c"
  proof (cases "drbg_INSTANTIATED c")
    case False
    then show ?thesis using assms(1) eq by (auto simp: crypto_ctr_drbg_reseed_internal_def)
  next
    case True
    then obtain p K V where rel: "drbg_rel c p K V" using assms(1) by (auto simp: drbg_inv_def)
    note r = reseed_correct [OF rel True assms(2,3), of heap]
    show ?thesis
      using eq r(2) assms(1) drbg_inv_seeded(1) True rel unfolding r(1)
      by (auto simp: seed_status_def drbg_rel_def split: if_splits)
  qed
  then show "drbg_inv d" "drbg_INSTANTIATED d = drbg_INSTANTIATED c" "err = SUCCESS \<Longrightarrow> drbg_RESEED_COUNTER d = 1"
    "ctr_drbg_context_parameters d = ctr_drbg_context_parameters c"
    by simp_all
qed

lemma random_bytes_input:
  "os_ok os \<Longrightarrow> crypto_random_bytes_internal os s False n = (SUCCESS, b, t) \<Longrightarrow> drbg_input (Some b) n"
  by (auto simp: crypto_random_bytes_internal_def os_ok_def drbg_input_def split: prod.splits option.splits)

lemma reseed_os_call:
  assumes ctx: "ctr_drbg_context_parameters c = Inr p" and live: "drbg_INSTANTIATED c" and inp: "drbg_input additional al"
    and rnd: "crypto_random_bytes_internal os s False (if dp_USE_DF p then dp_SECURITY_BYTES p else sp_seedlen p) = (e, b, t)"
  shows "crypto_ctr_drbg_reseed_os_internal os s heap (Some c) additional al =
    (if e \<noteq> SUCCESS then (e, Some c, t)
     else (fst (crypto_ctr_drbg_reseed_internal heap (Some c) (Some b)
             (if dp_USE_DF p then dp_SECURITY_BYTES p else sp_seedlen p) additional al),
           snd (crypto_ctr_drbg_reseed_internal heap (Some c) (Some b)
             (if dp_USE_DF p then dp_SECURITY_BYTES p else sp_seedlen p) additional al), t))"
proof -
  have g: "\<not> (\<not> drbg_INSTANTIATED c \<or> (additional = None \<and> al \<noteq> 0))"
    using inp live by (auto simp: drbg_input_def split: option.splits)
  show ?thesis
    unfolding crypto_ctr_drbg_reseed_os_internal_def option.case if_not_P [OF g] ctx sum.case Let_def
    unfolding sp_seedlen_def [symmetric] rnd prod.case by (simp split: prod.split)
qed

lemma reseed_some:
  assumes "drbg_inv c" "drbg_INSTANTIATED c" "drbg_input (Some e) el" "drbg_input additional al"
  obtains err d where "crypto_ctr_drbg_reseed_internal heap (Some c) (Some e) el additional al = (err, Some d)"
proof -
  obtain p K V where rel: "drbg_rel c p K V" using assms(1,2) by (auto simp: drbg_inv_def)
  note r = reseed_correct(1) [OF rel assms(2-4), of heap]
  show ?thesis using that unfolding r by (metis (full_types))
qed

lemma reseed_os_inv:
  assumes os: "os_ok os" and inv: "drbg_inv c" and live: "drbg_INSTANTIATED c" and inp: "drbg_input additional al"
    and eq: "crypto_ctr_drbg_reseed_os_internal os s heap (Some c) additional al = (err, d, s')"
  obtains d' where "d = Some d'" "drbg_inv d'" "drbg_INSTANTIATED d'" "err = SUCCESS \<Longrightarrow> drbg_RESEED_COUNTER d' = 1"
    "ctr_drbg_context_parameters d' = ctr_drbg_context_parameters c"
proof -
  obtain p where ctx: "ctr_drbg_context_parameters c = Inr p"
    using inv live by (auto simp: drbg_inv_def drbg_rel_def)
  define el where "el = (if dp_USE_DF p then dp_SECURITY_BYTES p else sp_seedlen p)"
  obtain e b t where rnd: "crypto_random_bytes_internal os s False el = (e, b, t)" by (metis prod_cases3)
  note call = reseed_os_call [OF ctx live inp rnd [unfolded el_def], of heap, folded el_def, unfolded eq]
  show ?thesis
  proof (cases "e = SUCCESS")
    case False
    then show ?thesis using inv live call by (intro that [of c]) auto
  next
    case True
    have b: "drbg_input (Some b) el" using random_bytes_input [OF os] rnd True by blast
    obtain err' d' where r: "crypto_ctr_drbg_reseed_internal heap (Some c) (Some b) el additional al = (err', Some d')"
      by (rule reseed_some [OF inv live b inp])
    show ?thesis
      using call True live reseed_inv [OF inv b inp r] unfolding r by (intro that [of d']) auto
  qed
qed

text \<open>A request that succeeds or fails without prediction resistance.\<close>

lemma generate_plain_inv:
  assumes inv: "drbg_inv c" and live: "drbg_INSTANTIATED c" and inp: "drbg_input additional al"
    and eq: "crypto_ctr_drbg_generate_internal os s heap (Some c) output_null L additional al False = (err, Some d, output, s')"
  shows "drbg_inv d"
proof -
  obtain p K V where rel: "drbg_rel c p K V" and lo: "1 \<le> unat (drbg_RESEED_COUNTER c)"
    using inv live by (auto simp: drbg_inv_def)
  define R where "R = sp_generate p L (drbg_bytes additional) (K, V)"
  define st where "st = additional_status p heap al"
  define c' where "c' = drbg_with c (snd R)"
  note g = eq [unfolded generate_correct [OF rel live inp], folded R_def, folded st_def c'_def]
  have rel': "st = SUCCESS \<Longrightarrow> drbg_rel c' p (fst (snd R)) (snd (snd R))"
    using generate_blocks_correct(2) [OF rel inp, of heap L] by (simp add: R_def st_def c'_def)
  have d: "d = c \<or> (\<not> dp_RESEED_INTERVAL p < drbg_RESEED_COUNTER c \<and> st = SUCCESS \<and>
      d = c'\<lparr>drbg_RESEED_COUNTER := drbg_RESEED_COUNTER c + 1\<rparr>)"
    using g by (simp split: if_split_asm)
  show ?thesis
  proof (cases "d = c")
    case True
    then show ?thesis using inv by simp
  next
    case False
    then have D: "\<not> dp_RESEED_INTERVAL p < drbg_RESEED_COUNTER c" "st = SUCCESS"
      "d = c'\<lparr>drbg_RESEED_COUNTER := drbg_RESEED_COUNTER c + 1\<rparr>" using d by auto
    have "unat (dp_RESEED_INTERVAL p) \<le> 2 ^ 48"
      using drbg_rel_params [OF rel] by (cases rule: drbg_params_cases) simp_all
    then have "unat (drbg_RESEED_COUNTER c + 1) = unat (drbg_RESEED_COUNTER c) + 1"
      "unat (drbg_RESEED_COUNTER c) \<le> unat (dp_RESEED_INTERVAL p)"
      using D(1) unat_add_lem [of "drbg_RESEED_COUNTER c" 1] by (simp_all add: word_less_nat_alt)
    moreover have "drbg_rel d p (fst (snd R)) (snd (snd R))" "drbg_RESEED_COUNTER d = drbg_RESEED_COUNTER c + 1"
      using rel' [OF D(2)] by (simp_all add: D(3))
    ultimately show ?thesis unfolding drbg_inv_def using lo by (intro impI exI [of _ p] exI) auto
  qed
qed

text \<open>With prediction resistance a request is a reseeding followed by a plain request without input.\<close>

lemma generate_resist:
  assumes ctx: "ctr_drbg_context_parameters c = Inr p" and live: "drbg_INSTANTIATED c" and inp: "drbg_input additional al"
    and r: "crypto_ctr_drbg_reseed_os_internal os s heap (Some c) additional al = (e, Some c', t)"
    and c': "drbg_INSTANTIATED c'" "ctr_drbg_context_parameters c' = ctr_drbg_context_parameters c"
  shows "crypto_ctr_drbg_generate_internal os s heap (Some c) output_null L additional al True =
    (if output_null \<and> L \<noteq> 0 then (INVALID_ARGUMENT, Some c, [], s)
     else if dp_MAX_REQUEST_BYTES p < L then (MESSAGE_TOO_LARGE, Some c, [], s)
     else if e \<noteq> SUCCESS then (e, Some c', [], t)
     else crypto_ctr_drbg_generate_internal os t heap (Some c') output_null L None 0 False)"
proof -
  have g: "(\<not> drbg_INSTANTIATED c \<or> (output_null \<and> L \<noteq> 0) \<or> (additional = None \<and> al \<noteq> 0)) = (output_null \<and> L \<noteq> 0)"
    using inp live by (auto simp: drbg_input_def split: option.splits)
  show ?thesis
    unfolding crypto_ctr_drbg_generate_internal_def option.case g ctx sum.case c'(2) by (simp add: Let_def r c'(1))
qed

lemma generate_inv:
  assumes os: "os_ok os" and inv: "drbg_inv c" and inp: "drbg_input additional al"
    and eq: "crypto_ctr_drbg_generate_internal os s heap (Some c) output_null L additional al resist = (err, Some d, output, s')"
  shows "drbg_inv d"
proof (cases "drbg_INSTANTIATED c")
  case False
  then show ?thesis using eq inv by (simp add: crypto_ctr_drbg_generate_internal_def)
next
  case live: True
  show ?thesis
  proof (cases resist)
    case False
    then show ?thesis using generate_plain_inv [OF inv live inp] eq by simp
  next
    case True
    obtain p where ctx: "ctr_drbg_context_parameters c = Inr p"
      using inv live by (auto simp: drbg_inv_def drbg_rel_def)
    obtain e c1 t where r: "crypto_ctr_drbg_reseed_os_internal os s heap (Some c) additional al = (e, c1, t)" by (metis prod_cases3)
    obtain c' where c': "c1 = Some c'" "drbg_inv c'" "drbg_INSTANTIATED c'"
      "ctr_drbg_context_parameters c' = ctr_drbg_context_parameters c"
      by (rule reseed_os_inv [OF os inv live inp r])
    have none: "drbg_input None 0" by (simp add: drbg_input_def)
    have plain: "crypto_ctr_drbg_generate_internal os t heap (Some c') output_null L None 0 False = (err, Some d, output, s') \<Longrightarrow> drbg_inv d"
      by (rule generate_plain_inv [OF c'(2,3) none])
    have eq': "crypto_ctr_drbg_generate_internal os s heap (Some c) output_null L additional al True = (err, Some d, output, s')"
      using eq True by simp
    show ?thesis
      using eq' [unfolded generate_resist [OF ctx live inp r [unfolded c'(1)] c'(3,4)]] inv c'(2) plain
      by (simp split: if_split_asm)
  qed
qed

lemma instantiate_os_inv:
  assumes os: "os_ok os" and inv: "drbg_inv c" and inp: "drbg_input pers pl"
    and eq: "crypto_ctr_drbg_instantiate_os_internal os s heap (Some c) alg pers pl = (err, Some d, s')"
  shows "drbg_inv d"
proof (cases "ctr_drbg_parameters alg")
  case (Inl x)
  then show ?thesis using eq inv by (simp add: crypto_ctr_drbg_instantiate_os_internal_def split: if_split_asm)
next
  case (Inr p)
  define el where "el = (if dp_USE_DF p then dp_SECURITY_BYTES p else dp_KEY_LENGTH p + dp_BLOCK_LENGTH p)"
  define nl where "nl = (if dp_USE_DF p then (dp_SECURITY_BYTES p + 1) div 2 else 0)"
  have g: "\<not> (Some c = None \<or> (pers = None \<and> pl \<noteq> 0))" using inp by (auto simp: drbg_input_def split: option.splits)
  obtain e b t where rnd: "crypto_random_bytes_internal os s False el = (e, b, t)" by (metis prod_cases3)
  obtain e2 b2 t2 where rnd2: "(if nl \<noteq> 0 then crypto_random_bytes_internal os t False nl else (SUCCESS, [], t)) = (e2, b2, t2)"
    by (metis prod_cases3)
  define nonce where "nonce = (if nl \<noteq> 0 then Some b2 else None)"
  have call: "crypto_ctr_drbg_instantiate_os_internal os s heap (Some c) alg pers pl =
      (if e \<noteq> SUCCESS then (e, Some c, t)
       else if e2 \<noteq> SUCCESS then (e2, Some c, t2)
       else (fst (crypto_ctr_drbg_instantiate_internal heap (Some c) alg (Some b) el nonce nl pers pl),
             snd (crypto_ctr_drbg_instantiate_internal heap (Some c) alg (Some b) el nonce nl pers pl), t2))"
    unfolding crypto_ctr_drbg_instantiate_os_internal_def if_not_P [OF g] Inr sum.case Let_def
    unfolding el_def [symmetric] nl_def [symmetric] rnd prod.case rnd2
    by (simp add: nonce_def split: prod.split)
  show ?thesis
  proof (cases "e = SUCCESS \<and> e2 = SUCCESS")
    case False
    then show ?thesis using eq inv unfolding call by (auto split: if_split_asm)
  next
    case True
    have "drbg_input (Some b) el" using random_bytes_input [OF os] rnd True by blast
    moreover have "drbg_input nonce nl"
      using random_bytes_input [OF os] rnd2 True by (cases "nl = 0") (auto simp: nonce_def drbg_input_def)
    moreover have "crypto_ctr_drbg_instantiate_internal heap (Some c) alg (Some b) el nonce nl pers pl = (err, Some d)"
      using eq True unfolding call by (simp add: prod_eq_iff)
    ultimately show ?thesis using instantiate_inv [OF inv _ _ inp] by blast
  qed
qed

lemma drbg_exec_inv:
  assumes "os_ok os" "drbg_inv c" "drbg_call_ok call" "drbg_exec os heap call c s = (err, Some c', s')"
  shows "drbg_inv c'"
proof (cases call)
  case (Instantiate alg e nonce nl pers pl)
  then show ?thesis
    using assms instantiate_inv [of c e "length e" nonce nl pers pl heap alg err c']
    by (simp add: LIBERAC_CTR_DRBG_INSTANTIATE_def drbg_input_def split: prod.splits)
next
  case (Instantiate_OS alg pers pl)
  then show ?thesis
    using assms instantiate_os_inv [of os c pers pl s heap alg err c' s'] by (simp add: LIBERAC_CTR_DRBG_INSTANTIATE_OS_def)
next
  case (Reseed e additional al)
  then show ?thesis
    using assms reseed_inv(1) [of c e "length e" additional al heap err c']
    by (simp add: LIBERAC_CTR_DRBG_RESEED_def drbg_input_def split: prod.splits)
next
  case (Reseed_OS additional al)
  show ?thesis
  proof (cases "drbg_INSTANTIATED c")
    case True
    then show ?thesis
      using assms Reseed_OS reseed_os_inv [of os c additional al s heap err "Some c'" s']
      by (simp add: LIBERAC_CTR_DRBG_RESEED_OS_def) blast
  next
    case False
    then show ?thesis
      using assms Reseed_OS by (simp add: LIBERAC_CTR_DRBG_RESEED_OS_def crypto_ctr_drbg_reseed_os_internal_def)
  qed
next
  case (Generate output_null L additional al resist)
  then show ?thesis
    using assms generate_inv [of os c additional al s heap output_null L resist err c']
    by (simp add: LIBERAC_CTR_DRBG_GENERATE_def split: prod.splits)
next
  case Clear
  then show ?thesis using assms drbg_inv_cleared by (simp add: LIBERAC_CTR_DRBG_CLEAR_def)
qed

section \<open>Reachable contexts\<close>

text \<open>
  C32. Whatever calls are made on a cleared context, in any order, with or without failing
  allocations and a failing random source: an instantiated context stands for a key and
  counter block of the right lengths for its algorithm, zero-padded in its arrays, and its
  request counter lies between one and one above the reseed interval.
\<close>

theorem drbg_reachable_inv:
  assumes "os_ok os" and "drbg_reachable os c s" and "drbg_INSTANTIATED c"
  shows "\<exists>p K V. drbg_rel c p K V \<and> 1 \<le> unat (drbg_RESEED_COUNTER c) \<and>
    unat (drbg_RESEED_COUNTER c) \<le> unat (dp_RESEED_INTERVAL p) + 1"
proof -
  have "drbg_inv c"
    using assms(2) drbg_exec_inv [OF assms(1)] by (induction rule: drbg_reachable.induct) (blast intro: drbg_inv_cleared)+
  then show ?thesis using assms(3) by (simp add: drbg_inv_def)
qed

definition no_random where
  "no_random = (\<lambda>(s :: unit) (n :: nat). (None :: byte list option, s))"

lemma os_ok_no_random: "os_ok no_random"
  by (simp add: os_ok_def no_random_def)

lemma drbg_instantiated_reachable:
  obtains c where "drbg_reachable no_random c ()" "drbg_INSTANTIATED c" "drbg_ALG c = LIBERAC_ALG_CTR_DRBG_AES_128_NO_DF"
proof -
  obtain p where p: "ctr_drbg_parameters LIBERAC_ALG_CTR_DRBG_AES_128_NO_DF = Inr p" "sp_seedlen p = 32" "\<not> dp_USE_DF p"
    by (simp add: ctr_drbg_parameters_def sp_seedlen_def)
  have inp: "drbg_input (Some (zeroes 32)) 32" "drbg_input None 0" by (simp_all add: drbg_input_def)
  note i = instantiate_correct(1) [OF p(1) inp inp(2), of "(True, True)" crypto_ctr_drbg_clear_internal]
  have "\<exists>c. LIBERAC_CTR_DRBG_INSTANTIATE (True, True) (Some crypto_ctr_drbg_clear_internal) (Some (zeroes 32)) 32 None 0 None 0
      LIBERAC_ALG_CTR_DRBG_AES_128_NO_DF = (SUCCESS, Some c) \<and> drbg_INSTANTIATED c \<and> drbg_ALG c = LIBERAC_ALG_CTR_DRBG_AES_128_NO_DF"
    unfolding LIBERAC_CTR_DRBG_INSTANTIATE_def i
    using p by (simp add: instantiate_refused_def seed_status_def drbg_with_def split: prod.split)
  then obtain c where c: "LIBERAC_CTR_DRBG_INSTANTIATE (True, True) (Some crypto_ctr_drbg_clear_internal) (Some (zeroes 32)) 32 None 0 None 0
      LIBERAC_ALG_CTR_DRBG_AES_128_NO_DF = (SUCCESS, Some c)" "drbg_INSTANTIATED c" "drbg_ALG c = LIBERAC_ALG_CTR_DRBG_AES_128_NO_DF"
    by blast
  have "drbg_reachable no_random c ()"
    using drbg_reachable.call [OF drbg_reachable.start, of "Instantiate LIBERAC_ALG_CTR_DRBG_AES_128_NO_DF (zeroes 32) None 0 None 0"
      no_random "(True, True)" "()" SUCCESS c "()"] c(1) by (simp add: drbg_input_def)
  then show ?thesis using that c by blast
qed

theorem drbg_reachable_inv_witness:
  "\<exists>c p K V. drbg_reachable no_random c () \<and> drbg_INSTANTIATED c \<and> drbg_rel c p K V"
  using drbg_reachable_inv [OF os_ok_no_random] drbg_instantiated_reachable by (metis (no_types))

section \<open>Requests between reseeds\<close>

fun drbg_run ::
    "('s \<Rightarrow> nat \<Rightarrow> byte list option \<times> 's) \<Rightarrow> ((bool \<times> bool) \<times> drbg_call) list \<Rightarrow> LiberaCCtrDrbgContext \<Rightarrow> 's \<Rightarrow>
     (LiberaCCtrDrbgContext \<times> 's) option" where
  "drbg_run os [] c s = Some (c, s)"
| "drbg_run os ((heap, call) # calls) c s =
     (case drbg_exec os heap call c s of
        (err, Some c', s') \<Rightarrow> if err = SUCCESS then drbg_run os calls c' s' else None
      | (err, None, s') \<Rightarrow> None)"

fun is_request :: "drbg_call \<Rightarrow> bool" where
  "is_request (Generate output_null L additional al resist) = (\<not> resist)"
| "is_request _ = False"

lemma request_step:
  assumes "drbg_rel c p K V" "drbg_INSTANTIATED c" "drbg_call_ok call" "is_request call"
    and eq: "drbg_exec os heap call c s = (SUCCESS, Some c', s')"
  shows "\<not> dp_RESEED_INTERVAL p < drbg_RESEED_COUNTER c" "drbg_RESEED_COUNTER c' = drbg_RESEED_COUNTER c + 1"
    "drbg_INSTANTIATED c'" "\<exists>K V. drbg_rel c' p K V"
proof -
  obtain output_null L additional al where call: "call = Generate output_null L additional al False"
    using assms(4) by (cases call) auto
  have inp: "drbg_input additional al" using assms(3) call by simp
  note g = generate_correct [OF assms(1,2) inp, of os s heap output_null L]
  have b: "\<exists>K' V'. drbg_rel (drbg_with c (snd (sp_generate p L (drbg_bytes additional) (K, V)))\<lparr>drbg_RESEED_COUNTER := x\<rparr>) p K' V'"
    if "additional_status p heap al = SUCCESS" for x
    using generate_blocks_correct(2) [OF assms(1) inp, of heap L] that by (intro exI) simp
  have c': "\<not> dp_RESEED_INTERVAL p < drbg_RESEED_COUNTER c" "additional_status p heap al = SUCCESS"
    "c' = drbg_with c (snd (sp_generate p L (drbg_bytes additional) (K, V)))\<lparr>drbg_RESEED_COUNTER := drbg_RESEED_COUNTER c + 1\<rparr>"
    using eq by (simp_all add: call LIBERAC_CTR_DRBG_GENERATE_def g split: if_split_asm)
  have "drbg_RESEED_COUNTER c' = drbg_RESEED_COUNTER c + 1" "drbg_INSTANTIATED c'" using assms(2) by (simp_all add: c'(3))
  moreover have "\<exists>K V. drbg_rel c' p K V" using b [OF c'(2)] unfolding c'(3) .
  ultimately show "\<not> dp_RESEED_INTERVAL p < drbg_RESEED_COUNTER c" "drbg_RESEED_COUNTER c' = drbg_RESEED_COUNTER c + 1"
    "drbg_INSTANTIATED c'" "\<exists>K V. drbg_rel c' p K V" using c'(1) by blast+
qed

lemma drbg_run_requests:
  assumes "drbg_rel c p K V" "drbg_INSTANTIATED c" "unat (drbg_RESEED_COUNTER c) \<le> unat (dp_RESEED_INTERVAL p) + 1"
    and "\<forall>(heap, call) \<in> set calls. drbg_call_ok call \<and> is_request call" and "drbg_run os calls c s = Some (d, t)"
  shows "unat (drbg_RESEED_COUNTER d) = unat (drbg_RESEED_COUNTER c) + length calls \<and>
    unat (drbg_RESEED_COUNTER d) \<le> unat (dp_RESEED_INTERVAL p) + 1 \<and> drbg_INSTANTIATED d \<and> (\<exists>K V. drbg_rel d p K V)"
  using assms
proof (induction calls arbitrary: c K V s)
  case Nil
  then show ?case by auto
next
  case (Cons x calls)
  obtain heap call where x: "x = (heap, call)" by (metis surj_pair)
  obtain err c1 s1 where e: "drbg_exec os heap call c s = (err, c1, s1)" by (metis prod_cases3)
  obtain c' where c1: "c1 = Some c'" "err = SUCCESS" "drbg_run os calls c' s1 = Some (d, t)"
    using Cons.prems(5) by (auto simp: x e split: option.splits if_splits)
  have ok: "drbg_call_ok call" "is_request call" "\<forall>(heap, call) \<in> set calls. drbg_call_ok call \<and> is_request call"
    using Cons.prems(4) by (auto simp: x)
  note st = request_step [OF Cons.prems(1,2) ok(1,2) e [unfolded c1(1,2)]]
  obtain K' V' where rel': "drbg_rel c' p K' V'" using st(4) by blast
  have "unat (dp_RESEED_INTERVAL p) \<le> 2 ^ 48"
    using drbg_rel_params [OF Cons.prems(1)] by (cases rule: drbg_params_cases) simp_all
  then have step: "unat (drbg_RESEED_COUNTER c') = unat (drbg_RESEED_COUNTER c) + 1"
    "unat (drbg_RESEED_COUNTER c') \<le> unat (dp_RESEED_INTERVAL p) + 1"
    using st(1,2) unat_add_lem [of "drbg_RESEED_COUNTER c" 1] by (simp_all add: word_less_nat_alt)
  show ?case using Cons.IH [OF rel' st(3) step(2) ok(3) c1(3)] step by simp
qed

text \<open>
  C35. Requests between two reseeds are limited: after a seeding, a run of successful requests
  without prediction resistance has raised the request counter by their number, and there are
  at most as many as the reseed interval; then a further request does not succeed.
\<close>

theorem drbg_request_limit:
  assumes "drbg_rel c p K V" and "drbg_INSTANTIATED c" and "drbg_RESEED_COUNTER c = 1"
    and "\<forall>(heap, call) \<in> set calls. drbg_call_ok call \<and> is_request call"
    and "drbg_run os calls c s = Some (d, t)"
  shows "unat (drbg_RESEED_COUNTER d) = 1 + length calls \<and> length calls \<le> unat (dp_RESEED_INTERVAL p) \<and>
    (length calls = unat (dp_RESEED_INTERVAL p) \<longrightarrow>
       (\<forall>heap call. drbg_call_ok call \<and> is_request call \<longrightarrow> fst (drbg_exec os heap call d t) \<noteq> SUCCESS))"
proof -
  have run: "unat (drbg_RESEED_COUNTER d) = 1 + length calls" "length calls \<le> unat (dp_RESEED_INTERVAL p)"
    and "drbg_INSTANTIATED d" "\<exists>K V. drbg_rel d p K V"
    using drbg_run_requests [OF assms(1,2) _ assms(4,5)] assms(3) by simp_all
  then obtain K' V' where d: "drbg_INSTANTIATED d" "drbg_rel d p K' V'" by blast
  have "fst (drbg_exec os heap call d t) \<noteq> SUCCESS"
    if full: "length calls = unat (dp_RESEED_INTERVAL p)" and ok: "drbg_call_ok call" "is_request call" for heap call
  proof -
    obtain output_null L additional al where call: "call = Generate output_null L additional al False"
      using ok(2) by (cases call) auto
    have inp: "drbg_input additional al" using ok(1) call by simp
    have "dp_RESEED_INTERVAL p < drbg_RESEED_COUNTER d" using run(1) full by (simp add: word_less_nat_alt)
    then show ?thesis
      by (simp add: call LIBERAC_CTR_DRBG_GENERATE_def generate_correct [OF d(2,1) inp])
  qed
  then show ?thesis using run by blast
qed

definition seeded_context where
  "seeded_context = crypto_ctr_drbg_clear_internal\<lparr>drbg_ALG := LIBERAC_ALG_CTR_DRBG_AES_128_NO_DF,
  drbg_KEY_LENGTH := 16, drbg_RESEED_COUNTER := 1, drbg_INSTANTIATED := True\<rparr>"

definition seeded_parameters where
  "seeded_parameters = \<lparr>dp_KEY_LENGTH = 16, dp_BLOCK_LENGTH = 16, dp_SECURITY_BYTES = 16,
  dp_MAX_REQUEST_BYTES = 65536, dp_RESEED_INTERVAL = push_bit 48 1, dp_USE_DF = False, dp_FAMILY = CTR_DRBG_CIPHER_AES\<rparr>"

lemma seeded_context:
  "drbg_rel seeded_context seeded_parameters (zeroes 16) (zeroes 16)" "drbg_INSTANTIATED seeded_context"
  "drbg_RESEED_COUNTER seeded_context = 1"
proof -
  have "zeroes 32 = copy_at (zeroes 32) 0 (zeroes 16)" "zeroes 16 = copy_at (zeroes 16) 0 (zeroes 16)"
    by (simp_all add: copy_at_def replicate_add [symmetric])
  then show "drbg_rel seeded_context seeded_parameters (zeroes 16) (zeroes 16)"
    by (simp add: drbg_rel_def seeded_context_def seeded_parameters_def ctr_drbg_context_parameters_def ctr_drbg_parameters_def
        crypto_ctr_drbg_clear_internal_def)
qed (simp_all add: seeded_context_def)



theorem drbg_request_limit_witness:
  "\<exists>d. drbg_run no_random [((True, True), Generate False 20 None 0 False)] seeded_context () = Some (d, ()) \<and>
     unat (drbg_RESEED_COUNTER d) = 2"
proof -
  have "\<exists>d. drbg_run no_random [((True, True), Generate False 20 None 0 False)] seeded_context () = Some (d, ())"
    using generate_correct [OF seeded_context(1,2), of None 0 no_random "()" "(True, True)" False 20]
    by (simp add: drbg_input_def additional_status_def seeded_parameters_def seeded_context(3) word_less_nat_alt
        LIBERAC_CTR_DRBG_GENERATE_def split: prod.split)
  then show ?thesis
    using drbg_request_limit [OF seeded_context, of "[((True, True), Generate False 20 None 0 False)]" no_random "()"]
    by (auto simp: drbg_input_def)
qed

end
