(* ===== verification/Bignum_Words.thy ===== *)
theory Bignum_Words
  imports Util_Core
begin

text \<open>
  Arrays of 32-bit limbs as numbers: the value \<open>wv xs n\<close> of the first \<open>n\<close> limbs, how single
  stores change it, the carries of the 64-bit additions and products the limb loops are made
  of, and the loop rules. Every multi-precision routine of the library rests on these.
\<close>

section \<open>Counting loops\<close>

text \<open>The loop \<^verbatim>\<open>for (i = a; i < n; ++i)\<close> over a state.\<close>

lemma fold_upt_invariant:
  assumes "P a s" and "\<And>i s. a \<le> i \<Longrightarrow> i < n \<Longrightarrow> P i s \<Longrightarrow> P (Suc i) (f i s)" and "a \<le> n"
  shows "P n (fold f [a..<n] s)"
proof -
  have "k \<le> n \<Longrightarrow> P k (fold f [a..<k] s)" if "a \<le> k" for k
    using that
  proof (induction k rule: dec_induct)
    case base
    then show ?case using assms(1) by simp
  next
    case (step k)
    then show ?case using assms(2) [of k "fold f [a..<k] s"] by simp
  qed
  then show ?thesis using assms(3) by simp
qed

text \<open>The loop \<^verbatim>\<open>for (i = n; i > 0; --i)\<close>, with \<open>i - 1\<close> as the index.\<close>

lemma fold_down_invariant:
  assumes "P n s" and "\<And>i s. i < n \<Longrightarrow> P (Suc i) s \<Longrightarrow> P i (f i s)"
  shows "P 0 (fold f (rev [0..<n]) s)"
proof -
  have "k \<le> n \<Longrightarrow> P k s \<Longrightarrow> P 0 (fold f (rev [0..<k]) s)" for k s
  proof (induction k arbitrary: s)
    case (Suc k)
    then show ?case using assms(2) [of k s] by simp
  qed simp
  then show ?thesis using assms(1) by simp
qed

section \<open>Values\<close>

definition wv :: "u32 list \<Rightarrow> nat \<Rightarrow> nat" where
  "wv xs n = (\<Sum>j<n. unat (xs ! j) * 4294967296 ^ j)"

lemma wv_0 [simp]: "wv xs 0 = 0"
  by (simp add: wv_def)

lemma wv_Suc: "wv xs (Suc n) = wv xs n + unat (xs ! n) * 4294967296 ^ n"
  by (simp add: wv_def)

lemma wv_cong: "(\<And>j. j < n \<Longrightarrow> xs ! j = ys ! j) \<Longrightarrow> wv xs n = wv ys n"
  by (simp add: wv_def)

lemma wv_bound: "wv xs n < 4294967296 ^ n"
proof (induction n)
  case (Suc n)
  have "unat (xs ! n) * 4294967296 ^ n \<le> 4294967295 * 4294967296 ^ n"
    using unat_u32_less [of "xs ! n"] by (intro mult_le_mono1) simp
  then show ?case using Suc unfolding wv_Suc power_Suc by linarith
qed simp

lemma wv_update_ge [simp]: "n \<le> i \<Longrightarrow> wv (xs[i := x]) n = wv xs n"
  by (intro wv_cong) simp

lemma wv_update:
  "i < n \<Longrightarrow> i < length xs \<Longrightarrow>
    wv (xs[i := x]) n + unat (xs ! i) * 4294967296 ^ i = wv xs n + unat x * 4294967296 ^ i"
proof (induction n)
  case (Suc n)
  then show ?case by (cases "i = n") (simp_all add: wv_Suc)
qed simp

lemma wv_add: "wv xs (m + n) = wv xs m + 4294967296 ^ m * wv (drop m xs) n" if "m + n \<le> length xs"
  using that by (induction n) (simp_all add: wv_Suc power_add algebra_simps)

lemma wv_append: "wv (xs @ ys) (length xs + n) = wv xs (length xs) + 4294967296 ^ length xs * wv ys n"
proof (induction n)
  case 0
  have "wv (xs @ ys) (length xs) = wv xs (length xs)" by (intro wv_cong) (simp add: nth_append)
  then show ?case by simp
qed (simp_all add: wv_Suc power_add algebra_simps nth_append)

lemma wv_take [simp]: "n \<le> m \<Longrightarrow> wv (take m xs) n = wv xs n"
  by (intro wv_cong) simp

lemma wv_append_low [simp]: "n \<le> length xs \<Longrightarrow> wv (xs @ ys) n = wv xs n"
  by (intro wv_cong) (simp add: nth_append)

lemma wv_replicate_0 [simp]: "n \<le> m \<Longrightarrow> wv (replicate m 0) n = 0"
  by (simp add: wv_def)

lemma wv_zero_tail:
  assumes "m \<le> n" and "\<And>j. m \<le> j \<Longrightarrow> j < n \<Longrightarrow> xs ! j = 0"
  shows "wv xs n = wv xs m"
  using assms
proof (induction n)
  case (Suc n)
  then show ?case by (cases "m = Suc n") (simp_all add: wv_Suc)
qed simp

lemma wv_mono: "m \<le> n \<Longrightarrow> wv xs m \<le> wv xs n"
  unfolding wv_def by (intro sum_mono2) auto

lemma wv_top:
  assumes "0 < n" and "xs ! (n - 1) \<noteq> 0"
  shows "4294967296 ^ (n - 1) \<le> wv xs n"
proof -
  have "wv xs n = wv xs (n - 1) + unat (xs ! (n - 1)) * 4294967296 ^ (n - 1)"
    using assms(1) wv_Suc [of xs "n - 1"] by simp
  moreover have "1 \<le> unat (xs ! (n - 1))" using assms(2) unat_gt_0 [of "xs ! (n - 1)"] by simp
  ultimately show ?thesis by (metis mult_le_mono1 nat_mult_1 trans_le_add2)
qed

lemma wv_mod: "k \<le> n \<Longrightarrow> wv xs n mod 4294967296 ^ k = wv xs k"
proof (induction n)
  case (Suc n)
  show ?case
  proof (cases "k = Suc n")
    case True
    then show ?thesis using wv_bound [of xs "Suc n"] by simp
  next
    case False
    then have "(4294967296 :: nat) ^ k dvd unat (xs ! n) * 4294967296 ^ n"
      using Suc.prems by (simp add: le_imp_power_dvd)
    then show ?thesis using Suc False by (auto simp: wv_Suc mod_add_right_eq [symmetric] elim!: dvdE)
  qed
qed simp

lemma wv_inj: "wv xs n = wv ys n \<Longrightarrow> i < n \<Longrightarrow> xs ! i = ys ! i"
proof (induction n)
  case (Suc n)
  have low: "wv xs n = wv ys n"
    using wv_mod [of n "Suc n" xs] wv_mod [of n "Suc n" ys] Suc.prems(1) by simp
  then have "xs ! n = ys ! n" using Suc.prems(1) by (simp add: wv_Suc word_unat_eq_iff)
  then show ?case using Suc low by (cases "i = n") simp_all
qed simp

section \<open>Sixty-four-bit steps\<close>

lemma unat_ucast_u64 [simp]: "unat (ucast (w :: u32) :: u64) = unat w"
proof -
  have "unat w < 18446744073709551616" using unat_u32_less [of w] by linarith
  then show ?thesis by (simp add: unat_ucast)
qed

lemma unat_ucast_low: "unat (ucast (z :: u64) :: u32) = unat z mod 4294967296"
  by (simp add: unat_ucast)

lemma unat_high: "unat (drop_bit 32 (z :: u64)) = unat z div 4294967296"
  by (simp add: unat_drop_bit)

lemma unat_high_less: "unat (drop_bit 32 (z :: u64)) < 4294967296"
  unfolding unat_high using unat_u64_less [of z] by (simp add: less_mult_imp_div_less)

lemma split_u64: "unat (ucast (z :: u64) :: u32) + unat (drop_bit 32 z) * 4294967296 = unat z"
  by (simp add: unat_ucast_low unat_high)

lemma mul_u32_bound: "unat (a :: u32) * unat (b :: u32) \<le> 4294967295 * 4294967295"
  using unat_u32_less [of a] unat_u32_less [of b] by (intro mult_mono) simp_all

lemma unat_add_u64: "unat (a :: u64) + unat b < 18446744073709551616 \<Longrightarrow> unat (a + b) = unat a + unat b"
  by (simp add: unat_add_small)

lemma unat_mul_u64: "unat (a :: u64) * unat b < 18446744073709551616 \<Longrightarrow> unat (a * b) = unat a * unat b"
  by (simp add: unat_mult_small)

lemma unat_mul_u32: "unat (ucast (a :: u32) * ucast (b :: u32) :: u64) = unat a * unat b"
  using mul_u32_bound [of a b] by (subst unat_mul_u64) simp_all

lemma unat_mul_add:
  assumes "unat (carry :: u64) < 4294967296"
  shows "unat (ucast (a :: u32) * ucast (b :: u32) + ucast (c :: u32) + carry :: u64) =
    unat a * unat b + unat c + unat carry"
proof -
  note b = mul_u32_bound [of a b] unat_u32_less [of c] assms
  have "unat (ucast a * ucast b + ucast c :: u64) = unat a * unat b + unat c"
    using b by (subst unat_add_u64) (simp_all add: unat_mul_u32)
  then show ?thesis using b by (subst unat_add_u64) simp_all
qed

lemma unat_add_carry:
  assumes "unat (carry :: u64) < 4294967296"
  shows "unat (ucast (a :: u32) + ucast (b :: u32) + carry :: u64) = unat a + unat b + unat carry"
proof -
  note b = unat_u32_less [of a] unat_u32_less [of b] assms
  have "unat (ucast a + ucast b :: u64) = unat a + unat b"
    using b by (subst unat_add_u64) simp_all
  then show ?thesis using b by (subst unat_add_u64) simp_all
qed

text \<open>Subtraction of a limb and a borrow: the low half of the wrapped difference.\<close>

lemma unat_sub_borrow:
  fixes a :: u32 and s :: u64
  assumes "unat s \<le> 4294967296"
  shows "unat (ucast (ucast a - s) :: u32) + unat s =
    unat a + (if ucast a < s then 4294967296 else 0)"
proof (cases "ucast a < s")
  case True
  then have lt: "unat a < unat s" by (simp add: word_less_nat_alt)
  have "unat (ucast a - s) = 18446744073709551616 + unat a - unat s"
    using lt by (subst unat_sub_if') (auto simp: not_le)
  then have "unat (ucast (ucast a - s) :: u32) = (18446744073709551616 + unat a - unat s) mod 4294967296"
    by (simp add: unat_ucast_low)
  also have "18446744073709551616 + unat a - unat s = 4294967296 * 4294967295 + (4294967296 + unat a - unat s)"
    using assms lt by simp
  also have "\<dots> mod 4294967296 = 4294967296 + unat a - unat s"
    using lt assms unfolding mod_mult_self4 by simp
  finally show ?thesis using True assms by simp
next
  case False
  then have le: "unat s \<le> unat a" by (simp add: word_less_nat_alt)
  have "unat (ucast a - s) = unat a - unat s" using le by (subst unat_sub_if') auto
  then show ?thesis using False le unat_u32_less [of a] by (simp add: unat_ucast_low)
qed

end
