(* ===== verification/Bignum.thy ===== *)
theory Bignum
  imports Bignum_Words
begin

text \<open>
  The multi-precision integers of \<^verbatim>\<open>src/Util/Bignum/bignum.c\<close>: storage management, copies,
  byte conversions, comparison, addition, subtraction and the small-operand helpers. An
  object is its limb array, whose length is the capacity, and the number of limbs in use.
  A call takes the current value of its output object and returns the new one; where the
  code works with an output that is also an input, the flag \<open>same\<close> says that the two pointers
  are equal and the loop then reads the limbs it has already stored. The heap is the list of
  the outcomes of the next allocations (all later ones succeed). Functions that return -1
  return \<open>INVALID_ARGUMENT\<close>, which is that number.
\<close>

section \<open>Objects and storage\<close>

record LiberaCBignum =
  bn_LIMBS :: "u32 list"
  bn_LENGTH :: nat

abbreviation bn_CAPACITY :: "LiberaCBignum \<Rightarrow> nat" where
  "bn_CAPACITY a \<equiv> length (bn_LIMBS a)"

type_synonym heap = "bool list"

fun calloc_ok :: "heap \<Rightarrow> bool \<times> heap" where
  "calloc_ok [] = (True, [])"
| "calloc_ok (ok # heap) = (ok, heap)"

definition crypto_bignum_init :: LiberaCBignum where
  "crypto_bignum_init = \<lparr>bn_LIMBS = [], bn_LENGTH = 0\<rparr>"

definition crypto_bignum_free :: "LiberaCBignum \<Rightarrow> LiberaCBignum" where
  "crypto_bignum_free a = crypto_bignum_init"

definition bignum_reserve :: "heap \<Rightarrow> LiberaCBignum \<Rightarrow> nat \<Rightarrow> status \<times> LiberaCBignum \<times> heap" where
  "bignum_reserve heap a capacity =
     (if capacity \<le> bn_CAPACITY a then (SUCCESS, a, heap)
      else if (2 ^ 64 - 1) div 4 < capacity then (INVALID_ARGUMENT, a, heap)
      else let (ok, heap) = calloc_ok heap
        in if \<not> ok then (INVALID_ARGUMENT, a, heap)
           else (SUCCESS, a\<lparr>bn_LIMBS := copy_at (replicate capacity 0) 0 (bn_LIMBS a)\<rparr>, heap))"

fun bignum_words_length :: "u32 list \<Rightarrow> nat \<Rightarrow> nat" where
  "bignum_words_length words 0 = 0"
| "bignum_words_length words (Suc n) = (if words ! n = 0 then bignum_words_length words n else Suc n)"

definition bignum_normalize :: "LiberaCBignum \<Rightarrow> LiberaCBignum" where
  "bignum_normalize a = a\<lparr>bn_LENGTH := bignum_words_length (bn_LIMBS a) (bn_LENGTH a)\<rparr>"

definition bignum_clear_stale_tail :: "LiberaCBignum \<Rightarrow> nat \<Rightarrow> nat \<Rightarrow> LiberaCBignum" where
  "bignum_clear_stale_tail value old_length new_length =
     (if bn_LIMBS value \<noteq> [] \<and> new_length < old_length
      then value\<lparr>bn_LIMBS := copy_at (bn_LIMBS value) new_length (replicate (old_length - new_length) 0)\<rparr>
      else value)"

definition crypto_bignum_copy :: "heap \<Rightarrow> bool \<Rightarrow> LiberaCBignum \<Rightarrow> LiberaCBignum \<Rightarrow> status \<times> LiberaCBignum \<times> heap" where
  "crypto_bignum_copy heap same out a =
     (if same then (SUCCESS, out, heap)
      else let old_length = bn_LENGTH out;
               (err, out, heap) = bignum_reserve heap out (bn_LENGTH a)
           in if err \<noteq> SUCCESS then (INVALID_ARGUMENT, out, heap)
              else let out = out\<lparr>bn_LIMBS := copy_at (bn_LIMBS out) 0 (take (bn_LENGTH a) (bn_LIMBS a))\<rparr>;
                       out = bignum_clear_stale_tail out old_length (bn_LENGTH a)
                   in (SUCCESS, out\<lparr>bn_LENGTH := bn_LENGTH a\<rparr>, heap))"

definition crypto_bignum_set_u64 :: "heap \<Rightarrow> LiberaCBignum \<Rightarrow> u64 \<Rightarrow> status \<times> LiberaCBignum \<times> heap" where
  "crypto_bignum_set_u64 heap out value =
     (let old_length = bn_LENGTH out in
      if value = 0 then (SUCCESS, (bignum_clear_stale_tail out old_length 0)\<lparr>bn_LENGTH := 0\<rparr>, heap)
      else let new_length = (if drop_bit 32 value \<noteq> 0 then 2 else 1 :: nat);
               (err, out, heap) = bignum_reserve heap out new_length
           in if err \<noteq> SUCCESS then (INVALID_ARGUMENT, out, heap)
              else let limbs = (bn_LIMBS out)[0 := ucast value];
                       limbs = (if new_length = 2 then limbs[1 := ucast (drop_bit 32 value)] else limbs);
                       out = bignum_clear_stale_tail (out\<lparr>bn_LIMBS := limbs\<rparr>) old_length new_length
                   in (SUCCESS, out\<lparr>bn_LENGTH := new_length\<rparr>, heap))"

section \<open>Bytes\<close>

definition limbs_from_bytes :: "(nat \<Rightarrow> byte) \<Rightarrow> nat \<Rightarrow> u32 list \<Rightarrow> u32 list" where
  "limbs_from_bytes byte n limbs =
     fold (\<lambda>i limbs. limbs[i div 4 := limbs ! (i div 4) OR push_bit (8 * (i mod 4)) (ucast (byte i))]) [0..<n] limbs"

definition bignum_from_bytes ::
    "bool \<Rightarrow> heap \<Rightarrow> LiberaCBignum \<Rightarrow> byte list option \<Rightarrow> nat \<Rightarrow> status \<times> LiberaCBignum \<times> heap" where
  "bignum_from_bytes big_endian heap out bytes n =
     (if bytes = None \<and> n \<noteq> 0 then (INVALID_ARGUMENT, out, heap)
      else if (2 ^ 64 - 1) div 8 < n then (MESSAGE_TOO_LARGE, out, heap)
      else let limbs = (n + 3) div 4;
               (err, out, heap) = bignum_reserve heap out limbs
           in if err \<noteq> SUCCESS then (ALLOCATION_FAILED, out, heap)
              else let source = (\<lambda>i. the bytes ! (if big_endian then n - 1 - i else i));
                       words = limbs_from_bytes source n (replicate (bn_CAPACITY out) 0)
                   in (SUCCESS, bignum_normalize (out\<lparr>bn_LIMBS := words, bn_LENGTH := limbs\<rparr>), heap))"

definition crypto_bignum_from_bytes_le where
  "crypto_bignum_from_bytes_le = bignum_from_bytes False"

definition crypto_bignum_from_bytes_be where
  "crypto_bignum_from_bytes_be = bignum_from_bytes True"

function top_limb_bits :: "u32 \<Rightarrow> nat" where
  "top_limb_bits limb = (if limb = 0 then 0 else Suc (top_limb_bits (drop_bit 1 limb)))"
  by pat_completeness auto
termination
proof (relation "measure unat")
  fix limb :: u32
  assume "limb \<noteq> 0"
  then have "0 < unat limb" by (simp add: unat_gt_0)
  then show "(drop_bit 1 limb, limb) \<in> measure unat" by (simp add: unat_drop_bit)
qed simp

declare top_limb_bits.simps [simp del]

definition crypto_bignum_bit_length :: "LiberaCBignum \<Rightarrow> nat" where
  "crypto_bignum_bit_length value =
     (if bn_LENGTH value = 0 then 0
      else 32 * (bn_LENGTH value - 1) + top_limb_bits (bn_LIMBS value ! (bn_LENGTH value - 1)))"

definition crypto_bignum_byte_length :: "LiberaCBignum \<Rightarrow> nat" where
  "crypto_bignum_byte_length value = (crypto_bignum_bit_length value + 7) div 8"

text \<open>The result is the status and the bytes written to the output.\<close>

definition bignum_to_bytes :: "bool \<Rightarrow> LiberaCBignum \<Rightarrow> bool \<Rightarrow> nat \<Rightarrow> status \<times> byte list" where
  "bignum_to_bytes big_endian a out_null out_length =
     (if out_null \<and> out_length \<noteq> 0 then (INVALID_ARGUMENT, [])
      else let need = crypto_bignum_byte_length a in
        if out_length < need then (BUFFER_TOO_SMALL, [])
        else (SUCCESS, fold (\<lambda>i out. out[(if big_endian then out_length - 1 - i else i) :=
                    ucast (drop_bit (8 * (i mod 4)) (bn_LIMBS a ! (i div 4)))]) [0..<need] (zeroes out_length)))"

definition crypto_bignum_to_bytes_le where
  "crypto_bignum_to_bytes_le = bignum_to_bytes False"

definition crypto_bignum_to_bytes_be where
  "crypto_bignum_to_bytes_be = bignum_to_bytes True"

section \<open>Comparison, addition, subtraction\<close>

fun compare_limbs :: "u32 list \<Rightarrow> u32 list \<Rightarrow> nat \<Rightarrow> int" where
  "compare_limbs a b 0 = 0"
| "compare_limbs a b (Suc i) =
     (if a ! i < b ! i then - 1 else if b ! i < a ! i then 1 else compare_limbs a b i)"

definition crypto_bignum_compare :: "LiberaCBignum \<Rightarrow> LiberaCBignum \<Rightarrow> int" where
  "crypto_bignum_compare a b =
     (if bn_LENGTH a < bn_LENGTH b then - 1
      else if bn_LENGTH b < bn_LENGTH a then 1
      else compare_limbs (bn_LIMBS a) (bn_LIMBS b) (bn_LENGTH a))"

definition crypto_bignum_is_zero :: "LiberaCBignum \<Rightarrow> bool" where
  "crypto_bignum_is_zero value \<longleftrightarrow> bn_LENGTH value = 0"

definition bignum_add_loop ::
    "(u32 list \<Rightarrow> u32 list) \<Rightarrow> nat \<Rightarrow> (u32 list \<Rightarrow> u32 list) \<Rightarrow> nat \<Rightarrow> nat \<Rightarrow> u32 list \<Rightarrow> u32 list \<times> u64" where
  "bignum_add_loop a a_length b b_length n limbs =
     fold (\<lambda>i (limbs, carry).
       let av = (if i < a_length then ucast (a limbs ! i) else 0);
           bv = (if i < b_length then ucast (b limbs ! i) else 0);
           sum = av + bv + carry :: u64
       in (limbs[i := ucast sum], drop_bit 32 sum)) [0..<n] (limbs, 0)"

definition crypto_bignum_add ::
    "heap \<Rightarrow> bool \<Rightarrow> bool \<Rightarrow> LiberaCBignum \<Rightarrow> LiberaCBignum \<Rightarrow> LiberaCBignum \<Rightarrow> status \<times> LiberaCBignum \<times> heap" where
  "crypto_bignum_add heap same_a same_b out a b =
     (let a_length = bn_LENGTH a; b_length = bn_LENGTH b; old_length = bn_LENGTH out;
          n = (if b_length < a_length then a_length else b_length) in
      if n = 2 ^ 64 - 1 then (INVALID_ARGUMENT, out, heap)
      else let (err, out, heap) = bignum_reserve heap out (n + 1) in
        if err \<noteq> SUCCESS then (INVALID_ARGUMENT, out, heap)
        else let (limbs, carry) = bignum_add_loop (\<lambda>limbs. if same_a then limbs else bn_LIMBS a) a_length
                   (\<lambda>limbs. if same_b then limbs else bn_LIMBS b) b_length n (bn_LIMBS out);
                 (limbs, n) = (if carry \<noteq> 0 then (limbs[n := ucast carry], n + 1) else (limbs[n := 0], n));
                 out = bignum_clear_stale_tail (out\<lparr>bn_LIMBS := limbs\<rparr>) old_length n
             in (SUCCESS, out\<lparr>bn_LENGTH := n\<rparr>, heap))"

definition bignum_sub_loop ::
    "(u32 list \<Rightarrow> u32 list) \<Rightarrow> (u32 list \<Rightarrow> u32 list) \<Rightarrow> nat \<Rightarrow> nat \<Rightarrow> u32 list \<Rightarrow> u32 list \<times> u64" where
  "bignum_sub_loop a b b_length n limbs =
     fold (\<lambda>i (limbs, borrow).
       let av = ucast (a limbs ! i) :: u64;
           bv = (if i < b_length then ucast (b limbs ! i) else 0) + borrow
       in (limbs[i := ucast (av - bv)], if av < bv then 1 else 0)) [0..<n] (limbs, 0)"

definition crypto_bignum_sub ::
    "heap \<Rightarrow> bool \<Rightarrow> bool \<Rightarrow> LiberaCBignum \<Rightarrow> LiberaCBignum \<Rightarrow> LiberaCBignum \<Rightarrow> status \<times> LiberaCBignum \<times> heap" where
  "crypto_bignum_sub heap same_a same_b out a b =
     (if crypto_bignum_compare a b < 0 then (INVALID_ARGUMENT, out, heap)
      else let a_length = bn_LENGTH a; b_length = bn_LENGTH b; old_length = bn_LENGTH out;
               (err, out, heap) = bignum_reserve heap out a_length
           in if err \<noteq> SUCCESS then (INVALID_ARGUMENT, out, heap)
              else let (limbs, borrow) = bignum_sub_loop (\<lambda>limbs. if same_a then limbs else bn_LIMBS a)
                         (\<lambda>limbs. if same_b then limbs else bn_LIMBS b) b_length a_length (bn_LIMBS out);
                       out = bignum_normalize (out\<lparr>bn_LIMBS := limbs, bn_LENGTH := a_length\<rparr>)
                   in (SUCCESS, bignum_clear_stale_tail out old_length (bn_LENGTH out), heap))"

section \<open>Bits and one-limb operands\<close>

definition bignum_get_bit :: "LiberaCBignum \<Rightarrow> nat \<Rightarrow> bool" where
  "bignum_get_bit a index =
     (let limb = index div 32 in
      if bn_LENGTH a \<le> limb then False else drop_bit (index mod 32) (bn_LIMBS a ! limb) AND 1 \<noteq> 0)"

definition shift_one_loop :: "nat \<Rightarrow> u32 list \<Rightarrow> u32 list \<times> u64" where
  "shift_one_loop n limbs =
     fold (\<lambda>i (limbs, carry).
       let v = push_bit 1 (ucast (limbs ! i)) OR carry :: u64
       in (limbs[i := ucast v], drop_bit 32 v)) [0..<n] (limbs, 0)"

definition bignum_shift_left_one :: "heap \<Rightarrow> LiberaCBignum \<Rightarrow> status \<times> LiberaCBignum \<times> heap" where
  "bignum_shift_left_one heap a =
     (if bn_LENGTH a = 0 then (SUCCESS, a, heap)
      else let (err, a, heap) = bignum_reserve heap a (bn_LENGTH a + 1) in
        if err \<noteq> SUCCESS then (INVALID_ARGUMENT, a, heap)
        else let (limbs, carry) = shift_one_loop (bn_LENGTH a) (bn_LIMBS a)
             in (SUCCESS, if carry \<noteq> 0
                   then a\<lparr>bn_LIMBS := limbs[bn_LENGTH a := ucast carry], bn_LENGTH := bn_LENGTH a + 1\<rparr>
                   else a\<lparr>bn_LIMBS := limbs\<rparr>, heap))"

function add_carry_loop :: "u32 list \<Rightarrow> nat \<Rightarrow> nat \<Rightarrow> u64 \<Rightarrow> u32 list \<times> nat \<times> u64" where
  "add_carry_loop limbs n i carry =
     (if carry \<noteq> 0 \<and> i < n then
        let s = ucast (limbs ! i) + carry
        in add_carry_loop (limbs[i := ucast s]) n (i + 1) (drop_bit 32 s)
      else (limbs, i, carry))"
  by pat_completeness auto
termination
  by (relation "measure (\<lambda>(limbs, n, i, carry). n - i)") auto

declare add_carry_loop.simps [simp del]

definition bignum_add_u32 :: "heap \<Rightarrow> LiberaCBignum \<Rightarrow> u32 \<Rightarrow> status \<times> LiberaCBignum \<times> heap" where
  "bignum_add_u32 heap a v =
     (let carry = ucast v :: u64 in
      if carry = 0 then (SUCCESS, a, heap)
      else if bn_LENGTH a = 0 then
        let (err, a, heap) = bignum_reserve heap a 1
        in if err \<noteq> SUCCESS then (INVALID_ARGUMENT, a, heap)
           else (SUCCESS, a\<lparr>bn_LIMBS := (bn_LIMBS a)[0 := v], bn_LENGTH := 1\<rparr>, heap)
      else
        let (limbs, i, carry) = add_carry_loop (bn_LIMBS a) (bn_LENGTH a) 0 carry;
            a = a\<lparr>bn_LIMBS := limbs\<rparr>
        in if carry \<noteq> 0 then
             let (err, a, heap) = bignum_reserve heap a (bn_LENGTH a + 1)
             in if err \<noteq> SUCCESS then (INVALID_ARGUMENT, a, heap)
                else (SUCCESS, a\<lparr>bn_LIMBS := (bn_LIMBS a)[bn_LENGTH a := ucast carry], bn_LENGTH := bn_LENGTH a + 1\<rparr>, heap)
           else (SUCCESS, a, heap))"

definition bignum_mul_u32 :: "heap \<Rightarrow> LiberaCBignum \<Rightarrow> LiberaCBignum \<Rightarrow> u32 \<Rightarrow> status \<times> LiberaCBignum \<times> heap" where
  "bignum_mul_u32 heap out a v =
     (if v = 0 \<or> bn_LENGTH a = 0 then (SUCCESS, crypto_bignum_init, heap)
      else let (err, t, heap) = bignum_reserve heap crypto_bignum_init (bn_LENGTH a + 1) in
        if err \<noteq> SUCCESS then (INVALID_ARGUMENT, out, heap)
        else let (limbs, carry) = fold (\<lambda>i (limbs, carry).
                   let z = ucast (bn_LIMBS a ! i) * ucast v + carry :: u64
                   in (limbs[i := ucast z], drop_bit 32 z)) [0..<bn_LENGTH a] (bn_LIMBS t, 0)
             in (SUCCESS, if carry \<noteq> 0
                   then t\<lparr>bn_LIMBS := limbs[bn_LENGTH a := ucast carry], bn_LENGTH := bn_LENGTH a + 1\<rparr>
                   else t\<lparr>bn_LIMBS := limbs, bn_LENGTH := bn_LENGTH a\<rparr>, heap))"

definition bignum_mod_u32 :: "LiberaCBignum \<Rightarrow> u32 \<Rightarrow> u32" where
  "bignum_mod_u32 a v =
     (if v = 0 then 0
      else ucast (fold (\<lambda>i r. (push_bit 32 r OR ucast (bn_LIMBS a ! i)) mod ucast v) (rev [0..<bn_LENGTH a]) (0 :: u64)))"

definition bignum_div_u32 :: "heap \<Rightarrow> LiberaCBignum \<Rightarrow> LiberaCBignum \<Rightarrow> u32 \<Rightarrow> status \<times> LiberaCBignum \<times> u32 option \<times> heap" where
  "bignum_div_u32 heap out a v =
     (if v = 0 then (INVALID_ARGUMENT, out, None, heap)
      else let (err, t, heap) = bignum_reserve heap crypto_bignum_init (bn_LENGTH a) in
        if err \<noteq> SUCCESS then (INVALID_ARGUMENT, out, None, heap)
        else let (limbs, remainder) = fold (\<lambda>i (limbs, remainder).
                   let cur = push_bit 32 remainder OR ucast (bn_LIMBS a ! i) :: u64
                   in (limbs[i := ucast (cur div ucast v)], cur mod ucast v))
                   (rev [0..<bn_LENGTH a]) (bn_LIMBS t, 0)
             in (SUCCESS, bignum_normalize (t\<lparr>bn_LIMBS := limbs, bn_LENGTH := bn_LENGTH a\<rparr>), Some (ucast remainder), heap))"

definition bignum_sub_u32 :: "heap \<Rightarrow> bool \<Rightarrow> LiberaCBignum \<Rightarrow> LiberaCBignum \<Rightarrow> u32 \<Rightarrow> status \<times> LiberaCBignum \<times> heap" where
  "bignum_sub_u32 heap same out a v =
     (let (err, b, heap) = crypto_bignum_set_u64 heap crypto_bignum_init (ucast v) in
      if err \<noteq> SUCCESS then (INVALID_ARGUMENT, out, heap)
      else crypto_bignum_sub heap same False out a b)"

definition bignum_add_u32_copy :: "heap \<Rightarrow> bool \<Rightarrow> LiberaCBignum \<Rightarrow> LiberaCBignum \<Rightarrow> u32 \<Rightarrow> status \<times> LiberaCBignum \<times> heap" where
  "bignum_add_u32_copy heap same out a v =
     (let (err, out, heap) = crypto_bignum_copy heap same out a in
      if err \<noteq> SUCCESS then (INVALID_ARGUMENT, out, heap) else bignum_add_u32 heap out v)"

end
