(* ===== verification/Bignum_Correct.thy ===== *)
theory Bignum_Correct
  imports Bignum
begin

text \<open>
  The operations of \<^verbatim>\<open>bignum.c\<close> as operations on natural numbers: the representation invariant
  \<open>bn_ok\<close> (normalised length, zero limbs beyond it), the value \<open>bn_val\<close>, and for every operation
  that it keeps the invariant and computes the number it should, or fails because an allocation
  failed.
\<close>

section \<open>Representation\<close>

definition bn_ok :: "LiberaCBignum \<Rightarrow> bool" where
  "bn_ok a \<longleftrightarrow> bn_LENGTH a \<le> bn_CAPACITY a \<and> (\<forall>j. bn_LENGTH a \<le> j \<and> j < bn_CAPACITY a \<longrightarrow> bn_LIMBS a ! j = 0) \<and>
     (0 < bn_LENGTH a \<longrightarrow> bn_LIMBS a ! (bn_LENGTH a - 1) \<noteq> 0)"

definition bn_val :: "LiberaCBignum \<Rightarrow> nat" where
  "bn_val a = wv (bn_LIMBS a) (bn_LENGTH a)"

text \<open>
  The outcome of an operation started in \<open>heap\<close>: its output is well-formed, and either it
  succeeded with the property \<open>Q\<close> or one of the allocations failed.
\<close>

definition bn_res :: "heap \<Rightarrow> (LiberaCBignum \<Rightarrow> bool) \<Rightarrow> status \<times> LiberaCBignum \<times> heap \<Rightarrow> bool" where
  "bn_res heap Q r = (case r of (err, out, heap') \<Rightarrow>
     set heap' \<subseteq> set heap \<and> bn_ok out \<and> (if err = SUCCESS then Q out else False \<in> set heap))"

lemma bn_resE:
  assumes "bn_res heap Q r"
  obtains (ok) out heap' where "r = (SUCCESS, out, heap')" "bn_ok out" "Q out" "set heap' \<subseteq> set heap"
    | (fail) err out heap' where "r = (err, out, heap')" "err \<noteq> SUCCESS" "bn_ok out" "set heap' \<subseteq> set heap" "False \<in> set heap"
  using assms by (cases r) (auto simp: bn_res_def split: if_splits)

lemma bn_res_weaken: "bn_res heap Q r \<Longrightarrow> (\<And>out. bn_ok out \<Longrightarrow> Q out \<Longrightarrow> R out) \<Longrightarrow> bn_res heap R r"
  by (auto simp: bn_res_def split: prod.splits if_splits)

lemma bn_okI:
  assumes "bn_LENGTH a \<le> bn_CAPACITY a" and "\<And>j. bn_LENGTH a \<le> j \<Longrightarrow> j < bn_CAPACITY a \<Longrightarrow> bn_LIMBS a ! j = 0"
    and "0 < bn_LENGTH a \<Longrightarrow> 4294967296 ^ (bn_LENGTH a - 1) \<le> bn_val a"
  shows "bn_ok a"
proof -
  have "bn_LIMBS a ! (bn_LENGTH a - 1) \<noteq> 0" if "0 < bn_LENGTH a"
  proof
    assume "bn_LIMBS a ! (bn_LENGTH a - 1) = 0"
    then have "bn_val a = wv (bn_LIMBS a) (bn_LENGTH a - 1)"
      using that wv_Suc [of "bn_LIMBS a" "bn_LENGTH a - 1"] by (simp add: bn_val_def)
    then show False using assms(3) [OF that] wv_bound [of "bn_LIMBS a" "bn_LENGTH a - 1"] by simp
  qed
  then show ?thesis using assms by (simp add: bn_ok_def)
qed

lemma bn_val_top: "bn_ok a \<Longrightarrow> 0 < bn_LENGTH a \<Longrightarrow> 4294967296 ^ (bn_LENGTH a - 1) \<le> bn_val a"
  using wv_top [of "bn_LENGTH a" "bn_LIMBS a"] by (simp add: bn_ok_def bn_val_def)

lemma bn_val_bound: "bn_val a < 4294967296 ^ bn_LENGTH a"
  by (simp add: bn_val_def wv_bound)

lemma bn_val_wide: "bn_ok a \<Longrightarrow> bn_LENGTH a \<le> n \<Longrightarrow> n \<le> bn_CAPACITY a \<Longrightarrow> wv (bn_LIMBS a) n = bn_val a"
  unfolding bn_val_def by (intro wv_zero_tail) (auto simp: bn_ok_def)

lemma bn_LENGTH_le: "bn_ok a \<Longrightarrow> bn_val a < 4294967296 ^ n \<Longrightarrow> bn_LENGTH a \<le> n"
proof (rule ccontr)
  assume a: "bn_ok a" "bn_val a < 4294967296 ^ n" "\<not> bn_LENGTH a \<le> n"
  then have "(4294967296 :: nat) ^ n \<le> 4294967296 ^ (bn_LENGTH a - 1)" by (intro power_increasing) auto
  also have "\<dots> \<le> bn_val a" using a by (intro bn_val_top) auto
  finally show False using a(2) by simp
qed

lemma bn_LENGTH_mono: "bn_ok a \<Longrightarrow> bn_val a \<le> bn_val b \<Longrightarrow> bn_LENGTH a \<le> bn_LENGTH b"
  using bn_LENGTH_le [of a "bn_LENGTH b"] bn_val_bound [of b] by simp

lemma bn_LENGTH_0: "bn_ok a \<Longrightarrow> bn_LENGTH a = 0 \<longleftrightarrow> bn_val a = 0"
  using bn_val_top [of a] by (cases "bn_LENGTH a = 0") (auto simp: bn_val_def dest: order_trans)

lemma bn_init [simp]: "bn_ok crypto_bignum_init" "bn_val crypto_bignum_init = 0"
  by (simp_all add: bn_ok_def bn_val_def crypto_bignum_init_def)

lemma nth_copy_at:
  "k + length ys \<le> length xs \<Longrightarrow> j < length xs \<Longrightarrow>
    copy_at xs k ys ! j = (if k \<le> j \<and> j < k + length ys then ys ! (j - k) else xs ! j)"
  by (auto simp: copy_at_def nth_append)

section \<open>Storage\<close>

lemma reserve_cases:
  assumes "capacity < 4611686018427387904"
  obtains (ok) k heap' where "bignum_reserve heap a capacity = (SUCCESS, a\<lparr>bn_LIMBS := bn_LIMBS a @ replicate k 0\<rparr>, heap')"
      "capacity \<le> bn_CAPACITY a + k" "set heap' \<subseteq> set heap"
    | (fail) heap' where "bignum_reserve heap a capacity = (INVALID_ARGUMENT, a, heap')" "False \<in> set heap" "set heap' \<subseteq> set heap"
proof (cases "capacity \<le> bn_CAPACITY a")
  case True
  then show ?thesis using ok [of 0 heap] by (simp add: bignum_reserve_def)
next
  case False
  then have e: "copy_at (replicate capacity 0) 0 (bn_LIMBS a) = bn_LIMBS a @ replicate (capacity - bn_CAPACITY a) 0"
    by (simp add: copy_at_def)
  obtain b heap' where h: "calloc_ok heap = (b, heap')" by (meson surj_pair)
  then have s: "set heap' \<subseteq> set heap" "\<not> b \<Longrightarrow> False \<in> set heap"
    by (cases heap rule: calloc_ok.cases; auto)+
  show ?thesis
    using False assms s ok [of "capacity - bn_CAPACITY a" heap'] fail [of heap']
    by (cases b) (simp_all add: bignum_reserve_def h e)
qed

lemma words_length_le: "bignum_words_length words n \<le> n"
  by (induction n) auto

lemma words_length_zero: "bignum_words_length words n \<le> j \<Longrightarrow> j < n \<Longrightarrow> words ! j = 0"
proof (induction n)
  case (Suc n)
  then show ?case by (cases "j = n") (auto split: if_splits)
qed simp

lemma words_length_top: "0 < bignum_words_length words n \<Longrightarrow> words ! (bignum_words_length words n - 1) \<noteq> 0"
  by (induction n) (auto split: if_splits)

lemma wv_words_length: "wv words (bignum_words_length words n) = wv words n"
  by (rule wv_zero_tail [symmetric]) (auto simp: words_length_le words_length_zero)

lemma normalize_ok:
  assumes "bn_LENGTH a \<le> bn_CAPACITY a" and "\<And>j. bn_LENGTH a \<le> j \<Longrightarrow> j < bn_CAPACITY a \<Longrightarrow> bn_LIMBS a ! j = 0"
  shows "bn_ok (bignum_normalize a)" "bn_val (bignum_normalize a) = wv (bn_LIMBS a) (bn_LENGTH a)"
proof -
  have "bn_LIMBS a ! j = 0" if "bignum_words_length (bn_LIMBS a) (bn_LENGTH a) \<le> j" "j < bn_CAPACITY a" for j
    using assms(2) [of j] that words_length_zero [of "bn_LIMBS a" "bn_LENGTH a" j] by (cases "bn_LENGTH a \<le> j") auto
  then show "bn_ok (bignum_normalize a)"
    using assms(1) words_length_le [of "bn_LIMBS a" "bn_LENGTH a"] words_length_top [of "bn_LIMBS a" "bn_LENGTH a"]
    by (auto simp: bn_ok_def bignum_normalize_def)
  show "bn_val (bignum_normalize a) = wv (bn_LIMBS a) (bn_LENGTH a)"
    by (simp add: bn_val_def bignum_normalize_def wv_words_length)
qed

lemma clear_stale:
  assumes "old \<le> bn_CAPACITY a"
  shows "bn_LENGTH (bignum_clear_stale_tail a old new) = bn_LENGTH a"
    "bn_CAPACITY (bignum_clear_stale_tail a old new) = bn_CAPACITY a"
    "j < bn_CAPACITY a \<Longrightarrow> bn_LIMBS (bignum_clear_stale_tail a old new) ! j =
      (if new \<le> j \<and> j < old then 0 else bn_LIMBS a ! j)"
  using assms by (auto simp: bignum_clear_stale_tail_def nth_copy_at)

text \<open>Storing a new value of \<open>n\<close> limbs over an old one of \<open>old\<close> limbs.\<close>

lemma stored_ok:
  assumes len: "n \<le> bn_CAPACITY a" "old \<le> bn_CAPACITY a"
    and tail: "\<And>j. n \<le> j \<Longrightarrow> old \<le> j \<Longrightarrow> j < bn_CAPACITY a \<Longrightarrow> bn_LIMBS a ! j = 0"
    and top: "0 < n \<Longrightarrow> 4294967296 ^ (n - 1) \<le> wv (bn_LIMBS a) n"
  shows "bn_ok ((bignum_clear_stale_tail a old n)\<lparr>bn_LENGTH := n\<rparr>)"
    "bn_val ((bignum_clear_stale_tail a old n)\<lparr>bn_LENGTH := n\<rparr>) = wv (bn_LIMBS a) n"
proof -
  have v: "wv (bn_LIMBS (bignum_clear_stale_tail a old n)) n = wv (bn_LIMBS a) n"
    using clear_stale(3) [OF len(2), where new = n] len(1) by (intro wv_cong) simp
  then show "bn_val ((bignum_clear_stale_tail a old n)\<lparr>bn_LENGTH := n\<rparr>) = wv (bn_LIMBS a) n"
    by (simp add: bn_val_def)
  show "bn_ok ((bignum_clear_stale_tail a old n)\<lparr>bn_LENGTH := n\<rparr>)"
    using clear_stale(1,2) [OF len(2), of n] clear_stale(3) [OF len(2), where new = n] len(1) tail top v
    by (intro bn_okI) (auto simp: bn_val_def)
qed

lemma copy_correct:
  assumes "bn_ok out" "bn_ok a" "same \<Longrightarrow> out = a" "bn_LENGTH a < 4611686018427387904"
  shows "bn_res heap (\<lambda>r. bn_val r = bn_val a) (crypto_bignum_copy heap same out a)"
proof (cases same)
  case True
  then show ?thesis using assms by (simp add: crypto_bignum_copy_def bn_res_def)
next
  case False
  from assms(4) show ?thesis
  proof (cases rule: reserve_cases [where heap = heap and a = out])
    case (ok k heap')
    let ?o = "out\<lparr>bn_LIMBS := copy_at (bn_LIMBS out @ replicate k 0) 0 (take (bn_LENGTH a) (bn_LIMBS a))\<rparr>"
    have la: "bn_LENGTH a \<le> bn_CAPACITY a" and lo: "bn_LENGTH out \<le> bn_CAPACITY out" using assms by (auto simp: bn_ok_def)
    have limb: "bn_LIMBS ?o ! j = (if j < bn_LENGTH a then bn_LIMBS a ! j else if j < bn_CAPACITY out then bn_LIMBS out ! j else 0)"
      if "j < bn_CAPACITY out + k" for j
      using that ok(2) la by (simp add: nth_copy_at min_absorb2) (auto simp: nth_append)
    have "wv (bn_LIMBS ?o) (bn_LENGTH a) = bn_val a"
      unfolding bn_val_def using limb ok(2) by (intro wv_cong) simp
    note v = this
    have "bn_LENGTH a \<le> bn_CAPACITY ?o" "bn_LENGTH out \<le> bn_CAPACITY ?o"
      using ok(2) la lo by (simp_all add: min_absorb2)
    note s = stored_ok [OF this]
    have cap: "bn_CAPACITY ?o = bn_CAPACITY out + k" using ok(2) la by (simp add: min_absorb2)
    have tail: "bn_LIMBS ?o ! j = 0" if "bn_LENGTH a \<le> j" "bn_LENGTH out \<le> j" "j < bn_CAPACITY ?o" for j
      using limb [of j] that(3) that(1,2) assms(1) unfolding cap by (auto simp: bn_ok_def)
    have top: "4294967296 ^ (bn_LENGTH a - 1) \<le> wv (bn_LIMBS ?o) (bn_LENGTH a)" if "0 < bn_LENGTH a"
      using v bn_val_top [OF assms(2) that] by simp
    show ?thesis
      using False ok s [OF tail top] v by (simp add: crypto_bignum_copy_def bn_res_def Let_def)
  next
    case (fail heap')
    then show ?thesis using False assms(1) by (simp add: crypto_bignum_copy_def bn_res_def)
  qed
qed

lemma set_u64_correct:
  assumes "bn_ok out"
  shows "bn_res heap (\<lambda>r. bn_val r = unat x) (crypto_bignum_set_u64 heap out x)"
proof (cases "x = 0")
  case True
  then show ?thesis
    using assms stored_ok [of 0 out "bn_LENGTH out"] by (simp add: crypto_bignum_set_u64_def bn_res_def bn_ok_def)
next
  case False
  define n where "n = (if drop_bit 32 x \<noteq> 0 then 2 else 1 :: nat)"
  have "n < 4611686018427387904" by (simp add: n_def)
  then show ?thesis
  proof (cases rule: reserve_cases [where heap = heap and a = out])
    case (ok k heap')
    define L where "L = (bn_LIMBS out @ replicate k 0)[0 := ucast x]"
    define M where "M = (if n = 2 then L[1 := ucast (drop_bit 32 x)] else L)"
    have cap: "length M = bn_CAPACITY out + k" by (simp add: M_def L_def)
    have x: "unat (ucast x :: u32) + unat (ucast (drop_bit 32 x) :: u32) * 4294967296 = unat x"
      using split_u64 [of x] unat_high_less [of x] by (simp add: unat_ucast_low)
    have pos: "0 < bn_CAPACITY out + k" "n = 2 \<Longrightarrow> 1 < bn_CAPACITY out + k" using ok(2) by (auto simp: n_def split: if_splits)
    have limb0: "M ! 0 = ucast x" "n = 2 \<Longrightarrow> M ! 1 = ucast (drop_bit 32 x)"
      using pos by (auto simp: M_def L_def simp del: length_greater_0_conv)
    have v: "wv M n = unat x"
    proof (cases "drop_bit 32 x = 0")
      case True
      then show ?thesis using x limb0 by (simp add: n_def wv_def)
    next
      case False
      then show ?thesis using x limb0 by (simp add: n_def wv_def numeral_2_eq_2)
    qed
    have low: "unat (ucast x :: u32) = unat x mod 4294967296" by (rule unat_ucast_low)
    have top: "4294967296 ^ (n - 1) \<le> unat x"
    proof (cases "drop_bit 32 x = 0")
      case True
      then show ?thesis using False by (simp add: n_def Suc_le_eq unat_gt_0)
    next
      case hi: False
      then have "0 < unat x div 4294967296" using unat_gt_0 [of "drop_bit 32 x"] by (simp add: unat_high)
      then show ?thesis using hi by (simp add: n_def div_greater_zero_iff)
    qed
    have tail: "M ! j = 0" if "n \<le> j" "bn_LENGTH out \<le> j" "j < bn_CAPACITY out + k" for j
    proof -
      have "0 < j" "n = 2 \<Longrightarrow> 1 < j" using that(1) by (auto simp: n_def split: if_splits)
      then show ?thesis using that assms by (auto simp: M_def L_def nth_append bn_ok_def)
    qed
    have lo: "bn_LENGTH out \<le> bn_CAPACITY out + k" using assms by (auto simp: bn_ok_def)
    note st = stored_ok [of n "out\<lparr>bn_LIMBS := M\<rparr>" "bn_LENGTH out"]
    have st: "bn_ok ((bignum_clear_stale_tail (out\<lparr>bn_LIMBS := M\<rparr>) (bn_LENGTH out) n)\<lparr>bn_LENGTH := n\<rparr>)"
      "bn_val ((bignum_clear_stale_tail (out\<lparr>bn_LIMBS := M\<rparr>) (bn_LENGTH out) n)\<lparr>bn_LENGTH := n\<rparr>) = unat x"
      using st ok(2) cap tail lo top v by simp_all
    have "crypto_bignum_set_u64 heap out x =
        (SUCCESS, (bignum_clear_stale_tail (out\<lparr>bn_LIMBS := M\<rparr>) (bn_LENGTH out) n)\<lparr>bn_LENGTH := n\<rparr>, heap')"
      using ok(1) False unfolding crypto_bignum_set_u64_def n_def [symmetric] Let_def by (simp add: M_def L_def)
    then show ?thesis using st ok(3) by (simp add: bn_res_def)
  next
    case (fail heap')
    have "crypto_bignum_set_u64 heap out x = (INVALID_ARGUMENT, out, heap')"
      using fail(1) False unfolding crypto_bignum_set_u64_def n_def [symmetric] Let_def by simp
    then show ?thesis using assms fail by (simp add: bn_res_def)
  qed
qed

section \<open>Comparison\<close>

lemma compare_limbs_correct:
  "compare_limbs a b n = (if wv a n < wv b n then - 1 else if wv b n < wv a n then 1 else 0)"
proof (induction n)
  case (Suc n)
  have step: "wv x n + unat (x ! n) * 4294967296 ^ n < wv y n + unat (y ! n) * 4294967296 ^ n"
    if "x ! n < y ! n" for x y
  proof -
    have "unat (x ! n) + 1 \<le> unat (y ! n)" using that by (simp add: word_less_nat_alt)
    then have "(unat (x ! n) + 1) * 4294967296 ^ n \<le> unat (y ! n) * 4294967296 ^ n" by (rule mult_le_mono1)
    then show ?thesis using wv_bound [of x n] by (simp add: algebra_simps)
  qed
  show ?case
    using Suc step [of a b] step [of b a] by (cases "a ! n" "b ! n" rule: linorder_cases) (auto simp: wv_Suc)
qed simp

lemma compare_correct:
  assumes "bn_ok a" "bn_ok b"
  shows "crypto_bignum_compare a b = (if bn_val a < bn_val b then - 1 else if bn_val b < bn_val a then 1 else 0)"
proof (cases "bn_LENGTH a" "bn_LENGTH b" rule: linorder_cases)
  case less
  then have "bn_val a < bn_val b" using bn_LENGTH_mono [of b a] assms by (meson leD leI)
  then show ?thesis using less by (simp add: crypto_bignum_compare_def)
next
  case equal
  then show ?thesis by (simp add: crypto_bignum_compare_def compare_limbs_correct bn_val_def)
next
  case greater
  then have "bn_val b < bn_val a" using bn_LENGTH_mono [of a b] assms by (meson leD leI)
  then show ?thesis using greater by (simp add: crypto_bignum_compare_def)
qed

lemma is_zero_correct: "bn_ok a \<Longrightarrow> crypto_bignum_is_zero a \<longleftrightarrow> bn_val a = 0"
  by (simp add: crypto_bignum_is_zero_def bn_LENGTH_0)

section \<open>Addition and subtraction\<close>

text \<open>
  A source operand may share the limbs of the output: it is read at an index that has not been
  overwritten yet.
\<close>

definition reads :: "(u32 list \<Rightarrow> u32 list) \<Rightarrow> nat \<Rightarrow> u32 list \<Rightarrow> u32 list \<Rightarrow> bool" where
  "reads src n xs limbs0 \<longleftrightarrow> (\<forall>i limbs. i < n \<longrightarrow> (\<forall>j\<ge>i. limbs ! j = limbs0 ! j) \<longrightarrow> src limbs ! i = xs ! i)"

lemma reads_same:
  assumes "bn_LENGTH a \<le> bn_CAPACITY a" "same \<Longrightarrow> out = a"
  shows "reads (\<lambda>limbs. if same then limbs else bn_LIMBS a) (bn_LENGTH a) (bn_LIMBS a) (bn_LIMBS out @ ys)"
  using assms by (auto simp: reads_def nth_append)

lemma unat_bool_u64: "unat (if P then 1 else 0 :: u64) = (if P then 1 else 0)"
  by simp

lemma add_loop_correct:
  assumes "reads a la xs limbs" "reads b lb ys limbs" "n \<le> length limbs"
    and add: "bignum_add_loop a la b lb n limbs = (out, carry)"
  shows "length out = length limbs" "\<And>j. n \<le> j \<Longrightarrow> out ! j = limbs ! j"
    "wv out n + unat carry * 4294967296 ^ n = wv xs (min la n) + wv ys (min lb n)" "unat carry \<le> 1"
proof -
  let ?P = "\<lambda>i (out, carry :: u64). length out = length limbs \<and> (\<forall>j\<ge>i. out ! j = limbs ! j) \<and> unat carry \<le> 1 \<and>
    wv out i + unat carry * 4294967296 ^ i = wv xs (min la i) + wv ys (min lb i)"
  have "?P n (bignum_add_loop a la b lb n limbs)"
    unfolding bignum_add_loop_def
  proof (rule fold_upt_invariant)
    fix i and s :: "u32 list \<times> u64"
    assume i: "i < n" and P: "?P i s"
    obtain o' c where s: "s = (o', c)" by (meson surj_pair)
    define av where "av = (if i < la then xs ! i else 0 :: u32)"
    define bv where "bv = (if i < lb then ys ! i else 0 :: u32)"
    have rd: "i < la \<Longrightarrow> a o' ! i = xs ! i" "i < lb \<Longrightarrow> b o' ! i = ys ! i"
      using assms(1,2) P unfolding s reads_def by auto
    have av: "(if i < la then ucast (a o' ! i) else 0 :: u64) = ucast av" and bv: "(if i < lb then ucast (b o' ! i) else 0 :: u64) = ucast bv"
      using rd by (simp_all add: av_def bv_def)
    define z where "z = (ucast av + ucast bv + c :: u64)"
    have z: "unat z = unat av + unat bv + unat c"
      unfolding z_def using P s by (intro unat_add_carry) simp
    have xs: "wv xs (min la (Suc i)) = wv xs (min la i) + unat av * 4294967296 ^ i"
      "wv ys (min lb (Suc i)) = wv ys (min lb i) + unat bv * 4294967296 ^ i"
      by (auto simp: av_def bv_def min_def wv_Suc le_Suc_eq)
    have "unat (drop_bit 32 z) \<le> 1"
    proof -
      have "unat av + unat bv + unat c < 2 * 4294967296"
        using unat_u32_less [of av] unat_u32_less [of bv] P s by simp
      then have "unat (drop_bit 32 z) < 2" unfolding unat_high z by (rule less_mult_imp_div_less)
      then show ?thesis by simp
    qed
    moreover have "unat (ucast z :: u32) * 4294967296 ^ i + unat (drop_bit 32 z) * (4294967296 * 4294967296 ^ i) =
        (unat av + unat bv + unat c) * 4294967296 ^ i"
      using arg_cong [OF split_u64 [of z, unfolded z], of "\<lambda>x. x * 4294967296 ^ i"] by (simp add: algebra_simps)
    ultimately show "?P (Suc i) (case s of (limbs, carry) \<Rightarrow>
        let av = (if i < la then ucast (a limbs ! i) else 0); bv = (if i < lb then ucast (b limbs ! i) else 0);
            sum = av + bv + carry :: u64
        in (limbs[i := ucast sum], drop_bit 32 sum))"
      using P i assms(3) unfolding s prod.case Let_def av bv z_def [symmetric] xs
      by (simp add: wv_Suc algebra_simps)
  qed simp_all
  then show "length out = length limbs" "\<And>j. n \<le> j \<Longrightarrow> out ! j = limbs ! j"
    "wv out n + unat carry * 4294967296 ^ n = wv xs (min la n) + wv ys (min lb n)" "unat carry \<le> 1"
    by (auto simp: add)
qed

text \<open>Operands whose results still have a size that can be allocated: below \<open>2 ^ 58\<close> limbs.\<close>

definition bn_fits :: "LiberaCBignum \<Rightarrow> bool" where
  "bn_fits a \<longleftrightarrow> bn_ok a \<and> bn_LENGTH a < 288230376151711744"

lemma bn_fits_ok: "bn_fits a \<Longrightarrow> bn_ok a"
  by (simp add: bn_fits_def)

lemma wv_min: "wv xs (min n k) = wv xs n" if "n \<le> k"
  using that by (simp add: min_absorb1)

lemma add_correct:
  assumes ok: "bn_ok out" "bn_fits a" "bn_fits b" and same: "same_a \<Longrightarrow> out = a" "same_b \<Longrightarrow> out = b"
  shows "bn_res heap (\<lambda>r. bn_val r = bn_val a + bn_val b) (crypto_bignum_add heap same_a same_b out a b)"
proof -
  define n where "n = (if bn_LENGTH b < bn_LENGTH a then bn_LENGTH a else bn_LENGTH b)"
  have n: "bn_LENGTH a \<le> n" "bn_LENGTH b \<le> n" "n + 1 < 4611686018427387904"
    using ok by (auto simp: n_def bn_fits_def)
  from n(3) show ?thesis
  proof (cases rule: reserve_cases [where heap = heap and a = out])
    case (fail heap')
    have "crypto_bignum_add heap same_a same_b out a b = (INVALID_ARGUMENT, out, heap')"
      using fail(1) n(3) unfolding crypto_bignum_add_def n_def [symmetric] Let_def by simp
    then show ?thesis using fail ok(1) by (simp add: bn_res_def)
  next
    case (ok k heap')
    let ?L = "bn_LIMBS out @ replicate k 0"
    have len: "n + 1 \<le> length ?L" using ok(2) by simp
    have lo: "bn_LENGTH out \<le> length ?L" using \<open>bn_ok out\<close> by (simp add: bn_ok_def)
    have zero: "bn_LENGTH out \<le> j \<Longrightarrow> j < length ?L \<Longrightarrow> ?L ! j = 0" for j
      using \<open>bn_ok out\<close> by (auto simp: bn_ok_def nth_append)
    let ?a = "\<lambda>limbs. if same_a then limbs else bn_LIMBS a" and ?b = "\<lambda>limbs. if same_b then limbs else bn_LIMBS b"
    obtain L c where loop: "bignum_add_loop ?a (bn_LENGTH a) ?b (bn_LENGTH b) n ?L = (L, c)" by (meson surj_pair)
    have rd: "reads ?a (bn_LENGTH a) (bn_LIMBS a) ?L" "reads ?b (bn_LENGTH b) (bn_LIMBS b) ?L"
      using assms by (intro reads_same; auto simp: bn_ok_def bn_fits_def)+
    have nl: "n \<le> length ?L" using len by simp
    note add = add_loop_correct [OF rd nl loop]
    define M where "M = (if c \<noteq> 0 then L[n := ucast c] else L[n := 0])"
    define m where "m = (if c \<noteq> 0 then n + 1 else n)"
    have M: "length M = length ?L" "\<And>j. n + 1 \<le> j \<Longrightarrow> M ! j = ?L ! j" "wv M n = wv L n"
      using add(1,2) by (simp_all add: M_def)
    have top: "M ! n = ucast c" using len add(1) by (auto simp: M_def)
    have c: "unat (ucast c :: u32) = unat c" using add(4) by (simp add: unat_ucast_low)
    have val: "wv M n + unat c * 4294967296 ^ n = bn_val a + bn_val b"
      using add(3) n by (simp add: M(3) wv_min bn_val_def)
    have v: "wv M m = bn_val a + bn_val b"
      using val c top by (auto simp: m_def wv_Suc)
    have big: "4294967296 ^ (m - 1) \<le> wv M m" if "0 < m"
    proof (cases "c = 0")
      case True
      then have "m = bn_LENGTH a \<or> m = bn_LENGTH b" by (simp add: m_def n_def)
      then have "4294967296 ^ (m - 1) \<le> bn_val a \<or> 4294967296 ^ (m - 1) \<le> bn_val b"
        using bn_val_top [of a] bn_val_top [of b] assms that by (auto simp: bn_fits_def)
      then show ?thesis unfolding v by linarith
    next
      case False
      then have "1 \<le> unat c" by (simp add: Suc_le_eq unat_gt_0)
      then have "1 * 4294967296 ^ n \<le> unat c * 4294967296 ^ n" by (rule mult_le_mono1)
      then have "4294967296 ^ n \<le> bn_val a + bn_val b" using val by linarith
      then show ?thesis using False unfolding v by (simp add: m_def)
    qed
    have ml: "m \<le> n + 1" by (simp add: m_def)
    have tail: "M ! j = 0" if "m \<le> j" "bn_LENGTH out \<le> j" "j < length ?L" for j
    proof (cases "j = n")
      case True
      then have "c = 0" using that(1) by (simp add: m_def split: if_splits)
      then show ?thesis using True top by simp
    next
      case False
      then have "n + 1 \<le> j" using that(1) by (auto simp: m_def split: if_splits)
      then show ?thesis using M(2) zero that by simp
    qed
    note st = stored_ok [of m "out\<lparr>bn_LIMBS := M\<rparr>" "bn_LENGTH out"]
    have st: "bn_ok ((bignum_clear_stale_tail (out\<lparr>bn_LIMBS := M\<rparr>) (bn_LENGTH out) m)\<lparr>bn_LENGTH := m\<rparr>)"
      "bn_val ((bignum_clear_stale_tail (out\<lparr>bn_LIMBS := M\<rparr>) (bn_LENGTH out) m)\<lparr>bn_LENGTH := m\<rparr>) = bn_val a + bn_val b"
      using st M(1) ml len lo tail big v by simp_all
    have "crypto_bignum_add heap same_a same_b out a b =
        (SUCCESS, (bignum_clear_stale_tail (out\<lparr>bn_LIMBS := M\<rparr>) (bn_LENGTH out) m)\<lparr>bn_LENGTH := m\<rparr>, heap')"
      using ok(1) loop n(3) unfolding crypto_bignum_add_def n_def [symmetric] Let_def
      by (simp add: M_def m_def)
    then show ?thesis using st ok(3) by (simp add: bn_res_def)
  qed
qed

lemma sub_loop_correct:
  assumes "reads a n xs limbs" "reads b lb ys limbs" "n \<le> length limbs" "lb \<le> n"
    and sub: "bignum_sub_loop a b lb n limbs = (out, borrow)"
  shows "length out = length limbs" "\<And>j. n \<le> j \<Longrightarrow> out ! j = limbs ! j"
    "wv out n + wv ys lb = wv xs n + unat borrow * 4294967296 ^ n" "unat borrow \<le> 1"
proof -
  let ?P = "\<lambda>i (out, borrow :: u64). length out = length limbs \<and> (\<forall>j\<ge>i. out ! j = limbs ! j) \<and> unat borrow \<le> 1 \<and>
    wv out i + wv ys (min lb i) = wv xs i + unat borrow * 4294967296 ^ i"
  have "?P n (bignum_sub_loop a b lb n limbs)"
    unfolding bignum_sub_loop_def
  proof (rule fold_upt_invariant)
    fix i and s :: "u32 list \<times> u64"
    assume i: "i < n" and P: "?P i s"
    obtain o' c where s: "s = (o', c)" by (meson surj_pair)
    define bv where "bv = (if i < lb then ys ! i else 0 :: u32)"
    have rd: "a o' ! i = xs ! i" "i < lb \<Longrightarrow> b o' ! i = ys ! i"
      using assms(1,2) i P unfolding s reads_def by auto
    have bv: "(if i < lb then ucast (b o' ! i) else 0 :: u64) = ucast bv" using rd by (simp add: bv_def)
    define z where "z = (ucast bv + c :: u64)"
    have z: "unat z = unat bv + unat c"
      unfolding z_def using P s unat_u32_less [of bv] by (subst unat_add_u64) simp_all
    have zb: "unat z \<le> 4294967296" unfolding z using P s unat_u32_less [of bv] by simp
    have ys: "wv ys (min lb (Suc i)) = wv ys (min lb i) + unat bv * 4294967296 ^ i"
      by (auto simp: bv_def min_def wv_Suc le_Suc_eq)
    have "unat (ucast (ucast (xs ! i) - z) :: u32) + (unat bv + unat c) = unat (xs ! i) + (if ucast (xs ! i) < z then 4294967296 else 0)"
      using unat_sub_borrow [OF zb, of "xs ! i"] unfolding z .
    from arg_cong [OF this, of "\<lambda>x. x * 4294967296 ^ i"]
    show "?P (Suc i) (case s of (limbs, borrow) \<Rightarrow>
        let av = ucast (a limbs ! i) :: u64; bv = (if i < lb then ucast (b limbs ! i) else 0) + borrow
        in (limbs[i := ucast (av - bv)], if av < bv then 1 else 0))"
      using P i assms(3) unfolding s prod.case Let_def bv rd(1) z_def [symmetric] ys
      by (cases "ucast (xs ! i) < z") (simp_all add: wv_Suc algebra_simps)
  qed simp_all
  then show "length out = length limbs" "\<And>j. n \<le> j \<Longrightarrow> out ! j = limbs ! j"
    "wv out n + wv ys lb = wv xs n + unat borrow * 4294967296 ^ n" "unat borrow \<le> 1"
    using assms(4) by (auto simp: sub min_absorb1)
qed

lemma sub_correct:
  assumes ok: "bn_ok out" "bn_fits a" "bn_fits b" and same: "same_a \<Longrightarrow> out = a" "same_b \<Longrightarrow> out = b"
    and le: "bn_val b \<le> bn_val a"
  shows "bn_res heap (\<lambda>r. bn_val r = bn_val a - bn_val b) (crypto_bignum_sub heap same_a same_b out a b)"
proof -
  have c: "\<not> crypto_bignum_compare a b < 0" using compare_correct [of a b] ok le by (simp add: bn_fits_def)
  have bl: "bn_LENGTH b \<le> bn_LENGTH a" using bn_LENGTH_mono [of b a] ok le by (simp add: bn_fits_def)
  have "bn_LENGTH a < 4611686018427387904" using ok by (simp add: bn_fits_def)
  then show ?thesis
  proof (cases rule: reserve_cases [where heap = heap and a = out])
    case (fail heap')
    then show ?thesis using c ok(1) by (simp add: crypto_bignum_sub_def bn_res_def)
  next
    case (ok k heap')
    let ?L = "bn_LIMBS out @ replicate k 0" and ?n = "bn_LENGTH a"
    let ?a = "\<lambda>limbs. if same_a then limbs else bn_LIMBS a" and ?b = "\<lambda>limbs. if same_b then limbs else bn_LIMBS b"
    have nl: "?n \<le> length ?L" using ok(2) by simp
    have lo: "bn_LENGTH out \<le> length ?L" using \<open>bn_ok out\<close> by (simp add: bn_ok_def)
    have zero: "bn_LENGTH out \<le> j \<Longrightarrow> j < length ?L \<Longrightarrow> ?L ! j = 0" for j
      using \<open>bn_ok out\<close> by (auto simp: bn_ok_def nth_append)
    have rd: "reads ?a ?n (bn_LIMBS a) ?L" "reads ?b (bn_LENGTH b) (bn_LIMBS b) ?L"
      using assms by (intro reads_same; auto simp: bn_ok_def bn_fits_def)+
    obtain L w where loop: "bignum_sub_loop ?a ?b (bn_LENGTH b) ?n ?L = (L, w)" by (meson surj_pair)
    note sub = sub_loop_correct [OF rd nl bl loop]
    have eq: "wv L ?n + bn_val b = bn_val a + unat w * 4294967296 ^ ?n" using sub(3) by (simp add: bn_val_def)
    have w: "unat w = 0"
    proof (rule ccontr)
      assume "unat w \<noteq> 0"
      then have "wv L ?n + bn_val b = bn_val a + 4294967296 ^ ?n" using eq sub(4) by (simp add: le_Suc_eq)
      then show False using wv_bound [of L ?n] le by simp
    qed
    let ?o = "bignum_normalize (out\<lparr>bn_LIMBS := L, bn_LENGTH := ?n\<rparr>)"
    define m where "m = bignum_words_length L ?n"
    have m: "m \<le> ?n" "\<And>j. m \<le> j \<Longrightarrow> j < ?n \<Longrightarrow> L ! j = 0" "0 < m \<Longrightarrow> L ! (m - 1) \<noteq> 0" "wv L m = wv L ?n"
      unfolding m_def using words_length_top [of L ?n] by (auto simp: words_length_le words_length_zero wv_words_length)
    have o': "?o = out\<lparr>bn_LIMBS := L, bn_LENGTH := m\<rparr>" by (simp add: bignum_normalize_def m_def)
    note st = stored_ok [of m "out\<lparr>bn_LIMBS := L, bn_LENGTH := m\<rparr>" "bn_LENGTH out"]
    have tail: "L ! j = 0" if "m \<le> j" "bn_LENGTH out \<le> j" "j < length ?L" for j
      using that m(2) sub(2) zero by (cases "j < ?n") simp_all
    have top: "0 < m \<Longrightarrow> 4294967296 ^ (m - 1) \<le> wv L m" using m(3) wv_top by blast
    have len: "m \<le> length L" using m(1) nl sub(1) by simp
    have same_len: "(bignum_clear_stale_tail (out\<lparr>bn_LIMBS := L, bn_LENGTH := m\<rparr>) (bn_LENGTH out) m)\<lparr>bn_LENGTH := m\<rparr> =
        bignum_clear_stale_tail (out\<lparr>bn_LIMBS := L, bn_LENGTH := m\<rparr>) (bn_LENGTH out) m"
      by (simp add: bignum_clear_stale_tail_def)
    have st: "bn_ok (bignum_clear_stale_tail ?o (bn_LENGTH out) m)"
      "bn_val (bignum_clear_stale_tail ?o (bn_LENGTH out) m) = bn_val a - bn_val b"
      using st len lo sub(1) tail top m(4) eq w unfolding same_len o' by simp_all
    have "crypto_bignum_sub heap same_a same_b out a b = (SUCCESS, bignum_clear_stale_tail ?o (bn_LENGTH out) m, heap')"
      using ok(1) c loop by (simp add: crypto_bignum_sub_def Let_def bignum_normalize_def m_def)
    then show ?thesis using st ok(3) by (simp add: bn_res_def)
  qed
qed

end
