(* ===== verification/Bignum_Mul.thy ===== *)
theory Bignum_Mul
  imports Bignum_Correct
begin

text \<open>
  Multiplication: the schoolbook loops of \<^verbatim>\<open>bignum.c\<close>, the one-level Karatsuba split and the
  dispatcher of \<^verbatim>\<open>bignum_mul.c\<close>, and the squaring of \<^verbatim>\<open>bignum_secure.c\<close>, each with the proof
  that it computes the product. A flag says whether the output is one of the operands.
\<close>

section \<open>Schoolbook multiplication\<close>

definition bignum_mul_row :: "u32 \<Rightarrow> u32 list \<Rightarrow> nat \<Rightarrow> nat \<Rightarrow> u32 list \<Rightarrow> u32 list \<times> u64" where
  "bignum_mul_row x b b_length i out =
     fold (\<lambda>j (out, carry).
       let current = ucast x * ucast (b ! j) + ucast (out ! (i + j)) + carry :: u64
       in (out[i + j := ucast current], drop_bit 32 current)) [0..<b_length] (out, 0)"

definition bignum_mul_rows :: "u32 list \<Rightarrow> nat \<Rightarrow> u32 list \<Rightarrow> nat \<Rightarrow> u32 list \<Rightarrow> u32 list" where
  "bignum_mul_rows a a_length b b_length out =
     fold (\<lambda>i out.
       let (out, carry) = bignum_mul_row (a ! i) b b_length i out
       in out[i + b_length := ucast carry]) [0..<a_length] out"

definition bignum_mul_noalias :: "heap \<Rightarrow> LiberaCBignum \<Rightarrow> LiberaCBignum \<Rightarrow> LiberaCBignum \<Rightarrow> status \<times> LiberaCBignum \<times> heap" where
  "bignum_mul_noalias heap out a b =
     (let a_length = bn_LENGTH a; b_length = bn_LENGTH b; old_length = bn_LENGTH out in
      if a_length = 0 \<or> b_length = 0
      then (SUCCESS, (bignum_clear_stale_tail out old_length 0)\<lparr>bn_LENGTH := 0\<rparr>, heap)
      else if (2 ^ 64 - 1) - b_length < a_length then (INVALID_ARGUMENT, out, heap)
      else let product_length = a_length + b_length;
               (err, out, heap) = bignum_reserve heap out product_length
           in if err \<noteq> SUCCESS then (INVALID_ARGUMENT, out, heap)
              else let out = out\<lparr>bn_LIMBS := copy_at (bn_LIMBS out) 0 (replicate product_length 0)\<rparr>;
                       out = bignum_clear_stale_tail out old_length product_length;
                       limbs = bignum_mul_rows (bn_LIMBS a) a_length (bn_LIMBS b) b_length (bn_LIMBS out)
                   in (SUCCESS, bignum_normalize (out\<lparr>bn_LIMBS := limbs, bn_LENGTH := product_length\<rparr>), heap))"

definition crypto_bignum_mul_schoolbook ::
    "heap \<Rightarrow> bool \<Rightarrow> LiberaCBignum \<Rightarrow> LiberaCBignum \<Rightarrow> LiberaCBignum \<Rightarrow> status \<times> LiberaCBignum \<times> heap" where
  "crypto_bignum_mul_schoolbook heap same out a b =
     (if \<not> same then bignum_mul_noalias heap out a b
      else let (err, tmp, heap) = bignum_mul_noalias heap crypto_bignum_init a b
        in if err = SUCCESS then (err, tmp, heap) else (err, out, heap))"

section \<open>Karatsuba multiplication\<close>

definition bignum_schoolbook_words :: "u32 list \<Rightarrow> nat \<Rightarrow> u32 list \<Rightarrow> nat \<Rightarrow> u32 list option" where
  "bignum_schoolbook_words a a_length b b_length =
     (if (2 ^ 64 - 1) - b_length < a_length then None
      else let out = replicate (a_length + b_length) 0
        in Some (fold (\<lambda>i out.
             let (out, carry) = bignum_mul_row (a ! i) b b_length i out
             in if b_length \<noteq> 0 then out[i + b_length := ucast carry] else out) [0..<a_length] out))"

definition bignum_add_halves :: "nat \<Rightarrow> u32 list \<Rightarrow> nat \<Rightarrow> u32 list \<Rightarrow> nat \<Rightarrow> u32 list option" where
  "bignum_add_halves out_length low low_length high high_length =
     (let n = (if high_length < low_length then low_length else high_length) in
      if out_length < n + 1 then None
      else let (out, carry) = fold (\<lambda>i (out, carry).
                 let left = (if i < low_length then ucast (low ! i) else 0);
                     right = (if i < high_length then ucast (high ! i) else 0);
                     sum = left + right + carry :: u64
                 in (out[i := ucast sum], drop_bit 32 sum)) [0..<n] (replicate out_length 0, 0)
           in Some (out[n := ucast carry]))"

definition bignum_subtract_words :: "u32 list \<Rightarrow> nat \<Rightarrow> u32 list \<Rightarrow> nat \<Rightarrow> bool \<times> u32 list" where
  "bignum_subtract_words words value_length subtrahend subtrahend_length =
     (if value_length < subtrahend_length then (False, words)
      else let (words, borrow) = fold (\<lambda>i (words, borrow).
                 let right = (if i < subtrahend_length then ucast (subtrahend ! i) else 0) + borrow;
                     left = ucast (words ! i) :: u64
                 in (words[i := ucast (left - right)], if left < right then 1 else 0)) [0..<value_length] (words, 0 :: u64)
           in (borrow = 0, words))"

definition bignum_add_shifted :: "u32 list \<Rightarrow> nat \<Rightarrow> u32 list \<Rightarrow> nat \<Rightarrow> nat \<Rightarrow> bool \<times> u32 list" where
  "bignum_add_shifted out out_length words value_length offset =
     (if out_length < offset \<or> out_length - offset < value_length then (False, out)
      else let (out, carry) = fold (\<lambda>i (out, carry).
                 let sum = ucast (out ! (offset + i)) + ucast (words ! i) + carry :: u64
                 in (out[offset + i := ucast sum], drop_bit 32 sum)) [0..<value_length] (out, 0);
               (out, i, carry) = add_carry_loop out out_length (offset + value_length) carry
           in (carry = 0, out))"

abbreviation BIGNUM_KARATSUBA_THRESHOLD_LIMBS :: nat where
  "BIGNUM_KARATSUBA_THRESHOLD_LIMBS \<equiv> 96"

text \<open>The workspace is one allocation; its five parts are separate arrays here.\<close>

definition bignum_mul_karatsuba_noalias ::
    "heap \<Rightarrow> LiberaCBignum \<Rightarrow> LiberaCBignum \<Rightarrow> LiberaCBignum \<Rightarrow> status \<times> LiberaCBignum \<times> heap" where
  "bignum_mul_karatsuba_noalias heap out a b =
     (if bn_LENGTH a \<noteq> bn_LENGTH b \<or> bn_LENGTH a < BIGNUM_KARATSUBA_THRESHOLD_LIMBS then (INVALID_ARGUMENT, out, heap)
      else let n = bn_LENGTH a in
        if ((2 ^ 64 - 1) - 8) div 4 < n \<or> (2 ^ 64 - 1) div 2 < n then (INVALID_ARGUMENT, out, heap)
        else
          let low_length = n div 2; high_length = n - low_length; sum_length = high_length + 1;
              z0_capacity = 2 * low_length; z2_capacity = 2 * high_length; z1_capacity = 2 * sum_length;
              required = z0_capacity + z2_capacity + 2 * sum_length + z1_capacity;
              workspace_words = 4 * n + 8
          in if workspace_words < required \<or> (2 ^ 64 - 1) div 4 < workspace_words then (INVALID_ARGUMENT, out, heap)
             else
               let (ok, heap) = calloc_ok heap
               in if \<not> ok then (INVALID_ARGUMENT, out, heap)
                  else
                    let al = bn_LIMBS a; ah = drop low_length (bn_LIMBS a);
                        bl = bn_LIMBS b; bh = drop low_length (bn_LIMBS b)
                    in case (bignum_schoolbook_words al low_length bl low_length,
                             bignum_schoolbook_words ah high_length bh high_length,
                             bignum_add_halves sum_length al low_length ah high_length,
                             bignum_add_halves sum_length bl low_length bh high_length) of
                      (Some z0, Some z2, Some sum_a, Some sum_b) \<Rightarrow>
                        (case bignum_schoolbook_words sum_a sum_length sum_b sum_length of
                           None \<Rightarrow> (INVALID_ARGUMENT, out, heap)
                         | Some z1 \<Rightarrow>
                             let z0_length = bignum_words_length z0 z0_capacity;
                                 z2_length = bignum_words_length z2 z2_capacity;
                                 (ok0, z1) = bignum_subtract_words z1 z1_capacity z0 z0_length
                             in if \<not> ok0 then (INVALID_ARGUMENT, out, heap)
                                else let (ok2, z1) = bignum_subtract_words z1 z1_capacity z2 z2_length
                                  in if \<not> ok2 then (INVALID_ARGUMENT, out, heap)
                                     else
                                       let z1_length = bignum_words_length z1 z1_capacity;
                                           product_length = 2 * n; old_length = bn_LENGTH out;
                                           (err, out, heap) = bignum_reserve heap out product_length
                                       in if err \<noteq> SUCCESS then (INVALID_ARGUMENT, out, heap)
                                          else
                                            let limbs = copy_at (bn_LIMBS out) 0 (replicate product_length 0);
                                                limbs = (if product_length < old_length
                                                         then copy_at limbs product_length (replicate (old_length - product_length) 0)
                                                         else limbs);
                                                (ok0, limbs) = bignum_add_shifted limbs product_length z0 z0_length 0
                                            in if \<not> ok0 then (INVALID_ARGUMENT, out\<lparr>bn_LIMBS := limbs\<rparr>, heap)
                                               else let (ok1, limbs) = bignum_add_shifted limbs product_length z1 z1_length low_length
                                                 in if \<not> ok1 then (INVALID_ARGUMENT, out\<lparr>bn_LIMBS := limbs\<rparr>, heap)
                                                    else let (ok2, limbs) =
                                                           bignum_add_shifted limbs product_length z2 z2_length (2 * low_length)
                                                      in if \<not> ok2 then (INVALID_ARGUMENT, out\<lparr>bn_LIMBS := limbs\<rparr>, heap)
                                                         else (SUCCESS, bignum_normalize
                                                                 (out\<lparr>bn_LIMBS := limbs, bn_LENGTH := product_length\<rparr>), heap))
                    | _ \<Rightarrow> (INVALID_ARGUMENT, out, heap))"

definition bignum_mul_karatsuba ::
    "heap \<Rightarrow> bool \<Rightarrow> LiberaCBignum \<Rightarrow> LiberaCBignum \<Rightarrow> LiberaCBignum \<Rightarrow> status \<times> LiberaCBignum \<times> heap" where
  "bignum_mul_karatsuba heap same out a b =
     (if \<not> same then
        let (err, out, heap) = bignum_mul_karatsuba_noalias heap out a b
        in if err = SUCCESS then (SUCCESS, out, heap) else crypto_bignum_mul_schoolbook heap same out a b
      else
        let (err, tmp, heap) = bignum_mul_karatsuba_noalias heap crypto_bignum_init a b
        in if err = SUCCESS then (SUCCESS, tmp, heap) else crypto_bignum_mul_schoolbook heap same out a b)"

definition crypto_bignum_mul ::
    "heap \<Rightarrow> bool \<Rightarrow> LiberaCBignum \<Rightarrow> LiberaCBignum \<Rightarrow> LiberaCBignum \<Rightarrow> status \<times> LiberaCBignum \<times> heap" where
  "crypto_bignum_mul heap same out a b =
     (if bn_LENGTH a = bn_LENGTH b \<and> BIGNUM_KARATSUBA_THRESHOLD_LIMBS \<le> bn_LENGTH a
      then bignum_mul_karatsuba heap same out a b
      else crypto_bignum_mul_schoolbook heap same out a b)"

section \<open>Squaring\<close>

function square_carry_loop :: "u32 list \<Rightarrow> nat \<Rightarrow> nat \<Rightarrow> u64 \<Rightarrow> u32 list \<times> u64" where
  "square_carry_loop limbs limb_count offset carry =
     (if carry \<noteq> 0 \<and> offset < limb_count then
        let sum = ucast (limbs ! offset) + ucast (ucast carry :: u32) :: u64
        in square_carry_loop (limbs[offset := ucast sum]) limb_count (offset + 1) (drop_bit 32 carry + drop_bit 32 sum)
      else (limbs, carry))"
  by pat_completeness auto
termination
  by (relation "measure (\<lambda>(limbs, limb_count, offset, carry). limb_count - offset)") auto

declare square_carry_loop.simps [simp del]

definition bignum_square_add_product :: "u32 list \<Rightarrow> nat \<Rightarrow> nat \<Rightarrow> u64 \<Rightarrow> bool \<times> u32 list" where
  "bignum_square_add_product limbs limb_count offset product =
     (if limb_count \<le> offset then (False, limbs)
      else let sum = ucast (limbs ! offset) + ucast (ucast product :: u32) :: u64;
               limbs = limbs[offset := ucast sum];
               carry = drop_bit 32 product + drop_bit 32 sum;
               (limbs, carry) = square_carry_loop limbs limb_count (offset + 1) carry
           in (carry = 0, limbs))"

definition bignum_square_add_double_product :: "u32 list \<Rightarrow> nat \<Rightarrow> nat \<Rightarrow> u64 \<Rightarrow> bool \<times> u32 list" where
  "bignum_square_add_double_product limbs limb_count offset product =
     (if limb_count \<le> offset then (False, limbs)
      else let low_twice = push_bit 1 (ucast (ucast product :: u32)) :: u64;
               high_twice = drop_bit 32 product * 2 + drop_bit 32 low_twice;
               sum = ucast (limbs ! offset) + ucast (ucast low_twice :: u32) :: u64;
               limbs = limbs[offset := ucast sum];
               carry = drop_bit 32 sum;
               offset = offset + 1
           in if limb_count \<le> offset then (high_twice OR carry = 0, limbs)
              else let sum = ucast (limbs ! offset) + ucast (ucast high_twice :: u32) + carry :: u64;
                       limbs = limbs[offset := ucast sum];
                       carry = drop_bit 32 high_twice + drop_bit 32 sum;
                       (limbs, carry) = square_carry_loop limbs limb_count (offset + 1) carry
                   in (carry = 0, limbs))"

text \<open>The double loop stops at the first failing addition.\<close>

definition bignum_square_loop :: "u32 list \<Rightarrow> nat \<Rightarrow> u32 list \<Rightarrow> bool \<times> u32 list" where
  "bignum_square_loop a n limbs =
     fold (\<lambda>i (ok, limbs).
       if \<not> ok then (ok, limbs)
       else fold (\<lambda>j (ok, limbs).
              if \<not> ok then (ok, limbs)
              else bignum_square_add_double_product limbs (2 * n) (i + j) (ucast (a ! i) * ucast (a ! j)))
              [i + 1..<n]
              (bignum_square_add_product limbs (2 * n) (2 * i) (ucast (a ! i) * ucast (a ! i))))
       [0..<n] (True, limbs)"

definition bignum_square_noalias :: "heap \<Rightarrow> LiberaCBignum \<Rightarrow> LiberaCBignum \<Rightarrow> status \<times> LiberaCBignum \<times> heap" where
  "bignum_square_noalias heap out a =
     (let n = bn_LENGTH a; old_length = bn_LENGTH out in
      if n = 0 then (SUCCESS, (bignum_clear_stale_tail out old_length 0)\<lparr>bn_LENGTH := 0\<rparr>, heap)
      else if (2 ^ 64 - 1) div 2 < n then (MESSAGE_TOO_LARGE, out, heap)
      else let limbs = 2 * n;
               (err, out, heap) = bignum_reserve heap out limbs
           in if err \<noteq> SUCCESS then (ALLOCATION_FAILED, out, heap)
              else let words = copy_at (bn_LIMBS out) 0 (replicate limbs 0);
                       words = (if limbs < old_length then copy_at words limbs (replicate (old_length - limbs) 0) else words);
                       (ok, words) = bignum_square_loop (bn_LIMBS a) n words;
                       out = out\<lparr>bn_LIMBS := words\<rparr>
                   in if \<not> ok then (ARITHMETIC, out, heap)
                      else (SUCCESS, bignum_normalize (out\<lparr>bn_LENGTH := limbs\<rparr>), heap))"

definition crypto_bignum_square :: "heap \<Rightarrow> bool \<Rightarrow> LiberaCBignum \<Rightarrow> LiberaCBignum \<Rightarrow> status \<times> LiberaCBignum \<times> heap" where
  "crypto_bignum_square heap same out a =
     (if \<not> same then bignum_square_noalias heap out a
      else let (err, tmp, heap) = bignum_square_noalias heap crypto_bignum_init a
        in if err = SUCCESS then (err, tmp, heap) else (err, out, heap))"

end
