(* ===== verification/Bignum_Mul_Correct.thy ===== *)
theory Bignum_Mul_Correct
  imports Bignum_Mul
begin

text \<open>Every multiplication routine computes the product.\<close>

section \<open>Schoolbook multiplication\<close>

lemma mul_row_correct:
  assumes "i + b_length \<le> length out" and row: "bignum_mul_row x b b_length i out = (out', carry)"
  shows "length out' = length out" "\<And>k. i + b_length \<le> k \<Longrightarrow> out' ! k = out ! k" "unat carry < 4294967296"
    "wv out' (i + b_length) + unat carry * 4294967296 ^ (i + b_length) =
      wv out (i + b_length) + unat x * wv b b_length * 4294967296 ^ i"
proof -
  let ?P = "\<lambda>j (out', carry :: u64). length out' = length out \<and> (\<forall>k\<ge>i + j. out' ! k = out ! k) \<and> unat carry < 4294967296 \<and>
    wv out' (i + j) + unat carry * 4294967296 ^ (i + j) = wv out (i + j) + unat x * wv b j * 4294967296 ^ i"
  have "?P b_length (bignum_mul_row x b b_length i out)"
    unfolding bignum_mul_row_def
  proof (rule fold_upt_invariant [where P = "?P"])
    show "?P 0 (out, 0)" by simp
  next
    fix j and s :: "u32 list \<times> u64"
    assume j: "j < b_length" and P: "?P j s"
    obtain o' c where s: "s = (o', c)" by (meson surj_pair)
    define z where "z = (ucast x * ucast (b ! j) + ucast (o' ! (i + j)) + c :: u64)"
    have z: "unat z = unat x * unat (b ! j) + unat (o' ! (i + j)) + unat c"
      unfolding z_def using P s by (intro unat_mul_add) simp
    from arg_cong [OF split_u64 [of z, unfolded z], of "\<lambda>v. v * 4294967296 ^ (i + j)"]
    show "?P (Suc j) (case s of (out, carry) \<Rightarrow>
        let current = ucast x * ucast (b ! j) + ucast (out ! (i + j)) + carry :: u64
        in (out[i + j := ucast current], drop_bit 32 current))"
      using P j assms(1) unat_high_less [of z] unfolding s prod.case Let_def z_def [symmetric]
      by (simp add: wv_Suc power_add algebra_simps)
  qed simp
  then show "length out' = length out" "\<And>k. i + b_length \<le> k \<Longrightarrow> out' ! k = out ! k" "unat carry < 4294967296"
    "wv out' (i + b_length) + unat carry * 4294967296 ^ (i + b_length) =
      wv out (i + b_length) + unat x * wv b b_length * 4294967296 ^ i" by (auto simp: row)
qed

lemma mul_rows_correct:
  assumes "a_length + b_length \<le> length out" "wv out b_length = 0"
  shows "length (bignum_mul_rows a a_length b b_length out) = length out"
    "\<And>k. a_length + b_length \<le> k \<Longrightarrow> bignum_mul_rows a a_length b b_length out ! k = out ! k"
    "wv (bignum_mul_rows a a_length b b_length out) (a_length + b_length) = wv a a_length * wv b b_length"
proof -
  let ?P = "\<lambda>i out'. length out' = length out \<and> (\<forall>k\<ge>i + b_length. out' ! k = out ! k) \<and>
    wv out' (i + b_length) = wv a i * wv b b_length"
  have "?P a_length (bignum_mul_rows a a_length b b_length out)"
    unfolding bignum_mul_rows_def
  proof (rule fold_upt_invariant [where P = "?P"])
    show "?P 0 out" using assms(2) by simp
  next
    fix i and o' :: "u32 list"
    assume i: "i < a_length" and P: "?P i o'"
    obtain o2 c where row: "bignum_mul_row (a ! i) b b_length i o' = (o2, c)" by (meson surj_pair)
    have len: "i + b_length \<le> length o'" using i P assms(1) by simp
    note r = mul_row_correct [OF len row]
    have c: "unat (ucast c :: u32) = unat c" using r(3) by (simp add: unat_ucast_low)
    have "wv (o2[i + b_length := ucast c]) (Suc (i + b_length)) = wv o2 (i + b_length) + unat c * 4294967296 ^ (i + b_length)"
      using i P assms(1) r(1) c by (simp add: wv_Suc)
    also have "\<dots> = wv a (Suc i) * wv b b_length"
      using r(4) P by (simp add: wv_Suc algebra_simps)
    finally show "?P (Suc i) (let (out, carry) = bignum_mul_row (a ! i) b b_length i o' in out[i + b_length := ucast carry])"
      using P r(1,2) by (simp add: row)
  qed simp
  then show "length (bignum_mul_rows a a_length b b_length out) = length out"
    "\<And>k. a_length + b_length \<le> k \<Longrightarrow> bignum_mul_rows a a_length b b_length out ! k = out ! k"
    "wv (bignum_mul_rows a a_length b b_length out) (a_length + b_length) = wv a a_length * wv b b_length" by auto
qed

text \<open>An output cleared for a product of \<open>n\<close> limbs.\<close>

lemma cleared_output:
  assumes "bn_ok out" "n \<le> bn_CAPACITY out + k"
  defines "M \<equiv> copy_at (bn_LIMBS out @ replicate k 0) 0 (replicate n 0)"
  defines "L \<equiv> (if n < bn_LENGTH out then copy_at M n (replicate (bn_LENGTH out - n) 0) else M)"
  shows "length L = bn_CAPACITY out + k" "\<And>j. j < bn_CAPACITY out + k \<Longrightarrow> L ! j = 0"
    "bn_LIMBS (bignum_clear_stale_tail (out\<lparr>bn_LIMBS := M\<rparr>) (bn_LENGTH out) n) = L"
proof -
  have lo: "bn_LENGTH out \<le> bn_CAPACITY out" "\<And>j. bn_LENGTH out \<le> j \<Longrightarrow> j < bn_CAPACITY out \<Longrightarrow> bn_LIMBS out ! j = 0"
    using assms(1) by (auto simp: bn_ok_def)
  have M: "length M = bn_CAPACITY out + k" using assms(2) by (simp add: M_def)
  show len: "length L = bn_CAPACITY out + k" using M lo(1) by (simp add: L_def)
  have "M ! j = (if j < n then 0 else if j < bn_CAPACITY out then bn_LIMBS out ! j else 0)" if "j < bn_CAPACITY out + k" for j
    using that assms(2) by (auto simp: M_def nth_copy_at nth_append)
  then show "\<And>j. j < bn_CAPACITY out + k \<Longrightarrow> L ! j = 0"
    using M lo by (auto simp: L_def nth_copy_at)
  show "bn_LIMBS (bignum_clear_stale_tail (out\<lparr>bn_LIMBS := M\<rparr>) (bn_LENGTH out) n) = L"
    using M lo(1) by (auto simp: L_def bignum_clear_stale_tail_def)
qed

lemma product_ok:
  assumes "length limbs = c" "\<And>j. n \<le> j \<Longrightarrow> j < c \<Longrightarrow> limbs ! j = 0" "n \<le> c"
  shows "bn_ok (bignum_normalize (out\<lparr>bn_LIMBS := limbs, bn_LENGTH := n\<rparr>))"
    "bn_val (bignum_normalize (out\<lparr>bn_LIMBS := limbs, bn_LENGTH := n\<rparr>)) = wv limbs n"
  using normalize_ok [of "out\<lparr>bn_LIMBS := limbs, bn_LENGTH := n\<rparr>"] assms by auto

lemma mul_noalias_correct:
  assumes "bn_ok out" "bn_fits a" "bn_fits b"
  shows "bn_res heap (\<lambda>r. bn_val r = bn_val a * bn_val b) (bignum_mul_noalias heap out a b)"
proof (cases "bn_LENGTH a = 0 \<or> bn_LENGTH b = 0")
  case True
  then have "bn_val a * bn_val b = 0" by (auto simp: bn_val_def)
  then show ?thesis
    using True assms stored_ok [of 0 out "bn_LENGTH out"] by (auto simp: bignum_mul_noalias_def bn_res_def bn_ok_def)
next
  case False
  let ?n = "bn_LENGTH a + bn_LENGTH b"
  have n: "?n < 4611686018427387904" "\<not> (2 ^ 64 - 1) - bn_LENGTH b < bn_LENGTH a" using assms by (auto simp: bn_fits_def)
  from n(1) show ?thesis
  proof (cases rule: reserve_cases [where heap = heap and a = out])
    case (fail heap')
    then show ?thesis using False n(2) assms(1) by (simp add: bignum_mul_noalias_def bn_res_def)
  next
    case (ok k heap')
    define L where "L = bn_LIMBS (bignum_clear_stale_tail (out\<lparr>bn_LIMBS := copy_at (bn_LIMBS out @ replicate k 0) 0 (replicate ?n 0)\<rparr>)
      (bn_LENGTH out) ?n)"
    have L: "length L = bn_CAPACITY out + k" "\<And>j. j < bn_CAPACITY out + k \<Longrightarrow> L ! j = 0"
      unfolding L_def cleared_output(3) [OF assms(1) ok(2)] using cleared_output(1,2) [OF assms(1) ok(2)] by blast+
    have z: "wv L (bn_LENGTH b) = 0" using L(2) ok(2) by (simp add: wv_def)
    have nl: "?n \<le> length L" using L(1) ok(2) by simp
    define M where "M = bignum_mul_rows (bn_LIMBS a) (bn_LENGTH a) (bn_LIMBS b) (bn_LENGTH b) L"
    note M = mul_rows_correct [OF nl z, where a = "bn_LIMBS a" and b = "bn_LIMBS b", folded M_def]
    have "bignum_mul_noalias heap out a b = (SUCCESS, bignum_normalize
        ((bignum_clear_stale_tail (out\<lparr>bn_LIMBS := copy_at (bn_LIMBS out @ replicate k 0) 0 (replicate ?n 0)\<rparr>) (bn_LENGTH out) ?n)
          \<lparr>bn_LIMBS := M, bn_LENGTH := ?n\<rparr>), heap')"
      using False n(2) ok(1) by (simp add: bignum_mul_noalias_def Let_def M_def L_def)
    then show ?thesis
      using product_ok [of M "bn_CAPACITY out + k" ?n] M L ok(2,3) by (simp add: bn_res_def bn_val_def)
  qed
qed

lemma mul_schoolbook_correct:
  assumes "bn_ok out" "bn_fits a" "bn_fits b"
  shows "bn_res heap (\<lambda>r. bn_val r = bn_val a * bn_val b) (crypto_bignum_mul_schoolbook heap same out a b)"
  using mul_noalias_correct [OF assms, of heap] mul_noalias_correct [OF bn_init(1) assms(2,3), of heap] assms(1)
  by (auto simp: crypto_bignum_mul_schoolbook_def bn_res_def split: prod.splits if_splits)

section \<open>The word-level helpers\<close>

lemma schoolbook_words_correct:
  assumes "a_length + b_length < 18446744073709551616"
  obtains z where "bignum_schoolbook_words a a_length b b_length = Some z" "length z = a_length + b_length"
    "wv z (a_length + b_length) = wv a a_length * wv b b_length"
proof (cases "b_length = 0")
  case True
  have "fold (\<lambda>i out. let (out, carry) = bignum_mul_row (a ! i) b 0 i out in out) xs out = out" for xs out
    by (induction xs arbitrary: out) (simp_all add: bignum_mul_row_def)
  then show ?thesis using that [of "replicate a_length 0"] assms True by (simp add: bignum_schoolbook_words_def)
next
  case False
  have "wv (replicate (a_length + b_length) 0) b_length = 0" by simp
  note r = mul_rows_correct [OF _ this, where a_length = a_length and a = a and b = b]
  have "bignum_schoolbook_words a a_length b b_length = Some (bignum_mul_rows a a_length b b_length (replicate (a_length + b_length) 0))"
    using False assms by (simp add: bignum_schoolbook_words_def bignum_mul_rows_def)
  then show ?thesis using r by (intro that) auto
qed

lemma add_halves_correct:
  assumes "low_length < out_length" "high_length < out_length"
  obtains z where "bignum_add_halves out_length low low_length high high_length = Some z" "length z = out_length"
    "wv z out_length = wv low low_length + wv high high_length"
proof -
  define n where "n = (if high_length < low_length then low_length else high_length)"
  have n: "n < out_length" "low_length \<le> n" "high_length \<le> n" using assms by (auto simp: n_def)
  obtain L c where loop: "bignum_add_loop (\<lambda>_. low) low_length (\<lambda>_. high) high_length n (replicate out_length 0) = (L, c)"
    by (meson surj_pair)
  have rd: "reads (\<lambda>_. low) low_length low (replicate out_length 0)" "reads (\<lambda>_. high) high_length high (replicate out_length 0)"
    by (simp_all add: reads_def)
  have nl: "n \<le> length (replicate out_length (0 :: u32))" using n by simp
  note add = add_loop_correct [OF rd nl loop]
  have eq: "bignum_add_halves out_length low low_length high high_length = Some (L[n := ucast c])"
    using n(1) loop unfolding bignum_add_halves_def n_def [symmetric] bignum_add_loop_def Let_def by simp
  have "wv (L[n := ucast c]) out_length = wv (L[n := ucast c]) (Suc n)"
    using n(1) add(1,2) by (intro wv_zero_tail) auto
  also have "\<dots> = wv L n + unat (ucast c :: u32) * 4294967296 ^ n" using n(1) add(1) by (simp add: wv_Suc)
  also have "unat (ucast c :: u32) = unat c" using add(4) by (simp add: unat_ucast_low)
  finally show ?thesis using that [OF eq] add(1,3) n by (simp add: min_absorb1)
qed

lemma subtract_words_correct:
  assumes "subtrahend_length \<le> n" "n \<le> length words" "wv subtrahend subtrahend_length \<le> wv words n"
  obtains z where "bignum_subtract_words words n subtrahend subtrahend_length = (True, z)" "length z = length words"
    "wv z n = wv words n - wv subtrahend subtrahend_length"
proof -
  obtain L w where loop: "bignum_sub_loop (\<lambda>limbs. limbs) (\<lambda>_. subtrahend) subtrahend_length n words = (L, w)"
    by (meson surj_pair)
  have rd: "reads (\<lambda>limbs. limbs) n words words" "reads (\<lambda>_. subtrahend) subtrahend_length subtrahend words"
    by (simp_all add: reads_def)
  note sub = sub_loop_correct [OF rd assms(2,1) loop]
  have w: "unat w = 0"
  proof (rule ccontr)
    assume "unat w \<noteq> 0"
    then have "wv L n + wv subtrahend subtrahend_length = wv words n + 4294967296 ^ n"
      using sub(3,4) by (simp add: le_Suc_eq)
    then show False using wv_bound [of L n] assms(3) by simp
  qed
  then have "w = 0" by (simp add: word_unat_eq_iff)
  then have "bignum_subtract_words words n subtrahend subtrahend_length = (True, L)"
    using assms(1) loop unfolding bignum_subtract_words_def bignum_sub_loop_def Let_def by simp
  then show ?thesis using that sub(1,3) w by simp
qed

lemma add_carry_loop_correct:
  assumes "add_carry_loop limbs n i carry = (limbs', i', carry')" "i \<le> n" "n \<le> length limbs" "unat carry < 4294967296"
  shows "length limbs' = length limbs" "\<And>k. n \<le> k \<Longrightarrow> limbs' ! k = limbs ! k"
    "wv limbs' n + unat carry' * 4294967296 ^ n = wv limbs n + unat carry * 4294967296 ^ i"
    "unat carry' < 4294967296"
proof -
  have "length limbs' = length limbs \<and> (\<forall>k\<ge>n. limbs' ! k = limbs ! k) \<and> unat carry' < 4294967296 \<and>
      wv limbs' n + unat carry' * 4294967296 ^ n = wv limbs n + unat carry * 4294967296 ^ i"
    using assms
  proof (induction limbs n i carry rule: add_carry_loop.induct)
    case (1 limbs n i carry)
    show ?case
    proof (cases "carry \<noteq> 0 \<and> i < n")
      case True
      define z where "z = ucast (limbs ! i) + carry"
      have z: "unat z = unat (limbs ! i) + unat carry"
        unfolding z_def using "1.prems"(4) unat_u32_less [of "limbs ! i"] by (subst unat_add_u64) simp_all
      have rec: "add_carry_loop (limbs[i := ucast z]) n (i + 1) (drop_bit 32 z) = (limbs', i', carry')"
        using "1.prems"(1) True by (simp add: add_carry_loop.simps [of limbs] Let_def z_def)
      note IH = "1.IH" [OF True z_def rec] 
      have up: "wv (limbs[i := ucast z]) n + unat (limbs ! i) * 4294967296 ^ i = wv limbs n + unat (ucast z :: u32) * 4294967296 ^ i"
        using True "1.prems"(3) by (intro wv_update) auto
      from arg_cong [OF split_u64 [of z, unfolded z], of "\<lambda>v. v * 4294967296 ^ i"]
      show ?thesis
        using IH up True "1.prems"(2,3) unat_high_less [of z] by (simp add: algebra_simps)
    next
      case False
      then have "limbs' = limbs" "carry' = carry" "carry = 0 \<or> i = n"
        using "1.prems"(1,2) by (auto simp: add_carry_loop.simps [of limbs])
      then show ?thesis using "1.prems"(4) by auto
    qed
  qed
  then show "length limbs' = length limbs" "\<And>k. n \<le> k \<Longrightarrow> limbs' ! k = limbs ! k"
    "wv limbs' n + unat carry' * 4294967296 ^ n = wv limbs n + unat carry * 4294967296 ^ i"
    "unat carry' < 4294967296" by auto
qed

lemma wv_same_tail:
  assumes "m \<le> n" "\<And>k. m \<le> k \<Longrightarrow> k < n \<Longrightarrow> xs ! k = ys ! k"
  shows "wv xs n + wv ys m = wv ys n + wv xs m"
  using assms
proof (induction n)
  case (Suc n)
  then show ?case by (cases "m = Suc n") (simp_all add: wv_Suc)
qed simp

lemma no_carry:
  assumes "wv xs n + unat (carry :: u64) * 4294967296 ^ n = v" "v < 4294967296 ^ n"
  shows "carry = 0" "wv xs n = v"
proof -
  have "\<not> 1 \<le> unat carry"
  proof
    assume "1 \<le> unat carry"
    then have "1 * 4294967296 ^ n \<le> unat carry * 4294967296 ^ n" by (rule mult_le_mono1)
    then show False using assms by linarith
  qed
  then show "carry = 0" by (simp add: not_le unat_eq_zero)
  then show "wv xs n = v" using assms(1) by simp
qed

lemma add_shifted_correct:
  assumes "offset + value_length \<le> n" "n \<le> length out"
    and fits: "wv out n + wv words value_length * 4294967296 ^ offset < 4294967296 ^ n"
  obtains z where "bignum_add_shifted out n words value_length offset = (True, z)" "length z = length out"
    "\<And>k. n \<le> k \<Longrightarrow> z ! k = out ! k" "wv z n = wv out n + wv words value_length * 4294967296 ^ offset"
proof -
  let ?f = "\<lambda>i (out, carry). let sum = ucast (out ! (offset + i)) + ucast (words ! i) + carry :: u64
    in (out[offset + i := ucast sum], drop_bit 32 sum)"
  let ?P = "\<lambda>i (o', carry :: u64). length o' = length out \<and> (\<forall>k\<ge>offset + i. o' ! k = out ! k) \<and> unat carry < 4294967296 \<and>
    wv o' (offset + i) + unat carry * 4294967296 ^ (offset + i) = wv out (offset + i) + wv words i * 4294967296 ^ offset"
  obtain o1 c1 where l1: "fold ?f [0..<value_length] (out, 0) = (o1, c1)" by (meson surj_pair)
  have "?P value_length (fold ?f [0..<value_length] (out, 0))"
  proof (rule fold_upt_invariant [where P = "?P"])
    show "?P 0 (out, 0)" by simp
  next
    fix i and s :: "u32 list \<times> u64"
    assume i: "i < value_length" and P: "?P i s"
    obtain o' c where s: "s = (o', c)" by (meson surj_pair)
    define z where "z = (ucast (o' ! (offset + i)) + ucast (words ! i) + c :: u64)"
    have z: "unat z = unat (o' ! (offset + i)) + unat (words ! i) + unat c"
      unfolding z_def using P s by (intro unat_add_carry) simp
    from arg_cong [OF split_u64 [of z, unfolded z], of "\<lambda>v. v * 4294967296 ^ (offset + i)"]
    show "?P (Suc i) (?f i s)"
      using P i assms(1,2) unat_high_less [of z] unfolding s prod.case Let_def z_def [symmetric]
      by (simp add: wv_Suc power_add algebra_simps)
  qed simp
  then have s1: "length o1 = length out" "\<And>k. offset + value_length \<le> k \<Longrightarrow> o1 ! k = out ! k" "unat c1 < 4294967296"
    "wv o1 (offset + value_length) + unat c1 * 4294967296 ^ (offset + value_length) =
      wv out (offset + value_length) + wv words value_length * 4294967296 ^ offset" by (auto simp: l1)
  obtain o2 i2 c2 where l2: "add_carry_loop o1 n (offset + value_length) c1 = (o2, i2, c2)" by (metis prod_cases3)
  have nl: "n \<le> length o1" using s1(1) assms(2) by simp
  note s2 = add_carry_loop_correct [OF l2 assms(1) nl s1(3)]
  have "wv o1 n + wv out (offset + value_length) = wv out n + wv o1 (offset + value_length)"
    using assms(1) s1(2) by (intro wv_same_tail) auto
  then have "wv o2 n + unat c2 * 4294967296 ^ n = wv out n + wv words value_length * 4294967296 ^ offset"
    using s1(4) s2(3) by simp
  note fin = no_carry [OF this fits]
  have "bignum_add_shifted out n words value_length offset = (True, o2)"
    using assms(1) l1 l2 fin(1) by (simp add: bignum_add_shifted_def)
  then show ?thesis using that s2(1,2) s1(1,2) fin(2) assms(1) by simp
qed

section \<open>Karatsuba multiplication\<close>

lemma karatsuba_middle:
  "(a0 + a1) * (b0 + b1) - a0 * b0 - a1 * b1 = a0 * b1 + a1 * (b0 :: nat)"
  by (simp add: algebra_simps)

lemma karatsuba_noalias_correct:
  assumes out: "bn_ok out" and a: "bn_fits a" and b: "bn_fits b"
    and dom: "bn_LENGTH a = bn_LENGTH b" "96 \<le> bn_LENGTH a"
  shows "bn_res heap (\<lambda>r. bn_val r = bn_val a * bn_val b) (bignum_mul_karatsuba_noalias heap out a b)"
proof -
  define n where "n = bn_LENGTH a"
  define l where "l = n div 2"
  define h where "h = n - l"
  have n: "n = l + h" "bn_LENGTH b = n" "n < 288230376151711744" "l \<le> h" "h \<le> l + 1" "0 < l"
    using a dom by (auto simp: n_def l_def h_def bn_fits_def)
  have cap: "n \<le> bn_CAPACITY a" "n \<le> bn_CAPACITY b" using a b n(2) by (auto simp: n_def bn_fits_def bn_ok_def)
  let ?al = "bn_LIMBS a" and ?ah = "drop l (bn_LIMBS a)" and ?bl = "bn_LIMBS b" and ?bh = "drop l (bn_LIMBS b)"
  define a0 where "a0 = wv ?al l"
  define a1 where "a1 = wv ?ah h"
  define b0 where "b0 = wv ?bl l"
  define b1 where "b1 = wv ?bh h"
  let ?B = "4294967296 :: nat"
  have va: "bn_val a = a0 + ?B ^ l * a1" and vb: "bn_val b = b0 + ?B ^ l * b1"
    using wv_add [of l h ?al] wv_add [of l h ?bl] cap n(1,2)
    by (simp_all add: bn_val_def a0_def a1_def b0_def b1_def n_def [symmetric])
  obtain z0 where z0: "bignum_schoolbook_words ?al l ?bl l = Some z0" "length z0 = 2 * l" "wv z0 (2 * l) = a0 * b0"
    using schoolbook_words_correct [of l l ?al ?bl] n by (auto simp: a0_def b0_def mult_2)
  obtain z2 where z2: "bignum_schoolbook_words ?ah h ?bh h = Some z2" "length z2 = 2 * h" "wv z2 (2 * h) = a1 * b1"
    using schoolbook_words_correct [of h h ?ah ?bh] n by (auto simp: a1_def b1_def mult_2)
  obtain sa where sa: "bignum_add_halves (h + 1) ?al l ?ah h = Some sa" "wv sa (h + 1) = a0 + a1"
    using add_halves_correct [of l "h + 1" h ?al ?ah] n by (auto simp: a0_def a1_def)
  obtain sb where sb: "bignum_add_halves (h + 1) ?bl l ?bh h = Some sb" "wv sb (h + 1) = b0 + b1"
    using add_halves_correct [of l "h + 1" h ?bl ?bh] n by (auto simp: b0_def b1_def)
  let ?s = "2 * (h + 1)"
  obtain z1 where z1: "bignum_schoolbook_words sa (h + 1) sb (h + 1) = Some z1" "length z1 = ?s"
      "wv z1 ?s = (a0 + a1) * (b0 + b1)"
    using schoolbook_words_correct [of "h + 1" "h + 1" sa sb] n sa(2) sb(2) by (auto simp: mult_2)
  define l0 where "l0 = bignum_words_length z0 (2 * l)"
  define l2 where "l2 = bignum_words_length z2 (2 * h)"
  have l0: "l0 \<le> 2 * l" "wv z0 l0 = a0 * b0" and l2: "l2 \<le> 2 * h" "wv z2 l2 = a1 * b1"
    using z0(3) z2(3) by (simp_all add: l0_def l2_def words_length_le wv_words_length)
  have "a0 * b0 \<le> (a0 + a1) * (b0 + b1)" by (intro mult_le_mono) simp_all
  then obtain y where y: "bignum_subtract_words z1 ?s z0 l0 = (True, y)" "length y = ?s"
      "wv y ?s = (a0 + a1) * (b0 + b1) - a0 * b0"
    using subtract_words_correct [of l0 ?s z1 z0] l0 n z1 by auto
  have "a1 * b1 \<le> (a0 + a1) * (b0 + b1) - a0 * b0" by (simp add: algebra_simps)
  then obtain x where x: "bignum_subtract_words y ?s z2 l2 = (True, x)" "length x = ?s" "wv x ?s = a0 * b1 + a1 * b0"
    using subtract_words_correct [of l2 ?s y z2] l2 y karatsuba_middle [of a0 a1 b0 b1] by auto
  define l1 where "l1 = bignum_words_length x ?s"
  have l1: "wv x l1 = a0 * b1 + a1 * b0" unfolding l1_def wv_words_length by (rule x(3))
  have prod: "bn_val a * bn_val b = a0 * b0 + (a0 * b1 + a1 * b0) * ?B ^ l + a1 * b1 * ?B ^ (2 * l)"
    unfolding va vb mult_2 power_add by (simp add: algebra_simps)
  have "bn_val a * bn_val b < ?B ^ n * ?B ^ n"
    using bn_val_bound [of a] bn_val_bound [of b] n(2) by (intro mult_strict_mono) (simp_all add: n_def)
  then have bound: "bn_val a * bn_val b < ?B ^ (2 * n)" by (simp add: mult_2 power_add)
  have l1n: "l + l1 \<le> 2 * n"
  proof (cases "l1 = 0")
    case True
    then show ?thesis using n by simp
  next
    case False
    then have "x ! (l1 - 1) \<noteq> 0" unfolding l1_def by (intro words_length_top) simp
    then have "?B ^ (l1 - 1) \<le> a0 * b1 + a1 * b0" using wv_top [of l1 x] False l1 by simp
    then have "?B ^ (l1 - 1) * ?B ^ l \<le> (a0 * b1 + a1 * b0) * ?B ^ l" by (rule mult_le_mono1)
    then have "?B ^ (l1 - 1 + l) < ?B ^ (2 * n)" using prod bound unfolding power_add by linarith
    then have "l1 - 1 + l < 2 * n" by (simp add: power_strict_increasing_iff)
    then show ?thesis by simp
  qed
  obtain ok h1 where heap: "calloc_ok heap = (ok, h1)" by (meson surj_pair)
  have h1: "set h1 \<subseteq> set heap" "\<not> ok \<Longrightarrow> False \<in> set heap"
    using heap by (cases heap rule: calloc_ok.cases; auto)+
  have req: "\<not> (4 * n + 8 < 2 * l + 2 * h + 2 * (h + 1) + ?s \<or> (2 ^ 64 - 1) div 4 < 4 * n + 8)" "True"
    "\<not> (((2 ^ 64 - 1) - 8) div 4 < n \<or> (2 ^ 64 - 1) div 2 < n)" "\<not> (bn_LENGTH a \<noteq> bn_LENGTH b \<or> bn_LENGTH a < 96)"
    using n dom by auto
  note start = bignum_mul_karatsuba_noalias_def [of heap out a b, unfolded if_not_P [OF req(4)], unfolded n_def [symmetric] Let_def,
      folded l_def, folded h_def, unfolded if_not_P [OF req(3)] if_not_P [OF req(1)] heap prod.case z0(1) z2(1) sa(1) sb(1) option.case z1(1),
      folded l0_def l2_def, unfolded y(1) prod.case x(1), folded l1_def]
  show ?thesis
  proof (cases ok)
    case False
    then have "bignum_mul_karatsuba_noalias heap out a b = (INVALID_ARGUMENT, out, h1)"
      unfolding start by simp
    then show ?thesis using out h1 False by (simp add: bn_res_def)
  next
    case True
    have "2 * n < 4611686018427387904" using n by simp
    then show ?thesis
    proof (cases rule: reserve_cases [where heap = h1 and a = out])
      case (fail heap')
      have "bignum_mul_karatsuba_noalias heap out a b = (INVALID_ARGUMENT, out, heap')"
        unfolding start using True by (simp add: fail(1))
      then show ?thesis using out h1 fail by (auto simp: bn_res_def)
    next
      case (ok k heap')
      define M where "M = copy_at (bn_LIMBS out @ replicate k 0) 0 (replicate (2 * n) 0)"
      define L where "L = (if 2 * n < bn_LENGTH out then copy_at M (2 * n) (replicate (bn_LENGTH out - 2 * n) 0) else M)"
      have L: "length L = bn_CAPACITY out + k" "\<And>j. j < bn_CAPACITY out + k \<Longrightarrow> L ! j = 0"
        using cleared_output(1,2) [OF out ok(2)] unfolding L_def M_def by blast+
      have nl: "2 * n \<le> length L" using L(1) ok(2) by simp
      have vL: "wv L (2 * n) = 0" using L(2) ok(2) by (simp add: wv_def)
      obtain p where p: "bignum_add_shifted L (2 * n) z0 l0 0 = (True, p)" "length p = length L"
          "\<And>k. 2 * n \<le> k \<Longrightarrow> p ! k = L ! k" "wv p (2 * n) = a0 * b0"
        using add_shifted_correct [of 0 l0 "2 * n" L z0] nl l0 n(1) vL prod bound by auto
      obtain q where q: "bignum_add_shifted p (2 * n) x l1 l = (True, q)" "length q = length L"
          "\<And>k. 2 * n \<le> k \<Longrightarrow> q ! k = L ! k" "wv q (2 * n) = a0 * b0 + (a0 * b1 + a1 * b0) * ?B ^ l"
        using add_shifted_correct [of l l1 "2 * n" p x] nl l1 l1n p prod bound by auto
      obtain r where r: "bignum_add_shifted q (2 * n) z2 l2 (2 * l) = (True, r)" "length r = length L"
          "\<And>k. 2 * n \<le> k \<Longrightarrow> r ! k = L ! k" "wv r (2 * n) = bn_val a * bn_val b"
        using add_shifted_correct [of "2 * l" l2 "2 * n" q z2] nl l2 n(1) q prod bound by auto
      have "bignum_mul_karatsuba_noalias heap out a b =
          (SUCCESS, bignum_normalize (out\<lparr>bn_LIMBS := r, bn_LENGTH := 2 * n\<rparr>), heap')"
        unfolding start using True by (simp add: ok(1) M_def [symmetric] L_def [symmetric] p(1) q(1) r(1) split del: if_split cong: if_cong)
      then show ?thesis
        using product_ok [of r "bn_CAPACITY out + k" "2 * n" out] r L ok(2,3) h1 by (auto simp: bn_res_def)
    qed
  qed
qed

text \<open>The dispatcher, which falls back on the schoolbook loop when the split fails.\<close>

lemma mul_correct:
  assumes "bn_ok out" "bn_fits a" "bn_fits b"
  shows "bn_res heap (\<lambda>r. bn_val r = bn_val a * bn_val b) (crypto_bignum_mul heap same out a b)"
proof (cases "bn_LENGTH a = bn_LENGTH b \<and> 96 \<le> bn_LENGTH a")
  case False
  then show ?thesis using mul_schoolbook_correct [OF assms] by (auto simp: crypto_bignum_mul_def)
next
  case True
  define o' where "o' = (if same then crypto_bignum_init else out)"
  have o': "bn_ok o'" using assms(1) by (simp add: o'_def)
  from karatsuba_noalias_correct [OF o' assms(2,3), of heap] True
  have "bn_res heap (\<lambda>r. bn_val r = bn_val a * bn_val b) (bignum_mul_karatsuba_noalias heap o' a b)" by blast
  then show ?thesis
  proof (cases rule: bn_resE)
    case (ok r heap')
    then show ?thesis using True by (auto simp: crypto_bignum_mul_def bignum_mul_karatsuba_def o'_def bn_res_def)
  next
    case (fail err r heap')
    let ?o = "if same then out else r"
    have "crypto_bignum_mul heap same out a b = crypto_bignum_mul_schoolbook heap' same ?o a b"
      using fail True by (auto simp: crypto_bignum_mul_def bignum_mul_karatsuba_def o'_def)
    moreover have "bn_ok ?o" using assms(1) fail by simp
    from mul_schoolbook_correct [OF this assms(2,3), of heap' same]
    have "bn_res heap (\<lambda>r. bn_val r = bn_val a * bn_val b) (crypto_bignum_mul_schoolbook heap' same ?o a b)"
      using fail by (auto simp: bn_res_def split: prod.splits if_splits)
    ultimately show ?thesis by simp
  qed
qed

section \<open>Squaring\<close>

text \<open>A 64-bit carry is added to a limb and becomes the carry of the next one.\<close>

lemma carry_step:
  fixes w :: u32 and c :: u64
  defines "z \<equiv> ucast w + ucast (ucast c :: u32) :: u64"
  shows "unat (ucast z :: u32) + unat (drop_bit 32 c + drop_bit 32 z) * 4294967296 = unat w + unat c"
proof -
  have z: "unat z = unat w + unat (ucast c :: u32)"
    unfolding z_def using unat_u32_less [of w] unat_u32_less [of "ucast c"] by (subst unat_add_u64) simp_all
  have "unat (drop_bit 32 c + drop_bit 32 z) = unat (drop_bit 32 c) + unat (drop_bit 32 z)"
    using unat_high_less [of c] unat_high_less [of z] by (subst unat_add_u64) simp_all
  then show ?thesis using split_u64 [of z] split_u64 [of c] z by (simp add: algebra_simps)
qed

lemma square_carry_loop_correct:
  assumes "square_carry_loop limbs n i carry = (limbs', carry')" "i \<le> n" "n \<le> length limbs"
  shows "length limbs' = length limbs" "\<And>k. n \<le> k \<Longrightarrow> limbs' ! k = limbs ! k"
    "wv limbs' n + unat carry' * 4294967296 ^ n = wv limbs n + unat carry * 4294967296 ^ i"
proof -
  have "length limbs' = length limbs \<and> (\<forall>k\<ge>n. limbs' ! k = limbs ! k) \<and>
      wv limbs' n + unat carry' * 4294967296 ^ n = wv limbs n + unat carry * 4294967296 ^ i"
    using assms
  proof (induction limbs n i carry rule: square_carry_loop.induct)
    case (1 limbs n i carry)
    show ?case
    proof (cases "carry \<noteq> 0 \<and> i < n")
      case True
      define z :: u64 where "z = ucast (limbs ! i) + ucast (ucast carry :: u32)"
      have rec: "square_carry_loop (limbs[i := ucast z]) n (i + 1) (drop_bit 32 carry + drop_bit 32 z) = (limbs', carry')"
        using "1.prems"(1) True by (simp add: square_carry_loop.simps [of limbs] Let_def z_def)
      note IH = "1.IH" [OF True z_def rec]
      have up: "wv (limbs[i := ucast z]) n + unat (limbs ! i) * 4294967296 ^ i = wv limbs n + unat (ucast z :: u32) * 4294967296 ^ i"
        using True "1.prems"(3) by (intro wv_update) auto
      from arg_cong [OF carry_step [of "limbs ! i" carry, folded z_def], of "\<lambda>v. v * 4294967296 ^ i"]
      show ?thesis using IH up True "1.prems"(2,3) by (simp add: algebra_simps)
    next
      case False
      then have "limbs' = limbs" "carry' = carry" "carry = 0 \<or> i = n"
        using "1.prems"(1,2) by (auto simp: square_carry_loop.simps [of limbs])
      then show ?thesis by auto
    qed
  qed
  then show "length limbs' = length limbs" "\<And>k. n \<le> k \<Longrightarrow> limbs' ! k = limbs ! k"
    "wv limbs' n + unat carry' * 4294967296 ^ n = wv limbs n + unat carry * 4294967296 ^ i" by auto
qed

lemma square_add_product_correct:
  assumes "i < n" "n \<le> length limbs" "wv limbs n + unat product * 4294967296 ^ i < 4294967296 ^ n"
  obtains z where "bignum_square_add_product limbs n i product = (True, z)" "length z = length limbs"
    "\<And>k. n \<le> k \<Longrightarrow> z ! k = limbs ! k" "wv z n = wv limbs n + unat product * 4294967296 ^ i"
proof -
  define w :: u64 where "w = ucast (limbs ! i) + ucast (ucast product :: u32)"
  let ?L = "limbs[i := ucast w]" and ?c = "drop_bit 32 product + drop_bit 32 w"
  obtain z c where loop: "square_carry_loop ?L n (i + 1) ?c = (z, c)" by (meson surj_pair)
  have "i + 1 \<le> n" "n \<le> length ?L" using assms by auto
  note l = square_carry_loop_correct [OF loop this]
  have "wv ?L n + unat (limbs ! i) * 4294967296 ^ i = wv limbs n + unat (ucast w :: u32) * 4294967296 ^ i"
    using assms by (intro wv_update) auto
  then have "wv z n + unat c * 4294967296 ^ n = wv limbs n + unat product * 4294967296 ^ i"
    using l(3) arg_cong [OF carry_step [of "limbs ! i" product, folded w_def], of "\<lambda>v. v * 4294967296 ^ i"]
    by (simp add: algebra_simps)
  note fin = no_carry [OF this assms(3)]
  have "bignum_square_add_product limbs n i product = (True, z)"
    using assms(1) loop fin(1) by (simp add: bignum_square_add_product_def Let_def w_def)
  then show ?thesis using that l(1,2) fin(2) assms(1) by simp
qed

lemma square_add_double_product_correct:
  assumes "i + 1 < n" "n \<le> length limbs" "wv limbs n + 2 * unat product * 4294967296 ^ i < 4294967296 ^ n"
  obtains z where "bignum_square_add_double_product limbs n i product = (True, z)" "length z = length limbs"
    "\<And>k. n \<le> k \<Longrightarrow> z ! k = limbs ! k" "wv z n = wv limbs n + 2 * unat product * 4294967296 ^ i"
proof -
  let ?B = "4294967296 :: nat"
  define lt :: u64 where "lt = push_bit 1 (ucast (ucast product :: u32))"
  define ht where "ht = drop_bit 32 product * 2 + drop_bit 32 lt"
  have lt: "unat lt = 2 * unat (ucast product :: u32)"
    unfolding lt_def unat_push_bit using unat_u32_less [of "ucast product"] by (subst mod_less) simp_all
  have "unat (drop_bit 32 product * 2) = 2 * unat (drop_bit 32 product)"
    using unat_high_less [of product] by (subst unat_mul_u64) simp_all
  then have ht: "unat ht = 2 * unat (drop_bit 32 product) + unat (drop_bit 32 lt)"
    unfolding ht_def using unat_high_less [of product] unat_high_less [of lt] by (subst unat_add_u64) simp_all
  have twice: "unat (ucast lt :: u32) + unat ht * ?B = 2 * unat product"
    using split_u64 [of lt] split_u64 [of product] lt ht by (simp add: algebra_simps)
  define s1 :: u64 where "s1 = ucast (limbs ! i) + ucast (ucast lt :: u32)"
  have s1: "unat s1 = unat (limbs ! i) + unat (ucast lt :: u32)"
    unfolding s1_def using unat_u32_less [of "limbs ! i"] unat_u32_less [of "ucast lt"] by (subst unat_add_u64) simp_all
  let ?L1 = "limbs[i := ucast s1]"
  define s2 :: u64 where "s2 = ucast (?L1 ! (i + 1)) + ucast (ucast ht :: u32) + drop_bit 32 s1"
  have s2: "unat s2 = unat (limbs ! (i + 1)) + unat (ucast ht :: u32) + unat (drop_bit 32 s1)"
    unfolding s2_def using unat_high_less [of s1] by (subst unat_add_carry) simp_all
  let ?L2 = "?L1[i + 1 := ucast s2]" and ?c = "drop_bit 32 ht + drop_bit 32 s2"
  have c: "unat ?c = unat (drop_bit 32 ht) + unat (drop_bit 32 s2)"
    using unat_high_less [of ht] unat_high_less [of s2] by (subst unat_add_u64) simp_all
  obtain z d where loop: "square_carry_loop ?L2 n (i + 2) ?c = (z, d)" by (meson surj_pair)
  have "i + 2 \<le> n" "n \<le> length ?L2" using assms by auto
  note l = square_carry_loop_correct [OF loop this]
  have u1: "wv ?L1 n + unat (limbs ! i) * ?B ^ i = wv limbs n + unat (ucast s1 :: u32) * ?B ^ i"
    using assms by (intro wv_update) auto
  have "wv ?L2 n + unat (?L1 ! (i + 1)) * ?B ^ (i + 1) = wv ?L1 n + unat (ucast s2 :: u32) * ?B ^ (i + 1)"
    using assms by (intro wv_update) auto
  then have u2: "wv ?L2 n + unat (limbs ! (i + 1)) * ?B ^ (i + 1) = wv ?L1 n + unat (ucast s2 :: u32) * ?B ^ (i + 1)"
    by simp
  have digits: "unat (ucast s1 :: u32) + unat (ucast s2 :: u32) * ?B + unat ?c * ?B * ?B =
      unat (limbs ! i) + unat (limbs ! (i + 1)) * ?B + 2 * unat product"
    using split_u64 [of s1] split_u64 [of s2] split_u64 [of ht] s1 s2 c twice by (simp add: algebra_simps)
  have "unat (ucast s1 :: u32) * ?B ^ i + unat (ucast s2 :: u32) * ?B ^ (i + 1) + unat ?c * ?B ^ (i + 2) =
      unat (limbs ! i) * ?B ^ i + unat (limbs ! (i + 1)) * ?B ^ (i + 1) + 2 * unat product * ?B ^ i"
    using arg_cong [OF digits, of "\<lambda>v. v * ?B ^ i"] by (simp add: algebra_simps power_add)
  then have "wv z n + unat d * ?B ^ n = wv limbs n + 2 * unat product * ?B ^ i"
    using l(3) u1 u2 by linarith
  note fin = no_carry [OF this assms(3)]
  have "bignum_square_add_double_product limbs n i product = (True, z)"
    using assms(1) loop fin(1)
    unfolding bignum_square_add_double_product_def Let_def lt_def [symmetric]
    unfolding ht_def [symmetric] s1_def [symmetric]
    unfolding s2_def [symmetric] by (simp add: numeral_2_eq_2)
  then show ?thesis using that l(1,2) fin(2) assms(1) by simp
qed

lemma square_loop_correct:
  assumes "2 * n \<le> length limbs" "wv limbs (2 * n) = 0"
  obtains z where "bignum_square_loop a n limbs = (True, z)" "length z = length limbs"
    "\<And>k. 2 * n \<le> k \<Longrightarrow> z ! k = limbs ! k" "wv z (2 * n) = wv a n * wv a n"
proof -
  let ?V = "wv a n" and ?B = "4294967296 :: nat"
  define T where "T = (\<lambda>i. ?V - wv a i)"
  have T: "T i = unat (a ! i) * ?B ^ i + T (Suc i)" if "i < n" for i
    using wv_mono [of "Suc i" n a] that by (simp add: T_def wv_Suc)
  have bound: "?V * ?V < ?B ^ (2 * n)"
    using mult_strict_mono [OF wv_bound [of a n] wv_bound [of a n]] by (simp add: mult_2 power_add)
  let ?in = "\<lambda>i j (ok, limbs). if \<not> ok then (ok, limbs)
    else bignum_square_add_double_product limbs (2 * n) (i + j) (ucast (a ! i) * ucast (a ! j))"
  let ?P = "\<lambda>i (ok, z). ok \<and> length z = length limbs \<and> (\<forall>k\<ge>2 * n. z ! k = limbs ! k) \<and>
    wv z (2 * n) + T i * T i = ?V * ?V"
  have "?P n (bignum_square_loop a n limbs)"
    unfolding bignum_square_loop_def
  proof (rule fold_upt_invariant [where P = "?P"])
    show "?P 0 (True, limbs)" using assms by (simp add: T_def)
  next
    fix i and s :: "bool \<times> u32 list"
    assume i: "i < n" and P: "?P i s"
    obtain z where s: "s = (True, z)" using P by (cases s) auto
    let ?x = "unat (a ! i)"
    have exp: "T i * T i = ?x * ?x * ?B ^ (2 * i) + 2 * ?x * ?B ^ i * T (Suc i) + T (Suc i) * T (Suc i)"
      unfolding T [OF i] mult_2 [of i] power_add by (simp add: algebra_simps)
    have xx: "unat (ucast (a ! i) * ucast (a ! i) :: u64) = ?x * ?x" by (rule unat_mul_u32)
    have "wv z (2 * n) + unat (ucast (a ! i) * ucast (a ! i) :: u64) * ?B ^ (2 * i) < ?B ^ (2 * n)"
      using P bound exp unfolding s xx by simp
    moreover have "2 * i < 2 * n" "2 * n \<le> length z" using i assms(1) P s by simp_all
    ultimately obtain y where y: "bignum_square_add_product z (2 * n) (2 * i) (ucast (a ! i) * ucast (a ! i)) = (True, y)"
      "length y = length limbs" "\<And>k. 2 * n \<le> k \<Longrightarrow> y ! k = limbs ! k" "wv y (2 * n) = wv z (2 * n) + ?x * ?x * ?B ^ (2 * i)"
      using square_add_product_correct [of "2 * i" "2 * n" z "ucast (a ! i) * ucast (a ! i)"] P s xx by auto
    let ?Q = "\<lambda>j (ok, z). ok \<and> length z = length limbs \<and> (\<forall>k\<ge>2 * n. z ! k = limbs ! k) \<and>
      wv z (2 * n) + 2 * ?x * ?B ^ i * T j + T (Suc i) * T (Suc i) = ?V * ?V"
    have "?Q n (fold (?in i) [i + 1..<n] (True, y))"
    proof (rule fold_upt_invariant [where P = "?Q"])
      show "?Q (i + 1) (True, y)" using y P exp s by simp
    next
      fix j and t :: "bool \<times> u32 list"
      assume j: "i + 1 \<le> j" "j < n" and Q: "?Q j t"
      obtain u where t: "t = (True, u)" using Q by (cases t) auto
      let ?y = "unat (a ! j)"
      have xy: "unat (ucast (a ! i) * ucast (a ! j) :: u64) = ?x * ?y" by (rule unat_mul_u32)
      have e: "2 * ?x * ?B ^ i * T j = 2 * (?x * ?y) * ?B ^ (i + j) + 2 * ?x * ?B ^ i * T (Suc j)"
        unfolding T [OF j(2)] by (simp add: algebra_simps power_add)
      have "wv u (2 * n) + 2 * unat (ucast (a ! i) * ucast (a ! j) :: u64) * ?B ^ (i + j) < ?B ^ (2 * n)"
        using Q bound e unfolding t xy by simp
      moreover have "i + j + 1 < 2 * n" "2 * n \<le> length u" using j i assms(1) Q t by simp_all
      ultimately obtain v where v: "bignum_square_add_double_product u (2 * n) (i + j) (ucast (a ! i) * ucast (a ! j)) = (True, v)"
        "length v = length limbs" "\<And>k. 2 * n \<le> k \<Longrightarrow> v ! k = limbs ! k"
        "wv v (2 * n) = wv u (2 * n) + 2 * (?x * ?y) * ?B ^ (i + j)"
        using square_add_double_product_correct [of "i + j" "2 * n" u "ucast (a ! i) * ucast (a ! j)"] Q t xy by auto
      show "?Q (Suc j) (?in i j t)" using v Q e by (simp add: t)
    qed (use i in simp)
    then show "?P (Suc i) (case s of (ok, limbs) \<Rightarrow> if \<not> ok then (ok, limbs)
        else fold (?in i) [i + 1..<n] (bignum_square_add_product limbs (2 * n) (2 * i) (ucast (a ! i) * ucast (a ! i))))"
      by (auto simp: s y(1) T_def)
  qed simp
  then show ?thesis using that by (cases "bignum_square_loop a n limbs") (auto simp: T_def)
qed

lemma square_noalias_correct:
  assumes "bn_ok out" "bn_fits a"
  shows "bn_res heap (\<lambda>r. bn_val r = bn_val a * bn_val a) (bignum_square_noalias heap out a)"
proof (cases "bn_LENGTH a = 0")
  case True
  then show ?thesis
    using assms stored_ok [of 0 out "bn_LENGTH out"] by (auto simp: bignum_square_noalias_def bn_res_def bn_ok_def bn_val_def)
next
  case False
  let ?n = "2 * bn_LENGTH a"
  have n: "?n < 4611686018427387904" "\<not> (2 ^ 64 - 1) div 2 < bn_LENGTH a" using assms by (auto simp: bn_fits_def)
  from n(1) show ?thesis
  proof (cases rule: reserve_cases [where heap = heap and a = out])
    case (fail heap')
    then show ?thesis using False n(2) assms(1) by (simp add: bignum_square_noalias_def bn_res_def)
  next
    case (ok k heap')
    define M where "M = copy_at (bn_LIMBS out @ replicate k 0) 0 (replicate ?n 0)"
    define L where "L = (if ?n < bn_LENGTH out then copy_at M ?n (replicate (bn_LENGTH out - ?n) 0) else M)"
    have L: "length L = bn_CAPACITY out + k" "\<And>j. j < bn_CAPACITY out + k \<Longrightarrow> L ! j = 0"
      using cleared_output(1,2) [OF assms(1) ok(2)] unfolding L_def M_def by blast+
    have "?n \<le> length L" "wv L ?n = 0" using L ok(2) by (auto simp: wv_def)
    from square_loop_correct [OF this, of "bn_LIMBS a"]
    obtain z where z: "bignum_square_loop (bn_LIMBS a) (bn_LENGTH a) L = (True, z)" "length z = length L"
      "\<And>k. ?n \<le> k \<Longrightarrow> z ! k = L ! k" "wv z ?n = bn_val a * bn_val a" by (auto simp: bn_val_def)
    have "bignum_square_noalias heap out a = (SUCCESS, bignum_normalize (out\<lparr>bn_LIMBS := z, bn_LENGTH := ?n\<rparr>), heap')"
      using False n(2) ok(1)
      by (simp add: bignum_square_noalias_def Let_def M_def [symmetric] L_def [symmetric] z(1) split del: if_split cong: if_cong)
    then show ?thesis
      using product_ok [of z "bn_CAPACITY out + k" ?n out] z L ok(2,3) by (simp add: bn_res_def)
  qed
qed

lemma square_correct:
  assumes "bn_ok out" "bn_fits a"
  shows "bn_res heap (\<lambda>r. bn_val r = bn_val a * bn_val a) (crypto_bignum_square heap same out a)"
  using square_noalias_correct [OF assms, of heap] square_noalias_correct [OF bn_init(1) assms(2), of heap] assms(1)
  by (auto simp: crypto_bignum_square_def bn_res_def split: prod.splits if_splits)

end
