(* ===== verification/Bignum_Mont.thy ===== *)
theory Bignum_Mont
  imports Bignum_Mod
begin

text \<open>
  Montgomery arithmetic: the shared core of \<^verbatim>\<open>bignum_montgomery.h\<close> (the word inverse, the setup
  constant \<open>R ^ 2\<close>, the interleaved product and reduction), the multiplications with a masked and
  with a branching final reduction, and the exponentiations of \<^verbatim>\<open>bignum_secure.c\<close>, whose
  schedule does not depend on the exponent. The context holds the width, the word inverse, the
  modulus and \<open>R ^ 2\<close>; its scratch words are overwritten by every multiplication and are local.
\<close>

section \<open>The Montgomery core\<close>

definition bignum_mont_n0inv :: "u32 \<Rightarrow> u32" where
  "bignum_mont_n0inv n0 = 0 - fold (\<lambda>_ x. x * (2 - n0 * x)) [0..<5] 1"

definition bignum_mont_compute_r2_words :: "heap \<Rightarrow> nat \<Rightarrow> LiberaCBignum \<Rightarrow> u32 list option \<times> heap" where
  "bignum_mont_compute_r2_words heap n modulus =
     (if n = 0 \<or> bn_LENGTH modulus \<noteq> n then (None, heap)
      else if ((2 ^ 64 - 1) - 1) div 2 < n then (None, heap)
      else let power_limbs = 2 * n + 1;
               (err, power, heap) = bignum_reserve heap crypto_bignum_init power_limbs
           in if err \<noteq> SUCCESS then (None, heap)
              else
                let power = power\<lparr>bn_LIMBS := (copy_at (bn_LIMBS power) 0 (replicate power_limbs 0))[2 * n := 1],
                                  bn_LENGTH := power_limbs\<rparr>;
                    (err, reduced, heap) = crypto_bignum_mod heap False crypto_bignum_init power modulus
                in if err \<noteq> SUCCESS \<or> n < bn_LENGTH reduced then (None, heap)
                   else (Some (copy_at (replicate n 0) 0 (take (bn_LENGTH reduced) (bn_LIMBS reduced))), heap))"

definition cios_multiply :: "u32 list \<Rightarrow> nat \<Rightarrow> u32 \<Rightarrow> nat \<Rightarrow> u32 list \<Rightarrow> u32 list \<times> u64" where
  "cios_multiply a a_length bi n work =
     fold (\<lambda>j (work, carry).
       let aj = (if j < a_length then a ! j else 0);
           z = ucast aj * ucast bi + ucast (work ! j) + carry :: u64
       in (work[j := ucast z], drop_bit 32 z)) [0..<n] (work, 0)"

definition cios_reduce :: "u32 \<Rightarrow> u32 list \<Rightarrow> nat \<Rightarrow> u64 \<Rightarrow> u32 list \<Rightarrow> u32 list \<times> u64" where
  "cios_reduce m modulus n carry work =
     fold (\<lambda>j (work, carry).
       let z = ucast (work ! j) + ucast m * ucast (modulus ! j) + carry :: u64
       in (work[j - 1 := ucast z], drop_bit 32 z)) [1..<n] (work, carry)"

definition cios_step ::
    "u32 list \<Rightarrow> nat \<Rightarrow> u32 list \<Rightarrow> nat \<Rightarrow> u32 list \<Rightarrow> nat \<Rightarrow> u32 \<Rightarrow> nat \<Rightarrow> u32 list \<Rightarrow> u32 list" where
  "cios_step a a_length b b_length modulus n n0inv i work =
     (let bi = (if i < b_length then b ! i else 0);
          (work, carry) = cios_multiply a a_length bi n work;
          z = ucast (work ! n) + carry :: u64;
          work = work[n := ucast z];
          work = work[n + 1 := ucast (drop_bit 32 z)];
          m = work ! 0 * n0inv;
          z = ucast (work ! 0) + ucast m * ucast (modulus ! 0) :: u64;
          (work, carry) = cios_reduce m modulus n (drop_bit 32 z) work;
          z = ucast (work ! n) + carry :: u64;
          work = work[n - 1 := ucast z];
          work = work[n := ucast (ucast (work ! (n + 1)) + drop_bit 32 z)]
      in work[n + 1 := 0])"

definition bignum_mont_cios_candidate ::
    "u32 list \<Rightarrow> nat \<Rightarrow> u32 list \<Rightarrow> nat \<Rightarrow> u32 list \<Rightarrow> nat \<Rightarrow> u32 \<Rightarrow> u32 list option" where
  "bignum_mont_cios_candidate a a_length b b_length modulus n n0inv =
     (if n = 0 \<or> n < a_length \<or> n < b_length then None
      else Some (fold (cios_step a a_length b b_length modulus n n0inv) [0..<n] (replicate (n + 2) 0)))"

section \<open>Multiplication with a masked reduction\<close>

record BignumMontCtx =
  mont_n :: nat
  mont_n0inv :: u32
  mont_mod :: "u32 list"
  mont_r2 :: "u32 list"

definition bignum_ct_mont_init :: "heap \<Rightarrow> LiberaCBignum \<Rightarrow> BignumMontCtx option \<times> heap" where
  "bignum_ct_mont_init heap modulus =
     (if bn_LENGTH modulus = 0 \<or> bn_LIMBS modulus ! 0 AND 1 = 0 then (None, heap)
      else if ((2 ^ 64 - 1) - 2) div 3 < bn_LENGTH modulus then (None, heap)
      else let n = bn_LENGTH modulus;
               n0inv = bignum_mont_n0inv (bn_LIMBS modulus ! 0);
               (ok, heap) = calloc_ok heap
           in if \<not> ok then (None, heap)
              else case bignum_mont_compute_r2_words heap n modulus of
                (None, heap) \<Rightarrow> (None, heap)
              | (Some r2, heap) \<Rightarrow>
                  (Some \<lparr>mont_n = n, mont_n0inv = n0inv, mont_mod = take n (bn_LIMBS modulus), mont_r2 = r2\<rparr>, heap))"

definition bignum_ct_select :: "u32 list \<Rightarrow> u32 list \<Rightarrow> nat \<Rightarrow> u32 \<Rightarrow> u32 list" where
  "bignum_ct_select zero_choice one_choice n b =
     (let mask = 0 - (b AND 1)
      in map (\<lambda>i. (zero_choice ! i AND NOT mask) OR (one_choice ! i AND mask)) [0..<n])"

definition bignum_ct_mont_mul :: "u32 list \<Rightarrow> u32 list \<Rightarrow> BignumMontCtx \<Rightarrow> u32 list option" where
  "bignum_ct_mont_mul a b ctx =
     (let n = mont_n ctx in
      case bignum_mont_cios_candidate a n b n (mont_mod ctx) n (mont_n0inv ctx) of
        None \<Rightarrow> None
      | Some t \<Rightarrow>
          let (out, borrow) = bignum_sub_loop (\<lambda>_. t) (\<lambda>_. mont_mod ctx) n n (replicate n 0);
              high = ucast (t ! n) :: u64;
              borrow = (if high < borrow then 1 else 0) :: u32;
              use_subtracted = borrow XOR 1;
              mask = 0 - use_subtracted
          in Some (map (\<lambda>i. (out ! i AND mask) OR (t ! i AND NOT mask)) [0..<n]))"

text \<open>The length of a fixed number of limbs, found without a branch on their values.\<close>

definition bignum_secret_length_fixed :: "u32 list \<Rightarrow> nat \<Rightarrow> u64" where
  "bignum_secret_length_fixed limbs fixed_limbs =
     fold (\<lambda>i len.
       let x = limbs ! i;
           nonzero = drop_bit 31 (x OR (0 - x));
           mask = 0 - ucast nonzero :: u64
       in (len AND NOT mask) OR (of_nat (i + 1) AND mask)) [0..<fixed_limbs] 0"

definition bignum_ct_store_fixed :: "heap \<Rightarrow> LiberaCBignum \<Rightarrow> u32 list \<Rightarrow> nat \<Rightarrow> status \<times> LiberaCBignum \<times> heap" where
  "bignum_ct_store_fixed heap out words n =
     (let (err, tmp, heap) = (if n \<noteq> 0 then bignum_reserve heap crypto_bignum_init n else (SUCCESS, crypto_bignum_init, heap))
      in if err \<noteq> SUCCESS then (ALLOCATION_FAILED, out, heap)
         else (SUCCESS, tmp\<lparr>bn_LIMBS := copy_at (bn_LIMBS tmp) 0 (take n words),
                            bn_LENGTH := unat (bignum_secret_length_fixed words n)\<rparr>, heap))"

section \<open>Exponentiation with a secret exponent\<close>

text \<open>
  A pass over one bit for one base: square, multiply, select. \<open>None\<close> is a failed
  multiplication.
\<close>

definition ct_exp_bit :: "BignumMontCtx \<Rightarrow> u32 list \<Rightarrow> u32 \<Rightarrow> u32 list \<Rightarrow> u32 list option" where
  "ct_exp_bit ctx base_m exponent_bit acc =
     (case bignum_ct_mont_mul acc acc ctx of
        None \<Rightarrow> None
      | Some square \<Rightarrow>
          (case bignum_ct_mont_mul square base_m ctx of
             None \<Rightarrow> None
           | Some product \<Rightarrow> Some (bignum_ct_select square product (mont_n ctx) exponent_bit)))"

definition ct_exp_loop :: "BignumMontCtx \<Rightarrow> u32 list \<Rightarrow> (u32 list \<times> u32 list) list \<Rightarrow> (u32 list \<times> u32 list) list option" where
  "ct_exp_loop ctx exponent states =
     fold (\<lambda>b states.
       let exponent_bit = drop_bit (b mod 32) (exponent ! (b div 32)) AND 1
       in Option.bind states (\<lambda>states.
            those (map (\<lambda>(base_m, acc). map_option (Pair base_m) (ct_exp_bit ctx base_m exponent_bit acc)) states)))
       (rev [0..<32 * mont_n ctx]) (Some states)"

text \<open>
  The fixed-width copy of a base, and the states before the scan: every base in Montgomery form
  and every accumulator the form of one.
\<close>

definition ct_load :: "nat \<Rightarrow> bool \<Rightarrow> LiberaCBignum \<Rightarrow> u32 list" where
  "ct_load n fixed base = copy_at (replicate n 0) 0 (take (if fixed then n else bn_LENGTH base) (bn_LIMBS base))"

definition ct_one :: "nat \<Rightarrow> u32 list" where
  "ct_one n = (replicate n 0)[0 := 1]"

definition ct_exp_start :: "BignumMontCtx \<Rightarrow> u32 list list \<Rightarrow> (u32 list \<times> u32 list) list option" where
  "ct_exp_start ctx bases =
     (case bignum_ct_mont_mul (ct_one (mont_n ctx)) (mont_r2 ctx) ctx of
        None \<Rightarrow> None
      | Some one_m \<Rightarrow>
          those (map (\<lambda>square. map_option (\<lambda>base_m. (base_m, one_m)) (bignum_ct_mont_mul square (mont_r2 ctx) ctx)) bases))"

definition bignum_mod_exp_ct_core ::
    "heap \<Rightarrow> LiberaCBignum \<Rightarrow> LiberaCBignum \<Rightarrow> (LiberaCBignum \<times> LiberaCBignum) option \<Rightarrow> LiberaCBignum \<Rightarrow> LiberaCBignum \<Rightarrow> bool \<Rightarrow>
     status \<times> LiberaCBignum \<times> LiberaCBignum option \<times> heap" where
  "bignum_mod_exp_ct_core heap out1 base1 second exponent modulus bases_are_fixed_and_reduced =
     (let out2 = map_option fst second;
          bases = base1 # (case second of None \<Rightarrow> [] | Some (_, base2) \<Rightarrow> [base2]) in
      if bn_LENGTH modulus = 0 \<or> bn_LIMBS modulus ! 0 AND 1 = 0 then (INVALID_ARGUMENT, out1, out2, heap)
      else let n = bn_LENGTH modulus; count = length bases in
        if bases_are_fixed_and_reduced \<and> (\<exists>base \<in> set bases. bn_CAPACITY base < n) then (INVALID_ARGUMENT, out1, out2, heap)
        else if \<not> bases_are_fixed_and_reduced \<and> (\<exists>base \<in> set bases. 0 \<le> crypto_bignum_compare base modulus)
        then (INVALID_ARGUMENT, out1, out2, heap)
        else if bn_CAPACITY exponent < n then (INVALID_ARGUMENT, out1, out2, heap)
        else if (2 ^ 64 - 1) div 32 < n \<or> (2 ^ 64 - 1) div (2 + 4 * count) < n then (MESSAGE_TOO_LARGE, out1, out2, heap)
        else case bignum_ct_mont_init heap modulus of
          (None, heap) \<Rightarrow> (ALLOCATION_FAILED, out1, out2, heap)
        | (Some ctx, heap) \<Rightarrow>
            let (ok, heap) = calloc_ok heap
            in if \<not> ok then (ALLOCATION_FAILED, out1, out2, heap)
               else case Option.bind (ct_exp_start ctx (map (ct_load n bases_are_fixed_and_reduced) bases))
                           (ct_exp_loop ctx (bn_LIMBS exponent)) of
                 None \<Rightarrow> (ARITHMETIC, out1, out2, heap)
               | Some states \<Rightarrow>
                   (case bignum_ct_mont_mul (snd (states ! 0)) (ct_one n) ctx of
                      None \<Rightarrow> (ARITHMETIC, out1, out2, heap)
                    | Some result1 \<Rightarrow>
                        let (err, out1, heap) = bignum_ct_store_fixed heap out1 result1 n
                        in if err \<noteq> SUCCESS then (err, out1, out2, heap)
                           else (case out2 of
                             None \<Rightarrow> (SUCCESS, out1, None, heap)
                           | Some o2 \<Rightarrow>
                               (case bignum_ct_mont_mul (snd (states ! 1)) (ct_one n) ctx of
                                  None \<Rightarrow> (ARITHMETIC, out1, out2, heap)
                                | Some result2 \<Rightarrow>
                                    let (err, o2, heap) = bignum_ct_store_fixed heap o2 result2 n
                                    in (err, out1, Some o2, heap)))))"

definition crypto_bignum_mod_exp_ct ::
    "heap \<Rightarrow> LiberaCBignum \<Rightarrow> LiberaCBignum \<Rightarrow> LiberaCBignum \<Rightarrow> LiberaCBignum \<Rightarrow> status \<times> LiberaCBignum \<times> heap" where
  "crypto_bignum_mod_exp_ct heap out base exponent modulus =
     (case bignum_mod_exp_ct_core heap out base None exponent modulus False of (err, out, _, heap) \<Rightarrow> (err, out, heap))"

definition crypto_bignum_mod_exp_ct_fixed_base ::
    "heap \<Rightarrow> LiberaCBignum \<Rightarrow> LiberaCBignum \<Rightarrow> LiberaCBignum \<Rightarrow> LiberaCBignum \<Rightarrow> status \<times> LiberaCBignum \<times> heap" where
  "crypto_bignum_mod_exp_ct_fixed_base heap out base exponent modulus =
     (case bignum_mod_exp_ct_core heap out base None exponent modulus True of (err, out, _, heap) \<Rightarrow> (err, out, heap))"

definition crypto_bignum_mod_exp2_ct ::
    "heap \<Rightarrow> LiberaCBignum \<Rightarrow> LiberaCBignum \<Rightarrow> LiberaCBignum \<Rightarrow> LiberaCBignum \<Rightarrow> bool \<Rightarrow> LiberaCBignum \<Rightarrow> LiberaCBignum \<Rightarrow>
     status \<times> LiberaCBignum \<times> LiberaCBignum \<times> heap" where
  "crypto_bignum_mod_exp2_ct heap out1 base1 out2 base2 same_outputs exponent modulus =
     (if same_outputs then (INVALID_ARGUMENT, out1, out2, heap)
      else case bignum_mod_exp_ct_core heap out1 base1 (Some (out2, base2)) exponent modulus False of
        (err, out1, o2, heap) \<Rightarrow> (err, out1, the o2, heap))"

section \<open>Public exponent, fixed base\<close>

definition public_exp_loop :: "BignumMontCtx \<Rightarrow> u32 list \<Rightarrow> LiberaCBignum \<Rightarrow> u32 list \<Rightarrow> u32 list option" where
  "public_exp_loop ctx base_m exponent acc =
     fold (\<lambda>b acc.
       Option.bind acc (\<lambda>acc.
         case bignum_ct_mont_mul acc acc ctx of
           None \<Rightarrow> None
         | Some acc \<Rightarrow> if bignum_get_bit exponent b then bignum_ct_mont_mul acc base_m ctx else Some acc))
       (rev [0..<crypto_bignum_bit_length exponent]) (Some acc)"

text \<open>The comparison of the whole width without an early exit: a final borrow means below.\<close>

definition fixed_width_borrow :: "u32 list \<Rightarrow> u32 list \<Rightarrow> nat \<Rightarrow> u64" where
  "fixed_width_borrow base modulus n =
     fold (\<lambda>i borrow.
       let subtrahend = ucast (modulus ! i) + borrow :: u64;
           minuend = ucast (base ! i)
       in if minuend < subtrahend then 1 else 0) [0..<n] 0"

definition crypto_bignum_mod_exp_public_fixed_base ::
    "heap \<Rightarrow> LiberaCBignum \<Rightarrow> LiberaCBignum \<Rightarrow> LiberaCBignum \<Rightarrow> LiberaCBignum \<Rightarrow> status \<times> LiberaCBignum \<times> heap" where
  "crypto_bignum_mod_exp_public_fixed_base heap out base exponent modulus =
     (if bn_LENGTH modulus = 0 \<or> bn_LENGTH exponent = 0 \<or> bn_LIMBS modulus ! 0 AND 1 = 0 then (INVALID_ARGUMENT, out, heap)
      else let n = bn_LENGTH modulus in
        if bn_CAPACITY base < n \<or> n < bn_LENGTH base \<or> (2 ^ 64 - 1) div 7 < n then (INVALID_ARGUMENT, out, heap)
        else
          if fixed_width_borrow (bn_LIMBS base) (bn_LIMBS modulus) n = 0 then (INVALID_ARGUMENT, out, heap)
          else case bignum_ct_mont_init heap modulus of
               (None, heap) \<Rightarrow> (ALLOCATION_FAILED, out, heap)
             | (Some ctx, heap) \<Rightarrow>
                 let (ok, heap) = calloc_ok heap
                 in if \<not> ok then (ALLOCATION_FAILED, out, heap)
                    else
                      let one = ct_one n; base_words = take n (bn_LIMBS base) in
                      case (bignum_ct_mont_mul one (mont_r2 ctx) ctx, bignum_ct_mont_mul base_words (mont_r2 ctx) ctx) of
                        (Some one_m, Some base_m) \<Rightarrow>
                          (case public_exp_loop ctx base_m exponent one_m of
                             None \<Rightarrow> (ARITHMETIC, out, heap)
                           | Some acc \<Rightarrow>
                               (case bignum_ct_mont_mul acc one ctx of
                                  None \<Rightarrow> (ARITHMETIC, out, heap)
                                | Some result \<Rightarrow> bignum_ct_store_fixed heap out result n))
                      | _ \<Rightarrow> (ARITHMETIC, out, heap))"

end
