(* ===== verification/Bignum_Vartime.thy ===== *)
theory Bignum_Vartime
  imports Bignum_Mont
begin

text \<open>
  Exponentiation on public values: the sliding-window method of \<^verbatim>\<open>bignum_vartime.c\<close> with its early
  identities, and the older generic exponentiation of \<^verbatim>\<open>bignum.c\<close> it falls back to for even
  moduli. A flag \<open>same\<close> says whether the output is the base; the other operands are read before the
  output is written.
\<close>

section \<open>Montgomery multiplication with an early exit\<close>

text \<open>The context and its initialisation are the code of \<^verbatim>\<open>bignum_secure.c\<close> under other names.\<close>

definition bignum_vt_mont_init :: "heap \<Rightarrow> LiberaCBignum \<Rightarrow> BignumMontCtx option \<times> heap" where
  "bignum_vt_mont_init heap modulus = bignum_ct_mont_init heap modulus"

fun vt_ge_loop :: "u32 list \<Rightarrow> u32 list \<Rightarrow> nat \<Rightarrow> bool" where
  "vt_ge_loop candidate modulus 0 = True"
| "vt_ge_loop candidate modulus (Suc i) =
     (if modulus ! i < candidate ! i then True
      else if candidate ! i < modulus ! i then False else vt_ge_loop candidate modulus i)"

definition bignum_vt_ge_mod :: "u32 list \<Rightarrow> BignumMontCtx \<Rightarrow> bool" where
  "bignum_vt_ge_mod candidate ctx =
     (if candidate ! mont_n ctx \<noteq> 0 then True else vt_ge_loop candidate (mont_mod ctx) (mont_n ctx))"

definition bignum_vt_mont_mul :: "u32 list \<Rightarrow> u32 list \<Rightarrow> BignumMontCtx \<Rightarrow> u32 list option" where
  "bignum_vt_mont_mul a b ctx =
     (let n = mont_n ctx in
      case bignum_mont_cios_candidate a n b n (mont_mod ctx) n (mont_n0inv ctx) of
        None \<Rightarrow> None
      | Some t \<Rightarrow>
          if bignum_vt_ge_mod t ctx then Some (fst (bignum_sub_loop (\<lambda>_. t) (\<lambda>_. mont_mod ctx) n n (replicate n 0)))
          else Some (take n t))"

section \<open>Windows\<close>

definition bignum_vt_window_bits :: "nat \<Rightarrow> nat" where
  "bignum_vt_window_bits exponent_bits =
     (if exponent_bits < 24 then 1 else if exponent_bits < 80 then 2 else if exponent_bits < 240 then 3
      else if exponent_bits < 672 then 4 else 5)"

definition bignum_vt_is_u32 :: "LiberaCBignum \<Rightarrow> u32 \<Rightarrow> bool" where
  "bignum_vt_is_u32 a expected =
     (if expected = 0 then bn_LENGTH a = 0 else bn_LENGTH a = 1 \<and> bn_LIMBS a ! 0 = expected)"

definition bignum_vt_store :: "heap \<Rightarrow> LiberaCBignum \<Rightarrow> u32 list \<Rightarrow> nat \<Rightarrow> status \<times> LiberaCBignum \<times> heap" where
  "bignum_vt_store heap out words n =
     (let len = bignum_words_length words n;
          (err, tmp, heap) = (if len \<noteq> 0 then bignum_reserve heap crypto_bignum_init len else (SUCCESS, crypto_bignum_init, heap))
      in if err \<noteq> SUCCESS then (ALLOCATION_FAILED, out, heap)
         else (SUCCESS, tmp\<lparr>bn_LIMBS := copy_at (bn_LIMBS tmp) 0 (take len words), bn_LENGTH := len\<rparr>, heap))"

text \<open>The odd powers of the base: entry \<open>k\<close> is the power \<open>2 k + 1\<close>.\<close>

definition vt_table :: "BignumMontCtx \<Rightarrow> u32 list \<Rightarrow> nat \<Rightarrow> u32 list list option" where
  "vt_table ctx base_m table_count =
     (if 1 < table_count then
        case bignum_vt_mont_mul base_m base_m ctx of
          None \<Rightarrow> None
        | Some base2 \<Rightarrow>
            fold (\<lambda>k table. Option.bind table (\<lambda>table.
              map_option (\<lambda>row. table @ [row]) (bignum_vt_mont_mul (table ! (k - 1)) base2 ctx))) [1..<table_count] (Some [base_m])
      else Some [base_m])"

text \<open>The low end of a window: zero bits below the top bit are left out.\<close>

function vt_trim :: "LiberaCBignum \<Rightarrow> nat \<Rightarrow> nat \<Rightarrow> nat" where
  "vt_trim exponent i low =
     (if low < i - 1 \<and> \<not> bignum_get_bit exponent low then vt_trim exponent i (low + 1) else low)"
  by pat_completeness auto
termination
  by (relation "measure (\<lambda>(exponent, i, low). i - low)") auto

declare vt_trim.simps [simp del]

definition vt_window_value :: "LiberaCBignum \<Rightarrow> nat \<Rightarrow> nat \<Rightarrow> u32" where
  "vt_window_value exponent low i =
     fold (\<lambda>j w. push_bit 1 w OR (if bignum_get_bit exponent j then 1 else 0)) (rev [low..<i]) 0"

definition vt_squarings :: "BignumMontCtx \<Rightarrow> nat \<Rightarrow> u32 list \<Rightarrow> u32 list option" where
  "vt_squarings ctx squarings acc =
     fold (\<lambda>_ acc. Option.bind acc (\<lambda>acc. bignum_vt_mont_mul acc acc ctx)) [0..<squarings] (Some acc)"

lemma window_bits_pos: "0 < bignum_vt_window_bits bits"
  by (simp add: bignum_vt_window_bits_def)

lemma vt_trim_less: "low < i \<Longrightarrow> vt_trim exponent i low < i"
proof (induction exponent i low rule: vt_trim.induct)
  case (1 exponent i low)
  then show ?case by (subst vt_trim.simps) auto
qed

text \<open>One pass of the main loop for each window or zero bit; \<open>i\<close> bits are left.\<close>

function vt_exp_loop ::
    "BignumMontCtx \<Rightarrow> u32 list list \<Rightarrow> LiberaCBignum \<Rightarrow> nat \<Rightarrow> nat \<Rightarrow> u32 list \<Rightarrow> u32 list option" where
  "vt_exp_loop ctx table exponent bits i acc =
     (if i = 0 then Some acc
      else if \<not> bignum_get_bit exponent (i - 1) then
        (case bignum_vt_mont_mul acc acc ctx of
           None \<Rightarrow> None
         | Some acc \<Rightarrow> vt_exp_loop ctx table exponent bits (i - 1) acc)
      else
        let window_bits = bignum_vt_window_bits bits;
            low = vt_trim exponent i (if window_bits < i then i - window_bits else 0);
            w = vt_window_value exponent low i;
            k = unat (drop_bit 1 (ucast w - 1 :: u64))
        in case vt_squarings ctx (i - low) acc of
             None \<Rightarrow> None
           | Some acc \<Rightarrow>
               if length table \<le> k then None
               else (case bignum_vt_mont_mul acc (table ! k) ctx of
                       None \<Rightarrow> None
                     | Some acc \<Rightarrow> vt_exp_loop ctx table exponent bits low acc))"
  by pat_completeness auto
termination
proof (relation "measure (\<lambda>(ctx, table, exponent, bits, i, acc). i)")
  fix ctx table exponent bits i acc window_bits low w k acc' acc''
  assume i: "i \<noteq> 0" and w: "window_bits = bignum_vt_window_bits bits" and low: "low = vt_trim exponent i (if window_bits < i then i - window_bits else 0)"
  have "(if window_bits < i then i - window_bits else 0) < i" using i window_bits_pos [of bits] by (simp add: w)
  then show "((ctx, table, exponent, bits, low, acc''), ctx, table, exponent, bits, i, acc) \<in> measure (\<lambda>(ctx, table, exponent, bits, i, acc). i)"
    by (simp add: low vt_trim_less)
qed simp_all

declare vt_exp_loop.simps [simp del]

section \<open>The generic exponentiation\<close>

text \<open>A product and its reduction, through a temporary.\<close>

definition mul_then_mod ::
    "heap \<Rightarrow> LiberaCBignum \<Rightarrow> LiberaCBignum \<Rightarrow> LiberaCBignum \<Rightarrow> LiberaCBignum \<Rightarrow> LiberaCBignum option \<times> heap" where
  "mul_then_mod heap out a b modulus =
     (let (rc, prod, heap) = crypto_bignum_mul heap False crypto_bignum_init a b in
      if rc \<noteq> SUCCESS then (None, heap)
      else let (rc, out, heap) = crypto_bignum_mod heap False out prod modulus
        in if rc \<noteq> SUCCESS then (None, heap) else (Some out, heap))"

definition mod_exp_even_step ::
    "LiberaCBignum \<Rightarrow> LiberaCBignum \<Rightarrow> nat \<Rightarrow> nat \<Rightarrow> (LiberaCBignum \<times> LiberaCBignum) option \<times> heap \<Rightarrow>
     (LiberaCBignum \<times> LiberaCBignum) option \<times> heap" where
  "mod_exp_even_step exponent modulus bits i s =
     (case s of
        (None, heap) \<Rightarrow> (None, heap)
      | (Some (result, b), heap) \<Rightarrow>
          let (r, heap) = (if bignum_get_bit exponent i then mul_then_mod heap result result b modulus else (Some result, heap))
          in (case r of
                None \<Rightarrow> (None, heap)
              | Some result \<Rightarrow>
                  let (r, heap) = (if i + 1 < bits then mul_then_mod heap b b b modulus else (Some b, heap))
                  in (map_option (Pair result) r, heap)))"

definition mod_exp_even ::
    "heap \<Rightarrow> LiberaCBignum \<Rightarrow> LiberaCBignum \<Rightarrow> LiberaCBignum \<Rightarrow> LiberaCBignum \<Rightarrow> status \<times> LiberaCBignum \<times> heap" where
  "mod_exp_even heap out base exponent modulus =
     (let (rc, result, heap) = crypto_bignum_set_u64 heap crypto_bignum_init 1 in
      if rc \<noteq> SUCCESS then (INVALID_ARGUMENT, out, heap)
      else let (rc, b, heap) = crypto_bignum_mod heap False crypto_bignum_init base modulus in
        if rc \<noteq> SUCCESS then (INVALID_ARGUMENT, out, heap)
        else let bits = crypto_bignum_bit_length exponent in
          case fold (mod_exp_even_step exponent modulus bits) [0..<bits] (Some (result, b), heap) of
            (None, heap) \<Rightarrow> (INVALID_ARGUMENT, out, heap)
          | (Some (result, b), heap) \<Rightarrow>
              let (rc, result, heap) = crypto_bignum_mod heap True result result modulus
              in if rc \<noteq> SUCCESS then (INVALID_ARGUMENT, out, heap) else (SUCCESS, result, heap))"

text \<open>The Montgomery arithmetic of the odd moduli, on objects rather than arrays of limbs.\<close>

record MONT_CTX =
  mctx_n :: nat
  mctx_n0inv :: u32
  mctx_mod :: LiberaCBignum
  mctx_r2 :: LiberaCBignum

definition mont_n0inv_fn :: "u32 \<Rightarrow> u32" where
  "mont_n0inv_fn n0 = 0 - fold (\<lambda>_ x. x * (2 - n0 * x)) [0..<5] 1"

definition mont_double :: "LiberaCBignum \<Rightarrow> LiberaCBignum option \<times> heap \<Rightarrow> LiberaCBignum option \<times> heap" where
  "mont_double modulus s =
     (case s of
        (None, heap) \<Rightarrow> (None, heap)
      | (Some x, heap) \<Rightarrow>
          let (rc, x, heap) = bignum_shift_left_one heap x in
          if rc \<noteq> SUCCESS then (None, heap)
          else if 0 \<le> crypto_bignum_compare x modulus then
            let (rc, tmp, heap) = crypto_bignum_sub heap False False crypto_bignum_init x modulus
            in if rc \<noteq> SUCCESS then (None, heap) else (Some tmp, heap)
          else (Some x, heap))"

definition mont_init :: "heap \<Rightarrow> LiberaCBignum \<Rightarrow> MONT_CTX option \<times> heap" where
  "mont_init heap modulus =
     (if bn_LENGTH modulus = 0 \<or> bn_LIMBS modulus ! 0 AND 1 = 0 then (None, heap)
      else let n = bn_LENGTH modulus; (ok, heap) = calloc_ok heap in
        if \<not> ok then (None, heap)
        else let (rc, m, heap) = crypto_bignum_copy heap False crypto_bignum_init modulus in
          if rc \<noteq> SUCCESS then (None, heap)
          else let (rc, x, heap) = crypto_bignum_set_u64 heap crypto_bignum_init 1 in
            if rc \<noteq> SUCCESS then (None, heap)
            else let rounds = 64 * n mod 2 ^ 64 in
              case ((mont_double modulus) ^^ rounds) (Some x, heap) of
                (None, heap) \<Rightarrow> (None, heap)
              | (Some x, heap) \<Rightarrow>
                  (Some \<lparr>mctx_n = n, mctx_n0inv = mont_n0inv_fn (bn_LIMBS modulus ! 0), mctx_mod = m, mctx_r2 = x\<rparr>, heap))"

text \<open>
  One limb of the second operand: both inner loops have the form of \<open>bignum_mul_row\<close>, the first
  that of \<open>cios_multiply\<close>; the shift by one limb is a loop of its own.
\<close>

definition mont_add_high :: "nat \<Rightarrow> u64 \<Rightarrow> u32 list \<Rightarrow> u32 list" where
  "mont_add_high n carry t =
     (let z = ucast (t ! n) + carry :: u64; t = t[n := ucast z]
      in t[n + 1 := t ! (n + 1) + ucast (drop_bit 32 z)])"

definition mont_mul_step :: "LiberaCBignum \<Rightarrow> LiberaCBignum \<Rightarrow> MONT_CTX \<Rightarrow> nat \<Rightarrow> u32 list \<Rightarrow> u32 list" where
  "mont_mul_step a b ctx i t =
     (let n = mctx_n ctx;
          bi = (if i < bn_LENGTH b then bn_LIMBS b ! i else 0);
          (t, carry) = cios_multiply (bn_LIMBS a) (bn_LENGTH a) bi n t;
          t = mont_add_high n carry t;
          m = t ! 0 * mctx_n0inv ctx;
          (t, carry) = bignum_mul_row m (bn_LIMBS (mctx_mod ctx)) n 0 t;
          t = mont_add_high n carry t;
          t = fold (\<lambda>j t. t[j := t ! (j + 1)]) [0..<n + 1] t
      in t[n + 1 := 0])"

definition mont_mul :: "heap \<Rightarrow> LiberaCBignum \<Rightarrow> LiberaCBignum \<Rightarrow> LiberaCBignum \<Rightarrow> MONT_CTX \<Rightarrow> status \<times> LiberaCBignum \<times> heap" where
  "mont_mul heap out a b ctx =
     (let n = mctx_n ctx;
          t = fold (mont_mul_step a b ctx) [0..<n] (replicate (n + 2) 0);
          (rc, r, heap) = bignum_reserve heap crypto_bignum_init (n + 1)
      in if rc \<noteq> SUCCESS then (INVALID_ARGUMENT, out, heap)
         else
           let r = bignum_normalize (r\<lparr>bn_LIMBS := copy_at (bn_LIMBS r) 0 (take (n + 1) t), bn_LENGTH := n + 1\<rparr>)
           in if 0 \<le> crypto_bignum_compare r (mctx_mod ctx) then
                let (rc, tmp, heap) = crypto_bignum_sub heap False False crypto_bignum_init r (mctx_mod ctx)
                in if rc \<noteq> SUCCESS then (INVALID_ARGUMENT, out, heap) else (SUCCESS, tmp, heap)
              else (SUCCESS, r, heap))"

definition mod_exp_odd_step ::
    "LiberaCBignum \<Rightarrow> LiberaCBignum \<Rightarrow> MONT_CTX \<Rightarrow> nat \<Rightarrow> LiberaCBignum option \<times> heap \<Rightarrow> LiberaCBignum option \<times> heap" where
  "mod_exp_odd_step base_m exponent ctx i s =
     (case s of
        (None, heap) \<Rightarrow> (None, heap)
      | (Some acc, heap) \<Rightarrow>
          let (rc, acc, heap) = mont_mul heap crypto_bignum_init acc acc ctx in
          if rc \<noteq> SUCCESS then (None, heap)
          else if bignum_get_bit exponent i then
            let (rc, acc, heap) = mont_mul heap crypto_bignum_init acc base_m ctx
            in if rc \<noteq> SUCCESS then (None, heap) else (Some acc, heap)
          else (Some acc, heap))"

definition mod_exp_odd ::
    "heap \<Rightarrow> LiberaCBignum \<Rightarrow> LiberaCBignum \<Rightarrow> LiberaCBignum \<Rightarrow> LiberaCBignum \<Rightarrow> status \<times> LiberaCBignum \<times> heap" where
  "mod_exp_odd heap out b exponent modulus =
     (case mont_init heap modulus of
        (None, heap) \<Rightarrow> (INVALID_ARGUMENT, out, heap)
      | (Some ctx, heap) \<Rightarrow>
          let (rc, base, heap) = crypto_bignum_mod heap False crypto_bignum_init b modulus in
          if rc \<noteq> SUCCESS then (INVALID_ARGUMENT, out, heap)
          else let (rc, one, heap) = crypto_bignum_set_u64 heap crypto_bignum_init 1 in
            if rc \<noteq> SUCCESS then (INVALID_ARGUMENT, out, heap)
            else let (rc, base_m, heap) = mont_mul heap crypto_bignum_init base (mctx_r2 ctx) ctx in
              if rc \<noteq> SUCCESS then (INVALID_ARGUMENT, out, heap)
              else let (rc, acc, heap) = mont_mul heap crypto_bignum_init one (mctx_r2 ctx) ctx in
                if rc \<noteq> SUCCESS then (INVALID_ARGUMENT, out, heap)
                else case fold (mod_exp_odd_step base_m exponent ctx) (rev [0..<crypto_bignum_bit_length exponent]) (Some acc, heap) of
                  (None, heap) \<Rightarrow> (INVALID_ARGUMENT, out, heap)
                | (Some acc, heap) \<Rightarrow>
                    let (rc, tmp, heap) = mont_mul heap crypto_bignum_init acc one ctx
                    in if rc \<noteq> SUCCESS then (INVALID_ARGUMENT, out, heap) else (SUCCESS, tmp, heap))"

definition crypto_bignum_mod_exp ::
    "heap \<Rightarrow> LiberaCBignum \<Rightarrow> LiberaCBignum \<Rightarrow> LiberaCBignum \<Rightarrow> LiberaCBignum \<Rightarrow> status \<times> LiberaCBignum \<times> heap" where
  "crypto_bignum_mod_exp heap out base exponent modulus =
     (if bn_LENGTH modulus = 0 then (INVALID_ARGUMENT, out, heap)
      else if bn_LIMBS modulus ! 0 AND 1 = 0 then mod_exp_even heap out base exponent modulus
      else mod_exp_odd heap out base exponent modulus)"

section \<open>The sliding-window exponentiation\<close>

text \<open>The Montgomery part, from the reduced base on: \<open>None\<close> is the arithmetic error.\<close>

definition vt_exp_words :: "BignumMontCtx \<Rightarrow> LiberaCBignum \<Rightarrow> LiberaCBignum \<Rightarrow> nat \<Rightarrow> nat \<Rightarrow> u32 list option" where
  "vt_exp_words ctx reduced exponent bits table_count =
     (let n = mont_n ctx; one = ct_one n;
          base_words = copy_at (replicate n 0) 0 (take (bn_LENGTH reduced) (bn_LIMBS reduced))
      in case bignum_vt_mont_mul one (mont_r2 ctx) ctx of
           None \<Rightarrow> None
         | Some one_m \<Rightarrow>
             (case bignum_vt_mont_mul base_words (mont_r2 ctx) ctx of
                None \<Rightarrow> None
              | Some base_m \<Rightarrow>
                  (case vt_table ctx base_m table_count of
                     None \<Rightarrow> None
                   | Some table \<Rightarrow>
                       Option.bind (vt_exp_loop ctx table exponent bits bits one_m) (\<lambda>acc. bignum_vt_mont_mul acc one ctx))))"

definition crypto_bignum_mod_exp_vartime ::
    "heap \<Rightarrow> bool \<Rightarrow> LiberaCBignum \<Rightarrow> LiberaCBignum \<Rightarrow> LiberaCBignum \<Rightarrow> LiberaCBignum \<Rightarrow> status \<times> LiberaCBignum \<times> heap" where
  "crypto_bignum_mod_exp_vartime heap same out base exponent modulus =
     (if bn_LENGTH modulus = 0 then (INVALID_ARGUMENT, out, heap)
      else if bignum_vt_is_u32 modulus 1 then (SUCCESS, crypto_bignum_init, heap)
      else if bn_LENGTH exponent = 0 then crypto_bignum_set_u64 heap out 1
      else if bignum_vt_is_u32 exponent 1 then crypto_bignum_mod heap same out base modulus
      else if bignum_vt_is_u32 exponent 2 then crypto_bignum_mod_square heap out base modulus
      else if bn_LIMBS modulus ! 0 AND 1 = 0 then crypto_bignum_mod_exp heap out base exponent modulus
      else
        let below = (crypto_bignum_compare base modulus < 0);
            (err, reduced, heap) =
              (if below then crypto_bignum_copy heap False crypto_bignum_init base
               else crypto_bignum_mod heap False crypto_bignum_init base modulus)
        in if err \<noteq> SUCCESS then (if below then ALLOCATION_FAILED else ARITHMETIC, out, heap)
           else if bn_LENGTH reduced = 0 then (SUCCESS, reduced, heap)
           else if bignum_vt_is_u32 reduced 1 then crypto_bignum_set_u64 heap out 1
           else
             let bits = crypto_bignum_bit_length exponent;
                 table_count = 2 ^ (bignum_vt_window_bits bits - 1);
                 n = bn_LENGTH modulus
             in if (2 ^ 64 - 1) div (8 + table_count) < n then (MESSAGE_TOO_LARGE, out, heap)
                else case bignum_vt_mont_init heap modulus of
                  (None, heap) \<Rightarrow> (ALLOCATION_FAILED, out, heap)
                | (Some ctx, heap) \<Rightarrow>
                    let (ok, heap) = calloc_ok heap
                    in if \<not> ok then (ALLOCATION_FAILED, out, heap)
                       else (case vt_exp_words ctx reduced exponent bits table_count of
                               None \<Rightarrow> (ARITHMETIC, out, heap)
                             | Some result \<Rightarrow> bignum_vt_store heap out result n))"

end
