(* ===== verification/Bignum_Bytes.thy ===== *)
theory Bignum_Bytes
  imports Bignum_Correct
begin

text \<open>
  Bits and bytes of a multi-precision integer: the bit and byte lengths, the byte-string
  conversions in both orders and their round trips.
\<close>

section \<open>Bit length\<close>

lemma top_limb_bits_bounds:
  "unat w < 2 ^ top_limb_bits w" "w \<noteq> 0 \<Longrightarrow> 0 < top_limb_bits w \<and> 2 ^ (top_limb_bits w - 1) \<le> unat w"
proof -
  have "unat w < 2 ^ top_limb_bits w \<and> (w \<noteq> 0 \<longrightarrow> 0 < top_limb_bits w \<and> 2 ^ (top_limb_bits w - 1) \<le> unat w)"
  proof (induction w rule: top_limb_bits.induct)
    case (1 w)
    show ?case
    proof (cases "w = 0")
      case True
      then show ?thesis by (simp add: top_limb_bits.simps)
    next
      case False
      let ?h = "drop_bit 1 w"
      have h: "unat ?h = unat w div 2" by (simp add: unat_drop_bit)
      have IH: "unat ?h < 2 ^ top_limb_bits ?h" "?h \<noteq> 0 \<Longrightarrow> 0 < top_limb_bits ?h \<and> 2 ^ (top_limb_bits ?h - 1) \<le> unat ?h"
        using 1 [OF False] by auto
      have t: "top_limb_bits w = Suc (top_limb_bits ?h)" using False by (simp add: top_limb_bits.simps [of w])
      have "2 ^ top_limb_bits ?h \<le> unat w"
      proof (cases "?h = 0")
        case True
        have "top_limb_bits ?h = 0" unfolding True by (simp add: top_limb_bits.simps)
        then show ?thesis using False by (simp add: Suc_le_eq unat_gt_0)
      next
        case hi: False
        then have "2 ^ top_limb_bits ?h = 2 * (2 :: nat) ^ (top_limb_bits ?h - 1)"
          using IH(2) by (cases "top_limb_bits ?h") auto
        then show ?thesis using IH(2) [OF hi] h by linarith
      qed
      then show ?thesis using IH(1) h t by auto
    qed
  qed
  then show "unat w < 2 ^ top_limb_bits w" "w \<noteq> 0 \<Longrightarrow> 0 < top_limb_bits w \<and> 2 ^ (top_limb_bits w - 1) \<le> unat w"
    by blast+
qed

lemma pow_4294967296: "(4294967296 :: nat) ^ n = 2 ^ (32 * n)"
  by (simp add: power_mult)

lemma bit_length_bounds:
  assumes "bn_ok a"
  shows "bn_val a < 2 ^ crypto_bignum_bit_length a"
    "0 < bn_val a \<Longrightarrow> 0 < crypto_bignum_bit_length a \<and> 2 ^ (crypto_bignum_bit_length a - 1) \<le> bn_val a"
proof -
  let ?n = "bn_LENGTH a" and ?w = "bn_LIMBS a ! (bn_LENGTH a - 1)"
  have "bn_val a < 2 ^ crypto_bignum_bit_length a \<and>
      (0 < bn_val a \<longrightarrow> 0 < crypto_bignum_bit_length a \<and> 2 ^ (crypto_bignum_bit_length a - 1) \<le> bn_val a)"
  proof (cases "?n = 0")
    case True
    then show ?thesis by (simp add: bn_val_def crypto_bignum_bit_length_def)
  next
    case False
    have w: "?w \<noteq> 0" using False assms by (simp add: bn_ok_def)
    note t = top_limb_bits_bounds(1) [of ?w] top_limb_bits_bounds(2) [OF w]
    have v: "bn_val a = wv (bn_LIMBS a) (?n - 1) + unat ?w * 2 ^ (32 * (?n - 1))"
      using False wv_Suc [of "bn_LIMBS a" "?n - 1"] by (simp add: bn_val_def pow_4294967296)
    have low: "wv (bn_LIMBS a) (?n - 1) < 2 ^ (32 * (?n - 1))"
      using wv_bound [of "bn_LIMBS a" "?n - 1"] by (simp add: pow_4294967296)
    have l: "crypto_bignum_bit_length a = 32 * (?n - 1) + top_limb_bits ?w"
      using False by (simp add: crypto_bignum_bit_length_def)
    have "bn_val a < (unat ?w + 1) * 2 ^ (32 * (?n - 1))" unfolding v using low by simp
    also have "\<dots> \<le> 2 ^ top_limb_bits ?w * 2 ^ (32 * (?n - 1))" using t(1) by (intro mult_le_mono1) simp
    finally have up: "bn_val a < 2 ^ crypto_bignum_bit_length a" unfolding l by (simp add: power_add mult.commute)
    have "2 ^ (crypto_bignum_bit_length a - 1) = 2 ^ (top_limb_bits ?w - 1) * (2 :: nat) ^ (32 * (?n - 1))"
      unfolding l using t(2) by (simp add: power_add [symmetric])
    also have "\<dots> \<le> unat ?w * 2 ^ (32 * (?n - 1))" using t(2) by (intro mult_le_mono1) simp
    also have "\<dots> \<le> bn_val a" unfolding v by simp
    finally show ?thesis using up t(2) l by simp
  qed
  then show "bn_val a < 2 ^ crypto_bignum_bit_length a"
    "0 < bn_val a \<Longrightarrow> 0 < crypto_bignum_bit_length a \<and> 2 ^ (crypto_bignum_bit_length a - 1) \<le> bn_val a" by blast+
qed

lemma bit_length_le: "bn_ok a \<Longrightarrow> crypto_bignum_bit_length a \<le> k \<longleftrightarrow> bn_val a < 2 ^ k"
proof
  assume a: "bn_ok a" "crypto_bignum_bit_length a \<le> k"
  then have "(2 :: nat) ^ crypto_bignum_bit_length a \<le> 2 ^ k" by (intro power_increasing) auto
  then show "bn_val a < 2 ^ k" using bit_length_bounds(1) [OF a(1)] by linarith
next
  assume a: "bn_ok a" "bn_val a < 2 ^ k"
  show "crypto_bignum_bit_length a \<le> k"
  proof (rule ccontr)
    assume k: "\<not> crypto_bignum_bit_length a \<le> k"
    show False
    proof (cases "bn_val a = 0")
      case True
      then show False using k bn_LENGTH_0 [OF a(1)] by (simp add: crypto_bignum_bit_length_def)
    next
      case False
      have "(2 :: nat) ^ k \<le> 2 ^ (crypto_bignum_bit_length a - 1)" using k by (intro power_increasing) auto
      then have "(2 :: nat) ^ k \<le> bn_val a" using bit_length_bounds(2) [OF a(1)] False by (meson le_trans neq0_conv)
      then show False using a(2) by simp
    qed
  qed
qed

lemma byte_length_le: "bn_ok a \<Longrightarrow> crypto_bignum_byte_length a \<le> k \<longleftrightarrow> bn_val a < 256 ^ k"
proof -
  have "crypto_bignum_byte_length a \<le> k \<longleftrightarrow> crypto_bignum_bit_length a \<le> 8 * k"
    unfolding crypto_bignum_byte_length_def by linarith
  then show "bn_ok a \<Longrightarrow> ?thesis" by (simp add: bit_length_le power_mult)
qed

section \<open>Single bits and bytes\<close>

lemma wv_div:
  assumes "k < n"
  shows "wv xs n div 4294967296 ^ k mod 4294967296 = unat (xs ! k)"
proof -
  have "wv xs n div 4294967296 ^ k mod 4294967296 = wv xs n mod (4294967296 ^ k * 4294967296) div 4294967296 ^ k"
    by (simp only: mod_mult2_eq) simp
  also have "wv xs n mod (4294967296 ^ k * 4294967296) = wv xs (Suc k)"
    using wv_mod [of "Suc k" n xs] assms by (simp only: power_Suc2)
  also have "wv xs (Suc k) div 4294967296 ^ k = unat (xs ! k)" using wv_bound [of xs k] by (simp add: wv_Suc)
  finally show ?thesis .
qed

text \<open>Cutting a number of the limb radix into smaller digits.\<close>

lemma limb_digits:
  assumes "k < n" and "r < d" and "d * e = 32"
  shows "wv xs n div 2 ^ (32 * k + e * r) mod 2 ^ e = unat (xs ! k) div 2 ^ (e * r) mod 2 ^ e"
proof -
  have "wv xs n div 2 ^ (32 * k + e * r) = wv xs n div 4294967296 ^ k div 2 ^ (e * r)"
    by (simp add: power_add div_mult2_eq pow_4294967296)
  moreover have "x div 2 ^ (e * r) mod 2 ^ e = (x mod 4294967296) div 2 ^ (e * r) mod 2 ^ e" for x :: nat
  proof -
    have "e * r + e \<le> 32" using assms(2) mult_le_mono1 [of "Suc r" d e] assms(3) by (simp add: mult.commute)
    then obtain t where t: "32 = e * r + e + t" using le_Suc_ex by blast
    have "(4294967296 :: nat) = 2 ^ 32" by simp
    also have "\<dots> = 2 ^ (e * r) * (2 ^ e * 2 ^ t)" by (subst t) (simp add: power_add)
    finally have "x mod 4294967296 = 2 ^ (e * r) * (x div 2 ^ (e * r) mod (2 ^ e * 2 ^ t)) + x mod 2 ^ (e * r)"
      by (simp only: mod_mult2_eq)
    then have "(x mod 4294967296) div 2 ^ (e * r) = x div 2 ^ (e * r) mod (2 ^ e * 2 ^ t)" by simp
    then show ?thesis by (simp add: mod_mod_cancel)
  qed
  ultimately show ?thesis unfolding wv_div [OF assms(1), of xs, symmetric] by simp
qed

lemma limb_byte:
  assumes "i < 4 * n"
  shows "ucast (drop_bit (8 * (i mod 4)) (xs ! (i div 4))) = (of_nat (wv xs n div 256 ^ i) :: byte)"
proof -
  have "wv xs n div 2 ^ (32 * (i div 4) + 8 * (i mod 4)) mod 2 ^ 8 = unat (xs ! (i div 4)) div 2 ^ (8 * (i mod 4)) mod 2 ^ 8"
    using assms by (intro limb_digits [where d = 4]) auto
  moreover have "32 * (i div 4) + 8 * (i mod 4) = 8 * i" using mult_div_mod_eq [of 4 i] by linarith
  ultimately have "wv xs n div 256 ^ i mod 256 = unat (drop_bit (8 * (i mod 4)) (xs ! (i div 4))) mod 256"
    by (simp add: unat_drop_bit power_mult)
  then show ?thesis unfolding word_unat_eq_iff by (simp add: unat_ucast)
qed

lemma limb_bit:
  assumes "i div 32 < n"
  shows "drop_bit (i mod 32) (xs ! (i div 32)) AND 1 = (if odd (wv xs n div 2 ^ i) then 1 else 0 :: u32)"
proof -
  let ?w = "drop_bit (i mod 32) (xs ! (i div 32))"
  have "wv xs n div 2 ^ (32 * (i div 32) + 1 * (i mod 32)) mod 2 ^ 1 = unat (xs ! (i div 32)) div 2 ^ (1 * (i mod 32)) mod 2 ^ 1"
    by (rule limb_digits [where d = 32, OF assms]) auto
  then have "unat (?w AND 1) = wv xs n div 2 ^ i mod 2" by (simp add: unat_drop_bit and_one_eq unat_mod)
  then show ?thesis by (cases "odd (wv xs n div 2 ^ i)") (simp_all add: word_unat_eq_iff odd_iff_mod_2_eq_one)
qed

lemma get_bit_correct:
  assumes "bn_ok a"
  shows "bignum_get_bit a i \<longleftrightarrow> odd (bn_val a div 2 ^ i)"
proof (cases "i div 32 < bn_LENGTH a")
  case True
  then show ?thesis using limb_bit [OF True, of "bn_LIMBS a"] by (simp add: bignum_get_bit_def bn_val_def)
next
  case False
  then have "32 * bn_LENGTH a \<le> i" by linarith
  then have "(2 :: nat) ^ (32 * bn_LENGTH a) \<le> 2 ^ i" by (intro power_increasing) auto
  then have "bn_val a < 2 ^ i" using bn_val_bound [of a] unfolding pow_4294967296 by linarith
  then show ?thesis using False by (simp add: bignum_get_bit_def)
qed

section \<open>Bytes out\<close>

lemma to_bytes_loop:
  fixes f :: "nat \<Rightarrow> byte"
  assumes "need \<le> n"
  shows "fold (\<lambda>i out. out[(if be then n - 1 - i else i) := f i]) [0..<need] (zeroes n) =
    (if be then rev else id) (map (\<lambda>i. if i < need then f i else 0) [0..<n])"
proof -
  let ?at = "\<lambda>i. if be then n - 1 - i else i"
  let ?P = "\<lambda>m out. length out = n \<and> (\<forall>j<n. out ! ?at j = (if j < m then f j else 0))"
  have P: "?P need (fold (\<lambda>i out. out[?at i := f i]) [0..<need] (zeroes n))"
  proof (rule fold_upt_invariant [where P = "?P"])
    show "?P 0 (zeroes n)" by simp
  next
    fix i and out :: "byte list"
    assume i: "i < need" and P: "?P i out"
    show "?P (Suc i) (out[?at i := f i])"
    proof (intro conjI allI impI)
      show "length (out[?at i := f i]) = n" using P by simp
      fix j assume j: "j < n"
      show "out[?at i := f i] ! ?at j = (if j < Suc i then f j else 0)"
      proof (cases "j = i")
        case True
        then show ?thesis using P j by simp
      next
        case False
        then have "?at i \<noteq> ?at j" using i j assms by (cases be) simp_all
        then show ?thesis using P j False by (simp add: less_Suc_eq)
      qed
    qed
  qed simp
  define L where "L = fold (\<lambda>i out. out[?at i := f i]) [0..<need] (zeroes n)"
  have L: "length L = n" "\<And>j. j < n \<Longrightarrow> L ! ?at j = (if j < need then f j else 0)" using P by (simp_all add: L_def)
  show ?thesis
  proof (cases be)
    case False
    have "L ! j = map (\<lambda>i. if i < need then f i else 0) [0..<n] ! j" if "j < n" for j
      using L(2) [OF that] False that by simp
    then show ?thesis using L(1) False unfolding L_def [symmetric] by (simp add: list_eq_iff_nth_eq)
  next
    case True
    have "L ! j = rev (map (\<lambda>i. if i < need then f i else 0) [0..<n]) ! j" if j: "j < n" for j
    proof -
      have "n - 1 - (n - 1 - j) = j" "n - 1 - j < n" using j by simp_all
      then show ?thesis using L(2) [of "n - 1 - j"] True j by (simp add: rev_nth)
    qed
    then show ?thesis using L(1) True unfolding L_def [symmetric] by (simp add: list_eq_iff_nth_eq)
  qed
qed

text \<open>
  Writing an integer: the buffer is too small exactly if the number does not fit, and otherwise
  receives the number in the chosen order, padded with zeroes.
\<close>

lemma to_bytes_correct:
  assumes "bn_ok a"
  shows "bignum_to_bytes be a out_null n =
    (if out_null \<and> n \<noteq> 0 then (INVALID_ARGUMENT, [])
     else if 256 ^ n \<le> bn_val a then (BUFFER_TOO_SMALL, [])
     else (SUCCESS, (if be then be_of_nat else le_of_nat) n (bn_val a)))"
proof (cases "256 ^ n \<le> bn_val a")
  case True
  then have "n < crypto_bignum_byte_length a" using byte_length_le [OF assms, of n] by linarith
  then show ?thesis using True by (auto simp: bignum_to_bytes_def)
next
  case False
  define need where "need = crypto_bignum_byte_length a"
  have need: "need \<le> n" using byte_length_le [OF assms, of n] False by (simp add: need_def)
  have "bn_val a < 256 ^ (4 * bn_LENGTH a)"
    using bn_val_bound [of a] by (simp add: power_mult)
  then have n4: "need \<le> 4 * bn_LENGTH a" using byte_length_le [OF assms] by (simp add: need_def)
  have byte: "(if i < need then ucast (drop_bit (8 * (i mod 4)) (bn_LIMBS a ! (i div 4))) else 0) = (of_nat (bn_val a div 256 ^ i) :: byte)"
    for i
  proof (cases "i < need")
    case True
    then show ?thesis using limb_byte [of i "bn_LENGTH a" "bn_LIMBS a"] n4 by (simp add: bn_val_def)
  next
    case False
    then have "bn_val a < 256 ^ i" using byte_length_le [OF assms, of i] by (simp add: need_def)
    then show ?thesis using False by simp
  qed
  have "le_of_nat n (bn_val a) = map (\<lambda>i. of_nat (bn_val a div 256 ^ i)) [0..<n]"
    by (rule nth_equalityI) (simp_all add: nth_le_of_nat)
  then show ?thesis
    using False need to_bytes_loop [OF need, of be "\<lambda>i. ucast (drop_bit (8 * (i mod 4)) (bn_LIMBS a ! (i div 4)))"]
    unfolding bignum_to_bytes_def need_def [symmetric] Let_def
    by (auto simp: byte be_of_nat_def)
qed

section \<open>Bytes in\<close>

lemma sum_bytes_bound: "(\<Sum>j<i. unat (f j :: byte) * 256 ^ j) < 256 ^ i"
proof (induction i)
  case (Suc i)
  have "unat (f i) * 256 ^ i \<le> 255 * 256 ^ i" using unat_byte_less [of "f i"] by (intro mult_le_mono1) simp
  then show ?case using Suc unfolding sum.lessThan_Suc power_Suc by linarith
qed simp

lemma nat_of_le_sum: "nat_of_le bs = (\<Sum>j<length bs. unat (bs ! j) * 256 ^ j)"
  by (induction bs) (simp_all add: sum.lessThan_Suc_shift sum_distrib_left algebra_simps del: sum.lessThan_Suc)

text \<open>One byte is stored into a limb whose higher bytes are still zero.\<close>

lemma store_byte:
  assumes "unat (w :: u32) < 2 ^ (8 * r)" "r < 4"
  shows "unat (w OR push_bit (8 * r) (ucast (b :: byte))) = unat w + unat b * 256 ^ r"
proof -
  have "unat b * 2 ^ (8 * r) \<le> 255 * 2 ^ (8 * r)" using unat_byte_less [of b] by (intro mult_le_mono1) simp
  also have "\<dots> < 2 ^ (8 * r + 8)" by (simp add: power_add)
  also have "\<dots> \<le> 2 ^ 32" using assms(2) by (intro power_increasing) auto
  finally have b: "unat b * 2 ^ (8 * r) < 2 ^ 32" .
  have c: "unat (ucast b :: u32) = unat b"
    using unat_byte_less [of b] by (simp add: unat_ucast)
  have "unat (w OR push_bit (8 * r) (ucast b)) = unat w + unat (ucast b :: u32) * 2 ^ (8 * r)"
    using assms b c by (intro unat_join) auto
  then show ?thesis using c by (simp add: power_mult)
qed

lemma from_bytes_loop:
  assumes "n \<le> 4 * m" "m \<le> length limbs" "\<And>j. j < length limbs \<Longrightarrow> limbs ! j = 0"
  shows "length (limbs_from_bytes f n limbs) = length limbs"
    "wv (limbs_from_bytes f n limbs) m = (\<Sum>j<n. unat (f j) * 256 ^ j)"
    "\<And>j. m \<le> j \<Longrightarrow> j < length limbs \<Longrightarrow> limbs_from_bytes f n limbs ! j = 0"
proof -
  let ?P = "\<lambda>i out. length out = length limbs \<and> wv out m = (\<Sum>j<i. unat (f j) * 256 ^ j) \<and>
    (\<forall>j. m \<le> j \<and> j < length limbs \<longrightarrow> out ! j = 0)"
  have "?P n (limbs_from_bytes f n limbs)"
    unfolding limbs_from_bytes_def
  proof (rule fold_upt_invariant [where P = "?P"])
    have "wv limbs m = 0" using assms by (simp add: wv_def)
    then show "?P 0 limbs" using assms by auto
  next
    fix i and out :: "u32 list"
    assume i: "i < n" and P: "?P i out"
    let ?k = "i div 4" and ?r = "i mod 4"
    have k: "?k < m" "?k < length out" using i assms P by auto
    have pow: "(256 :: nat) ^ i = 4294967296 ^ ?k * 256 ^ ?r"
    proof -
      have "(256 :: nat) ^ i = 256 ^ (4 * ?k + ?r)" by simp
      also have "\<dots> = 4294967296 ^ ?k * 256 ^ ?r" unfolding power_add power_mult by simp
      finally show ?thesis .
    qed
    have "unat (out ! ?k) * 4294967296 ^ ?k \<le> wv out (Suc ?k)" by (simp add: wv_Suc)
    also have "\<dots> \<le> wv out m" using k by (intro wv_mono) simp
    also have "\<dots> < 4294967296 ^ ?k * 256 ^ ?r" using P sum_bytes_bound [of f i] pow by simp
    finally have "unat (out ! ?k) < 256 ^ ?r" by (simp add: mult.commute)
    then have "unat (out ! ?k) < 2 ^ (8 * ?r)" by (simp add: power_mult)
    note st = store_byte [OF this, of "f i"]
    have "wv (out[?k := out ! ?k OR push_bit (8 * ?r) (ucast (f i))]) m = wv out m + unat (f i) * 256 ^ i"
      using wv_update [OF k, of "out ! ?k OR push_bit (8 * ?r) (ucast (f i))"] st
      unfolding pow by (simp add: algebra_simps)
    then show "?P (Suc i) (out[?k := out ! ?k OR push_bit (8 * ?r) (ucast (f i))])"
      using P k by simp
  qed simp
  then show "length (limbs_from_bytes f n limbs) = length limbs"
    "wv (limbs_from_bytes f n limbs) m = (\<Sum>j<n. unat (f j) * 256 ^ j)"
    "\<And>j. m \<le> j \<Longrightarrow> j < length limbs \<Longrightarrow> limbs_from_bytes f n limbs ! j = 0" by blast+
qed

lemma from_bytes_correct:
  assumes "bn_ok out" "case bytes of None \<Rightarrow> n = 0 | Some bs \<Rightarrow> length bs = n" "n < 2305843009213693952"
  shows "bn_res heap (\<lambda>r. bn_val r = (case bytes of None \<Rightarrow> 0 | Some bs \<Rightarrow> (if be then nat_of_be else nat_of_le) bs))
    (bignum_from_bytes be heap out bytes n)"
proof -
  define m where "m = (n + 3) div 4"
  have g: "\<not> (bytes = None \<and> n \<noteq> 0)" "\<not> (2 ^ 64 - 1) div 8 < n" using assms by (auto split: option.splits)
  have m: "m < 4611686018427387904" "n \<le> 4 * m" using assms(3) by (auto simp: m_def)
  from m(1) show ?thesis
  proof (cases rule: reserve_cases [where heap = heap and a = out])
    case (fail heap')
    have "bignum_from_bytes be heap out bytes n = (ALLOCATION_FAILED, out, heap')"
      unfolding bignum_from_bytes_def if_not_P [OF g(1)] if_not_P [OF g(2)] m_def [symmetric] Let_def fail(1) by simp
    then show ?thesis using fail assms(1) by (simp add: bn_res_def)
  next
    case (ok k heap')
    define f where "f = (\<lambda>i. the bytes ! (if be then n - 1 - i else i))"
    let ?o = "out\<lparr>bn_LIMBS := bn_LIMBS out @ replicate k 0\<rparr>"
    define L where "L = limbs_from_bytes f n (replicate (bn_CAPACITY ?o) 0)"
    have ml: "m \<le> length (replicate (bn_CAPACITY ?o) (0 :: u32))" using ok(2) by simp
    note L = from_bytes_loop [OF m(2) ml, where f = f, folded L_def, simplified]
    have call: "bignum_from_bytes be heap out bytes n = (SUCCESS, bignum_normalize (?o\<lparr>bn_LIMBS := L, bn_LENGTH := m\<rparr>), heap')"
      unfolding bignum_from_bytes_def if_not_P [OF g(1)] if_not_P [OF g(2)] m_def [symmetric] Let_def ok(1)
      by (simp add: L_def f_def)
    have val: "(\<Sum>j<n. unat (f j) * 256 ^ j) = (case bytes of None \<Rightarrow> 0 | Some bs \<Rightarrow> (if be then nat_of_be else nat_of_le) bs)"
    proof (cases bytes)
      case None
      then show ?thesis using assms(2) by simp
    next
      case (Some bs)
      then show ?thesis
        using assms(2) Some by (auto simp: f_def nat_of_be_def nat_of_le_sum rev_nth)
    qed
    show ?thesis
      unfolding call bn_res_def
      using normalize_ok [of "?o\<lparr>bn_LIMBS := L, bn_LENGTH := m\<rparr>"] ok L val by simp
  qed
qed

section \<open>The public interface\<close>

text \<open>The functions of \<^verbatim>\<open>src/Util.c\<close>, where a null pointer is \<open>None\<close>.\<close>

definition LIBERAC_BIGNUM_INIT :: "LiberaCBignum option \<Rightarrow> LiberaCBignum option" where
  "LIBERAC_BIGNUM_INIT value = map_option (\<lambda>_. crypto_bignum_init) value"

definition LIBERAC_BIGNUM_FREE :: "LiberaCBignum option \<Rightarrow> LiberaCBignum option" where
  "LIBERAC_BIGNUM_FREE value = map_option crypto_bignum_free value"

definition LIBERAC_BIGNUM_FROM_BYTES_BE ::
    "heap \<Rightarrow> LiberaCBignum option \<Rightarrow> byte list option \<Rightarrow> nat \<Rightarrow> status \<times> LiberaCBignum option \<times> heap" where
  "LIBERAC_BIGNUM_FROM_BYTES_BE heap out bytes n =
     (case out of None \<Rightarrow> (INVALID_ARGUMENT, None, heap)
      | Some out \<Rightarrow> let (err, out, heap) = crypto_bignum_from_bytes_be heap out bytes n in (err, Some out, heap))"

definition LIBERAC_BIGNUM_FROM_BYTES_LE ::
    "heap \<Rightarrow> LiberaCBignum option \<Rightarrow> byte list option \<Rightarrow> nat \<Rightarrow> status \<times> LiberaCBignum option \<times> heap" where
  "LIBERAC_BIGNUM_FROM_BYTES_LE heap out bytes n =
     (case out of None \<Rightarrow> (INVALID_ARGUMENT, None, heap)
      | Some out \<Rightarrow> let (err, out, heap) = crypto_bignum_from_bytes_le heap out bytes n in (err, Some out, heap))"

definition LIBERAC_BIGNUM_TO_BYTES_BE :: "LiberaCBignum option \<Rightarrow> bool \<Rightarrow> nat \<Rightarrow> status \<times> byte list" where
  "LIBERAC_BIGNUM_TO_BYTES_BE a out_null n =
     (case a of None \<Rightarrow> (INVALID_ARGUMENT, []) | Some a \<Rightarrow> crypto_bignum_to_bytes_be a out_null n)"

definition LIBERAC_BIGNUM_TO_BYTES_LE :: "LiberaCBignum option \<Rightarrow> bool \<Rightarrow> nat \<Rightarrow> status \<times> byte list" where
  "LIBERAC_BIGNUM_TO_BYTES_LE a out_null n =
     (case a of None \<Rightarrow> (INVALID_ARGUMENT, []) | Some a \<Rightarrow> crypto_bignum_to_bytes_le a out_null n)"

lemma bignum_bytes_value:
  assumes "bn_ok out" "length bs < 2305843009213693952"
    and "bignum_from_bytes be heap out (Some bs) (length bs) = (SUCCESS, r, heap')"
  shows "bn_ok r" "bn_val r = (if be then nat_of_be else nat_of_le) bs"
  using from_bytes_correct [where out = out and bytes = "Some bs" and n = "length bs" and heap = heap and be = be] assms by (auto simp: bn_res_def split: if_splits)

text \<open>
  C36. A byte string read into an integer is written back unchanged, in either order, by a call
  with the same length, and the other order reverses it. Reading fails only when the limbs
  cannot be allocated.
\<close>

theorem bignum_bytes_roundtrip:
  assumes "bn_ok out" and "length bs < 2305843009213693952"
  shows "(case LIBERAC_BIGNUM_FROM_BYTES_BE heap (Some out) (Some bs) (length bs) of (err, r, heap') \<Rightarrow>
      (err = SUCCESS \<longrightarrow> LIBERAC_BIGNUM_TO_BYTES_BE r False (length bs) = (SUCCESS, bs) \<and>
         LIBERAC_BIGNUM_TO_BYTES_LE r False (length bs) = (SUCCESS, rev bs)) \<and>
      (err \<noteq> SUCCESS \<longrightarrow> False \<in> set heap)) \<and>
    (case LIBERAC_BIGNUM_FROM_BYTES_LE heap (Some out) (Some bs) (length bs) of (err, r, heap') \<Rightarrow>
      (err = SUCCESS \<longrightarrow> LIBERAC_BIGNUM_TO_BYTES_LE r False (length bs) = (SUCCESS, bs) \<and>
         LIBERAC_BIGNUM_TO_BYTES_BE r False (length bs) = (SUCCESS, rev bs)) \<and>
      (err \<noteq> SUCCESS \<longrightarrow> False \<in> set heap))"
proof -
  have le: "nat_of_le bs < 256 ^ length bs" "nat_of_be bs < 256 ^ length bs"
    using nat_of_le_bound [of bs] nat_of_le_bound [of "rev bs"] by (simp_all add: nat_of_be_def)
  have conv: "le_of_nat (length bs) (nat_of_be bs) = rev bs" "be_of_nat (length bs) (nat_of_le bs) = rev bs"
    by (simp_all add: nat_of_be_def be_of_nat_def)
  have err: "bignum_from_bytes be heap out (Some bs) (length bs) = (e, r, heap') \<Longrightarrow> e \<noteq> SUCCESS \<Longrightarrow> False \<in> set heap" for be e r heap'
    using from_bytes_correct [where out = out and bytes = "Some bs" and n = "length bs" and heap = heap and be = be] assms by (auto simp: bn_res_def split: if_splits)
  note defs = LIBERAC_BIGNUM_FROM_BYTES_BE_def LIBERAC_BIGNUM_FROM_BYTES_LE_def LIBERAC_BIGNUM_TO_BYTES_BE_def
    LIBERAC_BIGNUM_TO_BYTES_LE_def crypto_bignum_from_bytes_be_def crypto_bignum_from_bytes_le_def
    crypto_bignum_to_bytes_be_def crypto_bignum_to_bytes_le_def
  show ?thesis
    using bignum_bytes_value [OF assms, of True heap] err [of True] bignum_bytes_value [OF assms, of False heap] err [of False] le conv
    by (auto simp: defs to_bytes_correct not_le split: prod.split)
qed

theorem bignum_bytes_roundtrip_witness:
  "case LIBERAC_BIGNUM_FROM_BYTES_BE [] (Some crypto_bignum_init) (Some [1, 2, 3, 4, 5]) 5 of (err, r, heap') \<Rightarrow>
     err = SUCCESS \<and> LIBERAC_BIGNUM_TO_BYTES_BE r False 5 = (SUCCESS, [1, 2, 3, 4, 5])"
proof -
  have n: "length [1, 2, 3, 4, 5 :: byte] = 5" by simp
  show ?thesis
    using bignum_bytes_roundtrip [of crypto_bignum_init "[1, 2, 3, 4, 5]" "[]", unfolded n] by (auto split: prod.splits)
qed

end
