(* ===== verification/Bignum_Mod_Correct.thy ===== *)
theory Bignum_Mod_Correct
  imports Bignum_Mod Bignum_Bytes
begin

text \<open>
  The long division of \<open>crypto_bignum_mod\<close> computes the remainder: the normalising shift, the
  quotient estimate and its correction loop, one division step, and the whole loop.
\<close>

section \<open>The quotient estimate\<close>

lemma estimate_too_big:
  fixes q v1 v2 r N u2 P u' v' U V B :: nat
  assumes U: "U = (N * B + u2) * P + u'" "u' < P" and V: "V = (v1 * B + v2) * P + v'"
    and N: "q * v1 + r = N" and test: "r * B + u2 < q * v2"
  shows "U div V < q"
proof -
  have "N * B + u2 + 1 \<le> q * (v1 * B + v2)"
    using test unfolding N [symmetric] by (simp add: algebra_simps)
  then have "(N * B + u2 + 1) * P \<le> q * (v1 * B + v2) * P" by (rule mult_le_mono1)
  moreover have "q * V = q * (v1 * B + v2) * P + q * v'" unfolding V by (simp add: algebra_simps)
  ultimately have "U < q * V" unfolding U using assms(2) by (simp add: algebra_simps)
  then show ?thesis by (simp add: less_mult_imp_div_less)
qed

lemma estimate_break:
  fixes q v1 v2 r N u2 P u' v' U V B :: nat
  assumes U: "U = (N * B + u2) * P + u'" and V: "V = (v1 * B + v2) * P + v'" "v' < P" "v2 < B"
    and N: "q * v1 + r = N" and r: "B \<le> r" and q: "q \<le> B" and V0: "0 < V"
  shows "q \<le> U div V"
proof -
  have "v1 * B + v2 + 1 \<le> (v1 + 1) * B" using V(3) by (simp add: algebra_simps)
  then have "(v1 * B + v2 + 1) * P \<le> (v1 + 1) * B * P" by (rule mult_le_mono1)
  then have "V \<le> (v1 + 1) * B * P" using V(1,2) by (simp add: algebra_simps)
  then have "q * V \<le> q * ((v1 + 1) * B * P)" by (rule mult_le_mono2)
  also have "\<dots> = (q * v1 + q) * (B * P)" by (simp add: algebra_simps)
  also have "\<dots> \<le> N * (B * P)" using N r q by (intro mult_le_mono1) simp
  also have "\<dots> \<le> U" unfolding U by (simp add: algebra_simps)
  finally show ?thesis using V0 by (simp add: less_eq_div_iff_mult_less_eq)
qed

lemma estimate_close:
  fixes q v1 v2 r N u2 P u' v' U V B :: nat
  assumes U: "U = (N * B + u2) * P + u'" and V: "V = (v1 * B + v2) * P + v'" "v' < P"
    and N: "q * v1 + r = N" and test: "q * v2 \<le> r * B + u2" and q: "q < B" and v1: "0 < v1" and V0: "0 < V"
  shows "q \<le> U div V + 1"
proof -
  have "q * (v1 * B + v2) \<le> N * B + u2" using test unfolding N [symmetric] by (simp add: algebra_simps)
  then have "q * (v1 * B + v2) * P \<le> (N * B + u2) * P" by (rule mult_le_mono1)
  moreover have "q * v' \<le> B * P" using q V(2) by (intro mult_le_mono) simp_all
  moreover have "1 * (B * P) \<le> v1 * (B * P)" using v1 by (intro mult_le_mono1) simp
  moreover have "q * V = q * (v1 * B + v2) * P + q * v'" "V = v1 * (B * P) + v2 * P + v'" unfolding V(1) by (simp_all add: algebra_simps)
  ultimately have "q * V \<le> U + V" unfolding U by linarith
  then have "q \<le> (U + V) div V" using V0 by (simp add: less_eq_div_iff_mult_less_eq)
  then show ?thesis using V0 div_add_self2 [of V U] by simp
qed

lemma mod_estimate_correct:
  fixes v1 v2 u2 :: u32
  assumes v1: "2147483648 \<le> unat v1"
    and U: "U = (N * 4294967296 + unat u2) * P + u'" "u' < P"
    and V: "V = (unat v1 * 4294967296 + unat v2) * P + v'" "v' < P"
    and UV: "U < 4294967296 * V"
    and "unat qhat * unat v1 + unat rhat = N" "unat rhat < 4294967296" "unat qhat \<le> 4294967297" "U div V \<le> unat qhat"
  shows "U div V \<le> unat (mod_estimate v1 v2 u2 qhat rhat) \<and> unat (mod_estimate v1 v2 u2 qhat rhat) \<le> U div V + 1 \<and>
    unat (mod_estimate v1 v2 u2 qhat rhat) < 4294967296"
  using assms
proof (induction v1 v2 u2 qhat rhat rule: mod_estimate.induct)
  case (1 v1 v2 u2 qhat rhat)
  note P = "1.prems"
  have V0: "0 < V" using P(6) by (metis mult_0_right not_less0 neq0_conv)
  have QB: "U div V < 4294967296" using P(6) by (simp add: less_mult_imp_div_less)
  have left: "unat (push_bit 32 rhat + ucast u2 :: u64) = unat rhat * 4294967296 + unat u2"
  proof -
    have "unat (push_bit 32 rhat) = unat rhat * 4294967296" unfolding unat_push_bit using P(8) by simp
    then show ?thesis using P(8) unat_u32_less [of u2] by (subst unat_add_u64) simp_all
  qed
  have right: "unat (qhat * ucast v2) = unat qhat * unat v2" if "unat qhat < 4294967296"
  proof -
    have "unat qhat * unat v2 \<le> 4294967295 * 4294967295"
      using that unat_u32_less [of v2] by (intro mult_le_mono) simp_all
    then show ?thesis by (subst unat_mul_u64) simp_all
  qed
  have lim: "4294967296 \<le> x \<longleftrightarrow> 4294967296 \<le> unat x" for x :: u64 by (simp add: word_le_nat_alt)
  show ?case
  proof (cases "4294967296 \<le> qhat \<or> push_bit 32 rhat + ucast u2 < qhat * ucast v2")
    case True
    have less: "U div V < unat qhat"
    proof (cases "4294967296 \<le> unat qhat")
      case False
      then have "unat rhat * 4294967296 + unat u2 < unat qhat * unat v2"
        using True left right by (simp add: lim word_less_nat_alt)
      then show ?thesis by (rule estimate_too_big [OF P(2,3,4,7)])
    qed (use QB in simp)
    define q where "q = qhat - 1"
    define r where "r = rhat + ucast v1"
    have q: "unat q = unat qhat - 1" unfolding q_def using less by (intro unat_minus_one) auto
    have r: "unat r = unat rhat + unat v1" unfolding r_def using P(8) unat_u32_less [of v1] by (subst unat_add_u64) simp_all
    obtain k where k: "unat qhat = Suc k" using less by (cases "unat qhat") auto
    have N: "unat q * unat v1 + unat r = N" using P(7) unfolding q r k by simp
    show ?thesis
    proof (cases "4294967296 \<le> r")
      case br: True
      have "unat q \<le> U div V"
        using estimate_break [OF P(2,4,5) unat_u32_less N _ _ V0] br q P(9) by (simp add: lim)
      moreover have "mod_estimate v1 v2 u2 qhat rhat = q"
        using True br by (simp add: mod_estimate.simps [of v1 v2 u2 qhat rhat] q_def r_def)
      ultimately show ?thesis using QB less q by simp
    next
      case False
      have "mod_estimate v1 v2 u2 qhat rhat = mod_estimate v1 v2 u2 q r"
        using True False by (simp add: mod_estimate.simps [of v1 v2 u2 qhat rhat] q_def r_def Let_def)
      moreover have "unat r < 4294967296" using False by (simp add: lim)
      ultimately show ?thesis
        using "1.IH" [OF True q_def r_def False P(1-6) N] P(9) less q by simp
    qed
  next
    case False
    then have q: "unat qhat < 4294967296" by (simp add: lim)
    have "unat qhat * unat v2 \<le> unat rhat * 4294967296 + unat u2"
      using False left right [OF q] by (simp add: word_less_nat_alt)
    from estimate_close [OF P(2,4,5,7) this q _ V0] P(1)
    have "unat qhat \<le> U div V + 1" by simp
    moreover have "mod_estimate v1 v2 u2 qhat rhat = qhat"
      using False by (simp add: mod_estimate.simps [of v1 v2 u2 qhat rhat])
    ultimately show ?thesis using P(10) q by simp
  qed
qed

section \<open>One division step\<close>

lemma mod_submul_correct:
  assumes "offset + n \<le> length un" "unat qhat < 4294967296" and sub: "mod_submul qhat vn n offset un = (un', borrow)"
  shows "length un' = length un" "\<And>k. offset + n \<le> k \<Longrightarrow> un' ! k = un ! k" "unat borrow \<le> unat qhat"
    "wv un' (offset + n) + unat qhat * wv vn n * 4294967296 ^ offset =
      wv un (offset + n) + unat borrow * 4294967296 ^ (offset + n)"
proof -
  let ?B = "4294967296 :: nat"
  let ?f = "\<lambda>i (un, borrow). let product = qhat * ucast (vn ! i) + borrow; low = ucast product :: u32;
      minuend = un ! (offset + i); borrow = drop_bit 32 product
    in (un[offset + i := minuend - low], if minuend < low then borrow + 1 else borrow)"
  let ?P = "\<lambda>i (u, borrow :: u64). length u = length un \<and> (\<forall>k\<ge>offset + i. u ! k = un ! k) \<and> unat borrow \<le> unat qhat \<and>
    wv u (offset + i) + unat qhat * wv vn i * ?B ^ offset = wv un (offset + i) + unat borrow * ?B ^ (offset + i)"
  have "?P n (fold ?f [0..<n] (un, 0))"
  proof (rule fold_upt_invariant [where P = "?P"])
    show "?P 0 (un, 0)" by simp
  next
    fix i and s :: "u32 list \<times> u64"
    assume i: "i < n" and P: "?P i s"
    obtain u w where s: "s = (u, w)" by (meson surj_pair)
    define z where "z = qhat * ucast (vn ! i) + w"
    have qv: "unat qhat * unat (vn ! i) \<le> unat qhat * 4294967295" using unat_u32_less [of "vn ! i"] by (intro mult_le_mono2) simp
    have qb: "unat qhat * unat (vn ! i) \<le> 4294967295 * 4294967295"
      using assms(2) unat_u32_less [of "vn ! i"] by (intro mult_le_mono) simp_all
    have "unat (qhat * ucast (vn ! i)) = unat qhat * unat (vn ! i)"
      using qb by (subst unat_mul_u64) simp_all
    then have z: "unat z = unat qhat * unat (vn ! i) + unat w"
      unfolding z_def using qb assms(2) P s by (subst unat_add_u64) simp_all
    define low :: u32 where "low = ucast z"
    define m where "m = un ! (offset + i)"
    have um: "u ! (offset + i) = m" using P by (simp add: s m_def)
    define w' where "w' = (if m < low then drop_bit 32 z + 1 else drop_bit 32 z)"
    have wq: "unat w \<le> unat qhat" using P s by simp
    have zq: "unat z \<le> unat qhat * ?B" unfolding z using qv wq by linarith
    have hi: "unat (drop_bit 32 z) \<le> unat qhat" unfolding unat_high using zq div_le_mono [OF zq, of ?B] by simp
    have w': "unat w' = unat (drop_bit 32 z) + (if m < low then 1 else 0)"
      unfolding w'_def using unat_high_less [of z] by (auto simp: unat_add_u64)
    have w'q: "unat w' \<le> unat qhat"
    proof (cases "m < low")
      case True
      have "unat (drop_bit 32 z) \<noteq> unat qhat"
      proof
        assume "unat (drop_bit 32 z) = unat qhat"
        then have "unat low = 0" using split_u64 [of z] zq by (simp add: low_def)
        then show False using True by (simp add: word_less_nat_alt)
      qed
      then show ?thesis using hi w' True by simp
    qed (use hi w' in simp)
    have diff: "unat (m - low) + unat low = unat m + (if m < low then ?B else 0)"
      using unat_u32_less [of low] unat_u32_less [of m] by (auto simp: unat_sub_if' word_less_nat_alt)
    have "unat (m - low) + unat qhat * unat (vn ! i) + unat w = unat m + unat w' * ?B"
      using diff w' z split_u64 [of z, folded low_def] by (cases "m < low") simp_all
    from arg_cong [OF this, of "\<lambda>v. v * ?B ^ (offset + i)"]
    have "?P (Suc i) (u[offset + i := m - low], w')"
      using P i assms(1) w'q unfolding s prod.case
      by (simp add: wv_Suc m_def power_add algebra_simps)
    moreover have "?f i s = (u[offset + i := m - low], w')"
      unfolding s prod.case Let_def z_def [symmetric] low_def [symmetric] um w'_def by (rule refl)
    ultimately show "?P (Suc i) (?f i s)" by (simp only:)
  qed simp
  then show "length un' = length un" "\<And>k. offset + n \<le> k \<Longrightarrow> un' ! k = un ! k" "unat borrow \<le> unat qhat"
    "wv un' (offset + n) + unat qhat * wv vn n * ?B ^ offset = wv un (offset + n) + unat borrow * ?B ^ (offset + n)"
    using sub by (auto simp: mod_submul_def)
qed

lemma mod_add_back_correct:
  assumes "offset + n \<le> length un" and add: "mod_add_back vn n offset un = (un', carry)"
  shows "length un' = length un" "\<And>k. offset + n \<le> k \<Longrightarrow> un' ! k = un ! k" "unat carry \<le> 1"
    "wv un' (offset + n) + unat carry * 4294967296 ^ (offset + n) = wv un (offset + n) + wv vn n * 4294967296 ^ offset"
proof -
  let ?f = "\<lambda>i (un, carry). let sum = ucast (un ! (offset + i)) + ucast (vn ! i) + carry :: u64
    in (un[offset + i := ucast sum], drop_bit 32 sum)"
  let ?P = "\<lambda>i (u, carry :: u64). length u = length un \<and> (\<forall>k\<ge>offset + i. u ! k = un ! k) \<and> unat carry \<le> 1 \<and>
    wv u (offset + i) + unat carry * 4294967296 ^ (offset + i) = wv un (offset + i) + wv vn i * 4294967296 ^ offset"
  have "?P n (fold ?f [0..<n] (un, 0))"
  proof (rule fold_upt_invariant [where P = "?P"])
    show "?P 0 (un, 0)" by simp
  next
    fix i and s :: "u32 list \<times> u64"
    assume i: "i < n" and P: "?P i s"
    obtain u c where s: "s = (u, c)" by (meson surj_pair)
    define z where "z = (ucast (u ! (offset + i)) + ucast (vn ! i) + c :: u64)"
    have z: "unat z = unat (u ! (offset + i)) + unat (vn ! i) + unat c"
      unfolding z_def using P s by (intro unat_add_carry) simp
    have "unat (drop_bit 32 z) \<le> 1"
    proof -
      have "unat z < 2 * 4294967296"
        unfolding z using unat_u32_less [of "u ! (offset + i)"] unat_u32_less [of "vn ! i"] P s by simp
      then have "unat (drop_bit 32 z) < 2" unfolding unat_high by (rule less_mult_imp_div_less)
      then show ?thesis by simp
    qed
    then show "?P (Suc i) (?f i s)"
      using arg_cong [OF split_u64 [of z, unfolded z], of "\<lambda>v. v * 4294967296 ^ (offset + i)"] P i assms(1)
      unfolding s prod.case Let_def z_def [symmetric]
      by (simp add: wv_Suc power_add algebra_simps)
  qed simp
  then show "length un' = length un" "\<And>k. offset + n \<le> k \<Longrightarrow> un' ! k = un ! k" "unat carry \<le> 1"
    "wv un' (offset + n) + unat carry * 4294967296 ^ (offset + n) = wv un (offset + n) + wv vn n * 4294967296 ^ offset"
    using add by (auto simp: mod_add_back_def)
qed

text \<open>
  The window of a step holds \<open>U = wv un (offset + n + 1) div B ^ offset\<close>. The step subtracts
  \<open>(U div V) * V\<close> from it.
\<close>

lemma window_value:
  assumes "offset \<le> m"
  shows "wv un m = wv un offset + 4294967296 ^ offset * (wv un m div 4294967296 ^ offset)"
  using mult_div_mod_eq [of "4294967296 ^ offset" "wv un m"] wv_mod [OF assms, of un] by simp

lemma mod_step_correct:
  fixes vn un :: "u32 list"
  assumes n: "2 \<le> n" and len: "offset + n < length un" and top: "2147483648 \<le> unat (vn ! (n - 1))"
    and small: "wv un (offset + n + 1) < 4294967296 ^ (offset + 1) * wv vn n"
  defines "V \<equiv> wv vn n" and "U \<equiv> wv un (offset + n + 1) div 4294967296 ^ offset"
  shows "length (mod_step vn n offset un) = length un"
    "\<And>k. offset + n + 1 \<le> k \<Longrightarrow> mod_step vn n offset un ! k = un ! k"
    "wv (mod_step vn n offset un) (offset + n + 1) + U div V * V * 4294967296 ^ offset = wv un (offset + n + 1)"
proof -
  let ?B = "4294967296 :: nat"
  define G where "G = ?B ^ offset"
  have G0: "0 < G" by (simp add: G_def)
  have W: "wv un (offset + n + 1) = wv un offset + G * U" unfolding G_def U_def by (rule window_value) simp
  have low: "wv un offset < G" unfolding G_def by (rule wv_bound)
  obtain j where j: "n = Suc (Suc j)" using n by (metis add_2_eq_Suc le_Suc_ex)
  let ?v1 = "vn ! Suc j" and ?v2 = "vn ! j" and ?u0 = "un ! (offset + n)" and ?u1 = "un ! (offset + Suc j)" and ?u2 = "un ! (offset + j)"
  let ?P = "?B ^ j"
  have V: "V = (unat ?v1 * ?B + unat ?v2) * ?P + wv vn j" "wv vn j < ?P"
    by (simp_all add: V_def j wv_Suc wv_bound algebra_simps)
  define u' where "u' = wv un (offset + j) div G"
  have u': "wv un (offset + j) = wv un offset + G * u'" unfolding G_def u'_def by (rule window_value) simp
  have "wv un (offset + j) < G * ?P" using wv_bound [of un "offset + j"] by (simp add: G_def power_add)
  then have "G * u' < G * ?P" using u' by linarith
  then have u'P: "u' < ?P" by simp
  define N where "N = unat ?u0 * ?B + unat ?u1"
  have "wv un offset + G * U = wv un offset + G * ((N * ?B + unat ?u2) * ?P + u')"
    unfolding W [symmetric] using u' by (simp add: j wv_Suc N_def G_def power_add algebra_simps)
  then have U: "U = (N * ?B + unat ?u2) * ?P + u'" using G0 by simp
  have "wv un (offset + n + 1) < G * (?B * V)" using small by (simp add: G_def V_def)
  then have "G * U < G * (?B * V)" using W by linarith
  then have UV: "U < ?B * V" by simp
  have v1: "2147483648 \<le> unat ?v1" using top by (simp add: j)
  have V0: "0 < V" using UV by (cases V) simp_all
  have QB: "U div V < ?B" using UV by (simp add: less_mult_imp_div_less)
  define num :: u64 where "num = push_bit 32 (ucast ?u0) OR ucast ?u1"
  have num: "unat num = N"
  proof -
    have "unat (ucast ?u1 OR push_bit 32 (ucast ?u0) :: u64) = unat (ucast ?u1 :: u64) + unat (ucast ?u0 :: u64) * 2 ^ 32"
      using unat_u32_less [of ?u1] unat_u32_less [of ?u0] by (intro unat_join) simp_all
    then show ?thesis by (simp add: num_def N_def or.commute)
  qed
  define q0 where "q0 = num div ucast ?v1"
  define r0 where "r0 = num mod ucast ?v1"
  have q0: "unat q0 = N div unat ?v1" and r0: "unat r0 = N mod unat ?v1"
    by (simp_all add: q0_def r0_def unat_div unat_mod num)
  have start: "unat q0 * unat ?v1 + unat r0 = N" "unat r0 < ?B"
    using v1 unat_u32_less [of ?v1] by (simp_all add: q0 r0 less_trans [OF mod_less_divisor])
  have vu: "V < (unat ?v1 + 1) * ?B * ?P"
  proof -
    have "V < (unat ?v1 * ?B + unat ?v2 + 1) * ?P" using V by (simp add: algebra_simps)
    also have "\<dots> \<le> (unat ?v1 + 1) * ?B * ?P"
      using unat_u32_less [of ?v2] by (intro mult_le_mono1) simp
    finally show ?thesis .
  qed
  have "N * (?B * ?P) \<le> U" unfolding U by (simp add: algebra_simps)
  also have "U < ?B * ((unat ?v1 + 1) * ?B * ?P)" using UV vu by linarith
  also have "\<dots> = (?B * (unat ?v1 + 1)) * (?B * ?P)" by simp
  finally have "N < ?B * (unat ?v1 + 1)" by simp
  then have "N < (?B + 2) * unat ?v1" using v1 by (simp add: algebra_simps)
  then have q0B: "unat q0 \<le> 4294967297" unfolding q0 using less_mult_imp_div_less [of N "?B + 2" "unat ?v1"] by simp
  have "U div V \<le> unat q0"
  proof -
    have "U < (N + 1) * (?B * ?P)"
    proof -
      have "U < (N * ?B + unat ?u2 + 1) * ?P" unfolding U using u'P by (simp add: algebra_simps)
      also have "\<dots> \<le> ((N + 1) * ?B) * ?P" using unat_u32_less [of ?u2] by (intro mult_le_mono1) simp
      finally show ?thesis by (simp add: algebra_simps)
    qed
    also have "N + 1 \<le> (unat q0 + 1) * unat ?v1"
    proof -
      have "unat r0 < unat ?v1" using v1 by (simp add: r0)
      then show ?thesis unfolding start(1) [symmetric] by (simp add: algebra_simps)
    qed
    finally have "U < (unat q0 + 1) * unat ?v1 * (?B * ?P)" by (meson less_le_trans mult_le_mono1)
    also have "\<dots> \<le> (unat q0 + 1) * V" unfolding V by (simp add: algebra_simps)
    finally have "U div V < unat q0 + 1" by (rule less_mult_imp_div_less)
    then show ?thesis by simp
  qed
  note est = mod_estimate_correct [OF v1 U u'P V UV start q0B this]
  define q where "q = mod_estimate ?v1 ?v2 ?u2 q0 r0"
  have q: "U div V \<le> unat q" "unat q \<le> U div V + 1" "unat q < ?B" using est by (simp_all add: q_def)
  obtain u1 w where sub: "mod_submul q vn n offset un = (u1, w)" by (meson surj_pair)
  have len': "offset + n \<le> length un" using len by simp
  note s1 = mod_submul_correct [OF len' q(3) sub]
  let ?k = "offset + n"
  define h where "h = u1 ! ?k"
  have h: "h = ?u0" using s1(2) [of ?k] by (simp add: h_def)
  define u2 where "u2 = u1[?k := ucast (ucast h - w)]"
  have wB: "unat w \<le> 4294967296" using s1(3) q(3) by simp
  have top2: "unat (ucast (ucast h - w) :: u32) + unat w = unat h + (if ucast h < w then ?B else 0)"
    by (rule unat_sub_borrow [OF wB])
  have u2v: "wv u2 (?k + 1) = wv u1 ?k + unat (ucast (ucast h - w) :: u32) * ?B ^ ?k"
    using len s1(1) by (simp add: u2_def wv_Suc)
  have eq2: "wv u2 (?k + 1) + unat q * V * G = wv un (?k + 1) + (if ucast h < w then ?B else 0) * ?B ^ ?k"
  proof -
    have "wv u2 (?k + 1) + unat w * ?B ^ ?k = wv u1 ?k + (unat (ucast (ucast h - w) :: u32) + unat w) * ?B ^ ?k"
      unfolding u2v by (simp add: algebra_simps)
    also have "\<dots> = wv u1 ?k + (unat h + (if ucast h < w then ?B else 0)) * ?B ^ ?k" unfolding top2 ..
    finally have "wv u2 (?k + 1) + unat w * ?B ^ ?k + unat q * V * G =
        (wv u1 ?k + unat q * V * G) + unat h * ?B ^ ?k + (if ucast h < w then ?B else 0) * ?B ^ ?k"
      by (simp add: add_mult_distrib)
    then show ?thesis using s1(4) unfolding V_def G_def by (simp add: wv_Suc h)
  qed
  have Wlt: "wv un (?k + 1) < (U + 1) * G" using W low by (simp add: algebra_simps)
  have step: "mod_step vn n offset un = (if ucast h < w then
      let (u3, c) = mod_add_back vn n offset u2 in u3[?k := ucast (ucast (u3 ! ?k) + c)] else u2)"
  proof -
    have i: "offset + n - 1 = offset + Suc j" "offset + n - 2 = offset + j" "n - 1 = Suc j" "n - 2 = j" using j by simp_all
    show ?thesis
      unfolding mod_step_def Let_def i num_def [symmetric] q0_def [symmetric] r0_def [symmetric]
      unfolding q_def [symmetric] sub prod.case h_def [symmetric]
      unfolding u2_def [symmetric] by (rule refl)
  qed
  have "length (mod_step vn n offset un) = length un \<and> (\<forall>k\<ge>?k + 1. mod_step vn n offset un ! k = un ! k) \<and>
    wv (mod_step vn n offset un) (?k + 1) + U div V * V * G = wv un (?k + 1)"
  proof (cases "ucast h < w")
    case False
    then have e: "wv u2 (?k + 1) + unat q * V * G = wv un (?k + 1)" using eq2 by simp
    then have "unat q * V * G < (U + 1) * G" using Wlt by linarith
    then have "unat q * V < U + 1" unfolding mult_less_cancel2 by blast
    then have "unat q \<le> U div V" using V0 by (simp add: less_eq_div_iff_mult_less_eq)
    then have "unat q = U div V" using q(1) by simp
    then show ?thesis using e False s1(1,2) step by (simp add: u2_def)
  next
    case True
    then have e: "wv u2 (?k + 1) + unat q * V * G = wv un (?k + 1) + ?B ^ (?k + 1)" using eq2 by simp
    have "wv u2 (?k + 1) < ?B ^ (?k + 1)" by (rule wv_bound)
    then have "G * U < unat q * V * G" using e W by linarith
    then have "U < unat q * V" unfolding mult.commute [of G U] mult_less_cancel2 by blast
    then have "U div V < unat q" by (rule less_mult_imp_div_less)
    then have qQ: "unat q = U div V + 1" using q(2) by simp
    then have e2: "wv u2 (?k + 1) + V * G + U div V * V * G = wv un (?k + 1) + ?B ^ (?k + 1)"
      using e by (simp add: add_mult_distrib)
    have "U div V * V * G \<le> U * G" by (intro mult_le_mono1) simp
    then have QW: "U div V * V * G \<le> wv un (?k + 1)" using W unfolding mult.commute [of U G] by linarith
    have l2: "?k \<le> length u2" using len s1(1) by (simp add: u2_def)
    obtain u3 c where add: "mod_add_back vn n offset u2 = (u3, c)" by (meson surj_pair)
    note s3 = mod_add_back_correct [OF l2 add]
    have t3: "u3 ! ?k = ucast (ucast h - w)" using s3(2) [of ?k] len s1(1) by (simp add: u2_def)
    have e3: "wv u3 ?k + (unat c + unat (u3 ! ?k)) * ?B ^ ?k + U div V * V * G = wv un (?k + 1) + ?B ^ (?k + 1)"
      using e2 s3(4) len s1(1) t3 unfolding V_def [symmetric] G_def [symmetric]
      by (simp add: u2_def wv_Suc algebra_simps)
    have "unat c + unat (u3 ! ?k) = ?B"
    proof -
      have "\<not> unat c + unat (u3 ! ?k) \<le> 4294967295"
      proof
        assume "unat c + unat (u3 ! ?k) \<le> 4294967295"
        then have "(unat c + unat (u3 ! ?k)) * ?B ^ ?k \<le> 4294967295 * ?B ^ ?k" by (rule mult_le_mono1)
        moreover have "?B ^ (?k + 1) = ?B * ?B ^ ?k" by simp
        ultimately show False using e3 QW wv_bound [of u3 ?k] by linarith
      qed
      then show ?thesis using s3(3) unat_u32_less [of "u3 ! ?k"] by simp
    qed
    then have z: "unat (ucast (ucast (u3 ! ?k) + c) :: u32) = 0"
      using s3(3) by (subst unat_ucast_low, subst unat_add_u64) (simp_all add: add.commute)
    have "wv (u3[?k := ucast (ucast (u3 ! ?k) + c)]) (?k + 1) = wv u3 ?k"
      using z len s1(1) s3(1) by (simp add: wv_Suc u2_def)
    moreover have "wv u3 ?k + U div V * V * G = wv un (?k + 1)"
      using e3 \<open>unat c + unat (u3 ! ?k) = ?B\<close> by simp
    ultimately show ?thesis using True s1(1,2) s3(1,2) step add by (simp add: u2_def)
  qed
  then show "length (mod_step vn n offset un) = length un"
    "\<And>k. offset + n + 1 \<le> k \<Longrightarrow> mod_step vn n offset un ! k = un ! k"
    "wv (mod_step vn n offset un) (offset + n + 1) + U div V * V * ?B ^ offset = wv un (offset + n + 1)"
    by (simp_all add: G_def)
qed

section \<open>The normalising shift\<close>

lemma top_bit_set:
  assumes "limb AND 0x80000000 \<noteq> (0 :: u32)"
  shows "2147483648 \<le> unat limb"
proof -
  have "bit limb 31"
  proof (rule ccontr)
    assume n: "\<not> bit limb 31"
    have m: "(0x80000000 :: u32) = 2 ^ 31" by simp
    have "limb AND 0x80000000 = 0"
      unfolding m
    proof (rule bit_eqI)
      fix k show "bit (limb AND 2 ^ 31) k \<longleftrightarrow> bit (0 :: u32) k" unfolding bit_and_iff bit_exp_iff using n by auto
    qed
    then show False using assms by simp
  qed
  then have "odd (unat limb div 2 ^ 31)" unfolding bit_iff_odd [symmetric] by (simp add: bit_simps)
  then have "0 < unat limb div 2 ^ 31" by (metis even_zero gr0I)
  then show ?thesis by (simp add: div_greater_zero_iff)
qed

lemma clz32_correct:
  assumes "limb \<noteq> 0"
  shows "2147483648 \<le> unat limb * 2 ^ bignum_clz32 limb" "unat limb * 2 ^ bignum_clz32 limb < 4294967296" "bignum_clz32 limb < 32"
proof -
  have *: "2147483648 \<le> unat limb * 2 ^ bignum_clz32 limb \<and> unat limb * 2 ^ bignum_clz32 limb < 4294967296"
    using assms
  proof (induction limb rule: bignum_clz32.induct)
    case (1 limb)
    show ?case
    proof (cases "limb AND 0x80000000 = 0")
      case True
      have s: "unat (push_bit 1 limb) = 2 * unat limb"
        using top_bit_clear [OF True] unfolding unat_push_bit by simp
      have nz: "push_bit 1 limb \<noteq> 0"
      proof
        assume "push_bit 1 limb = 0"
        then have "unat (push_bit 1 limb) = 0" by (simp only: unat_0)
        then show False using s 1(2) by (simp add: unat_eq_zero)
      qed
      have c: "bignum_clz32 limb = Suc (bignum_clz32 (push_bit 1 limb))"
        using True 1(2) by (subst bignum_clz32.simps) (simp only: simp_thms if_True)
      show ?thesis using 1(1) [OF conjI [OF True 1(2)] nz] unfolding c s by (simp add: mult.assoc mult.commute)
    next
      case False
      then have "bignum_clz32 limb = 0" by (subst bignum_clz32.simps) simp
      then show ?thesis using top_bit_set [OF False] unat_u32_less [of limb] by simp
    qed
  qed
  then show "2147483648 \<le> unat limb * 2 ^ bignum_clz32 limb" "unat limb * 2 ^ bignum_clz32 limb < 4294967296" by blast+
  have "1 * 2 ^ bignum_clz32 limb \<le> unat limb * 2 ^ bignum_clz32 limb"
    using assms by (intro mult_le_mono1) (simp add: Suc_le_eq unat_gt_0)
  then have "(2 :: nat) ^ bignum_clz32 limb < 4294967296" using * by linarith
  also have "4294967296 = (2 :: nat) ^ 32" by simp
  finally have "(2 :: nat) ^ bignum_clz32 limb < 2 ^ 32" .
  then show "bignum_clz32 limb < 32" by (simp only: power_strict_increasing_iff)
qed

lemma mod_shift_limbs_correct:
  assumes "shift < 32" "n \<le> length out" and sh: "mod_shift_limbs shift limbs n out = (out', carry)"
  shows "length out' = length out" "\<And>k. n \<le> k \<Longrightarrow> out' ! k = out ! k"
    "wv out' n + unat carry * 4294967296 ^ n = wv limbs n * 2 ^ shift"
proof -
  let ?f = "\<lambda>i (out, carry). let z = push_bit shift (ucast (limbs ! i)) OR ucast carry :: u64
    in (out[i := ucast z], ucast (drop_bit 32 z) :: u32)"
  let ?P = "\<lambda>i (o', carry :: u32). length o' = length out \<and> (\<forall>k\<ge>i. o' ! k = out ! k) \<and> unat carry < 2 ^ shift \<and>
    wv o' i + unat carry * 4294967296 ^ i = wv limbs i * 2 ^ shift"
  have s32: "(2 :: nat) ^ shift \<le> 2 ^ 31" using assms(1) by (intro power_increasing) auto
  have "?P n (fold ?f [0..<n] (out, 0))"
  proof (rule fold_upt_invariant [where P = "?P"])
    show "?P 0 (out, 0)" by simp
  next
    fix i and s :: "u32 list \<times> u32"
    assume i: "i < n" and P: "?P i s"
    obtain o' c where s: "s = (o', c)" by (meson surj_pair)
    have c: "unat c < 2 ^ shift" using P s by simp
    define z :: u64 where "z = push_bit shift (ucast (limbs ! i)) OR ucast c"
    have xb: "unat (limbs ! i) * 2 ^ shift \<le> 4294967295 * 2 ^ shift" using unat_u32_less [of "limbs ! i"] by (intro mult_le_mono1) simp
    have "unat (ucast c OR push_bit shift (ucast (limbs ! i)) :: u64) = unat (ucast c :: u64) + unat (ucast (limbs ! i) :: u64) * 2 ^ shift"
    proof (rule unat_join)
      have "4294967295 * (2 :: nat) ^ shift \<le> 4294967295 * 2147483648" using s32 by simp
      then have "unat (limbs ! i) * 2 ^ shift < 18446744073709551616" using xb by linarith
      then show "unat (ucast (limbs ! i) :: u64) * 2 ^ shift < 2 ^ LENGTH(64)" by simp
    qed (use assms(1) c in simp_all)
    then have z: "unat z = unat c + unat (limbs ! i) * 2 ^ shift" by (simp add: z_def or.commute)
    have zb: "unat z < 2 ^ shift * 4294967296" unfolding z using c xb by linarith
    have hi: "unat (drop_bit 32 z) < 2 ^ shift" unfolding unat_high using zb by (rule less_mult_imp_div_less)
    have uc: "unat (ucast (drop_bit 32 z) :: u32) = unat (drop_bit 32 z)"
      using unat_high_less [of z] by (simp add: unat_ucast_low)
    show "?P (Suc i) (?f i s)"
      using arg_cong [OF split_u64 [of z, unfolded z], of "\<lambda>v. v * 4294967296 ^ i"] P i assms(2) hi
      unfolding s prod.case Let_def z_def [symmetric]
      by (simp add: wv_Suc uc algebra_simps)
  qed simp
  then show "length out' = length out" "\<And>k. n \<le> k \<Longrightarrow> out' ! k = out ! k"
    "wv out' n + unat carry * 4294967296 ^ n = wv limbs n * 2 ^ shift"
    using sh by (auto simp: mod_shift_limbs_def)
qed

text \<open>Numbers from their digits, and the shift back.\<close>

lemma wv_digits:
  assumes "\<And>j. j < n \<Longrightarrow> unat (xs ! j) = R div 4294967296 ^ j mod 4294967296"
  shows "wv xs n = R mod 4294967296 ^ n"
  using assms
proof (induction n)
  case (Suc n)
  have "R mod 4294967296 ^ Suc n = 4294967296 ^ n * (R div 4294967296 ^ n mod 4294967296) + R mod 4294967296 ^ n"
    by (simp only: power_Suc2 mod_mult2_eq)
  then show ?case using Suc by (simp add: wv_Suc)
qed simp

lemma mod_shift_back_correct:
  assumes "0 < shift" "shift < 32" "n \<le> length out" "\<And>k. n \<le> k \<Longrightarrow> k < length out \<Longrightarrow> out ! k = 0"
  shows "length (mod_shift_back shift n un out) = length out"
    "\<And>k. n \<le> k \<Longrightarrow> mod_shift_back shift n un out ! k = out ! k"
    "wv (mod_shift_back shift n un out) n = wv un n div 2 ^ shift"
proof -
  let ?B = "4294967296 :: nat" and ?X = "wv un n"
  define R where "R = ?X div 2 ^ shift"
  have B: "?B = 2 ^ (32 - shift) * 2 ^ shift" using assms(2) by (simp flip: power_add)
  have X: "?X div ?B ^ i = unat (un ! i) + ?B * (?X div ?B ^ Suc i)" if "i < n" for i
    using wv_div [OF that, of un] mult_div_mod_eq [of ?B "?X div ?B ^ i"]
    by (simp add: div_mult2_eq [symmetric] mult.commute)
  let ?f = "\<lambda>i (out, carry). let word = un ! i in (out[i := drop_bit shift word OR carry], push_bit (32 - shift) word)"
  let ?P = "\<lambda>i (o', carry :: u32). length o' = length out \<and> (\<forall>k. k < i \<or> n \<le> k \<longrightarrow> o' ! k = out ! k) \<and>
    unat carry = (?X div ?B ^ i mod 2 ^ shift) * 2 ^ (32 - shift) \<and>
    (\<forall>j. i \<le> j \<and> j < n \<longrightarrow> unat (o' ! j) = R div ?B ^ j mod ?B)"
  have "?P 0 (fold ?f (rev [0..<n]) (out, 0))"
  proof (rule fold_down_invariant [where P = "?P"])
    show "?P n (out, 0)" using wv_bound [of un n] by simp
  next
    fix i and s :: "u32 list \<times> u32"
    assume i: "i < n" and P: "?P (Suc i) s"
    obtain o' c where s: "s = (o', c)" by (meson surj_pair)
    define w where "w = un ! i"
    define Y where "Y = ?X div ?B ^ Suc i"
    have c: "unat c = Y mod 2 ^ shift * 2 ^ (32 - shift)" using P by (simp add: s Y_def)
    have wB: "unat w < 2 ^ (32 - shift) * 2 ^ shift" using unat_u32_less [of w] B by simp
    have dw: "unat (drop_bit shift w) = unat w div 2 ^ shift" by (rule unat_drop_bit)
    have lowdw: "unat w div 2 ^ shift < 2 ^ (32 - shift)" using wB by (rule less_mult_imp_div_less)
    have digit: "unat (drop_bit shift w OR c) = unat w div 2 ^ shift + Y mod 2 ^ shift * 2 ^ (32 - shift)"
      unfolding unsigned_or_eq c dw by (intro or_eq_add_nat [where k = "32 - shift"] lowdw dvd_triv_right)
    have Xi: "?X div ?B ^ i = unat w + ?B * Y" using X [OF i] by (simp add: w_def Y_def)
    have "R div ?B ^ i = (unat w + ?B * Y) div 2 ^ shift"
      unfolding R_def Xi [symmetric] by (simp add: div_mult2_eq [symmetric] mult.commute)
    also have "\<dots> = unat w div 2 ^ shift + 2 ^ (32 - shift) * Y"
      unfolding B by (simp add: mult.assoc mult.left_commute [of _ "2 ^ shift"])
    finally have Ri: "R div ?B ^ i mod ?B = unat w div 2 ^ shift + Y mod 2 ^ shift * 2 ^ (32 - shift)"
      using lowdw unfolding B mod_mult2_eq by simp
    have "unat (push_bit (32 - shift) w) = unat w * 2 ^ (32 - shift) mod (2 ^ shift * 2 ^ (32 - shift))"
      unfolding unat_push_bit using B by (simp add: mult.commute)
    also have "\<dots> = unat w mod 2 ^ shift * 2 ^ (32 - shift)" by (simp add: mult_mod_left)
    also have "unat w mod 2 ^ shift = ?X div ?B ^ i mod 2 ^ shift"
      unfolding Xi unfolding B by (simp add: mult.assoc mult.left_commute [of _ "2 ^ shift"])
    finally have carry: "unat (push_bit (32 - shift) w) = ?X div ?B ^ i mod 2 ^ shift * 2 ^ (32 - shift)" .
    have new: "unat (o'[i := drop_bit shift w OR c] ! j) = R div ?B ^ j mod ?B" if "i \<le> j" "j < n" for j
      using that P i assms(3) Ri digit unfolding s by (cases "j = i") auto
    have "?f i s = (o'[i := drop_bit shift w OR c], push_bit (32 - shift) w)" by (simp add: s w_def Let_def)
    moreover have "?P i (o'[i := drop_bit shift w OR c], push_bit (32 - shift) w)"
      using P i carry new unfolding s by auto
    ultimately show "?P i (?f i s)" by (simp only:)
  qed
  then obtain o' c where f: "fold ?f (rev [0..<n]) (out, 0) = (o', c)" and
    P: "length o' = length out" "\<And>k. n \<le> k \<Longrightarrow> o' ! k = out ! k" "\<And>j. j < n \<Longrightarrow> unat (o' ! j) = R div ?B ^ j mod ?B"
    by (cases "fold ?f (rev [0..<n]) (out, 0)") auto
  have m: "mod_shift_back shift n un out = o'" unfolding mod_shift_back_def f by simp
  have "R \<le> ?X" unfolding R_def by simp
  then have "R < ?B ^ n" using wv_bound [of un n] by linarith
  then show "length (mod_shift_back shift n un out) = length out"
    "\<And>k. n \<le> k \<Longrightarrow> mod_shift_back shift n un out ! k = out ! k"
    "wv (mod_shift_back shift n un out) n = wv un n div 2 ^ shift"
    using P(1,2) wv_digits [OF P(3)] by (simp_all add: m R_def)
qed

section \<open>The whole reduction\<close>

lemma mod_loop_correct:
  assumes n: "2 \<le> n" and len: "length un = m + n + 1" and top: "2147483648 \<le> unat (vn ! (n - 1))"
    and small: "wv un (m + n + 1) < 4294967296 ^ (m + 1) * wv vn n"
  shows "length (fold (mod_step vn n) (rev [0..<m + 1]) un) = length un"
    "wv (fold (mod_step vn n) (rev [0..<m + 1]) un) n = wv un (m + n + 1) mod wv vn n"
proof -
  let ?B = "4294967296 :: nat" and ?V = "wv vn n" and ?T = "wv un (m + n + 1)"
  let ?P = "\<lambda>i u. length u = length un \<and> wv u (m + n + 1) < ?B ^ i * ?V \<and> wv u (m + n + 1) mod ?V = ?T mod ?V"
  have "?P 0 (fold (mod_step vn n) (rev [0..<m + 1]) un)"
  proof (rule fold_down_invariant [where P = "?P"])
    show "?P (m + 1) un" using small by simp
  next
    fix i u assume i: "i < m + 1" and P: "?P (Suc i) u"
    let ?w = "i + n + 1"
    have wm: "?w \<le> m + n + 1" using i by simp
    have "?V < ?B ^ n" by (rule wv_bound)
    then have "?B ^ Suc i * ?V < ?B ^ Suc i * ?B ^ n" by simp
    moreover have "?B ^ Suc i * ?B ^ n = ?B ^ ?w" by (simp add: power_add)
    moreover have "wv u (m + n + 1) < ?B ^ Suc i * ?V" using P by blast
    ultimately have lt: "wv u (m + n + 1) < ?B ^ ?w" by linarith
    then have tot: "wv u (m + n + 1) = wv u ?w" using wv_mod [OF wm, of u] by simp
    have tail: "u ! k = 0" if "?w \<le> k" "k < m + n + 1" for k
    proof -
      have "?B ^ ?w \<le> ?B ^ k" using that by (intro power_increasing) auto
      then have "wv u (m + n + 1) div ?B ^ k = 0" using lt by simp
      then show ?thesis using wv_div [of k "m + n + 1" u] that by (simp add: word_unat_eq_iff)
    qed
    have "i + n < length u" using i len P by simp
    moreover have "wv u ?w < ?B ^ (i + 1) * ?V" using P tot by simp
    ultimately have s: "length (mod_step vn n i u) = length u" "\<And>k. ?w \<le> k \<Longrightarrow> mod_step vn n i u ! k = u ! k"
      "wv (mod_step vn n i u) ?w + wv u ?w div ?B ^ i div ?V * ?V * ?B ^ i = wv u ?w"
      using mod_step_correct [OF n _ top, of i u] by blast+
    let ?u = "mod_step vn n i u" and ?U = "wv u ?w div ?B ^ i"
    have tot': "wv ?u (m + n + 1) = wv ?u ?w" using wm tail s(2) by (intro wv_zero_tail) simp_all
    have V0: "0 < ?V" using P by (cases "?V") simp_all
    have "wv u ?w = wv u i + ?B ^ i * ?U" by (rule window_value) simp
    moreover have "?B ^ i * (?U div ?V * ?V + ?U mod ?V) = ?B ^ i * ?U" by (simp only: div_mult_mod_eq)
    moreover have "?B ^ i * (?U div ?V * ?V) = ?U div ?V * ?V * ?B ^ i" by (rule mult.commute)
    ultimately have "wv u ?w = wv u i + ?B ^ i * (?U mod ?V) + ?U div ?V * ?V * ?B ^ i"
      unfolding distrib_left by linarith
    then have e: "wv ?u ?w = wv u i + ?B ^ i * (?U mod ?V)" using s(3) by linarith
    have "?B ^ i * (?U mod ?V + 1) \<le> ?B ^ i * ?V" using V0 by (intro mult_le_mono2) (simp add: Suc_le_eq)
    then have "wv ?u ?w < ?B ^ i * ?V" unfolding e using wv_bound [of u i] by (simp add: algebra_simps)
    moreover have "wv ?u ?w mod ?V = wv u ?w mod ?V"
    proof -
      have "?U div ?V * ?V * ?B ^ i = ?U div ?V * ?B ^ i * ?V" by (rule mult.assoc [THEN trans]) (simp only: mult.commute mult.left_commute)
      then have "wv u ?w = wv ?u ?w + ?U div ?V * ?B ^ i * ?V" using s(3) by linarith
      then show ?thesis by (metis mod_mult_self1)
    qed
    ultimately show "?P i ?u" using s(1) P tot tot' by simp
  qed
  then have f: "length (fold (mod_step vn n) (rev [0..<m + 1]) un) = length un"
    "wv (fold (mod_step vn n) (rev [0..<m + 1]) un) (m + n + 1) = ?T mod ?V" by (auto simp: mod_less)
  have "?T mod ?V < ?B ^ n"
  proof -
    have "0 < ?V" using small by (cases "?V") simp_all
    then have "?T mod ?V < ?V" by simp
    then show ?thesis using wv_bound [of vn n] by linarith
  qed
  then show "length (fold (mod_step vn n) (rev [0..<m + 1]) un) = length un"
    "wv (fold (mod_step vn n) (rev [0..<m + 1]) un) n = ?T mod ?V"
    using f wv_mod [of n "m + n + 1" "fold (mod_step vn n) (rev [0..<m + 1]) un"] by simp_all
qed

lemma mod_u32_correct:
  assumes "v \<noteq> 0"
  shows "unat (bignum_mod_u32 a v) = bn_val a mod unat v"
proof -
  let ?B = "4294967296 :: nat" and ?n = "bn_LENGTH a"
  have v: "0 < unat v" using assms by (simp add: unat_gt_0)
  let ?f = "\<lambda>i r. (push_bit 32 r OR ucast (bn_LIMBS a ! i)) mod ucast v :: u64"
  let ?P = "\<lambda>i r. unat r < unat v \<and> unat r = bn_val a div ?B ^ i mod unat v"
  have "?P 0 (fold ?f (rev [0..<?n]) 0)"
  proof (rule fold_down_invariant [where P = "?P"])
    show "?P ?n 0" using v bn_val_bound [of a] by simp
  next
    fix i and r :: u64
    assume i: "i < ?n" and P: "?P (Suc i) r"
    let ?w = "bn_LIMBS a ! i"
    have "unat (ucast ?w OR push_bit 32 r) = unat (ucast ?w :: u64) + unat r * 2 ^ 32"
      using P unat_u32_less [of v] unat_u32_less [of ?w] by (intro unat_join) simp_all
    then have u: "unat (push_bit 32 r OR ucast ?w) = unat ?w + unat r * ?B" by (simp add: or.commute)
    have d: "bn_val a div ?B ^ i = unat ?w + ?B * (bn_val a div ?B ^ Suc i)"
      using wv_div [OF i, of "bn_LIMBS a"] mult_div_mod_eq [of ?B "bn_val a div ?B ^ i"]
      by (simp add: bn_val_def div_mult2_eq [symmetric] mult.commute)
    have "bn_val a div ?B ^ i mod unat v = (unat ?w + ?B * (bn_val a div ?B ^ Suc i)) mod unat v" unfolding d [symmetric] ..
    also have "(unat ?w + ?B * (bn_val a div ?B ^ Suc i)) mod unat v = (unat ?w + ?B * (bn_val a div ?B ^ Suc i mod unat v)) mod unat v"
      by (rule trans [OF mod_add_right_eq [symmetric]], subst mod_mult_right_eq [symmetric]) (rule mod_add_right_eq)
    also have "bn_val a div ?B ^ Suc i mod unat v = unat r" using P by simp
    finally have "bn_val a div ?B ^ i mod unat v = (unat ?w + unat r * ?B) mod unat v" by (simp add: mult.commute)
    then show "?P i (?f i r)" using v by (simp add: unat_mod u)
  qed
  then have "unat (fold ?f (rev [0..<?n]) 0) = bn_val a mod unat v" "unat (fold ?f (rev [0..<?n]) 0) < ?B"
    using unat_u32_less [of v] by auto
  then show ?thesis using assms by (simp add: bignum_mod_u32_def unat_ucast_low)
qed

text \<open>The shifted operands, whether or not the divisor has to be shifted.\<close>

definition shifted_operand :: "nat \<Rightarrow> u32 list \<Rightarrow> nat \<Rightarrow> u32 list \<Rightarrow> u32 list" where
  "shifted_operand shift limbs n out =
     (if shift = 0 then copy_at out 0 (take n limbs) else fst (mod_shift_limbs shift limbs n out))"

lemma shifted_divisor:
  assumes "bn_ok a" "0 < bn_LENGTH a"
  defines "n \<equiv> bn_LENGTH a" and "s \<equiv> bignum_clz32 (bn_LIMBS a ! (bn_LENGTH a - 1))"
  defines "vn \<equiv> shifted_operand s (bn_LIMBS a) n (replicate n 0)"
  shows "wv vn n = bn_val a * 2 ^ s" "2147483648 \<le> unat (vn ! (n - 1))"
proof -
  let ?w = "bn_LIMBS a ! (n - 1)" and ?B = "4294967296 :: nat"
  have w: "?w \<noteq> 0" using assms(1,2) by (simp add: n_def bn_ok_def)
  have s: "s = bignum_clz32 ?w" by (simp add: s_def n_def)
  note c = clz32_correct [OF w, folded s]
  have n: "0 < n" "n \<le> length (bn_LIMBS a)" using assms(1,2) by (simp_all add: n_def bn_ok_def)
  have split: "wv xs n = wv xs (n - 1) + unat (xs ! (n - 1)) * ?B ^ (n - 1)" for xs
    using wv_Suc [of xs "n - 1"] n(1) by simp
  have va: "bn_val a = wv (bn_LIMBS a) n" by (simp add: bn_val_def n_def)
  show v: "wv vn n = bn_val a * 2 ^ s"
  proof (cases "s = 0")
    case True
    have "wv vn n = wv (bn_LIMBS a) n"
      using True n by (intro wv_cong) (simp add: vn_def shifted_operand_def nth_copy_at)
    then show ?thesis using True by (simp add: va)
  next
    case False
    obtain o' k where sh: "mod_shift_limbs s (bn_LIMBS a) n (replicate n 0) = (o', k)" by (meson surj_pair)
    have "n \<le> length (replicate n (0 :: u32))" by simp
    note m = mod_shift_limbs_correct [OF c(3) this sh]
    have "wv (bn_LIMBS a) n < (unat ?w + 1) * ?B ^ (n - 1)" using split [of "bn_LIMBS a"] wv_bound [of "bn_LIMBS a" "n - 1"] by simp
    then have "wv (bn_LIMBS a) n * 2 ^ s < (unat ?w + 1) * ?B ^ (n - 1) * 2 ^ s" by simp
    also have "\<dots> = (unat ?w * 2 ^ s + 2 ^ s) * ?B ^ (n - 1)" by (simp add: algebra_simps)
    also have "\<dots> \<le> ?B * ?B ^ (n - 1)"
    proof (rule mult_le_mono1)
      have "(2 :: nat) ^ s dvd 2 ^ 32" using c(3) by (intro le_imp_power_dvd) simp
      then have "(2 :: nat) ^ s dvd ?B" by simp
      then obtain t where t: "?B = 2 ^ s * t" by (elim dvdE)
      have "2 ^ s * unat ?w < 2 ^ s * t" using c(2) unfolding t mult.commute [of "unat ?w"] .
      then have "unat ?w + 1 \<le> t" by simp
      then have "2 ^ s * (unat ?w + 1) \<le> 2 ^ s * t" by (rule mult_le_mono2)
      then show "unat ?w * 2 ^ s + 2 ^ s \<le> ?B" unfolding t by (simp add: algebra_simps)
    qed
    also have "?B * ?B ^ (n - 1) = ?B ^ n" using n(1) by (simp flip: power_Suc)
    finally have lt: "wv o' n + unat k * ?B ^ n < ?B ^ n" using m(3) by simp
    have "unat k = 0"
    proof (rule ccontr)
      assume "unat k \<noteq> 0"
      then have "1 * ?B ^ n \<le> unat k * ?B ^ n" by (intro mult_le_mono1) simp
      then show False using lt by linarith
    qed
    then show ?thesis using False m(3) by (simp add: vn_def shifted_operand_def sh va)
  qed
  have "unat ?w * 2 ^ s * ?B ^ (n - 1) \<le> wv vn n" unfolding v va split [of "bn_LIMBS a"] by (simp add: algebra_simps)
  also have "wv vn n < (unat (vn ! (n - 1)) + 1) * ?B ^ (n - 1)" using split [of vn] wv_bound [of vn "n - 1"] by simp
  finally have "unat ?w * 2 ^ s < unat (vn ! (n - 1)) + 1" unfolding mult_less_cancel2 by blast
  then show "2147483648 \<le> unat (vn ! (n - 1))" using c(1) by simp
qed

lemma mod_correct:
  assumes ok: "bn_ok out" "bn_fits a" "bn_fits modulus" and same: "same \<Longrightarrow> out = a" and nz: "bn_val modulus \<noteq> 0"
  shows "bn_res heap (\<lambda>r. bn_val r = bn_val a mod bn_val modulus) (crypto_bignum_mod heap same out a modulus)"
proof -
  let ?n = "bn_LENGTH modulus" and ?B = "4294967296 :: nat" and ?la = "bn_LENGTH a"
  have oka: "bn_ok a" "bn_ok modulus" using ok by (simp_all add: bn_fits_def)
  have n0: "?n \<noteq> 0" using bn_LENGTH_0 [OF oka(2)] nz by simp
  have cmp: "crypto_bignum_compare a modulus < 0 \<longleftrightarrow> bn_val a < bn_val modulus"
    using compare_correct [OF oka] by simp
  consider "bn_val a < bn_val modulus" | "bn_val modulus \<le> bn_val a" "?n = 1" | "bn_val modulus \<le> bn_val a" "2 \<le> ?n"
    using n0 by linarith
  then show ?thesis
  proof cases
    case 1
    then show ?thesis
      using copy_correct [OF ok(1) oka(1) same, where heap = heap] n0 ok cmp by (simp add: crypto_bignum_mod_def bn_fits_def)
  next
    case 2
    have m: "bn_val modulus = unat (bn_LIMBS modulus ! 0)" using 2 by (simp add: bn_val_def wv_def)
    then have "bn_LIMBS modulus ! 0 \<noteq> 0" using nz by (auto simp: word_unat_eq_iff)
    from mod_u32_correct [OF this, of a]
    show ?thesis
      using set_u64_correct [OF ok(1), of heap "ucast (bignum_mod_u32 a (bn_LIMBS modulus ! 0))"] 2 cmp
      by (simp add: crypto_bignum_mod_def m)
  next
    case 3
    define m where "m = ?la - ?n"
    have la: "?la = m + ?n" using bn_LENGTH_mono [OF oka(2), of a] 3(1) by (simp add: m_def)
    define s where "s = bignum_clz32 (bn_LIMBS modulus ! (?n - 1))"
    define vn where "vn = shifted_operand s (bn_LIMBS modulus) ?n (replicate ?n 0)"
    have "0 < ?n" using n0 by simp
    note vn = shifted_divisor [OF oka(2) this, folded s_def, folded vn_def]
    have "bn_LIMBS modulus ! (?n - 1) \<noteq> 0" using oka(2) 3(2) by (simp add: bn_ok_def)
    note c = clz32_correct [OF this, folded s_def]
    have capa: "?la \<le> bn_CAPACITY a" using oka(1) by (simp add: bn_ok_def)
    let ?u0 = "replicate (?la + 1) 0 :: u32 list"
    obtain us k where sh: "mod_shift_limbs s (bn_LIMBS a) ?la ?u0 = (us, k)" by (meson surj_pair)
    define un where "un = (if s = 0 then copy_at ?u0 0 (take ?la (bn_LIMBS a)) else us[?la := k])"
    have un: "length un = ?la + 1" "wv un (?la + 1) = bn_val a * 2 ^ s"
    proof -
      have "?la \<le> length ?u0" by simp
      note m = mod_shift_limbs_correct [OF c(3) this sh]
      show "length un = ?la + 1" using m(1) capa by (simp add: un_def min_absorb2)
      show "wv un (?la + 1) = bn_val a * 2 ^ s"
      proof (cases "s = 0")
        case True
        have "wv un (?la + 1) = wv un ?la"
          using True capa by (intro wv_zero_tail) (simp_all add: un_def nth_copy_at min_absorb2 del: replicate_Suc)
        also have "\<dots> = wv (bn_LIMBS a) ?la"
          using True capa by (intro wv_cong) (simp add: un_def nth_copy_at min_absorb2 del: replicate_Suc)
        finally show ?thesis using True by (simp add: bn_val_def)
      next
        case False
        then show ?thesis using m by (simp add: un_def wv_Suc bn_val_def)
      qed
    qed
    have lu: "length un = m + ?n + 1" using un(1) la by simp
    have small: "wv un (m + ?n + 1) < ?B ^ (m + 1) * wv vn ?n"
    proof -
      have "bn_val a < ?B ^ (m + ?n)" using bn_val_bound [of a] la by simp
      also have "\<dots> = ?B ^ (m + 1) * ?B ^ (?n - 1)" using n0 by (simp flip: power_add power_Suc)
      also have "\<dots> \<le> ?B ^ (m + 1) * bn_val modulus" using bn_val_top [OF oka(2)] n0 by (intro mult_le_mono2) simp
      finally have "bn_val a * 2 ^ s < ?B ^ (m + 1) * bn_val modulus * 2 ^ s" by simp
      then show ?thesis using un(2) la vn(1) by (simp add: mult.assoc)
    qed
    define un' where "un' = fold (mod_step vn ?n) (rev [0..<?la - ?n + 1]) un"
    have "?la - ?n + 1 = m + 1" by (simp add: m_def)
    then have un': "length un' = m + ?n + 1" "wv un' ?n = (bn_val a mod bn_val modulus) * 2 ^ s"
      using mod_loop_correct [OF 3(2) lu vn(2) small] lu un(2) la vn(1) unfolding un'_def by (simp_all add: mult_mod_left)
    obtain b h1 where heap: "calloc_ok heap = (b, h1)" by (meson surj_pair)
    have h1: "set h1 \<subseteq> set heap" "\<not> b \<Longrightarrow> False \<in> set heap"
      using heap by (cases heap rule: calloc_ok.cases; auto)+
    have g: "?n \<noteq> 0" "\<not> crypto_bignum_compare a modulus < 0" "?n \<noteq> 1"
      "\<not> ((2 ^ 64 - 1) - 1 < ?n \<or> (2 ^ 64 - 1) - 1 - ?n < ?la)" "\<not> (2 ^ 64 - 1) div 4 < ?n + ?la + 1"
      using n0 cmp 3 ok by (auto simp: bn_fits_def)
    have shifted: "(if s = 0 then (copy_at (replicate ?n 0) 0 (take ?n (bn_LIMBS modulus)), copy_at ?u0 0 (take ?la (bn_LIMBS a)))
        else case mod_shift_limbs s (bn_LIMBS modulus) ?n (replicate ?n 0) of
          (vn, _) \<Rightarrow> case mod_shift_limbs s (bn_LIMBS a) ?la ?u0 of (un, carry) \<Rightarrow> (vn, un[?la := carry])) = (vn, un)"
    proof -
      obtain vs kv where sv: "mod_shift_limbs s (bn_LIMBS modulus) ?n (replicate ?n 0) = (vs, kv)" by (meson surj_pair)
      show ?thesis unfolding sv sh prod.case by (simp add: vn_def un_def shifted_operand_def sv)
    qed
    note start = crypto_bignum_mod_def [of heap same out a modulus, unfolded Let_def if_not_P [OF g(1)] if_not_P [OF g(2)]
      if_not_P [OF g(3)] if_not_P [OF g(4)] if_not_P [OF g(5)] heap prod.case, folded s_def, unfolded shifted prod.case, folded un'_def]
    show ?thesis
    proof (cases b)
      case False
      then show ?thesis using ok(1) h1 by (simp add: start bn_res_def)
    next
      case True
      have "?n < 4611686018427387904" using ok(3) by (simp add: bn_fits_def)
      then show ?thesis
      proof (cases rule: reserve_cases [where heap = h1 and a = crypto_bignum_init])
        case (fail heap')
        then show ?thesis using True ok(1) h1 by (auto simp: start bn_res_def)
      next
        case (ok j heap')
        let ?L = "replicate j 0 :: u32 list"
        have nj: "?n \<le> j" using ok(2) by (simp add: crypto_bignum_init_def)
        define R where "R = (if s = 0 then copy_at ?L 0 (take ?n un') else mod_shift_back s ?n un' ?L)"
        have R: "length R = j" "\<And>i. ?n \<le> i \<Longrightarrow> i < j \<Longrightarrow> R ! i = 0" "wv R ?n = bn_val a mod bn_val modulus"
        proof -
          have "length R = j \<and> (\<forall>i. ?n \<le> i \<and> i < j \<longrightarrow> R ! i = 0) \<and> wv R ?n = bn_val a mod bn_val modulus"
          proof (cases "s = 0")
            case True
            have "wv R ?n = wv un' ?n"
              using True nj un'(1) by (intro wv_cong) (simp add: R_def nth_copy_at min_absorb2)
            then show ?thesis using True nj un' by (simp add: R_def nth_copy_at min_absorb2)
          next
            case False
            then have "0 < s" by simp
            note b = mod_shift_back_correct [OF this c(3), where n = ?n and out = ?L and un = un']
            show ?thesis using b nj un'(2) False by (simp add: R_def)
          qed
          then show "length R = j" "\<And>i. ?n \<le> i \<Longrightarrow> i < j \<Longrightarrow> R ! i = 0" "wv R ?n = bn_val a mod bn_val modulus" by auto
        qed
        have "crypto_bignum_mod heap same out a modulus =
            (SUCCESS, bignum_normalize (crypto_bignum_init\<lparr>bn_LIMBS := R, bn_LENGTH := ?n\<rparr>), heap')"
          using True unfolding start ok(1) by (simp add: R_def crypto_bignum_init_def)
        then show ?thesis
          using product_ok [of R j ?n crypto_bignum_init] R nj ok(3) h1 by (simp add: bn_res_def)
      qed
    qed
  qed
qed

section \<open>Reducing products\<close>

text \<open>
  C37. The remainder: for every well-formed dividend and divisor (the divisor not zero), the
  long division with its shift, quotient estimates, corrections and shift back returns the
  dividend modulo the divisor in a well-formed object, in place or not; it fails only when an
  allocation fails.
\<close>

theorem crypto_bignum_mod_correct:
  assumes "bn_ok out" and "bn_fits a" and "bn_fits modulus" and "same \<Longrightarrow> out = a" and "bn_val modulus \<noteq> 0"
  shows "case crypto_bignum_mod heap same out a modulus of (err, r, heap') \<Rightarrow>
    bn_ok r \<and> (err = SUCCESS \<longrightarrow> bn_val r = bn_val a mod bn_val modulus) \<and> (err \<noteq> SUCCESS \<longrightarrow> False \<in> set heap)"
proof -
  have "bn_res heap (\<lambda>r. bn_val r = bn_val a mod bn_val modulus) (crypto_bignum_mod heap same out a modulus)"
    using assms by (intro mod_correct)
  then show ?thesis by (auto simp: bn_res_def split: prod.splits if_splits)
qed

definition two_limbs :: "u32 \<Rightarrow> u32 \<Rightarrow> LiberaCBignum" where
  "two_limbs x y = \<lparr>bn_LIMBS = [x, y], bn_LENGTH = 2\<rparr>"

lemma two_limbs: "y \<noteq> 0 \<Longrightarrow> bn_fits (two_limbs x y)" "bn_val (two_limbs x y) = unat x + unat y * 4294967296"
  by (auto simp: two_limbs_def bn_fits_def bn_ok_def bn_val_def wv_def numeral_2_eq_2 less_Suc_eq nth_Cons' split: if_splits)

theorem crypto_bignum_mod_correct_witness:
  "case crypto_bignum_mod [] False crypto_bignum_init (two_limbs 5 7) (two_limbs 2 3) of (err, r, heap') \<Rightarrow>
    err = SUCCESS \<and> bn_val r = 4294967297"
  using crypto_bignum_mod_correct [of crypto_bignum_init "two_limbs 5 7" "two_limbs 2 3" False "[]"]
  by (auto simp: two_limbs split: prod.splits)

lemma bn_val_fits:
  assumes "bn_ok a" "bn_val a < 4294967296 ^ n" "n < 288230376151711744"
  shows "bn_fits a"
  using bn_LENGTH_le [OF assms(1,2)] assms by (simp add: bn_fits_def)

lemma product_fits:
  assumes "bn_fits a" "bn_fits b" "bn_LENGTH a + bn_LENGTH b < 288230376151711744" "bn_ok r" "bn_val r = bn_val a * bn_val b"
  shows "bn_fits r"
proof -
  have "bn_val a * bn_val b < 4294967296 ^ bn_LENGTH a * 4294967296 ^ bn_LENGTH b"
    using bn_val_bound [of a] bn_val_bound [of b] by (intro mult_strict_mono) simp_all
  then show ?thesis using assms bn_val_fits [of r "bn_LENGTH a + bn_LENGTH b"] by (simp add: power_add)
qed

lemma mod_mul_correct:
  assumes ok: "bn_ok out" "bn_fits a" "bn_fits b" "bn_fits modulus" "bn_LENGTH a + bn_LENGTH b < 288230376151711744"
    and nz: "bn_val modulus \<noteq> 0"
  shows "bn_res heap (\<lambda>r. bn_val r = bn_val a * bn_val b mod bn_val modulus) (crypto_bignum_mod_mul heap out a b modulus)"
proof -
  have n: "bn_LENGTH modulus \<noteq> 0" using bn_LENGTH_0 [of modulus] nz ok(4) by (simp add: bn_fits_def)
  from mul_correct [OF bn_init(1) ok(2,3), where heap = heap and same = False] show ?thesis
  proof (cases rule: bn_resE)
    case (ok r heap')
    then have "bn_fits r" using product_fits assms by blast
    from mod_correct [OF assms(1) this assms(4) _ nz, where same = False and heap = heap']
    show ?thesis using ok n by (auto simp: crypto_bignum_mod_mul_def bn_res_def split: prod.splits if_splits)
  next
    case fail
    then show ?thesis using n assms(1) by (simp add: crypto_bignum_mod_mul_def bn_res_def)
  qed
qed

lemma mod_square_correct:
  assumes ok: "bn_ok out" "bn_fits a" "bn_fits modulus" "bn_LENGTH a + bn_LENGTH a < 288230376151711744"
    and nz: "bn_val modulus \<noteq> 0"
  shows "bn_res heap (\<lambda>r. bn_val r = bn_val a * bn_val a mod bn_val modulus) (crypto_bignum_mod_square heap out a modulus)"
proof -
  have n: "bn_LENGTH modulus \<noteq> 0" using bn_LENGTH_0 [of modulus] nz ok(3) by (simp add: bn_fits_def)
  from square_correct [OF bn_init(1) ok(2), where heap = heap and same = False] show ?thesis
  proof (cases rule: bn_resE)
    case (ok r heap')
    then have "bn_fits r" using product_fits assms by blast
    from mod_correct [OF assms(1) this assms(3) _ nz, where same = False and heap = heap']
    show ?thesis using ok n by (auto simp: crypto_bignum_mod_square_def bn_res_def split: prod.splits if_splits)
  next
    case fail
    then show ?thesis using n assms(1) by (simp add: crypto_bignum_mod_square_def bn_res_def)
  qed
qed

section \<open>Products\<close>

text \<open>
  C38. The product: the dispatcher (schoolbook below 96 limbs or for operands of different
  lengths, one Karatsuba level with schoolbook halves above) and the squaring with halved cross
  products both return the mathematical product in a well-formed object, whatever the output
  held before and whether or not it is an operand; they fail only when an allocation fails.
\<close>

theorem crypto_bignum_mul_correct:
  assumes "bn_ok out" and "bn_fits a" and "bn_fits b"
  shows "(case crypto_bignum_mul heap same out a b of (err, r, heap') \<Rightarrow>
      bn_ok r \<and> (err = SUCCESS \<longrightarrow> bn_val r = bn_val a * bn_val b) \<and> (err \<noteq> SUCCESS \<longrightarrow> False \<in> set heap)) \<and>
    (case crypto_bignum_square heap same out a of (err, r, heap') \<Rightarrow>
      bn_ok r \<and> (err = SUCCESS \<longrightarrow> bn_val r = (bn_val a)\<^sup>2) \<and> (err \<noteq> SUCCESS \<longrightarrow> False \<in> set heap))"
  using mul_correct [OF assms, where heap = heap and same = same]
    square_correct [OF assms(1,2), where heap = heap and same = same]
  by (auto simp: bn_res_def power2_eq_square split: prod.splits if_splits)

theorem crypto_bignum_mul_correct_witness:
  "case crypto_bignum_mul [] True (two_limbs 5 7) (two_limbs 5 7) (two_limbs 2 3) of (err, r, heap') \<Rightarrow>
    err = SUCCESS \<and> bn_val r = (5 + 7 * 4294967296) * (2 + 3 * 4294967296)"
  using crypto_bignum_mul_correct [of "two_limbs 5 7" "two_limbs 5 7" "two_limbs 2 3" "[]" True]
  by (auto simp: two_limbs bn_fits_ok split: prod.splits)

end
