(* ===== verification/Bignum_Mont_Correct.thy ===== *)
theory Bignum_Mont_Correct
  imports Bignum_Mont Bignum_Bytes Bignum_Mod_Correct
begin

text \<open>
  Montgomery multiplication divides the product by \<open>R = 2 ^ (32 n)\<close> modulo the modulus. The
  interleaved loops are shown to keep an integer equation, so that the result is below twice the
  modulus before the final subtraction. The interface \<open>montgomery\<close> states the contract of
  such a multiplication; the arithmetic of residues and the exponentiations rest on it alone.
\<close>

section \<open>The word inverse\<close>

lemma newton_iteration:
  fixes n0 :: "'a :: comm_ring_1"
  shows "1 - n0 * fold (\<lambda>_ x. x * (2 - n0 * x)) [0..<k] 1 = (1 - n0) ^ 2 ^ k"
proof (induction k)
  case (Suc k)
  define x where "x = fold (\<lambda>_ x. x * (2 - n0 * x)) [0..<k] (1 :: 'a)"
  have "fold (\<lambda>_ x. x * (2 - n0 * x)) [0..<Suc k] 1 = x * (2 - n0 * x)" by (simp add: x_def)
  moreover have "1 - n0 * (x * (2 - n0 * x)) = (1 - n0 * x) ^ 2" by (simp add: power2_eq_square algebra_simps)
  ultimately show ?case using Suc unfolding x_def [symmetric] by (simp only: power_mult [symmetric] power_Suc mult.commute)
qed simp

lemma mont_n0inv_correct:
  assumes "n0 AND 1 \<noteq> (0 :: u32)"
  shows "n0 * bignum_mont_n0inv n0 = - 1"
proof -
  have "odd n0" using assms by (simp add: and_one_eq odd_iff_mod_2_eq_one)
  then obtain h where "n0 = 2 * h + 1" by (elim oddE)
  then have "1 - n0 = 2 * (- h)" by simp
  then obtain f where "1 - n0 = 2 * f" by blast
  then have "(1 - n0) ^ 2 ^ 5 = 2 ^ 32 * f ^ 32" by (simp only: power_mult_distrib) simp
  also have "(2 :: u32) ^ 32 = 0" by simp
  finally have "n0 * fold (\<lambda>_ x. x * (2 - n0 * x)) [0..<5] 1 = 1"
    using newton_iteration [of n0 5] by simp
  then show ?thesis by (simp add: bignum_mont_n0inv_def)
qed

lemma mont_quotient:
  assumes "n0 AND 1 \<noteq> (0 :: u32)"
  shows "(unat t + unat (t * bignum_mont_n0inv n0) * unat n0) mod 4294967296 = 0"
proof -
  have "t + t * bignum_mont_n0inv n0 * n0 = t + t * (n0 * bignum_mont_n0inv n0)" by (simp add: ac_simps)
  also have "\<dots> = 0" by (simp add: mont_n0inv_correct [OF assms])
  finally have "unat (t + t * bignum_mont_n0inv n0 * n0) = 0" by simp
  then have "(unat t + unat (t * bignum_mont_n0inv n0 * n0)) mod 4294967296 = 0" by (simp add: unat_word_ariths)
  moreover have "unat (t * bignum_mont_n0inv n0 * n0) = unat (t * bignum_mont_n0inv n0) * unat n0 mod 4294967296"
    by (simp only: unat_word_ariths) simp
  ultimately show ?thesis by (simp only: mod_add_right_eq)
qed

section \<open>The interleaved loops\<close>

text \<open>An operand of \<open>len\<close> limbs, read as \<open>n\<close> limbs.\<close>

definition padded :: "u32 list \<Rightarrow> nat \<Rightarrow> nat \<Rightarrow> u32 list" where
  "padded xs len n = map (\<lambda>j. if j < len then xs ! j else 0) [0..<n]"

lemma nth_padded [simp]: "j < n \<Longrightarrow> padded xs len n ! j = (if j < len then xs ! j else 0)"
  by (simp add: padded_def)

lemma wv_padded: "len \<le> n \<Longrightarrow> wv (padded xs len n) n = wv xs len"
proof -
  assume le: "len \<le> n"
  have "wv (padded xs len n) n = wv (padded xs len n) len"
    by (rule wv_zero_tail) (use le in auto)
  also have "\<dots> = wv xs len" using le by (intro wv_cong) simp
  finally show ?thesis .
qed

lemma cios_multiply_row: "cios_multiply a a_length bi n work = bignum_mul_row bi (padded a a_length n) n 0 work"
  unfolding cios_multiply_def bignum_mul_row_def by (intro fold_cong) (auto simp: Let_def mult.commute fun_eq_iff)

lemma cios_reduce_correct:
  assumes "n \<noteq> 0" "n < length work" "unat carry < 4294967296" and red: "cios_reduce m modulus n carry work = (out, carry')"
    and start: "unat carry * 4294967296 = unat (work ! 0) + unat m * unat (modulus ! 0)"
  shows "length out = length work" "\<And>k. n \<le> k \<Longrightarrow> out ! k = work ! k" "unat carry' < 4294967296"
    "wv out (n - 1) * 4294967296 + unat carry' * 4294967296 ^ n = wv work n + unat m * wv modulus n"
proof -
  let ?P = "\<lambda>j (out, carry' :: u64). length out = length work \<and> (\<forall>k\<ge>j. out ! k = work ! k) \<and> unat carry' < 4294967296 \<and>
    wv out (j - 1) * 4294967296 + unat carry' * 4294967296 ^ j = wv work j + unat m * wv modulus j"
  have "?P n (cios_reduce m modulus n carry work)"
    unfolding cios_reduce_def
  proof (rule fold_upt_invariant [where P = "?P"])
    show "?P 1 (work, carry)" using start assms(3) by (simp add: wv_def)
  next
    fix j and s :: "u32 list \<times> u64"
    assume j: "1 \<le> j" "j < n" and P: "?P j s"
    obtain o' c where s: "s = (o', c)" by (meson surj_pair)
    obtain i where i: "j = Suc i" using j by (cases j) auto
    define z where "z = (ucast (o' ! j) + ucast m * ucast (modulus ! j) + c :: u64)"
    have "z = ucast m * ucast (modulus ! j) + ucast (o' ! j) + c" by (simp add: z_def)
    then have z: "unat z = unat m * unat (modulus ! j) + unat (o' ! j) + unat c"
      using unat_mul_add [of c m "modulus ! j" "o' ! j"] P s by simp
    have eq: "wv o' i * 4294967296 + unat c * 4294967296 ^ j = wv work j + unat m * wv modulus j" and oj: "o' ! j = work ! j"
      using P s i by auto
    have "wv (o'[i := ucast z]) j = wv o' i + unat (ucast z :: u32) * 4294967296 ^ i"
      using P j assms(2) s i by (simp add: wv_Suc)
    then have "wv (o'[i := ucast z]) j * 4294967296 + unat (drop_bit 32 z) * 4294967296 ^ Suc j =
      wv o' i * 4294967296 + (unat (ucast z :: u32) + unat (drop_bit 32 z) * 4294967296) * 4294967296 ^ j"
      by (simp add: i algebra_simps)
    also have "\<dots> = wv work (Suc j) + unat m * wv modulus (Suc j)"
      using eq unfolding split_u64 z oj wv_Suc by (simp add: algebra_simps)
    finally show "?P (Suc j) (case s of (work, carry) \<Rightarrow>
       let z = ucast (work ! j) + ucast m * ucast (modulus ! j) + carry :: u64
       in (work[j - 1 := ucast z], drop_bit 32 z))"
      using P unat_high_less [of z] unfolding s prod.case Let_def z_def [symmetric] by (simp add: i)
  qed (use assms(1) in simp)
  then show "length out = length work" "\<And>k. n \<le> k \<Longrightarrow> out ! k = work ! k" "unat carry' < 4294967296"
    "wv out (n - 1) * 4294967296 + unat carry' * 4294967296 ^ n = wv work n + unat m * wv modulus n"
    by (auto simp: red)
qed

text \<open>One limb of the second operand: the running value gains a product and a multiple of the modulus and loses a limb.\<close>

lemma cios_step_correct:
  fixes a b modulus work :: "u32 list" and a_length b_length i :: nat
  assumes n: "n \<noteq> 0" "length work = n + 2" "work ! (n + 1) = 0" and len: "a_length \<le> n"
    and odd: "modulus ! 0 AND 1 \<noteq> 0" and inv: "n0inv = bignum_mont_n0inv (modulus ! 0)"
  defines "w' \<equiv> cios_step a a_length b b_length modulus n n0inv i work"
  shows "length w' = n + 2 \<and> w' ! (n + 1) = 0 \<and>
    (\<exists>m. m < 4294967296 \<and> wv w' (n + 1) * 4294967296 =
      wv work (n + 1) + unat (if i < b_length then b ! i else 0) * wv a a_length + m * wv modulus n)"
proof -
  let ?B = "4294967296 :: nat"
  define bi where "bi = (if i < b_length then b ! i else 0)"
  obtain w1 c1 where row: "cios_multiply a a_length bi n work = (w1, c1)" by (meson surj_pair)
  have r: "length w1 = n + 2" "w1 ! n = work ! n" "w1 ! Suc n = 0" "unat c1 < ?B"
    "wv w1 n + unat c1 * ?B ^ n = wv work n + unat bi * wv a a_length"
    using mul_row_correct [of 0 n work bi "padded a a_length n" w1 c1] row n len
    by (simp_all add: cios_multiply_row wv_padded)
  define z1 where "z1 = (ucast (w1 ! n) + c1 :: u64)"
  have z1: "unat z1 = unat (work ! n) + unat c1"
    unfolding z1_def using r unat_u32_less [of "work ! n"] by (subst unat_add_u64) simp_all
  define w2 where "w2 = (w1[n := ucast z1])[n + 1 := ucast (drop_bit 32 z1)]"
  have hi1: "unat (ucast (drop_bit 32 z1) :: u32) = unat (drop_bit 32 z1)" "unat (drop_bit 32 z1) \<le> 1"
    using unat_high_less [of z1] unat_u32_less [of "work ! n"] r(4) by (simp_all add: unat_ucast_low unat_high z1 less_Suc_eq_le [symmetric] less_mult_imp_div_less)
  have low2: "wv w2 n = wv w1 n" "length w2 = n + 2" "w2 ! n = ucast z1" "w2 ! (n + 1) = ucast (drop_bit 32 z1)"
    using r by (simp_all add: w2_def)
  have "wv w2 n + unat (w2 ! n) * ?B ^ n + unat (w2 ! (n + 1)) * ?B ^ (n + 1) =
      wv w1 n + (unat (ucast z1 :: u32) + unat (drop_bit 32 z1) * ?B) * ?B ^ n"
    unfolding low2(1,3,4) hi1(1) by (simp add: algebra_simps)
  also have "\<dots> = wv work (n + 1) + unat bi * wv a a_length"
    using r(5) unfolding split_u64 z1 by (simp add: wv_Suc algebra_simps)
  finally have v2: "wv w2 n + unat (w2 ! n) * ?B ^ n + unat (w2 ! (n + 1)) * ?B ^ (n + 1) = wv work (n + 1) + unat bi * wv a a_length" .
  define m where "m = w2 ! 0 * n0inv"
  define z2 where "z2 = (ucast (w2 ! 0) + ucast m * ucast (modulus ! 0) :: u64)"
  have "z2 = ucast m * ucast (modulus ! 0) + ucast (w2 ! 0) + 0" by (simp add: z2_def)
  then have z2: "unat z2 = unat m * unat (modulus ! 0) + unat (w2 ! 0)"
    using unat_mul_add [of 0 m "modulus ! 0" "w2 ! 0"] by simp
  have "unat z2 mod ?B = 0"
    using mont_quotient [OF odd, of "w2 ! 0"] by (simp add: z2 m_def inv add.commute)
  then have start: "unat (drop_bit 32 z2) * ?B = unat (w2 ! 0) + unat m * unat (modulus ! 0)"
    using split_u64 [of z2] by (simp add: unat_ucast_low z2)
  obtain w3 c3 where red: "cios_reduce m modulus n (drop_bit 32 z2) w2 = (w3, c3)" by (meson surj_pair)
  have nl: "n < length w2" using low2 by simp
  note r3 = cios_reduce_correct [OF n(1) nl unat_high_less red start]
  define z3 where "z3 = (ucast (w3 ! n) + c3 :: u64)"
  have z3: "unat z3 = unat (w2 ! n) + unat c3"
    unfolding z3_def using r3(2) [of n] r3(3) unat_u32_less [of "w2 ! n"] by (subst unat_add_u64) simp_all
  define top where "top = (ucast (ucast (w2 ! (n + 1)) + drop_bit 32 z3) :: u32)"
  have hi3: "unat (drop_bit 32 z3) \<le> 1"
    using unat_u32_less [of "w2 ! n"] r3(3) by (simp add: unat_high z3 less_Suc_eq_le [symmetric] less_mult_imp_div_less)
  have "unat (ucast (w2 ! (n + 1)) + drop_bit 32 z3 :: u64) = unat (w2 ! (n + 1)) + unat (drop_bit 32 z3)"
    using hi1 hi3 low2 by (subst unat_add_u64) simp_all
  then have top: "unat top = unat (w2 ! (n + 1)) + unat (drop_bit 32 z3)"
    unfolding top_def unat_ucast_low using hi1 hi3 low2(4) by simp
  obtain p where p: "n = Suc p" using n(1) by (cases n) auto
  have step: "w' = ((w3[n - 1 := ucast z3])[n := top])[n + 1 := 0]"
    unfolding w'_def cios_step_def bi_def [symmetric] Let_def row prod.case z1_def [symmetric] w2_def [symmetric]
      m_def [symmetric] z2_def [symmetric] red z3_def [symmetric]
    using r3(2) [of "n + 1"] r3(1) low2(2) by (simp add: top_def p)
  have "wv w' (n + 1) = wv w3 p + unat (ucast z3 :: u32) * ?B ^ p + unat top * ?B ^ n"
    using r3(1) low2(2) unfolding step p by (simp add: wv_Suc)
  then have "wv w' (n + 1) * ?B = wv w3 (n - 1) * ?B + (unat (ucast z3 :: u32) + unat (drop_bit 32 z3) * ?B) * ?B ^ n +
      unat (w2 ! (n + 1)) * ?B ^ (n + 1)"
    by (simp add: top p algebra_simps)
  also have "\<dots> = wv work (n + 1) + unat bi * wv a a_length + unat m * wv modulus n"
    using r3(4) v2 unfolding split_u64 z3 by (simp add: algebra_simps)
  finally have "wv w' (n + 1) * ?B = wv work (n + 1) + unat bi * wv a a_length + unat m * wv modulus n" .
  moreover have "length w' = n + 2" "w' ! (n + 1) = 0" using r3(1) low2(2) by (simp_all add: step)
  ultimately show ?thesis using unat_u32_less [of m] by (auto simp: bi_def)
qed

text \<open>
  The unreduced product: \<open>T R = a b + k N\<close> with \<open>k < R\<close>, so that \<open>T < 2 N\<close> for operands whose
  product is below \<open>N R\<close>.
\<close>

lemma cios_candidate_correct:
  assumes n: "n \<noteq> 0" "a_length \<le> n" "b_length \<le> n" and odd: "modulus ! 0 AND 1 \<noteq> 0" and inv: "n0inv = bignum_mont_n0inv (modulus ! 0)"
  obtains t k where "bignum_mont_cios_candidate a a_length b b_length modulus n n0inv = Some t"
    "length t = n + 2" "k < 4294967296 ^ n" "wv t (n + 1) * 4294967296 ^ n = wv a a_length * wv b b_length + k * wv modulus n"
proof -
  let ?bp = "padded b b_length n" and ?t = "fold (cios_step a a_length b b_length modulus n n0inv) [0..<n] (replicate (n + 2) 0)"
  let ?P = "\<lambda>i w. length w = n + 2 \<and> w ! (n + 1) = 0 \<and>
    (\<exists>k < 4294967296 ^ i. wv w (n + 1) * 4294967296 ^ i = wv a a_length * wv ?bp i + k * wv modulus n)"
  have "?P n ?t"
  proof (rule fold_upt_invariant [where P = "?P"])
    have "replicate (n + 2) (0 :: u32) ! (n + 1) = 0" by (rule nth_replicate) simp
    moreover have "wv (replicate (n + 2) 0) (n + 1) = 0" by (rule wv_replicate_0) simp
    ultimately show "?P 0 (replicate (n + 2) 0)" by simp
  next
    fix i w
    assume i: "i < n" and P: "?P i w"
    then obtain k where k: "k < 4294967296 ^ i" "wv w (n + 1) * 4294967296 ^ i = wv a a_length * wv ?bp i + k * wv modulus n" by blast
    let ?w = "cios_step a a_length b b_length modulus n n0inv i w" and ?bi = "unat (if i < b_length then b ! i else 0)"
    from cios_step_correct [OF n(1) _ _ n(2) odd inv, where work = w and b = b and b_length = b_length and i = i] P
    obtain m where w: "length ?w = n + 2" "?w ! (n + 1) = 0" and m: "m < 4294967296"
      "wv ?w (n + 1) * 4294967296 = wv w (n + 1) + ?bi * wv a a_length + m * wv modulus n" by auto
    have "wv ?w (n + 1) * 4294967296 ^ Suc i = wv ?w (n + 1) * 4294967296 * 4294967296 ^ i" by simp
    also have "\<dots> = wv w (n + 1) * 4294967296 ^ i + (?bi * wv a a_length + m * wv modulus n) * 4294967296 ^ i"
      unfolding m(2) by (simp only: algebra_simps)
    also have "\<dots> = wv a a_length * (wv ?bp i + ?bi * 4294967296 ^ i) + (k + m * 4294967296 ^ i) * wv modulus n"
      unfolding k(2) by (simp only: algebra_simps)
    also have "wv ?bp i + ?bi * 4294967296 ^ i = wv ?bp (Suc i)" using i by (simp add: wv_Suc)
    finally have e: "wv ?w (n + 1) * 4294967296 ^ Suc i = wv a a_length * wv ?bp (Suc i) + (k + m * 4294967296 ^ i) * wv modulus n" .
    have "m * 4294967296 ^ i \<le> 4294967295 * 4294967296 ^ i" using m(1) by (intro mult_le_mono1) simp
    then have "k + m * 4294967296 ^ i < 4294967296 ^ Suc i" using k(1) unfolding power_Suc by linarith
    then show "?P (Suc i) ?w" using w e by blast
  qed simp
  then obtain k where "k < 4294967296 ^ n" "wv ?t (n + 1) * 4294967296 ^ n = wv a a_length * wv ?bp n + k * wv modulus n" "length ?t = n + 2" by blast
  moreover have "wv ?bp n = wv b b_length" by (rule wv_padded [OF n(3)])
  moreover have "bignum_mont_cios_candidate a a_length b b_length modulus n n0inv = Some ?t"
    using n by (simp add: bignum_mont_cios_candidate_def)
  ultimately show thesis using that by metis
qed

section \<open>Residues in Montgomery form\<close>

lemma cancel_radix:
  assumes "coprime R N" "a * R mod N = b * R mod (N :: nat)"
  shows "a mod N = b mod N"
proof -
  have "int (a * R) mod int N = int (b * R) mod int N" by (simp only: zmod_int [symmetric] assms(2))
  then have "int N dvd int (a * R) - int (b * R)" by (simp only: mod_eq_dvd_iff)
  then have "int N dvd (int a - int b) * int R" by (simp add: left_diff_distrib)
  then have "int N dvd int a - int b"
    using assms(1) by (simp add: coprime_dvd_mult_left_iff coprime_commute)
  then have "int a mod int N = int b mod int N" by (simp only: mod_eq_dvd_iff)
  then show ?thesis by (simp only: zmod_int [symmetric] of_nat_eq_iff)
qed

lemma montgomery_residue:
  assumes "coprime R N" "z < (N :: nat)" "z * R mod N = p mod N" "p mod N = x * R mod N"
  shows "z = x mod N"
  using cancel_radix [OF assms(1) trans [OF assms(3,4)]] assms(2) by simp

lemma montgomery_product: "(u * R mod N) * (v * R mod N) mod N = (u * v * R) * R mod (N :: nat)"
proof -
  have e: "(u * R) * (v * R) = (u * v * R) * R" by simp
  show ?thesis unfolding mod_mult_eq e ..
qed

lemma montgomery_enter: "x * (R\<^sup>2 mod N) mod N = (x * R) * R mod (N :: nat)"
proof -
  have e: "x * R\<^sup>2 = (x * R) * R" by (simp add: power2_eq_square)
  show ?thesis unfolding mod_mult_right_eq e ..
qed

section \<open>The interface of a Montgomery multiplication\<close>

text \<open>
  A multiplication over contexts \<open>c\<close>, for operands \<open>x\<close> with the predicate \<open>fit\<close> and the value
  \<open>val\<close>. The constant of the context turns a residue into its Montgomery form.
\<close>

locale montgomery =
  fixes valid :: "'c \<Rightarrow> bool" and N R :: "'c \<Rightarrow> nat" and fit :: "'c \<Rightarrow> 'a \<Rightarrow> bool" and val :: "'c \<Rightarrow> 'a \<Rightarrow> nat"
    and mul :: "'c \<Rightarrow> 'a \<Rightarrow> 'a \<Rightarrow> 'a option" and r2 :: "'c \<Rightarrow> 'a"
  assumes coprime_R: "valid c \<Longrightarrow> coprime (R c) (N c)" and N_R: "valid c \<Longrightarrow> N c \<le> R c" and N_pos: "valid c \<Longrightarrow> 0 < N c"
    and mul_law: "valid c \<Longrightarrow> fit c x \<Longrightarrow> fit c y \<Longrightarrow> val c x * val c y < N c * R c \<Longrightarrow>
      \<exists>z. mul c x y = Some z \<and> fit c z \<and> val c z < N c \<and> val c z * R c mod N c = val c x * val c y mod N c"
    and r2_law: "valid c \<Longrightarrow> fit c (r2 c) \<and> val c (r2 c) = (R c)\<^sup>2 mod N c"
begin

text \<open>The Montgomery form \<open>x\<close> of the residue \<open>u\<close>.\<close>

definition rep :: "'c \<Rightarrow> nat \<Rightarrow> 'a \<Rightarrow> bool" where
  "rep c u x \<longleftrightarrow> fit c x \<and> val c x = u * R c mod N c"

lemma rep_fit: "rep c u x \<Longrightarrow> fit c x"
  by (simp add: rep_def)

lemma rep_mod: "u mod N c = v mod N c \<Longrightarrow> rep c u x \<Longrightarrow> rep c v x"
  unfolding rep_def by (metis mod_mult_left_eq)

lemma mul_rep:
  assumes "valid c" "rep c u x" "rep c v y"
  shows "\<exists>z. mul c x y = Some z \<and> rep c (u * v) z"
proof -
  have "val c x < N c" "val c y < N c" using N_pos [OF assms(1)] assms(2,3) by (simp_all add: rep_def)
  then have "val c x * val c y < N c * N c" by (intro mult_strict_mono) simp_all
  also have "\<dots> \<le> N c * R c" using N_R [OF assms(1)] by (rule mult_le_mono2)
  finally obtain z where z: "mul c x y = Some z" "fit c z" "val c z < N c" "val c z * R c mod N c = val c x * val c y mod N c"
    using mul_law [OF assms(1) rep_fit rep_fit] assms(2,3) by blast
  have "val c x = u * R c mod N c" "val c y = v * R c mod N c" using assms(2,3) by (simp_all add: rep_def)
  then have "val c x * val c y mod N c = (u * v * R c) * R c mod N c" by (simp only: montgomery_product)
  from montgomery_residue [OF coprime_R [OF assms(1)] z(3,4) this] show ?thesis using z(1,2) by (simp add: rep_def)
qed

lemma to_rep:
  assumes "valid c" "fit c x" "val c x < R c"
  shows "\<exists>z. mul c x (r2 c) = Some z \<and> rep c (val c x) z"
proof -
  have r: "fit c (r2 c)" "val c (r2 c) = (R c)\<^sup>2 mod N c" using r2_law [OF assms(1)] by simp_all
  then have "val c (r2 c) < N c" using N_pos [OF assms(1)] by simp
  then have "val c x * val c (r2 c) < R c * N c" using assms(3) by (intro mult_strict_mono) simp_all
  then have "val c x * val c (r2 c) < N c * R c" by (simp add: mult.commute)
  from mul_law [OF assms(1,2) r(1) this]
  obtain z where z: "mul c x (r2 c) = Some z" "fit c z" "val c z < N c" "val c z * R c mod N c = val c x * val c (r2 c) mod N c" by blast
  have "val c x * val c (r2 c) mod N c = (val c x * R c) * R c mod N c" unfolding r by (rule montgomery_enter)
  from montgomery_residue [OF coprime_R [OF assms(1)] z(3,4) this] show ?thesis using z(1,2) by (simp add: rep_def)
qed

lemma from_rep:
  assumes "valid c" "rep c u x" "fit c one" "val c one = 1"
  shows "\<exists>z. mul c x one = Some z \<and> fit c z \<and> val c z = u mod N c"
proof -
  have "val c x < N c" using N_pos [OF assms(1)] assms(2) by (simp add: rep_def)
  then have "val c x * val c one < N c * R c" using N_R [OF assms(1)] N_pos [OF assms(1)] assms(4)
    by (simp add: less_le_trans)
  from mul_law [OF assms(1) rep_fit assms(3) this] assms(2)
  obtain z where z: "mul c x one = Some z" "fit c z" "val c z < N c" "val c z * R c mod N c = val c x * val c one mod N c" by blast
  have "val c x * val c one mod N c = u * R c mod N c" using assms(2,4) by (simp add: rep_def)
  from montgomery_residue [OF coprime_R [OF assms(1)] z(3,4) this] show ?thesis using z(1,2) by simp
qed

end

text \<open>The exponent bits seen so far, most significant first.\<close>

lemma power_next_bit:
  fixes g e :: nat
  shows "g ^ (e div 2 ^ b) = (g ^ (e div 2 ^ Suc b))\<^sup>2 * (if odd (e div 2 ^ b) then g else 1)"
proof -
  have half: "e div 2 ^ Suc b = e div 2 ^ b div 2" by (simp only: power_Suc2 div_mult2_eq)
  have "e div 2 ^ b = 2 * (e div 2 ^ Suc b) + of_bool (odd (e div 2 ^ b))"
    unfolding half using odd_two_times_div_two_succ [of "e div 2 ^ b"] by (cases "odd (e div 2 ^ b)") auto
  then have "g ^ (e div 2 ^ b) = g ^ (2 * (e div 2 ^ Suc b)) * g ^ of_bool (odd (e div 2 ^ b))"
    by (metis power_add)
  then show ?thesis by (simp add: power_mult [symmetric] mult.commute)
qed

section \<open>Multiplication with a masked reduction\<close>

abbreviation "mont_N ctx \<equiv> wv (mont_mod ctx) (mont_n ctx)"

abbreviation "mont_R ctx \<equiv> 4294967296 ^ mont_n ctx"

definition mont_valid :: "BignumMontCtx \<Rightarrow> bool" where
  "mont_valid ctx \<longleftrightarrow> mont_n ctx \<noteq> 0 \<and> length (mont_mod ctx) = mont_n ctx \<and> mont_mod ctx ! 0 AND 1 \<noteq> 0 \<and>
     mont_n0inv ctx = bignum_mont_n0inv (mont_mod ctx ! 0) \<and> length (mont_r2 ctx) = mont_n ctx \<and>
     wv (mont_r2 ctx) (mont_n ctx) = (mont_R ctx)\<^sup>2 mod mont_N ctx"

lemma odd_wv: "n \<noteq> 0 \<Longrightarrow> odd (wv xs n) \<longleftrightarrow> xs ! 0 AND 1 \<noteq> 0"
proof -
  assume "n \<noteq> 0"
  then have "wv xs n mod 4294967296 = unat (xs ! 0)" using wv_mod [of 1 n xs] by (simp add: wv_def)
  moreover have "wv xs n mod 4294967296 mod 2 = wv xs n mod 2" by (rule mod_mod_cancel) simp
  moreover have "unat (xs ! 0 AND 1) = unat (xs ! 0) mod 2" using unat_and_mask [of "xs ! 0" 1] by (simp add: mask_Suc_0)
  ultimately have "unat (xs ! 0 AND 1) = wv xs n mod 2" by simp
  then show ?thesis by (metis even_iff_mod_2_eq_zero unat_eq_zero unat_0)
qed

lemma mont_valid_odd: "mont_valid ctx \<Longrightarrow> odd (mont_N ctx)"
  by (simp add: mont_valid_def odd_wv)

lemma mont_coprime: "mont_valid ctx \<Longrightarrow> coprime (mont_R ctx) (mont_N ctx)"
proof -
  assume "mont_valid ctx"
  then have "coprime 2 (mont_N ctx)" using mont_valid_odd by simp
  then have "coprime (2 ^ (32 * mont_n ctx)) (mont_N ctx)" by simp
  then show ?thesis by (simp add: pow_4294967296)
qed

lemma masks [simp]: "(0 :: u32) - 1 = - 1" "x AND (- 1) OR y AND NOT (- 1) = (x :: u32)" "x AND 0 OR y AND NOT 0 = (y :: u32)"
  by simp_all

text \<open>Both final reductions subtract the modulus once, when it is not above the candidate.\<close>

lemma once_reduced:
  assumes "t * (R :: nat) = p + k * N" "k < R" "p < N * R"
  defines "z \<equiv> (if N \<le> t then t - N else t)"
  shows "z < N" "z * R mod N = p mod N" "t < 2 * N"
proof -
  have "0 < N" using assms(3) by (cases N) simp_all
  then have "k * N < R * N" using assms(2) by (rule mult_strict_right_mono [rotated])
  then have "t * R < N * R + R * N" using assms(1,3) by linarith
  moreover have "2 * N * R = N * R + R * N" by simp
  ultimately have "t * R < 2 * N * R" by linarith
  then show t: "t < 2 * N" unfolding mult_less_cancel2 by blast
  then show "z < N" by (auto simp: z_def)
  have "t * R mod N = p mod N" using assms(1) by simp
  moreover have "N \<le> t \<Longrightarrow> t * R = (t - N) * R + R * N" by (metis le_add_diff_inverse2 distrib_right mult.commute)
  ultimately show "z * R mod N = p mod N" by (auto simp: z_def)
qed

text \<open>The full-width subtraction of the modulus from a candidate of \<open>n + 1\<close> limbs.\<close>

lemma candidate_minus_modulus:
  assumes sub: "bignum_sub_loop (\<lambda>_. t) (\<lambda>_. ms) n n (replicate n 0) = (out, borrow)" and small: "wv t (n + 1) < 2 * wv ms n"
  shows "length out = n" "wv ms n \<le> wv t (n + 1) \<Longrightarrow> wv out n = wv t (n + 1) - wv ms n"
    "(ucast (t ! n) < borrow) = (wv t (n + 1) < wv ms n)"
proof -
  let ?R = "4294967296 ^ n" and ?N = "wv ms n" and ?h = "unat (t ! n)"
  have s: "length out = n" "wv out n + ?N = wv t n + unat borrow * ?R" "unat borrow \<le> 1"
    using sub_loop_correct [OF _ _ _ _ sub, of t ms] by (simp_all add: reads_def)
  have T: "wv t (n + 1) = wv t n + ?h * ?R" by (simp add: wv_Suc)
  have N: "?N < ?R" by (rule wv_bound)
  have "?h * ?R < 2 * ?R" using T small N by linarith
  then have "?h < 2" unfolding mult_less_cancel2 by blast
  then consider "?h = 0" "unat borrow = 0" | "?h = 0" "unat borrow = 1" | "?h = 1" "unat borrow = 0" | "?h = 1" "unat borrow = 1"
    using s(3) by linarith
  then have "(wv ms n \<le> wv t (n + 1) \<longrightarrow> unat borrow = ?h) \<and> ((ucast (t ! n) < borrow) = (wv t (n + 1) < wv ms n))"
  proof cases
    case 1
    then show ?thesis using s(2) T by (simp add: word_less_nat_alt)
  next
    case 2
    then have "wv t (n + 1) < wv ms n" using s(2) T wv_bound [of out n] by simp
    then show ?thesis using 2 by (simp add: word_less_nat_alt)
  next
    case 3
    then have "?N \<le> wv t n" using s(2) by simp
    then show ?thesis using 3 T small N by simp
  next
    case 4
    then show ?thesis using T N by (simp add: word_less_nat_alt)
  qed
  then show "wv ms n \<le> wv t (n + 1) \<Longrightarrow> wv out n = wv t (n + 1) - wv ms n"
    "(ucast (t ! n) < borrow) = (wv t (n + 1) < wv ms n)" using s(2) T by simp_all
  show "length out = n" by (rule s(1))
qed

lemma mont_candidate:
  assumes ctx: "mont_valid ctx" and small: "wv a (mont_n ctx) * wv b (mont_n ctx) < mont_N ctx * mont_R ctx"
  obtains t where "bignum_mont_cios_candidate a (mont_n ctx) b (mont_n ctx) (mont_mod ctx) (mont_n ctx) (mont_n0inv ctx) = Some t"
    "length t = mont_n ctx + 2" "wv t (mont_n ctx + 1) < 2 * mont_N ctx"
    "\<And>z. length z = mont_n ctx \<Longrightarrow>
       wv z (mont_n ctx) = (if mont_N ctx \<le> wv t (mont_n ctx + 1) then wv t (mont_n ctx + 1) - mont_N ctx else wv t (mont_n ctx + 1)) \<Longrightarrow>
       length z = mont_n ctx \<and> wv z (mont_n ctx) < mont_N ctx \<and>
       wv z (mont_n ctx) * mont_R ctx mod mont_N ctx = wv a (mont_n ctx) * wv b (mont_n ctx) mod mont_N ctx"
proof -
  let ?n = "mont_n ctx" and ?N = "mont_N ctx" and ?R = "mont_R ctx"
  have c: "?n \<noteq> 0" "mont_mod ctx ! 0 AND 1 \<noteq> 0" "mont_n0inv ctx = bignum_mont_n0inv (mont_mod ctx ! 0)"
    using ctx by (simp_all add: mont_valid_def)
  from cios_candidate_correct [where modulus = "mont_mod ctx" and a = a and b = b, OF c(1) order_refl order_refl c(2,3)]
  obtain t k where t: "bignum_mont_cios_candidate a ?n b ?n (mont_mod ctx) ?n (mont_n0inv ctx) = Some t" "length t = ?n + 2"
    "k < ?R" "wv t (?n + 1) * ?R = wv a ?n * wv b ?n + k * ?N" by blast
  show thesis using that [OF t(1,2)] once_reduced [OF t(4,3) small] by simp
qed

lemma high_limb_zero: "wv t (n + 1) < 4294967296 ^ n \<Longrightarrow> wv t n = wv t (n + 1)"
  by (cases "unat (t ! n)") (simp_all add: wv_Suc)

lemma ct_mont_mul_correct:
  assumes ctx: "mont_valid ctx" and small: "wv a (mont_n ctx) * wv b (mont_n ctx) < mont_N ctx * mont_R ctx"
  shows "\<exists>z. bignum_ct_mont_mul a b ctx = Some z \<and> length z = mont_n ctx \<and> wv z (mont_n ctx) < mont_N ctx \<and>
    wv z (mont_n ctx) * mont_R ctx mod mont_N ctx = wv a (mont_n ctx) * wv b (mont_n ctx) mod mont_N ctx"
proof -
  let ?n = "mont_n ctx" and ?N = "mont_N ctx" and ?R = "mont_R ctx"
  obtain t where t: "bignum_mont_cios_candidate a ?n b ?n (mont_mod ctx) ?n (mont_n0inv ctx) = Some t"
    "wv t (?n + 1) < 2 * ?N"
    "\<And>z. length z = ?n \<Longrightarrow> wv z ?n = (if ?N \<le> wv t (?n + 1) then wv t (?n + 1) - ?N else wv t (?n + 1)) \<Longrightarrow>
       length z = ?n \<and> wv z ?n < ?N \<and> wv z ?n * ?R mod ?N = wv a ?n * wv b ?n mod ?N"
    using mont_candidate [OF assms] by metis
  obtain out borrow where sub: "bignum_sub_loop (\<lambda>_. t) (\<lambda>_. mont_mod ctx) ?n ?n (replicate ?n 0) = (out, borrow)" by (meson surj_pair)
  note s = candidate_minus_modulus [OF sub t(2)]
  define z where "z = map (\<lambda>i. if ?N \<le> wv t (?n + 1) then out ! i else t ! i) [0..<?n]"
  have mul: "bignum_ct_mont_mul a b ctx = Some z"
    unfolding bignum_ct_mont_mul_def Let_def t(1) option.case sub prod.case s(3) z_def
    by (cases "?N \<le> wv t (?n + 1)") (simp_all add: not_le not_less)
  have "wv z ?n = (if ?N \<le> wv t (?n + 1) then wv t (?n + 1) - ?N else wv t (?n + 1))"
  proof (cases "?N \<le> wv t (?n + 1)")
    case True
    then have "wv z ?n = wv out ?n" by (intro wv_cong) (simp add: z_def)
    then show ?thesis using True s(2) by simp
  next
    case False
    then have "wv z ?n = wv t ?n" by (intro wv_cong) (simp add: z_def)
    moreover have "wv t ?n = wv t (?n + 1)" using False wv_bound [of "mont_mod ctx" ?n] by (intro high_limb_zero) simp
    ultimately show ?thesis using False by simp
  qed
  then show ?thesis using mul t(3) [of z] by (simp add: z_def)
qed

interpretation ct: montgomery mont_valid "\<lambda>ctx. mont_N ctx" "\<lambda>ctx. mont_R ctx" "\<lambda>ctx x. length x = mont_n ctx"
    "\<lambda>ctx x. wv x (mont_n ctx)" "\<lambda>ctx a b. bignum_ct_mont_mul a b ctx" mont_r2
proof
  fix c assume c: "mont_valid c"
  show "coprime (mont_R c) (mont_N c)" using c by (rule mont_coprime)
  show "mont_N c \<le> mont_R c" using wv_bound [of "mont_mod c" "mont_n c"] by simp
  show "0 < mont_N c" using mont_valid_odd [OF c] by (rule odd_pos)
  show "length (mont_r2 c) = mont_n c \<and> wv (mont_r2 c) (mont_n c) = (mont_R c)\<^sup>2 mod mont_N c"
    using c by (simp add: mont_valid_def)
qed (use ct_mont_mul_correct in blast)

section \<open>Setting up a context\<close>

text \<open>An object loaded into a cleared array of \<open>n\<close> limbs.\<close>

lemma loaded_limbs:
  assumes "bn_LENGTH x \<le> n" "bn_LENGTH x \<le> bn_CAPACITY x"
  defines "L \<equiv> copy_at (replicate n 0) 0 (take (bn_LENGTH x) (bn_LIMBS x))"
  shows "length L = n" "wv L n = bn_val x"
proof -
  show "length L = n" using assms by (simp add: L_def)
  have nth: "L ! j = (if j < bn_LENGTH x then bn_LIMBS x ! j else 0)" if "j < n" for j
    using that assms(1,2) by (simp add: L_def nth_copy_at)
  have "wv L n = wv L (bn_LENGTH x)" by (rule wv_zero_tail) (use assms(1) nth in auto)
  also have "\<dots> = bn_val x" unfolding bn_val_def using assms(1) nth by (intro wv_cong) simp
  finally show "wv L n = bn_val x" .
qed

lemma power_object:
  assumes "2 * n + 1 \<le> k"
  defines "p \<equiv> crypto_bignum_init\<lparr>bn_LIMBS := (copy_at (replicate k 0) 0 (replicate (2 * n + 1) 0))[2 * n := 1], bn_LENGTH := 2 * n + 1\<rparr>"
  shows "bn_ok p" "bn_val p = (4294967296 ^ n)\<^sup>2"
proof -
  have nth: "bn_LIMBS p ! j = (if j = 2 * n then 1 else 0)" if "j < k" for j
    using that assms(1) by (simp add: p_def nth_list_update nth_copy_at del: replicate_Suc)
  have len: "length (bn_LIMBS p) = k" "bn_LENGTH p = 2 * n + 1" using assms(1) by (simp_all add: p_def del: replicate_Suc)
  show "bn_ok p" using nth len assms(1) by (auto simp: bn_ok_def)
  have "wv (bn_LIMBS p) (2 * n) = wv (replicate (2 * n) 0) (2 * n)" using nth assms(1) by (intro wv_cong) simp
  then have "bn_val p = 4294967296 ^ (2 * n)" using nth [of "2 * n"] assms(1) by (simp add: bn_val_def len wv_Suc)
  then show "bn_val p = (4294967296 ^ n)\<^sup>2" by (simp only: power_mult mult.commute)
qed

lemma compute_r2_correct:
  assumes modulus: "bn_ok modulus" "bn_LENGTH modulus < 144115188075855872" "bn_val modulus \<noteq> 0"
  defines "n \<equiv> bn_LENGTH modulus"
  obtains (ok) r2 heap' where "bignum_mont_compute_r2_words heap n modulus = (Some r2, heap')" "length r2 = n"
      "wv r2 n = (4294967296 ^ n)\<^sup>2 mod bn_val modulus" "set heap' \<subseteq> set heap"
    | (fail) heap' where "bignum_mont_compute_r2_words heap n modulus = (None, heap')" "False \<in> set heap" "set heap' \<subseteq> set heap"
proof -
  have n: "n \<noteq> 0" "\<not> ((2 ^ 64 - 1) - 1) div 2 < n" using modulus bn_LENGTH_0 by (auto simp: n_def)
  note start = bignum_mont_compute_r2_words_def [of heap n modulus, unfolded Let_def]
  have "2 * n + 1 < 4611686018427387904" using modulus by (simp add: n_def)
  then show thesis
  proof (cases rule: reserve_cases [where heap = heap and a = crypto_bignum_init])
    case (fail heap')
    then have "bignum_mont_compute_r2_words heap n modulus = (None, heap')" using n unfolding start by (simp add: n_def)
    then show thesis using fail that(2) by blast
  next
    case (ok k heap')
    have k: "2 * n + 1 \<le> k" using ok(2) by (simp add: crypto_bignum_init_def)
    define p where "p = crypto_bignum_init\<lparr>bn_LIMBS := (copy_at (replicate k 0) 0 (replicate (2 * n + 1) 0))[2 * n := 1], bn_LENGTH := 2 * n + 1\<rparr>"
    have p: "bn_fits p" "bn_val p = (4294967296 ^ n)\<^sup>2"
      using power_object [OF k] modulus(2) by (simp_all add: p_def bn_fits_def n_def)
    have pe: "crypto_bignum_init\<lparr>bn_LIMBS := bn_LIMBS crypto_bignum_init @ replicate k 0\<rparr>
        \<lparr>bn_LIMBS := (copy_at (bn_LIMBS (crypto_bignum_init\<lparr>bn_LIMBS := bn_LIMBS crypto_bignum_init @ replicate k 0\<rparr>)) 0
           (replicate (2 * n + 1) 0))[2 * n := 1], bn_LENGTH := 2 * n + 1\<rparr> = p"
      by (simp add: p_def crypto_bignum_init_def del: replicate_Suc)
    have fits: "bn_fits modulus" using modulus by (simp add: bn_fits_def)
    have "bn_res heap' (\<lambda>r. bn_val r = bn_val p mod bn_val modulus) (crypto_bignum_mod heap' False crypto_bignum_init p modulus)"
      using p fits modulus(3) by (intro mod_correct) simp_all
    then show thesis
    proof (cases rule: bn_resE)
      case (ok r heap'')
      have "bn_val r < 4294967296 ^ n"
        using ok(3) modulus(3) bn_val_bound [of modulus] by (metis n_def bot_nat_0.not_eq_extremum less_trans mod_less_divisor)
      then have r: "bn_LENGTH r \<le> n" using bn_LENGTH_le ok(2) by blast
      have e: "bignum_mont_compute_r2_words heap n modulus =
          (Some (copy_at (replicate n 0) 0 (take (bn_LENGTH r) (bn_LIMBS r))), heap'')"
        using n r unfolding start \<open>bignum_reserve heap crypto_bignum_init (2 * n + 1) = _\<close> prod.case pe ok(1)
        by (simp add: n_def)
      show thesis
        using that(1) [OF e] loaded_limbs [OF r] ok \<open>set heap' \<subseteq> set heap\<close> p(2) by (simp add: bn_ok_def)
    next
      case (fail err r heap'')
      have e: "bignum_mont_compute_r2_words heap n modulus = (None, heap'')"
        using n fail(2) unfolding start \<open>bignum_reserve heap crypto_bignum_init (2 * n + 1) = _\<close> prod.case pe fail(1)
        by (simp add: n_def)
      show thesis using that(2) [OF e] fail \<open>set heap' \<subseteq> set heap\<close> by blast
    qed
  qed
qed

lemma calloc_cases:
  obtains (ok) heap' where "calloc_ok heap = (True, heap')" "set heap' \<subseteq> set heap"
    | (fail) heap' where "calloc_ok heap = (False, heap')" "set heap' \<subseteq> set heap" "False \<in> set heap"
  using that by (cases heap rule: calloc_ok.cases) (metis calloc_ok.simps set_subset_Cons list.set_intros(1) subset_refl)+

lemma mont_init_correct:
  assumes modulus: "bn_ok modulus" "bn_LENGTH modulus < 144115188075855872" "odd (bn_val modulus)"
  obtains (ok) ctx heap' where "bignum_ct_mont_init heap modulus = (Some ctx, heap')" "mont_valid ctx"
      "mont_n ctx = bn_LENGTH modulus" "mont_N ctx = bn_val modulus" "set heap' \<subseteq> set heap"
    | (fail) heap' where "bignum_ct_mont_init heap modulus = (None, heap')" "False \<in> set heap" "set heap' \<subseteq> set heap"
proof -
  let ?n = "bn_LENGTH modulus"
  have nz: "bn_val modulus \<noteq> 0" using modulus(3) by (intro notI) simp
  then have n: "?n \<noteq> 0" using bn_LENGTH_0 [OF modulus(1)] by simp
  then have odd: "bn_LIMBS modulus ! 0 AND 1 \<noteq> 0" using modulus(3) odd_wv by (simp add: bn_val_def)
  have g: "\<not> (2 ^ 64 - 1 - 2) div 3 < ?n" using modulus(2) by simp
  note start = bignum_ct_mont_init_def [of heap modulus, unfolded Let_def]
  show thesis
  proof (cases rule: calloc_cases [of heap])
    case (fail heap')
    then have "bignum_ct_mont_init heap modulus = (None, heap')" using n odd g by (simp add: start)
    then show thesis using fail that(2) by blast
  next
    case (ok heap')
    from modulus(1,2) nz show thesis
    proof (cases rule: compute_r2_correct [where heap = heap'])
      case (fail heap'')
      then have "bignum_ct_mont_init heap modulus = (None, heap'')" using n odd g ok by (simp add: start)
      then show thesis using fail ok that(2) by blast
    next
      case r2: (ok r2 heap'')
      let ?c = "\<lparr>mont_n = ?n, mont_n0inv = bignum_mont_n0inv (bn_LIMBS modulus ! 0), mont_mod = take ?n (bn_LIMBS modulus), mont_r2 = r2\<rparr>"
      have "bignum_ct_mont_init heap modulus = (Some ?c, heap'')" using n odd g ok(1) r2(1) by (simp add: start)
      moreover have "mont_valid ?c" using n odd r2(2,3) modulus(1) by (simp add: mont_valid_def bn_val_def bn_ok_def)
      ultimately show thesis using that(1) r2(4) ok(2) by (simp add: bn_val_def)
    qed
  qed
qed

section \<open>Branch-free selection and length\<close>

lemma top_bit: "drop_bit 31 (w :: u32) = (if 2147483648 \<le> unat w then 1 else 0)"
proof (cases "2147483648 \<le> unat w")
  case True
  have "unat w div 2147483648 < 2" using unat_u32_less [of w] by (intro less_mult_imp_div_less) simp
  moreover have "2147483648 div 2147483648 \<le> unat w div 2147483648" using True by (rule div_le_mono)
  ultimately show ?thesis using True by (simp add: word_unat_eq_iff unat_drop_bit)
qed (simp add: word_unat_eq_iff unat_drop_bit)

lemma nonzero_bit:
  "drop_bit 31 (x OR (0 - x)) = (if x = 0 then 0 else 1 :: u32)"
proof (cases "x = 0")
  case False
  then have "unat (0 - x) = 4294967296 - unat x" by (subst unat_sub_if') (simp add: unat_eq_zero)
  then have "2147483648 \<le> unat x \<or> 2147483648 \<le> unat (0 - x)" using unat_u32_less [of x] by linarith
  then show ?thesis using False unfolding drop_bit_or top_bit by auto
qed simp

lemma secret_length_fixed_correct:
  assumes "n < 18446744073709551616"
  shows "unat (bignum_secret_length_fixed words n) = bignum_words_length words n"
proof -
  let ?P = "\<lambda>i len. len = (of_nat (bignum_words_length words i) :: u64)"
  have "?P n (bignum_secret_length_fixed words n)"
    unfolding bignum_secret_length_fixed_def
  proof (rule fold_upt_invariant [where P = "?P"])
    fix i and len :: u64
    assume "i < n" and P: "?P i len"
    show "?P (Suc i) (let x = words ! i; nonzero = drop_bit 31 (x OR (0 - x)); mask = 0 - ucast nonzero :: u64
       in (len AND NOT mask) OR (of_nat (i + 1) AND mask))"
      unfolding Let_def nonzero_bit using P by (cases "words ! i = 0") simp_all
  qed simp_all
  moreover have "bignum_words_length words n < 18446744073709551616" using words_length_le [of words n] assms by linarith
  ultimately show ?thesis by (simp add: unat_of_nat)
qed

lemma store_fixed_correct:
  assumes "n < 4611686018427387904" "length words = n" "bn_ok out"
  shows "bn_res heap (\<lambda>r. bn_val r = wv words n \<and> n \<le> bn_CAPACITY r) (bignum_ct_store_fixed heap out words n)"
proof -
  have stored: "bn_ok t \<and> bn_val t = wv words n \<and> n \<le> bn_CAPACITY t"
    if "n \<le> k" "t = \<lparr>bn_LIMBS = copy_at (replicate k 0) 0 words, bn_LENGTH = unat (bignum_secret_length_fixed words n)\<rparr>" for t k
  proof -
    let ?u = "\<lparr>bn_LIMBS = copy_at (replicate k 0) 0 words, bn_LENGTH = n\<rparr>"
    have len: "unat (bignum_secret_length_fixed words n) = bignum_words_length words n"
      using assms(1) by (intro secret_length_fixed_correct) simp
    have nth: "copy_at (replicate k 0) 0 words ! j = (if j < n then words ! j else 0)" if "j < k" for j
      using that \<open>n \<le> k\<close> assms(2) by (simp add: nth_copy_at)
    have l: "bignum_words_length (copy_at (replicate k 0) 0 words) m = bignum_words_length words m" if "m \<le> n" for m
      using that \<open>n \<le> k\<close> by (induction m) (simp_all add: nth)
    have "t = bignum_normalize ?u" using that len l [of n] by (simp add: bignum_normalize_def)
    moreover have "bn_ok (bignum_normalize ?u)" "bn_val (bignum_normalize ?u) = wv (copy_at (replicate k 0) 0 words) n"
      using normalize_ok [of ?u] \<open>n \<le> k\<close> assms(2) nth by auto
    moreover have "wv (copy_at (replicate k 0) 0 words) n = wv words n" using nth \<open>n \<le> k\<close> by (intro wv_cong) simp
    ultimately show ?thesis using \<open>n \<le> k\<close> assms(2) by (simp add: bignum_normalize_def)
  qed
  show ?thesis
  proof (cases "n = 0")
    case True
    then show ?thesis using stored [of 0] assms(2) by (simp add: bignum_ct_store_fixed_def bn_res_def crypto_bignum_init_def)
  next
    case False
    from assms(1) show ?thesis
    proof (cases rule: reserve_cases [where heap = heap and a = crypto_bignum_init])
      case (ok k heap')
      then show ?thesis using False stored [of k] assms(2)
        by (simp add: bignum_ct_store_fixed_def bn_res_def crypto_bignum_init_def)
    next
      case (fail heap')
      then show ?thesis using False assms(3) by (simp add: bignum_ct_store_fixed_def bn_res_def)
    qed
  qed
qed

end
