(* ===== verification/Bignum_Mod_Exp_Correct.thy ===== *)
theory Bignum_Mod_Exp_Correct
  imports Bignum_Mont_Correct
begin

text \<open>
  The exponentiations with a fixed schedule return the power of the base modulo the modulus. The
  accumulators hold, in Montgomery form, the power whose exponent is the part of the exponent read so far.
\<close>

section \<open>One exponent bit\<close>

lemma ct_select_correct:
  assumes "length zero_choice = n" "length one_choice = n"
  shows "bignum_ct_select zero_choice one_choice n b = (if b AND 1 = 0 then zero_choice else one_choice)"
proof -
  have "b AND 1 = 0 \<or> b AND 1 = 1" by (simp add: and_one_eq mod2_eq_if)
  then show ?thesis
    by (auto simp: bignum_ct_select_def Let_def list_eq_iff_nth_eq assms)
qed

lemma ct_exp_bit_correct:
  assumes "mont_valid c" "ct.rep c v acc" "ct.rep c g base_m"
  shows "\<exists>z. ct_exp_bit c base_m b acc = Some z \<and> ct.rep c (v\<^sup>2 * (if b AND 1 = 0 then 1 else g)) z"
proof -
  from ct.mul_rep [OF assms(1,2,2)] obtain s where s: "bignum_ct_mont_mul acc acc c = Some s" "ct.rep c (v * v) s" by blast
  from ct.mul_rep [OF assms(1) s(2) assms(3)] obtain p where p: "bignum_ct_mont_mul s base_m c = Some p" "ct.rep c (v * v * g) p" by blast
  have "length s = mont_n c" "length p = mont_n c" using ct.rep_fit s(2) p(2) by blast+
  then show ?thesis using s p by (simp add: ct_exp_bit_def ct_select_correct power2_eq_square)
qed

text \<open>A partial function over the elements of a list.\<close>

lemma those_map_list_all2:
  assumes "list_all2 P xs ys" and "\<And>x y. P x y \<Longrightarrow> \<exists>z. f y = Some z \<and> Q x z"
  shows "\<exists>zs. those (map f ys) = Some zs \<and> list_all2 Q xs zs"
  using assms(1)
proof (induction rule: list_all2_induct)
  case (Cons x xs y ys)
  then show ?case using assms(2) [of x y] by fastforce
qed simp

lemma ct_exp_loop_correct:
  fixes e :: "u32 list"
  assumes c: "mont_valid c" and start: "list_all2 (\<lambda>g (base_m, acc). ct.rep c g base_m \<and> ct.rep c 1 acc) gs ss"
  defines "E \<equiv> wv e (mont_n c)"
  shows "\<exists>ss'. ct_exp_loop c e ss = Some ss' \<and> list_all2 (\<lambda>g (base_m, acc). ct.rep c g base_m \<and> ct.rep c (g ^ E) acc) gs ss'"
proof -
  let ?I = "\<lambda>b g (base_m, acc). ct.rep c g base_m \<and> ct.rep c (g ^ (E div 2 ^ b)) acc"
  let ?P = "\<lambda>b states. \<exists>ss. states = Some ss \<and> list_all2 (?I b) gs ss"
  have "?P 0 (ct_exp_loop c e ss)"
    unfolding ct_exp_loop_def
  proof (rule fold_down_invariant [where P = "?P"])
    have "E div 2 ^ (32 * mont_n c) = 0" using wv_bound [of e "mont_n c"] by (simp add: E_def pow_4294967296)
    then show "?P (32 * mont_n c) (Some ss)" using start by simp
  next
    fix b states
    assume b: "b < 32 * mont_n c" and "?P (Suc b) states"
    then obtain ss where ss: "states = Some ss" "list_all2 (?I (Suc b)) gs ss" by blast
    define x where "x = drop_bit (b mod 32) (e ! (b div 32)) AND 1"
    have x: "x = (if odd (E div 2 ^ b) then 1 else 0)" unfolding x_def E_def using b by (intro limb_bit) auto
    let ?f = "\<lambda>(base_m, acc). map_option (Pair base_m) (ct_exp_bit c base_m x acc)"
    have "\<exists>zs. those (map ?f ss) = Some zs \<and> list_all2 (?I b) gs zs"
    proof (rule those_map_list_all2 [OF ss(2)])
      fix g and s :: "u32 list \<times> u32 list"
      assume I: "?I (Suc b) g s"
      obtain base_m acc where s: "s = (base_m, acc)" by (meson surj_pair)
      from ct_exp_bit_correct [OF c, of "g ^ (E div 2 ^ Suc b)" acc g base_m x] I s
      obtain z where z: "ct_exp_bit c base_m x acc = Some z" "ct.rep c ((g ^ (E div 2 ^ Suc b))\<^sup>2 * (if x AND 1 = 0 then 1 else g)) z" by auto
      have "(if x AND 1 = 0 then 1 else g) = (if odd (E div 2 ^ b) then g else 1)" by (simp add: x)
      then have "ct.rep c (g ^ (E div 2 ^ b)) z" using z(2) power_next_bit [of g E b] by simp
      then show "\<exists>z. ?f s = Some z \<and> ?I b g z" using z(1) I s by simp
    qed
    then show "?P b (let exponent_bit = drop_bit (b mod 32) (e ! (b div 32)) AND 1
       in Option.bind states (\<lambda>states. those (map (\<lambda>(base_m, acc). map_option (Pair base_m) (ct_exp_bit c base_m exponent_bit acc)) states)))"
      unfolding Let_def x_def [symmetric] ss(1) by simp
  qed
  then show ?thesis by simp
qed

section \<open>The exponentiation\<close>

lemma ct_one: "n \<noteq> 0 \<Longrightarrow> length (ct_one n) = n" "n \<noteq> 0 \<Longrightarrow> wv (ct_one n) n = 1"
proof -
  assume "n \<noteq> 0"
  then obtain m where m: "n = Suc m" by (cases n) auto
  have "wv (1 # replicate m 0) (Suc m) = wv (1 # replicate m 0) 1"
    by (rule wv_zero_tail) (simp_all add: nth_Cons')
  then show "wv (ct_one n) n = 1" by (simp add: m wv_Suc ct_one_def)
qed (simp add: ct_one_def)

lemma low_limbs:
  assumes "bn_ok x" "n \<le> bn_CAPACITY x"
  shows "wv (bn_LIMBS x) n = bn_val x mod 4294967296 ^ n"
proof (cases "n \<le> bn_LENGTH x")
  case True
  then show ?thesis by (simp add: bn_val_def wv_mod)
next
  case False
  then have "wv (bn_LIMBS x) n = bn_val x" using assms by (intro bn_val_wide) auto
  then show ?thesis using wv_bound [of "bn_LIMBS x" n] by simp
qed

lemma ct_load_correct:
  assumes "bn_ok x" "bn_LENGTH x \<le> n" "fixed \<Longrightarrow> n \<le> bn_CAPACITY x"
  shows "length (ct_load n fixed x) = n \<and> wv (ct_load n fixed x) n = bn_val x"
proof (cases fixed)
  case True
  then have "ct_load n fixed x = take n (bn_LIMBS x)" using assms(3) by (simp add: ct_load_def copy_at_def)
  then show ?thesis using True assms bn_val_wide [of x n] by simp
next
  case False
  then show ?thesis using assms loaded_limbs [of x n] by (simp add: ct_load_def bn_ok_def)
qed

lemma ct_one_rep:
  assumes "mont_valid c"
  shows "\<exists>one_m. bignum_ct_mont_mul (ct_one (mont_n c)) (mont_r2 c) c = Some one_m \<and> ct.rep c 1 one_m"
proof -
  have n: "mont_n c \<noteq> 0" using assms by (simp add: mont_valid_def)
  then show ?thesis
    using ct.to_rep [OF assms ct_one(1) [OF n]] ct_one(2) [OF n] one_less_power [of "4294967296 :: nat" "mont_n c"] by auto
qed

lemma ct_exp_start_correct:
  assumes c: "mont_valid c" and bases: "\<And>x. x \<in> set bases \<Longrightarrow> length x = mont_n c"
  shows "\<exists>ss. ct_exp_start c bases = Some ss \<and>
    list_all2 (\<lambda>g (base_m, acc). ct.rep c g base_m \<and> ct.rep c 1 acc) (map (\<lambda>x. wv x (mont_n c)) bases) ss"
proof -
  obtain one_m where one_m: "bignum_ct_mont_mul (ct_one (mont_n c)) (mont_r2 c) c = Some one_m" "ct.rep c 1 one_m"
    using ct_one_rep [OF c] by blast
  let ?f = "\<lambda>x. map_option (\<lambda>base_m. (base_m, one_m)) (bignum_ct_mont_mul x (mont_r2 c) c)"
  have "list_all2 (\<lambda>g x. g = wv x (mont_n c) \<and> x \<in> set bases) (map (\<lambda>x. wv x (mont_n c)) bases) bases"
    by (simp add: list_all2_conv_all_nth)
  then have "\<exists>ss. those (map ?f bases) = Some ss \<and>
      list_all2 (\<lambda>g (base_m, acc). ct.rep c g base_m \<and> ct.rep c 1 acc) (map (\<lambda>x. wv x (mont_n c)) bases) ss"
  proof (rule those_map_list_all2)
    fix g x
    assume x: "g = wv x (mont_n c) \<and> x \<in> set bases"
    from ct.to_rep [OF c bases wv_bound] x
    obtain z where "bignum_ct_mont_mul x (mont_r2 c) c = Some z" "ct.rep c g z" by blast
    then show "\<exists>z. ?f x = Some z \<and> (case z of (base_m, acc) \<Rightarrow> ct.rep c g base_m \<and> ct.rep c 1 acc)"
      using one_m(2) by auto
  qed
  then show ?thesis by (simp add: ct_exp_start_def one_m(1))
qed

text \<open>The accumulators after the scan, taken out of Montgomery form.\<close>

lemma ct_exp_correct:
  assumes c: "mont_valid c" and bases: "\<And>x. x \<in> set bases \<Longrightarrow> length x = mont_n c"
  shows "\<exists>ss. Option.bind (ct_exp_start c bases) (ct_exp_loop c e) = Some ss \<and>
    (\<forall>i < length bases. \<exists>r. bignum_ct_mont_mul (snd (ss ! i)) (ct_one (mont_n c)) c = Some r \<and> length r = mont_n c \<and>
       wv r (mont_n c) = wv (bases ! i) (mont_n c) ^ wv e (mont_n c) mod mont_N c)"
proof -
  let ?n = "mont_n c"
  have n: "?n \<noteq> 0" using c by (simp add: mont_valid_def)
  obtain ss0 where ss0: "ct_exp_start c bases = Some ss0"
    "list_all2 (\<lambda>g (base_m, acc). ct.rep c g base_m \<and> ct.rep c 1 acc) (map (\<lambda>x. wv x ?n) bases) ss0"
    using ct_exp_start_correct [OF c bases] by blast
  from ct_exp_loop_correct [OF c ss0(2), of e] obtain ss where ss: "ct_exp_loop c e ss0 = Some ss"
    "list_all2 (\<lambda>g (base_m, acc). ct.rep c g base_m \<and> ct.rep c (g ^ wv e ?n) acc) (map (\<lambda>x. wv x ?n) bases) ss" by blast
  have "\<exists>r. bignum_ct_mont_mul (snd (ss ! i)) (ct_one ?n) c = Some r \<and> length r = ?n \<and>
      wv r ?n = wv (bases ! i) ?n ^ wv e ?n mod mont_N c" if i: "i < length bases" for i
  proof -
    have "ct.rep c (wv (bases ! i) ?n ^ wv e ?n) (snd (ss ! i))"
      using ss(2) i by (cases "ss ! i") (auto simp: list_all2_conv_all_nth)
    from ct.from_rep [OF c this ct_one [OF n]] show ?thesis .
  qed
  then show ?thesis by (simp add: ss0(1) ss(1))
qed

lemma mod_exp_ct_core_correct:
  assumes ok: "bn_ok out1" "\<And>out2 base2. second = Some (out2, base2) \<Longrightarrow> bn_ok out2"
    and modulus: "bn_ok modulus" "bn_LENGTH modulus < 144115188075855872" "odd (bn_val modulus)"
    and exponent: "bn_ok exponent" "bn_LENGTH modulus \<le> bn_CAPACITY exponent"
    and bases: "\<And>x. x \<in> set (base1 # (case second of None \<Rightarrow> [] | Some (out2, base2) \<Rightarrow> [base2])) \<Longrightarrow>
      bn_ok x \<and> (if fixed then bn_LENGTH x \<le> bn_LENGTH modulus \<and> bn_LENGTH modulus \<le> bn_CAPACITY x else bn_val x < bn_val modulus)"
  defines "E \<equiv> bn_val exponent mod 4294967296 ^ bn_LENGTH modulus"
  shows "case bignum_mod_exp_ct_core heap out1 base1 second exponent modulus fixed of (err, r1, r2, heap') \<Rightarrow>
    set heap' \<subseteq> set heap \<and> bn_ok r1 \<and> (if err = SUCCESS then bn_val r1 = bn_val base1 ^ E mod bn_val modulus else False \<in> set heap) \<and>
    (case second of None \<Rightarrow> r2 = None
     | Some (out2, base2) \<Rightarrow> \<exists>r. r2 = Some r \<and> bn_ok r \<and> (err = SUCCESS \<longrightarrow> bn_val r = bn_val base2 ^ E mod bn_val modulus))"
proof -
  let ?n = "bn_LENGTH modulus"
  define bs where "bs = base1 # (case second of None \<Rightarrow> [] | Some (out2, base2) \<Rightarrow> [base2])"
  have nz: "bn_val modulus \<noteq> 0" using modulus(3) by (intro notI) simp
  then have n: "?n \<noteq> 0" using bn_LENGTH_0 [OF modulus(1)] by simp
  then have odd: "bn_LIMBS modulus ! 0 AND 1 \<noteq> 0" using modulus(3) odd_wv by (simp add: bn_val_def)
  have E: "wv (bn_LIMBS exponent) ?n = E" using low_limbs exponent by (simp add: E_def)
  have cnt: "length bs \<le> 2" "0 < length bs" by (simp_all add: bs_def split: option.splits prod.splits)
  have loaded: "length (ct_load ?n fixed x) = ?n \<and> wv (ct_load ?n fixed x) ?n = bn_val x" if "x \<in> set bs" for x
  proof (rule ct_load_correct)
    show "bn_ok x" "fixed \<Longrightarrow> ?n \<le> bn_CAPACITY x" using bases that by (auto simp: bs_def)
    show "bn_LENGTH x \<le> ?n"
    proof (cases fixed)
      case False
      then have "bn_ok x" "bn_val x < bn_val modulus" using bases that by (auto simp: bs_def)
      then show ?thesis by (intro bn_LENGTH_mono) simp_all
    qed (use bases that in \<open>auto simp: bs_def\<close>)
  qed
  have guards: "\<not> (?n = 0 \<or> bn_LIMBS modulus ! 0 AND 1 = 0)" "\<not> (fixed \<and> (\<exists>base \<in> set bs. bn_CAPACITY base < ?n))"
    "\<not> (\<not> fixed \<and> (\<exists>base \<in> set bs. 0 \<le> crypto_bignum_compare base modulus))" "\<not> bn_CAPACITY exponent < ?n"
    "\<not> ((2 ^ 64 - 1) div 32 < ?n \<or> (2 ^ 64 - 1) div (2 + 4 * length bs) < ?n)"
  proof -
    have "length bs = 1 \<or> length bs = 2" using cnt by linarith
    then have "\<not> (2 ^ 64 - 1) div (2 + 4 * length bs) < ?n" using modulus(2) by (elim disjE) simp_all
    then show "\<not> ((2 ^ 64 - 1) div 32 < ?n \<or> (2 ^ 64 - 1) div (2 + 4 * length bs) < ?n)" using modulus(2) by simp
    show "\<not> (fixed \<and> (\<exists>base \<in> set bs. bn_CAPACITY base < ?n))" "\<not> (\<not> fixed \<and> (\<exists>base \<in> set bs. 0 \<le> crypto_bignum_compare base modulus))"
      using bases compare_correct [OF _ modulus(1)] by (fastforce simp: bs_def)+
  qed (use n odd exponent in auto)
  note start = bignum_mod_exp_ct_core_def [of heap out1 base1 second exponent modulus fixed, folded bs_def, unfolded Let_def,
    folded bs_def, unfolded if_not_P [OF guards(1)] if_not_P [OF guards(2)] if_not_P [OF guards(3)] if_not_P [OF guards(4)] if_not_P [OF guards(5)]]
  let ?R = "\<lambda>(err, r1, r2, heap'). set heap' \<subseteq> set heap \<and> bn_ok r1 \<and>
    (if err = SUCCESS then bn_val r1 = bn_val base1 ^ E mod bn_val modulus else False \<in> set heap) \<and>
    (case second of None \<Rightarrow> r2 = None
     | Some (out2, base2) \<Rightarrow> \<exists>r. r2 = Some r \<and> bn_ok r \<and> (err = SUCCESS \<longrightarrow> bn_val r = bn_val base2 ^ E mod bn_val modulus))"
  have failed: "?R (err, r, map_option fst second, h)" if "err \<noteq> SUCCESS" "False \<in> set heap" "set h \<subseteq> set heap" "bn_ok r" for err r h
    using ok that by (auto split: option.splits)
  from modulus show ?thesis
  proof (cases rule: mont_init_correct [where heap = heap])
    case (fail heap')
    then show ?thesis using failed [of ALLOCATION_FAILED heap' out1] ok(1) unfolding start by simp
  next
    case (ok c heap1)
    note c = this
    show ?thesis
    proof (cases rule: calloc_cases [of heap1])
      case (fail heap')
      then show ?thesis using failed [of ALLOCATION_FAILED heap' out1] c \<open>bn_ok out1\<close> unfolding start by auto
    next
      case (ok heap2)
      have len: "\<And>x. x \<in> set (map (ct_load ?n fixed) bs) \<Longrightarrow> length x = mont_n c" using loaded c(3) by auto
      from ct_exp_correct [OF c(2), where bases = "map (ct_load ?n fixed) bs", OF len, where e = "bn_LIMBS exponent", unfolded c(4), unfolded c(3) E]
      obtain ss where st: "Option.bind (ct_exp_start c (map (ct_load ?n fixed) bs)) (ct_exp_loop c (bn_LIMBS exponent)) = Some ss"
        "\<And>i. i < length bs \<Longrightarrow> \<exists>r. bignum_ct_mont_mul (snd (ss ! i)) (ct_one ?n) c = Some r \<and> length r = ?n \<and>
           wv r ?n = bn_val (bs ! i) ^ E mod bn_val modulus"
        using loaded by auto
      have small: "?n < 4611686018427387904" using modulus(2) by simp
      obtain r1 where r1: "bignum_ct_mont_mul (snd (ss ! 0)) (ct_one ?n) c = Some r1" "length r1 = ?n"
        "wv r1 ?n = bn_val base1 ^ E mod bn_val modulus" using st(2) [OF cnt(2)] by (auto simp: bs_def)
      note start' = start [unfolded c(1) option.case ok(1) prod.case not_True_eq_False if_False st(1) r1(1)]
      from store_fixed_correct [OF small r1(2) \<open>bn_ok out1\<close>, of heap2] show ?thesis
      proof (cases rule: bn_resE)
        case (fail err r heap3)
        then show ?thesis using failed [of err heap3 r] ok(2) c(5) unfolding start' fail(1) prod.case if_P [OF fail(2)] by auto
      next
        case stored: (ok o1 heap3)
        show ?thesis
        proof (cases second)
          case None
          then show ?thesis using stored ok(2) c(5) r1(3) unfolding start' stored(1) by simp
        next
          case (Some s2)
          obtain out2 base2 where s2: "s2 = (out2, base2)" by (meson surj_pair)
          have "1 < length bs" "bs ! 1 = base2" using Some s2 by (simp_all add: bs_def)
          then obtain r2 where r2: "bignum_ct_mont_mul (snd (ss ! 1)) (ct_one ?n) c = Some r2" "length r2 = ?n"
            "wv r2 ?n = bn_val base2 ^ E mod bn_val modulus" using st(2) [of 1] by auto
          have "bn_ok out2" using assms(2) Some s2 by blast
          from store_fixed_correct [OF small r2(2) this, of heap3] show ?thesis
            using stored ok(2) c(5) r1(3) r2(3) Some s2 unfolding start' stored(1) by (auto simp: r2(1) [unfolded One_nat_def] bn_res_def split: prod.splits if_splits)
        qed
      qed
    qed
  qed
qed

section \<open>Public exponent, fixed base\<close>

lemma public_exp_loop_correct:
  assumes c: "mont_valid c" and base: "ct.rep c g base_m" and acc: "ct.rep c 1 acc" and e: "bn_ok e"
  shows "\<exists>z. public_exp_loop c base_m e acc = Some z \<and> ct.rep c (g ^ bn_val e) z"
proof -
  let ?P = "\<lambda>b acc. \<exists>z. acc = Some z \<and> ct.rep c (g ^ (bn_val e div 2 ^ b)) z"
  have "?P 0 (public_exp_loop c base_m e acc)"
    unfolding public_exp_loop_def
  proof (rule fold_down_invariant [where P = "?P"])
    have "bn_val e div 2 ^ crypto_bignum_bit_length e = 0" using bit_length_le [OF e, of "crypto_bignum_bit_length e"] by simp
    then show "?P (crypto_bignum_bit_length e) (Some acc)" using acc by simp
  next
    fix b acc
    assume "?P (Suc b) acc"
    then obtain x where x: "acc = Some x" "ct.rep c (g ^ (bn_val e div 2 ^ Suc b)) x" by blast
    from ct.mul_rep [OF c x(2) x(2)] obtain s where s: "bignum_ct_mont_mul x x c = Some s"
      "ct.rep c ((g ^ (bn_val e div 2 ^ Suc b))\<^sup>2) s" by (auto simp: power2_eq_square)
    show "?P b (Option.bind acc (\<lambda>acc. case bignum_ct_mont_mul acc acc c of None \<Rightarrow> None
       | Some acc \<Rightarrow> if bignum_get_bit e b then bignum_ct_mont_mul acc base_m c else Some acc))"
      using x(1) s ct.mul_rep [OF c s(2) base] power_next_bit [of g "bn_val e" b]
      by (cases "bignum_get_bit e b") (simp_all add: get_bit_correct [OF e])
  qed
  then show ?thesis by simp
qed

text \<open>The full-width comparison without an early exit.\<close>

lemma fixed_width_borrow_correct: "fixed_width_borrow xs ys n = (if wv xs n < wv ys n then 1 else 0)"
proof -
  define out where "out = bignum_sub_loop (\<lambda>_. xs) (\<lambda>_. ys) n n (replicate n 0)"
  have "fixed_width_borrow xs ys k = snd (bignum_sub_loop (\<lambda>_. xs) (\<lambda>_. ys) n k limbs)" if "k \<le> n" for k limbs
    using that by (induction k) (auto simp: fixed_width_borrow_def bignum_sub_loop_def Let_def split: prod.splits)
  then have e: "fixed_width_borrow xs ys n = snd out" by (simp add: out_def)
  have s: "wv (fst out) n + wv ys n = wv xs n + unat (snd out) * 4294967296 ^ n" "unat (snd out) \<le> 1"
    using sub_loop_correct [of "\<lambda>_. xs" n xs "replicate n 0" "\<lambda>_. ys" n ys "fst out" "snd out"] by (simp_all add: out_def reads_def)
  then have "unat (snd out) = 0 \<or> unat (snd out) = 1" by linarith
  then have "unat (snd out) = (if wv xs n < wv ys n then 1 else 0)" using s(1) wv_bound [of "fst out" n] by auto
  then show ?thesis by (simp add: e word_unat_eq_iff)
qed

lemma mod_exp_public_fixed_base_correct:
  assumes ok: "bn_ok out" "bn_ok base" "bn_ok exponent" "bn_ok modulus"
    and modulus: "bn_LENGTH modulus < 144115188075855872" "odd (bn_val modulus)"
    and base: "bn_LENGTH modulus \<le> bn_CAPACITY base" "bn_val base < bn_val modulus" and exponent: "bn_val exponent \<noteq> 0"
  shows "bn_res heap (\<lambda>r. bn_val r = bn_val base ^ bn_val exponent mod bn_val modulus)
    (crypto_bignum_mod_exp_public_fixed_base heap out base exponent modulus)"
proof -
  let ?n = "bn_LENGTH modulus"
  have nz: "bn_val modulus \<noteq> 0" using modulus(2) by (intro notI) simp
  then have n: "?n \<noteq> 0" using bn_LENGTH_0 [OF ok(4)] by simp
  then have odd: "bn_LIMBS modulus ! 0 AND 1 \<noteq> 0" using modulus(2) odd_wv by (simp add: bn_val_def)
  have le: "bn_LENGTH base \<le> ?n" using ok(2) base(2) by (intro bn_LENGTH_mono) simp_all
  have bw: "length (take ?n (bn_LIMBS base)) = ?n" "wv (take ?n (bn_LIMBS base)) ?n = bn_val base"
    using base(1) bn_val_wide [OF ok(2) le base(1)] by simp_all
  have g1: "\<not> (?n = 0 \<or> bn_LENGTH exponent = 0 \<or> bn_LIMBS modulus ! 0 AND 1 = 0)" using n odd exponent bn_LENGTH_0 [OF ok(3)] by simp
  have g2: "\<not> (bn_CAPACITY base < ?n \<or> ?n < bn_LENGTH base \<or> (2 ^ 64 - 1) div 7 < ?n)" using base(1) le modulus(1) by simp
  have lt: "wv (bn_LIMBS base) ?n < wv (bn_LIMBS modulus) ?n"
    using base(2) bn_val_wide [OF ok(2) le base(1)] by (simp add: bn_val_def)
  note start = crypto_bignum_mod_exp_public_fixed_base_def [of heap out base exponent modulus, unfolded Let_def if_not_P [OF g1],
    unfolded if_not_P [OF g2] fixed_width_borrow_correct]
  from ok(4) modulus show ?thesis
  proof (cases rule: mont_init_correct [where heap = heap])
    case (fail heap')
    then show ?thesis using start lt ok(1) by (simp add: bn_res_def)
  next
    case (ok c heap1)
    note c = this
    show ?thesis
    proof (cases rule: calloc_cases [of heap1])
      case (fail heap')
      then show ?thesis using start lt c \<open>bn_ok out\<close> by (auto simp: bn_res_def)
    next
      case (ok heap2)
      obtain one_m where one_m: "bignum_ct_mont_mul (ct_one ?n) (mont_r2 c) c = Some one_m" "ct.rep c 1 one_m"
        using ct_one_rep [OF c(2)] c(3) by auto
      obtain base_m where base_m: "bignum_ct_mont_mul (take ?n (bn_LIMBS base)) (mont_r2 c) c = Some base_m" "ct.rep c (bn_val base) base_m"
        using ct.to_rep [OF c(2) _ wv_bound, of "take ?n (bn_LIMBS base)"] bw c(3) by auto
      from public_exp_loop_correct [OF c(2) base_m(2) one_m(2) \<open>bn_ok exponent\<close>]
      obtain acc where acc: "public_exp_loop c base_m exponent one_m = Some acc" "ct.rep c (bn_val base ^ bn_val exponent) acc" by blast
      from ct.from_rep [OF c(2) acc(2)] ct_one [OF n] c(3,4)
      obtain r where r: "bignum_ct_mont_mul acc (ct_one ?n) c = Some r" "length r = ?n"
        "wv r ?n = bn_val base ^ bn_val exponent mod bn_val modulus" by auto
      have "?n < 4611686018427387904" using modulus(1) by simp
      from store_fixed_correct [OF this r(2) \<open>bn_ok out\<close>, of heap2] show ?thesis
        using start lt c ok one_m(1) base_m(1) acc(1) r(1,3) by (auto simp: bn_res_def Let_def split: prod.splits if_splits)
    qed
  qed
qed

section \<open>The public functions\<close>

definition one_limb :: "u32 \<Rightarrow> LiberaCBignum" where
  "one_limb x = \<lparr>bn_LIMBS = [x], bn_LENGTH = 1\<rparr>"

lemma one_limb: "x \<noteq> 0 \<Longrightarrow> bn_ok (one_limb x)" "bn_val (one_limb x) = unat x" "bn_LENGTH (one_limb x) = 1" "bn_CAPACITY (one_limb x) = 1"
  by (auto simp: one_limb_def bn_ok_def bn_val_def wv_def)

lemma even_modulus:
  "bn_ok modulus \<Longrightarrow> even (bn_val modulus) \<longleftrightarrow> bn_LENGTH modulus = 0 \<or> bn_LIMBS modulus ! 0 AND 1 = 0"
  using odd_wv [of "bn_LENGTH modulus" "bn_LIMBS modulus"] by (cases "bn_LENGTH modulus = 0") (auto simp: bn_val_def)



text \<open>
  Fixed-width bases: with a base below an odd modulus and stored in its width, the
  exponentiation with a public exponent (which skips multiplications for zero bits) and the one
  with a secret exponent (which does not) both return the power modulo the modulus, and fail
  only when an allocation fails.
\<close>

theorem fixed_base_exponentiation_correct:
  fixes heap :: heap
  assumes "bn_ok out" and "bn_ok base" and "bn_ok exponent" and "bn_ok modulus" and "bn_LENGTH modulus < 144115188075855872"
    and "odd (bn_val modulus)" and "bn_val base < bn_val modulus" and "bn_LENGTH modulus \<le> bn_CAPACITY base"
    and "bn_val exponent \<noteq> 0" and "bn_LENGTH exponent \<le> bn_LENGTH modulus" and "bn_LENGTH modulus \<le> bn_CAPACITY exponent"
  defines "power_of \<equiv> \<lambda>(err, r, heap'). bn_ok r \<and>
    (if err = SUCCESS then bn_val r = bn_val base ^ bn_val exponent mod bn_val modulus else False \<in> set heap)"
  shows "power_of (crypto_bignum_mod_exp_public_fixed_base heap out base exponent modulus) \<and>
    power_of (crypto_bignum_mod_exp_ct_fixed_base heap out base exponent modulus)"
proof
  show "power_of (crypto_bignum_mod_exp_public_fixed_base heap out base exponent modulus)"
    using mod_exp_public_fixed_base_correct [where heap = heap, OF assms(1-6,8,7,9)] by (auto simp: power_of_def bn_res_def split: prod.splits if_splits)
  have "bn_LENGTH base \<le> bn_LENGTH modulus" using assms(2,7) by (intro bn_LENGTH_mono) simp_all
  moreover have "bn_val exponent < 4294967296 ^ bn_LENGTH modulus"
    using bn_val_bound [of exponent] power_increasing [OF assms(10), of "4294967296 :: nat"] by linarith
  ultimately show "power_of (crypto_bignum_mod_exp_ct_fixed_base heap out base exponent modulus)"
    using mod_exp_ct_core_correct [where second = None and fixed = True and heap = heap, OF assms(1) _ assms(4,5,6,3,11), of base] assms(2,8)
    by (auto simp: crypto_bignum_mod_exp_ct_fixed_base_def power_of_def split: prod.splits if_splits)
qed

theorem fixed_base_exponentiation_correct_witness:
  "(case crypto_bignum_mod_exp_public_fixed_base [] crypto_bignum_init (one_limb 3) (one_limb 5) (one_limb 7) of (err, r, heap') \<Rightarrow>
      err = SUCCESS \<and> bn_val r = 5) \<and>
   (case crypto_bignum_mod_exp_ct_fixed_base [] crypto_bignum_init (one_limb 3) (one_limb 5) (one_limb 7) of (err, r, heap') \<Rightarrow>
      err = SUCCESS \<and> bn_val r = 5)"
  using fixed_base_exponentiation_correct [of crypto_bignum_init "one_limb 3" "one_limb 5" "one_limb 7" "[]"]
  by (auto simp: one_limb split: prod.splits if_splits)

end
