(* ===== verification/Bignum_Vartime_Correct.thy ===== *)
theory Bignum_Vartime_Correct
  imports Bignum_Vartime Bignum_Mod_Exp_Correct
begin

text \<open>
  The sliding-window exponentiation and the generic one return the power of the base modulo the
  modulus, for every modulus.
\<close>

section \<open>The multiplication with an early exit\<close>

lemma vt_ge_loop_correct: "vt_ge_loop candidate modulus n \<longleftrightarrow> wv modulus n \<le> wv candidate n"
proof -
  have "vt_ge_loop candidate modulus n \<longleftrightarrow> 0 \<le> compare_limbs candidate modulus n"
    by (induction n) (auto simp: Let_def)
  then show ?thesis by (simp add: compare_limbs_correct)
qed

lemma vt_mont_mul_correct:
  assumes ctx: "mont_valid ctx" and small: "wv a (mont_n ctx) * wv b (mont_n ctx) < mont_N ctx * mont_R ctx"
  shows "\<exists>z. bignum_vt_mont_mul a b ctx = Some z \<and> length z = mont_n ctx \<and> wv z (mont_n ctx) < mont_N ctx \<and>
    wv z (mont_n ctx) * mont_R ctx mod mont_N ctx = wv a (mont_n ctx) * wv b (mont_n ctx) mod mont_N ctx"
proof -
  let ?n = "mont_n ctx" and ?N = "mont_N ctx" and ?R = "mont_R ctx"
  obtain t where t: "bignum_mont_cios_candidate a ?n b ?n (mont_mod ctx) ?n (mont_n0inv ctx) = Some t" "length t = ?n + 2"
    "wv t (?n + 1) < 2 * ?N"
    "\<And>z. length z = ?n \<Longrightarrow> wv z ?n = (if ?N \<le> wv t (?n + 1) then wv t (?n + 1) - ?N else wv t (?n + 1)) \<Longrightarrow>
       length z = ?n \<and> wv z ?n < ?N \<and> wv z ?n * ?R mod ?N = wv a ?n * wv b ?n mod ?N"
    using mont_candidate [OF assms] by metis
  obtain out borrow where sub: "bignum_sub_loop (\<lambda>_. t) (\<lambda>_. mont_mod ctx) ?n ?n (replicate ?n 0) = (out, borrow)" by (meson surj_pair)
  note s = candidate_minus_modulus [OF sub t(3)]
  have N: "?N < ?R" by (rule wv_bound)
  have T: "wv t (?n + 1) = wv t ?n + unat (t ! ?n) * ?R" by (simp add: wv_Suc)
  have ge: "bignum_vt_ge_mod t ctx \<longleftrightarrow> ?N \<le> wv t (?n + 1)"
  proof (cases "t ! ?n = 0")
    case True
    then show ?thesis using T by (simp add: bignum_vt_ge_mod_def vt_ge_loop_correct)
  next
    case False
    then have "1 * ?R \<le> unat (t ! ?n) * ?R" by (intro mult_le_mono1) (simp add: Suc_le_eq unat_gt_0)
    then have "?N \<le> wv t (?n + 1)" using T N by linarith
    then show ?thesis using False by (simp add: bignum_vt_ge_mod_def)
  qed
  define z where "z = (if ?N \<le> wv t (?n + 1) then out else take ?n t)"
  have mul: "bignum_vt_mont_mul a b ctx = Some z"
    unfolding bignum_vt_mont_mul_def Let_def t(1) option.case sub ge z_def by simp
  have "wv z ?n = (if ?N \<le> wv t (?n + 1) then wv t (?n + 1) - ?N else wv t (?n + 1))"
    using s(2) N high_limb_zero [of t ?n] by (simp add: z_def)
  then show ?thesis using mul t(4) [of z] s(1) t(2) by (simp add: z_def)
qed

interpretation vt: montgomery mont_valid "\<lambda>ctx. mont_N ctx" "\<lambda>ctx. mont_R ctx" "\<lambda>ctx x. length x = mont_n ctx"
    "\<lambda>ctx x. wv x (mont_n ctx)" "\<lambda>ctx a b. bignum_vt_mont_mul a b ctx" mont_r2
  using ct.coprime_R ct.N_R ct.N_pos ct.r2_law vt_mont_mul_correct by unfold_locales blast+

section \<open>Windows of the exponent\<close>

lemma is_u32_correct: "bn_ok a \<Longrightarrow> bignum_vt_is_u32 a x \<longleftrightarrow> bn_val a = unat x"
proof -
  assume ok: "bn_ok a"
  have "bn_val a = unat x \<longleftrightarrow> bn_LENGTH a = 1 \<and> bn_LIMBS a ! 0 = x" if "x \<noteq> 0"
  proof
    assume v: "bn_val a = unat x"
    then have "bn_val a < 4294967296 ^ 1" using unat_u32_less [of x] by simp
    then have "bn_LENGTH a \<le> 1" by (rule bn_LENGTH_le [OF ok])
    moreover have "bn_LENGTH a \<noteq> 0" using bn_LENGTH_0 [OF ok] v that by (simp add: unat_eq_zero)
    ultimately have "bn_LENGTH a = 1" by simp
    then show "bn_LENGTH a = 1 \<and> bn_LIMBS a ! 0 = x" using v by (simp add: bn_val_def wv_def word_unat_eq_iff)
  qed (simp add: bn_val_def wv_def)
  then show ?thesis using bn_LENGTH_0 [OF ok] by (simp add: bignum_vt_is_u32_def)
qed

lemma window_bits_le: "bignum_vt_window_bits bits \<le> 5"
  by (simp add: bignum_vt_window_bits_def)

lemma vt_trim_correct:
  "low < i \<Longrightarrow> bignum_get_bit e (i - 1) \<Longrightarrow> low \<le> vt_trim e i low \<and> bignum_get_bit e (vt_trim e i low)"
proof (induction e i low rule: vt_trim.induct)
  case (1 e i low)
  show ?case
  proof (cases "low < i - 1 \<and> \<not> bignum_get_bit e low")
    case True
    then have "vt_trim e i low = vt_trim e i (low + 1)" by (subst vt_trim.simps) simp
    moreover have "low + 1 < i" using True by linarith
    ultimately show ?thesis using "1.IH" [OF True] "1.prems" by simp
  next
    case False
    then have "vt_trim e i low = low" by (subst vt_trim.simps) auto
    moreover have "bignum_get_bit e low"
    proof (cases "low < i - 1")
      case False
      then have "low = i - 1" using "1.prems" by linarith
      then show ?thesis using "1.prems" by simp
    qed (use False in simp)
    ultimately show ?thesis by simp
  qed
qed

lemma div_mod_step:
  "e div 2 ^ j mod 2 ^ Suc k = 2 * (e div 2 ^ Suc j mod 2 ^ k) + of_bool (odd (e div 2 ^ j))" for e :: nat
proof -
  have "e div 2 ^ Suc j = e div 2 ^ j div 2" by (simp only: power_Suc2 div_mult2_eq)
  moreover have "x mod (2 * 2 ^ k) = 2 * (x div 2 mod 2 ^ k) + of_bool (odd x)" for x :: nat
    by (simp add: mod_mult2_eq mod_2_eq_odd)
  ultimately show ?thesis by simp
qed

lemma shift_in_bit:
  "unat (w :: u32) < 2147483648 \<Longrightarrow> unat (push_bit 1 w OR (if b then 1 else 0)) = 2 * unat w + of_bool b"
  using unat_join [of "if b then 1 else 0" 1 w] by (cases b) (simp_all only: or.commute if_True if_False, simp_all)

lemma window_value_correct:
  assumes e: "bn_ok e" and i: "low \<le> i" "i - low \<le> 31"
  shows "unat (vt_window_value e low i) = bn_val e div 2 ^ low mod 2 ^ (i - low)"
proof -
  have "unat (fold (\<lambda>j w. push_bit 1 w OR (if bignum_get_bit e j then 1 else 0)) (rev [j..<i]) (0 :: u32)) = bn_val e div 2 ^ j mod 2 ^ (i - j)"
    if "low \<le> j" "j \<le> i" for j
    using that(2,1)
  proof (induction rule: inc_induct)
    case (step j)
    let ?w = "fold (\<lambda>j w. push_bit 1 w OR (if bignum_get_bit e j then 1 else 0)) (rev [Suc j..<i]) (0 :: u32)"
    have w: "unat ?w = bn_val e div 2 ^ Suc j mod 2 ^ (i - Suc j)" using step by simp
    also have "\<dots> < 2 ^ (i - Suc j)" by simp
    also have "\<dots> \<le> 2 ^ 30" using step i(2) by (intro power_increasing) auto
    finally have lt: "unat ?w < 1073741824" by simp
    have "unat (push_bit 1 ?w OR (if bignum_get_bit e j then 1 else 0)) = 2 * unat ?w + of_bool (bignum_get_bit e j)"
      using lt by (intro shift_in_bit) simp
    moreover have "[j..<i] = j # [Suc j..<i]" using step by (simp add: upt_conv_Cons)
    moreover have "i - j = Suc (i - Suc j)" using step by simp
    ultimately show ?case using w div_mod_step [of "bn_val e" j "i - Suc j"] by (simp add: get_bit_correct [OF e])
  qed simp
  then show ?thesis using i by (simp add: vt_window_value_def)
qed

section \<open>The table and the main loop\<close>

lemma vt_table_correct:
  assumes c: "mont_valid c" and base: "vt.rep c g base_m" and count: "0 < count"
  shows "\<exists>table. vt_table c base_m count = Some table \<and> length table = count \<and>
    (\<forall>k < count. vt.rep c (g ^ (2 * k + 1)) (table ! k))"
proof (cases "1 < count")
  case False
  then have "count = 1" using count by simp
  then show ?thesis using base by (simp add: vt_table_def)
next
  case True
  from vt.mul_rep [OF c base base] obtain base2 where b2: "bignum_vt_mont_mul base_m base_m c = Some base2" "vt.rep c (g * g) base2" by blast
  let ?P = "\<lambda>n t. \<exists>table. t = Some table \<and> length table = n \<and> (\<forall>k < n. vt.rep c (g ^ (2 * k + 1)) (table ! k))"
  let ?f = "\<lambda>k table. Option.bind table (\<lambda>table. map_option (\<lambda>row. table @ [row]) (bignum_vt_mont_mul (table ! (k - 1)) base2 c))"
  have "?P count (fold ?f [1..<count] (Some [base_m]))"
  proof (rule fold_upt_invariant [where P = "?P"])
    show "?P 1 (Some [base_m])" using base by simp
  next
    fix k t
    assume k: "1 \<le> k" "k < count" and "?P k t"
    then obtain table where t: "t = Some table" "length table = k" "\<And>j. j < k \<Longrightarrow> vt.rep c (g ^ (2 * j + 1)) (table ! j)" by blast
    have "vt.rep c (g ^ (2 * (k - 1) + 1)) (table ! (k - 1))" using k t(3) by simp
    from vt.mul_rep [OF c this b2(2)] obtain row where row: "bignum_vt_mont_mul (table ! (k - 1)) base2 c = Some row"
      "vt.rep c (g ^ (2 * (k - 1) + 1) * (g * g)) row" by blast
    have "2 * k + 1 = 2 * (k - 1) + 1 + 2" using k by simp
    then have "g ^ (2 * k + 1) = g ^ (2 * (k - 1) + 1) * (g * g)" by (simp only: power_add power2_eq_square)
    with row(2) have "vt.rep c (g ^ (2 * k + 1)) row" by (simp only:)
    then have "vt.rep c (g ^ (2 * j + 1)) ((table @ [row]) ! j)" if "j < Suc k" for j
      using that t(2,3) by (cases "j = k") (simp_all add: nth_append)
    then show "?P (Suc k) (?f k t)" using t(1,2) row(1) by simp
  qed (use count in simp)
  then show ?thesis using True by (simp add: vt_table_def b2(1))
qed

lemma vt_squarings_correct:
  assumes c: "mont_valid c" and acc: "vt.rep c v acc"
  shows "\<exists>z. vt_squarings c k acc = Some z \<and> vt.rep c (v ^ 2 ^ k) z"
proof (induction k)
  case 0
  then show ?case using acc by (simp add: vt_squarings_def)
next
  case (Suc k)
  then obtain z where z: "vt_squarings c k acc = Some z" "vt.rep c (v ^ 2 ^ k) z" by blast
  from vt.mul_rep [OF c z(2) z(2)] obtain y where y: "bignum_vt_mont_mul z z c = Some y" "vt.rep c (v ^ 2 ^ k * v ^ 2 ^ k) y" by blast
  have "v ^ 2 ^ Suc k = v ^ 2 ^ k * v ^ 2 ^ k" by (simp add: mult_2 power_add)
  then show ?case using z(1) y by (simp add: vt_squarings_def)
qed

text \<open>A window in the exponent: the power for the bits above it, raised and multiplied.\<close>

lemma power_window:
  fixes g E :: nat
  assumes "low \<le> i"
  shows "g ^ (E div 2 ^ low) = (g ^ (E div 2 ^ i)) ^ 2 ^ (i - low) * g ^ (E div 2 ^ low mod 2 ^ (i - low))"
proof -
  have "E div 2 ^ i = E div 2 ^ low div 2 ^ (i - low)"
    using assms by (simp only: div_mult2_eq [symmetric] power_add [symmetric]) simp
  then have "E div 2 ^ low = E div 2 ^ i * 2 ^ (i - low) + E div 2 ^ low mod 2 ^ (i - low)"
    by (metis div_mult_mod_eq)
  then show ?thesis by (metis power_add power_mult)
qed

lemma vt_exp_loop_correct:
  assumes c: "mont_valid c" and e: "bn_ok e" and table: "length table = 2 ^ (bignum_vt_window_bits bits - 1)"
    "\<And>k. k < length table \<Longrightarrow> vt.rep c (g ^ (2 * k + 1)) (table ! k)"
    and acc: "vt.rep c (g ^ (bn_val e div 2 ^ i)) acc"
  shows "\<exists>z. vt_exp_loop c table e bits i acc = Some z \<and> vt.rep c (g ^ bn_val e) z"
  using acc
proof (induction i arbitrary: acc rule: less_induct)
  case (less i)
  let ?E = "bn_val e"
  consider "i = 0" | "i \<noteq> 0" "\<not> bignum_get_bit e (i - 1)" | "i \<noteq> 0" "bignum_get_bit e (i - 1)" by blast
  then show ?case
  proof cases
    case 1
    then show ?thesis using less.prems by (subst vt_exp_loop.simps) simp
  next
    case 2
    from vt.mul_rep [OF c less.prems less.prems] obtain z where z: "bignum_vt_mont_mul acc acc c = Some z"
      "vt.rep c ((g ^ (?E div 2 ^ i))\<^sup>2) z" by (auto simp: power2_eq_square)
    have "vt.rep c (g ^ (?E div 2 ^ (i - 1))) z"
      using z(2) 2 power_next_bit [of g ?E "i - 1"] by (simp add: get_bit_correct [OF e])
    from less.IH [OF _ this] show ?thesis using 2 z(1) by (subst vt_exp_loop.simps) simp
  next
    case 3
    let ?w = "bignum_vt_window_bits bits"
    define start where "start = (if ?w < i then i - ?w else 0)"
    define low where "low = vt_trim e i start"
    have start: "start < i" "i - start \<le> ?w" using 3(1) window_bits_pos [of bits] by (auto simp: start_def)
    have low: "low < i" "start \<le> low" "bignum_get_bit e low"
      using vt_trim_less [OF start(1), of e] vt_trim_correct [OF start(1) 3(2)] by (simp_all add: low_def)
    have width: "i - low \<le> ?w" using start(2) low(2) by simp
    define v where "v = vt_window_value e low i"
    have v: "unat v = ?E div 2 ^ low mod 2 ^ (i - low)"
      unfolding v_def using low(1) width window_bits_le [of bits] by (intro window_value_correct [OF e]) auto
    have odd: "odd (unat v)"
      using low unfolding v get_bit_correct [OF e] by (simp add: odd_iff_mod_2_eq_one mod_mod_cancel)
    have "unat v < 2 ^ (i - low)" unfolding v by simp
    also have "\<dots> \<le> 2 ^ ?w" using width by (rule power_increasing) simp
    also have "\<dots> = 2 * 2 ^ (?w - 1)" using window_bits_pos [of bits] by (cases ?w) simp_all
    finally have "unat v < 2 * length table" using table(1) by simp
    moreover obtain k where k: "unat v = 2 * k + 1" using odd by (elim oddE)
    ultimately have kt: "k < length table" by linarith
    have "unat (ucast v - 1 :: u64) = 2 * k" using k by (subst unat_sub) (simp_all add: word_le_nat_alt)
    then have idx: "unat (drop_bit 1 (ucast v - 1 :: u64)) = k" by (simp only: unat_drop_bit) simp
    from vt_squarings_correct [OF c less.prems, of "i - low"] obtain s where s: "vt_squarings c (i - low) acc = Some s"
      "vt.rep c ((g ^ (?E div 2 ^ i)) ^ 2 ^ (i - low)) s" by blast
    from vt.mul_rep [OF c s(2) table(2) [OF kt]] obtain z where z: "bignum_vt_mont_mul s (table ! k) c = Some z"
      "vt.rep c ((g ^ (?E div 2 ^ i)) ^ 2 ^ (i - low) * g ^ (2 * k + 1)) z" by blast
    have "vt.rep c (g ^ (?E div 2 ^ low)) z"
      using z(2) power_window [of low i g ?E] low(1) unfolding k [symmetric] v by simp
    from less.IH [OF low(1) this] show ?thesis
      using 3 s(1) z(1) kt idx unfolding low_def start_def v_def
      by (subst vt_exp_loop.simps) (simp add: Let_def)
  qed
qed

lemma vt_exp_words_correct:
  assumes c: "mont_valid c" and e: "bn_ok e" and reduced: "bn_ok reduced" "bn_LENGTH reduced \<le> mont_n c"
  defines "bits \<equiv> crypto_bignum_bit_length e"
  shows "\<exists>r. vt_exp_words c reduced e bits (2 ^ (bignum_vt_window_bits bits - 1)) = Some r \<and> length r = mont_n c \<and>
    wv r (mont_n c) = bn_val reduced ^ bn_val e mod mont_N c"
proof -
  let ?n = "mont_n c"
  have n: "?n \<noteq> 0" using c by (simp add: mont_valid_def)
  define words where "words = copy_at (replicate ?n 0) 0 (take (bn_LENGTH reduced) (bn_LIMBS reduced))"
  have words: "length words = ?n" "wv words ?n = bn_val reduced"
    using loaded_limbs [OF reduced(2)] reduced(1) by (simp_all add: words_def bn_ok_def)
  obtain one_m where one_m: "bignum_vt_mont_mul (ct_one ?n) (mont_r2 c) c = Some one_m" "vt.rep c 1 one_m"
    using vt.to_rep [OF c ct_one(1) [OF n]] ct_one(2) [OF n] n one_less_power [of "4294967296 :: nat" ?n] by auto
  obtain base_m where base_m: "bignum_vt_mont_mul words (mont_r2 c) c = Some base_m" "vt.rep c (bn_val reduced) base_m"
    using vt.to_rep [OF c words(1) wv_bound] words(2) by auto
  obtain table where table: "vt_table c base_m (2 ^ (bignum_vt_window_bits bits - 1)) = Some table"
    "length table = 2 ^ (bignum_vt_window_bits bits - 1)"
    "\<And>k. k < length table \<Longrightarrow> vt.rep c (bn_val reduced ^ (2 * k + 1)) (table ! k)"
    using vt_table_correct [OF c base_m(2), of "2 ^ (bignum_vt_window_bits bits - 1)"] by auto
  have "bn_val e div 2 ^ bits = 0" using bit_length_le [OF e, of bits] by (simp add: bits_def)
  then have "vt.rep c (bn_val reduced ^ (bn_val e div 2 ^ bits)) one_m" using one_m(2) by simp
  from vt_exp_loop_correct [OF c e table(2,3) this]
  obtain acc where acc: "vt_exp_loop c table e bits bits one_m = Some acc" "vt.rep c (bn_val reduced ^ bn_val e) acc" by blast
  from vt.from_rep [OF c acc(2) ct_one [OF n]] show ?thesis
    unfolding vt_exp_words_def Let_def words_def [symmetric] one_m(1) base_m(1) option.case table(1) acc(1) by simp
qed

section \<open>Storing a result\<close>

lemma vt_store_correct:
  assumes "n < 4611686018427387904" "length words = n" "bn_ok out"
  shows "bn_res heap (\<lambda>r. bn_val r = wv words n) (bignum_vt_store heap out words n)"
proof -
  let ?len = "bignum_words_length words n"
  have le: "?len \<le> n" by (rule words_length_le)
  have stored: "bn_ok t \<and> bn_val t = wv words n"
    if "?len \<le> k" "t = \<lparr>bn_LIMBS = copy_at (replicate k 0) 0 (take ?len words), bn_LENGTH = ?len\<rparr>" for t k
  proof -
    have nth: "bn_LIMBS t ! j = (if j < ?len then words ! j else 0)" if "j < k" for j
      using that \<open>?len \<le> k\<close> \<open>t = _\<close> assms(2) le by (simp add: nth_copy_at)
    have len: "bn_CAPACITY t = k" "bn_LENGTH t = ?len" using that assms(2) le by simp_all
    have "bn_val t = wv words ?len" unfolding bn_val_def len using nth that(1) by (intro wv_cong) simp
    then show ?thesis using nth len that(1) words_length_top [of words n] by (auto simp: bn_ok_def wv_words_length)
  qed
  show ?thesis
  proof (cases "?len = 0")
    case True
    then show ?thesis using stored [of 0] by (simp add: bignum_vt_store_def bn_res_def crypto_bignum_init_def)
  next
    case False
    have "?len < 4611686018427387904" using le assms(1) by simp
    then show ?thesis
    proof (cases rule: reserve_cases [where heap = heap and a = crypto_bignum_init])
      case (ok k heap')
      then show ?thesis using False stored [of k] by (simp add: bignum_vt_store_def bn_res_def crypto_bignum_init_def Let_def)
    next
      case (fail heap')
      then show ?thesis using False assms(3) by (simp add: bignum_vt_store_def bn_res_def)
    qed
  qed
qed

section \<open>The generic exponentiation for even moduli\<close>

definition opt_res :: "heap \<Rightarrow> ('a \<Rightarrow> bool) \<Rightarrow> 'a option \<times> heap \<Rightarrow> bool" where
  "opt_res heap Q r = (case r of (x, heap') \<Rightarrow>
     set heap' \<subseteq> set heap \<and> (case x of None \<Rightarrow> False \<in> set heap | Some x \<Rightarrow> Q x))"

lemma opt_resE:
  assumes "opt_res heap Q r"
  obtains (ok) x heap' where "r = (Some x, heap')" "Q x" "set heap' \<subseteq> set heap"
    | (fail) heap' where "r = (None, heap')" "set heap' \<subseteq> set heap" "False \<in> set heap"
  using assms by (cases r) (auto simp: opt_res_def split: option.splits)

lemma opt_res_mono: "opt_res heap' Q r \<Longrightarrow> set heap' \<subseteq> set heap \<Longrightarrow> opt_res heap Q r"
  by (auto simp: opt_res_def split: prod.splits option.splits)

text \<open>A well-formed object below the modulus.\<close>

definition reduced_below :: "LiberaCBignum \<Rightarrow> LiberaCBignum \<Rightarrow> bool" where
  "reduced_below modulus x \<longleftrightarrow> bn_ok x \<and> bn_val x < bn_val modulus"

lemma reduced_below_fits:
  assumes "bn_ok modulus" "bn_LENGTH modulus < 144115188075855872" "reduced_below modulus x"
  shows "bn_fits x" "bn_LENGTH x \<le> bn_LENGTH modulus"
  using assms bn_LENGTH_mono [of x modulus] by (auto simp: reduced_below_def bn_fits_def)

lemma mul_then_mod_correct:
  assumes modulus: "bn_ok modulus" "bn_LENGTH modulus < 144115188075855872"
    and "bn_ok out" "reduced_below modulus a" "reduced_below modulus b"
  shows "opt_res heap (\<lambda>r. reduced_below modulus r \<and> bn_val r = bn_val a * bn_val b mod bn_val modulus) (mul_then_mod heap out a b modulus)"
proof -
  have a: "bn_fits a" "bn_LENGTH a \<le> bn_LENGTH modulus" and b: "bn_fits b" "bn_LENGTH b \<le> bn_LENGTH modulus"
    using reduced_below_fits [OF modulus] assms(4,5) by blast+
  have nz: "bn_val modulus \<noteq> 0" using assms(4) by (auto simp: reduced_below_def)
  have m: "bn_fits modulus" using modulus by (simp add: bn_fits_def)
  from mul_correct [OF bn_init(1) a(1) b(1), where heap = heap and same = False] show ?thesis
  proof (cases rule: bn_resE)
    case (ok r heap')
    have "bn_fits r" using product_fits [OF a(1) b(1) _ ok(2,3)] a(2) b(2) modulus(2) by simp
    from mod_correct [OF assms(3) this m _ nz, where same = False and heap = heap']
    show ?thesis using ok nz by (auto simp: mul_then_mod_def opt_res_def bn_res_def reduced_below_def split: prod.splits if_splits)
  next
    case fail
    then show ?thesis by (simp add: mul_then_mod_def opt_res_def)
  qed
qed

lemma mod_exp_even_step_correct:
  assumes modulus: "bn_ok modulus" "bn_LENGTH modulus < 144115188075855872" and e: "bn_ok e"
    and state: "reduced_below modulus result" "reduced_below modulus b"
    and val: "bn_val result = g ^ (bn_val e mod 2 ^ i) mod bn_val modulus" "bn_val b = g ^ 2 ^ i mod bn_val modulus"
  shows "opt_res heap (\<lambda>(result, b). reduced_below modulus result \<and> reduced_below modulus b \<and>
      bn_val result = g ^ (bn_val e mod 2 ^ Suc i) mod bn_val modulus \<and>
      (Suc i < bits \<longrightarrow> bn_val b = g ^ 2 ^ Suc i mod bn_val modulus))
    (mod_exp_even_step e modulus bits i (Some (result, b), heap))"
proof -
  let ?N = "bn_val modulus" and ?E = "bn_val e"
  have okr: "bn_ok result" and okb: "bn_ok b" using state by (simp_all add: reduced_below_def)
  have bit: "?E mod 2 ^ Suc i = ?E mod 2 ^ i + of_bool (bignum_get_bit e i) * 2 ^ i"
    by (simp only: get_bit_correct [OF e] power_Suc2 mod_mult2_eq) (simp add: mod_2_eq_odd)
  have "opt_res heap (\<lambda>r. reduced_below modulus r \<and> bn_val r = g ^ (?E mod 2 ^ Suc i) mod ?N)
      (if bignum_get_bit e i then mul_then_mod heap result result b modulus else (Some result, heap))"
  proof (cases "bignum_get_bit e i")
    case True
    have "bn_val result * bn_val b mod ?N = g ^ (?E mod 2 ^ Suc i) mod ?N"
      unfolding val bit mod_mult_eq using True by (simp add: power_add)
    then show ?thesis using mul_then_mod_correct [OF modulus okr state, of heap] True by simp
  next
    case False
    then have "?E mod 2 ^ Suc i = ?E mod 2 ^ i" using bit by simp
    then show ?thesis using False state val by (simp add: opt_res_def)
  qed
  then show ?thesis
  proof (cases rule: opt_resE)
    case (fail heap')
    then show ?thesis unfolding mod_exp_even_step_def by (simp add: opt_res_def)
  next
    case (ok r heap')
    have "g ^ 2 ^ Suc i = g ^ 2 ^ i * g ^ 2 ^ i" by (simp add: power_add [symmetric] mult_2)
    then have "bn_val b * bn_val b mod ?N = g ^ 2 ^ Suc i mod ?N" unfolding val by (simp only: mod_mult_eq)
    then have "opt_res heap' (\<lambda>b. reduced_below modulus b \<and> (Suc i < bits \<longrightarrow> bn_val b = g ^ 2 ^ Suc i mod ?N))
        (if i + 1 < bits then mul_then_mod heap' b b b modulus else (Some b, heap'))"
      using mul_then_mod_correct [OF modulus okb state(2,2), of heap'] state(2) by (auto simp: opt_res_def split: prod.splits option.splits)
    from opt_res_mono [OF this ok(3)] show ?thesis
      unfolding mod_exp_even_step_def prod.case option.case ok(1) Let_def using ok(2)
      by (auto simp: opt_res_def split: prod.splits option.splits)
  qed
qed

lemma mod_exp_even_correct:
  assumes ok: "bn_ok out" "bn_fits base" "bn_ok e" and modulus: "bn_ok modulus" "bn_LENGTH modulus < 144115188075855872" "1 < bn_val modulus"
  shows "bn_res heap (\<lambda>r. bn_val r = bn_val base ^ bn_val e mod bn_val modulus) (mod_exp_even heap out base e modulus)"
proof -
  let ?N = "bn_val modulus" and ?E = "bn_val e" and ?bits = "crypto_bignum_bit_length e" and ?g = "bn_val base"
  have m: "bn_fits modulus" and nz: "?N \<noteq> 0" using modulus by (simp_all add: bn_fits_def)
  from set_u64_correct [OF bn_init(1), where x = 1 and heap = heap] show ?thesis
  proof (cases rule: bn_resE)
    case fail
    then show ?thesis using ok(1) by (simp add: mod_exp_even_def bn_res_def)
  next
    case one: (ok r0 heap0)
    from mod_correct [OF bn_init(1) ok(2) m _ nz, where same = False and heap = heap0]
    have "bn_res heap0 (\<lambda>r. bn_val r = ?g mod ?N) (crypto_bignum_mod heap0 False crypto_bignum_init base modulus)" by simp
    then show ?thesis
    proof (cases rule: bn_resE)
      case fail
      then show ?thesis using one ok(1) by (auto simp: mod_exp_even_def bn_res_def)
    next
      case base: (ok b0 heap1)
      let ?P = "\<lambda>i s. opt_res heap (\<lambda>(result, b). reduced_below modulus result \<and> reduced_below modulus b \<and>
          bn_val result = ?g ^ (?E mod 2 ^ i) mod ?N \<and> (i < ?bits \<or> i = 0 \<longrightarrow> bn_val b = ?g ^ 2 ^ i mod ?N)) s"
      have "?P ?bits (fold (mod_exp_even_step e modulus ?bits) [0..<?bits] (Some (r0, b0), heap1))"
      proof (rule fold_upt_invariant [where P = "?P"])
        show "?P 0 (Some (r0, b0), heap1)"
          using one base modulus(3) by (auto simp: opt_res_def reduced_below_def)
      next
        fix i and s :: "(LiberaCBignum \<times> LiberaCBignum) option \<times> heap"
        assume i: "i < ?bits" and P: "?P i s"
        from P show "?P (Suc i) (mod_exp_even_step e modulus ?bits i s)"
        proof (cases rule: opt_resE)
          case (fail heap')
          then show ?thesis by (simp add: mod_exp_even_step_def opt_res_def)
        next
          case (ok x heap')
          obtain result b where x: "x = (result, b)" by (meson surj_pair)
          have "opt_res heap' (\<lambda>(result, b). reduced_below modulus result \<and> reduced_below modulus b \<and>
              bn_val result = ?g ^ (?E mod 2 ^ Suc i) mod ?N \<and> (Suc i < ?bits \<longrightarrow> bn_val b = ?g ^ 2 ^ Suc i mod ?N))
            (mod_exp_even_step e modulus ?bits i (Some (result, b), heap'))"
            using ok(2) i x by (intro mod_exp_even_step_correct [OF modulus(1,2) assms(3)]) auto
          from opt_res_mono [OF this ok(3)] show ?thesis by (simp add: ok(1) x)
        qed
      qed simp
      then show ?thesis
      proof (cases rule: opt_resE)
        case (fail heap')
        then show ?thesis using one base assms(1) by (simp add: mod_exp_even_def bn_res_def)
      next
        case (ok x heap')
        obtain result b where x: "x = (result, b)" by (meson surj_pair)
        have r: "reduced_below modulus result" "bn_val result = ?g ^ (?E mod 2 ^ ?bits) mod ?N" using ok(2) x by auto
        have "?E mod 2 ^ ?bits = ?E" using bit_length_le [OF assms(3), of ?bits] by simp
        then have v: "bn_val result mod ?N = ?g ^ ?E mod ?N" using r(2) by simp
        have "bn_res heap' (\<lambda>r. bn_val r = bn_val result mod ?N) (crypto_bignum_mod heap' True result result modulus)"
          using reduced_below_fits [OF modulus(1,2) r(1)] m nz by (intro mod_correct) (simp_all add: bn_fits_def)
        then show ?thesis
          using ok one(1) base(1) x v assms(1) by (auto simp: mod_exp_even_def bn_res_def split: prod.splits if_splits)
      qed
    qed
  qed
qed

section \<open>The generic exponentiation for odd moduli\<close>

lemma shift_left_one_correct:
  assumes "bn_fits a"
  shows "bn_res heap (\<lambda>r. bn_val r = 2 * bn_val a) (bignum_shift_left_one heap a)"
proof (cases "bn_LENGTH a = 0")
  case True
  then show ?thesis using assms by (simp add: bignum_shift_left_one_def bn_res_def bn_fits_def bn_val_def)
next
  case False
  let ?l = "bn_LENGTH a"
  have ok: "bn_ok a" using assms by (rule bn_fits_ok)
  have "?l + 1 < 4611686018427387904" using assms by (simp add: bn_fits_def)
  then show ?thesis
  proof (cases rule: reserve_cases [where heap = heap and a = a])
    case (fail heap')
    then show ?thesis using False ok by (simp add: bignum_shift_left_one_def bn_res_def)
  next
    case (ok k heap')
    let ?L = "bn_LIMBS a @ replicate k 0"
    let ?P = "\<lambda>i (limbs, carry :: u64). length limbs = length ?L \<and> (\<forall>j\<ge>i. limbs ! j = ?L ! j) \<and> unat carry \<le> 1 \<and>
      wv limbs i + unat carry * 4294967296 ^ i = 2 * wv ?L i"
    obtain limbs carry where loop: "shift_one_loop ?l ?L = (limbs, carry)" by (meson surj_pair)
    have P: "?P ?l (limbs, carry)"
      unfolding loop [symmetric] shift_one_loop_def
    proof (rule fold_upt_invariant [where P = "?P"])
      fix i and s :: "u32 list \<times> u64"
      assume i: "i < ?l" and P: "?P i s"
      obtain o' c where s: "s = (o', c)" by (meson surj_pair)
      define v where "v = (push_bit 1 (ucast (o' ! i)) OR c :: u64)"
      have "unat v = unat c + unat (ucast (o' ! i) :: u64) * 2 ^ 1"
        unfolding v_def or.commute [of _ c] using P s unat_u32_less [of "o' ! i"] by (intro unat_join) simp_all
      then have v: "unat v = 2 * unat (?L ! i) + unat c" using P s by simp
      have "unat v < 2 * 4294967296" using v unat_u32_less [of "?L ! i"] P s by simp
      then have hi: "unat (drop_bit 32 v) \<le> 1" unfolding unat_high by (simp add: less_Suc_eq_le [symmetric] less_mult_imp_div_less)
      have len: "length o' = length ?L" "i < length o'" using P s i \<open>?l + 1 \<le> bn_CAPACITY a + k\<close> by simp_all
      from arg_cong [OF split_u64 [of v, unfolded v], of "\<lambda>v. v * 4294967296 ^ i"]
      have "wv (o'[i := ucast v]) (Suc i) + unat (drop_bit 32 v) * 4294967296 ^ Suc i = 2 * wv ?L (Suc i)"
        using P s len by (simp add: wv_Suc algebra_simps)
      then show "?P (Suc i) (case s of (limbs, carry) \<Rightarrow>
          let v = push_bit 1 (ucast (limbs ! i)) OR carry :: u64 in (limbs[i := ucast v], drop_bit 32 v))" using P hi unfolding s prod.case Let_def v_def [symmetric] by simp
    qed simp_all
    from P have l: "length limbs = length ?L" "\<And>j. ?l \<le> j \<Longrightarrow> limbs ! j = ?L ! j" "unat carry \<le> 1"
      "wv limbs ?l + unat carry * 4294967296 ^ ?l = 2 * wv ?L ?l" by auto
    have la: "?l \<le> bn_CAPACITY a" "\<And>j. ?l \<le> j \<Longrightarrow> j < bn_CAPACITY a \<Longrightarrow> bn_LIMBS a ! j = 0" using \<open>bn_ok a\<close> by (auto simp: bn_ok_def)
    then have zero: "?L ! j = 0" if "?l \<le> j" "j < length ?L" for j using that by (auto simp: nth_append)
    have val: "2 * wv ?L ?l = 2 * bn_val a" using la(1) by (simp add: bn_val_def)
    have top: "4294967296 ^ (?l - 1) \<le> bn_val a" using bn_val_top [OF \<open>bn_ok a\<close>] False by simp
    note start = bignum_shift_left_one_def [of heap a]
    show ?thesis
    proof (cases "carry = 0")
      case True
      let ?r = "a\<lparr>bn_LIMBS := limbs\<rparr>"
      have v: "bn_val ?r = 2 * bn_val a" using l(4) val True by (simp add: bn_val_def)
      have "bn_ok ?r"
        by (rule bn_okI) (use l(1,2) la(1) zero v top in \<open>auto simp: le_trans [OF top]\<close>)
      then show ?thesis using v False ok(1,3) loop True by (simp add: start bn_res_def)
    next
      case carry: False
      then have c1: "unat carry = 1" using l(3) by (metis le_Suc_eq One_nat_def le_0_eq unat_eq_zero)
      let ?r = "a\<lparr>bn_LIMBS := limbs[?l := ucast carry], bn_LENGTH := ?l + 1\<rparr>"
      have c: "unat (ucast carry :: u32) = 1" using c1 by (simp add: unat_ucast_low)
      have "wv (limbs[?l := ucast carry]) (?l + 1) = wv limbs ?l + 4294967296 ^ ?l"
        using l(1) ok(2) c by (simp add: wv_Suc)
      then have v: "bn_val ?r = 2 * bn_val a" using l(4) val c1 by (simp add: bn_val_def)
      have "4294967296 ^ ?l \<le> bn_val ?r" unfolding v using l(4) val c1 by simp
      then have "bn_ok ?r"
        by (intro bn_okI) (use l(1,2) ok(2) zero in auto)
      then show ?thesis using v False ok(1,3) loop carry by (simp add: start bn_res_def)
    qed
  qed
qed

lemma mont_double_correct:
  assumes modulus: "bn_ok modulus" "bn_LENGTH modulus < 144115188075855872" and x: "reduced_below modulus x"
  shows "opt_res heap (\<lambda>y. reduced_below modulus y \<and> bn_val y = 2 * bn_val x mod bn_val modulus) (mont_double modulus (Some x, heap))"
proof -
  from shift_left_one_correct [OF reduced_below_fits(1) [OF modulus x], of heap] show ?thesis
  proof (cases rule: bn_resE)
    case fail
    then show ?thesis by (simp add: mont_double_def opt_res_def)
  next
    case (ok y heap')
    have lt: "bn_val y < 2 * bn_val modulus" using ok(3) x by (simp add: reduced_below_def)
    also have "\<dots> \<le> 2 * 4294967296 ^ bn_LENGTH modulus" using bn_val_bound [of modulus] by simp
    also have "\<dots> \<le> 4294967296 ^ (bn_LENGTH modulus + 1)" by simp
    finally have "bn_val y < 4294967296 ^ (bn_LENGTH modulus + 1)" .
    then have y: "bn_fits y" by (rule bn_val_fits [OF ok(2)]) (use modulus(2) in simp)
    have m: "bn_fits modulus" using modulus by (simp add: bn_fits_def)
    show ?thesis
    proof (cases "bn_val modulus \<le> bn_val y")
      case True
      then have "bn_val y mod bn_val modulus = bn_val y - bn_val modulus" using lt by (simp add: le_mod_geq)
      then show ?thesis
        using sub_correct [OF bn_init(1) y m _ _ True, where heap = heap' and same_a = False and same_b = False] ok True compare_correct [OF ok(2) modulus(1)] lt
        by (auto simp: mont_double_def opt_res_def bn_res_def reduced_below_def split: prod.splits if_splits)
    next
      case False
      then show ?thesis using ok compare_correct [OF ok(2) modulus(1)]
        by (simp add: mont_double_def opt_res_def reduced_below_def)
    qed
  qed
qed

lemma mont_double_power:
  assumes modulus: "bn_ok modulus" "bn_LENGTH modulus < 144115188075855872" and x: "reduced_below modulus x"
  shows "opt_res heap (\<lambda>y. reduced_below modulus y \<and> bn_val y = 2 ^ k * bn_val x mod bn_val modulus) ((mont_double modulus ^^ k) (Some x, heap))"
proof (induction k)
  case 0
  then show ?case using x by (simp add: opt_res_def reduced_below_def)
next
  case (Suc k)
  then show ?case
  proof (cases rule: opt_resE)
    case (ok y heap')
    have "2 * bn_val y mod bn_val modulus = 2 ^ Suc k * bn_val x mod bn_val modulus"
      using ok(2) by (simp add: mod_mult_right_eq ac_simps)
    with mont_double_correct [OF modulus, of y heap'] ok show ?thesis by (auto intro: opt_res_mono simp: opt_res_def split: prod.splits option.splits)
  next
    case (fail heap')
    then show ?thesis by (simp add: mont_double_def opt_res_def)
  qed
qed

text \<open>A context of the generic exponentiation.\<close>

definition mctx_valid :: "LiberaCBignum \<Rightarrow> MONT_CTX \<Rightarrow> bool" where
  "mctx_valid modulus c \<longleftrightarrow> mctx_n c = bn_LENGTH modulus \<and> mctx_n0inv c = bignum_mont_n0inv (bn_LIMBS (mctx_mod c) ! 0) \<and>
     bn_ok (mctx_mod c) \<and> bn_val (mctx_mod c) = bn_val modulus \<and> reduced_below modulus (mctx_r2 c) \<and>
     bn_val (mctx_r2 c) = (4294967296 ^ bn_LENGTH modulus)\<^sup>2 mod bn_val modulus"

lemma same_LENGTH: "bn_ok a \<Longrightarrow> bn_ok b \<Longrightarrow> bn_val a = bn_val b \<Longrightarrow> bn_LENGTH a = bn_LENGTH b"
  by (intro order_antisym bn_LENGTH_mono) simp_all

lemma legacy_init_correct:
  assumes modulus: "bn_ok modulus" "bn_LENGTH modulus < 144115188075855872" "odd (bn_val modulus)" "1 < bn_val modulus"
  shows "opt_res heap (mctx_valid modulus) (mont_init heap modulus)"
proof -
  let ?n = "bn_LENGTH modulus"
  have n: "?n \<noteq> 0" using bn_LENGTH_0 [OF modulus(1)] modulus(4) by auto
  have odd: "bn_LIMBS modulus ! 0 AND 1 \<noteq> 0" using even_modulus [OF modulus(1)] modulus(3) by blast
  note start = mont_init_def [of heap modulus, unfolded Let_def]
  show ?thesis
  proof (cases rule: calloc_cases [of heap])
    case (fail heap')
    then show ?thesis using n odd by (simp add: start opt_res_def)
  next
    case c: (ok heap1)
    from copy_correct [OF bn_init(1) modulus(1), where heap = heap1 and same = False] modulus(2)
    have "bn_res heap1 (\<lambda>r. bn_val r = bn_val modulus) (crypto_bignum_copy heap1 False crypto_bignum_init modulus)" by simp
    then show ?thesis
    proof (cases rule: bn_resE)
      case fail
      then show ?thesis using n odd c by (auto simp: start opt_res_def)
    next
      case m: (ok m heap2)
      from set_u64_correct [OF bn_init(1), where x = 1 and heap = heap2] show ?thesis
      proof (cases rule: bn_resE)
        case fail
        then show ?thesis using n odd c m by (auto simp: start opt_res_def)
      next
        case x: (ok x heap3)
        have r: "64 * ?n mod 18446744073709551616 = 64 * ?n" using modulus(2) by simp
        have lm: "bn_LENGTH m = ?n" using same_LENGTH m(2,3) modulus(1) by blast
        have "wv (bn_LIMBS m) ?n = wv (bn_LIMBS modulus) ?n" using m(3) lm by (simp add: bn_val_def)
        then have l0: "bn_LIMBS m ! 0 = bn_LIMBS modulus ! 0" using wv_inj [of "bn_LIMBS m" ?n "bn_LIMBS modulus" 0] n by simp
        have "(2 :: nat) ^ (64 * ?n) = (4294967296 ^ ?n)\<^sup>2" by (simp add: pow_4294967296 power_mult [symmetric] mult.commute)
        moreover have "reduced_below modulus x" using x(2,3) modulus(4) by (simp add: reduced_below_def)
        ultimately have "opt_res heap3 (\<lambda>y. reduced_below modulus y \<and> bn_val y = (4294967296 ^ ?n)\<^sup>2 mod bn_val modulus)
            ((mont_double modulus ^^ (64 * ?n)) (Some x, heap3))"
          using mont_double_power [OF modulus(1,2), of x heap3 "64 * ?n"] x(3) by simp
        then show ?thesis
        proof (cases rule: opt_resE)
          case (fail heap4)
          then show ?thesis using n odd c m x by (auto simp: start opt_res_def r)
        next
          case (ok y heap4)
          then show ?thesis using n odd c m x l0
            by (auto simp: start opt_res_def r mctx_valid_def mont_n0inv_fn_def bignum_mont_n0inv_def)
        qed
      qed
    qed
  qed
qed

text \<open>The multiplication: the same equation as the interleaved core, with a separate shift.\<close>

lemma mont_add_high_correct:
  assumes "n + 2 \<le> length t" "unat carry < 4294967296" "unat (t ! (n + 1)) < 4294967295"
  shows "length (mont_add_high n carry t) = length t" "wv (mont_add_high n carry t) n = wv t n"
    "wv (mont_add_high n carry t) (n + 2) = wv t (n + 2) + unat carry * 4294967296 ^ n"
    "unat (mont_add_high n carry t ! (n + 1)) \<le> unat (t ! (n + 1)) + 1"
proof -
  define z where "z = (ucast (t ! n) + carry :: u64)"
  have z: "unat z = unat (t ! n) + unat carry"
    unfolding z_def using assms(2) unat_u32_less [of "t ! n"] by (subst unat_add_u64) simp_all
  have "unat z < 2 * 4294967296" using z assms(2) unat_u32_less [of "t ! n"] by simp
  then have hi: "unat (drop_bit 32 z) \<le> 1" unfolding unat_high by (simp add: less_Suc_eq_le [symmetric] less_mult_imp_div_less)
  then have "unat (ucast (drop_bit 32 z) :: u32) = unat (drop_bit 32 z)" by (simp add: unat_ucast_low)
  then have h: "unat (t ! (n + 1) + ucast (drop_bit 32 z)) = unat (t ! (n + 1)) + unat (drop_bit 32 z)"
    using hi assms(3) by (subst unat_add_small) simp_all
  have e: "mont_add_high n carry t = (t[n := ucast z])[n + 1 := t ! (n + 1) + ucast (drop_bit 32 z)]"
    by (simp add: mont_add_high_def Let_def z_def)
  show "length (mont_add_high n carry t) = length t" "wv (mont_add_high n carry t) n = wv t n" by (simp_all add: e)
  have "wv (mont_add_high n carry t) (n + 2) =
      wv t n + (unat (ucast z :: u32) + unat (drop_bit 32 z) * 4294967296) * 4294967296 ^ n + unat (t ! (n + 1)) * 4294967296 ^ (n + 1)"
    unfolding e using assms(1) h by (simp add: wv_Suc algebra_simps)
  also have "\<dots> = wv t (n + 2) + unat carry * 4294967296 ^ n"
    unfolding split_u64 z by (simp add: wv_Suc algebra_simps)
  finally show "wv (mont_add_high n carry t) (n + 2) = wv t (n + 2) + unat carry * 4294967296 ^ n" .
  show "unat (mont_add_high n carry t ! (n + 1)) \<le> unat (t ! (n + 1)) + 1" using assms(1) h hi by (simp add: e)
qed

lemma shift_down_limbs:
  assumes "m < length t"
  shows "length (fold (\<lambda>j t. t[j := t ! (j + 1)]) [0..<m] t) = length t"
    "k < m \<Longrightarrow> fold (\<lambda>j t. t[j := t ! (j + 1)]) [0..<m] t ! k = t ! (k + 1)"
proof -
  let ?P = "\<lambda>j t'. length t' = length t \<and> (\<forall>k<j. t' ! k = t ! (k + 1)) \<and> (\<forall>k\<ge>j. t' ! k = t ! k)"
  have "?P m (fold (\<lambda>j t. t[j := t ! (j + 1)]) [0..<m] t)"
    by (rule fold_upt_invariant [where P = "?P"]) (use assms in \<open>auto simp: nth_list_update less_Suc_eq\<close>)
  then show "length (fold (\<lambda>j t. t[j := t ! (j + 1)]) [0..<m] t) = length t"
    "k < m \<Longrightarrow> fold (\<lambda>j t. t[j := t ! (j + 1)]) [0..<m] t ! k = t ! (k + 1)" by blast+
qed

lemma mont_mul_step_correct:
  assumes modulus: "bn_ok modulus" "odd (bn_val modulus)" and c: "mctx_valid modulus c"
    and t: "length t = bn_LENGTH modulus + 2" "t ! (bn_LENGTH modulus + 1) = 0" and a: "bn_LENGTH a \<le> bn_LENGTH modulus"
  shows "length (mont_mul_step a b c i t) = bn_LENGTH modulus + 2 \<and> mont_mul_step a b c i t ! (bn_LENGTH modulus + 1) = 0 \<and>
    (\<exists>m. m < 4294967296 \<and> wv (mont_mul_step a b c i t) (bn_LENGTH modulus + 1) * 4294967296 =
      wv t (bn_LENGTH modulus + 1) + unat (if i < bn_LENGTH b then bn_LIMBS b ! i else 0) * bn_val a + m * bn_val modulus)"
proof -
  define n where "n = bn_LENGTH modulus"
  define t' where "t' = mont_mul_step a b c i t"
  let ?ms = "bn_LIMBS (mctx_mod c)" and ?B = "4294967296 :: nat"
  have ctx: "mctx_n c = n" "mctx_n0inv c = bignum_mont_n0inv (?ms ! 0)" "bn_ok (mctx_mod c)" "bn_val (mctx_mod c) = bn_val modulus"
    using c by (simp_all add: mctx_valid_def n_def)
  have ln: "bn_LENGTH (mctx_mod c) = n" using same_LENGTH [OF ctx(3) modulus(1) ctx(4)] by (simp add: n_def)
  have odd: "?ms ! 0 AND 1 \<noteq> 0" and n0: "n \<noteq> 0" using even_modulus [OF ctx(3)] ctx(4) modulus(2) ln by auto
  have N: "wv ?ms n = bn_val modulus" using ctx(4) ln by (simp add: bn_val_def)
  define bi where "bi = (if i < bn_LENGTH b then bn_LIMBS b ! i else 0)"
  obtain w1 c1 where row1: "cios_multiply (bn_LIMBS a) (bn_LENGTH a) bi n t = (w1, c1)" by (meson surj_pair)
  have r1: "length w1 = n + 2" "w1 ! n = t ! n" "w1 ! (n + 1) = 0" "unat c1 < ?B" "wv w1 n + unat c1 * ?B ^ n = wv t n + unat bi * bn_val a"
    using mul_row_correct [of 0 n t bi "padded (bn_LIMBS a) (bn_LENGTH a) n" w1 c1] row1 t a
    by (simp_all add: cios_multiply_row wv_padded bn_val_def n_def)
  define w2 where "w2 = mont_add_high n c1 w1"
  have h2: "length w2 = n + 2" "wv w2 (n + 2) = wv w1 (n + 2) + unat c1 * ?B ^ n" "unat (w2 ! (n + 1)) \<le> 1"
    using mont_add_high_correct [of n w1 c1] r1 by (simp_all add: w2_def)
  have v2: "wv w2 (n + 2) = wv t (n + 1) + unat bi * bn_val a" using h2(2) r1(2,3,5) by (simp add: wv_Suc)
  define m where "m = w2 ! 0 * mctx_n0inv c"
  obtain w3 c3 where row2: "bignum_mul_row m ?ms n 0 w2 = (w3, c3)" by (meson surj_pair)
  have r3: "length w3 = n + 2" "w3 ! n = w2 ! n" "w3 ! (n + 1) = w2 ! (n + 1)" "unat c3 < ?B" "wv w3 n + unat c3 * ?B ^ n = wv w2 n + unat m * wv ?ms n"
    using mul_row_correct [OF _ row2] h2(1) by simp_all
  define w4 where "w4 = mont_add_high n c3 w3"
  have h4: "length w4 = n + 2" "wv w4 (n + 2) = wv w3 (n + 2) + unat c3 * ?B ^ n" "wv w4 n = wv w3 n"
    using mont_add_high_correct [of n w3 c3] r3 h2(3) by (simp_all add: w4_def)
  have v4: "wv w4 (n + 2) = wv w2 (n + 2) + unat m * bn_val modulus" using h4(2) r3(2,3,5) N by (simp add: wv_Suc)
  have B: "?B ^ 1 dvd ?B ^ n" using n0 by (intro le_imp_power_dvd) simp
  have reduce: "(x + k * y) mod ?B = (x mod ?B + k * (y mod ?B)) mod ?B" for x y k :: nat
    using mod_add_cong [of "k * y" ?B "k * (y mod ?B)" x "x mod ?B"] by (simp add: mod_mult_right_eq add.commute)
  have low: "x mod ?B = unat (xs ! 0)" if "x = wv xs n" for x xs
    using that n0 wv_mod [of 1 n xs] by (simp add: wv_def)
  have "wv w4 1 = wv w3 n mod ?B" using wv_mod [of 1 n w4] n0 h4(3) by simp
  also have "\<dots> = (wv w3 n + unat c3 * ?B ^ n) mod ?B" using B by (simp add: dvd_imp_mod_0 mod_add_right_eq [symmetric, of _ "unat c3 * ?B ^ n"])
  also have "\<dots> = (unat (w2 ! 0) + unat m * unat (?ms ! 0)) mod ?B"
    unfolding r3(5) low [OF refl, symmetric] by (rule reduce)
  also have "\<dots> = 0" using mont_quotient [OF odd, of "w2 ! 0"] by (simp add: m_def ctx(2))
  finally have z: "wv w4 1 = 0" .
  define w5 where "w5 = fold (\<lambda>j t. t[j := t ! (j + 1)]) [0..<n + 1] w4"
  have s: "length w5 = n + 2" "\<And>k. k < n + 1 \<Longrightarrow> w5 ! k = w4 ! (k + 1)"
    using shift_down_limbs [of "n + 1" w4] h4(1) by (simp_all add: w5_def del: upt_Suc)
  have t': "t' = w5[n + 1 := 0]"
    unfolding t'_def mont_mul_step_def Let_def ctx(1) bi_def [symmetric] row1 prod.case w2_def [symmetric] m_def [symmetric] row2
      w4_def [symmetric] w5_def [symmetric] ..
  have "wv t' (n + 1) = wv (drop 1 w4) (n + 1)"
    using s h4(1) by (intro wv_cong) (simp add: t' nth_drop)
  moreover have "wv w4 (1 + (n + 1)) = wv w4 1 + ?B ^ 1 * wv (drop 1 w4) (n + 1)" using h4(1) by (intro wv_add) simp
  ultimately have "wv t' (n + 1) * ?B = wv t (n + 1) + unat bi * bn_val a + unat m * bn_val modulus"
    using v2 v4 z by simp
  then have "\<exists>m. m < ?B \<and> wv t' (n + 1) * ?B = wv t (n + 1) + unat bi * bn_val a + m * bn_val modulus"
    using unat_u32_less [of m] by blast
  then show ?thesis using s(1) unfolding t'_def [symmetric] n_def [symmetric] bi_def [symmetric] by (simp add: t')
qed

lemma mont_mul_correct:
  assumes modulus: "bn_ok modulus" "bn_LENGTH modulus < 144115188075855872" "odd (bn_val modulus)" and c: "mctx_valid modulus c"
    and ok: "bn_ok out" "reduced_below modulus a" "reduced_below modulus b"
  shows "bn_res heap (\<lambda>r. bn_val r < bn_val modulus \<and>
    bn_val r * 4294967296 ^ bn_LENGTH modulus mod bn_val modulus = bn_val a * bn_val b mod bn_val modulus) (mont_mul heap out a b c)"
proof -
  define n where "n = bn_LENGTH modulus"
  let ?N = "bn_val modulus" and ?R = "4294967296 ^ n" and ?bp = "padded (bn_LIMBS b) (bn_LENGTH b) n"
  have ctx: "mctx_n c = n" "bn_ok (mctx_mod c)" "bn_val (mctx_mod c) = ?N" using c by (simp_all add: mctx_valid_def n_def)
  have la: "bn_LENGTH a \<le> n" and lb: "bn_LENGTH b \<le> n" using reduced_below_fits [OF modulus(1,2)] ok by (simp_all add: n_def)
  define t where "t = fold (mont_mul_step a b c) [0..<n] (replicate (n + 2) 0)"
  let ?P = "\<lambda>i w. length w = n + 2 \<and> w ! (n + 1) = 0 \<and>
    (\<exists>k < 4294967296 ^ i. wv w (n + 1) * 4294967296 ^ i = bn_val a * wv ?bp i + k * ?N)"
  have "?P n t"
    unfolding t_def
  proof (rule fold_upt_invariant [where P = "?P"])
    have "replicate (n + 2) (0 :: u32) ! (n + 1) = 0" by (rule nth_replicate) simp
    moreover have "wv (replicate (n + 2) 0) (n + 1) = 0" by (rule wv_replicate_0) simp
    ultimately show "?P 0 (replicate (n + 2) 0)" by simp
  next
    fix i w
    assume i: "i < n" and P: "?P i w"
    then obtain k where k: "k < 4294967296 ^ i" "wv w (n + 1) * 4294967296 ^ i = bn_val a * wv ?bp i + k * ?N" by blast
    let ?w = "mont_mul_step a b c i w" and ?bi = "unat (if i < bn_LENGTH b then bn_LIMBS b ! i else 0)"
    from mont_mul_step_correct [OF modulus(1,3) c _ _ la [unfolded n_def], of w b i] P
    obtain m where w: "length ?w = n + 2" "?w ! (n + 1) = 0" and m: "m < 4294967296"
      "wv ?w (n + 1) * 4294967296 = wv w (n + 1) + ?bi * bn_val a + m * ?N" by (auto simp: n_def)
    have "wv ?w (n + 1) * 4294967296 ^ Suc i = wv ?w (n + 1) * 4294967296 * 4294967296 ^ i" by simp
    also have "\<dots> = wv w (n + 1) * 4294967296 ^ i + (?bi * bn_val a + m * ?N) * 4294967296 ^ i"
      unfolding m(2) by (simp only: algebra_simps)
    also have "\<dots> = bn_val a * (wv ?bp i + ?bi * 4294967296 ^ i) + (k + m * 4294967296 ^ i) * ?N"
      unfolding k(2) by (simp only: algebra_simps)
    also have "wv ?bp i + ?bi * 4294967296 ^ i = wv ?bp (Suc i)" using i by (simp add: wv_Suc)
    finally have e: "wv ?w (n + 1) * 4294967296 ^ Suc i = bn_val a * wv ?bp (Suc i) + (k + m * 4294967296 ^ i) * ?N" .
    have "m * 4294967296 ^ i \<le> 4294967295 * 4294967296 ^ i" using m(1) by (intro mult_le_mono1) simp
    then have "k + m * 4294967296 ^ i < 4294967296 ^ Suc i" using k(1) unfolding power_Suc by linarith
    then show "?P (Suc i) ?w" using w e by blast
  qed simp
  then obtain k where k: "length t = n + 2" "k < ?R" "wv t (n + 1) * ?R = bn_val a * bn_val b + k * ?N"
    using wv_padded [OF lb] by (auto simp: bn_val_def)
  have NR: "?N < ?R" using bn_val_bound [of modulus] by (simp add: n_def)
  have "bn_val a * bn_val b < ?N * ?R"
    using ok(2,3) NR by (intro mult_strict_mono) (auto simp: reduced_below_def)
  note red = once_reduced [OF k(3,2) this]
  note start = mont_mul_def [of heap out a b c, unfolded Let_def ctx(1) t_def [symmetric]]
  have "n + 1 < 4611686018427387904" using modulus(2) by (simp add: n_def)
  then show ?thesis
  proof (cases rule: reserve_cases [where heap = heap and a = crypto_bignum_init])
    case (fail heap')
    then show ?thesis using ok(1) by (simp add: start bn_res_def)
  next
    case s: (ok j heap')
    have j: "n + 1 \<le> j" using s(2) by (simp add: crypto_bignum_init_def)
    define u where "u = \<lparr>bn_LIMBS = copy_at (replicate j 0) 0 (take (n + 1) t), bn_LENGTH = n + 1\<rparr>"
    define r where "r = bignum_normalize u"
    have nth: "bn_LIMBS u ! i = (if i < n + 1 then t ! i else 0)" if "i < j" for i
      using that j k(1) by (simp add: u_def nth_copy_at del: take_Suc)
    have "bn_CAPACITY u = j" using j k(1) by (simp add: u_def)
    then have "bn_ok r" and "bn_val r = wv (bn_LIMBS u) (n + 1)"
      using normalize_ok [of u] j nth by (simp_all add: r_def) (simp_all add: u_def)
    moreover have "wv (bn_LIMBS u) (n + 1) = wv t (n + 1)" using nth j by (intro wv_cong) simp
    ultimately have r: "bn_ok r" "bn_val r = wv t (n + 1)" by simp_all
    have "2 * ?N \<le> 2 * ?R" using NR by simp
    also have "\<dots> \<le> 4294967296 ^ (n + 1)" by simp
    finally have "bn_val r < 4294967296 ^ (n + 1)" using r(2) red(3) by simp
    then have fits: "bn_fits r" by (rule bn_val_fits [OF r(1)]) (use modulus(2) in \<open>simp add: n_def\<close>)
    have fm: "bn_fits (mctx_mod c)"
      using same_LENGTH [OF ctx(2) modulus(1) ctx(3)] ctx(2) modulus(2) by (simp add: bn_fits_def)
    have ge: "0 \<le> crypto_bignum_compare r (mctx_mod c) \<longleftrightarrow> ?N \<le> bn_val r" using compare_correct [OF r(1) ctx(2)] ctx(3) by simp
    have e: "mont_mul heap out a b c = (if 0 \<le> crypto_bignum_compare r (mctx_mod c) then
         let (rc, tmp, heap) = crypto_bignum_sub heap' False False crypto_bignum_init r (mctx_mod c)
         in if rc \<noteq> SUCCESS then (INVALID_ARGUMENT, out, heap) else (SUCCESS, tmp, heap)
       else (SUCCESS, r, heap'))"
      unfolding start s(1) by (simp add: r_def u_def crypto_bignum_init_def)
    show ?thesis
    proof (cases "?N \<le> bn_val r")
      case True
      then have "bn_val (mctx_mod c) \<le> bn_val r" using ctx(3) by simp
      from sub_correct [OF bn_init(1) fits fm _ _ this, where heap = heap' and same_a = False and same_b = False]
      show ?thesis unfolding e using True ge red(1,2) r(2) ctx(3) ok(1) s(3) by (auto simp: bn_res_def n_def split: prod.splits if_splits)
    next
      case False
      then show ?thesis unfolding e using ge red(1,2) r s(3) by (simp add: bn_res_def n_def)
    qed
  qed
qed

text \<open>The Montgomery form on objects.\<close>

definition in_form :: "LiberaCBignum \<Rightarrow> nat \<Rightarrow> LiberaCBignum \<Rightarrow> bool" where
  "in_form modulus u x \<longleftrightarrow> bn_ok x \<and> bn_val x = u * 4294967296 ^ bn_LENGTH modulus mod bn_val modulus"

lemma in_form_below: "bn_val modulus \<noteq> 0 \<Longrightarrow> in_form modulus u x \<Longrightarrow> reduced_below modulus x"
  by (simp add: in_form_def reduced_below_def)

lemma radix_coprime: "odd (bn_val modulus) \<Longrightarrow> coprime (4294967296 ^ bn_LENGTH modulus) (bn_val modulus)"
  by (simp add: pow_4294967296)

lemma mont_mul_form:
  assumes modulus: "bn_ok modulus" "bn_LENGTH modulus < 144115188075855872" "odd (bn_val modulus)" and c: "mctx_valid modulus c"
    and ok: "bn_ok out" "in_form modulus u x" "in_form modulus v y"
  shows "bn_res heap (in_form modulus (u * v)) (mont_mul heap out x y c)"
proof -
  have nz: "bn_val modulus \<noteq> 0" using modulus(3) by (intro notI) simp
  have p: "bn_val x * bn_val y mod bn_val modulus = (u * v * 4294967296 ^ bn_LENGTH modulus) * 4294967296 ^ bn_LENGTH modulus mod bn_val modulus"
    using ok(2,3) by (simp only: in_form_def montgomery_product)
  show ?thesis
    by (rule bn_res_weaken [OF mont_mul_correct [OF modulus c ok(1) in_form_below [OF nz ok(2)] in_form_below [OF nz ok(3)]]])
      (use montgomery_residue [OF radix_coprime [OF modulus(3)] _ _ p] in \<open>auto simp: in_form_def\<close>)
qed

lemma mont_mul_enter:
  assumes modulus: "bn_ok modulus" "bn_LENGTH modulus < 144115188075855872" "odd (bn_val modulus)" and c: "mctx_valid modulus c"
    and ok: "bn_ok out" "reduced_below modulus x"
  shows "bn_res heap (in_form modulus (bn_val x)) (mont_mul heap out x (mctx_r2 c) c)"
proof -
  have r2: "reduced_below modulus (mctx_r2 c)" "bn_val (mctx_r2 c) = (4294967296 ^ bn_LENGTH modulus)\<^sup>2 mod bn_val modulus"
    using c by (simp_all add: mctx_valid_def)
  have p: "bn_val x * bn_val (mctx_r2 c) mod bn_val modulus =
      (bn_val x * 4294967296 ^ bn_LENGTH modulus) * 4294967296 ^ bn_LENGTH modulus mod bn_val modulus"
    unfolding r2(2) by (rule montgomery_enter)
  show ?thesis
    by (rule bn_res_weaken [OF mont_mul_correct [OF modulus c ok r2(1)]])
      (use montgomery_residue [OF radix_coprime [OF modulus(3)] _ _ p] in \<open>auto simp: in_form_def\<close>)
qed

lemma mont_mul_leave:
  assumes modulus: "bn_ok modulus" "bn_LENGTH modulus < 144115188075855872" "odd (bn_val modulus)" and c: "mctx_valid modulus c"
    and ok: "bn_ok out" "in_form modulus u x" "reduced_below modulus one" "bn_val one = 1"
  shows "bn_res heap (\<lambda>r. bn_val r = u mod bn_val modulus) (mont_mul heap out x one c)"
proof -
  have nz: "bn_val modulus \<noteq> 0" using modulus(3) by (intro notI) simp
  have p: "bn_val x * bn_val one mod bn_val modulus = u * 4294967296 ^ bn_LENGTH modulus mod bn_val modulus"
    using ok(2,4) by (simp add: in_form_def)
  show ?thesis
    by (rule bn_res_weaken [OF mont_mul_correct [OF modulus c ok(1) in_form_below [OF nz ok(2)] ok(3)]])
      (use montgomery_residue [OF radix_coprime [OF modulus(3)] _ _ p] in auto)
qed

lemma mod_exp_odd_step_correct:
  assumes modulus: "bn_ok modulus" "bn_LENGTH modulus < 144115188075855872" "odd (bn_val modulus)" and c: "mctx_valid modulus c"
    and e: "bn_ok e" and base: "in_form modulus g base_m" and acc: "in_form modulus (g ^ (bn_val e div 2 ^ Suc i)) acc"
  shows "opt_res heap (in_form modulus (g ^ (bn_val e div 2 ^ i))) (mod_exp_odd_step base_m e c i (Some acc, heap))"
proof -
  note bit = power_next_bit [of g "bn_val e" i]
  from mont_mul_form [OF modulus c bn_init(1) acc acc, of heap] show ?thesis
  proof (cases rule: bn_resE)
    case fail
    then show ?thesis by (simp add: mod_exp_odd_step_def opt_res_def)
  next
    case (ok s heap')
    have s: "in_form modulus ((g ^ (bn_val e div 2 ^ Suc i))\<^sup>2) s" using ok(3) by (simp add: power2_eq_square)
    show ?thesis
    proof (cases "bignum_get_bit e i")
      case True
      then have "(g ^ (bn_val e div 2 ^ Suc i))\<^sup>2 * g = g ^ (bn_val e div 2 ^ i)" using bit by (simp add: get_bit_correct [OF e])
      then show ?thesis using mont_mul_form [OF modulus c bn_init(1) s base, of heap'] ok(1,4) True
        by (auto simp: mod_exp_odd_step_def opt_res_def bn_res_def split: prod.splits if_splits)
    next
      case False
      then have "(g ^ (bn_val e div 2 ^ Suc i))\<^sup>2 = g ^ (bn_val e div 2 ^ i)" using bit by (simp add: get_bit_correct [OF e])
      then show ?thesis using s ok(1,4) False by (simp add: mod_exp_odd_step_def opt_res_def)
    qed
  qed
qed

lemma mod_exp_odd_loop_correct:
  assumes modulus: "bn_ok modulus" "bn_LENGTH modulus < 144115188075855872" "odd (bn_val modulus)" and c: "mctx_valid modulus c"
    and e: "bn_ok e" and base: "in_form modulus g base_m" and acc: "in_form modulus 1 acc"
  shows "opt_res heap (in_form modulus (g ^ bn_val e))
    (fold (mod_exp_odd_step base_m e c) (rev [0..<crypto_bignum_bit_length e]) (Some acc, heap))"
proof -
  let ?P = "\<lambda>i s. opt_res heap (in_form modulus (g ^ (bn_val e div 2 ^ i))) s"
  have "?P 0 (fold (mod_exp_odd_step base_m e c) (rev [0..<crypto_bignum_bit_length e]) (Some acc, heap))"
  proof (rule fold_down_invariant [where P = "?P"])
    have "bn_val e div 2 ^ crypto_bignum_bit_length e = 0" using bit_length_le [OF e, of "crypto_bignum_bit_length e"] by simp
    then show "?P (crypto_bignum_bit_length e) (Some acc, heap)" using acc by (simp add: opt_res_def)
  next
    fix i and s :: "LiberaCBignum option \<times> heap"
    assume "?P (Suc i) s"
    then show "?P i (mod_exp_odd_step base_m e c i s)"
    proof (cases rule: opt_resE)
      case (ok x heap')
      from opt_res_mono [OF mod_exp_odd_step_correct [OF modulus c e base ok(2)] ok(3)] show ?thesis by (simp add: ok(1))
    next
      case (fail heap')
      then show ?thesis by (simp add: mod_exp_odd_step_def opt_res_def)
    qed
  qed
  then show ?thesis by simp
qed

lemma mod_exp_odd_correct:
  assumes ok: "bn_ok out" "bn_fits base" "bn_ok e"
    and modulus: "bn_ok modulus" "bn_LENGTH modulus < 144115188075855872" "odd (bn_val modulus)" "1 < bn_val modulus"
  shows "bn_res heap (\<lambda>r. bn_val r = bn_val base ^ bn_val e mod bn_val modulus) (mod_exp_odd heap out base e modulus)"
proof -
  let ?N = "bn_val modulus" and ?E = "bn_val e"
  have m: "bn_fits modulus" and nz: "?N \<noteq> 0" using modulus by (simp_all add: bn_fits_def)
  note start = mod_exp_odd_def [of heap out base e modulus, unfolded Let_def]
  from legacy_init_correct [OF modulus, of heap] show ?thesis
  proof (cases rule: opt_resE)
    case fail
    then show ?thesis using ok(1) by (simp add: start bn_res_def)
  next
    case c: (ok c heap1)
    have "bn_res heap1 (\<lambda>r. bn_val r = bn_val base mod ?N) (crypto_bignum_mod heap1 False crypto_bignum_init base modulus)"
      using ok(2) m nz by (intro mod_correct) simp_all
    then show ?thesis
    proof (cases rule: bn_resE)
      case fail
      then show ?thesis using c ok(1) by (auto simp: start bn_res_def)
    next
      case b: (ok b heap2)
      have below: "reduced_below modulus b" using b nz by (simp add: reduced_below_def)
      from set_u64_correct [OF bn_init(1), where x = 1 and heap = heap2] show ?thesis
      proof (cases rule: bn_resE)
        case fail
        then show ?thesis using c b ok(1) by (auto simp: start bn_res_def)
      next
        case one: (ok one heap3)
        have h3: "set heap3 \<subseteq> set heap" using one(4) b(4) c(3) by blast
        have below1: "reduced_below modulus one" using one modulus(4) by (simp add: reduced_below_def)
        from mont_mul_enter [OF modulus(1-3) c(2) bn_init(1) below, of heap3] show ?thesis
        proof (cases rule: bn_resE)
          case fail
          then show ?thesis using c b one ok(1) h3 by (auto simp: start bn_res_def)
        next
          case bm: (ok base_m heap4)
          have h4: "set heap4 \<subseteq> set heap" using bm(4) h3 by blast
          from mont_mul_enter [OF modulus(1-3) c(2) bn_init(1) below1, of heap4] show ?thesis
          proof (cases rule: bn_resE)
            case fail
            then show ?thesis using c(1) b(1) one(1) bm(1) ok(1) h4 by (auto simp: start bn_res_def)
          next
            case a0: (ok acc0 heap5)
            have h5: "set heap5 \<subseteq> set heap" using a0(4) h4 by blast
            have "in_form modulus 1 acc0" using a0(3) one(3) by simp
            from mod_exp_odd_loop_correct [OF modulus(1-3) c(2) ok(3) bm(3) this, of heap5] show ?thesis
            proof (cases rule: opt_resE)
              case fail
              then show ?thesis using c(1) b(1) one(1) bm(1) a0(1) ok(1) h5 by (auto simp: start bn_res_def)
            next
              case a: (ok acc heap6)
              have h6: "set heap6 \<subseteq> set heap" using a(3) h5 by blast
              have v: "bn_val b ^ ?E mod ?N = bn_val base ^ ?E mod ?N" using b(3) by (simp add: power_mod)
              from mont_mul_leave [OF modulus(1-3) c(2) bn_init(1) a(2) below1, of heap6] one(3)
              show ?thesis using c(1) b(1) one(1) bm(1) a0(1) a(1) h6 ok(1) v
                by (auto simp: start bn_res_def split: prod.splits if_splits)
            qed
          qed
        qed
      qed
    qed
  qed
qed

lemma mod_exp_correct:
  assumes "bn_ok out" "bn_fits base" "bn_ok e" "bn_ok modulus" "bn_LENGTH modulus < 144115188075855872" "1 < bn_val modulus"
  shows "bn_res heap (\<lambda>r. bn_val r = bn_val base ^ bn_val e mod bn_val modulus) (crypto_bignum_mod_exp heap out base e modulus)"
  using mod_exp_even_correct [OF assms(1-5,6), of heap] mod_exp_odd_correct [OF assms(1-5) _ assms(6), of heap]
    even_modulus [OF assms(4)] bn_LENGTH_0 [OF assms(4)] assms(6)
  by (auto simp: crypto_bignum_mod_exp_def)

section \<open>The public exponentiation\<close>

lemma mod_exp_vartime_words:
  assumes ok: "bn_ok out" "bn_fits base" "bn_ok e"
    and modulus: "bn_ok modulus" "bn_LENGTH modulus < 144115188075855872" "odd (bn_val modulus)" "1 < bn_val modulus"
    and general: "bn_val e \<noteq> 0" "bn_val e \<noteq> 1" "bn_val e \<noteq> 2"
  shows "bn_res heap (\<lambda>r. bn_val r = bn_val base ^ bn_val e mod bn_val modulus)
    (crypto_bignum_mod_exp_vartime heap same out base e modulus)"
proof -
  let ?N = "bn_val modulus" and ?E = "bn_val e" and ?n = "bn_LENGTH modulus" and ?bits = "crypto_bignum_bit_length e"
  have m: "bn_fits modulus" and nz: "?N \<noteq> 0" and n: "?n \<noteq> 0"
    using modulus bn_LENGTH_0 [OF modulus(1)] by (auto simp: bn_fits_def)
  have odd: "bn_LIMBS modulus ! 0 AND 1 \<noteq> 0" using even_modulus [OF modulus(1)] modulus(3) by blast
  have g: "\<not> bignum_vt_is_u32 modulus 1" "bn_LENGTH e \<noteq> 0" "\<not> bignum_vt_is_u32 e 1" "\<not> bignum_vt_is_u32 e 2"
    using modulus(4) general bn_LENGTH_0 [OF ok(3)] by (simp_all add: is_u32_correct [OF modulus(1)] is_u32_correct [OF ok(3)])
  define below where "below = (crypto_bignum_compare base modulus < 0)"
  have bl: "below \<longleftrightarrow> bn_val base < ?N" using compare_correct [OF bn_fits_ok [OF ok(2)] modulus(1)] by (simp add: below_def)
  define first where "first = (if below then crypto_bignum_copy heap False crypto_bignum_init base
      else crypto_bignum_mod heap False crypto_bignum_init base modulus)"
  note start = crypto_bignum_mod_exp_vartime_def [of heap same out base e modulus, unfolded if_not_P [OF n] if_not_P [OF odd] if_not_P [OF g(1)]
    if_not_P [OF g(2)] if_not_P [OF g(3)] if_not_P [OF g(4)] Let_def, folded below_def, folded first_def]
  have "bn_res heap (\<lambda>r. bn_val r = bn_val base mod ?N) first"
  proof (cases below)
    case True
    have "bn_LENGTH base < 4611686018427387904" using ok(2) by (simp add: bn_fits_def)
    then show ?thesis using copy_correct [OF bn_init(1) bn_fits_ok [OF ok(2)], where heap = heap and same = False] True bl by (simp add: first_def)
  next
    case False
    then show ?thesis using mod_correct [OF bn_init(1) ok(2) m _ nz, where heap = heap and same = False] by (simp add: first_def)
  qed
  then show ?thesis
  proof (cases rule: bn_resE)
    case fail
    then show ?thesis using ok(1) by (simp add: start bn_res_def)
  next
    case r: (ok r heap1)
    have v: "bn_val r ^ ?E mod ?N = bn_val base ^ ?E mod ?N" using r(3) by (simp add: power_mod)
    consider "bn_val r = 0" | "bn_val r = 1" | "bn_val r \<noteq> 0" "bn_val r \<noteq> 1" by blast
    then show ?thesis
    proof cases
      case 1
      then have "bn_val base ^ ?E mod ?N = 0" using v general(1) by (simp add: power_0_left)
      then show ?thesis using 1 r bn_LENGTH_0 [OF r(2)] by (simp add: start bn_res_def)
    next
      case 2
      then have "bn_val base ^ ?E mod ?N = 1" using v modulus(4) by simp
      then show ?thesis using 2 r bn_LENGTH_0 [OF r(2)] set_u64_correct [OF ok(1), where x = 1 and heap = heap1]
        by (auto simp: start bn_res_def is_u32_correct split: prod.splits if_splits)
    next
      case 3
      then have g2: "bn_LENGTH r \<noteq> 0" "\<not> bignum_vt_is_u32 r 1" using bn_LENGTH_0 [OF r(2)] by (simp_all add: is_u32_correct [OF r(2)])
      have lr: "bn_LENGTH r \<le> ?n" using r(3) nz by (intro bn_LENGTH_mono [OF r(2)]) (simp add: mod_less_divisor less_imp_le)
      have "(2 :: nat) ^ (bignum_vt_window_bits ?bits - 1) \<le> 2 ^ 4" using window_bits_le [of ?bits] by (intro power_increasing) auto
      then have "(2 ^ 64 - 1) div 24 \<le> (2 ^ 64 - 1) div (8 + 2 ^ (bignum_vt_window_bits ?bits - 1) :: nat)" by (intro div_le_mono2) simp_all
      then have g3: "\<not> (2 ^ 64 - 1) div (8 + 2 ^ (bignum_vt_window_bits ?bits - 1)) < ?n" using modulus(2) by simp
      note start' = start [unfolded r(1) prod.case if_not_P [OF g2(1)] if_not_P [OF g2(2)] if_not_P [OF g3] bignum_vt_mont_init_def]
      from modulus(1-3) show ?thesis
      proof (cases rule: mont_init_correct [where heap = heap1])
        case (fail heap')
        then show ?thesis using ok(1) r(4) by (auto simp: start' bn_res_def)
      next
        case c: (ok c heap2)
        show ?thesis
        proof (cases rule: calloc_cases [of heap2])
          case (fail heap')
          then show ?thesis using ok(1) r(4) c by (auto simp: start' bn_res_def)
        next
          case h: (ok heap3)
          from vt_exp_words_correct [OF c(2) ok(3) r(2)] lr c(3)
          obtain w where w: "vt_exp_words c r e ?bits (2 ^ (bignum_vt_window_bits ?bits - 1)) = Some w" "length w = ?n"
            "wv w ?n = bn_val base ^ ?E mod ?N" using c(4) v by auto
          have "?n < 4611686018427387904" using modulus(2) by simp
          from vt_store_correct [OF this w(2) ok(1), of heap3] show ?thesis
            using c(1,5) h r(1,4) w(1,3) by (auto simp: start' bn_res_def split: prod.splits if_splits)
        qed
      qed
    qed
  qed
qed

text \<open>
  C40. Exponentiation on public values: for every nonzero modulus, even or odd, and whichever
  path is taken (the identities for the modulus one and the exponents zero, one and two, a
  reduced base of zero or one, the sliding window, or the binary method for an even modulus),
  the result is the base raised to the exponent modulo the modulus, in place or not, and only a
  failed allocation makes it fail.
\<close>

theorem crypto_bignum_mod_exp_vartime_correct:
  assumes "bn_ok out" and "bn_fits base" and "bn_fits e" and "bn_ok modulus"
    and "bn_LENGTH modulus < 144115188075855872" and "bn_LENGTH base < 144115188075855872"
    and "bn_val modulus \<noteq> 0" and "same \<Longrightarrow> out = base"
  shows "case crypto_bignum_mod_exp_vartime heap same out base e modulus of (err, r, heap') \<Rightarrow>
    bn_ok r \<and> (err = SUCCESS \<longrightarrow> bn_val r = bn_val base ^ bn_val e mod bn_val modulus) \<and> (err \<noteq> SUCCESS \<longrightarrow> False \<in> set heap)"
proof -
  let ?N = "bn_val modulus" and ?E = "bn_val e"
  note is1 = is_u32_correct [OF assms(4)] is_u32_correct [OF bn_fits_ok [OF assms(3)]]
  note def = crypto_bignum_mod_exp_vartime_def [of heap same out base e modulus]
  have n: "bn_LENGTH modulus \<noteq> 0" using bn_LENGTH_0 [OF assms(4)] assms(7) by simp
  have e0: "bn_LENGTH e = 0 \<longleftrightarrow> ?E = 0" using bn_LENGTH_0 [OF bn_fits_ok [OF assms(3)]] .
  have m: "bn_fits modulus" using assms(4,5) by (simp add: bn_fits_def)
  have "bn_res heap (\<lambda>r. bn_val r = bn_val base ^ ?E mod ?N) (crypto_bignum_mod_exp_vartime heap same out base e modulus)"
  proof (cases "?N = 1")
    case True
    then show ?thesis using n by (simp add: def is1 bn_res_def)
  next
    case N: False
    then have N1: "1 < ?N" using assms(7) by simp
    consider "?E = 0" | "?E = 1" | "?E = 2" | "?E \<noteq> 0" "?E \<noteq> 1" "?E \<noteq> 2" by blast
    then show ?thesis
    proof cases
      case 1
      then show ?thesis using n N N1 set_u64_correct [OF assms(1), where x = 1 and heap = heap] by (simp add: def is1 e0)
    next
      case 2
      then show ?thesis using n N mod_correct [OF assms(1,2) m assms(8,7), where heap = heap] by (simp add: def is1 e0)
    next
      case 3
      then show ?thesis using n N mod_square_correct [OF assms(1,2) m _ assms(7), where heap = heap] assms(6)
        by (simp add: def is1 e0 power2_eq_square)
    next
      case 4
      show ?thesis
      proof (cases "odd ?N")
        case True
        then show ?thesis using mod_exp_vartime_words [OF assms(1,2) bn_fits_ok [OF assms(3)] assms(4,5) True N1 4] by simp
      next
        case False
        then show ?thesis using 4 n N even_modulus [OF assms(4)]
            mod_exp_correct [OF assms(1,2) bn_fits_ok [OF assms(3)] assms(4,5) N1, of heap] by (simp add: def is1 e0)
      qed
    qed
  qed
  then show ?thesis by (auto simp: bn_res_def split: prod.splits if_splits)
qed

theorem crypto_bignum_mod_exp_vartime_correct_witness:
  "(case crypto_bignum_mod_exp_vartime [] True (one_limb 3) (one_limb 3) (one_limb 5) (one_limb 7) of (err, r, heap') \<Rightarrow>
      err = SUCCESS \<and> bn_val r = 5) \<and>
   (case crypto_bignum_mod_exp_vartime [] False crypto_bignum_init (one_limb 3) (one_limb 5) (one_limb 8) of (err, r, heap') \<Rightarrow>
      err = SUCCESS \<and> bn_val r = 3)"
  using crypto_bignum_mod_exp_vartime_correct [of "one_limb 3" "one_limb 3" "one_limb 5" "one_limb 7" True "[]"]
    crypto_bignum_mod_exp_vartime_correct [of crypto_bignum_init "one_limb 3" "one_limb 5" "one_limb 8" False "[]"]
  by (auto simp: one_limb bn_fits_def split: prod.splits if_splits)

end
