(* ===== verification/MLKEM_NTT.thy ===== *)
theory MLKEM_NTT
  imports Util_Core "HOL-Library.Signed_Division"
begin

text \<open>
  Arithmetic modulo 3329 and the number-theoretic transform of ML-KEM:
  \<^verbatim>\<open>reduce.h\<close> and \<^verbatim>\<open>NTT_.c\<close> under \<^verbatim>\<open>src/KeyEncapsulation/ML-KEM\<close>. A C \<open>int\<close> is an integer, whose value
  never leaves the 32-bit range here; the conversions to and from \<open>uint32_t\<close> are written out. A
  polynomial is a list of 256 coefficients. The loops over the blocks and the layers are
  recursions with the code's bounds; an output array is returned.
\<close>

section \<open>The code\<close>

subsection \<open>Reduction\<close>

abbreviation MLKEM_Q :: int where "MLKEM_Q \<equiv> 3329"
abbreviation MLKEM_N :: nat where "MLKEM_N \<equiv> 256"
abbreviation MLKEM_BARRETT_MU :: u64 where "MLKEM_BARRETT_MU \<equiv> 1290167"

definition mlkem_reduce_once_u32 :: "u32 \<Rightarrow> u32" where
  "mlkem_reduce_once_u32 value =
     (let reduced = value - word_of_int MLKEM_Q;
          restore_mask = 0 - drop_bit 31 reduced
      in reduced + (word_of_int MLKEM_Q AND restore_mask))"

definition mlkem_barrett_reduce_u32 :: "u32 \<Rightarrow> u32" where
  "mlkem_barrett_reduce_u32 value =
     (let quotient = ucast (drop_bit 32 ((ucast value :: u64) * MLKEM_BARRETT_MU)) :: u32;
          remainder = value - quotient * word_of_int MLKEM_Q
      in mlkem_reduce_once_u32 remainder)"

definition mlkem_add_mod_q :: "int \<Rightarrow> int \<Rightarrow> int" where
  "mlkem_add_mod_q first second =
     (let sum = (word_of_int first :: u32) + word_of_int second in sint (mlkem_reduce_once_u32 sum))"

definition mlkem_sub_mod_q :: "int \<Rightarrow> int \<Rightarrow> int" where
  "mlkem_sub_mod_q first second =
     (let difference = (word_of_int first :: u32) + word_of_int MLKEM_Q - word_of_int second
      in sint (mlkem_reduce_once_u32 difference))"

definition mlkem_mul_mod_q :: "int \<Rightarrow> int \<Rightarrow> int" where
  "mlkem_mul_mod_q first second =
     (let product = (word_of_int first :: u32) * word_of_int second
      in sint (mlkem_barrett_reduce_u32 product))"

subsection \<open>The transform\<close>

definition ZETA_TABLE :: "int list" where
  "ZETA_TABLE = [
    1, 17, 289, 1584, 296, 1703, 2319, 2804, 1062, 1409, 650, 1063, 1426, 939, 2647, 1722,
    2642, 1637, 1197, 375, 3046, 1847, 1438, 1143, 2786, 756, 2865, 2099, 2393, 733, 2474, 2110,
    2580, 583, 3253, 2037, 1339, 2789, 807, 403, 193, 3281, 2513, 2773, 535, 2437, 1481, 1874,
    1897, 2288, 2277, 2090, 2240, 1461, 1534, 2775, 569, 3015, 1320, 2466, 1974, 268, 1227, 885,
    1729, 2761, 331, 2298, 2447, 1651, 1435, 1092, 1919, 2662, 1977, 319, 2094, 2308, 2617, 1212,
    630, 723, 2304, 2549, 56, 952, 2868, 2150, 3260, 2156, 33, 561, 2879, 2337, 3110, 2935,
    3289, 2649, 1756, 3220, 1476, 1789, 452, 1026, 797, 233, 632, 757, 2882, 2388, 648, 1029,
    848, 1100, 2055, 1645, 1333, 2687, 2402, 886, 1746, 3050, 1915, 2594, 821, 641, 910, 2154,
    3328, 3312, 3040, 1745, 3033, 1626, 1010, 525, 2267, 1920, 2679, 2266, 1903, 2390, 682, 1607,
    687, 1692, 2132, 2954, 283, 1482, 1891, 2186, 543, 2573, 464, 1230, 936, 2596, 855, 1219,
    749, 2746, 76, 1292, 1990, 540, 2522, 2926, 3136, 48, 816, 556, 2794, 892, 1848, 1455,
    1432, 1041, 1052, 1239, 1089, 1868, 1795, 554, 2760, 314, 2009, 863, 1355, 3061, 2102, 2444,
    1600, 568, 2998, 1031, 882, 1678, 1894, 2237, 1410, 667, 1352, 3010, 1235, 1021, 712, 2117,
    2699, 2606, 1025, 780, 3273, 2377, 461, 1179, 69, 1173, 3296, 2768, 450, 992, 219, 394,
    40, 680, 1573, 109, 1853, 1540, 2877, 2303, 2532, 3096, 2697, 2572, 447, 941, 2681, 2300,
    2481, 2229, 1274, 1684, 1996, 642, 927, 2443, 1583, 279, 1414, 735, 2508, 2688, 2419, 1175]"

definition GenZeta :: "int list" where
  "GenZeta = ZETA_TABLE"

definition mlkem_bit_reverse_7 :: "u32 \<Rightarrow> u32" where
  "mlkem_bit_reverse_7 value =
     (let value = value AND 127;
          value = push_bit 1 (value AND 85) OR (drop_bit 1 value AND 85);
          value = push_bit 2 (value AND 51) OR (drop_bit 2 value AND 51);
          value = push_bit 4 (value AND 15) OR (drop_bit 4 value AND 15)
      in drop_bit 1 value)"

definition bit_rev :: "int \<Rightarrow> int" where
  "bit_rev x =
     (let t = fst (fold (\<lambda>i (t, x). (t[i := x smod 2], x sdiv 2)) [0..<7] (replicate 7 0, x))
      in fst (fold (\<lambda>i (r, j). (r + t ! (6 - i) * j, j * 2)) [0..<7] (0, 1)))"

definition zeta_at :: "int list \<Rightarrow> nat \<Rightarrow> int" where
  "zeta_at zetas i = zetas ! unat (mlkem_bit_reverse_7 (of_nat i))"

definition ntt_butterfly :: "int \<Rightarrow> nat \<Rightarrow> nat \<Rightarrow> int list \<Rightarrow> int list" where
  "ntt_butterfly z len j g =
     (let first = g ! j;
          product = mlkem_mul_mod_q z (g ! (j + len));
          g = g[j + len := mlkem_sub_mod_q first product]
      in g[j := mlkem_add_mod_q first product])"

function ntt_blocks :: "int list \<Rightarrow> nat \<Rightarrow> nat \<Rightarrow> nat \<times> int list \<Rightarrow> nat \<times> int list" where
  "ntt_blocks zetas len start (i, g) =
     (if 0 < len \<and> start < MLKEM_N
      then let z = zeta_at zetas i
           in ntt_blocks zetas len (start + 2 * len) (i + 1, fold (ntt_butterfly z len) [start..<start + len] g)
      else (i, g))"
  by pat_completeness auto
termination by (relation "measure (\<lambda>(zetas, len, start, st). MLKEM_N - start)") auto

function ntt_layers :: "int list \<Rightarrow> nat \<Rightarrow> nat \<times> int list \<Rightarrow> nat \<times> int list" where
  "ntt_layers zetas len st =
     (if 2 \<le> len then ntt_layers zetas (len div 2) (ntt_blocks zetas len 0 st) else st)"
  by pat_completeness auto
termination by (relation "measure (\<lambda>(zetas, len, st). len)") auto

definition NTT :: "int list \<Rightarrow> int list \<Rightarrow> int list" where
  "NTT f zetas = snd (ntt_layers zetas (MLKEM_N div 2) (1, f))"

definition ntt_inv_butterfly :: "int \<Rightarrow> nat \<Rightarrow> nat \<Rightarrow> int list \<Rightarrow> int list" where
  "ntt_inv_butterfly z len j g =
     (let first = g ! j;
          second = g ! (j + len);
          difference = mlkem_sub_mod_q second first;
          g = g[j := mlkem_add_mod_q first second]
      in g[j + len := mlkem_mul_mod_q z difference])"

function ntt_inv_blocks :: "int list \<Rightarrow> nat \<Rightarrow> nat \<Rightarrow> nat \<times> int list \<Rightarrow> nat \<times> int list" where
  "ntt_inv_blocks zetas len start (i, g) =
     (if 0 < len \<and> start < MLKEM_N
      then let z = zeta_at zetas i
           in ntt_inv_blocks zetas len (start + 2 * len)
                (i - 1, fold (ntt_inv_butterfly z len) [start..<start + len] g)
      else (i, g))"
  by pat_completeness auto
termination by (relation "measure (\<lambda>(zetas, len, start, st). MLKEM_N - start)") auto

function ntt_inv_layers :: "int list \<Rightarrow> nat \<Rightarrow> nat \<times> int list \<Rightarrow> nat \<times> int list" where
  "ntt_inv_layers zetas len st =
     (if 0 < len \<and> len \<le> 128 then ntt_inv_layers zetas (len * 2) (ntt_inv_blocks zetas len 0 st) else st)"
  by pat_completeness auto
termination by (relation "measure (\<lambda>(zetas, len, st). 129 - len)") auto

definition NTT_inv :: "int list \<Rightarrow> int list \<Rightarrow> int list" where
  "NTT_inv f zetas =
     (let g = snd (ntt_inv_layers zetas 2 (127, f))
      in fold (\<lambda>index g. g[index := mlkem_mul_mod_q (g ! index) 3303]) [0..<MLKEM_N] g)"

subsection \<open>Products in the transformed domain\<close>

definition mlkem_multiply_basic :: "int \<Rightarrow> int \<Rightarrow> int \<Rightarrow> int \<Rightarrow> int \<Rightarrow> int \<times> int" where
  "mlkem_multiply_basic a0 a1 b0 b1 r =
     (let first_product = (word_of_int a0 :: u32) * word_of_int b0;
          second_product = (word_of_int (mlkem_mul_mod_q a1 b1) :: u32) * word_of_int r;
          cross_products = (word_of_int a0 :: u32) * word_of_int b1 + word_of_int a1 * word_of_int b0
      in (sint (mlkem_barrett_reduce_u32 (first_product + second_product)),
          sint (mlkem_barrett_reduce_u32 cross_products)))"

definition Multiply_basic :: "int \<Rightarrow> int \<Rightarrow> int \<Rightarrow> int \<Rightarrow> int \<Rightarrow> int \<times> int" where
  "Multiply_basic a0 a1 b0 b1 r = mlkem_multiply_basic a0 a1 b0 b1 r"

definition multiply_ntt_step :: "int list \<Rightarrow> int list \<Rightarrow> int list \<Rightarrow> nat \<Rightarrow> int list \<Rightarrow> int list" where
  "multiply_ntt_step f g zetas i h =
     (let reversed = unat (mlkem_bit_reverse_7 (of_nat i));
          (c0, c1) = mlkem_multiply_basic (f ! (2 * i)) (f ! (2 * i + 1)) (g ! (2 * i)) (g ! (2 * i + 1))
                       (zetas ! (2 * reversed + 1))
      in h[2 * i := c0, 2 * i + 1 := c1])"

definition Multiply_NTT :: "int list \<Rightarrow> int list \<Rightarrow> int list \<Rightarrow> int list \<Rightarrow> int list" where
  "Multiply_NTT f g h zetas = fold (multiply_ntt_step f g zetas) [0..<128] h"

declare ntt_blocks.simps [simp del] ntt_layers.simps [simp del] ntt_inv_blocks.simps [simp del]
  ntt_inv_layers.simps [simp del]

section \<open>Canonical coefficients\<close>

definition canonical :: "int \<Rightarrow> bool" where
  "canonical a \<longleftrightarrow> 0 \<le> a \<and> a < MLKEM_Q"

lemma canonical_mod [simp]: "canonical (a mod 3329)"
  by (simp add: canonical_def)

lemma canonical_mod_eq: "canonical a \<Longrightarrow> a mod 3329 = a"
  by (simp add: canonical_def)

lemma uint_drop_bit: "uint (drop_bit n w) = uint w div 2 ^ n"
  unfolding unsigned_drop_bit_eq by (simp add: drop_bit_eq_div take_bit_int_eq_self)

lemma uint_reduce_once:
  assumes "uint v < 2 * 3329"
  shows "uint (mlkem_reduce_once_u32 v) = uint v mod 3329"
proof (cases "uint v < 3329")
  case True
  have "uint (v - 3329) = uint v - 3329 + 4294967296"
    using True uint_bounded [of v] by (simp add: uint_word_ariths, intro int_mod_pos_eq [where q = "-1"]) auto
  then have "uint (drop_bit 31 (v - 3329)) = 1"
    using True uint_ge_0 [of v] by (simp add: uint_drop_bit del: uint_ge_0, intro int_div_pos_eq [where r = "uint v + 2147480319"]) auto
  then have "drop_bit 31 (v - 3329) = 1" by (simp add: word_uint_eq_iff)
  then show ?thesis
    using True by (simp add: mlkem_reduce_once_u32_def Let_def)
next
  case False
  have red: "uint (v - 3329) = uint v - 3329"
    using False assms by (simp add: uint_word_ariths)
  then have "uint (drop_bit 31 (v - 3329)) = 0"
    using assms False by (simp add: uint_drop_bit div_pos_pos_trivial)
  then have "drop_bit 31 (v - 3329) = 0" by (simp add: word_uint_eq_iff)
  moreover have "uint v mod 3329 = uint v - 3329"
    using False assms by (intro int_mod_pos_eq [where q = 1]) auto
  ultimately show ?thesis
    using red by (simp add: mlkem_reduce_once_u32_def Let_def)
qed

lemma uint_barrett:
  "uint (mlkem_barrett_reduce_u32 v) = uint v mod 3329"
proof -
  define x where "x = uint v"
  have x: "0 \<le> x" "x < 4294967296" using uint_bounded [of v] by (simp_all add: x_def)
  define q where "q = x * 1290167 div 4294967296"
  define r where "r = x * 1290167 mod 4294967296"
  have split: "x * 1290167 = 4294967296 * q + r" by (simp add: q_def r_def)
  have r: "0 \<le> r" "r < 4294967296" by (simp_all add: r_def)
  have "uint ((ucast v :: u64) * 1290167) = x * 1290167"
    using x by (simp add: uint_word_ariths x_def unsigned_ucast_eq take_bit_int_eq_self)
  then have quot: "uint (ucast (drop_bit 32 ((ucast v :: u64) * 1290167)) :: u32) = q"
    using x split r
    by (simp add: unsigned_ucast_eq uint_drop_bit q_def [symmetric] take_bit_int_eq_self)
  have rem: "0 \<le> x - q * 3329" "x - q * 3329 < 6658" "0 \<le> q" using split r x by linarith+
  have "uint (v - ucast (drop_bit 32 ((ucast v :: u64) * 1290167)) * 3329) = x - q * 3329"
    using rem x by (simp add: uint_word_ariths quot x_def [symmetric] mod_simps)
  moreover have "(x - q * 3329) mod 3329 = x mod 3329"
    using mod_mult_self1 [of x "- q" 3329] by simp
  ultimately show ?thesis
    using rem uint_reduce_once by (simp add: mlkem_barrett_reduce_u32_def Let_def x_def)
qed

lemma sint_small: "uint (w :: u32) < 2147483648 \<Longrightarrow> sint w = uint w"
proof -
  assume "uint w < 2147483648"
  moreover have "- 2147483648 \<le> uint w" using uint_ge_0 [of w] by linarith
  ultimately show ?thesis by (simp add: sint_uint signed_take_bit_int_eq_self)
qed

lemma uint_coefficient: "canonical a \<Longrightarrow> uint (word_of_int a :: u32) = a"
  by (simp add: canonical_def uint_word_of_int)

lemma mlkem_add_mod_q [simp]:
  assumes "canonical a" "canonical b"
  shows "mlkem_add_mod_q a b = (a + b) mod 3329"
proof -
  have "uint ((word_of_int a :: u32) + word_of_int b) = a + b"
    using assms by (simp add: uint_word_ariths canonical_def uint_word_of_int)
  then have "uint (mlkem_reduce_once_u32 (word_of_int a + word_of_int b)) = (a + b) mod 3329"
    using assms by (simp add: uint_reduce_once canonical_def)
  then show ?thesis by (simp add: mlkem_add_mod_q_def Let_def sint_small)
qed

lemma mlkem_sub_mod_q [simp]:
  assumes "canonical a" "canonical b"
  shows "mlkem_sub_mod_q a b = (a - b) mod 3329"
proof -
  have "uint ((word_of_int a :: u32) + 3329 - word_of_int b) = a + 3329 - b"
    using assms by (simp add: uint_word_ariths canonical_def uint_word_of_int)
  then have "uint (mlkem_reduce_once_u32 (word_of_int a + 3329 - word_of_int b)) = (a + 3329 - b) mod 3329"
    using assms by (simp add: uint_reduce_once canonical_def)
  also have "\<dots> = (a - b) mod 3329" using mod_add_self2 [of "a - b" 3329] by (simp add: algebra_simps)
  finally show ?thesis by (simp add: mlkem_sub_mod_q_def Let_def sint_small)
qed

lemma canonical_mult:
  assumes "canonical a" "canonical b"
  shows "0 \<le> a * b" "a * b \<le> 3328 * 3328"
  using assms mult_mono [of a 3328 b 3328] by (simp_all add: canonical_def)

lemma uint_mult_coefficients:
  assumes "canonical a" "canonical b"
  shows "uint ((word_of_int a :: u32) * word_of_int b) = a * b"
  using canonical_mult [OF assms] by (simp add: uint_word_ariths uint_coefficient assms)

lemma mlkem_mul_mod_q [simp]:
  assumes "canonical a" "canonical b"
  shows "mlkem_mul_mod_q a b = (a * b) mod 3329"
  by (simp add: mlkem_mul_mod_q_def Let_def sint_small uint_barrett uint_mult_coefficients [OF assms])

lemma mlkem_multiply_basic [simp]:
  assumes "canonical a0" "canonical a1" "canonical b0" "canonical b1" "canonical r"
  shows "mlkem_multiply_basic a0 a1 b0 b1 r =
    ((a0 * b0 + a1 * b1 * r) mod 3329, (a0 * b1 + a1 * b0) mod 3329)"
proof -
  let ?m = "(a1 * b1) mod 3329"
  have "uint ((word_of_int a0 :: u32) * word_of_int b0 + word_of_int ?m * word_of_int r) = a0 * b0 + ?m * r"
    "uint ((word_of_int a0 :: u32) * word_of_int b1 + word_of_int a1 * word_of_int b0) = a0 * b1 + a1 * b0"
    using canonical_mult [OF assms(1,3)] canonical_mult [OF canonical_mod assms(5), of "a1 * b1"]
      canonical_mult [OF assms(1,4)] canonical_mult [OF assms(2,3)]
    by (simp_all only: uint_word_ariths(1) uint_mult_coefficients assms canonical_mod) simp_all
  moreover have "(a0 * b0 + ?m * r) mod 3329 = (a0 * b0 + a1 * b1 * r) mod 3329"
    by (intro mod_add_cong refl) (rule mod_mult_left_eq)
  ultimately show ?thesis
    using assms by (simp add: mlkem_multiply_basic_def Let_def sint_small uint_barrett)
qed

end
