(* ===== verification/MLKEM_Layers.thy ===== *)
theory MLKEM_Layers
  imports MLKEM_NTT
begin

text \<open>
  The transform of ML-KEM is the map of FIPS 203 to the 128 residues modulo
  \<open>X ^ 2 - \<zeta> ^ (2 BitRev7(i) + 1)\<close>: each layer splits the residues modulo \<open>X ^ (2 len) - z ^ 2\<close> into
  those modulo \<open>X ^ len - z\<close> and \<open>X ^ len + z\<close>, numbered like the nodes of a binary heap. The inverse
  transform undoes it layer by layer, and the product of the residues is the product modulo
  \<open>X ^ 256 + 1\<close>.
\<close>

section \<open>Congruence modulo 3329\<close>

definition qeq :: "int \<Rightarrow> int \<Rightarrow> bool" where
  "qeq a b \<longleftrightarrow> a mod 3329 = b mod 3329"

named_theorems qeqs

lemma qeq_refl [simp, qeqs]: "qeq a a" by (simp add: qeq_def)

lemma qeq_sym: "qeq a b \<Longrightarrow> qeq b a" by (simp add: qeq_def)

lemma qeq_trans [trans]: "qeq a b \<Longrightarrow> qeq b c \<Longrightarrow> qeq a c" by (simp add: qeq_def)

lemma qeq_add [qeqs]: "qeq a b \<Longrightarrow> qeq c d \<Longrightarrow> qeq (a + c) (b + d)"
  unfolding qeq_def by (rule mod_add_cong)

lemma qeq_diff [qeqs]: "qeq a b \<Longrightarrow> qeq c d \<Longrightarrow> qeq (a - c) (b - d)"
  unfolding qeq_def by (rule mod_diff_cong)

lemma qeq_mult [qeqs]: "qeq a b \<Longrightarrow> qeq c d \<Longrightarrow> qeq (a * c) (b * d)"
  unfolding qeq_def by (rule mod_mult_cong)

lemma qeq_minus [qeqs]: "qeq a b \<Longrightarrow> qeq (- a) (- b)"
  using qeq_diff [OF qeq_refl [of 0]] by simp

lemma qeq_power [qeqs]: "qeq a b \<Longrightarrow> qeq (a ^ n) (b ^ n)"
  by (induction n) (simp_all add: qeq_mult)

lemma qeq_sum [qeqs]: "(\<And>x. x \<in> A \<Longrightarrow> qeq (f x) (g x)) \<Longrightarrow> qeq (sum f A) (sum g A)"
  by (induction A rule: infinite_finite_induct) (simp_all add: qeq_add)

lemma qeq_mod_left [simp]: "qeq (a mod 3329) b \<longleftrightarrow> qeq a b" by (simp add: qeq_def)

lemma qeq_mod_right [simp]: "qeq a (b mod 3329) \<longleftrightarrow> qeq a b" by (simp add: qeq_def)

lemma qeq_canonical: "canonical a \<Longrightarrow> canonical b \<Longrightarrow> qeq a b \<Longrightarrow> a = b"
  by (simp add: qeq_def canonical_mod_eq)

lemma canonical_eqI: "canonical a \<Longrightarrow> qeq a b \<Longrightarrow> a = b mod 3329"
  by (rule qeq_canonical) simp_all

section \<open>One layer of butterflies\<close>

definition canonical_poly :: "int list \<Rightarrow> bool" where
  "canonical_poly f \<longleftrightarrow> length f = 256 \<and> (\<forall>x<256. canonical (f ! x))"

lemma canonical_poly_length: "canonical_poly f \<Longrightarrow> length f = 256" by (simp add: canonical_poly_def)

lemma canonical_poly_nth: "canonical_poly f \<Longrightarrow> x < 256 \<Longrightarrow> canonical (f ! x)"
  by (simp add: canonical_poly_def)

lemma canonical_poly_map: "(\<And>x. x < 256 \<Longrightarrow> canonical (h x)) \<Longrightarrow> canonical_poly (map h [0..<256])"
  by (simp add: canonical_poly_def)

definition pair_update :: "nat \<Rightarrow> (int \<Rightarrow> int \<Rightarrow> int) \<Rightarrow> (int \<Rightarrow> int \<Rightarrow> int) \<Rightarrow> nat \<Rightarrow> int list \<Rightarrow> int list" where
  "pair_update len A B j g =
     g[j := A (g ! j) (g ! (j + len)), j + len := B (g ! j) (g ! (j + len))]"

definition pair_block ::
    "nat \<Rightarrow> (int \<Rightarrow> int \<Rightarrow> int) \<Rightarrow> (int \<Rightarrow> int \<Rightarrow> int) \<Rightarrow> nat \<Rightarrow> nat \<Rightarrow> int list \<Rightarrow> nat \<Rightarrow> int" where
  "pair_block len A B start c g x =
     (if start \<le> x \<and> x < start + c then A (g ! x) (g ! (x + len))
      else if start + len \<le> x \<and> x < start + len + c then B (g ! (x - len)) (g ! x)
      else g ! x)"

lemma fold_pair_update:
  assumes "c \<le> len" "start + 2 * len \<le> length g"
  shows "fold (pair_update len A B) [start..<start + c] g = map (pair_block len A B start c g) [0..<length g]"
  using assms(1)
proof (induction c)
  case 0
  show ?case by (rule nth_equalityI) (simp_all add: pair_block_def)
next
  case (Suc c)
  let ?h = "map (pair_block len A B start c g) [0..<length g]"
  have at: "?h ! (start + c) = g ! (start + c)" "?h ! (start + c + len) = g ! (start + c + len)"
    using Suc.prems assms(2) by (simp_all add: pair_block_def)
  have "fold (pair_update len A B) [start..<start + Suc c] g = pair_update len A B (start + c) ?h"
    using Suc by simp
  also have "\<dots> = map (pair_block len A B start (Suc c) g) [0..<length g]"
  proof (rule nth_equalityI)
    fix x assume "x < length (pair_update len A B (start + c) ?h)"
    then have x: "x < length g" by (simp add: pair_update_def)
    show "pair_update len A B (start + c) ?h ! x = map (pair_block len A B start (Suc c) g) [0..<length g] ! x"
      unfolding pair_update_def at
      using x Suc.prems by (auto simp: nth_list_update pair_block_def less_Suc_eq add_ac)
  qed (simp add: pair_update_def)
  finally show ?case .
qed

definition pair_layer ::
    "nat \<Rightarrow> (nat \<Rightarrow> int \<Rightarrow> int \<Rightarrow> int) \<Rightarrow> (nat \<Rightarrow> int \<Rightarrow> int \<Rightarrow> int) \<Rightarrow> nat \<Rightarrow> int list \<Rightarrow> nat \<Rightarrow> int" where
  "pair_layer len A B k g x =
     (if x < k * (2 * len)
      then if x mod (2 * len) < len then A (x div (2 * len)) (g ! x) (g ! (x + len))
           else B (x div (2 * len)) (g ! (x - len)) (g ! x)
      else g ! x)"

lemma pair_layer_block:
  fixes k len x :: nat
  assumes "0 < len"
  shows "x < (k + 1) * (2 * len) \<and> \<not> x < k * (2 * len) \<longleftrightarrow>
    x div (2 * len) = k \<and> (x mod (2 * len) < len \<and> k * (2 * len) \<le> x \<and> x < k * (2 * len) + len \<or>
      \<not> x mod (2 * len) < len \<and> k * (2 * len) + len \<le> x \<and> x < k * (2 * len) + len + len)"
    (is "?l \<longleftrightarrow> ?r")
proof
  assume l: ?l
  define o' where "o' = x - k * (2 * len)"
  have x: "x = k * (2 * len) + o'" "o' < 2 * len" using l by (auto simp: o'_def)
  then have "x div (2 * len) = k" "x mod (2 * len) = o'" using assms by simp_all
  with x show ?r by auto
next
  assume ?r
  then show ?l by (elim conjE disjE) simp_all
qed

lemma fold_pair_blocks:
  assumes "0 < len" "k * (2 * len) \<le> length g"
  shows "fold (\<lambda>b. fold (pair_update len (A b) (B b)) [b * (2 * len)..<b * (2 * len) + len]) [0..<k] g =
    map (pair_layer len A B k g) [0..<length g]"
  using assms(2)
proof (induction k)
  case 0
  show ?case by (rule nth_equalityI) (simp_all add: pair_layer_def)
next
  case (Suc k)
  let ?h = "map (pair_layer len A B k g) [0..<length g]"
  have "fold (\<lambda>b. fold (pair_update len (A b) (B b)) [b * (2 * len)..<b * (2 * len) + len]) [0..<Suc k] g =
      fold (pair_update len (A k) (B k)) [k * (2 * len)..<k * (2 * len) + len] ?h"
    using Suc by simp
  also have "\<dots> = map (pair_block len (A k) (B k) (k * (2 * len)) len ?h) [0..<length ?h]"
    using Suc.prems by (intro fold_pair_update) simp_all
  also have "\<dots> = map (pair_layer len A B (Suc k) g) [0..<length g]"
  proof (rule nth_equalityI)
    fix x assume "x < length (map (pair_block len (A k) (B k) (k * (2 * len)) len ?h) [0..<length ?h])"
    then have x: "x < length g" by simp
    consider "x < k * (2 * len)"
      | "x div (2 * len) = k" "x mod (2 * len) < len" "k * (2 * len) \<le> x" "x < k * (2 * len) + len"
      | "x div (2 * len) = k" "\<not> x mod (2 * len) < len" "k * (2 * len) + len \<le> x"
        "x < k * (2 * len) + len + len" "x < (k + 1) * (2 * len)"
      | "\<not> x < k * (2 * len)" "\<not> x < (k + 1) * (2 * len)"
      using pair_layer_block [OF assms(1), of x k] by argo
    then show "map (pair_block len (A k) (B k) (k * (2 * len)) len ?h) [0..<length ?h] ! x =
        map (pair_layer len A B (Suc k) g) [0..<length g] ! x"
    proof cases
      case 3
      then have "k * (2 * len) \<le> x - len" by linarith
      with 3 x Suc.prems show ?thesis by (simp add: pair_block_def pair_layer_def)
    qed (use x Suc.prems assms(1) in \<open>simp_all add: pair_block_def pair_layer_def\<close>)
  qed simp
  finally show ?case .
qed

subsection \<open>The layers of the code\<close>

abbreviation zeta :: "nat \<Rightarrow> int" where
  "zeta i \<equiv> zeta_at GenZeta i"

definition fwd_low :: "int \<Rightarrow> int \<Rightarrow> int \<Rightarrow> int" where
  "fwd_low z u v = mlkem_add_mod_q u (mlkem_mul_mod_q z v)"

definition fwd_high :: "int \<Rightarrow> int \<Rightarrow> int \<Rightarrow> int" where
  "fwd_high z u v = mlkem_sub_mod_q u (mlkem_mul_mod_q z v)"

definition inv_low :: "int \<Rightarrow> int \<Rightarrow> int \<Rightarrow> int" where
  "inv_low z u v = mlkem_add_mod_q u v"

definition inv_high :: "int \<Rightarrow> int \<Rightarrow> int \<Rightarrow> int" where
  "inv_high z u v = mlkem_mul_mod_q z (mlkem_sub_mod_q v u)"

lemma ntt_butterfly_pair: "0 < len \<Longrightarrow> ntt_butterfly z len = pair_update len (fwd_low z) (fwd_high z)"
  by (intro ext) (simp add: ntt_butterfly_def pair_update_def fwd_low_def fwd_high_def Let_def list_update_swap)

lemma ntt_inv_butterfly_pair: "ntt_inv_butterfly z len = pair_update len (inv_low z) (inv_high z)"
  by (intro ext) (simp add: ntt_inv_butterfly_def pair_update_def inv_low_def inv_high_def Let_def)

lemma ntt_blocks_fold:
  assumes "0 < len" "k * (2 * len) = 256" "b \<le> k"
  shows "ntt_blocks zetas len (b * (2 * len)) (i + b, g) =
    (i + k, fold (\<lambda>b. fold (ntt_butterfly (zeta_at zetas (i + b)) len) [b * (2 * len)..<b * (2 * len) + len]) [b..<k] g)"
  using assms(3)
proof (induction "k - b" arbitrary: b g)
  case 0
  then show ?case using assms(2) by (simp add: ntt_blocks.simps)
next
  case (Suc d)
  then have b: "b < k" by simp
  then have "b * (2 * len) < k * (2 * len)" using assms(1) by (intro mult_strict_right_mono) simp_all
  then have "b * (2 * len) < 256" using assms(2) by simp
  moreover have "b * (2 * len) + 2 * len = Suc b * (2 * len)" by simp
  ultimately show ?case
    using Suc.hyps(1) [of "Suc b"] Suc.hyps(2) b assms(1)
    by (subst ntt_blocks.simps) (simp only: Let_def if_True upt_conv_Cons fold_simps o_apply, simp)
qed

lemma ntt_inv_blocks_fold:
  assumes "0 < len" "k * (2 * len) = 256" "b \<le> k"
  shows "ntt_inv_blocks zetas len (b * (2 * len)) (i - b, g) =
    (i - k, fold (\<lambda>b. fold (ntt_inv_butterfly (zeta_at zetas (i - b)) len) [b * (2 * len)..<b * (2 * len) + len]) [b..<k] g)"
  using assms(3)
proof (induction "k - b" arbitrary: b g)
  case 0
  then show ?case using assms(2) by (simp add: ntt_inv_blocks.simps)
next
  case (Suc d)
  then have b: "b < k" by simp
  then have "b * (2 * len) < k * (2 * len)" using assms(1) by (intro mult_strict_right_mono) simp_all
  then have "b * (2 * len) < 256" using assms(2) by simp
  moreover have "b * (2 * len) + 2 * len = Suc b * (2 * len)" by simp
  ultimately show ?case
    using Suc.hyps(1) [of "Suc b"] Suc.hyps(2) b assms(1)
    by (subst ntt_inv_blocks.simps) (simp only: Let_def if_True upt_conv_Cons fold_simps o_apply, simp)
qed

definition fwd_layer :: "nat \<Rightarrow> int list \<Rightarrow> int list" where
  "fwd_layer len g =
     (let n = 128 div len
      in map (pair_layer len (\<lambda>b. fwd_low (zeta (n + b))) (\<lambda>b. fwd_high (zeta (n + b))) n g) [0..<256])"

definition inv_layer :: "nat \<Rightarrow> int list \<Rightarrow> int list" where
  "inv_layer len g =
     (let n = 128 div len
      in map (pair_layer len (\<lambda>b. inv_low (zeta (2 * n - 1 - b))) (\<lambda>b. inv_high (zeta (2 * n - 1 - b))) n g) [0..<256])"

lemma ntt_blocks_layer:
  assumes "0 < len" "len * n = 128" "length g = 256"
  shows "ntt_blocks GenZeta len 0 (n, g) = (2 * n, fwd_layer len g)"
proof -
  have n: "128 div len = n" using assms by (simp flip: assms(2))
  show ?thesis
    using ntt_blocks_fold [of len n 0 GenZeta n g] fold_pair_blocks [of len n g] assms
    by (simp add: ntt_butterfly_pair fwd_layer_def n Let_def flip: mult_2)
qed

lemma ntt_inv_blocks_layer:
  assumes "0 < len" "len * n = 128" "length g = 256"
  shows "ntt_inv_blocks GenZeta len 0 (2 * n - 1, g) = (n - 1, inv_layer len g)"
proof -
  have n: "128 div len = n" using assms by (simp flip: assms(2))
  show ?thesis
    using ntt_inv_blocks_fold [of len n 0 GenZeta "2 * n - 1" g] fold_pair_blocks [of len n g] assms
    by (simp add: ntt_inv_butterfly_pair inv_layer_def n Let_def flip: mult_2)
qed

section \<open>The roots\<close>

text \<open>
  Node \<open>i\<close> of the heap splits with \<open>zeta i\<close>; its children \<open>2 i\<close> and \<open>2 i + 1\<close> are the residues
  modulo \<open>X ^ len - zeta i\<close> and \<open>X ^ len + zeta i\<close>. The leaves \<open>128 + b\<close> are the residues that the
  transform returns, whose roots FIPS 203 writes as powers of 17.
\<close>

definition root :: "nat \<Rightarrow> int" where
  "root i = (if i \<le> 1 then - 1 else if even i then zeta (i div 2) else - zeta (i div 2))"

definition brv :: "nat \<Rightarrow> nat \<Rightarrow> nat" where
  "brv n i = horner_sum of_bool 2 (rev (map (bit i) [0..<n]))"

definition gamma :: "nat \<Rightarrow> int" where
  "gamma i = 17 ^ (2 * brv 7 i + 1)"

lemma bit_bit_reverse_7: "bit (mlkem_bit_reverse_7 v) n \<longleftrightarrow> n < 7 \<and> bit v (6 - n)"
proof (cases "n < 7")
  case True
  then consider "n = 0" | "n = 1" | "n = 2" | "n = 3" | "n = 4" | "n = 5" | "n = 6" by linarith
  then show ?thesis
    by cases (simp_all only: mlkem_bit_reverse_7_def Let_def bit_or_iff bit_and_iff bit_push_bit_iff
        bit_drop_bit_eq o_apply, simp_all add: bit_numeral_rec numeral_2_eq_2 numeral_3_eq_3)
next
  case False
  have "\<not> bit (drop_bit 1 (push_bit 4 (a AND mask 4) OR (drop_bit 4 a AND mask 4)) :: u32) n" for a
    using False by (auto simp: bit_simps)
  moreover have "mask 4 = (15 :: u32)" by (simp add: mask_eq_exp_minus_1)
  ultimately show ?thesis
    using False unfolding mlkem_bit_reverse_7_def Let_def by metis
qed

lemma unat_bit_reverse_7:
  assumes "i < 128"
  shows "unat (mlkem_bit_reverse_7 (of_nat i)) = brv 7 i"
proof -
  let ?w = "mlkem_bit_reverse_7 (of_nat i)"
  have i: "unat (of_nat i :: u32) = i" using assms by (simp add: unsigned_of_nat take_bit_nat_eq_self)
  have bits: "bit (unat ?w) n \<longleftrightarrow> n < 7 \<and> bit i (6 - n)" for n
    using bit_unsigned_iff [of "of_nat i :: u32" "6 - n", where 'a = nat]
    by (auto simp: bit_unsigned_iff bit_bit_reverse_7 i)
  have "take_bit 7 (unat ?w) = unat ?w"
    by (rule bit_eqI) (auto simp: bit_take_bit_iff bits)
  then have "unat ?w = horner_sum of_bool 2 (map (bit (unat ?w)) [0..<7])"
    by (simp add: horner_sum_bit_eq_take_bit)
  also have "map (bit (unat ?w)) [0..<7] = rev (map (bit i) [0..<7])"
    by (rule nth_equalityI) (simp_all add: bits rev_nth)
  finally show ?thesis by (simp add: brv_def)
qed

lemma brv_Suc: "brv (Suc n) i = of_bool (bit i n) + 2 * brv n i"
  by (simp add: brv_def)

lemma brv_halve: "brv (Suc n) i = brv n (i div 2) + 2 ^ n * (i mod 2)"
proof -
  have "map (bit i) [0..<Suc n] = bit i 0 # map (bit (i div 2)) [0..<n]"
    unfolding upt_conv_Cons [OF zero_less_Suc] map_Suc_upt [symmetric] by (simp add: bit_Suc o_def)
  then show ?thesis
    unfolding brv_def by (simp add: horner_sum_append mod_2_eq_odd bit_0)
qed

lemma brv_less: "brv n i < 2 ^ n"
  by (induction n) (auto simp: brv_Suc brv_def)

lemma brv_small: "i < 2 ^ n \<Longrightarrow> brv (Suc n) i = 2 * brv n i"
  by (simp add: brv_Suc bit_iff_odd)

lemma brv_large:
  assumes "i < 2 ^ n"
  shows "brv (Suc n) (2 ^ n + i) = 1 + 2 * brv n i"
proof -
  have "bit (2 ^ n + i) k \<longleftrightarrow> bit i k" if "k < n" for k
  proof -
    have "bit (2 ^ n + i) k \<longleftrightarrow> bit (take_bit n (2 ^ n + i)) k" using that by (simp add: bit_take_bit_iff)
    also have "take_bit n (2 ^ n + i) = take_bit n i" by (simp add: take_bit_eq_mod)
    finally show ?thesis using that by (simp add: bit_take_bit_iff)
  qed
  then have "brv n (2 ^ n + i) = brv n i"
    unfolding brv_def by (intro arg_cong [where f = "horner_sum of_bool 2"]) simp
  moreover have "bit (2 ^ n + i) n" using assms by (simp add: bit_iff_odd div_add_self1)
  ultimately show ?thesis by (simp add: brv_Suc)
qed

fun geometric :: "int list \<Rightarrow> bool" where
  "geometric (x # y # xs) \<longleftrightarrow> y = (17 * x) mod 3329 \<and> geometric (y # xs)"
| "geometric _ \<longleftrightarrow> True"

lemma geometric_nth:
  "geometric (x # xs) \<Longrightarrow> i \<le> length xs \<Longrightarrow> qeq ((x # xs) ! i) (17 ^ i * x)"
proof (induction xs arbitrary: x i)
  case (Cons y xs)
  then have y: "qeq y (17 * x)" by simp
  show ?case
  proof (cases i)
    case (Suc j)
    have "geometric (y # xs)" "j \<le> length xs" using Cons.prems Suc geometric.simps(1) by (blast, simp)
    then have "qeq ((y # xs) ! j) (17 ^ j * y)" by (rule Cons.IH)
    also have "qeq (17 ^ j * y) (17 ^ j * (17 * x))" by (intro qeqs y)
    finally show ?thesis using Suc by (simp add: mult_ac)
  qed simp
qed simp

lemma zeta_table_facts:
  "list_all canonical ZETA_TABLE" "length ZETA_TABLE = 256" "hd ZETA_TABLE = 1" "geometric ZETA_TABLE"
  by code_simp+

lemma zeta_index:
  assumes "i < 128"
  shows "zeta i = ZETA_TABLE ! brv 7 i" "brv 7 i < 256"
  using brv_less [of 7 i] unat_bit_reverse_7 [OF assms] by (simp_all add: zeta_at_def GenZeta_def)

lemma zeta_table_power: "i < 256 \<Longrightarrow> qeq (ZETA_TABLE ! i) (17 ^ i)"
proof -
  assume i: "i < 256"
  have "ZETA_TABLE \<noteq> []" using zeta_table_facts(2) by force
  then obtain xs where t: "ZETA_TABLE = 1 # xs" using zeta_table_facts(3) by (metis list.collapse)
  moreover have "length xs = 255" using arg_cong [OF t, of length] zeta_table_facts(2) by simp
  ultimately show ?thesis using geometric_nth [of 1 xs i] zeta_table_facts(4) i by simp
qed

lemma canonical_zeta_table [simp]: "i < 256 \<Longrightarrow> canonical (ZETA_TABLE ! i)"
  using zeta_table_facts(1,2) by (simp add: list_all_length)

lemma canonical_zeta [simp]: "i < 128 \<Longrightarrow> canonical (zeta i)"
  by (simp add: zeta_index)

lemma zeta_power: "i < 128 \<Longrightarrow> qeq (zeta i) (17 ^ brv 7 i)"
  by (simp add: zeta_index zeta_table_power)

lemma half_turn: "n = 128 \<Longrightarrow> qeq (17 ^ n) (- 1)"
  by (simp add: qeq_def)

lemma half_turn_power: "n = 128 + i \<Longrightarrow> qeq (17 ^ n) (- (17 ^ i))"
proof -
  assume n: "n = 128 + i"
  have "qeq (17 ^ m * 17 ^ i) (- 1 * 17 ^ i)" if "m = 128" for m
    by (rule qeq_mult [OF half_turn [OF that] qeq_refl])
  then show ?thesis unfolding n power_add by simp
qed

lemma brv_0 [simp]: "brv n 0 = 0"
  by (induction n) (simp_all add: brv_Suc, simp add: brv_def)

lemma brv_7_even: "brv 7 (2 * j) = brv 6 j"
  using brv_halve [of 6 "2 * j"] by simp

lemma brv_7_odd: "brv 7 (2 * j + 1) = brv 6 j + 64"
  using brv_halve [of 6 "2 * j + 1"] by simp

lemma brv_7_small: "j < 64 \<Longrightarrow> brv 7 j = 2 * brv 6 j"
  using brv_small [of j 6] by simp

lemma brv_7_large: "j < 64 \<Longrightarrow> brv 7 (64 + j) = 1 + 2 * brv 6 j"
  using brv_large [of j 6] by simp

lemma zeta_square:
  assumes "0 < i" "i < 128"
  shows "qeq (zeta i * zeta i) (root i)"
proof -
  have sq: "qeq (zeta i * zeta i) (17 ^ (2 * brv 7 i))"
    using qeq_mult [OF zeta_power zeta_power, OF assms(2) assms(2)] by (simp flip: power_add add: mult_2)
  consider "i = 1" | j where "i = 2 * j" "0 < j" "j < 64" | j where "i = 2 * j + 1" "0 < j" "j < 64"
    using assms by (cases "even i") (force elim!: evenE, metis One_nat_def bot_nat_0.not_eq_extremum
        less_mult_imp_div_less mult.commute oddE odd_two_times_div_two_succ mult_0_right add_0 add_lessD1
        nat_mult_less_cancel_disj num_double numeral_times_numeral)
  then show ?thesis
  proof cases
    case 1
    have "brv 7 1 = 64" using brv_7_odd [of 0] by simp
    then have "2 * brv 7 i = 128" unfolding 1 by simp
    with sq have "qeq (zeta i * zeta i) (- 1)" using qeq_trans half_turn by blast
    then show ?thesis using 1 by (simp add: root_def)
  next
    case 2
    have "qeq (17 ^ (2 * brv 7 i)) (zeta j)"
      using zeta_power [THEN qeq_sym, of j] 2 by (simp add: brv_7_even brv_7_small)
    with sq have "qeq (zeta i * zeta i) (zeta j)" by (rule qeq_trans)
    then show ?thesis using 2 by (simp add: root_def)
  next
    case 3
    have "2 * brv 7 i = 128 + brv 7 j" using 3 brv_7_odd [of j] brv_7_small [of j] by simp
    then have "qeq (17 ^ (2 * brv 7 i)) (- (17 ^ brv 7 j))" by (rule half_turn_power)
    also have "qeq (- (17 ^ brv 7 j)) (- zeta j)" using 3 by (intro qeqs zeta_power [THEN qeq_sym]) simp
    finally have "qeq (17 ^ (2 * brv 7 i)) (- zeta j)" .
    with sq have "qeq (zeta i * zeta i) (- zeta j)" by (rule qeq_trans)
    then show ?thesis using 3 by (simp add: root_def)
  qed
qed

lemma root_leaf:
  assumes "b < 128"
  shows "qeq (root (128 + b)) (gamma b)"
proof (cases "even b")
  case True
  then obtain j where j: "b = 2 * j" by (elim evenE)
  then have "qeq (zeta (64 + j)) (17 ^ (1 + 2 * brv 6 j))"
    using zeta_power [of "64 + j"] brv_7_large [of j] assms by simp
  then show ?thesis using j by (simp add: root_def gamma_def brv_7_even)
next
  case False
  then obtain j where j: "b = 2 * j + 1" by (elim oddE)
  then have "qeq (zeta (64 + j)) (17 ^ (1 + 2 * brv 6 j))"
    using zeta_power [of "64 + j"] brv_7_large [of j] assms by simp
  then have "qeq (- zeta (64 + j)) (- (17 ^ (1 + 2 * brv 6 j)))" by (rule qeq_minus)
  also have "qeq (- (17 ^ (1 + 2 * brv 6 j))) (gamma b)"
    unfolding gamma_def j brv_7_odd by (rule qeq_sym, rule half_turn_power) simp
  finally show ?thesis using j by (simp add: root_def add.commute)
qed

lemma gamma_negacyclic: "qeq (gamma b ^ 128) (- 1)"
proof -
  have "qeq ((17 ^ n) ^ (2 * brv 7 b + 1)) (- 1)" if "n = 128" for n :: nat
    using qeq_power [OF half_turn [OF that], of "2 * brv 7 b + 1"] by simp
  then show ?thesis unfolding gamma_def power_mult [symmetric] by (simp only: mult.commute)
qed

lemma brv_complement:
  "k < n \<Longrightarrow> b < 2 ^ k \<Longrightarrow> brv n (2 ^ k + b) + brv n (2 * 2 ^ k - 1 - b) = 2 ^ n"
proof (induction k arbitrary: n b)
  case 0
  then obtain m where "n = Suc m" by (cases n) auto
  then show ?case using 0 by (simp add: brv_halve)
next
  case (Suc k)
  then obtain m where n: "n = Suc m" "k < m" by (cases n) auto
  have half: "(2 ^ Suc k + b) div 2 = 2 ^ k + b div 2" "(2 ^ Suc k + b) mod 2 = b mod 2" by simp_all
  have b: "b div 2 < 2 ^ k" using Suc.prems by simp
  have "2 * 2 ^ Suc k - 1 - b = (1 - b mod 2) + 2 * (2 * 2 ^ k - 1 - b div 2)"
    using b div_mult_mod_eq [of b 2] mod_less_divisor [of 2 b] unfolding power_Suc by linarith
  then have other: "(2 * 2 ^ Suc k - 1 - b) div 2 = 2 * 2 ^ k - 1 - b div 2"
    "(2 * 2 ^ Suc k - 1 - b) mod 2 = 1 - b mod 2"
    by (simp_all only: div_mult_self2 mod_mult_self2) simp_all
  have "brv m (2 ^ k + b div 2) + brv m (2 * 2 ^ k - 1 - b div 2) = 2 ^ m" using Suc.IH n b by blast
  then show ?case unfolding n brv_halve half other by (cases "even b") (auto simp: mod_2_eq_odd)
qed

lemma zeta_opposite:
  assumes "k < 7" "b < 2 ^ k"
  shows "qeq (zeta (2 ^ k + b) * zeta (2 * 2 ^ k - 1 - b)) (- 1)"
proof -
  have k: "(2 :: nat) ^ k \<le> 64" using assms(1) power_increasing [of k 6 "2 :: nat"] by simp
  have "qeq (zeta (2 ^ k + b) * zeta (2 * 2 ^ k - 1 - b)) (17 ^ brv 7 (2 ^ k + b) * 17 ^ brv 7 (2 * 2 ^ k - 1 - b))"
    using assms k by (intro qeqs zeta_power) linarith+
  moreover have "brv 7 (2 ^ k + b) + brv 7 (2 * 2 ^ k - 1 - b) = 128" using brv_complement [OF assms] by simp
  then have "qeq (17 ^ brv 7 (2 ^ k + b) * 17 ^ brv 7 (2 * 2 ^ k - 1 - b)) (- 1)"
    unfolding power_add [symmetric] by (rule half_turn)
  ultimately show ?thesis by (rule qeq_trans)
qed

end
