(* ===== verification/MLKEM_NTT_Correct.thy ===== *)
theory MLKEM_NTT_Correct
  imports MLKEM_Layers
begin

text \<open>
  The transform of ML-KEM is the map of FIPS 203 to the residues modulo the 128 quadratic factors
  of \<open>X ^ 256 + 1\<close>; the inverse transform inverts it on both sides, and multiplying residues
  multiplies the polynomials modulo \<open>X ^ 256 + 1\<close>.
\<close>

section \<open>The layers as functions of the coefficients\<close>

lemma block_split:
  fixes x len n :: nat
  assumes "0 < len" "len * n = 128" "x < 256"
  obtains (low) b j where "b < n" "j < len" "x = b * (2 * len) + j"
    | (high) b j where "b < n" "j < len" "x = b * (2 * len) + len + j"
proof -
  define b where "b = x div (2 * len)"
  define r where "r = x mod (2 * len)"
  have x: "x = b * (2 * len) + r" unfolding b_def r_def by (rule div_mult_mod_eq [symmetric])
  have r: "r < 2 * len" using assms(1) by (simp add: r_def)
  have "n * (2 * len) = 256" using assms(2) by (simp add: mult.commute)
  then have "b * (2 * len) < n * (2 * len)" using x assms(3) by linarith
  then have b: "b < n" unfolding mult_less_cancel2 by blast
  show ?thesis
  proof (cases "r < len")
    case True
    from low [OF b True x] show ?thesis .
  next
    case False
    then have "r - len < len" "x = b * (2 * len) + len + (r - len)" using r x by simp_all
    from high [OF b this] show ?thesis .
  qed
qed

lemma block_index:
  fixes len n b j :: nat
  assumes "0 < len" "len * n = 128" "b < n" "j < len"
  shows "b * (2 * len) + j < 256" "b * (2 * len) + len + j < 256"
    "(b * (2 * len) + j) div (2 * len) = b" "(b * (2 * len) + j) mod (2 * len) = j"
    "(b * (2 * len) + len + j) div (2 * len) = b" "(b * (2 * len) + len + j) mod (2 * len) = len + j"
proof -
  have "(b + 1) * (2 * len) \<le> n * (2 * len)" using assms(3) by (intro mult_le_mono1) simp
  also have "\<dots> = 256" using assms(2) by (simp add: mult.commute)
  finally show "b * (2 * len) + j < 256" "b * (2 * len) + len + j < 256" using assms(4) by simp_all
  show "(b * (2 * len) + j) div (2 * len) = b" "(b * (2 * len) + j) mod (2 * len) = j"
    using assms(4) by simp_all
  show "(b * (2 * len) + len + j) div (2 * len) = b" "(b * (2 * len) + len + j) mod (2 * len) = len + j"
    unfolding add.assoc using assms(4) by simp_all
qed

lemma layer_nodes:
  fixes len n b :: nat
  assumes "2 \<le> len" "len * n = 128" "b < n"
  shows "n + b < 128" "2 * n - 1 - b < 128" "0 < n"
proof -
  have "2 * n \<le> len * n" using assms(1) by (rule mult_le_mono1)
  then show "n + b < 128" "2 * n - 1 - b < 128" "0 < n" using assms by linarith+
qed

lemma fwd_layer_nth:
  assumes "canonical_poly g" "2 \<le> len" "len * n = 128" "b < n" "j < len"
  shows "fwd_layer len g ! (b * (2 * len) + j) =
      (g ! (b * (2 * len) + j) + zeta (n + b) * g ! (b * (2 * len) + len + j)) mod 3329"
    "fwd_layer len g ! (b * (2 * len) + len + j) =
      (g ! (b * (2 * len) + j) - zeta (n + b) * g ! (b * (2 * len) + len + j)) mod 3329"
proof -
  have len: "0 < len" using assms(2) by simp
  have n: "128 div len = n" using len by (simp flip: assms(3))
  note ix = block_index [OF len assms(3-5)]
  have top: "n * (2 * len) = 256" using assms(3) by (simp add: mult.commute)
  have canon: "canonical (g ! (b * (2 * len) + j))" "canonical (g ! (b * (2 * len) + len + j))"
    "canonical (zeta (n + b))"
    using canonical_poly_nth [OF assms(1)] ix(1,2) layer_nodes [OF assms(2-4)] by simp_all
  show "fwd_layer len g ! (b * (2 * len) + j) =
      (g ! (b * (2 * len) + j) + zeta (n + b) * g ! (b * (2 * len) + len + j)) mod 3329"
    using ix canon assms(5)
    by (simp add: fwd_layer_def n pair_layer_def top fwd_low_def add_ac mod_simps)
  show "fwd_layer len g ! (b * (2 * len) + len + j) =
      (g ! (b * (2 * len) + j) - zeta (n + b) * g ! (b * (2 * len) + len + j)) mod 3329"
    using ix canon assms(5)
    by (simp add: fwd_layer_def n pair_layer_def top fwd_high_def mod_simps)
qed

lemma inv_layer_nth:
  assumes "canonical_poly g" "2 \<le> len" "len * n = 128" "b < n" "j < len"
  shows "inv_layer len g ! (b * (2 * len) + j) =
      (g ! (b * (2 * len) + j) + g ! (b * (2 * len) + len + j)) mod 3329"
    "inv_layer len g ! (b * (2 * len) + len + j) =
      (zeta (2 * n - 1 - b) * (g ! (b * (2 * len) + len + j) - g ! (b * (2 * len) + j))) mod 3329"
proof -
  have len: "0 < len" using assms(2) by simp
  have n: "128 div len = n" using len by (simp flip: assms(3))
  note ix = block_index [OF len assms(3-5)]
  have top: "n * (2 * len) = 256" using assms(3) by (simp add: mult.commute)
  have canon: "canonical (g ! (b * (2 * len) + j))" "canonical (g ! (b * (2 * len) + len + j))"
    "canonical (zeta (2 * n - 1 - b))"
    using canonical_poly_nth [OF assms(1)] ix(1,2) layer_nodes [OF assms(2-4)] by simp_all
  show "inv_layer len g ! (b * (2 * len) + j) =
      (g ! (b * (2 * len) + j) + g ! (b * (2 * len) + len + j)) mod 3329"
    using ix canon assms(5)
    by (simp add: inv_layer_def n pair_layer_def top inv_low_def add_ac)
  show "inv_layer len g ! (b * (2 * len) + len + j) =
      (zeta (2 * n - 1 - b) * (g ! (b * (2 * len) + len + j) - g ! (b * (2 * len) + j))) mod 3329"
    using ix canon assms(5)
    by (simp add: inv_layer_def n pair_layer_def top inv_high_def mod_simps)
qed

lemma canonical_layer:
  assumes "canonical_poly g" "2 \<le> len" "len * n = 128"
  shows "canonical_poly (fwd_layer len g)" "canonical_poly (inv_layer len g)"
proof -
  have len: "0 < len" using assms(2) by simp
  have "canonical (fwd_layer len g ! x) \<and> canonical (inv_layer len g ! x)" if "x < 256" for x
    using len assms(3) that
    by (cases rule: block_split) (simp_all add: fwd_layer_nth [OF assms] inv_layer_nth [OF assms])
  then show "canonical_poly (fwd_layer len g)" "canonical_poly (inv_layer len g)"
    by (simp_all add: canonical_poly_def fwd_layer_def inv_layer_def Let_def)
qed

section \<open>The chains of layers\<close>

primrec fwd_layers :: "nat \<Rightarrow> int list \<Rightarrow> int list" where
  "fwd_layers 0 f = f"
| "fwd_layers (Suc k) f = fwd_layer (2 ^ (7 - k)) (fwd_layers k f)"

primrec inv_layers :: "nat \<Rightarrow> int list \<Rightarrow> int list" where
  "inv_layers 0 g = g"
| "inv_layers (Suc k) g = inv_layer (2 ^ Suc k) (inv_layers k g)"

lemma layer_sizes:
  assumes "k < 7"
  shows "(2 :: nat) \<le> 2 ^ (7 - k)" "(2 :: nat) ^ (7 - k) * 2 ^ k = 128"
proof -
  have "(2 :: nat) ^ 1 \<le> 2 ^ (7 - k)" using assms by (intro power_increasing) simp_all
  then show "(2 :: nat) \<le> 2 ^ (7 - k)" by simp
  show "(2 :: nat) ^ (7 - k) * 2 ^ k = 128" using assms by (simp flip: power_add)
qed

lemma inv_layer_sizes:
  assumes "k < 7"
  shows "(2 :: nat) \<le> 2 ^ Suc k" "(2 :: nat) ^ Suc k * 2 ^ (6 - k) = 128"
proof -
  have "7 - (6 - k) = Suc k" using assms by simp
  then show "(2 :: nat) \<le> 2 ^ Suc k" "(2 :: nat) ^ Suc k * 2 ^ (6 - k) = 128"
    using layer_sizes [of "6 - k"] by simp_all
qed

lemma canonical_fwd_layers: "canonical_poly f \<Longrightarrow> k \<le> 7 \<Longrightarrow> canonical_poly (fwd_layers k f)"
proof (induction k)
  case (Suc k)
  then have "canonical_poly (fwd_layers k f)" "k < 7" by simp_all
  from canonical_layer(1) [OF this(1) layer_sizes [OF this(2)]] show ?case by simp
qed simp

lemma canonical_inv_layers: "canonical_poly f \<Longrightarrow> k \<le> 7 \<Longrightarrow> canonical_poly (inv_layers k f)"
proof (induction k)
  case (Suc k)
  then have "canonical_poly (inv_layers k f)" "k < 7" by simp_all
  from canonical_layer(2) [OF this(1) inv_layer_sizes [OF this(2)]] show ?case by simp
qed simp

lemma NTT_layers:
  assumes "canonical_poly f"
  shows "NTT f GenZeta = fwd_layers 7 f"
proof -
  have chain: "ntt_layers GenZeta (2 ^ (7 - k)) (2 ^ k, fwd_layers k f) =
      ntt_layers GenZeta (2 ^ (7 - Suc k)) (2 ^ Suc k, fwd_layers (Suc k) f)" if "k < 7" for k
  proof -
    have "7 - k = Suc (7 - Suc k)" using that by simp
    then have "(2 :: nat) ^ (7 - k) = 2 * 2 ^ (7 - Suc k)" by (simp only: power_Suc)
    then have "(2 :: nat) ^ (7 - k) div 2 = 2 ^ (7 - Suc k)" by (simp only: nonzero_mult_div_cancel_left)
    then show ?thesis
      using layer_sizes [OF that] ntt_blocks_layer [of "2 ^ (7 - k)" "2 ^ k" "fwd_layers k f"]
        canonical_poly_length [OF canonical_fwd_layers [OF assms, of k]] that
      by (subst ntt_layers.simps) simp
  qed
  have "ntt_layers GenZeta (2 ^ (7 - 0)) (2 ^ 0, fwd_layers 0 f) =
      ntt_layers GenZeta (2 ^ (7 - k)) (2 ^ k, fwd_layers k f)" if "k \<le> 7" for k
    using that by (induction k) (simp_all only: chain Suc_le_eq less_imp_le)
  from this [of 7] have "ntt_layers GenZeta 128 (1, f) = ntt_layers GenZeta 1 (128, fwd_layers 7 f)" by simp
  moreover have "ntt_layers GenZeta 1 st = st" for st by (simp add: ntt_layers.simps)
  ultimately show ?thesis by (simp add: NTT_def)
qed

lemma ntt_inv_layers_eq:
  assumes "canonical_poly g"
  shows "snd (ntt_inv_layers GenZeta 2 (127, g)) = inv_layers 7 g"
proof -
  have chain: "ntt_inv_layers GenZeta (2 ^ Suc k) (2 ^ (7 - k) - 1, inv_layers k g) =
      ntt_inv_layers GenZeta (2 ^ Suc (Suc k)) (2 ^ (7 - Suc k) - 1, inv_layers (Suc k) g)" if "k < 7" for k
  proof -
    have "7 - k = Suc (6 - k)" using that by simp
    then have n: "(2 :: nat) ^ (7 - k) = 2 * 2 ^ (6 - k)" by (simp only: power_Suc)
    have "(2 :: nat) ^ Suc k \<le> 2 ^ 7" using that by (intro power_increasing) simp_all
    then show ?thesis
      using inv_layer_sizes [OF that] ntt_inv_blocks_layer [of "2 ^ Suc k" "2 ^ (6 - k)" "inv_layers k g"]
        canonical_poly_length [OF canonical_inv_layers [OF assms, of k]] that
      by (subst ntt_inv_layers.simps) (simp add: n mult.commute)
  qed
  have "ntt_inv_layers GenZeta (2 ^ Suc 0) (2 ^ (7 - 0) - 1, inv_layers 0 g) =
      ntt_inv_layers GenZeta (2 ^ Suc k) (2 ^ (7 - k) - 1, inv_layers k g)" if "k \<le> 7" for k
    using that by (induction k) (simp_all only: chain Suc_le_eq less_imp_le)
  from this [of 7] have "ntt_inv_layers GenZeta 2 (127, g) = ntt_inv_layers GenZeta 256 (0, inv_layers 7 g)" by simp
  moreover have "ntt_inv_layers GenZeta 256 st = st" for st by (simp add: ntt_inv_layers.simps)
  ultimately show ?thesis by simp
qed

lemma fold_update_nth:
  "n \<le> length g \<Longrightarrow> fold (\<lambda>i g. g[i := h (g ! i)]) [0..<n] g = map h (take n g) @ drop n g"
proof (induction n)
  case (Suc n)
  then have "fold (\<lambda>i g. g[i := h (g ! i)]) [0..<Suc n] g =
      (map h (take n g) @ drop n g)[n := h ((map h (take n g) @ drop n g) ! n)]" by simp
  also have "\<dots> = map h (take (Suc n) g) @ drop (Suc n) g"
    using Suc.prems
    by (intro nth_equalityI) (auto simp: nth_append nth_list_update less_Suc_eq min_def)
  finally show ?case .
qed simp

lemma NTT_inv_layers:
  assumes "canonical_poly g"
  shows "NTT_inv g GenZeta = map (\<lambda>a. (a * 3303) mod 3329) (inv_layers 7 g)"
proof -
  have c: "canonical_poly (inv_layers 7 g)" using canonical_inv_layers [OF assms] by simp
  have "NTT_inv g GenZeta = map (\<lambda>a. mlkem_mul_mod_q a 3303) (inv_layers 7 g)"
    using fold_update_nth [of 256 "inv_layers 7 g" "\<lambda>a. mlkem_mul_mod_q a 3303"] canonical_poly_length [OF c]
    by (simp add: NTT_inv_def Let_def ntt_inv_layers_eq [OF assms])
  also have "\<dots> = map (\<lambda>a. (a * 3303) mod 3329) (inv_layers 7 g)"
    using c by (intro map_cong refl mlkem_mul_mod_q) (auto simp: canonical_poly_def in_set_conv_nth, simp add: canonical_def)
  finally show ?thesis .
qed

lemma canonical_NTT [simp]: "canonical_poly f \<Longrightarrow> canonical_poly (NTT f GenZeta)"
  by (simp add: NTT_layers canonical_fwd_layers)

lemma canonical_NTT_inv [simp]: "canonical_poly g \<Longrightarrow> canonical_poly (NTT_inv g GenZeta)"
  using canonical_inv_layers [of g 7] by (simp add: NTT_inv_layers canonical_poly_def)

section \<open>The inverse\<close>

definition scaled :: "int \<Rightarrow> int list \<Rightarrow> int list \<Rightarrow> bool" where
  "scaled c g h \<longleftrightarrow> canonical_poly g \<and> canonical_poly h \<and> (\<forall>x<256. qeq (h ! x) (c * g ! x))"

lemma scaled_inv_fwd:
  assumes "k < 7" "canonical_poly g" "scaled c (fwd_layer (2 ^ (7 - k)) g) h"
  shows "scaled (2 * c) g (inv_layer (2 ^ (7 - k)) h)"
proof -
  let ?len = "2 ^ (7 - k) :: nat" and ?n = "2 ^ k :: nat"
  have h: "canonical_poly h" "\<And>x. x < 256 \<Longrightarrow> qeq (h ! x) (c * fwd_layer ?len g ! x)"
    using assms(3) by (simp_all add: scaled_def)
  note sz = layer_sizes [OF assms(1)]
  have "qeq (inv_layer ?len h ! x) (2 * c * g ! x)" if "x < 256" for x
  proof -
    have "0 < ?len" by simp
    from this sz(2) that show ?thesis
    proof (cases rule: block_split)
      case (low b j)
      let ?a = "g ! (b * (2 * ?len) + j)" and ?z = "zeta (?n + b) * g ! (b * (2 * ?len) + ?len + j)"
      note ix = block_index [OF \<open>0 < ?len\<close> sz(2) low(1,2)]
      have "qeq (inv_layer ?len h ! x) (c * (?a + ?z) + c * (?a - ?z))"
        unfolding low(3) inv_layer_nth(1) [OF h(1) sz low(1,2)] qeq_mod_left
        using h(2) [OF ix(1)] h(2) [OF ix(2)]
        unfolding fwd_layer_nth [OF assms(2) sz low(1,2)]
        by (intro qeq_add) (rule qeq_trans, assumption, simp add: qeq_mult)+
      also have "c * (?a + ?z) + c * (?a - ?z) = 2 * c * ?a" by (simp add: algebra_simps)
      finally show ?thesis unfolding low(3) .
    next
      case (high b j)
      let ?a = "g ! (b * (2 * ?len) + j)" and ?b = "g ! (b * (2 * ?len) + ?len + j)"
      let ?z = "zeta (?n + b)" and ?y = "zeta (2 * ?n - 1 - b)"
      note ix = block_index [OF \<open>0 < ?len\<close> sz(2) high(1,2)]
      have opp: "qeq (?z * ?y) (- 1)" using zeta_opposite [OF assms(1) high(1)] .
      have "qeq (inv_layer ?len h ! x) (?y * (c * (?a - ?z * ?b) - c * (?a + ?z * ?b)))"
        unfolding high(3) inv_layer_nth(2) [OF h(1) sz high(1,2)] qeq_mod_left
        using h(2) [OF ix(1)] h(2) [OF ix(2)]
        unfolding fwd_layer_nth [OF assms(2) sz high(1,2)]
        by (intro qeq_mult qeq_refl qeq_diff) (rule qeq_trans, assumption, simp add: qeq_mult)+
      also have "?y * (c * (?a - ?z * ?b) - c * (?a + ?z * ?b)) = (?z * ?y) * (- 2 * c * ?b)" by (simp add: algebra_simps)
      also have "qeq \<dots> (- 1 * (- 2 * c * ?b))" by (intro qeq_mult opp qeq_refl)
      finally show ?thesis unfolding high(3) by simp
    qed
  qed
  then show ?thesis using assms(2) canonical_layer(2) [OF h(1) sz] by (simp add: scaled_def)
qed

lemma scaled_fwd_inv:
  assumes "k < 7" "canonical_poly g" "scaled c (inv_layer (2 ^ (7 - k)) g) h"
  shows "scaled (2 * c) g (fwd_layer (2 ^ (7 - k)) h)"
proof -
  let ?len = "2 ^ (7 - k) :: nat" and ?n = "2 ^ k :: nat"
  have h: "canonical_poly h" "\<And>x. x < 256 \<Longrightarrow> qeq (h ! x) (c * inv_layer ?len g ! x)"
    using assms(3) by (simp_all add: scaled_def)
  note sz = layer_sizes [OF assms(1)]
  have pair: "qeq (fwd_layer ?len h ! (b * (2 * ?len) + j)) (2 * c * g ! (b * (2 * ?len) + j)) \<and>
      qeq (fwd_layer ?len h ! (b * (2 * ?len) + ?len + j)) (2 * c * g ! (b * (2 * ?len) + ?len + j))"
    if bj: "b < ?n" "j < ?len" for b j
  proof -
    let ?u = "g ! (b * (2 * ?len) + j)" and ?v = "g ! (b * (2 * ?len) + ?len + j)"
    let ?z = "zeta (?n + b)" and ?y = "zeta (2 * ?n - 1 - b)"
    have "0 < ?len" by simp
    note ix = block_index [OF this sz(2) bj]
    have low: "qeq (h ! (b * (2 * ?len) + j)) (c * (?u + ?v))"
      using h(2) [OF ix(1)] unfolding inv_layer_nth [OF assms(2) sz bj]
      by (rule qeq_trans) (simp add: qeq_mult)
    have "qeq (?z * h ! (b * (2 * ?len) + ?len + j)) (?z * (c * (?y * (?v - ?u))))"
      using h(2) [OF ix(2)] unfolding inv_layer_nth [OF assms(2) sz bj]
      by (intro qeq_mult qeq_refl) (rule qeq_trans, assumption, simp add: qeq_mult)
    also have "?z * (c * (?y * (?v - ?u))) = (?z * ?y) * (c * (?v - ?u))" by (simp add: algebra_simps)
    also have "qeq \<dots> (- 1 * (c * (?v - ?u)))" by (intro qeq_mult qeq_refl zeta_opposite [OF assms(1) bj(1)])
    finally have high: "qeq (?z * h ! (b * (2 * ?len) + ?len + j)) (c * (?u - ?v))" by (simp add: algebra_simps)
    have "qeq (fwd_layer ?len h ! (b * (2 * ?len) + j)) (c * (?u + ?v) + c * (?u - ?v))"
      "qeq (fwd_layer ?len h ! (b * (2 * ?len) + ?len + j)) (c * (?u + ?v) - c * (?u - ?v))"
      unfolding fwd_layer_nth [OF h(1) sz bj] qeq_mod_left by (intro qeq_add qeq_diff low high)+
    then show ?thesis by (simp add: algebra_simps)
  qed
  have "qeq (fwd_layer ?len h ! x) (2 * c * g ! x)" if "x < 256" for x
  proof -
    have "0 < ?len" by simp
    from this sz(2) that show ?thesis
    proof (cases rule: block_split)
      case (low b j)
      show ?thesis unfolding low(3) using pair [OF low(1,2)] by blast
    next
      case (high b j)
      show ?thesis unfolding high(3) using pair [OF high(1,2)] by blast
    qed
  qed
  then show ?thesis using assms(2) canonical_layer(1) [OF h(1) sz] by (simp add: scaled_def)
qed

lemma scaled_one: "scaled c g h \<Longrightarrow> qeq c 1 \<Longrightarrow> h = g"
proof (rule nth_equalityI)
  fix x assume s: "scaled c g h" "qeq c 1" "x < length h"
  then have x: "x < 256" by (simp add: scaled_def canonical_poly_def)
  have "qeq (h ! x) (c * g ! x)" using s x by (simp add: scaled_def)
  also have "qeq (c * g ! x) (1 * g ! x)" by (intro qeq_mult s qeq_refl)
  finally show "h ! x = g ! x"
    using s(1) x by (intro qeq_canonical) (simp_all add: scaled_def canonical_poly_def)
qed (simp add: scaled_def canonical_poly_def)

lemma NTT_inv_NTT:
  assumes "canonical_poly f"
  shows "NTT_inv (NTT f GenZeta) GenZeta = f"
proof -
  let ?g = "fwd_layers 7 f"
  have c: "canonical_poly ?g" using canonical_fwd_layers [OF assms] by simp
  have "scaled (2 ^ j) (fwd_layers (7 - j) f) (inv_layers j ?g)" if "j \<le> 7" for j
    using that
  proof (induction j)
    case 0
    then show ?case using c by (simp add: scaled_def)
  next
    case (Suc j)
    then have e: "7 - j = Suc (6 - j)" "7 - (6 - j) = Suc j" "7 - Suc j = 6 - j" by simp_all
    have "scaled (2 ^ j) (fwd_layer (2 ^ (7 - (6 - j))) (fwd_layers (6 - j) f)) (inv_layers j ?g)"
      using Suc unfolding e(1) by simp
    from scaled_inv_fwd [OF _ _ this] show ?case
      using canonical_fwd_layers [OF assms] unfolding e by simp
  qed
  from this [of 7] have s: "scaled 128 f (inv_layers 7 ?g)" by simp
  have "qeq ((inv_layers 7 ?g) ! x * 3303) (128 * 3303 * f ! x)" if "x < 256" for x
    using qeq_mult [OF _ qeq_refl [of 3303], of "inv_layers 7 ?g ! x" "128 * f ! x"] s that
    by (simp add: scaled_def)
  then have "scaled (128 * 3303) f (map (\<lambda>a. (a * 3303) mod 3329) (inv_layers 7 ?g))"
    using s by (simp add: scaled_def canonical_poly_def)
  then have "map (\<lambda>a. (a * 3303) mod 3329) (inv_layers 7 ?g) = f"
    by (rule scaled_one) (simp add: qeq_def)
  then show ?thesis by (simp add: NTT_inv_layers c NTT_layers assms)
qed

lemma NTT_NTT_inv:
  assumes "canonical_poly g"
  shows "NTT (NTT_inv g GenZeta) GenZeta = g"
proof -
  let ?f = "map (\<lambda>a. (a * 3303) mod 3329) (inv_layers 7 g)"
  have c: "canonical_poly (inv_layers 7 g)" using canonical_inv_layers [OF assms] by simp
  then have f: "canonical_poly ?f" by (simp add: canonical_poly_def)
  have "scaled (3303 * 2 ^ j) (inv_layers (7 - j) g) (fwd_layers j ?f)" if "j \<le> 7" for j
    using that
  proof (induction j)
    case 0
    then show ?case using c f by (simp add: scaled_def canonical_poly_length mult.commute)
  next
    case (Suc j)
    then have e: "7 - j = Suc (6 - j)" "Suc (6 - j) = 7 - j" "7 - Suc j = 6 - j" by simp_all
    have "scaled (3303 * 2 ^ j) (inv_layer (2 ^ (7 - j)) (inv_layers (6 - j) g)) (fwd_layers j ?f)"
      using Suc e(1) inv_layers.simps(2) [of "6 - j" g] by simp
    from scaled_fwd_inv [OF _ _ this] show ?case
      using canonical_inv_layers [OF assms, of "6 - j"] Suc.prems unfolding e(3) by (simp add: mult_ac)
  qed
  from this [of 7] have "scaled (3303 * 128) g (fwd_layers 7 ?f)" by simp
  then have "fwd_layers 7 ?f = g" by (rule scaled_one) (simp add: qeq_def)
  then show ?thesis by (simp add: NTT_inv_layers assms NTT_layers f)
qed

section \<open>The residues\<close>

definition res :: "(nat \<Rightarrow> int) \<Rightarrow> nat \<Rightarrow> int \<Rightarrow> nat \<Rightarrow> int" where
  "res F m c k = (\<Sum>t<256 div m. c ^ t * F (k + m * t))"

lemma sum_even_odd:
  "(\<Sum>t<2 * n. h t) = (\<Sum>s<n. h (2 * s)) + (\<Sum>s<n. h (2 * s + 1))" for h :: "nat \<Rightarrow> int"
  by (induction n) simp_all

lemma res_split:
  assumes "len * n = 128" "0 < len" "qeq (c * c) d"
  shows "qeq (res F (2 * len) d k + c * res F (2 * len) d (k + len)) (res F len c k)"
proof -
  have n: "256 div (2 * len) = n" "256 div len = 2 * n"
  proof -
    have "(256 :: nat) = n * (2 * len)" "(256 :: nat) = 2 * n * len" using assms(1) by (simp_all add: mult_ac)
    then show "256 div (2 * len) = n" "256 div len = 2 * n"
      using assms(2) by (metis nonzero_mult_div_cancel_right mult_eq_0_iff not_gr0 zero_neq_numeral)+
  qed
  have pow: "qeq (d ^ s) (c ^ (2 * s))" for s
    using qeq_power [OF assms(3)] by (simp add: qeq_sym power_mult power2_eq_square)
  have idx: "2 * len * s = len * (2 * s)" for s by simp
  have "qeq (res F (2 * len) d k + c * res F (2 * len) d (k + len))
      ((\<Sum>s<n. c ^ (2 * s) * F (k + len * (2 * s))) + c * (\<Sum>s<n. c ^ (2 * s) * F (k + len + len * (2 * s))))"
    unfolding res_def n idx by (intro qeq_add qeq_sum qeq_mult qeq_refl pow)
  also have "\<dots> = res F len c k"
    unfolding res_def n sum_even_odd by (simp add: sum_distrib_left mult_ac add_ac distrib_left)
  finally show ?thesis .
qed

lemma root_children:
  assumes "0 < i"
  shows "root (2 * i) = zeta i" "root (2 * i + 1) = - zeta i"
  using assms by (simp_all add: root_def)

definition residues :: "nat \<Rightarrow> (nat \<Rightarrow> int) \<Rightarrow> int list \<Rightarrow> bool" where
  "residues k F g \<longleftrightarrow> canonical_poly g \<and>
     (\<forall>b<2 ^ k. \<forall>j<2 ^ (8 - k). qeq (g ! (b * 2 ^ (8 - k) + j)) (res F (2 ^ (8 - k)) (root (2 ^ k + b)) j))"

lemma residues_fwd:
  assumes "k < 7" "residues k F g"
  shows "residues (Suc k) F (fwd_layer (2 ^ (7 - k)) g)"
proof -
  let ?len = "2 ^ (7 - k) :: nat" and ?n = "2 ^ k :: nat"
  have g: "canonical_poly g" using assms(2) by (simp add: residues_def)
  note sz = layer_sizes [OF assms(1)]
  have len: "0 < ?len" by simp
  have two: "2 ^ (8 - k) = 2 * ?len" "8 - Suc k = 7 - k"
    using assms(1) by (simp_all add: Suc_diff_le eval_nat_numeral)
  have in_res: "qeq (g ! (b * (2 * ?len) + j)) (res F (2 * ?len) (root (?n + b)) j)" if "b < ?n" "j < 2 * ?len" for b j
    using assms(2) that unfolding residues_def two by blast
  have out: "qeq (fwd_layer ?len g ! (b * ?len + j)) (res F ?len (root (2 * ?n + b)) j)"
    if b: "b < 2 * ?n" and j: "j < ?len" for b j
  proof -
    let ?b = "b div 2"
    have bn: "?b < ?n" using b by simp
    have node: "0 < ?n + ?b" "?n + ?b < 128" using layer_nodes [OF sz bn] by simp_all
    have sq: "qeq (zeta (?n + ?b) * zeta (?n + ?b)) (root (?n + ?b))" using zeta_square [OF node] .
    have low: "qeq (g ! (?b * (2 * ?len) + j)) (res F (2 * ?len) (root (?n + ?b)) j)"
      using in_res [OF bn, of j] j by simp
    have high: "qeq (g ! (?b * (2 * ?len) + ?len + j)) (res F (2 * ?len) (root (?n + ?b)) (j + ?len))"
      using in_res [OF bn, of "j + ?len"] j by (simp add: add_ac)
    show ?thesis
    proof (cases "even b")
      case True
      then have e: "b * ?len = ?b * (2 * ?len)" "2 * ?n + b = 2 * (?n + ?b)" by auto
      have "qeq (fwd_layer ?len g ! (b * ?len + j))
          (res F (2 * ?len) (root (?n + ?b)) j + zeta (?n + ?b) * res F (2 * ?len) (root (?n + ?b)) (j + ?len))"
        unfolding e(1) fwd_layer_nth(1) [OF g sz bn j] qeq_mod_left by (intro qeqs low high)
      also have "qeq \<dots> (res F ?len (zeta (?n + ?b)) j)" by (rule res_split [OF sz(2) len sq])
      finally show ?thesis unfolding e(2) root_children [OF node(1)] .
    next
      case False
      then have e: "b * ?len = ?b * (2 * ?len) + ?len" "2 * ?n + b = 2 * (?n + ?b) + 1"
        by (auto elim!: oddE simp: algebra_simps)
      have "qeq (fwd_layer ?len g ! (b * ?len + j))
          (res F (2 * ?len) (root (?n + ?b)) j - zeta (?n + ?b) * res F (2 * ?len) (root (?n + ?b)) (j + ?len))"
        unfolding e(1) fwd_layer_nth(2) [OF g sz bn j] qeq_mod_left by (intro qeqs low high)
      also have "\<dots> = res F (2 * ?len) (root (?n + ?b)) j + (- zeta (?n + ?b)) * res F (2 * ?len) (root (?n + ?b)) (j + ?len)"
        by simp
      also have "qeq \<dots> (res F ?len (- zeta (?n + ?b)) j)"
        by (rule res_split [OF sz(2) len]) (simp add: sq)
      finally show ?thesis unfolding e(2) root_children [OF node(1)] .
    qed
  qed
  then show ?thesis
    using canonical_layer(1) [OF g sz] unfolding residues_def two power_Suc by blast
qed

lemma NTT_residue:
  assumes "canonical_poly f" "b < 128" "j < 2"
  shows "qeq (NTT f GenZeta ! (2 * b + j)) (res ((!) f) 2 (gamma b) j)"
proof -
  have "residues k ((!) f) (fwd_layers k f)" if "k \<le> 7" for k
    using that
  proof (induction k)
    case 0
    show ?case using assms(1) by (simp add: residues_def res_def)
  next
    case (Suc k)
    then show ?case using residues_fwd by simp
  qed
  from this [of 7] have "qeq (fwd_layers 7 f ! (b * 2 + j)) (res ((!) f) 2 (root (128 + b)) j)"
    using assms(2,3) by (simp add: residues_def)
  also have "qeq \<dots> (res ((!) f) 2 (gamma b) j)"
    unfolding res_def by (intro qeqs root_leaf assms)
  finally show ?thesis by (simp add: NTT_layers assms mult.commute)
qed

end
