(* ===== verification/MLKEM_Ring.thy ===== *)
theory MLKEM_Ring
  imports MLKEM_NTT_Correct
begin

text \<open>
  Products of polynomials modulo \<open>X ^ 256 + 1\<close> and modulo 3329. An element of the transformed
  domain is 128 residues modulo \<open>X ^ 2 - \<gamma>\<close>, a ring on pairs of coefficients (type \<open>quad\<close>); the
  evaluation of a polynomial in it is a homomorphism, so that \<open>Multiply_NTT\<close> computes the product.
\<close>

section \<open>Residues modulo a quadratic polynomial\<close>

datatype quad = Quad (lin0: int) (lin1: int)

instantiation quad :: ab_group_add
begin

definition plus_quad :: "quad \<Rightarrow> quad \<Rightarrow> quad" where
  "plus_quad x y = Quad (lin0 x + lin0 y) (lin1 x + lin1 y)"

definition zero_quad :: quad where
  "zero_quad = Quad 0 0"

definition uminus_quad :: "quad \<Rightarrow> quad" where
  "uminus_quad x = Quad (- lin0 x) (- lin1 x)"

definition minus_quad :: "quad \<Rightarrow> quad \<Rightarrow> quad" where
  "minus_quad x y = Quad (lin0 x - lin0 y) (lin1 x - lin1 y)"

instance
  by intro_classes (simp_all add: plus_quad_def zero_quad_def uminus_quad_def minus_quad_def)

end

lemma quad_eqI: "lin0 x = lin0 y \<Longrightarrow> lin1 x = lin1 y \<Longrightarrow> x = y"
  by (cases x; cases y) simp

lemma lin_simps [simp]:
  "lin0 (x + y) = lin0 x + lin0 y" "lin1 (x + y) = lin1 x + lin1 y"
  "lin0 (x - y) = lin0 x - lin0 y" "lin1 (x - y) = lin1 x - lin1 y"
  "lin0 (- x) = - lin0 x" "lin1 (- x) = - lin1 x" "lin0 0 = 0" "lin1 0 = 0"
  by (simp_all add: plus_quad_def zero_quad_def uminus_quad_def minus_quad_def)

lemma lin_sum [simp]: "lin0 (sum h A) = (\<Sum>x\<in>A. lin0 (h x))" "lin1 (sum h A) = (\<Sum>x\<in>A. lin1 (h x))"
  by (induction A rule: infinite_finite_induct) simp_all

definition qmul :: "int \<Rightarrow> quad \<Rightarrow> quad \<Rightarrow> quad" where
  "qmul c x y = Quad (lin0 x * lin0 y + lin1 x * lin1 y * c) (lin0 x * lin1 y + lin1 x * lin0 y)"

lemma qmul_lin [simp]:
  "lin0 (qmul c x y) = lin0 x * lin0 y + lin1 x * lin1 y * c"
  "lin1 (qmul c x y) = lin0 x * lin1 y + lin1 x * lin0 y"
  by (simp_all add: qmul_def)

lemma qmul_add_left: "qmul c (x + y) z = qmul c x z + qmul c y z"
  by (rule quad_eqI) (simp_all add: algebra_simps)

lemma qmul_add_right: "qmul c z (x + y) = qmul c z x + qmul c z y"
  by (rule quad_eqI) (simp_all add: algebra_simps)

lemma qmul_zero [simp]: "qmul c 0 x = 0" "qmul c x 0 = 0"
  by (rule quad_eqI; simp)+

lemma qmul_sum_left: "qmul c (sum h A) z = (\<Sum>x\<in>A. qmul c (h x) z)"
  by (induction A rule: infinite_finite_induct) (simp_all add: qmul_add_left)

lemma qmul_sum_right: "qmul c z (sum h A) = (\<Sum>x\<in>A. qmul c z (h x))"
  by (induction A rule: infinite_finite_induct) (simp_all add: qmul_add_right)

lemma qmul_commute: "qmul c x y = qmul c y x"
  by (rule quad_eqI) (simp_all add: algebra_simps)

lemma qmul_assoc: "qmul c (qmul c x y) z = qmul c x (qmul c y z)"
  by (rule quad_eqI) (simp_all add: algebra_simps)

definition quad_eq :: "quad \<Rightarrow> quad \<Rightarrow> bool" where
  "quad_eq x y \<longleftrightarrow> qeq (lin0 x) (lin0 y) \<and> qeq (lin1 x) (lin1 y)"

named_theorems quad_eqs

lemma quad_eq_refl [simp, quad_eqs]: "quad_eq x x" by (simp add: quad_eq_def)

lemma quad_eq_sym: "quad_eq x y \<Longrightarrow> quad_eq y x" by (auto simp: quad_eq_def intro: qeq_sym)

lemma quad_eq_trans [trans]: "quad_eq x y \<Longrightarrow> quad_eq y z \<Longrightarrow> quad_eq x z"
  by (auto simp: quad_eq_def intro: qeq_trans)

lemma quad_eq_add [quad_eqs]: "quad_eq x y \<Longrightarrow> quad_eq x' y' \<Longrightarrow> quad_eq (x + x') (y + y')"
  by (simp add: quad_eq_def qeqs)

lemma quad_eq_diff [quad_eqs]: "quad_eq x y \<Longrightarrow> quad_eq x' y' \<Longrightarrow> quad_eq (x - x') (y - y')"
  by (simp add: quad_eq_def qeqs)

lemma quad_eq_mul [quad_eqs]: "quad_eq x y \<Longrightarrow> quad_eq x' y' \<Longrightarrow> quad_eq (qmul c x x') (qmul c y y')"
  by (simp add: quad_eq_def qeqs)

lemma quad_eq_sum [quad_eqs]: "(\<And>x. x \<in> A \<Longrightarrow> quad_eq (f x) (g x)) \<Longrightarrow> quad_eq (sum f A) (sum g A)"
  by (induction A rule: infinite_finite_induct) (simp_all add: quad_eq_add)

section \<open>Evaluation\<close>

definition ev :: "int \<Rightarrow> (nat \<Rightarrow> int) \<Rightarrow> quad" where
  "ev c F = Quad (res F 2 c 0) (res F 2 c 1)"

lemma ev_cong: "(\<And>n. n < 256 \<Longrightarrow> qeq (F n) (G n)) \<Longrightarrow> quad_eq (ev c F) (ev c G)"
  unfolding quad_eq_def ev_def quad.sel res_def by (intro conjI qeq_sum qeq_mult qeq_refl) simp_all

lemma ev_add: "ev c (\<lambda>n. F n + G n) = ev c F + ev c G"
  by (rule quad_eqI) (simp_all add: ev_def res_def distrib_left sum.distrib)

lemma ev_diff: "ev c (\<lambda>n. F n - G n) = ev c F - ev c G"
  by (rule quad_eqI) (simp_all add: ev_def res_def right_diff_distrib sum_subtractf)

lemma ev_zero: "ev c (\<lambda>n. 0) = 0"
  by (rule quad_eqI) (simp_all add: ev_def res_def)

lemma ev_sum: "ev c (\<lambda>n. \<Sum>x\<in>A. F x n) = (\<Sum>x\<in>A. ev c (F x))"
  by (induction A rule: infinite_finite_induct) (simp_all add: ev_add ev_zero)

section \<open>The product modulo \<open>X ^ 256 + 1\<close>\<close>

definition negacyclic :: "(nat \<Rightarrow> int) \<Rightarrow> (nat \<Rightarrow> int) \<Rightarrow> nat \<Rightarrow> int" where
  "negacyclic F G n = (\<Sum>i<256. F i * (if i \<le> n then G (n - i) else - G (256 + n - i)))"

lemma sum_split_add: "(\<Sum>n<i + m. h n) = (\<Sum>n<i. h n) + (\<Sum>n<m. h (i + n))" for h :: "nat \<Rightarrow> int"
  by (induction m) simp_all

lemma sum_rotate:
  fixes u G :: "nat \<Rightarrow> int"
  assumes "i < 256"
  shows "(\<Sum>n<256. u n * (if i \<le> n then G (n - i) else - G (256 + n - i))) =
    (\<Sum>j<256. G j * (if i + j < 256 then u (i + j) else - u (i + j - 256)))"
proof -
  define m where "m = 256 - i"
  have m: "256 = i + m" "256 = m + i" using assms by (simp_all add: m_def)
  have "(\<Sum>n<i + m. u n * (if i \<le> n then G (n - i) else - G (256 + n - i))) =
      (\<Sum>n<i. - (u n * G (m + n))) + (\<Sum>n<m. u (i + n) * G n)"
    unfolding sum_split_add using assms
    by (intro arg_cong2 [where f = "(+)"] sum.cong refl) (simp_all add: m_def)
  moreover have "(\<Sum>j<m + i. G j * (if i + j < 256 then u (i + j) else - u (i + j - 256))) =
      (\<Sum>j<m. G j * u (i + j)) + (\<Sum>j<i. - (G (m + j) * u j))"
    unfolding sum_split_add using assms
    by (intro arg_cong2 [where f = "(+)"] sum.cong refl) (auto simp: m_def)
  ultimately show ?thesis unfolding m(1)[symmetric] m(2)[symmetric] by (simp add: mult.commute)
qed

definition weight :: "int \<Rightarrow> nat \<Rightarrow> nat \<Rightarrow> int" where
  "weight c k i = (if i mod 2 = k then c ^ (i div 2) else 0)"

lemma weight_even: "weight c k (2 * m) = (if k = 0 then c ^ m else 0)"
  by (simp add: weight_def)

lemma weight_odd: "weight c k (2 * m + 1) = (if k = 1 then c ^ m else 0)"
  by (simp add: weight_def)

lemma res_weight:
  assumes "k < 2"
  shows "res F 2 c k = (\<Sum>i<256. weight c k i * F i)"
proof -
  have k: "k = 0 \<or> k = 1" using assms by linarith
  have "(\<Sum>i<2 * 128. weight c k i * F i) = (\<Sum>t<128. c ^ t * F (k + 2 * t))"
    unfolding sum_even_odd using k by (auto simp: weight_def)
  then show ?thesis by (simp add: res_def)
qed

lemma weight_wrap:
  assumes "qeq (c ^ 128) (- 1)" "256 \<le> n"
  shows "qeq (- weight c k (n - 256)) (weight c k n)"
proof -
  obtain m where m: "n = m + 128 * 2" using le_Suc_ex [OF assms(2)] by (auto simp: add.commute)
  have n: "(n - 256) mod 2 = n mod 2" "n div 2 = 128 + (n - 256) div 2"
    unfolding m mod_mult_self1 div_mult_self1 [OF zero_neq_numeral [symmetric]] by simp_all
  have "qeq (- 1 * c ^ ((n - 256) div 2)) (c ^ (n div 2))"
    unfolding n(2) power_add by (intro qeq_mult qeq_sym [OF assms(1)] qeq_refl)
  then show ?thesis by (simp add: weight_def n(1))
qed

lemma res_negacyclic:
  assumes "qeq (c ^ 128) (- 1)" "k < 2"
  shows "qeq (res (negacyclic F G) 2 c k) (\<Sum>i<256. F i * (\<Sum>j<256. G j * weight c k (i + j)))"
proof -
  have "res (negacyclic F G) 2 c k =
      (\<Sum>n<256. \<Sum>i<256. F i * (weight c k n * (if i \<le> n then G (n - i) else - G (256 + n - i))))"
    unfolding res_weight [OF assms(2)] negacyclic_def sum_distrib_left
    by (intro sum.cong refl) (rule mult.left_commute)
  also have "\<dots> = (\<Sum>i<256. \<Sum>n<256. F i * (weight c k n * (if i \<le> n then G (n - i) else - G (256 + n - i))))"
    by (rule sum.swap)
  also have "\<dots> = (\<Sum>i<256. F i * (\<Sum>j<256. G j * (if i + j < 256 then weight c k (i + j) else - weight c k (i + j - 256))))"
    unfolding sum_distrib_left [symmetric]
    by (intro sum.cong refl arg_cong2 [where f = "(*)"] sum_rotate) simp
  also have "qeq \<dots> (\<Sum>i<256. F i * (\<Sum>j<256. G j * weight c k (i + j)))"
    using weight_wrap [OF assms(1)] by (intro qeq_sum qeq_mult qeq_refl) simp
  finally show ?thesis .
qed

lemma weighted_product:
  "(\<Sum>i<256. F i * (\<Sum>j<256. G j * weight c 0 (i + j))) = res F 2 c 0 * res G 2 c 0 + res F 2 c 1 * res G 2 c 1 * c"
  "(\<Sum>i<256. F i * (\<Sum>j<256. G j * weight c 1 (i + j))) = res F 2 c 0 * res G 2 c 1 + res F 2 c 1 * res G 2 c 0"
proof -
  have r: "res F 2 c k = (\<Sum>t<128. c ^ t * F (k + 2 * t))" for F k by (simp add: res_def)
  have half: "(\<Sum>i<256. h i) = (\<Sum>s<128. h (2 * s)) + (\<Sum>s<128. h (2 * s + 1))" for h :: "nat \<Rightarrow> int"
    using sum_even_odd [of h 128] by simp
  have w: "weight c 0 (2 * s + 2 * t) = c ^ s * c ^ t" "weight c 0 (2 * s + (2 * t + 1)) = 0"
    "weight c 0 (2 * s + 1 + 2 * t) = 0" "weight c 0 (2 * s + 1 + (2 * t + 1)) = c * (c ^ s * c ^ t)"
    "weight c 1 (2 * s + 2 * t) = 0" "weight c 1 (2 * s + (2 * t + 1)) = c ^ s * c ^ t"
    "weight c 1 (2 * s + 1 + 2 * t) = c ^ s * c ^ t" "weight c 1 (2 * s + 1 + (2 * t + 1)) = 0" for s t
  proof -
    have "2 * s + 2 * t = 2 * (s + t)" "2 * s + (2 * t + 1) = 2 * (s + t) + 1"
      "2 * s + 1 + 2 * t = 2 * (s + t) + 1" "2 * s + 1 + (2 * t + 1) = 2 * (s + t + 1)" by simp_all
    then show "weight c 0 (2 * s + 2 * t) = c ^ s * c ^ t" "weight c 0 (2 * s + (2 * t + 1)) = 0"
      "weight c 0 (2 * s + 1 + 2 * t) = 0" "weight c 0 (2 * s + 1 + (2 * t + 1)) = c * (c ^ s * c ^ t)"
      "weight c 1 (2 * s + 2 * t) = 0" "weight c 1 (2 * s + (2 * t + 1)) = c ^ s * c ^ t"
      "weight c 1 (2 * s + 1 + 2 * t) = c ^ s * c ^ t" "weight c 1 (2 * s + 1 + (2 * t + 1)) = 0"
      by (simp_all only: weight_even weight_odd power_add) simp_all
  qed
  show "(\<Sum>i<256. F i * (\<Sum>j<256. G j * weight c 0 (i + j))) = res F 2 c 0 * res G 2 c 0 + res F 2 c 1 * res G 2 c 1 * c"
    unfolding half w r sum_product by (simp add: sum_distrib_left sum_distrib_right mult_ac)
  show "(\<Sum>i<256. F i * (\<Sum>j<256. G j * weight c 1 (i + j))) = res F 2 c 0 * res G 2 c 1 + res F 2 c 1 * res G 2 c 0"
    unfolding half w r sum_product by (simp add: sum_distrib_left sum_distrib_right mult_ac sum.distrib)
qed

lemma ev_negacyclic:
  assumes "qeq (c ^ 128) (- 1)"
  shows "quad_eq (ev c (negacyclic F G)) (qmul c (ev c F) (ev c G))"
  using res_negacyclic [OF assms, of 0 F G] res_negacyclic [OF assms, of 1 F G]
  unfolding weighted_product by (simp add: quad_eq_def ev_def)

section \<open>The transformed domain\<close>

definition slot :: "int list \<Rightarrow> nat \<Rightarrow> quad" where
  "slot f b = Quad (f ! (2 * b)) (f ! (2 * b + 1))"

lemma slot_NTT:
  assumes "canonical_poly f" "b < 128"
  shows "quad_eq (slot (NTT f GenZeta) b) (ev (gamma b) ((!) f))"
  using NTT_residue [OF assms, of 0] NTT_residue [OF assms, of 1]
  by (simp add: quad_eq_def slot_def ev_def)

lemma canonical_poly_eqI:
  assumes "canonical_poly f" "canonical_poly g" "\<And>x. x < 256 \<Longrightarrow> qeq (f ! x) (g ! x)"
  shows "f = g"
  using assms by (intro nth_equalityI qeq_canonical) (simp_all add: canonical_poly_def)

lemma slot_cases:
  fixes x :: nat
  assumes "x < 256"
  obtains (low) b where "b < 128" "x = 2 * b" | (high) b where "b < 128" "x = 2 * b + 1"
proof (cases "even x")
  case True
  then obtain b where "x = 2 * b" by (elim evenE)
  with assms show ?thesis by (intro low) simp_all
next
  case False
  then obtain b where "x = 2 * b + 1" by (elim oddE)
  with assms show ?thesis by (intro high) simp_all
qed

lemma slots_eqI:
  assumes "canonical_poly f" "canonical_poly g" "\<And>b. b < 128 \<Longrightarrow> quad_eq (slot f b) (slot g b)"
  shows "f = g"
proof (rule canonical_poly_eqI [OF assms(1,2)])
  fix x :: nat assume "x < 256"
  then show "qeq (f ! x) (g ! x)"
  proof (cases rule: slot_cases)
    case (low b)
    then show ?thesis using assms(3) [of b] by (simp add: quad_eq_def slot_def)
  next
    case (high b)
    then show ?thesis using assms(3) [of b] by (simp add: quad_eq_def slot_def)
  qed
qed

text \<open>A polynomial is determined by its residues.\<close>

lemma residues_determine:
  assumes "canonical_poly f" "canonical_poly g"
    "\<And>b. b < 128 \<Longrightarrow> quad_eq (ev (gamma b) ((!) f)) (ev (gamma b) ((!) g))"
  shows "f = g"
proof -
  have "NTT f GenZeta = NTT g GenZeta"
  proof (rule slots_eqI)
    fix b :: nat assume b: "b < 128"
    show "quad_eq (slot (NTT f GenZeta) b) (slot (NTT g GenZeta) b)"
      using slot_NTT [OF assms(1) b] assms(3) [OF b] slot_NTT [OF assms(2) b]
      by (meson quad_eq_sym quad_eq_trans)
  qed (simp_all add: assms)
  then show ?thesis using NTT_inv_NTT [OF assms(1)] NTT_inv_NTT [OF assms(2)] by metis
qed

definition reduced :: "(nat \<Rightarrow> int) \<Rightarrow> int list" where
  "reduced F = map (\<lambda>n. F n mod 3329) [0..<256]"

lemma canonical_reduced [simp]: "canonical_poly (reduced F)"
  by (simp add: reduced_def canonical_poly_def)

lemma nth_reduced [simp]: "n < 256 \<Longrightarrow> reduced F ! n = F n mod 3329"
  by (simp add: reduced_def)

lemma ev_reduced: "quad_eq (ev c ((!) (reduced F))) (ev c F)"
  by (rule ev_cong) simp

lemma NTT_inv_evI:
  assumes "canonical_poly g" "\<And>b. b < 128 \<Longrightarrow> quad_eq (slot g b) (ev (gamma b) F)"
  shows "NTT_inv g GenZeta = reduced F"
proof -
  have "g = NTT (reduced F) GenZeta"
  proof (rule slots_eqI)
    fix b :: nat assume b: "b < 128"
    show "quad_eq (slot g b) (slot (NTT (reduced F) GenZeta) b)"
      using assms(2) [OF b] ev_reduced slot_NTT [OF canonical_reduced b]
      by (meson quad_eq_sym quad_eq_trans)
  qed (simp_all add: assms)
  then show ?thesis by (simp add: NTT_inv_NTT)
qed

subsection \<open>Multiplication\<close>

lemma zeta_gamma:
  assumes "b < 128"
  shows "canonical (GenZeta ! (2 * unat (mlkem_bit_reverse_7 (of_nat b)) + 1))"
    "qeq (GenZeta ! (2 * unat (mlkem_bit_reverse_7 (of_nat b)) + 1)) (gamma b)"
proof -
  have "2 * brv 7 b + 1 < 256" using brv_less [of 7 b] by simp
  then show "canonical (GenZeta ! (2 * unat (mlkem_bit_reverse_7 (of_nat b)) + 1))"
    "qeq (GenZeta ! (2 * unat (mlkem_bit_reverse_7 (of_nat b)) + 1)) (gamma b)"
    unfolding unat_bit_reverse_7 [OF assms] GenZeta_def gamma_def
    by (rule canonical_zeta_table, rule zeta_table_power)
qed

definition multiplied :: "int list \<Rightarrow> int list \<Rightarrow> nat \<Rightarrow> quad" where
  "multiplied f g b =
     (let z = GenZeta ! (2 * unat (mlkem_bit_reverse_7 (of_nat b)) + 1); p = qmul z (slot f b) (slot g b)
      in Quad (lin0 p mod 3329) (lin1 p mod 3329))"

lemma multiply_ntt_step:
  assumes "canonical_poly f" "canonical_poly g" "b < 128"
  shows "multiply_ntt_step f g GenZeta b h = h[2 * b := lin0 (multiplied f g b), 2 * b + 1 := lin1 (multiplied f g b)]"
proof -
  have "canonical (f ! (2 * b))" "canonical (f ! (2 * b + 1))" "canonical (g ! (2 * b))" "canonical (g ! (2 * b + 1))"
    using assms by (simp_all add: canonical_poly_def)
  then show ?thesis
    using zeta_gamma(1) [OF assms(3)]
    by (simp add: multiply_ntt_step_def multiplied_def slot_def Let_def)
qed

lemma Multiply_NTT_nth:
  assumes "canonical_poly f" "canonical_poly g" "length h = 256" "k \<le> 128"
  shows "length (fold (multiply_ntt_step f g GenZeta) [0..<k] h) = 256 \<and>
    (\<forall>b<k. slot (fold (multiply_ntt_step f g GenZeta) [0..<k] h) b = multiplied f g b)"
  using assms(4)
proof (induction k)
  case (Suc k)
  let ?h = "fold (multiply_ntt_step f g GenZeta) [0..<k] h"
  have k: "k < 128" "length ?h = 256" "\<forall>b<k. slot ?h b = multiplied f g b" using Suc by simp_all
  have "slot (?h[2 * k := x, 2 * k + 1 := y]) b = (if b = k then Quad x y else slot ?h b)" if "b \<le> k" for x y b
    using that k(1,2) by (auto simp: slot_def nth_list_update)
  then show ?case
    using k by (auto simp: multiply_ntt_step [OF assms(1,2)] less_Suc_eq)
qed (simp add: assms)

lemma slot_Multiply_NTT:
  assumes "canonical_poly f" "canonical_poly g" "length h = 256" "b < 128"
  shows "slot (Multiply_NTT f g h GenZeta) b = multiplied f g b"
  using Multiply_NTT_nth [OF assms(1-3), of 128] assms(4) by (simp add: Multiply_NTT_def)

lemma canonical_Multiply_NTT [simp]:
  assumes "canonical_poly f" "canonical_poly g" "length h = 256"
  shows "canonical_poly (Multiply_NTT f g h GenZeta)"
proof -
  have "canonical (Multiply_NTT f g h GenZeta ! x)" if "x < 256" for x
    using that
  proof (cases rule: slot_cases)
    case (low b)
    then show ?thesis
      using arg_cong [OF slot_Multiply_NTT [OF assms, of b], of lin0]
      by (simp add: slot_def multiplied_def Let_def)
  next
    case (high b)
    then show ?thesis
      using arg_cong [OF slot_Multiply_NTT [OF assms, of b], of lin1]
      by (simp add: slot_def multiplied_def Let_def)
  qed
  moreover have "length (Multiply_NTT f g h GenZeta) = 256"
    using Multiply_NTT_nth [OF assms, of 128] by (simp add: Multiply_NTT_def)
  ultimately show ?thesis by (simp add: canonical_poly_def)
qed

lemma quad_eq_Multiply_NTT:
  assumes "canonical_poly f" "canonical_poly g" "length h = 256" "b < 128"
  shows "quad_eq (slot (Multiply_NTT f g h GenZeta) b) (qmul (gamma b) (slot f b) (slot g b))"
  unfolding slot_Multiply_NTT [OF assms] multiplied_def Let_def quad_eq_def quad.sel qeq_mod_left qmul_lin
  by (intro conjI qeqs zeta_gamma assms)



text \<open>
  C10. Multiplication in the transformed domain is multiplication of polynomials: transforming two
  polynomials, multiplying with \<open>Multiply_NTT\<close> (whatever the output array held) and transforming
  back gives their product modulo \<open>X ^ 256 + 1\<close> and modulo 3329; and the two transforms are
  inverse to each other.
\<close>

theorem Multiply_NTT_correct:
  assumes "length f = 256" "\<forall>a\<in>set f. canonical a" "length g = 256" "\<forall>a\<in>set g. canonical a"
    "length h = 256"
  shows "NTT_inv (Multiply_NTT (NTT f GenZeta) (NTT g GenZeta) h GenZeta) GenZeta =
      map (\<lambda>n. (\<Sum>i<256. f ! i * (if i \<le> n then g ! (n - i) else - g ! (256 + n - i))) mod 3329) [0..<256] \<and>
    NTT_inv (NTT f GenZeta) GenZeta = f \<and> NTT (NTT_inv g GenZeta) GenZeta = g"
proof -
  have fg: "canonical_poly f" "canonical_poly g" using assms by (simp_all add: canonical_poly_def)
  have "NTT_inv (Multiply_NTT (NTT f GenZeta) (NTT g GenZeta) h GenZeta) GenZeta = reduced (negacyclic ((!) f) ((!) g))"
  proof (rule NTT_inv_evI)
    fix b :: nat assume b: "b < 128"
    have "quad_eq (slot (Multiply_NTT (NTT f GenZeta) (NTT g GenZeta) h GenZeta) b)
        (qmul (gamma b) (slot (NTT f GenZeta) b) (slot (NTT g GenZeta) b))"
      by (intro quad_eq_Multiply_NTT canonical_NTT fg assms b)
    also have "quad_eq \<dots> (qmul (gamma b) (ev (gamma b) ((!) f)) (ev (gamma b) ((!) g)))"
      by (intro quad_eq_mul slot_NTT fg b)
    also have "quad_eq \<dots> (ev (gamma b) (negacyclic ((!) f) ((!) g)))"
      by (intro quad_eq_sym [OF ev_negacyclic] gamma_negacyclic)
    finally show "quad_eq (slot (Multiply_NTT (NTT f GenZeta) (NTT g GenZeta) h GenZeta) b)
        (ev (gamma b) (negacyclic ((!) f) ((!) g)))" .
  qed (simp add: fg assms)
  then show ?thesis
    using NTT_inv_NTT [OF fg(1)] NTT_NTT_inv [OF fg(2)] by (simp add: reduced_def negacyclic_def)
qed

lemma Multiply_NTT_correct_witness:
  "NTT_inv (Multiply_NTT (NTT (replicate 256 1) GenZeta) (NTT (replicate 256 2) GenZeta) (replicate 256 0) GenZeta) GenZeta =
    map (\<lambda>n. (\<Sum>i<256. replicate 256 1 ! i *
      (if i \<le> n then replicate 256 2 ! (n - i) else - replicate 256 2 ! (256 + n - i))) mod 3329) [0..<256]"
  using Multiply_NTT_correct [of "replicate 256 1" "replicate 256 2" "replicate 256 0"] by (simp add: canonical_def)

end
