(* ===== verification/MLKEM_Encoding.thy ===== *)
theory MLKEM_Encoding
  imports MLKEM_NTT SHA3
begin

text \<open>
  Encoding, compression and sampling in ML-KEM: \<^verbatim>\<open>auxiliary.c\<close> and \<^verbatim>\<open>hash.c\<close> under
  \<^verbatim>\<open>src/KeyEncapsulation/ML-KEM\<close>. A function returns its C result code with the contents of the output
  array; the arrays belong to the caller's workspace and are never null. The rejection sampler, whose
  loop ends only when the extendable-output function has delivered enough candidates, is a partial
  function: \<open>None\<close> stands for not returning.
\<close>

section \<open>The code\<close>

subsection \<open>Hash functions\<close>

definition PRF :: "nat \<Rightarrow> byte list \<Rightarrow> byte \<Rightarrow> int \<times> byte list" where
  "PRF eta seed nonce =
     (if eta \<noteq> 2 \<and> eta \<noteq> 3 then (- 1, [])
      else let input = take 32 seed @ [nonce] in (0, crypto_shake256 (64 * eta) input))"

definition hash_H :: "byte list \<Rightarrow> byte list" where
  "hash_H input = crypto_sha3_256 input"

definition hash_J :: "byte list \<Rightarrow> byte list" where
  "hash_J input = crypto_shake256 32 input"

definition hash_G :: "byte list \<Rightarrow> byte list \<times> byte list" where
  "hash_G input = (let output = crypto_sha3_512 input in (take 32 output, take 32 (drop 32 output)))"

definition XOF_init :: crypto_sha3_context where
  "XOF_init = crypto_shake128_init"

definition XOF_absorb :: "crypto_sha3_context \<Rightarrow> byte list \<Rightarrow> crypto_sha3_context" where
  "XOF_absorb context input = crypto_sha3_update context input"

definition XOF_squeeze :: "crypto_sha3_context \<Rightarrow> nat \<Rightarrow> int \<times> byte list \<times> crypto_sha3_context" where
  "XOF_squeeze context output_length = (0, crypto_sha3_squeeze context output_length)"

subsection \<open>Bytes and coefficients\<close>

definition mlkem_bit_at :: "byte list \<Rightarrow> nat \<Rightarrow> u32" where
  "mlkem_bit_at input bit_index = drop_bit (bit_index mod 8) (ucast (input ! (bit_index div 8))) AND 1"

definition mlkem_power_of_two :: "nat \<Rightarrow> int" where
  "mlkem_power_of_two exponent = sint (push_bit exponent 1 :: u32)"

function encode_flush :: "u32 \<Rightarrow> nat \<Rightarrow> byte list \<Rightarrow> u32 \<times> nat \<times> byte list" where
  "encode_flush bit_buffer buffered_bits output =
     (if 8 \<le> buffered_bits
      then encode_flush (drop_bit 8 bit_buffer) (buffered_bits - 8) (output @ [ucast bit_buffer])
      else (bit_buffer, buffered_bits, output))"
  by pat_completeness auto
termination by (relation "measure (\<lambda>(_, bits, _). bits)") auto

definition encode_coefficient ::
    "nat \<Rightarrow> u32 \<Rightarrow> int \<Rightarrow> u32 \<times> nat \<times> byte list \<Rightarrow> u32 \<times> nat \<times> byte list" where
  "encode_coefficient bit_width mask' a st =
     (let (bit_buffer, buffered_bits, output) = st;
          value = word_of_int a AND mask'
      in encode_flush (bit_buffer OR push_bit buffered_bits value) (buffered_bits + bit_width) output)"

definition ByteEncode :: "int list \<Rightarrow> nat \<Rightarrow> int \<times> byte list" where
  "ByteEncode input bit_width =
     (if bit_width < 1 \<or> 12 < bit_width then (- 1, [])
      else let mask' = push_bit bit_width 1 - 1;
               (_, _, output) = fold (\<lambda>coefficient. encode_coefficient bit_width mask' (input ! coefficient))
                 [0..<MLKEM_N] (0, 0, [])
           in (0, output))"

function decode_fill :: "nat \<Rightarrow> u32 \<Rightarrow> nat \<Rightarrow> byte list \<Rightarrow> u32 \<times> nat \<times> byte list" where
  "decode_fill bit_width bit_buffer buffered_bits input =
     (if buffered_bits < bit_width
      then decode_fill bit_width (bit_buffer OR push_bit buffered_bits (ucast (hd input)))
             (buffered_bits + 8) (drop 1 input)
      else (bit_buffer, buffered_bits, input))"
  by pat_completeness auto
termination by (relation "measure (\<lambda>(width, _, bits, _). width - bits)") auto

definition decode_coefficient ::
    "nat \<Rightarrow> u32 \<Rightarrow> u32 \<Rightarrow> (u32 \<times> nat \<times> byte list) \<times> int list \<Rightarrow> (u32 \<times> nat \<times> byte list) \<times> int list" where
  "decode_coefficient bit_width mask' modulus st =
     (let ((bit_buffer, buffered_bits, input), output) = st;
          (bit_buffer, buffered_bits, input) = decode_fill bit_width bit_buffer buffered_bits input;
          value = bit_buffer AND mask'
      in ((drop_bit bit_width bit_buffer, buffered_bits - bit_width, input), output @ [sint (value mod modulus)]))"

definition ByteDecode :: "byte list \<Rightarrow> nat \<Rightarrow> int \<times> int list" where
  "ByteDecode input bit_width =
     (if bit_width < 1 \<or> 12 < bit_width then (- 1, [])
      else let mask' = push_bit bit_width 1 - 1;
               modulus = (if bit_width = 12 then word_of_int MLKEM_Q
                          else word_of_int (mlkem_power_of_two bit_width))
           in (0, snd (fold (\<lambda>_. decode_coefficient bit_width mask' modulus) [0..<MLKEM_N] ((0, 0, input), []))))"

subsection \<open>Compression\<close>

definition Comp :: "int list \<Rightarrow> nat \<Rightarrow> int \<times> int list" where
  "Comp input bit_width =
     (if bit_width < 1 \<or> 12 < bit_width then (- 1, [])
      else let power = mlkem_power_of_two bit_width
           in (0, map (\<lambda>a. (power * a + MLKEM_Q sdiv 2) sdiv MLKEM_Q smod power) input))"

definition Decomp :: "int list \<Rightarrow> nat \<Rightarrow> int \<times> int list" where
  "Decomp input bit_width =
     (if bit_width < 1 \<or> 12 < bit_width then (- 1, [])
      else let power = mlkem_power_of_two bit_width;
               half_power = mlkem_power_of_two (bit_width - 1)
           in (0, map (\<lambda>a. (MLKEM_Q * a + half_power) sdiv power) input))"

subsection \<open>Sampling\<close>

definition sample_pair :: "byte list \<Rightarrow> nat \<Rightarrow> int list \<Rightarrow> int list" where
  "sample_pair bytes offset output =
     (let first = uint (bytes ! offset) + int MLKEM_N * (uint (bytes ! (offset + 1)) smod 16);
          second = uint (bytes ! (offset + 1)) sdiv 16 + 16 * uint (bytes ! (offset + 2));
          output = (if first < MLKEM_Q then output @ [first] else output)
      in if second < MLKEM_Q \<and> length output < MLKEM_N then output @ [second] else output)"

function sample_block :: "byte list \<Rightarrow> nat \<Rightarrow> int list \<Rightarrow> int list" where
  "sample_block bytes offset output =
     (if offset < 168 \<and> length output < MLKEM_N
      then sample_block bytes (offset + 3) (sample_pair bytes offset output)
      else output)"
  by pat_completeness auto
termination by (relation "measure (\<lambda>(_, offset, _). 168 - offset)") auto

partial_function (option) sample_loop :: "crypto_sha3_context \<Rightarrow> int list \<Rightarrow> (int \<times> int list) option" where
  "sample_loop context output =
     (if length output < MLKEM_N
      then let (rc, bytes, context) = XOF_squeeze context 168
           in if rc \<noteq> 0 then Some (- 1, output) else sample_loop context (sample_block bytes 0 output)
      else Some (0, output))"

definition SampleNTT :: "byte list \<Rightarrow> (int \<times> int list) option" where
  "SampleNTT input = sample_loop (XOF_absorb XOF_init input) []"

definition cbd_count :: "byte list \<Rightarrow> nat \<Rightarrow> nat \<Rightarrow> int" where
  "cbd_count input eta offset = fold (\<lambda>b x. x + sint (mlkem_bit_at input (offset + b))) [0..<eta] 0"

definition SamplePolyCBD :: "byte list \<Rightarrow> nat \<Rightarrow> int \<times> int list" where
  "SamplePolyCBD input input_length =
     (if input_length \<noteq> 128 \<and> input_length \<noteq> 192 then (- 1, [])
      else let eta = input_length div 64
           in (0, map (\<lambda>coefficient.
                    let x = cbd_count input eta (2 * coefficient * eta);
                        y = cbd_count input eta ((2 * coefficient + 1) * eta)
                    in (x - y + MLKEM_Q) smod MLKEM_Q) [0..<MLKEM_N]))"

declare encode_flush.simps [simp del] decode_fill.simps [simp del] sample_block.simps [simp del]

section \<open>Compression\<close>

lemma smod_pos [simp]: "0 \<le> a \<Longrightarrow> 0 < b \<Longrightarrow> a smod b = a mod (b :: int)"
  by (simp add: signed_modulo_int_def sgn_if)

lemma sdiv_pos [simp]: "0 \<le> a \<Longrightarrow> 0 < b \<Longrightarrow> a sdiv b = a div (b :: int)"
  by (simp add: signed_divide_int_def sgn_if)

lemma mlkem_power_of_two [simp]:
  assumes "d \<le> 12"
  shows "mlkem_power_of_two d = 2 ^ d"
proof -
  have le: "(2 :: nat) ^ d \<le> 4096" using power_increasing [OF assms, of "2 :: nat"] by simp
  then have "unat (push_bit d 1 :: u32) = 2 ^ d" unfolding unat_push_bit by simp
  then have u: "uint (push_bit d 1 :: u32) = 2 ^ d" by (simp add: uint_nat)
  have "(2 :: int) ^ d \<le> 4096" using power_increasing [OF assms, of "2 :: int"] by simp
  then have "sint (push_bit d 1 :: u32) = uint (push_bit d 1 :: u32)" by (intro sint_small) (simp only: u)
  then show ?thesis unfolding mlkem_power_of_two_def u .
qed

definition comp :: "nat \<Rightarrow> int \<Rightarrow> int" where
  "comp d a = (2 ^ d * a + 1664) div 3329 mod 2 ^ d"

definition decomp :: "nat \<Rightarrow> int \<Rightarrow> int" where
  "decomp d a = (3329 * a + 2 ^ (d - 1)) div 2 ^ d"

lemma Comp_eq:
  assumes "1 \<le> d" "d \<le> 12" "\<forall>a\<in>set f. 0 \<le> a"
  shows "Comp f d = (0, map (comp d) f)"
proof -
  have "(2 ^ d * a + 1664) sdiv 3329 smod 2 ^ d = comp d a" if "0 \<le> a" for a :: int
    using that by (simp add: comp_def pos_imp_zdiv_nonneg_iff)
  then show ?thesis using assms by (auto simp: Comp_def Let_def)
qed

lemma Decomp_eq:
  assumes "1 \<le> d" "d \<le> 12" "\<forall>a\<in>set f. 0 \<le> a"
  shows "Decomp f d = (0, map (decomp d) f)"
  using assms by (auto simp: Decomp_def decomp_def)

lemma comp_range: "0 \<le> comp d a \<and> comp d a < 2 ^ d"
  by (simp add: comp_def)

text \<open>
  Compression loses at most half a step: \<open>decomp d (comp d a)\<close> differs from \<open>a\<close> modulo 3329 by
  at most \<open>3329 / 2 ^ (d + 1)\<close>, rounded to the nearest integer.
\<close>

definition compression_bound :: "nat \<Rightarrow> int" where
  "compression_bound d = (3329 + 2 ^ d) div 2 ^ (d + 1)"

definition centered :: "int \<Rightarrow> int" where
  "centered a = (a + 1664) mod 3329 - 1664"

lemma centered_eq:
  assumes "- 1664 \<le> x" "x \<le> 1664" "a mod 3329 = x mod 3329"
  shows "centered a = x"
proof -
  have "(a + 1664) mod 3329 = (x + 1664) mod 3329" using assms(3) by (rule mod_add_cong) simp
  also have "\<dots> = x + 1664" using assms(1,2) by simp
  finally show ?thesis by (simp add: centered_def)
qed

lemma decomp_comp:
  assumes "1 \<le> d" "d \<le> 11" "canonical a"
  shows "\<bar>centered (decomp d (comp d a) - a)\<bar> \<le> compression_bound d"
proof -
  define h where "h = (2 :: int) ^ (d - 1)"
  define y where "y = (2 ^ d * a + 1664) div 3329"
  define e where "e = 2 ^ d * a - 3329 * y"
  define B where "B = compression_bound d"
  have P: "(2 :: int) ^ d = 2 * h" "0 < h" "h \<le> 1024"
    using assms(1,2) power_increasing [of "d - 1" 10 "2 :: int"]
    by (simp_all add: h_def flip: power_Suc)
  have e: "- 1664 \<le> e" "e \<le> 1664"
    using div_mult_mod_eq [of "2 ^ d * a + 1664" 3329] pos_mod_bound [of 3329 "2 ^ d * a + 1664"]
      pos_mod_sign [of 3329 "2 ^ d * a + 1664"] unfolding e_def y_def by linarith+
  have B: "1664 + h < 2 * h * (B + 1)" "0 \<le> B" "B \<le> 833"
  proof -
    have "B = (3329 + 2 * h) div (4 * h)" unfolding B_def compression_bound_def by (simp add: P)
    then have "0 \<le> B" "B * (4 * h) + (3329 + 2 * h) mod (4 * h) = 3329 + 2 * h"
      using P(2) div_mult_mod_eq [of "3329 + 2 * h" "4 * h"] by (simp_all add: pos_imp_zdiv_nonneg_iff)
    then have "3329 + 2 * h < B * (4 * h) + 4 * h" "0 \<le> B" "B * (4 * h) \<le> 3329 + 2 * h"
      using P(2) pos_mod_bound [of "4 * h" "3329 + 2 * h"] pos_mod_sign [of "4 * h" "3329 + 2 * h"] by linarith+
    then have "3329 + 2 * h < 4 * h * (B + 1)" "0 \<le> B" "4 * h * B \<le> 3329 + 2 * h"
      by (simp_all add: algebra_simps)
    moreover have "4 * h * B \<le> 3329 + 2 * h \<Longrightarrow> B \<le> 833"
    proof -
      assume b: "4 * h * B \<le> 3329 + 2 * h"
      have "h * (4 * B - 2) \<le> 3329" using b by (simp add: algebra_simps)
      moreover have "1 * (4 * B - 2) \<le> h * (4 * B - 2)" if "0 \<le> 4 * B - 2"
        using P(2) that by (intro mult_right_mono) simp_all
      ultimately have "4 * B - 2 \<le> 3329" by (cases "0 \<le> 4 * B - 2") (metis mult_1 order_trans, simp)
      then show "B \<le> 833" by simp
    qed
    ultimately show "1664 + h < 2 * h * (B + 1)" "0 \<le> B" "B \<le> 833" by (simp_all add: algebra_simps)
  qed
  have near: "\<bar>centered (z - a)\<bar> \<le> B"
    if "(z - a) mod 3329 = x mod 3329" "2 * h * x \<le> h + 1664" "- (1664 + h) \<le> 2 * h * x" for z x
  proof -
    have "2 * h * x < 2 * h * (B + 1)" using that(2) B(1) by simp
    then have up: "x \<le> B" using P(2) by (simp add: mult_less_cancel_left)
    have "2 * h * (- (B + 1)) < 2 * h * x"
      using that(3) B(1) unfolding mult_minus_right by linarith
    then have down: "- B \<le> x" using P(2) unfolding mult_less_cancel_left by auto
    have "centered (z - a) = x" using up down B(3) that(1) by (intro centered_eq) simp_all
    with up down show ?thesis by simp
  qed
  have dec: "decomp d v = (3329 * v + h) div (2 * h)" for v
    by (simp only: decomp_def h_def [symmetric] P(1))
  have a: "0 \<le> a" "a < 3329" using assms(3) by (simp_all add: canonical_def)
  have y: "0 \<le> y" "y \<le> 2 ^ d"
  proof -
    show "0 \<le> y" using a by (simp add: y_def pos_imp_zdiv_nonneg_iff)
    have "2 ^ d * a \<le> 2 ^ d * (3328 :: int)" using a by (intro mult_left_mono) simp_all
    then have "3329 * y \<le> 2 ^ d * 3328 + 1664" using e(1) unfolding e_def by linarith
    moreover have "(0 :: int) < 2 ^ d" by simp
    ultimately show "y \<le> 2 ^ d" by linarith
  qed
  show ?thesis
  proof (cases "y = 2 ^ d")
    case True
    then have "comp d a = 0" by (simp add: comp_def y_def [symmetric])
    then have z: "decomp d (comp d a) = 0" using P by (simp add: dec)
    have "2 * h * (3329 - a) = - e" using True by (simp add: e_def P algebra_simps)
    then show ?thesis
      unfolding B_def [symmetric] z using e P(2) by (intro near [where x = "3329 - a"]) simp_all
  next
    case False
    then have c: "comp d a = y" using y by (simp add: comp_def y_def [symmetric])
    define z where "z = (3329 * y + h) div (2 * h)"
    have z: "2 * h * z \<le> 3329 * y + h" "3329 * y + h < 2 * h * z + 2 * h"
      using P(2) mult_div_mod_eq [of "2 * h" "3329 * y + h"] pos_mod_bound [of "2 * h" "3329 * y + h"]
        pos_mod_sign [of "2 * h" "3329 * y + h"] unfolding z_def [symmetric] by linarith+
    have "2 * h * (z - a) = 2 * h * z - (3329 * y + e)" by (simp add: e_def P algebra_simps)
    then have "2 * h * (z - a) \<le> h + 1664" "- (1664 + h) \<le> 2 * h * (z - a)" using z e by linarith+
    then have "\<bar>centered (z - a)\<bar> \<le> B" by (intro near [where x = "z - a"]) simp_all
    then show ?thesis unfolding c B_def by (simp add: dec z_def)
  qed
qed

section \<open>Bit packing\<close>

definition packed :: "nat \<Rightarrow> (nat \<Rightarrow> nat) \<Rightarrow> nat \<Rightarrow> nat" where
  "packed d F n = (\<Sum>i<n. F i * 2 ^ (d * i))"

lemma packed_Suc: "packed d F (Suc n) = packed d F n + F n * 2 ^ (d * n)"
  by (simp add: packed_def)

lemma packed_less:
  assumes "\<forall>i<n. F i < 2 ^ d"
  shows "packed d F n < 2 ^ (d * n)"
  using assms
proof (induction n)
  case (Suc n)
  then have "packed d F n < 2 ^ (d * n)" "F n < 2 ^ d" by simp_all
  then have "packed d F n < 2 ^ (d * n)" "F n + 1 \<le> 2 ^ d" by simp_all
  then have "packed d F (Suc n) < (F n + 1) * 2 ^ (d * n)" by (simp add: packed_Suc)
  also have "\<dots> \<le> 2 ^ d * 2 ^ (d * n)" using \<open>F n + 1 \<le> 2 ^ d\<close> by (rule mult_le_mono1)
  finally show ?case by (simp add: power_add)
qed (simp add: packed_def)

lemma packed_digit:
  assumes "\<forall>i<n. F i < 2 ^ d" "k < n"
  shows "packed d F n div 2 ^ (d * k) mod 2 ^ d = F k"
  using assms
proof (induction n)
  case (Suc n)
  have low: "packed d F n < 2 ^ (d * n)" using Suc.prems by (intro packed_less) simp
  show ?case
  proof (cases "k = n")
    case True
    then show ?thesis using low Suc.prems by (simp add: packed_Suc)
  next
    case False
    then have k: "k < n" "d * n = d * k + d * (n - k)" using Suc.prems by (simp_all flip: distrib_left)
    then obtain j where j: "n - k = Suc j" by (metis Suc_diff_Suc)
    have "packed d F (Suc n) = packed d F n + (2 ^ d * (F n * 2 ^ (d * j))) * 2 ^ (d * k)"
      unfolding packed_Suc k(2) j by (simp add: power_add mult_ac)
    then show ?thesis using Suc k by simp
  qed
qed simp

lemma packed_digits:
  "packed d (\<lambda>i. N div 2 ^ (d * i) mod 2 ^ d) n = N mod 2 ^ (d * n)"
proof (induction n)
  case (Suc n)
  then show ?case
    using mod_mult2_eq [of N "2 ^ (d * n)" "2 ^ d"] by (simp add: packed_Suc power_add mult_ac)
qed (simp add: packed_def)

lemma pow256: "(2 :: nat) ^ (8 * n) = 256 ^ n"
  by (simp add: power_mult)

lemma encode_mask: "d \<le> 12 \<Longrightarrow> (push_bit d 1 - 1 :: u32) = mask d"
  by (simp add: mask_eq_exp_minus_1)

lemma encode_flush:
  assumes "unat buf < 2 ^ bits" "bits \<le> 20" "encode_flush buf bits out = (buf', bits', out')"
  shows "bits' + 8 * length out' = bits + 8 * length out \<and> bits' < 8 \<and> unat buf' < 2 ^ bits' \<and>
    nat_of_le out' + 2 ^ (8 * length out') * unat buf' = nat_of_le out + 2 ^ (8 * length out) * unat buf"
  using assms
proof (induction buf bits out rule: encode_flush.induct)
  case (1 buf bits out)
  show ?case
  proof (cases "8 \<le> bits")
    case True
    then have "(2 :: nat) ^ bits = 2 ^ (bits - 8) * 2 ^ 8" unfolding power_add [symmetric] by simp
    then have "unat (drop_bit 8 buf) < 2 ^ (bits - 8)"
      using "1.prems"(1) by (simp add: unat_drop_bit less_mult_imp_div_less)
    moreover have "encode_flush (drop_bit 8 buf) (bits - 8) (out @ [ucast buf]) = (buf', bits', out')"
      using "1.prems"(3) True by (simp add: encode_flush.simps [of buf])
    ultimately have ih: "bits' + 8 * length out' = bits - 8 + 8 * length (out @ [ucast buf :: byte]) \<and> bits' < 8 \<and>
        unat buf' < 2 ^ bits' \<and> nat_of_le out' + 2 ^ (8 * length out') * unat buf' =
        nat_of_le (out @ [ucast buf]) + 2 ^ (8 * length (out @ [ucast buf :: byte])) * unat (drop_bit 8 buf)"
      using "1.IH" True "1.prems"(2) by simp
    have "256 ^ length out * (unat buf mod 256) + 256 ^ length out * (256 * (unat buf div 256)) =
        256 ^ length out * unat buf" by (simp only: distrib_left [symmetric] mod_mult_div_eq)
    then have "nat_of_le (out @ [ucast buf]) + 2 ^ (8 * length (out @ [ucast buf :: byte])) * unat (drop_bit 8 buf) =
        nat_of_le out + 2 ^ (8 * length out) * unat buf"
      unfolding pow256 by (simp add: nat_of_le_append unat_drop_bit unat_ucast mult_ac)
    then show ?thesis using ih True by simp
  next
    case False
    then show ?thesis using "1.prems" by (simp add: encode_flush.simps [of buf])
  qed
qed

definition encoded :: "nat \<Rightarrow> (nat \<Rightarrow> nat) \<Rightarrow> nat \<Rightarrow> u32 \<times> nat \<times> byte list \<Rightarrow> bool" where
  "encoded d F n st \<longleftrightarrow> (case st of (buf, bits, out) \<Rightarrow>
     bits + 8 * length out = d * n \<and> bits < 8 \<and> unat buf < 2 ^ bits \<and>
     nat_of_le out + 2 ^ (8 * length out) * unat buf = packed d F n)"

lemma encode_coefficient:
  assumes "encoded d F n st" "1 \<le> d" "d \<le> 12" "F n = nat (a mod 2 ^ d)"
  shows "encoded d F (Suc n) (encode_coefficient d (push_bit d 1 - 1) a st)"
proof -
  obtain buf bits out where st: "st = (buf, bits, out)" by (cases st)
  let ?v = "word_of_int a AND (push_bit d 1 - 1) :: u32"
  obtain buf' bits' out' where fl: "encode_flush (buf OR push_bit bits ?v) (bits + d) out = (buf', bits', out')"
    by (cases "encode_flush (buf OR push_bit bits ?v) (bits + d) out")
  note inv = assms(1) [unfolded st encoded_def prod.case]
  have "?v = take_bit d (word_of_int a)" by (simp only: encode_mask [OF assms(3)] take_bit_eq_mask)
  also have "uint \<dots> = take_bit d (take_bit 32 a)"
    by (simp add: unsigned_take_bit_eq unsigned_of_int take_bit_word_beyond_length_eq)
  finally have "uint ?v = a mod 2 ^ 32 mod 2 ^ d" by (simp add: take_bit_eq_mod)
  also have "\<dots> = a mod 2 ^ d" using assms(3) by (intro mod_mod_cancel le_imp_power_dvd) simp
  finally have "uint ?v = a mod 2 ^ d" .
  then have v: "unat ?v = F n" using assms(4) by (metis nat_uint_eq)
  have F: "F n < 2 ^ d" using assms(4) by (simp add: nat_less_iff)
  have small: "F n * 2 ^ bits < 2 ^ d * 2 ^ bits" using F by simp
  have "(2 :: nat) ^ (d + bits) \<le> 2 ^ 20" using inv assms(3) by (intro power_increasing) simp_all
  then have "(2 :: nat) ^ d * 2 ^ bits \<le> 1048576" by (simp add: power_add)
  with small have "F n * 2 ^ bits < 4294967296" by linarith
  then have "unat (buf OR push_bit bits ?v) = unat buf + F n * 2 ^ bits"
    using inv v by (subst unat_join) simp_all
  moreover have "unat buf + F n * 2 ^ bits < 2 ^ (bits + d)"
  proof -
    have "(F n + 1) * 2 ^ bits \<le> 2 ^ d * 2 ^ bits" using F by (intro mult_le_mono1) simp
    then show ?thesis using inv by (simp add: power_add mult.commute)
  qed
  ultimately have "bits' + 8 * length out' = bits + d + 8 * length out \<and> bits' < 8 \<and> unat buf' < 2 ^ bits' \<and>
    nat_of_le out' + 2 ^ (8 * length out') * unat buf' =
    nat_of_le out + 2 ^ (8 * length out) * (unat buf + F n * 2 ^ bits)"
    using encode_flush [OF _ _ fl] inv assms(3) by simp
  moreover have "2 ^ (8 * length out) * (F n * 2 ^ bits) = F n * 2 ^ (d * n)"
    using inv by (simp flip: power_add add: mult.left_commute add.commute)
  moreover have "encode_coefficient d (push_bit d 1 - 1) a st = (buf', bits', out')"
    unfolding st encode_coefficient_def using fl by (simp only: prod.case Let_def)
  ultimately show ?thesis
    using inv by (simp add: encoded_def packed_Suc distrib_left)
qed

lemma ByteEncode_eq:
  assumes "1 \<le> d" "d \<le> 12"
  shows "ByteEncode f d = (0, le_of_nat (32 * d) (packed d (\<lambda>i. nat (f ! i mod 2 ^ d)) 256))"
proof -
  let ?F = "\<lambda>i. nat (f ! i mod 2 ^ d)"
  let ?run = "\<lambda>n. fold (\<lambda>i. encode_coefficient d (push_bit d 1 - 1) (f ! i)) [0..<n] (0, 0, [])"
  have "encoded d ?F n (?run n)" for n
  proof (induction n)
    case (Suc n)
    from encode_coefficient [OF Suc assms refl] show ?case by simp
  qed (simp add: encoded_def packed_def)
  then obtain buf bits out where run: "?run 256 = (buf, bits, out)" and inv: "encoded d ?F 256 (buf, bits, out)"
    by (metis prod_cases3)
  have bits: "bits + 8 * length out = d * 256" "bits < 8" using inv by (simp_all add: encoded_def)
  then have "bits = (d * 256) mod 8" by (metis mod_less mod_mult_self2)
  then have "bits = 0" by simp
  then have "length out = 32 * d" "nat_of_le out = packed d ?F 256" using inv by (auto simp: encoded_def)
  then have "out = le_of_nat (32 * d) (packed d ?F 256)" using le_of_nat_of_le by metis
  then show ?thesis using assms run by (simp add: ByteEncode_def)
qed

lemma decode_fill:
  assumes "unat buf < 2 ^ bits" "bits < d + 8" "d \<le> 12" "d \<le> 8 * length input + bits"
    "decode_fill d buf bits input = (buf', bits', input')"
  shows "8 * length input' + bits' = 8 * length input + bits \<and> d \<le> bits' \<and> bits' < d + 8 \<and>
    unat buf' < 2 ^ bits' \<and>
    unat buf' + 2 ^ bits' * nat_of_le input' = unat buf + 2 ^ bits * nat_of_le input"
  using assms
proof (induction d buf bits input rule: decode_fill.induct)
  case (1 d buf bits input)
  show ?case
  proof (cases "bits < d")
    case True
    then obtain b rest where input: "input = b # rest" using "1.prems"(4) by (cases input) auto
    have "unat (ucast b :: u32) = unat b" using unat_byte_less [of b] by (simp add: unat_ucast)
    moreover have "unat b * 2 ^ bits < 4294967296"
    proof -
      have "(2 :: nat) ^ bits \<le> 2 ^ 12" using True "1.prems"(3) by (intro power_increasing) simp_all
      then have "unat b * 2 ^ bits \<le> 256 * 2 ^ 12" using unat_byte_less [of b] by (intro mult_le_mono) simp_all
      then show ?thesis by simp
    qed
    ultimately have buf: "unat (buf OR push_bit bits (ucast b)) = unat buf + unat b * 2 ^ bits"
      using "1.prems"(1,3) True by (subst unat_join) simp_all
    have "(unat b + 1) * 2 ^ bits \<le> 256 * 2 ^ bits" using unat_byte_less [of b] by (intro mult_le_mono1) simp
    then have "unat b * 2 ^ bits + 2 ^ bits \<le> 2 ^ (bits + 8)"
      unfolding distrib_right power_add by (simp only: mult_1) (simp add: mult.commute)
    then have "unat (buf OR push_bit bits (ucast b)) < 2 ^ (bits + 8)"
      unfolding buf using "1.prems"(1) by linarith
    moreover have "decode_fill d (buf OR push_bit bits (ucast b)) (bits + 8) rest = (buf', bits', input')"
      using "1.prems"(5) True input by (simp add: decode_fill.simps [of d buf])
    ultimately have "8 * length input' + bits' = 8 * length rest + (bits + 8) \<and> d \<le> bits' \<and> bits' < d + 8 \<and>
        unat buf' < 2 ^ bits' \<and> unat buf' + 2 ^ bits' * nat_of_le input' =
        unat buf + unat b * 2 ^ bits + 2 ^ (bits + 8) * nat_of_le rest"
      using "1.IH" True "1.prems"(3,4) input buf by simp
    then show ?thesis by (simp add: input power_add algebra_simps)
  next
    case False
    then show ?thesis using "1.prems" by (simp add: decode_fill.simps [of d buf])
  qed
qed

definition decoded :: "nat \<Rightarrow> nat \<Rightarrow> nat \<Rightarrow> nat \<Rightarrow> nat \<Rightarrow> (u32 \<times> nat \<times> byte list) \<times> int list \<Rightarrow> bool" where
  "decoded d m L N n st \<longleftrightarrow> (case st of ((buf, bits, input), out) \<Rightarrow>
     8 * length input + bits + d * n = 8 * L \<and> bits < 8 \<and> unat buf < 2 ^ bits \<and>
     unat buf + 2 ^ bits * nat_of_le input = N div 2 ^ (d * n) \<and>
     out = map (\<lambda>i. int (N div 2 ^ (d * i) mod 2 ^ d mod m)) [0..<n])"

lemma decode_coefficient:
  assumes "decoded d m L N n st" "1 \<le> d" "d \<le> 12" "d * Suc n \<le> 8 * L" "unat modulus = m" "m \<le> 4096"
  shows "decoded d m L N (Suc n) (decode_coefficient d (push_bit d 1 - 1) modulus st)"
proof -
  obtain buf bits input out where st: "st = ((buf, bits, input), out)" by (metis prod_cases3 prod.exhaust)
  obtain buf' bits' input' where fl: "decode_fill d buf bits input = (buf', bits', input')"
    by (metis prod_cases3)
  note inv = assms(1) [unfolded st decoded_def prod.case]
  let ?X = "N div 2 ^ (d * n)"
  have fill: "8 * length input' + bits' = 8 * length input + bits \<and> d \<le> bits' \<and> bits' < d + 8 \<and>
      unat buf' < 2 ^ bits' \<and> unat buf' + 2 ^ bits' * nat_of_le input' = ?X"
    using decode_fill [OF _ _ assms(3) _ fl] inv assms(4) by simp
  have split: "(2 :: nat) ^ bits' = 2 ^ d * 2 ^ (bits' - d)" using fill by (simp flip: power_add)
  have X: "?X = unat buf' + 2 ^ d * (2 ^ (bits' - d) * nat_of_le input')"
    using fill unfolding split by (simp add: mult.assoc)
  have low: "unat (buf' AND (push_bit d 1 - 1)) = ?X mod 2 ^ d"
    unfolding encode_mask [OF assms(3)] unat_and_mask X by simp
  have "unat ((buf' AND (push_bit d 1 - 1)) mod modulus) = ?X mod 2 ^ d mod m"
    using low assms(5) by (simp add: unat_mod)
  moreover have "?X mod 2 ^ d mod m \<le> 4096"
  proof -
    have "?X mod 2 ^ d mod m \<le> ?X mod 2 ^ d" by simp
    also have "\<dots> < 2 ^ d" by simp
    also have "(2 :: nat) ^ d \<le> 2 ^ 12" using assms(3) by (intro power_increasing) simp_all
    finally show ?thesis by simp
  qed
  ultimately have out: "sint ((buf' AND (push_bit d 1 - 1)) mod modulus) = int (?X mod 2 ^ d mod m)"
    by (subst sint_small) (simp_all add: uint_nat del: push_bit_of_1 flip: of_nat_less_iff)
  have "unat (drop_bit d buf') = unat buf' div 2 ^ d" by (rule unat_drop_bit)
  moreover have "unat buf' div 2 ^ d < 2 ^ (bits' - d)"
    using fill split by (simp add: less_mult_imp_div_less mult.commute)
  moreover have "unat buf' div 2 ^ d + 2 ^ (bits' - d) * nat_of_le input' = N div 2 ^ (d * Suc n)"
  proof -
    have "d * Suc n = d * n + d" by simp
    then have "N div 2 ^ (d * Suc n) = ?X div 2 ^ d" by (simp only: power_add div_mult2_eq)
    also have "\<dots> = unat buf' div 2 ^ d + 2 ^ (bits' - d) * nat_of_le input'" unfolding X by simp
    finally show ?thesis by simp
  qed
  moreover have "bits' - d < 8" using fill by linarith
  ultimately show ?thesis
    using inv fill out by (simp add: st decode_coefficient_def fl decoded_def)
qed

definition modulus_of :: "nat \<Rightarrow> nat" where
  "modulus_of d = (if d = 12 then 3329 else 2 ^ d)"

lemma modulus_of_bounds: "1 \<le> d \<Longrightarrow> d \<le> 12 \<Longrightarrow> 0 < modulus_of d \<and> modulus_of d \<le> 2 ^ d \<and> modulus_of d \<le> 4096"
  using power_increasing [of d 12 "2 :: nat"] by (simp add: modulus_of_def)

lemma ByteDecode_eq:
  assumes "1 \<le> d" "d \<le> 12" "32 * d \<le> length input"
  shows "ByteDecode input d =
    (0, map (\<lambda>i. int (nat_of_le input div 2 ^ (d * i) mod 2 ^ d mod modulus_of d)) [0..<256])"
proof -
  let ?m = "if d = 12 then word_of_int MLKEM_Q else word_of_int (mlkem_power_of_two d) :: u32"
  have m: "unat ?m = modulus_of d"
  proof (cases "d = 12")
    case False
    have "(2 :: nat) ^ d < 2 ^ 32" using assms(2) by (intro power_strict_increasing) simp_all
    moreover have "unat (of_nat k :: u32) = k" if "k < 2 ^ 32" for k :: nat using that by (simp add: unat_of_nat)
    ultimately have "unat (of_nat (2 ^ d) :: u32) = 2 ^ d" by blast
    then show ?thesis using False assms(2) by (simp add: modulus_of_def)
  qed (simp add: modulus_of_def)
  let ?run = "\<lambda>n. fold (\<lambda>_. decode_coefficient d (push_bit d 1 - 1) ?m) [0..<n] ((0, 0, input), [])"
  have "decoded d (modulus_of d) (length input) (nat_of_le input) n (?run n)" if "n \<le> 256" for n
    using that
  proof (induction n)
    case (Suc n)
    have "d * Suc n \<le> d * 256" using Suc.prems by (intro mult_le_mono2) simp
    then have "d * Suc n \<le> 8 * length input" using assms(3) by linarith
    from decode_coefficient [OF _ assms(1,2) this m] show ?case
      using Suc modulus_of_bounds [OF assms(1,2)] by simp
  qed (simp add: decoded_def)
  from this [of 256] have "snd (?run 256) =
      map (\<lambda>i. int (nat_of_le input div 2 ^ (d * i) mod 2 ^ d mod modulus_of d)) [0..<256]"
    by (cases "?run 256") (auto simp only: decoded_def prod.case snd_conv order_refl)
  then show ?thesis using assms(1,2) by (simp add: ByteDecode_def Let_def)
qed

lemma ByteDecode_length: "1 \<le> d \<Longrightarrow> d \<le> 12 \<Longrightarrow> 32 * d \<le> length input \<Longrightarrow>
    fst (ByteDecode input d) = 0 \<and> length (snd (ByteDecode input d)) = 256"
  by (simp add: ByteDecode_eq)

lemma decode_encode:
  assumes "1 \<le> d" "d \<le> 12" "length f = 256" "\<forall>a\<in>set f. 0 \<le> a \<and> a < int (modulus_of d)"
  shows "ByteDecode (snd (ByteEncode f d) @ rest) d = (0, f)"
proof -
  let ?F = "\<lambda>i. nat (f ! i mod 2 ^ d)"
  have F: "\<forall>i<256. ?F i < 2 ^ d" by (simp add: nat_less_iff)
  have "packed d ?F 256 < 2 ^ (d * 256)" by (rule packed_less [OF F])
  moreover have "(256 :: nat) ^ (32 * d) = 2 ^ (d * 256)" unfolding pow256 [symmetric] by (simp add: mult_ac)
  moreover have "nat_of_le (snd (ByteEncode f d)) = packed d ?F 256 mod 256 ^ (32 * d)"
    unfolding ByteEncode_eq [OF assms(1,2)] by simp
  ultimately have enc: "nat_of_le (snd (ByteEncode f d)) = packed d ?F 256" by (simp only: mod_less)
  have len: "length (snd (ByteEncode f d)) = 32 * d" unfolding ByteEncode_eq [OF assms(1,2)] by simp
  have N: "nat_of_le (snd (ByteEncode f d) @ rest) = packed d ?F 256 + 2 ^ (d * 256) * nat_of_le rest"
    unfolding nat_of_le_append enc len pow256 [symmetric] by (simp add: mult_ac)
  have "int ((packed d ?F 256 + 2 ^ (d * 256) * nat_of_le rest) div 2 ^ (d * i) mod 2 ^ d mod modulus_of d) = f ! i"
    if i: "i < 256" for i
  proof -
    have "f ! i \<in> set f" using assms(3) i by simp
    with assms(4) have f: "0 \<le> f ! i" "f ! i < int (modulus_of d)" by simp_all
    then have "f ! i < 2 ^ d" using modulus_of_bounds [OF assms(1,2)]
      by (metis of_nat_le_iff of_nat_numeral of_nat_power order_less_le_trans)
    then have Fi: "?F i = nat (f ! i)" using f by simp
    obtain j where j: "256 - i = Suc j" using i by (metis Suc_diff_Suc)
    have "d * 256 = d * i + (d + d * j)" unfolding mult_Suc_right [symmetric] j [symmetric] using i by (simp flip: distrib_left)
    then have e: "2 ^ (d * 256) * nat_of_le rest = (2 ^ d * (2 ^ (d * j) * nat_of_le rest)) * 2 ^ (d * i)"
      by (simp only: power_add mult_ac)
    have "(packed d ?F 256 + 2 ^ (d * 256) * nat_of_le rest) div 2 ^ (d * i) mod 2 ^ d =
        packed d ?F 256 div 2 ^ (d * i) mod 2 ^ d"
      unfolding e by simp
    also have "\<dots> = nat (f ! i)" using packed_digit [OF F i] Fi by simp
    finally show ?thesis using f by (simp add: nat_less_iff)
  qed
  then show ?thesis
    unfolding ByteDecode_eq [OF assms(1,2), of "snd (ByteEncode f d) @ rest", unfolded length_append len, OF le_add1] N
    using assms(3) by (auto intro!: nth_equalityI)
qed

lemma encode_decode:
  assumes "1 \<le> d" "d \<le> 12" "length input = 32 * d"
    "\<forall>i<256. nat_of_le input div 2 ^ (d * i) mod 2 ^ d < modulus_of d"
  shows "ByteEncode (snd (ByteDecode input d)) d = (0, input)"
proof -
  have dec: "snd (ByteDecode input d) = map (\<lambda>i. int (nat_of_le input div 2 ^ (d * i) mod 2 ^ d)) [0..<256]"
    using ByteDecode_eq [OF assms(1,2), of input] assms(3,4) by (auto intro!: map_cong)
  have "packed d (\<lambda>i. nat (snd (ByteDecode input d) ! i mod 2 ^ d)) 256 =
      packed d (\<lambda>i. nat_of_le input div 2 ^ (d * i) mod 2 ^ d) 256"
    unfolding packed_def dec by (intro sum.cong refl) (simp add: nat_mod_distrib nat_power_eq)
  also have "\<dots> = nat_of_le input mod 2 ^ (d * 256)" by (rule packed_digits)
  also have "\<dots> = nat_of_le input"
  proof -
    have "2 ^ (d * 256) = (256 :: nat) ^ length input" unfolding assms(3) pow256 [symmetric] by (simp add: mult_ac)
    then show ?thesis using nat_of_le_bound [of input] by simp
  qed
  finally show ?thesis using assms(1-3) by (simp add: ByteEncode_eq)
qed

text \<open>
  C15. Encoding and decoding of polynomials are inverse for every width: decoding the encoding of
  coefficients in range (whatever bytes follow) returns them, and encoding a decoded string of
  \<open>32 d\<close> bytes returns the string whenever each of its \<open>d\<close>-bit digits is below the modulus
  (always when \<open>d < 12\<close>).
\<close>

theorem mlkem_bytes_roundtrip:
  assumes "1 \<le> d" "d \<le> 12" "length f = 256" "\<forall>a\<in>set f. 0 \<le> a \<and> a < int (modulus_of d)"
    "length input = 32 * d" "\<forall>i<256. nat_of_le input div 2 ^ (d * i) mod 2 ^ d < modulus_of d"
  shows "length (snd (ByteEncode f d)) = 32 * d \<and> ByteDecode (snd (ByteEncode f d) @ rest) d = (0, f) \<and>
    ByteEncode (snd (ByteDecode input d)) d = (0, input)"
  using decode_encode [OF assms(1-4)] encode_decode [OF assms(1,2,5,6)] ByteEncode_eq [OF assms(1,2)] by simp

lemma mlkem_bytes_roundtrip_witness:
  "ByteDecode (snd (ByteEncode (replicate 256 (700 :: int)) 10) @ [7]) 10 = (0, replicate 256 700) \<and>
   ByteEncode (snd (ByteDecode (replicate 320 0x2b) 10)) 10 = (0, replicate 320 0x2b)"
  using mlkem_bytes_roundtrip [of 10 "replicate 256 (700 :: int)" "replicate 320 0x2b" "[7]"]
  by (simp add: modulus_of_def)

text \<open>
  Compressing a coefficient to \<open>d\<close> bits and decompressing it changes it by at most half a
  compression step modulo 3329, and the compressed values fit the encoding.
\<close>

theorem mlkem_compression_error:
  assumes "1 \<le> d" "d \<le> 11" "\<forall>a\<in>set f. canonical a" "i < length f"
  shows "let c = snd (Comp f d); g = snd (Decomp c d) in
    0 \<le> c ! i \<and> c ! i < 2 ^ d \<and> length g = length f \<and>
    \<bar>centered (g ! i - f ! i)\<bar> \<le> (3329 + 2 ^ d) div 2 ^ (d + 1)"
proof -
  have "\<forall>a\<in>set f. 0 \<le> a" using assms(3) by (simp add: canonical_def)
  then have c: "snd (Comp f d) = map (comp d) f" using Comp_eq [of d f] assms(1,2) by simp
  have "\<forall>a\<in>set (map (comp d) f). 0 \<le> a" using comp_range by auto
  then have "snd (Decomp (map (comp d) f) d) = map (decomp d) (map (comp d) f)"
    using Decomp_eq [of d "map (comp d) f"] assms(1,2) by simp
  then show ?thesis
    using c comp_range decomp_comp [OF assms(1,2), of "f ! i"] assms(3,4)
    by (simp add: Let_def compression_bound_def)
qed

lemma mlkem_compression_error_witness:
  "let c = snd (Comp [3328] 4); g = snd (Decomp c 4) in
    0 \<le> c ! 0 \<and> c ! 0 < 2 ^ 4 \<and> length g = length [3328 :: int] \<and>
    \<bar>centered (g ! 0 - [3328] ! 0)\<bar> \<le> (3329 + 2 ^ 4) div 2 ^ (4 + 1)"
  by (rule mlkem_compression_error) (simp_all add: canonical_def)

end
