(* ===== verification/MLKEM_Sampling.thy ===== *)
theory MLKEM_Sampling
  imports MLKEM_Encoding
begin

text \<open>
  The two samplers of ML-KEM: the rejection sampler reads the stream of SHAKE128 in groups of
  three bytes, whatever the blocks it is delivered in, and returns its first 256 candidates below
  3329; the centred binomial sampler returns differences of two bit sums.
\<close>

section \<open>Rejection sampling\<close>

fun candidates :: "byte list \<Rightarrow> int list" where
  "candidates (a # b # c # bytes) =
     (let first = uint a + 256 * (uint b mod 16); second = uint b div 16 + 16 * uint c
      in (if first < 3329 then [first] else []) @ (if second < 3329 then [second] else []) @ candidates bytes)"
| "candidates _ = []"

lemma candidates_append:
  "length xs mod 3 = 0 \<Longrightarrow> candidates (xs @ ys) = candidates xs @ candidates ys"
proof (induction xs rule: candidates.induct)
  case (1 a b c bytes)
  then have "length bytes mod 3 = 0" by (simp add: mod_Suc split: if_splits)
  with 1 show ?case by (simp add: Let_def)
qed simp_all

lemma candidates_range: "v \<in> set (candidates bytes) \<Longrightarrow> canonical v"
  by (induction bytes rule: candidates.induct) (auto simp: canonical_def pos_imp_zdiv_nonneg_iff Let_def split: if_splits)

lemma sample_pair_candidates:
  assumes "length out < 256"
  shows "sample_pair (pre @ a # b # c # bytes) (length pre) out = take 256 (out @ candidates [a, b, c])"
proof -
  have "uint b smod 16 = uint b mod 16" "uint b sdiv 16 = uint b div 16" by simp_all
  then show ?thesis using assms by (simp add: sample_pair_def Let_def nth_append)
qed

lemma take_snoc_le: "length xs \<le> n \<Longrightarrow> take n (take n (xs @ ys) @ zs) = take n (xs @ ys @ zs)"
  by (cases "length (xs @ ys) \<le> n") (simp_all add: min_def)

lemma sample_block_candidates:
  assumes "length bytes = 3 * m" "length pre + length bytes = 168" "length out \<le> 256"
  shows "sample_block (pre @ bytes) (length pre) out = take 256 (out @ candidates bytes)"
  using assms
proof (induction m arbitrary: pre bytes out)
  case 0
  then show ?case by (simp add: sample_block.simps)
next
  case (Suc m)
  then obtain a b c rest where bytes: "bytes = a # b # c # rest" "length rest = 3 * m"
    by (auto simp: length_Suc_conv numeral_3_eq_3)
  show ?case
  proof (cases "length out < 256")
    case True
    let ?out = "take 256 (out @ candidates [a, b, c])"
    have "sample_block (pre @ bytes) (length pre) out =
        sample_block ((pre @ [a, b, c]) @ rest) (length (pre @ [a, b, c])) ?out"
      using Suc.prems True sample_pair_candidates [OF True, of pre a b c rest]
      by (subst sample_block.simps) (simp add: bytes numeral_3_eq_3 del: candidates.simps)
    also have "\<dots> = take 256 (?out @ candidates rest)"
      using Suc.prems bytes by (intro Suc.IH) simp_all
    also have "\<dots> = take 256 (out @ candidates bytes)"
      using Suc.prems(3) candidates_append [of "[a, b, c]" rest] take_snoc_le [of out 256 "candidates [a, b, c]" "candidates rest"]
      by (simp add: bytes)
    finally show ?thesis .
  next
    case False
    then have "length out = 256" using Suc.prems by simp
    then show ?thesis by (simp add: sample_block.simps)
  qed
qed

definition stream :: "crypto_sha3_context \<Rightarrow> nat \<Rightarrow> byte list" where
  "stream ctx n = fst (crypto_sha3_squeeze ctx (168 * n))"

lemma length_squeeze: "length (fst (crypto_sha3_squeeze ctx n)) = n"
proof -
  have "length (fst (sha3_squeeze_bytes n ctx)) = n" for ctx
    by (induction n arbitrary: ctx) (simp_all add: case_prod_beta Let_def)
  then show ?thesis by (simp add: crypto_sha3_squeeze_def)
qed

lemma stream_Suc:
  "stream ctx (Suc n) = fst (crypto_sha3_squeeze ctx 168) @ stream (snd (crypto_sha3_squeeze ctx 168)) n"
  using sha3_squeeze_stream [of ctx 168 "168 * n"] by (simp add: stream_def case_prod_beta Let_def)

lemma candidates_stream:
  "candidates (stream ctx (Suc n)) =
    candidates (fst (crypto_sha3_squeeze ctx 168)) @ candidates (stream (snd (crypto_sha3_squeeze ctx 168)) n)"
  unfolding stream_Suc by (rule candidates_append) (simp add: length_squeeze)

lemma sample_loop_step:
  assumes "length out < 256"
  shows "sample_loop ctx out = sample_loop (snd (crypto_sha3_squeeze ctx 168))
    (take 256 (out @ candidates (fst (crypto_sha3_squeeze ctx 168))))"
  using assms sample_block_candidates [of "fst (crypto_sha3_squeeze ctx 168)" 56 "[]" out]
  by (subst sample_loop.simps) (simp add: XOF_squeeze_def length_squeeze case_prod_beta)

lemma sample_loop_done: "length out = 256 \<Longrightarrow> sample_loop ctx out = Some (0, out)"
  by (subst sample_loop.simps) simp

lemma sample_loop_some:
  assumes "length out \<le> 256" "256 \<le> length (out @ candidates (stream ctx n))"
  shows "sample_loop ctx out = Some (0, take 256 (out @ candidates (stream ctx n)))"
  using assms
proof (induction n arbitrary: ctx out)
  case 0
  then show ?case using length_squeeze [of ctx 0] by (simp add: stream_def sample_loop_done)
next
  case (Suc n)
  show ?case
  proof (cases "length out < 256")
    case True
    let ?block = "candidates (fst (crypto_sha3_squeeze ctx 168))"
    let ?more = "snd (crypto_sha3_squeeze ctx 168)"
    have "256 \<le> length (take 256 (out @ ?block) @ candidates (stream ?more n))"
      using Suc.prems(2) by (auto simp: candidates_stream min_def)
    from Suc.IH [OF _ this] show ?thesis
      using Suc.prems(1) take_snoc_le [of out 256 ?block "candidates (stream ?more n)"]
      by (simp add: sample_loop_step [OF True] candidates_stream)
  next
    case False
    then show ?thesis using Suc.prems(1) by (simp add: sample_loop_done)
  qed
qed

lemma sample_loop_returns:
  assumes run: "sample_loop ctx out = Some result"
  shows "length out \<le> 256 \<longrightarrow> (\<exists>n. 256 \<le> length (out @ candidates (stream ctx n)))"
proof (rule sample_loop.raw_induct [OF _ run])
  fix loop ctx out result
  assume ih: "\<And>out ctx result. loop out ctx = Some result \<Longrightarrow>
      length ctx \<le> 256 \<longrightarrow> (\<exists>n. 256 \<le> length (ctx @ candidates (stream out n)))"
    and body: "(if length out < MLKEM_N
      then let (code, bytes, ctx) = XOF_squeeze ctx 168
           in if code \<noteq> 0 then Some (- 1, out) else loop ctx (sample_block bytes 0 out)
      else Some (0, out)) = Some result"
  let ?block = "candidates (fst (crypto_sha3_squeeze ctx 168))"
  let ?more = "snd (crypto_sha3_squeeze ctx 168)"
  show "length out \<le> 256 \<longrightarrow> (\<exists>n. 256 \<le> length (out @ candidates (stream ctx n)))"
  proof
    assume out: "length out \<le> 256"
    show "\<exists>n. 256 \<le> length (out @ candidates (stream ctx n))"
    proof (cases "length out < 256")
      case True
      have "loop ?more (take 256 (out @ ?block)) = Some result"
        using body True sample_block_candidates [of "fst (crypto_sha3_squeeze ctx 168)" 56 "[]" out]
        by (simp add: XOF_squeeze_def length_squeeze case_prod_beta)
      moreover have "length (take 256 (out @ ?block)) \<le> 256" by simp
      ultimately obtain n where
        "256 \<le> length (take 256 (out @ ?block) @ candidates (stream ?more n))" using ih by blast
      then have "256 \<le> length (out @ candidates (stream ctx (Suc n)))"
        by (auto simp: candidates_stream min_def split: if_splits)
      then show ?thesis by blast
    next
      case False
      then have "256 \<le> length (out @ candidates (stream ctx 0))" by simp
      then show ?thesis by blast
    qed
  qed
qed

subsection \<open>The sampler against the sponge\<close>

definition xof_stream :: "byte list \<Rightarrow> nat \<Rightarrow> byte list" where
  "xof_stream input n = fips_sponge 168 0x1f (168 * n) input"

lemma stream_xof: "stream (XOF_absorb XOF_init input) n = xof_stream input n"
  using sha3_squeeze_sponge [OF sha3_update_state_of [OF sha3_state_of_init], of 168 "0x1f" input "168 * n"]
  by (simp add: stream_def xof_stream_def XOF_absorb_def XOF_init_def crypto_shake128_init_def)

definition enough :: "byte list \<Rightarrow> nat \<Rightarrow> bool" where
  "enough input n \<longleftrightarrow> 256 \<le> length (candidates (xof_stream input n))"

lemma SampleNTT_eq:
  "SampleNTT input =
     (if \<exists>n. enough input n
      then Some (0, take 256 (candidates (xof_stream input (LEAST n. enough input n))))
      else None)"
proof (cases "\<exists>n. enough input n")
  case True
  then have "enough input (LEAST n. enough input n)" by (rule LeastI_ex)
  moreover have "SampleNTT input = Some (0, take 256 (candidates (xof_stream input n)))" if "enough input n" for n
    using that sample_loop_some [of "[]" "XOF_absorb XOF_init input" n]
    by (simp add: SampleNTT_def enough_def stream_xof)
  ultimately show ?thesis using True by simp
next
  case False
  then show ?thesis
    using sample_loop_returns [of "XOF_absorb XOF_init input" "[]"]
    by (cases "SampleNTT input") (auto simp: SampleNTT_def enough_def stream_xof)
qed

text \<open>
  C13. The rejection sampler returns exactly when some prefix of the SHAKE128 stream of its seed
  holds 256 candidates below 3329, and then returns the first 256 of them, in the order of the
  stream, each in canonical form: reading whole blocks changes nothing.
\<close>

theorem SampleNTT_correct:
  "SampleNTT input =
     (if \<exists>n. enough input n
      then Some (0, take 256 (candidates (xof_stream input (LEAST n. enough input n))))
      else None)"
  by (rule SampleNTT_eq)

lemma SampleNTT_canonical:
  assumes "SampleNTT input = Some (code, f)"
  shows "code = 0" "length f = 256" "\<forall>a\<in>set f. canonical a"
proof -
  obtain n where n: "enough input n" "code = 0" "f = take 256 (candidates (xof_stream input n))"
    using assms LeastI_ex [of "enough input"] unfolding SampleNTT_eq by (auto split: if_splits)
  then show "code = 0" "length f = 256" by (simp_all add: enough_def)
  show "\<forall>a\<in>set f. canonical a" using n(3) candidates_range by (auto dest: in_set_takeD)
qed

section \<open>The centred binomial sampler\<close>

definition input_bit :: "byte list \<Rightarrow> nat \<Rightarrow> int" where
  "input_bit input i = of_bool (bit (input ! (i div 8)) (i mod 8))"

lemma mlkem_bit_at: "sint (mlkem_bit_at input i) = input_bit input i"
proof -
  have "mlkem_bit_at input i = of_bool (bit (input ! (i div 8)) (i mod 8))"
    by (rule bit_word_eqI)
      (auto simp: mlkem_bit_at_def bit_simps less_imp_le dest: mod_less_divisor [of 8 i, OF zero_less_numeral, THEN order_less_trans])
  then show ?thesis by (simp add: input_bit_def)
qed

lemma cbd_count: "cbd_count input eta offset = (\<Sum>b<eta. input_bit input (offset + b))"
  unfolding cbd_count_def mlkem_bit_at by (induction eta) simp_all

lemma input_bit_range: "0 \<le> input_bit input i \<and> input_bit input i \<le> 1"
  by (simp add: input_bit_def)

lemma bit_sum_range: "0 \<le> (\<Sum>b<n. input_bit input (k + b)) \<and> (\<Sum>b<n. input_bit input (k + b)) \<le> int n"
proof (induction n)
  case (Suc n)
  then show ?case using input_bit_range [of input "k + n"] by simp
qed simp

lemma SamplePolyCBD_nth:
  assumes "eta = 2 \<or> eta = 3"
  shows "fst (SamplePolyCBD input (64 * eta)) = 0" "length (snd (SamplePolyCBD input (64 * eta))) = 256"
    "i < 256 \<Longrightarrow> snd (SamplePolyCBD input (64 * eta)) ! i =
      ((\<Sum>b<eta. input_bit input (2 * i * eta + b)) - (\<Sum>b<eta. input_bit input ((2 * i + 1) * eta + b))) mod 3329"
    "\<bar>(\<Sum>b<eta. input_bit input (2 * i * eta + b)) - (\<Sum>b<eta. input_bit input ((2 * i + 1) * eta + b))\<bar> \<le> int eta"
proof -
  let ?x = "\<Sum>b<eta. input_bit input (2 * i * eta + b)" and ?y = "\<Sum>b<eta. input_bit input ((2 * i + 1) * eta + b)"
  have eta: "64 * eta = 128 \<or> 64 * eta = 192" "64 * eta div 64 = eta" "eta \<le> 3" using assms by auto
  show d: "\<bar>?x - ?y\<bar> \<le> int eta"
    using bit_sum_range [where input = input and n = eta and k = "2 * i * eta"] bit_sum_range [where input = input and n = eta and k = "(2 * i + 1) * eta"]
    unfolding abs_le_iff by linarith
  show "fst (SamplePolyCBD input (64 * eta)) = 0" "length (snd (SamplePolyCBD input (64 * eta))) = 256"
    using eta(1) by (auto simp: SamplePolyCBD_def Let_def)
  assume "i < 256"
  then have "snd (SamplePolyCBD input (64 * eta)) ! i = (?x - ?y + 3329) smod 3329"
    using eta(1,2) by (auto simp: SamplePolyCBD_def Let_def cbd_count)
  also have "\<dots> = (?x - ?y) mod 3329"
  proof -
    have "0 \<le> ?x - ?y + 3329" using d eta(3) by linarith
    then show ?thesis by simp
  qed
  finally show "snd (SamplePolyCBD input (64 * eta)) ! i = (?x - ?y) mod 3329" .
qed

lemma SamplePolyCBD_canonical:
  "eta = 2 \<or> eta = 3 \<Longrightarrow> i < 256 \<Longrightarrow> canonical (snd (SamplePolyCBD input (64 * eta)) ! i)"
  by (simp add: SamplePolyCBD_nth)

text \<open>
  C16. The binomial sampler with \<open>64 eta\<close> bytes returns, for every coefficient, the difference of
  two sums of \<open>eta\<close> input bits in canonical form, so a small one: between \<open>- eta\<close> and \<open>eta\<close>
  modulo 3329.
\<close>

theorem SamplePolyCBD_correct:
  assumes "eta = 2 \<or> eta = 3" "i < 256"
  shows "let (code, f) = SamplePolyCBD input (64 * eta);
      d = (\<Sum>b<eta. input_bit input (2 * i * eta + b)) - (\<Sum>b<eta. input_bit input ((2 * i + 1) * eta + b)) in
    code = 0 \<and> length f = 256 \<and> f ! i = d mod 3329 \<and> \<bar>d\<bar> \<le> int eta \<and> centered (f ! i) = d"
proof -
  let ?d = "(\<Sum>b<eta. input_bit input (2 * i * eta + b)) - (\<Sum>b<eta. input_bit input ((2 * i + 1) * eta + b))"
  note nth = SamplePolyCBD_nth [OF assms(1), where input = input]
  have "int eta \<le> 3" using assms(1) by auto
  with nth(4) [of i] have "- 1664 \<le> ?d" "?d \<le> 1664" unfolding abs_le_iff by linarith+
  then have "centered (?d mod 3329) = ?d" by (rule centered_eq) simp
  then show ?thesis
    using nth(1,2) nth(3) [OF assms(2)] nth(4) [of i] by (simp only: case_prod_beta Let_def simp_thms)
qed

lemma SamplePolyCBD_correct_witness:
  "let (code, f) = SamplePolyCBD (replicate 128 0x35) (64 * 2);
      d = (\<Sum>b<2. input_bit (replicate 128 0x35) (2 * 9 * 2 + b)) - (\<Sum>b<2. input_bit (replicate 128 0x35) ((2 * 9 + 1) * 2 + b)) in
    code = 0 \<and> length f = 256 \<and> f ! 9 = d mod 3329 \<and> \<bar>d\<bar> \<le> int 2 \<and> centered (f ! 9) = d"
  by (rule SamplePolyCBD_correct) simp_all

end
