(* ===== verification/MLKEM_PKE.thy ===== *)
theory MLKEM_PKE
  imports MLKEM_Ring MLKEM_Sampling Alg_Ids
begin

text \<open>
  The public-key encryption scheme inside ML-KEM: \<^verbatim>\<open>K-PKE.c\<close> under \<^verbatim>\<open>src/KeyEncapsulation/ML-KEM\<close>. The
  workspace that each function allocates is the local state of its definition; whether the
  allocation succeeds is an argument. A run may fail to return (the rejection sampler), return
  an error status before anything is written, or return its results.
\<close>

section \<open>The code\<close>

subsection \<open>Parameters and runs\<close>


record mlkem_parameters =
  par_alg :: alg_id
  par_q :: nat
  par_n :: nat
  par_k :: nat
  par_eta1 :: nat
  par_eta2 :: nat
  par_du :: nat
  par_dv :: nat

definition MLKEM_PARAMETER_SETS :: "mlkem_parameters list" where
  "MLKEM_PARAMETER_SETS =
     [\<lparr>par_alg = LIBERAC_ALG_ML_KEM_512, par_q = 3329, par_n = 256, par_k = 2, par_eta1 = 3, par_eta2 = 2,
       par_du = 10, par_dv = 4\<rparr>,
      \<lparr>par_alg = LIBERAC_ALG_ML_KEM_768, par_q = 3329, par_n = 256, par_k = 3, par_eta1 = 2, par_eta2 = 2,
       par_du = 10, par_dv = 4\<rparr>,
      \<lparr>par_alg = LIBERAC_ALG_ML_KEM_1024, par_q = 3329, par_n = 256, par_k = 4, par_eta1 = 2, par_eta2 = 2,
       par_du = 11, par_dv = 5\<rparr>]"

definition mlkem_parameters_valid :: "mlkem_parameters \<Rightarrow> bool" where
  "mlkem_parameters_valid p \<longleftrightarrow>
     2 \<le> par_k p \<and> par_k p \<le> 4 \<and> (par_eta1 p = 2 \<or> par_eta1 p = 3) \<and> par_eta2 p = 2 \<and>
     (par_du p = 10 \<or> par_du p = 11) \<and> (par_dv p = 4 \<or> par_dv p = 5)"

type_synonym 'a run = "(status + 'a) option"

definition and_then :: "'a run \<Rightarrow> ('a \<Rightarrow> 'b run) \<Rightarrow> 'b run" where
  "and_then r f = (case r of None \<Rightarrow> None | Some (Inl e) \<Rightarrow> Some (Inl e) | Some (Inr a) \<Rightarrow> f a)"

definition checked :: "int \<times> 'a \<Rightarrow> 'a run" where
  "checked r = (if fst r \<noteq> 0 then Some (Inl INTERNAL) else Some (Inr (snd r)))"

primrec each :: "('i \<Rightarrow> 'a run) \<Rightarrow> 'i list \<Rightarrow> 'a list run" where
  "each f [] = Some (Inr [])"
| "each f (i # is) = and_then (f i) (\<lambda>a. and_then (each f is) (\<lambda>as. Some (Inr (a # as))))"

subsection \<open>Sampling\<close>

definition sample_entry :: "byte list \<Rightarrow> nat \<Rightarrow> nat \<Rightarrow> int list run" where
  "sample_entry rho i j =
     (case SampleNTT (take 32 rho @ [of_nat j, of_nat i]) of None \<Rightarrow> None | Some r \<Rightarrow> checked r)"

definition sample_matrix :: "nat \<Rightarrow> byte list \<Rightarrow> int list list list run" where
  "sample_matrix k rho = each (\<lambda>i. each (\<lambda>j. sample_entry rho i j) [0..<k]) [0..<k]"

definition sample_small :: "nat \<Rightarrow> byte list \<Rightarrow> nat \<Rightarrow> int list run" where
  "sample_small eta seed nonce =
     and_then (checked (PRF eta seed (of_nat nonce))) (\<lambda>bytes. checked (SamplePolyCBD bytes (64 * eta)))"

definition sample_vector :: "nat \<Rightarrow> nat \<Rightarrow> byte list \<Rightarrow> nat \<Rightarrow> int list list run" where
  "sample_vector k eta seed nonce = each (\<lambda>i. sample_small eta seed (nonce + i)) [0..<k]"

subsection \<open>Arithmetic on vectors\<close>

definition accumulate :: "int list \<Rightarrow> int list \<Rightarrow> int list" where
  "accumulate acc f = map (\<lambda>coefficient. (acc ! coefficient + f ! coefficient) smod MLKEM_Q) [0..<MLKEM_N]"

definition ntt_dot ::
    "(nat \<Rightarrow> int list) \<Rightarrow> (nat \<Rightarrow> int list) \<Rightarrow> nat \<Rightarrow> int list \<times> int list \<Rightarrow> int list \<times> int list" where
  "ntt_dot f g k st =
     fold (\<lambda>j (acc, polynomial).
         let polynomial = Multiply_NTT (f j) (g j) polynomial GenZeta in (accumulate acc polynomial, polynomial))
       [0..<k] st"

definition keygen_public ::
    "nat \<Rightarrow> int list list list \<Rightarrow> int list list \<Rightarrow> int list list \<Rightarrow> int list list" where
  "keygen_public k matrix secret_ntt error_ntt =
     fst (fold (\<lambda>i (public_ntt, polynomial).
         let (acc, polynomial) = ntt_dot (\<lambda>j. matrix ! i ! j) (\<lambda>j. secret_ntt ! j) k (error_ntt ! i, polynomial)
         in (public_ntt @ [acc], polynomial)) [0..<k] ([], replicate MLKEM_N 0))"

definition encode_vector :: "nat \<Rightarrow> int list list \<Rightarrow> byte list run" where
  "encode_vector d fs = and_then (each (\<lambda>f. checked (ByteEncode f d)) fs) (\<lambda>bs. Some (Inr (concat bs)))"

definition decode_vector :: "nat \<Rightarrow> nat \<Rightarrow> byte list \<Rightarrow> int list list run" where
  "decode_vector k d input = each (\<lambda>i. checked (ByteDecode (drop (i * (32 * d)) input) d)) [0..<k]"

subsection \<open>Key generation\<close>

definition K_PKE_KeyGen :: "mlkem_parameters \<Rightarrow> bool \<Rightarrow> byte list \<Rightarrow> (byte list \<times> byte list) run" where
  "K_PKE_KeyGen p allocated seed =
     (if \<not> mlkem_parameters_valid p then Some (Inl INTERNAL)
      else if \<not> allocated then Some (Inl ALLOCATION_FAILED)
      else let k = par_k p;
               (rho, sigma) = hash_G (take 32 seed @ [of_nat k])
           in and_then (sample_matrix k rho) (\<lambda>matrix.
              and_then (sample_vector k (par_eta1 p) sigma 0) (\<lambda>secret.
              and_then (sample_vector k (par_eta1 p) sigma k) (\<lambda>error.
                let secret_ntt = map (\<lambda>f. NTT f GenZeta) secret;
                    error_ntt = map (\<lambda>f. NTT f GenZeta) error;
                    public_ntt = keygen_public k matrix secret_ntt error_ntt
                in and_then (encode_vector 12 public_ntt) (\<lambda>public_key.
                   and_then (encode_vector 12 secret_ntt) (\<lambda>private_key.
                     Some (Inr (public_key @ rho, private_key))))))))"

subsection \<open>Encryption\<close>

definition message_poly :: "byte list \<Rightarrow> (int list \<times> int list) run" where
  "message_poly message =
     and_then (checked (ByteDecode message 1)) (\<lambda>polynomial.
     and_then (checked (Decomp polynomial 1)) (\<lambda>message_polynomial.
       Some (Inr (polynomial, message_polynomial))))"

definition encrypt_vector ::
    "nat \<Rightarrow> int list list list \<Rightarrow> int list list \<Rightarrow> int list list \<Rightarrow> int list list" where
  "encrypt_vector k matrix secret_ntt error =
     fst (fold (\<lambda>i (vec, polynomial).
         let (acc, polynomial) = ntt_dot (\<lambda>j. matrix ! j ! i) (\<lambda>j. secret_ntt ! j) k (replicate MLKEM_N 0, polynomial)
         in (vec @ [accumulate (NTT_inv acc GenZeta) (error ! i)], polynomial)) [0..<k] ([], replicate MLKEM_N 0))"

definition encrypt_scalar ::
    "nat \<Rightarrow> int list list \<Rightarrow> int list list \<Rightarrow> int list \<Rightarrow> int list \<Rightarrow> int list \<Rightarrow> int list" where
  "encrypt_scalar k public_ntt secret_ntt scalar_error message_polynomial polynomial =
     (let (acc, _) = ntt_dot (\<lambda>i. public_ntt ! i) (\<lambda>i. secret_ntt ! i) k (replicate MLKEM_N 0, polynomial);
          scalar = NTT_inv acc GenZeta
      in map (\<lambda>coefficient.
             (scalar ! coefficient + scalar_error ! coefficient + message_polynomial ! coefficient) smod MLKEM_Q)
           [0..<MLKEM_N])"

definition encode_ciphertext :: "nat \<Rightarrow> nat \<Rightarrow> int list list \<Rightarrow> int list \<Rightarrow> byte list run" where
  "encode_ciphertext du dv vec scalar =
     and_then (each (\<lambda>f. and_then (checked (Comp f du)) (\<lambda>polynomial. checked (ByteEncode polynomial du))) vec) (\<lambda>us.
     and_then (and_then (checked (Comp scalar dv)) (\<lambda>polynomial. checked (ByteEncode polynomial dv))) (\<lambda>v.
       Some (Inr (concat us @ v))))"

definition encrypt_core ::
    "mlkem_parameters \<Rightarrow> int list list list \<Rightarrow> int list list \<Rightarrow> int list list \<Rightarrow> int list list \<Rightarrow> int list \<Rightarrow> byte list
     \<Rightarrow> byte list run" where
  "encrypt_core p matrix public_ntt secret error scalar_error message =
     (let k = par_k p;
          secret_ntt = map (\<lambda>f. NTT f GenZeta) secret;
          vec = encrypt_vector k matrix secret_ntt error
      in and_then (message_poly message) (\<lambda>(polynomial, message_polynomial).
           encode_ciphertext (par_du p) (par_dv p) vec
             (encrypt_scalar k public_ntt secret_ntt scalar_error message_polynomial polynomial)))"

definition K_PKE_Enc :: "mlkem_parameters \<Rightarrow> bool \<Rightarrow> byte list \<Rightarrow> byte list \<Rightarrow> byte list \<Rightarrow> byte list run" where
  "K_PKE_Enc p allocated public_key message randomness =
     (if \<not> mlkem_parameters_valid p then Some (Inl INTERNAL)
      else if \<not> allocated then Some (Inl ALLOCATION_FAILED)
      else let k = par_k p; rho = take 32 (drop (k * 384) public_key)
           in and_then (decode_vector k 12 public_key) (\<lambda>public_ntt.
              and_then (sample_matrix k rho) (\<lambda>matrix.
              and_then (sample_vector k (par_eta1 p) randomness 0) (\<lambda>secret.
              and_then (sample_vector k (par_eta2 p) randomness k) (\<lambda>error.
              and_then (sample_small (par_eta2 p) randomness (2 * k)) (\<lambda>scalar_error.
                encrypt_core p matrix public_ntt secret error scalar_error message))))))"

subsection \<open>Decryption\<close>

definition decode_compressed :: "nat \<Rightarrow> byte list \<Rightarrow> int list run" where
  "decode_compressed d input =
     and_then (checked (ByteDecode input d)) (\<lambda>polynomial. checked (Decomp polynomial d))"

definition decrypt_scalar :: "nat \<Rightarrow> int list list \<Rightarrow> int list list \<Rightarrow> int list \<Rightarrow> int list" where
  "decrypt_scalar k private_ntt ciphertext_vector ciphertext_scalar =
     (let ciphertext_vector_ntt = map (\<lambda>f. NTT f GenZeta) ciphertext_vector;
          (acc, _) = ntt_dot (\<lambda>i. private_ntt ! i) (\<lambda>i. ciphertext_vector_ntt ! i) k
            (replicate MLKEM_N 0, replicate MLKEM_N 0);
          polynomial = NTT_inv acc GenZeta
      in map (\<lambda>coefficient.
             (ciphertext_scalar ! coefficient - polynomial ! coefficient + MLKEM_Q) smod MLKEM_Q) [0..<MLKEM_N])"

definition K_PKE_Dec :: "mlkem_parameters \<Rightarrow> bool \<Rightarrow> byte list \<Rightarrow> byte list \<Rightarrow> byte list run" where
  "K_PKE_Dec p allocated private_key ciphertext =
     (if \<not> mlkem_parameters_valid p then Some (Inl INTERNAL)
      else if \<not> allocated then Some (Inl ALLOCATION_FAILED)
      else let k = par_k p; du = par_du p; dv = par_dv p
           in and_then (each (\<lambda>i. decode_compressed du (drop (i * (32 * du)) ciphertext)) [0..<k]) (\<lambda>ciphertext_vector.
              and_then (decode_compressed dv (drop (k * (32 * du)) ciphertext)) (\<lambda>ciphertext_scalar.
              and_then (decode_vector k 12 private_key) (\<lambda>private_ntt.
              and_then (checked (Comp (decrypt_scalar k private_ntt ciphertext_vector ciphertext_scalar) 1)) (\<lambda>polynomial.
                checked (ByteEncode polynomial 1))))))"

end
