(* ===== verification/ML_KEM.thy ===== *)
theory ML_KEM
  imports MLKEM_PKE CTR_DRBG
begin

text \<open>
  The key encapsulation mechanism ML-KEM: \<^verbatim>\<open>ML-KEM.c\<close> and \<^verbatim>\<open>api.c\<close> under
  \<^verbatim>\<open>src/KeyEncapsulation/ML-KEM\<close>, and the entry points of \<^verbatim>\<open>src/KeyEncapsulation.c\<close>. The internal
  functions return the contents of the buffers they fill; the entry points work on the memory,
  with null pointers, capacities and overlaps checked as in the code. The active parameter set is
  an argument, as are the outcomes of the allocations and the source of randomness.
\<close>

section \<open>Randomness\<close>

text \<open>The release build, without the known-answer generator.\<close>

definition crypto_pqc_random_bytes_internal ::
    "('s \<Rightarrow> nat \<Rightarrow> byte list option \<times> 's) \<Rightarrow> 's \<Rightarrow> nat \<Rightarrow> status \<times> byte list \<times> 's" where
  "crypto_pqc_random_bytes_internal os s n = crypto_random_bytes_internal os s False n"

definition RBG :: "('s \<Rightarrow> nat \<Rightarrow> byte list option \<times> 's) \<Rightarrow> 's \<Rightarrow> nat \<Rightarrow> status \<times> byte list \<times> 's" where
  "RBG os s n =
     (let (result, seed, s) = crypto_pqc_random_bytes_internal os s n
      in (result, if result \<noteq> SUCCESS then zeroes n else seed, s))"

section \<open>The internal functions\<close>

definition ML_KEM_KeyGen_internal ::
    "mlkem_parameters \<Rightarrow> bool \<Rightarrow> byte list \<Rightarrow> byte list \<Rightarrow> (status \<times> byte list \<times> byte list) option" where
  "ML_KEM_KeyGen_internal p allocated seed rejection_seed =
     (let k = par_k p
      in case K_PKE_KeyGen p allocated seed of
           None \<Rightarrow> None
         | Some (Inl result) \<Rightarrow> Some (result, zeroes (384 * k + 32), zeroes (768 * k + 96))
         | Some (Inr (public_key, private_key)) \<Rightarrow>
             let embedded = take (384 * k + 32) public_key;
                 public_key_hash = hash_H embedded
             in Some (SUCCESS, public_key,
                  take (384 * k) private_key @ embedded @ public_key_hash @ take 32 rejection_seed))"

definition ML_KEM_Encaps_internal ::
    "mlkem_parameters \<Rightarrow> bool \<Rightarrow> byte list \<Rightarrow> byte list \<Rightarrow> (status \<times> byte list \<times> byte list) option" where
  "ML_KEM_Encaps_internal p allocated public_key message =
     (let k = par_k p;
          hash_input = take 32 message @ hash_H (take (384 * k + 32) public_key);
          (shared_secret, randomness) = hash_G hash_input
      in case K_PKE_Enc p allocated public_key message randomness of
           None \<Rightarrow> None
         | Some (Inl result) \<Rightarrow> Some (result, zeroes 32, zeroes (32 * (par_du p * k + par_dv p)))
         | Some (Inr ciphertext) \<Rightarrow> Some (SUCCESS, shared_secret, ciphertext))"

text \<open>The comparison of the two ciphertexts and the selection of the secret, without branches.\<close>

definition mlkem_mismatch :: "byte list \<Rightarrow> byte list \<Rightarrow> nat \<Rightarrow> u32" where
  "mlkem_mismatch ciphertext expected_ciphertext ciphertext_length =
     (let mismatch = fold (\<lambda>i mismatch. mismatch OR ucast (ciphertext ! i XOR expected_ciphertext ! i))
            [0..<ciphertext_length] 0
      in drop_bit 31 (mismatch OR (0 - mismatch)))"

definition mlkem_select :: "u32 \<Rightarrow> byte list \<Rightarrow> byte list \<Rightarrow> byte list" where
  "mlkem_select mismatch shared_secret rejected_secret =
     (let rejection_mask = ucast (0 - mismatch) :: byte
      in map (\<lambda>i. (shared_secret ! i AND NOT rejection_mask) OR (rejected_secret ! i AND rejection_mask)) [0..<32])"

definition ML_KEM_Decaps_internal ::
    "mlkem_parameters \<Rightarrow> bool \<times> bool \<Rightarrow> byte list \<Rightarrow> byte list \<Rightarrow> (status \<times> byte list) option" where
  "ML_KEM_Decaps_internal p allocated private_key ciphertext =
     (let k = par_k p;
          ciphertext_length = 32 * (par_du p * k + par_dv p);
          pke_private_key = take (384 * k) private_key;
          public_key = take (384 * k + 32) (drop (384 * k) private_key);
          public_key_hash = take 32 (drop (768 * k + 32) private_key);
          rejection_seed = take 32 (drop (768 * k + 64) private_key)
      in case K_PKE_Dec p (fst allocated) pke_private_key ciphertext of
           None \<Rightarrow> None
         | Some (Inl result) \<Rightarrow> Some (result, zeroes 32)
         | Some (Inr message) \<Rightarrow>
             let (shared_secret, randomness) = hash_G (take 32 message @ public_key_hash);
                 rejected_secret = hash_J (rejection_seed @ take ciphertext_length ciphertext)
             in case K_PKE_Enc p (snd allocated) public_key message randomness of
                  None \<Rightarrow> None
                | Some (Inl result) \<Rightarrow> Some (result, zeroes 32)
                | Some (Inr expected_ciphertext) \<Rightarrow>
                    Some (SUCCESS, mlkem_select (mlkem_mismatch ciphertext expected_ciphertext ciphertext_length)
                      shared_secret rejected_secret))"

section \<open>The functions with randomness\<close>

definition ML_KEM_KeyGen ::
    "('s \<Rightarrow> nat \<Rightarrow> byte list option \<times> 's) \<Rightarrow> 's \<Rightarrow> mlkem_parameters \<Rightarrow> bool
     \<Rightarrow> (status \<times> byte list \<times> byte list \<times> 's) option" where
  "ML_KEM_KeyGen os s p allocated =
     (let k = par_k p;
          (result, randomness, s) = RBG os s 64
      in if result \<noteq> SUCCESS then Some (result, zeroes (384 * k + 32), zeroes (768 * k + 96), s)
         else case ML_KEM_KeyGen_internal p allocated (take 32 randomness) (drop 32 randomness) of
                None \<Rightarrow> None
              | Some (result, public_key, private_key) \<Rightarrow>
                  if result \<noteq> SUCCESS then Some (result, zeroes (384 * k + 32), zeroes (768 * k + 96), s)
                  else Some (result, public_key, private_key, s))"

definition ML_KEM_Encaps ::
    "('s \<Rightarrow> nat \<Rightarrow> byte list option \<times> 's) \<Rightarrow> 's \<Rightarrow> mlkem_parameters \<Rightarrow> bool \<Rightarrow> byte list
     \<Rightarrow> (status \<times> byte list \<times> byte list \<times> 's) option" where
  "ML_KEM_Encaps os s p allocated public_key =
     (let ciphertext_length = 32 * (par_du p * par_k p + par_dv p);
          (result, message, s) = RBG os s 32
      in if result \<noteq> SUCCESS then Some (result, zeroes 32, zeroes ciphertext_length, s)
         else case ML_KEM_Encaps_internal p allocated public_key message of
                None \<Rightarrow> None
              | Some (result, shared_secret, ciphertext) \<Rightarrow>
                  if result \<noteq> SUCCESS then Some (result, zeroes 32, zeroes ciphertext_length, s)
                  else Some (result, shared_secret, ciphertext, s))"

definition ML_KEM_Decaps ::
    "mlkem_parameters \<Rightarrow> bool \<times> bool \<Rightarrow> byte list \<Rightarrow> byte list \<Rightarrow> (status \<times> byte list) option" where
  "ML_KEM_Decaps p allocated private_key ciphertext = ML_KEM_Decaps_internal p allocated private_key ciphertext"

section \<open>The checks and the entry points\<close>

definition mlkem_public_key_is_canonical :: "byte list \<Rightarrow> nat \<Rightarrow> bool" where
  "mlkem_public_key_is_canonical public_key public_key_length =
     (let encoded_polynomial_length = public_key_length - 32;
          invalid = fold (\<lambda>n invalid.
            let offset = 3 * n;
                first = ucast (public_key ! offset) OR push_bit 8 (ucast (public_key ! (offset + 1)) AND 15);
                second = drop_bit 4 (ucast (public_key ! (offset + 1))) OR push_bit 4 (ucast (public_key ! (offset + 2)));
                invalid = invalid OR drop_bit 31 (3329 - 1 - first)
            in invalid OR drop_bit 31 (3329 - 1 - second))
          [0..<(encoded_polynomial_length + 2) div 3] (0 :: u32)
      in invalid = 0)"

definition mlkem_private_key_hash_is_valid :: "byte list \<Rightarrow> nat \<Rightarrow> nat \<Rightarrow> bool" where
  "mlkem_private_key_hash_is_valid private_key public_key_length private_key_length =
     (let pke_private_key_length = private_key_length - public_key_length - 64;
          embedded_public_key = take public_key_length (drop pke_private_key_length private_key);
          stored_hash = take 32 (drop (private_key_length - 64) private_key)
      in crypto_constant_time_equal (hash_H embedded_public_key) stored_hash 32)"

definition mlkem_parameters_for :: "alg_id \<Rightarrow> mlkem_parameters option" where
  "mlkem_parameters_for alg = find (\<lambda>p. par_alg p = alg) MLKEM_PARAMETER_SETS"

definition crypto_ml_kem_public_key_size_internal :: "alg_id \<Rightarrow> nat" where
  "crypto_ml_kem_public_key_size_internal alg =
     (if alg = LIBERAC_ALG_ML_KEM_512 then 800 else if alg = LIBERAC_ALG_ML_KEM_768 then 1184
      else if alg = LIBERAC_ALG_ML_KEM_1024 then 1568 else 0)"

definition crypto_ml_kem_private_key_size_internal :: "alg_id \<Rightarrow> nat" where
  "crypto_ml_kem_private_key_size_internal alg =
     (if alg = LIBERAC_ALG_ML_KEM_512 then 1632 else if alg = LIBERAC_ALG_ML_KEM_768 then 2400
      else if alg = LIBERAC_ALG_ML_KEM_1024 then 3168 else 0)"

definition crypto_ml_kem_ciphertext_size_internal :: "alg_id \<Rightarrow> nat" where
  "crypto_ml_kem_ciphertext_size_internal alg =
     (if alg = LIBERAC_ALG_ML_KEM_512 then 768 else if alg = LIBERAC_ALG_ML_KEM_768 then 1088
      else if alg = LIBERAC_ALG_ML_KEM_1024 then 1568 else 0)"

text \<open>
  A run of an entry point ends with a status and a memory. The last lookup never fails: the sizes
  are zero for every identifier without a parameter set.
\<close>

definition crypto_ml_kem_keygen_internal ::
    "('s \<Rightarrow> nat \<Rightarrow> byte list option \<times> 's) \<Rightarrow> 's \<Rightarrow> bool \<Rightarrow> mem \<Rightarrow> alg_id \<Rightarrow> addr \<Rightarrow> nat \<Rightarrow> addr \<Rightarrow> nat
     \<Rightarrow> (status \<times> mem \<times> 's) option" where
  "crypto_ml_kem_keygen_internal os s allocated m alg pk pk_len sk sk_len =
     (let need_pk = crypto_ml_kem_public_key_size_internal alg;
          need_sk = crypto_ml_kem_private_key_size_internal alg
      in if need_pk = 0 \<or> need_sk = 0 then Some (INVALID_ALG_ID, m, s)
         else if pk = 0 \<or> sk = 0 then Some (INVALID_ARGUMENT, m, s)
         else if pk_len < need_pk \<or> sk_len < need_sk then Some (BUFFER_TOO_SMALL, m, s)
         else if crypto_ranges_overlap pk need_pk sk need_sk then Some (INVALID_ARGUMENT, m, s)
         else case mlkem_parameters_for alg of
                None \<Rightarrow> None
              | Some mlkem_active_parameters \<Rightarrow>
                  (case ML_KEM_KeyGen os s mlkem_active_parameters allocated of
                     None \<Rightarrow> None
                   | Some (result, public_key, private_key, s) \<Rightarrow>
                       let m = store (store m pk public_key) sk private_key;
                           m = (if result \<noteq> SUCCESS then crypto_zeroize (crypto_zeroize m pk need_pk) sk need_sk else m)
                       in Some (result, m, s)))"

definition crypto_ml_kem_encaps_internal ::
    "('s \<Rightarrow> nat \<Rightarrow> byte list option \<times> 's) \<Rightarrow> 's \<Rightarrow> bool \<Rightarrow> mem \<Rightarrow> alg_id \<Rightarrow> addr \<Rightarrow> nat \<Rightarrow> addr \<Rightarrow> addr \<Rightarrow> nat
     \<Rightarrow> (status \<times> mem \<times> 's) option" where
  "crypto_ml_kem_encaps_internal os s allocated m alg pk pk_len ss ct ct_len =
     (let need_pk = crypto_ml_kem_public_key_size_internal alg;
          need_ct = crypto_ml_kem_ciphertext_size_internal alg
      in if need_pk = 0 \<or> need_ct = 0 then Some (INVALID_ALG_ID, m, s)
         else if pk = 0 \<or> ss = 0 \<or> ct = 0 then Some (INVALID_ARGUMENT, m, s)
         else if pk_len < need_pk \<or> ct_len < need_ct then Some (BUFFER_TOO_SMALL, m, s)
         else if crypto_ranges_overlap pk need_pk ss 32 \<or> crypto_ranges_overlap pk need_pk ct need_ct \<or>
                 crypto_ranges_overlap ss 32 ct need_ct then Some (INVALID_ARGUMENT, m, s)
         else if \<not> mlkem_public_key_is_canonical (load m pk need_pk) need_pk
         then Some (INVALID_KEY, crypto_zeroize (crypto_zeroize m ss 32) ct need_ct, s)
         else case mlkem_parameters_for alg of
                None \<Rightarrow> None
              | Some mlkem_active_parameters \<Rightarrow>
                  (case ML_KEM_Encaps os s mlkem_active_parameters allocated (load m pk need_pk) of
                     None \<Rightarrow> None
                   | Some (result, shared_secret, ciphertext, s) \<Rightarrow>
                       let m = store (store m ss shared_secret) ct ciphertext;
                           m = (if result \<noteq> SUCCESS then crypto_zeroize (crypto_zeroize m ss 32) ct need_ct else m)
                       in Some (result, m, s)))"

definition crypto_ml_kem_decaps_internal ::
    "bool \<times> bool \<Rightarrow> mem \<Rightarrow> alg_id \<Rightarrow> addr \<Rightarrow> nat \<Rightarrow> addr \<Rightarrow> nat \<Rightarrow> addr \<Rightarrow> (status \<times> mem) option" where
  "crypto_ml_kem_decaps_internal allocated m alg sk sk_len ct ct_len ss =
     (let need_pk = crypto_ml_kem_public_key_size_internal alg;
          need_sk = crypto_ml_kem_private_key_size_internal alg;
          need_ct = crypto_ml_kem_ciphertext_size_internal alg
      in if need_sk = 0 \<or> need_ct = 0 then Some (INVALID_ALG_ID, m)
         else if sk = 0 \<or> ct = 0 \<or> ss = 0 then Some (INVALID_ARGUMENT, m)
         else if sk_len < need_sk \<or> ct_len < need_ct then Some (BUFFER_TOO_SMALL, m)
         else if crypto_ranges_overlap sk need_sk ss 32 \<or> crypto_ranges_overlap ct need_ct ss 32
         then Some (INVALID_ARGUMENT, m)
         else if \<not> mlkem_private_key_hash_is_valid (load m sk need_sk) need_pk need_sk
         then Some (INVALID_KEY, crypto_zeroize m ss 32)
         else case mlkem_parameters_for alg of
                None \<Rightarrow> None
              | Some mlkem_active_parameters \<Rightarrow>
                  (case ML_KEM_Decaps mlkem_active_parameters allocated (load m sk need_sk) (load m ct need_ct) of
                     None \<Rightarrow> None
                   | Some (result, shared_secret) \<Rightarrow>
                       let m = store m ss shared_secret;
                           m = (if result \<noteq> SUCCESS then crypto_zeroize m ss 32 else m)
                       in Some (result, m)))"

definition LIBERAC_ML_KEM_PUBLIC_KEY_SIZE :: "alg_id \<Rightarrow> nat" where
  "LIBERAC_ML_KEM_PUBLIC_KEY_SIZE alg = crypto_ml_kem_public_key_size_internal alg"

definition LIBERAC_ML_KEM_PRIVATE_KEY_SIZE :: "alg_id \<Rightarrow> nat" where
  "LIBERAC_ML_KEM_PRIVATE_KEY_SIZE alg = crypto_ml_kem_private_key_size_internal alg"

definition LIBERAC_ML_KEM_CIPHERTEXT_SIZE :: "alg_id \<Rightarrow> nat" where
  "LIBERAC_ML_KEM_CIPHERTEXT_SIZE alg = crypto_ml_kem_ciphertext_size_internal alg"

definition LIBERAC_ML_KEM_KEYGEN ::
    "('s \<Rightarrow> nat \<Rightarrow> byte list option \<times> 's) \<Rightarrow> 's \<Rightarrow> bool \<Rightarrow> mem \<Rightarrow> addr \<Rightarrow> nat \<Rightarrow> addr \<Rightarrow> nat \<Rightarrow> alg_id
     \<Rightarrow> (status \<times> mem \<times> 's) option" where
  "LIBERAC_ML_KEM_KEYGEN os s allocated m public_key public_key_length private_key private_key_length alg =
     crypto_ml_kem_keygen_internal os s allocated m alg public_key public_key_length private_key private_key_length"

definition LIBERAC_ML_KEM_ENCAPS ::
    "('s \<Rightarrow> nat \<Rightarrow> byte list option \<times> 's) \<Rightarrow> 's \<Rightarrow> bool \<Rightarrow> mem \<Rightarrow> addr \<Rightarrow> nat \<Rightarrow> addr \<Rightarrow> addr \<Rightarrow> nat \<Rightarrow> alg_id
     \<Rightarrow> (status \<times> mem \<times> 's) option" where
  "LIBERAC_ML_KEM_ENCAPS os s allocated m public_key public_key_length shared_secret ciphertext ciphertext_length alg =
     crypto_ml_kem_encaps_internal os s allocated m alg public_key public_key_length shared_secret ciphertext
       ciphertext_length"

definition LIBERAC_ML_KEM_DECAPS ::
    "bool \<times> bool \<Rightarrow> mem \<Rightarrow> addr \<Rightarrow> nat \<Rightarrow> addr \<Rightarrow> nat \<Rightarrow> addr \<Rightarrow> alg_id \<Rightarrow> (status \<times> mem) option" where
  "LIBERAC_ML_KEM_DECAPS allocated m private_key private_key_length ciphertext ciphertext_length shared_secret alg =
     crypto_ml_kem_decaps_internal allocated m alg private_key private_key_length ciphertext ciphertext_length
       shared_secret"

end
