(* ===== verification/MLKEM_PKE_Correct.thy ===== *)
theory MLKEM_PKE_Correct
  imports MLKEM_PKE
begin

text \<open>
  Decryption recovers the message whenever the noise polynomial is small: in the 128 residue
  rings the products with the matrix cancel, what remains is the message scaled to half the modulus
  plus the noise, and rounding removes the noise.
\<close>

section \<open>Runs\<close>

lemma and_then_simps [simp]:
  "and_then None f = None" "and_then (Some (Inl err)) f = Some (Inl err)" "and_then (Some (Inr a)) f = f a"
  by (simp_all add: and_then_def)

lemma checked_ok [simp]: "checked (0, a) = Some (Inr a)"
  by (simp add: checked_def)

lemma each_ok: "(\<And>i. i \<in> set is \<Longrightarrow> f i = Some (Inr (g i))) \<Longrightarrow> each f is = Some (Inr (map g is))"
  by (induction "is") simp_all

lemma each_result:
  "each f is = Some (Inr as) \<Longrightarrow> length as = length is \<and> (\<forall>n<length is. f (is ! n) = Some (Inr (as ! n)))"
proof (induction "is" arbitrary: as)
  case (Cons i "is")
  then obtain a bs where "f i = Some (Inr a)" "each f is = Some (Inr bs)" "as = a # bs"
    by (auto simp: and_then_def split: option.splits sum.splits)
  with Cons.IH show ?case by (auto simp: nth_Cons split: nat.splits)
qed simp

section \<open>Products in the transformed domain\<close>

lemma canonical_accumulate [simp]:
  assumes "canonical_poly acc" "canonical_poly f"
  shows "canonical_poly (accumulate acc f)" "n < 256 \<Longrightarrow> accumulate acc f ! n = (acc ! n + f ! n) mod 3329"
proof -
  have eq: "accumulate acc f ! n = (acc ! n + f ! n) mod 3329" if "n < 256" for n
  proof -
    have "0 \<le> acc ! n" "0 \<le> f ! n" using assms that by (simp_all add: canonical_poly_def canonical_def)
    then show ?thesis using that by (simp add: accumulate_def)
  qed
  then show "n < 256 \<Longrightarrow> accumulate acc f ! n = (acc ! n + f ! n) mod 3329" .
  show "canonical_poly (accumulate acc f)"
    unfolding canonical_poly_def using eq by (simp add: accumulate_def)
qed

lemma slot_accumulate:
  assumes "canonical_poly acc" "canonical_poly f" "b < 128"
  shows "quad_eq (slot (accumulate acc f) b) (slot acc b + slot f b)"
  using canonical_accumulate(2) [OF assms(1,2)] assms(3) by (simp add: quad_eq_def slot_def)

lemma ev_accumulate:
  assumes "canonical_poly acc" "canonical_poly f"
  shows "quad_eq (ev c ((!) (accumulate acc f))) (ev c ((!) acc) + ev c ((!) f))"
  unfolding ev_add [symmetric] using canonical_accumulate(2) [OF assms] by (intro ev_cong) simp

lemma canonical_zero_poly [simp]: "canonical_poly (replicate 256 0)"
  by (simp add: canonical_poly_def canonical_def)

lemma slot_zero [simp]: "b < 128 \<Longrightarrow> slot (replicate 256 0) b = 0"
  by (rule quad_eqI) (simp_all add: slot_def)

definition dot_spec :: "(nat \<Rightarrow> int list) \<Rightarrow> (nat \<Rightarrow> int list) \<Rightarrow> nat \<Rightarrow> int list \<Rightarrow> int list \<Rightarrow> bool" where
  "dot_spec f g k acc r \<longleftrightarrow> canonical_poly r \<and>
     (\<forall>b<128. quad_eq (slot r b) (slot acc b + (\<Sum>j<k. qmul (gamma b) (slot (f j) b) (slot (g j) b))))"

lemma ntt_dot:
  assumes "\<And>j. j < k \<Longrightarrow> canonical_poly (f j)" "\<And>j. j < k \<Longrightarrow> canonical_poly (g j)"
    "canonical_poly acc" "length polynomial = 256"
  shows "dot_spec f g k acc (fst (ntt_dot f g k (acc, polynomial))) \<and>
    length (snd (ntt_dot f g k (acc, polynomial))) = 256"
  using assms(1,2)
proof (induction k)
  case 0
  then show ?case by (simp add: ntt_dot_def dot_spec_def assms)
next
  case (Suc k)
  obtain r q where st: "ntt_dot f g k (acc, polynomial) = (r, q)" by (cases "ntt_dot f g k (acc, polynomial)")
  have ih: "dot_spec f g k acc r" "length q = 256" using Suc st by simp_all
  let ?m = "Multiply_NTT (f k) (g k) q GenZeta"
  have m: "canonical_poly ?m" using Suc.prems ih(2) by simp
  have r: "canonical_poly r" using ih(1) by (simp add: dot_spec_def)
  have step: "ntt_dot f g (Suc k) (acc, polynomial) = (accumulate r ?m, ?m)"
    using st by (simp add: ntt_dot_def Let_def)
  have "quad_eq (slot (accumulate r ?m) b)
      (slot acc b + (\<Sum>j<k. qmul (gamma b) (slot (f j) b) (slot (g j) b)) + qmul (gamma b) (slot (f k) b) (slot (g k) b))"
    if b: "b < 128" for b
  proof -
    have "quad_eq (slot (accumulate r ?m) b) (slot r b + slot ?m b)" by (rule slot_accumulate [OF r m b])
    also have "quad_eq \<dots> (slot acc b + (\<Sum>j<k. qmul (gamma b) (slot (f j) b) (slot (g j) b)) +
        qmul (gamma b) (slot (f k) b) (slot (g k) b))"
      using ih(1) b Suc.prems ih(2) by (intro quad_eq_add quad_eq_Multiply_NTT) (simp_all add: dot_spec_def)
    finally show ?thesis .
  qed
  then show ?case
    unfolding step using r m by (simp add: dot_spec_def canonical_poly_length add.assoc)
qed

lemma ev_NTT_inv:
  assumes "canonical_poly g" "b < 128"
  shows "quad_eq (ev (gamma b) ((!) (NTT_inv g GenZeta))) (slot g b)"
  using slot_NTT [OF canonical_NTT_inv [OF assms(1)] assms(2)] NTT_NTT_inv [OF assms(1)] quad_eq_sym by simp

lemma fold_rows:
  assumes "\<And>i polynomial. i < k \<Longrightarrow> length polynomial = 256 \<Longrightarrow>
      P i (fst (D i polynomial)) \<and> length (snd (D i polynomial)) = (256 :: nat)"
    "length polynomial = 256"
  shows "let (rows, q) = fold (\<lambda>i (rows, polynomial). let (acc, polynomial) = D i polynomial in (rows @ [G i acc], polynomial))
        [0..<k] ([], polynomial)
    in length q = 256 \<and> length rows = k \<and> (\<forall>i<k. \<exists>acc. P i acc \<and> rows ! i = G i acc)"
  using assms(1)
proof (induction k)
  case 0
  then show ?case by (simp add: assms(2))
next
  case (Suc k)
  let ?run = "fold (\<lambda>i (rows, polynomial). let (acc, polynomial) = D i polynomial in (rows @ [G i acc], polynomial)) [0..<k] ([], polynomial)"
  obtain rows q where run: "?run = (rows, q)" by (cases ?run)
  have ih: "length q = 256" "length rows = k" "\<forall>i<k. \<exists>acc. P i acc \<and> rows ! i = G i acc"
    using Suc run by simp_all
  obtain acc q' where d: "D k q = (acc, q')" by (cases "D k q")
  have "P k acc" "length q' = 256" using Suc.prems [of k q] ih(1) d by simp_all
  moreover have "fold (\<lambda>i (rows, polynomial). let (acc, polynomial) = D i polynomial in (rows @ [G i acc], polynomial))
      [0..<Suc k] ([], polynomial) = (rows @ [G k acc], q')"
    using run d by simp
  ultimately show ?case
    using ih by (auto simp: nth_append less_Suc_eq simp del: upt_Suc)
qed

lemma keygen_public:
  assumes "\<And>i j. i < k \<Longrightarrow> j < k \<Longrightarrow> canonical_poly (matrix ! i ! j)" "\<And>j. j < k \<Longrightarrow> canonical_poly (s ! j)"
    "\<And>i. i < k \<Longrightarrow> canonical_poly (e ! i)"
  shows "length (keygen_public k matrix s e) = k"
    "\<And>i. i < k \<Longrightarrow> dot_spec (\<lambda>j. matrix ! i ! j) (\<lambda>j. s ! j) k (e ! i) (keygen_public k matrix s e ! i)"
proof -
  have "let (rows, q) = fold (\<lambda>i (rows, polynomial). let (acc, polynomial) =
        ntt_dot (\<lambda>j. matrix ! i ! j) (\<lambda>j. s ! j) k (e ! i, polynomial) in (rows @ [acc], polynomial))
      [0..<k] ([], replicate 256 0)
    in length q = 256 \<and> length rows = k \<and>
      (\<forall>i<k. \<exists>acc. dot_spec (\<lambda>j. matrix ! i ! j) (\<lambda>j. s ! j) k (e ! i) acc \<and> rows ! i = acc)"
    by (rule fold_rows) (simp_all add: ntt_dot assms)
  then show "length (keygen_public k matrix s e) = k"
    "\<And>i. i < k \<Longrightarrow> dot_spec (\<lambda>j. matrix ! i ! j) (\<lambda>j. s ! j) k (e ! i) (keygen_public k matrix s e ! i)"
    by (auto simp: keygen_public_def case_prod_beta Let_def)
qed

lemma encrypt_vector:
  assumes "\<And>i j. i < k \<Longrightarrow> j < k \<Longrightarrow> canonical_poly (matrix ! i ! j)" "\<And>j. j < k \<Longrightarrow> canonical_poly (r ! j)"
    "\<And>i. i < k \<Longrightarrow> canonical_poly (e ! i)"
  shows "length (encrypt_vector k matrix r e) = k"
    "\<And>i. i < k \<Longrightarrow> canonical_poly (encrypt_vector k matrix r e ! i)"
    "\<And>i b. i < k \<Longrightarrow> b < 128 \<Longrightarrow> quad_eq (ev (gamma b) ((!) (encrypt_vector k matrix r e ! i)))
      ((\<Sum>j<k. qmul (gamma b) (slot (matrix ! j ! i) b) (slot (r ! j) b)) + ev (gamma b) ((!) (e ! i)))"
proof -
  have "let (rows, q) = fold (\<lambda>i (rows, polynomial). let (acc, polynomial) =
        ntt_dot (\<lambda>j. matrix ! j ! i) (\<lambda>j. r ! j) k (replicate 256 0, polynomial)
        in (rows @ [accumulate (NTT_inv acc GenZeta) (e ! i)], polynomial)) [0..<k] ([], replicate 256 0)
    in length q = 256 \<and> length rows = k \<and>
      (\<forall>i<k. \<exists>acc. dot_spec (\<lambda>j. matrix ! j ! i) (\<lambda>j. r ! j) k (replicate 256 0) acc \<and>
        rows ! i = accumulate (NTT_inv acc GenZeta) (e ! i))"
    by (rule fold_rows) (simp_all add: ntt_dot assms)
  then have len: "length (encrypt_vector k matrix r e) = k" and
    row: "\<And>i. i < k \<Longrightarrow> \<exists>acc. dot_spec (\<lambda>j. matrix ! j ! i) (\<lambda>j. r ! j) k (replicate 256 0) acc \<and>
        encrypt_vector k matrix r e ! i = accumulate (NTT_inv acc GenZeta) (e ! i)"
    by (auto simp: encrypt_vector_def case_prod_beta Let_def)
  show "length (encrypt_vector k matrix r e) = k" by (rule len)
  fix i assume i: "i < k"
  from row [OF i] obtain acc where acc: "dot_spec (\<lambda>j. matrix ! j ! i) (\<lambda>j. r ! j) k (replicate 256 0) acc"
    "encrypt_vector k matrix r e ! i = accumulate (NTT_inv acc GenZeta) (e ! i)" by blast
  have c: "canonical_poly acc" using acc(1) by (simp add: dot_spec_def)
  show "canonical_poly (encrypt_vector k matrix r e ! i)" using c acc(2) assms(3) [OF i] by simp
  fix b :: nat assume b: "b < 128"
  have "quad_eq (ev (gamma b) ((!) (accumulate (NTT_inv acc GenZeta) (e ! i))))
      (ev (gamma b) ((!) (NTT_inv acc GenZeta)) + ev (gamma b) ((!) (e ! i)))"
    using c assms(3) [OF i] by (intro ev_accumulate) simp_all
  also have "quad_eq \<dots> (slot acc b + ev (gamma b) ((!) (e ! i)))"
    by (intro quad_eq_add quad_eq_refl ev_NTT_inv c b)
  also have "quad_eq \<dots> ((\<Sum>j<k. qmul (gamma b) (slot (matrix ! j ! i) b) (slot (r ! j) b)) + ev (gamma b) ((!) (e ! i)))"
    using acc(1) b by (intro quad_eq_add quad_eq_refl) (simp add: dot_spec_def)
  finally show "quad_eq (ev (gamma b) ((!) (encrypt_vector k matrix r e ! i)))
      ((\<Sum>j<k. qmul (gamma b) (slot (matrix ! j ! i) b) (slot (r ! j) b)) + ev (gamma b) ((!) (e ! i)))"
    unfolding acc(2) .
qed

lemma encrypt_scalar:
  assumes "\<And>i. i < k \<Longrightarrow> canonical_poly (t ! i)" "\<And>i. i < k \<Longrightarrow> canonical_poly (r ! i)"
    "canonical_poly e2" "canonical_poly m" "length polynomial = 256"
  shows "canonical_poly (encrypt_scalar k t r e2 m polynomial)"
    "b < 128 \<Longrightarrow> quad_eq (ev (gamma b) ((!) (encrypt_scalar k t r e2 m polynomial)))
      ((\<Sum>i<k. qmul (gamma b) (slot (t ! i) b) (slot (r ! i) b)) + ev (gamma b) ((!) e2) + ev (gamma b) ((!) m))"
proof -
  define acc where "acc = fst (ntt_dot (\<lambda>i. t ! i) (\<lambda>i. r ! i) k (replicate 256 0, polynomial))"
  have acc: "dot_spec (\<lambda>i. t ! i) (\<lambda>i. r ! i) k (replicate 256 0) acc"
    unfolding acc_def using assms by (intro ntt_dot [THEN conjunct1]) simp_all
  then have c: "canonical_poly acc" by (simp add: dot_spec_def)
  have nth: "encrypt_scalar k t r e2 m polynomial ! n = (NTT_inv acc GenZeta ! n + e2 ! n + m ! n) mod 3329" if "n < 256" for n
  proof -
    have "0 \<le> NTT_inv acc GenZeta ! n" "0 \<le> e2 ! n" "0 \<le> m ! n"
      using canonical_poly_nth [OF _ that] canonical_NTT_inv [OF c] assms(3,4) by (simp_all add: canonical_def)
    then show ?thesis using that by (simp add: encrypt_scalar_def acc_def case_prod_beta Let_def)
  qed
  show "canonical_poly (encrypt_scalar k t r e2 m polynomial)"
    unfolding canonical_poly_def using nth by (simp add: encrypt_scalar_def case_prod_beta Let_def)
  assume b: "b < 128"
  have "quad_eq (ev (gamma b) ((!) (encrypt_scalar k t r e2 m polynomial)))
      (ev (gamma b) (\<lambda>n. NTT_inv acc GenZeta ! n + e2 ! n + m ! n))"
    using nth by (intro ev_cong) simp
  also have "quad_eq \<dots> (slot acc b + ev (gamma b) ((!) e2) + ev (gamma b) ((!) m))"
    unfolding ev_add by (intro quad_eq_add quad_eq_refl ev_NTT_inv c b)
  also have "quad_eq \<dots> ((\<Sum>i<k. qmul (gamma b) (slot (t ! i) b) (slot (r ! i) b)) + ev (gamma b) ((!) e2) + ev (gamma b) ((!) m))"
    using acc b by (intro quad_eq_add quad_eq_refl) (simp add: dot_spec_def)
  finally show "quad_eq (ev (gamma b) ((!) (encrypt_scalar k t r e2 m polynomial)))
      ((\<Sum>i<k. qmul (gamma b) (slot (t ! i) b) (slot (r ! i) b)) + ev (gamma b) ((!) e2) + ev (gamma b) ((!) m))" .
qed

lemma decrypt_scalar:
  assumes "\<And>i. i < k \<Longrightarrow> canonical_poly (s ! i)" "\<And>i. i < k \<Longrightarrow> canonical_poly (u ! i)" "length u = k"
    "canonical_poly v"
  shows "canonical_poly (decrypt_scalar k s u v)"
    "b < 128 \<Longrightarrow> quad_eq (ev (gamma b) ((!) (decrypt_scalar k s u v)))
      (ev (gamma b) ((!) v) - (\<Sum>i<k. qmul (gamma b) (slot (s ! i) b) (ev (gamma b) ((!) (u ! i)))))"
proof -
  let ?hat = "map (\<lambda>f. NTT f GenZeta) u"
  define acc where "acc = fst (ntt_dot (\<lambda>i. s ! i) (\<lambda>i. ?hat ! i) k (replicate 256 0, replicate 256 0))"
  have acc: "dot_spec (\<lambda>i. s ! i) (\<lambda>i. ?hat ! i) k (replicate 256 0) acc"
    unfolding acc_def using assms by (intro ntt_dot [THEN conjunct1]) simp_all
  then have c: "canonical_poly acc" by (simp add: dot_spec_def)
  have nth: "decrypt_scalar k s u v ! n = (v ! n - NTT_inv acc GenZeta ! n) mod 3329" if "n < 256" for n
  proof -
    have "NTT_inv acc GenZeta ! n < 3329" "0 \<le> v ! n"
      using canonical_poly_nth [OF _ that] canonical_NTT_inv [OF c] assms(4) by (simp_all add: canonical_def)
    then have "(v ! n - NTT_inv acc GenZeta ! n + 3329) smod 3329 = (v ! n - NTT_inv acc GenZeta ! n) mod 3329" by simp
    then show ?thesis using that by (simp add: decrypt_scalar_def acc_def case_prod_beta Let_def)
  qed
  show "canonical_poly (decrypt_scalar k s u v)"
    unfolding canonical_poly_def using nth by (simp add: decrypt_scalar_def case_prod_beta Let_def)
  assume b: "b < 128"
  have "quad_eq (ev (gamma b) ((!) (decrypt_scalar k s u v))) (ev (gamma b) (\<lambda>n. v ! n - NTT_inv acc GenZeta ! n))"
    using nth by (intro ev_cong) simp
  also have "quad_eq \<dots> (ev (gamma b) ((!) v) - slot acc b)"
    unfolding ev_diff by (intro quad_eq_diff quad_eq_refl ev_NTT_inv c b)
  also have "quad_eq \<dots> (ev (gamma b) ((!) v) - (\<Sum>i<k. qmul (gamma b) (slot (s ! i) b) (slot (?hat ! i) b)))"
    using acc b by (intro quad_eq_diff quad_eq_refl) (simp add: dot_spec_def)
  also have "quad_eq \<dots> (ev (gamma b) ((!) v) - (\<Sum>i<k. qmul (gamma b) (slot (s ! i) b) (ev (gamma b) ((!) (u ! i)))))"
    using assms by (intro quad_eq_diff quad_eq_refl quad_eq_sum quad_eq_mul) (simp add: slot_NTT b)
  finally show "quad_eq (ev (gamma b) ((!) (decrypt_scalar k s u v)))
      (ev (gamma b) ((!) v) - (\<Sum>i<k. qmul (gamma b) (slot (s ! i) b) (ev (gamma b) ((!) (u ! i)))))" .
qed

section \<open>The cancellation\<close>

text \<open>The identity in one residue ring: the matrix cancels.\<close>

lemma matrix_cancels:
  fixes a :: "nat \<Rightarrow> nat \<Rightarrow> quad"
  shows "(\<Sum>i<k. qmul c (E i + (\<Sum>j<k. qmul c (a i j) (S j))) (R i)) + e2 + m + dv -
      (\<Sum>i<k. qmul c (S i) ((\<Sum>j<k. qmul c (a j i) (R j)) + e1 i + du i)) =
    m + ((\<Sum>i<k. qmul c (E i) (R i)) + e2 + dv - (\<Sum>i<k. qmul c (S i) (e1 i + du i)))"
proof -
  have "(\<Sum>i<k. \<Sum>j<k. qmul c (qmul c (a i j) (S j)) (R i)) = (\<Sum>j<k. \<Sum>i<k. qmul c (qmul c (a i j) (S j)) (R i))"
    by (rule sum.swap)
  also have "\<dots> = (\<Sum>i<k. \<Sum>j<k. qmul c (S i) (qmul c (a j i) (R j)))"
    by (intro sum.cong refl) (metis qmul_assoc qmul_commute)
  finally have swap: "(\<Sum>i<k. \<Sum>j<k. qmul c (qmul c (a i j) (S j)) (R i)) =
      (\<Sum>i<k. \<Sum>j<k. qmul c (S i) (qmul c (a j i) (R j)))" .
  show ?thesis
    unfolding qmul_add_left qmul_add_right qmul_sum_left qmul_sum_right sum.distrib swap
    by (simp add: algebra_simps)
qed

definition pke_noise ::
    "mlkem_parameters \<Rightarrow> int list list \<Rightarrow> int list list \<Rightarrow> int list list \<Rightarrow> int list list \<Rightarrow> int list
     \<Rightarrow> int list list \<Rightarrow> int list \<Rightarrow> nat \<Rightarrow> int" where
  "pke_noise p s e r e1 e2 u v n =
     (\<Sum>i<par_k p. negacyclic ((!) (e ! i)) ((!) (r ! i)) n) + e2 ! n +
     (decomp (par_dv p) (comp (par_dv p) (v ! n)) - v ! n) -
     (\<Sum>i<par_k p. negacyclic ((!) (s ! i))
        (\<lambda>l. e1 ! i ! l + (decomp (par_du p) (comp (par_du p) (u ! i ! l)) - u ! i ! l)) n)"

definition recompress :: "nat \<Rightarrow> int list \<Rightarrow> int list" where
  "recompress d f = map (decomp d) (map (comp d) f)"

lemma decomp_canonical:
  assumes "1 \<le> d" "d \<le> 12" "0 \<le> c" "c < 2 ^ d"
  shows "canonical (decomp d c)"
proof -
  let ?c = c
  have P: "(2 :: int) ^ d = 2 * 2 ^ (d - 1)" using assms(1) by (simp flip: power_Suc)
  have h: "(2 :: int) ^ (d - 1) \<le> 2 ^ 11" using assms(2) by (intro power_increasing) simp_all
  have "0 \<le> ?c" "?c \<le> 2 ^ d - 1" using assms(3,4) by simp_all
  then have "3329 * ?c + 2 ^ (d - 1) < 3329 * 2 ^ d" using h by simp
  moreover have "decomp d ?c * 2 ^ d \<le> 3329 * ?c + 2 ^ (d - 1)"
  proof -
    have "0 \<le> (3329 * ?c + 2 ^ (d - 1)) mod 2 ^ d" by simp
    then show ?thesis
      using div_mult_mod_eq [of "3329 * ?c + 2 ^ (d - 1)" "2 ^ d"] unfolding decomp_def by linarith
  qed
  ultimately have "decomp d ?c * 2 ^ d < 3329 * 2 ^ d" by (simp only: order_le_less_trans)
  then have "decomp d ?c < 3329" by (simp add: mult_less_cancel_right)
  moreover have "0 \<le> decomp d ?c" using \<open>0 \<le> ?c\<close> by (simp add: decomp_def pos_imp_zdiv_nonneg_iff)
  ultimately show ?thesis by (simp add: canonical_def)
qed

lemma decomp_range: "1 \<le> d \<Longrightarrow> d \<le> 12 \<Longrightarrow> canonical (decomp d (comp d a))"
  using comp_range by (intro decomp_canonical) simp_all

lemma canonical_recompress [simp]:
  "1 \<le> d \<Longrightarrow> d \<le> 12 \<Longrightarrow> length f = 256 \<Longrightarrow> canonical_poly (recompress d f)"
  by (simp add: canonical_poly_def recompress_def decomp_range)

lemma nth_recompress: "n < length f \<Longrightarrow> recompress d f ! n = decomp d (comp d (f ! n))"
  by (simp add: recompress_def)

lemma ev_difference:
  "ev c G = ev c F + ev c (\<lambda>n. G n - F n)"
  by (simp add: ev_diff)

lemma parameters_bounds:
  assumes "mlkem_parameters_valid p"
  shows "1 \<le> par_du p" "par_du p \<le> 11" "1 \<le> par_dv p" "par_dv p \<le> 11" "2 \<le> par_k p" "par_k p \<le> 4"
    "par_eta1 p = 2 \<or> par_eta1 p = 3" "par_eta2 p = 2"
  using assms by (auto simp: mlkem_parameters_valid_def)

text \<open>
  What the decryption computes before rounding: the message polynomial plus the noise.
\<close>

lemma decrypt_polynomial:
  fixes matrix :: "int list list list" and e2 m polynomial :: "int list"
  assumes p: "mlkem_parameters_valid p" and k: "k = par_k p"
    and matrix: "\<And>i j. i < k \<Longrightarrow> j < k \<Longrightarrow> canonical_poly (matrix ! i ! j)"
    and s: "length s = k" "\<And>i. i < k \<Longrightarrow> canonical_poly (s ! i)"
    and e: "length e = k" "\<And>i. i < k \<Longrightarrow> canonical_poly (e ! i)"
    and r: "length r = k" "\<And>i. i < k \<Longrightarrow> canonical_poly (r ! i)"
    and e1: "\<And>i. i < k \<Longrightarrow> canonical_poly (e1 ! i)"
    and e2: "canonical_poly e2" and m: "canonical_poly m" and poly: "length polynomial = 256"
  defines "hat \<equiv> map (\<lambda>f. NTT f GenZeta)"
  defines "t \<equiv> keygen_public k matrix (hat s) (hat e)"
  defines "u \<equiv> encrypt_vector k matrix (hat r) e1"
  defines "v \<equiv> encrypt_scalar k t (hat r) e2 m polynomial"
  shows "decrypt_scalar k (hat s) (map (recompress (par_du p)) u) (recompress (par_dv p) v) =
    reduced (\<lambda>n. m ! n + pke_noise p s e r e1 e2 u v n)"
proof -
  note bounds = parameters_bounds [OF p]
  have d: "par_du p \<le> 12" "par_dv p \<le> 12" using bounds by simp_all
  have hats: "\<And>i. i < k \<Longrightarrow> canonical_poly (hat s ! i)" "\<And>i. i < k \<Longrightarrow> canonical_poly (hat e ! i)"
    "\<And>i. i < k \<Longrightarrow> canonical_poly (hat r ! i)" using s e r by (simp_all add: hat_def)
  have t: "length t = k" "\<And>i. i < k \<Longrightarrow> dot_spec (\<lambda>j. matrix ! i ! j) (\<lambda>j. hat s ! j) k (hat e ! i) (t ! i)"
    unfolding t_def by (rule keygen_public; simp add: matrix hats)+
  have tc: "\<And>i. i < k \<Longrightarrow> canonical_poly (t ! i)" using t(2) by (simp add: dot_spec_def)
  have u: "length u = k" "\<And>i. i < k \<Longrightarrow> canonical_poly (u ! i)"
    "\<And>i b. i < k \<Longrightarrow> b < 128 \<Longrightarrow> quad_eq (ev (gamma b) ((!) (u ! i)))
      ((\<Sum>j<k. qmul (gamma b) (slot (matrix ! j ! i) b) (slot (hat r ! j) b)) + ev (gamma b) ((!) (e1 ! i)))"
    unfolding u_def by (rule encrypt_vector; simp add: matrix hats e1)+
  have v: "canonical_poly v" "\<And>b. b < 128 \<Longrightarrow> quad_eq (ev (gamma b) ((!) v))
      ((\<Sum>i<k. qmul (gamma b) (slot (t ! i) b) (slot (hat r ! i) b)) + ev (gamma b) ((!) e2) + ev (gamma b) ((!) m))"
    unfolding v_def by (rule encrypt_scalar; simp add: tc hats e2 m poly)+
  let ?u = "map (recompress (par_du p)) u" and ?v = "recompress (par_dv p) v"
  have u': "length ?u = k" "\<And>i. i < k \<Longrightarrow> canonical_poly (?u ! i)"
    using u bounds d by (simp_all add: canonical_poly_length)
  have v': "canonical_poly ?v" using v bounds d by (simp add: canonical_poly_length)
  have w: "canonical_poly (decrypt_scalar k (hat s) ?u ?v)"
    "\<And>b. b < 128 \<Longrightarrow> quad_eq (ev (gamma b) ((!) (decrypt_scalar k (hat s) ?u ?v)))
      (ev (gamma b) ((!) ?v) - (\<Sum>i<k. qmul (gamma b) (slot (hat s ! i) b) (ev (gamma b) ((!) (?u ! i)))))"
    by (rule decrypt_scalar; simp add: hats u(1) u'(2) v' del: nth_map)+
  define du where "du = (\<lambda>i n. recompress (par_du p) (u ! i) ! n - u ! i ! n)"
  define dv where "dv = (\<lambda>n. ?v ! n - v ! n)"
  show ?thesis
  proof (rule residues_determine)
    show "canonical_poly (decrypt_scalar k (hat s) ?u ?v)" by (rule w)
    show "canonical_poly (reduced (\<lambda>n. m ! n + pke_noise p s e r e1 e2 u v n))" by simp
    fix b :: nat assume b: "b < 128"
    let ?c = "gamma b"
    let ?E = "\<lambda>i. ev ?c ((!) (e ! i))" and ?S = "\<lambda>i. ev ?c ((!) (s ! i))" and ?R = "\<lambda>i. ev ?c ((!) (r ! i))"
    let ?a = "\<lambda>i j. slot (matrix ! i ! j) b"
    have slots: "\<And>i. i < k \<Longrightarrow> quad_eq (slot (hat s ! i) b) (?S i)"
      "\<And>i. i < k \<Longrightarrow> quad_eq (slot (hat e ! i) b) (?E i)" "\<And>i. i < k \<Longrightarrow> quad_eq (slot (hat r ! i) b) (?R i)"
      using s e r b by (simp_all add: hat_def slot_NTT)
    have ts: "quad_eq (slot (t ! i) b) (?E i + (\<Sum>j<k. qmul ?c (?a i j) (?S j)))" if i: "i < k" for i
    proof -
      have "quad_eq (slot (t ! i) b) (slot (hat e ! i) b + (\<Sum>j<k. qmul ?c (?a i j) (slot (hat s ! j) b)))"
        using t(2) [OF i] b by (simp add: dot_spec_def)
      also have "quad_eq \<dots> (?E i + (\<Sum>j<k. qmul ?c (?a i j) (?S j)))"
        using slots i by (intro quad_eqs) simp_all
      finally show ?thesis .
    qed
    have us: "quad_eq (ev ?c ((!) (?u ! i))) ((\<Sum>j<k. qmul ?c (?a j i) (?R j)) + ev ?c ((!) (e1 ! i)) + ev ?c (du i))"
      if i: "i < k" for i
    proof -
      have "ev ?c ((!) (?u ! i)) = ev ?c ((!) (u ! i)) + ev ?c (du i)"
        using u(1) i by (simp add: du_def ev_diff)
      also have "quad_eq \<dots> ((\<Sum>j<k. qmul ?c (?a j i) (slot (hat r ! j) b)) + ev ?c ((!) (e1 ! i)) + ev ?c (du i))"
        by (intro quad_eq_add quad_eq_refl u i b)
      also have "quad_eq \<dots> ((\<Sum>j<k. qmul ?c (?a j i) (?R j)) + ev ?c ((!) (e1 ! i)) + ev ?c (du i))"
        using slots by (intro quad_eqs) simp_all
      finally show ?thesis .
    qed
    have vs: "quad_eq (ev ?c ((!) ?v))
        ((\<Sum>i<k. qmul ?c (?E i + (\<Sum>j<k. qmul ?c (?a i j) (?S j))) (?R i)) + ev ?c ((!) e2) + ev ?c ((!) m) + ev ?c dv)"
    proof -
      have "ev ?c ((!) ?v) = ev ?c ((!) v) + ev ?c dv" by (simp add: dv_def ev_diff)
      also have "quad_eq \<dots> ((\<Sum>i<k. qmul ?c (slot (t ! i) b) (slot (hat r ! i) b)) + ev ?c ((!) e2) + ev ?c ((!) m) + ev ?c dv)"
        by (intro quad_eq_add quad_eq_refl v b)
      also have "quad_eq \<dots> ((\<Sum>i<k. qmul ?c (?E i + (\<Sum>j<k. qmul ?c (?a i j) (?S j))) (?R i)) + ev ?c ((!) e2) + ev ?c ((!) m) + ev ?c dv)"
        using slots ts by (intro quad_eq_add quad_eq_sum quad_eq_mul quad_eq_refl) simp_all
      finally show ?thesis .
    qed
    have "quad_eq (ev ?c ((!) (decrypt_scalar k (hat s) ?u ?v)))
        (ev ?c ((!) ?v) - (\<Sum>i<k. qmul ?c (slot (hat s ! i) b) (ev ?c ((!) (?u ! i)))))" by (rule w(2) [OF b])
    also have "quad_eq \<dots>
        ((\<Sum>i<k. qmul ?c (?E i + (\<Sum>j<k. qmul ?c (?a i j) (?S j))) (?R i)) + ev ?c ((!) e2) + ev ?c ((!) m) + ev ?c dv -
         (\<Sum>i<k. qmul ?c (?S i) ((\<Sum>j<k. qmul ?c (?a j i) (?R j)) + ev ?c ((!) (e1 ! i)) + ev ?c (du i))))"
      using slots us by (intro quad_eq_diff vs quad_eq_sum quad_eq_mul) simp_all
    also have "\<dots> = ev ?c ((!) m) + ((\<Sum>i<k. qmul ?c (?E i) (?R i)) + ev ?c ((!) e2) + ev ?c dv -
         (\<Sum>i<k. qmul ?c (?S i) (ev ?c ((!) (e1 ! i)) + ev ?c (du i))))"
      by (rule matrix_cancels)
    also have "quad_eq \<dots> (ev ?c ((!) m) + ((\<Sum>i<k. ev ?c (negacyclic ((!) (e ! i)) ((!) (r ! i)))) + ev ?c ((!) e2) + ev ?c dv -
         (\<Sum>i<k. ev ?c (negacyclic ((!) (s ! i)) (\<lambda>n. e1 ! i ! n + du i n)))))"
      unfolding ev_add [symmetric]
      by (intro quad_eq_add quad_eq_diff quad_eq_refl quad_eq_sum quad_eq_sym [OF ev_negacyclic] gamma_negacyclic)
    also have "\<dots> = ev ?c (\<lambda>n. m ! n + ((\<Sum>i<k. negacyclic ((!) (e ! i)) ((!) (r ! i)) n) + e2 ! n + dv n -
         (\<Sum>i<k. negacyclic ((!) (s ! i)) (\<lambda>n. e1 ! i ! n + du i n) n)))"
      unfolding ev_add ev_diff ev_sum by simp
    also have "quad_eq \<dots> (ev ?c ((!) (reduced (\<lambda>n. m ! n + pke_noise p s e r e1 e2 u v n))))"
    proof (rule ev_cong)
      fix n :: nat assume n: "n < 256"
      have "dv n = decomp (par_dv p) (comp (par_dv p) (v ! n)) - v ! n"
        using n canonical_poly_length [OF v(1)] by (simp add: dv_def nth_recompress)
      moreover have "negacyclic F (\<lambda>l. e1 ! i ! l + du i l) n =
          negacyclic F (\<lambda>l. e1 ! i ! l + (decomp (par_du p) (comp (par_du p) (u ! i ! l)) - u ! i ! l)) n"
        if "i < k" for F i
        unfolding negacyclic_def using n canonical_poly_length [OF u(2) [OF that]]
        by (intro sum.cong refl) (auto simp: du_def nth_recompress)
      ultimately show "qeq (m ! n + ((\<Sum>i<k. negacyclic ((!) (e ! i)) ((!) (r ! i)) n) + e2 ! n + dv n -
         (\<Sum>i<k. negacyclic ((!) (s ! i)) (\<lambda>n. e1 ! i ! n + du i n) n)))
        (reduced (\<lambda>n. m ! n + pke_noise p s e r e1 e2 u v n) ! n)"
        using n by (simp add: pke_noise_def k)
    qed
    finally show "quad_eq (ev ?c ((!) (decrypt_scalar k (hat s) ?u ?v)))
        (ev ?c ((!) (reduced (\<lambda>n. m ! n + pke_noise p s e r e1 e2 u v n))))" .
  qed
qed

section \<open>Encoding keys and ciphertexts\<close>

lemma drop_concat:
  assumes "\<forall>x\<in>set xs. length x = n" "i < length xs"
  shows "\<exists>rest'. drop (i * n) (concat xs @ rest) = xs ! i @ rest'"
  using assms
proof (induction xs arbitrary: i)
  case (Cons x xs)
  show ?case
  proof (cases i)
    case 0
    then show ?thesis by (intro exI [of _ "concat xs @ rest"]) simp
  next
    case (Suc j)
    then obtain rest' where "drop (j * n) (concat xs @ rest) = xs ! j @ rest'"
      using Cons by force
    then show ?thesis using Cons.prems Suc by (intro exI [of _ rest']) simp
  qed
qed simp

lemma length_concat_equal: "\<forall>x\<in>set xs. length x = n \<Longrightarrow> length (concat xs) = length xs * n"
  by (induction xs) auto

definition encoded_poly :: "nat \<Rightarrow> int list \<Rightarrow> byte list" where
  "encoded_poly d f = snd (ByteEncode f d)"

lemma ByteEncode_run:
  "1 \<le> d \<Longrightarrow> d \<le> 12 \<Longrightarrow> checked (ByteEncode f d) = Some (Inr (encoded_poly d f)) \<and> length (encoded_poly d f) = 32 * d"
  using ByteEncode_eq [of d f] by (simp add: encoded_poly_def)

lemma ByteDecode_run:
  assumes "1 \<le> d" "d \<le> 12" "length f = 256" "\<forall>a\<in>set f. 0 \<le> a \<and> a < int (modulus_of d)"
  shows "checked (ByteDecode (encoded_poly d f @ rest) d) = Some (Inr f)"
  using decode_encode [OF assms] by (simp add: encoded_poly_def)

lemma canonical_poly_set: "canonical_poly f \<Longrightarrow> a \<in> set f \<Longrightarrow> canonical a"
  by (auto simp: canonical_poly_def in_set_conv_nth)

lemma canonical_modulus: "canonical_poly f \<Longrightarrow> \<forall>a\<in>set f. 0 \<le> a \<and> a < int (modulus_of 12)"
  using canonical_poly_set by (auto simp: modulus_of_def canonical_def)

lemma encode_vector_run: "encode_vector 12 fs = Some (Inr (concat (map (encoded_poly 12) fs)))"
proof -
  have "each (\<lambda>f. checked (ByteEncode f 12)) fs = Some (Inr (map (encoded_poly 12) fs))"
    using ByteEncode_run [of 12] by (intro each_ok) simp
  then show ?thesis by (simp add: encode_vector_def)
qed

lemma decode_vector_run:
  assumes "length fs = k" "\<And>i. i < k \<Longrightarrow> canonical_poly (fs ! i)"
  shows "decode_vector k 12 (concat (map (encoded_poly 12) fs) @ rest) = Some (Inr fs)"
proof -
  let ?in = "concat (map (encoded_poly 12) fs) @ rest"
  have "checked (ByteDecode (drop (i * (32 * 12)) ?in) 12) = Some (Inr (fs ! i))" if "i < k" for i
  proof -
    have "\<exists>rest'. drop (i * (32 * 12)) ?in = map (encoded_poly 12) fs ! i @ rest'"
      using ByteEncode_run [of 12] assms(1) that by (intro drop_concat) auto
    then show ?thesis
      using ByteDecode_run [of 12 "fs ! i"] canonical_poly_length [OF assms(2) [OF that]]
        canonical_modulus [OF assms(2) [OF that]] assms(1) that by auto
  qed
  then have "decode_vector k 12 ?in = Some (Inr (map ((!) fs) [0..<k]))"
    unfolding decode_vector_def by (intro each_ok) simp
  then show ?thesis using assms(1) map_nth [of fs] by simp
qed

lemma Comp_run:
  assumes "1 \<le> d" "d \<le> 12" "canonical_poly f"
  shows "checked (Comp f d) = Some (Inr (map (comp d) f))"
proof -
  have "\<forall>a\<in>set f. 0 \<le> a" using canonical_poly_set [OF assms(3)] by (auto simp: canonical_def)
  then show ?thesis using Comp_eq [of d f] assms(1,2) by simp
qed

lemma comp_modulus:
  assumes "1 \<le> d" "d \<le> 11"
  shows "\<forall>a\<in>set (map (comp d) f). 0 \<le> a \<and> a < int (modulus_of d)"
  using comp_range assms by (auto simp: modulus_of_def)

lemma decode_compressed_run:
  assumes "1 \<le> d" "d \<le> 11" "length f = 256"
  shows "decode_compressed d (encoded_poly d (map (comp d) f) @ rest) = Some (Inr (recompress d f))"
proof -
  have "checked (ByteDecode (encoded_poly d (map (comp d) f) @ rest) d) = Some (Inr (map (comp d) f))"
    using comp_modulus [OF assms(1,2)] assms by (intro ByteDecode_run) simp_all
  moreover have "checked (Decomp (map (comp d) f) d) = Some (Inr (recompress d f))"
    using Decomp_eq [of d "map (comp d) f"] comp_range assms(1,2) by (simp add: recompress_def)
  ultimately show ?thesis by (simp add: decode_compressed_def)
qed

definition ciphertext_of :: "nat \<Rightarrow> nat \<Rightarrow> int list list \<Rightarrow> int list \<Rightarrow> byte list" where
  "ciphertext_of du dv u v =
     concat (map (\<lambda>f. encoded_poly du (map (comp du) f)) u) @ encoded_poly dv (map (comp dv) v)"

lemma encode_ciphertext_run:
  assumes "1 \<le> du" "du \<le> 11" "1 \<le> dv" "dv \<le> 11" "\<And>f. f \<in> set u \<Longrightarrow> canonical_poly f" "canonical_poly v"
  shows "encode_ciphertext du dv u v = Some (Inr (ciphertext_of du dv u v))"
    "length (ciphertext_of du dv u v) = length u * (32 * du) + 32 * dv"
proof -
  have "each (\<lambda>f. and_then (checked (Comp f du)) (\<lambda>polynomial. checked (ByteEncode polynomial du))) u =
      Some (Inr (map (\<lambda>f. encoded_poly du (map (comp du) f)) u))"
    using assms(1,2,5) by (intro each_ok) (simp add: Comp_run ByteEncode_run)
  then show "encode_ciphertext du dv u v = Some (Inr (ciphertext_of du dv u v))"
    using assms(3,4,6) by (simp add: encode_ciphertext_def Comp_run ByteEncode_run ciphertext_of_def)
  show "length (ciphertext_of du dv u v) = length u * (32 * du) + 32 * dv"
    using ByteEncode_run [of du] ByteEncode_run [of dv] assms(1-4)
    by (simp add: ciphertext_of_def length_concat_equal [where n = "32 * du"])
qed

lemma decode_ciphertext_run:
  assumes "1 \<le> du" "du \<le> 11" "1 \<le> dv" "dv \<le> 11" "length u = k" "\<And>f. f \<in> set u \<Longrightarrow> canonical_poly f" "canonical_poly v"
  shows "each (\<lambda>i. decode_compressed du (drop (i * (32 * du)) (ciphertext_of du dv u v))) [0..<k] =
      Some (Inr (map (recompress du) u))"
    "decode_compressed dv (drop (k * (32 * du)) (ciphertext_of du dv u v)) = Some (Inr (recompress dv v))"
proof -
  let ?blocks = "map (\<lambda>f. encoded_poly du (map (comp du) f)) u"
  have len: "\<forall>x\<in>set ?blocks. length x = 32 * du" using ByteEncode_run [of du] assms(1,2) by auto
  have "decode_compressed du (drop (i * (32 * du)) (ciphertext_of du dv u v)) = Some (Inr (recompress du (u ! i)))"
    if "i < k" for i
  proof -
    have "\<exists>rest'. drop (i * (32 * du)) (ciphertext_of du dv u v) = ?blocks ! i @ rest'"
      unfolding ciphertext_of_def using len assms(5) that by (intro drop_concat) simp_all
    moreover have "length (u ! i) = 256" using assms(5,6) that by (simp add: canonical_poly_length)
    ultimately show ?thesis using decode_compressed_run [OF assms(1,2), of "u ! i"] assms(5) that by auto
  qed
  then have "each (\<lambda>i. decode_compressed du (drop (i * (32 * du)) (ciphertext_of du dv u v))) [0..<k] =
      Some (Inr (map (\<lambda>i. recompress du (u ! i)) [0..<k]))"
    by (intro each_ok) simp
  also have "map (\<lambda>i. recompress du (u ! i)) [0..<k] = map (recompress du) u"
    using assms(5) by (intro nth_equalityI) simp_all
  finally show "each (\<lambda>i. decode_compressed du (drop (i * (32 * du)) (ciphertext_of du dv u v))) [0..<k] =
      Some (Inr (map (recompress du) u))" .
  have "drop (k * (32 * du)) (ciphertext_of du dv u v) = encoded_poly dv (map (comp dv) v)"
    using length_concat_equal [OF len] assms(5) by (simp add: ciphertext_of_def)
  then show "decode_compressed dv (drop (k * (32 * du)) (ciphertext_of du dv u v)) = Some (Inr (recompress dv v))"
    using decode_compressed_run [OF assms(3,4), of v "[]"] canonical_poly_length [OF assms(7)] by simp
qed

subsection \<open>The message\<close>

definition message_bits :: "byte list \<Rightarrow> int list" where
  "message_bits message = snd (ByteDecode message 1)"

lemma message_bits:
  assumes "length message = 32"
  shows "checked (ByteDecode message 1) = Some (Inr (message_bits message))" "length (message_bits message) = 256"
    "\<forall>a\<in>set (message_bits message). a = 0 \<or> a = 1"
    "checked (ByteEncode (message_bits message) 1) = Some (Inr message)"
proof -
  have dec: "ByteDecode message 1 = (0, map (\<lambda>i. int (nat_of_le message div 2 ^ (1 * i) mod 2 ^ 1 mod modulus_of 1)) [0..<256])"
    using assms by (intro ByteDecode_eq) simp_all
  then show "checked (ByteDecode message 1) = Some (Inr (message_bits message))" "length (message_bits message) = 256"
    by (simp_all add: message_bits_def)
  show "\<forall>a\<in>set (message_bits message). a = 0 \<or> a = 1"
    using dec by (auto simp: message_bits_def modulus_of_def)
  have "ByteEncode (message_bits message) 1 = (0, message)"
    unfolding message_bits_def using assms by (intro encode_decode) (simp_all add: modulus_of_def)
  then show "checked (ByteEncode (message_bits message) 1) = Some (Inr message)" by simp
qed

lemma message_poly_run:
  assumes "length message = 32"
  shows "message_poly message = Some (Inr (message_bits message, map (decomp 1) (message_bits message)))"
    "canonical_poly (map (decomp 1) (message_bits message))"
proof -
  note b = message_bits [OF assms]
  have "\<forall>a\<in>set (message_bits message). 0 \<le> a" using b(3) by auto
  then show "message_poly message = Some (Inr (message_bits message, map (decomp 1) (message_bits message)))"
    using b(1) Decomp_eq [of 1 "message_bits message"] by (simp add: message_poly_def)
  have "canonical (decomp 1 (message_bits message ! n))" if "n < 256" for n
  proof -
    have "message_bits message ! n \<in> set (message_bits message)" using b(2) that by simp
    with b(3) have "message_bits message ! n = 0 \<or> message_bits message ! n = 1" by blast
    then show ?thesis by (auto simp: decomp_def canonical_def)
  qed
  then show "canonical_poly (map (decomp 1) (message_bits message))" using b(2) by (simp add: canonical_poly_def)
qed

definition small_noise :: "int \<Rightarrow> bool" where
  "small_noise a \<longleftrightarrow> - 832 \<le> centered a \<and> centered a \<le> 831"

lemma rounding:
  assumes "a = 0 \<or> a = 1" "small_noise e"
  shows "comp 1 ((decomp 1 a + e) mod 3329) = a"
proof -
  define x where "x = centered e"
  have x: "- 832 \<le> x" "x \<le> 831" using assms(2) by (simp_all add: small_noise_def x_def)
  have "qeq e x" by (simp add: x_def centered_def qeq_def mod_simps)
  then have "qeq (decomp 1 a + e) (decomp 1 a + x)" by (intro qeq_add qeq_refl)
  then have e: "(decomp 1 a + e) mod 3329 = (decomp 1 a + x) mod 3329" by (simp add: qeq_def)
  consider "a = 0" "0 \<le> x" | "a = 0" "x < 0" | "a = 1" using assms(1) by linarith
  then show ?thesis
  proof cases
    case 1
    then have "(2 * x + 1664) div 3329 = 0" using x by (intro div_pos_pos_trivial) simp_all
    then show ?thesis unfolding e using 1 x by (simp add: decomp_def comp_def)
  next
    case 2
    have "x mod 3329 = x + 3329" using 2 x by (intro int_mod_pos_eq [where q = "- 1"]) simp_all
    moreover have "(2 * (x + 3329) + 1664) div 3329 = 2" using 2 x by (intro int_div_pos_eq [where r = "2 * x + 1664"]) simp_all
    ultimately show ?thesis unfolding e using 2 by (simp add: decomp_def comp_def)
  next
    case 3
    have "(2 * (1665 + x) + 1664) div 3329 = 1" using x by (intro int_div_pos_eq [where r = "2 * x + 1665"]) simp_all
    then show ?thesis unfolding e using 3 x by (simp add: decomp_def comp_def)
  qed
qed

section \<open>Decryption inverts encryption\<close>

lemma pke_runs:
  fixes e2 :: "int list"
  assumes p: "mlkem_parameters_valid p" and k: "k = par_k p"
    and matrix: "\<And>i j. i < k \<Longrightarrow> j < k \<Longrightarrow> canonical_poly (matrix ! i ! j)"
    and len: "length s = k" "length e = k" "length r = k" "length e1 = k"
    and small: "\<And>f. f \<in> set s \<union> set e \<union> set r \<union> set e1 \<Longrightarrow> canonical_poly f" "canonical_poly e2"
    and message: "length message = 32"
  defines "hat \<equiv> map (\<lambda>f. NTT f GenZeta)"
  defines "t \<equiv> keygen_public k matrix (hat s) (hat e)"
  defines "u \<equiv> encrypt_vector k matrix (hat r) e1"
  defines "v \<equiv> encrypt_scalar k t (hat r) e2 (map (decomp 1) (message_bits message)) (message_bits message)"
  defines "c \<equiv> ciphertext_of (par_du p) (par_dv p) u v"
  shows "length t = k" "decode_vector k 12 (concat (map (encoded_poly 12) t) @ rho) = Some (Inr t)"
    "encrypt_core p matrix t r e1 e2 message = Some (Inr c)" "length c = 32 * (par_du p * k + par_dv p)"
    "\<forall>n<256. small_noise (pke_noise p s e r e1 e2 u v n) \<Longrightarrow>
      K_PKE_Dec p True (concat (map (encoded_poly 12) (hat s))) c = Some (Inr message)"
proof -
  note d = parameters_bounds [OF p]
  have can: "\<And>i. i < k \<Longrightarrow> canonical_poly (s ! i)" "\<And>i. i < k \<Longrightarrow> canonical_poly (e ! i)"
    "\<And>i. i < k \<Longrightarrow> canonical_poly (r ! i)" "\<And>i. i < k \<Longrightarrow> canonical_poly (e1 ! i)"
    using small(1) len by simp_all
  let ?bits = "message_bits message" and ?m = "map (decomp 1) (message_bits message)"
  note bits = message_bits [OF message]
  have t: "length t = k" "\<And>i. i < k \<Longrightarrow> canonical_poly (t ! i)"
    using keygen_public [of k matrix "hat s" "hat e"] matrix can len by (simp_all add: t_def hat_def dot_spec_def)
  show "length t = k" by (rule t)
  show dec_t: "decode_vector k 12 (concat (map (encoded_poly 12) t) @ rho) = Some (Inr t)"
    by (rule decode_vector_run [OF t])
  have u: "length u = k" "\<And>i. i < k \<Longrightarrow> canonical_poly (u ! i)"
    using encrypt_vector(1,2) [of k matrix "hat r" e1] matrix can len by (simp_all add: u_def hat_def)
  then have us: "\<And>f. f \<in> set u \<Longrightarrow> canonical_poly f" by (auto simp: in_set_conv_nth)
  have v: "canonical_poly v"
    unfolding v_def hat_def using t can len small(2) message_poly_run [OF message] bits(2)
    by (intro encrypt_scalar) simp_all
  show "encrypt_core p matrix t r e1 e2 message = Some (Inr c)"
    using encode_ciphertext_run(1) [OF d(1-4) us v]
    by (simp add: encrypt_core_def Let_def message_poly_run [OF message] u_def v_def k hat_def c_def)
  show "length c = 32 * (par_du p * k + par_dv p)"
    using encode_ciphertext_run(2) [OF d(1-4) us v] u(1) by (simp add: c_def algebra_simps)
  have dec_s: "decode_vector k 12 (concat (map (encoded_poly 12) (hat s))) = Some (Inr (hat s))"
    using decode_vector_run [of "hat s" k "[]"] can(1) len by (simp add: hat_def)
  note dec_c = decode_ciphertext_run [OF d(1-4) u(1) us v]
  let ?w = "decrypt_scalar k (hat s) (map (recompress (par_du p)) u) (recompress (par_dv p) v)"
  have w: "?w = reduced (\<lambda>n. ?m ! n + pke_noise p s e r e1 e2 u v n)"
    unfolding u_def v_def t_def hat_def
    by (rule decrypt_polynomial)
      (use p k matrix can len small(2) message_poly_run [OF message] bits(2) in simp_all)
  assume noise: "\<forall>n<256. small_noise (pke_noise p s e r e1 e2 u v n)"
  have "map (comp 1) ?w = ?bits"
  proof (rule nth_equalityI)
    fix n assume "n < length (map (comp 1) ?w)"
    then have n: "n < 256" by (simp add: w reduced_def)
    moreover have "?bits ! n = 0 \<or> ?bits ! n = 1" using bits(2,3) n by simp
    ultimately show "map (comp 1) ?w ! n = ?bits ! n"
      using noise bits(2) rounding by (simp add: w reduced_def)
  qed (simp add: w reduced_def bits)
  then have "checked (Comp ?w 1) = Some (Inr ?bits)"
    using Comp_run [of 1 ?w] by (simp add: w)
  then show "K_PKE_Dec p True (concat (map (encoded_poly 12) (hat s))) c = Some (Inr message)"
    using p dec_s dec_c bits(4) by (simp add: K_PKE_Dec_def Let_def k c_def)
qed

text \<open>
  C9. Decryption recovers the message. Let a key pair and a ciphertext be computed as in key
  generation and encryption from any matrix, secrets and errors (all polynomials in canonical
  form), the public key passing through its encoding. If every coefficient of the noise polynomial
  \<open>e r + e2 + dv - s (e1 + du)\<close>, with the compression errors \<open>du\<close> and \<open>dv\<close>, lies between -832
  and 831 modulo 3329, then decryption returns exactly the message.
\<close>

theorem K_PKE_Dec_correct:
  fixes e2 :: "int list"
  assumes p: "mlkem_parameters_valid p"
    and matrix: "\<forall>i<par_k p. \<forall>j<par_k p. canonical_poly (matrix ! i ! j)"
    and lengths: "length s = par_k p" "length e = par_k p" "length r = par_k p" "length e1 = par_k p"
    and small: "\<forall>f\<in>set s \<union> set e \<union> set r \<union> set e1. canonical_poly f" "canonical_poly e2"
    and message: "length message = 32"
    and noise: "let hat = map (\<lambda>f. NTT f GenZeta);
        t = keygen_public (par_k p) matrix (hat s) (hat e);
        u = encrypt_vector (par_k p) matrix (hat r) e1;
        v = encrypt_scalar (par_k p) t (hat r) e2 (map (decomp 1) (message_bits message)) (message_bits message)
      in \<forall>n<256. small_noise (pke_noise p s e r e1 e2 u v n)"
  shows "\<exists>public_key private_key t ciphertext.
    encode_vector 12 (keygen_public (par_k p) matrix (map (\<lambda>f. NTT f GenZeta) s) (map (\<lambda>f. NTT f GenZeta) e)) =
      Some (Inr public_key) \<and>
    encode_vector 12 (map (\<lambda>f. NTT f GenZeta) s) = Some (Inr private_key) \<and>
    decode_vector (par_k p) 12 (public_key @ rho) = Some (Inr t) \<and>
    encrypt_core p matrix t r e1 e2 message = Some (Inr ciphertext) \<and>
    length ciphertext = 32 * (par_du p * par_k p + par_dv p) \<and>
    K_PKE_Dec p True private_key ciphertext = Some (Inr message)"
proof -
  let ?hat = "map (\<lambda>f. NTT f GenZeta)"
  let ?t = "keygen_public (par_k p) matrix (?hat s) (?hat e)"
  let ?u = "encrypt_vector (par_k p) matrix (?hat r) e1"
  let ?v = "encrypt_scalar (par_k p) ?t (?hat r) e2 (map (decomp 1) (message_bits message)) (message_bits message)"
  note runs = pke_runs [OF p refl _ lengths _ small(2) message, of matrix]
  have "decode_vector (par_k p) 12 (concat (map (encoded_poly 12) ?t) @ rho) = Some (Inr ?t)"
    "encrypt_core p matrix ?t r e1 e2 message = Some (Inr (ciphertext_of (par_du p) (par_dv p) ?u ?v))"
    "length (ciphertext_of (par_du p) (par_dv p) ?u ?v) = 32 * (par_du p * par_k p + par_dv p)"
    "K_PKE_Dec p True (concat (map (encoded_poly 12) (?hat s))) (ciphertext_of (par_du p) (par_dv p) ?u ?v) =
      Some (Inr message)"
    using noise matrix small(1) unfolding Let_def by (intro runs; blast)+
  then show ?thesis using encode_vector_run by blast
qed

text \<open>
  With zero secrets and errors the noise is the compression error of the second ciphertext part, at
  most 104 for ML-KEM-512.
\<close>

lemma negacyclic_zero: "n < 256 \<Longrightarrow> negacyclic ((!) (replicate 256 0)) F n = 0"
  unfolding negacyclic_def by (intro sum.neutral) auto

lemma pke_noise_zero:
  assumes "par_k p = k" "n < 256"
  shows "pke_noise p (replicate k (replicate 256 0)) (replicate k (replicate 256 0)) (replicate k (replicate 256 0))
      e1 (replicate 256 0) u v n = decomp (par_dv p) (comp (par_dv p) (v ! n)) - v ! n"
  using assms by (simp add: pke_noise_def negacyclic_zero)

lemma small_compression_noise:
  assumes "canonical_poly v" "n < 256"
  shows "small_noise (decomp 4 (comp 4 (v ! n)) - v ! n)"
  using decomp_comp [of 4 "v ! n"] canonical_poly_nth [OF assms]
  by (auto simp: small_noise_def compression_bound_def)

lemma K_PKE_Dec_correct_witness:
  "\<exists>public_key private_key t ciphertext.
    encode_vector 12 (keygen_public 2 (replicate 2 (replicate 2 (replicate 256 1)))
        (map (\<lambda>f. NTT f GenZeta) (replicate 2 (replicate 256 0)))
        (map (\<lambda>f. NTT f GenZeta) (replicate 2 (replicate 256 0)))) = Some (Inr public_key) \<and>
    encode_vector 12 (map (\<lambda>f. NTT f GenZeta) (replicate 2 (replicate 256 0))) = Some (Inr private_key) \<and>
    decode_vector 2 12 (public_key @ replicate 32 7) = Some (Inr t) \<and>
    encrypt_core (hd MLKEM_PARAMETER_SETS) (replicate 2 (replicate 2 (replicate 256 1))) t
      (replicate 2 (replicate 256 0)) (replicate 2 (replicate 256 0)) (replicate 256 0) (replicate 32 85) =
      Some (Inr ciphertext) \<and>
    length ciphertext = 768 \<and>
    K_PKE_Dec (hd MLKEM_PARAMETER_SETS) True private_key ciphertext = Some (Inr (replicate 32 85))"
proof -
  let ?p = "hd MLKEM_PARAMETER_SETS" and ?z = "replicate 2 (replicate 256 0) :: int list list"
  let ?matrix = "replicate 2 (replicate 2 (replicate 256 1)) :: int list list list"
  let ?message = "replicate 32 85 :: byte list" and ?hat = "map (\<lambda>f. NTT f GenZeta)"
  let ?m = "map (decomp 1) (message_bits ?message)"
  have k: "par_k ?p = 2" "par_dv ?p = 4" "par_du ?p = 10" by (simp_all add: MLKEM_PARAMETER_SETS_def)
  have p: "mlkem_parameters_valid ?p" by (simp add: MLKEM_PARAMETER_SETS_def mlkem_parameters_valid_def)
  have ones: "canonical_poly (replicate 256 1)" by (simp add: canonical_poly_def canonical_def)
  have nth: "\<And>i. i < 2 \<Longrightarrow> ?hat ?z ! i = NTT (replicate 256 0) GenZeta" by simp
  have A: "\<And>i j. i < 2 \<Longrightarrow> j < 2 \<Longrightarrow> canonical_poly (?matrix ! i ! j)" using ones by simp
  let ?t = "keygen_public 2 ?matrix (?hat ?z) (?hat ?z)"
  let ?v = "encrypt_scalar 2 ?t (?hat ?z) (replicate 256 0) ?m (message_bits ?message)"
  have t: "canonical_poly (?t ! i)" if "i < 2" for i
    using keygen_public(2) [of 2 ?matrix "?hat ?z" "?hat ?z" i] A nth that by (simp add: dot_spec_def)
  have "canonical_poly ?v"
    using t nth message_poly_run(2) [of ?message] message_bits(2) [of ?message] by (intro encrypt_scalar(1)) simp_all
  then have noise: "\<forall>n<256. small_noise (pke_noise ?p ?z ?z ?z ?z (replicate 256 0) u ?v n)" for u
    using pke_noise_zero [OF k(1)] small_compression_noise k(2) by presburger
  have size: "32 * (par_du ?p * 2 + par_dv ?p) = 768" using k by simp
  show ?thesis
    unfolding size [symmetric]
  proof (rule K_PKE_Dec_correct [where p = ?p and r = ?z and ?e2.0 = "replicate 256 0", unfolded k(1) Let_def, OF p])
    show "\<forall>i<2. \<forall>j<2. canonical_poly (?matrix ! i ! j)" using A by blast
    show "\<forall>f\<in>set ?z \<union> set ?z \<union> set ?z \<union> set ?z. canonical_poly f" by simp
    show "\<forall>n<256. small_noise (pke_noise ?p ?z ?z ?z ?z (replicate 256 0)
        (encrypt_vector 2 ?matrix (?hat ?z) ?z) ?v n)" by (rule noise)
  qed (simp_all only: length_replicate canonical_zero_poly)
qed

end
