(* ===== verification/ML_KEM_Checks.thy ===== *)
theory ML_KEM_Checks
  imports ML_KEM MLKEM_PKE_Correct
begin

text \<open>
  The parts of ML-KEM that decide: the branch-free comparison and selection of decapsulation, and
  the check of the public key, which is shown to be the modulus check of FIPS 203 (decoding and
  encoding again gives the same bytes).
\<close>

section \<open>Comparison and selection\<close>

lemma fold_or_zero:
  fixes f :: "nat \<Rightarrow> 'a :: len word"
  shows "fold (\<lambda>i w. w OR f i) xs a = 0 \<longleftrightarrow> a = 0 \<and> (\<forall>i\<in>set xs. f i = 0)"
  by (induction xs arbitrary: a) (auto simp: or_eq_0_iff)

lemma fold_or_byte:
  fixes f :: "nat \<Rightarrow> byte" and a :: u32
  assumes "\<forall>n\<ge>8. \<not> bit a n"
  shows "\<forall>n\<ge>8. \<not> bit (fold (\<lambda>i w. w OR ucast (f i)) xs a) n"
  using assms
proof (induction xs arbitrary: a)
  case (Cons i xs)
  have "\<forall>n\<ge>8. \<not> bit (a OR ucast (f i)) n" using Cons.prems by (auto simp: bit_simps dest: bit_imp_le_length)
  from Cons.IH [OF this] show ?case by simp
qed simp

lemma ucast_byte_zero: "(ucast (b :: byte) :: u32) = 0 \<longleftrightarrow> b = 0"
  by (simp add: word_unat_eq_iff)

lemma top_bit_31: "drop_bit 31 (w :: u32) = of_bool (bit w 31)"
proof (rule bit_word_eqI)
  fix n :: nat
  show "bit (drop_bit 31 w) n \<longleftrightarrow> bit (of_bool (bit w 31) :: u32) n"
    by (cases n) (auto simp: bit_simps dest: bit_imp_le_length)
qed

lemma bit_31: "bit (w :: u32) 31 \<longleftrightarrow> 2 ^ 31 \<le> unat w"
proof -
  have "unat w < 2 * 2 ^ 31" using unsigned_less [of w] by simp
  then have "unat w div 2 ^ 31 = of_bool (2 ^ 31 \<le> unat w)"
    by (cases "2 ^ 31 \<le> unat w") (auto intro: div_nat_eqI)
  moreover have "bit w 31 \<longleftrightarrow> bit (unat w) 31" by (simp add: bit_simps)
  ultimately show ?thesis by (simp add: bit_iff_odd)
qed

lemma nonzero_flag:
  fixes w :: u32
  assumes "\<not> bit w 31"
  shows "drop_bit 31 (w OR (0 - w)) = of_bool (w \<noteq> 0)"
proof (cases "w = 0")
  case False
  have "unat (w - 1) \<le> unat w" using False by (simp add: unat_minus_one)
  then have "\<not> bit (w - 1) 31" using assms unfolding bit_31 by simp
  then have "bit (- w) 31" unfolding minus_eq_not_minus_1 by (simp add: bit_simps)
  then show ?thesis using False by (simp add: top_bit_31 bit_simps)
qed simp

lemma xor_zero: "a XOR b = 0 \<longleftrightarrow> a = (b :: byte)"
  by (metis xor.assoc xor.left_neutral xor.right_neutral xor_self_eq)

lemma mlkem_mismatch:
  assumes "n \<le> length c" "n \<le> length c'"
  shows "mlkem_mismatch c c' n = of_bool (take n c \<noteq> take n c')"
proof -
  let ?m = "fold (\<lambda>i w. w OR ucast (c ! i XOR c' ! i)) [0..<n] (0 :: u32)"
  have "?m = 0 \<longleftrightarrow> (\<forall>i<n. (ucast (c ! i XOR c' ! i) :: u32) = 0)" by (auto simp: fold_or_zero)
  also have "\<dots> \<longleftrightarrow> (\<forall>i<n. c ! i = c' ! i)"
    by (simp add: ucast_byte_zero xor_zero)
  also have "\<dots> \<longleftrightarrow> take n c = take n c'" using assms by (auto simp: list_eq_iff_nth_eq)
  finally have zero: "?m = 0 \<longleftrightarrow> take n c = take n c'" .
  have "\<not> bit ?m 31" using fold_or_byte [of 0 "\<lambda>i. c ! i XOR c' ! i" "[0..<n]"] by simp
  then show ?thesis unfolding mlkem_mismatch_def Let_def zero [symmetric] by (rule nonzero_flag)
qed

lemma mlkem_select:
  assumes "length ss = 32" "length rejected = 32"
  shows "mlkem_select (of_bool b) ss rejected = (if b then rejected else ss)"
proof -
  have "(ucast (- 1 :: u32) :: byte) = - 1" by (simp add: bit_eq_iff bit_simps)
  then show ?thesis
    using assms by (auto simp: mlkem_select_def Let_def intro!: nth_equalityI)
qed

section \<open>The modulus check\<close>

definition digit12 :: "byte list \<Rightarrow> nat \<Rightarrow> nat" where
  "digit12 xs j =
     (let n = 3 * (j div 2)
      in if even j then unat (xs ! n) + 256 * (unat (xs ! (n + 1)) mod 16)
         else unat (xs ! (n + 1)) div 16 + 16 * unat (xs ! (n + 2)))"

lemma nat_of_le_drop:
  assumes "n \<le> length xs"
  shows "nat_of_le xs div 256 ^ n = nat_of_le (drop n xs)"
proof -
  have "nat_of_le xs = nat_of_le (take n xs) + 256 ^ n * nat_of_le (drop n xs)"
    using assms nat_of_le_append [of "take n xs" "drop n xs"] by simp
  moreover have "nat_of_le (take n xs) < 256 ^ n" using nat_of_le_bound [of "take n xs"] assms by simp
  ultimately show ?thesis by simp
qed

lemma two_digits:
  fixes a b c r :: nat
  assumes "a < 256" "b < 256" "c < 256"
  shows "(a + 256 * (b + 256 * (c + 256 * r))) mod 4096 = a + 256 * (b mod 16)"
    "(a + 256 * (b + 256 * (c + 256 * r))) div 4096 mod 4096 = b div 16 + 16 * c"
proof -
  define q where "q = b div 16"
  define l where "l = b mod 16"
  have b: "b = l + 16 * q" "l < 16" "q < 16" using assms(2) by (simp_all add: q_def l_def)
  have e: "a + 256 * (b + 256 * (c + 256 * r)) = (a + 256 * l) + 4096 * ((q + 16 * c) + 4096 * r)"
    unfolding b(1) by simp
  have low: "a + 256 * l < 4096" "q + 16 * c < 4096" using assms b by simp_all
  have "(x + 4096 * y) mod 4096 = x" "(x + 4096 * y) div 4096 = y" if "x < 4096" for x y :: nat
    using that by simp_all
  note split = this [OF low(1)] this [OF low(2)]
  show "(a + 256 * (b + 256 * (c + 256 * r))) mod 4096 = a + 256 * (b mod 16)"
    unfolding e l_def [symmetric] by (rule split)
  show "(a + 256 * (b + 256 * (c + 256 * r))) div 4096 mod 4096 = b div 16 + 16 * c"
    unfolding e q_def [symmetric] split by (rule refl)
qed

lemma digit12:
  assumes "3 * (j div 2) + 2 < length xs"
  shows "nat_of_le xs div 2 ^ (12 * j) mod 2 ^ 12 = digit12 xs j"
proof -
  define n where "n = 3 * (j div 2)"
  define l where "l = nat_of_le (drop n xs)"
  obtain r where r: "drop n xs = xs ! n # xs ! (n + 1) # xs ! (n + 2) # r"
    using assms by (auto simp: n_def Cons_nth_drop_Suc [symmetric])
  have l: "l = unat (xs ! n) + 256 * (unat (xs ! (n + 1)) + 256 * (unat (xs ! (n + 2)) + 256 * nat_of_le r))"
    by (simp add: l_def r)
  note digits = two_digits [OF unat_byte_less unat_byte_less unat_byte_less, of "xs ! n" "xs ! (n + 1)" "xs ! (n + 2)" "nat_of_le r"]
  have p: "(2 :: nat) ^ (12 * j) = 256 ^ n * 4096 ^ (j mod 2)"
  proof -
    have j: "12 * j = 8 * n + 12 * (j mod 2)" unfolding n_def by presburger
    show ?thesis unfolding j power_add power_mult by simp
  qed
  have "nat_of_le xs div 2 ^ (12 * j) = l div 4096 ^ (j mod 2)"
    unfolding p div_mult2_eq l_def using assms by (subst nat_of_le_drop) (simp_all add: n_def)
  then show ?thesis
    using digits unfolding l by (cases "even j") (simp_all add: digit12_def n_def Let_def odd_iff_mod_2_eq_one even_iff_mod_2_eq_zero)
qed

text \<open>One step of the check reads two digits and flags those of 3329 and more.\<close>

lemma high_flag:
  fixes w :: u32
  assumes "unat w < 4096"
  shows "drop_bit 31 (3329 - 1 - w) = 0 \<longleftrightarrow> unat w < 3329"
proof (cases "unat w < 3329")
  case True
  then have "w \<le> 3328" by (simp add: word_le_nat_alt)
  then have "unat (3328 - w) = 3328 - unat w" by (simp add: unat_sub)
  then have "\<not> bit (3328 - w) 31" unfolding bit_31 by simp
  then show ?thesis using True by (simp add: top_bit_31)
next
  case False
  define v where "v = w - 3329"
  have "3329 \<le> w" using False by (simp add: word_le_nat_alt)
  then have "unat v = unat w - 3329" by (simp add: v_def unat_sub)
  then have "\<not> bit v 31" using assms unfolding bit_31 by simp
  moreover have "3328 - w = NOT v" by (simp add: v_def not_eq_complement)
  ultimately have "bit (3328 - w) 31" by (simp add: bit_simps)
  then show ?thesis using False by (simp add: top_bit_31)
qed

lemma canonical_step:
  fixes b0 b1 b2 :: byte and first second :: u32
  defines "first \<equiv> ucast b0 OR push_bit 8 (ucast b1 AND 15)"
  defines "second \<equiv> drop_bit 4 (ucast b1) OR push_bit 4 (ucast b2)"
  shows "unat first = unat b0 + 256 * (unat b1 mod 16)" "unat second = unat b1 div 16 + 16 * unat b2"
proof -
  have b: "unat b0 < 256" "unat b1 < 256" "unat b2 < 256" by (rule unat_byte_less)+
  have mask: "(15 :: u32) = mask 4" by (simp add: mask_eq_exp_minus_1)
  have low: "unat (ucast b1 AND 15 :: u32) = unat b1 mod 16"
    unfolding mask take_bit_eq_mask [symmetric] by (simp only: unsigned_take_bit_eq unat_ucast_byte) (simp add: take_bit_eq_mod)
  have "unat (drop_bit 4 (ucast b1 :: u32)) = unat b1 div 16"
    by (simp only: unat_drop_bit_eq unat_ucast_byte) (simp add: drop_bit_eq_div)
  moreover have "unat (ucast b0 OR push_bit 8 (ucast b1 AND 15) :: u32) = unat b0 + (unat b1 mod 16) * 2 ^ 8"
    by (subst unat_join) (use b in \<open>simp_all add: low\<close>)
  ultimately show "unat first = unat b0 + 256 * (unat b1 mod 16)" "unat second = unat b1 div 16 + 16 * unat b2"
    unfolding first_def second_def by (simp, subst unat_join) (use b in simp_all)
qed

lemma mlkem_public_key_is_canonical_digits:
  "mlkem_public_key_is_canonical pk (384 * k + 32) \<longleftrightarrow> (\<forall>j<256 * k. digit12 pk j < 3329)"
proof -
  let ?first = "\<lambda>n. ucast (pk ! (3 * n)) OR push_bit 8 (ucast (pk ! (3 * n + 1)) AND 15) :: u32"
  let ?second = "\<lambda>n. drop_bit 4 (ucast (pk ! (3 * n + 1))) OR push_bit 4 (ucast (pk ! (3 * n + 2))) :: u32"
  have steps: "(384 * k + 32 - 32 + 2) div 3 = 128 * k" by simp
  have flag: "drop_bit 31 (3329 - 1 - ?first n) OR drop_bit 31 (3329 - 1 - ?second n) = 0 \<longleftrightarrow>
      digit12 pk (2 * n) < 3329 \<and> digit12 pk (2 * n + 1) < 3329" for n
  proof -
    have b: "unat (pk ! (3 * n)) < 256" "unat (pk ! (3 * n + 1)) < 256" "unat (pk ! (3 * n + 2)) < 256"
      by (rule unat_byte_less)+
    have f: "unat (?first n) = digit12 pk (2 * n)" and s: "unat (?second n) = digit12 pk (2 * n + 1)"
      by (simp_all only: canonical_step) (simp_all add: digit12_def Let_def)
    have "digit12 pk (2 * n) < 4096" "digit12 pk (2 * n + 1) < 4096" using b by (simp_all add: digit12_def Let_def)
    then show ?thesis unfolding or_eq_0_iff f [symmetric] s [symmetric] by (simp only: high_flag)
  qed
  have "mlkem_public_key_is_canonical pk (384 * k + 32) \<longleftrightarrow>
      fold (\<lambda>n w. w OR (drop_bit 31 (3329 - 1 - ?first n) OR drop_bit 31 (3329 - 1 - ?second n))) [0..<128 * k] 0 = 0"
    unfolding mlkem_public_key_is_canonical_def Let_def steps or.assoc ..
  also have "\<dots> \<longleftrightarrow> (\<forall>n<128 * k. digit12 pk (2 * n) < 3329 \<and> digit12 pk (2 * n + 1) < 3329)"
    unfolding fold_or_zero flag by auto
  also have "\<dots> \<longleftrightarrow> (\<forall>j<256 * k. digit12 pk j < 3329)"
  proof (intro iffI allI impI)
    fix j assume all: "\<forall>n<128 * k. digit12 pk (2 * n) < 3329 \<and> digit12 pk (2 * n + 1) < 3329" and j: "j < 256 * k"
    then have "j div 2 < 128 * k" by simp
    with all have "digit12 pk (2 * (j div 2)) < 3329" "digit12 pk (2 * (j div 2) + 1) < 3329" by blast+
    then show "digit12 pk j < 3329" by (cases "even j") simp_all
  qed simp
  finally show ?thesis .
qed

lemma digit12_drop: "384 * i \<le> length xs \<Longrightarrow> digit12 (drop (i * 384) xs) j = digit12 xs (256 * i + j)"
proof -
  assume "384 * i \<le> length xs"
  moreover have "(256 * i + j) div 2 = 128 * i + j div 2" "even (256 * i + j) \<longleftrightarrow> even j" by simp_all
  ultimately show ?thesis by (simp add: digit12_def Let_def algebra_simps)
qed

lemma blocks_all: "(\<forall>j<256 * k. P j) \<longleftrightarrow> (\<forall>i<k. \<forall>j<256. P (256 * i + j))" for k :: nat
proof (intro iffI allI impI)
  fix i j assume "\<forall>j<256 * k. P j" "i < k" "j < (256 :: nat)"
  moreover have "256 * i + j < 256 * k" using \<open>i < k\<close> \<open>j < 256\<close> by simp
  ultimately show "P (256 * i + j)" by blast
next
  fix j assume all: "\<forall>i<k. \<forall>j<256. P (256 * i + j)" and j: "j < 256 * k"
  have "j div 256 < k" "j mod 256 < 256" using j by (simp_all add: less_mult_imp_div_less)
  with all have "P (256 * (j div 256) + j mod 256)" by blast
  then show "P j" by simp
qed

text \<open>Decoding and encoding again changes the bytes exactly when some digit is not reduced.\<close>

lemma reencode_iff:
  assumes "length xs = 384"
  shows "ByteEncode (snd (ByteDecode xs 12)) 12 = (0, xs) \<longleftrightarrow> (\<forall>j<256. digit12 xs j < 3329)"
proof -
  have digit: "nat_of_le xs div 2 ^ (12 * j) mod 2 ^ 12 = digit12 xs j" if "j < 256" for j
  proof (rule digit12)
    have "j div 2 < 128" using that by (simp add: less_mult_imp_div_less)
    then show "3 * (j div 2) + 2 < length xs" using assms by simp
  qed
  show ?thesis
  proof
    assume "\<forall>j<256. digit12 xs j < 3329"
    then show "ByteEncode (snd (ByteDecode xs 12)) 12 = (0, xs)"
      using assms digit by (intro encode_decode) (simp_all add: modulus_of_def)
  next
    assume same: "ByteEncode (snd (ByteDecode xs 12)) 12 = (0, xs)"
    let ?f = "snd (ByteDecode xs 12)"
    have f: "?f ! j = int (digit12 xs j mod 3329)" if "j < 256" for j
      using that assms digit [OF that] by (simp add: ByteDecode_eq modulus_of_def)
    let ?F = "\<lambda>j. nat (?f ! j mod 2 ^ 12)"
    have F: "\<forall>j<256. ?F j < 2 ^ 12" by (simp add: nat_less_iff)
    have "xs = le_of_nat 384 (packed 12 ?F 256)" using same by (simp add: ByteEncode_eq)
    then have "nat_of_le xs = packed 12 ?F 256 mod 256 ^ 384" by (metis nat_of_le_of_nat)
    moreover have "packed 12 ?F 256 < 256 ^ 384"
      using packed_less [OF F] pow256 [of 384] by simp
    ultimately have "nat_of_le xs = packed 12 ?F 256" by simp
    then have "digit12 xs j = ?F j" if "j < 256" for j
      using packed_digit [OF F that] digit [OF that] by simp
    moreover have "?F j < 3329" if "j < 256" for j
      using f [OF that] by (simp add: nat_less_iff)
    ultimately show "\<forall>j<256. digit12 xs j < 3329" by simp
  qed
qed

lemma digit12_take: "3 * (j div 2) + 2 < n \<Longrightarrow> digit12 (take n xs) j = digit12 xs j"
  by (simp add: digit12_def Let_def)

lemma modulus_check:
  assumes "length pk = 384 * k + 32"
  shows "mlkem_public_key_is_canonical pk (384 * k + 32) \<longleftrightarrow>
    (\<forall>i<k. ByteEncode (snd (ByteDecode (take 384 (drop (i * 384) pk)) 12)) 12 = (0, take 384 (drop (i * 384) pk)))"
proof -
  have "ByteEncode (snd (ByteDecode (take 384 (drop (i * 384) pk)) 12)) 12 = (0, take 384 (drop (i * 384) pk)) \<longleftrightarrow>
      (\<forall>j<256. digit12 pk (256 * i + j) < 3329)" if i: "i < k" for i
  proof -
    have len: "i * 384 + 384 \<le> length pk" using i assms mult_le_mono1 [of "Suc i" k 384] by simp
    have "digit12 (take 384 (drop (i * 384) pk)) j = digit12 pk (256 * i + j)" if "j < 256" for j
    proof -
      have "j div 2 < 128" using that by (simp add: less_mult_imp_div_less)
      then show ?thesis using len by (simp add: digit12_take digit12_drop)
    qed
    then show ?thesis using len by (subst reencode_iff) simp_all
  qed
  then show ?thesis unfolding mlkem_public_key_is_canonical_digits blocks_all by simp
qed

text \<open>
  C14. The key check of encapsulation is the modulus check of FIPS 203: a public key passes exactly
  when every polynomial in it survives decoding and encoding, so when no 12-bit digit of it
  reaches the modulus.
\<close>

theorem mlkem_public_key_is_canonical_correct:
  assumes "length pk = 384 * k + 32"
  shows "mlkem_public_key_is_canonical pk (384 * k + 32) \<longleftrightarrow>
    (\<forall>i<k. ByteEncode (snd (ByteDecode (take 384 (drop (i * 384) pk)) 12)) 12 = (0, take 384 (drop (i * 384) pk)))"
  by (rule modulus_check [OF assms])

lemma mlkem_public_key_is_canonical_correct_witness:
  "\<not> mlkem_public_key_is_canonical (replicate 800 254) 800 \<and>
    (\<exists>i<2. ByteEncode (snd (ByteDecode (take 384 (drop (i * 384) (replicate 800 254))) 12)) 12 \<noteq>
      (0, take 384 (drop (i * 384) (replicate 800 254))))"
proof -
  have "digit12 (replicate 800 254) 0 = 3838" by (simp add: digit12_def Let_def)
  then have "\<not> digit12 (replicate 800 254) 0 < 3329" by simp
  then have "\<not> mlkem_public_key_is_canonical (replicate 800 254) 800"
    using mlkem_public_key_is_canonical_digits [of "replicate 800 254" 2] by fastforce
  then show ?thesis
    using mlkem_public_key_is_canonical_correct [of "replicate 800 254" 2] by auto
qed

end
