(* ===== verification/ML_KEM_Correct.thy ===== *)
theory ML_KEM_Correct
  imports ML_KEM_Checks
begin

text \<open>
  The correctness of ML-KEM: when its runs return, what decapsulation computes (the implicit
  rejection of FIPS 203), the recovery of the shared secret, and the entry points on every branch.
\<close>

section \<open>Sampling runs\<close>

definition starved :: "byte list \<Rightarrow> bool" where
  "starved input \<longleftrightarrow> (\<forall>n. \<not> enough input n)"

definition sampled :: "'a list run \<Rightarrow> 'a list" where
  "sampled r = (case r of Some (Inr a) \<Rightarrow> a | _ \<Rightarrow> [])"

lemma sampled_run [simp]: "sampled (Some (Inr a)) = a"
  by (simp add: sampled_def)

lemma sample_entry_run:
  "sample_entry rho i j = None \<and> starved (take 32 rho @ [of_nat j, of_nat i]) \<or>
   (\<exists>f. sample_entry rho i j = Some (Inr f) \<and> canonical_poly f)"
proof (cases "SampleNTT (take 32 rho @ [of_nat j, of_nat i])")
  case None
  then show ?thesis by (simp add: sample_entry_def starved_def SampleNTT_eq split: if_splits)
next
  case (Some r)
  obtain code f where r: "r = (code, f)" by (cases r)
  note c = SampleNTT_canonical [OF Some [unfolded r]]
  have "canonical_poly f" using c(2,3) by (auto simp: canonical_poly_def)
  then show ?thesis using Some r c(1) by (simp add: sample_entry_def)
qed

lemma each_total:
  assumes "\<And>i. i \<in> set is \<Longrightarrow> f i = None \<and> Q i \<or> (\<exists>a. f i = Some (Inr a) \<and> P i a)"
  shows "each f is = None \<and> (\<exists>i\<in>set is. Q i) \<or>
    (\<exists>as. each f is = Some (Inr as) \<and> length as = length is \<and> (\<forall>n<length is. P (is ! n) (as ! n)))"
  using assms
proof (induction "is")
  case (Cons i "is")
  have IH: "each f is = None \<and> (\<exists>i\<in>set is. Q i) \<or>
    (\<exists>as. each f is = Some (Inr as) \<and> length as = length is \<and> (\<forall>n<length is. P (is ! n) (as ! n)))"
    using Cons by simp
  from Cons.prems [of i] consider "f i = None" "Q i" | a where "f i = Some (Inr a)" "P i a" by auto
  then show ?case
  proof cases
    case (2 a)
    from IH show ?thesis
    proof
      assume "\<exists>as. each f is = Some (Inr as) \<and> length as = length is \<and> (\<forall>n<length is. P (is ! n) (as ! n))"
      then obtain as where as: "each f is = Some (Inr as)" "length as = length is" "\<forall>n<length is. P (is ! n) (as ! n)" by blast
      have "\<forall>n<Suc (length is). P ((i # is) ! n) ((a # as) ! n)" using 2 as(3) by (simp add: nth_Cons split: nat.splits)
      then show ?thesis using 2 as by (intro disjI2 exI [of _ "a # as"]) simp
    qed (use 2 in auto)
  qed simp
qed simp

lemma sample_matrix_run:
  "sample_matrix k rho = None \<and> (\<exists>i<k. \<exists>j<k. starved (take 32 rho @ [of_nat j, of_nat i])) \<or>
   (\<exists>matrix. sample_matrix k rho = Some (Inr matrix) \<and> (\<forall>i<k. \<forall>j<k. canonical_poly (matrix ! i ! j)))"
proof -
  have row: "each (\<lambda>j. sample_entry rho i j) [0..<k] = None \<and> (\<exists>j<k. starved (take 32 rho @ [of_nat j, of_nat i])) \<or>
      (\<exists>row. each (\<lambda>j. sample_entry rho i j) [0..<k] = Some (Inr row) \<and> (\<forall>j<k. canonical_poly (row ! j)))" for i
    using each_total [of "[0..<k]" "sample_entry rho i" "\<lambda>j. starved (take 32 rho @ [of_nat j, of_nat i])" "\<lambda>_. canonical_poly",
        OF sample_entry_run] by auto
  show ?thesis
    using each_total [of "[0..<k]" "\<lambda>i. each (\<lambda>j. sample_entry rho i j) [0..<k]"
        "\<lambda>i. \<exists>j<k. starved (take 32 rho @ [of_nat j, of_nat i])" "\<lambda>_ row. \<forall>j<k. canonical_poly (row ! j)", OF row]
    by (auto simp: sample_matrix_def)
qed

lemma sample_small_run:
  assumes "eta = 2 \<or> eta = 3"
  shows "\<exists>f. sample_small eta seed nonce = Some (Inr f) \<and> canonical_poly f"
proof -
  define bytes where "bytes = crypto_shake256 (64 * eta) (take 32 seed @ [of_nat nonce])"
  define f where "f = snd (SamplePolyCBD bytes (64 * eta))"
  have "SamplePolyCBD bytes (64 * eta) = (0, f)" "length f = 256"
    using SamplePolyCBD_nth(1,2) [OF assms, of bytes] by (simp_all add: f_def prod_eq_iff)
  moreover have "canonical_poly f"
    using SamplePolyCBD_canonical [OF assms] \<open>length f = 256\<close> by (simp add: canonical_poly_def f_def)
  moreover have "checked (PRF eta seed (of_nat nonce)) = Some (Inr bytes)"
    using assms by (auto simp: PRF_def bytes_def)
  ultimately show ?thesis by (simp add: sample_small_def)
qed

lemma sample_vector_run:
  assumes "eta = 2 \<or> eta = 3"
  shows "\<exists>fs. sample_vector k eta seed nonce = Some (Inr fs) \<and> length fs = k \<and> (\<forall>f\<in>set fs. canonical_poly f)"
  using each_total [of "[0..<k]" "\<lambda>i. sample_small eta seed (nonce + i)" "\<lambda>_. False" "\<lambda>_. canonical_poly"]
    sample_small_run [OF assms] by (auto simp: sample_vector_def in_set_conv_nth)

section \<open>Key generation and encryption return\<close>

lemma hash_lengths [simp]:
  "length (hash_H x) = 32" "length (hash_J x) = 32" "length (fst (hash_G x)) = 32" "length (snd (hash_G x)) = 32"
  by (simp_all add: hash_H_def hash_J_def hash_G_def crypto_sha3_256_def crypto_sha3_512_def crypto_shake256_def
      sha3_fixed_def length_squeeze Let_def)

definition key_secrets ::
    "mlkem_parameters \<Rightarrow> byte list \<Rightarrow> int list list list \<Rightarrow> int list list \<Rightarrow> int list list \<Rightarrow> bool" where
  "key_secrets p seed matrix s e \<longleftrightarrow>
     (let k = par_k p; (rho, sigma) = hash_G (take 32 seed @ [of_nat k])
      in sample_matrix k rho = Some (Inr matrix) \<and> sample_vector k (par_eta1 p) sigma 0 = Some (Inr s) \<and>
         sample_vector k (par_eta1 p) sigma k = Some (Inr e))"

lemma K_PKE_KeyGen_run:
  assumes p: "mlkem_parameters_valid p" and k: "k = par_k p" and rho: "rho = fst (hash_G (take 32 seed @ [of_nat k]))"
  shows "K_PKE_KeyGen p True seed = None \<and> (\<exists>i<k. \<exists>j<k. starved (rho @ [of_nat j, of_nat i])) \<or>
    (\<exists>matrix s e. key_secrets p seed matrix s e \<and> (\<forall>i<k. \<forall>j<k. canonical_poly (matrix ! i ! j)) \<and>
      length s = k \<and> length e = k \<and> (\<forall>f\<in>set s \<union> set e. canonical_poly f) \<and>
      (let hat = map (\<lambda>f. NTT f GenZeta); t = keygen_public k matrix (hat s) (hat e)
       in K_PKE_KeyGen p True seed =
         Some (Inr (concat (map (encoded_poly 12) t) @ rho, concat (map (encoded_poly 12) (hat s))))))"
proof -
  obtain sigma where G: "hash_G (take 32 seed @ [of_nat k]) = (rho, sigma)" by (metis rho prod.collapse)
  have "length rho = 32" by (simp add: rho)
  then have rho32: "take 32 rho = rho" by simp
  obtain s e where s: "sample_vector k (par_eta1 p) sigma 0 = Some (Inr s)" "length s = k" "\<forall>f\<in>set s. canonical_poly f"
    and e: "sample_vector k (par_eta1 p) sigma k = Some (Inr e)" "length e = k" "\<forall>f\<in>set e. canonical_poly f"
    using sample_vector_run [OF parameters_bounds(7) [OF p]] by meson
  from sample_matrix_run [of k rho, unfolded rho32] show ?thesis
  proof
    assume m: "\<exists>matrix. sample_matrix k rho = Some (Inr matrix) \<and> (\<forall>i<k. \<forall>j<k. canonical_poly (matrix ! i ! j))"
    then obtain matrix where "sample_matrix k rho = Some (Inr matrix)" "\<forall>i<k. \<forall>j<k. canonical_poly (matrix ! i ! j)" by blast
    then show ?thesis
      using p s e G encode_vector_run
      by (intro disjI2 exI [of _ matrix] exI [of _ s] exI [of _ e])
        (auto simp: K_PKE_KeyGen_def key_secrets_def Let_def k [symmetric])
  qed (use p G in \<open>simp add: K_PKE_KeyGen_def Let_def k [symmetric]\<close>)
qed

lemma length_encoded_vector: "length (concat (map (encoded_poly 12) fs)) = 384 * length fs"
  using ByteEncode_run [of 12] length_concat_equal [of "map (encoded_poly 12) fs" 384] by simp

lemma K_PKE_Enc_run:
  assumes p: "mlkem_parameters_valid p" and k: "k = par_k p" and rho: "length rho = 32"
    and matrix: "sample_matrix k rho = Some (Inr matrix)" "\<forall>i<k. \<forall>j<k. canonical_poly (matrix ! i ! j)"
    and s: "length s = k" "length e = k" "\<forall>f\<in>set s \<union> set e. canonical_poly f"
    and message: "length message = 32"
  defines "hat \<equiv> map (\<lambda>f. NTT f GenZeta)"
  defines "t \<equiv> keygen_public k matrix (hat s) (hat e)"
  shows "\<exists>r e1 e2 c. sample_vector k (par_eta1 p) randomness 0 = Some (Inr r) \<and>
    sample_vector k (par_eta2 p) randomness k = Some (Inr e1) \<and>
    sample_small (par_eta2 p) randomness (2 * k) = Some (Inr e2) \<and>
    K_PKE_Enc p True (concat (map (encoded_poly 12) t) @ rho) message randomness = Some (Inr c) \<and>
    length c = 32 * (par_du p * k + par_dv p) \<and>
    (let u = encrypt_vector k matrix (hat r) e1;
         v = encrypt_scalar k t (hat r) e2 (map (decomp 1) (message_bits message)) (message_bits message)
     in (\<forall>n<256. small_noise (pke_noise p s e r e1 e2 u v n)) \<longrightarrow>
        K_PKE_Dec p True (concat (map (encoded_poly 12) (hat s))) c = Some (Inr message))"
proof -
  have eta: "par_eta1 p = 2 \<or> par_eta1 p = 3" "par_eta2 p = 2 \<or> par_eta2 p = 3"
    using parameters_bounds(7,8) [OF p] by simp_all
  obtain r where r: "sample_vector k (par_eta1 p) randomness 0 = Some (Inr r)" "length r = k" "\<forall>f\<in>set r. canonical_poly f"
    using sample_vector_run [OF eta(1)] by meson
  obtain e1 where e1: "sample_vector k (par_eta2 p) randomness k = Some (Inr e1)" "length e1 = k" "\<forall>f\<in>set e1. canonical_poly f"
    using sample_vector_run [OF eta(2)] by meson
  obtain e2 where e2: "sample_small (par_eta2 p) randomness (2 * k) = Some (Inr e2)" "canonical_poly e2"
    using sample_small_run [OF eta(2)] by meson
  have A: "\<And>i j. i < k \<Longrightarrow> j < k \<Longrightarrow> canonical_poly (matrix ! i ! j)" using matrix(2) by blast
  have small: "\<And>f. f \<in> set s \<union> set e \<union> set r \<union> set e1 \<Longrightarrow> canonical_poly f" using s(3) r(3) e1(3) by blast
  note runs = pke_runs [OF p k A s(1,2) r(2) e1(2) small e2(2) message, folded hat_def, folded t_def]
  have "drop (k * 384) (concat (map (encoded_poly 12) t) @ rho) = rho"
    using runs(1) by (simp add: length_encoded_vector)
  then have "K_PKE_Enc p True (concat (map (encoded_poly 12) t) @ rho) message randomness =
      encrypt_core p matrix t r e1 e2 message"
    using p rho matrix(1) r(1) e1(1) e2(1) runs(2) [of rho]
    by (simp add: K_PKE_Enc_def Let_def k [symmetric] del: drop_append take_append)
  with runs(3) have enc: "K_PKE_Enc p True (concat (map (encoded_poly 12) t) @ rho) message randomness =
      Some (Inr (ciphertext_of (par_du p) (par_dv p) (encrypt_vector k matrix (hat r) e1)
        (encrypt_scalar k t (hat r) e2 (map (decomp 1) (message_bits message)) (message_bits message))))"
    by (simp only:)
  show ?thesis
    unfolding Let_def by (intro exI conjI impI; (rule r(1) e1(1) e2(1) enc runs(4) runs(5); assumption?))
qed

section \<open>Recovery of the shared secret\<close>

definition large_noise :: "int \<Rightarrow> bool" where
  "large_noise a \<longleftrightarrow> centered a < - 832 \<or> 831 < centered a"

lemma large_noise: "large_noise a \<longleftrightarrow> \<not> small_noise a"
  by (auto simp: large_noise_def small_noise_def)

text \<open>The noise of the encryption that encapsulation performs, from the samples of the two parties.\<close>

definition mlkem_noise :: "mlkem_parameters \<Rightarrow> byte list \<Rightarrow> byte list \<Rightarrow> byte list \<Rightarrow> nat \<Rightarrow> int" where
  "mlkem_noise p seed public_key message =
     (let k = par_k p;
          (rho, sigma) = hash_G (take 32 seed @ [of_nat k]);
          randomness = snd (hash_G (take 32 message @ hash_H public_key));
          matrix = sampled (sample_matrix k rho);
          s = sampled (sample_vector k (par_eta1 p) sigma 0);
          e = sampled (sample_vector k (par_eta1 p) sigma k);
          r = sampled (sample_vector k (par_eta1 p) randomness 0);
          e1 = sampled (sample_vector k (par_eta2 p) randomness k);
          e2 = sampled (sample_small (par_eta2 p) randomness (2 * k));
          hat = map (\<lambda>f. NTT f GenZeta);
          t = keygen_public k matrix (hat s) (hat e);
          u = encrypt_vector k matrix (hat r) e1;
          v = encrypt_scalar k t (hat r) e2 (map (decomp 1) (message_bits message)) (message_bits message)
      in pke_noise p s e r e1 e2 u v)"

lemma own_public_key_canonical:
  assumes "\<And>f. f \<in> set t \<Longrightarrow> canonical_poly f" "length t = k" "length rho = 32"
  shows "mlkem_public_key_is_canonical (concat (map (encoded_poly 12) t) @ rho) (384 * k + 32)"
proof (subst modulus_check)
  show "length (concat (map (encoded_poly 12) t) @ rho) = 384 * k + 32"
    using assms by (simp add: length_encoded_vector)
  have "ByteEncode (snd (ByteDecode (take 384 (drop (i * 384) (concat (map (encoded_poly 12) t) @ rho))) 12)) 12 =
      (0, take 384 (drop (i * 384) (concat (map (encoded_poly 12) t) @ rho)))" if i: "i < k" for i
  proof -
    have "\<exists>rest'. drop (i * 384) (concat (map (encoded_poly 12) t) @ rho) = map (encoded_poly 12) t ! i @ rest'"
      using ByteEncode_run [of 12] assms(2) i by (intro drop_concat) auto
    then have block: "take 384 (drop (i * 384) (concat (map (encoded_poly 12) t) @ rho)) = encoded_poly 12 (t ! i)"
      using ByteEncode_run [of 12 "t ! i"] assms(2) i by (auto simp del: drop_append)
    have c: "canonical_poly (t ! i)" using assms i by simp
    have "ByteDecode (snd (ByteEncode (t ! i) 12) @ []) 12 = (0, t ! i)"
      using canonical_poly_length [OF c] canonical_modulus [OF c] by (intro decode_encode) simp_all
    then show ?thesis
      unfolding block using ByteEncode_eq [of 12 "t ! i"] by (simp add: encoded_poly_def)
  qed
  then show "\<forall>i<k. ByteEncode (snd (ByteDecode (take 384 (drop (i * 384) (concat (map (encoded_poly 12) t) @ rho))) 12)) 12 =
      (0, take 384 (drop (i * 384) (concat (map (encoded_poly 12) t) @ rho)))" by blast
qed

text \<open>The parts of a private key.\<close>

lemma private_key_parts:
  assumes "length a = 384 * k" "length b = 384 * k + 32" "length h = 32" "length z = 32"
  shows "take (384 * k) (a @ b @ h @ z) = a" "take (384 * k + 32) (drop (384 * k) (a @ b @ h @ z)) = b"
    "take 32 (drop (768 * k + 32) (a @ b @ h @ z)) = h" "take 32 (drop (768 * k + 64) (a @ b @ h @ z)) = z"
    "length (a @ b @ h @ z) = 768 * k + 96"
  using assms by simp_all

lemma shared_secret_recovered:
  assumes p: "mlkem_parameters_valid p" and k: "k = par_k p" and rho: "rho = fst (hash_G (take 32 seed @ [of_nat k]))"
    and secrets: "key_secrets p seed matrix s e" "\<forall>i<k. \<forall>j<k. canonical_poly (matrix ! i ! j)"
    and len: "length s = k" "length e = k" "\<forall>f\<in>set s \<union> set e. canonical_poly f"
    and z: "length z = 32" and message: "length message = 32"
  defines "hat \<equiv> map (\<lambda>f. NTT f GenZeta)"
  defines "t \<equiv> keygen_public k matrix (hat s) (hat e)"
  defines "pk \<equiv> concat (map (encoded_poly 12) t) @ rho"
  defines "sk \<equiv> concat (map (encoded_poly 12) (hat s)) @ pk @ hash_H pk @ z"
  shows "length pk = 384 * k + 32" "length sk = 768 * k + 96" "mlkem_public_key_is_canonical pk (384 * k + 32)"
    "mlkem_private_key_hash_is_valid sk (384 * k + 32) (768 * k + 96)"
    "\<exists>shared_secret c. ML_KEM_Encaps_internal p True pk message = Some (SUCCESS, shared_secret, c) \<and>
       length shared_secret = 32 \<and> length c = 32 * (par_du p * k + par_dv p) \<and>
       (ML_KEM_Decaps_internal p (True, True) sk c = Some (SUCCESS, shared_secret) \<or>
        (\<exists>n<256. large_noise (mlkem_noise p seed pk message n)))"
proof -
  obtain sigma where G: "hash_G (take 32 seed @ [of_nat k]) = (rho, sigma)" by (metis rho prod.collapse)
  have rho32: "length rho = 32" by (simp add: rho)
  have samples: "sample_matrix k rho = Some (Inr matrix)" "sample_vector k (par_eta1 p) sigma 0 = Some (Inr s)"
    "sample_vector k (par_eta1 p) sigma k = Some (Inr e)"
    using secrets(1) G by (simp_all add: key_secrets_def Let_def k [symmetric])
  have can: "\<And>i. i < k \<Longrightarrow> canonical_poly (hat s ! i)" "\<And>i. i < k \<Longrightarrow> canonical_poly (hat e ! i)"
    using len by (simp_all add: hat_def)
  note t = keygen_public [of k matrix "hat s" "hat e", folded t_def]
  have t: "length t = k" "\<And>f. f \<in> set t \<Longrightarrow> canonical_poly f"
    using t secrets(2) can by (auto simp: in_set_conv_nth dot_spec_def)
  show pk: "length pk = 384 * k + 32" using t rho32 by (simp add: pk_def length_encoded_vector)
  have sec: "length (concat (map (encoded_poly 12) (hat s))) = 384 * k"
    unfolding length_encoded_vector by (simp add: hat_def len)
  note parts = private_key_parts [OF sec pk hash_lengths(1) z, of pk, folded sk_def]
  show "length sk = 768 * k + 96" by (rule parts)
  show "mlkem_public_key_is_canonical pk (384 * k + 32)"
    unfolding pk_def by (rule own_public_key_canonical [OF t(2,1) rho32])
  have "768 * k + 96 - (384 * k + 32) - 64 = 384 * k" "768 * k + 96 - 64 = 768 * k + 32" by simp_all
  then show "mlkem_private_key_hash_is_valid sk (384 * k + 32) (768 * k + 96)"
    unfolding mlkem_private_key_hash_is_valid_def Let_def by (simp only: parts) (simp add: crypto_constant_time_equal_iff)
  obtain shared_secret randomness where K: "hash_G (message @ hash_H pk) = (shared_secret, randomness)"
    by (cases "hash_G (message @ hash_H pk)")
  have "length shared_secret = 32" by (metis K fst_conv hash_lengths(3))
  from K_PKE_Enc_run [OF p k rho32 samples(1) secrets(2) len message, folded hat_def, folded t_def, folded pk_def, of randomness]
  obtain r e1 e2 c where run: "sample_vector k (par_eta1 p) randomness 0 = Some (Inr r)"
    "sample_vector k (par_eta2 p) randomness k = Some (Inr e1)"
    "sample_small (par_eta2 p) randomness (2 * k) = Some (Inr e2)"
    "K_PKE_Enc p True pk message randomness = Some (Inr c)" "length c = 32 * (par_du p * k + par_dv p)"
    and dec: "let u = encrypt_vector k matrix (hat r) e1;
         v = encrypt_scalar k t (hat r) e2 (map (decomp 1) (message_bits message)) (message_bits message)
     in (\<forall>n<256. small_noise (pke_noise p s e r e1 e2 u v n)) \<longrightarrow>
        K_PKE_Dec p True (concat (map (encoded_poly 12) (hat s))) c = Some (Inr message)"
    by metis
  have enc: "ML_KEM_Encaps_internal p True pk message = Some (SUCCESS, shared_secret, c)"
    using K run(4) message pk by (simp add: ML_KEM_Encaps_internal_def Let_def k [symmetric])
  have noise: "mlkem_noise p seed pk message = pke_noise p s e r e1 e2 (encrypt_vector k matrix (hat r) e1)
      (encrypt_scalar k t (hat r) e2 (map (decomp 1) (message_bits message)) (message_bits message))"
    using G K run(1,2,3) samples message by (simp add: mlkem_noise_def Let_def k [symmetric] hat_def t_def)
  have "ML_KEM_Decaps_internal p (True, True) sk c = Some (SUCCESS, shared_secret)"
    if "\<not> (\<exists>n<256. large_noise (mlkem_noise p seed pk message n))"
  proof -
    have "K_PKE_Dec p True (concat (map (encoded_poly 12) (hat s))) c = Some (Inr message)"
      using dec that unfolding Let_def noise large_noise by blast
    moreover have "mlkem_select (mlkem_mismatch c c (length c)) shared_secret x = shared_secret" if "length x = 32" for x
      using mlkem_select [of shared_secret x False] that \<open>length shared_secret = 32\<close> by (simp add: mlkem_mismatch)
    ultimately show ?thesis
      using K run(4,5) message unfolding ML_KEM_Decaps_internal_def Let_def k [symmetric] parts by simp
  qed
  then show "\<exists>shared_secret c. ML_KEM_Encaps_internal p True pk message = Some (SUCCESS, shared_secret, c) \<and>
       length shared_secret = 32 \<and> length c = 32 * (par_du p * k + par_dv p) \<and>
       (ML_KEM_Decaps_internal p (True, True) sk c = Some (SUCCESS, shared_secret) \<or>
        (\<exists>n<256. large_noise (mlkem_noise p seed pk message n)))"
    using enc run(5) \<open>length shared_secret = 32\<close> by blast
qed

lemma parameter_sets_valid: "p \<in> set MLKEM_PARAMETER_SETS \<Longrightarrow> mlkem_parameters_valid p"
  by (auto simp: MLKEM_PARAMETER_SETS_def mlkem_parameters_valid_def)

text \<open>
  C7. ML-KEM is correct, for its three parameter sets. Key generation returns unless one of the
  matrix seeds starves the rejection sampler (its whole SHAKE128 stream holds fewer than 256
  candidates). The key pair it returns passes the two input checks; encapsulation to it always returns, and
  decapsulation of the ciphertext returns the same shared secret, unless a coefficient of the
  noise polynomial of this encryption leaves the range from -832 to 831 modulo 3329.
\<close>

theorem ML_KEM_correct:
  assumes "p \<in> set MLKEM_PARAMETER_SETS" "length rejection_seed = 32" "length message = 32"
  shows "case ML_KEM_KeyGen_internal p True seed rejection_seed of
      None \<Rightarrow> \<exists>i<par_k p. \<exists>j<par_k p.
        starved (fst (hash_G (take 32 seed @ [of_nat (par_k p)])) @ [of_nat j, of_nat i])
    | Some (result, pk, sk) \<Rightarrow>
        result = SUCCESS \<and> length pk = 384 * par_k p + 32 \<and> length sk = 768 * par_k p + 96 \<and>
        mlkem_public_key_is_canonical pk (length pk) \<and> mlkem_private_key_hash_is_valid sk (length pk) (length sk) \<and>
        (\<exists>shared_secret c. ML_KEM_Encaps_internal p True pk message = Some (SUCCESS, shared_secret, c) \<and>
           length shared_secret = 32 \<and> length c = 32 * (par_du p * par_k p + par_dv p) \<and>
           (ML_KEM_Decaps_internal p (True, True) sk c = Some (SUCCESS, shared_secret) \<or>
            (\<exists>n<256. large_noise (mlkem_noise p seed pk message n))))"
proof -
  note valid = parameter_sets_valid [OF assms(1)]
  let ?rho = "fst (hash_G (take 32 seed @ [of_nat (par_k p)]))" and ?hat = "map (\<lambda>f. NTT f GenZeta)"
  have "K_PKE_KeyGen p True seed = None \<and> (\<exists>i<par_k p. \<exists>j<par_k p. starved (?rho @ [of_nat j, of_nat i])) \<or>
    (\<exists>matrix s e. key_secrets p seed matrix s e \<and> (\<forall>i<par_k p. \<forall>j<par_k p. canonical_poly (matrix ! i ! j)) \<and>
      length s = par_k p \<and> length e = par_k p \<and> (\<forall>f\<in>set s \<union> set e. canonical_poly f) \<and>
      (let t = keygen_public (par_k p) matrix (?hat s) (?hat e)
       in K_PKE_KeyGen p True seed =
         Some (Inr (concat (map (encoded_poly 12) t) @ ?rho, concat (map (encoded_poly 12) (?hat s))))))"
    using K_PKE_KeyGen_run [OF valid refl refl, of seed] by (simp only: Let_def)
  then show ?thesis
  proof (elim disjE)
    assume "K_PKE_KeyGen p True seed = None \<and> (\<exists>i<par_k p. \<exists>j<par_k p. starved (?rho @ [of_nat j, of_nat i]))"
    then show ?thesis by (simp add: ML_KEM_KeyGen_internal_def)
  next
    assume "\<exists>matrix s e. key_secrets p seed matrix s e \<and> (\<forall>i<par_k p. \<forall>j<par_k p. canonical_poly (matrix ! i ! j)) \<and>
      length s = par_k p \<and> length e = par_k p \<and> (\<forall>f\<in>set s \<union> set e. canonical_poly f) \<and>
      (let t = keygen_public (par_k p) matrix (?hat s) (?hat e)
       in K_PKE_KeyGen p True seed =
         Some (Inr (concat (map (encoded_poly 12) t) @ ?rho, concat (map (encoded_poly 12) (?hat s)))))"
    then obtain matrix s e where
      secrets: "key_secrets p seed matrix s e" "\<forall>i<par_k p. \<forall>j<par_k p. canonical_poly (matrix ! i ! j)"
        "length s = par_k p" "length e = par_k p" "\<forall>f\<in>set s \<union> set e. canonical_poly f"
      and run: "let t = keygen_public (par_k p) matrix (?hat s) (?hat e)
       in K_PKE_KeyGen p True seed =
         Some (Inr (concat (map (encoded_poly 12) t) @ ?rho, concat (map (encoded_poly 12) (?hat s))))"
      by blast
    let ?pk = "concat (map (encoded_poly 12) (keygen_public (par_k p) matrix (?hat s) (?hat e))) @ ?rho"
    let ?sk = "concat (map (encoded_poly 12) (?hat s)) @ ?pk @ hash_H ?pk @ rejection_seed"
    from run have run: "K_PKE_KeyGen p True seed = Some (Inr (?pk, concat (map (encoded_poly 12) (?hat s))))"
      by (simp only: Let_def)
    note facts = shared_secret_recovered [OF valid refl refl secrets assms(2,3)]
    have embedded: "take (384 * par_k p + 32) ?pk = ?pk" using facts(1) by (simp only: take_all order_refl)
    have vector: "take (384 * par_k p) (concat (map (encoded_poly 12) (?hat s))) = concat (map (encoded_poly 12) (?hat s))"
      using secrets(3) by (intro take_all) (simp only: length_encoded_vector length_map order_refl)
    have z: "take 32 rejection_seed = rejection_seed" using assms(2) by simp
    have "ML_KEM_KeyGen_internal p True seed rejection_seed = Some (SUCCESS, ?pk, ?sk)"
      unfolding ML_KEM_KeyGen_internal_def Let_def run by (simp only: option.case sum.case prod.case embedded vector z)
    then show ?thesis using facts by (simp only: option.case prod.case simp_thms)
  qed
qed

lemma ML_KEM_correct_witness:
  "case ML_KEM_KeyGen_internal (MLKEM_PARAMETER_SETS ! 1) True (replicate 32 1) (replicate 32 2) of
      None \<Rightarrow> \<exists>i<3. \<exists>j<3. starved (fst (hash_G (replicate 32 1 @ [3])) @ [of_nat j, of_nat i])
    | Some (result, pk, sk) \<Rightarrow>
        result = SUCCESS \<and> length pk = 1184 \<and> length sk = 2400 \<and>
        mlkem_public_key_is_canonical pk (length pk) \<and> mlkem_private_key_hash_is_valid sk (length pk) (length sk) \<and>
        (\<exists>shared_secret c. ML_KEM_Encaps_internal (MLKEM_PARAMETER_SETS ! 1) True pk (replicate 32 3) =
             Some (SUCCESS, shared_secret, c) \<and>
           length shared_secret = 32 \<and> length c = 1088 \<and>
           (ML_KEM_Decaps_internal (MLKEM_PARAMETER_SETS ! 1) (True, True) sk c = Some (SUCCESS, shared_secret) \<or>
            (\<exists>n<256. large_noise (mlkem_noise (MLKEM_PARAMETER_SETS ! 1) (replicate 32 1) pk (replicate 32 3) n))))"
proof -
  let ?p = "MLKEM_PARAMETER_SETS ! 1"
  have p: "?p \<in> set MLKEM_PARAMETER_SETS" "par_k ?p = 3" "par_du ?p = 10" "par_dv ?p = 4"
    by (simp_all add: MLKEM_PARAMETER_SETS_def)
  have sizes: "384 * 3 + 32 = (1184 :: nat)" "768 * 3 + 96 = (2400 :: nat)" "32 * (10 * 3 + 4) = (1088 :: nat)"
    "take 32 (replicate 32 1) = (replicate 32 1 :: byte list)" "of_nat 3 = (3 :: byte)" by simp_all
  show ?thesis
    by (rule ML_KEM_correct [of ?p "replicate 32 2" "replicate 32 3" "replicate 32 1", unfolded p(2-) sizes])
      (rule p(1), simp_all only: length_replicate)
qed

end
