(* ===== verification/ML_KEM_Interface.thy ===== *)
theory ML_KEM_Interface
  imports ML_KEM_Correct
begin

text \<open>
  The entry points of ML-KEM on every branch: encryption and decryption return for every input of
  the right sizes, so decapsulation answers every ciphertext, with the implicit rejection of FIPS 203.
\<close>

section \<open>Encryption and decryption of arbitrary inputs\<close>

lemma decode_compressed_total:
  assumes "1 \<le> d" "d \<le> 11" "32 * d \<le> length input"
  shows "\<exists>f. decode_compressed d input = Some (Inr f) \<and> canonical_poly f"
proof -
  define f where "f = map (\<lambda>i. int (nat_of_le input div 2 ^ (d * i) mod 2 ^ d mod modulus_of d)) [0..<256]"
  have dec: "ByteDecode input d = (0, f)" using assms by (simp add: ByteDecode_eq f_def)
  have f: "0 \<le> a \<and> a < 2 ^ d" if "a \<in> set f" for a
  proof -
    from that obtain m where "a = int (m mod modulus_of d)" by (auto simp: f_def)
    moreover have "m mod modulus_of d < 2 ^ d" using assms(1,2) by (simp add: modulus_of_def)
    ultimately show ?thesis by (simp add: nat_less_numeral_power_cancel_iff flip: of_nat_less_iff)
  qed
  then have "Decomp f d = (0, map (decomp d) f)" using assms(1,2) by (intro Decomp_eq) auto
  moreover have "canonical_poly (map (decomp d) f)"
  proof -
    have "length f = 256" by (simp add: f_def)
    then show ?thesis using f assms(1,2) by (auto simp: canonical_poly_def intro!: decomp_canonical)
  qed
  ultimately show ?thesis using dec by (simp add: decode_compressed_def)
qed

lemma decode_vector_total:
  assumes "384 * k \<le> length input"
  shows "\<exists>fs. decode_vector k 12 input = Some (Inr fs) \<and> length fs = k \<and> (\<forall>i<k. canonical_poly (fs ! i))"
proof -
  have one: "False \<or> (\<exists>f. checked (ByteDecode (drop (i * (32 * 12)) input) 12) = Some (Inr f) \<and> canonical_poly f)"
    if "i \<in> set [0..<k]" for i
  proof -
    have "Suc i * 384 \<le> k * 384" using that by (intro mult_le_mono1) simp
    then have "32 * 12 \<le> length (drop (i * (32 * 12)) input)" using assms by simp
    then show ?thesis by (auto simp: ByteDecode_eq modulus_of_def canonical_poly_def canonical_def)
  qed
  then show ?thesis
    using each_total [of "[0..<k]" "\<lambda>i. checked (ByteDecode (drop (i * (32 * 12)) input) 12)" "\<lambda>_. False" "\<lambda>_. canonical_poly"]
    by (auto simp: decode_vector_def)
qed

lemma K_PKE_Dec_total:
  assumes p: "mlkem_parameters_valid p" and k: "k = par_k p"
    and len: "length sk = 384 * k" "length c = 32 * (par_du p * k + par_dv p)"
  shows "\<exists>message. K_PKE_Dec p True sk c = Some (Inr message) \<and> length message = 32"
proof -
  note d = parameters_bounds [OF p]
  let ?du = "par_du p" and ?dv = "par_dv p"
  have one: "False \<or> (\<exists>f. decode_compressed ?du (drop (i * (32 * ?du)) c) = Some (Inr f) \<and> canonical_poly f)"
    if "i \<in> set [0..<k]" for i
  proof -
    have "Suc i * (32 * ?du) \<le> k * (32 * ?du)" using that by (intro mult_le_mono1) simp
    then have "32 * ?du \<le> length (drop (i * (32 * ?du)) c)" using len(2) by (simp add: algebra_simps)
    then show ?thesis using decode_compressed_total [OF d(1,2)] by blast
  qed
  then obtain u where u: "each (\<lambda>i. decode_compressed ?du (drop (i * (32 * ?du)) c)) [0..<k] = Some (Inr u)"
    "length u = k" "\<forall>i<k. canonical_poly (u ! i)"
    using each_total [of "[0..<k]" "\<lambda>i. decode_compressed ?du (drop (i * (32 * ?du)) c)" "\<lambda>_. False" "\<lambda>_. canonical_poly"]
    by auto
  have "32 * ?dv \<le> length (drop (k * (32 * ?du)) c)" using len(2) by (simp add: algebra_simps)
  then obtain v where v: "decode_compressed ?dv (drop (k * (32 * ?du)) c) = Some (Inr v)" "canonical_poly v"
    using decode_compressed_total [OF d(3,4)] by blast
  obtain s where s: "decode_vector k 12 sk = Some (Inr s)" "\<forall>i<k. canonical_poly (s ! i)"
    using decode_vector_total [of k sk] len(1) by auto
  have "canonical_poly (decrypt_scalar k s u v)" using s(2) u(2,3) v(2) by (intro decrypt_scalar(1)) auto
  then have "checked (Comp (decrypt_scalar k s u v) 1) = Some (Inr (map (comp 1) (decrypt_scalar k s u v)))"
    by (intro Comp_run) simp_all
  then show ?thesis
    using p u(1) v(1) s(1) ByteEncode_run [of 1] by (simp add: K_PKE_Dec_def Let_def k [symmetric])
qed

lemma sample_matrix_fed:
  assumes "sample_matrix k rho = Some (Inr matrix)"
  shows "\<not> (\<exists>i<k. \<exists>j<k. starved (take 32 rho @ [of_nat j, of_nat i]))"
proof -
  have "\<not> starved (take 32 rho @ [of_nat j, of_nat i])" if "i < k" "j < k" for i j
  proof -
    have "each (sample_entry rho i) [0..<k] = Some (Inr (matrix ! i))"
      using each_result [OF assms [unfolded sample_matrix_def]] that(1) by simp
    then have "sample_entry rho i j = Some (Inr (matrix ! i ! j))"
      using each_result [of "sample_entry rho i" "[0..<k]"] that(2) by simp
    then have "SampleNTT (take 32 rho @ [of_nat j, of_nat i]) \<noteq> None"
      by (auto simp: sample_entry_def split: option.splits)
    then show ?thesis by (auto simp: SampleNTT_eq starved_def split: if_splits)
  qed
  then show ?thesis by blast
qed

lemma K_PKE_Enc_total:
  assumes p: "mlkem_parameters_valid p" and k: "k = par_k p"
    and len: "length pk = 384 * k + 32" "length message = 32"
  shows "K_PKE_Enc p True pk message randomness = None \<and> (\<exists>i<k. \<exists>j<k. starved (drop (384 * k) pk @ [of_nat j, of_nat i])) \<or>
    (\<exists>c. K_PKE_Enc p True pk message randomness = Some (Inr c) \<and> length c = 32 * (par_du p * k + par_dv p)) \<and>
    \<not> (\<exists>i<k. \<exists>j<k. starved (drop (384 * k) pk @ [of_nat j, of_nat i]))"
proof -
  note d = parameters_bounds [OF p]
  let ?rho = "drop (384 * k) pk"
  have rho: "take 32 ?rho = ?rho" "drop (k * 384) pk = ?rho" using len(1) by (simp_all add: mult.commute)
  obtain t where t: "decode_vector k 12 pk = Some (Inr t)" "length t = k" "\<forall>i<k. canonical_poly (t ! i)"
    using decode_vector_total [of k pk] len(1) by auto
  have eta: "par_eta1 p = 2 \<or> par_eta1 p = 3" "par_eta2 p = 2 \<or> par_eta2 p = 3" using d by simp_all
  obtain r where r: "sample_vector k (par_eta1 p) randomness 0 = Some (Inr r)" "length r = k" "\<forall>f\<in>set r. canonical_poly f"
    using sample_vector_run [OF eta(1)] by meson
  obtain e1 where e1: "sample_vector k (par_eta2 p) randomness k = Some (Inr e1)" "length e1 = k" "\<forall>f\<in>set e1. canonical_poly f"
    using sample_vector_run [OF eta(2)] by meson
  obtain e2 where e2: "sample_small (par_eta2 p) randomness (2 * k) = Some (Inr e2)" "canonical_poly e2"
    using sample_small_run [OF eta(2)] by meson
  from sample_matrix_run [of k ?rho, unfolded rho] show ?thesis
  proof (elim disjE conjE)
    assume "sample_matrix k ?rho = None" "\<exists>i<k. \<exists>j<k. starved (?rho @ [of_nat j, of_nat i])"
    then show ?thesis using p t(1) rho by (simp add: K_PKE_Enc_def Let_def k [symmetric])
  next
    assume "\<exists>matrix. sample_matrix k ?rho = Some (Inr matrix) \<and> (\<forall>i<k. \<forall>j<k. canonical_poly (matrix ! i ! j))"
    then obtain matrix where m: "sample_matrix k ?rho = Some (Inr matrix)" "\<forall>i<k. \<forall>j<k. canonical_poly (matrix ! i ! j)"
      by blast
    let ?hat = "map (\<lambda>f. NTT f GenZeta)"
    let ?m = "map (decomp 1) (message_bits message)"
    define u where "u = encrypt_vector k matrix (?hat r) e1"
    define v where "v = encrypt_scalar k t (?hat r) e2 ?m (message_bits message)"
    have u: "length u = k" "\<And>i. i < k \<Longrightarrow> canonical_poly (u ! i)"
      using encrypt_vector(1,2) [of k matrix "?hat r" e1] m(2) r(2,3) e1(2,3) by (simp_all add: u_def)
    then have us: "\<And>f. f \<in> set u \<Longrightarrow> canonical_poly f" by (auto simp: in_set_conv_nth)
    have v: "canonical_poly v"
      unfolding v_def using t(3) r(2,3) e2(2) message_poly_run [OF len(2)] message_bits(2) [OF len(2)]
      by (intro encrypt_scalar(1)) simp_all
    have "encrypt_core p matrix t r e1 e2 message = Some (Inr (ciphertext_of (par_du p) (par_dv p) u v))"
      using encode_ciphertext_run(1) [OF d(1-4) us v]
      by (simp add: encrypt_core_def Let_def message_poly_run [OF len(2)] u_def v_def k [symmetric])
    then have "K_PKE_Enc p True pk message randomness = Some (Inr (ciphertext_of (par_du p) (par_dv p) u v))"
      using p t(1) rho m(1) r(1) e1(1) e2(1) by (simp add: K_PKE_Enc_def Let_def k [symmetric])
    moreover have "length (ciphertext_of (par_du p) (par_dv p) u v) = 32 * (par_du p * k + par_dv p)"
      using encode_ciphertext_run(2) [OF d(1-4) us v] u(1) by (simp add: algebra_simps)
    moreover note sample_matrix_fed [OF m(1), unfolded rho]
    ultimately show ?thesis by blast
  qed
qed

section \<open>Decapsulation\<close>

text \<open>
  Algorithm 18 of FIPS 203 over the encryption scheme: the secret of the decrypted message if its
  encryption is the ciphertext, and otherwise a secret derived from the ciphertext.
\<close>

definition fips203_decaps :: "mlkem_parameters \<Rightarrow> byte list \<Rightarrow> byte list \<Rightarrow> byte list" where
  "fips203_decaps p dk c =
     (let k = par_k p;
          ek = take (384 * k + 32) (drop (384 * k) dk);
          h = take 32 (drop (768 * k + 32) dk);
          z = take 32 (drop (768 * k + 64) dk);
          message = sampled (K_PKE_Dec p True (take (384 * k) dk) c);
          (K, r) = hash_G (message @ h)
      in if sampled (K_PKE_Enc p True ek message r) = c then K else hash_J (z @ c))"

lemma ML_KEM_Decaps_internal_run:
  assumes p: "mlkem_parameters_valid p" and k: "k = par_k p"
    and len: "length dk = 768 * k + 96" "length c = 32 * (par_du p * k + par_dv p)"
  shows "ML_KEM_Decaps_internal p allocated dk c =
    (if allocated \<noteq> (True, True) then Some (ALLOCATION_FAILED, zeroes 32)
     else if \<exists>i<k. \<exists>j<k. starved (take 32 (drop (768 * k) dk) @ [of_nat j, of_nat i]) then None
     else Some (SUCCESS, fips203_decaps p dk c))"
proof -
  obtain a b where ab: "allocated = (a, b)" by (cases allocated)
  let ?sk = "take (384 * k) dk" and ?ek = "take (384 * k + 32) (drop (384 * k) dk)"
    and ?h = "take 32 (drop (768 * k + 32) dk)"
  have "length ?sk = 384 * k" using len(1) by simp
  then obtain message where dec: "K_PKE_Dec p True ?sk c = Some (Inr message)" "length message = 32"
    using K_PKE_Dec_total [OF p k _ len(2)] by blast
  obtain K r where G: "hash_G (message @ ?h) = (K, r)" by (cases "hash_G (message @ ?h)")
  have K: "length K = 32" by (metis G fst_conv hash_lengths(3))
  have ek: "length ?ek = 384 * k + 32" using len(1) by simp
  have rho: "drop (384 * k) ?ek = take 32 (drop (768 * k) dk)" by (simp add: drop_take)
  have fail: "K_PKE_Dec p False x y = Some (Inl ALLOCATION_FAILED)"
    "K_PKE_Enc p False x y w = Some (Inl ALLOCATION_FAILED)" for x y w
    using p by (simp_all add: K_PKE_Dec_def K_PKE_Enc_def)
  consider "\<not> a" | "a" "\<not> b" | "a" "b" by blast
  then show ?thesis
  proof cases
    case 1
    then show ?thesis by (simp add: ML_KEM_Decaps_internal_def Let_def ab fail)
  next
    case 2
    then show ?thesis using dec G by (simp add: ML_KEM_Decaps_internal_def Let_def ab fail k [symmetric])
  next
    case 3
    let ?z = "take 32 (drop (768 * k + 64) dk)"
    from K_PKE_Enc_total [OF p k ek dec(2), of r] show ?thesis
      unfolding rho
    proof (elim disjE conjE exE)
      assume fed: "\<not> (\<exists>i<k. \<exists>j<k. starved (take 32 (drop (768 * k) dk) @ [of_nat j, of_nat i]))"
      fix c' assume c': "K_PKE_Enc p True ?ek message r = Some (Inr c')" "length c' = 32 * (par_du p * k + par_dv p)"
      have "mlkem_select (mlkem_mismatch c c' (length c)) K (hash_J (?z @ c)) =
          (if c' = c then K else hash_J (?z @ c))"
        using K c'(2) len(2) by (subst mlkem_mismatch) (auto simp: mlkem_select)
      then show ?thesis
        using 3 dec G c' len(2) fed by (simp add: ML_KEM_Decaps_internal_def fips203_decaps_def Let_def ab k [symmetric])
    qed (use 3 dec G in \<open>auto simp: ML_KEM_Decaps_internal_def Let_def ab k [symmetric]\<close>)
  qed
qed

section \<open>The entry points\<close>

lemma parameters_for_cases:
  obtains "mlkem_parameters_for alg = None" "crypto_ml_kem_public_key_size_internal alg = 0"
    "crypto_ml_kem_private_key_size_internal alg = 0" "crypto_ml_kem_ciphertext_size_internal alg = 0"
  | p where "mlkem_parameters_for alg = Some p" "mlkem_parameters_valid p"
    "crypto_ml_kem_public_key_size_internal alg = 384 * par_k p + 32"
    "crypto_ml_kem_private_key_size_internal alg = 768 * par_k p + 96"
    "crypto_ml_kem_ciphertext_size_internal alg = 32 * (par_du p * par_k p + par_dv p)"
proof -
  have "mlkem_parameters_for alg = None \<and> crypto_ml_kem_public_key_size_internal alg = 0 \<and>
      crypto_ml_kem_private_key_size_internal alg = 0 \<and> crypto_ml_kem_ciphertext_size_internal alg = 0 \<or>
    (\<exists>p. mlkem_parameters_for alg = Some p \<and> mlkem_parameters_valid p \<and>
      crypto_ml_kem_public_key_size_internal alg = 384 * par_k p + 32 \<and>
      crypto_ml_kem_private_key_size_internal alg = 768 * par_k p + 96 \<and>
      crypto_ml_kem_ciphertext_size_internal alg = 32 * (par_du p * par_k p + par_dv p))"
    by (simp add: mlkem_parameters_for_def MLKEM_PARAMETER_SETS_def mlkem_parameters_valid_def
        crypto_ml_kem_public_key_size_internal_def crypto_ml_kem_private_key_size_internal_def
        crypto_ml_kem_ciphertext_size_internal_def)
  then show thesis using that by blast
qed

lemma zeroize_after_store: "p \<noteq> 0 \<Longrightarrow> length bs = n \<Longrightarrow> crypto_zeroize (store m p bs) p n = store m p (zeroes n)"
  by (auto simp: crypto_zeroize_def store_apply fun_eq_iff)

lemma hash_valid_iff:
  assumes "length dk = 768 * k + 96"
  shows "mlkem_private_key_hash_is_valid dk (384 * k + 32) (768 * k + 96) \<longleftrightarrow>
    hash_H (take (384 * k + 32) (drop (384 * k) dk)) = take 32 (drop (768 * k + 32) dk)"
proof -
  have "768 * k + 96 - (384 * k + 32) - 64 = 384 * k" "768 * k + 96 - 64 = 768 * k + 32" by simp_all
  then show ?thesis
    unfolding mlkem_private_key_hash_is_valid_def Let_def
    using assms by (simp only:) (subst crypto_constant_time_equal_iff; simp)
qed

text \<open>
  C8. Decapsulation through the public interface, on every branch: the errors in the order of the code,
  with nothing written before the arguments are accepted and the secret erased on every later
  error; otherwise, for every ciphertext whatsoever, the answer of FIPS 203 with its implicit
  rejection is stored in the 32 bytes of the secret, and nothing else is written. The call does not return
  exactly when the seed in the key starves the rejection sampler.
\<close>

theorem LIBERAC_ML_KEM_DECAPS_correct:
  "LIBERAC_ML_KEM_DECAPS allocated m sk sk_len ct ct_len ss alg =
    (case mlkem_parameters_for alg of
       None \<Rightarrow> Some (INVALID_ALG_ID, m)
     | Some p \<Rightarrow>
         let k = par_k p; key_size = 768 * k + 96; ct_size = 32 * (par_du p * k + par_dv p);
             dk = load m sk key_size; c = load m ct ct_size; erased = store m ss (zeroes 32)
         in if sk = 0 \<or> ct = 0 \<or> ss = 0 then Some (INVALID_ARGUMENT, m)
            else if sk_len < key_size \<or> ct_len < ct_size then Some (BUFFER_TOO_SMALL, m)
            else if crypto_ranges_overlap sk key_size ss 32 \<or> crypto_ranges_overlap ct ct_size ss 32 then Some (INVALID_ARGUMENT, m)
            else if hash_H (take (384 * k + 32) (drop (384 * k) dk)) \<noteq> take 32 (drop (768 * k + 32) dk)
            then Some (INVALID_KEY, erased)
            else if allocated \<noteq> (True, True) then Some (ALLOCATION_FAILED, erased)
            else if \<exists>i<k. \<exists>j<k. starved (take 32 (drop (768 * k) dk) @ [of_nat j, of_nat i]) then None
            else Some (SUCCESS, store m ss (fips203_decaps p dk c)))"
proof (cases rule: parameters_for_cases [of alg])
  case 1
  then show ?thesis by (simp add: LIBERAC_ML_KEM_DECAPS_def crypto_ml_kem_decaps_internal_def)
next
  case (2 p)
  let ?k = "par_k p"
  let ?dk = "load m sk (768 * ?k + 96)" and ?c = "load m ct (32 * (par_du p * ?k + par_dv p))"
  note run = ML_KEM_Decaps_internal_run [OF 2(2) refl, of ?dk ?c allocated, unfolded length_load, OF refl refl]
  have key: "0 < 768 * ?k + 96" "0 < 32 * (par_du p * ?k + par_dv p)"
    using parameters_bounds(3) [OF 2(2)] by simp_all
  let ?starved = "\<exists>i<?k. \<exists>j<?k. starved (take 32 (drop (768 * ?k) ?dk) @ [of_nat j, of_nat i])"
  have erase: "crypto_zeroize m ss 32 = store m ss (zeroes 32)"
    "crypto_zeroize (store m ss (zeroes 32)) ss 32 = store m ss (zeroes 32)" if "ss \<noteq> 0"
    using that by (simp_all add: zeroize_after_store) (simp add: crypto_zeroize_def)
  have final: "(case (if allocated \<noteq> (True, True) then Some (ALLOCATION_FAILED, zeroes 32) else if ?starved then None
        else Some (SUCCESS, fips203_decaps p ?dk ?c)) of
       None \<Rightarrow> None
     | Some (result, shared_secret) \<Rightarrow>
         Some (result, if result \<noteq> SUCCESS then crypto_zeroize (store m ss shared_secret) ss 32 else store m ss shared_secret)) =
    (if allocated \<noteq> (True, True) then Some (ALLOCATION_FAILED, store m ss (zeroes 32))
     else if ?starved then None else Some (SUCCESS, store m ss (fips203_decaps p ?dk ?c)))" if "ss \<noteq> 0"
    using erase [OF that] by (cases "allocated = (True, True)"; cases ?starved) (simp_all only: refl simp_thms if_True if_False option.case prod.case status.distinct)
  have nonzero: "(768 * ?k + 96 = 0 \<or> 32 * (par_du p * ?k + par_dv p) = 0) = False" using key by simp
  show ?thesis
    unfolding LIBERAC_ML_KEM_DECAPS_def crypto_ml_kem_decaps_internal_def 2 ML_KEM_Decaps_def Let_def
      hash_valid_iff [of ?dk ?k, unfolded length_load, OF refl] run option.case nonzero if_False
    by (intro if_cong refl) (simp_all only: erase final de_Morgan_disj simp_thms)
qed

lemma ML_KEM_Encaps_run:
  assumes p: "mlkem_parameters_valid p" and k: "k = par_k p" and len: "length ek = 384 * k + 32"
    and os: "\<And>message t. os s 32 = (Some message, t) \<Longrightarrow> length message = 32"
  shows "ML_KEM_Encaps os s p allocated ek =
    (let ct_size = 32 * (par_du p * k + par_dv p)
     in case os s 32 of
          (None, t) \<Rightarrow> Some (RANDOM_FAILED, zeroes 32, zeroes ct_size, t)
        | (Some message, t) \<Rightarrow>
            (let (K, r) = hash_G (message @ hash_H ek)
             in if \<not> allocated then Some (ALLOCATION_FAILED, zeroes 32, zeroes ct_size, t)
                else if \<exists>i<k. \<exists>j<k. starved (drop (384 * k) ek @ [of_nat j, of_nat i]) then None
                else Some (SUCCESS, K, sampled (K_PKE_Enc p True ek message r), t)))"
proof -
  obtain b t where bt: "os s 32 = (b, t)" by (cases "os s 32")
  show ?thesis
  proof (cases b)
    case None
    then show ?thesis
      using bt by (simp add: ML_KEM_Encaps_def RBG_def crypto_pqc_random_bytes_internal_def
          crypto_random_bytes_internal_def Let_def k)
  next
    case (Some message)
    have m: "length message = 32" using os bt Some by simp
    have rbg: "RBG os s 32 = (SUCCESS, message, t)"
      using bt Some by (simp add: RBG_def crypto_pqc_random_bytes_internal_def crypto_random_bytes_internal_def)
    obtain K r where G: "hash_G (message @ hash_H ek) = (K, r)" by (cases "hash_G (message @ hash_H ek)")
    have enc: "ML_KEM_Encaps_internal p allocated ek message = (case K_PKE_Enc p allocated ek message r of
        None \<Rightarrow> None
      | Some (Inl result) \<Rightarrow> Some (result, zeroes 32, zeroes (32 * (par_du p * k + par_dv p)))
      | Some (Inr ciphertext) \<Rightarrow> Some (SUCCESS, K, ciphertext))"
      using m G len by (simp add: ML_KEM_Encaps_internal_def Let_def k [symmetric])
    have fail: "K_PKE_Enc p False ek message r = Some (Inl ALLOCATION_FAILED)" using p by (simp add: K_PKE_Enc_def)
    from K_PKE_Enc_total [OF p k len m, of r] show ?thesis
      using bt Some rbg G enc fail
      by (cases allocated) (auto simp: ML_KEM_Encaps_def Let_def k [symmetric])
  qed
qed

text \<open>
  C12. Encapsulation through the public interface, on every branch: the errors in the order of the
  code, a public key that fails the modulus check of FIPS 203 being refused; on every error after
  the arguments are accepted both outputs are erased. Otherwise the random message determines
  the secret and the ciphertext as in FIPS 203, which are stored in their buffers and nothing
  else is written.
\<close>

theorem LIBERAC_ML_KEM_ENCAPS_correct:
  assumes os: "\<And>message t. os s 32 = (Some message, t) \<Longrightarrow> length message = 32"
  shows "LIBERAC_ML_KEM_ENCAPS os s allocated m pk pk_len ss ct ct_len alg =
    (case mlkem_parameters_for alg of
       None \<Rightarrow> Some (INVALID_ALG_ID, m, s)
     | Some p \<Rightarrow>
         let k = par_k p; pk_size = 384 * k + 32; ct_size = 32 * (par_du p * k + par_dv p);
             ek = load m pk pk_size; erased = store (store m ss (zeroes 32)) ct (zeroes ct_size)
         in if pk = 0 \<or> ss = 0 \<or> ct = 0 then Some (INVALID_ARGUMENT, m, s)
            else if pk_len < pk_size \<or> ct_len < ct_size then Some (BUFFER_TOO_SMALL, m, s)
            else if \<not> disjoint pk pk_size ss 32 \<or> \<not> disjoint pk pk_size ct ct_size \<or> \<not> disjoint ss 32 ct ct_size
            then Some (INVALID_ARGUMENT, m, s)
            else if \<not> (\<forall>i<k. ByteEncode (snd (ByteDecode (take 384 (drop (i * 384) ek)) 12)) 12 =
                          (0, take 384 (drop (i * 384) ek)))
            then Some (INVALID_KEY, erased, s)
            else case os s 32 of
                   (None, t) \<Rightarrow> Some (RANDOM_FAILED, erased, t)
                 | (Some message, t) \<Rightarrow>
                     (let (K, r) = hash_G (message @ hash_H ek)
                      in if \<not> allocated then Some (ALLOCATION_FAILED, erased, t)
                         else if \<exists>i<k. \<exists>j<k. starved (drop (384 * k) ek @ [of_nat j, of_nat i]) then None
                         else Some (SUCCESS, store (store m ss K) ct (sampled (K_PKE_Enc p True ek message r)), t)))"
proof (cases rule: parameters_for_cases [of alg])
  case 1
  then show ?thesis by (simp add: LIBERAC_ML_KEM_ENCAPS_def crypto_ml_kem_encaps_internal_def)
next
  case (2 p)
  let ?k = "par_k p"
  let ?ek = "load m pk (384 * ?k + 32)" and ?n = "32 * (par_du p * ?k + par_dv p)"
  let ?starved = "\<exists>i<?k. \<exists>j<?k. starved (drop (384 * ?k) ?ek @ [of_nat j, of_nat i])"
  let ?erased = "store (store m ss (zeroes 32)) ct (zeroes ?n)"
  have run: "ML_KEM_Encaps os s p allocated ?ek =
    (case os s 32 of
          (None, t) \<Rightarrow> Some (RANDOM_FAILED, zeroes 32, zeroes ?n, t)
        | (Some message, t) \<Rightarrow>
            (let (K, r) = hash_G (message @ hash_H ?ek)
             in if \<not> allocated then Some (ALLOCATION_FAILED, zeroes 32, zeroes ?n, t)
                else if ?starved then None
                else Some (SUCCESS, K, sampled (K_PKE_Enc p True ?ek message r), t)))"
    by (subst ML_KEM_Encaps_run [OF 2(2) refl length_load os]) (simp_all only: Let_def)
  have nonzero: "(384 * ?k + 32 = 0 \<or> ?n = 0) = False"
    using parameters_bounds(3) [OF 2(2)] by simp
  have erase: "crypto_zeroize (crypto_zeroize m ss 32) ct ?n = ?erased"
    "crypto_zeroize (crypto_zeroize ?erased ss 32) ct ?n = ?erased"
    if "ss \<noteq> 0" "ct \<noteq> 0" "disjoint ss 32 ct ?n"
    using that by (auto simp: crypto_zeroize_def store_apply fun_eq_iff)
  have final: "(case ML_KEM_Encaps os s p allocated ?ek of
       None \<Rightarrow> None
     | Some (result, shared_secret, ciphertext, s) \<Rightarrow>
         Some (result, if result \<noteq> SUCCESS
             then crypto_zeroize (crypto_zeroize (store (store m ss shared_secret) ct ciphertext) ss 32) ct ?n
             else store (store m ss shared_secret) ct ciphertext, s)) =
    (case os s 32 of
       (None, t) \<Rightarrow> Some (RANDOM_FAILED, ?erased, t)
     | (Some message, t) \<Rightarrow>
         (let (K, r) = hash_G (message @ hash_H ?ek)
          in if \<not> allocated then Some (ALLOCATION_FAILED, ?erased, t)
             else if ?starved then None
             else Some (SUCCESS, store (store m ss K) ct (sampled (K_PKE_Enc p True ?ek message r)), t)))"
    if "ss \<noteq> 0" "ct \<noteq> 0" "disjoint ss 32 ct ?n"
  proof (cases "os s 32")
    case (Pair b t)
    then show ?thesis
      unfolding run Pair using erase(2) [OF that]
      by (cases b; cases allocated; cases ?starved)
        (simp_all only: Let_def case_prod_beta option.case prod.case fst_conv snd_conv if_True if_False simp_thms status.distinct)
  qed
  show ?thesis
    unfolding LIBERAC_ML_KEM_ENCAPS_def crypto_ml_kem_encaps_internal_def 2 Let_def
      modulus_check [of ?ek ?k, OF length_load] option.case crypto_ranges_overlap_iff nonzero if_False
    by (intro if_cong refl) (simp_all only: erase final de_Morgan_disj de_Morgan_conj not_not simp_thms Let_def)
qed

text \<open>A key of zeroes is canonical; with no memory left both outputs are erased.\<close>

lemma LIBERAC_ML_KEM_ENCAPS_correct_witness:
  "LIBERAC_ML_KEM_ENCAPS (\<lambda>s n. (Some (replicate n 9), s + 1)) (4 :: nat) False (\<lambda>_. 0) 1000 800 2000 3000 800
      LIBERAC_ALG_ML_KEM_512 =
    Some (ALLOCATION_FAILED, store (store (\<lambda>_. 0) 2000 (zeroes 32)) 3000 (zeroes 768), 5)"
proof -
  obtain p where p: "mlkem_parameters_for LIBERAC_ALG_ML_KEM_512 = Some p" "par_k p = 2" "par_du p = 10" "par_dv p = 4"
    by (simp add: mlkem_parameters_for_def MLKEM_PARAMETER_SETS_def)
  define ek where "ek = load (\<lambda>_. 0) 1000 800"
  have ek: "length ek = 384 * 2 + 32" "\<And>i. i < 800 \<Longrightarrow> ek ! i = 0" by (simp_all add: ek_def)
  have "digit12 ek j = 0" if "j < 512" for j
  proof -
    have "j div 2 < 256" using that by (simp add: less_mult_imp_div_less)
    then show ?thesis by (simp add: digit12_def Let_def ek)
  qed
  then have "mlkem_public_key_is_canonical ek (384 * 2 + 32)" by (simp only: mlkem_public_key_is_canonical_digits) simp
  then have canonical: "\<forall>i<2. ByteEncode (snd (ByteDecode (take 384 (drop (i * 384) ek)) 12)) 12 =
      (0, take 384 (drop (i * 384) ek))"
    using modulus_check [OF ek(1)] by simp
  have sizes: "384 * 2 + 32 = (800 :: nat)" "32 * (10 * 2 + 4) = (768 :: nat)" by simp_all
  have apart: "disjoint 1000 800 2000 32" "disjoint 1000 800 3000 768" "disjoint 2000 32 3000 768"
    by (simp_all add: disjoint_def)
  show ?thesis
    by (subst LIBERAC_ML_KEM_ENCAPS_correct)
      (simp, simp only: p option.case Let_def sizes ek_def [symmetric] apart,
        insert canonical, simp add: case_prod_beta)
qed

end
