(* ===== verification/Spec2Isabelle.thy ===== *)
theory Spec2Isabelle
  imports Authenticated_Encryption Block_Cipher Hash_Function Message_Authentication Key_Derivation CTR_DRBG_Machine Bignum_Vartime_Correct ML_KEM_Interface
begin

text \<open>
  A verification development for LiberaCrypt, a C library of cryptographic primitives.

  \<^bold>\<open>The program.\<close> The public API (\<^verbatim>\<open>inc/\<close>) is a layer of dispatchers
  (\<^verbatim>\<open>src/*.c\<close>), which check the arguments of a call, look up the algorithm by its identifier and
  pass the buffers on to an implementation in a directory of its own (\<^verbatim>\<open>src/<Class>/<Name>/\<close>). The
  implementations are built from one another: HMAC calls the hash object, HKDF and PBKDF2 call
  HMAC, the random generator calls AES or Triple DES, the AEAD modes call a cipher and a
  universal hash, the public-key algorithms call the big integers and the hashes. All of them use
  the leaf utilities of \<^verbatim>\<open>src/Util\<close> for byte order, rotations, constant-time comparison, overlap
  tests and clearing. State lives in caller-owned contexts only (hash, MAC and generator
  objects, big integers); the only other state is the thread-local pointer to the
  active ML-KEM parameter set, which every entry point sets and the models take as an argument.

  \<^bold>\<open>Conventions.\<close>
  \<^item> Bytes are \<open>8 word\<close>, the C integers of w bits are \<open>w word\<close> and \<open>size_t\<close> is a 64-bit word or,
    where the code only compares and subtracts what is known to fit, a natural number with the
    bound as a hypothesis. Wrap-around is the one of the C type.
  \<^item> A buffer is a list of bytes. A call returns its status (the codes of \<^verbatim>\<open>inc/Def.h\<close>, \<open>-1\<close> for an
    invalid argument) together with the contents of every output and every context it may write,
    the error branches included. A null pointer is \<open>None\<close> where the code tests for it. Where a
    claim depends on the aliasing of two buffers, the operation works on one memory and offsets
    (ChaCha20, the AEAD dispatcher, key derivation, ML-KEM).
  \<^item> An operation that calls \<open>malloc\<close> takes the outcomes of its allocations as a list of booleans
    (\<open>heap\<close> of the bignum theories) or as one boolean, so that each out-of-memory branch is a branch
    of the model; the list must only be long enough for the allocations of the call.
  \<^item> Constant-time code (masks, the unconditional subtraction followed by a masked copy, the fixed
    schedules of exponentiation) is modelled word for word, and the lemmas show it equal to the
    branch it avoids. Time itself is not modelled.
  \<^item> Every loop is a fold over its index range, a structural recursion or a function with a termination
    proof, so every operation is total and no theorem carries fuel. The one exception is the
    rejection sampler of ML-KEM, a partial function: \<open>None\<close> is a run that does not return, and its
    theorem says exactly when that happens.

  \<^bold>\<open>Theories.\<close>
  \<^item> \<open>Prelude\<close>: types, status codes, list and word lemmas, and the two lemma collections used as
    simplification sets. \<open>Alg_Ids\<close>: the identifiers of \<^verbatim>\<open>inc/Def.h\<close>.
  \<^item> \<open>Util_Core\<close>: \<^verbatim>\<open>src/Util/{Endian,Bit,Memory}\<close>. Loads invert stores, constant-time comparison is
    equality, the overlap test is sound, the shift-based floor division is division.
  \<^item> \<open>Block_Modes\<close>: the loops of ECB, CBC and CTR over any block permutation; the locale states what a
    cipher must promise (the block inverse), and decryption after encryption is the identity.
  \<^item> \<open>ChaCha20\<close>, \<open>Poly1305\<close>, \<open>ChaCha20_Poly1305\<close>: the stream cipher against RFC 8439 for every
    counter, the 26-bit limb arithmetic of Poly1305 against the polynomial modulo \<open>2 ^ 130 - 5\<close>
    (every block update is exact and keeps the limb bounds), and their AEAD.
  \<^item> \<open>AES\<close>, \<open>AES_Modes\<close>, \<open>AES_AEAD\<close>: the T-table cipher against FIPS 197 (bytes, GF(256), the key
    expansion), its modes, GCM with its table-driven GHASH, and CCM. \<open>Triple_DES\<close>: the packed S-box
    round of \<^verbatim>\<open>triple_des.c\<close> against the permutations of FIPS 46-3, and its modes.
    \<open>Block_Cipher\<close> and \<open>Authenticated_Encryption\<close>: the dispatchers \<^verbatim>\<open>src/BlockCipher.c\<close> and
    \<^verbatim>\<open>src/AuthenticatedEncryption.c\<close>; what was sealed opens, and what does not verify releases no byte.
  \<^item> \<open>Hash_Buffer\<close>: the buffering that the hashes share, as a locale whose facts give an object as a
    function of the bytes absorbed so far. \<open>SHA1\<close>, \<open>SHA2\<close>, \<open>SHA3\<close>, \<open>LSH\<close>: each instantiates it; feeding
    a message in any pieces gives the standard's digest of the concatenation. \<open>SHA3\<close> also proves
    the in-place permutation equal to FIPS 202. \<open>Hash_Function\<close>: the hash object of
    \<^verbatim>\<open>src/HashFunction.c\<close> with its life cycle (initialised, updated, finalized), as a refinement of the
    byte string absorbed.
  \<^item> \<open>HMAC\<close>, \<open>CMAC\<close>, \<open>Message_Authentication\<close>: \<^verbatim>\<open>src/MessageAuthentication.c\<close> against RFC 2104, SP 800-38B and
    the GMAC of SP 800-38D; verification accepts exactly the right tag.
  \<^item> \<open>Output_Blocks\<close>, \<open>Key_Derivation\<close>: the interface of output produced block by block, and HKDF and
    PBKDF2 of \<^verbatim>\<open>src/KeyDerivation.c\<close> against RFC 5869 and RFC 8018.
  \<^item> \<open>CTR_DRBG\<close>, \<open>CTR_DRBG_Spec\<close>, \<open>CTR_DRBG_Correct\<close>, \<open>CTR_DRBG_Machine\<close>: the generator of \<^verbatim>\<open>ctr_drbg.c\<close>,
    SP 800-90A written on bit strings, the refinement of each call, and the step relation of the calls of a
    client with the invariant of every reachable context and the limit on requests between reseeds.
  \<^item> \<open>Bignum_Words\<close>, \<open>Bignum\<close>, \<open>Bignum_Correct\<close>, \<open>Bignum_Bytes\<close>, \<open>Bignum_Mul\<close>, \<open>Bignum_Mul_Correct\<close>,
    \<open>Bignum_Mod\<close>, \<open>Bignum_Mod_Correct\<close>: the big integers of \<^verbatim>\<open>src/Util/Bignum\<close>: \<open>wv xs n\<close> is the value of
    \<open>n\<close> limbs, \<open>bn_ok\<close> the invariant of an object (no leading zero limb, length within capacity), and
    each routine is exact on values: sums, comparison, shifts, bytes, schoolbook and Karatsuba
    products, squares, and Knuth's division with its quotient estimate. Sizes are bounded by
    \<open>2 ^ 57\<close> limbs so that no \<open>size_t\<close> of the code overflows.
  \<^item> \<open>Bignum_Mont\<close>, \<open>Bignum_Mont_Correct\<close>, \<open>Bignum_Mod_Exp_Correct\<close>, \<open>Bignum_Vartime\<close>,
    \<open>Bignum_Vartime_Correct\<close>: Montgomery multiplication and every exponentiation (fixed schedule, public
    exponent, sliding window, binary, even moduli) return the modular power. The locale \<open>montgomery\<close>
    is the interface between multiplication and exponentiation; its interpretations are the
    routines of \<^verbatim>\<open>bignum_secure.c\<close> and \<^verbatim>\<open>bignum_vartime.c\<close>.

  \<^item> \<open>MLKEM_NTT\<close>, \<open>MLKEM_Layers\<close>, \<open>MLKEM_NTT_Correct\<close>, \<open>MLKEM_Ring\<close>: the arithmetic modulo 3329 and the transforms of
    ML-KEM (\<^verbatim>\<open>reduce.h\<close>, \<^verbatim>\<open>NTT_.c\<close> under \<^verbatim>\<open>src/KeyEncapsulation/ML-KEM\<close>): Barrett reduction is exact, the layers split
    residues, and products in the transformed domain are products modulo \<open>X ^ 256 + 1\<close>.
  \<^item> \<open>MLKEM_Encoding\<close>, \<open>MLKEM_Sampling\<close>: \<^verbatim>\<open>auxiliary.c\<close> and \<^verbatim>\<open>hash.c\<close>: packing of coefficients, compression
    with its error bound, the rejection sampler (which returns exactly when the SHAKE128 stream holds
    256 candidates) and the binomial sampler.
  \<^item> \<open>MLKEM_PKE\<close>, \<open>MLKEM_PKE_Correct\<close>: the encryption scheme of \<^verbatim>\<open>K-PKE.c\<close>; decryption recovers the message when
    the noise polynomial is small. A run is \<open>None\<close> when it does not return, else a status or a result.
  \<^item> \<open>ML_KEM\<close>, \<open>ML_KEM_Checks\<close>, \<open>ML_KEM_Correct\<close>, \<open>ML_KEM_Interface\<close>: \<^verbatim>\<open>ML-KEM.c\<close>, \<^verbatim>\<open>api.c\<close> and the ML-KEM entry points
    of \<^verbatim>\<open>src/KeyEncapsulation.c\<close>: the branch-free comparison and selection, the modulus check of public keys,
    recovery of the shared secret, and encapsulation and decapsulation on every branch, with implicit
    rejection as in FIPS 203.

  \<^bold>\<open>Not modelled.\<close>
  \<^item> ML-DSA, SLH-DSA and AIMer: the code is a third-party backend vendored under
    \<^verbatim>\<open>src/DigitalSignature/*/Backend\<close>; the first-party part only selects a parameter set and forwards.
  \<^item> HAETAE, SMAUG-T, NTRU+: lattice schemes over their own polynomial arithmetic and samplers.
  \<^item> ECDSA, ECDH, Ed25519, X25519, RSA, ElGamal, prime generation and the constant-time scalar and field
    arithmetic of \<^verbatim>\<open>src/Util/ECC\<close>: clients of the big integers, whose correctness rests on the group law
    of the curves or on number theory outside the theories imported here.
  \<^item> The random and fixed-width secret routines of the big integers (\<^verbatim>\<open>bignum_secret_io.c\<close>,
    \<^verbatim>\<open>bignum_secret_arith.c\<close>, \<open>crypto_bignum_random_bits\<close>, \<open>crypto_bignum_random_range\<close>), which their callers
    above use.
  \<^item> The operating system's entropy source (\<^verbatim>\<open>src/RandomNumberGeneration/Noise\<close>): system calls. The generator
    takes the entropy as an argument.
  \<^item> Assembly, intrinsics and the SIMD branches chosen at build time; the portable C branch is modelled.
  \<^item> Benchmarks, tests, the known-answer generator of \<^verbatim>\<open>KAT\<close>, build files.
\<close>

end
